(* ===== verification/Vyrm_Prelude.thy ===== *)
theory Vyrm_Prelude
  imports Main "HOL-Library.Word" "HOL-Library.List_Lexorder"
begin

text \<open>
  Shared ground of the development: Rust's machine integers and byte strings, the
  \<open>Result\<close> type with the \<open>?\<close> operator, slices, big- and little-endian field
  encodings, and the loop combinators the components use. Byte strings are compared
  lexicographically, as Rust's \<open>Ord\<close> on \<open>[u8]\<close> does: that is the order of
  \<open>HOL-Library.List_Lexorder\<close> on lists of \<open>8 word\<close>.
  \<open>usize\<close> is 64 bits wide on the supported targets; lengths and cursors are
  \<open>nat\<close>, and every \<open>checked_add\<close> of the source keeps its overflow branch.
\<close>

section \<open>Machine integers\<close>

type_synonym u8 = "8 word"
type_synonym u16 = "16 word"
type_synonym u32 = "32 word"
type_synonym u64 = "64 word"
type_synonym bytes = "u8 list"

named_theorems eval_bytes \<open>rules that evaluate byte strings and integer fields\<close>
named_theorems res_simps \<open>inversion rules of the Result combinators\<close>

definition u64_max :: u64 where
  "u64_max = - 1"

definition checked_add :: "'a::len word \<Rightarrow> 'a word \<Rightarrow> 'a word option" where
  "checked_add a b = (if unat a + unat b < 2 ^ LENGTH('a) then Some (a + b) else None)"

definition saturating_add :: "'a::len word \<Rightarrow> 'a word \<Rightarrow> 'a word" where
  "saturating_add a b = (if unat a + unat b < 2 ^ LENGTH('a) then a + b else - 1)"

definition saturating_sub :: "'a::len word \<Rightarrow> 'a word \<Rightarrow> 'a word" where
  "saturating_sub a b = (if b \<le> a then a - b else 0)"

definition usize_checked_add :: "nat \<Rightarrow> nat \<Rightarrow> nat option" where
  "usize_checked_add a b = (if a + b < 2 ^ 64 then Some (a + b) else None)"

definition usize_saturating_add :: "nat \<Rightarrow> nat \<Rightarrow> nat" where
  "usize_saturating_add a b = min (a + b) (2 ^ 64 - 1)"

section \<open>Results and early return\<close>

abbreviation Ok :: "'a \<Rightarrow> 'e + 'a" where
  "Ok \<equiv> Inr"

abbreviation Err :: "'e \<Rightarrow> 'e + 'a" where
  "Err \<equiv> Inl"

definition rbind :: "'e + 'a \<Rightarrow> ('a \<Rightarrow> 'e + 'b) \<Rightarrow> 'e + 'b" where
  "rbind r f = (case r of Inl e \<Rightarrow> Inl e | Inr a \<Rightarrow> f a)"

definition ensure :: "bool \<Rightarrow> 'e \<Rightarrow> 'e + unit" where
  "ensure b e = (if b then Inr () else Inl e)"

definition ok_or :: "'a option \<Rightarrow> 'e \<Rightarrow> 'e + 'a" where
  "ok_or x e = (case x of None \<Rightarrow> Inl e | Some a \<Rightarrow> Inr a)"

definition map_err :: "('e \<Rightarrow> 'f) \<Rightarrow> 'e + 'a \<Rightarrow> 'f + 'a" where
  "map_err f r = (case r of Inl e \<Rightarrow> Inl (f e) | Inr a \<Rightarrow> Inr a)"

definition is_ok :: "'e + 'a \<Rightarrow> bool" where
  "is_ok r = (case r of Inl _ \<Rightarrow> False | Inr _ \<Rightarrow> True)"

text \<open>\<open>for x in xs { body }\<close> with a mutable state and \<open>?\<close> in the body.\<close>

fun try_fold :: "('a \<Rightarrow> 's \<Rightarrow> 'e + 's) \<Rightarrow> 'a list \<Rightarrow> 's \<Rightarrow> 'e + 's" where
  "try_fold f [] s = Inr s"
| "try_fold f (x # xs) s = rbind (f x s) (try_fold f xs)"

text \<open>\<open>for _ in 0..n { body }\<close>.\<close>

fun try_repeat :: "('s \<Rightarrow> 'e + 's) \<Rightarrow> nat \<Rightarrow> 's \<Rightarrow> 'e + 's" where
  "try_repeat f 0 s = Inr s"
| "try_repeat f (Suc n) s = rbind (f s) (try_repeat f n)"

text \<open>Collecting an iterator of results: the first error wins.\<close>

fun try_map :: "('a \<Rightarrow> 'e + 'b) \<Rightarrow> 'a list \<Rightarrow> 'e + 'b list" where
  "try_map f [] = Inr []"
| "try_map f (x # xs) = rbind (f x) (\<lambda>y. rbind (try_map f xs) (\<lambda>ys. Inr (y # ys)))"

section \<open>Slices\<close>

definition subslice :: "nat \<Rightarrow> nat \<Rightarrow> 'a list \<Rightarrow> 'a list" where
  "subslice i j xs = take (j - i) (drop i xs)"

text \<open>\<open>xs.get(i..j)\<close>.\<close>

definition get_range :: "'a list \<Rightarrow> nat \<Rightarrow> nat \<Rightarrow> 'a list option" where
  "get_range xs i j = (if i \<le> j \<and> j \<le> length xs then Some (subslice i j xs) else None)"

text \<open>\<open>xs.partition_point(p)\<close> on a list partitioned by \<open>p\<close>.\<close>

definition partition_point :: "('a \<Rightarrow> bool) \<Rightarrow> 'a list \<Rightarrow> nat" where
  "partition_point p xs = length (takeWhile p xs)"

definition ascii :: "string \<Rightarrow> bytes" where
  "ascii s = map of_char s"

definition is_ascii_hexdigit :: "u8 \<Rightarrow> bool" where
  "is_ascii_hexdigit b \<longleftrightarrow> (48 \<le> b \<and> b \<le> 57) \<or> (65 \<le> b \<and> b \<le> 70) \<or> (97 \<le> b \<and> b \<le> 102)"

section \<open>Integer fields as bytes\<close>

fun be_bytes :: "nat \<Rightarrow> nat \<Rightarrow> bytes" where
  "be_bytes 0 n = []"
| "be_bytes (Suc k) n = be_bytes k (n div 256) @ [word_of_nat (n mod 256)]"

definition be_nat :: "bytes \<Rightarrow> nat" where
  "be_nat bs = foldl (\<lambda>a b. a * 256 + unat b) 0 bs"

definition u16_to_be_bytes :: "u16 \<Rightarrow> bytes" where
  "u16_to_be_bytes w = be_bytes 2 (unat w)"

definition u32_to_be_bytes :: "u32 \<Rightarrow> bytes" where
  "u32_to_be_bytes w = be_bytes 4 (unat w)"

definition u64_to_be_bytes :: "u64 \<Rightarrow> bytes" where
  "u64_to_be_bytes w = be_bytes 8 (unat w)"

definition u16_from_be_bytes :: "bytes \<Rightarrow> u16" where
  "u16_from_be_bytes bs = word_of_nat (be_nat bs)"

definition u32_from_be_bytes :: "bytes \<Rightarrow> u32" where
  "u32_from_be_bytes bs = word_of_nat (be_nat bs)"

definition u64_from_be_bytes :: "bytes \<Rightarrow> u64" where
  "u64_from_be_bytes bs = word_of_nat (be_nat bs)"

definition u32_from_le_bytes :: "bytes \<Rightarrow> u32" where
  "u32_from_le_bytes bs = word_of_nat (be_nat (rev bs))"

text \<open>\<open>u32::try_from\<close> and \<open>u64::try_from\<close> of a \<open>usize\<close>.\<close>

definition u32_try_from :: "nat \<Rightarrow> u32 option" where
  "u32_try_from n = (if n < 2 ^ 32 then Some (word_of_nat n) else None)"

definition u64_try_from :: "nat \<Rightarrow> u64 option" where
  "u64_try_from n = (if n < 2 ^ 64 then Some (word_of_nat n) else None)"

section \<open>Lemmas on results\<close>

lemma rbind_simps [simp]:
  "rbind (Inl e) f = Inl e"
  "rbind (Inr a) f = f a"
  by (simp_all add: rbind_def)

lemma rbind_cong [fundef_cong]:
  "r = r' \<Longrightarrow> (\<And>a. r' = Inr a \<Longrightarrow> f a = f' a) \<Longrightarrow> rbind r f = rbind r' f'"
  by (cases r') simp_all

lemma rbind_eq_Inr [res_simps]: "rbind r f = Inr b \<longleftrightarrow> (\<exists>a. r = Inr a \<and> f a = Inr b)"
  by (cases r) simp_all

lemma rbind_eq_Inl [res_simps]:
  "rbind r f = Inl e \<longleftrightarrow> r = Inl e \<or> (\<exists>a. r = Inr a \<and> f a = Inl e)"
  by (cases r) simp_all

lemma rbind_assoc: "rbind (rbind r f) g = rbind r (\<lambda>a. rbind (f a) g)"
  by (cases r) simp_all

lemma ensure_eq [res_simps]:
  "ensure b e = Inr u \<longleftrightarrow> b"
  "ensure b e = Inl e' \<longleftrightarrow> \<not> b \<and> e' = e"
  by (auto simp: ensure_def)

lemma ensure_simps [simp]:
  "ensure True e = Inr ()"
  "ensure False e = Inl e"
  by (simp_all add: ensure_def)

lemma ok_or_simps [simp]:
  "ok_or None e = Inl e"
  "ok_or (Some a) e = Inr a"
  by (simp_all add: ok_or_def)

lemma ok_or_eq [res_simps]:
  "ok_or x e = Inr a \<longleftrightarrow> x = Some a"
  "ok_or x e = Inl e' \<longleftrightarrow> x = None \<and> e' = e"
  by (cases x; auto)+

lemma map_err_eq [res_simps]:
  "map_err f r = Inr a \<longleftrightarrow> r = Inr a"
  "map_err f r = Inl e' \<longleftrightarrow> (\<exists>e. r = Inl e \<and> e' = f e)"
  by (cases r; auto simp: map_err_def)+

lemma map_err_simps [simp]:
  "map_err f (Inl e) = Inl (f e)"
  "map_err f (Inr a) = Inr a"
  by (simp_all add: map_err_def)

lemma is_ok_simps [simp]:
  "is_ok (Inr a)"
  "\<not> is_ok (Inl e)"
  by (simp_all add: is_ok_def)

lemma is_ok_iff: "is_ok r \<longleftrightarrow> (\<exists>a. r = Inr a)"
  by (cases r) simp_all

lemma try_fold_append [simp]:
  "try_fold f (xs @ ys) s = rbind (try_fold f xs s) (try_fold f ys)"
proof (induction xs arbitrary: s)
  case (Cons x xs)
  then show ?case by (cases "f x s") simp_all
qed simp

text \<open>An invariant of the body is an invariant of the loop.\<close>

lemma try_fold_invariant:
  assumes "try_fold f xs s = Inr s'" and "P s"
    and "\<And>x t t'. x \<in> set xs \<Longrightarrow> P t \<Longrightarrow> f x t = Inr t' \<Longrightarrow> P t'"
  shows "P s'"
  using assms
proof (induction xs arbitrary: s)
  case (Cons x xs)
  then obtain t where "f x s = Inr t" "try_fold f xs t = Inr s'"
    by (auto simp: res_simps)
  with Cons show ?case by (metis list.set_intros)
qed simp

lemma try_fold_unit_iff:
  "try_fold (\<lambda>x _. f x) xs () = Inr () \<longleftrightarrow> (\<forall>x \<in> set xs. f x = Inr ())"
  by (induction xs) (auto simp: res_simps)

lemma try_map_eq_Inr:
  "try_map f xs = Inr ys \<longleftrightarrow> list_all2 (\<lambda>x y. f x = Inr y) xs ys"
  by (induction xs arbitrary: ys) (auto simp: res_simps list_all2_Cons1)

lemma try_map_ok [simp]: "(\<And>x. x \<in> set xs \<Longrightarrow> f x = Inr (g x)) \<Longrightarrow> try_map f xs = Inr (map g xs)"
  by (induction xs) simp_all

lemma option_eqI: "(\<And>v. a = Some v \<longleftrightarrow> b = Some v) \<Longrightarrow> a = b"
  by (metis not_Some_eq)

section \<open>Lemmas on slices\<close>

lemma length_subslice [simp]: "length (subslice i j xs) = min (j - i) (length xs - i)"
  by (simp add: subslice_def)

lemma subslice_append_mid [simp]:
  "subslice (length xs) (length xs + length ys) (xs @ ys @ zs) = ys"
  by (simp add: subslice_def)

lemma subslice_middle: "i = length xs \<Longrightarrow> j = length xs + length ys \<Longrightarrow> subslice i j (xs @ ys @ zs) = ys"
  by (simp add: subslice_def)

lemma subslice_append_left: "j \<le> length xs \<Longrightarrow> subslice i j (xs @ ys) = subslice i j xs"
  by (simp add: subslice_def)

lemma subslice_append_right:
  "length xs \<le> i \<Longrightarrow> subslice i j (xs @ ys) = subslice (i - length xs) (j - length xs) ys"
  by (simp add: subslice_def)

lemma subslice_full: "subslice 0 (length xs) xs = xs"
  by (simp add: subslice_def)

lemma subslice_subslice:
  "j \<le> b - a \<Longrightarrow> subslice i j (subslice a b xs) = subslice (a + i) (a + j) xs"
  by (simp add: subslice_def drop_take min_def add.commute)

lemma subslice_concat: "i \<le> j \<Longrightarrow> j \<le> k \<Longrightarrow> subslice i j xs @ subslice j k xs = subslice i k xs"
proof -
  assume ij: "i \<le> j" and jk: "j \<le> k"
  have "take (j - i) (drop i xs) @ take (k - j) (drop (j - i) (drop i xs))
        = take (j - i + (k - j)) (drop i xs)"
    by (simp only: take_add)
  with ij jk show ?thesis by (simp add: subslice_def)
qed

lemma subslice_drop_all: "subslice i (length xs) xs = drop i xs"
  by (simp add: subslice_def)

lemma nth_subslice: "i + k < j \<Longrightarrow> j \<le> length xs \<Longrightarrow> subslice i j xs ! k = xs ! (i + k)"
  by (simp add: subslice_def)

lemma get_range_eq_Some:
  "get_range xs i j = Some ys \<longleftrightarrow> i \<le> j \<and> j \<le> length xs \<and> ys = subslice i j xs"
  by (auto simp: get_range_def)

lemma get_range_eq_None: "get_range xs i j = None \<longleftrightarrow> \<not> (i \<le> j \<and> j \<le> length xs)"
  by (auto simp: get_range_def)

lemma partition_point_le: "partition_point p xs \<le> length xs"
  by (simp add: partition_point_def length_takeWhile_le)

lemma partition_point_before: "i < partition_point p xs \<Longrightarrow> p (xs ! i)"
  unfolding partition_point_def by (metis nth_mem set_takeWhileD takeWhile_nth)

lemma partition_point_at: "partition_point p xs < length xs \<Longrightarrow> \<not> p (xs ! partition_point p xs)"
  unfolding partition_point_def by (rule nth_length_takeWhile)

section \<open>Lemmas on integer fields\<close>

lemma unat_less_exp: "unat (w :: 'a::len word) < 2 ^ LENGTH('a)"
  by (rule unsigned_less)

lemma length_be_bytes [simp]: "length (be_bytes k n) = k"
  by (induction k n rule: be_bytes.induct) simp_all

lemma be_bytes_numeral [eval_bytes]:
  "be_bytes (numeral k) n = be_bytes (pred_numeral k) (n div 256) @ [word_of_nat (n mod 256)]"
  by (simp only: numeral_eq_Suc [of k] be_bytes.simps)

lemma be_nat_Nil [simp]: "be_nat [] = 0"
  by (simp add: be_nat_def)

lemma be_nat_snoc [simp]: "be_nat (bs @ [b]) = be_nat bs * 256 + unat b"
  by (simp add: be_nat_def)

lemma be_nat_be_bytes: "be_nat (be_bytes k n) = n mod 256 ^ k"
proof (induction k n rule: be_bytes.induct)
  case (2 k n)
  have "n mod 256 < 2 ^ LENGTH(8)" by simp
  then have "unat (word_of_nat (n mod 256) :: u8) = n mod 256"
    by (simp only: unat_of_nat mod_less)
  with 2 show ?case by (simp add: mod_mult2_eq)
qed simp

lemma be_nat_bound: "be_nat bs < 256 ^ length bs"
proof (induction bs rule: rev_induct)
  case (snoc b bs)
  have "unat b < 256" using unat_less_exp [of b] by simp
  with snoc show ?case by simp
qed simp

lemma be_bytes_be_nat: "length bs = k \<Longrightarrow> be_bytes k (be_nat bs) = bs"
proof (induction bs arbitrary: k rule: rev_induct)
  case (snoc b bs)
  have "unat b < 256" using unat_less_exp [of b] by simp
  then show ?case using snoc by auto
qed simp

lemma word_of_nat_be_nat:
  assumes "256 ^ k = (2::nat) ^ LENGTH('a::len)"
  shows "(word_of_nat (be_nat (be_bytes k (unat (w::'a word)))) :: 'a word) = w"
proof -
  have "unat w < 2 ^ LENGTH('a)" by (rule unat_less_exp)
  with assms show ?thesis by (simp add: be_nat_be_bytes)
qed

lemma length_int_fields [simp]:
  "length (u16_to_be_bytes a) = 2"
  "length (u32_to_be_bytes b) = 4"
  "length (u64_to_be_bytes c) = 8"
  by (simp_all add: u16_to_be_bytes_def u32_to_be_bytes_def u64_to_be_bytes_def)

lemma from_to_be_bytes [simp]:
  "u16_from_be_bytes (u16_to_be_bytes a) = a"
  "u32_from_be_bytes (u32_to_be_bytes b) = b"
  "u64_from_be_bytes (u64_to_be_bytes c) = c"
  by (simp_all add: u16_to_be_bytes_def u32_to_be_bytes_def u64_to_be_bytes_def
      u16_from_be_bytes_def u32_from_be_bytes_def u64_from_be_bytes_def word_of_nat_be_nat)

lemma unat_word_of_nat_be_nat:
  "256 ^ length bs = (2::nat) ^ LENGTH('a::len) \<Longrightarrow> unat (word_of_nat (be_nat bs) :: 'a word) = be_nat bs"
  using be_nat_bound [of bs] by (simp add: unat_of_nat)

lemma to_from_be_bytes:
  "length bs = 2 \<Longrightarrow> u16_to_be_bytes (u16_from_be_bytes bs) = bs"
  "length bs = 4 \<Longrightarrow> u32_to_be_bytes (u32_from_be_bytes bs) = bs"
  "length bs = 8 \<Longrightarrow> u64_to_be_bytes (u64_from_be_bytes bs) = bs"
  by (simp_all add: u16_to_be_bytes_def u32_to_be_bytes_def u64_to_be_bytes_def
      u16_from_be_bytes_def u32_from_be_bytes_def u64_from_be_bytes_def
      unat_word_of_nat_be_nat be_bytes_be_nat)

lemma u32_try_from_eq_Some:
  "u32_try_from n = Some w \<longleftrightarrow> n < 2 ^ 32 \<and> w = word_of_nat n"
  by (auto simp: u32_try_from_def)

lemma u64_try_from_eq_Some:
  "u64_try_from n = Some w \<longleftrightarrow> n < 2 ^ 64 \<and> w = word_of_nat n"
  by (auto simp: u64_try_from_def)

lemma unat_u32_of_nat [simp]: "n < 2 ^ 32 \<Longrightarrow> unat (word_of_nat n :: u32) = n"
  by (simp add: unat_of_nat)

lemma unat_u64_of_nat [simp]: "n < 2 ^ 64 \<Longrightarrow> unat (word_of_nat n :: u64) = n"
  by (simp add: unat_of_nat)

lemma unat_u32_less: "unat (w :: u32) < 2 ^ 32"
  using unat_less_exp [of w] by simp

lemma unat_u64_less: "unat (w :: u64) < 2 ^ 64"
  using unat_less_exp [of w] by simp

lemmas eval_fields [eval_bytes] =
  ascii_def u16_to_be_bytes_def u32_to_be_bytes_def u64_to_be_bytes_def
  u16_from_be_bytes_def u32_from_be_bytes_def u64_from_be_bytes_def be_nat_def

lemma length_ascii [simp]: "length (ascii s) = length s"
  by (simp add: ascii_def)

section \<open>Lemmas on checked arithmetic\<close>

lemma checked_add_eq_Some:
  fixes a b :: "'a::len word"
  shows "checked_add a b = Some c \<longleftrightarrow> unat c = unat a + unat b"
proof
  assume "checked_add a b = Some c"
  then have lt: "unat a + unat b < 2 ^ LENGTH('a)" and c: "c = a + b"
    by (auto simp: checked_add_def split: if_splits)
  from lt show "unat c = unat a + unat b"
    by (simp add: c unat_word_ariths)
next
  assume eq: "unat c = unat a + unat b"
  then have lt: "unat a + unat b < 2 ^ LENGTH('a)"
    using unat_less_exp [of c] by simp
  then have "unat (a + b) = unat c"
    by (simp add: eq unat_word_ariths)
  then have "a + b = c"
    by (rule unsigned_word_eqI)
  with lt show "checked_add a b = Some c"
    by (simp add: checked_add_def)
qed

lemma checked_add_eq_None:
  fixes a b :: "'a::len word"
  shows "checked_add a b = None \<longleftrightarrow> 2 ^ LENGTH('a) \<le> unat a + unat b"
  by (auto simp: checked_add_def)

lemma unat_saturating_add:
  fixes a b :: "'a::len word"
  shows "unat (saturating_add a b) = min (unat a + unat b) (2 ^ LENGTH('a) - 1)"
  by (auto simp: saturating_add_def unat_word_ariths unsigned_minus_1_eq_mask mask_eq_exp_minus_1)

lemma unat_saturating_sub: "unat (saturating_sub a b) = unat a - unat b"
  by (auto simp: saturating_sub_def unat_sub_if' word_le_nat_alt)

lemma usize_checked_add_eq_Some:
  "usize_checked_add a b = Some c \<longleftrightarrow> c = a + b \<and> a + b < 2 ^ 64"
  by (auto simp: usize_checked_add_def)

lemma usize_checked_add_eq_None:
  "usize_checked_add a b = None \<longleftrightarrow> 2 ^ 64 \<le> a + b"
  by (auto simp: usize_checked_add_def)

text \<open>The successor of anything but the largest value.\<close>

lemma checked_succ:
  assumes "w \<noteq> u64_max"
  shows "checked_add w 1 = Some (w + 1)"
proof -
  have "unat w \<noteq> unat (- 1 :: u64)"
    using assms unsigned_word_eqI [of w "- 1"] by (auto simp: u64_max_def)
  then have "unat w \<noteq> 2 ^ 64 - 1"
    by (simp add: unsigned_minus_1_eq_mask mask_eq_exp_minus_1)
  with unat_u64_less [of w] show ?thesis
    by (simp add: checked_add_def)
qed

lemma checked_succ_max: "checked_add u64_max 1 = None"
  by (simp add: checked_add_def u64_max_def unsigned_minus_1_eq_mask mask_eq_exp_minus_1)

lemma unat_pred_u64:
  assumes "0 < n" "n < 2^64"
  shows "unat (word_of_nat n - 1 :: u64) = n - 1"
proof -
  have "(word_of_nat n - 1 :: u64) = word_of_nat (n - 1)"
    using assms(1) by (simp add: of_nat_diff)
  also have "unat \<dots> = n - 1"
    using assms(2) by (intro unat_u64_of_nat) simp
  finally show ?thesis .
qed
lemma u64_le_max [simp]: "w \<le> u64_max"
  by (simp add: u64_max_def)

lemma u64_one_le: "1 \<le> (w :: u64) \<longleftrightarrow> w \<noteq> 0"
  by (simp add: word_le_nat_alt Suc_le_eq word_neq_0_conv word_less_nat_alt)

text \<open>\<open>std::str::from_utf8\<close>: the well-formed sequences of the Unicode standard.\<close>

fun utf8_valid :: "bytes \<Rightarrow> bool" where
  "utf8_valid [] = True"
| "utf8_valid (a # r) =
     (if a \<le> 0x7F then utf8_valid r
      else case r of
        [] \<Rightarrow> False
      | b # r2 \<Rightarrow>
          (if 0xC2 \<le> a \<and> a \<le> 0xDF then 0x80 \<le> b \<and> b \<le> 0xBF \<and> utf8_valid r2
           else case r2 of
             [] \<Rightarrow> False
           | c # r3 \<Rightarrow>
               (if 0xE0 \<le> a \<and> a \<le> 0xEF then
                  (if a = 0xE0 then 0xA0 else 0x80) \<le> b \<and> b \<le> (if a = 0xED then 0x9F else 0xBF)
                  \<and> 0x80 \<le> c \<and> c \<le> 0xBF \<and> utf8_valid r3
                else case r3 of
                  [] \<Rightarrow> False
                | d # r4 \<Rightarrow>
                    0xF0 \<le> a \<and> a \<le> 0xF4 \<and> (if a = 0xF0 then 0x90 else 0x80) \<le> b
                    \<and> b \<le> (if a = 0xF4 then 0x8F else 0xBF) \<and> 0x80 \<le> c \<and> c \<le> 0xBF
                    \<and> 0x80 \<le> d \<and> d \<le> 0xBF \<and> utf8_valid r4)))"

declare utf8_valid.simps(2) [simp del]

lemma utf8_valid_ascii: "(\<And>a. a \<in> set bs \<Longrightarrow> a \<le> 0x7F) \<Longrightarrow> utf8_valid bs"
  by (induction bs) (simp_all add: utf8_valid.simps(2))

lemma set_map_filter: "set (List.map_filter f xs) = {y. \<exists>x\<in>set xs. f x = Some y}"
  by (force simp: map_filter_def)

lemma sorted_le_last: "sorted xs \<Longrightarrow> x \<in> set xs \<Longrightarrow> x \<le> last xs"
  by (induction xs) auto

text \<open>\<open>trim().is_empty()\<close>: every character of the text is Unicode white space.\<close>

fun all_whitespace :: "bytes \<Rightarrow> bool" where
  "all_whitespace [] = True"
| "all_whitespace (a # r) =
     (if (9 \<le> a \<and> a \<le> 13) \<or> a = 32 then all_whitespace r
      else case r of
        [] \<Rightarrow> False
      | b # r2 \<Rightarrow>
          (if a = 0xC2 then (b = 0x85 \<or> b = 0xA0) \<and> all_whitespace r2
           else case r2 of
             [] \<Rightarrow> False
           | c # r3 \<Rightarrow>
               (a = 0xE1 \<and> b = 0x9A \<and> c = 0x80
                \<or> a = 0xE2 \<and> b = 0x80 \<and> (0x80 \<le> c \<and> c \<le> 0x8A \<or> c = 0xA8 \<or> c = 0xA9 \<or> c = 0xAF)
                \<or> a = 0xE2 \<and> b = 0x81 \<and> c = 0x9F
                \<or> a = 0xE3 \<and> b = 0x80 \<and> c = 0x80) \<and> all_whitespace r3))"

declare all_whitespace.simps(2) [simp del]

end
