(* ===== verification/Kv_Error.thy ===== *)
theory Kv_Error
  imports Vyrm_Prelude
begin

text \<open>
  The storage engine's error type (\<^verbatim>\<open>crates/vyrm-kv/src/error.rs\<close>). A reason is
  the source's message; a message built by \<open>format!\<close> keeps its fixed text. File offsets
  are natural numbers below \<open>2 ^ 64\<close>.
\<close>

datatype io_error = NotFound | AlreadyExists | UnexpectedEof | StorageFault

datatype kv_error =
    Io io_error
  | Corruption nat string
  | UnsupportedVersion string u16
  | InvalidBatch string
  | InvalidManifest string
  | ManifestConflict "bytes option" "bytes option"
  | InvalidSegment string
  | TornTail nat
  | PoisonedWriter
  | InjectedFailure string string

type_synonym 'a kv_result = "kv_error + 'a"

end
