(* ===== verification/Framing.thy ===== *)
theory Framing
  imports Vyrm_Prelude
begin

text \<open>
  Self-delimiting records inside a byte string. Three formats of the storage engine (batch
  operations, segment records, log frames) read a record at a cursor and return the cursor behind
  it. The locale \<open>cursor_codec\<close> is that contract, and its lemmas lift one record's
  round trip to a sequence of records; each format interprets it on its own encoder and decoder.
\<close>

section \<open>Sequences of records\<close>

definition enc_all :: "('a \<Rightarrow> bytes) \<Rightarrow> 'a list \<Rightarrow> bytes" where
  "enc_all enc xs = concat (map enc xs)"

text \<open>The offset of the \<open>i\<close>-th record.\<close>

definition enc_offset :: "('a \<Rightarrow> bytes) \<Rightarrow> 'a list \<Rightarrow> nat \<Rightarrow> nat" where
  "enc_offset enc xs i = length (enc_all enc (take i xs))"

text \<open>The body of \<open>for _ in 0..count\<close>: decode one record and push it.\<close>

definition decode_push :: "(bytes \<Rightarrow> nat \<Rightarrow> 'e + 'a \<times> nat) \<Rightarrow> bytes \<Rightarrow> 'a list \<times> nat \<Rightarrow> 'e + 'a list \<times> nat" where
  "decode_push dec bs = (\<lambda>(acc, cursor). rbind (dec bs cursor) (\<lambda>(a, next). Ok (acc @ [a], next)))"

lemma enc_all_simps [simp]:
  "enc_all enc [] = []"
  "enc_all enc (x # xs) = enc x @ enc_all enc xs"
  "enc_all enc (xs @ ys) = enc_all enc xs @ enc_all enc ys"
  by (simp_all add: enc_all_def)

lemma enc_offset_0 [simp]: "enc_offset enc xs 0 = 0"
  by (simp add: enc_offset_def)

lemma enc_offset_Suc: "i < length xs \<Longrightarrow> enc_offset enc xs (Suc i) = enc_offset enc xs i + length (enc (xs ! i))"
  by (simp add: enc_offset_def take_Suc_conv_app_nth)

lemma enc_offset_length [simp]: "enc_offset enc xs (length xs) = length (enc_all enc xs)"
  by (simp add: enc_offset_def)

lemma enc_all_split:
  "i < length xs \<Longrightarrow> enc_all enc xs = enc_all enc (take i xs) @ enc (xs ! i) @ enc_all enc (drop (Suc i) xs)"
  by (metis append_take_drop_id Cons_nth_drop_Suc enc_all_simps(2,3))

text \<open>A truncated sequence: its complete records, then a proper prefix of the next one.\<close>

lemma take_enc_all:
  assumes "k \<le> length (enc_all enc xs)"
  shows "\<exists>m \<le> length xs. enc_offset enc xs m \<le> k \<and> (m < length xs \<longrightarrow> k < enc_offset enc xs (Suc m)) \<and>
    take k (enc_all enc xs) =
      enc_all enc (take m xs) @ (if m < length xs then take (k - enc_offset enc xs m) (enc (xs ! m)) else [])"
  using assms
proof (induction xs arbitrary: k)
  case (Cons x xs)
  show ?case
  proof (cases "k < length (enc x)")
    case True
    then show ?thesis by (intro exI [of _ 0]) (simp add: enc_offset_def)
  next
    case False
    then have "k - length (enc x) \<le> length (enc_all enc xs)"
      using Cons.prems by auto
    from Cons.IH [OF this] obtain m where "m \<le> length xs" "enc_offset enc xs m \<le> k - length (enc x)"
      "m < length xs \<longrightarrow> k - length (enc x) < enc_offset enc xs (Suc m)"
      "take (k - length (enc x)) (enc_all enc xs) =
        enc_all enc (take m xs) @ (if m < length xs then take (k - length (enc x) - enc_offset enc xs m) (enc (xs ! m)) else [])"
      by blast
    with False show ?thesis
      by (intro exI [of _ "Suc m"]) (auto simp: enc_offset_def)
  qed
qed simp

locale cursor_codec =
  fixes enc :: "'a \<Rightarrow> bytes"
    and dec :: "bytes \<Rightarrow> nat \<Rightarrow> 'e + 'a \<times> nat"
    and valid :: "'a \<Rightarrow> bool"
  assumes dec_enc: "valid a \<Longrightarrow> length pre + length (enc a) + length post < 2 ^ 64 \<Longrightarrow>
      dec (pre @ enc a @ post) (length pre) = Ok (a, length pre + length (enc a))"
    and dec_sound: "dec bs c = Ok (a, c') \<Longrightarrow>
      valid a \<and> c < c' \<and> c' \<le> length bs \<and> subslice c c' bs = enc a"
begin

text \<open>Reading the \<open>i\<close>-th record of a sequence at its offset.\<close>

lemma dec_nth:
  assumes "\<forall>a \<in> set xs. valid a" and "i < length xs"
    and "length pre + length (enc_all enc xs) + length post < 2 ^ 64"
  shows "dec (pre @ enc_all enc xs @ post) (length pre + enc_offset enc xs i)
    = Ok (xs ! i, length pre + enc_offset enc xs (Suc i))"
proof -
  let ?l = "pre @ enc_all enc (take i xs)" and ?r = "enc_all enc (drop (Suc i) xs) @ post"
  have split: "pre @ enc_all enc xs @ post = ?l @ enc (xs ! i) @ ?r"
    using enc_all_split [OF assms(2), of enc] by simp
  have "length ?l + length (enc (xs ! i)) + length ?r = length (pre @ enc_all enc xs @ post)"
    by (simp only: split length_append)
  then have "dec (?l @ enc (xs ! i) @ ?r) (length ?l) = Ok (xs ! i, length ?l + length (enc (xs ! i)))"
    using assms by (intro dec_enc) auto
  moreover have "length ?l = length pre + enc_offset enc xs i"
    by (simp add: enc_offset_def)
  ultimately show ?thesis
    using assms(2) split by (simp add: enc_offset_Suc)
qed

text \<open>The counted loop decodes exactly the encoded records.\<close>

lemma decode_push_all:
  assumes "\<forall>a \<in> set xs. valid a" and "length pre + length (enc_all enc xs) + length post < 2 ^ 64"
  shows "try_repeat (decode_push dec (pre @ enc_all enc xs @ post)) (length xs) (acc, length pre)
    = Ok (acc @ xs, length pre + length (enc_all enc xs))"
  using assms
proof (induction xs arbitrary: pre acc)
  case (Cons x xs)
  have "dec (pre @ enc x @ (enc_all enc xs @ post)) (length pre) = Ok (x, length pre + length (enc x))"
    using Cons.prems by (intro dec_enc) auto
  then show ?case
    using Cons.IH [of "pre @ enc x" "acc @ [x]"] Cons.prems by (simp add: decode_push_def)
qed simp

text \<open>Conversely, what the counted loop accepts is the encoding of its result.\<close>

lemma decode_push_sound:
  assumes "try_repeat (decode_push dec bs) n (acc, c) = Ok (acc', c')" and "c \<le> length bs"
  shows "\<exists>xs. acc' = acc @ xs \<and> length xs = n \<and> (\<forall>a \<in> set xs. valid a) \<and>
    c \<le> c' \<and> c' \<le> length bs \<and> subslice c c' bs = enc_all enc xs"
  using assms
proof (induction n arbitrary: acc c)
  case (Suc n)
  then obtain a d where d: "dec bs c = Ok (a, d)"
    and rest: "try_repeat (decode_push dec bs) n (acc @ [a], d) = Ok (acc', c')"
    by (auto simp: decode_push_def res_simps)
  note s = dec_sound [OF d]
  obtain xs where xs: "acc' = (acc @ [a]) @ xs" "length xs = n" "\<forall>a \<in> set xs. valid a"
      "d \<le> c'" "c' \<le> length bs" "subslice d c' bs = enc_all enc xs"
    using Suc.IH [OF rest] s by auto
  have "subslice c c' bs = enc_all enc (a # xs)"
    using subslice_concat [of c d c' bs] s xs by simp
  with s xs show ?case by (intro exI [of _ "a # xs"]) auto
qed (simp add: subslice_def)

end

end
