(* ===== verification/Batch.thy ===== *)
theory Batch
  imports Kv_Error Framing
begin

text \<open>
  Atomic write batches and their binary form (\<^verbatim>\<open>crates/vyrm-kv/src/batch.rs\<close>):
  validation, \<open>WriteBatch::encode\<close> and \<open>WriteBatch::decode\<close>. The lemmas show that
  the format is canonical: decoding inverts encoding, and every accepted byte string is the
  encoding of what it decodes to.
\<close>

section \<open>Model\<close>

definition WAL_MAX_PAYLOAD_BYTES :: nat where
  "WAL_MAX_PAYLOAD_BYTES = 16 * 1024 * 1024"

definition BATCH_FORMAT_VERSION :: u16 where
  "BATCH_FORMAT_VERSION = 1"

definition BATCH_MAGIC :: bytes where
  "BATCH_MAGIC = ascii ''VYRBAT01''"

definition BATCH_HEADER_BYTES :: nat where
  "BATCH_HEADER_BYTES = 16"

definition OP_HEADER_BYTES :: nat where
  "OP_HEADER_BYTES = 12"

definition MAX_OPERATIONS :: nat where
  "MAX_OPERATIONS = 1000000"

definition MAX_KEY_BYTES :: nat where
  "MAX_KEY_BYTES = 1024 * 1024"

definition MAX_VALUE_BYTES :: nat where
  "MAX_VALUE_BYTES = 8 * 1024 * 1024"

datatype mutation = Put bytes bytes | Delete bytes

fun mutation_key :: "mutation \<Rightarrow> bytes" where
  "mutation_key (Put key value) = key"
| "mutation_key (Delete key) = key"

definition mutation_validate :: "mutation \<Rightarrow> unit kv_result" where
  "mutation_validate m =
     (if mutation_key m = [] \<or> length (mutation_key m) > MAX_KEY_BYTES
      then Err (InvalidBatch ''key length must be in 1..=1048576 bytes'')
      else case m of
        Put key value \<Rightarrow>
          (if length value > MAX_VALUE_BYTES
           then Err (InvalidBatch ''value length exceeds 8388608 bytes'') else Ok ())
      | Delete key \<Rightarrow> Ok ())"

record write_batch =
  operations :: "mutation list"

definition batch_validate :: "write_batch \<Rightarrow> unit kv_result" where
  "batch_validate batch =
     (if operations batch = [] \<or> length (operations batch) > MAX_OPERATIONS
      then Err (InvalidBatch ''operation count must be in 1..=1000000'')
      else try_fold (\<lambda>operation _. mutation_validate operation) (operations batch) ())"

definition batch_new :: "mutation list \<Rightarrow> write_batch kv_result" where
  "batch_new ops =
     (let batch = \<lparr>operations = ops\<rparr> in rbind (batch_validate batch) (\<lambda>_. Ok batch))"

definition batch_len :: "write_batch \<Rightarrow> nat" where
  "batch_len batch = length (operations batch)"

definition batch_is_empty :: "write_batch \<Rightarrow> bool" where
  "batch_is_empty batch = (operations batch = [])"

text \<open>The body of the encoding loop.\<close>

definition encode_operation :: "mutation \<Rightarrow> bytes \<Rightarrow> bytes kv_result" where
  "encode_operation operation output =
     (let (kind, key, value) =
        (case operation of Put key value \<Rightarrow> (1, key, value) | Delete key \<Rightarrow> (2, key, [])) in
      rbind (ok_or (u32_try_from (length key)) (InvalidBatch ''key length exceeds u32'')) (\<lambda>key_len.
      rbind (ok_or (u32_try_from (length value)) (InvalidBatch ''value length exceeds u32'')) (\<lambda>value_len.
      let output = output @ [kind] @ [0, 0, 0] @ u32_to_be_bytes key_len @ u32_to_be_bytes value_len
            @ key @ value
      in if length output > WAL_MAX_PAYLOAD_BYTES
         then Err (InvalidBatch ''encoded batch exceeds 16777216 bytes'') else Ok output)))"

definition batch_encode :: "write_batch \<Rightarrow> bytes kv_result" where
  "batch_encode batch =
     rbind (batch_validate batch) (\<lambda>_.
     rbind (ok_or (u32_try_from (length (operations batch)))
              (InvalidBatch ''operation count exceeds u32'')) (\<lambda>count.
     let output = BATCH_MAGIC @ u16_to_be_bytes BATCH_FORMAT_VERSION @ u16_to_be_bytes 0
           @ u32_to_be_bytes count
     in try_fold encode_operation (operations batch) output))"

text \<open>The body of the decoding loop: one operation at the cursor.\<close>

definition decode_operation :: "bytes \<Rightarrow> nat \<Rightarrow> (mutation \<times> nat) kv_result" where
  "decode_operation bs cursor =
     rbind (ok_or (usize_checked_add cursor OP_HEADER_BYTES)
              (InvalidBatch ''operation header length overflow'')) (\<lambda>header_end.
     rbind (ok_or (get_range bs cursor header_end)
              (InvalidBatch ''incomplete operation header'')) (\<lambda>header.
     let kind = header ! 0 in
     if subslice 1 4 header \<noteq> [0, 0, 0] then Err (InvalidBatch ''unknown operation flags'')
     else
     let key_len = unat (u32_from_be_bytes (subslice 4 8 header));
         value_len = unat (u32_from_be_bytes (subslice 8 12 header)) in
     if key_len = 0 \<or> key_len > MAX_KEY_BYTES \<or> value_len > MAX_VALUE_BYTES
     then Err (InvalidBatch ''operation key/value length exceeds its contract'')
     else
     rbind (ok_or (Option.bind (usize_checked_add header_end key_len) (\<lambda>v. usize_checked_add v value_len))
              (InvalidBatch ''operation length overflow'')) (\<lambda>end'.
     rbind (ok_or (get_range bs header_end end')
              (InvalidBatch ''incomplete operation body'')) (\<lambda>body.
     let key = take key_len body; value = drop key_len body in
     if kind = 1 then Ok (Put key value, end')
     else if kind = 2 then
       (if value = [] then Ok (Delete key, end')
        else Err (InvalidBatch ''delete operation carries a value''))
     else Err (InvalidBatch ''unknown operation kind'')))))"

definition batch_decode :: "bytes \<Rightarrow> write_batch kv_result" where
  "batch_decode bs =
     (if length bs < BATCH_HEADER_BYTES then Err (InvalidBatch ''incomplete batch header'')
      else if subslice 0 8 bs \<noteq> BATCH_MAGIC then Err (InvalidBatch ''batch magic does not match'')
      else
      let version = u16_from_be_bytes (subslice 8 10 bs) in
      if version \<noteq> BATCH_FORMAT_VERSION then Err (UnsupportedVersion ''write batch'' version)
      else if subslice 10 12 bs \<noteq> [0, 0] then Err (InvalidBatch ''unknown batch flags'')
      else
      let count = unat (u32_from_be_bytes (subslice 12 16 bs)) in
      if count = 0 \<or> count > MAX_OPERATIONS then Err (InvalidBatch ''invalid operation count'')
      else
      rbind (try_repeat (decode_push decode_operation bs) count ([], BATCH_HEADER_BYTES))
        (\<lambda>(ops, cursor).
          if cursor \<noteq> length bs then Err (InvalidBatch ''trailing byte(s) after the declared batch'')
          else batch_new ops))"

lemmas batch_constants =
  WAL_MAX_PAYLOAD_BYTES_def BATCH_FORMAT_VERSION_def BATCH_HEADER_BYTES_def OP_HEADER_BYTES_def
  MAX_OPERATIONS_def MAX_KEY_BYTES_def MAX_VALUE_BYTES_def

section \<open>Validity\<close>

fun valid_mutation :: "mutation \<Rightarrow> bool" where
  "valid_mutation (Put key value) \<longleftrightarrow>
     key \<noteq> [] \<and> length key \<le> MAX_KEY_BYTES \<and> length value \<le> MAX_VALUE_BYTES"
| "valid_mutation (Delete key) \<longleftrightarrow> key \<noteq> [] \<and> length key \<le> MAX_KEY_BYTES"

definition valid_batch :: "write_batch \<Rightarrow> bool" where
  "valid_batch b \<longleftrightarrow> operations b \<noteq> [] \<and> length (operations b) \<le> MAX_OPERATIONS \<and>
     (\<forall>m \<in> set (operations b). valid_mutation m)"

text \<open>The bytes of one operation, and of a whole batch.\<close>

fun operation_bytes :: "mutation \<Rightarrow> bytes" where
  "operation_bytes (Put key value) = [1, 0, 0, 0] @ u32_to_be_bytes (word_of_nat (length key))
     @ u32_to_be_bytes (word_of_nat (length value)) @ key @ value"
| "operation_bytes (Delete key) = [2, 0, 0, 0] @ u32_to_be_bytes (word_of_nat (length key))
     @ u32_to_be_bytes 0 @ key"

definition batch_header :: "nat \<Rightarrow> bytes" where
  "batch_header n = BATCH_MAGIC @ u16_to_be_bytes BATCH_FORMAT_VERSION @ u16_to_be_bytes 0
     @ u32_to_be_bytes (word_of_nat n)"

definition batch_bytes :: "mutation list \<Rightarrow> bytes" where
  "batch_bytes ops = batch_header (length ops) @ enc_all operation_bytes ops"

lemma mutation_validate_ok [simp]: "mutation_validate m = Ok u \<longleftrightarrow> valid_mutation m"
  by (cases m) (auto simp: mutation_validate_def)

lemma batch_validate_ok: "batch_validate b = Ok u \<longleftrightarrow> valid_batch b"
  by (auto simp: batch_validate_def valid_batch_def try_fold_unit_iff)

lemma batch_new_ok: "batch_new ops = Ok b \<longleftrightarrow> b = \<lparr>operations = ops\<rparr> \<and> valid_batch b"
  by (auto simp: batch_new_def Let_def res_simps batch_validate_ok)

section \<open>One operation\<close>

lemma length_operation_bytes:
  "length (operation_bytes (Put key value)) = 12 + length key + length value"
  "length (operation_bytes (Delete key)) = 12 + length key"
  by simp_all

lemma encode_operation_eq:
  assumes "valid_mutation m"
  shows "encode_operation m out =
    (if length out + length (operation_bytes m) > WAL_MAX_PAYLOAD_BYTES
     then Err (InvalidBatch ''encoded batch exceeds 16777216 bytes'')
     else Ok (out @ operation_bytes m))"
  using assms
  by (cases m) (auto simp: encode_operation_def u32_try_from_def batch_constants)

text \<open>The fixed part of an operation, field by field.\<close>

definition operation_header :: "u8 \<Rightarrow> u32 \<Rightarrow> u32 \<Rightarrow> bytes" where
  "operation_header kind key_len value_len =
     [kind, 0, 0, 0] @ u32_to_be_bytes key_len @ u32_to_be_bytes value_len"

lemma operation_header_fields:
  "length (operation_header kind kl vl) = 12"
  "operation_header kind kl vl ! 0 = kind"
  "subslice 1 4 (operation_header kind kl vl) = [0, 0, 0]"
  "subslice 4 8 (operation_header kind kl vl) = u32_to_be_bytes kl"
  "subslice 8 12 (operation_header kind kl vl) = u32_to_be_bytes vl"
  by (simp_all add: operation_header_def subslice_def)

lemmas operation_header_simps =
  operation_header_fields operation_header_fields(3) [unfolded One_nat_def]

lemma operation_header_unique:
  assumes "length h = 12" and "subslice 1 4 h = [0, 0, 0]"
  shows "h = operation_header (h ! 0) (u32_from_be_bytes (subslice 4 8 h)) (u32_from_be_bytes (subslice 8 12 h))"
proof -
  have "h = subslice 0 1 h @ subslice 1 4 h @ subslice 4 8 h @ subslice 8 12 h"
    using assms(1) by (simp add: subslice_concat) (simp add: subslice_def)
  moreover have "subslice 0 1 h = [h ! 0]"
    using assms(1) by (cases h) (simp_all add: subslice_def)
  ultimately show ?thesis
    using assms by (simp add: operation_header_def to_from_be_bytes)
qed

lemma decode_operation_body:
  assumes "unat kl = length key" "unat vl = length value"
    and "key \<noteq> []" "length key \<le> MAX_KEY_BYTES" "length value \<le> MAX_VALUE_BYTES"
    and "length pre + 12 + length key + length value + length post < 2 ^ 64"
  shows "decode_operation (pre @ operation_header kind kl vl @ key @ value @ post) (length pre) =
    (if kind = 1 then Ok (Put key value, length pre + 12 + length key + length value)
     else if kind = 2 then
       (if value = [] then Ok (Delete key, length pre + 12 + length key + length value)
        else Err (InvalidBatch ''delete operation carries a value''))
     else Err (InvalidBatch ''unknown operation kind''))"
proof -
  let ?h = "operation_header kind kl vl" and ?body = "key @ value"
  let ?bs = "pre @ ?h @ key @ value @ post"
  have hdr: "get_range ?bs (length pre) (length pre + OP_HEADER_BYTES) = Some ?h"
    by (simp add: get_range_def batch_constants operation_header_fields subslice_def)
  have body: "get_range ?bs (length pre + OP_HEADER_BYTES)
      (length pre + OP_HEADER_BYTES + length key + length value) = Some ?body"
    by (simp add: get_range_def batch_constants operation_header_fields subslice_def)
  have a1: "usize_checked_add (length pre) OP_HEADER_BYTES = Some (length pre + OP_HEADER_BYTES)"
    and a2: "usize_checked_add (length pre + OP_HEADER_BYTES) (length key)
      = Some (length pre + OP_HEADER_BYTES + length key)"
    and a3: "usize_checked_add (length pre + OP_HEADER_BYTES + length key) (length value)
      = Some (length pre + OP_HEADER_BYTES + length key + length value)"
    using assms(6) by (simp_all add: usize_checked_add_eq_Some batch_constants)
  show ?thesis
    using assms(1-5)
    by (simp add: decode_operation_def a1 hdr operation_header_simps a2 a3 body)
      (simp add: batch_constants)
qed

lemma operation_bytes_header:
  "operation_bytes (Put key value) =
     operation_header 1 (word_of_nat (length key)) (word_of_nat (length value)) @ key @ value"
  "operation_bytes (Delete key) = operation_header 2 (word_of_nat (length key)) 0 @ key"
  by (simp_all add: operation_header_def)

lemma decode_encode_operation:
  assumes "valid_mutation m" and "length pre + length (operation_bytes m) + length post < 2 ^ 64"
  shows "decode_operation (pre @ operation_bytes m @ post) (length pre)
    = Ok (m, length pre + length (operation_bytes m))"
proof (cases m)
  case (Put k v)
  then show ?thesis
    using assms decode_operation_body [of "word_of_nat (length k)" k "word_of_nat (length v)" v pre post 1]
    by (simp add: operation_bytes_header operation_header_fields batch_constants del: operation_bytes.simps)
next
  case (Delete key)
  then show ?thesis
    using assms decode_operation_body [of "word_of_nat (length key)" key 0 "[]" pre post 2]
    by (simp add: operation_bytes_header operation_header_fields batch_constants del: operation_bytes.simps)
qed

lemma decode_operation_sound:
  assumes "decode_operation bs c = Ok (m, c')"
  shows "valid_mutation m \<and> c < c' \<and> c' \<le> length bs \<and> subslice c c' bs = operation_bytes m"
proof -
  define h where "h = subslice c (c + 12) bs"
  define kl vl where "kl = u32_from_be_bytes (subslice 4 8 h)" and "vl = u32_from_be_bytes (subslice 8 12 h)"
  define body where "body = subslice (c + 12) (c + 12 + unat kl + unat vl) bs"
  define k v where "k = take (unat kl) body" and "v = drop (unat kl) body"
  have le: "c + 12 \<le> length bs" and flags: "subslice 1 4 h = [0, 0, 0]"
    and kl: "unat kl \<noteq> 0" "unat kl \<le> MAX_KEY_BYTES" and vl: "unat vl \<le> MAX_VALUE_BYTES"
    and le': "c + 12 + unat kl + unat vl \<le> length bs" and c': "c' = c + 12 + unat kl + unat vl"
    and m: "h ! 0 = 1 \<and> m = Put k v \<or> h ! 0 = 2 \<and> v = [] \<and> m = Delete k"
    using assms unfolding h_def kl_def vl_def body_def k_def v_def
    by (auto simp: decode_operation_def Let_def res_simps usize_checked_add_eq_Some get_range_eq_Some
        OP_HEADER_BYTES_def split: if_splits bind_splits)
  have h: "h = operation_header (h ! 0) kl vl"
    unfolding kl_def vl_def using le flags by (intro operation_header_unique) (simp_all add: h_def)
  have lb: "length body = unat kl + unat vl" using le' by (simp add: body_def)
  then have kv: "body = k @ v" "length k = unat kl" "length v = unat vl"
    by (simp_all add: k_def v_def)
  have "subslice c c' bs = h @ k @ v"
    unfolding c' h_def kv(1) [symmetric] body_def by (simp add: subslice_concat)
  moreover have "operation_bytes m = h @ k @ v"
    using m
  proof (elim disjE conjE)
    assume "h ! 0 = 1" "m = Put k v"
    with h kv show ?thesis by (simp add: operation_bytes_header del: operation_bytes.simps)
  next
    assume "h ! 0 = 2" "v = []" "m = Delete k"
    moreover from this kv have "vl = 0" by (simp add: unat_eq_zero)
    ultimately show ?thesis
      using h kv by (simp add: operation_bytes_header del: operation_bytes.simps)
  qed
  moreover have "valid_mutation m"
    using m kv kl vl by auto
  ultimately show ?thesis using c' le' kl by simp
qed

interpretation op: cursor_codec operation_bytes decode_operation valid_mutation
  by unfold_locales (use decode_encode_operation decode_operation_sound in blast)+

section \<open>Whole batches\<close>

lemma try_fold_encode_operation:
  assumes "\<forall>m \<in> set ops. valid_mutation m"
  shows "try_fold encode_operation ops out =
    (if ops = [] \<or> length out + length (enc_all operation_bytes ops) \<le> WAL_MAX_PAYLOAD_BYTES
     then Ok (out @ enc_all operation_bytes ops)
     else Err (InvalidBatch ''encoded batch exceeds 16777216 bytes''))"
  using assms
proof (induction ops arbitrary: out)
  case (Cons m ops)
  then show ?case by (cases "ops = []") (auto simp: encode_operation_eq)
qed simp

lemma batch_header_fields:
  assumes "n \<le> MAX_OPERATIONS"
  shows "length (batch_header n) = 16"
    "subslice 0 8 (batch_header n @ rest) = BATCH_MAGIC"
    "u16_from_be_bytes (subslice 8 10 (batch_header n @ rest)) = BATCH_FORMAT_VERSION"
    "subslice 10 12 (batch_header n @ rest) = [0, 0]"
    "unat (u32_from_be_bytes (subslice 12 16 (batch_header n @ rest))) = n"
  using assms
  by (simp_all add: batch_header_def BATCH_MAGIC_def subslice_def MAX_OPERATIONS_def)
    (simp_all add: eval_bytes)

lemma batch_encode_eq:
  "batch_encode b = Ok bs \<longleftrightarrow>
     valid_batch b \<and> bs = batch_bytes (operations b) \<and> length bs \<le> WAL_MAX_PAYLOAD_BYTES"
proof (cases "valid_batch b")
  case True
  then have n: "length (operations b) \<le> MAX_OPERATIONS" and ne: "operations b \<noteq> []"
    and vm: "\<forall>m \<in> set (operations b). valid_mutation m"
    by (auto simp: valid_batch_def)
  have count: "u32_try_from (length (operations b)) = Some (word_of_nat (length (operations b)))"
    using n by (simp add: u32_try_from_def MAX_OPERATIONS_def)
  have "batch_validate b = Ok ()" using True by (simp add: batch_validate_ok)
  then have "batch_encode b =
      try_fold encode_operation (operations b) (batch_header (length (operations b)))"
    by (simp add: batch_encode_def count batch_header_def)
  with True ne show ?thesis
    by (auto simp: try_fold_encode_operation [OF vm] batch_bytes_def batch_header_fields(1) [OF n]
        split: if_splits)
next
  case False
  then show ?thesis by (auto simp: batch_encode_def res_simps batch_validate_ok)
qed

lemma batch_decode_bytes:
  assumes "valid_batch b" and "length (batch_bytes (operations b)) < 2 ^ 64"
  shows "batch_decode (batch_bytes (operations b)) = Ok b"
proof -
  let ?ops = "operations b"
  have n: "length ?ops \<le> MAX_OPERATIONS" "?ops \<noteq> []"
    and vm: "\<forall>m \<in> set ?ops. valid_mutation m"
    using assms(1) by (auto simp: valid_batch_def)
  note f = batch_header_fields [OF n(1)]
  have "try_repeat (decode_push decode_operation (batch_bytes ?ops)) (length ?ops) ([], 16)
      = Ok (?ops, length (batch_bytes ?ops))"
    using op.decode_push_all [OF vm, of "batch_header (length ?ops)" "[]" "[]"] assms(2)
    by (simp add: batch_bytes_def f(1))
  moreover have "batch_new ?ops = Ok b" using assms(1) by (simp add: batch_new_ok)
  ultimately show ?thesis
    using n f by (simp add: batch_decode_def batch_bytes_def BATCH_HEADER_BYTES_def)
qed

lemma batch_header_unique:
  assumes "16 \<le> length bs" "subslice 0 8 bs = BATCH_MAGIC" "u16_from_be_bytes (subslice 8 10 bs) = BATCH_FORMAT_VERSION"
    "subslice 10 12 bs = [0, 0]" "unat (u32_from_be_bytes (subslice 12 16 bs)) = n"
  shows "take 16 bs = batch_header n"
proof -
  have "take 16 bs = subslice 0 8 bs @ subslice 8 10 bs @ subslice 10 12 bs @ subslice 12 16 bs"
    by (simp add: subslice_concat) (simp add: subslice_def)
  moreover have "subslice 8 10 bs = u16_to_be_bytes BATCH_FORMAT_VERSION"
    using assms(1) by (simp flip: assms(3) add: to_from_be_bytes)
  moreover have "subslice 12 16 bs = u32_to_be_bytes (word_of_nat n)"
    using assms(1) by (simp flip: assms(5) add: to_from_be_bytes)
  ultimately show ?thesis
    using assms(2,4) by (simp add: batch_header_def) (simp add: eval_bytes)
qed

lemma batch_decode_sound:
  assumes "batch_decode bs = Ok b"
  shows "valid_batch b \<and> bs = batch_bytes (operations b)"
proof -
  let ?n = "unat (u32_from_be_bytes (subslice 12 16 bs))"
  obtain ops where l: "16 \<le> length bs"
    and f: "subslice 0 8 bs = BATCH_MAGIC" "u16_from_be_bytes (subslice 8 10 bs) = BATCH_FORMAT_VERSION"
      "subslice 10 12 bs = [0, 0]"
    and loop: "try_repeat (decode_push decode_operation bs) ?n ([], 16) = Ok (ops, length bs)"
    and new: "batch_new ops = Ok b"
    using assms by (auto simp: batch_decode_def Let_def res_simps BATCH_HEADER_BYTES_def split: if_splits)
  from op.decode_push_sound [OF loop l] have ops: "length ops = ?n"
    "subslice 16 (length bs) bs = enc_all operation_bytes ops"
    by auto
  have "bs = take 16 bs @ subslice 16 (length bs) bs" by (simp add: subslice_drop_all)
  then have "bs = batch_bytes ops"
    using batch_header_unique [OF l f refl] ops by (simp add: batch_bytes_def)
  with new show ?thesis by (auto simp: batch_new_ok)
qed

section \<open>Properties\<close>

text \<open>C24. The batch format is canonical. A batch encodes to a byte string exactly when that byte
  string decodes to the batch and fits one log payload: decoding inverts encoding, no accepted
  string has a second spelling, and nothing is encodable that would not be read back.
\<close>

theorem batch_format_canonical:
  "batch_encode b = Ok bs \<longleftrightarrow> batch_decode bs = Ok b \<and> length bs \<le> WAL_MAX_PAYLOAD_BYTES"
proof
  assume e: "batch_encode b = Ok bs"
  then have "batch_decode bs = Ok b"
    by (auto simp: batch_encode_eq WAL_MAX_PAYLOAD_BYTES_def intro!: batch_decode_bytes)
  with e show "batch_decode bs = Ok b \<and> length bs \<le> WAL_MAX_PAYLOAD_BYTES"
    by (auto simp: batch_encode_eq)
qed (auto simp: batch_encode_eq dest: batch_decode_sound)

text \<open>Decoding accepts only well-formed batches: between one and a million operations, every key
  between 1 byte and 1 MiB, every value at most 8 MiB.
\<close>

lemma batch_decode_valid:
  assumes "batch_decode bs = Ok b"
  shows "operations b \<noteq> [] \<and> length (operations b) \<le> MAX_OPERATIONS \<and>
    (\<forall>m \<in> set (operations b). valid_mutation m)"
  using batch_decode_sound [OF assms] by (simp add: valid_batch_def)

end
