(* ===== verification/Wal.thy ===== *)
theory Wal
  imports Batch
begin

text \<open>
  The write-ahead log (\<^verbatim>\<open>crates/vyrm-kv/src/wal.rs\<close>): frame layout, the appending writer with its
  poisoning, recovery with torn-tail classification, and tail repair. A log file is its byte
  string, passed explicitly; an append takes the outcome of its I/O as an argument
  (\<open>None\<close> when the writes and the sync succeed, \<open>Some n\<close> when they fail after
  \<open>n\<close> bytes reached the file). \<open>crc\<close> is the third-party CRC-32C update
  \<open>crc32c::crc32c_append\<close>; nothing is assumed of it.
\<close>

section \<open>Model\<close>

type_synonym crc_append = "u32 \<Rightarrow> bytes \<Rightarrow> u32"

definition WAL_FORMAT_VERSION :: u16 where
  "WAL_FORMAT_VERSION = 1"

definition FILE_MAGIC :: bytes where
  "FILE_MAGIC = ascii ''VYRWAL01''"

definition RECORD_MAGIC :: bytes where
  "RECORD_MAGIC = ascii ''VYR1''"

definition FILE_HEADER_BYTES :: nat where
  "FILE_HEADER_BYTES = 16"

definition RECORD_HEADER_BYTES :: nat where
  "RECORD_HEADER_BYTES = 32"

definition RECORD_KIND_BATCH :: u8 where
  "RECORD_KIND_BATCH = 1"

datatype durability = Buffered | Authoritative

record wal_batch =
  wb_first_sequence :: u64
  wb_last_sequence :: u64
  wb_payload :: bytes

definition wal_batch_validate :: "wal_batch \<Rightarrow> unit kv_result" where
  "wal_batch_validate b =
     (if wb_first_sequence b = 0 \<or> wb_last_sequence b < wb_first_sequence b \<or> wb_last_sequence b = u64_max
      then Err (InvalidBatch ''sequence range must be non-zero, ordered, and leave room for its successor'')
      else if wb_payload b = [] then Err (InvalidBatch ''payload must not be empty'')
      else if length (wb_payload b) > WAL_MAX_PAYLOAD_BYTES
      then Err (InvalidBatch ''payload exceeds the maximum'')
      else Ok ())"

record append_receipt =
  ar_offset :: nat
  ar_end_offset :: nat
  ar_first_sequence :: u64
  ar_last_sequence :: u64
  ar_checksum :: u32
  ar_durable :: bool

record recovered_batch =
  rb_offset :: nat
  rb_first_sequence :: u64
  rb_last_sequence :: u64
  rb_checksum :: u32
  rb_payload :: bytes

record recovery =
  batches :: "recovered_batch list"
  recovered_through :: u64
  valid_bytes :: nat
  torn_tail :: "nat option"

record wal_writer =
  next_sequence :: u64
  poisoned :: bool

record decoded_header =
  dh_payload_len :: nat
  dh_first_sequence :: u64
  dh_last_sequence :: u64
  dh_checksum :: u32

definition crc32c :: "crc_append \<Rightarrow> bytes list \<Rightarrow> u32" where
  "crc32c crc chunks = foldl crc 0 chunks"

definition file_header :: "crc_append \<Rightarrow> bytes" where
  "file_header crc =
     (let fields = FILE_MAGIC @ u16_to_be_bytes WAL_FORMAT_VERSION @ u16_to_be_bytes (word_of_nat FILE_HEADER_BYTES)
      in fields @ u32_to_be_bytes (crc32c crc [fields]))"

definition validate_file_header :: "crc_append \<Rightarrow> bytes \<Rightarrow> unit kv_result" where
  "validate_file_header crc header =
     (if subslice 0 8 header \<noteq> FILE_MAGIC then Err (Corruption 0 ''WAL file magic does not match'')
      else
      let version = u16_from_be_bytes (subslice 8 10 header) in
      if version \<noteq> WAL_FORMAT_VERSION then Err (UnsupportedVersion ''WAL'' version)
      else
      let header_len = u16_from_be_bytes (subslice 10 12 header) in
      if unat header_len \<noteq> FILE_HEADER_BYTES then Err (Corruption 10 ''unexpected WAL header length'')
      else
      let expected = u32_from_be_bytes (subslice 12 16 header);
          actual = crc32c crc [subslice 0 12 header] in
      if actual \<noteq> expected then Err (Corruption 0 ''WAL header checksum mismatch'')
      else Ok ())"

definition record_header :: "crc_append \<Rightarrow> wal_batch \<Rightarrow> bytes kv_result" where
  "record_header crc batch =
     rbind (ok_or (u32_try_from (length (wb_payload batch)))
              (InvalidBatch ''payload length exceeds u32'')) (\<lambda>payload_len.
     let covered = u16_to_be_bytes WAL_FORMAT_VERSION @ [RECORD_KIND_BATCH, 0] @ u32_to_be_bytes payload_len
           @ u64_to_be_bytes (wb_first_sequence batch) @ u64_to_be_bytes (wb_last_sequence batch);
         checksum = crc32c crc [covered, wb_payload batch]
     in Ok (RECORD_MAGIC @ covered @ u32_to_be_bytes checksum))"

definition decode_record_header :: "bytes \<Rightarrow> nat \<Rightarrow> decoded_header kv_result" where
  "decode_record_header header offset =
     (if subslice 0 4 header \<noteq> RECORD_MAGIC then Err (Corruption offset ''record magic does not match'')
      else
      let version = u16_from_be_bytes (subslice 4 6 header) in
      if version \<noteq> WAL_FORMAT_VERSION then Err (UnsupportedVersion ''WAL record'' version)
      else if header ! 6 \<noteq> RECORD_KIND_BATCH \<or> header ! 7 \<noteq> 0
      then Err (Corruption offset ''unknown WAL record kind or flags'')
      else
      let payload_len = unat (u32_from_be_bytes (subslice 8 12 header)) in
      if payload_len = 0 \<or> payload_len > WAL_MAX_PAYLOAD_BYTES
      then Err (Corruption offset ''invalid payload length'')
      else
      let first_sequence = u64_from_be_bytes (subslice 12 20 header);
          last_sequence = u64_from_be_bytes (subslice 20 28 header) in
      if first_sequence = 0 \<or> last_sequence < first_sequence
      then Err (Corruption offset ''invalid record sequence range'')
      else Ok \<lparr>dh_payload_len = payload_len, dh_first_sequence = first_sequence,
                dh_last_sequence = last_sequence,
                dh_checksum = u32_from_be_bytes (subslice 28 32 header)\<rparr>)"

text \<open>\<open>WalWriter::create_at\<close>: the new file and its writer. \<open>existing\<close> is what the path
  already holds; \<open>create_new\<close> refuses to replace it.\<close>

definition wal_create_at :: "crc_append \<Rightarrow> bytes option \<Rightarrow> u64 \<Rightarrow> (bytes \<times> wal_writer) kv_result" where
  "wal_create_at crc existing seq =
     (if seq = 0 then Err (InvalidBatch ''WAL starting sequence must be non-zero'')
      else if existing \<noteq> None then Err (Io AlreadyExists)
      else Ok (file_header crc, \<lparr>next_sequence = seq, poisoned = False\<rparr>))"

text \<open>The recovery loop. The file cursor always equals \<open>offset\<close> at the loop head.\<close>

function recover_loop ::
  "crc_append \<Rightarrow> bytes \<Rightarrow> nat \<Rightarrow> u64 \<Rightarrow> recovered_batch list \<Rightarrow> recovery kv_result" where
  "recover_loop crc file offset expected acc =
     (let stop = (\<lambda>torn. Ok \<lparr>batches = acc, recovered_through = saturating_sub expected 1,
                             valid_bytes = offset, torn_tail = torn\<rparr>) in
      if \<not> offset < length file then stop None
      else if length file - offset < RECORD_HEADER_BYTES then stop (Some offset)
      else
      let header = subslice offset (offset + RECORD_HEADER_BYTES) file in
      rbind (decode_record_header header offset) (\<lambda>decoded.
      if dh_first_sequence decoded \<noteq> expected
      then Err (Corruption offset ''non-contiguous sequence'')
      else
      rbind (ok_or (Option.bind (usize_checked_add offset RECORD_HEADER_BYTES)
                      (\<lambda>v. usize_checked_add v (dh_payload_len decoded)))
               (Corruption offset ''record length overflow'')) (\<lambda>end'.
      if end' > length file then stop (Some offset)
      else
      let payload = subslice (offset + RECORD_HEADER_BYTES) end' file;
          actual = crc32c crc [subslice 4 28 header, payload] in
      if actual \<noteq> dh_checksum decoded then Err (Corruption offset ''checksum mismatch'')
      else
      let acc' = acc @ [\<lparr>rb_offset = offset, rb_first_sequence = dh_first_sequence decoded,
                         rb_last_sequence = dh_last_sequence decoded,
                         rb_checksum = dh_checksum decoded, rb_payload = payload\<rparr>] in
      rbind (ok_or (checked_add (dh_last_sequence decoded) 1)
               (Corruption offset ''sequence overflow'')) (\<lambda>expected'.
      recover_loop crc file end' expected' acc'))))"
  by pat_completeness auto
termination
  by (relation "measure (\<lambda>(crc, file, offset, expected, acc). length file - offset)")
    (auto simp: res_simps usize_checked_add_eq_Some RECORD_HEADER_BYTES_def split: bind_splits)

declare recover_loop.simps [simp del]

definition recover_from :: "crc_append \<Rightarrow> bytes \<Rightarrow> u64 \<Rightarrow> recovery kv_result" where
  "recover_from crc file starting_sequence =
     (if starting_sequence = 0 then Err (InvalidBatch ''WAL recovery sequence must be non-zero'')
      else if length file < FILE_HEADER_BYTES then Err (Corruption 0 ''incomplete WAL file header'')
      else rbind (validate_file_header crc (subslice 0 FILE_HEADER_BYTES file)) (\<lambda>_.
        recover_loop crc file FILE_HEADER_BYTES starting_sequence []))"

definition wal_open_at :: "crc_append \<Rightarrow> bytes \<Rightarrow> u64 \<Rightarrow> wal_writer kv_result" where
  "wal_open_at crc file starting_sequence =
     rbind (recover_from crc file starting_sequence) (\<lambda>recovery.
     case torn_tail recovery of
       Some offset \<Rightarrow> Err (TornTail offset)
     | None \<Rightarrow>
         rbind (ok_or (checked_add (recovered_through recovery) 1) (InvalidBatch ''sequence overflow''))
           (\<lambda>next. Ok \<lparr>next_sequence = next, poisoned = False\<rparr>))"

definition wal_append ::
  "crc_append \<Rightarrow> nat option \<Rightarrow> bytes \<Rightarrow> wal_writer \<Rightarrow> wal_batch \<Rightarrow> durability
    \<Rightarrow> append_receipt kv_result \<times> bytes \<times> wal_writer" where
  "wal_append crc io file w batch durability =
     (if poisoned w then (Err PoisonedWriter, file, w)
      else case wal_batch_validate batch of
        Inl e \<Rightarrow> (Err e, file, w)
      | Inr _ \<Rightarrow>
          (if wb_first_sequence batch \<noteq> next_sequence w
           then (Err (InvalidBatch ''expected first sequence''), file, w)
           else case record_header crc batch of
             Inl e \<Rightarrow> (Err e, file, w)
           | Inr header \<Rightarrow>
               (let offset = length file in
                case io of
                  Some n \<Rightarrow> (Err (Io StorageFault), file @ take n (header @ wb_payload batch), w\<lparr>poisoned := True\<rparr>)
                | None \<Rightarrow>
                    (let file = file @ header @ wb_payload batch in
                     case checked_add (wb_last_sequence batch) 1 of
                       None \<Rightarrow> (Err (InvalidBatch ''sequence overflow''), file, w)
                     | Some next \<Rightarrow>
                         (Ok \<lparr>ar_offset = offset,
                               ar_end_offset = offset + RECORD_HEADER_BYTES + length (wb_payload batch),
                               ar_first_sequence = wb_first_sequence batch,
                               ar_last_sequence = wb_last_sequence batch,
                               ar_checksum = u32_from_be_bytes (subslice 28 32 header),
                               ar_durable = (durability = Authoritative)\<rparr>,
                          file, w\<lparr>next_sequence := next\<rparr>)))))"

definition wal_append_encoded_write_batch ::
  "crc_append \<Rightarrow> nat option \<Rightarrow> bytes \<Rightarrow> wal_writer \<Rightarrow> write_batch \<Rightarrow> bytes \<Rightarrow> durability
    \<Rightarrow> append_receipt kv_result \<times> bytes \<times> wal_writer" where
  "wal_append_encoded_write_batch crc io file w batch payload durability =
     (case u64_try_from (batch_len batch) of
        None \<Rightarrow> (Err (InvalidBatch ''operation count exceeds u64''), file, w)
      | Some count \<Rightarrow>
          (case checked_add (next_sequence w) (count - 1) of
             None \<Rightarrow> (Err (InvalidBatch ''sequence range overflow''), file, w)
           | Some last_sequence \<Rightarrow>
               wal_append crc io file w
                 \<lparr>wb_first_sequence = next_sequence w, wb_last_sequence = last_sequence,
                  wb_payload = payload\<rparr> durability))"

definition wal_append_write_batch ::
  "crc_append \<Rightarrow> nat option \<Rightarrow> bytes \<Rightarrow> wal_writer \<Rightarrow> write_batch \<Rightarrow> durability
    \<Rightarrow> append_receipt kv_result \<times> bytes \<times> wal_writer" where
  "wal_append_write_batch crc io file w batch durability =
     (case batch_encode batch of
        Inl e \<Rightarrow> (Err e, file, w)
      | Inr payload \<Rightarrow> wal_append_encoded_write_batch crc io file w batch payload durability)"

text \<open>\<open>WalWriter::sync\<close>; \<open>synced\<close> tells whether \<open>sync_data\<close> succeeds.\<close>

definition wal_sync :: "bool \<Rightarrow> wal_writer \<Rightarrow> u64 kv_result" where
  "wal_sync synced w =
     (if poisoned w then Err PoisonedWriter
      else if \<not> synced then Err (Io StorageFault)
      else Ok (saturating_sub (next_sequence w) 1))"

text \<open>\<open>repair_torn_tail_from\<close>: the result and the file it leaves.\<close>

definition repair_torn_tail_from :: "crc_append \<Rightarrow> bytes \<Rightarrow> u64 \<Rightarrow> recovery kv_result \<times> bytes" where
  "repair_torn_tail_from crc file starting_sequence =
     (case recover_from crc file starting_sequence of
        Inl e \<Rightarrow> (Err e, file)
      | Inr recovery \<Rightarrow>
          (case torn_tail recovery of
             None \<Rightarrow> (Ok recovery, file)
           | Some _ \<Rightarrow>
               (let file = take (valid_bytes recovery) file
                in (recover_from crc file starting_sequence, file))))"

lemmas wal_constants = WAL_FORMAT_VERSION_def FILE_HEADER_BYTES_def RECORD_HEADER_BYTES_def
  RECORD_KIND_BATCH_def WAL_MAX_PAYLOAD_BYTES_def

section \<open>Frames\<close>

definition valid_wal_batch :: "wal_batch \<Rightarrow> bool" where
  "valid_wal_batch b \<longleftrightarrow>
     wb_first_sequence b \<noteq> 0 \<and> wb_first_sequence b \<le> wb_last_sequence b \<and> wb_last_sequence b \<noteq> u64_max \<and>
     wb_payload b \<noteq> [] \<and> length (wb_payload b) \<le> WAL_MAX_PAYLOAD_BYTES"

text \<open>The 24 checksummed header bytes, the header and the whole frame of a batch.\<close>

definition frame_covered :: "wal_batch \<Rightarrow> bytes" where
  "frame_covered b = u16_to_be_bytes WAL_FORMAT_VERSION @ [RECORD_KIND_BATCH, 0]
     @ u32_to_be_bytes (word_of_nat (length (wb_payload b)))
     @ u64_to_be_bytes (wb_first_sequence b) @ u64_to_be_bytes (wb_last_sequence b)"

definition frame_checksum :: "crc_append \<Rightarrow> wal_batch \<Rightarrow> u32" where
  "frame_checksum crc b = crc32c crc [frame_covered b, wb_payload b]"

definition frame_header :: "crc_append \<Rightarrow> wal_batch \<Rightarrow> bytes" where
  "frame_header crc b = RECORD_MAGIC @ frame_covered b @ u32_to_be_bytes (frame_checksum crc b)"

definition frame_bytes :: "crc_append \<Rightarrow> wal_batch \<Rightarrow> bytes" where
  "frame_bytes crc b = frame_header crc b @ wb_payload b"

definition frame_decoded :: "crc_append \<Rightarrow> wal_batch \<Rightarrow> decoded_header" where
  "frame_decoded crc b = \<lparr>dh_payload_len = length (wb_payload b), dh_first_sequence = wb_first_sequence b,
     dh_last_sequence = wb_last_sequence b, dh_checksum = frame_checksum crc b\<rparr>"

definition frame_recovered :: "crc_append \<Rightarrow> nat \<Rightarrow> wal_batch \<Rightarrow> recovered_batch" where
  "frame_recovered crc offset b = \<lparr>rb_offset = offset, rb_first_sequence = wb_first_sequence b,
     rb_last_sequence = wb_last_sequence b, rb_checksum = frame_checksum crc b, rb_payload = wb_payload b\<rparr>"

text \<open>A run of batches with contiguous sequence numbers from \<open>s\<close>, the sequence expected behind
  it, and what recovery reports for it.\<close>

fun wal_chain :: "u64 \<Rightarrow> wal_batch list \<Rightarrow> bool" where
  "wal_chain s [] = True"
| "wal_chain s (b # bs) = (valid_wal_batch b \<and> wb_first_sequence b = s \<and> wal_chain (wb_last_sequence b + 1) bs)"

fun wal_after :: "u64 \<Rightarrow> wal_batch list \<Rightarrow> u64" where
  "wal_after s [] = s"
| "wal_after s (b # bs) = wal_after (wb_last_sequence b + 1) bs"

fun recovered_frames :: "crc_append \<Rightarrow> nat \<Rightarrow> wal_batch list \<Rightarrow> recovered_batch list" where
  "recovered_frames crc offset [] = []"
| "recovered_frames crc offset (b # bs) =
     frame_recovered crc offset b # recovered_frames crc (offset + length (frame_bytes crc b)) bs"

definition wal_file :: "crc_append \<Rightarrow> wal_batch list \<Rightarrow> bytes" where
  "wal_file crc bs = file_header crc @ enc_all (frame_bytes crc) bs"

lemma wal_batch_validate_ok: "wal_batch_validate b = Ok u \<longleftrightarrow> valid_wal_batch b"
  by (auto simp: wal_batch_validate_def valid_wal_batch_def not_less)

lemma length_frame_covered [simp]: "length (frame_covered b) = 24"
  by (simp add: frame_covered_def)

lemma length_frame_header [simp]: "length (frame_header crc b) = 32"
  by (simp add: frame_header_def RECORD_MAGIC_def)

lemma length_frame_bytes [simp]: "length (frame_bytes crc b) = 32 + length (wb_payload b)"
  by (simp add: frame_bytes_def)

lemma record_header_eq: "valid_wal_batch b \<Longrightarrow> record_header crc b = Ok (frame_header crc b)"
  by (simp add: record_header_def frame_header_def frame_checksum_def frame_covered_def u32_try_from_def
      valid_wal_batch_def wal_constants Let_def)

lemma frame_header_fields:
  "subslice 0 4 (frame_header crc b) = RECORD_MAGIC"
  "subslice 4 6 (frame_header crc b) = u16_to_be_bytes WAL_FORMAT_VERSION"
  "frame_header crc b ! 6 = RECORD_KIND_BATCH"
  "frame_header crc b ! 7 = 0"
  "subslice 8 12 (frame_header crc b) = u32_to_be_bytes (word_of_nat (length (wb_payload b)))"
  "subslice 12 20 (frame_header crc b) = u64_to_be_bytes (wb_first_sequence b)"
  "subslice 20 28 (frame_header crc b) = u64_to_be_bytes (wb_last_sequence b)"
  "subslice 28 32 (frame_header crc b) = u32_to_be_bytes (frame_checksum crc b)"
  "subslice 4 28 (frame_header crc b) = frame_covered b"
  by (simp_all add: frame_header_def frame_covered_def RECORD_MAGIC_def subslice_def nth_append)

lemma decode_frame_header:
  assumes "valid_wal_batch b"
  shows "decode_record_header (frame_header crc b) offset = Ok (frame_decoded crc b)"
proof -
  have "unat (word_of_nat (length (wb_payload b)) :: u32) = length (wb_payload b)"
    using assms by (simp add: valid_wal_batch_def wal_constants)
  then show ?thesis
    using assms
    by (auto simp: decode_record_header_def frame_header_fields frame_decoded_def valid_wal_batch_def not_less Let_def)
qed

text \<open>A header that decodes is the header of a frame, up to its checksum.\<close>

lemma decode_record_header_sound:
  assumes "length h = 32" and "decode_record_header h offset = Ok d"
    and "length p = dh_payload_len d"
  defines "b \<equiv> \<lparr>wb_first_sequence = dh_first_sequence d, wb_last_sequence = dh_last_sequence d, wb_payload = p\<rparr>"
  shows "h = RECORD_MAGIC @ frame_covered b @ u32_to_be_bytes (dh_checksum d)"
    and "dh_first_sequence d \<noteq> 0" "dh_first_sequence d \<le> dh_last_sequence d"
    and "dh_payload_len d \<noteq> 0" "dh_payload_len d \<le> WAL_MAX_PAYLOAD_BYTES"
proof -
  have f: "subslice 0 4 h = RECORD_MAGIC" "u16_from_be_bytes (subslice 4 6 h) = WAL_FORMAT_VERSION"
      "h ! 6 = RECORD_KIND_BATCH" "h ! 7 = 0"
    and d: "d = \<lparr>dh_payload_len = unat (u32_from_be_bytes (subslice 8 12 h)),
      dh_first_sequence = u64_from_be_bytes (subslice 12 20 h),
      dh_last_sequence = u64_from_be_bytes (subslice 20 28 h),
      dh_checksum = u32_from_be_bytes (subslice 28 32 h)\<rparr>"
    and r: "dh_first_sequence d \<noteq> 0" "dh_first_sequence d \<le> dh_last_sequence d"
      "dh_payload_len d \<noteq> 0" "dh_payload_len d \<le> WAL_MAX_PAYLOAD_BYTES"
    using assms(2) by (auto simp: decode_record_header_def Let_def not_less split: if_splits)
  have "h = subslice 0 4 h @ subslice 4 6 h @ subslice 6 8 h @ subslice 8 12 h @ subslice 12 20 h
      @ subslice 20 28 h @ subslice 28 32 h"
    using assms(1) by (simp add: subslice_concat) (simp add: subslice_def)
  moreover have "subslice 6 8 h = [h ! 6, h ! 7]"
    using assms(1) by (simp add: subslice_def list_eq_iff_nth_eq nth_Cons split: nat.split)
  moreover have "subslice 4 6 h = u16_to_be_bytes WAL_FORMAT_VERSION"
    using assms(1) by (simp flip: f(2) add: to_from_be_bytes)
  ultimately show "h = RECORD_MAGIC @ frame_covered b @ u32_to_be_bytes (dh_checksum d)"
    using assms(1,3) f(1,3,4)
    by (simp add: frame_covered_def b_def d to_from_be_bytes)
  show "dh_first_sequence d \<noteq> 0" "dh_first_sequence d \<le> dh_last_sequence d"
    "dh_payload_len d \<noteq> 0" "dh_payload_len d \<le> WAL_MAX_PAYLOAD_BYTES"
    using r by blast+
qed

lemma length_file_header [simp]: "length (file_header crc) = 16"
  by (simp add: file_header_def FILE_MAGIC_def)

lemma validate_file_header_ok: "validate_file_header crc (file_header crc) = Ok ()"
  by (simp add: validate_file_header_def file_header_def FILE_MAGIC_def FILE_HEADER_BYTES_def subslice_def
      unat_of_nat Let_def)

lemma validate_file_header_sound:
  assumes "length h = 16" and "validate_file_header crc h = Ok ()"
  shows "h = file_header crc"
proof -
  have f: "subslice 0 8 h = FILE_MAGIC" "u16_from_be_bytes (subslice 8 10 h) = WAL_FORMAT_VERSION"
    "unat (u16_from_be_bytes (subslice 10 12 h)) = 16"
    "u32_from_be_bytes (subslice 12 16 h) = crc32c crc [subslice 0 12 h]"
    using assms(2) by (auto simp: validate_file_header_def FILE_HEADER_BYTES_def Let_def split: if_splits)
  have fields: "subslice 0 12 h = FILE_MAGIC @ u16_to_be_bytes WAL_FORMAT_VERSION @ u16_to_be_bytes 16"
  proof -
    have "subslice 0 12 h = subslice 0 8 h @ subslice 8 10 h @ subslice 10 12 h"
      by (simp add: subslice_concat)
    moreover have "u16_from_be_bytes (subslice 10 12 h) = 16"
      using f(3) by (intro unsigned_word_eqI) simp
    moreover have "subslice 8 10 h = u16_to_be_bytes (u16_from_be_bytes (subslice 8 10 h))"
      and "subslice 10 12 h = u16_to_be_bytes (u16_from_be_bytes (subslice 10 12 h))"
      using assms(1) by (simp_all add: to_from_be_bytes)
    ultimately show ?thesis
      using f(1,2) by simp
  qed
  have "h = subslice 0 12 h @ subslice 12 16 h"
    using assms(1) by (simp add: subslice_concat) (simp add: subslice_def)
  moreover have "subslice 12 16 h = u32_to_be_bytes (crc32c crc [subslice 0 12 h])"
    using assms(1) by (simp flip: f(4) add: to_from_be_bytes)
  ultimately show ?thesis
    using fields by (simp add: file_header_def FILE_HEADER_BYTES_def)
qed

section \<open>Recovery of complete and torn logs\<close>

text \<open>A tail recovery classifies as torn: not even a header, or a header whose payload runs past
  the end of the file.\<close>

definition torn_frame :: "crc_append \<Rightarrow> u64 \<Rightarrow> bytes \<Rightarrow> bool" where
  "torn_frame crc expected tail \<longleftrightarrow> tail \<noteq> [] \<and>
     (length tail < 32 \<or>
      (\<exists>d offset. decode_record_header (take 32 tail) offset = Ok d \<and> dh_first_sequence d = expected \<and>
         length tail < 32 + dh_payload_len d))"

definition recovery_of :: "crc_append \<Rightarrow> nat \<Rightarrow> u64 \<Rightarrow> recovered_batch list \<Rightarrow> wal_batch list \<Rightarrow> bytes \<Rightarrow> recovery" where
  "recovery_of crc offset s acc bs tail =
     \<lparr>batches = acc @ recovered_frames crc offset bs, recovered_through = saturating_sub (wal_after s bs) 1,
      valid_bytes = offset + length (enc_all (frame_bytes crc) bs),
      torn_tail = (if tail = [] then None else Some (offset + length (enc_all (frame_bytes crc) bs)))\<rparr>"

lemma decode_record_header_offset:
  "decode_record_header h o1 = Ok d \<longleftrightarrow> decode_record_header h o2 = Ok d"
  by (auto simp: decode_record_header_def Let_def)

lemma recover_loop_end:
  "recover_loop crc file (length file) s acc = Ok (recovery_of crc (length file) s acc [] [])"
  by (subst recover_loop.simps) (simp add: recovery_of_def)

lemma recover_loop_torn:
  assumes "torn_frame crc s tail" and "length pre + length tail < 2 ^ 63"
  shows "recover_loop crc (pre @ tail) (length pre) s acc = Ok (recovery_of crc (length pre) s acc [] tail)"
proof (cases "length tail < 32")
  case True
  with assms(1) show ?thesis
    by (subst recover_loop.simps) (simp add: recovery_of_def torn_frame_def RECORD_HEADER_BYTES_def)
next
  case False
  then obtain d where d: "decode_record_header (take 32 tail) (length pre) = Ok d"
      "dh_first_sequence d = s" "length tail < 32 + dh_payload_len d"
    using assms(1) by (auto simp: torn_frame_def dest: iffD1 [OF decode_record_header_offset])
  have h: "subslice (length pre) (length pre + 32) (pre @ tail) = take 32 tail"
    by (simp add: subslice_def)
  have "dh_payload_len d \<le> 16777216"
    using decode_record_header_sound(5) [OF _ d(1), of "replicate (dh_payload_len d) 0"] False
    by (simp add: WAL_MAX_PAYLOAD_BYTES_def)
  then have "length pre + 32 + dh_payload_len d < 2 ^ 64"
    using assms(2) by simp
  then show ?thesis
    using d False assms(1)
    by (subst recover_loop.simps)
      (simp add: recovery_of_def torn_frame_def RECORD_HEADER_BYTES_def h usize_checked_add_def Let_def)
qed

lemma recover_loop_frame:
  assumes "valid_wal_batch b" and "wb_first_sequence b = s"
    and "length pre + length (frame_bytes crc b) < 2 ^ 64"
  shows "recover_loop crc (pre @ frame_bytes crc b @ rest) (length pre) s acc =
    recover_loop crc (pre @ frame_bytes crc b @ rest) (length pre + length (frame_bytes crc b))
      (wb_last_sequence b + 1) (acc @ [frame_recovered crc (length pre) b])"
proof -
  let ?file = "pre @ frame_bytes crc b @ rest"
  have h: "subslice (length pre) (length pre + 32) ?file = frame_header crc b"
    by (simp add: subslice_def frame_bytes_def)
  have p: "subslice (length pre + 32) (length pre + (32 + length (wb_payload b))) ?file = wb_payload b"
    by (simp add: subslice_def frame_bytes_def)
  have "checked_add (wb_last_sequence b) 1 = Some (wb_last_sequence b + 1)"
    using assms(1) by (intro checked_succ) (simp add: valid_wal_batch_def)
  then show ?thesis
    using assms
    by (subst recover_loop.simps)
      (simp add: RECORD_HEADER_BYTES_def h p decode_frame_header frame_decoded_def usize_checked_add_def
        frame_header_fields frame_checksum_def frame_recovered_def Let_def add.assoc)
qed

lemma recover_loop_frames:
  assumes "wal_chain s bs" and "length pre + length (enc_all (frame_bytes crc) bs) + length tail < 2 ^ 63"
    and "tail = [] \<or> torn_frame crc (wal_after s bs) tail"
  shows "recover_loop crc (pre @ enc_all (frame_bytes crc) bs @ tail) (length pre) s acc
    = Ok (recovery_of crc (length pre) s acc bs tail)"
  using assms
proof (induction bs arbitrary: pre s acc)
  case Nil
  then show ?case
    using recover_loop_end [of crc pre] by (auto simp: recover_loop_torn)
next
  case (Cons b bs)
  have "recover_loop crc (pre @ frame_bytes crc b @ (enc_all (frame_bytes crc) bs @ tail)) (length pre) s acc
    = recover_loop crc ((pre @ frame_bytes crc b) @ enc_all (frame_bytes crc) bs @ tail)
        (length (pre @ frame_bytes crc b)) (wb_last_sequence b + 1) (acc @ [frame_recovered crc (length pre) b])"
    using Cons.prems recover_loop_frame [of b s pre crc] by simp
  also have "\<dots> = Ok (recovery_of crc (length (pre @ frame_bytes crc b)) (wb_last_sequence b + 1)
      (acc @ [frame_recovered crc (length pre) b]) bs tail)"
    using Cons.prems by (intro Cons.IH) auto
  finally show ?case
    by (simp add: recovery_of_def add.assoc)
qed

text \<open>One iteration of the loop, read backwards from its success.\<close>

lemma recover_loop_cases:
  assumes "recover_loop crc file offset s acc = Ok r" and "offset \<le> length file"
  obtains (finished) "drop offset file = []" "r = recovery_of crc offset s acc [] []"
  | (torn) "torn_frame crc s (drop offset file)" "r = recovery_of crc offset s acc [] (drop offset file)"
  | (frame) b rest where "valid_wal_batch b" "wb_first_sequence b = s"
      "drop offset file = frame_bytes crc b @ rest"
      "recover_loop crc file (offset + length (frame_bytes crc b)) (wb_last_sequence b + 1)
         (acc @ [frame_recovered crc offset b]) = Ok r"
proof (cases "length file - offset < 32")
  case True
  then show thesis
    using assms finished torn
    by (subst (asm) recover_loop.simps)
      (auto simp: recovery_of_def torn_frame_def RECORD_HEADER_BYTES_def Let_def split: if_splits)
next
  case False
  let ?tail = "drop offset file"
  have h: "subslice offset (offset + 32) file = take 32 ?tail"
    by (simp add: subslice_def)
  obtain d where d: "decode_record_header (take 32 ?tail) offset = Ok d" "dh_first_sequence d = s"
    using assms False
    by (subst (asm) recover_loop.simps)
      (auto simp: RECORD_HEADER_BYTES_def res_simps h Let_def split: if_splits)
  show thesis
  proof (cases "length ?tail < 32 + dh_payload_len d")
    case True
    then have "torn_frame crc s ?tail"
      using d False by (auto simp: torn_frame_def)
    moreover have "r = recovery_of crc offset s acc [] ?tail"
      using assms False True d
      by (subst (asm) recover_loop.simps)
        (auto simp: RECORD_HEADER_BYTES_def res_simps h Let_def recovery_of_def usize_checked_add_def
          split: if_splits bind_splits)
    ultimately show thesis by (rule torn)
  next
    case complete: False
    define p where "p = take (dh_payload_len d) (drop 32 ?tail)"
    define b where "b = \<lparr>wb_first_sequence = dh_first_sequence d, wb_last_sequence = dh_last_sequence d,
      wb_payload = p\<rparr>"
    have lp: "length p = dh_payload_len d"
      using complete False by (simp add: p_def)
    have header: "length (take 32 ?tail) = 32"
      using False by simp
    have p: "subslice (offset + 32) (offset + 32 + dh_payload_len d) file = p"
      by (simp add: subslice_def p_def add.commute)
    have sound: "take 32 ?tail = RECORD_MAGIC @ frame_covered b @ u32_to_be_bytes (dh_checksum d)"
      "dh_first_sequence d \<noteq> 0" "dh_first_sequence d \<le> dh_last_sequence d"
      "dh_payload_len d \<noteq> 0" "dh_payload_len d \<le> WAL_MAX_PAYLOAD_BYTES"
      using decode_record_header_sound [OF header d(1) lp] unfolding b_def by blast+
    have covered: "subslice 4 28 (take 32 ?tail) = frame_covered b"
      unfolding sound(1) by (simp add: subslice_def RECORD_MAGIC_def)
    obtain e where crc: "crc32c crc [frame_covered b, p] = dh_checksum d"
      and e: "checked_add (dh_last_sequence d) 1 = Some e"
      and rest: "recover_loop crc file (offset + 32 + dh_payload_len d) e
         (acc @ [\<lparr>rb_offset = offset, rb_first_sequence = dh_first_sequence d,
            rb_last_sequence = dh_last_sequence d, rb_checksum = dh_checksum d, rb_payload = p\<rparr>]) = Ok r"
      using assms False complete d
      by (subst (asm) recover_loop.simps)
        (auto simp: RECORD_HEADER_BYTES_def res_simps h p covered Let_def usize_checked_add_def
          split: if_splits bind_splits)
    have "dh_last_sequence d \<noteq> u64_max"
      using e checked_succ_max by auto
    then have valid: "valid_wal_batch b" and e': "e = dh_last_sequence d + 1"
      using sound lp e checked_succ by (auto simp: valid_wal_batch_def b_def)
    have "?tail = take 32 ?tail @ p @ drop (dh_payload_len d) (drop 32 ?tail)"
      by (simp add: p_def del: drop_drop)
    moreover have "take 32 ?tail @ p = frame_bytes crc b"
      using crc unfolding sound(1) by (simp add: frame_bytes_def frame_header_def frame_checksum_def b_def)
    ultimately have "?tail = frame_bytes crc b @ drop (dh_payload_len d) (drop 32 ?tail)"
      by (metis append.assoc)
    moreover have "frame_recovered crc offset b = \<lparr>rb_offset = offset, rb_first_sequence = dh_first_sequence d,
        rb_last_sequence = dh_last_sequence d, rb_checksum = dh_checksum d, rb_payload = p\<rparr>"
      and "wb_last_sequence b = dh_last_sequence d" "length (frame_bytes crc b) = 32 + dh_payload_len d"
      using crc lp by (simp_all add: frame_recovered_def frame_checksum_def b_def)
    then have "recover_loop crc file (offset + length (frame_bytes crc b)) (wb_last_sequence b + 1)
        (acc @ [frame_recovered crc offset b]) = Ok r"
      using rest by (simp only: e' add.assoc)
    ultimately show thesis
      using valid d(2) by (intro frame [of b]) (simp_all add: b_def)
  qed
qed

text \<open>Whatever recovery accepts is a run of complete frames, followed by nothing or by a torn frame.\<close>

lemma recover_loop_sound:
  assumes "recover_loop crc file offset s acc = Ok r" and "offset \<le> length file"
  shows "\<exists>bs tail. wal_chain s bs \<and> r = recovery_of crc offset s acc bs tail \<and>
    drop offset file = enc_all (frame_bytes crc) bs @ tail \<and>
    (tail = [] \<or> torn_frame crc (wal_after s bs) tail)"
  using assms
proof (induction "length file - offset" arbitrary: offset s acc rule: less_induct)
  case less
  from less.prems show ?case
  proof (cases rule: recover_loop_cases)
    case finished
    then show ?thesis by (intro exI [of _ "[]"]) simp
  next
    case torn
    then show ?thesis by (intro exI [of _ "[]"] exI [of _ "drop offset file"]) simp
  next
    case (frame b rest)
    let ?offset = "offset + length (frame_bytes crc b)"
    have "length file - offset = length (frame_bytes crc b) + length rest"
      using frame(3) by (metis length_drop length_append)
    then have bound: "?offset \<le> length file" "length file - ?offset < length file - offset"
      by auto
    have "drop ?offset file = rest"
      using frame(3) by (metis add.commute append_eq_conv_conj drop_drop)
    with less.hyps [OF bound(2) frame(4) bound(1)] obtain bs tail where
      "wal_chain (wb_last_sequence b + 1) bs" "rest = enc_all (frame_bytes crc) bs @ tail"
      "r = recovery_of crc ?offset (wb_last_sequence b + 1) (acc @ [frame_recovered crc offset b]) bs tail"
      "tail = [] \<or> torn_frame crc (wal_after (wb_last_sequence b + 1) bs) tail"
      by auto
    with frame show ?thesis
      by (intro exI [of _ "b # bs"] exI [of _ tail]) (auto simp: recovery_of_def add.assoc)
  qed
qed

section \<open>Whole log files\<close>

definition wal_recovery :: "crc_append \<Rightarrow> u64 \<Rightarrow> wal_batch list \<Rightarrow> bytes \<Rightarrow> recovery" where
  "wal_recovery crc s bs tail = recovery_of crc 16 s [] bs tail"

lemma wal_recovery_fields:
  "batches (wal_recovery crc s bs tail) = recovered_frames crc 16 bs"
  "recovered_through (wal_recovery crc s bs tail) = saturating_sub (wal_after s bs) 1"
  "valid_bytes (wal_recovery crc s bs tail) = length (wal_file crc bs)"
  "torn_tail (wal_recovery crc s bs tail) = (if tail = [] then None else Some (length (wal_file crc bs)))"
  by (simp_all add: wal_recovery_def recovery_of_def wal_file_def)

lemma recover_from_wal_file:
  assumes "s \<noteq> 0" and "wal_chain s bs" and "length (wal_file crc bs @ tail) < 2 ^ 63"
    and "tail = [] \<or> torn_frame crc (wal_after s bs) tail"
  shows "recover_from crc (wal_file crc bs @ tail) s = Ok (wal_recovery crc s bs tail)"
  using assms recover_loop_frames [of s bs "file_header crc" crc tail "[]"]
  by (simp add: recover_from_def wal_file_def wal_recovery_def FILE_HEADER_BYTES_def validate_file_header_ok
      subslice_def)

lemma recover_from_sound:
  assumes "recover_from crc file s = Ok r"
  obtains bs tail where "s \<noteq> 0" "wal_chain s bs" "file = wal_file crc bs @ tail"
    "tail = [] \<or> torn_frame crc (wal_after s bs) tail" "r = wal_recovery crc s bs tail"
proof -
  have s: "s \<noteq> 0" and len: "16 \<le> length file"
    and h: "validate_file_header crc (subslice 0 16 file) = Ok ()"
    and loop: "recover_loop crc file 16 s [] = Ok r"
    using assms by (auto simp: recover_from_def FILE_HEADER_BYTES_def res_simps split: if_splits)
  obtain bs tail where bs: "wal_chain s bs" "r = recovery_of crc 16 s [] bs tail"
    "drop 16 file = enc_all (frame_bytes crc) bs @ tail" "tail = [] \<or> torn_frame crc (wal_after s bs) tail"
    using recover_loop_sound [OF loop len] by blast
  have "take 16 file = file_header crc"
    using validate_file_header_sound [OF _ h] len by (simp add: subslice_def)
  then have "file = wal_file crc bs @ tail"
    using bs(3) by (metis append.assoc append_take_drop_id wal_file_def)
  with s bs show thesis by (intro that) (auto simp: wal_recovery_def)
qed

lemma torn_frame_take:
  assumes "valid_wal_batch b" and "0 < k" and "k < length (frame_bytes crc b)"
  shows "torn_frame crc (wb_first_sequence b) (take k (frame_bytes crc b))"
proof (cases "k < 32")
  case True
  moreover have "take k (frame_bytes crc b) \<noteq> []"
    using assms(2,3) by (metis length_0_conv length_take min.absorb4 not_less0)
  ultimately show ?thesis using assms by (simp add: torn_frame_def)
next
  case False
  then have "take 32 (take k (frame_bytes crc b)) = frame_header crc b"
    by (simp add: frame_bytes_def min_def)
  then have "decode_record_header (take 32 (take k (frame_bytes crc b))) 0 = Ok (frame_decoded crc b)"
    by (simp only: decode_frame_header [OF assms(1)])
  moreover have "take k (frame_bytes crc b) \<noteq> []"
    using assms(2,3) by (metis length_0_conv length_take min.absorb4 not_less0)
  ultimately show ?thesis
    using assms(3) unfolding torn_frame_def
    by (intro conjI disjI2 exI [of _ "frame_decoded crc b"] exI [of _ 0]) (simp_all add: frame_decoded_def)
qed

lemma wal_chain_append:
  "wal_chain s (bs @ cs) \<longleftrightarrow> wal_chain s bs \<and> wal_chain (wal_after s bs) cs"
  by (induction s bs rule: wal_chain.induct) auto

lemma wal_after_append [simp]: "wal_after s (bs @ cs) = wal_after (wal_after s bs) cs"
  by (induction s bs rule: wal_after.induct) auto

lemma wal_after_nonzero: "s \<noteq> 0 \<Longrightarrow> wal_chain s bs \<Longrightarrow> wal_after s bs \<noteq> 0"
proof (induction s bs rule: wal_after.induct)
  case (2 s b bs)
  have "wb_last_sequence b + 1 \<noteq> 0"
    using 2 by (auto simp: valid_wal_batch_def u64_max_def add_eq_0_iff2)
  with 2 show ?case by simp
qed simp

lemma wal_file_append: "wal_file crc (bs @ [b]) = wal_file crc bs @ frame_bytes crc b"
  by (simp add: wal_file_def)

lemma length_wal_file_take: "length (wal_file crc (take m bs)) = 16 + enc_offset (frame_bytes crc) bs m"
  by (simp add: wal_file_def enc_offset_def)

section \<open>The writer\<close>

text \<open>An append either leaves the file alone or adds a prefix of the batch's frame: the whole frame,
  with the writer advanced, exactly when it is acknowledged.\<close>

lemma wal_append_cases:
  assumes "wal_append crc io file w b d = (res, file', w')"
  obtains (refused) e where "res = Err e" "file' = file" "w' = w"
  | (failed) n where "io = Some n" "\<not> poisoned w" "valid_wal_batch b" "wb_first_sequence b = next_sequence w"
      "res = Err (Io StorageFault)" "file' = file @ take n (frame_bytes crc b)" "w' = w\<lparr>poisoned := True\<rparr>"
  | (acknowledged) "io = None" "\<not> poisoned w" "valid_wal_batch b" "wb_first_sequence b = next_sequence w"
      "res = Ok \<lparr>ar_offset = length file, ar_end_offset = length file + length (frame_bytes crc b),
         ar_first_sequence = wb_first_sequence b, ar_last_sequence = wb_last_sequence b,
         ar_checksum = frame_checksum crc b, ar_durable = (d = Authoritative)\<rparr>"
      "file' = file @ frame_bytes crc b" "w' = w\<lparr>next_sequence := wb_last_sequence b + 1\<rparr>"
proof (cases "poisoned w \<or> \<not> valid_wal_batch b \<or> wb_first_sequence b \<noteq> next_sequence w")
  case True
  then show thesis
    using assms refused wal_batch_validate_ok [of b]
    by (auto simp: wal_append_def split: if_splits sum.splits)
next
  case False
  then have v: "valid_wal_batch b" by simp
  have "checked_add (wb_last_sequence b) 1 = Some (wb_last_sequence b + 1)"
    using v by (intro checked_succ) (simp add: valid_wal_batch_def)
  then show thesis
    using assms False wal_batch_validate_ok [of b "()"] failed acknowledged
    by (cases io) (auto simp: wal_append_def record_header_eq frame_bytes_def frame_header_fields
        RECORD_HEADER_BYTES_def Let_def)
qed

text \<open>The states a writer can reach: a new log, then any sequence of appends with any I/O outcome.
  \<open>acked\<close> are the batches whose append returned \<open>Ok\<close>.\<close>

inductive wal_reach :: "crc_append \<Rightarrow> u64 \<Rightarrow> bytes \<Rightarrow> wal_writer \<Rightarrow> wal_batch list \<Rightarrow> bool"
  for crc :: crc_append and s :: u64 where
  create: "wal_create_at crc None s = Ok (file, w) \<Longrightarrow> wal_reach crc s file w []"
| append_ok: "wal_reach crc s file w acked \<Longrightarrow> wal_append crc io file w b d = (Ok receipt, file', w') \<Longrightarrow>
    wal_reach crc s file' w' (acked @ [b])"
| append_err: "wal_reach crc s file w acked \<Longrightarrow> wal_append crc io file w b d = (Err e, file', w') \<Longrightarrow>
    wal_reach crc s file' w' acked"

text \<open>The invariant: the file is the acknowledged log, plus a prefix of one more frame once the
  writer is poisoned.\<close>

definition wal_inv :: "crc_append \<Rightarrow> u64 \<Rightarrow> bytes \<Rightarrow> wal_writer \<Rightarrow> wal_batch list \<Rightarrow> bool" where
  "wal_inv crc s file w acked \<longleftrightarrow> s \<noteq> 0 \<and> wal_chain s acked \<and> next_sequence w = wal_after s acked \<and>
     (\<not> poisoned w \<longrightarrow> file = wal_file crc acked) \<and>
     (poisoned w \<longrightarrow> (\<exists>b n. wal_chain s (acked @ [b]) \<and> file = wal_file crc acked @ take n (frame_bytes crc b)))"

lemma wal_reach_inv: "wal_reach crc s file w acked \<Longrightarrow> wal_inv crc s file w acked"
proof (induction rule: wal_reach.induct)
  case (create f w)
  then show ?case
    by (auto simp: wal_create_at_def wal_inv_def wal_file_def split: if_splits)
next
  case (append_ok f w acked io b d receipt f' w')
  from append_ok(2) show ?case
    by (cases rule: wal_append_cases)
      (use append_ok(3) in \<open>auto simp: wal_inv_def wal_chain_append wal_file_append\<close>)
next
  case (append_err f w acked io b d e f' w')
  from append_err(2) show ?case
  proof (cases rule: wal_append_cases)
    case refused
    with append_err(3) show ?thesis by simp
  next
    case (failed n)
    with append_err(3) show ?thesis
      by (auto simp: wal_inv_def wal_chain_append intro!: exI [of _ b] exI [of _ n])
  qed simp
qed

text \<open>A log extended by a prefix of the next frame recovers to the complete frames.\<close>

lemma recover_from_partial_frame:
  assumes "s \<noteq> 0" and "wal_chain s (bs @ [b])" and "length (wal_file crc (bs @ [b])) < 2 ^ 63"
  shows "recover_from crc (wal_file crc bs @ take n (frame_bytes crc b)) s =
    Ok (if n < length (frame_bytes crc b) then wal_recovery crc s bs (take n (frame_bytes crc b))
        else wal_recovery crc s (bs @ [b]) [])"
proof (cases "n < length (frame_bytes crc b)")
  case True
  have "take n (frame_bytes crc b) = [] \<or> torn_frame crc (wal_after s bs) (take n (frame_bytes crc b))"
    using torn_frame_take [of b n crc] assms(2) True by (cases "n = 0") (auto simp: wal_chain_append)
  then show ?thesis
    using True assms by (simp add: recover_from_wal_file wal_chain_append wal_file_append)
next
  case False
  then show ?thesis
    using assms recover_from_wal_file [of s "bs @ [b]" crc "[]"] by (simp add: wal_file_append)
qed

section \<open>Properties\<close>

text \<open>C22. Crash recovery. Take the log of any contiguous run of batches and cut it at any byte behind
  the file header. Recovery succeeds, reports exactly the batches whose frames survived whole (with
  their offsets, sequence ranges, checksums and payloads) and the sequence number they end at, and
  classifies what is left of the next frame, if anything is, as a torn tail at its first byte.\<close>

theorem crash_prefix_recovery:
  assumes "s \<noteq> 0" and "wal_chain s bs" and "length (wal_file crc bs) < 2 ^ 63"
    and "16 \<le> n" and "n \<le> length (wal_file crc bs)"
  shows "\<exists>m r. m \<le> length bs \<and> length (wal_file crc (take m bs)) \<le> n \<and>
    (m < length bs \<longrightarrow> n < length (wal_file crc (take (Suc m) bs))) \<and>
    recover_from crc (take n (wal_file crc bs)) s = Ok r \<and>
    batches r = recovered_frames crc 16 (take m bs) \<and>
    recovered_through r = saturating_sub (wal_after s (take m bs)) 1 \<and>
    valid_bytes r = length (wal_file crc (take m bs)) \<and>
    torn_tail r = (if n = length (wal_file crc (take m bs)) then None else Some (length (wal_file crc (take m bs))))"
proof -
  let ?enc = "frame_bytes crc"
  have "n - 16 \<le> length (enc_all ?enc bs)"
    using assms(5) by (simp add: wal_file_def)
  from take_enc_all [OF this] obtain m where m: "m \<le> length bs" "enc_offset ?enc bs m \<le> n - 16"
    "m < length bs \<longrightarrow> n - 16 < enc_offset ?enc bs (Suc m)"
    "take (n - 16) (enc_all ?enc bs) = enc_all ?enc (take m bs) @
      (if m < length bs then take (n - 16 - enc_offset ?enc bs m) (?enc (bs ! m)) else [])"
    by blast
  define tail where "tail = (if m < length bs then take (n - 16 - enc_offset ?enc bs m) (?enc (bs ! m)) else [])"
  have cut: "take n (wal_file crc bs) = wal_file crc (take m bs) @ tail"
    using assms(4) m(4) by (simp add: wal_file_def tail_def)
  have chain: "wal_chain s (take m bs)" "wal_chain (wal_after s (take m bs)) (drop m bs)"
    using assms(2) wal_chain_append [of s "take m bs" "drop m bs"] by simp_all
  have k: "m < length bs \<Longrightarrow> n - 16 - enc_offset ?enc bs m < length (?enc (bs ! m))"
    using m(2,3) enc_offset_Suc [of m bs ?enc] by auto
  have torn: "tail = [] \<or> torn_frame crc (wal_after s (take m bs)) tail"
  proof (cases "m < length bs \<and> 0 < n - 16 - enc_offset ?enc bs m")
    case True
    then have "valid_wal_batch (bs ! m)" "wb_first_sequence (bs ! m) = wal_after s (take m bs)"
      using chain(2) by (auto simp: Cons_nth_drop_Suc [symmetric])
    then show ?thesis
      using torn_frame_take [of "bs ! m" _ crc] k True by (simp add: tail_def)
  qed (auto simp: tail_def)
  have len: "length (wal_file crc (take m bs)) + length tail = n"
    using arg_cong [OF cut, of length] assms(5) by simp
  then have "length (wal_file crc (take m bs) @ tail) < 2 ^ 63"
    using assms(3,5) by simp
  from recover_from_wal_file [OF assms(1) chain(1) this torn]
  have "recover_from crc (take n (wal_file crc bs)) s = Ok (wal_recovery crc s (take m bs) tail)"
    by (simp only: cut)
  then show ?thesis
    using m(1-3) len assms(4)
    by (intro exI [of _ m] exI [of _ "wal_recovery crc s (take m bs) tail"])
      (auto simp: wal_recovery_fields length_wal_file_take)
qed

text \<open>Two batches of a small log; the checksum of the examples adds up the bytes.\<close>

definition sum_crc :: crc_append where
  "sum_crc c bs = c + word_of_nat (sum_list (map unat bs))"

definition example_log :: "wal_batch list" where
  "example_log = [\<lparr>wb_first_sequence = 1, wb_last_sequence = 2, wb_payload = [7, 8]\<rparr>,
     \<lparr>wb_first_sequence = 3, wb_last_sequence = 3, wb_payload = [9]\<rparr>]"

lemma example_log_chain: "wal_chain 1 example_log"
  by (simp add: example_log_def valid_wal_batch_def WAL_MAX_PAYLOAD_BYTES_def u64_max_def)

lemma length_example_log: "length (wal_file crc example_log) = 83"
  by (simp add: example_log_def wal_file_def)

theorem crash_prefix_recovery_witness:
  "\<exists>m r. m \<le> length example_log \<and> length (wal_file sum_crc (take m example_log)) \<le> 60 \<and>
    (m < length example_log \<longrightarrow> 60 < length (wal_file sum_crc (take (Suc m) example_log))) \<and>
    recover_from sum_crc (take 60 (wal_file sum_crc example_log)) 1 = Ok r \<and>
    batches r = recovered_frames sum_crc 16 (take m example_log) \<and>
    recovered_through r = saturating_sub (wal_after 1 (take m example_log)) 1 \<and>
    valid_bytes r = length (wal_file sum_crc (take m example_log)) \<and>
    torn_tail r = (if 60 = length (wal_file sum_crc (take m example_log)) then None
      else Some (length (wal_file sum_crc (take m example_log))))"
  by (rule crash_prefix_recovery) (simp_all add: example_log_chain length_example_log)

text \<open>C23. What recovery accepts. Any file that recovers is the canonical log of a contiguous run of
  valid batches followed by a torn tail or nothing, and the report lists exactly that run: corruption
  inside the accepted prefix is never silently skipped or reinterpreted.\<close>

theorem recovery_is_sound:
  assumes "recover_from crc file s = Ok r"
  shows "\<exists>bs tail. wal_chain s bs \<and> file = wal_file crc bs @ tail \<and>
    (tail = [] \<or> torn_frame crc (wal_after s bs) tail) \<and>
    batches r = recovered_frames crc 16 bs \<and>
    recovered_through r = saturating_sub (wal_after s bs) 1 \<and>
    valid_bytes r = length (wal_file crc bs) \<and>
    torn_tail r = (if tail = [] then None else Some (length (wal_file crc bs)))"
  using assms by (elim recover_from_sound) (auto simp: wal_recovery_fields)

lemma example_log_recovers:
  "recover_from sum_crc (wal_file sum_crc example_log) 1 = Ok (wal_recovery sum_crc 1 example_log [])"
  using recover_from_wal_file [of 1 example_log sum_crc "[]"]
  by (simp add: example_log_chain length_example_log)

theorem recovery_is_sound_witness:
  "\<exists>bs tail. wal_chain 1 bs \<and> wal_file sum_crc example_log = wal_file sum_crc bs @ tail \<and>
    (tail = [] \<or> torn_frame sum_crc (wal_after 1 bs) tail) \<and>
    batches (wal_recovery sum_crc 1 example_log []) = recovered_frames sum_crc 16 bs \<and>
    recovered_through (wal_recovery sum_crc 1 example_log []) = saturating_sub (wal_after 1 bs) 1 \<and>
    valid_bytes (wal_recovery sum_crc 1 example_log []) = length (wal_file sum_crc bs) \<and>
    torn_tail (wal_recovery sum_crc 1 example_log []) = (if tail = [] then None else Some (length (wal_file sum_crc bs)))"
  by (rule recovery_is_sound) (rule example_log_recovers)

text \<open>Repair. On a file that recovers, repair cuts the torn tail and nothing else: the repaired
  file is the accepted prefix, it recovers to the same batches with no torn tail, and a writer opened
  on it continues at the sequence number behind the last recovered one.\<close>

lemma repair_keeps_batches:
  assumes "recover_from crc file s = Ok r" and "length file < 2 ^ 63"
    and "recovered_through r \<noteq> u64_max"
  shows "\<exists>r'. repair_torn_tail_from crc file s = (Ok r', take (valid_bytes r) file) \<and>
    batches r' = batches r \<and> recovered_through r' = recovered_through r \<and>
    valid_bytes r' = valid_bytes r \<and> torn_tail r' = None \<and>
    wal_open_at crc (take (valid_bytes r) file) s
      = Ok \<lparr>next_sequence = recovered_through r + 1, poisoned = False\<rparr>"
proof -
  obtain bs tail where r: "s \<noteq> 0" "wal_chain s bs" "file = wal_file crc bs @ tail"
    "r = wal_recovery crc s bs tail"
    using assms(1) by (rule recover_from_sound)
  let ?r = "wal_recovery crc s bs []"
  have clean: "recover_from crc (wal_file crc bs) s = Ok ?r"
    using recover_from_wal_file [of s bs crc "[]"] r assms(2) by simp
  have "take (valid_bytes r) file = wal_file crc bs"
    by (simp add: r wal_recovery_fields)
  moreover have "repair_torn_tail_from crc file s = (Ok ?r, wal_file crc bs)"
    using assms(1) clean
    by (cases "tail = []") (simp_all add: repair_torn_tail_from_def wal_recovery_fields r)
  moreover have "wal_open_at crc (wal_file crc bs) s
      = Ok \<lparr>next_sequence = recovered_through r + 1, poisoned = False\<rparr>"
    using checked_succ [OF assms(3)] clean by (simp add: wal_open_at_def wal_recovery_fields r)
  ultimately show ?thesis
    by (intro exI [of _ ?r]) (simp add: r wal_recovery_fields)
qed

text \<open>C5. No acknowledged batch is lost. In every state a writer reaches from a new log, through any
  sequence of appends with any I/O outcome, recovery of the file succeeds and reports the batches
  acknowledged so far, in order, followed by at most the one whose append failed after its whole
  frame had reached the file; and an unpoisoned writer's file holds exactly the acknowledged
  batches and expects the sequence number behind them.\<close>

theorem acknowledged_batches_recovered:
  assumes "wal_reach crc s file w acked" and "length file + WAL_MAX_PAYLOAD_BYTES + 32 < 2 ^ 63"
  shows "\<exists>extra r. recover_from crc file s = Ok r \<and> length extra \<le> 1 \<and>
    batches r = recovered_frames crc 16 (acked @ extra) \<and>
    (\<not> poisoned w \<longrightarrow> extra = [] \<and> torn_tail r = None \<and> next_sequence w = wal_after s acked)"
proof (cases "poisoned w")
  case False
  then have "file = wal_file crc acked" "s \<noteq> 0" "wal_chain s acked" "next_sequence w = wal_after s acked"
    using wal_reach_inv [OF assms(1)] by (auto simp: wal_inv_def)
  then show ?thesis
    using recover_from_wal_file [of s acked crc "[]"] assms(2)
    by (intro exI [of _ "[]"]) (simp add: wal_recovery_fields)
next
  case True
  then obtain b n where b: "s \<noteq> 0" "wal_chain s (acked @ [b])"
      "file = wal_file crc acked @ take n (frame_bytes crc b)"
    using wal_reach_inv [OF assms(1)] by (auto simp: wal_inv_def)
  then have "length (wb_payload b) \<le> WAL_MAX_PAYLOAD_BYTES"
    by (auto simp: wal_chain_append valid_wal_batch_def)
  then have "length (wal_file crc (acked @ [b])) < 2 ^ 63"
    using assms(2) b(3) by (simp add: wal_file_append)
  note rec = recover_from_partial_frame [OF b(1,2) this, of n, folded b(3)]
  show ?thesis
  proof (cases "n < length (frame_bytes crc b)")
    case True
    then show ?thesis using rec \<open>poisoned w\<close>
      by (intro exI [of _ "[]"]) (simp add: wal_recovery_fields)
  next
    case False
    then show ?thesis using rec \<open>poisoned w\<close>
      by (intro exI [of _ "[b]"]) (simp add: wal_recovery_fields)
  qed
qed

text \<open>One acknowledged append, then one that fails after five bytes.\<close>

lemma example_reach:
  "wal_reach sum_crc 1 (wal_file sum_crc [example_log ! 0] @ take 5 (frame_bytes sum_crc (example_log ! 1)))
    \<lparr>next_sequence = 3, poisoned = True\<rparr> [example_log ! 0]"
proof -
  let ?w = "\<lparr>next_sequence = 1, poisoned = False\<rparr>" and ?w1 = "\<lparr>next_sequence = 3, poisoned = False\<rparr>"
  have v: "valid_wal_batch (example_log ! 0)" "valid_wal_batch (example_log ! 1)"
    using example_log_chain by (simp_all add: example_log_def)
  have "wal_reach sum_crc 1 (file_header sum_crc) ?w []"
    by (rule wal_reach.create) (simp add: wal_create_at_def)
  moreover have "wal_append sum_crc None (file_header sum_crc) ?w (example_log ! 0) Authoritative =
      (Ok \<lparr>ar_offset = 16, ar_end_offset = 50, ar_first_sequence = 1, ar_last_sequence = 2,
         ar_checksum = frame_checksum sum_crc (example_log ! 0), ar_durable = True\<rparr>,
       wal_file sum_crc [example_log ! 0], ?w1)"
    using v wal_batch_validate_ok [of "example_log ! 0" "()"]
    by (simp add: wal_append_def record_header_eq frame_bytes_def frame_header_fields wal_file_def
        RECORD_HEADER_BYTES_def checked_add_def example_log_def)
  ultimately have "wal_reach sum_crc 1 (wal_file sum_crc [example_log ! 0]) ?w1 ([] @ [example_log ! 0])"
    by (rule wal_reach.append_ok)
  moreover have "wal_append sum_crc (Some 5) (wal_file sum_crc [example_log ! 0]) ?w1 (example_log ! 1) Buffered =
      (Err (Io StorageFault), wal_file sum_crc [example_log ! 0] @ take 5 (frame_bytes sum_crc (example_log ! 1)),
       ?w1\<lparr>poisoned := True\<rparr>)"
    using v wal_batch_validate_ok [of "example_log ! 1" "()"]
    by (simp add: wal_append_def record_header_eq frame_bytes_def example_log_def)
  ultimately show ?thesis
    using wal_reach.append_err by fastforce
qed

theorem acknowledged_batches_recovered_witness:
  "\<exists>extra r. recover_from sum_crc
      (wal_file sum_crc [example_log ! 0] @ take 5 (frame_bytes sum_crc (example_log ! 1))) 1 = Ok r \<and>
    length extra \<le> 1 \<and> batches r = recovered_frames sum_crc 16 ([example_log ! 0] @ extra)"
proof -
  have "length (wal_file sum_crc [example_log ! 0] @ take 5 (frame_bytes sum_crc (example_log ! 1)))
      + WAL_MAX_PAYLOAD_BYTES + 32 < 2 ^ 63"
    by (simp add: wal_file_def WAL_MAX_PAYLOAD_BYTES_def example_log_def)
  from acknowledged_batches_recovered [OF example_reach this] show ?thesis by blast
qed

end
