(* ===== verification/Ordered_Map.thy ===== *)
theory Ordered_Map
  imports Vyrm_Prelude
begin

text \<open>
  The standard library's \<open>BTreeMap\<close> and \<open>BTreeSet\<close> as the storage crates use
  them: a map is the list of its entries in strictly ascending key order, so that
  iteration order is the list order. The locale \<open>ordered_map\<close> is the contract the
  clients rely on (what a lookup returns after an insert, what iteration yields); the
  interpretation \<open>bt\<close> discharges it for the entry lists.
\<close>

section \<open>Entry lists\<close>

type_synonym ('k, 'v) btree = "('k \<times> 'v) list"

definition bt_wf :: "('k::linorder, 'v) btree \<Rightarrow> bool" where
  "bt_wf m = sorted_wrt (<) (map fst m)"

definition bt_get :: "('k, 'v) btree \<Rightarrow> 'k \<Rightarrow> 'v option" where
  "bt_get m = map_of m"

fun bt_insert :: "'k::linorder \<Rightarrow> 'v \<Rightarrow> ('k, 'v) btree \<Rightarrow> ('k, 'v) btree" where
  "bt_insert k v [] = [(k, v)]"
| "bt_insert k v ((k', v') # m) =
     (if k < k' then (k, v) # (k', v') # m
      else if k = k' then (k, v) # m
      else (k', v') # bt_insert k v m)"

definition bt_remove :: "'k \<Rightarrow> ('k, 'v) btree \<Rightarrow> ('k, 'v) btree" where
  "bt_remove k m = filter (\<lambda>e. fst e \<noteq> k) m"

text \<open>\<open>f(m.entry(k).or_insert(d))\<close>: the slot is created when absent, then updated.\<close>

definition bt_update :: "'k::linorder \<Rightarrow> 'v \<Rightarrow> ('v \<Rightarrow> 'v) \<Rightarrow> ('k, 'v) btree \<Rightarrow> ('k, 'v) btree" where
  "bt_update k d f m = bt_insert k (f (case bt_get m k of None \<Rightarrow> d | Some v \<Rightarrow> v)) m"

text \<open>\<open>*m.get_mut(k).unwrap() = f(..)\<close> on a key known to be present.\<close>

definition bt_adjust :: "'k \<Rightarrow> ('v \<Rightarrow> 'v) \<Rightarrow> ('k, 'v) btree \<Rightarrow> ('k, 'v) btree" where
  "bt_adjust k f m = map (\<lambda>(k', v). (k', if k' = k then f v else v)) m"

text \<open>\<open>m.range(..=k).next_back()\<close>.\<close>

definition bt_floor :: "'k::linorder \<Rightarrow> ('k, 'v) btree \<Rightarrow> ('k \<times> 'v) option" where
  "bt_floor k m = (case rev (takeWhile (\<lambda>e. fst e \<le> k) m) of [] \<Rightarrow> None | e # _ \<Rightarrow> Some e)"

text \<open>\<open>BTreeSet::insert\<close> on the ascending list of members, and collecting an iterator.\<close>

definition bs_insert :: "'k::linorder \<Rightarrow> 'k list \<Rightarrow> 'k list" where
  "bs_insert k xs = map fst (bt_insert k () (map (\<lambda>x. (x, ())) xs))"

definition bs_collect :: "'k::linorder list \<Rightarrow> 'k list" where
  "bs_collect xs = sorted_list_of_set (set xs)"

section \<open>The contract of an ordered map\<close>

locale ordered_map =
  fixes get :: "'m \<Rightarrow> 'k::linorder \<Rightarrow> 'v option"
    and insert :: "'k \<Rightarrow> 'v \<Rightarrow> 'm \<Rightarrow> 'm"
    and remove :: "'k \<Rightarrow> 'm \<Rightarrow> 'm"
    and entries :: "'m \<Rightarrow> ('k \<times> 'v) list"
    and wf :: "'m \<Rightarrow> bool"
  assumes get_insert: "wf m \<Longrightarrow> get (insert k v m) = (get m)(k \<mapsto> v)"
    and wf_insert: "wf m \<Longrightarrow> wf (insert k v m)"
    and get_remove: "wf m \<Longrightarrow> get (remove k m) = (get m)(k := None)"
    and wf_remove: "wf m \<Longrightarrow> wf (remove k m)"
    and entries_sorted: "wf m \<Longrightarrow> sorted_wrt (<) (map fst (entries m))"
    and entries_get: "wf m \<Longrightarrow> map_of (entries m) = get m"
begin

lemma entries_distinct: "wf m \<Longrightarrow> distinct (map fst (entries m))"
  using entries_sorted strict_sorted_iff by blast

lemma entries_mem: "wf m \<Longrightarrow> (k, v) \<in> set (entries m) \<longleftrightarrow> get m k = Some v"
  using entries_distinct entries_get by (metis map_of_eq_Some_iff)

lemma keys_mem: "wf m \<Longrightarrow> k \<in> fst ` set (entries m) \<longleftrightarrow> get m k \<noteq> None"
  by (force simp flip: entries_mem)

lemma entries_unique:
  assumes "wf m" and "wf m'" and "get m = get m'"
  shows "entries m = entries m'"
proof -
  have set_eq: "set (entries m) = set (entries m')"
    using entries_mem [OF assms(1)] entries_mem [OF assms(2)] assms(3)
    by (auto simp: set_eq_iff)
  have "inj_on fst (set (entries m) \<union> set (entries m'))"
    using entries_distinct [OF assms(1)] set_eq by (simp add: distinct_map)
  moreover have "sorted (map fst (entries m))" "distinct (map fst (entries m))"
    and "sorted (map fst (entries m'))" "distinct (map fst (entries m'))"
    using entries_sorted [OF assms(1)] entries_sorted [OF assms(2)]
    by (simp_all add: strict_sorted_iff)
  ultimately show ?thesis
    using set_eq by (metis map_sorted_distinct_set_unique)
qed

lemma wf_insert_all: "wf m \<Longrightarrow> wf (fold (\<lambda>(k, v). insert k v) kvs m)"
  by (induction kvs arbitrary: m) (auto simp: wf_insert)

lemma get_insert_all:
  "wf m \<Longrightarrow> get (fold (\<lambda>(k, v). insert k v) kvs m) = get m ++ map_of (rev kvs)"
  by (induction kvs arbitrary: m) (auto simp: wf_insert get_insert)

end

section \<open>Entry lists implement the contract\<close>

lemma bt_get_insert: "bt_get (bt_insert k v m) = (bt_get m)(k \<mapsto> v)"
  by (induction m) (auto simp: bt_get_def)

lemma set_bt_insert_keys: "fst ` set (bt_insert k v m) = insert k (fst ` set m)"
proof (induction m)
  case (Cons e m)
  then show ?case by (cases e) (auto simp: insert_commute)
qed simp

lemma bt_wf_insert: "bt_wf m \<Longrightarrow> bt_wf (bt_insert k v m)"
proof (induction m)
  case (Cons e m)
  obtain k' v' where [simp]: "e = (k', v')" by (cases e)
  have "set (map fst (bt_insert k v m)) = insert k (fst ` set m)"
    by (simp add: set_bt_insert_keys)
  with Cons show ?case
    by (auto simp: bt_wf_def)
qed (simp add: bt_wf_def)

interpretation bt: ordered_map bt_get bt_insert bt_remove "\<lambda>m. m" bt_wf
proof unfold_locales
  fix m :: "('k::linorder, 'v) btree" and k v
  assume wf: "bt_wf m"
  show "bt_get (bt_insert k v m) = (bt_get m)(k \<mapsto> v)" by (rule bt_get_insert)
  show "bt_wf (bt_insert k v m)" using wf by (rule bt_wf_insert)
  show "bt_get (bt_remove k m) = (bt_get m)(k := None)"
    by (induction m) (auto simp: bt_get_def bt_remove_def)
  show "bt_wf (bt_remove k m)"
    using wf by (auto simp: bt_wf_def bt_remove_def sorted_wrt_map sorted_wrt_filter)
  show "sorted_wrt (<) (map fst m)" using wf by (simp add: bt_wf_def)
  show "map_of m = bt_get m" by (auto simp: bt_get_def)
qed

lemma bt_wf_Nil [simp]: "bt_wf []"
  by (simp add: bt_wf_def)

lemma bt_get_Nil [simp]: "bt_get [] = (\<lambda>_. None)"
  by (auto simp: bt_get_def)

lemma bt_wf_update: "bt_wf m \<Longrightarrow> bt_wf (bt_update k d f m)"
  by (simp add: bt_update_def bt.wf_insert)

lemma bt_get_update:
  "bt_get (bt_update k d f m) k' =
     (if k' = k then Some (f (case bt_get m k of None \<Rightarrow> d | Some v \<Rightarrow> v)) else bt_get m k')"
  by (simp add: bt_update_def bt_get_insert)

lemma bt_wf_filter: "bt_wf m \<Longrightarrow> bt_wf (filter P m)"
  by (simp add: bt_wf_def sorted_wrt_map sorted_wrt_filter)

lemma bt_get_filter:
  assumes wf: "bt_wf m"
  shows "bt_get (filter P m) k =
     (case bt_get m k of None \<Rightarrow> None | Some v \<Rightarrow> if P (k, v) then Some v else None)"
proof -
  have iff: "bt_get (filter P m) k = Some v \<longleftrightarrow> bt_get m k = Some v \<and> P (k, v)" for v
    using bt.entries_mem [OF wf, of k v] bt.entries_mem [OF bt_wf_filter [OF wf], of k v] by simp
  show ?thesis
  proof (cases "bt_get m k")
    case None
    then have "bt_get (filter P m) k = None"
      using iff by (metis not_None_eq)
    with None show ?thesis by simp
  next
    case (Some v)
    then have "\<not> P (k, v) \<Longrightarrow> bt_get (filter P m) k = None"
      using iff by (metis not_None_eq option.inject)
    with Some iff [of v] show ?thesis by auto
  qed
qed

lemma bt_wf_map_values: "bt_wf (map (\<lambda>(k, v). (k, f k v)) m) = bt_wf m"
  by (simp add: bt_wf_def comp_def case_prod_beta)

lemma bt_get_map_values: "bt_get (map (\<lambda>(k, v). (k, f k v)) m) k = map_option (f k) (bt_get m k)"
  by (induction m) (auto simp: bt_get_def)

lemma bt_wf_adjust: "bt_wf (bt_adjust k f m) = bt_wf m"
  using bt_wf_map_values [of "\<lambda>k' v. if k' = k then f v else v" m] by (simp add: bt_adjust_def)

lemma bt_get_adjust: "bt_get (bt_adjust k f m) k' = (if k' = k then map_option f (bt_get m k') else bt_get m k')"
  using bt_get_map_values [of "\<lambda>k' v. if k' = k then f v else v" m k']
  by (simp add: bt_adjust_def option.map_ident)

lemma length_bt_adjust [simp]: "length (bt_adjust k f m) = length m"
  by (simp add: bt_adjust_def)

lemma bt_wf_append:
  "bt_wf (m @ m') \<longleftrightarrow> bt_wf m \<and> bt_wf m' \<and> (\<forall>k \<in> fst ` set m. \<forall>k' \<in> fst ` set m'. k < k')"
  by (auto simp: bt_wf_def sorted_wrt_append)

lemma bt_get_append: "bt_get (m @ m') = bt_get m' ++ bt_get m"
  by (rule ext) (simp add: bt_get_def map_add_def)

text \<open>\<open>bt_floor\<close> finds the greatest entry at or below the bound.\<close>

lemma bt_wf_takeWhile_le:
  assumes "bt_wf m"
  shows "set (takeWhile (\<lambda>e. fst e \<le> k) m) = {e \<in> set m. fst e \<le> k}"
  using assms
proof (induction m)
  case (Cons e m)
  then have "\<forall>e' \<in> set m. fst e < fst e'" and "bt_wf m"
    by (auto simp: bt_wf_def)
  with Cons.IH show ?case by fastforce
qed simp

lemma bt_floor_Some:
  assumes wf: "bt_wf m" and "bt_floor k m = Some (k', v)"
  shows "bt_get m k' = Some v" and "k' \<le> k"
    and "bt_get m j = Some w \<Longrightarrow> j \<le> k \<Longrightarrow> j \<le> k'"
proof -
  let ?t = "takeWhile (\<lambda>e. fst e \<le> k) m"
  obtain t where t: "?t = t @ [(k', v)]"
    using assms(2) by (auto simp: bt_floor_def rev_eq_Cons_iff split: list.splits)
  have mem: "(j, w) \<in> set ?t \<longleftrightarrow> bt_get m j = Some w \<and> j \<le> k" for j w
    using bt_wf_takeWhile_le [OF wf] bt.entries_mem [OF wf] by auto
  have "bt_wf ?t"
    using wf bt_wf_append [of ?t "dropWhile (\<lambda>e. fst e \<le> k) m"] by simp
  then have less: "\<forall>e \<in> set t. fst e < k'"
    unfolding t by (auto simp: bt_wf_append)
  show "bt_get m k' = Some v" and "k' \<le> k"
    using mem [of k' v] t by auto
  show "j \<le> k'" if "bt_get m j = Some w" "j \<le> k"
    using mem [of j w] that less unfolding t by force
qed

lemma bt_floor_None:
  assumes wf: "bt_wf m" and "bt_floor k m = None" and "bt_get m j = Some w"
  shows "k < j"
proof -
  have "takeWhile (\<lambda>e. fst e \<le> k) m = []"
    using assms(2) by (auto simp: bt_floor_def split: list.splits)
  then show ?thesis
    using bt_wf_takeWhile_le [OF wf, of k] bt.entries_mem [OF wf, of j w] assms(3) by force
qed

lemma bt_floor_eq_Some:
  assumes wf: "bt_wf m"
  shows "bt_floor k m = Some (k', v) \<longleftrightarrow>
    bt_get m k' = Some v \<and> k' \<le> k \<and> (\<forall>j w. bt_get m j = Some w \<longrightarrow> j \<le> k \<longrightarrow> j \<le> k')"
    (is "_ \<longleftrightarrow> ?R")
proof
  assume "bt_floor k m = Some (k', v)"
  then show ?R using bt_floor_Some [OF wf] by blast
next
  assume r: ?R
  show "bt_floor k m = Some (k', v)"
  proof (cases "bt_floor k m")
    case None
    then show ?thesis using r bt_floor_None [OF wf None] by force
  next
    case (Some e)
    obtain a b where e: "e = (a, b)" by (cases e)
    have "a = k'"
      using bt_floor_Some [OF wf Some [unfolded e]] r by (metis order_antisym)
    then show ?thesis
      using bt_floor_Some(1) [OF wf Some [unfolded e]] r Some e by simp
  qed
qed

end
