(* ===== verification/Memtable.thy ===== *)
theory Memtable
  imports Wal Ordered_Map
begin

text \<open>
  The ordered multi-version memtable (\<^verbatim>\<open>crates/vyrm-kv/src/memtable.rs\<close>): applying
  batches, recovery from log batches, point reads, scans and version listings at a read sequence.
  The lemmas show that a memtable is exactly the indexed log it was built from, so that every read
  at sequence \<open>r\<close> is the state after the first \<open>r\<close> operations.
\<close>

section \<open>Model\<close>

record versioned_value =
  vv_sequence :: u64
  vv_value :: "bytes option"

record memtable =
  mt_versions :: "(bytes, versioned_value list) btree"
  mt_maximum_sequence :: u64
  mt_approximate_bytes :: nat

text \<open>\<open>size_of::<VersionedValue>()\<close>: a \<open>u64\<close> and an \<open>Option<Vec<u8>>\<close>
  on a 64-bit target.\<close>

definition VERSIONED_VALUE_BYTES :: nat where
  "VERSIONED_VALUE_BYTES = 32"

definition approximate_size :: "nat \<Rightarrow> bytes \<Rightarrow> bytes option \<Rightarrow> nat" where
  "approximate_size acc key value =
     usize_saturating_add (usize_saturating_add (usize_saturating_add acc (length key))
       (case value of None \<Rightarrow> 0 | Some v \<Rightarrow> length v)) VERSIONED_VALUE_BYTES"

definition at_sequence :: "u64 \<Rightarrow> memtable" where
  "at_sequence seq = \<lparr>mt_versions = [], mt_maximum_sequence = seq, mt_approximate_bytes = 0\<rparr>"

fun mutation_value :: "mutation \<Rightarrow> bytes option" where
  "mutation_value (Put key val) = Some val"
| "mutation_value (Delete key) = None"

text \<open>The body of the loop over \<open>batch.operations.iter().enumerate()\<close>.\<close>

definition apply_operation :: "u64 \<Rightarrow> nat \<times> mutation \<Rightarrow> memtable \<Rightarrow> memtable" where
  "apply_operation first_sequence = (\<lambda>(index, operation) t.
     let seq = first_sequence + word_of_nat index;
         key = mutation_key operation;
         val = mutation_value operation
     in t\<lparr>mt_approximate_bytes := approximate_size (mt_approximate_bytes t) key val,
          mt_versions := bt_update key [] (\<lambda>vs. vs @ [\<lparr>vv_sequence = seq, vv_value = val\<rparr>]) (mt_versions t)\<rparr>)"

definition apply_write_batch :: "memtable \<Rightarrow> write_batch \<Rightarrow> u64 \<Rightarrow> u64 \<Rightarrow> memtable kv_result" where
  "apply_write_batch t batch first_sequence last_sequence =
     rbind (ok_or (u64_try_from (batch_len batch)) (InvalidBatch ''operation count exceeds u64''))
       (\<lambda>operation_count.
     rbind (ok_or (checked_add first_sequence (operation_count - 1))
              (InvalidBatch ''batch sequence range overflow'')) (\<lambda>expected_last.
     if first_sequence \<noteq> saturating_add (mt_maximum_sequence t) 1 \<or> last_sequence \<noteq> expected_last
     then Err (InvalidBatch ''batch sequence range does not match its operations'')
     else Ok ((fold (apply_operation first_sequence) (List.enumerate 0 (operations batch)) t)
                \<lparr>mt_maximum_sequence := last_sequence\<rparr>)))"

text \<open>\<open>apply_owned_write_batch\<close> consumes the batch instead of cloning its keys and values.\<close>

definition apply_owned_write_batch :: "memtable \<Rightarrow> write_batch \<Rightarrow> u64 \<Rightarrow> u64 \<Rightarrow> memtable kv_result" where
  "apply_owned_write_batch t batch first_sequence last_sequence =
     rbind (ok_or (u64_try_from (batch_len batch)) (InvalidBatch ''operation count exceeds u64''))
       (\<lambda>operation_count.
     rbind (ok_or (checked_add first_sequence (operation_count - 1))
              (InvalidBatch ''batch sequence range overflow'')) (\<lambda>expected_last.
     if first_sequence \<noteq> saturating_add (mt_maximum_sequence t) 1 \<or> last_sequence \<noteq> expected_last
     then Err (InvalidBatch ''batch sequence range does not match its operations'')
     else Ok ((fold (apply_operation first_sequence) (List.enumerate 0 (operations batch)) t)
                \<lparr>mt_maximum_sequence := last_sequence\<rparr>)))"

definition mt_apply :: "recovered_batch \<Rightarrow> memtable \<Rightarrow> memtable kv_result" where
  "mt_apply recovered t =
     rbind (batch_decode (rb_payload recovered)) (\<lambda>batch.
     apply_write_batch t batch (rb_first_sequence recovered) (rb_last_sequence recovered))"

definition mt_recover_from :: "recovered_batch list \<Rightarrow> u64 \<Rightarrow> memtable kv_result" where
  "mt_recover_from bs previous_sequence = try_fold mt_apply bs (at_sequence previous_sequence)"

definition mt_recover :: "recovered_batch list \<Rightarrow> memtable kv_result" where
  "mt_recover bs = mt_recover_from bs 0"

text \<open>The body of the inner loop of \<open>from_versions\<close>: the state is the previous sequence and
  the size so far.\<close>

definition from_versions_step :: "u64 \<Rightarrow> bytes \<Rightarrow> versioned_value \<Rightarrow> u64 \<times> nat \<Rightarrow> (u64 \<times> nat) kv_result" where
  "from_versions_step maximum_sequence key v = (\<lambda>(previous, acc).
     if vv_sequence v = 0 \<or> vv_sequence v \<le> previous \<or> vv_sequence v > maximum_sequence
     then Err (InvalidSegment ''compacted versions are not strictly ordered'')
     else Ok (vv_sequence v, approximate_size acc key (vv_value v)))"

definition from_versions :: "(bytes, versioned_value list) btree \<Rightarrow> u64 \<Rightarrow> memtable kv_result" where
  "from_versions versions maximum_sequence =
     rbind (try_fold (\<lambda>(key, vs) acc.
         if key = [] \<or> vs = []
         then Err (InvalidSegment ''compacted memtable contains an empty key/version set'')
         else rbind (try_fold (from_versions_step maximum_sequence key) vs (0, acc))
                (\<lambda>(_, acc). Ok acc)) versions 0)
       (\<lambda>acc. Ok \<lparr>mt_versions = versions, mt_maximum_sequence = maximum_sequence,
                     mt_approximate_bytes = acc\<rparr>)"

text \<open>\<open>versions.iter().rev().find(|v| v.sequence <= read_sequence)\<close>.\<close>

definition newest_at :: "u64 \<Rightarrow> versioned_value list \<Rightarrow> versioned_value option" where
  "newest_at read_sequence vs = find (\<lambda>v. vv_sequence v \<le> read_sequence) (rev vs)"

definition mt_get_version :: "memtable \<Rightarrow> bytes \<Rightarrow> u64 \<Rightarrow> versioned_value option" where
  "mt_get_version t key read_sequence =
     Option.bind (bt_get (mt_versions t) key) (newest_at read_sequence)"

definition mt_get :: "memtable \<Rightarrow> bytes \<Rightarrow> u64 \<Rightarrow> bytes option" where
  "mt_get t key read_sequence = Option.bind (mt_get_version t key read_sequence) vv_value"

definition in_bounds :: "bytes \<Rightarrow> bytes option \<Rightarrow> bytes \<Rightarrow> bool" where
  "in_bounds start end' key \<longleftrightarrow> start \<le> key \<and> (case end' of None \<Rightarrow> True | Some e \<Rightarrow> key < e)"

definition mt_scan :: "memtable \<Rightarrow> bytes \<Rightarrow> bytes option \<Rightarrow> u64 \<Rightarrow> (bytes \<times> bytes) list" where
  "mt_scan t start end' read_sequence =
     List.map_filter (\<lambda>(key, vs).
         map_option (\<lambda>v. (key, v)) (Option.bind (newest_at read_sequence vs) vv_value))
       (filter (\<lambda>(key, _). in_bounds start end' key) (mt_versions t))"

definition mt_key_count :: "memtable \<Rightarrow> nat" where
  "mt_key_count t = length (mt_versions t)"

definition mt_version_count :: "memtable \<Rightarrow> nat" where
  "mt_version_count t = sum_list (map (\<lambda>(_, vs). length vs) (mt_versions t))"

definition mt_all_versions :: "memtable \<Rightarrow> (bytes \<times> versioned_value list) list" where
  "mt_all_versions t = mt_versions t"

definition mt_visible_versions :: "memtable \<Rightarrow> u64 \<Rightarrow> (bytes \<times> versioned_value) list" where
  "mt_visible_versions t read_sequence =
     List.map_filter (\<lambda>(key, vs). map_option (\<lambda>v. (key, v)) (newest_at read_sequence vs)) (mt_versions t)"

section \<open>The log as specification\<close>

text \<open>The state after a run of operations, and the versions of one key in the log whose first operation
  has sequence number \<open>base + 1\<close>.\<close>

fun replay_op :: "mutation \<Rightarrow> (bytes \<rightharpoonup> bytes) \<Rightarrow> (bytes \<rightharpoonup> bytes)" where
  "replay_op (Put key val) m = m(key \<mapsto> val)"
| "replay_op (Delete key) m = m(key := None)"

definition replay :: "mutation list \<Rightarrow> (bytes \<rightharpoonup> bytes)" where
  "replay ops = fold replay_op ops Map.empty"

definition versions_of :: "nat \<Rightarrow> mutation list \<Rightarrow> bytes \<Rightarrow> versioned_value list" where
  "versions_of base ops key =
     map (\<lambda>(i, op). \<lparr>vv_sequence = word_of_nat i, vv_value = mutation_value op\<rparr>)
       (filter (\<lambda>(_, op). mutation_key op = key) (List.enumerate (Suc base) ops))"

lemma replay_snoc: "replay (ops @ [op]) = replay_op op (replay ops)"
  by (simp add: replay_def)

lemma replay_op_apply:
  "replay_op op m k = (if mutation_key op = k then mutation_value op else m k)"
  by (cases op) auto

lemma versions_of_Nil [simp]: "versions_of base [] key = []"
  by (simp add: versions_of_def)

lemma versions_of_snoc:
  "versions_of base (ops @ [op]) key = versions_of base ops key @
     (if mutation_key op = key
      then [\<lparr>vv_sequence = word_of_nat (Suc (base + length ops)), vv_value = mutation_value op\<rparr>] else [])"
  by (simp add: versions_of_def enumerate_append_eq)

lemma newest_at_snoc:
  "newest_at r (vs @ [v]) = (if vv_sequence v \<le> r then Some v else newest_at r vs)"
  by (simp add: newest_at_def)

lemma newest_at_Nil [simp]: "newest_at r [] = None"
  by (simp add: newest_at_def)

text \<open>Reading the newest version at \<open>r\<close> is reading the state after the operations up to
  \<open>r\<close>.\<close>

lemma newest_at_replay:
  assumes "base + length ops < 2 ^ 64"
  shows "Option.bind (newest_at r (versions_of base ops key)) vv_value = replay (take (unat r - base) ops) key"
  using assms
proof (induction ops rule: rev_induct)
  case Nil
  then show ?case by (simp add: replay_def)
next
  case (snoc op ops)
  have le: "word_of_nat (Suc (base + length ops)) \<le> r \<longleftrightarrow> Suc (base + length ops) \<le> unat r"
    using snoc.prems by (simp only: word_le_nat_alt unat_u64_of_nat length_append_singleton add_Suc_right)
  show ?case
  proof (cases "Suc (base + length ops) \<le> unat r")
    case True
    then have "take (unat r - base) ops = ops" "take (unat r - base) (ops @ [op]) = ops @ [op]"
      by simp_all
    with snoc le True show ?thesis
      by (simp add: versions_of_snoc newest_at_snoc replay_snoc replay_op_apply)
  next
    case False
    with snoc le show ?thesis
      by (simp add: versions_of_snoc newest_at_snoc)
  qed
qed

section \<open>A memtable represents its log\<close>

definition versions_rep :: "nat \<Rightarrow> mutation list \<Rightarrow> (bytes, versioned_value list) btree \<Rightarrow> bool" where
  "versions_rep base ops vs \<longleftrightarrow> bt_wf vs \<and>
     (\<forall>key. bt_get vs key = (if versions_of base ops key = [] then None else Some (versions_of base ops key)))"

definition mt_rep :: "nat \<Rightarrow> mutation list \<Rightarrow> memtable \<Rightarrow> bool" where
  "mt_rep base ops t \<longleftrightarrow> versions_rep base ops (mt_versions t) \<and> unat (mt_maximum_sequence t) = base + length ops"

lemma mt_rep_at_sequence: "mt_rep (unat s) [] (at_sequence s)"
  by (simp add: mt_rep_def versions_rep_def at_sequence_def)

lemma versions_rep_push:
  assumes "versions_rep base ops vs"
  shows "versions_rep base (ops @ [op]) (bt_update (mutation_key op) []
    (\<lambda>vs. vs @ [\<lparr>vv_sequence = word_of_nat (Suc (base + length ops)), vv_value = mutation_value op\<rparr>]) vs)"
  using assms by (simp add: versions_rep_def bt_wf_update bt_get_update versions_of_snoc)

lemma apply_operations_rep:
  assumes "versions_rep base ops (mt_versions t)" and "first + word_of_nat j = word_of_nat (Suc (base + length ops))"
  shows "versions_rep base (ops @ ops') (mt_versions (fold (apply_operation first) (List.enumerate j ops') t))"
  using assms
proof (induction ops' arbitrary: ops t j)
  case (Cons op ops')
  let ?t = "apply_operation first (j, op) t"
  have "versions_rep base (ops @ [op]) (mt_versions ?t)"
    using versions_rep_push [OF Cons.prems(1), of op] Cons.prems(2) by (simp add: apply_operation_def Let_def)
  moreover have "first + word_of_nat (Suc j) = word_of_nat (Suc (base + length (ops @ [op])))"
    using Cons.prems(2) by (simp add: algebra_simps)
  ultimately show ?case
    using Cons.IH [of "ops @ [op]" ?t "Suc j"] by simp
qed simp

lemma apply_write_batch_ok:
  assumes "apply_write_batch t b first lst = Ok t'" and "operations b \<noteq> []"
  shows "first = saturating_add (mt_maximum_sequence t) 1"
    and "unat lst = unat first + (length (operations b) - 1)"
    and "t' = (fold (apply_operation first) (List.enumerate 0 (operations b)) t)\<lparr>mt_maximum_sequence := lst\<rparr>"
proof -
  let ?n = "length (operations b)"
  have "?n < 2 ^ 64" and first: "first = saturating_add (mt_maximum_sequence t) 1"
    and lst: "checked_add first (word_of_nat ?n - 1) = Some lst"
    and t': "t' = (fold (apply_operation first) (List.enumerate 0 (operations b)) t)\<lparr>mt_maximum_sequence := lst\<rparr>"
    using assms(1)
    by (auto simp: apply_write_batch_def res_simps u64_try_from_eq_Some batch_len_def split: if_splits)
  have "unat (word_of_nat ?n - 1 :: u64) = ?n - 1"
    using assms(2) \<open>?n < 2 ^ 64\<close> by (intro unat_pred_u64) simp_all
  with lst have "unat lst = unat first + (?n - 1)"
    by (simp add: checked_add_eq_Some)
  with first t' show "first = saturating_add (mt_maximum_sequence t) 1"
    "unat lst = unat first + (length (operations b) - 1)"
    "t' = (fold (apply_operation first) (List.enumerate 0 (operations b)) t)\<lparr>mt_maximum_sequence := lst\<rparr>"
    by blast+
qed

lemma apply_write_batch_rep:
  assumes "mt_rep base ops t" and "apply_write_batch t b first lst = Ok t'"
    and "operations b \<noteq> []" and "mt_maximum_sequence t \<noteq> u64_max"
  shows "mt_rep base (ops @ operations b) t'"
proof -
  note ok = apply_write_batch_ok [OF assms(2,3)]
  have max: "unat (mt_maximum_sequence t) = base + length ops"
    using assms(1) by (simp add: mt_rep_def)
  have "unat (mt_maximum_sequence t) < 2 ^ 64 - 1"
    using checked_succ [OF assms(4)] by (simp add: checked_add_eq_Some checked_add_def split: if_splits)
  then have first: "unat first = Suc (base + length ops)"
    by (simp add: ok(1) unat_saturating_add max)
  then have "first + word_of_nat 0 = word_of_nat (Suc (base + length ops))"
    by (simp only: first [symmetric]) simp
  then have "versions_rep base (ops @ operations b) (mt_versions t')"
    using apply_operations_rep [of base ops t first 0] assms(1) by (simp add: ok(3) mt_rep_def)
  moreover have "0 < length (operations b)"
    using assms(3) by simp
  ultimately show ?thesis
    using ok(2,3) first by (simp add: mt_rep_def)
qed

text \<open>The operations of recovered batches, in log order.\<close>

definition recovered_operations :: "recovered_batch list \<Rightarrow> mutation list" where
  "recovered_operations bs =
     concat (map (\<lambda>b. case batch_decode (rb_payload b) of Inl _ \<Rightarrow> [] | Inr batch \<Rightarrow> operations batch) bs)"

lemma mt_apply_rep:
  assumes "mt_rep base ops t" and "mt_apply b t = Ok t'" and "mt_maximum_sequence t \<noteq> u64_max"
  shows "mt_rep base (ops @ recovered_operations [b]) t'" and "mt_maximum_sequence t' = rb_last_sequence b"
proof -
  obtain batch where b: "batch_decode (rb_payload b) = Ok batch"
    and t': "apply_write_batch t batch (rb_first_sequence b) (rb_last_sequence b) = Ok t'"
    using assms(2) by (auto simp: mt_apply_def res_simps)
  have "operations batch \<noteq> []"
    using batch_decode_sound [OF b] by (auto simp: valid_batch_def)
  with t' show "mt_rep base (ops @ recovered_operations [b]) t'" "mt_maximum_sequence t' = rb_last_sequence b"
    using apply_write_batch_rep [OF assms(1) t'] apply_write_batch_ok(3) [OF t'] assms(3) b
    by (simp_all add: recovered_operations_def)
qed

lemma mt_recover_rep:
  assumes "try_fold mt_apply bs t = Ok t'" and "mt_rep base ops t" and "mt_maximum_sequence t \<noteq> u64_max"
    and "\<forall>b \<in> set bs. rb_last_sequence b \<noteq> u64_max"
  shows "mt_rep base (ops @ recovered_operations bs) t'"
  using assms
proof (induction bs arbitrary: t ops)
  case (Cons b bs)
  then obtain u where u: "mt_apply b t = Ok u" "try_fold mt_apply bs u = Ok t'"
    by (auto simp: res_simps)
  show ?case
    using Cons.IH [OF u(2) mt_apply_rep(1) [OF Cons.prems(2) u(1) Cons.prems(3)]]
      mt_apply_rep(2) [OF Cons.prems(2) u(1) Cons.prems(3)] Cons.prems(4)
    by (simp add: recovered_operations_def)
qed (simp add: recovered_operations_def)

lemma mt_recover_from_rep:
  assumes "mt_recover_from bs prev = Ok t" and "prev \<noteq> u64_max"
    and "\<forall>b \<in> set bs. rb_last_sequence b \<noteq> u64_max"
  shows "mt_rep (unat prev) (recovered_operations bs) t"
proof -
  have "mt_maximum_sequence (at_sequence prev) \<noteq> u64_max"
    using assms(2) by (simp add: at_sequence_def)
  from mt_recover_rep [OF assms(1) [unfolded mt_recover_from_def] mt_rep_at_sequence this assms(3)]
  show ?thesis by simp
qed

section \<open>Reads\<close>

lemma mt_get_version_rep:
  "mt_rep base ops t \<Longrightarrow> mt_get_version t key r = newest_at r (versions_of base ops key)"
  by (simp add: mt_rep_def versions_rep_def mt_get_version_def)

lemma mt_rep_bound: "mt_rep base ops t \<Longrightarrow> base + length ops < 2 ^ 64"
  using unat_u64_less [of "mt_maximum_sequence t"] by (simp add: mt_rep_def)

lemma mt_get_rep:
  "mt_rep base ops t \<Longrightarrow> mt_get t key r = replay (take (unat r - base) ops) key"
  by (simp add: mt_get_def mt_get_version_rep newest_at_replay [OF mt_rep_bound])

lemma map_filter_keys_sorted:
  assumes "bt_wf m" and "\<And>k v e. f (k, v) = Some e \<Longrightarrow> fst e = k"
  shows "sorted_wrt (<) (map fst (List.map_filter f m))"
  using assms(1)
proof (induction m)
  case (Cons e m)
  have keys: "fst ` set (List.map_filter f m) \<subseteq> fst ` set m"
    using assms(2) by (force simp: map_filter_def)
  from Cons have IH: "sorted_wrt (<) (map fst (List.map_filter f m))"
    by (simp add: bt_wf_def)
  show ?case
  proof (cases "f e")
    case None
    with IH show ?thesis by (simp add: map_filter_simps)
  next
    case (Some e')
    then have "fst e' = fst e"
      using assms(2) by (metis prod.collapse)
    with Some IH keys Cons.prems show ?thesis
      by (fastforce simp: map_filter_simps bt_wf_def)
  qed
qed (simp add: map_filter_simps)

lemma mt_scan_mem:
  assumes "bt_wf (mt_versions t)"
  shows "(key, val) \<in> set (mt_scan t start end' r) \<longleftrightarrow> in_bounds start end' key \<and> mt_get t key r = Some val"
  using bt.entries_mem [OF assms]
  by (force simp: mt_scan_def set_map_filter mt_get_def mt_get_version_def bind_eq_Some_conv)

lemma mt_scan_sorted:
  assumes "bt_wf (mt_versions t)"
  shows "sorted_wrt (<) (map fst (mt_scan t start end' r))"
  unfolding mt_scan_def using bt_wf_filter [OF assms] by (rule map_filter_keys_sorted) auto

lemma mt_visible_versions_mem:
  assumes "bt_wf (mt_versions t)"
  shows "(key, v) \<in> set (mt_visible_versions t r) \<longleftrightarrow> mt_get_version t key r = Some v"
  using bt.entries_mem [OF assms]
  by (force simp: mt_visible_versions_def set_map_filter mt_get_version_def bind_eq_Some_conv)

lemma mt_visible_versions_sorted:
  assumes "bt_wf (mt_versions t)"
  shows "sorted_wrt (<) (map fst (mt_visible_versions t r))"
  unfolding mt_visible_versions_def using assms by (rule map_filter_keys_sorted) auto

section \<open>Well-formed memtables\<close>

definition versions_ok :: "u64 \<Rightarrow> versioned_value list \<Rightarrow> bool" where
  "versions_ok limit vs \<longleftrightarrow> vs \<noteq> [] \<and> sorted_wrt (<) (map vv_sequence vs) \<and>
     (\<forall>v \<in> set vs. vv_sequence v \<noteq> 0 \<and> vv_sequence v \<le> limit)"

definition mt_wf :: "memtable \<Rightarrow> bool" where
  "mt_wf t \<longleftrightarrow> bt_wf (mt_versions t) \<and>
     (\<forall>(key, vs) \<in> set (mt_versions t). key \<noteq> [] \<and> versions_ok (mt_maximum_sequence t) vs)"

lemma versions_of_bounds:
  assumes "base + length ops < 2 ^ 64" and "v \<in> set (versions_of base ops key)"
  shows "base < unat (vv_sequence v) \<and> unat (vv_sequence v) \<le> base + length ops"
  using assms
proof (induction ops rule: rev_induct)
  case (snoc op ops)
  have "unat (word_of_nat (Suc (base + length ops)) :: u64) = Suc (base + length ops)"
    using snoc.prems by (intro unat_u64_of_nat) simp
  with snoc show ?case
    by (auto simp: versions_of_snoc simp del: of_nat_Suc split: if_splits)
qed simp

lemma versions_of_sorted:
  assumes "base + length ops < 2 ^ 64"
  shows "sorted_wrt (<) (map vv_sequence (versions_of base ops key))"
  using assms
proof (induction ops rule: rev_induct)
  case (snoc op ops)
  have "unat (word_of_nat (Suc (base + length ops)) :: u64) = Suc (base + length ops)"
    using snoc.prems by (intro unat_u64_of_nat) simp
  moreover have "base + length ops < 2 ^ 64"
    using snoc.prems by simp
  ultimately show ?case
    using snoc.IH versions_of_bounds [of base ops _ key]
    by (force simp: versions_of_snoc sorted_wrt_append word_less_nat_alt simp del: of_nat_Suc)
qed simp

lemma versions_of_nonempty: "versions_of base ops key \<noteq> [] \<Longrightarrow> key \<in> mutation_key ` set ops"
  by (auto simp: versions_of_def filter_empty_conv dest!: in_set_enumerate_eq [THEN iffD1])

lemma mt_rep_wf:
  assumes "mt_rep base ops t" and "\<forall>op \<in> set ops. mutation_key op \<noteq> []"
  shows "mt_wf t"
proof -
  have wf: "bt_wf (mt_versions t)" and max: "unat (mt_maximum_sequence t) = base + length ops"
    using assms(1) by (auto simp: mt_rep_def versions_rep_def)
  have "key \<noteq> [] \<and> versions_ok (mt_maximum_sequence t) vs" if "(key, vs) \<in> set (mt_versions t)" for key vs
  proof -
    have "bt_get (mt_versions t) key = Some vs"
      using that bt.entries_mem [OF wf] by simp
    then have vs: "vs = versions_of base ops key" "vs \<noteq> []"
      using assms(1) by (auto simp: mt_rep_def versions_rep_def split: if_splits)
    then have "key \<noteq> []"
      using versions_of_nonempty [of base ops key] assms(2) by auto
    moreover have "vv_sequence v \<noteq> 0 \<and> vv_sequence v \<le> mt_maximum_sequence t" if "v \<in> set vs" for v
      using versions_of_bounds [OF mt_rep_bound [OF assms(1)], of v key] that vs(1) max
      by (auto simp: word_le_nat_alt)
    ultimately show ?thesis
      using versions_of_sorted [OF mt_rep_bound [OF assms(1)]] vs by (simp add: versions_ok_def)
  qed
  with wf show ?thesis by (auto simp: mt_wf_def)
qed

lemma from_versions_step_ok:
  "(\<exists>p' acc'. try_fold (from_versions_step limit key) vs (p, acc) = Ok (p', acc')) \<longleftrightarrow>
     sorted_wrt (<) (p # map vv_sequence vs) \<and> (\<forall>v \<in> set vs. vv_sequence v \<noteq> 0 \<and> vv_sequence v \<le> limit)"
proof (induction vs arbitrary: p acc)
  case (Cons v vs)
  have "sorted_wrt (<) (p # map vv_sequence (v # vs)) \<longleftrightarrow>
      p < vv_sequence v \<and> sorted_wrt (<) (vv_sequence v # map vv_sequence vs)"
    by (auto dest: less_trans)
  with Cons show ?case
    by (auto simp: from_versions_step_def not_le not_less)
qed simp

lemma from_versions_eq_Ok:
  assumes "bt_wf versions"
  shows "(\<exists>t. from_versions versions limit = Ok t) \<longleftrightarrow>
    mt_wf \<lparr>mt_versions = versions, mt_maximum_sequence = limit, mt_approximate_bytes = 0\<rparr>"
proof -
  let ?body = "\<lambda>(key, vs) acc. if key = [] \<or> vs = []
      then Err (InvalidSegment ''compacted memtable contains an empty key/version set'')
      else rbind (try_fold (from_versions_step limit key) vs (0, acc)) (\<lambda>(_, acc). Ok acc)"
  have entry: "(\<exists>acc'. ?body (key, vs) acc = Ok acc') \<longleftrightarrow> key \<noteq> [] \<and> versions_ok limit vs" for key vs acc
    using from_versions_step_ok [of limit key vs 0 acc]
    by (auto simp: versions_ok_def res_simps word_neq_0_conv)
  have "(\<exists>acc'. try_fold ?body es acc = Ok acc') \<longleftrightarrow> (\<forall>(key, vs) \<in> set es. key \<noteq> [] \<and> versions_ok limit vs)" for es acc
  proof (induction es arbitrary: acc)
    case (Cons e es)
    obtain key vs where e: "e = (key, vs)" by (cases e)
    show ?case
      using entry [of key vs acc] Cons.IH unfolding e try_fold.simps
      by (auto simp: rbind_eq_Inr simp del: split_paired_Ex)
  qed simp
  then show ?thesis
    using assms by (auto simp: from_versions_def mt_wf_def rbind_eq_Inr)
qed

lemma from_versions_fields:
  "from_versions versions limit = Ok t \<Longrightarrow> mt_versions t = versions \<and> mt_maximum_sequence t = limit"
  by (auto simp: from_versions_def res_simps)

section \<open>Properties\<close>

text \<open>Snapshot reads. A memtable recovered from log batches above sequence \<open>prev\<close>
  answers every point read at every read sequence \<open>r\<close> with the state after exactly the
  operations up to \<open>r\<close>, deletions included, whatever order keys and batches came in; its
  maximum sequence is that of the last operation.\<close>

lemma memtable_snapshot_reads:
  assumes "mt_recover_from bs prev = Ok t" and "prev \<noteq> u64_max"
    and "\<forall>b \<in> set bs. rb_last_sequence b \<noteq> u64_max"
  shows "mt_get t key r = replay (take (unat r - unat prev) (recovered_operations bs)) key \<and>
    unat (mt_maximum_sequence t) = unat prev + length (recovered_operations bs)"
  using mt_recover_from_rep [OF assms] by (simp add: mt_get_rep, simp add: mt_rep_def)

text \<open>One batch of a put and a delete of the same key, recovered at sequence 7.\<close>

definition example_operations :: "mutation list" where
  "example_operations = [Put [1] [5], Put [2] [6], Delete [1]]"

definition example_recovered :: recovered_batch where
  "example_recovered = \<lparr>rb_offset = 16, rb_first_sequence = 7, rb_last_sequence = 9, rb_checksum = 0,
     rb_payload = batch_bytes example_operations\<rparr>"

lemma example_recovered_decode: "batch_decode (rb_payload example_recovered) = Ok \<lparr>operations = example_operations\<rparr>"
  using batch_decode_bytes [of "\<lparr>operations = example_operations\<rparr>"]
  by (simp add: example_recovered_def)
    (simp add: example_operations_def valid_batch_def batch_constants batch_bytes_def batch_header_def BATCH_MAGIC_def)

lemma example_memtable:
  "\<exists>t. mt_recover_from [example_recovered] 6 = Ok t"
  by (simp add: mt_recover_from_def mt_apply_def example_recovered_decode)
    (simp add: apply_write_batch_def example_recovered_def example_operations_def batch_len_def u64_try_from_def
      checked_add_def at_sequence_def saturating_add_def)

text \<open>Snapshot scans. A scan of a recovered memtable at sequence \<open>r\<close> returns, in strictly
  ascending key order, exactly the pairs of the state at \<open>r\<close> whose keys lie in the half-open
  range.\<close>

lemma memtable_snapshot_scans:
  assumes "mt_recover_from bs prev = Ok t" and "prev \<noteq> u64_max"
    and "\<forall>b \<in> set bs. rb_last_sequence b \<noteq> u64_max"
  shows "set (mt_scan t start end' r) = {(key, val). in_bounds start end' key \<and>
      replay (take (unat r - unat prev) (recovered_operations bs)) key = Some val} \<and>
    sorted_wrt (<) (map fst (mt_scan t start end' r))"
proof -
  have rep: "mt_rep (unat prev) (recovered_operations bs) t"
    using assms by (rule mt_recover_from_rep)
  then have wf: "bt_wf (mt_versions t)"
    by (simp add: mt_rep_def versions_rep_def)
  show ?thesis
    using mt_scan_mem [OF wf] mt_get_rep [OF rep] mt_scan_sorted [OF wf] by auto
qed

text \<open>Rebuilding from version groups (as compaction does) succeeds exactly when every group has a
  non-empty key and a non-empty, strictly ascending run of non-zero sequences up to the maximum, and
  the result holds those groups unchanged.\<close>

lemma from_versions_contract:
  assumes "bt_wf versions"
  shows "((\<exists>t. from_versions versions limit = Ok t) \<longleftrightarrow>
      (\<forall>(key, vs) \<in> set versions. key \<noteq> [] \<and> versions_ok limit vs)) \<and>
    (\<forall>t. from_versions versions limit = Ok t \<longrightarrow> mt_versions t = versions \<and> mt_maximum_sequence t = limit)"
  using from_versions_eq_Ok [OF assms] from_versions_fields assms by (auto simp: mt_wf_def)

end
