(* ===== verification/Segment_Record.thy ===== *)
theory Segment_Record
  imports Memtable
begin

text \<open>
  The records of an immutable segment (\<^verbatim>\<open>crates/vyrm-kv/src/segment.rs\<close>): their byte
  form, the record table of a decoded block, binary search in it, version selection and the two
  visitors. A block or record area that parses is the concatenation of its entries, and every search
  is related to the plain list of those entries.
\<close>

section \<open>Model\<close>

definition SEG_RECORD_HEADER_BYTES :: nat where
  "SEG_RECORD_HEADER_BYTES = 20"

definition SEG_MAX_KEY_BYTES :: nat where
  "SEG_MAX_KEY_BYTES = 1024 * 1024"

definition SEG_MAX_VALUE_BYTES :: nat where
  "SEG_MAX_VALUE_BYTES = 8 * 1024 * 1024"

definition MAX_DECODED_BLOCK_BYTES :: nat where
  "MAX_DECODED_BLOCK_BYTES = SEG_RECORD_HEADER_BYTES + SEG_MAX_KEY_BYTES + SEG_MAX_VALUE_BYTES"

lemmas record_constants =
  SEG_RECORD_HEADER_BYTES_def SEG_MAX_KEY_BYTES_def SEG_MAX_VALUE_BYTES_def MAX_DECODED_BLOCK_BYTES_def

record seg_record =
  rec_key :: bytes
  rec_value :: "bytes option"
  rec_sequence :: u64
  rec_next :: nat

record segment_version =
  sv_sequence :: u64
  sv_value :: "bytes option"

record decoded_block =
  db_bytes :: bytes
  db_record_offsets :: "u32 list"

record sparse_entry =
  se_offset :: nat
  se_key :: bytes

definition encode_record :: "bytes \<Rightarrow> versioned_value \<Rightarrow> bytes kv_result" where
  "encode_record key version =
     (let val = (case vv_value version of None \<Rightarrow> [] | Some v \<Rightarrow> v);
          kind = (if vv_value version \<noteq> None then 1 else 2 :: u8) in
      rbind (ok_or (Option.bind (usize_checked_add SEG_RECORD_HEADER_BYTES (length key))
                      (\<lambda>size. usize_checked_add size (length val)))
               (InvalidSegment ''record length overflow'')) (\<lambda>size.
      if key = [] \<or> length key > SEG_MAX_KEY_BYTES \<or> length val > SEG_MAX_VALUE_BYTES
         \<or> size > MAX_DECODED_BLOCK_BYTES
      then Err (InvalidSegment ''record exceeds the segment key/value contract'')
      else Ok ([kind] @ [0, 0, 0] @ u32_to_be_bytes (word_of_nat (length key))
                 @ u32_to_be_bytes (word_of_nat (length val)) @ u64_to_be_bytes (vv_sequence version)
                 @ key @ val)))"

definition parse_record :: "bytes \<Rightarrow> nat \<Rightarrow> nat \<Rightarrow> u64 \<Rightarrow> u64 \<Rightarrow> seg_record kv_result" where
  "parse_record bs offset content_end minimum_sequence maximum_sequence =
     rbind (ok_or (usize_checked_add offset SEG_RECORD_HEADER_BYTES)
              (InvalidSegment ''record header overflow'')) (\<lambda>header_end.
     rbind (ok_or (Option.bind (get_range bs offset header_end)
                     (\<lambda>h. if header_end \<le> content_end then Some h else None))
              (InvalidSegment ''incomplete segment record header'')) (\<lambda>header.
     let kind = header ! 0 in
     if subslice 1 4 header \<noteq> [0, 0, 0] then Err (InvalidSegment ''unknown segment record flags'')
     else
     let key_len = unat (u32_from_be_bytes (subslice 4 8 header));
         value_len = unat (u32_from_be_bytes (subslice 8 12 header));
         seq = u64_from_be_bytes (subslice 12 20 header) in
     rbind (ok_or (Option.bind (usize_checked_add header_end key_len) (\<lambda>v. usize_checked_add v value_len))
              (InvalidSegment ''record length overflow'')) (\<lambda>end'.
     rbind (ok_or (Option.bind (get_range bs header_end end')
                     (\<lambda>b. if end' \<le> content_end then Some b else None))
              (InvalidSegment ''incomplete segment record body'')) (\<lambda>body.
     if key_len = 0 \<or> key_len > SEG_MAX_KEY_BYTES \<or> value_len > SEG_MAX_VALUE_BYTES
        \<or> seq < minimum_sequence \<or> seq > maximum_sequence
     then Err (InvalidSegment ''invalid segment key, value, or record sequence'')
     else
     let key = take key_len body; stored_value = drop key_len body in
     if kind = 1 then Ok \<lparr>rec_key = key, rec_value = Some stored_value, rec_sequence = seq, rec_next = end'\<rparr>
     else if kind = 2 then
       (if stored_value = [] then Ok \<lparr>rec_key = key, rec_value = None, rec_sequence = seq, rec_next = end'\<rparr>
        else Err (InvalidSegment ''segment tombstone carries a value''))
     else Err (InvalidSegment ''unknown segment record kind'')))))"

lemma parse_record_advances:
  "parse_record bs offset e mn mx = Ok r \<Longrightarrow> offset < rec_next r \<and> rec_next r \<le> length bs"
  by (auto simp: parse_record_def res_simps Let_def usize_checked_add_eq_Some get_range_eq_Some
      bind_eq_Some_conv record_constants split: if_splits)

text \<open>The loop of \<open>DecodedBlock::parse\<close>.\<close>

function parse_offsets :: "bytes \<Rightarrow> nat \<Rightarrow> u32 list \<Rightarrow> u32 list kv_result" where
  "parse_offsets bs cursor offsets =
     (if cursor < length bs then
        rbind (ok_or (u32_try_from cursor) (InvalidSegment ''decoded block offset exceeds u32'')) (\<lambda>off.
        rbind (parse_record bs cursor (length bs) 1 u64_max) (\<lambda>r.
        parse_offsets bs (rec_next r) (offsets @ [off])))
      else Ok offsets)"
  by pat_completeness auto
termination
  by (relation "measure (\<lambda>(bs, cursor, offsets). length bs - cursor)")
    (auto dest!: parse_record_advances)

declare parse_offsets.simps [simp del]

definition decoded_block_parse :: "bytes \<Rightarrow> decoded_block kv_result" where
  "decoded_block_parse bs =
     rbind (parse_offsets bs 0 []) (\<lambda>offsets. Ok \<lparr>db_bytes = bs, db_record_offsets = offsets\<rparr>)"

definition usize_saturating_mul :: "nat \<Rightarrow> nat \<Rightarrow> nat" where
  "usize_saturating_mul a b = min (a * b) (2 ^ 64 - 1)"

definition block_resident_bytes :: "decoded_block \<Rightarrow> nat" where
  "block_resident_bytes b =
     usize_saturating_add (length (db_bytes b)) (usize_saturating_mul (length (db_record_offsets b)) 4)"

definition block_record :: "decoded_block \<Rightarrow> u32 \<Rightarrow> seg_record kv_result" where
  "block_record b off = parse_record (db_bytes b) (unat off) (length (db_bytes b)) 1 u64_max"

function lower_bound_loop :: "decoded_block \<Rightarrow> bytes \<Rightarrow> nat \<Rightarrow> nat \<Rightarrow> nat kv_result" where
  "lower_bound_loop b key left right =
     (if left < right then
        let middle = left + (right - left) div 2 in
        rbind (block_record b (db_record_offsets b ! middle)) (\<lambda>r.
        if rec_key r < key then lower_bound_loop b key (middle + 1) right
        else lower_bound_loop b key left middle)
      else Ok left)"
  by pat_completeness auto
termination
  by (relation "measure (\<lambda>(b, key, left, right). right - left)") auto

declare lower_bound_loop.simps [simp del]

definition lower_bound :: "decoded_block \<Rightarrow> bytes \<Rightarrow> nat kv_result" where
  "lower_bound b key = lower_bound_loop b key 0 (length (db_record_offsets b))"

definition record_version :: "seg_record \<Rightarrow> segment_version" where
  "record_version r = \<lparr>sv_sequence = rec_sequence r, sv_value = rec_value r\<rparr>"

text \<open>The loop of \<open>select_version\<close> over a legacy record area.\<close>

function select_version :: "bytes \<Rightarrow> nat \<Rightarrow> nat \<Rightarrow> bytes \<Rightarrow> u64 \<Rightarrow> segment_version option
    \<Rightarrow> segment_version option kv_result" where
  "select_version bs cursor end' key read_sequence selected =
     (if cursor < end' then
        rbind (parse_record bs cursor end' 1 u64_max) (\<lambda>r.
        if rec_key r < key then select_version bs (rec_next r) end' key read_sequence selected
        else if rec_key r = key then
          select_version bs (rec_next r) end' key read_sequence
            (if rec_sequence r \<le> read_sequence then Some (record_version r) else selected)
        else Ok selected)
      else Ok selected)"
  by pat_completeness auto
termination
proof (relation "measure (\<lambda>(bs, cursor, end', key, read_sequence, selected). length bs - cursor)", goal_cases)
  case (2 bs cursor end' key read_sequence selected r)
  then show ?case using parse_record_advances [of bs cursor end' 1 u64_max r] by auto
next
  case (3 bs cursor end' key read_sequence selected r)
  then show ?case using parse_record_advances [of bs cursor end' 1 u64_max r] by auto
qed simp

declare select_version.simps [simp del]

text \<open>The loop of \<open>select_version_block\<close> over the offsets from the lower bound on.\<close>

fun select_block_loop :: "decoded_block \<Rightarrow> bytes \<Rightarrow> u64 \<Rightarrow> u32 list \<Rightarrow> segment_version option
    \<Rightarrow> segment_version option kv_result" where
  "select_block_loop b key read_sequence [] selected = Ok selected"
| "select_block_loop b key read_sequence (off # offs) selected =
     rbind (block_record b off) (\<lambda>r.
     if rec_key r = key then
       select_block_loop b key read_sequence offs
         (if rec_sequence r \<le> read_sequence then Some (record_version r) else selected)
     else Ok selected)"

definition select_version_block :: "decoded_block \<Rightarrow> bytes \<Rightarrow> u64 \<Rightarrow> segment_version option kv_result" where
  "select_version_block b key read_sequence =
     rbind (lower_bound b key) (\<lambda>n.
     select_block_loop b key read_sequence (drop n (db_record_offsets b)) None)"

text \<open>The visitors; the closure's captured variables are the state of \<open>visit\<close>.\<close>

function visit_records_from :: "bytes \<Rightarrow> nat \<Rightarrow> (seg_record \<Rightarrow> 's \<Rightarrow> 's kv_result) \<Rightarrow> 's \<Rightarrow> 's kv_result" where
  "visit_records_from bs cursor visit s =
     (if cursor < length bs then
        rbind (parse_record bs cursor (length bs) 1 u64_max) (\<lambda>r.
        rbind (visit r s) (\<lambda>s. visit_records_from bs (rec_next r) visit s))
      else Ok s)"
  by pat_completeness auto
termination
proof (relation "measure (\<lambda>(bs, cursor, visit, s). length bs - cursor)", goal_cases)
  case (2 bs cursor visit s r s')
  then show ?case using parse_record_advances [of bs cursor "length bs" 1 u64_max r] by auto
qed simp

declare visit_records_from.simps [simp del]

definition visit_records :: "bytes \<Rightarrow> (seg_record \<Rightarrow> 's \<Rightarrow> 's kv_result) \<Rightarrow> 's \<Rightarrow> 's kv_result" where
  "visit_records bs visit s = visit_records_from bs 0 visit s"

definition visit_decoded_records ::
  "decoded_block \<Rightarrow> nat \<Rightarrow> (seg_record \<Rightarrow> 's \<Rightarrow> 's kv_result) \<Rightarrow> 's \<Rightarrow> 's kv_result" where
  "visit_decoded_records b first visit s =
     try_fold (\<lambda>off s. rbind (block_record b off) (\<lambda>r. visit r s)) (drop first (db_record_offsets b)) s"

definition validate_order :: "(bytes \<times> u64) option \<Rightarrow> seg_record \<Rightarrow> (bytes \<times> u64) option kv_result" where
  "validate_order previous r =
     (if (case previous of None \<Rightarrow> False
          | Some (key, seq) \<Rightarrow> rec_key r < key \<or> (rec_key r = key \<and> rec_sequence r \<le> seq))
      then Err (InvalidSegment ''segment records are not in canonical key/sequence order'')
      else Ok (Some (rec_key r, rec_sequence r)))"

definition legacy_seek :: "bytes \<Rightarrow> sparse_entry list \<Rightarrow> bytes \<Rightarrow> nat" where
  "legacy_seek records sparse key =
     (let position = partition_point (\<lambda>e. se_key e \<le> key) sparse;
          i = position - 1
      in if i < length sparse then min (se_offset (sparse ! i)) (length records) else 0)"

section \<open>Entries\<close>

type_synonym entry = "bytes \<times> versioned_value"

definition valid_entry :: "entry \<Rightarrow> bool" where
  "valid_entry e \<longleftrightarrow> fst e \<noteq> [] \<and> length (fst e) \<le> SEG_MAX_KEY_BYTES \<and>
     (case vv_value (snd e) of None \<Rightarrow> True | Some v \<Rightarrow> length v \<le> SEG_MAX_VALUE_BYTES)"

definition entry_in :: "u64 \<Rightarrow> u64 \<Rightarrow> entry \<Rightarrow> bool" where
  "entry_in mn mx e \<longleftrightarrow> valid_entry e \<and> mn \<le> vv_sequence (snd e) \<and> vv_sequence (snd e) \<le> mx"

definition entry_value :: "entry \<Rightarrow> bytes" where
  "entry_value e = (case vv_value (snd e) of None \<Rightarrow> [] | Some v \<Rightarrow> v)"

definition entry_header :: "u8 \<Rightarrow> u32 \<Rightarrow> u32 \<Rightarrow> u64 \<Rightarrow> bytes" where
  "entry_header kind kl vl seq = [kind, 0, 0, 0] @ u32_to_be_bytes kl @ u32_to_be_bytes vl @ u64_to_be_bytes seq"

definition record_bytes :: "entry \<Rightarrow> bytes" where
  "record_bytes e = entry_header (if vv_value (snd e) = None then 2 else 1)
     (word_of_nat (length (fst e))) (word_of_nat (length (entry_value e))) (vv_sequence (snd e))
     @ fst e @ entry_value e"

definition entry_record :: "entry \<Rightarrow> nat \<Rightarrow> seg_record" where
  "entry_record e next = \<lparr>rec_key = fst e, rec_value = vv_value (snd e), rec_sequence = vv_sequence (snd e),
     rec_next = next\<rparr>"

definition record_entry :: "seg_record \<Rightarrow> entry" where
  "record_entry r = (rec_key r, \<lparr>vv_sequence = rec_sequence r, vv_value = rec_value r\<rparr>)"

definition dec_record :: "u64 \<Rightarrow> u64 \<Rightarrow> bytes \<Rightarrow> nat \<Rightarrow> (entry \<times> nat) kv_result" where
  "dec_record mn mx bs c = rbind (parse_record bs c (length bs) mn mx) (\<lambda>r. Ok (record_entry r, rec_next r))"

lemma entry_header_fields:
  "length (entry_header kind kl vl seq) = 20"
  "entry_header kind kl vl seq ! 0 = kind"
  "subslice 1 4 (entry_header kind kl vl seq) = [0, 0, 0]"
  "subslice 4 8 (entry_header kind kl vl seq) = u32_to_be_bytes kl"
  "subslice 8 12 (entry_header kind kl vl seq) = u32_to_be_bytes vl"
  "subslice 12 20 (entry_header kind kl vl seq) = u64_to_be_bytes seq"
  by (simp_all add: entry_header_def subslice_def)

lemmas entry_header_simps = entry_header_fields entry_header_fields(3) [unfolded One_nat_def]

lemma entry_header_unique:
  assumes "length h = 20" and "subslice 1 4 h = [0, 0, 0]"
  shows "h = entry_header (h ! 0) (u32_from_be_bytes (subslice 4 8 h)) (u32_from_be_bytes (subslice 8 12 h))
    (u64_from_be_bytes (subslice 12 20 h))"
proof -
  have "h = subslice 0 1 h @ subslice 1 4 h @ subslice 4 8 h @ subslice 8 12 h @ subslice 12 20 h"
    using assms(1) by (simp add: subslice_concat) (simp add: subslice_def)
  moreover have "subslice 0 1 h = [h ! 0]"
    using assms(1) by (cases h) (simp_all add: subslice_def)
  ultimately show ?thesis
    using assms by (simp add: entry_header_def to_from_be_bytes)
qed

lemma length_record_bytes: "length (record_bytes e) = 20 + length (fst e) + length (entry_value e)"
  by (simp add: record_bytes_def entry_header_fields)

lemma encode_record_eq: "valid_entry e \<Longrightarrow> encode_record (fst e) (snd e) = Ok (record_bytes e)"
  by (auto simp: encode_record_def valid_entry_def record_bytes_def entry_header_def entry_value_def
      usize_checked_add_def record_constants Let_def split: option.splits)

lemma encode_record_ok: "encode_record k v = Ok bs \<longleftrightarrow> valid_entry (k, v) \<and> bs = record_bytes (k, v)"
proof
  assume ok: "encode_record k v = Ok bs"
  then have "valid_entry (k, v)"
    by (auto simp: encode_record_def valid_entry_def res_simps Let_def record_constants
        split: if_splits option.splits)
  with ok encode_record_eq [of "(k, v)"] show "valid_entry (k, v) \<and> bs = record_bytes (k, v)"
    by simp
qed (use encode_record_eq [of "(k, v)"] in simp)

lemma parse_record_body:
  assumes "unat kl = length key" "unat vl = length val" and "length pre + 20 + length key + length val + length post < 2 ^ 64"
  shows "parse_record (pre @ entry_header kind kl vl seq @ key @ val @ post) (length pre)
      (length (pre @ entry_header kind kl vl seq @ key @ val @ post)) mn mx =
    (if length key = 0 \<or> length key > SEG_MAX_KEY_BYTES \<or> length val > SEG_MAX_VALUE_BYTES \<or> seq < mn \<or> seq > mx
     then Err (InvalidSegment ''invalid segment key, value, or record sequence'')
     else if kind = 1 then Ok \<lparr>rec_key = key, rec_value = Some val, rec_sequence = seq,
       rec_next = length pre + 20 + length key + length val\<rparr>
     else if kind = 2 then
       (if val = [] then Ok \<lparr>rec_key = key, rec_value = None, rec_sequence = seq,
          rec_next = length pre + 20 + length key + length val\<rparr>
        else Err (InvalidSegment ''segment tombstone carries a value''))
     else Err (InvalidSegment ''unknown segment record kind''))"
proof -
  let ?h = "entry_header kind kl vl seq" and ?file = "pre @ entry_header kind kl vl seq @ key @ val @ post"
  have h: "get_range ?file (length pre) (length pre + 20) = Some ?h"
    by (simp add: get_range_def subslice_def entry_header_fields(1))
  have b: "get_range ?file (length pre + 20) (length pre + 20 + length key + length val) = Some (key @ val)"
    by (simp add: get_range_def subslice_def entry_header_fields(1))
  show ?thesis
    using assms
    by (simp add: parse_record_def h b entry_header_simps usize_checked_add_def SEG_RECORD_HEADER_BYTES_def Let_def)
qed

lemma parse_record_sound:
  assumes "parse_record bs c (length bs) mn mx = Ok r"
  shows "entry_in mn mx (record_entry r)" and "subslice c (rec_next r) bs = record_bytes (record_entry r)"
proof -
  let ?h = "subslice c (c + 20) bs"
  let ?kl = "u32_from_be_bytes (subslice 4 8 ?h)" and ?vl = "u32_from_be_bytes (subslice 8 12 ?h)"
  let ?next = "c + 20 + unat ?kl + unat ?vl"
  let ?body = "subslice (c + 20) ?next bs"
  have h: "length ?h = 20" "subslice 1 4 ?h = [0, 0, 0]" and body: "length ?body = unat ?kl + unat ?vl"
    and c: "?next \<le> length bs"
    and seq: "rec_sequence r = u64_from_be_bytes (subslice 12 20 ?h)" "mn \<le> rec_sequence r" "rec_sequence r \<le> mx"
    and key: "rec_key r = take (unat ?kl) ?body" "unat ?kl \<noteq> 0" "unat ?kl \<le> SEG_MAX_KEY_BYTES"
    and vl: "unat ?vl \<le> SEG_MAX_VALUE_BYTES" and nxt: "rec_next r = ?next"
    and kind: "(?h ! 0 = 1 \<and> rec_value r = Some (drop (unat ?kl) ?body)) \<or>
      (?h ! 0 = 2 \<and> rec_value r = None \<and> drop (unat ?kl) ?body = [])"
    using assms
    by (auto simp: parse_record_def res_simps Let_def usize_checked_add_eq_Some get_range_eq_Some
        bind_eq_Some_conv SEG_RECORD_HEADER_BYTES_def not_less split: if_splits)
  have lk: "length (rec_key r) = unat ?kl"
    using key(1) body by simp
  have lv: "entry_value (record_entry r) = drop (unat ?kl) ?body"
    using kind by (auto simp: entry_value_def record_entry_def)
  then have len: "length (entry_value (record_entry r)) = unat ?vl"
    using body by simp
  show "entry_in mn mx (record_entry r)"
    using seq(2,3) key(2,3) vl lk len
    by (auto simp: entry_in_def valid_entry_def record_entry_def entry_value_def simp del: length_0_conv
        simp flip: length_0_conv split: option.splits)
  have kl: "word_of_nat (length (fst (record_entry r))) = ?kl"
    by (simp add: record_entry_def lk)
  have vl': "word_of_nat (length (entry_value (record_entry r))) = ?vl"
    by (simp add: len)
  have "(if vv_value (snd (record_entry r)) = None then 2 else 1) = ?h ! 0"
    using kind by (auto simp: record_entry_def)
  then have h': "?h = entry_header (if vv_value (snd (record_entry r)) = None then 2 else 1)
      (word_of_nat (length (fst (record_entry r)))) (word_of_nat (length (entry_value (record_entry r))))
      (vv_sequence (snd (record_entry r)))"
    using entry_header_unique [OF h] unfolding kl vl' by (simp add: record_entry_def seq(1))
  have body': "?body = fst (record_entry r) @ entry_value (record_entry r)"
    unfolding lv using key(1) by (simp add: record_entry_def)
  have "subslice c ?next bs = ?h @ ?body"
    by (rule subslice_concat [symmetric]) simp_all
  then have "subslice c ?next bs = record_bytes (record_entry r)"
    unfolding record_bytes_def h' [symmetric] body' [symmetric] .
  then show "subslice c (rec_next r) bs = record_bytes (record_entry r)"
    by (simp only: nxt)
qed

lemma parse_record_entry:
  assumes "entry_in mn mx e" and "length pre + length (record_bytes e) + length post < 2 ^ 64"
  shows "parse_record (pre @ record_bytes e @ post) (length pre) (length (pre @ record_bytes e @ post)) mn mx
    = Ok (entry_record e (length pre + length (record_bytes e)))"
proof -
  have "length (fst e) < 2 ^ 32" "length (entry_value e) < 2 ^ 32"
    using assms(1) by (auto simp: entry_in_def valid_entry_def entry_value_def record_constants split: option.splits)
  then have "unat (word_of_nat (length (fst e)) :: u32) = length (fst e)"
    "unat (word_of_nat (length (entry_value e)) :: u32) = length (entry_value e)"
    by simp_all
  note body = parse_record_body [OF this, of pre post _ "vv_sequence (snd e)" mn mx]
  have split: "pre @ record_bytes e @ post = pre @ entry_header (if vv_value (snd e) = None then 2 else 1)
     (word_of_nat (length (fst e))) (word_of_nat (length (entry_value e))) (vv_sequence (snd e))
     @ fst e @ entry_value e @ post"
    by (simp add: record_bytes_def)
  show ?thesis
    unfolding split using assms
    by (subst body)
      (auto simp: length_record_bytes entry_record_def entry_in_def valid_entry_def entry_value_def not_less
        split: option.splits)
qed

lemma record_entry_record [simp]: "record_entry (entry_record e n) = e"
  by (cases e) (simp add: record_entry_def entry_record_def)

lemma entry_record_sel [simp]:
  "rec_key (entry_record e n) = fst e"
  "rec_value (entry_record e n) = vv_value (snd e)"
  "rec_sequence (entry_record e n) = vv_sequence (snd e)"
  "rec_next (entry_record e n) = n"
  by (simp_all add: entry_record_def)

lemma entry_record_entry: "entry_record (record_entry r) (rec_next r) = r"
  by (simp add: record_entry_def entry_record_def)

interpretation rec: cursor_codec record_bytes "dec_record mn mx" "entry_in mn mx" for mn mx
proof unfold_locales
  fix e and pre post :: bytes
  assume "entry_in mn mx e" "length pre + length (record_bytes e) + length post < 2 ^ 64"
  then show "dec_record mn mx (pre @ record_bytes e @ post) (length pre) = Ok (e, length pre + length (record_bytes e))"
    using parse_record_entry [of mn mx e pre post] by (simp add: dec_record_def)
next
  fix bs c e c'
  assume "dec_record mn mx bs c = Ok (e, c')"
  then obtain r where "parse_record bs c (length bs) mn mx = Ok r" "e = record_entry r" "c' = rec_next r"
    by (auto simp: dec_record_def res_simps)
  then show "entry_in mn mx e \<and> c < c' \<and> c' \<le> length bs \<and> subslice c c' bs = record_bytes e"
    using parse_record_sound [of bs c mn mx r] parse_record_advances [of bs c _ mn mx r] by simp
qed

text \<open>Reading the \<open>i\<close>-th record of a record area.\<close>

lemma parse_record_nth:
  assumes "\<forall>e \<in> set es. entry_in mn mx e" and "i < length es" and "length (enc_all record_bytes es) < 2 ^ 64"
  shows "parse_record (enc_all record_bytes es) (enc_offset record_bytes es i)
      (length (enc_all record_bytes es)) mn mx
    = Ok (entry_record (es ! i) (enc_offset record_bytes es (Suc i)))"
proof -
  have "dec_record mn mx (enc_all record_bytes es) (enc_offset record_bytes es i)
      = Ok (es ! i, enc_offset record_bytes es (Suc i))"
    using rec.dec_nth [of es mn mx i "[]" "[]"] assms by simp
  then obtain r where "parse_record (enc_all record_bytes es) (enc_offset record_bytes es i)
      (length (enc_all record_bytes es)) mn mx = Ok r"
    "es ! i = record_entry r" "enc_offset record_bytes es (Suc i) = rec_next r"
    by (auto simp: dec_record_def res_simps)
  then show ?thesis using entry_record_entry [of r] by simp
qed

lemma entry_in_widen: "entry_in mn mx e \<Longrightarrow> mn \<noteq> 0 \<Longrightarrow> entry_in 1 u64_max e"
  by (auto simp: entry_in_def u64_one_le)

section \<open>Blocks of entries\<close>

text \<open>The canonical decoded block of a run of entries.\<close>

definition block_of :: "entry list \<Rightarrow> decoded_block" where
  "block_of es = \<lparr>db_bytes = enc_all record_bytes es,
     db_record_offsets = map (\<lambda>i. word_of_nat (enc_offset record_bytes es i)) [0..<length es]\<rparr>"

definition block_entries_ok :: "entry list \<Rightarrow> bool" where
  "block_entries_ok es \<longleftrightarrow> (\<forall>e \<in> set es. entry_in 1 u64_max e) \<and> length (enc_all record_bytes es) < 2 ^ 32"

lemma enc_offset_le: "enc_offset enc xs i \<le> length (enc_all enc xs)"
  by (metis append_take_drop_id enc_all_simps(3) enc_offset_def le_add1 length_append)

lemma record_bytes_nonempty [simp]: "record_bytes e \<noteq> []"
  by (metis length_record_bytes add_eq_0_iff_both_eq_0 list.size(3) zero_neq_numeral)

lemma enc_offset_less: "i < length es \<Longrightarrow> enc_offset record_bytes es i < length (enc_all record_bytes es)"
  using enc_offset_Suc [of i es record_bytes] enc_offset_le [of record_bytes es "Suc i"]
  by (simp add: length_record_bytes)

lemma block_record_of:
  assumes "block_entries_ok es" and "i < length es"
  shows "block_record (block_of es) (db_record_offsets (block_of es) ! i)
    = Ok (entry_record (es ! i) (enc_offset record_bytes es (Suc i)))"
proof -
  have lt: "length (enc_all record_bytes es) < 2 ^ 32"
    using assms(1) by (simp add: block_entries_ok_def)
  then have "unat (word_of_nat (enc_offset record_bytes es i) :: u32) = enc_offset record_bytes es i"
    using enc_offset_le [of record_bytes es i] by (intro unat_u32_of_nat) linarith
  with assms lt show ?thesis
    using parse_record_nth [of es 1 u64_max i]
    by (simp add: block_record_def block_of_def block_entries_ok_def)
qed

lemma parse_offsets_of:
  assumes "block_entries_ok es" and "i \<le> length es"
  shows "parse_offsets (enc_all record_bytes es) (enc_offset record_bytes es i)
      (take i (db_record_offsets (block_of es))) = Ok (db_record_offsets (block_of es))"
  using assms(2)
proof (induction "length es - i" arbitrary: i)
  case 0
  then show ?case
    using enc_offset_length [of record_bytes es]
    by (subst parse_offsets.simps) (simp add: block_of_def)
next
  case (Suc n)
  then have i: "i < length es" by simp
  let ?off = "enc_offset record_bytes es i"
  have lt: "length (enc_all record_bytes es) < 2 ^ 32" and ok: "\<forall>e \<in> set es. entry_in 1 u64_max e"
    using assms(1) by (simp_all add: block_entries_ok_def)
  have "parse_record (enc_all record_bytes es) ?off (length (enc_all record_bytes es)) 1 u64_max
      = Ok (entry_record (es ! i) (enc_offset record_bytes es (Suc i)))"
    using parse_record_nth [OF ok i] lt by simp
  moreover have "?off < length (enc_all record_bytes es)" "u32_try_from ?off = Some (word_of_nat ?off)"
    using enc_offset_less [OF i] lt by (simp_all add: u32_try_from_def)
  moreover have "take (Suc i) (db_record_offsets (block_of es)) = take i (db_record_offsets (block_of es)) @ [word_of_nat ?off]"
    using i by (simp add: block_of_def take_Suc_conv_app_nth)
  ultimately show ?case
    using Suc.hyps(1) [of "Suc i"] Suc.hyps(2) i
    by (subst parse_offsets.simps) (simp add: entry_record_def)
qed

lemma decoded_block_parse_of:
  "block_entries_ok es \<Longrightarrow> decoded_block_parse (enc_all record_bytes es) = Ok (block_of es)"
  using parse_offsets_of [of es 0] by (simp add: decoded_block_parse_def) (simp add: block_of_def)

lemma length_block_offsets [simp]: "length (db_record_offsets (block_of es)) = length es"
  by (simp add: block_of_def)

text \<open>Binary search finds the first entry at or above the key.\<close>

lemma lower_bound_loop_of:
  assumes "block_entries_ok es" and "sorted (map fst es)" and "left \<le> right" and "right \<le> length es"
    and "\<forall>i < left. fst (es ! i) < key" and "\<forall>i. right \<le> i \<longrightarrow> i < length es \<longrightarrow> key \<le> fst (es ! i)"
  shows "lower_bound_loop (block_of es) key left right = Ok (partition_point (\<lambda>e. fst e < key) es)"
  using assms(3-)
proof (induction "right - left" arbitrary: left right rule: less_induct)
  case less
  show ?case
  proof (cases "left < right")
    case False
    then have "left = right" using less.prems by simp
    have "takeWhile (\<lambda>e. fst e < key) es = take left es"
      using less.prems \<open>left = right\<close> by (intro takeWhile_eq_take_P_nth) auto
    then show ?thesis
      using False less.prems by (subst lower_bound_loop.simps) (simp add: partition_point_def)
  next
    case True
    define middle where "middle = left + (right - left) div 2"
    have m: "left \<le> middle" "middle < right" using True by (auto simp: middle_def)
    then have rec: "block_record (block_of es) (db_record_offsets (block_of es) ! middle)
        = Ok (entry_record (es ! middle) (enc_offset record_bytes es (Suc middle)))"
      using block_record_of [OF assms(1), of middle] less.prems by simp
    have sorted: "i \<le> j \<Longrightarrow> j < length es \<Longrightarrow> fst (es ! i) \<le> fst (es ! j)" for i j
      using sorted_nth_mono [OF assms(2), of i j] by simp
    show ?thesis
    proof (cases "fst (es ! middle) < key")
      case below: True
      have "\<forall>i < middle + 1. fst (es ! i) < key"
      proof (intro allI impI)
        fix i assume "i < middle + 1"
        then have "fst (es ! i) \<le> fst (es ! middle)"
          using m(2) less.prems(2) by (intro sorted) auto
        with below show "fst (es ! i) < key" by simp
      qed
      then have "lower_bound_loop (block_of es) key (middle + 1) right = Ok (partition_point (\<lambda>e. fst e < key) es)"
        using m less.prems by (intro less.hyps) simp_all
      then show ?thesis
        using True below rec
        by (subst lower_bound_loop.simps) (simp add: Let_def middle_def [symmetric] entry_record_def)
    next
      case above: False
      have "\<forall>i. middle \<le> i \<longrightarrow> i < length es \<longrightarrow> key \<le> fst (es ! i)"
      proof (intro allI impI)
        fix i assume "middle \<le> i" "i < length es"
        then have "fst (es ! middle) \<le> fst (es ! i)" by (rule sorted)
        with above show "key \<le> fst (es ! i)" by simp
      qed
      then have "lower_bound_loop (block_of es) key left middle = Ok (partition_point (\<lambda>e. fst e < key) es)"
        using m less.prems by (intro less.hyps) simp_all
      then show ?thesis
        using True above rec
        by (subst lower_bound_loop.simps) (simp add: Let_def middle_def [symmetric] entry_record_def)
    qed
  qed
qed

lemma lower_bound_of:
  assumes "block_entries_ok es" and "sorted (map fst es)"
  shows "lower_bound (block_of es) key = Ok (partition_point (\<lambda>e. fst e < key) es)"
  using lower_bound_loop_of [OF assms, of 0 "length es"] by (simp add: lower_bound_def)

text \<open>Version selection in a sorted run of entries.\<close>

definition entries_sorted :: "entry list \<Rightarrow> bool" where
  "entries_sorted es \<longleftrightarrow>
     sorted_wrt (\<lambda>a b. fst a < fst b \<or> (fst a = fst b \<and> vv_sequence (snd a) < vv_sequence (snd b))) es"

definition entry_versions :: "entry list \<Rightarrow> bytes \<Rightarrow> versioned_value list" where
  "entry_versions es key = map snd (filter (\<lambda>e. fst e = key) es)"

definition as_version :: "versioned_value \<Rightarrow> segment_version" where
  "as_version v = \<lparr>sv_sequence = vv_sequence v, sv_value = vv_value v\<rparr>"

definition select_entries :: "entry list \<Rightarrow> bytes \<Rightarrow> u64 \<Rightarrow> segment_version option" where
  "select_entries es key r = map_option as_version (newest_at r (entry_versions es key))"

lemma entries_sorted_keys: "entries_sorted es \<Longrightarrow> sorted (map fst es)"
  unfolding entries_sorted_def sorted_map by (erule sorted_wrt_mono_rel [rotated]) auto

lemma entries_sorted_append:
  "entries_sorted (xs @ ys) \<longleftrightarrow> entries_sorted xs \<and> entries_sorted ys \<and>
     (\<forall>a \<in> set xs. \<forall>b \<in> set ys. fst a < fst b \<or> (fst a = fst b \<and> vv_sequence (snd a) < vv_sequence (snd b)))"
  by (auto simp: entries_sorted_def sorted_wrt_append)

lemma entries_sorted_Cons:
  "entries_sorted (x # ys) \<longleftrightarrow> entries_sorted ys \<and>
     (\<forall>b \<in> set ys. fst x < fst b \<or> (fst x = fst b \<and> vv_sequence (snd x) < vv_sequence (snd b)))"
  by (auto simp: entries_sorted_def)

lemma entries_sorted_drop: "entries_sorted es \<Longrightarrow> entries_sorted (drop n es)"
  using entries_sorted_append [of "take n es" "drop n es"] by simp

lemma entry_versions_append: "entry_versions (xs @ ys) key = entry_versions xs key @ entry_versions ys key"
  by (simp add: entry_versions_def)

lemma entry_versions_other: "\<forall>e \<in> set es. fst e \<noteq> key \<Longrightarrow> entry_versions es key = []"
  by (auto simp: entry_versions_def filter_empty_conv)

lemma newest_at_append:
  "newest_at r (xs @ ys) = (case newest_at r ys of None \<Rightarrow> newest_at r xs | Some v \<Rightarrow> Some v)"
  by (induction ys rule: rev_induct) (simp_all add: newest_at_snoc flip: append_assoc)

lemma newest_at_Cons:
  "newest_at r (v # vs) =
     (case newest_at r vs of None \<Rightarrow> (if vv_sequence v \<le> r then Some v else None) | Some w \<Rightarrow> Some w)"
proof -
  have "newest_at r [v] = (if vv_sequence v \<le> r then Some v else None)"
    by (simp add: newest_at_def)
  with newest_at_append [of r "[v]" vs] show ?thesis by (simp split: option.splits)
qed

text \<open>Scanning forward from the first entry of the key and keeping the last match is choosing the newest
  version.\<close>

fun select_list :: "bytes \<Rightarrow> u64 \<Rightarrow> entry list \<Rightarrow> segment_version option \<Rightarrow> segment_version option" where
  "select_list key r [] sel = sel"
| "select_list key r (e # es) sel =
     (if fst e < key then select_list key r es sel
      else if fst e = key then
        select_list key r es (if vv_sequence (snd e) \<le> r then Some (as_version (snd e)) else sel)
      else sel)"

lemma select_list_eq:
  assumes "sorted (map fst es)"
  shows "select_list key r es sel =
    (case newest_at r (entry_versions es key) of None \<Rightarrow> sel | Some v \<Rightarrow> Some (as_version v))"
  using assms
proof (induction es arbitrary: sel)
  case (Cons e es)
  then have le: "\<forall>e' \<in> set es. fst e \<le> fst e'" and s: "sorted (map fst es)" by auto
  show ?case
  proof (cases "fst e \<le> key")
    case True
    have "entry_versions (e # es) key = (if fst e = key then snd e # entry_versions es key else entry_versions es key)"
      by (simp add: entry_versions_def)
    with True Cons.IH [OF s] show ?thesis
      by (auto simp: newest_at_Cons split: option.splits)
  next
    case False
    then have "entry_versions (e # es) key = []"
      using le by (intro entry_versions_other) force
    with False show ?thesis by (auto simp: not_le)
  qed
qed (simp add: entry_versions_def)

lemma select_list_sorted: "sorted (map fst es) \<Longrightarrow> select_list key r es None = select_entries es key r"
  by (simp add: select_list_eq select_entries_def split: option.split)

lemma select_list_skip:
  "\<forall>e \<in> set xs. fst e < key \<Longrightarrow> select_list key r (xs @ ys) sel = select_list key r ys sel"
  by (induction xs arbitrary: sel) auto

lemma select_block_loop_of:
  assumes "block_entries_ok es" and "\<forall>e \<in> set (drop i es). key \<le> fst e" and "i \<le> length es"
  shows "select_block_loop (block_of es) key r (drop i (db_record_offsets (block_of es))) sel
    = Ok (select_list key r (drop i es) sel)"
  using assms(2,3)
proof (induction "length es - i" arbitrary: i sel)
  case (Suc n)
  then have i: "i < length es" by simp
  have e: "drop i es = es ! i # drop (Suc i) es"
    and o: "drop i (db_record_offsets (block_of es))
      = db_record_offsets (block_of es) ! i # drop (Suc i) (db_record_offsets (block_of es))"
    using i by (simp_all add: Cons_nth_drop_Suc)
  have "key \<le> fst (es ! i)" and rest: "\<forall>e \<in> set (drop (Suc i) es). key \<le> fst e"
    using Suc.prems(1) unfolding e by simp_all
  moreover have "select_block_loop (block_of es) key r (drop (Suc i) (db_record_offsets (block_of es))) sel'
      = Ok (select_list key r (drop (Suc i) es) sel')" for sel'
    using Suc.hyps(1) [of "Suc i"] Suc.hyps(2) rest i by simp
  ultimately show ?case
    unfolding e o using block_record_of [OF assms(1) i]
    by (simp add: record_version_def as_version_def entry_record_def)
qed simp

lemma partition_point_split:
  assumes "sorted (map fst es)"
  shows "\<forall>e \<in> set (take (partition_point (\<lambda>e. fst e < key) es) es). fst e < key"
    and "\<forall>e \<in> set (drop (partition_point (\<lambda>e. fst e < key) es) es). key \<le> fst e"
proof -
  let ?P = "\<lambda>e. fst e < key"
  have t: "take (partition_point ?P es) es = takeWhile ?P es"
    and d: "drop (partition_point ?P es) es = dropWhile ?P es"
    by (simp_all add: partition_point_def takeWhile_eq_take [symmetric] dropWhile_eq_drop [symmetric])
  show "\<forall>e \<in> set (take (partition_point ?P es) es). fst e < key"
    unfolding t by (auto dest: set_takeWhileD)
  show "\<forall>e \<in> set (drop (partition_point ?P es) es). key \<le> fst e"
    unfolding d using assms
  proof (induction es)
    case (Cons e es)
    then show ?case by (auto simp: not_less intro: order_trans)
  qed simp
qed

lemma select_version_block_of:
  assumes "block_entries_ok es" and "entries_sorted es"
  shows "select_version_block (block_of es) key r = Ok (select_entries es key r)"
proof -
  let ?n = "partition_point (\<lambda>e. fst e < key) es"
  have s: "sorted (map fst es)" using assms(2) by (rule entries_sorted_keys)
  have "select_list key r (drop ?n es) None = select_list key r (take ?n es @ drop ?n es) None"
    by (rule select_list_skip [OF partition_point_split(1) [OF s], symmetric])
  also have "\<dots> = select_entries es key r"
    using select_list_sorted [OF s] by simp
  finally show ?thesis
    using select_block_loop_of [OF assms(1) partition_point_split(2) [OF s] partition_point_le]
      lower_bound_of [OF assms(1) s]
    by (simp add: select_version_block_def)
qed

lemma visit_decoded_records_of:
  assumes "block_entries_ok es" and "\<And>r s. visit r s = v (record_entry r) s"
  shows "visit_decoded_records (block_of es) first visit s = try_fold v (drop first es) s"
proof (cases "first \<le> length es")
  case True
  then show ?thesis
  proof (induction "length es - first" arbitrary: first s)
    case (Suc n)
    then have i: "first < length es" by simp
    have e: "drop first es = es ! first # drop (Suc first) es"
      and o: "drop first (db_record_offsets (block_of es))
        = db_record_offsets (block_of es) ! first # drop (Suc first) (db_record_offsets (block_of es))"
      using i by (simp_all add: Cons_nth_drop_Suc)
    have "visit_decoded_records (block_of es) (Suc first) visit = try_fold v (drop (Suc first) es)"
      using Suc.hyps(1) [of "Suc first"] Suc.hyps(2) i by (intro ext) simp
    then have "try_fold (\<lambda>off s. rbind (block_record (block_of es) off) (\<lambda>r. visit r s))
        (drop (Suc first) (db_record_offsets (block_of es))) = try_fold v (drop (Suc first) es)"
      by (intro ext) (simp add: visit_decoded_records_def fun_eq_iff)
    then show ?case
      using block_record_of [OF assms(1) i]
      by (simp add: visit_decoded_records_def e o assms(2))
  qed (simp add: visit_decoded_records_def)
qed (simp add: visit_decoded_records_def)

text \<open>The same for a legacy record area.\<close>

lemma select_version_of:
  assumes "\<forall>e \<in> set es. entry_in 1 u64_max e" and "length (enc_all record_bytes es) < 2 ^ 64" and "i \<le> length es"
  shows "select_version (enc_all record_bytes es) (enc_offset record_bytes es i) (length (enc_all record_bytes es)) key r sel
    = Ok (select_list key r (drop i es) sel)"
  using assms(3)
proof (induction "length es - i" arbitrary: i sel)
  case 0
  then have "i = length es" by simp
  then show ?case by (subst select_version.simps) simp
next
  case (Suc n)
  then have i: "i < length es" by simp
  have e: "drop i es = es ! i # drop (Suc i) es"
    using i by (simp add: Cons_nth_drop_Suc)
  have IH: "select_version (enc_all record_bytes es) (enc_offset record_bytes es (Suc i))
      (length (enc_all record_bytes es)) key r sel' = Ok (select_list key r (drop (Suc i) es) sel')" for sel'
    using Suc.hyps(1) [of "Suc i"] Suc.hyps(2) i by simp
  show ?case
    using parse_record_nth [OF assms(1) i assms(2)] enc_offset_less [OF i]
    by (subst select_version.simps) (simp add: e IH entry_record_def record_version_def as_version_def)
qed

lemma visit_records_of:
  assumes "\<forall>e \<in> set es. entry_in 1 u64_max e" and "length (enc_all record_bytes es) < 2 ^ 64"
    and "\<And>r s. visit r s = v (record_entry r) s"
  shows "visit_records (enc_all record_bytes es) visit s = try_fold v es s"
proof -
  have "visit_records_from (enc_all record_bytes es) (enc_offset record_bytes es i) visit s = try_fold v (drop i es) s"
    if "i \<le> length es" for i s
    using that
  proof (induction "length es - i" arbitrary: i s)
    case 0
    then have "i = length es" by simp
    then show ?case by (subst visit_records_from.simps) simp
  next
    case (Suc n)
    then have i: "i < length es" by simp
    have IH: "visit_records_from (enc_all record_bytes es) (enc_offset record_bytes es (Suc i)) visit
        = try_fold v (drop (Suc i) es)"
      using Suc.hyps(1) [of "Suc i"] Suc.hyps(2) i by (intro ext) simp
    have "drop i es = es ! i # drop (Suc i) es"
      using i by (simp add: Cons_nth_drop_Suc)
    then show ?case
      using parse_record_nth [OF assms(1) i assms(2)] enc_offset_less [OF i]
      by (subst visit_records_from.simps) (simp add: assms(3), simp add: entry_record_def IH)
  qed
  from this [of 0 s] show ?thesis by (simp add: visit_records_def)
qed

end
