(* ===== verification/Digest.thy ===== *)
theory Digest
  imports Vyrm_Prelude
begin

text \<open>
  The kernel's own SHA-256 (\<^verbatim>\<open>crates/vyrm-core/src/digest.rs\<close>): the incremental hasher with its
  64-byte buffer, the compression function, the one-shot and hexadecimal forms. The specification
  \<open>sha256_spec\<close> pads the whole message and folds the compression over its 64-byte
  blocks; the lemmas show that any split of a message into updates computes it.
\<close>

unbundle bit_operations_syntax

section \<open>The compression function\<close>

definition INITIAL :: "u32 list" where
  "INITIAL = [0x6a09e667, 0xbb67ae85, 0x3c6ef372, 0xa54ff53a,
    0x510e527f, 0x9b05688c, 0x1f83d9ab, 0x5be0cd19]"

definition K :: "u32 list" where
  "K = concat [
    [0x428a2f98, 0x71374491, 0xb5c0fbcf, 0xe9b5dba5, 0x3956c25b, 0x59f111f1, 0x923f82a4, 0xab1c5ed5],
    [0xd807aa98, 0x12835b01, 0x243185be, 0x550c7dc3, 0x72be5d74, 0x80deb1fe, 0x9bdc06a7, 0xc19bf174],
    [0xe49b69c1, 0xefbe4786, 0x0fc19dc6, 0x240ca1cc, 0x2de92c6f, 0x4a7484aa, 0x5cb0a9dc, 0x76f988da],
    [0x983e5152, 0xa831c66d, 0xb00327c8, 0xbf597fc7, 0xc6e00bf3, 0xd5a79147, 0x06ca6351, 0x14292967],
    [0x27b70a85, 0x2e1b2138, 0x4d2c6dfc, 0x53380d13, 0x650a7354, 0x766a0abb, 0x81c2c92e, 0x92722c85],
    [0xa2bfe8a1, 0xa81a664b, 0xc24b8b70, 0xc76c51a3, 0xd192e819, 0xd6990624, 0xf40e3585, 0x106aa070],
    [0x19a4c116, 0x1e376c08, 0x2748774c, 0x34b0bcb5, 0x391c0cb3, 0x4ed8aa4a, 0x5b9cca4f, 0x682e6ff3],
    [0x748f82ee, 0x78a5636f, 0x84c87814, 0x8cc70208, 0x90befffa, 0xa4506ceb, 0xbef9a3f7, 0xc67178f2]]"

definition schedule_step :: "u32 list \<Rightarrow> u32 list" where
  "schedule_step words =
     (let index = length words;
          w15 = words ! (index - 15);
          w2 = words ! (index - 2);
          s0 = word_rotr 7 w15 XOR word_rotr 18 w15 XOR drop_bit 3 w15;
          s1 = word_rotr 17 w2 XOR word_rotr 19 w2 XOR drop_bit 10 w2
      in words @ [words ! (index - 16) + s0 + words ! (index - 7) + s1])"

definition schedule :: "bytes \<Rightarrow> u32 list" where
  "schedule block =
     (schedule_step ^^ 48) (map (\<lambda>i. u32_from_be_bytes (subslice (4 * i) (4 * i + 4) block)) [0..<16])"

type_synonym working = "u32 \<times> u32 \<times> u32 \<times> u32 \<times> u32 \<times> u32 \<times> u32 \<times> u32"

definition round_step :: "u32 list \<Rightarrow> nat \<Rightarrow> working \<Rightarrow> working" where
  "round_step words index = (\<lambda>(a, b, c, d, e, f, g, h).
     let sum1 = word_rotr 6 e XOR word_rotr 11 e XOR word_rotr 25 e;
         chosen = (e AND f) XOR ((NOT e) AND g);
         t1 = h + sum1 + chosen + K ! index + words ! index;
         sum0 = word_rotr 2 a XOR word_rotr 13 a XOR word_rotr 22 a;
         majority = (a AND b) XOR (a AND c) XOR (b AND c);
         t2 = sum0 + majority
     in (t1 + t2, a, b, c, d + t1, e, f, g))"

definition compress :: "u32 list \<Rightarrow> bytes \<Rightarrow> u32 list" where
  "compress state block =
     (let words = schedule block;
          (a, b, c, d, e, f, g, h) =
            fold (round_step words) [0..<64]
              (state ! 0, state ! 1, state ! 2, state ! 3, state ! 4, state ! 5, state ! 6, state ! 7)
      in map2 (+) state [a, b, c, d, e, f, g, h])"

section \<open>The incremental hasher\<close>

record sha256_state =
  sha_state :: "u32 list"
  sha_buffer :: bytes
  sha_buffered :: nat
  sha_length :: u64

definition sha256_new :: sha256_state where
  "sha256_new = \<lparr>sha_state = INITIAL, sha_buffer = replicate 64 0, sha_buffered = 0, sha_length = 0\<rparr>"

text \<open>\<open>buffer[i..i + src.len()].copy_from_slice(src)\<close>.\<close>

definition copy_at :: "bytes \<Rightarrow> nat \<Rightarrow> bytes \<Rightarrow> bytes" where
  "copy_at buffer i src = take i buffer @ src @ drop (i + length src) buffer"

text \<open>The loop \<open>while input.len() >= 64\<close>.\<close>

function absorb :: "u32 list \<Rightarrow> bytes \<Rightarrow> u32 list \<times> bytes" where
  "absorb state input =
     (if 64 \<le> length input then absorb (compress state (take 64 input)) (drop 64 input)
      else (state, input))"
  by pat_completeness auto
termination
  by (relation "measure (\<lambda>(_, input). length input)") auto

declare absorb.simps [simp del]

definition sha256_absorb_rest :: "sha256_state \<Rightarrow> bytes \<Rightarrow> sha256_state" where
  "sha256_absorb_rest s input =
     (let (state, rest) = absorb (sha_state s) input
      in s\<lparr>sha_state := state, sha_buffer := copy_at (sha_buffer s) 0 rest,
           sha_buffered := length rest\<rparr>)"

text \<open>\<open>None\<close> is the panic of \<open>expect("SHA-256 input length exceeds u64")\<close>.\<close>

definition sha256_update :: "sha256_state \<Rightarrow> bytes \<Rightarrow> sha256_state option" where
  "sha256_update s input =
     (case checked_add (sha_length s) (word_of_nat (length input)) of
        None \<Rightarrow> None
      | Some len \<Rightarrow>
          (let s = s\<lparr>sha_length := len\<rparr> in
           if sha_buffered s \<noteq> 0 then
             (let n = min (64 - sha_buffered s) (length input);
                  s = s\<lparr>sha_buffer := copy_at (sha_buffer s) (sha_buffered s) (take n input),
                        sha_buffered := sha_buffered s + n\<rparr>
              in if sha_buffered s = 64
                 then Some (sha256_absorb_rest
                        (s\<lparr>sha_state := compress (sha_state s) (sha_buffer s), sha_buffered := 0\<rparr>)
                        (drop n input))
                 else Some s)
           else Some (sha256_absorb_rest s input)))"

definition sha256_finalize :: "sha256_state \<Rightarrow> bytes" where
  "sha256_finalize s =
     (let bit_len = sha_length s * 8;
          buffer = (sha_buffer s)[sha_buffered s := 0x80];
          buffered = sha_buffered s + 1;
          (state, buffer) =
            (if 56 < buffered
             then (compress (sha_state s) (copy_at buffer buffered (replicate (64 - buffered) 0)),
                   replicate 64 0)
             else (sha_state s, copy_at buffer buffered (replicate (56 - buffered) 0)));
          state = compress state (copy_at buffer 56 (u64_to_be_bytes bit_len))
      in concat (map u32_to_be_bytes state))"

definition sha256 :: "bytes \<Rightarrow> bytes" where
  "sha256 input = (case sha256_update sha256_new input of None \<Rightarrow> [] | Some s \<Rightarrow> sha256_finalize s)"

text \<open>\<open>{byte:02x}\<close> for each byte.\<close>

definition hex_digit :: "u8 \<Rightarrow> u8" where
  "hex_digit n = (if n < 10 then 48 + n else 87 + n)"

definition hex_byte :: "u8 \<Rightarrow> bytes" where
  "hex_byte b = [hex_digit (drop_bit 4 b), hex_digit (b AND 15)]"

definition hex :: "bytes \<Rightarrow> bytes" where
  "hex digest = concat (map hex_byte digest)"

definition sha256_hex :: "bytes \<Rightarrow> bytes" where
  "sha256_hex input = hex (sha256 input)"

definition sha256_finalize_hex :: "sha256_state \<Rightarrow> bytes" where
  "sha256_finalize_hex s = hex (sha256_finalize s)"

section \<open>Specification\<close>

definition sha256_padding :: "nat \<Rightarrow> bytes" where
  "sha256_padding n = 0x80 # replicate ((119 - n mod 64) mod 64) 0 @ be_bytes 8 (8 * n)"

function chunks64 :: "bytes \<Rightarrow> bytes list" where
  "chunks64 bs = (if length bs < 64 then [] else take 64 bs # chunks64 (drop 64 bs))"
  by pat_completeness auto
termination
  by (relation "measure length") auto

declare chunks64.simps [simp del]

definition sha256_spec :: "bytes \<Rightarrow> bytes" where
  "sha256_spec m = concat (map u32_to_be_bytes
     (fold (\<lambda>block state. compress state block) (chunks64 (m @ sha256_padding (length m))) INITIAL))"

section \<open>The buffered hasher computes the specification\<close>

lemma absorb_short: "length bs < 64 \<Longrightarrow> absorb st bs = (st, bs)"
  by (simp add: absorb.simps)

lemma absorb_long:
  "64 \<le> length bs \<Longrightarrow> absorb st bs = absorb (compress st (take 64 bs)) (drop 64 bs)"
  by (simp add: absorb.simps [of st bs])

lemma absorb_block: "length b = 64 \<Longrightarrow> absorb st (b @ rest) = absorb (compress st b) rest"
  by (simp add: absorb_long)

lemma absorb_rest_short: "absorb st bs = (st', r) \<Longrightarrow> length r < 64"
proof (induction st bs arbitrary: st' r rule: absorb.induct)
  case (1 st bs)
  then show ?case
    by (cases "64 \<le> length bs") (auto simp: absorb_short absorb_long)
qed

text \<open>Absorbing a message in two parts keeps only the unfinished block of the first.\<close>

lemma absorb_append: "absorb st a = (st', r) \<Longrightarrow> absorb st (a @ b) = absorb st' (r @ b)"
proof (induction st a arbitrary: st' r rule: absorb.induct)
  case (1 st a)
  show ?case
  proof (cases "64 \<le> length a")
    case True
    with 1 have "absorb (compress st (take 64 a)) (drop 64 a @ b) = absorb st' (r @ b)"
      by (simp add: absorb_long)
    with True show ?thesis by (simp add: absorb_long [of "a @ b"])
  next
    case False
    with 1 show ?thesis by (simp add: absorb_short)
  qed
qed

lemma absorb_chunks: "fst (absorb st bs) = fold (\<lambda>block state. compress state block) (chunks64 bs) st"
proof (induction st bs rule: absorb.induct)
  case (1 st bs)
  then show ?case
    by (cases "64 \<le> length bs") (simp_all add: absorb_short absorb_long chunks64.simps [of bs])
qed

text \<open>A hasher state represents the message consumed so far.\<close>

definition sha_rep :: "sha256_state \<Rightarrow> bytes \<Rightarrow> bool" where
  "sha_rep s m \<longleftrightarrow>
     absorb INITIAL m = (sha_state s, take (sha_buffered s) (sha_buffer s)) \<and>
     sha_buffered s < 64 \<and> length (sha_buffer s) = 64 \<and>
     length m < 2 ^ 64 \<and> sha_length s = word_of_nat (length m)"

lemma length_copy_at: "i + length src \<le> length buf \<Longrightarrow> length (copy_at buf i src) = length buf"
  by (simp add: copy_at_def)

lemma take_copy_at:
  "i \<le> length buf \<Longrightarrow> take (i + length src) (copy_at buf i src) = take i buf @ src"
  by (simp add: copy_at_def)

lemma copy_at_end: "length b = i + length L \<Longrightarrow> copy_at b i L = take i b @ L"
  by (simp add: copy_at_def)

lemma sha_rep_new: "sha_rep sha256_new []"
  by (simp add: sha_rep_def sha256_new_def absorb_short)

lemma sha256_absorb_rest_rep:
  assumes "absorb INITIAL m = absorb (sha_state s) input"
    and "length (sha_buffer s) = 64" "length m < 2 ^ 64" "sha_length s = word_of_nat (length m)"
  shows "sha_rep (sha256_absorb_rest s input) m"
proof -
  obtain st r where ab: "absorb (sha_state s) input = (st, r)" by fastforce
  then have "length r < 64" by (rule absorb_rest_short)
  with assms ab show ?thesis
    by (auto simp: sha_rep_def sha256_absorb_rest_def copy_at_def)
qed

lemma sha256_update_rep:
  assumes rep: "sha_rep s m" and len: "length m + length input < 2 ^ 64"
  obtains s' where "sha256_update s input = Some s'" and "sha_rep s' (m @ input)"
proof -
  let ?l = "word_of_nat (length (m @ input)) :: u64"
  have "unat ?l = unat (sha_length s) + unat (word_of_nat (length input) :: u64)"
    using rep len by (simp add: sha_rep_def del: of_nat_add)
  then have ca: "checked_add (sha_length s) (word_of_nat (length input)) = Some ?l"
    by (simp only: checked_add_eq_Some)
  have ab: "absorb INITIAL (m @ input) = absorb (sha_state s) (take (sha_buffered s) (sha_buffer s) @ input)"
    using rep by (simp add: sha_rep_def absorb_append)
  show thesis
  proof (cases "sha_buffered s = 0")
    case True
    let ?s = "sha256_absorb_rest (s\<lparr>sha_length := ?l\<rparr>) input"
    have "sha_rep ?s (m @ input)"
      using rep ab len True by (intro sha256_absorb_rest_rep) (auto simp: sha_rep_def)
    then show thesis using that [of ?s] True ca by (simp add: sha256_update_def)
  next
    case False
    let ?n = "min (64 - sha_buffered s) (length input)"
    let ?buf = "copy_at (sha_buffer s) (sha_buffered s) (take ?n input)"
    let ?k = "sha_buffered s + ?n"
    have b: "sha_buffered s < 64" "length (sha_buffer s) = 64" using rep by (auto simp: sha_rep_def)
    have lb: "length ?buf = 64" using b by (simp add: length_copy_at)
    have tk: "take ?k ?buf = take (sha_buffered s) (sha_buffer s) @ take ?n input"
      using b take_copy_at [of "sha_buffered s" "sha_buffer s" "take ?n input"] by simp
    show thesis
    proof (cases "?k = 64")
      case full: True
      let ?t = "s\<lparr>sha_length := ?l, sha_buffer := ?buf,
        sha_state := compress (sha_state s) ?buf, sha_buffered := 0\<rparr>"
      have "?buf = take (sha_buffered s) (sha_buffer s) @ take ?n input"
        using tk lb full by simp
      then have "?buf @ drop ?n input = take (sha_buffered s) (sha_buffer s) @ input"
        by (simp only: append.assoc append_take_drop_id)
      then have "absorb INITIAL (m @ input) = absorb (compress (sha_state s) ?buf) (drop ?n input)"
        by (simp only: ab absorb_block [OF lb, symmetric])
      then have "sha_rep (sha256_absorb_rest ?t (drop ?n input)) (m @ input)"
        using len lb by (intro sha256_absorb_rest_rep) auto
      then show thesis
        using that [of "sha256_absorb_rest ?t (drop ?n input)"] False full ca
        by (simp add: sha256_update_def Let_def)
    next
      case partial: False
      then have n: "?n = length input" and k: "?k < 64" using b by auto
      let ?t = "s\<lparr>sha_length := ?l, sha_buffer := ?buf, sha_buffered := ?k\<rparr>"
      have "absorb INITIAL (m @ input) = (sha_state s, take ?k ?buf)"
        using ab tk n k b by (simp add: absorb_short)
      then have "sha_rep ?t (m @ input)"
        using len lb k by (simp add: sha_rep_def)
      then show thesis
        using that [of ?t] False partial ca by (simp add: sha256_update_def Let_def)
    qed
  qed
qed

lemma absorb_rest_mod: "absorb st bs = (st', r) \<Longrightarrow> length r = length bs mod 64"
proof (induction st bs arbitrary: st' r rule: absorb.induct)
  case (1 st bs)
  show ?case
  proof (cases "64 \<le> length bs")
    case True
    with 1 have "length r = (length bs - 64) mod 64" by (metis absorb_long length_drop)
    then show ?thesis using le_mod_geq [OF True] by argo
  next
    case False
    with 1 show ?thesis by (simp add: absorb_short)
  qed
qed

lemma be_bytes_mod: "be_bytes k (n mod 256 ^ k) = be_bytes k n"
  by (metis be_bytes_be_nat be_nat_be_bytes length_be_bytes)

lemma sha256_length_field: "u64_to_be_bytes (word_of_nat n * 8) = be_bytes 8 (8 * n)"
proof -
  have "unat (word_of_nat n * 8 :: u64) = (8 * n) mod 256 ^ 8"
    by (simp add: unat_word_ariths unat_of_nat mod_mult_left_eq mult.commute [of 8])
  then show ?thesis
    by (simp only: u64_to_be_bytes_def be_bytes_mod)
qed

lemma finalize_short:
  assumes "length r = k" "k < 56" "take k buf = r" "length buf = 64" "length L = 8"
  shows "copy_at (copy_at (buf[k := 0x80]) (k + 1) (replicate (56 - (k + 1)) 0)) 56 L
    = r @ 0x80 # replicate (55 - k) 0 @ L"
proof -
  have pre: "take (Suc k) (buf[k := 0x80]) = r @ [0x80]"
    using assms by (simp add: take_Suc_conv_app_nth)
  let ?b = "copy_at (buf[k := 0x80]) (k + 1) (replicate (56 - (k + 1)) 0)"
  have "?b = (r @ 0x80 # replicate (55 - k) 0) @ drop 56 (buf[k := 0x80])"
    using pre assms by (simp add: copy_at_def)
  moreover have "length (r @ 0x80 # replicate (55 - k) 0) = 56"
    using assms by simp
  ultimately have "take 56 ?b = r @ 0x80 # replicate (55 - k) 0"
    by (metis append_eq_conv_conj)
  moreover have "length ?b = 64"
    using assms by (simp add: copy_at_def)
  ultimately show ?thesis using assms copy_at_end [of ?b 56 L] by simp
qed

lemma finalize_long:
  assumes "length r = k" "56 \<le> k" "k < 64" "take k buf = r" "length buf = 64"
  shows "copy_at (buf[k := 0x80]) (k + 1) (replicate (64 - (k + 1)) 0)
    = r @ 0x80 # replicate (63 - k) 0"
proof -
  have "take (Suc k) (buf[k := 0x80]) = r @ [0x80]"
    using assms by (simp add: take_Suc_conv_app_nth)
  then show ?thesis using assms by (simp add: copy_at_def)
qed

lemma sha256_finalize_rep:
  assumes rep: "sha_rep s m"
  shows "sha256_finalize s = sha256_spec m"
proof -
  let ?k = "sha_buffered s" and ?L = "be_bytes 8 (8 * length m)"
  let ?r = "take ?k (sha_buffer s)"
  have r: "absorb INITIAL m = (sha_state s, ?r)" "?k < 64" "length (sha_buffer s) = 64"
    "sha_length s = word_of_nat (length m)"
    using rep by (auto simp: sha_rep_def)
  then have k: "length ?r = ?k" "length m mod 64 = ?k"
    using absorb_rest_mod [OF r(1)] by auto
  have L: "u64_to_be_bytes (sha_length s * 8) = ?L"
    by (simp only: r(4) sha256_length_field)
  have spec: "sha256_spec m = concat (map u32_to_be_bytes
      (fst (absorb (sha_state s) (?r @ sha256_padding (length m)))))"
    by (simp only: sha256_spec_def absorb_chunks [symmetric] absorb_append [OF r(1)])
  show ?thesis
  proof (cases "?k < 56")
    case True
    let ?B = "?r @ 0x80 # replicate (55 - ?k) 0 @ ?L"
    have "(119 - ?k) mod 64 = 55 - ?k" using True by (simp add: le_mod_geq)
    then have pad: "?r @ sha256_padding (length m) = ?B @ []"
      by (simp add: sha256_padding_def k(2))
    have len: "length ?B = 64" using True k by simp
    have "copy_at (copy_at ((sha_buffer s)[?k := 0x80]) (?k + 1) (replicate (56 - (?k + 1)) 0)) 56 ?L = ?B"
      using True r(3) by (intro finalize_short) auto
    then show ?thesis
      unfolding spec pad absorb_block [OF len] using True
      by (simp add: sha256_finalize_def L absorb_short del: be_bytes.simps)
  next
    case False
    let ?B = "?r @ 0x80 # replicate (63 - ?k) 0" and ?C = "replicate 56 0 @ ?L"
    have "(119 - ?k) mod 64 = (63 - ?k) + 56" using False r(2) by simp
    then have pad: "?r @ sha256_padding (length m) = ?B @ ?C @ []"
      by (simp only: sha256_padding_def k(2) replicate_add append_assoc append_Cons append_Nil2)
    have len: "length ?B = 64" "length ?C = 64" using False k r(2) by simp_all
    have B: "copy_at ((sha_buffer s)[?k := 0x80]) (?k + 1) (replicate (64 - (?k + 1)) 0) = ?B"
      using False r(2,3) by (intro finalize_long) auto
    have C: "copy_at (replicate 64 0) 56 ?L = ?C"
      by (simp add: copy_at_def)
    show ?thesis
      unfolding spec pad absorb_block [OF len(1)] absorb_block [OF len(2)] using False B C
      by (simp add: sha256_finalize_def L absorb_short del: be_bytes.simps)
  qed
qed

text \<open>Feeding a message in pieces.\<close>

fun sha256_updates :: "sha256_state \<Rightarrow> bytes list \<Rightarrow> sha256_state option" where
  "sha256_updates s [] = Some s"
| "sha256_updates s (c # cs) = (case sha256_update s c of None \<Rightarrow> None | Some s' \<Rightarrow> sha256_updates s' cs)"

lemma sha256_updates_rep:
  assumes "sha_rep s m" and "length m + length (concat cs) < 2 ^ 64"
  shows "\<exists>s'. sha256_updates s cs = Some s' \<and> sha_rep s' (m @ concat cs)"
  using assms
proof (induction cs arbitrary: s m)
  case (Cons c cs)
  then obtain s1 where s1: "sha256_update s c = Some s1" "sha_rep s1 (m @ c)"
    using sha256_update_rep [of s m c] by auto
  then show ?case using Cons.IH [of s1 "m @ c"] Cons.prems(2) by simp
qed simp

lemma sha256_eq_spec:
  assumes "length m < 2 ^ 64"
  shows "sha256 m = sha256_spec m"
proof -
  obtain s where "sha256_update sha256_new m = Some s" "sha_rep s m"
    using sha256_update_rep [OF sha_rep_new, of m] assms by auto
  then show ?thesis by (simp add: sha256_def sha256_finalize_rep)
qed

section \<open>Shape of a digest\<close>

lemma length_compress_sum:
  assumes "length st = 8"
  shows "length (case (x :: working) of (a, b, c, d, e, f, g, h) \<Rightarrow> map2 (+) st [a, b, c, d, e, f, g, h]) = 8"
  using assms by (simp split: prod.split)

lemma length_compress [simp]: "length st = 8 \<Longrightarrow> length (compress st block) = 8"
  unfolding compress_def Let_def by (rule length_compress_sum)

lemma length_absorb: "length st = 8 \<Longrightarrow> length (fst (absorb st bs)) = 8"
proof (induction st bs rule: absorb.induct)
  case (1 st bs)
  then show ?case by (cases "64 \<le> length bs") (simp_all add: absorb_long [of bs] absorb_short)
qed

lemma length_concat_u32: "length (concat (map u32_to_be_bytes ws)) = 4 * length ws"
  by (induction ws) simp_all

lemma length_sha256 [simp]: "length (sha256 m) = 32"
proof -
  have ca: "checked_add 0 (word_of_nat (length m) :: u64) = Some (word_of_nat (length m))"
    by (simp add: checked_add_eq_Some)
  have fin: "length (sha256_finalize s) = 32" if "length (sha_state s) = 8" for s
    using that by (simp add: sha256_finalize_def length_concat_u32 Let_def split: prod.split)
  have "length INITIAL = 8" by (simp add: INITIAL_def)
  then have "length (fst (absorb INITIAL m)) = 8" by (rule length_absorb)
  then show ?thesis
    by (auto simp: sha256_def sha256_update_def sha256_new_def ca sha256_absorb_rest_def fin split: prod.split)
qed

definition is_lower_hex :: "u8 \<Rightarrow> bool" where
  "is_lower_hex c \<longleftrightarrow> (48 \<le> c \<and> c \<le> 57) \<or> (97 \<le> c \<and> c \<le> 102)"

lemma hex_digit_lower: "n < 16 \<Longrightarrow> is_lower_hex (hex_digit n)"
  by (auto simp: hex_digit_def is_lower_hex_def word_less_nat_alt word_le_nat_alt unat_word_ariths)

lemma nibble_bounds: "drop_bit 4 (b :: u8) < 16" "b AND 15 < (16 :: u8)"
proof -
  have "unat b < 256" using unat_less_exp [of b] by simp
  then show "drop_bit 4 b < 16"
    by (simp add: word_less_nat_alt drop_bit_eq_div unat_div)
  have "b AND 15 \<le> 15" by (rule word_and_le1)
  then show "b AND 15 < 16" by (simp add: word_less_nat_alt word_le_nat_alt)
qed

lemma length_hex [simp]: "length (hex ds) = 2 * length ds"
  by (induction ds) (simp_all add: hex_def hex_byte_def)

lemma hex_lower: "c \<in> set (hex ds) \<Longrightarrow> is_lower_hex c"
  by (auto simp: hex_def hex_byte_def hex_digit_lower nibble_bounds)

lemma length_sha256_hex [simp]: "length (sha256_hex m) = 64"
  by (simp add: sha256_hex_def)

lemma sha256_hex_lower: "c \<in> set (sha256_hex m) \<Longrightarrow> is_lower_hex c"
  by (auto simp: sha256_hex_def hex_lower)

section \<open>Properties\<close>



text \<open>A hexadecimal content identity is always 64 lowercase hexadecimal digits, whatever was
  hashed: every digest the storage code writes passes its own identity checks.
\<close>

lemma sha256_hex_identity:
  "length (sha256_hex m) = 64 \<and> list_all is_lower_hex (sha256_hex m)"
  by (simp add: list_all_iff sha256_hex_lower)

end
