(* ===== verification/Segment_Format.thy ===== *)
theory Segment_Format
  imports Segment_Record Digest
begin

text \<open>
  The file form of segments (\<^verbatim>\<open>crates/vyrm-kv/src/segment.rs\<close>): the version 3 writer
  (blocks, index, header, footer), its reader and validator, and the reader of the two legacy
  versions. A file is its byte string; reading past its end is the I/O error of
  \<open>read_exact\<close>. Third-party code is the record \<open>codec\<close>: the LZ4 block functions of
  \<open>lz4_flex\<close> and the SHA-256 of \<open>ring\<close>.
\<close>

section \<open>Third-party functions\<close>

record codec =
  compress_prepend_size :: "bytes \<Rightarrow> bytes"
  decompress_size_prepended :: "bytes \<Rightarrow> bytes option"
  ring_sha256 :: "bytes \<Rightarrow> bytes"

text \<open>What the code relies on: \<open>lz4_flex\<close> prepends the input length as four little-endian
  bytes and inverts its own compression; \<open>ring\<close> computes SHA-256.\<close>

definition codec_laws :: "codec \<Rightarrow> bool" where
  "codec_laws c \<longleftrightarrow>
     (\<forall>bs. length bs < 2 ^ 32 \<longrightarrow>
        decompress_size_prepended c (compress_prepend_size c bs) = Some bs \<and>
        4 \<le> length (compress_prepend_size c bs) \<and>
        u32_from_le_bytes (take 4 (compress_prepend_size c bs)) = word_of_nat (length bs)) \<and>
     (\<forall>bs. ring_sha256 c bs = sha256 bs)"

section \<open>Model\<close>

definition SEGMENT_FORMAT_VERSION :: u16 where
  "SEGMENT_FORMAT_VERSION = 3"

definition SEGMENT_BLOCK_TARGET_BYTES :: nat where
  "SEGMENT_BLOCK_TARGET_BYTES = 4 * 1024"

definition SEGMENT_V1_MAGIC :: bytes where
  "SEGMENT_V1_MAGIC = ascii ''VYRSEG01''"

definition SEGMENT_V2_MAGIC :: bytes where
  "SEGMENT_V2_MAGIC = ascii ''VYRSEG02''"

definition SEGMENT_V3_MAGIC :: bytes where
  "SEGMENT_V3_MAGIC = ascii ''VYRSEG03''"

definition INDEX_V3_MAGIC :: bytes where
  "INDEX_V3_MAGIC = ascii ''VYRIX003''"

definition V1_HEADER_BYTES :: nat where
  "V1_HEADER_BYTES = 40"

definition V2_HEADER_BYTES :: nat where
  "V2_HEADER_BYTES = 48"

definition V3_HEADER_BYTES :: nat where
  "V3_HEADER_BYTES = 64"

definition INDEX_HEADER_BYTES :: nat where
  "INDEX_HEADER_BYTES = 16"

definition INDEX_ENTRY_BYTES :: nat where
  "INDEX_ENTRY_BYTES = 104"

definition FOOTER_BYTES :: nat where
  "FOOTER_BYTES = 64"

definition MAX_SEGMENT_BYTES :: nat where
  "MAX_SEGMENT_BYTES = 1024 * 1024 * 1024"

definition MAX_INDEX_BYTES :: nat where
  "MAX_INDEX_BYTES = 64 * 1024 * 1024"

definition SPARSE_INDEX_STRIDE :: nat where
  "SPARSE_INDEX_STRIDE = 4"

record segment_descriptor =
  sd_id :: bytes
  sd_level :: u8
  sd_first_key :: bytes
  sd_last_key :: bytes
  sd_minimum_sequence :: u64
  sd_maximum_sequence :: u64
  sd_entries :: u64
  sd_bytes :: u64
  sd_checksum :: bytes

record block_descriptor =
  bd_offset :: nat
  bd_physical_bytes :: nat
  bd_record_bytes :: nat
  bd_entries :: u64
  bd_digest :: bytes
  bd_last_key :: bytes

datatype block_source = File_Source bytes | Bytes_Source bytes

datatype segment_storage =
    Legacy bytes "sparse_entry list"
  | Blocked block_source "block_descriptor list" u64

record segment =
  seg_descriptor :: segment_descriptor
  seg_storage :: segment_storage

text \<open>\<open>seek\<close> and \<open>read_exact\<close> on the bytes of a file.\<close>

definition read_exact_at :: "bytes \<Rightarrow> nat \<Rightarrow> nat \<Rightarrow> bytes kv_result" where
  "read_exact_at bs offset n =
     (if n = 0 then Ok [] else if offset + n \<le> length bs then Ok (subslice offset (offset + n) bs)
      else Err (Io UnexpectedEof))"

definition encode_sha256_hex :: "bytes \<Rightarrow> bytes" where
  "encode_sha256_hex digest =
     concat (map (\<lambda>byte. [ascii ''0123456789abcdef'' ! unat (drop_bit 4 byte),
                          ascii ''0123456789abcdef'' ! unat (take_bit 4 byte)]) digest)"

definition decode_hex_nibble :: "u8 \<Rightarrow> u8 kv_result" where
  "decode_hex_nibble byte =
     (if 48 \<le> byte \<and> byte \<le> 57 then Ok (byte - 48)
      else if 97 \<le> byte \<and> byte \<le> 102 then Ok (byte - 97 + 10)
      else Err (InvalidSegment ''v3 block digest is not lowercase hexadecimal''))"

fun decode_hex_pairs :: "bytes \<Rightarrow> bytes kv_result" where
  "decode_hex_pairs (a # b # rest) =
     rbind (decode_hex_nibble a) (\<lambda>hi. rbind (decode_hex_nibble b) (\<lambda>lo.
     rbind (decode_hex_pairs rest) (\<lambda>ds. Ok (or (push_bit 4 hi) lo # ds))))"
| "decode_hex_pairs _ = Ok []"

definition decode_sha256_hex :: "bytes \<Rightarrow> bytes kv_result" where
  "decode_sha256_hex encoded =
     (if length encoded \<noteq> 64 then Err (InvalidSegment ''v3 block digest has the wrong length'')
      else decode_hex_pairs encoded)"

text \<open>The state of the block-building loop of \<open>encode_v3\<close>.\<close>

record block_builder =
  bb_blocks :: "(bytes \<times> u64 \<times> bytes) list"
  bb_current :: bytes
  bb_current_entries :: u64
  bb_current_last_key :: bytes
  bb_total_record_bytes :: nat

definition encode_v3_step :: "bytes \<Rightarrow> versioned_value \<Rightarrow> block_builder \<Rightarrow> block_builder kv_result" where
  "encode_v3_step key version st =
     rbind (encode_record key version) (\<lambda>rec.
     let st = (if bb_current st \<noteq> [] \<and>
                  usize_saturating_add (length (bb_current st)) (length rec) > SEGMENT_BLOCK_TARGET_BYTES
               then st\<lparr>bb_blocks := bb_blocks st @ [(bb_current st, bb_current_entries st, bb_current_last_key st)],
                       bb_current := [], bb_current_entries := 0, bb_current_last_key := []\<rparr>
               else st) in
     rbind (ok_or (usize_checked_add (bb_total_record_bytes st) (length rec))
              (InvalidSegment ''record bytes overflow'')) (\<lambda>tot.
     Ok (st\<lparr>bb_total_record_bytes := tot, bb_current := bb_current st @ rec,
            bb_current_entries := bb_current_entries st + 1, bb_current_last_key := key\<rparr>)))"

text \<open>The loop that compresses the blocks and lays them out behind the header.\<close>

definition layout_block ::
  "codec \<Rightarrow> bytes \<times> u64 \<times> bytes \<Rightarrow> bytes \<times> block_descriptor list \<Rightarrow> bytes \<times> block_descriptor list" where
  "layout_block c = (\<lambda>(records, block_entries, last_key) (output, descriptors).
     let compressed = compress_prepend_size c records
     in (output @ compressed,
         descriptors @ [\<lparr>bd_offset = length output, bd_physical_bytes = length compressed,
           bd_record_bytes = length records, bd_entries = block_entries,
           bd_digest = sha256 compressed, bd_last_key = last_key\<rparr>]))"

definition index_entry :: "block_descriptor \<Rightarrow> bytes" where
  "index_entry b =
     u64_to_be_bytes (word_of_nat (bd_offset b)) @ u64_to_be_bytes (word_of_nat (bd_physical_bytes b))
     @ u64_to_be_bytes (word_of_nat (bd_record_bytes b)) @ u64_to_be_bytes (bd_entries b)
     @ u32_to_be_bytes (word_of_nat (length (bd_last_key b))) @ u32_to_be_bytes 0
     @ encode_sha256_hex (bd_digest b) @ bd_last_key b"

definition v3_header :: "u64 \<Rightarrow> u64 \<Rightarrow> u64 \<Rightarrow> nat \<Rightarrow> nat \<Rightarrow> nat \<Rightarrow> bytes" where
  "v3_header entries minimum_sequence maximum_sequence tot index_offset blocks =
     SEGMENT_V3_MAGIC @ u16_to_be_bytes SEGMENT_FORMAT_VERSION @ u16_to_be_bytes (word_of_nat V3_HEADER_BYTES)
     @ u32_to_be_bytes 1 @ u64_to_be_bytes entries @ u64_to_be_bytes minimum_sequence
     @ u64_to_be_bytes maximum_sequence @ u64_to_be_bytes (word_of_nat tot)
     @ u64_to_be_bytes (word_of_nat index_offset) @ u32_to_be_bytes (word_of_nat blocks)
     @ u32_to_be_bytes (word_of_nat SEGMENT_BLOCK_TARGET_BYTES)"

text \<open>The second half of \<open>encode_v3\<close>: from the built blocks to the file.\<close>

definition encode_v3_finish :: "codec \<Rightarrow> u64 \<Rightarrow> u64 \<Rightarrow> u64 \<Rightarrow> block_builder \<Rightarrow> bytes kv_result" where
  "encode_v3_finish c entries minimum_sequence maximum_sequence st =
     (let blocks = (if bb_current st \<noteq> []
                    then bb_blocks st @ [(bb_current st, bb_current_entries st, bb_current_last_key st)]
                    else bb_blocks st) in
      if bb_total_record_bytes st > MAX_SEGMENT_BYTES
      then Err (InvalidSegment ''uncompressed records exceed the 1 GiB safety limit'')
      else
      let (output, descriptors) = fold (layout_block c) blocks (replicate V3_HEADER_BYTES 0, []);
          index_offset = length output;
          output = output @ INDEX_V3_MAGIC @ u32_to_be_bytes (word_of_nat (length descriptors)) @ u32_to_be_bytes 0
                   @ concat (map index_entry descriptors);
          output = v3_header entries minimum_sequence maximum_sequence (bb_total_record_bytes st) index_offset
                     (length descriptors) @ drop V3_HEADER_BYTES output in
      if length output > MAX_SEGMENT_BYTES - FOOTER_BYTES
      then Err (InvalidSegment ''encoded segment exceeds the 1 GiB safety limit'')
      else Ok (output @ sha256_hex output))"

definition encode_v3 :: "codec \<Rightarrow> memtable \<Rightarrow> bytes kv_result" where
  "encode_v3 c table =
     (if mt_version_count table = 0 then Err (InvalidSegment ''cannot write an empty segment'')
      else
      rbind (ok_or (u64_try_from (mt_version_count table)) (InvalidSegment ''entry count exceeds u64'')) (\<lambda>entries.
      let minimum_sequence = Min (set (concat (map (\<lambda>(_, vs). map vv_sequence vs) (mt_all_versions table)))) in
      rbind (try_fold (\<lambda>(key, vs) st. try_fold (encode_v3_step key) vs st) (mt_all_versions table)
               \<lparr>bb_blocks = [], bb_current = [], bb_current_entries = 0, bb_current_last_key = [],
                bb_total_record_bytes = 0\<rparr>)
        (encode_v3_finish c entries minimum_sequence (mt_maximum_sequence table))))"

definition decode_compressed_block :: "codec \<Rightarrow> bytes \<Rightarrow> block_descriptor \<Rightarrow> bytes kv_result" where
  "decode_compressed_block c compressed block =
     (if ring_sha256 c compressed \<noteq> bd_digest block
      then Err (InvalidSegment ''v3 block checksum does not match'')
      else
      rbind (ok_or (get_range compressed 0 4)
               (InvalidSegment ''v3 compressed block has no size prefix'')) (\<lambda>prefix.
      let prefixed = unat (u32_from_le_bytes prefix) in
      if prefixed \<noteq> bd_record_bytes block \<or> prefixed > MAX_DECODED_BLOCK_BYTES
      then Err (InvalidSegment ''v3 declared and compressed block lengths differ'')
      else
      rbind (ok_or (decompress_size_prepended c compressed) (InvalidSegment ''v3 LZ4 decode failed'')) (\<lambda>decoded.
      if length decoded \<noteq> bd_record_bytes block
      then Err (InvalidSegment ''v3 decoded block length differs from its index'')
      else Ok decoded)))"

fun read_and_decode_block :: "codec \<Rightarrow> block_source \<Rightarrow> block_descriptor \<Rightarrow> bytes kv_result" where
  "read_and_decode_block c (File_Source bs) block =
     rbind (read_exact_at bs (bd_offset block) (bd_physical_bytes block)) (\<lambda>compressed.
     decode_compressed_block c compressed block)"
| "read_and_decode_block c (Bytes_Source bs) block =
     rbind (ok_or (usize_checked_add (bd_offset block) (bd_physical_bytes block))
              (InvalidSegment ''v3 block range overflow'')) (\<lambda>end'.
     rbind (ok_or (get_range bs (bd_offset block) end')
              (InvalidSegment ''v3 block range is absent'')) (\<lambda>compressed.
     decode_compressed_block c compressed block))"

text \<open>What the record loop of \<open>validate_v3_blocks\<close> carries from record to record:
  \<open>previous\<close>, \<open>first_key\<close>, \<open>last_key\<close>, \<open>block_entries\<close> and
  \<open>block_last\<close>.\<close>

record block_scan =
  bs_previous :: "(bytes \<times> u64) option"
  bs_first_key :: "bytes option"
  bs_last_key :: "bytes option"
  bs_block_entries :: u64
  bs_block_last :: "bytes option"

function validate_block_records :: "u64 \<Rightarrow> u64 \<Rightarrow> bytes \<Rightarrow> nat \<Rightarrow> block_scan \<Rightarrow> block_scan kv_result" where
  "validate_block_records mn mx records cursor st =
     (if cursor < length records then
        rbind (parse_record records cursor (length records) mn mx) (\<lambda>r.
        rbind (validate_order (bs_previous st) r) (\<lambda>previous.
        validate_block_records mn mx records (rec_next r)
          (st\<lparr>bs_previous := previous,
              bs_first_key := (case bs_first_key st of None \<Rightarrow> Some (rec_key r) | Some k \<Rightarrow> Some k),
              bs_last_key := Some (rec_key r),
              bs_block_last := Some (rec_key r),
              bs_block_entries := bs_block_entries st + 1\<rparr>)))
      else Ok st)"
  by pat_completeness auto
termination
proof (relation "measure (\<lambda>(mn, mx, records, cursor, st). length records - cursor)", goal_cases)
  case (2 mn mx records cursor st r previous)
  then show ?case using parse_record_advances [of records cursor "length records" mn mx r] by auto
qed simp

declare validate_block_records.simps [simp del]

definition validate_v3_block :: "codec \<Rightarrow> bytes \<Rightarrow> u64 \<Rightarrow> u64 \<Rightarrow> block_descriptor \<Rightarrow> block_scan \<times> u64 \<times> nat
    \<Rightarrow> (block_scan \<times> u64 \<times> nat) kv_result" where
  "validate_v3_block c bs mn mx block = (\<lambda>(scan, observed_entries, observed_bytes).
     rbind (read_exact_at bs (bd_offset block) (bd_physical_bytes block)) (\<lambda>compressed.
     rbind (decode_compressed_block c compressed block) (\<lambda>records.
     rbind (validate_block_records mn mx records 0 (scan\<lparr>bs_block_entries := 0, bs_block_last := None\<rparr>)) (\<lambda>scan.
     if bs_block_entries scan \<noteq> bd_entries block \<or> bs_block_last scan \<noteq> Some (bd_last_key block)
     then Err (InvalidSegment ''v3 block index disagrees with block contents'')
     else
     rbind (ok_or (checked_add observed_entries (bs_block_entries scan))
              (InvalidSegment ''v3 entry count overflow'')) (\<lambda>observed_entries.
     rbind (ok_or (usize_checked_add observed_bytes (length records))
              (InvalidSegment ''v3 record byte count overflow'')) (\<lambda>observed_bytes.
     Ok (scan, observed_entries, observed_bytes)))))))"

text \<open>The two \<open>expect\<close> calls of the source unwrap the first and last key; \<open>the\<close> reads them
  here, and they are present whenever the counts agree.\<close>

definition validate_v3_blocks :: "codec \<Rightarrow> bytes \<Rightarrow> segment_descriptor \<Rightarrow> block_descriptor list \<Rightarrow> u64
    \<Rightarrow> (segment_descriptor \<times> block_descriptor list) kv_result" where
  "validate_v3_blocks c bs descriptor blocks declared_record_bytes =
     rbind (try_fold (validate_v3_block c bs (sd_minimum_sequence descriptor) (sd_maximum_sequence descriptor)) blocks
              (\<lparr>bs_previous = None, bs_first_key = None, bs_last_key = None, bs_block_entries = 0,
                bs_block_last = None\<rparr>, 0, 0)) (\<lambda>(scan, observed_entries, observed_bytes).
     if observed_entries \<noteq> sd_entries descriptor \<or> observed_bytes \<noteq> unat declared_record_bytes
     then Err (InvalidSegment ''v3 header counts disagree with block contents'')
     else Ok (descriptor\<lparr>sd_first_key := the (bs_first_key scan), sd_last_key := the (bs_last_key scan)\<rparr>, blocks))"

text \<open>The body of the index loop; the state is the blocks so far, the cursor, \<open>prior_end\<close> and
  \<open>prior_last_key\<close>.\<close>

definition read_index_entry :: "bytes \<Rightarrow> nat \<Rightarrow> block_descriptor list \<times> nat \<times> nat \<times> bytes option
    \<Rightarrow> (block_descriptor list \<times> nat \<times> nat \<times> bytes option) kv_result" where
  "read_index_entry index index_offset = (\<lambda>(blocks, cursor, prior_end, prior_last_key).
     rbind (ok_or (usize_checked_add cursor INDEX_ENTRY_BYTES) (InvalidSegment ''v3 index overflow'')) (\<lambda>fixed_end.
     rbind (ok_or (get_range index cursor fixed_end) (InvalidSegment ''truncated v3 index entry'')) (\<lambda>fixed.
     let offset = unat (u64_from_be_bytes (subslice 0 8 fixed));
         physical = unat (u64_from_be_bytes (subslice 8 16 fixed));
         record_bytes = unat (u64_from_be_bytes (subslice 16 24 fixed));
         block_entries = u64_from_be_bytes (subslice 24 32 fixed);
         key_len = unat (u32_from_be_bytes (subslice 32 36 fixed)) in
     if subslice 36 40 fixed \<noteq> [0, 0, 0, 0] \<or> physical < 4 \<or> record_bytes = 0
        \<or> record_bytes > MAX_DECODED_BLOCK_BYTES \<or> block_entries = 0 \<or> key_len = 0
        \<or> key_len > SEG_MAX_KEY_BYTES \<or> offset \<noteq> prior_end
        \<or> (case usize_checked_add offset physical of None \<Rightarrow> True | Some end' \<Rightarrow> end' > index_offset)
     then Err (InvalidSegment ''invalid v3 block descriptor'')
     else
     rbind (decode_sha256_hex (subslice 40 104 fixed)) (\<lambda>digest.
     rbind (ok_or (usize_checked_add fixed_end key_len) (InvalidSegment ''v3 last key overflow'')) (\<lambda>key_end.
     rbind (ok_or (get_range index fixed_end key_end) (InvalidSegment ''truncated v3 last key'')) (\<lambda>last_key.
     if (case prior_last_key of None \<Rightarrow> False | Some prior \<Rightarrow> prior > last_key)
     then Err (InvalidSegment ''v3 block last keys are not ordered'')
     else Ok (blocks @ [\<lparr>bd_offset = offset, bd_physical_bytes = physical, bd_record_bytes = record_bytes,
                         bd_entries = block_entries, bd_digest = digest, bd_last_key = last_key\<rparr>],
              key_end, offset + physical, Some last_key)))))))"

definition read_v3_metadata :: "codec \<Rightarrow> bytes \<Rightarrow> nat \<Rightarrow> bytes
    \<Rightarrow> (segment_descriptor \<times> block_descriptor list) kv_result" where
  "read_v3_metadata c bs physical_bytes actual =
     rbind (read_exact_at bs 0 V3_HEADER_BYTES) (\<lambda>header.
     if subslice 0 8 header \<noteq> SEGMENT_V3_MAGIC
        \<or> u16_from_be_bytes (subslice 8 10 header) \<noteq> SEGMENT_FORMAT_VERSION
     then Err (InvalidSegment ''v3 segment magic or version does not match'')
     else if unat (u16_from_be_bytes (subslice 10 12 header)) \<noteq> V3_HEADER_BYTES
        \<or> u32_from_be_bytes (subslice 12 16 header) \<noteq> 1
     then Err (InvalidSegment ''unknown v3 header length or compression flags'')
     else
     let entries = u64_from_be_bytes (subslice 16 24 header);
         minimum_sequence = u64_from_be_bytes (subslice 24 32 header);
         maximum_sequence = u64_from_be_bytes (subslice 32 40 header);
         declared_record_bytes = u64_from_be_bytes (subslice 40 48 header);
         index_offset = unat (u64_from_be_bytes (subslice 48 56 header));
         block_count = unat (u32_from_be_bytes (subslice 56 60 header));
         target = unat (u32_from_be_bytes (subslice 60 64 header)) in
     rbind (ok_or (if physical_bytes < FOOTER_BYTES then None else Some (physical_bytes - FOOTER_BYTES))
              (InvalidSegment ''v3 footer underflow'')) (\<lambda>content_end.
     if entries = 0 \<or> minimum_sequence = 0 \<or> minimum_sequence > maximum_sequence \<or> block_count = 0
        \<or> target \<noteq> SEGMENT_BLOCK_TARGET_BYTES \<or> index_offset < V3_HEADER_BYTES \<or> index_offset \<ge> content_end
        \<or> unat declared_record_bytes > MAX_SEGMENT_BYTES
     then Err (InvalidSegment ''invalid v3 header contract'')
     else
     let index_bytes = content_end - index_offset in
     if \<not> (INDEX_HEADER_BYTES \<le> index_bytes \<and> index_bytes \<le> MAX_INDEX_BYTES)
     then Err (InvalidSegment ''v3 index exceeds its bounded contract'')
     else if block_count > (index_bytes - INDEX_HEADER_BYTES) div INDEX_ENTRY_BYTES
     then Err (InvalidSegment ''v3 block count exceeds the bounded index'')
     else
     rbind (read_exact_at bs index_offset index_bytes) (\<lambda>index.
     if subslice 0 8 index \<noteq> INDEX_V3_MAGIC \<or> unat (u32_from_be_bytes (subslice 8 12 index)) \<noteq> block_count
        \<or> subslice 12 16 index \<noteq> [0, 0, 0, 0]
     then Err (InvalidSegment ''invalid v3 index header'')
     else
     rbind (try_repeat (read_index_entry index index_offset) block_count
              ([], INDEX_HEADER_BYTES, V3_HEADER_BYTES, None)) (\<lambda>(blocks, cursor, prior_end, _).
     if cursor \<noteq> length index \<or> prior_end \<noteq> index_offset
     then Err (InvalidSegment ''v3 block table does not exactly cover the data region'')
     else
     validate_v3_blocks c bs
       \<lparr>sd_id = actual, sd_level = 0, sd_first_key = [], sd_last_key = [],
        sd_minimum_sequence = minimum_sequence, sd_maximum_sequence = maximum_sequence,
        sd_entries = entries, sd_bytes = word_of_nat physical_bytes, sd_checksum = actual\<rparr>
       blocks declared_record_bytes))))"

definition check_footer :: "bytes \<Rightarrow> bytes kv_result" where
  "check_footer bs =
     (let content_end = length bs - FOOTER_BYTES;
          expected = drop content_end bs;
          actual = sha256_hex (take content_end bs)
      in if \<not> utf8_valid expected then Err (InvalidSegment ''segment footer is not ASCII'')
         else if expected \<noteq> actual then Err (InvalidSegment ''segment content checksum does not match'')
         else Ok actual)"

text \<open>\<open>verify_file_digest\<close> feeds the same content to the incremental hash in 64 KiB pieces.\<close>

function read_pieces :: "nat \<Rightarrow> bytes \<Rightarrow> bytes list" where
  "read_pieces n bs = (if n = 0 \<or> bs = [] then [] else take n bs # read_pieces n (drop n bs))"
  by pat_completeness auto
termination
  by (relation "measure (\<lambda>(n, bs). length bs)") auto

declare read_pieces.simps [simp del]

definition COPY_BUFFER_BYTES :: nat where
  "COPY_BUFFER_BYTES = 64 * 1024"

definition verify_file_digest :: "bytes \<Rightarrow> bytes kv_result" where
  "verify_file_digest bs =
     rbind (ok_or (if length bs < FOOTER_BYTES then None else Some (length bs - FOOTER_BYTES))
              (InvalidSegment ''segment has no checksum footer'')) (\<lambda>content_bytes.
     rbind (ok_or (sha256_updates sha256_new (read_pieces COPY_BUFFER_BYTES (take content_bytes bs)))
              (Io StorageFault)) (\<lambda>hasher.
     let expected = drop content_bytes bs;
         actual = sha256_finalize_hex hasher in
     if \<not> utf8_valid expected then Err (InvalidSegment ''segment footer is not ASCII'')
     else if expected \<noteq> actual then Err (InvalidSegment ''segment content checksum does not match'')
     else Ok actual))"

definition build_blocked_segment :: "segment_descriptor \<Rightarrow> block_source \<Rightarrow> block_descriptor list \<Rightarrow> u64 \<Rightarrow> segment" where
  "build_blocked_segment descriptor source blocks cache_id =
     \<lparr>seg_descriptor = descriptor, seg_storage = Blocked source blocks cache_id\<rparr>"

definition decode_v3_file :: "codec \<Rightarrow> u64 \<Rightarrow> bytes \<Rightarrow> segment kv_result" where
  "decode_v3_file c cache_id bs =
     rbind (verify_file_digest bs) (\<lambda>actual.
     rbind (read_v3_metadata c bs (length bs) actual) (\<lambda>(descriptor, blocks).
     Ok (build_blocked_segment descriptor (File_Source bs) blocks cache_id)))"

definition decode_v3_bytes :: "codec \<Rightarrow> u64 \<Rightarrow> bytes \<Rightarrow> segment kv_result" where
  "decode_v3_bytes c cache_id bs =
     (if length bs < V3_HEADER_BYTES + INDEX_HEADER_BYTES + FOOTER_BYTES
      then Err (InvalidSegment ''v3 segment is shorter than its framing'')
      else
      rbind (check_footer bs) (\<lambda>actual.
      rbind (read_v3_metadata c bs (length bs) actual) (\<lambda>(descriptor, blocks).
      Ok (build_blocked_segment descriptor (Bytes_Source bs) blocks cache_id))))"

definition validate_v3_slice :: "codec \<Rightarrow> bytes \<Rightarrow> segment_descriptor kv_result" where
  "validate_v3_slice c bs =
     (if length bs < V3_HEADER_BYTES + INDEX_HEADER_BYTES + FOOTER_BYTES
      then Err (InvalidSegment ''v3 segment is shorter than its framing'')
      else
      rbind (check_footer bs) (\<lambda>actual.
      rbind (read_v3_metadata c bs (length bs) actual) (\<lambda>(descriptor, _). Ok descriptor)))"

text \<open>The body of the loop of \<open>validate_legacy_records\<close>.\<close>

record legacy_scan =
  ls_cursor :: nat
  ls_previous :: "(bytes \<times> u64) option"
  ls_sparse_index :: "sparse_entry list"
  ls_keys_since_index :: nat
  ls_first_key :: "bytes option"
  ls_last_key :: "bytes option"

definition validate_legacy_step :: "bytes \<Rightarrow> u64 \<Rightarrow> u64 \<Rightarrow> legacy_scan \<Rightarrow> legacy_scan kv_result" where
  "validate_legacy_step records mn mx st =
     rbind (parse_record records (ls_cursor st) (length records) mn mx) (\<lambda>r.
     let new_key = (case ls_previous st of None \<Rightarrow> True | Some (key, _) \<Rightarrow> key \<noteq> rec_key r) in
     rbind (validate_order (ls_previous st) r) (\<lambda>previous.
     let st = st\<lparr>ls_previous := previous\<rparr>;
         st = (if new_key then
                 let st = st\<lparr>ls_first_key := (case ls_first_key st of None \<Rightarrow> Some (rec_key r) | Some k \<Rightarrow> Some k),
                             ls_last_key := Some (rec_key r)\<rparr>;
                     st = (if ls_keys_since_index st \<ge> SPARSE_INDEX_STRIDE
                           then st\<lparr>ls_sparse_index := ls_sparse_index st @
                                     [\<lparr>se_offset = ls_cursor st, se_key = rec_key r\<rparr>],
                                   ls_keys_since_index := 0\<rparr>
                           else st)
                 in st\<lparr>ls_keys_since_index := ls_keys_since_index st + 1\<rparr>
               else st)
     in Ok (st\<lparr>ls_cursor := rec_next r\<rparr>)))"

definition validate_legacy_records :: "bytes \<Rightarrow> u64 \<Rightarrow> u64 \<Rightarrow> u64 \<Rightarrow> (bytes \<times> bytes \<times> sparse_entry list) kv_result" where
  "validate_legacy_records records entries mn mx =
     rbind (try_repeat (validate_legacy_step records mn mx) (unat entries)
              \<lparr>ls_cursor = 0, ls_previous = None, ls_sparse_index = [], ls_keys_since_index = SPARSE_INDEX_STRIDE,
               ls_first_key = None, ls_last_key = None\<rparr>) (\<lambda>st.
     if ls_cursor st \<noteq> length records
     then Err (InvalidSegment ''segment contains trailing bytes before its footer'')
     else Ok (the (ls_first_key st), the (ls_last_key st), ls_sparse_index st))"

definition decode_legacy :: "codec \<Rightarrow> bytes \<Rightarrow> segment kv_result" where
  "decode_legacy c bs =
     (if length bs < V1_HEADER_BYTES + FOOTER_BYTES
      then Err (InvalidSegment ''segment is shorter than its header and footer'')
      else
      let version = u16_from_be_bytes (subslice 8 10 bs); magic = subslice 0 8 bs in
      rbind (if version = 1 \<and> magic = SEGMENT_V1_MAGIC then
               (if unat (u16_from_be_bytes (subslice 10 12 bs)) \<noteq> V1_HEADER_BYTES
                   \<or> subslice 12 16 bs \<noteq> [0, 0, 0, 0]
                then Err (InvalidSegment ''unknown v1 segment header length or flags'')
                else Ok (V1_HEADER_BYTES, False))
             else if version = 2 \<and> magic = SEGMENT_V2_MAGIC then
               (if length bs < V2_HEADER_BYTES + FOOTER_BYTES
                then Err (InvalidSegment ''v2 segment is shorter than its header and footer'')
                else if unat (u16_from_be_bytes (subslice 10 12 bs)) \<noteq> V2_HEADER_BYTES
                   \<or> subslice 12 16 bs \<noteq> [0, 0, 0, 1]
                then Err (InvalidSegment ''unknown v2 segment header length or compression flags'')
                else Ok (V2_HEADER_BYTES, True))
             else if version = 1 \<or> version = 2
             then Err (InvalidSegment ''segment magic does not match version'')
             else Err (UnsupportedVersion ''segment'' version)) (\<lambda>(header_bytes, is_compressed).
      let entries = u64_from_be_bytes (subslice 16 24 bs);
          minimum_sequence = u64_from_be_bytes (subslice 24 32 bs);
          maximum_sequence = u64_from_be_bytes (subslice 32 40 bs) in
      if entries = 0 \<or> minimum_sequence = 0 \<or> minimum_sequence > maximum_sequence
      then Err (InvalidSegment ''invalid segment count or sequence range'')
      else
      rbind (check_footer bs) (\<lambda>actual.
      let content_end = length bs - FOOTER_BYTES; body = subslice header_bytes content_end bs in
      rbind (if is_compressed then
               let declared = unat (u64_from_be_bytes (subslice 40 48 bs)) in
               if declared > MAX_SEGMENT_BYTES
               then Err (InvalidSegment ''v2 uncompressed records exceed the 1 GiB safety limit'')
               else
               rbind (ok_or (get_range body 0 4) (InvalidSegment ''v2 compressed body has no size prefix'')) (\<lambda>prefixed.
               if unat (u32_from_le_bytes prefixed) \<noteq> declared
               then Err (InvalidSegment ''v2 declared and compressed record lengths differ'')
               else ok_or (decompress_size_prepended c body) (InvalidSegment ''v2 LZ4 decode failed''))
             else Ok body) (\<lambda>records.
      rbind (validate_legacy_records records entries minimum_sequence maximum_sequence)
        (\<lambda>(first_key, last_key, sparse_index).
      Ok \<lparr>seg_descriptor =
             \<lparr>sd_id = actual, sd_level = 0, sd_first_key = first_key, sd_last_key = last_key,
              sd_minimum_sequence = minimum_sequence, sd_maximum_sequence = maximum_sequence,
              sd_entries = entries, sd_bytes = word_of_nat (length bs), sd_checksum = actual\<rparr>,
           seg_storage = Legacy records sparse_index\<rparr>)))))"

definition segment_open :: "codec \<Rightarrow> u64 \<Rightarrow> bytes \<Rightarrow> segment kv_result" where
  "segment_open c cache_id bs =
     (if length bs > MAX_SEGMENT_BYTES
      then Err (InvalidSegment ''segment exceeds the 1 GiB physical safety limit'')
      else if length bs < V1_HEADER_BYTES + FOOTER_BYTES
      then Err (InvalidSegment ''segment is shorter than its header and footer'')
      else
      let version = u16_from_be_bytes (subslice 8 10 bs) in
      if version = SEGMENT_FORMAT_VERSION \<and> subslice 0 8 bs = SEGMENT_V3_MAGIC
      then decode_v3_file c cache_id bs
      else decode_legacy c bs)"

definition starts_with :: "bytes \<Rightarrow> bytes \<Rightarrow> bool" where
  "starts_with prefix bs \<longleftrightarrow> take (length prefix) bs = prefix"

definition validate_snapshot_owned :: "codec \<Rightarrow> u64 \<Rightarrow> segment_descriptor \<Rightarrow> bytes \<Rightarrow> segment kv_result" where
  "validate_snapshot_owned c cache_id expected bs =
     (if length bs > MAX_SEGMENT_BYTES
      then Err (InvalidSegment ''snapshot segment exceeds the 1 GiB physical safety limit'')
      else
      rbind (if starts_with SEGMENT_V3_MAGIC bs then decode_v3_bytes c cache_id bs else decode_legacy c bs) (\<lambda>seg.
      let seg = seg\<lparr>seg_descriptor := (seg_descriptor seg)\<lparr>sd_level := sd_level expected\<rparr>\<rparr> in
      if seg_descriptor seg \<noteq> expected
      then Err (InvalidSegment ''snapshot segment differs from its descriptor'')
      else Ok seg))"

definition validate_snapshot_descriptor :: "codec \<Rightarrow> segment_descriptor \<Rightarrow> bytes \<Rightarrow> unit kv_result" where
  "validate_snapshot_descriptor c expected bs =
     (if length bs > MAX_SEGMENT_BYTES
      then Err (InvalidSegment ''snapshot segment exceeds the 1 GiB physical safety limit'')
      else
      rbind (if starts_with SEGMENT_V3_MAGIC bs then validate_v3_slice c bs
             else rbind (decode_legacy c bs) (\<lambda>seg. Ok (seg_descriptor seg))) (\<lambda>descriptor.
      if descriptor\<lparr>sd_level := sd_level expected\<rparr> \<noteq> expected
      then Err (InvalidSegment ''snapshot segment differs from its descriptor'')
      else Ok ()))"

text \<open>The segment directory maps file identities to contents. Publishing a file can fail before the
  rename (the temporary is removed, the directory is unchanged) or after it, in the directory sync (the
  file is in place, the call still fails).\<close>

type_synonym seg_files = "(bytes, bytes) btree"

datatype publish_outcome = Published | Failed_Before_Rename | Failed_After_Rename

definition write_from_memtable :: "codec \<Rightarrow> u64 \<Rightarrow> publish_outcome \<Rightarrow> seg_files \<Rightarrow> memtable
    \<Rightarrow> (segment \<times> bytes) kv_result \<times> seg_files" where
  "write_from_memtable c cache_id io files table =
     (case encode_v3 c table of
        Inl e \<Rightarrow> (Err e, files)
      | Inr bs \<Rightarrow>
          (let digest = sha256_hex (take (length bs - FOOTER_BYTES) bs) in
           case bt_get files digest of
             Some existing \<Rightarrow>
               (rbind (segment_open c cache_id existing) (\<lambda>seg.
                  if sd_id (seg_descriptor seg) \<noteq> digest
                  then Err (InvalidSegment ''existing content-addressed segment has another identity'')
                  else Ok (seg, digest)), files)
           | None \<Rightarrow>
               (case io of
                  Failed_Before_Rename \<Rightarrow> (Err (Io StorageFault), files)
                | Failed_After_Rename \<Rightarrow> (Err (Io StorageFault), bt_insert digest bs files)
                | Published \<Rightarrow>
                    (rbind (segment_open c cache_id bs) (\<lambda>seg. Ok (seg, digest)), bt_insert digest bs files))))"

definition install_snapshot_bytes :: "codec \<Rightarrow> u64 \<Rightarrow> publish_outcome \<Rightarrow> seg_files \<Rightarrow> segment_descriptor \<Rightarrow> bytes
    \<Rightarrow> segment kv_result \<times> seg_files" where
  "install_snapshot_bytes c cache_id io files expected bs =
     (case validate_snapshot_descriptor c expected bs of
        Inl e \<Rightarrow> (Err e, files)
      | Inr _ \<Rightarrow>
          (let with_level = (\<lambda>seg. seg\<lparr>seg_descriptor := (seg_descriptor seg)\<lparr>sd_level := sd_level expected\<rparr>\<rparr>) in
           case bt_get files (sd_id expected) of
             Some existing \<Rightarrow>
               (rbind (segment_open c cache_id existing) (\<lambda>seg.
                  if seg_descriptor (with_level seg) \<noteq> expected \<or> existing \<noteq> bs
                  then Err (InvalidSegment ''existing snapshot segment has different bytes'')
                  else Ok (with_level seg)), files)
           | None \<Rightarrow>
               (case io of
                  Failed_Before_Rename \<Rightarrow> (Err (Io StorageFault), files)
                | Failed_After_Rename \<Rightarrow> (Err (Io StorageFault), bt_insert (sd_id expected) bs files)
                | Published \<Rightarrow>
                    (rbind (segment_open c cache_id bs) (\<lambda>seg. Ok (with_level seg)),
                     bt_insert (sd_id expected) bs files))))"

lemmas segment_constants =
  SEGMENT_BLOCK_TARGET_BYTES_def V1_HEADER_BYTES_def V2_HEADER_BYTES_def V3_HEADER_BYTES_def
  INDEX_HEADER_BYTES_def INDEX_ENTRY_BYTES_def FOOTER_BYTES_def MAX_SEGMENT_BYTES_def MAX_INDEX_BYTES_def
  SPARSE_INDEX_STRIDE_def

end
