(* ===== verification/Manifest.thy ===== *)
theory Manifest
  imports Segment_Format "HOL-Library.Product_Lexorder" "HOL-Library.Multiset"
begin

text \<open>
  Manifests and their publication (\<^verbatim>\<open>crates/vyrm-kv/src/manifest.rs\<close>): the immutable
  description of the physical state, the \<open>CURRENT\<close> pointer that names one by digest, and the
  checkpoints that pin others. JSON (\<open>serde_json\<close>) is a parameter, the record \<open>json\<close>,
  with the laws the code relies on in \<open>json_laws\<close>; encoding these structures cannot fail. A
  directory is the ordered map from file stems to contents; temporary files, which nothing reads, are
  left out. Publishing a file by rename has the three outcomes of \<open>publish_outcome\<close>.
\<close>

section \<open>Model\<close>

definition MANIFEST_FORMAT_VERSION :: u16 where
  "MANIFEST_FORMAT_VERSION = 1"

record manifest =
  mf_format_version :: u16
  mf_generation :: u64
  mf_parent :: "bytes option"
  mf_created_at :: u64
  mf_durable_sequence :: u64
  mf_wal_start_sequence :: u64
  mf_segments :: "segment_descriptor list"
  mf_digest :: bytes

record current_pointer =
  cp_format_version :: u16
  cp_generation :: u64
  cp_manifest :: bytes
  cp_checksum :: bytes

record checkpoint =
  ck_format_version :: u16
  ck_name :: bytes
  ck_manifest :: bytes
  ck_generation :: u64
  ck_created_at :: u64
  ck_checksum :: bytes

record json =
  manifest_json :: "manifest \<Rightarrow> bytes"
  manifest_parse :: "bytes \<Rightarrow> manifest option"
  manifest_content :: "manifest \<Rightarrow> bytes"
  pointer_json :: "current_pointer \<Rightarrow> bytes"
  pointer_parse :: "bytes \<Rightarrow> current_pointer option"
  checkpoint_json :: "checkpoint \<Rightarrow> bytes"
  checkpoint_parse :: "bytes \<Rightarrow> checkpoint option"
  descriptor_json :: "segment_descriptor \<Rightarrow> bytes"
  descriptor_parse :: "bytes \<Rightarrow> segment_descriptor option"

text \<open>\<open>manifest_content\<close> is \<open>bytes_without_digest\<close>: the encoding of all fields but the digest. The
  round trips are what derived \<open>Serialize\<close> and \<open>Deserialize\<close> give for structures of
  integers, strings and byte lists; a JSON object is never the empty text.\<close>

definition json_laws :: "json \<Rightarrow> bool" where
  "json_laws j \<longleftrightarrow> (\<forall>m. manifest_parse j (manifest_json j m) = Some m) \<and>
     (\<forall>m d. manifest_content j (m\<lparr>mf_digest := d\<rparr>) = manifest_content j m) \<and>
     (\<forall>p. pointer_parse j (pointer_json j p) = Some p) \<and>
     (\<forall>c. checkpoint_parse j (checkpoint_json j c) = Some c) \<and>
     (\<forall>d. descriptor_parse j (descriptor_json j d) = Some d) \<and>
     (\<forall>m. manifest_json j m \<noteq> []) \<and> (\<forall>d. descriptor_json j d \<noteq> [])"

definition is_sha256 :: "bytes \<Rightarrow> bool" where
  "is_sha256 v \<longleftrightarrow> length v = 64 \<and> list_all is_ascii_hexdigit v"

definition descriptor_validate :: "segment_descriptor \<Rightarrow> unit kv_result" where
  "descriptor_validate d =
     (if \<not> is_sha256 (sd_id d) \<or> \<not> is_sha256 (sd_checksum d)
      then Err (InvalidManifest ''segment identity and checksum must be content-addressed SHA-256 values'')
      else if sd_first_key d > sd_last_key d
      then Err (InvalidManifest ''segment has an inverted key range'')
      else if sd_minimum_sequence d = 0 \<or> sd_minimum_sequence d > sd_maximum_sequence d
      then Err (InvalidManifest ''segment has an invalid sequence range'')
      else if sd_entries d = 0 \<or> sd_bytes d = 0
      then Err (InvalidManifest ''segment must contain entries and bytes'')
      else Ok ())"

text \<open>The loop of \<open>validate_components\<close> over the segments, with the set of identities seen.\<close>

definition validate_segment :: "u64 \<Rightarrow> segment_descriptor \<Rightarrow> bytes list \<Rightarrow> bytes list kv_result" where
  "validate_segment durable d identities =
     rbind (descriptor_validate d) (\<lambda>_.
     if sd_id d \<in> set identities then Err (InvalidManifest ''segment appears more than once'')
     else if sd_maximum_sequence d > durable
     then Err (InvalidManifest ''segment extends beyond the durable sequence'')
     else Ok (bs_insert (sd_id d) identities))"

definition validate_components :: "manifest \<Rightarrow> unit kv_result" where
  "validate_components m =
     (if mf_generation m = 0 then Err (InvalidManifest ''manifest generation must be greater than zero'')
      else if mf_wal_start_sequence m > saturating_add (mf_durable_sequence m) 1
      then Err (InvalidManifest ''WAL start cannot skip beyond the durable sequence'')
      else if mf_generation m = 1 \<and> mf_parent m \<noteq> None
      then Err (InvalidManifest ''the first manifest cannot name a parent'')
      else if mf_generation m > 1 \<and> (case mf_parent m of None \<Rightarrow> True | Some p \<Rightarrow> p = [])
      then Err (InvalidManifest ''later manifests require a parent digest'')
      else if (case mf_parent m of None \<Rightarrow> False | Some p \<Rightarrow> \<not> is_sha256 p)
      then Err (InvalidManifest ''manifest parent must be a SHA-256 digest'')
      else rbind (try_fold (validate_segment (mf_durable_sequence m)) (mf_segments m) []) (\<lambda>_. Ok ()))"

text \<open>\<open>sort_by\<close> on level, first key and identity; the sort is stable.\<close>

definition descriptor_rank :: "segment_descriptor \<Rightarrow> u8 \<times> bytes \<times> bytes" where
  "descriptor_rank d = (sd_level d, sd_first_key d, sd_id d)"

definition manifest_new :: "json \<Rightarrow> u64 \<Rightarrow> bytes option \<Rightarrow> u64 \<Rightarrow> u64 \<Rightarrow> u64 \<Rightarrow> segment_descriptor list \<Rightarrow> manifest kv_result" where
  "manifest_new j generation parent created_at durable_sequence wal_start_sequence segments =
     (let m = \<lparr>mf_format_version = MANIFEST_FORMAT_VERSION, mf_generation = generation, mf_parent = parent,
                mf_created_at = created_at, mf_durable_sequence = durable_sequence,
                mf_wal_start_sequence = wal_start_sequence, mf_segments = sort_key descriptor_rank segments,
                mf_digest = []\<rparr> in
      rbind (validate_components m) (\<lambda>_.
      Ok (m\<lparr>mf_digest := sha256_hex (manifest_content j m)\<rparr>)))"

definition manifest_validate :: "json \<Rightarrow> manifest \<Rightarrow> unit kv_result" where
  "manifest_validate j m =
     (if mf_format_version m \<noteq> MANIFEST_FORMAT_VERSION
      then Err (UnsupportedVersion ''manifest'' (mf_format_version m))
      else rbind (validate_components m) (\<lambda>_.
      if mf_digest m \<noteq> sha256_hex (manifest_content j m)
      then Err (InvalidManifest ''manifest digest does not match its fields'')
      else Ok ()))"

definition pointer_checksum :: "current_pointer \<Rightarrow> bytes" where
  "pointer_checksum p =
     sha256_hex (ascii ''vyrm-current-v1'' @ [0] @ u16_to_be_bytes (cp_format_version p) @ u64_to_be_bytes (cp_generation p)
       @ cp_manifest p)"

definition pointer_new :: "manifest \<Rightarrow> current_pointer" where
  "pointer_new m =
     (let p = \<lparr>cp_format_version = MANIFEST_FORMAT_VERSION, cp_generation = mf_generation m,
                cp_manifest = mf_digest m, cp_checksum = []\<rparr>
      in p\<lparr>cp_checksum := pointer_checksum p\<rparr>)"

definition pointer_validate :: "current_pointer \<Rightarrow> unit kv_result" where
  "pointer_validate p =
     (if cp_format_version p \<noteq> MANIFEST_FORMAT_VERSION
      then Err (UnsupportedVersion ''CURRENT pointer'' (cp_format_version p))
      else if cp_generation p = 0 \<or> \<not> is_sha256 (cp_manifest p) \<or> \<not> is_sha256 (cp_checksum p)
      then Err (InvalidManifest ''invalid CURRENT pointer fields'')
      else if cp_checksum p \<noteq> pointer_checksum p
      then Err (InvalidManifest ''CURRENT pointer checksum mismatch'')
      else Ok ())"

definition checkpoint_name_byte :: "u8 \<Rightarrow> bool" where
  "checkpoint_name_byte b \<longleftrightarrow> (48 \<le> b \<and> b \<le> 57) \<or> (65 \<le> b \<and> b \<le> 90) \<or> (97 \<le> b \<and> b \<le> 122) \<or> b = 45 \<or> b = 95 \<or> b = 46"

definition validate_checkpoint_name :: "bytes \<Rightarrow> unit kv_result" where
  "validate_checkpoint_name name =
     (if name = [] \<or> length name > 128 \<or> \<not> list_all checkpoint_name_byte name
      then Err (InvalidManifest ''invalid checkpoint name'') else Ok ())"

definition expected_checksum :: "checkpoint \<Rightarrow> bytes" where
  "expected_checksum c =
     sha256_hex (ascii ''vyrm-checkpoint-v1'' @ [0] @ u16_to_be_bytes (ck_format_version c) @ ck_name c @ [0]
       @ ck_manifest c @ u64_to_be_bytes (ck_generation c) @ u64_to_be_bytes (ck_created_at c))"

definition checkpoint_new :: "bytes \<Rightarrow> manifest \<Rightarrow> u64 \<Rightarrow> checkpoint kv_result" where
  "checkpoint_new name m created_at =
     rbind (validate_checkpoint_name name) (\<lambda>_.
     let c = \<lparr>ck_format_version = MANIFEST_FORMAT_VERSION, ck_name = name, ck_manifest = mf_digest m,
               ck_generation = mf_generation m, ck_created_at = created_at, ck_checksum = []\<rparr>
     in Ok (c\<lparr>ck_checksum := expected_checksum c\<rparr>))"

definition checkpoint_validate :: "checkpoint \<Rightarrow> unit kv_result" where
  "checkpoint_validate c =
     (if ck_format_version c \<noteq> MANIFEST_FORMAT_VERSION
      then Err (UnsupportedVersion ''checkpoint'' (ck_format_version c))
      else rbind (validate_checkpoint_name (ck_name c)) (\<lambda>_.
      if \<not> is_sha256 (ck_manifest c) \<or> \<not> is_sha256 (ck_checksum c) \<or> ck_generation c = 0
         \<or> ck_checksum c \<noteq> expected_checksum c
      then Err (InvalidManifest ''invalid checkpoint identity or checksum'')
      else Ok ()))"

text \<open>The files under the root directory: \<open>CURRENT\<close>, \<open>manifests\<close> and \<open>checkpoints\<close>.\<close>

record manifest_store =
  ms_current :: "bytes option"
  ms_manifests :: "(bytes, bytes) btree"
  ms_checkpoints :: "(bytes, bytes) btree"

definition json_error :: kv_error where
  "json_error = InvalidManifest ''JSON''"

definition store_load :: "json \<Rightarrow> manifest_store \<Rightarrow> bytes \<Rightarrow> manifest kv_result" where
  "store_load j st digest =
     (if \<not> is_sha256 digest then Err (InvalidManifest ''manifest lookup requires a SHA-256 identity'')
      else rbind (ok_or (bt_get (ms_manifests st) digest) (Io NotFound)) (\<lambda>bs.
      rbind (ok_or (manifest_parse j bs) json_error) (\<lambda>m.
      rbind (manifest_validate j m) (\<lambda>_.
      if mf_digest m \<noteq> digest
      then Err (InvalidManifest ''manifest filename differs from its content identity'')
      else Ok m))))"

definition store_current :: "json \<Rightarrow> manifest_store \<Rightarrow> (current_pointer \<times> manifest) option kv_result" where
  "store_current j st =
     (case ms_current st of
        None \<Rightarrow> Ok None
      | Some bs \<Rightarrow>
          rbind (ok_or (pointer_parse j bs) json_error) (\<lambda>p.
          rbind (pointer_validate p) (\<lambda>_.
          rbind (store_load j st (cp_manifest p)) (\<lambda>m.
          if mf_generation m \<noteq> cp_generation p
          then Err (InvalidManifest ''CURRENT generation differs from its manifest'')
          else Ok (Some (p, m))))))"

text \<open>\<open>persist_rename\<close> of one file, as the update of the directory it is renamed into.\<close>

definition persist_rename :: "publish_outcome \<Rightarrow> ('d \<Rightarrow> 'd) \<Rightarrow> 'd \<Rightarrow> unit kv_result \<times> 'd" where
  "persist_rename io place dir =
     (case io of
        Published \<Rightarrow> (Ok (), place dir)
      | Failed_Before_Rename \<Rightarrow> (Err (Io StorageFault), dir)
      | Failed_After_Rename \<Rightarrow> (Err (Io StorageFault), place dir))"

definition persist_manifest :: "json \<Rightarrow> publish_outcome \<Rightarrow> manifest \<Rightarrow> manifest_store \<Rightarrow> unit kv_result \<times> manifest_store" where
  "persist_manifest j io m st =
     (case bt_get (ms_manifests st) (mf_digest m) of
        Some existing \<Rightarrow>
          (if existing \<noteq> manifest_json j m
           then (Err (InvalidManifest ''existing manifest identity has different bytes''), st)
           else (Ok (), st))
      | None \<Rightarrow>
          persist_rename io (\<lambda>st. st\<lparr>ms_manifests := bt_insert (mf_digest m) (manifest_json j m) (ms_manifests st)\<rparr>) st)"

definition publish_pointer :: "json \<Rightarrow> publish_outcome \<Rightarrow> current_pointer \<Rightarrow> manifest_store \<Rightarrow> unit kv_result \<times> manifest_store" where
  "publish_pointer j io p st = persist_rename io (\<lambda>st. st\<lparr>ms_current := Some (pointer_json j p)\<rparr>) st"

text \<open>Whether the manifest extends what \<open>CURRENT\<close> names. The generation wraps as in a release
  build; the wrapped value 0 is never that of a valid manifest.\<close>

definition extends_current :: "manifest \<Rightarrow> (current_pointer \<times> manifest) option \<Rightarrow> bool" where
  "extends_current m current =
     (case current of
        None \<Rightarrow> mf_generation m = 1 \<and> mf_parent m = None
      | Some (p, _) \<Rightarrow> mf_generation m = cp_generation p + 1 \<and> mf_parent m = Some (cp_manifest p))"

definition store_publish :: "json \<Rightarrow> publish_outcome \<times> publish_outcome \<Rightarrow> manifest \<Rightarrow> bytes option \<Rightarrow> manifest_store
    \<Rightarrow> current_pointer kv_result \<times> manifest_store" where
  "store_publish j io m expected st =
     (case rbind (manifest_validate j m) (\<lambda>_. store_current j st) of
        Inl e \<Rightarrow> (Err e, st)
      | Inr current \<Rightarrow>
          (let actual = map_option (\<lambda>(p, _). cp_manifest p) current in
           if actual \<noteq> expected then (Err (ManifestConflict expected actual), st)
           else if \<not> extends_current m current
           then (Err (InvalidManifest ''manifest generation/parent does not extend CURRENT''), st)
           else case persist_manifest j (fst io) m st of
             (Inl e, st) \<Rightarrow> (Err e, st)
           | (Inr _, st) \<Rightarrow>
               (let p = pointer_new m in
                case publish_pointer j (snd io) p st of
                  (Inl e, st) \<Rightarrow> (Err e, st)
                | (Inr _, st) \<Rightarrow> (Ok p, st))))"

definition store_checkpoint :: "json \<Rightarrow> publish_outcome \<Rightarrow> bytes \<Rightarrow> bytes \<Rightarrow> u64 \<Rightarrow> manifest_store \<Rightarrow> checkpoint kv_result \<times> manifest_store" where
  "store_checkpoint j io name digest created_at st =
     (case rbind (store_load j st digest) (\<lambda>m. checkpoint_new name m created_at) of
        Inl e \<Rightarrow> (Err e, st)
      | Inr c \<Rightarrow>
          (case bt_get (ms_checkpoints st) name of
             Some bs \<Rightarrow>
               (rbind (ok_or (checkpoint_parse j bs) json_error) (\<lambda>existing.
                rbind (checkpoint_validate existing) (\<lambda>_.
                if existing = c then Ok existing
                else Err (InvalidManifest ''checkpoint already pins another manifest or instant''))), st)
           | None \<Rightarrow>
               (case persist_rename io
                       (\<lambda>st. st\<lparr>ms_checkpoints := bt_insert name (checkpoint_json j c) (ms_checkpoints st)\<rparr>) st of
                  (Inl e, st) \<Rightarrow> (Err e, st)
                | (Inr _, st) \<Rightarrow> (Ok c, st))))"

definition read_checkpoint :: "json \<Rightarrow> manifest_store \<Rightarrow> bytes \<Rightarrow> checkpoint kv_result" where
  "read_checkpoint j st bs =
     rbind (ok_or (checkpoint_parse j bs) json_error) (\<lambda>c.
     rbind (checkpoint_validate c) (\<lambda>_.
     rbind (store_load j st (ck_manifest c)) (\<lambda>m.
     if mf_generation m \<noteq> ck_generation c
     then Err (InvalidManifest ''checkpoint generation differs from its manifest'')
     else Ok c)))"

text \<open>The listing of the checkpoint directory is taken in name order; the result is sorted by name.\<close>

definition store_checkpoints :: "json \<Rightarrow> manifest_store \<Rightarrow> checkpoint list kv_result" where
  "store_checkpoints j st =
     rbind (try_map (\<lambda>(_, bs). read_checkpoint j st bs) (ms_checkpoints st)) (\<lambda>cs. Ok (sort_key ck_name cs))"

definition release_checkpoint :: "bytes \<Rightarrow> manifest_store \<Rightarrow> bool kv_result \<times> manifest_store" where
  "release_checkpoint name st =
     (case validate_checkpoint_name name of
        Inl e \<Rightarrow> (Err e, st)
      | Inr _ \<Rightarrow>
          (case bt_get (ms_checkpoints st) name of
             Some _ \<Rightarrow> (Ok True, st\<lparr>ms_checkpoints := bt_remove name (ms_checkpoints st)\<rparr>)
           | None \<Rightarrow> (Ok False, st)))"

section \<open>Valid manifests\<close>

definition descriptor_ok :: "u64 \<Rightarrow> segment_descriptor \<Rightarrow> bool" where
  "descriptor_ok durable d \<longleftrightarrow> is_sha256 (sd_id d) \<and> is_sha256 (sd_checksum d) \<and> sd_first_key d \<le> sd_last_key d \<and>
     sd_minimum_sequence d \<noteq> 0 \<and> sd_minimum_sequence d \<le> sd_maximum_sequence d \<and> sd_entries d \<noteq> 0 \<and> sd_bytes d \<noteq> 0 \<and>
     sd_maximum_sequence d \<le> durable"

definition parent_ok :: "u64 \<Rightarrow> bytes option \<Rightarrow> bool" where
  "parent_ok generation parent = (case parent of None \<Rightarrow> generation = 1 | Some p \<Rightarrow> generation > 1 \<and> is_sha256 p)"

definition segments_ok :: "u64 \<Rightarrow> segment_descriptor list \<Rightarrow> bool" where
  "segments_ok durable ds \<longleftrightarrow> distinct (map sd_id ds) \<and> (\<forall>d \<in> set ds. descriptor_ok durable d)"

definition components_ok :: "manifest \<Rightarrow> bool" where
  "components_ok m \<longleftrightarrow> mf_generation m \<noteq> 0 \<and>
     mf_wal_start_sequence m \<le> saturating_add (mf_durable_sequence m) 1 \<and>
     parent_ok (mf_generation m) (mf_parent m) \<and> segments_ok (mf_durable_sequence m) (mf_segments m)"

lemma set_bs_insert: "set (bs_insert k xs) = insert k (set xs)"
  unfolding bs_insert_def by (simp add: set_bt_insert_keys image_image)

lemma validate_segment_ok:
  "validate_segment durable d ids = Ok ids' \<longleftrightarrow>
     descriptor_ok durable d \<and> sd_id d \<notin> set ids \<and> ids' = bs_insert (sd_id d) ids"
  by (auto simp: validate_segment_def descriptor_validate_def descriptor_ok_def res_simps)

lemma validate_segments_ok:
  "(\<exists>ids'. try_fold (validate_segment durable) ds ids = Ok ids') \<longleftrightarrow>
     segments_ok durable ds \<and> set (map sd_id ds) \<inter> set ids = {}"
proof (induction ds arbitrary: ids)
  case (Cons d ds)
  show ?case
    using Cons.IH [of "bs_insert (sd_id d) ids"]
    by (auto simp: res_simps validate_segment_ok segments_ok_def set_bs_insert)
qed (simp add: segments_ok_def)

lemma u64_not_one: "(g :: u64) \<noteq> 0 \<Longrightarrow> g \<noteq> 1 \<longleftrightarrow> 1 < g"
  using u64_one_le [of g] by (auto simp: less_le)

lemma validate_components_ok: "validate_components m = Ok () \<longleftrightarrow> components_ok m"
proof -
  have "validate_components m = Ok () \<longleftrightarrow> mf_generation m \<noteq> 0 \<and>
     mf_wal_start_sequence m \<le> saturating_add (mf_durable_sequence m) 1 \<and> parent_ok (mf_generation m) (mf_parent m) \<and>
     (\<exists>ids'. try_fold (validate_segment (mf_durable_sequence m)) (mf_segments m) [] = Ok ids')"
    using u64_not_one [of "mf_generation m"]
    by (auto simp: validate_components_def parent_ok_def res_simps not_less is_sha256_def split: option.splits)
  then show ?thesis by (simp add: validate_segments_ok components_ok_def)
qed

lemma is_sha256_hex [simp]: "is_sha256 (sha256_hex bs)"
  using sha256_hex_lower [of _ bs] by (auto simp: is_sha256_def list_all_iff is_ascii_hexdigit_def is_lower_hex_def)

lemma manifest_validate_ok:
  "manifest_validate j m = Ok () \<longleftrightarrow> mf_format_version m = MANIFEST_FORMAT_VERSION \<and> components_ok m \<and>
     mf_digest m = sha256_hex (manifest_content j m)"
  by (auto simp: manifest_validate_def res_simps validate_components_ok [symmetric])

lemma components_ok_digest [simp]: "components_ok (m\<lparr>mf_digest := d\<rparr>) = components_ok m"
  by (simp add: components_ok_def)

lemma segments_ok_sort [simp]: "segments_ok durable (sort_key f ds) = segments_ok durable ds"
proof -
  have "distinct (map sd_id (sort_key f ds)) = distinct (map sd_id ds)"
    by (rule mset_eq_imp_distinct_iff) simp
  then show ?thesis by (simp add: segments_ok_def)
qed

lemma manifest_new_ok:
  assumes "json_laws j"
  shows "manifest_new j g parent at durable start ds = Ok m \<longleftrightarrow>
    g \<noteq> 0 \<and> start \<le> saturating_add durable 1 \<and> parent_ok g parent \<and> segments_ok durable ds \<and>
    mf_generation m = g \<and> mf_parent m = parent \<and> mf_created_at m = at \<and> mf_durable_sequence m = durable \<and>
    mf_wal_start_sequence m = start \<and> mf_segments m = sort_key descriptor_rank ds \<and> manifest_validate j m = Ok ()"
    (is "?l \<longleftrightarrow> ?r")
proof -
  let ?m = "\<lparr>mf_format_version = MANIFEST_FORMAT_VERSION, mf_generation = g, mf_parent = parent, mf_created_at = at,
    mf_durable_sequence = durable, mf_wal_start_sequence = start, mf_segments = sort_key descriptor_rank ds, mf_digest = []\<rparr>"
  have content: "manifest_content j (?m\<lparr>mf_digest := d\<rparr>) = manifest_content j ?m" for d
    using assms unfolding json_laws_def by blast
  have "?l \<longleftrightarrow> components_ok ?m \<and> m = ?m\<lparr>mf_digest := sha256_hex (manifest_content j ?m)\<rparr>"
    by (auto simp: manifest_new_def Let_def res_simps validate_components_ok [symmetric])
  also have "\<dots> \<longleftrightarrow> ?r"
  proof
    assume "components_ok ?m \<and> m = ?m\<lparr>mf_digest := sha256_hex (manifest_content j ?m)\<rparr>"
    then show ?r
      using content [of "sha256_hex (manifest_content j ?m)"]
      by (auto simp: manifest_validate_ok components_ok_def)
  next
    assume r: ?r
    then have m: "m = ?m\<lparr>mf_digest := mf_digest m\<rparr>" by (cases m) (simp add: manifest_validate_ok)
    then have "mf_digest m = sha256_hex (manifest_content j ?m)"
      using r content [of "mf_digest m", folded m] by (simp add: manifest_validate_ok)
    with r m show "components_ok ?m \<and> m = ?m\<lparr>mf_digest := sha256_hex (manifest_content j ?m)\<rparr>"
      by (simp add: components_ok_def)
  qed
  finally show ?thesis .
qed

section \<open>The store\<close>

lemma store_load_ok:
  "store_load j st d = Ok m \<longleftrightarrow> is_sha256 d \<and> (\<exists>bs. bt_get (ms_manifests st) d = Some bs \<and> manifest_parse j bs = Some m) \<and>
     manifest_validate j m = Ok () \<and> mf_digest m = d"
  by (auto simp: store_load_def res_simps)

lemma pointer_new_ok:
  assumes "manifest_validate j m = Ok ()"
  shows "pointer_validate (pointer_new m) = Ok ()" and "cp_manifest (pointer_new m) = mf_digest m"
    and "cp_generation (pointer_new m) = mf_generation m"
  using assms
  by (auto simp: pointer_new_def pointer_validate_def pointer_checksum_def Let_def manifest_validate_ok components_ok_def)

lemma store_current_ok:
  "store_current j st = Ok (Some (p, m)) \<longleftrightarrow> (\<exists>bs. ms_current st = Some bs \<and> pointer_parse j bs = Some p) \<and>
     pointer_validate p = Ok () \<and> store_load j st (cp_manifest p) = Ok m \<and> mf_generation m = cp_generation p"
  by (auto simp: store_current_def res_simps split: option.splits)

text \<open>Growing the manifest directory by an absent file changes nothing that could be read.\<close>

lemma store_load_mono:
  assumes "store_load j st d = Ok m" and "bt_get (ms_manifests st) \<subseteq>\<^sub>m bt_get (ms_manifests st')"
  shows "store_load j st' d = Ok m"
proof -
  obtain bs where "bt_get (ms_manifests st) d = Some bs" "manifest_parse j bs = Some m"
    using assms(1) by (auto simp: store_load_ok)
  moreover from this(1) have "bt_get (ms_manifests st') d = Some bs"
    using assms(2) by (metis domI map_le_def)
  ultimately show ?thesis using assms(1) by (auto simp: store_load_ok)
qed

lemma store_current_mono:
  assumes "store_current j st = Ok cur" and "bt_get (ms_manifests st) \<subseteq>\<^sub>m bt_get (ms_manifests st')" and "ms_current st' = ms_current st"
  shows "store_current j st' = Ok cur"
proof (cases cur)
  case None
  with assms show ?thesis by (auto simp: store_current_def res_simps split: option.splits if_splits)
next
  case (Some pm)
  obtain p m where pm: "cur = Some (p, m)" using Some by (cases pm) auto
  show ?thesis
    using assms(1) store_load_mono [OF _ assms(2)] by (auto simp: pm store_current_ok assms(3))
qed

lemma persist_manifest_cases:
  assumes "persist_manifest j io m st = (res, st')"
  shows "ms_current st' = ms_current st" and "ms_checkpoints st' = ms_checkpoints st"
    and "bt_get (ms_manifests st) \<subseteq>\<^sub>m bt_get (ms_manifests st')"
    and "res = Ok () \<Longrightarrow> bt_get (ms_manifests st') (mf_digest m) = Some (manifest_json j m)"
  using assms
  by (auto simp: persist_manifest_def persist_rename_def map_le_def bt_get_insert
      split: option.splits publish_outcome.splits if_splits)

lemma publish_pointer_current:
  assumes "json_laws j" and "manifest_validate j m = Ok ()" and "bt_get (ms_manifests st) (mf_digest m) = Some (manifest_json j m)"
  shows "store_current j (st\<lparr>ms_current := Some (pointer_json j (pointer_new m))\<rparr>) = Ok (Some (pointer_new m, m))"
proof -
  have parse: "pointer_parse j (pointer_json j (pointer_new m)) = Some (pointer_new m)" "manifest_parse j (manifest_json j m) = Some m"
    using assms(1) by (simp_all add: json_laws_def)
  have "is_sha256 (mf_digest m)" using assms(2) by (simp add: manifest_validate_ok)
  then show ?thesis
    using assms(2,3) parse pointer_new_ok [OF assms(2)]
    by (simp add: store_current_ok store_load_ok)
qed

text \<open>The three ways a publication ends.\<close>

lemma store_publish_cases:
  assumes "json_laws j" and "store_publish j io m expected st = (res, st')"
  obtains (refused) e where "res = Err e" "store_current j st' = store_current j st"
      "bt_get (ms_manifests st) \<subseteq>\<^sub>m bt_get (ms_manifests st')" "ms_checkpoints st' = ms_checkpoints st"
  | (uncertain) e where "res = Err e" "snd io = Failed_After_Rename" "store_current j st' = Ok (Some (pointer_new m, m))"
      "bt_get (ms_manifests st) \<subseteq>\<^sub>m bt_get (ms_manifests st')" "ms_checkpoints st' = ms_checkpoints st"
  | (published) cur where "res = Ok (pointer_new m)" "store_current j st' = Ok (Some (pointer_new m, m))"
      "store_current j st = Ok cur" "map_option (\<lambda>(p, _). cp_manifest p) cur = expected" "extends_current m cur"
      "manifest_validate j m = Ok ()" "snd io = Published"
      "bt_get (ms_manifests st) \<subseteq>\<^sub>m bt_get (ms_manifests st')" "ms_checkpoints st' = ms_checkpoints st"
proof (cases "rbind (manifest_validate j m) (\<lambda>_. store_current j st)")
  case (Inl e)
  then show thesis using assms(2) by (intro refused [of e]) (simp_all add: store_publish_def)
next
  case (Inr cur)
  then have valid: "manifest_validate j m = Ok ()" and cur: "store_current j st = Ok cur"
    by (auto simp: res_simps)
  show thesis
  proof (cases "map_option (\<lambda>(p, _). cp_manifest p) cur = expected \<and> extends_current m cur")
    case False
    then obtain e where "res = Err e" "st' = st"
      using assms(2) Inr by (auto simp: store_publish_def Let_def split: if_splits)
    then show thesis by (intro refused [of e]) simp_all
  next
    case True
    obtain res1 st1 where p1: "persist_manifest j (fst io) m st = (res1, st1)" by fastforce
    note facts = persist_manifest_cases [OF p1]
    have cur1: "store_current j st1 = Ok cur" by (rule store_current_mono [OF cur facts(3,1)])
    show thesis
    proof (cases res1)
      case (Inl e)
      then have "res = Err e" "st' = st1"
        using assms(2) Inr True p1 by (simp_all add: store_publish_def)
      then show thesis using facts cur cur1 by (intro refused [of e]) simp_all
    next
      case (Inr u)
      then have "res1 = Ok ()" by simp
      note current = publish_pointer_current [OF assms(1) valid facts(4) [OF this]]
      let ?st2 = "st1\<lparr>ms_current := Some (pointer_json j (pointer_new m))\<rparr>"
      have out: "(res, st') = (case snd io of Published \<Rightarrow> (Ok (pointer_new m), ?st2)
          | Failed_Before_Rename \<Rightarrow> (Err (Io StorageFault), st1) | Failed_After_Rename \<Rightarrow> (Err (Io StorageFault), ?st2))"
        using assms(2) \<open>rbind _ _ = Inr cur\<close> True p1 Inr
        by (simp add: store_publish_def publish_pointer_def persist_rename_def Let_def split: publish_outcome.splits)
      show thesis
      proof (cases "snd io")
        case Published
        with out show thesis using facts current cur True valid by (intro published [of cur]) simp_all
      next
        case Failed_Before_Rename
        with out show thesis using facts cur cur1 by (intro refused [of "Io StorageFault"]) simp_all
      next
        case Failed_After_Rename
        with out show thesis using facts current by (intro uncertain [of "Io StorageFault"]) simp_all
      qed
    qed
  qed
qed

section \<open>An encoding for the witnesses\<close>

text \<open>A structure becomes the list of its fields as byte strings, a byte string the sequence of its bytes
  each behind a mark, closed by a zero.\<close>

definition enc_strings :: "bytes list \<Rightarrow> bytes" where
  "enc_strings ss = concat (map (\<lambda>s. concat (map (\<lambda>b. [1, b]) s) @ [0]) ss)"

fun dec_strings :: "bytes \<Rightarrow> bytes \<Rightarrow> bytes list option" where
  "dec_strings cur [] = Some []"
| "dec_strings cur (x # r) =
     (if x = 0 then map_option ((#) cur) (dec_strings [] r)
      else case r of [] \<Rightarrow> None | b # r' \<Rightarrow> dec_strings (cur @ [b]) r')"

lemma dec_enc_string: "dec_strings cur (concat (map (\<lambda>b. [1, b]) s) @ 0 # r) = map_option ((#) (cur @ s)) (dec_strings [] r)"
  by (induction s arbitrary: cur) simp_all

lemma dec_enc_strings: "dec_strings [] (enc_strings ss) = Some ss"
  by (induction ss) (simp_all add: enc_strings_def dec_enc_string)

definition descriptor_fields :: "segment_descriptor \<Rightarrow> bytes list" where
  "descriptor_fields d = [sd_id d, [sd_level d], sd_first_key d, sd_last_key d, u64_to_be_bytes (sd_minimum_sequence d),
     u64_to_be_bytes (sd_maximum_sequence d), u64_to_be_bytes (sd_entries d), u64_to_be_bytes (sd_bytes d), sd_checksum d]"

fun descriptors_of_fields :: "bytes list \<Rightarrow> segment_descriptor list" where
  "descriptors_of_fields (i # l # f # g # mn # mx # n # b # c # fs) =
     \<lparr>sd_id = i, sd_level = hd l, sd_first_key = f, sd_last_key = g, sd_minimum_sequence = u64_from_be_bytes mn,
      sd_maximum_sequence = u64_from_be_bytes mx, sd_entries = u64_from_be_bytes n, sd_bytes = u64_from_be_bytes b,
      sd_checksum = c\<rparr> # descriptors_of_fields fs"
| "descriptors_of_fields _ = []"

definition content_fields :: "manifest \<Rightarrow> bytes list" where
  "content_fields m = [u16_to_be_bytes (mf_format_version m), u64_to_be_bytes (mf_generation m),
     (case mf_parent m of None \<Rightarrow> [] | Some p \<Rightarrow> 1 # p), u64_to_be_bytes (mf_created_at m),
     u64_to_be_bytes (mf_durable_sequence m), u64_to_be_bytes (mf_wal_start_sequence m)]
     @ concat (map descriptor_fields (mf_segments m))"

definition example_json :: json where
  "example_json = \<lparr>
     manifest_json = (\<lambda>m. enc_strings (mf_digest m # content_fields m)),
     manifest_parse = (\<lambda>bs. case dec_strings [] bs of
       Some (d # v # g # p # c # dur # w # fs) \<Rightarrow> Some \<lparr>mf_format_version = u16_from_be_bytes v,
         mf_generation = u64_from_be_bytes g, mf_parent = (case p of [] \<Rightarrow> None | _ # p \<Rightarrow> Some p),
         mf_created_at = u64_from_be_bytes c, mf_durable_sequence = u64_from_be_bytes dur,
         mf_wal_start_sequence = u64_from_be_bytes w, mf_segments = descriptors_of_fields fs, mf_digest = d\<rparr>
     | _ \<Rightarrow> None),
     manifest_content = (\<lambda>m. enc_strings (content_fields m)),
     pointer_json = (\<lambda>p. enc_strings [u16_to_be_bytes (cp_format_version p), u64_to_be_bytes (cp_generation p),
       cp_manifest p, cp_checksum p]),
     pointer_parse = (\<lambda>bs. case dec_strings [] bs of
       Some [v, g, m, c] \<Rightarrow> Some \<lparr>cp_format_version = u16_from_be_bytes v, cp_generation = u64_from_be_bytes g,
         cp_manifest = m, cp_checksum = c\<rparr>
     | _ \<Rightarrow> None),
     checkpoint_json = (\<lambda>c. enc_strings [u16_to_be_bytes (ck_format_version c), ck_name c, ck_manifest c,
       u64_to_be_bytes (ck_generation c), u64_to_be_bytes (ck_created_at c), ck_checksum c]),
     checkpoint_parse = (\<lambda>bs. case dec_strings [] bs of
       Some [v, n, m, g, t, c] \<Rightarrow> Some \<lparr>ck_format_version = u16_from_be_bytes v, ck_name = n, ck_manifest = m,
         ck_generation = u64_from_be_bytes g, ck_created_at = u64_from_be_bytes t, ck_checksum = c\<rparr>
     | _ \<Rightarrow> None),
     descriptor_json = (\<lambda>d. enc_strings (descriptor_fields d)),
     descriptor_parse = (\<lambda>bs. case dec_strings [] bs of
       Some fs \<Rightarrow> (case descriptors_of_fields fs of [d] \<Rightarrow> Some d | _ \<Rightarrow> None)
     | None \<Rightarrow> None)\<rparr>"

lemma descriptors_of_fields_of: "descriptors_of_fields (concat (map descriptor_fields ds)) = ds"
  by (induction ds) (simp_all add: descriptor_fields_def from_to_be_bytes)

lemma descriptors_of_one: "descriptors_of_fields (descriptor_fields d) = [d]"
  using descriptors_of_fields_of [of "[d]"] by simp

lemma enc_strings_nonempty: "ss \<noteq> [] \<Longrightarrow> enc_strings ss \<noteq> []"
  by (cases ss) (simp_all add: enc_strings_def)

lemma example_json_laws: "json_laws example_json"
proof -
  have "enc_strings (descriptor_fields d) \<noteq> []" for d
    by (rule enc_strings_nonempty) (simp add: descriptor_fields_def)
  then show ?thesis
    unfolding json_laws_def example_json_def
    by (auto simp: dec_enc_strings content_fields_def from_to_be_bytes descriptors_of_fields_of descriptors_of_one
        enc_strings_nonempty split: option.split)
qed

section \<open>Properties\<close>

text \<open>C11. Publication is an atomic compare-and-swap. Publishing succeeds exactly when the manifest is
  valid, \<open>CURRENT\<close> reads as the expected digest, the manifest extends it (next generation, its digest as
  parent), no other bytes sit under its digest and the two renames go through; then \<open>CURRENT\<close> reads
  back as this very manifest. A failed call leaves \<open>CURRENT\<close> as it was, except that a failure of
  the directory sync behind the final rename may leave the new manifest published. No outcome makes a
  manifest unreadable that was readable before.\<close>

theorem publish_compare_and_swap:
  assumes "json_laws j" and "store_publish j io m expected st = (res, st')"
  shows "(case res of
      Inr p \<Rightarrow> store_current j st' = Ok (Some (p, m))
    | Inl _ \<Rightarrow> store_current j st' = store_current j st \<or>
        snd io = Failed_After_Rename \<and> store_current j st' = Ok (Some (pointer_new m, m))) \<and>
    (res = Ok (pointer_new m) \<longleftrightarrow> manifest_validate j m = Ok () \<and>
      (\<exists>cur. store_current j st = Ok cur \<and> map_option (\<lambda>(p, _). cp_manifest p) cur = expected \<and> extends_current m cur) \<and>
      (case bt_get (ms_manifests st) (mf_digest m) of None \<Rightarrow> fst io = Published | Some bs \<Rightarrow> bs = manifest_json j m) \<and>
      snd io = Published) \<and>
    (\<forall>d m'. store_load j st d = Ok m' \<longrightarrow> store_load j st' d = Ok m')"
proof (intro conjI)
  show "case res of
      Inr p \<Rightarrow> store_current j st' = Ok (Some (p, m))
    | Inl _ \<Rightarrow> store_current j st' = store_current j st \<or>
        snd io = Failed_After_Rename \<and> store_current j st' = Ok (Some (pointer_new m, m))"
    using assms by (cases rule: store_publish_cases) simp_all
  show "\<forall>d m'. store_load j st d = Ok m' \<longrightarrow> store_load j st' d = Ok m'"
    using assms by (cases rule: store_publish_cases) (blast intro: store_load_mono)+
  show "res = Ok (pointer_new m) \<longleftrightarrow> manifest_validate j m = Ok () \<and>
      (\<exists>cur. store_current j st = Ok cur \<and> map_option (\<lambda>(p, _). cp_manifest p) cur = expected \<and> extends_current m cur) \<and>
      (case bt_get (ms_manifests st) (mf_digest m) of None \<Rightarrow> fst io = Published | Some bs \<Rightarrow> bs = manifest_json j m) \<and>
      snd io = Published"
    using assms(2)
    by (auto simp: store_publish_def publish_pointer_def persist_manifest_def persist_rename_def Let_def res_simps
        split: sum.splits prod.splits if_splits option.splits publish_outcome.splits)
qed

definition first_manifest :: manifest where
  "first_manifest = (let m = \<lparr>mf_format_version = 1, mf_generation = 1, mf_parent = None, mf_created_at = 0,
     mf_durable_sequence = 0, mf_wal_start_sequence = 1, mf_segments = [], mf_digest = []\<rparr>
   in m\<lparr>mf_digest := sha256_hex (manifest_content example_json m)\<rparr>)"

lemma first_manifest_new: "manifest_new example_json 1 None 0 0 1 [] = Ok first_manifest"
proof -
  have "saturating_add (0 :: u64) 1 = 1" by (simp add: saturating_add_def)
  then show ?thesis
    by (simp add: manifest_new_def first_manifest_def Let_def validate_components_def MANIFEST_FORMAT_VERSION_def)
qed

lemma first_manifest_valid: "manifest_validate example_json first_manifest = Ok ()"
  using first_manifest_new manifest_new_ok [OF example_json_laws] by blast

definition empty_store :: manifest_store where
  "empty_store = \<lparr>ms_current = None, ms_manifests = [], ms_checkpoints = []\<rparr>"

theorem publish_compare_and_swap_witness:
  "\<exists>st'. store_publish example_json (Published, Published) first_manifest None empty_store = (Ok (pointer_new first_manifest), st') \<and>
    store_current example_json st' = Ok (Some (pointer_new first_manifest, first_manifest))"
proof -
  obtain res st' where p: "store_publish example_json (Published, Published) first_manifest None empty_store = (res, st')"
    by fastforce
  have "res = Ok (pointer_new first_manifest)"
    using publish_compare_and_swap [OF example_json_laws p] first_manifest_valid
    by (simp add: empty_store_def store_current_def extends_current_def first_manifest_def Let_def)
  with publish_compare_and_swap [OF example_json_laws p] p show ?thesis by auto
qed

text \<open>Building a manifest. \<open>Manifest::new\<close> succeeds exactly when the generation is positive, the log
  does not start beyond the successor of the durable sequence, the parent is absent for the first
  generation and a digest for every later one, and the segments have distinct identities, well-formed
  descriptors and no sequence beyond the durable one; the result passes validation and lists the same
  segments ordered by level, first key and identity.\<close>

lemma manifest_new_contract:
  assumes "json_laws j"
  shows "((\<exists>m. manifest_new j g parent at durable start ds = Ok m) \<longleftrightarrow>
      g \<noteq> 0 \<and> start \<le> saturating_add durable 1 \<and> parent_ok g parent \<and> segments_ok durable ds) \<and>
    (\<forall>m. manifest_new j g parent at durable start ds = Ok m \<longrightarrow> manifest_validate j m = Ok () \<and>
      mset (mf_segments m) = mset ds \<and> sorted (map descriptor_rank (mf_segments m)) \<and>
      mf_generation m = g \<and> mf_parent m = parent \<and> mf_durable_sequence m = durable \<and> mf_wal_start_sequence m = start)"
proof -
  let ?m = "\<lparr>mf_format_version = MANIFEST_FORMAT_VERSION, mf_generation = g, mf_parent = parent, mf_created_at = at,
    mf_durable_sequence = durable, mf_wal_start_sequence = start, mf_segments = sort_key descriptor_rank ds, mf_digest = []\<rparr>"
  have "\<exists>m. manifest_new j g parent at durable start ds = Ok m"
    if "g \<noteq> 0" "start \<le> saturating_add durable 1" "parent_ok g parent" "segments_ok durable ds"
  proof -
    have "validate_components ?m = Ok ()" using that by (simp add: validate_components_ok components_ok_def)
    then show ?thesis by (simp add: manifest_new_def)
  qed
  then show ?thesis using manifest_new_ok [OF assms] by auto
qed

text \<open>A checkpoint pins its manifest. After a successful checkpoint the pinned manifest loads, asking
  again for the same name, manifest and instant succeeds without a change, asking for another instant
  is refused without a change, and no publication, whatever its outcome, makes the checkpoint or its
  manifest unreadable.\<close>

lemma checkpoint_pins_manifest:
  assumes "json_laws j" and "store_checkpoint j io name digest at st = (Ok c, st')"
  shows "ck_manifest c = digest \<and> ck_name c = name \<and> (\<exists>m. store_load j st' digest = Ok m \<and> mf_generation m = ck_generation c) \<and>
    store_checkpoint j io' name digest at st' = (Ok c, st') \<and>
    (at' \<noteq> at \<longrightarrow> store_checkpoint j io' name digest at' st' =
       (Err (InvalidManifest ''checkpoint already pins another manifest or instant''), st')) \<and>
    (\<exists>bs. bt_get (ms_checkpoints st') name = Some bs \<and>
       (\<forall>io2 m2 expected. read_checkpoint j (snd (store_publish j io2 m2 expected st')) bs = Ok c))"
proof -
  obtain m where m: "store_load j st digest = Ok m" "checkpoint_new name m at = Ok c"
    using assms(2)
    by (auto simp: store_checkpoint_def persist_rename_def res_simps
        split: sum.splits option.splits publish_outcome.splits if_splits)
  then have valid: "manifest_validate j m = Ok ()" "mf_digest m = digest" "is_sha256 digest"
    and name: "validate_checkpoint_name name = Ok ()"
    and fields: "ck_manifest c = digest" "ck_name c = name" "ck_generation c = mf_generation m" "ck_created_at c = at"
    by (auto simp: store_load_ok checkpoint_new_def Let_def res_simps)
  have okc: "checkpoint_validate c = Ok ()"
    using m(2) valid name
    by (auto simp: checkpoint_new_def checkpoint_validate_def expected_checksum_def Let_def res_simps manifest_validate_ok components_ok_def)
  have parse: "checkpoint_parse j (checkpoint_json j c) = Some c" using assms(1) by (simp add: json_laws_def)
  have same: "ms_manifests st' = ms_manifests st" and
    "\<exists>bs. bt_get (ms_checkpoints st') name = Some bs \<and> checkpoint_parse j bs = Some c"
    using assms(2) m parse
    by (auto simp: store_checkpoint_def persist_rename_def res_simps bt_get_insert
        split: option.splits publish_outcome.splits if_splits)
  then obtain bs where bs: "bt_get (ms_checkpoints st') name = Some bs" "checkpoint_parse j bs = Some c" by blast
  have load: "store_load j st' digest = Ok m" using m(1) same by (simp add: store_load_ok)
  have again: "store_checkpoint j io' name digest t st' =
      (if t = at then Ok c else Err (InvalidManifest ''checkpoint already pins another manifest or instant''), st')" for t
  proof -
    obtain c' where c': "checkpoint_new name m t = Ok c'" "ck_created_at c' = t" "t = at \<longrightarrow> c' = c"
      using m(2) name by (auto simp: checkpoint_new_def Let_def)
    then show ?thesis using load bs okc fields(4) by (auto simp: store_checkpoint_def)
  qed
  have "read_checkpoint j (snd (store_publish j io2 m2 expected st')) bs = Ok c" for io2 m2 expected
  proof -
    obtain res st2 where p: "store_publish j io2 m2 expected st' = (res, st2)" by fastforce
    have "bt_get (ms_manifests st') \<subseteq>\<^sub>m bt_get (ms_manifests st2)"
      using assms(1) p by (cases rule: store_publish_cases) simp_all
    from store_load_mono [OF load this] show ?thesis
      using bs(2) okc fields by (simp add: read_checkpoint_def p)
  qed
  then show ?thesis using again [of at] again [of at'] fields load bs(1) by auto
qed

end
