(* ===== verification/Segment_Wf.thy ===== *)
theory Segment_Wf
  imports Segment_Format
begin

text \<open>
  What the segment readers accept and what the writer produces. A segment that opens represents a
  sorted, non-empty list of entries (\<open>segment_rep\<close>), whatever bytes it came from; the file the
  writer produces from a memtable opens to the memtable's entries.
\<close>

section \<open>Canonical order\<close>

definition follows :: "(bytes \<times> u64) option \<Rightarrow> entry \<Rightarrow> bool" where
  "follows previous e = (case previous of None \<Rightarrow> True
     | Some (key, seq) \<Rightarrow> key < fst e \<or> (key = fst e \<and> seq < vv_sequence (snd e)))"

fun ordered_from :: "(bytes \<times> u64) option \<Rightarrow> entry list \<Rightarrow> bool" where
  "ordered_from previous [] = True"
| "ordered_from previous (e # es) = (follows previous e \<and> ordered_from (Some (fst e, vv_sequence (snd e))) es)"

definition last_position :: "(bytes \<times> u64) option \<Rightarrow> entry list \<Rightarrow> (bytes \<times> u64) option" where
  "last_position previous es = (if es = [] then previous else Some (fst (last es), vv_sequence (snd (last es))))"

lemma validate_order_ok:
  "validate_order previous r = Ok p \<longleftrightarrow> follows previous (record_entry r) \<and> p = Some (rec_key r, rec_sequence r)"
  by (auto simp: validate_order_def follows_def record_entry_def not_less not_le split: option.splits)

lemma ordered_from_append:
  "ordered_from previous (xs @ ys) \<longleftrightarrow> ordered_from previous xs \<and> ordered_from (last_position previous xs) ys"
  by (induction xs arbitrary: previous) (auto simp: last_position_def)

lemma ordered_from_follows:
  assumes "ordered_from (Some p) es" and "e \<in> set es"
  shows "follows (Some p) e"
  using assms
proof (induction es arbitrary: p)
  case (Cons x es)
  then have x: "follows (Some p) x" "ordered_from (Some (fst x, vv_sequence (snd x))) es" by simp_all
  show ?case
  proof (cases "e = x")
    case False
    then have "follows (Some (fst x, vv_sequence (snd x))) e"
      using Cons x(2) by auto
    with x(1) show ?thesis
      by (cases p) (auto simp: follows_def)
  qed (use x in simp)
qed simp

lemma ordered_from_sorted: "ordered_from previous es \<Longrightarrow> entries_sorted es"
proof (induction es arbitrary: previous)
  case (Cons e es)
  then have "follows (Some (fst e, vv_sequence (snd e))) b" if "b \<in> set es" for b
    using ordered_from_follows [of "(fst e, vv_sequence (snd e))" es b] that by simp
  with Cons show ?case by (force simp: entries_sorted_Cons follows_def)
qed (simp add: entries_sorted_def)

lemma sorted_ordered_from:
  "entries_sorted es \<Longrightarrow> (es \<noteq> [] \<Longrightarrow> follows previous (hd es)) \<Longrightarrow> ordered_from previous es"
proof (induction es arbitrary: previous)
  case (Cons e es)
  show ?case
    using Cons.prems Cons.IH [of "Some (fst e, vv_sequence (snd e))"]
    by (cases es) (auto simp: entries_sorted_Cons follows_def)
qed simp

section \<open>Records of one block\<close>

definition scan_entry :: "entry \<Rightarrow> block_scan \<Rightarrow> block_scan" where
  "scan_entry e st = st\<lparr>bs_previous := Some (fst e, vv_sequence (snd e)),
     bs_first_key := (case bs_first_key st of None \<Rightarrow> Some (fst e) | Some k \<Rightarrow> Some k),
     bs_last_key := Some (fst e), bs_block_last := Some (fst e), bs_block_entries := bs_block_entries st + 1\<rparr>"

lemma scan_entry_record:
  "st\<lparr>bs_previous := Some (rec_key r, rec_sequence r),
      bs_first_key := (case bs_first_key st of None \<Rightarrow> Some (rec_key r) | Some k \<Rightarrow> Some k),
      bs_last_key := Some (rec_key r), bs_block_last := Some (rec_key r),
      bs_block_entries := bs_block_entries st + 1\<rparr> = scan_entry (record_entry r) st"
  by (cases "bs_first_key st") (simp_all add: scan_entry_def record_entry_def)

lemma scan_entries_fields:
  "bs_previous (fold scan_entry es st) = last_position (bs_previous st) es"
  "bs_first_key (fold scan_entry es st) =
     (case bs_first_key st of None \<Rightarrow> (if es = [] then None else Some (fst (hd es))) | Some k \<Rightarrow> Some k)"
  "bs_last_key (fold scan_entry es st) = (if es = [] then bs_last_key st else Some (fst (last es)))"
  "bs_block_last (fold scan_entry es st) = (if es = [] then bs_block_last st else Some (fst (last es)))"
  "bs_block_entries (fold scan_entry es st) = bs_block_entries st + word_of_nat (length es)"
  by (induction es arbitrary: st) (auto simp: scan_entry_def last_position_def algebra_simps split: option.splits)

lemma validate_block_records_sound:
  assumes "validate_block_records mn mx records cursor st = Ok st'" and "cursor \<le> length records"
  shows "\<exists>es. drop cursor records = enc_all record_bytes es \<and> (\<forall>e \<in> set es. entry_in mn mx e) \<and>
    ordered_from (bs_previous st) es \<and> st' = fold scan_entry es st"
  using assms
proof (induction "length records - cursor" arbitrary: cursor st rule: less_induct)
  case less
  show ?case
  proof (cases "cursor < length records")
    case False
    with less.prems show ?thesis
      by (subst (asm) validate_block_records.simps) (intro exI [of _ "[]"], simp)
  next
    case True
    then obtain r where r: "parse_record records cursor (length records) mn mx = Ok r"
      and o: "follows (bs_previous st) (record_entry r)"
      and rest: "validate_block_records mn mx records (rec_next r) (scan_entry (record_entry r) st) = Ok st'"
      using less.prems(1) unfolding validate_block_records.simps [of mn mx records cursor st]
      by (auto simp: res_simps validate_order_ok scan_entry_record)
    note adv = parse_record_advances [OF r] and sound = parse_record_sound [OF r]
    have less_dist: "length records - rec_next r < length records - cursor"
      using adv True by linarith
    obtain es where es: "drop (rec_next r) records = enc_all record_bytes es" "\<forall>e \<in> set es. entry_in mn mx e"
      "ordered_from (bs_previous (scan_entry (record_entry r) st)) es" "st' = fold scan_entry es (scan_entry (record_entry r) st)"
      using less.hyps [OF less_dist rest] adv by auto
    have "drop cursor records = subslice cursor (rec_next r) records @ drop (rec_next r) records"
      using adv by (simp add: subslice_def) (metis append_take_drop_id drop_drop le_add_diff_inverse2 less_imp_le)
    with es o sound show ?thesis
      by (intro exI [of _ "record_entry r # es"]) (auto simp: scan_entry_def)
  qed
qed

lemma validate_block_records_complete:
  assumes "\<forall>e \<in> set es. entry_in mn mx e" and "length (enc_all record_bytes es) < 2 ^ 64"
    and "i \<le> length es" and "ordered_from (bs_previous st) (drop i es)"
  shows "validate_block_records mn mx (enc_all record_bytes es) (enc_offset record_bytes es i) st
    = Ok (fold scan_entry (drop i es) st)"
  using assms(3,4)
proof (induction "length es - i" arbitrary: i st)
  case 0
  then have "i = length es" by simp
  then show ?case by (subst validate_block_records.simps) simp
next
  case (Suc n)
  then have i: "i < length es" by simp
  have e: "drop i es = es ! i # drop (Suc i) es"
    using i by (simp add: Cons_nth_drop_Suc)
  let ?r = "entry_record (es ! i) (enc_offset record_bytes es (Suc i))"
  have "validate_order (bs_previous st) ?r = Ok (Some (fst (es ! i), vv_sequence (snd (es ! i))))"
    using Suc.prems(2) unfolding e by (simp add: validate_order_ok)
  moreover have "validate_block_records mn mx (enc_all record_bytes es) (enc_offset record_bytes es (Suc i))
      (scan_entry (es ! i) st) = Ok (fold scan_entry (drop (Suc i) es) (scan_entry (es ! i) st))"
    using Suc.hyps(1) [of "Suc i"] Suc.hyps(2) Suc.prems(2) i unfolding e by (simp add: scan_entry_def)
  ultimately show ?case
    using parse_record_nth [OF assms(1) i assms(2)] enc_offset_less [OF i]
      scan_entry_record [of st ?r]
    by (subst validate_block_records.simps) (simp add: e)
qed

section \<open>Blocks of a file\<close>

definition block_holds :: "codec \<Rightarrow> block_source \<Rightarrow> block_descriptor \<Rightarrow> entry list \<Rightarrow> bool" where
  "block_holds c src block es \<longleftrightarrow> read_and_decode_block c src block = Ok (enc_all record_bytes es) \<and>
     es \<noteq> [] \<and> block_entries_ok es \<and> bd_last_key block = fst (last es)"

lemma decode_compressed_block_length:
  "decode_compressed_block c compressed block = Ok records \<Longrightarrow> length records \<le> MAX_DECODED_BLOCK_BYTES"
  by (auto simp: decode_compressed_block_def res_simps Let_def split: if_splits)

lemma validate_v3_block_sound:
  assumes "validate_v3_block c bs mn mx block (scan, n, b) = Ok (scan', n', b')" and "mn \<noteq> 0"
  shows "\<exists>es. block_holds c (File_Source bs) block es \<and> (\<forall>e \<in> set es. entry_in mn mx e) \<and>
    ordered_from (bs_previous scan) es \<and> bs_previous scan' = last_position (bs_previous scan) es \<and>
    bs_first_key scan' = (case bs_first_key scan of None \<Rightarrow> Some (fst (hd es)) | Some k \<Rightarrow> Some k) \<and>
    bs_last_key scan' = Some (fst (last es)) \<and> unat n' = unat n + length es"
proof -
  obtain compressed records where
    comp: "read_exact_at bs (bd_offset block) (bd_physical_bytes block) = Ok compressed"
    and recs: "decode_compressed_block c compressed block = Ok records"
    and scan': "validate_block_records mn mx records 0 (scan\<lparr>bs_block_entries := 0, bs_block_last := None\<rparr>) = Ok scan'"
    and last: "bs_block_last scan' = Some (bd_last_key block)"
    and n': "checked_add n (bs_block_entries scan') = Some n'"
    using assms(1) by (auto simp: validate_v3_block_def res_simps split: if_splits)
  obtain es where es: "records = enc_all record_bytes es" "\<forall>e \<in> set es. entry_in mn mx e"
    "ordered_from (bs_previous scan) es"
    "scan' = fold scan_entry es (scan\<lparr>bs_block_entries := 0, bs_block_last := None\<rparr>)"
    using validate_block_records_sound [OF scan'] by auto
  have ne: "es \<noteq> []" "bd_last_key block = fst (last es)"
    using last by (auto simp: es(4) scan_entries_fields split: if_splits)
  have len: "length (enc_all record_bytes es) \<le> MAX_DECODED_BLOCK_BYTES"
    using decode_compressed_block_length [OF recs] by (simp add: es(1))
  have "length es \<le> length (enc_all record_bytes es)"
    by (induction es) (simp_all add: length_record_bytes)
  then have "length es < 2 ^ 64"
    using len by (simp add: record_constants)
  then have "unat (bs_block_entries scan') = length es"
    by (simp add: es(4) scan_entries_fields)
  then have "unat n' = unat n + length es"
    using n' by (simp add: checked_add_eq_Some)
  moreover have "block_holds c (File_Source bs) block es"
    using comp recs ne len es(2) entry_in_widen [OF _ assms(2)]
    by (auto simp: block_holds_def es(1) block_entries_ok_def record_constants)
  ultimately show ?thesis
    using es ne by (intro exI [of _ es]) (simp add: scan_entries_fields)
qed

lemma validate_v3_blocks_fold_sound:
  assumes "try_fold (validate_v3_block c bs mn mx) blocks (scan, n, b) = Ok (scan', n', b')" and "mn \<noteq> 0"
  shows "\<exists>bss es. es = concat bss \<and> list_all2 (block_holds c (File_Source bs)) blocks bss \<and>
    (\<forall>e \<in> set es. entry_in mn mx e) \<and> ordered_from (bs_previous scan) es \<and>
    bs_first_key scan' = (case bs_first_key scan of
       None \<Rightarrow> (if es = [] then None else Some (fst (hd es))) | Some k \<Rightarrow> Some k) \<and>
    bs_last_key scan' = (if es = [] then bs_last_key scan else Some (fst (last es))) \<and>
    unat n' = unat n + length es"
  using assms(1)
proof (induction blocks arbitrary: scan n b)
  case Nil
  then show ?case by (intro exI [of _ "[]"]) (auto split: option.splits)
next
  case (Cons block blocks)
  then obtain scan1 n1 b1 where one: "validate_v3_block c bs mn mx block (scan, n, b) = Ok (scan1, n1, b1)"
    and rest: "try_fold (validate_v3_block c bs mn mx) blocks (scan1, n1, b1) = Ok (scan', n', b')"
    by (auto simp: res_simps)
  obtain es where es: "block_holds c (File_Source bs) block es" "\<forall>e \<in> set es. entry_in mn mx e"
    "ordered_from (bs_previous scan) es" "bs_previous scan1 = last_position (bs_previous scan) es"
    "bs_first_key scan1 = (case bs_first_key scan of None \<Rightarrow> Some (fst (hd es)) | Some k \<Rightarrow> Some k)"
    "bs_last_key scan1 = Some (fst (last es))" "unat n1 = unat n + length es"
    using validate_v3_block_sound [OF one assms(2)] by blast
  obtain bss rs where bss: "rs = concat bss" "list_all2 (block_holds c (File_Source bs)) blocks bss"
    "\<forall>e \<in> set rs. entry_in mn mx e" "ordered_from (bs_previous scan1) rs"
    "bs_first_key scan' = (case bs_first_key scan1 of
       None \<Rightarrow> (if rs = [] then None else Some (fst (hd rs))) | Some k \<Rightarrow> Some k)"
    "bs_last_key scan' = (if rs = [] then bs_last_key scan1 else Some (fst (last rs)))"
    "unat n' = unat n1 + length rs"
    using Cons.IH [OF rest] by blast
  have ne: "es \<noteq> []" using es(1) by (simp add: block_holds_def)
  show ?case
  proof (intro exI [of _ "es # bss"] exI [of _ "es @ rs"] conjI)
    show "bs_first_key scan' = (case bs_first_key scan of
       None \<Rightarrow> (if es @ rs = [] then None else Some (fst (hd (es @ rs)))) | Some k \<Rightarrow> Some k)"
      using bss(5) es(5) ne by (auto split: option.splits)
    show "bs_last_key scan' = (if es @ rs = [] then bs_last_key scan else Some (fst (last (es @ rs))))"
      using bss(6) es(6) ne by simp
  qed (use es bss in \<open>auto simp: ordered_from_append\<close>)
qed

section \<open>Segments\<close>

definition sparse_ok :: "sparse_entry list \<Rightarrow> entry list \<Rightarrow> bool" where
  "sparse_ok sparse es \<longleftrightarrow> sorted (map se_key sparse) \<and>
     (if es = [] then sparse = [] else sparse \<noteq> [] \<and> se_key (hd sparse) = fst (hd es)) \<and>
     (\<forall>s \<in> set sparse. \<exists>i < length es. se_offset s = enc_offset record_bytes es i \<and> se_key s = fst (es ! i) \<and>
        (\<forall>j < i. fst (es ! j) < fst (es ! i)))"

definition storage_rep :: "codec \<Rightarrow> segment_storage \<Rightarrow> entry list \<Rightarrow> bool" where
  "storage_rep c storage es = (case storage of
     Legacy records sparse \<Rightarrow> records = enc_all record_bytes es \<and> length records < 2 ^ 64 \<and>
       (\<forall>e \<in> set es. entry_in 1 u64_max e) \<and> sparse_ok sparse es
   | Blocked src blocks _ \<Rightarrow> \<exists>bss. es = concat bss \<and> list_all2 (block_holds c src) blocks bss)"

definition descriptor_rep :: "segment_descriptor \<Rightarrow> entry list \<Rightarrow> bool" where
  "descriptor_rep d es \<longleftrightarrow> es \<noteq> [] \<and> entries_sorted es \<and>
     sd_first_key d = fst (hd es) \<and> sd_last_key d = fst (last es) \<and> unat (sd_entries d) = length es \<and>
     sd_minimum_sequence d \<noteq> 0 \<and>
     (\<forall>e \<in> set es. entry_in (sd_minimum_sequence d) (sd_maximum_sequence d) e)"

definition segment_rep :: "codec \<Rightarrow> segment \<Rightarrow> entry list \<Rightarrow> bool" where
  "segment_rep c seg es \<longleftrightarrow> descriptor_rep (seg_descriptor seg) es \<and> storage_rep c (seg_storage seg) es"

lemma validate_v3_blocks_sound:
  assumes "validate_v3_blocks c bs d blocks declared = Ok (d', blocks')"
    and "sd_minimum_sequence d \<noteq> 0" and "sd_entries d \<noteq> 0"
  shows "blocks' = blocks" and "\<exists>bss. list_all2 (block_holds c (File_Source bs)) blocks bss \<and> descriptor_rep d' (concat bss)"
    and "\<exists>k k'. d' = d\<lparr>sd_first_key := k, sd_last_key := k'\<rparr>"
proof -
  let ?scan = "\<lparr>bs_previous = None, bs_first_key = None, bs_last_key = None, bs_block_entries = 0, bs_block_last = None\<rparr>"
  let ?fold = "try_fold (validate_v3_block c bs (sd_minimum_sequence d) (sd_maximum_sequence d)) blocks (?scan, 0, 0)"
  obtain x where "?fold = Ok x"
    using assms(1) by (cases ?fold) (simp_all add: validate_v3_blocks_def)
  then obtain scan n b where fold: "?fold = Ok (scan, n, b)"
    by (cases x) auto
  have n: "n = sd_entries d" and b': "blocks' = blocks"
    and d': "d' = d\<lparr>sd_first_key := the (bs_first_key scan), sd_last_key := the (bs_last_key scan)\<rparr>"
    using assms(1) by (simp_all add: validate_v3_blocks_def fold split: if_splits)
  obtain bss es where bss: "es = concat bss" "list_all2 (block_holds c (File_Source bs)) blocks bss"
    "\<forall>e \<in> set es. entry_in (sd_minimum_sequence d) (sd_maximum_sequence d) e" "ordered_from None es"
    "bs_first_key scan = (if es = [] then None else Some (fst (hd es)))"
    "bs_last_key scan = (if es = [] then None else Some (fst (last es)))"
    "unat n = length es"
    using validate_v3_blocks_fold_sound [OF fold assms(2)] by auto
  have "es \<noteq> []"
    using bss(7) n assms(3) by (auto simp: unsigned_eq_0_iff)
  then have "descriptor_rep d' es"
    using bss n assms(2) ordered_from_sorted [OF bss(4)] by (simp add: descriptor_rep_def d' del: concat_eq_Nil_conv)
  with bss(1,2) b' d' show "blocks' = blocks"
    "\<exists>bss. list_all2 (block_holds c (File_Source bs)) blocks bss \<and> descriptor_rep d' (concat bss)"
    "\<exists>k k'. d' = d\<lparr>sd_first_key := k, sd_last_key := k'\<rparr>"
    by blast+
qed

lemma read_v3_metadata_sound:
  assumes "read_v3_metadata c bs n actual = Ok (d, blocks)"
  shows "\<exists>bss. list_all2 (block_holds c (File_Source bs)) blocks bss \<and> descriptor_rep d (concat bss)"
    and "sd_id d = actual" "sd_checksum d = actual" "sd_level d = 0" "sd_bytes d = word_of_nat n"
proof -
  obtain d0 blocks0 declared where v: "validate_v3_blocks c bs d0 blocks0 declared = Ok (d, blocks)"
    and d0: "sd_minimum_sequence d0 \<noteq> 0" "sd_entries d0 \<noteq> 0" "sd_id d0 = actual" "sd_checksum d0 = actual"
      "sd_level d0 = 0" "sd_bytes d0 = word_of_nat n"
    using assms by (force simp: read_v3_metadata_def res_simps Let_def split: if_splits)
  note s = validate_v3_blocks_sound [OF v d0(1,2)]
  from s(1,2) show "\<exists>bss. list_all2 (block_holds c (File_Source bs)) blocks bss \<and> descriptor_rep d (concat bss)"
    by simp
  from s(3) d0 show "sd_id d = actual" "sd_checksum d = actual" "sd_level d = 0" "sd_bytes d = word_of_nat n"
    by auto
qed

section \<open>Legacy segments\<close>

definition legacy_inv :: "bytes \<Rightarrow> u64 \<Rightarrow> u64 \<Rightarrow> entry list \<Rightarrow> legacy_scan \<Rightarrow> bool" where
  "legacy_inv records mn mx es st \<longleftrightarrow>
     ls_cursor st \<le> length records \<and> take (ls_cursor st) records = enc_all record_bytes es \<and>
     (es \<noteq> [] \<longrightarrow> ls_cursor st < 2 ^ 64) \<and> (\<forall>e \<in> set es. entry_in mn mx e) \<and>
     ordered_from None es \<and> ls_previous st = last_position None es \<and>
     ls_first_key st = (if es = [] then None else Some (fst (hd es))) \<and>
     ls_last_key st = (if es = [] then None else Some (fst (last es))) \<and> sparse_ok (ls_sparse_index st) es \<and>
     (es = [] \<longrightarrow> SPARSE_INDEX_STRIDE \<le> ls_keys_since_index st)"

lemma enc_offset_append_left: "i \<le> length xs \<Longrightarrow> enc_offset enc (xs @ ys) i = enc_offset enc xs i"
  by (simp add: enc_offset_def)

lemma sparse_ok_append:
  assumes "sparse_ok sparse es" and "es \<noteq> []"
  shows "sparse_ok sparse (es @ es')"
proof -
  have "\<exists>i < length (es @ es'). se_offset s = enc_offset record_bytes (es @ es') i \<and> se_key s = fst ((es @ es') ! i) \<and>
      (\<forall>j < i. fst ((es @ es') ! j) < fst ((es @ es') ! i))" if s: "s \<in> set sparse" for s
  proof -
    obtain i where "i < length es" "se_offset s = enc_offset record_bytes es i" "se_key s = fst (es ! i)"
      "\<forall>j < i. fst (es ! j) < fst (es ! i)"
      using assms s unfolding sparse_ok_def by blast
    then show ?thesis
      by (intro exI [of _ i]) (auto simp: enc_offset_append_left nth_append)
  qed
  with assms show ?thesis by (auto simp: sparse_ok_def)
qed

lemma sparse_ok_snoc:
  assumes "sparse_ok sparse es" and "\<forall>e' \<in> set es. fst e' < fst e"
  shows "sparse_ok (sparse @ [\<lparr>se_offset = length (enc_all record_bytes es), se_key = fst e\<rparr>]) (es @ [e])"
proof -
  have "\<forall>s \<in> set sparse. se_key s \<le> fst e"
  proof
    fix s assume "s \<in> set sparse"
    then obtain i where "i < length es" "se_key s = fst (es ! i)"
      using assms(1) unfolding sparse_ok_def by blast
    with assms(2) show "se_key s \<le> fst e" by (simp add: less_imp_le)
  qed
  moreover have "enc_offset record_bytes (es @ [e]) (length es) = length (enc_all record_bytes es)"
    by (simp add: enc_offset_append_left)
  moreover have "\<forall>j < length es. fst ((es @ [e]) ! j) < fst ((es @ [e]) ! length es)"
    using assms(2) by (simp add: nth_append)
  ultimately show ?thesis
    using sparse_ok_append [OF assms(1), of "[e]"] assms(1)
    by (cases "es = []") (auto simp: sparse_ok_def sorted_append intro!: exI [of _ "length es"])
qed

lemma ordered_from_last_less:
  assumes "ordered_from None (es @ [e])" and "es \<noteq> []" and "fst (last es) \<noteq> fst e" and "x \<in> set es"
  shows "fst x < fst e"
proof -
  have sorted: "entries_sorted (es @ [e])"
    using ordered_from_sorted [OF assms(1)] .
  have "follows (last_position None es) e"
    using assms(1) by (simp add: ordered_from_append)
  then have "fst (last es) < fst e"
    using assms(2,3) by (simp add: last_position_def follows_def)
  moreover have "fst x \<le> fst (last es)"
  proof (cases "x = last es")
    case False
    then have "x \<in> set (butlast es)"
      using assms(2,4) by (metis append_butlast_last_id in_set_conv_decomp rotate1.simps(2) set_ConsD set_rotate1)
    moreover have "entries_sorted (butlast es @ [last es])"
      using sorted assms(2) by (simp add: entries_sorted_append)
    ultimately show ?thesis by (auto simp: entries_sorted_append)
  qed simp
  ultimately show ?thesis by simp
qed

lemma validate_legacy_step_inv:
  assumes "legacy_inv records mn mx es st" and "validate_legacy_step records mn mx st = Ok st'"
  shows "\<exists>e. legacy_inv records mn mx (es @ [e]) st'"
proof -
  obtain r where r: "parse_record records (ls_cursor st) (length records) mn mx = Ok r"
    and o: "follows (last_position None es) (record_entry r)"
    using assms by (auto simp: validate_legacy_step_def res_simps legacy_inv_def validate_order_ok)
  let ?e = "record_entry r"
  have step: "ls_cursor st' = rec_next r" "ls_previous st' = Some (rec_key r, rec_sequence r)"
    "ls_first_key st' = (if es = [] then Some (rec_key r) else ls_first_key st)"
    "ls_last_key st' = Some (rec_key r)"
    "ls_sparse_index st' = ls_sparse_index st \<and> es \<noteq> [] \<or>
     ls_sparse_index st' = ls_sparse_index st @ [\<lparr>se_offset = ls_cursor st, se_key = rec_key r\<rparr>] \<and>
       (es = [] \<or> fst (last es) \<noteq> rec_key r)"
    using assms r
    by (auto simp: validate_legacy_step_def res_simps legacy_inv_def validate_order_ok last_position_def Let_def
        split: if_splits)
  have ordered: "ordered_from None (es @ [?e])"
    using assms(1) o by (simp add: ordered_from_append legacy_inv_def)
  note adv = parse_record_advances [OF r] and sound = parse_record_sound [OF r]
  have lt: "rec_next r < 2 ^ 64"
    using r by (auto simp: parse_record_def res_simps Let_def usize_checked_add_eq_Some bind_eq_Some_conv split: if_splits)
  have "take (rec_next r) records = take (ls_cursor st) records @ subslice (ls_cursor st) (rec_next r) records"
    using adv by (simp add: subslice_def flip: take_add)
  then have bytes: "take (rec_next r) records = enc_all record_bytes (es @ [?e])"
    using assms(1) sound by (simp add: legacy_inv_def)
  have cursor: "ls_cursor st = length (enc_all record_bytes es)"
  proof -
    have "ls_cursor st \<le> length records" "take (ls_cursor st) records = enc_all record_bytes es"
      using assms(1) by (simp_all add: legacy_inv_def)
    then show ?thesis by (metis length_take min.absorb2)
  qed
  have "sparse_ok (ls_sparse_index st') (es @ [?e])"
    using step(5)
  proof
    assume "ls_sparse_index st' = ls_sparse_index st \<and> es \<noteq> []"
    then show ?thesis using assms(1) by (simp add: legacy_inv_def sparse_ok_append)
  next
    assume new: "ls_sparse_index st' = ls_sparse_index st @ [\<lparr>se_offset = ls_cursor st, se_key = rec_key r\<rparr>] \<and>
       (es = [] \<or> fst (last es) \<noteq> rec_key r)"
    then have "\<forall>x \<in> set es. fst x < fst ?e"
      using ordered_from_last_less [OF ordered] by (cases "es = []") (auto simp: record_entry_def)
    from sparse_ok_snoc [OF _ this] show ?thesis
      using new assms(1) cursor by (simp add: legacy_inv_def record_entry_def)
  qed
  with assms(1) step(1-4) adv sound lt bytes ordered show ?thesis
    by (intro exI [of _ ?e]) (auto simp: legacy_inv_def last_position_def record_entry_def)
qed

lemma try_repeat_Suc_right: "try_repeat f (Suc n) s = rbind (try_repeat f n s) f"
proof (induction n arbitrary: s)
  case 0
  then show ?case by (cases "f s") simp_all
next
  case (Suc n)
  then show ?case by (cases "f s") simp_all
qed

lemma validate_legacy_loop_inv:
  assumes "try_repeat (validate_legacy_step records mn mx) n st = Ok st'" and "legacy_inv records mn mx [] st"
  shows "\<exists>es. length es = n \<and> legacy_inv records mn mx es st'"
  using assms(1)
proof (induction n arbitrary: st')
  case 0
  with assms(2) show ?case by simp
next
  case (Suc n)
  then obtain st1 where st1: "try_repeat (validate_legacy_step records mn mx) n st = Ok st1"
    "validate_legacy_step records mn mx st1 = Ok st'"
    by (auto simp: try_repeat_Suc_right res_simps simp del: try_repeat.simps)
  with Suc.IH obtain es where es: "length es = n" "legacy_inv records mn mx es st1" by blast
  obtain e where "legacy_inv records mn mx (es @ [e]) st'"
    using validate_legacy_step_inv [OF es(2) st1(2)] by blast
  with es(1) show ?case by (intro exI [of _ "es @ [e]"]) simp
qed

lemma validate_legacy_records_sound:
  assumes "validate_legacy_records records entries mn mx = Ok (first_key, last_key, sparse)"
    and "entries \<noteq> 0" and "mn \<noteq> 0"
  shows "\<exists>es. storage_rep c (Legacy records sparse) es \<and> length es = unat entries \<and> es \<noteq> [] \<and> entries_sorted es \<and>
    first_key = fst (hd es) \<and> last_key = fst (last es) \<and> (\<forall>e \<in> set es. entry_in mn mx e)"
proof -
  let ?st = "\<lparr>ls_cursor = 0, ls_previous = None, ls_sparse_index = [], ls_keys_since_index = SPARSE_INDEX_STRIDE,
    ls_first_key = None, ls_last_key = None\<rparr>"
  let ?loop = "try_repeat (validate_legacy_step records mn mx) (unat entries) ?st"
  obtain st where loop: "?loop = Ok st"
    using assms(1) by (cases ?loop) (simp_all add: validate_legacy_records_def)
  have st: "ls_cursor st = length records" "first_key = the (ls_first_key st)" "last_key = the (ls_last_key st)"
    "sparse = ls_sparse_index st"
    using assms(1) by (simp_all add: validate_legacy_records_def loop split: if_splits)
  have "legacy_inv records mn mx [] ?st"
    by (simp add: legacy_inv_def last_position_def sparse_ok_def)
  from validate_legacy_loop_inv [OF loop this] obtain es
    where len: "length es = unat entries" and inv: "legacy_inv records mn mx es st" by blast
  have ne: "es \<noteq> []"
    using len assms(2) by (auto simp: unsigned_eq_0_iff)
  have "storage_rep c (Legacy records sparse) es"
    using inv st(1,4) ne entry_in_widen [OF _ assms(3)] by (auto simp: storage_rep_def legacy_inv_def)
  with inv st len ne ordered_from_sorted show ?thesis
    by (intro exI [of _ es]) (auto simp: legacy_inv_def)
qed

lemma decode_legacy_sound:
  assumes "decode_legacy c bs = Ok seg"
  shows "\<exists>es. segment_rep c seg es" and "sd_level (seg_descriptor seg) = 0"
    and "check_footer bs = Ok (sd_id (seg_descriptor seg))"
proof -
  obtain records sparse first_key last_key entries mn mx actual where
    v: "validate_legacy_records records entries mn mx = Ok (first_key, last_key, sparse)"
    and nz: "entries \<noteq> 0" "mn \<noteq> 0" and footer: "check_footer bs = Ok actual"
    and seg: "seg = \<lparr>seg_descriptor = \<lparr>sd_id = actual, sd_level = 0, sd_first_key = first_key,
        sd_last_key = last_key, sd_minimum_sequence = mn, sd_maximum_sequence = mx, sd_entries = entries,
        sd_bytes = word_of_nat (length bs), sd_checksum = actual\<rparr>, seg_storage = Legacy records sparse\<rparr>"
    using assms by (force simp: decode_legacy_def Let_def res_simps split: if_splits)
  from validate_legacy_records_sound [OF v nz, of c] show "\<exists>es. segment_rep c seg es"
    by (auto simp: seg segment_rep_def descriptor_rep_def nz)
  show "sd_level (seg_descriptor seg) = 0" "check_footer bs = Ok (sd_id (seg_descriptor seg))"
    using footer by (simp_all add: seg)
qed

text \<open>A block served from memory is the block of the file, as long as the content fits the address space.\<close>

lemma block_holds_bytes:
  assumes "block_holds c (File_Source bs) block es" and "length bs < 2 ^ 64"
  shows "block_holds c (Bytes_Source bs) block es"
proof (cases "bd_physical_bytes block = 0")
  case True
  then have "decode_compressed_block c [] block \<noteq> Ok x" for x
    by (auto simp: decode_compressed_block_def res_simps get_range_eq_Some split: if_splits)
  with assms(1) True show ?thesis by (auto simp: block_holds_def read_exact_at_def)
next
  case False
  with assms show ?thesis
    by (auto simp: block_holds_def read_exact_at_def usize_checked_add_def get_range_def res_simps split: if_splits)
qed

lemma blocked_rep:
  assumes "read_v3_metadata c bs n actual = Ok (d, blocks)"
  shows "\<exists>es. segment_rep c (build_blocked_segment d (File_Source bs) blocks cache_id) es"
    and "length bs < 2 ^ 64 \<Longrightarrow> \<exists>es. segment_rep c (build_blocked_segment d (Bytes_Source bs) blocks cache_id) es"
proof -
  obtain bss where bss: "list_all2 (block_holds c (File_Source bs)) blocks bss" "descriptor_rep d (concat bss)"
    using read_v3_metadata_sound(1) [OF assms] by blast
  then show "\<exists>es. segment_rep c (build_blocked_segment d (File_Source bs) blocks cache_id) es"
    by (auto simp: segment_rep_def build_blocked_segment_def storage_rep_def)
  assume "length bs < 2 ^ 64"
  then have "list_all2 (block_holds c (Bytes_Source bs)) blocks bss"
    using bss(1) by (auto elim!: list_all2_mono intro: block_holds_bytes)
  with bss(2) show "\<exists>es. segment_rep c (build_blocked_segment d (Bytes_Source bs) blocks cache_id) es"
    by (auto simp: segment_rep_def build_blocked_segment_def storage_rep_def)
qed

lemma segment_open_rep:
  assumes "segment_open c cache_id bs = Ok seg"
  shows "\<exists>es. segment_rep c seg es"
proof (cases "u16_from_be_bytes (subslice 8 10 bs) = SEGMENT_FORMAT_VERSION \<and> subslice 0 8 bs = SEGMENT_V3_MAGIC")
  case True
  then obtain d blocks actual where "read_v3_metadata c bs (length bs) actual = Ok (d, blocks)"
    "seg = build_blocked_segment d (File_Source bs) blocks cache_id"
    using assms by (auto simp: segment_open_def decode_v3_file_def res_simps split: if_splits)
  then show ?thesis using blocked_rep(1) by blast
next
  case False
  then have "decode_legacy c bs = Ok seg"
    using assms by (auto simp: segment_open_def split: if_splits)
  then show ?thesis by (rule decode_legacy_sound)
qed

end
