(* ===== verification/Segment_Roundtrip.thy ===== *)
theory Segment_Roundtrip
  imports Segment_Wf
begin

text \<open>
  The version 3 writer against its reader (\<^verbatim>\<open>crates/vyrm-kv/src/segment.rs\<close>,
  \<open>encode_v3\<close> and \<open>read_v3_metadata\<close>): the file written for a memtable opens to the
  memtable's entries, unless its index outgrows what the reader accepts.
\<close>

section \<open>Digests in the index\<close>

lemma hex_table:
  assumes "n < 16"
  shows "decode_hex_nibble (ascii ''0123456789abcdef'' ! n) = Ok (word_of_nat n)"
proof -
  have "\<forall>n \<in> set [0..<16]. decode_hex_nibble (ascii ''0123456789abcdef'' ! n) = Ok (word_of_nat n)"
    by (simp add: upt_rec ascii_def decode_hex_nibble_def)
  with assms show ?thesis by simp
qed

lemma nibbles: "or (push_bit 4 (drop_bit 4 b)) (take_bit 4 b) = (b :: u8)"
  by (rule bit_eqI) (auto simp: bit_simps)

lemma nibble_less: "unat (drop_bit 4 (b :: u8)) < 16" "unat (take_bit 4 (b :: u8)) < 16"
proof -
  have "unat b < 256" using unat_less_exp [of b] by simp
  then show "unat (drop_bit 4 b) < 16"
    by (simp add: drop_bit_eq_div unat_div)
  show "unat (take_bit 4 b) < 16"
    by (simp add: take_bit_eq_mod unat_mod)
qed

lemma length_encode_sha256_hex [simp]: "length (encode_sha256_hex d) = 2 * length d"
  by (induction d) (simp_all add: encode_sha256_hex_def)

lemma decode_encode_hex: "decode_hex_pairs (encode_sha256_hex d) = Ok d"
proof (induction d)
  case (Cons b d)
  have "encode_sha256_hex (b # d) = ascii ''0123456789abcdef'' ! unat (drop_bit 4 b)
      # ascii ''0123456789abcdef'' ! unat (take_bit 4 b) # encode_sha256_hex d"
    by (simp add: encode_sha256_hex_def)
  then show ?case
    using Cons hex_table [OF nibble_less(1), of b] hex_table [OF nibble_less(2), of b] nibbles [of b] by simp
qed (simp add: encode_sha256_hex_def)

lemma decode_encode_sha256_hex: "length d = 32 \<Longrightarrow> decode_sha256_hex (encode_sha256_hex d) = Ok d"
  by (simp add: decode_sha256_hex_def decode_encode_hex)

section \<open>The index\<close>

definition index_fixed :: "block_descriptor \<Rightarrow> bytes" where
  "index_fixed b = take 104 (index_entry b)"

definition descriptor_ok :: "nat \<Rightarrow> block_descriptor \<Rightarrow> bool" where
  "descriptor_ok index_offset d \<longleftrightarrow> 4 \<le> bd_physical_bytes d \<and> bd_record_bytes d \<noteq> 0 \<and>
     bd_record_bytes d \<le> MAX_DECODED_BLOCK_BYTES \<and> bd_entries d \<noteq> 0 \<and> bd_last_key d \<noteq> [] \<and>
     length (bd_last_key d) \<le> SEG_MAX_KEY_BYTES \<and> length (bd_digest d) = 32 \<and>
     bd_offset d + bd_physical_bytes d \<le> index_offset \<and> index_offset < 2 ^ 64"

lemma index_entry_fields:
  assumes "length (bd_digest d) = 32"
  shows "length (index_fixed d) = 104" and "index_entry d = index_fixed d @ bd_last_key d"
    and "subslice 0 8 (index_fixed d) = u64_to_be_bytes (word_of_nat (bd_offset d))"
    and "subslice 8 16 (index_fixed d) = u64_to_be_bytes (word_of_nat (bd_physical_bytes d))"
    and "subslice 16 24 (index_fixed d) = u64_to_be_bytes (word_of_nat (bd_record_bytes d))"
    and "subslice 24 32 (index_fixed d) = u64_to_be_bytes (bd_entries d)"
    and "subslice 32 36 (index_fixed d) = u32_to_be_bytes (word_of_nat (length (bd_last_key d)))"
    and "subslice 36 40 (index_fixed d) = [0, 0, 0, 0]"
    and "subslice 40 104 (index_fixed d) = encode_sha256_hex (bd_digest d)"
proof -
  have zero: "u32_to_be_bytes 0 = [0, 0, 0, 0]"
    by (simp add: eval_bytes)
  have fixed: "index_fixed d = u64_to_be_bytes (word_of_nat (bd_offset d)) @ u64_to_be_bytes (word_of_nat (bd_physical_bytes d))
     @ u64_to_be_bytes (word_of_nat (bd_record_bytes d)) @ u64_to_be_bytes (bd_entries d)
     @ u32_to_be_bytes (word_of_nat (length (bd_last_key d))) @ [0, 0, 0, 0] @ encode_sha256_hex (bd_digest d)"
    using assms by (simp add: index_fixed_def index_entry_def zero)
  show "index_entry d = index_fixed d @ bd_last_key d"
    by (simp add: fixed) (simp add: index_entry_def zero)
  show "length (index_fixed d) = 104"
    and "subslice 0 8 (index_fixed d) = u64_to_be_bytes (word_of_nat (bd_offset d))"
    and "subslice 8 16 (index_fixed d) = u64_to_be_bytes (word_of_nat (bd_physical_bytes d))"
    and "subslice 16 24 (index_fixed d) = u64_to_be_bytes (word_of_nat (bd_record_bytes d))"
    and "subslice 24 32 (index_fixed d) = u64_to_be_bytes (bd_entries d)"
    and "subslice 32 36 (index_fixed d) = u32_to_be_bytes (word_of_nat (length (bd_last_key d)))"
    and "subslice 36 40 (index_fixed d) = [0, 0, 0, 0]"
    and "subslice 40 104 (index_fixed d) = encode_sha256_hex (bd_digest d)"
    using assms by (simp_all add: fixed subslice_def)
qed

lemma read_index_entry_ok:
  assumes "descriptor_ok index_offset d" and "case prior of None \<Rightarrow> True | Some k \<Rightarrow> k \<le> bd_last_key d"
    and "length pre + length (index_entry d) + length post < 2 ^ 64"
  shows "read_index_entry (pre @ index_entry d @ post) index_offset (acc, length pre, bd_offset d, prior)
    = Ok (acc @ [d], length pre + length (index_entry d), bd_offset d + bd_physical_bytes d, Some (bd_last_key d))"
proof -
  have digest: "length (bd_digest d) = 32" using assms(1) by (simp add: descriptor_ok_def)
  note f = index_entry_fields [OF digest]
  have ix: "pre @ index_entry d @ post = pre @ index_fixed d @ bd_last_key d @ post"
    by (simp add: f(2))
  have g1: "get_range (pre @ index_entry d @ post) (length pre) (length pre + 104) = Some (index_fixed d)"
    by (simp add: ix get_range_def subslice_def f(1))
  have g2: "get_range (pre @ index_entry d @ post) (length pre + 104) (length pre + 104 + length (bd_last_key d))
      = Some (bd_last_key d)"
    by (simp add: ix get_range_def subslice_def f(1))
  have lk: "unat (word_of_nat (length (bd_last_key d)) :: u32) = length (bd_last_key d)"
    using assms(1) by (intro unat_u32_of_nat) (simp add: descriptor_ok_def record_constants)
  have u: "unat (word_of_nat (bd_offset d) :: u64) = bd_offset d"
    "unat (word_of_nat (bd_physical_bytes d) :: u64) = bd_physical_bytes d"
    "unat (word_of_nat (bd_record_bytes d) :: u64) = bd_record_bytes d"
    using assms(1) by (auto intro!: unat_u64_of_nat simp: descriptor_ok_def record_constants)
  have len: "length (index_entry d) = 104 + length (bd_last_key d)"
    by (simp add: f(1,2))
  show ?thesis
    using assms
    by (simp add: read_index_entry_def g1 g2 f(3-9) u lk usize_checked_add_def INDEX_ENTRY_BYTES_def len
        descriptor_ok_def decode_encode_sha256_hex not_less Let_def split: option.splits)
qed

text \<open>A run of descriptors that tiles the data region, with ascending last keys.\<close>

fun tiled :: "nat \<Rightarrow> bytes option \<Rightarrow> block_descriptor list \<Rightarrow> bool" where
  "tiled offset prior [] = True"
| "tiled offset prior (d # ds) = (bd_offset d = offset \<and> (case prior of None \<Rightarrow> True | Some k \<Rightarrow> k \<le> bd_last_key d) \<and>
     tiled (offset + bd_physical_bytes d) (Some (bd_last_key d)) ds)"

definition tiled_end :: "nat \<Rightarrow> block_descriptor list \<Rightarrow> nat" where
  "tiled_end offset ds = offset + sum_list (map bd_physical_bytes ds)"

lemma read_index_ok:
  assumes "\<forall>d \<in> set ds. descriptor_ok index_offset d" and "tiled offset prior ds"
    and "length pre + length (concat (map index_entry ds)) < 2 ^ 64"
  shows "\<exists>prior'. try_repeat (read_index_entry (pre @ concat (map index_entry ds)) index_offset) (length ds)
      (acc, length pre, offset, prior)
    = Ok (acc @ ds, length pre + length (concat (map index_entry ds)), tiled_end offset ds, prior')"
  using assms
proof (induction ds arbitrary: pre acc offset prior)
  case Nil
  then show ?case by (simp add: tiled_end_def)
next
  case (Cons d ds)
  have one: "read_index_entry (pre @ index_entry d @ concat (map index_entry ds)) index_offset (acc, length pre, offset, prior)
    = Ok (acc @ [d], length pre + length (index_entry d), bd_offset d + bd_physical_bytes d, Some (bd_last_key d))"
    using Cons.prems read_index_entry_ok [of index_offset d prior pre "concat (map index_entry ds)" acc] by simp
  have "\<exists>prior'. try_repeat (read_index_entry ((pre @ index_entry d) @ concat (map index_entry ds)) index_offset) (length ds)
      (acc @ [d], length (pre @ index_entry d), offset + bd_physical_bytes d, Some (bd_last_key d))
    = Ok ((acc @ [d]) @ ds, length (pre @ index_entry d) + length (concat (map index_entry ds)),
        tiled_end (offset + bd_physical_bytes d) ds, prior')"
    using Cons.prems by (intro Cons.IH) simp_all
  then show ?case
    using one Cons.prems(2) by (auto simp: tiled_end_def add.assoc)
qed

section \<open>Layout of the blocks\<close>

definition block_triple :: "entry list \<Rightarrow> bytes \<times> u64 \<times> bytes" where
  "block_triple es = (enc_all record_bytes es, word_of_nat (length es), fst (last es))"

definition block_image :: "codec \<Rightarrow> entry list \<Rightarrow> bytes" where
  "block_image c es = compress_prepend_size c (enc_all record_bytes es)"

definition descriptor_of :: "codec \<Rightarrow> nat \<Rightarrow> entry list \<Rightarrow> block_descriptor" where
  "descriptor_of c offset es = \<lparr>bd_offset = offset, bd_physical_bytes = length (block_image c es),
     bd_record_bytes = length (enc_all record_bytes es), bd_entries = word_of_nat (length es),
     bd_digest = sha256 (block_image c es), bd_last_key = fst (last es)\<rparr>"

fun descriptors_of :: "codec \<Rightarrow> nat \<Rightarrow> entry list list \<Rightarrow> block_descriptor list" where
  "descriptors_of c offset [] = []"
| "descriptors_of c offset (es # ess) = descriptor_of c offset es # descriptors_of c (offset + length (block_image c es)) ess"

lemma layout_blocks:
  "fold (layout_block c) (map block_triple ess) (out, ds)
    = (out @ enc_all (block_image c) ess, ds @ descriptors_of c (length out) ess)"
proof (induction ess arbitrary: out ds)
  case (Cons es ess)
  then show ?case
    by (simp add: layout_block_def block_triple_def block_image_def descriptor_of_def Let_def)
qed simp

lemma length_descriptors_of [simp]: "length (descriptors_of c offset ess) = length ess"
  by (induction c offset ess rule: descriptors_of.induct) simp_all

definition block_ok :: "entry list \<Rightarrow> bool" where
  "block_ok es \<longleftrightarrow> es \<noteq> [] \<and> (\<forall>e \<in> set es. valid_entry e) \<and>
     (length es = 1 \<or> length (enc_all record_bytes es) \<le> SEGMENT_BLOCK_TARGET_BYTES)"

lemma valid_entry_size: "valid_entry e \<Longrightarrow> length (record_bytes e) \<le> MAX_DECODED_BLOCK_BYTES"
  by (auto simp: length_record_bytes valid_entry_def entry_value_def record_constants split: option.splits)

lemma block_ok_size:
  assumes "block_ok es"
  shows "length (enc_all record_bytes es) \<le> MAX_DECODED_BLOCK_BYTES"
proof (cases "length es = 1")
  case True
  then obtain e where "es = [e]" by (auto simp: length_Suc_conv)
  with assms show ?thesis by (simp add: block_ok_def valid_entry_size)
next
  case False
  with assms show ?thesis by (simp add: block_ok_def record_constants SEGMENT_BLOCK_TARGET_BYTES_def)
qed

lemma block_ok_counts:
  assumes "block_ok es"
  shows "length es < 2 ^ 32" and "length (enc_all record_bytes es) < 2 ^ 32" and "enc_all record_bytes es \<noteq> []"
    and "valid_entry (last es)"
proof -
  have "length es \<le> length (enc_all record_bytes es)"
    by (induction es) (simp_all add: length_record_bytes)
  then show "length es < 2 ^ 32" "length (enc_all record_bytes es) < 2 ^ 32"
    using block_ok_size [OF assms] by (simp_all add: record_constants)
  show "enc_all record_bytes es \<noteq> []" "valid_entry (last es)"
    using assms by (cases es, simp_all add: block_ok_def)
qed

lemma descriptors_tiled:
  assumes "\<forall>es \<in> set ess. es \<noteq> []" and "sorted (map fst (concat ess))"
    and "\<forall>k e. prior = Some k \<longrightarrow> e \<in> set (concat ess) \<longrightarrow> k \<le> fst e"
  shows "tiled offset prior (descriptors_of c offset ess)"
  using assms
proof (induction ess arbitrary: offset prior)
  case (Cons es ess)
  have last: "last es \<in> set es" using Cons.prems(1) by simp
  have "\<forall>k. prior = Some k \<longrightarrow> k \<le> fst (last es)"
    using Cons.prems(3) last by (simp del: split_paired_All)
  moreover have later: "\<forall>xs \<in> set ess. \<forall>(a, b) \<in> set xs. fst (last es) \<le> a"
    using Cons.prems(2) last by (fastforce simp: sorted_append)
  moreover have "tiled (offset + length (block_image c es)) (Some (fst (last es)))
      (descriptors_of c (offset + length (block_image c es)) ess)"
    using Cons.prems(1,2) later by (intro Cons.IH) (auto simp: sorted_append)
  ultimately show ?case
    by (simp add: descriptor_of_def split: option.split)
qed simp

lemma descriptors_tiled_end:
  "tiled_end offset (descriptors_of c offset ess) = offset + length (enc_all (block_image c) ess)"
  by (induction ess arbitrary: offset) (simp_all add: tiled_end_def descriptor_of_def)

lemma descriptors_of_ok:
  assumes "codec_laws c" and "\<forall>es \<in> set ess. block_ok es"
    and "offset + length (enc_all (block_image c) ess) \<le> index_offset" and "index_offset < 2 ^ 64"
    and "d \<in> set (descriptors_of c offset ess)"
  shows "descriptor_ok index_offset d"
  using assms(2-)
proof (induction ess arbitrary: offset)
  case (Cons es ess)
  show ?case
  proof (cases "d = descriptor_of c offset es")
    case True
    have ok: "block_ok es" using Cons.prems(1) by simp
    note counts = block_ok_counts [OF ok]
    have "word_of_nat (length es) \<noteq> (0 :: u64)"
    proof
      assume "word_of_nat (length es) = (0 :: u64)"
      then have "unat (word_of_nat (length es) :: u64) = 0" by simp
      moreover have "unat (word_of_nat (length es) :: u64) = length es"
        using counts(1) by (intro unat_u64_of_nat) simp
      ultimately show False using ok by (simp add: block_ok_def)
    qed
    moreover have "4 \<le> length (block_image c es)"
      using assms(1) counts(2) by (simp add: codec_laws_def block_image_def)
    ultimately show ?thesis
      using True ok counts Cons.prems(2,3) block_ok_size [OF ok]
      by (auto simp: descriptor_ok_def descriptor_of_def block_ok_def valid_entry_def)
  next
    case False
    then show ?thesis
      using Cons.prems Cons.IH [of "offset + length (block_image c es)"] by auto
  qed
qed simp

text \<open>A block reads back from its place in the file.\<close>

lemma decode_block_image:
  assumes "codec_laws c" and "block_ok es"
  shows "decode_compressed_block c (block_image c es) (descriptor_of c offset es) = Ok (enc_all record_bytes es)"
proof -
  note counts = block_ok_counts [OF assms(2)]
  have "length (block_image c es) \<ge> 4" "decompress_size_prepended c (block_image c es) = Some (enc_all record_bytes es)"
    "u32_from_le_bytes (take 4 (block_image c es)) = word_of_nat (length (enc_all record_bytes es))"
    "ring_sha256 c (block_image c es) = sha256 (block_image c es)"
    using assms(1) counts(2) by (simp_all add: codec_laws_def block_image_def)
  moreover have "unat (word_of_nat (length (enc_all record_bytes es)) :: u32) = length (enc_all record_bytes es)"
    using counts(2) by (rule unat_u32_of_nat)
  ultimately show ?thesis
    using block_ok_size [OF assms(2)]
    by (simp add: decode_compressed_block_def descriptor_of_def get_range_def subslice_def Let_def block_ok_def)
qed

lemma read_block_image:
  assumes "codec_laws c" and "block_ok es" and "bs = pre @ block_image c es @ post"
  shows "read_exact_at bs (length pre) (length (block_image c es)) = Ok (block_image c es)"
  using assms block_ok_counts(2) [OF assms(2)]
  by (auto simp: read_exact_at_def subslice_def codec_laws_def block_image_def)

lemma validate_v3_block_complete:
  assumes "codec_laws c" and "block_ok es" and "bs = pre @ block_image c es @ post"
    and "\<forall>e \<in> set es. entry_in mn mx e" and "ordered_from (bs_previous scan) es"
    and "unat n + length es < 2 ^ 64" and "b + length (enc_all record_bytes es) < 2 ^ 64"
  shows "validate_v3_block c bs mn mx (descriptor_of c (length pre) es) (scan, n, b) =
    Ok (fold scan_entry es (scan\<lparr>bs_block_entries := 0, bs_block_last := None\<rparr>),
        n + word_of_nat (length es), b + length (enc_all record_bytes es))"
proof -
  note counts = block_ok_counts [OF assms(2)]
  have ne: "es \<noteq> []" using assms(2) by (simp add: block_ok_def)
  have "validate_block_records mn mx (enc_all record_bytes es) 0 (scan\<lparr>bs_block_entries := 0, bs_block_last := None\<rparr>)
    = Ok (fold scan_entry es (scan\<lparr>bs_block_entries := 0, bs_block_last := None\<rparr>))"
    using validate_block_records_complete [OF assms(4), of 0 "scan\<lparr>bs_block_entries := 0, bs_block_last := None\<rparr>"]
      counts(2) assms(5) by simp
  moreover have "checked_add n (word_of_nat (length es)) = Some (n + word_of_nat (length es))"
    using assms(6) counts(1) by (simp add: checked_add_def)
  ultimately show ?thesis
    using read_block_image [OF assms(1-3)] decode_block_image [OF assms(1,2), of "length pre"] assms(7) ne
    by (simp add: validate_v3_block_def usize_checked_add_def scan_entries_fields)
      (simp add: descriptor_of_def scan_entries_fields usize_checked_add_def)
qed

lemma validate_v3_blocks_complete:
  assumes "codec_laws c" and "\<forall>es \<in> set ess. block_ok es" and "bs = pre @ enc_all (block_image c) ess @ post"
    and "\<forall>e \<in> set (concat ess). entry_in mn mx e" and "ordered_from (bs_previous scan) (concat ess)"
    and "unat n + length (concat ess) < 2 ^ 64" and "b + length (enc_all record_bytes (concat ess)) < 2 ^ 64"
  shows "\<exists>scan'. try_fold (validate_v3_block c bs mn mx) (descriptors_of c (length pre) ess) (scan, n, b) =
      Ok (scan', n + word_of_nat (length (concat ess)), b + length (enc_all record_bytes (concat ess))) \<and>
    bs_first_key scan' = (case bs_first_key scan of
       None \<Rightarrow> (if ess = [] then None else Some (fst (hd (concat ess)))) | Some k \<Rightarrow> Some k) \<and>
    bs_last_key scan' = (if ess = [] then bs_last_key scan else Some (fst (last (concat ess))))"
  using assms(2-)
proof (induction ess arbitrary: pre scan n b)
  case Nil
  then show ?case by (auto split: option.splits)
next
  case (Cons es ess)
  let ?scan = "fold scan_entry es (scan\<lparr>bs_block_entries := 0, bs_block_last := None\<rparr>)"
  have ok: "block_ok es" and ne: "es \<noteq> []" using Cons.prems(1) by (simp_all add: block_ok_def)
  have ord: "ordered_from (bs_previous scan) es" "ordered_from (bs_previous ?scan) (concat ess)"
    using Cons.prems(4) by (simp_all add: ordered_from_append scan_entries_fields)
  have one: "validate_v3_block c bs mn mx (descriptor_of c (length pre) es) (scan, n, b) =
    Ok (?scan, n + word_of_nat (length es), b + length (enc_all record_bytes es))"
    using Cons.prems ord(1) ok
    by (intro validate_v3_block_complete [OF assms(1), of _ _ _ "enc_all (block_image c) ess @ post"]) simp_all
  have n: "unat (n + word_of_nat (length es)) = unat n + length es"
    using Cons.prems(5) block_ok_counts(1) [OF ok] by (simp add: unat_word_ariths)
  have "\<exists>scan'. try_fold (validate_v3_block c bs mn mx) (descriptors_of c (length (pre @ block_image c es)) ess)
        (?scan, n + word_of_nat (length es), b + length (enc_all record_bytes es)) =
      Ok (scan', n + word_of_nat (length es) + word_of_nat (length (concat ess)),
          b + length (enc_all record_bytes es) + length (enc_all record_bytes (concat ess))) \<and>
    bs_first_key scan' = (case bs_first_key ?scan of
       None \<Rightarrow> (if ess = [] then None else Some (fst (hd (concat ess)))) | Some k \<Rightarrow> Some k) \<and>
    bs_last_key scan' = (if ess = [] then bs_last_key ?scan else Some (fst (last (concat ess))))"
    using Cons.prems ord(2) n by (intro Cons.IH) simp_all
  then obtain scan' where
    rest: "try_fold (validate_v3_block c bs mn mx) (descriptors_of c (length (pre @ block_image c es)) ess)
        (?scan, n + word_of_nat (length es), b + length (enc_all record_bytes es)) =
      Ok (scan', n + word_of_nat (length es) + word_of_nat (length (concat ess)),
          b + length (enc_all record_bytes es) + length (enc_all record_bytes (concat ess)))"
    and first: "bs_first_key scan' = (case bs_first_key ?scan of
       None \<Rightarrow> (if ess = [] then None else Some (fst (hd (concat ess)))) | Some k \<Rightarrow> Some k)"
    and last: "bs_last_key scan' = (if ess = [] then bs_last_key ?scan else Some (fst (last (concat ess))))"
    by blast
  have "ess \<noteq> [] \<Longrightarrow> concat ess \<noteq> []"
    using Cons.prems(1) by (cases ess) (auto simp: block_ok_def)
  then show ?case
    using one rest first last ne
    by (intro exI [of _ scan']) (auto simp: scan_entries_fields add.assoc split: option.splits)
qed

section \<open>The builder\<close>

definition mt_entries :: "memtable \<Rightarrow> entry list" where
  "mt_entries t = concat (map (\<lambda>(key, vs). map (Pair key) vs) (mt_versions t))"

definition builder_rep :: "entry list \<Rightarrow> entry list list \<Rightarrow> entry list \<Rightarrow> block_builder \<Rightarrow> bool" where
  "builder_rep es ess cur st \<longleftrightarrow> es = concat ess @ cur \<and> bb_blocks st = map block_triple ess \<and>
     bb_current st = enc_all record_bytes cur \<and> bb_current_entries st = word_of_nat (length cur) \<and>
     (cur \<noteq> [] \<longrightarrow> bb_current_last_key st = fst (last cur)) \<and>
     bb_total_record_bytes st = length (enc_all record_bytes es) \<and>
     (\<forall>bs \<in> set ess. block_ok bs) \<and> (cur \<noteq> [] \<longrightarrow> block_ok cur)"

lemma enc_all_empty: "enc_all record_bytes es = [] \<longleftrightarrow> es = []"
  by (cases es) simp_all

lemma encode_v3_step_rep:
  assumes "builder_rep es ess cur st" and "encode_v3_step key v st = Ok st'"
  shows "\<exists>ess cur. builder_rep (es @ [(key, v)]) ess cur st'"
proof -
  let ?e = "(key, v)"
  have valid: "valid_entry ?e" and rec: "encode_record key v = Ok (record_bytes ?e)"
    using assms(2) by (auto simp: encode_v3_step_def res_simps encode_record_ok)
  have one: "block_ok [?e]"
    using valid by (simp add: block_ok_def)
  let ?full = "bb_current st \<noteq> [] \<and>
    usize_saturating_add (length (bb_current st)) (length (record_bytes ?e)) > SEGMENT_BLOCK_TARGET_BYTES"
  show ?thesis
  proof (cases ?full)
    case True
    then have "cur \<noteq> []"
      using assms(1) by (auto simp: builder_rep_def)
    with True have "builder_rep (es @ [?e]) (ess @ [cur]) [?e] st'"
      using assms one rec
      by (auto simp: builder_rep_def encode_v3_step_def res_simps Let_def usize_checked_add_eq_Some block_triple_def)
    then show ?thesis by blast
  next
    case False
    have "block_ok (cur @ [?e])"
    proof (cases "cur = []")
      case ne: False
      then have "bb_current st \<noteq> []" and ok: "block_ok cur"
        using assms(1) by (auto simp: builder_rep_def enc_all_empty)
      with False have "length (enc_all record_bytes cur) + length (record_bytes ?e) \<le> 4096"
        using assms(1) by (auto simp: builder_rep_def usize_saturating_add_def SEGMENT_BLOCK_TARGET_BYTES_def not_less min_def
            split: if_splits)
      with ok one show ?thesis by (auto simp: block_ok_def SEGMENT_BLOCK_TARGET_BYTES_def)
    qed (use one in simp)
    with False have "builder_rep (es @ [?e]) ess (cur @ [?e]) st'"
      using assms rec
      by (auto simp: builder_rep_def encode_v3_step_def res_simps Let_def usize_checked_add_eq_Some)
    then show ?thesis by blast
  qed
qed

lemma builder_loop_rep:
  assumes "try_fold (\<lambda>e. encode_v3_step (fst e) (snd e)) es' st = Ok st'" and "\<exists>ess cur. builder_rep es ess cur st"
  shows "\<exists>ess cur. builder_rep (es @ es') ess cur st'"
  using assms
proof (induction es' arbitrary: es st)
  case (Cons e es')
  then obtain st1 where st1: "encode_v3_step (fst e) (snd e) st = Ok st1"
    "try_fold (\<lambda>e. encode_v3_step (fst e) (snd e)) es' st1 = Ok st'"
    by (auto simp: res_simps)
  obtain ess cur where "builder_rep es ess cur st" using Cons.prems(2) by blast
  from encode_v3_step_rep [OF this st1(1)] have "\<exists>ess cur. builder_rep (es @ [e]) ess cur st1" by simp
  from Cons.IH [OF st1(2) this] show ?case by simp
qed simp

lemma nested_try_fold:
  "try_fold (\<lambda>(key, vs) st. try_fold (f key) vs st) groups st
    = try_fold (\<lambda>e. f (fst e) (snd e)) (concat (map (\<lambda>(key, vs). map (Pair key) vs) groups)) st"
proof (induction groups arbitrary: st)
  case (Cons g groups)
  have inner: "try_fold (f key) vs st = try_fold (\<lambda>e. f (fst e) (snd e)) (map (Pair key) vs) st" for key vs st
    by (induction vs arbitrary: st) (auto intro!: rbind_cong)
  obtain key vs where g: "g = (key, vs)" by (cases g)
  have "try_fold (\<lambda>(key, vs) st. try_fold (f key) vs st) groups
      = try_fold (\<lambda>e. f (fst e) (snd e)) (concat (map (\<lambda>(key, vs). map (Pair key) vs) groups))"
    by (rule ext) (rule Cons.IH)
  then show ?case
    by (simp add: g inner [of key vs st])
qed simp

section \<open>The whole file\<close>

definition index_bytes_of :: "codec \<Rightarrow> entry list list \<Rightarrow> bytes" where
  "index_bytes_of c ess = INDEX_V3_MAGIC @ u32_to_be_bytes (word_of_nat (length ess)) @ u32_to_be_bytes 0
     @ concat (map index_entry (descriptors_of c 64 ess))"

definition v3_content :: "codec \<Rightarrow> u64 \<Rightarrow> u64 \<Rightarrow> entry list list \<Rightarrow> bytes" where
  "v3_content c mn mx ess = v3_header (word_of_nat (length (concat ess))) mn mx
       (length (enc_all record_bytes (concat ess))) (64 + length (enc_all (block_image c) ess)) (length ess)
     @ enc_all (block_image c) ess @ index_bytes_of c ess"

definition v3_file :: "codec \<Rightarrow> u64 \<Rightarrow> u64 \<Rightarrow> entry list list \<Rightarrow> bytes" where
  "v3_file c mn mx ess = v3_content c mn mx ess @ sha256_hex (v3_content c mn mx ess)"

lemma mt_version_count_entries: "mt_version_count t = length (mt_entries t)"
  by (simp add: mt_version_count_def mt_entries_def length_concat comp_def split_def)

lemma length_v3_header [simp]: "length (v3_header n mn mx tot io k) = 64"
  by (simp add: v3_header_def SEGMENT_V3_MAGIC_def)

definition minimum_of :: "memtable \<Rightarrow> u64" where
  "minimum_of t = Min (vv_sequence ` snd ` set (mt_entries t))"

lemma minimum_of_eq:
  "Min (set (concat (map (\<lambda>(_, vs). map vv_sequence vs) (mt_all_versions t)))) = minimum_of t"
proof -
  have "set (concat (map (\<lambda>(_, vs). map vv_sequence vs) (mt_all_versions t))) = vv_sequence ` snd ` set (mt_entries t)"
    by (force simp: mt_entries_def mt_all_versions_def)
  then show ?thesis by (simp add: minimum_of_def)
qed

lemma encode_v3_finish_rep:
  assumes "builder_rep es ess0 cur st" and "ess = (if cur = [] then ess0 else ess0 @ [cur])"
  shows "encode_v3_finish c (word_of_nat (length es)) mn mx st =
    (if length (enc_all record_bytes es) > MAX_SEGMENT_BYTES
     then Err (InvalidSegment ''uncompressed records exceed the 1 GiB safety limit'')
     else if length (v3_content c mn mx ess) > MAX_SEGMENT_BYTES - FOOTER_BYTES
     then Err (InvalidSegment ''encoded segment exceeds the 1 GiB safety limit'')
     else Ok (v3_file c mn mx ess))"
proof -
  have blocks: "(if bb_current st \<noteq> [] then bb_blocks st @ [(bb_current st, bb_current_entries st, bb_current_last_key st)]
      else bb_blocks st) = map block_triple ess"
    and tot: "bb_total_record_bytes st = length (enc_all record_bytes es)" and es: "concat ess = es"
    using assms by (auto simp: builder_rep_def enc_all_empty block_triple_def)
  show ?thesis
    unfolding encode_v3_finish_def blocks tot Let_def layout_blocks
    by (simp add: V3_HEADER_BYTES_def v3_file_def v3_content_def index_bytes_of_def es)
qed

lemma encode_v3_shape:
  assumes "encode_v3 c t = Ok bs"
  obtains ess where "mt_entries t = concat ess" "ess \<noteq> []" "\<forall>es \<in> set ess. block_ok es"
    "bs = v3_file c (minimum_of t) (mt_maximum_sequence t) ess"
    "length (enc_all record_bytes (mt_entries t)) \<le> MAX_SEGMENT_BYTES"
    "length (v3_content c (minimum_of t) (mt_maximum_sequence t) ess) \<le> MAX_SEGMENT_BYTES - FOOTER_BYTES"
proof -
  let ?st0 = "\<lparr>bb_blocks = [], bb_current = [], bb_current_entries = 0, bb_current_last_key = [], bb_total_record_bytes = 0\<rparr>"
  let ?es = "mt_entries t"
  have flat: "try_fold (\<lambda>(key, vs) st. try_fold (encode_v3_step key) vs st) (mt_all_versions t) ?st0
      = try_fold (\<lambda>e. encode_v3_step (fst e) (snd e)) ?es ?st0"
    unfolding nested_try_fold by (simp add: mt_entries_def mt_all_versions_def)
  obtain st where cnt: "?es \<noteq> []"
    and loop: "try_fold (\<lambda>e. encode_v3_step (fst e) (snd e)) ?es ?st0 = Ok st"
    and finish: "encode_v3_finish c (word_of_nat (length ?es)) (minimum_of t) (mt_maximum_sequence t) st = Ok bs"
    using assms unfolding encode_v3_def flat minimum_of_eq
    by (auto simp: mt_version_count_entries res_simps u64_try_from_eq_Some split: if_splits)
  have "builder_rep [] [] [] ?st0"
    by (simp add: builder_rep_def)
  then obtain ess0 cur where rep: "builder_rep ?es ess0 cur st"
    using builder_loop_rep [OF loop, of "[]"] by auto
  define ess where "ess = (if cur = [] then ess0 else ess0 @ [cur])"
  have es: "?es = concat ess" and ok: "\<forall>es \<in> set ess. block_ok es"
    using rep by (auto simp: builder_rep_def ess_def)
  have "ess \<noteq> []" using es cnt by auto
  with es ok finish show thesis
    unfolding encode_v3_finish_rep [OF rep ess_def] by (intro that [of ess]) (auto split: if_splits)
qed

section \<open>Reading the file back\<close>

lemma v3_header_fields:
  "subslice 0 8 (v3_header n mn mx tot io k) = SEGMENT_V3_MAGIC"
  "subslice 8 10 (v3_header n mn mx tot io k) = u16_to_be_bytes SEGMENT_FORMAT_VERSION"
  "subslice 10 12 (v3_header n mn mx tot io k) = u16_to_be_bytes (word_of_nat V3_HEADER_BYTES)"
  "subslice 12 16 (v3_header n mn mx tot io k) = u32_to_be_bytes 1"
  "subslice 16 24 (v3_header n mn mx tot io k) = u64_to_be_bytes n"
  "subslice 24 32 (v3_header n mn mx tot io k) = u64_to_be_bytes mn"
  "subslice 32 40 (v3_header n mn mx tot io k) = u64_to_be_bytes mx"
  "subslice 40 48 (v3_header n mn mx tot io k) = u64_to_be_bytes (word_of_nat tot)"
  "subslice 48 56 (v3_header n mn mx tot io k) = u64_to_be_bytes (word_of_nat io)"
  "subslice 56 60 (v3_header n mn mx tot io k) = u32_to_be_bytes (word_of_nat k)"
  "subslice 60 64 (v3_header n mn mx tot io k) = u32_to_be_bytes (word_of_nat SEGMENT_BLOCK_TARGET_BYTES)"
  by (simp_all add: v3_header_def SEGMENT_V3_MAGIC_def subslice_def)

lemma index_header_fields:
  "subslice 0 8 (index_bytes_of c ess) = INDEX_V3_MAGIC"
  "subslice 8 12 (index_bytes_of c ess) = u32_to_be_bytes (word_of_nat (length ess))"
  "subslice 12 16 (index_bytes_of c ess) = [0, 0, 0, 0]"
proof -
  have zero: "u32_to_be_bytes 0 = [0, 0, 0, 0]"
    by (simp add: eval_bytes)
  show "subslice 0 8 (index_bytes_of c ess) = INDEX_V3_MAGIC"
    "subslice 8 12 (index_bytes_of c ess) = u32_to_be_bytes (word_of_nat (length ess))"
    "subslice 12 16 (index_bytes_of c ess) = [0, 0, 0, 0]"
    by (simp_all add: index_bytes_of_def INDEX_V3_MAGIC_def subslice_def zero)
qed

definition written :: "codec \<Rightarrow> u64 \<Rightarrow> u64 \<Rightarrow> entry list list \<Rightarrow> bool" where
  "written c mn mx ess \<longleftrightarrow> codec_laws c \<and> ess \<noteq> [] \<and> (\<forall>es \<in> set ess. block_ok es) \<and> mn \<noteq> 0 \<and>
     (\<forall>e \<in> set (concat ess). entry_in mn mx e) \<and> entries_sorted (concat ess) \<and>
     length (enc_all record_bytes (concat ess)) \<le> MAX_SEGMENT_BYTES \<and>
     length (v3_content c mn mx ess) \<le> MAX_SEGMENT_BYTES - FOOTER_BYTES"

lemma descriptors_digest: "d \<in> set (descriptors_of c offset ess) \<Longrightarrow> length (bd_digest d) = 32"
  by (induction ess arbitrary: offset) (auto simp: descriptor_of_def)

lemma length_index_entries:
  assumes "\<forall>d \<in> set ds. length (bd_digest d) = 32"
  shows "104 * length ds \<le> length (concat (map index_entry ds))"
  using assms by (induction ds) (auto simp: index_entry_fields)

lemma length_index_bytes: "16 + 104 * length ess \<le> length (index_bytes_of c ess)"
  using length_index_entries [of "descriptors_of c 64 ess"] descriptors_digest [of _ c 64 ess]
  by (auto simp: index_bytes_of_def INDEX_V3_MAGIC_def)

lemma written_sizes:
  assumes "written c mn mx ess"
  shows "length ess < 2 ^ 32" and "length (concat ess) < 2 ^ 32" and "concat ess \<noteq> []"
    and "64 + length (enc_all (block_image c) ess) + length (index_bytes_of c ess) \<le> 1024 * 1024 * 1024 - 64"
    and "mn \<le> mx" and "length (v3_file c mn mx ess)
      = 64 + length (enc_all (block_image c) ess) + length (index_bytes_of c ess) + 64"
proof -
  show sz: "64 + length (enc_all (block_image c) ess) + length (index_bytes_of c ess) \<le> 1024 * 1024 * 1024 - 64"
    using assms by (simp add: written_def v3_content_def segment_constants)
  then show "length ess < 2 ^ 32"
    using length_index_bytes [of ess c] by simp
  have "length es \<le> length (enc_all record_bytes es)" for es
    by (induction es) (simp_all add: length_record_bytes)
  then have "length (concat ess) \<le> length (enc_all record_bytes (concat ess))" .
  then show "length (concat ess) < 2 ^ 32"
    using assms by (simp add: written_def segment_constants)
  obtain es ess' where "ess = es # ess'" "es \<noteq> []"
    using assms by (cases ess) (auto simp: written_def block_ok_def)
  then have "hd es \<in> set (concat ess)" by simp
  then show "concat ess \<noteq> []" by (metis empty_iff list.set(1))
  from \<open>hd es \<in> set (concat ess)\<close> assms have "entry_in mn mx (hd es)"
    unfolding written_def by blast
  then show "mn \<le> mx" unfolding entry_in_def by (blast intro: order_trans)
  show "length (v3_file c mn mx ess)
      = 64 + length (enc_all (block_image c) ess) + length (index_bytes_of c ess) + 64"
    by (simp add: v3_file_def v3_content_def)
qed

definition v3_descriptor :: "bytes \<Rightarrow> nat \<Rightarrow> u64 \<Rightarrow> u64 \<Rightarrow> entry list \<Rightarrow> segment_descriptor" where
  "v3_descriptor actual n mn mx es = \<lparr>sd_id = actual, sd_level = 0, sd_first_key = fst (hd es),
     sd_last_key = fst (last es), sd_minimum_sequence = mn, sd_maximum_sequence = mx,
     sd_entries = word_of_nat (length es), sd_bytes = word_of_nat n, sd_checksum = actual\<rparr>"

lemma validate_written:
  assumes "written c mn mx ess"
  shows "validate_v3_blocks c (v3_file c mn mx ess)
      \<lparr>sd_id = actual, sd_level = 0, sd_first_key = [], sd_last_key = [], sd_minimum_sequence = mn,
       sd_maximum_sequence = mx, sd_entries = word_of_nat (length (concat ess)), sd_bytes = n, sd_checksum = actual\<rparr>
      (descriptors_of c 64 ess) (word_of_nat (length (enc_all record_bytes (concat ess))))
    = Ok (\<lparr>sd_id = actual, sd_level = 0, sd_first_key = fst (hd (concat ess)), sd_last_key = fst (last (concat ess)),
        sd_minimum_sequence = mn, sd_maximum_sequence = mx, sd_entries = word_of_nat (length (concat ess)),
        sd_bytes = n, sd_checksum = actual\<rparr>, descriptors_of c 64 ess)"
proof -
  let ?header = "v3_header (word_of_nat (length (concat ess))) mn mx (length (enc_all record_bytes (concat ess)))
    (64 + length (enc_all (block_image c) ess)) (length ess)"
  let ?scan = "\<lparr>bs_previous = None, bs_first_key = None, bs_last_key = None, bs_block_entries = 0, bs_block_last = None\<rparr>"
  have w: "codec_laws c" "ess \<noteq> []" "\<forall>es \<in> set ess. block_ok es" "\<forall>e \<in> set (concat ess). entry_in mn mx e"
    "entries_sorted (concat ess)" "length (enc_all record_bytes (concat ess)) \<le> 1024 * 1024 * 1024"
    using assms by (simp_all add: written_def segment_constants)
  have image: "v3_file c mn mx ess = ?header @ enc_all (block_image c) ess @
      (index_bytes_of c ess @ sha256_hex (v3_content c mn mx ess))"
    by (simp add: v3_file_def v3_content_def)
  have "ordered_from (bs_previous ?scan) (concat ess)"
    using w(5) by (intro sorted_ordered_from) (simp_all add: follows_def)
  moreover have "unat (0 :: u64) + length (concat ess) < 2 ^ 64" "0 + length (enc_all record_bytes (concat ess)) < 2 ^ 64"
    using written_sizes(2) [OF assms] w(6) by simp_all
  ultimately obtain scan where
    "try_fold (validate_v3_block c (v3_file c mn mx ess) mn mx) (descriptors_of c 64 ess) (?scan, 0, 0)
      = Ok (scan, word_of_nat (length (concat ess)), length (enc_all record_bytes (concat ess)))"
    "bs_first_key scan = Some (fst (hd (concat ess)))" "bs_last_key scan = Some (fst (last (concat ess)))"
    using validate_v3_blocks_complete [OF w(1,3) image w(4), of ?scan 0 0] w(2) by auto
  moreover have "unat (word_of_nat (length (enc_all record_bytes (concat ess))) :: u64) = length (enc_all record_bytes (concat ess))"
    using w(6) by (intro unat_u64_of_nat) simp
  ultimately show ?thesis
    by (simp add: validate_v3_blocks_def)
qed

lemma read_written_metadata:
  assumes "written c mn mx ess"
  shows "read_v3_metadata c (v3_file c mn mx ess) (length (v3_file c mn mx ess)) actual =
    (if length (index_bytes_of c ess) \<le> MAX_INDEX_BYTES
     then Ok (v3_descriptor actual (length (v3_file c mn mx ess)) mn mx (concat ess), descriptors_of c 64 ess)
     else Err (InvalidSegment ''v3 index exceeds its bounded contract''))"
proof -
  let ?data = "length (enc_all (block_image c) ess)" and ?file = "v3_file c mn mx ess"
  let ?tot = "length (enc_all record_bytes (concat ess))" and ?index = "index_bytes_of c ess"
  let ?header = "v3_header (word_of_nat (length (concat ess))) mn mx ?tot (64 + ?data) (length ess)"
  note sz = written_sizes [OF assms]
  have w: "codec_laws c" "ess \<noteq> []" "\<forall>es \<in> set ess. block_ok es" "mn \<noteq> 0"
    "entries_sorted (concat ess)" "?tot \<le> 1024 * 1024 * 1024"
    using assms by (simp_all add: written_def segment_constants)
  have header: "read_exact_at ?file 0 64 = Ok ?header"
    by (simp add: read_exact_at_def v3_file_def v3_content_def subslice_def)
  have index: "read_exact_at ?file (64 + ?data) (length ?index) = Ok ?index"
    using length_index_bytes [of ess c]
    by (simp add: read_exact_at_def v3_file_def v3_content_def subslice_def)
  have u1: "unat (word_of_nat (64 + ?data) :: u64) = 64 + ?data"
    using sz(4) by (intro unat_u64_of_nat) simp
  have u: "unat (word_of_nat ?tot :: u64) = ?tot"
    "unat (word_of_nat (length ess) :: u32) = length ess" "unat (word_of_nat (length (concat ess)) :: u64) = length (concat ess)"
    using sz w(6) by (auto intro!: unat_u64_of_nat unat_u32_of_nat)
  have n0: "word_of_nat (length (concat ess)) \<noteq> (0 :: u64)"
    using u(3) sz(3) by (metis length_0_conv unsigned_0)
  have c16: "u16_from_be_bytes (u16_to_be_bytes (word_of_nat V3_HEADER_BYTES)) = 64"
    by (simp add: V3_HEADER_BYTES_def)
  have t32: "unat (word_of_nat SEGMENT_BLOCK_TARGET_BYTES :: u32) = SEGMENT_BLOCK_TARGET_BYTES"
    by (intro unat_u32_of_nat) (simp add: SEGMENT_BLOCK_TARGET_BYTES_def)
  have cnt: "\<not> length ess > (length ?index - INDEX_HEADER_BYTES) div INDEX_ENTRY_BYTES"
    using length_index_bytes [of ess c] by (simp add: INDEX_HEADER_BYTES_def INDEX_ENTRY_BYTES_def)
  have tiled: "tiled 64 None (descriptors_of c 64 ess)"
    using w(3) entries_sorted_keys [OF w(5)] by (intro descriptors_tiled) (auto simp: block_ok_def)
  have dok: "\<forall>d \<in> set (descriptors_of c 64 ess). descriptor_ok (64 + ?data) d"
    using descriptors_of_ok [OF w(1,3), of 64 "64 + ?data"] sz(4) by auto
  define pre where "pre = INDEX_V3_MAGIC @ u32_to_be_bytes (word_of_nat (length ess)) @ u32_to_be_bytes 0"
  have pre: "length pre = 16" "?index = pre @ concat (map index_entry (descriptors_of c 64 ess))"
    by (simp_all add: pre_def index_bytes_of_def INDEX_V3_MAGIC_def)
  obtain prior where loop: "try_repeat (read_index_entry ?index (64 + ?data)) (length ess) ([], 16, 64, None)
      = Ok (descriptors_of c 64 ess, length ?index, 64 + ?data, prior)"
    using read_index_ok [OF dok tiled, of pre "[]"] sz(4) by (auto simp: pre descriptors_tiled_end)
  show ?thesis
    using sz(4,5,6) w(2,4,6) n0 cnt length_index_bytes [of ess c]
    by (simp add: read_v3_metadata_def V3_HEADER_BYTES_def header v3_header_fields c16 [unfolded V3_HEADER_BYTES_def] u u1 [unfolded of_nat_add of_nat_numeral] t32
        FOOTER_BYTES_def INDEX_HEADER_BYTES_def MAX_SEGMENT_BYTES_def index index_header_fields loop Let_def
        validate_written [OF assms] v3_descriptor_def) (auto simp: not_less)
qed

text \<open>The chunked digest of an open file is the digest of its content.\<close>

lemma concat_read_pieces: "0 < n \<Longrightarrow> concat (read_pieces n bs) = bs"
proof (induction n bs rule: read_pieces.induct)
  case (1 n bs)
  then show ?case by (subst read_pieces.simps) simp
qed

lemma verify_file_digest_eq:
  assumes "64 \<le> length bs" and "length bs < 2 ^ 64"
  shows "verify_file_digest bs = check_footer bs"
proof -
  let ?content = "take (length bs - 64) bs"
  have "length (concat (read_pieces COPY_BUFFER_BYTES ?content)) < 2 ^ 64"
    using assms by (simp add: concat_read_pieces COPY_BUFFER_BYTES_def)
  then obtain s where s: "sha256_updates sha256_new (read_pieces COPY_BUFFER_BYTES ?content) = Some s"
    "sha_rep s ?content"
    using sha256_updates_rep [OF sha_rep_new, of "read_pieces COPY_BUFFER_BYTES ?content"]
    by (auto simp: concat_read_pieces COPY_BUFFER_BYTES_def)
  have "length ?content < 2 ^ 64"
    using assms by simp
  then have "sha256_finalize_hex s = sha256_hex ?content"
    using s(2) by (simp add: sha256_finalize_hex_def sha256_hex_def sha256_finalize_rep sha256_eq_spec)
  with s(1) assms(1) show ?thesis
    by (simp add: verify_file_digest_def check_footer_def FOOTER_BYTES_def Let_def)
qed

lemma utf8_sha256_hex: "utf8_valid (sha256_hex m)"
proof (rule utf8_valid_ascii)
  fix a assume "a \<in> set (sha256_hex m)"
  then have "is_lower_hex a" by (rule sha256_hex_lower)
  then show "a \<le> 0x7F" by (auto simp: is_lower_hex_def intro: order_trans)
qed

lemma check_footer_file: "check_footer (content @ sha256_hex content) = Ok (sha256_hex content)"
  by (simp add: check_footer_def FOOTER_BYTES_def utf8_sha256_hex)

definition v3_segment :: "codec \<Rightarrow> u64 \<Rightarrow> u64 \<Rightarrow> u64 \<Rightarrow> entry list list \<Rightarrow> segment" where
  "v3_segment c cache_id mn mx ess = build_blocked_segment
     (v3_descriptor (sha256_hex (v3_content c mn mx ess)) (length (v3_file c mn mx ess)) mn mx (concat ess))
     (File_Source (v3_file c mn mx ess)) (descriptors_of c 64 ess) cache_id"

lemma open_written:
  assumes "written c mn mx ess"
  shows "segment_open c cache_id (v3_file c mn mx ess) =
    (if length (index_bytes_of c ess) \<le> MAX_INDEX_BYTES then Ok (v3_segment c cache_id mn mx ess)
     else Err (InvalidSegment ''v3 index exceeds its bounded contract''))"
proof -
  let ?file = "v3_file c mn mx ess"
  note sz = written_sizes [OF assms]
  have len: "length ?file \<le> MAX_SEGMENT_BYTES" "V1_HEADER_BYTES + FOOTER_BYTES \<le> length ?file"
    "64 \<le> length ?file" "length ?file < 2 ^ 64"
    using sz(4,6) by (simp_all add: segment_constants)
  have magic: "subslice 0 8 ?file = SEGMENT_V3_MAGIC" "u16_from_be_bytes (subslice 8 10 ?file) = SEGMENT_FORMAT_VERSION"
    using v3_header_fields(1,2)
    by (simp_all add: v3_file_def v3_content_def subslice_append_left)
  have "verify_file_digest ?file = Ok (sha256_hex (v3_content c mn mx ess))"
    using verify_file_digest_eq [OF len(3,4)] check_footer_file by (simp add: v3_file_def)
  then show ?thesis
    using len(1,2) magic
    by (simp add: segment_open_def decode_v3_file_def read_written_metadata [OF assms] v3_segment_def)
qed

lemma descriptors_hold:
  assumes "codec_laws c" and "\<forall>es \<in> set ess. block_ok es" and "bs = pre @ enc_all (block_image c) ess @ post"
    and "\<forall>e \<in> set (concat ess). entry_in 1 u64_max e"
  shows "list_all2 (block_holds c (File_Source bs)) (descriptors_of c (length pre) ess) ess"
  using assms(2-)
proof (induction ess arbitrary: pre)
  case (Cons es ess)
  have ok: "block_ok es" using Cons.prems(1) by simp
  have "read_exact_at bs (length pre) (length (block_image c es)) = Ok (block_image c es)"
    using read_block_image [OF assms(1) ok, of bs pre "enc_all (block_image c) ess @ post"] Cons.prems(2) by simp
  then have "block_holds c (File_Source bs) (descriptor_of c (length pre) es) es"
    using decode_block_image [OF assms(1) ok, of "length pre"] ok block_ok_counts(2) [OF ok] Cons.prems(3)
    by (simp add: block_holds_def block_ok_def block_entries_ok_def) (simp add: descriptor_of_def)
  moreover have "list_all2 (block_holds c (File_Source bs)) (descriptors_of c (length (pre @ block_image c es)) ess) ess"
    using Cons.prems by (intro Cons.IH) simp_all
  ultimately show ?case by simp
qed simp

lemma v3_segment_rep:
  assumes "written c mn mx ess"
  shows "segment_rep c (v3_segment c cache_id mn mx ess) (concat ess)"
proof -
  have w: "codec_laws c" "\<forall>es \<in> set ess. block_ok es" "mn \<noteq> 0"
    "\<forall>e \<in> set (concat ess). entry_in mn mx e" "entries_sorted (concat ess)"
    using assms by (simp_all add: written_def)
  note sz = written_sizes [OF assms]
  let ?header = "v3_header (word_of_nat (length (concat ess))) mn mx (length (enc_all record_bytes (concat ess)))
    (64 + length (enc_all (block_image c) ess)) (length ess)"
  have image: "v3_file c mn mx ess = ?header @ enc_all (block_image c) ess @
      (index_bytes_of c ess @ sha256_hex (v3_content c mn mx ess))"
    by (simp add: v3_file_def v3_content_def)
  have "\<forall>e \<in> set (concat ess). entry_in 1 u64_max e"
    using w(4) entry_in_widen [OF _ w(3)] by blast
  from descriptors_hold [OF w(1,2) image this]
  have "storage_rep c (seg_storage (v3_segment c cache_id mn mx ess)) (concat ess)"
    by (auto simp: v3_segment_def build_blocked_segment_def storage_rep_def)
  moreover have "unat (word_of_nat (length (concat ess)) :: u64) = length (concat ess)"
    using sz(2) by (intro unat_u64_of_nat) simp
  then have "descriptor_rep (seg_descriptor (v3_segment c cache_id mn mx ess)) (concat ess)"
    using w(3-5) sz(3) unfolding v3_segment_def build_blocked_segment_def v3_descriptor_def descriptor_rep_def
    by simp
  ultimately show ?thesis by (simp add: segment_rep_def)
qed

section \<open>Entries of a memtable\<close>

lemma mt_entries_mem: "(key, v) \<in> set (mt_entries t) \<longleftrightarrow> (\<exists>vs. (key, vs) \<in> set (mt_versions t) \<and> v \<in> set vs)"
  by (auto simp: mt_entries_def)

lemma entries_sorted_group:
  "sorted_wrt (<) (map vv_sequence vs) \<Longrightarrow> entries_sorted (map (Pair key) vs)"
  by (induction vs) (auto simp: entries_sorted_def)

lemma mt_entries_sorted:
  assumes "mt_wf t"
  shows "entries_sorted (mt_entries t)"
proof -
  have "entries_sorted (concat (map (\<lambda>(key, vs). map (Pair key) vs) groups))"
    if "sorted_wrt (<) (map fst groups)" "\<forall>(key, vs) \<in> set groups. sorted_wrt (<) (map vv_sequence vs)" for groups
    using that
  proof (induction groups)
    case (Cons g groups)
    obtain key vs where g: "g = (key, vs)" by (cases g)
    have "\<forall>b \<in> set (concat (map (\<lambda>(key, vs). map (Pair key) vs) groups)). key < fst b"
      using Cons.prems(1) by (fastforce simp: g)
    with Cons show ?case
      by (auto simp: g entries_sorted_append entries_sorted_group)
  qed (simp add: entries_sorted_def)
  from this [of "mt_versions t"] show ?thesis
    using assms unfolding mt_entries_def mt_wf_def bt_wf_def versions_ok_def by fast
qed

lemma mt_entries_bounds:
  assumes "mt_wf t" and "e \<in> set (mt_entries t)"
  shows "minimum_of t \<le> vv_sequence (snd e)" and "vv_sequence (snd e) \<le> mt_maximum_sequence t" and "minimum_of t \<noteq> 0"
proof -
  let ?S = "vv_sequence ` snd ` set (mt_entries t)"
  have ok: "vv_sequence (snd e) \<noteq> 0 \<and> vv_sequence (snd e) \<le> mt_maximum_sequence t" if e: "e \<in> set (mt_entries t)" for e
  proof -
    obtain key v where kv: "e = (key, v)" by (cases e)
    obtain vs where vs: "(key, vs) \<in> set (mt_versions t)" "v \<in> set vs"
      using e unfolding kv mt_entries_mem by blast
    moreover have "versions_ok (mt_maximum_sequence t) vs"
      using assms(1) vs(1) unfolding mt_wf_def by blast
    ultimately show ?thesis unfolding versions_ok_def kv by simp
  qed
  show "minimum_of t \<le> vv_sequence (snd e)"
    using assms(2) by (auto simp: minimum_of_def)
  show "vv_sequence (snd e) \<le> mt_maximum_sequence t"
    using ok assms(2) by blast
  have "minimum_of t \<in> ?S"
    using assms(2) unfolding minimum_of_def by (intro Min_in) auto
  then show "minimum_of t \<noteq> 0" using ok by auto
qed

lemma encode_v3_written:
  assumes "codec_laws c" and "mt_wf t" and "encode_v3 c t = Ok bs"
  obtains ess where "mt_entries t = concat ess" "bs = v3_file c (minimum_of t) (mt_maximum_sequence t) ess"
    "written c (minimum_of t) (mt_maximum_sequence t) ess"
proof -
  obtain ess where ess: "mt_entries t = concat ess" "ess \<noteq> []" "\<forall>es \<in> set ess. block_ok es"
    "bs = v3_file c (minimum_of t) (mt_maximum_sequence t) ess"
    "length (enc_all record_bytes (mt_entries t)) \<le> MAX_SEGMENT_BYTES"
    "length (v3_content c (minimum_of t) (mt_maximum_sequence t) ess) \<le> MAX_SEGMENT_BYTES - FOOTER_BYTES"
    using encode_v3_shape [OF assms(3)] .
  have valid: "valid_entry e" if "e \<in> set (mt_entries t)" for e
    using that ess(1,3) by (auto simp: block_ok_def)
  have "hd (concat ess) \<in> set (mt_entries t)"
    using ess(1-3) by (cases ess) (auto simp: block_ok_def)
  from mt_entries_bounds(3) [OF assms(2) this]
  have "written c (minimum_of t) (mt_maximum_sequence t) ess"
    using ess assms(1) mt_entries_sorted [OF assms(2)] mt_entries_bounds(1,2) [OF assms(2)] valid
    by (simp add: written_def entry_in_def)
  with ess show thesis by (intro that)
qed

text \<open>The bytes of the index region, as the header delimits it.\<close>

definition file_index_bytes :: "bytes \<Rightarrow> nat" where
  "file_index_bytes bs = length bs - FOOTER_BYTES - unat (u64_from_be_bytes (subslice 48 56 bs))"

lemma file_index_bytes_written:
  assumes "written c mn mx ess"
  shows "file_index_bytes (v3_file c mn mx ess) = length (index_bytes_of c ess)"
proof -
  note sz = written_sizes [OF assms]
  have "unat (word_of_nat (64 + length (enc_all (block_image c) ess)) :: u64) = 64 + length (enc_all (block_image c) ess)"
    using sz(4) by (intro unat_u64_of_nat) simp
  moreover have "subslice 48 56 (v3_file c mn mx ess)
      = u64_to_be_bytes (word_of_nat (64 + length (enc_all (block_image c) ess)))"
    using v3_header_fields(9) by (simp add: v3_file_def v3_content_def subslice_append_left del: of_nat_add)
  ultimately show ?thesis
    using sz(6) by (simp add: file_index_bytes_def FOOTER_BYTES_def del: of_nat_add)
qed

section \<open>Example tables\<close>

text \<open>A codec that satisfies the laws: it stores blocks uncompressed behind their length.\<close>

definition stored_codec :: codec where
  "stored_codec = \<lparr>compress_prepend_size = (\<lambda>bs. rev (u32_to_be_bytes (word_of_nat (length bs))) @ bs),
     decompress_size_prepended = (\<lambda>cs. Some (drop 4 cs)), ring_sha256 = sha256\<rparr>"

lemma stored_codec_laws: "codec_laws stored_codec"
proof -
  have "u32_from_le_bytes (rev (u32_to_be_bytes w)) = w" for w
    using from_to_be_bytes(2) [of w] by (simp add: u32_from_le_bytes_def u32_from_be_bytes_def)
  then show ?thesis by (simp add: codec_laws_def stored_codec_def)
qed

lemma encode_v3_step_ok:
  assumes "valid_entry e" and "bb_total_record_bytes st + length (record_bytes e) < 2 ^ 64"
  shows "\<exists>st'. encode_v3_step (fst e) (snd e) st = Ok st' \<and>
    bb_total_record_bytes st' = bb_total_record_bytes st + length (record_bytes e)"
proof (cases "bb_current st \<noteq> [] \<and>
    usize_saturating_add (length (bb_current st)) (length (record_bytes e)) > SEGMENT_BLOCK_TARGET_BYTES")
  case True
  then show ?thesis
    using assms encode_record_eq [OF assms(1)] unfolding encode_v3_step_def
    by (simp add: usize_checked_add_def Let_def)
next
  case False
  then show ?thesis
    using assms encode_record_eq [OF assms(1)] unfolding encode_v3_step_def
    by (simp only: if_False) (simp add: usize_checked_add_def Let_def)
qed

lemma builder_loop_ok:
  assumes "\<forall>e \<in> set es. valid_entry e" and "bb_total_record_bytes st + length (enc_all record_bytes es) < 2 ^ 64"
  shows "\<exists>st'. try_fold (\<lambda>e. encode_v3_step (fst e) (snd e)) es st = Ok st'"
  using assms
proof (induction es arbitrary: st)
  case (Cons e es)
  then obtain st1 where "encode_v3_step (fst e) (snd e) st = Ok st1"
    "bb_total_record_bytes st1 = bb_total_record_bytes st + length (record_bytes e)"
    using encode_v3_step_ok [of e st] by auto
  with Cons show ?case by (simp add: add.assoc)
qed simp

lemma encode_v3_total:
  assumes "es = mt_entries t" and "es \<noteq> []" and "\<forall>e \<in> set es. valid_entry e"
    and "length (enc_all record_bytes es) \<le> MAX_SEGMENT_BYTES"
  shows "\<exists>ess. es = concat ess \<and> (\<forall>b \<in> set ess. block_ok b) \<and>
    (length (v3_content c (minimum_of t) (mt_maximum_sequence t) ess) \<le> MAX_SEGMENT_BYTES - FOOTER_BYTES \<longrightarrow>
     encode_v3 c t = Ok (v3_file c (minimum_of t) (mt_maximum_sequence t) ess))"
proof -
  let ?st0 = "\<lparr>bb_blocks = [], bb_current = [], bb_current_entries = 0, bb_current_last_key = [], bb_total_record_bytes = 0\<rparr>"
  have flat: "try_fold (\<lambda>(key, vs) st. try_fold (encode_v3_step key) vs st) (mt_all_versions t) ?st0
      = try_fold (\<lambda>e. encode_v3_step (fst e) (snd e)) es ?st0"
    unfolding nested_try_fold assms(1) by (simp add: mt_entries_def mt_all_versions_def)
  obtain st where loop: "try_fold (\<lambda>e. encode_v3_step (fst e) (snd e)) es ?st0 = Ok st"
    using builder_loop_ok [OF assms(3), of ?st0] assms(4) by (auto simp: MAX_SEGMENT_BYTES_def)
  have "builder_rep [] [] [] ?st0"
    by (simp add: builder_rep_def)
  then obtain ess0 cur where rep: "builder_rep es ess0 cur st"
    using builder_loop_rep [OF loop, of "[]"] by auto
  define ess where "ess = (if cur = [] then ess0 else ess0 @ [cur])"
  have es: "es = concat ess" and ok: "\<forall>b \<in> set ess. block_ok b"
    using rep by (auto simp: builder_rep_def ess_def)
  have "length es \<le> length (enc_all record_bytes es)"
    by (induction es) (simp_all add: length_record_bytes)
  then have "u64_try_from (length es) = Some (word_of_nat (length es))"
    using assms(4) by (simp add: u64_try_from_def MAX_SEGMENT_BYTES_def)
  then have "encode_v3 c t = encode_v3_finish c (word_of_nat (length es)) (minimum_of t) (mt_maximum_sequence t) st"
    using loop assms(2)
    unfolding encode_v3_def flat minimum_of_eq mt_version_count_entries assms(1) [symmetric] by simp
  with es ok assms(4) show ?thesis
    unfolding encode_v3_finish_rep [OF rep ess_def] by (intro exI [of _ ess]) simp
qed

text \<open>Entries above the block target, or a single entry, get a block each.\<close>

lemma singleton_blocks:
  assumes "es = concat ess" and "\<forall>b \<in> set ess. block_ok b"
    and "length es = 1 \<or> (\<forall>e \<in> set es. length (record_bytes e) > SEGMENT_BLOCK_TARGET_BYTES)"
  shows "ess = map (\<lambda>e. [e]) es"
proof -
  have single: "length b = 1" if b: "b \<in> set ess" for b
  proof (rule ccontr)
    assume long: "length b \<noteq> 1"
    have ok: "b \<noteq> []" "length (enc_all record_bytes b) \<le> SEGMENT_BLOCK_TARGET_BYTES"
      using assms(2) b long by (auto simp: block_ok_def)
    then obtain e b' where eb: "b = e # b'" by (cases b) auto
    with ok have small: "length (record_bytes e) \<le> SEGMENT_BLOCK_TARGET_BYTES" by simp
    have e: "e \<in> set es"
      using b eb by (auto simp: assms(1) intro!: bexI [of _ b])
    with small assms(3) have "length es = 1" by force
    moreover have "length b \<le> length es"
      using b member_le_sum_list [of "length b" "map length ess"] by (simp add: assms(1) length_concat)
    ultimately show False using ok(1) long by (cases b) auto
  qed
  have "b = [hd b]" if "b \<in> set ess" for b
    using single [OF that] by (cases b) auto
  then show ?thesis
    unfolding assms(1)
  proof (induction ess)
    case (Cons b ess)
    from Cons.prems [of b] obtain e where "b = [e]" by auto
    with Cons show ?case by simp
  qed simp
qed

lemma length_singleton_index:
  "length (concat (map index_entry (descriptors_of c offset (map (\<lambda>e. [e]) es)))) = (\<Sum>e \<leftarrow> es. 104 + length (fst e))"
proof (induction es arbitrary: offset)
  case (Cons e es)
  have "length (bd_digest (descriptor_of c offset [e])) = 32" "bd_last_key (descriptor_of c offset [e]) = fst e"
    by (simp_all add: descriptor_of_def)
  then show ?case
    using Cons index_entry_fields(1,2) [of "descriptor_of c offset [e]"] by simp
qed simp

lemma length_singleton_content:
  "length (v3_content stored_codec mn mx (map (\<lambda>e. [e]) es))
    = 80 + (\<Sum>e \<leftarrow> es. 4 + length (record_bytes e)) + (\<Sum>e \<leftarrow> es. 104 + length (fst e))"
proof -
  have "length (enc_all (block_image stored_codec) (map (\<lambda>e. [e]) es)) = (\<Sum>e \<leftarrow> es. 4 + length (record_bytes e))"
    by (induction es) (simp_all add: block_image_def stored_codec_def)
  then show ?thesis
    by (simp add: v3_content_def index_bytes_of_def INDEX_V3_MAGIC_def length_singleton_index)
qed

lemma singleton_table:
  assumes "mt_wf t" and "es = mt_entries t" and "es \<noteq> []" and "\<forall>e \<in> set es. valid_entry e"
    and "length es = 1 \<or> (\<forall>e \<in> set es. length (record_bytes e) > SEGMENT_BLOCK_TARGET_BYTES)"
    and "80 + (\<Sum>e \<leftarrow> es. 4 + length (record_bytes e)) + (\<Sum>e \<leftarrow> es. 104 + length (fst e)) \<le> MAX_SEGMENT_BYTES - FOOTER_BYTES"
  shows "\<exists>bs. encode_v3 stored_codec t = Ok bs \<and> file_index_bytes bs = 16 + (\<Sum>e \<leftarrow> es. 104 + length (fst e))"
proof -
  have "length (enc_all record_bytes es) \<le> (\<Sum>e \<leftarrow> es. 4 + length (record_bytes e))"
    by (induction es) simp_all
  then have "length (enc_all record_bytes es) \<le> MAX_SEGMENT_BYTES"
    using assms(6) by simp
  from encode_v3_total [OF assms(2-4) this, of stored_codec] obtain ess
    where ess: "es = concat ess" "\<forall>b \<in> set ess. block_ok b"
      "length (v3_content stored_codec (minimum_of t) (mt_maximum_sequence t) ess) \<le> MAX_SEGMENT_BYTES - FOOTER_BYTES \<longrightarrow>
       encode_v3 stored_codec t = Ok (v3_file stored_codec (minimum_of t) (mt_maximum_sequence t) ess)"
    by blast
  have single: "ess = map (\<lambda>e. [e]) es"
    using singleton_blocks [OF ess(1,2) assms(5)] .
  have enc: "encode_v3 stored_codec t = Ok (v3_file stored_codec (minimum_of t) (mt_maximum_sequence t) ess)"
    using ess(3) assms(6) unfolding single length_singleton_content by simp
  obtain ess' where "v3_file stored_codec (minimum_of t) (mt_maximum_sequence t) ess
      = v3_file stored_codec (minimum_of t) (mt_maximum_sequence t) ess'" "mt_entries t = concat ess'"
    "written stored_codec (minimum_of t) (mt_maximum_sequence t) ess'"
    using encode_v3_written [OF stored_codec_laws assms(1) enc] by blast
  moreover from this have "ess' = map (\<lambda>e. [e]) es"
    using assms(2,5) by (intro singleton_blocks) (auto simp: written_def)
  ultimately have "written stored_codec (minimum_of t) (mt_maximum_sequence t) ess"
    using single by simp
  from file_index_bytes_written [OF this] enc show ?thesis
    by (simp add: index_bytes_of_def INDEX_V3_MAGIC_def single length_singleton_index)
qed

section \<open>Properties\<close>

lemma encoded_opens:
  assumes "codec_laws c" and "mt_wf t" and "encode_v3 c t = Ok bs" and "file_index_bytes bs \<le> MAX_INDEX_BYTES"
  obtains seg where "segment_open c cache_id bs = Ok seg" and "segment_rep c seg (mt_entries t)"
    and "sd_id (seg_descriptor seg) = sha256_hex (take (length bs - FOOTER_BYTES) bs)"
    and "sd_minimum_sequence (seg_descriptor seg) = minimum_of t"
    and "sd_maximum_sequence (seg_descriptor seg) = mt_maximum_sequence t"
proof -
  obtain ess where ess: "mt_entries t = concat ess" "bs = v3_file c (minimum_of t) (mt_maximum_sequence t) ess"
    "written c (minimum_of t) (mt_maximum_sequence t) ess"
    using encode_v3_written [OF assms(1-3)] .
  have "take (length bs - FOOTER_BYTES) bs = v3_content c (minimum_of t) (mt_maximum_sequence t) ess"
    by (simp add: ess(2) v3_file_def FOOTER_BYTES_def)
  then show thesis
    using open_written [OF ess(3), of cache_id] v3_segment_rep [OF ess(3), of cache_id] assms(4) ess(1)
    by (intro that [of "v3_segment c cache_id (minimum_of t) (mt_maximum_sequence t) ess"])
      (simp_all add: file_index_bytes_written [OF ess(3)] ess(2) v3_segment_def build_blocked_segment_def v3_descriptor_def)
qed


definition small_table :: memtable where
  "small_table = \<lparr>mt_versions = [([1], [\<lparr>vv_sequence = 3, vv_value = Some [5]\<rparr>])], mt_maximum_sequence = 4,
     mt_approximate_bytes = 0\<rparr>"

lemma small_table_encodes:
  "\<exists>bs. encode_v3 stored_codec small_table = Ok bs \<and> file_index_bytes bs \<le> MAX_INDEX_BYTES"
proof -
  have "mt_wf small_table"
    by (simp add: mt_wf_def small_table_def bt_wf_def versions_ok_def)
  moreover have "mt_entries small_table = [([1], \<lparr>vv_sequence = 3, vv_value = Some [5]\<rparr>)]"
    by (simp add: mt_entries_def small_table_def)
  ultimately show ?thesis
    using singleton_table [of small_table]
    by (auto simp: valid_entry_def record_constants segment_constants length_record_bytes entry_value_def)
qed



text \<open>Sixty-five deletions of keys of the maximal length: the records take 65 MiB, and so does the index.\<close>

definition wide_key :: "nat \<Rightarrow> bytes" where
  "wide_key i = replicate 1048575 0 @ [word_of_nat i]"

definition wide_table :: memtable where
  "wide_table = \<lparr>mt_versions = map (\<lambda>i. (wide_key i, [\<lparr>vv_sequence = word_of_nat (Suc i), vv_value = None\<rparr>])) [0..<65],
     mt_maximum_sequence = 65, mt_approximate_bytes = 0\<rparr>"

lemma wide_key_less: "i < j \<Longrightarrow> j < 65 \<Longrightarrow> wide_key i < wide_key j"
proof -
  assume ij: "i < j" "j < 65"
  have "unat (word_of_nat i :: u8) = i" "unat (word_of_nat j :: u8) = j"
    using ij by (simp_all add: unat_of_nat)
  then have "(word_of_nat i :: u8) < word_of_nat j"
    using ij by (simp add: word_less_nat_alt)
  then show ?thesis
    unfolding wide_key_def list_less_def by (intro lexord_append_leftI) simp
qed

lemma wide_table_wf: "mt_wf wide_table"
proof -
  have seq: "unat (word_of_nat (Suc i) :: u64) = Suc i" if "i < 65" for i
    using that by (intro unat_u64_of_nat) simp
  have "sorted_wrt (<) (map fst (mt_versions wide_table))"
    by (auto simp: wide_table_def sorted_wrt_iff_nth_less wide_key_less)
  moreover have "versions_ok 65 [\<lparr>vv_sequence = word_of_nat (Suc i), vv_value = None\<rparr>]" "wide_key i \<noteq> []" if "i < 65" for i
  proof -
    have "word_of_nat (Suc i) \<noteq> (0 :: u64)"
      using seq [OF that] by (metis nat.simps(3) unsigned_0)
    moreover have "word_of_nat (Suc i) \<le> (65 :: u64)"
      using seq [OF that] that by (simp only: word_le_nat_alt) simp
    ultimately show "versions_ok 65 [\<lparr>vv_sequence = word_of_nat (Suc i), vv_value = None\<rparr>]"
      by (simp add: versions_ok_def del: of_nat_Suc)
  qed (simp add: wide_key_def)
  ultimately show ?thesis
    by (auto simp: mt_wf_def bt_wf_def wide_table_def)
qed

lemma wide_table_entries:
  "mt_entries wide_table = map (\<lambda>i. (wide_key i, \<lparr>vv_sequence = word_of_nat (Suc i), vv_value = None\<rparr>)) [0..<65]"
proof -
  have "concat (map (\<lambda>i. [f i]) xs) = map f xs" for f :: "nat \<Rightarrow> entry" and xs
    by (induction xs) simp_all
  from this [of "\<lambda>i. (wide_key i, \<lparr>vv_sequence = word_of_nat (Suc i), vv_value = None\<rparr>)"] show ?thesis
    by (simp add: mt_entries_def wide_table_def comp_def)
qed

lemma wide_table_encodes:
  "\<exists>bs. encode_v3 stored_codec wide_table = Ok bs \<and> file_index_bytes bs > MAX_INDEX_BYTES"
proof -
  let ?es = "mt_entries wide_table"
  have key: "length (wide_key i) = 1048576" "wide_key i \<noteq> []" for i
    by (simp_all add: wide_key_def)
  have rec: "length (record_bytes e) = 1048596" "valid_entry e" "length (fst e) = 1048576" if "e \<in> set ?es" for e
    using that by (auto simp: wide_table_entries length_record_bytes entry_value_def key valid_entry_def record_constants)
  have sums: "(\<Sum>e \<leftarrow> ?es. 4 + length (record_bytes e)) = 65 * 1048600"
    "(\<Sum>e \<leftarrow> ?es. 104 + length (fst e)) = 65 * 1048680"
    by (simp_all add: wide_table_entries comp_def length_record_bytes entry_value_def key sum_list_triv)
  have "\<exists>bs. encode_v3 stored_codec wide_table = Ok bs \<and> file_index_bytes bs = 16 + (\<Sum>e \<leftarrow> ?es. 104 + length (fst e))"
    using rec sums
    by (intro singleton_table wide_table_wf)
      (auto simp: segment_constants wide_table_entries [THEN arg_cong [of _ _ "\<lambda>xs. xs = []"]])
  then show ?thesis
    unfolding sums(2) by (auto simp: MAX_INDEX_BYTES_def)
qed


end
