(* ===== verification/Block_Cache.thy ===== *)
theory Block_Cache
  imports Segment_Format "HOL-Library.Product_Lexorder" "HOL-Library.Multiset"
begin

text \<open>
  The shared block cache (\<^verbatim>\<open>crates/vyrm-kv/src/segment.rs\<close>, \<open>BlockCache\<close> and
  \<open>Segment::load_block\<close>): least-recently-used eviction over a lazily cleaned heap of usage
  stamps, with stamp renumbering when the clock wraps. The hash map is its entries in key order and the
  binary heap its elements in ascending order; no operation depends on more than that. The two
  critical sections of \<open>load_block\<close> are separate definitions, because the lock is released
  between them.
\<close>

section \<open>Model\<close>

type_synonym cache_key = "u64 \<times> nat"

record cache_entry =
  ce_value :: decoded_block
  ce_last_used :: u64

record block_cache =
  capacity_bytes :: nat
  resident_bytes :: nat
  cache_values :: "(cache_key, cache_entry) btree"
  cache_order :: "(u64 \<times> cache_key) list"
  cache_clock :: u64
  cache_hits :: u64
  cache_misses :: u64
  cache_evictions :: u64

record block_cache_stats =
  st_capacity_bytes :: nat
  st_resident_bytes :: nat
  st_entries :: nat
  st_hits :: u64
  st_misses :: u64
  st_evictions :: u64

definition DEFAULT_BLOCK_CACHE_BYTES :: nat where
  "DEFAULT_BLOCK_CACHE_BYTES = 4 * 1024 * 1024"

definition new_block_cache :: "nat \<Rightarrow> block_cache" where
  "new_block_cache capacity = \<lparr>capacity_bytes = capacity, resident_bytes = 0, cache_values = [], cache_order = [],
     cache_clock = 0, cache_hits = 0, cache_misses = 0, cache_evictions = 0\<rparr>"

definition block_cache_stats :: "block_cache \<Rightarrow> block_cache_stats" where
  "block_cache_stats cache = \<lparr>st_capacity_bytes = capacity_bytes cache, st_resident_bytes = resident_bytes cache,
     st_entries = length (cache_values cache), st_hits = cache_hits cache, st_misses = cache_misses cache,
     st_evictions = cache_evictions cache\<rparr>"

definition rebuild_order :: "block_cache \<Rightarrow> block_cache" where
  "rebuild_order cache =
     cache\<lparr>cache_order := sort (map (\<lambda>(key, entry). (ce_last_used entry, key)) (cache_values cache))\<rparr>"

definition maybe_rebuild_order :: "block_cache \<Rightarrow> block_cache" where
  "maybe_rebuild_order cache =
     (if length (cache_order cache) > max (usize_saturating_mul (length (cache_values cache)) 2) 32
      then rebuild_order cache else cache)"

definition renumber :: "block_cache \<Rightarrow> block_cache" where
  "renumber cache =
     (let ordered = sort (map (\<lambda>(key, entry). (ce_last_used entry, key)) (cache_values cache));
          values = fold (\<lambda>(index, (_, key)) vs.
                      bt_adjust key (\<lambda>entry. entry\<lparr>ce_last_used := word_of_nat (index + 1)\<rparr>) vs)
                    (List.enumerate 0 ordered) (cache_values cache)
      in rebuild_order (cache\<lparr>cache_values := values, cache_clock := word_of_nat (length values)\<rparr>))"

definition next_stamp :: "block_cache \<Rightarrow> u64 \<times> block_cache" where
  "next_stamp cache =
     (let cache = cache\<lparr>cache_clock := cache_clock cache + 1\<rparr>;
          cache = (if cache_clock cache = 0 then renumber cache else cache)
      in (cache_clock cache, cache))"

definition push_order :: "u64 \<Rightarrow> cache_key \<Rightarrow> block_cache \<Rightarrow> block_cache" where
  "push_order stamp key cache = cache\<lparr>cache_order := insort (stamp, key) (cache_order cache)\<rparr>"

text \<open>The caller has checked that the key is present.\<close>

definition touch :: "cache_key \<Rightarrow> block_cache \<Rightarrow> block_cache" where
  "touch key cache =
     (let (stamp, cache) = next_stamp cache;
          cache = cache\<lparr>cache_values :=
            bt_adjust key (\<lambda>entry. entry\<lparr>ce_last_used := stamp\<rparr>) (cache_values cache)\<rparr>
      in push_order stamp key cache)"

text \<open>The eviction loop; its heap shrinks in every round.\<close>

function evict_until :: "nat \<Rightarrow> block_cache \<Rightarrow> block_cache" where
  "evict_until decoded_bytes cache =
     (if usize_saturating_add (resident_bytes cache) decoded_bytes > capacity_bytes cache then
        (case cache_order cache of
           [] \<Rightarrow> cache
         | (stamp, oldest) # order \<Rightarrow>
             (let cache = cache\<lparr>cache_order := order\<rparr> in
              if (case bt_get (cache_values cache) oldest of None \<Rightarrow> False | Some entry \<Rightarrow> ce_last_used entry \<noteq> stamp)
              then evict_until decoded_bytes cache
              else (case bt_get (cache_values cache) oldest of
                      None \<Rightarrow> evict_until decoded_bytes cache
                    | Some removed \<Rightarrow>
                        evict_until decoded_bytes
                          (cache\<lparr>cache_values := bt_remove oldest (cache_values cache),
                                 resident_bytes := resident_bytes cache - block_resident_bytes (ce_value removed),
                                 cache_evictions := saturating_add (cache_evictions cache) 1\<rparr>))))
      else cache)"
  by pat_completeness auto
termination
  by (relation "measure (\<lambda>(_, cache). length (cache_order cache))") (auto simp: Let_def)

declare evict_until.simps [simp del]

text \<open>The first critical section: a hit is counted and moved to the front, a miss is counted.\<close>

definition cache_lookup :: "cache_key \<Rightarrow> block_cache \<Rightarrow> decoded_block option \<times> block_cache" where
  "cache_lookup key cache =
     (case bt_get (cache_values cache) key of
        Some _ \<Rightarrow>
          (let cache = touch key (cache\<lparr>cache_hits := saturating_add (cache_hits cache) 1\<rparr>);
               val = map_option ce_value (bt_get (cache_values cache) key)
           in (val, maybe_rebuild_order cache))
      | None \<Rightarrow> (None, cache\<lparr>cache_misses := saturating_add (cache_misses cache) 1\<rparr>))"

text \<open>The second critical section: another reader may have inserted the block in between.\<close>

definition cache_insert :: "cache_key \<Rightarrow> decoded_block \<Rightarrow> block_cache \<Rightarrow> decoded_block \<times> block_cache" where
  "cache_insert key decoded cache =
     (case bt_get (cache_values cache) key of
        Some _ \<Rightarrow>
          (let cache = touch key cache;
               val = (case bt_get (cache_values cache) key of Some entry \<Rightarrow> ce_value entry | None \<Rightarrow> decoded)
           in (val, maybe_rebuild_order cache))
      | None \<Rightarrow>
          (let decoded_bytes = block_resident_bytes decoded in
           if decoded_bytes \<le> capacity_bytes cache then
             (let cache = evict_until decoded_bytes cache;
                  cache = cache\<lparr>resident_bytes := usize_saturating_add (resident_bytes cache) decoded_bytes\<rparr>;
                  (stamp, cache) = next_stamp cache;
                  cache = cache\<lparr>cache_values :=
                    bt_insert key \<lparr>ce_value = decoded, ce_last_used = stamp\<rparr> (cache_values cache)\<rparr>
              in (decoded, maybe_rebuild_order (push_order stamp key cache)))
           else (decoded, cache)))"

type_synonym 'a cached = "block_cache \<Rightarrow> 'a kv_result \<times> block_cache"

definition load_block :: "codec \<Rightarrow> segment \<Rightarrow> nat \<Rightarrow> decoded_block cached" where
  "load_block c seg block_index cache =
     (case seg_storage seg of
        Legacy _ _ \<Rightarrow> (Err (InvalidSegment ''legacy segment has no block table''), cache)
      | Blocked source blocks cache_id \<Rightarrow>
          (let key = (cache_id, block_index) in
           case cache_lookup key cache of
             (Some val, cache) \<Rightarrow> (Ok val, cache)
           | (None, cache) \<Rightarrow>
               (case rbind (read_and_decode_block c source (blocks ! block_index)) decoded_block_parse of
                  Inl e \<Rightarrow> (Err e, cache)
                | Inr decoded \<Rightarrow> (let (val, cache) = cache_insert key decoded cache in (Ok val, cache)))))"

section \<open>Well-formed caches\<close>

definition live_order :: "block_cache \<Rightarrow> bool" where
  "live_order cache \<longleftrightarrow> (\<forall>key entry. bt_get (cache_values cache) key = Some entry \<longrightarrow>
     (ce_last_used entry, key) \<in> set (cache_order cache))"

definition cached_bytes :: "(cache_key, cache_entry) btree \<Rightarrow> nat" where
  "cached_bytes vs = sum_list (map (\<lambda>(_, entry). block_resident_bytes (ce_value entry)) vs)"

definition cache_shape :: "block_cache \<Rightarrow> bool" where
  "cache_shape cache \<longleftrightarrow> bt_wf (cache_values cache) \<and> sorted (cache_order cache) \<and> live_order cache"

definition cache_wf :: "block_cache \<Rightarrow> bool" where
  "cache_wf cache \<longleftrightarrow> cache_shape cache \<and>
     resident_bytes cache = cached_bytes (cache_values cache) \<and>
     resident_bytes cache \<le> capacity_bytes cache \<and> capacity_bytes cache < 2 ^ 64 - 1"

text \<open>What the cache holds, without the usage stamps.\<close>

definition cache_content :: "block_cache \<Rightarrow> cache_key \<rightharpoonup> decoded_block" where
  "cache_content cache key = map_option ce_value (bt_get (cache_values cache) key)"

lemma new_block_cache_wf: "capacity < 2 ^ 64 - 1 \<Longrightarrow> cache_wf (new_block_cache capacity)"
  by (simp add: cache_wf_def cache_shape_def new_block_cache_def live_order_def cached_bytes_def)

lemma live_order_rebuild:
  assumes "bt_wf (cache_values cache)"
  shows "live_order (rebuild_order cache)"
proof -
  have "(ce_last_used entry, key) \<in> (\<lambda>(key, entry). (ce_last_used entry, key)) ` set (cache_values cache)"
    if "bt_get (cache_values cache) key = Some entry" for key entry
    using that bt.entries_mem [OF assms, of key entry] by force
  then show ?thesis by (simp add: live_order_def rebuild_order_def)
qed

lemma rebuild_order_simps [simp]:
  "cache_values (rebuild_order cache) = cache_values cache"
  "capacity_bytes (rebuild_order cache) = capacity_bytes cache"
  "resident_bytes (rebuild_order cache) = resident_bytes cache"
  "cache_content (rebuild_order cache) = cache_content cache"
  "sorted (cache_order (rebuild_order cache))"
  by (simp_all add: rebuild_order_def cache_content_def fun_eq_iff)

lemma rebuild_order_wf: "cache_wf cache \<Longrightarrow> cache_wf (rebuild_order cache)"
  by (simp add: cache_wf_def cache_shape_def live_order_rebuild)

lemma maybe_rebuild_order_wf: "cache_wf cache \<Longrightarrow> cache_wf (maybe_rebuild_order cache)"
  by (simp add: maybe_rebuild_order_def rebuild_order_wf)

lemma maybe_rebuild_order_content [simp]: "cache_content (maybe_rebuild_order cache) = cache_content cache"
  by (simp add: maybe_rebuild_order_def)

lemma cached_bytes_adjust: "(\<And>e. ce_value (f e) = ce_value e) \<Longrightarrow> cached_bytes (bt_adjust key f vs) = cached_bytes vs"
  by (induction vs) (auto simp: cached_bytes_def bt_adjust_def)

lemma content_adjust:
  "(\<And>e. ce_value (f e) = ce_value e) \<Longrightarrow>
    map_option ce_value (bt_get (bt_adjust key f vs) k) = map_option ce_value (bt_get vs k)"
  by (cases "bt_get vs k") (auto simp: bt_get_adjust)

text \<open>Renumbering changes stamps only.\<close>

definition same_blocks :: "(cache_key, cache_entry) btree \<Rightarrow> (cache_key, cache_entry) btree \<Rightarrow> bool" where
  "same_blocks vs vs' \<longleftrightarrow> bt_wf vs' = bt_wf vs \<and> cached_bytes vs' = cached_bytes vs \<and> length vs' = length vs \<and>
     (\<forall>k. map_option ce_value (bt_get vs' k) = map_option ce_value (bt_get vs k))"

lemma same_blocks_restamp: "same_blocks vs (bt_adjust key (\<lambda>entry. entry\<lparr>ce_last_used := stamp\<rparr>) vs)"
  by (simp add: same_blocks_def bt_wf_adjust cached_bytes_adjust content_adjust)

lemma same_blocks_renumber:
  "same_blocks vs (fold (\<lambda>(index, (_, key)) vs. bt_adjust key (\<lambda>entry. entry\<lparr>ce_last_used := word_of_nat (index + 1)\<rparr>) vs) xs vs)"
proof (induction xs arbitrary: vs)
  case (Cons x xs)
  obtain i st k where x: "x = (i, st, k)" by (cases x) auto
  show ?case
    using Cons.IH [of "bt_adjust k (\<lambda>entry. entry\<lparr>ce_last_used := word_of_nat (i + 1)\<rparr>) vs"]
      same_blocks_restamp [of vs k "word_of_nat (i + 1)"]
    by (simp add: x same_blocks_def)
qed (simp add: same_blocks_def)

definition same_cache :: "block_cache \<Rightarrow> block_cache \<Rightarrow> bool" where
  "same_cache cache cache' \<longleftrightarrow> (cache_shape cache \<longrightarrow> cache_shape cache') \<and> cache_content cache' = cache_content cache \<and>
     cached_bytes (cache_values cache') = cached_bytes (cache_values cache) \<and>
     resident_bytes cache' = resident_bytes cache \<and> capacity_bytes cache' = capacity_bytes cache"

lemma same_cache_wf: "same_cache cache cache' \<Longrightarrow> cache_wf cache \<Longrightarrow> cache_wf cache'"
  by (simp add: same_cache_def cache_wf_def)

lemma renumber_same: "same_cache cache (renumber cache)"
proof -
  let ?vs = "fold (\<lambda>(index, (_, key)) vs. bt_adjust key (\<lambda>entry. entry\<lparr>ce_last_used := word_of_nat (index + 1)\<rparr>) vs)
    (List.enumerate 0 (sort (map (\<lambda>(key, entry). (ce_last_used entry, key)) (cache_values cache)))) (cache_values cache)"
  have "same_blocks (cache_values cache) ?vs" by (rule same_blocks_renumber)
  then show ?thesis
    unfolding renumber_def Let_def
    by (auto simp: same_cache_def cache_shape_def same_blocks_def cache_content_def intro!: live_order_rebuild)
qed

lemma next_stamp_same:
  assumes "next_stamp cache = (stamp, cache')"
  shows "same_cache cache cache'"
proof -
  let ?c = "cache\<lparr>cache_clock := cache_clock cache + 1\<rparr>"
  have "same_cache cache ?c"
    by (simp add: same_cache_def cache_shape_def live_order_def cache_content_def fun_eq_iff)
  with assms renumber_same [of ?c] show ?thesis
    by (auto simp: next_stamp_def Let_def same_cache_def split: if_splits)
qed

lemma touch_same: "same_cache cache (touch key cache)"
proof -
  obtain stamp cache1 where ns: "next_stamp cache = (stamp, cache1)" by (cases "next_stamp cache")
  note same1 = next_stamp_same [OF ns]
  let ?vs = "bt_adjust key (\<lambda>entry. entry\<lparr>ce_last_used := stamp\<rparr>) (cache_values cache1)"
  have same: "same_blocks (cache_values cache1) ?vs" by (rule same_blocks_restamp)
  have "live_order (touch key cache)" if "live_order cache1"
    using that by (auto simp: touch_def ns push_order_def live_order_def set_insort_key bt_get_adjust)
  with same1 same show ?thesis
    by (auto simp: touch_def ns push_order_def same_cache_def cache_shape_def same_blocks_def sorted_insort
        cache_content_def fun_eq_iff)
qed

section \<open>Eviction\<close>

lemma cached_bytes_remove:
  assumes "bt_wf vs" and "bt_get vs key = Some entry"
  shows "cached_bytes vs = block_resident_bytes (ce_value entry) + cached_bytes (bt_remove key vs)"
  using assms
proof (induction vs)
  case (Cons x vs)
  obtain k e where x: "x = (k, e)" by (cases x)
  have wf: "bt_wf vs" and less: "\<forall>k' \<in> fst ` set vs. k < k'"
    using Cons.prems(1) by (auto simp: x bt_wf_def)
  show ?case
  proof (cases "k = key")
    case True
    then have "bt_remove key vs = vs"
      using less by (auto simp: bt_remove_def filter_id_conv)
    with True Cons.prems(2) show ?thesis
      by (simp add: x cached_bytes_def bt_remove_def bt_get_def)
  next
    case False
    with Cons.IH [OF wf] Cons.prems(2) show ?thesis
      by (simp add: x cached_bytes_def bt_remove_def bt_get_def)
  qed
qed simp

lemma cached_bytes_insert:
  assumes "bt_get vs key = None"
  shows "cached_bytes (bt_insert key entry vs) = block_resident_bytes (ce_value entry) + cached_bytes vs"
  using assms by (induction vs) (auto simp: cached_bytes_def bt_get_def split: if_splits)

lemma empty_values:
  assumes "cache_wf cache" and "cache_order cache = []"
  shows "cache_values cache = []"
proof (rule ccontr)
  assume "cache_values cache \<noteq> []"
  then obtain key entry where "(key, entry) \<in> set (cache_values cache)" by (cases "cache_values cache") auto
  then have "bt_get (cache_values cache) key = Some entry"
    using assms(1) bt.entries_mem [of "cache_values cache"] by (simp add: cache_wf_def cache_shape_def)
  with assms show False
    unfolding cache_wf_def cache_shape_def live_order_def by (metis empty_iff list.set(1))
qed

text \<open>One round of the loop on a well-formed cache.\<close>

definition drop_stale :: "block_cache \<Rightarrow> block_cache" where
  "drop_stale cache = cache\<lparr>cache_order := tl (cache_order cache)\<rparr>"

definition drop_oldest :: "cache_key \<Rightarrow> cache_entry \<Rightarrow> block_cache \<Rightarrow> block_cache" where
  "drop_oldest key entry cache = (drop_stale cache)\<lparr>cache_values := bt_remove key (cache_values cache),
     resident_bytes := resident_bytes cache - block_resident_bytes (ce_value entry),
     cache_evictions := saturating_add (cache_evictions cache) 1\<rparr>"

lemma evict_until_cases:
  assumes "cache_wf cache" and "decoded \<le> capacity_bytes cache"
  obtains (enough) "evict_until decoded cache = cache" "resident_bytes cache + decoded \<le> capacity_bytes cache"
  | (stale) "evict_until decoded cache = evict_until decoded (drop_stale cache)" "cache_wf (drop_stale cache)"
      "length (cache_order (drop_stale cache)) < length (cache_order cache)"
  | (oldest) key entry where "evict_until decoded cache = evict_until decoded (drop_oldest key entry cache)"
      "bt_get (cache_values cache) key = Some entry" "cache_wf (drop_oldest key entry cache)"
      "length (cache_order (drop_oldest key entry cache)) < length (cache_order cache)"
      "\<forall>k e. bt_get (cache_values cache) k = Some e \<longrightarrow> (ce_last_used entry, key) \<le> (ce_last_used e, k)"
proof (cases "usize_saturating_add (resident_bytes cache) decoded > capacity_bytes cache")
  case False
  then have "evict_until decoded cache = cache"
    by (subst evict_until.simps) simp
  moreover have "resident_bytes cache + decoded \<le> capacity_bytes cache"
    using False assms by (auto simp: usize_saturating_add_def cache_wf_def min_def split: if_splits)
  ultimately show thesis by (rule enough)
next
  case True
  have wf: "bt_wf (cache_values cache)" "live_order cache" "sorted (cache_order cache)"
    and bytes: "resident_bytes cache = cached_bytes (cache_values cache)"
    using assms(1) by (simp_all add: cache_wf_def cache_shape_def)
  show thesis
  proof (cases "cache_order cache")
    case Nil
    then have "resident_bytes cache = 0"
      using empty_values [OF assms(1)] bytes by (simp add: cached_bytes_def)
    with True assms show thesis by (simp add: usize_saturating_add_def)
  next
    case (Cons x order)
    obtain stamp key where x: "x = (stamp, key)" by (cases x)
    have shrink: "length (cache_order (drop_stale cache)) < length (cache_order cache)"
      by (simp add: drop_stale_def Cons)
    show thesis
    proof (cases "\<exists>entry. bt_get (cache_values cache) key = Some entry \<and> ce_last_used entry = stamp")
      case False
      have "live_order (drop_stale cache)"
        using wf(2) False by (auto simp: live_order_def drop_stale_def Cons x)
      then have "cache_wf (drop_stale cache)"
        using assms(1) by (auto simp: cache_wf_def cache_shape_def drop_stale_def Cons)
      moreover have "evict_until decoded cache = evict_until decoded (drop_stale cache)"
        using True False by (subst evict_until.simps) (auto simp: Cons x drop_stale_def Let_def split: option.splits)
      ultimately show thesis using shrink by (intro stale)
    next
      case live: True
      then obtain entry where entry: "bt_get (cache_values cache) key = Some entry" "ce_last_used entry = stamp"
        by blast
      have "live_order (drop_oldest key entry cache)"
        using wf(1,2) by (auto simp: live_order_def drop_oldest_def drop_stale_def Cons x bt.get_remove)
      then have "cache_wf (drop_oldest key entry cache)"
        using assms(1) cached_bytes_remove [OF wf(1) entry(1)]
        by (auto simp: cache_wf_def cache_shape_def drop_oldest_def drop_stale_def Cons bt.wf_remove)
      moreover have "evict_until decoded cache = evict_until decoded (drop_oldest key entry cache)"
        using True entry by (subst evict_until.simps) (simp add: Cons x drop_oldest_def drop_stale_def Let_def)
      moreover have "\<forall>k e. bt_get (cache_values cache) k = Some e \<longrightarrow> (ce_last_used entry, key) \<le> (ce_last_used e, k)"
      proof (intro allI impI)
        fix k e assume "bt_get (cache_values cache) k = Some e"
        then have "(ce_last_used e, k) \<in> set (cache_order cache)"
          using wf(2) unfolding live_order_def by blast
        with wf(3) show "(ce_last_used entry, key) \<le> (ce_last_used e, k)"
          unfolding Cons x entry(2) [symmetric] by auto
      qed
      ultimately show thesis
        using entry(1) shrink by (intro oldest [of key entry]) (simp_all add: drop_oldest_def drop_stale_def)
    qed
  qed
qed

lemma drop_simps [simp]:
  "capacity_bytes (drop_stale cache) = capacity_bytes cache"
  "capacity_bytes (drop_oldest key entry cache) = capacity_bytes cache"
  "cache_values (drop_stale cache) = cache_values cache"
  "cache_values (drop_oldest key entry cache) = bt_remove key (cache_values cache)"
  by (simp_all add: drop_stale_def drop_oldest_def)

lemma evict_until_wf:
  assumes "cache_wf cache" and "decoded \<le> capacity_bytes cache"
  shows "cache_wf (evict_until decoded cache)"
    and "resident_bytes (evict_until decoded cache) + decoded \<le> capacity_bytes cache"
    and "capacity_bytes (evict_until decoded cache) = capacity_bytes cache"
    and "bt_get (cache_values (evict_until decoded cache)) \<subseteq>\<^sub>m bt_get (cache_values cache)"
proof -
  have "cache_wf (evict_until decoded cache) \<and>
    resident_bytes (evict_until decoded cache) + decoded \<le> capacity_bytes cache \<and>
    capacity_bytes (evict_until decoded cache) = capacity_bytes cache \<and>
    bt_get (cache_values (evict_until decoded cache)) \<subseteq>\<^sub>m bt_get (cache_values cache)"
    using assms
  proof (induction "length (cache_order cache)" arbitrary: cache rule: less_induct)
    case less
    from less.prems show ?case
    proof (cases rule: evict_until_cases)
      case enough
      with less.prems show ?thesis by simp
    next
      case stale
      then show ?thesis using less.hyps [OF stale(3,2)] less.prems(2) by simp
    next
      case (oldest key entry)
      have "bt_wf (cache_values cache)" using less.prems(1) by (simp add: cache_wf_def cache_shape_def)
      then have "bt_get (cache_values (drop_oldest key entry cache)) \<subseteq>\<^sub>m bt_get (cache_values cache)"
        by (simp add: bt.get_remove map_le_def)
      then show ?thesis
        using oldest(1) less.hyps [OF oldest(4,3)] less.prems(2) map_le_trans by auto
    qed
  qed
  then show "cache_wf (evict_until decoded cache)"
    "resident_bytes (evict_until decoded cache) + decoded \<le> capacity_bytes cache"
    "capacity_bytes (evict_until decoded cache) = capacity_bytes cache"
    "bt_get (cache_values (evict_until decoded cache)) \<subseteq>\<^sub>m bt_get (cache_values cache)"
    by blast+
qed

text \<open>Least recently used first: whatever the loop evicts was used no later than whatever it keeps.\<close>

lemma evict_until_lru:
  assumes "cache_wf cache" and "decoded \<le> capacity_bytes cache"
    and "bt_get (cache_values cache) k = Some e" and "bt_get (cache_values (evict_until decoded cache)) k = None"
    and "bt_get (cache_values (evict_until decoded cache)) k' = Some e'"
  shows "(ce_last_used e, k) \<le> (ce_last_used e', k')"
  using assms
proof (induction "length (cache_order cache)" arbitrary: cache rule: less_induct)
  case less
  from less.prems(1,2) show ?case
  proof (cases rule: evict_until_cases)
    case enough
    with less.prems show ?thesis by simp
  next
    case stale
    then show ?thesis using less.hyps [OF stale(3,2)] less.prems by simp
  next
    case (oldest key entry)
    have wf: "bt_wf (cache_values cache)" using less.prems(1) by (simp add: cache_wf_def cache_shape_def)
    show ?thesis
    proof (cases "k = key")
      case True
      have "bt_get (cache_values cache) k' = Some e'"
        using evict_until_wf(4) [OF less.prems(1,2)] less.prems(5) by (metis domI map_le_def)
      moreover have "e = entry"
        using True oldest(2) less.prems(3) by simp
      ultimately show ?thesis
        using oldest(5) True by blast
    next
      case False
      then show ?thesis
        using less.hyps [OF oldest(4,3)] less.prems oldest(1) wf by (simp add: bt.get_remove)
    qed
  qed
qed

section \<open>Loading a block\<close>

text \<open>\<open>truth cache_id i\<close> is what decoding block \<open>i\<close> of the segment with that cache identity
  gives; a coherent cache holds only such blocks.\<close>

type_synonym block_truth = "u64 \<Rightarrow> nat \<Rightarrow> decoded_block kv_result"

definition cache_coherent :: "block_truth \<Rightarrow> block_cache \<Rightarrow> bool" where
  "cache_coherent truth cache \<longleftrightarrow> cache_wf cache \<and>
     (\<forall>key b. cache_content cache key = Some b \<longrightarrow> truth (fst key) (snd key) = Ok b)"

lemma cache_content_evict:
  assumes "cache_wf cache" and "decoded \<le> capacity_bytes cache"
  shows "cache_content (evict_until decoded cache) \<subseteq>\<^sub>m cache_content cache"
proof -
  have "bt_get (cache_values cache) k = bt_get (cache_values (evict_until decoded cache)) k"
    if "bt_get (cache_values (evict_until decoded cache)) k \<noteq> None" for k
    using that evict_until_wf(4) [OF assms] by (metis domIff map_le_def)
  then show ?thesis
    unfolding map_le_def cache_content_def by (auto simp: dom_def)
qed

lemma cache_lookup_coherent:
  assumes "cache_coherent truth cache" and "cache_lookup key cache = (found, cache')"
  shows "cache_coherent truth cache'" and "found = cache_content cache key"
    and "cache_content cache' = cache_content cache"
proof -
  let ?hit = "touch key (cache\<lparr>cache_hits := saturating_add (cache_hits cache) 1\<rparr>)"
  let ?miss = "cache\<lparr>cache_misses := saturating_add (cache_misses cache) 1\<rparr>"
  have wf: "cache_wf (cache\<lparr>cache_hits := h\<rparr>)" "cache_wf (cache\<lparr>cache_misses := m\<rparr>)"
    "cache_content (cache\<lparr>cache_hits := h\<rparr>) = cache_content cache"
    "cache_content (cache\<lparr>cache_misses := m\<rparr>) = cache_content cache" for h m
    using assms(1) by (simp_all add: cache_coherent_def cache_wf_def cache_shape_def live_order_def cache_content_def fun_eq_iff)
  have hit: "cache_wf ?hit" "cache_content ?hit = cache_content cache"
    using same_cache_wf [OF touch_same wf(1)] touch_same [of "cache\<lparr>cache_hits := saturating_add (cache_hits cache) 1\<rparr>" key] wf(3)
    by (simp_all add: same_cache_def)
  have "cache_wf cache' \<and> found = cache_content cache key \<and> cache_content cache' = cache_content cache"
  proof (cases "bt_get (cache_values cache) key")
    case None
    then show ?thesis
      using assms(2) wf by (auto simp: cache_lookup_def cache_content_def)
  next
    case (Some entry)
    then have "found = cache_content ?hit key" "cache' = maybe_rebuild_order ?hit"
      using assms(2) by (auto simp: cache_lookup_def cache_content_def Let_def)
    then show ?thesis using hit by (simp add: maybe_rebuild_order_wf)
  qed
  then show "cache_coherent truth cache'" "found = cache_content cache key" "cache_content cache' = cache_content cache"
    using assms(1) by (auto simp: cache_coherent_def)
qed

lemma cache_insert_coherent:
  assumes "cache_coherent truth cache" and "truth (fst key) (snd key) = Ok decoded"
    and "cache_insert key decoded cache = (val, cache')"
  shows "cache_coherent truth cache'" and "val = decoded"
proof -
  have wf: "cache_wf cache" and held: "\<And>k b. cache_content cache k = Some b \<Longrightarrow> truth (fst k) (snd k) = Ok b"
    using assms(1) unfolding cache_coherent_def by blast+
  have "cache_coherent truth cache' \<and> val = decoded"
  proof (cases "bt_get (cache_values cache) key")
    case (Some entry)
    have same: "cache_content (touch key cache) = cache_content cache"
      using touch_same by (simp add: same_cache_def)
    have "cache_content cache key = Some decoded"
      using held [of key "ce_value entry"] Some assms(2) by (simp add: cache_content_def)
    then have "cache_content (touch key cache) key = Some decoded"
      using same by simp
    then have "val = decoded" "cache' = maybe_rebuild_order (touch key cache)"
      using assms(3) Some by (auto simp: cache_insert_def Let_def cache_content_def)
    then show ?thesis
      using same_cache_wf [OF touch_same wf, of key] same held
      by (simp add: cache_coherent_def maybe_rebuild_order_wf)
  next
    case None
    show ?thesis
    proof (cases "block_resident_bytes decoded \<le> capacity_bytes cache")
      case False
      then show ?thesis using assms None by (auto simp: cache_insert_def Let_def)
    next
      case True
      note ev = evict_until_wf [OF wf True]
      let ?ev = "evict_until (block_resident_bytes decoded) cache"
      let ?c1 = "?ev\<lparr>resident_bytes := usize_saturating_add (resident_bytes ?ev) (block_resident_bytes decoded)\<rparr>"
      obtain stamp c2 where ns: "next_stamp ?c1 = (stamp, c2)" by (cases "next_stamp ?c1")
      let ?c3 = "push_order stamp key
        (c2\<lparr>cache_values := bt_insert key \<lparr>ce_value = decoded, ce_last_used = stamp\<rparr> (cache_values c2)\<rparr>)"
      have res: "val = decoded" "cache' = maybe_rebuild_order ?c3"
        using assms(3) None True by (auto simp: cache_insert_def Let_def ns)
      have content: "cache_content ?ev \<subseteq>\<^sub>m cache_content cache"
        by (rule cache_content_evict [OF wf True])
      have c1: "cache_shape ?c1" "cache_content ?c1 = cache_content ?ev"
        using ev(1) by (simp_all add: cache_wf_def cache_shape_def live_order_def cache_content_def fun_eq_iff)
      have c2: "cache_shape c2" "cache_content c2 = cache_content ?ev"
        "cached_bytes (cache_values c2) = cached_bytes (cache_values ?ev)"
        "resident_bytes c2 = resident_bytes ?ev + block_resident_bytes decoded" "capacity_bytes c2 = capacity_bytes cache"
        using next_stamp_same [OF ns] c1 ev wf
        by (simp_all add: same_cache_def usize_saturating_add_def cache_wf_def min_def)
      have "cache_content cache key = None"
        using None by (simp add: cache_content_def)
      then have absent: "bt_get (cache_values c2) key = None"
        using content c2(2) by (metis cache_content_def domIff map_le_implies_dom_le option.map_disc_iff subsetD)
      have "live_order ?c3"
        using c2(1) by (auto simp: push_order_def live_order_def cache_shape_def set_insort_key bt_get_insert)
      then have "cache_wf ?c3"
        using c2 ev wf
        by (simp add: cache_wf_def cache_shape_def push_order_def sorted_insort bt_wf_insert
            cached_bytes_insert [OF absent])
      moreover have "cache_content ?c3 = (cache_content ?ev)(key \<mapsto> decoded)"
        using c2(2) by (auto simp: cache_content_def push_order_def bt_get_insert fun_eq_iff)
      then have "truth (fst k) (snd k) = Ok b" if "cache_content ?c3 k = Some b" for k b
      proof (cases "k = key")
        case True
        with that \<open>cache_content ?c3 = _\<close> assms(2) show ?thesis by simp
      next
        case False
        with that \<open>cache_content ?c3 = _\<close> have "cache_content ?ev k = Some b" by simp
        with content have "cache_content cache k = Some b" by (metis domI map_le_def)
        then show ?thesis by (rule held)
      qed
      ultimately show ?thesis
        using res by (simp add: cache_coherent_def maybe_rebuild_order_wf)
    qed
  qed
  then show "cache_coherent truth cache'" and "val = decoded" by blast+
qed

section \<open>Interleaved use\<close>

text \<open>Any number of threads share the cache; each performs its two critical sections whenever it holds the
  lock, so a run is any sequence of lookups and of insertions of correctly decoded blocks.\<close>

inductive cache_reach :: "block_truth \<Rightarrow> nat \<Rightarrow> block_cache \<Rightarrow> bool" for truth capacity where
  cache_new: "cache_reach truth capacity (new_block_cache capacity)"
| cache_look: "cache_reach truth capacity cache \<Longrightarrow> cache_lookup key cache = (found, cache') \<Longrightarrow> cache_reach truth capacity cache'"
| cache_ins: "cache_reach truth capacity cache \<Longrightarrow> truth (fst key) (snd key) = Ok decoded \<Longrightarrow>
    cache_insert key decoded cache = (val, cache') \<Longrightarrow> cache_reach truth capacity cache'"

lemma rebuild_capacity [simp]: "capacity_bytes (maybe_rebuild_order cache) = capacity_bytes cache"
  by (simp add: maybe_rebuild_order_def)

lemma touch_capacity: "capacity_bytes (touch key cache) = capacity_bytes cache"
  using touch_same [of cache key] by (simp add: same_cache_def)

lemma cache_lookup_capacity: "cache_lookup key cache = (found, cache') \<Longrightarrow> capacity_bytes cache' = capacity_bytes cache"
  by (auto simp: cache_lookup_def touch_capacity Let_def split: option.splits)

lemma cache_insert_capacity:
  assumes "cache_insert key decoded cache = (val, cache')" and "cache_wf cache"
  shows "capacity_bytes cache' = capacity_bytes cache"
  using assms next_stamp_same
  by (fastforce simp: cache_insert_def touch_capacity push_order_def same_cache_def evict_until_wf(3) Let_def
      split: option.splits if_splits prod.splits)

lemma cache_reach_coherent:
  assumes "cache_reach truth capacity cache" and "capacity < 2 ^ 64 - 1"
  shows "cache_coherent truth cache \<and> capacity_bytes cache = capacity"
  using assms(1)
proof induction
  case cache_new
  then show ?case
    using new_block_cache_wf [OF assms(2)] by (simp add: cache_coherent_def cache_content_def new_block_cache_def)
next
  case (cache_look cache key found cache')
  then show ?case using cache_lookup_coherent(1) [OF _ cache_look.hyps(2)] cache_lookup_capacity by metis
next
  case (cache_ins cache key decoded val cache')
  then have coh: "cache_coherent truth cache" and "cache_wf cache" by (simp_all add: cache_coherent_def)
  then show ?case
    using cache_ins.IH cache_insert_coherent(1) [where truth = truth, OF coh cache_ins.hyps(2,3)]
      cache_insert_capacity [OF cache_ins.hyps(3)] by simp
qed

section \<open>Properties\<close>

text \<open>C28. The shared block cache. After any interleaving of lookups and insertions by any threads over any
  segments, the accounted size is the sum of the cached blocks and never exceeds the capacity, a hit
  returns exactly what decoding the block gives, and inserting a decoded block hands that block back,
  also when another thread inserted it first.\<close>

theorem block_cache_serves:
  assumes "cache_reach truth capacity cache" and "capacity < 2 ^ 64 - 1"
  shows "resident_bytes cache = cached_bytes (cache_values cache) \<and> resident_bytes cache \<le> capacity \<and>
    (\<forall>key b. fst (cache_lookup key cache) = Some b \<longrightarrow> truth (fst key) (snd key) = Ok b) \<and>
    (\<forall>key b. truth (fst key) (snd key) = Ok b \<longrightarrow> fst (cache_insert key b cache) = b)"
proof -
  have coh: "cache_coherent truth cache" and cap: "capacity_bytes cache = capacity"
    using cache_reach_coherent [OF assms] by simp_all
  have "truth (fst key) (snd key) = Ok b" if "fst (cache_lookup key cache) = Some b" for key b
    using coh cache_lookup_coherent(2) [OF coh, of key] that unfolding cache_coherent_def by (metis surjective_pairing)
  moreover have "fst (cache_insert key b cache) = b" if "truth (fst key) (snd key) = Ok b" for key b
    using cache_insert_coherent(2) [OF coh that] by (metis surjective_pairing)
  ultimately show ?thesis using coh cap unfolding cache_coherent_def cache_wf_def by metis
qed

definition example_block :: decoded_block where
  "example_block = \<lparr>db_bytes = [1, 2, 3], db_record_offsets = [0]\<rparr>"

theorem block_cache_serves_witness:
  "resident_bytes (snd (cache_insert (1, 0) example_block (new_block_cache 100))) \<le> 100 \<and>
    fst (cache_lookup (1, 0) (snd (cache_insert (1, 0) example_block (new_block_cache 100)))) = Some example_block"
proof -
  let ?truth = "\<lambda>(_ :: u64) (_ :: nat). Ok example_block :: decoded_block kv_result"
  let ?cache = "snd (cache_insert (1, 0) example_block (new_block_cache 100))"
  have reach: "cache_reach ?truth 100 ?cache"
    by (rule cache_ins [OF cache_new, of _ "(1, 0)" example_block]) (auto simp: prod_eq_iff)
  have "\<exists>b. fst (cache_lookup (1, 0) ?cache) = Some b"
    by (simp add: cache_insert_def cache_lookup_def new_block_cache_def evict_until.simps example_block_def
        next_stamp_def push_order_def maybe_rebuild_order_def bt_get_def touch_def bt_adjust_def block_resident_bytes_def
        usize_saturating_add_def usize_saturating_mul_def Let_def)
  then show ?thesis using block_cache_serves [OF reach] by force
qed

text \<open>Eviction is least recently used. Making room for a block that fits the capacity leaves enough
  free space, keeps a subset of the entries unchanged, and whatever it evicts was used no later
  than anything it keeps, stale heap entries and renumbered stamps notwithstanding.\<close>

lemma eviction_least_recent:
  assumes "cache_reach truth capacity cache" and "capacity < 2 ^ 64 - 1" and "decoded \<le> capacity"
  shows "resident_bytes (evict_until decoded cache) + decoded \<le> capacity \<and>
    bt_get (cache_values (evict_until decoded cache)) \<subseteq>\<^sub>m bt_get (cache_values cache) \<and>
    (\<forall>k e k' e'. bt_get (cache_values cache) k = Some e \<and> bt_get (cache_values (evict_until decoded cache)) k = None \<and>
       bt_get (cache_values (evict_until decoded cache)) k' = Some e' \<longrightarrow> ce_last_used e \<le> ce_last_used e')"
proof -
  have wf: "cache_wf cache" and cap: "capacity_bytes cache = capacity"
    using cache_reach_coherent [OF assms(1,2)] by (simp_all add: cache_coherent_def)
  note fits = assms(3) [folded cap]
  have "ce_last_used e \<le> ce_last_used e'"
    if "bt_get (cache_values cache) k = Some e" "bt_get (cache_values (evict_until decoded cache)) k = None"
      "bt_get (cache_values (evict_until decoded cache)) k' = Some e'" for k e k' e'
    using evict_until_lru [OF wf fits that] by (auto simp: less_eq_prod_def)
  then show ?thesis using evict_until_wf(2,4) [OF wf fits] cap by metis
qed

end
