(* ===== verification/Kv_State.thy ===== *)
theory Kv_State
  imports Kv_Error
begin

text \<open>
  Fallible computations on a state: what a method with \<open>&mut self\<close> that returns a \<open>Result\<close>
  is. A failed computation keeps the state changes made before the failure, as the source does.
\<close>

type_synonym ('e, 's, 'a) fallible = "'s \<Rightarrow> ('e + 'a) \<times> 's"

type_synonym ('s, 'a) action = "(kv_error, 's, 'a) fallible"

definition cok :: "'a \<Rightarrow> ('e, 's, 'a) fallible" where
  "cok a = (\<lambda>s. (Ok a, s))"

definition clift :: "'e + 'a \<Rightarrow> ('e, 's, 'a) fallible" where
  "clift r = (\<lambda>s. (r, s))"

definition cbind :: "('e, 's, 'a) fallible \<Rightarrow> ('a \<Rightarrow> ('e, 's, 'b) fallible) \<Rightarrow> ('e, 's, 'b) fallible" where
  "cbind m f = (\<lambda>s. case m s of (Inl e, s) \<Rightarrow> (Inl e, s) | (Inr a, s) \<Rightarrow> f a s)"

definition creads :: "('s \<Rightarrow> 'a) \<Rightarrow> ('e, 's, 'a) fallible" where
  "creads f = (\<lambda>s. (Ok (f s), s))"

definition cmodify :: "('s \<Rightarrow> 's) \<Rightarrow> ('e, 's, unit) fallible" where
  "cmodify f = (\<lambda>s. (Ok (), f s))"

text \<open>A computation on a part of the state.\<close>

definition czoom :: "('s \<Rightarrow> 't) \<Rightarrow> ('t \<Rightarrow> 's \<Rightarrow> 's) \<Rightarrow> ('e, 't, 'a) fallible \<Rightarrow> ('e, 's, 'a) fallible" where
  "czoom get put m = (\<lambda>s. case m (get s) of (r, t) \<Rightarrow> (r, put t s))"

text \<open>A \<open>for\<close> loop that stops at the first error.\<close>

fun cfor :: "'x list \<Rightarrow> ('x \<Rightarrow> 'a \<Rightarrow> ('e, 's, 'a) fallible) \<Rightarrow> 'a \<Rightarrow> ('e, 's, 'a) fallible" where
  "cfor [] f a = cok a"
| "cfor (x # xs) f a = cbind (f x a) (cfor xs f)"

section \<open>Computations that succeed\<close>

definition yields :: "('s \<Rightarrow> bool) \<Rightarrow> ('e, 's, 'a) fallible \<Rightarrow> ('a \<Rightarrow> bool) \<Rightarrow> bool" where
  "yields good m P \<longleftrightarrow> (\<forall>s. good s \<longrightarrow> (\<exists>a s'. m s = (Ok a, s') \<and> good s' \<and> P a))"

lemma yields_cok [intro]: "P a \<Longrightarrow> yields good (cok a) P"
  by (simp add: yields_def cok_def)

lemma yields_clift: "P a \<Longrightarrow> r = Ok a \<Longrightarrow> yields good (clift r) P"
  by (simp add: yields_def clift_def)

lemma yields_cbind:
  assumes "yields good m P" and "\<And>a. P a \<Longrightarrow> yields good (f a) Q"
  shows "yields good (cbind m f) Q"
  unfolding yields_def
proof (intro allI impI)
  fix s assume "good s"
  then obtain a s' where "m s = (Ok a, s')" "good s'" "P a"
    using assms(1) unfolding yields_def by blast
  moreover obtain b s'' where "f a s' = (Ok b, s'')" "good s''" "Q b"
    using assms(2) \<open>P a\<close> \<open>good s'\<close> unfolding yields_def by blast
  ultimately show "\<exists>a s'. cbind m f s = (Ok a, s') \<and> good s' \<and> Q a"
    by (auto simp: cbind_def)
qed

lemma yields_mono: "yields good m P \<Longrightarrow> (\<And>a. P a \<Longrightarrow> Q a) \<Longrightarrow> yields good m Q"
  unfolding yields_def by blast

lemma yields_fst: "yields good m (\<lambda>v. v = a) \<Longrightarrow> good s \<Longrightarrow> fst (m s) = Ok a \<and> good (snd (m s))"
  unfolding yields_def by fastforce

lemma yields_creads: "(\<And>s. good s \<Longrightarrow> P (f s)) \<Longrightarrow> yields good (creads f) P"
  by (simp add: yields_def creads_def)

lemma yields_cmodify: "(\<And>s. good s \<Longrightarrow> good (f s)) \<Longrightarrow> yields good (cmodify f) (\<lambda>_. True)"
  by (simp add: yields_def cmodify_def)

lemma yields_cfor:
  assumes "I [] a" and "\<And>ys x a. I ys a \<Longrightarrow> (\<exists>zs. xs = ys @ x # zs) \<Longrightarrow> yields good (f x a) (I (ys @ [x]))"
  shows "yields good (cfor xs f a) (I xs)"
proof -
  have "yields good (cfor zs f a) (I (ys @ zs))" if "xs = ys @ zs" "I ys a" for ys zs a
    using that
  proof (induction zs arbitrary: ys a)
    case (Cons z zs)
    show ?case
      unfolding cfor.simps
      by (rule yields_cbind [OF assms(2) [OF Cons.prems(2)]]) (use Cons.prems Cons.IH [of "ys @ [z]"] in auto)
  qed auto
  from this [of "[]" xs a] assms(1) show ?thesis by simp
qed

text \<open>A loop over items that stand for abstract ones folds the abstract step.\<close>

lemma yields_cfor_fold:
  assumes "list_all2 Q xs ys" and "I a"
    and "\<And>x y a. Q x y \<Longrightarrow> I a \<Longrightarrow> yields good (f x a) (\<lambda>v. v = g y a)" and "\<And>x y a. Q x y \<Longrightarrow> I a \<Longrightarrow> I (g y a)"
  shows "yields good (cfor xs f a) (\<lambda>v. v = fold g ys a)"
  using assms(1,2)
proof (induction xs ys arbitrary: a rule: list_all2_induct)
  case (Cons x xs y ys)
  have "yields good (cfor xs f b) (\<lambda>v. v = fold g ys (g y a))" if "b = g y a" for b
    using Cons.IH assms(4) [OF Cons.hyps(1) Cons.prems] that by simp
  then show ?case
    unfolding cfor.simps by (intro yields_cbind [OF assms(3) [OF Cons.hyps(1) Cons.prems]]) simp
qed auto

text \<open>Inversion: how a sequence of steps can end.\<close>

lemma cbind_Ok: "cbind m f s = (Ok b, s') \<longleftrightarrow> (\<exists>a s1. m s = (Ok a, s1) \<and> f a s1 = (Ok b, s'))"
  by (auto simp: cbind_def split: prod.splits sum.splits)

lemma cbind_Err:
  "cbind m f s = (Err e, s') \<longleftrightarrow> m s = (Err e, s') \<or> (\<exists>a s1. m s = (Ok a, s1) \<and> f a s1 = (Err e, s'))"
  by (auto simp: cbind_def split: prod.splits sum.splits)

lemma action_simps:
  "cok a s = (Ok a, s)" "clift r s = (r, s)" "creads f s = (Ok (f s), s)" "cmodify g s = (Ok (), g s)"
  by (simp_all add: cok_def clift_def creads_def cmodify_def)

section \<open>Triples\<close>

text \<open>Partial correctness with two postconditions, one for the value and one for the error; both hold of
  the state the computation leaves.\<close>

definition triple :: "('s \<Rightarrow> bool) \<Rightarrow> ('e, 's, 'a) fallible \<Rightarrow> ('a \<Rightarrow> 's \<Rightarrow> bool) \<Rightarrow> ('s \<Rightarrow> bool) \<Rightarrow> bool" where
  "triple P m Q E \<longleftrightarrow> (\<forall>s. P s \<longrightarrow> (case m s of (Inl _, s') \<Rightarrow> E s' | (Inr a, s') \<Rightarrow> Q a s'))"

lemma tripleI: "(\<And>s. P s \<Longrightarrow> (case m s of (Inl _, s') \<Rightarrow> E s' | (Inr a, s') \<Rightarrow> Q a s')) \<Longrightarrow> triple P m Q E"
  by (simp add: triple_def)

lemma tripleD: "triple P m Q E \<Longrightarrow> P s \<Longrightarrow> m s = (r, s') \<Longrightarrow> (case r of Inl _ \<Rightarrow> E s' | Inr a \<Rightarrow> Q a s')"
  unfolding triple_def by (auto split: prod.splits)

lemma triple_cbind:
  assumes "triple P m Q E" and "\<And>a. triple (Q a) (f a) T E"
  shows "triple P (cbind m f) T E"
  unfolding triple_def
proof (intro allI impI)
  fix s assume "P s"
  obtain r s' where m: "m s = (r, s')" by fastforce
  from tripleD [OF assms(1) \<open>P s\<close> m] show "case cbind m f s of (Inl _, s') \<Rightarrow> E s' | (Inr a, s') \<Rightarrow> T a s'"
    using assms(2) by (cases r) (auto simp: cbind_def m triple_def)
qed

lemma triple_cok: "(\<And>s. P s \<Longrightarrow> Q a s) \<Longrightarrow> triple P (cok a) Q E"
  by (simp add: triple_def cok_def)

lemma triple_clift: "(\<And>a s. r = Ok a \<Longrightarrow> P s \<Longrightarrow> Q a s) \<Longrightarrow> (\<And>s. P s \<Longrightarrow> E s) \<Longrightarrow> triple P (clift r) Q E"
  by (auto simp: triple_def clift_def split: sum.splits)

lemma triple_creads: "(\<And>s. P s \<Longrightarrow> Q (f s) s) \<Longrightarrow> triple P (creads f) Q E"
  by (simp add: triple_def creads_def)

lemma triple_cmodify: "(\<And>s. P s \<Longrightarrow> Q () (f s)) \<Longrightarrow> triple P (cmodify f) Q E"
  by (simp add: triple_def cmodify_def)

lemma triple_conseq:
  "triple P' m Q' E' \<Longrightarrow> (\<And>s. P s \<Longrightarrow> P' s) \<Longrightarrow> (\<And>a s. Q' a s \<Longrightarrow> Q a s) \<Longrightarrow> (\<And>s. E' s \<Longrightarrow> E s) \<Longrightarrow> triple P m Q E"
  unfolding triple_def by (fastforce split: sum.splits prod.splits)

lemma triple_pre: "(\<And>s. P s \<Longrightarrow> A) \<Longrightarrow> (A \<Longrightarrow> triple P m Q E) \<Longrightarrow> triple P m Q E"
  by (cases A) (auto simp: triple_def)

lemma triple_cfor:
  assumes "\<And>ys x a. (\<exists>zs. xs = ys @ x # zs) \<Longrightarrow> triple (I ys a) (f x a) (I (ys @ [x])) E"
  shows "triple (I [] a) (cfor xs f a) (I xs) E"
proof -
  have "triple (I ys a) (cfor zs f a) (I (ys @ zs)) E" if "xs = ys @ zs" for ys zs a
    using that
  proof (induction zs arbitrary: ys a)
    case (Cons z zs)
    show ?case
      unfolding cfor.simps
      by (rule triple_cbind [OF assms]) (use Cons.prems Cons.IH [of "ys @ [z]"] in auto)
  qed (auto intro: triple_cok)
  from this [of "[]" xs a] show ?thesis by simp
qed

text \<open>A computation that yields a value satisfies the triple with any error postcondition.\<close>

lemma triple_yields: "yields good m P \<Longrightarrow> triple good m (\<lambda>a s. good s \<and> P a) E"
  unfolding triple_def yields_def by fastforce

text \<open>Running a computation step by step from one state.\<close>

lemma triple_at: "(\<And>s0. P s0 \<Longrightarrow> triple (\<lambda>s. s = s0) m Q E) \<Longrightarrow> triple P m Q E"
  by (simp add: triple_def)

lemma triple_step:
  assumes "triple (\<lambda>s. s = s0) m T E" and "\<And>a s1. T a s1 \<Longrightarrow> triple (\<lambda>s. s = s1) (f a) Q E"
  shows "triple (\<lambda>s. s = s0) (cbind m f) Q E"
  using assms(1) by (rule triple_cbind) (rule triple_at, rule assms(2))

lemma triple_lift:
  assumes "E s0" and "\<And>a. r = Ok a \<Longrightarrow> triple (\<lambda>s. s = s0) (f a) Q E"
  shows "triple (\<lambda>s. s = s0) (cbind (clift r) f) Q E"
  by (rule triple_step [OF triple_clift [where Q = "\<lambda>a s. r = Ok a \<and> s = s0"]]) (use assms in auto)

lemma triple_reads:
  assumes "triple (\<lambda>s. s = s0) (f (g s0)) Q E"
  shows "triple (\<lambda>s. s = s0) (cbind (creads g) f) Q E"
  by (rule triple_step [OF triple_creads [where Q = "\<lambda>a s. a = g s0 \<and> s = s0"]]) (use assms in auto)

lemma triple_return: "Q a s0 \<Longrightarrow> triple (\<lambda>s. s = s0) (cok a) Q E"
  by (rule triple_cok) simp

lemma triple_if: "(c \<Longrightarrow> triple P m Q E) \<Longrightarrow> (\<not> c \<Longrightarrow> triple P m' Q E) \<Longrightarrow> triple P (if c then m else m') Q E"
  by simp

lemma cbind_assoc: "cbind m (\<lambda>a. cbind (f a) g) = cbind (cbind m f) g"
  by (rule ext) (simp add: cbind_def split: sum.splits prod.splits)

end
