(* ===== verification/Segment_Reads.thy ===== *)
theory Segment_Reads
  imports Segment_Roundtrip Block_Cache Kv_State
begin

text \<open>
  Reads of an open segment (\<^verbatim>\<open>crates/vyrm-kv/src/segment.rs\<close>): point lookups, batched
  lookups, scans and version listings, over the block table of version 3 files or the record area of
  legacy ones. Every read that loads blocks threads the shared cache. The locale
  \<open>block_loader\<close> is what reads rely on: loading block \<open>i\<close> succeeds with the block
  of the \<open>i\<close>-th run of entries. The lemmas relate every read to the plain list of entries.
\<close>

section \<open>Model\<close>

definition newer_version :: "segment_version option \<Rightarrow> segment_version option \<Rightarrow> segment_version option" where
  "newer_version selected version =
     (case version of
        None \<Rightarrow> selected
      | Some v \<Rightarrow> (case selected of
                     None \<Rightarrow> Some v
                   | Some prior \<Rightarrow> if sv_sequence v > sv_sequence prior then Some v else selected))"

text \<open>The loop of \<open>get_version\<close> over the blocks from index \<open>i\<close> on.\<close>

fun get_version_loop :: "(nat \<Rightarrow> decoded_block cached) \<Rightarrow> bytes \<Rightarrow> u64 \<Rightarrow> nat \<Rightarrow> block_descriptor list
    \<Rightarrow> segment_version option \<Rightarrow> segment_version option cached" where
  "get_version_loop load key read_sequence i [] selected = cok selected"
| "get_version_loop load key read_sequence i (d # ds) selected =
     cbind (load i) (\<lambda>block.
     cbind (clift (select_version_block block key read_sequence)) (\<lambda>version.
     let selected = newer_version selected version in
     if bd_last_key d > key then cok selected
     else get_version_loop load key read_sequence (Suc i) ds selected))"

definition outside_segment :: "segment \<Rightarrow> bytes \<Rightarrow> u64 \<Rightarrow> bool" where
  "outside_segment seg key read_sequence \<longleftrightarrow>
     key < sd_first_key (seg_descriptor seg) \<or> key > sd_last_key (seg_descriptor seg)
     \<or> read_sequence < sd_minimum_sequence (seg_descriptor seg)"

definition seg_get_version :: "codec \<Rightarrow> segment \<Rightarrow> bytes \<Rightarrow> u64 \<Rightarrow> segment_version option cached" where
  "seg_get_version c seg key read_sequence =
     (if outside_segment seg key read_sequence then cok None
      else case seg_storage seg of
        Legacy records sparse \<Rightarrow>
          clift (select_version records (legacy_seek records sparse key) (length records) key read_sequence None)
      | Blocked _ blocks _ \<Rightarrow>
          (let block_index = partition_point (\<lambda>b. bd_last_key b < key) blocks in
           get_version_loop (load_block c seg) key read_sequence block_index (drop block_index blocks) None))"

definition seg_get :: "codec \<Rightarrow> segment \<Rightarrow> bytes \<Rightarrow> u64 \<Rightarrow> bytes option cached" where
  "seg_get c seg key read_sequence =
     cbind (seg_get_version c seg key read_sequence) (\<lambda>version. cok (Option.bind version sv_value))"

text \<open>The batched lookup visits the keys in sorted order and keeps the last loaded block.\<close>

fun get_versions_loop :: "(nat \<Rightarrow> decoded_block cached) \<Rightarrow> bytes \<Rightarrow> u64 \<Rightarrow> nat \<Rightarrow> block_descriptor list
    \<Rightarrow> (nat \<times> decoded_block) option \<Rightarrow> segment_version option
    \<Rightarrow> (segment_version option \<times> (nat \<times> decoded_block) option) cached" where
  "get_versions_loop load key read_sequence i [] loaded selected = cok (selected, loaded)"
| "get_versions_loop load key read_sequence i (d # ds) loaded selected =
     cbind (case loaded of
              Some (loaded_index, block) \<Rightarrow> if loaded_index = i then cok block else load i
            | None \<Rightarrow> load i) (\<lambda>block.
     let loaded = Some (i, block) in
     cbind (clift (select_version_block block key read_sequence)) (\<lambda>version.
     let selected = newer_version selected version in
     if bd_last_key d > key then cok (selected, loaded)
     else get_versions_loop load key read_sequence (Suc i) ds loaded selected))"

definition sorted_indices :: "bytes list \<Rightarrow> nat list" where
  "sorted_indices keys = map snd (sort (map (\<lambda>i. (keys ! i, i)) [0..<length keys]))"

fun get_versions_blocked :: "(nat \<Rightarrow> decoded_block cached) \<Rightarrow> segment \<Rightarrow> block_descriptor list \<Rightarrow> bytes list \<Rightarrow> u64 \<Rightarrow> nat list
    \<Rightarrow> (nat \<times> decoded_block) option \<Rightarrow> segment_version option list \<Rightarrow> segment_version option list cached" where
  "get_versions_blocked load seg blocks keys read_sequence [] loaded output = cok output"
| "get_versions_blocked load seg blocks keys read_sequence (index # order) loaded output =
     (let key = keys ! index in
      if outside_segment seg key read_sequence
      then get_versions_blocked load seg blocks keys read_sequence order loaded output
      else
      let block_index = partition_point (\<lambda>b. bd_last_key b < key) blocks in
      cbind (get_versions_loop load key read_sequence block_index (drop block_index blocks) loaded None)
        (\<lambda>(selected, loaded).
          get_versions_blocked load seg blocks keys read_sequence order loaded (output[index := selected])))"

fun get_versions_legacy :: "codec \<Rightarrow> segment \<Rightarrow> bytes list \<Rightarrow> u64 \<Rightarrow> nat list \<Rightarrow> segment_version option list
    \<Rightarrow> segment_version option list cached" where
  "get_versions_legacy c seg keys read_sequence [] output = cok output"
| "get_versions_legacy c seg keys read_sequence (index # order) output =
     cbind (seg_get_version c seg (keys ! index) read_sequence) (\<lambda>version.
     get_versions_legacy c seg keys read_sequence order (output[index := version]))"

definition seg_get_versions :: "codec \<Rightarrow> segment \<Rightarrow> bytes list \<Rightarrow> u64 \<Rightarrow> segment_version option list cached" where
  "seg_get_versions c seg keys read_sequence =
     (let output = replicate (length keys) None; order = sorted_indices keys in
      case seg_storage seg of
        Legacy _ _ \<Rightarrow> get_versions_legacy c seg keys read_sequence order output
      | Blocked _ blocks _ \<Rightarrow>
          get_versions_blocked (load_block c seg) seg blocks keys read_sequence order None output)"

text \<open>The block loop shared by \<open>scan\<close> and \<open>visible_from\<close>: \<open>first\<close> is the partition
  point, \<open>visit\<close> the collecting closure on its captured state.\<close>

fun visit_blocks :: "(nat \<Rightarrow> decoded_block cached) \<Rightarrow> bytes \<Rightarrow> bytes option \<Rightarrow> nat
    \<Rightarrow> (seg_record \<Rightarrow> 's \<Rightarrow> 's kv_result) \<Rightarrow> nat \<Rightarrow> block_descriptor list \<Rightarrow> 's \<Rightarrow> 's cached" where
  "visit_blocks load start end' first visit i [] s = cok s"
| "visit_blocks load start end' first visit i (d # ds) s =
     cbind (load i) (\<lambda>block.
     cbind (clift (if i = first then lower_bound block start else Ok 0)) (\<lambda>first_record.
     cbind (clift (visit_decoded_records block first_record visit s)) (\<lambda>s.
     if (case end' of None \<Rightarrow> False | Some e \<Rightarrow> bd_last_key d \<ge> e) then cok s
     else visit_blocks load start end' first visit (Suc i) ds s)))"

record scan_state =
  sc_output :: "(bytes \<times> bytes) list"
  sc_current_key :: bytes
  sc_selected :: "segment_version option"

definition scan_collect :: "bytes \<Rightarrow> bytes option \<Rightarrow> u64 \<Rightarrow> seg_record \<Rightarrow> scan_state \<Rightarrow> scan_state kv_result" where
  "scan_collect start end' read_sequence r st =
     (if rec_key r < start \<or> (case end' of None \<Rightarrow> False | Some e \<Rightarrow> rec_key r \<ge> e) then Ok st
      else
      let st = (if sc_current_key st \<noteq> rec_key r
                then st\<lparr>sc_output := (case Option.bind (sc_selected st) sv_value of
                                       Some v \<Rightarrow> sc_output st @ [(sc_current_key st, v)] | None \<Rightarrow> sc_output st),
                        sc_selected := None, sc_current_key := rec_key r\<rparr>
                else st) in
      if rec_sequence r \<le> read_sequence \<and>
         (case sc_selected st of None \<Rightarrow> True | Some v \<Rightarrow> rec_sequence r > sv_sequence v)
      then Ok (st\<lparr>sc_selected := Some (record_version r)\<rparr>)
      else Ok st)"

definition scan_finish :: "scan_state \<Rightarrow> (bytes \<times> bytes) list" where
  "scan_finish st = (case Option.bind (sc_selected st) sv_value of
     Some v \<Rightarrow> sc_output st @ [(sc_current_key st, v)] | None \<Rightarrow> sc_output st)"

definition visible_collect :: "bytes \<Rightarrow> bytes option \<Rightarrow> u64 \<Rightarrow> seg_record
    \<Rightarrow> (bytes, segment_version) btree \<Rightarrow> (bytes, segment_version) btree kv_result" where
  "visible_collect start end' read_sequence r grouped =
     (if rec_key r < start \<or> (case end' of None \<Rightarrow> False | Some e \<Rightarrow> rec_key r \<ge> e) then Ok grouped
      else if rec_sequence r \<le> read_sequence then
        (if (case bt_get grouped (rec_key r) of None \<Rightarrow> True | Some prior \<Rightarrow> rec_sequence r > sv_sequence prior)
         then Ok (bt_insert (rec_key r) (record_version r) grouped) else Ok grouped)
      else Ok grouped)"

definition as_versioned :: "segment_version \<Rightarrow> versioned_value" where
  "as_versioned v = \<lparr>vv_sequence = sv_sequence v, vv_value = sv_value v\<rparr>"

definition visible_from :: "codec \<Rightarrow> segment \<Rightarrow> bytes \<Rightarrow> bytes option \<Rightarrow> u64 \<Rightarrow> (bytes \<times> versioned_value) list cached" where
  "visible_from c seg start end' read_sequence =
     cbind (case seg_storage seg of
              Legacy records _ \<Rightarrow> clift (visit_records records (visible_collect start end' read_sequence) [])
            | Blocked _ blocks _ \<Rightarrow>
                (let first = partition_point (\<lambda>b. bd_last_key b < start) blocks in
                 visit_blocks (load_block c seg) start end' first (visible_collect start end' read_sequence)
                   first (drop first blocks) []))
       (\<lambda>grouped. cok (map (\<lambda>(key, v). (key, as_versioned v)) grouped))"

definition seg_scan :: "codec \<Rightarrow> segment \<Rightarrow> bytes \<Rightarrow> bytes option \<Rightarrow> u64 \<Rightarrow> (bytes \<times> bytes) list cached" where
  "seg_scan c seg start end' read_sequence =
     (case seg_storage seg of
        Legacy _ _ \<Rightarrow>
          cbind (visible_from c seg start end' read_sequence) (\<lambda>visible.
          cok (List.map_filter (\<lambda>(key, v). map_option (\<lambda>val. (key, val)) (vv_value v)) visible))
      | Blocked _ blocks _ \<Rightarrow>
          (let first = partition_point (\<lambda>b. bd_last_key b < start) blocks in
           cbind (visit_blocks (load_block c seg) start end' first (scan_collect start end' read_sequence)
                    first (drop first blocks) \<lparr>sc_output = [], sc_current_key = [], sc_selected = None\<rparr>)
             (\<lambda>st. cok (scan_finish st))))"

definition seg_visible_versions :: "codec \<Rightarrow> segment \<Rightarrow> u64 \<Rightarrow> (bytes \<times> versioned_value) list cached" where
  "seg_visible_versions c seg read_sequence = visible_from c seg [] None read_sequence"

fun visit_all_blocks :: "(nat \<Rightarrow> decoded_block cached) \<Rightarrow> (seg_record \<Rightarrow> 's \<Rightarrow> 's kv_result) \<Rightarrow> nat list \<Rightarrow> 's \<Rightarrow> 's cached" where
  "visit_all_blocks load visit [] s = cok s"
| "visit_all_blocks load visit (i # is) s =
     cbind (load i) (\<lambda>block. cbind (clift (visit_decoded_records block 0 visit s)) (\<lambda>s. visit_all_blocks load visit is s))"

definition for_each_record :: "codec \<Rightarrow> segment \<Rightarrow> (seg_record \<Rightarrow> 's \<Rightarrow> 's kv_result) \<Rightarrow> 's \<Rightarrow> 's cached" where
  "for_each_record c seg visit s =
     (case seg_storage seg of
        Legacy records _ \<Rightarrow> clift (visit_records records visit s)
      | Blocked _ blocks _ \<Rightarrow> visit_all_blocks (load_block c seg) visit [0..<length blocks] s)"

definition push_version :: "seg_record \<Rightarrow> (bytes \<times> versioned_value list) list \<Rightarrow> (bytes \<times> versioned_value list) list kv_result" where
  "push_version r output =
     (let output = (if output = [] \<or> fst (last output) \<noteq> rec_key r then output @ [(rec_key r, [])] else output);
          (key, vs) = last output
      in Ok (butlast output @ [(key, vs @ [\<lparr>vv_sequence = rec_sequence r, vv_value = rec_value r\<rparr>])]))"

definition seg_all_versions :: "codec \<Rightarrow> segment \<Rightarrow> (bytes \<times> versioned_value list) list cached" where
  "seg_all_versions c seg = for_each_record c seg push_version []"

definition seg_block_count :: "segment \<Rightarrow> nat" where
  "seg_block_count seg = (case seg_storage seg of Legacy _ _ \<Rightarrow> 1 | Blocked _ blocks _ \<Rightarrow> length blocks)"

definition sparse_index_entries :: "segment \<Rightarrow> nat" where
  "sparse_index_entries seg = (case seg_storage seg of Legacy _ sparse \<Rightarrow> length sparse | Blocked _ blocks _ \<Rightarrow> length blocks)"

section \<open>Selection over runs of entries\<close>

lemma select_entries_other: "\<forall>e \<in> set es. fst e \<noteq> key \<Longrightarrow> select_entries es key r = None"
  by (simp add: select_entries_def entry_versions_other)

lemma newer_version_append:
  assumes "entries_sorted (xs @ ys)"
  shows "newer_version (select_entries xs key r) (select_entries ys key r) = select_entries (xs @ ys) key r"
proof -
  have less: "vv_sequence v < vv_sequence w"
    if "newest_at r (entry_versions xs key) = Some v" "newest_at r (entry_versions ys key) = Some w" for v w
  proof -
    have "v \<in> set (entry_versions xs key)" "w \<in> set (entry_versions ys key)"
      using that by (auto simp: newest_at_def find_Some_iff in_set_conv_nth)
        (metis length_rev nth_mem set_rev in_set_conv_nth)+
    then have "(key, v) \<in> set xs" "(key, w) \<in> set ys" by (auto simp: entry_versions_def)
    then show ?thesis
      using assms unfolding entries_sorted_append by fastforce
  qed
  show ?thesis
    using less
    by (auto simp: newer_version_def select_entries_def entry_versions_append newest_at_append as_version_def
        split: option.splits)
qed

lemma fold_id: "\<forall>e \<in> set es. g e = id \<Longrightarrow> fold g es = id"
  by (induction es) auto

lemma try_fold_pure: "try_fold (\<lambda>e s. Ok (g e s)) es s = Ok (fold g es s)"
  by (induction es arbitrary: s) (simp_all add: res_simps)

section \<open>The contract of block loading\<close>

definition table_of :: "entry list list \<Rightarrow> block_descriptor list \<Rightarrow> bool" where
  "table_of bss blocks \<longleftrightarrow> map bd_last_key blocks = map (\<lambda>es. fst (last es)) bss"

definition loaded_ok :: "entry list list \<Rightarrow> (nat \<times> decoded_block) option \<Rightarrow> bool" where
  "loaded_ok bss loaded \<longleftrightarrow> (\<forall>j b. loaded = Some (j, b) \<longrightarrow> j < length bss \<and> b = block_of (bss ! j))"

definition ignores_outside :: "(entry \<Rightarrow> 's \<Rightarrow> 's) \<Rightarrow> bytes \<Rightarrow> bytes option \<Rightarrow> bool" where
  "ignores_outside v start end' \<longleftrightarrow> (\<forall>e. \<not> in_bounds start end' (fst e) \<longrightarrow> v e = id)"

locale block_loader =
  fixes load :: "'g \<Rightarrow> nat \<Rightarrow> decoded_block cached"
    and holds :: "'g \<Rightarrow> entry list list \<Rightarrow> block_cache \<Rightarrow> bool"
  assumes load_ok: "i < length bss \<Longrightarrow> yields (holds g bss) (load g i) (\<lambda>b. b = block_of (bss ! i))"
    and blocks_ok: "holds g bss s \<Longrightarrow> es \<in> set bss \<Longrightarrow> es \<noteq> [] \<and> block_entries_ok es"
    and blocks_sorted: "holds g bss s \<Longrightarrow> entries_sorted (concat bss)"
begin

lemma yields_holds:
  assumes "\<And>s. holds g bss s \<Longrightarrow> (\<forall>es \<in> set bss. es \<noteq> [] \<and> block_entries_ok es) \<Longrightarrow> entries_sorted (concat bss) \<Longrightarrow>
    yields (holds g bss) m P"
  shows "yields (holds g bss) m P"
  using assms blocks_ok blocks_sorted unfolding yields_def by blast

lemma table_split:
  assumes "table_of bss blocks" and "i < length bss"
  shows "drop i blocks = blocks ! i # drop (Suc i) blocks" and "bd_last_key (blocks ! i) = fst (last (bss ! i))"
    and "concat bss = concat (take i bss) @ bss ! i @ concat (drop (Suc i) bss)"
proof -
  have len: "length blocks = length bss"
    using assms(1) map_eq_imp_length_eq unfolding table_of_def by blast
  then show "drop i blocks = blocks ! i # drop (Suc i) blocks"
    using assms(2) by (simp add: Cons_nth_drop_Suc)
  show "bd_last_key (blocks ! i) = fst (last (bss ! i))"
    using assms len unfolding table_of_def by (metis nth_map)
  show "concat bss = concat (take i bss) @ bss ! i @ concat (drop (Suc i) bss)"
    using assms(2) by (metis concat.simps(2) concat_append id_take_nth_drop)
qed

lemma table_length: "table_of bss blocks \<Longrightarrow> length blocks = length bss"
  using map_eq_imp_length_eq unfolding table_of_def by blast

lemma block_sorted:
  assumes "entries_sorted (concat bss)" and "i < length bss"
  shows "entries_sorted (bss ! i)" and "entries_sorted (concat (take i bss) @ bss ! i)"
    and "\<forall>e \<in> set (concat (drop (Suc i) bss)). fst (last (bss ! i)) \<le> fst e \<or> bss ! i = []"
proof -
  have split: "concat bss = (concat (take i bss) @ bss ! i) @ concat (drop (Suc i) bss)"
    using assms(2) by (metis append_assoc concat.simps(2) concat_append id_take_nth_drop)
  then show "entries_sorted (bss ! i)" "entries_sorted (concat (take i bss) @ bss ! i)"
    using assms(1) by (simp_all add: entries_sorted_append)
  have "fst (last (bss ! i)) \<le> fst e" if e: "e \<in> set (concat (drop (Suc i) bss))" and ne: "bss ! i \<noteq> []" for e
  proof -
    have "last (bss ! i) \<in> set (concat (take i bss) @ bss ! i)" using ne by simp
    with e show ?thesis
      using assms(1) unfolding split entries_sorted_append [of "concat (take i bss) @ bss ! i"] by fastforce
  qed
  then show "\<forall>e \<in> set (concat (drop (Suc i) bss)). fst (last (bss ! i)) \<le> fst e \<or> bss ! i = []"
    by blast
qed

lemma table_partition:
  assumes "table_of bss blocks" and "\<forall>es \<in> set bss. es \<noteq> []" and "entries_sorted (concat bss)"
    and "n = partition_point (\<lambda>b. bd_last_key b < key) blocks"
  shows "n \<le> length bss" and "\<forall>e \<in> set (concat (take n bss)). fst e < key"
proof -
  show le: "n \<le> length bss"
    using partition_point_le [of _ blocks] table_length [OF assms(1)] by (simp add: assms(4))
  show "\<forall>e \<in> set (concat (take n bss)). fst e < key"
  proof
    fix e assume "e \<in> set (concat (take n bss))"
    then obtain es where es: "e \<in> set es" "es \<in> set (take n bss)" by auto
    obtain i where "i < length (take n bss)" "take n bss ! i = es"
      using es(2) unfolding in_set_conv_nth by blast
    then have i: "i < n" "i < length bss" "e \<in> set (bss ! i)" using le es(1) by auto
    have "fst e \<le> fst (last (bss ! i))"
    proof -
      have ne: "bss ! i \<noteq> []" using i by auto
      have "sorted (map fst (bss ! i))" by (rule entries_sorted_keys [OF block_sorted(1) [OF assms(3) i(2)]])
      moreover obtain k where "k < length (bss ! i)" "e = bss ! i ! k" using i(3) by (auto simp: in_set_conv_nth)
      ultimately show ?thesis
        using sorted_nth_mono [of "map fst (bss ! i)" k "length (bss ! i) - 1"] ne by (simp add: last_conv_nth)
    qed
    also have "\<dots> < key"
      using partition_point_before [of i "\<lambda>b. bd_last_key b < key" blocks] i(1) table_split(2) [OF assms(1) i(2)]
      by (simp add: assms(4))
    finally show "fst e < key" .
  qed
qed

text \<open>Point lookups: the blocks before \<open>i\<close> have contributed their selection.\<close>

lemma later_blocks_other:
  assumes "entries_sorted (concat bss)" and "i < length bss" and "bss ! i \<noteq> []" and "key < fst (last (bss ! i))"
  shows "select_entries (concat (take i bss) @ bss ! i) key r = select_entries (concat bss) key r"
proof -
  let ?later = "concat (drop (Suc i) bss)"
  have split: "concat bss = (concat (take i bss) @ bss ! i) @ ?later"
    using assms(2) by (metis append_assoc concat.simps(2) concat_append id_take_nth_drop)
  have "\<forall>e \<in> set ?later. fst e \<noteq> key"
    using block_sorted(3) [OF assms(1,2)] assms(3,4) by fastforce
  then show ?thesis
    unfolding split select_entries_def entry_versions_append [of "concat (take i bss) @ bss ! i"]
    by (simp add: entry_versions_other)
qed

lemma get_version_loop_yields:
  assumes "table_of bss blocks" and "i \<le> length bss"
  shows "yields (holds g bss)
    (get_version_loop (load g) key r i (drop i blocks) (select_entries (concat (take i bss)) key r))
    (\<lambda>sel. sel = select_entries (concat bss) key r)"
proof (rule yields_holds)
  assume ok: "\<forall>es \<in> set bss. es \<noteq> [] \<and> block_entries_ok es" and sorted: "entries_sorted (concat bss)"
  show ?thesis
    using assms(2)
  proof (induction "length bss - i" arbitrary: i)
    case 0
    then show ?case using table_length [OF assms(1)] by auto
  next
    case (Suc n)
    then have i: "i < length bss" by simp
    have ne: "bss ! i \<noteq> []" and okb: "block_entries_ok (bss ! i)" using ok i by simp_all
    let ?sel = "select_entries (concat (take (Suc i) bss)) key r"
    have take: "concat (take (Suc i) bss) = concat (take i bss) @ bss ! i"
      using i by (simp add: take_Suc_conv_app_nth)
    have sel: "newer_version (select_entries (concat (take i bss)) key r) (select_entries (bss ! i) key r) = ?sel"
      unfolding take by (rule newer_version_append [OF block_sorted(2) [OF sorted i]])
    have rest: "yields (holds g bss)
        (if bd_last_key (blocks ! i) > key then cok ?sel
         else get_version_loop (load g) key r (Suc i) (drop (Suc i) blocks) ?sel)
        (\<lambda>sel. sel = select_entries (concat bss) key r)"
      using later_blocks_other [OF sorted i ne, of key r] Suc.hyps(1) [of "Suc i"] Suc.hyps(2) i
      by (auto simp: take table_split(2) [OF assms(1) i])
    show ?case
      unfolding table_split(1) [OF assms(1) i] get_version_loop.simps Let_def
      by (intro yields_cbind [OF load_ok [OF i]]
            yields_cbind [OF yields_clift [where P = "\<lambda>v. v = select_entries (bss ! i) key r", OF refl]])
        (use rest in \<open>simp_all add: select_version_block_of [OF okb block_sorted(1) [OF sorted i]] sel split del: if_split cong: if_cong\<close>)
  qed
qed

lemma load_kept:
  assumes "loaded_ok bss loaded" and "i < length bss"
  shows "yields (holds g bss)
    (case loaded of Some (loaded_index, block) \<Rightarrow> if loaded_index = i then cok block else load g i | None \<Rightarrow> load g i)
    (\<lambda>b. b = block_of (bss ! i))"
  using assms load_ok [OF assms(2)] by (auto simp: loaded_ok_def split: option.split)

lemma get_versions_loop_yields:
  assumes "table_of bss blocks" and "i \<le> length bss" and "loaded_ok bss loaded"
  shows "yields (holds g bss)
    (get_versions_loop (load g) key r i (drop i blocks) loaded (select_entries (concat (take i bss)) key r))
    (\<lambda>(sel, loaded). sel = select_entries (concat bss) key r \<and> loaded_ok bss loaded)"
proof (rule yields_holds)
  assume ok: "\<forall>es \<in> set bss. es \<noteq> [] \<and> block_entries_ok es" and sorted: "entries_sorted (concat bss)"
  show ?thesis
    using assms(2,3)
  proof (induction "length bss - i" arbitrary: i loaded)
    case 0
    then show ?case using table_length [OF assms(1)] by auto
  next
    case (Suc n)
    then have i: "i < length bss" by simp
    have ne: "bss ! i \<noteq> []" and okb: "block_entries_ok (bss ! i)" using ok i by simp_all
    let ?sel = "select_entries (concat (take (Suc i) bss)) key r"
    let ?loaded = "Some (i, block_of (bss ! i))"
    have loaded: "loaded_ok bss ?loaded" using i by (simp add: loaded_ok_def)
    have take: "concat (take (Suc i) bss) = concat (take i bss) @ bss ! i"
      using i by (simp add: take_Suc_conv_app_nth)
    have sel: "newer_version (select_entries (concat (take i bss)) key r) (select_entries (bss ! i) key r) = ?sel"
      unfolding take by (rule newer_version_append [OF block_sorted(2) [OF sorted i]])
    have rest: "yields (holds g bss)
        (if bd_last_key (blocks ! i) > key then cok (?sel, ?loaded)
         else get_versions_loop (load g) key r (Suc i) (drop (Suc i) blocks) ?loaded ?sel)
        (\<lambda>(sel, loaded). sel = select_entries (concat bss) key r \<and> loaded_ok bss loaded)"
      using later_blocks_other [OF sorted i ne, of key r] Suc.hyps(1) [OF _ _ loaded, of "Suc i"] Suc.hyps(2) i loaded
      by (auto simp: take table_split(2) [OF assms(1) i])
    show ?case
      unfolding table_split(1) [OF assms(1) i] get_versions_loop.simps Let_def
      by (intro yields_cbind [OF load_kept [OF Suc.prems(2) i]]
            yields_cbind [OF yields_clift [where P = "\<lambda>v. v = select_entries (bss ! i) key r", OF refl]])
        (use rest in \<open>simp_all add: select_version_block_of [OF okb block_sorted(1) [OF sorted i]] sel split del: if_split cong: if_cong\<close>)
  qed
qed

lemma select_from_partition:
  assumes "table_of bss blocks" and "\<forall>es \<in> set bss. es \<noteq> []" and "entries_sorted (concat bss)"
    and "n = partition_point (\<lambda>b. bd_last_key b < key) blocks"
  shows "select_entries (concat (take n bss)) key r = None"
  using table_partition(2) [OF assms] by (intro select_entries_other) auto

lemma get_versions_blocked_yields:
  assumes "table_of bss blocks" and "loaded_ok bss loaded" and "set order \<subseteq> {..<length keys}" and "distinct order"
    and "length out = length keys"
    and outside: "\<And>key. outside_segment seg key r \<Longrightarrow> select_entries (concat bss) key r = None"
    and "\<forall>i \<in> set order. out ! i = None"
  shows "yields (holds g bss) (get_versions_blocked (load g) seg blocks keys r order loaded out)
    (\<lambda>result. length result = length keys \<and> (\<forall>i < length keys.
       result ! i = (if i \<in> set order then select_entries (concat bss) (keys ! i) r else out ! i)))"
proof (rule yields_holds)
  assume ok: "\<forall>es \<in> set bss. es \<noteq> [] \<and> block_entries_ok es" and sorted: "entries_sorted (concat bss)"
  show ?thesis
    using assms(2-5,7)
  proof (induction order arbitrary: loaded out)
    case (Cons index order)
    let ?key = "keys ! index"
    show ?case
    proof (cases "outside_segment seg ?key r")
      case True
      show ?thesis
        unfolding get_versions_blocked.simps Let_def if_P [OF True]
        by (rule yields_mono [OF Cons.IH]) (use Cons.prems outside [OF True] in auto)
    next
      case False
      let ?n = "partition_point (\<lambda>b. bd_last_key b < ?key) blocks"
      note part = table_partition(1) [OF assms(1) _ sorted refl, of ?key]
        select_from_partition [OF assms(1) _ sorted refl, of ?key r]
      have step: "yields (holds g bss)
        (get_versions_loop (load g) ?key r ?n (drop ?n blocks) loaded None)
        (\<lambda>(sel, loaded). sel = select_entries (concat bss) ?key r \<and> loaded_ok bss loaded)"
        using get_versions_loop_yields [OF assms(1) part(1) Cons.prems(1), of g ?key r] part(2) ok by simp
      show ?thesis
        unfolding get_versions_blocked.simps Let_def if_not_P [OF False]
      proof (rule yields_cbind [OF step])
        fix p assume p: "case p of (sel, loaded) \<Rightarrow> sel = select_entries (concat bss) ?key r \<and> loaded_ok bss loaded"
        obtain sel loaded' where sl: "p = (sel, loaded')" by (cases p)
        show "yields (holds g bss) (case p of (selected, loaded) \<Rightarrow>
            get_versions_blocked (load g) seg blocks keys r order loaded (out[index := selected]))
          (\<lambda>result. length result = length keys \<and> (\<forall>i < length keys.
            result ! i = (if i \<in> set (index # order) then select_entries (concat bss) (keys ! i) r else out ! i)))"
          unfolding sl prod.case
          by (rule yields_mono [OF Cons.IH]) (use Cons.prems p sl in \<open>auto simp: nth_list_update\<close>)
      qed
    qed
  qed (auto simp: assms)
qed

text \<open>Visiting loops. The visitor ignores what lies outside the range, so skipping it is unobservable.\<close>

lemma visit_decoded_pure:
  assumes "block_entries_ok es" and "\<And>r s. visit r s = Ok (v (record_entry r) s)"
  shows "visit_decoded_records (block_of es) n visit s = Ok (fold v (drop n es) s)"
  using visit_decoded_records_of [of es visit "\<lambda>e s. Ok (v e s)" n s] assms by (simp add: try_fold_pure)

lemma fold_below:
  assumes "ignores_outside v start end'" and "\<forall>e \<in> set xs. fst e < start"
  shows "fold v (xs @ ys) s = fold v ys s"
proof -
  have "v e = id" if "e \<in> set xs" for e
    using assms(1) assms(2) [rule_format, OF that] unfolding ignores_outside_def in_bounds_def
    by (meson not_le)
  then have "fold v xs = id" by (intro fold_id) blast
  then show ?thesis by simp
qed

lemma fold_above:
  assumes "ignores_outside v start (Some e)" and "\<forall>x \<in> set ys. e \<le> fst x"
  shows "fold v ys s = s"
proof -
  have "v x = id" if "x \<in> set ys" for x
  proof -
    have "\<not> in_bounds start (Some e) (fst x)"
      using assms(2) [rule_format, OF that] by (simp add: in_bounds_def not_less)
    with assms(1) show ?thesis unfolding ignores_outside_def by blast
  qed
  then have "fold v ys = id" by (intro fold_id) blast
  then show ?thesis by simp
qed

lemma visit_blocks_yields:
  assumes "table_of bss blocks" and "first \<le> i" and "i \<le> length bss"
    and visit: "\<And>r s. visit r s = Ok (v (record_entry r) s)" and ignore: "ignores_outside v start end'"
  shows "yields (holds g bss) (visit_blocks (load g) start end' first visit i (drop i blocks) s)
    (\<lambda>s'. s' = fold v (concat (drop i bss)) s)"
proof (rule yields_holds)
  assume ok: "\<forall>es \<in> set bss. es \<noteq> [] \<and> block_entries_ok es" and sorted: "entries_sorted (concat bss)"
  show ?thesis
    using assms(2,3)
  proof (induction "length bss - i" arbitrary: i s)
    case 0
    then show ?case using table_length [OF assms(1)] by auto
  next
    case (Suc n)
    then have i: "i < length bss" by simp
    have ne: "bss ! i \<noteq> []" and okb: "block_entries_ok (bss ! i)" using ok i by simp_all
    have keys: "sorted (map fst (bss ! i))" by (rule entries_sorted_keys [OF block_sorted(1) [OF sorted i]])
    let ?k = "if i = first then partition_point (\<lambda>e. fst e < start) (bss ! i) else 0"
    let ?s = "fold v (bss ! i) s"
    have "\<forall>e \<in> set (take ?k (bss ! i)). fst e < start"
      using partition_point_split(1) [OF keys, of start] by (cases "i = first") (simp_all only: if_True if_False take_0 list.set ball_empty simp_thms)
    then have skip: "fold v (drop ?k (bss ! i)) s = ?s"
      using fold_below [OF ignore, of "take ?k (bss ! i)" "drop ?k (bss ! i)" s]
      by (simp only: append_take_drop_id)
    have drop: "concat (drop i bss) = bss ! i @ concat (drop (Suc i) bss)"
      using i by (metis Cons_nth_drop_Suc concat.simps(2))
    have stop: "fold v (concat (drop (Suc i) bss)) ?s = ?s"
      if "case end' of None \<Rightarrow> False | Some e \<Rightarrow> bd_last_key (blocks ! i) \<ge> e"
    proof -
      from that obtain e where e: "end' = Some e" "e \<le> fst (last (bss ! i))"
        by (auto simp: table_split(2) [OF assms(1) i] split: option.splits)
      have "\<forall>x \<in> set (concat (drop (Suc i) bss)). e \<le> fst x"
        using block_sorted(3) [OF sorted i] ne e(2) by fastforce
      then show ?thesis using ignore e(1) by (intro fold_above) auto
    qed
    have rest: "yields (holds g bss)
        (if case end' of None \<Rightarrow> False | Some e \<Rightarrow> bd_last_key (blocks ! i) \<ge> e then cok ?s
         else visit_blocks (load g) start end' first visit (Suc i) (drop (Suc i) blocks) ?s)
        (\<lambda>s'. s' = fold v (concat (drop i bss)) s)"
      using stop Suc.hyps(1) [of "Suc i" ?s] Suc.hyps(2) Suc.prems i unfolding drop by auto
    have bound: "(if i = first then lower_bound (block_of (bss ! i)) start else Ok 0) = Ok ?k"
      unfolding lower_bound_of [OF okb keys] by simp
    have visited: "visit_decoded_records (block_of (bss ! i)) ?k visit s = Ok ?s"
      using visit_decoded_pure [where visit = visit and v = v, OF okb visit] skip by simp
    show ?case
      unfolding table_split(1) [OF assms(1) i] visit_blocks.simps
      by (intro yields_cbind [OF load_ok [OF i]] yields_cbind [OF yields_clift [where P = "\<lambda>n. n = ?k", OF refl]]
            yields_cbind [OF yields_clift [where P = "\<lambda>s. s = ?s", OF refl]])
        (use rest in \<open>simp_all only: bound visited\<close>)
  qed
qed

lemma visit_from_partition:
  assumes "table_of bss blocks" and "n = partition_point (\<lambda>b. bd_last_key b < start) blocks"
    and visit: "\<And>r s. visit r s = Ok (v (record_entry r) s)" and ignore: "ignores_outside v start end'"
  shows "yields (holds g bss) (visit_blocks (load g) start end' n visit n (drop n blocks) s)
    (\<lambda>s'. s' = fold v (concat bss) s)"
proof (rule yields_holds)
  assume ok: "\<forall>es \<in> set bss. es \<noteq> [] \<and> block_entries_ok es" and sorted: "entries_sorted (concat bss)"
  then have part: "n \<le> length bss" "\<forall>e \<in> set (concat (take n bss)). fst e < start"
    using table_partition [OF assms(1) _ sorted assms(2)] by simp_all
  have "fold v (concat bss) s = fold v (concat (drop n bss)) s"
    using fold_below [OF ignore part(2)] by (metis append_take_drop_id concat_append)
  then show ?thesis
    using visit_blocks_yields [where visit = visit and v = v, OF assms(1) order_refl part(1) visit ignore, of g s]
    by simp
qed

lemma visit_all_blocks_yields:
  assumes "set is \<subseteq> {..<length bss}" and visit: "\<And>r s. visit r s = Ok (v (record_entry r) s)"
  shows "yields (holds g bss) (visit_all_blocks (load g) visit is s)
    (\<lambda>s'. s' = fold v (concat (map ((!) bss) is)) s)"
proof (rule yields_holds)
  assume ok: "\<forall>es \<in> set bss. es \<noteq> [] \<and> block_entries_ok es"
  show ?thesis
    using assms(1)
  proof (induction "is" arbitrary: s)
    case (Cons i "is")
    then have i: "i < length bss" and okb: "block_entries_ok (bss ! i)" using ok by simp_all
    show ?case
      unfolding visit_all_blocks.simps
      by (intro yields_cbind [OF load_ok [OF i]]
          yields_cbind [OF yields_clift [where P = "\<lambda>t. t = fold v (bss ! i) s", OF refl]])
        (use Cons in \<open>simp_all add: visit_decoded_pure [where visit = visit and v = v, OF okb visit]\<close>)
  qed auto
qed

end

section \<open>Visitors on entries\<close>

definition pure_visit :: "(seg_record \<Rightarrow> 's \<Rightarrow> 's kv_result) \<Rightarrow> entry \<Rightarrow> 's \<Rightarrow> 's" where
  "pure_visit visit e s = (case visit (entry_record e 0) s of Inr s' \<Rightarrow> s' | Inl _ \<Rightarrow> s)"

definition pure_visitor :: "(seg_record \<Rightarrow> 's \<Rightarrow> 's kv_result) \<Rightarrow> bool" where
  "pure_visitor visit \<longleftrightarrow> (\<forall>r s. visit r s = Ok (pure_visit visit (record_entry r) s))"

lemma record_entry_fields [simp]:
  "fst (record_entry r) = rec_key r" "vv_sequence (snd (record_entry r)) = rec_sequence r"
  "vv_value (snd (record_entry r)) = rec_value r"
  by (simp_all add: record_entry_def)

lemma pure_visitorI:
  assumes "\<And>r s. visit r s = Ok (g r s)" and "\<And>r s. g (entry_record (record_entry r) 0) s = g r s"
  shows "pure_visitor visit"
  using assms by (simp add: pure_visitor_def pure_visit_def)

lemma entry_record_version [simp]: "record_version (entry_record e n) = as_version (snd e)"
  by (simp add: record_version_def as_version_def)

lemma as_version_record_entry [simp]: "as_version (snd (record_entry r)) = record_version r"
  by (simp add: record_version_def as_version_def)

lemma scan_collect_pure: "pure_visitor (scan_collect start end' r)"
  by (rule pure_visitorI [where g = "\<lambda>rec s. case scan_collect start end' r rec s of Inr s' \<Rightarrow> s' | Inl _ \<Rightarrow> s"])
    (simp_all add: scan_collect_def Let_def cong: option.case_cong)

lemma visible_collect_pure: "pure_visitor (visible_collect start end' r)"
  by (rule pure_visitorI [where g = "\<lambda>rec s. case visible_collect start end' r rec s of Inr s' \<Rightarrow> s' | Inl _ \<Rightarrow> s"])
    (simp_all add: visible_collect_def cong: option.case_cong)

lemma push_version_pure: "pure_visitor push_version"
  by (rule pure_visitorI [where g = "\<lambda>rec s. case push_version rec s of Inr s' \<Rightarrow> s' | Inl _ \<Rightarrow> s"])
    (simp_all add: push_version_def Let_def split_beta)

lemma out_of_bounds:
  "k < start \<or> (case end' of None \<Rightarrow> False | Some e \<Rightarrow> k \<ge> e) \<longleftrightarrow> \<not> in_bounds start end' k"
  by (auto simp: in_bounds_def not_le not_less split: option.splits)

lemma visible_step:
  "pure_visit (visible_collect start end' r) e g =
    (if in_bounds start end' (fst e) \<and> vv_sequence (snd e) \<le> r \<and>
        (case bt_get g (fst e) of None \<Rightarrow> True | Some prior \<Rightarrow> vv_sequence (snd e) > sv_sequence prior)
     then bt_insert (fst e) (as_version (snd e)) g else g)"
  unfolding pure_visit_def visible_collect_def out_of_bounds
  by (cases "bt_get g (fst e)") auto

lemma scan_step:
  "pure_visit (scan_collect start end' r) e st =
    (if \<not> in_bounds start end' (fst e) then st
     else let st' = (if sc_current_key st \<noteq> fst e
                     then \<lparr>sc_output = scan_finish st, sc_current_key = fst e, sc_selected = None\<rparr> else st)
          in if vv_sequence (snd e) \<le> r \<and> (case sc_selected st' of None \<Rightarrow> True | Some v \<Rightarrow> vv_sequence (snd e) > sv_sequence v)
             then st'\<lparr>sc_selected := Some (as_version (snd e))\<rparr> else st')"
  unfolding pure_visit_def scan_collect_def out_of_bounds
  by (cases "sc_selected st") (auto simp: scan_finish_def Let_def)

lemma visitors_ignore_outside:
  "ignores_outside (pure_visit (visible_collect start end' r)) start end'"
  "ignores_outside (pure_visit (scan_collect start end' r)) start end'"
  by (auto simp: ignores_outside_def visible_step scan_step fun_eq_iff)

section \<open>What the reads of a list of entries are\<close>

definition visible_entries :: "entry list \<Rightarrow> bytes \<Rightarrow> bytes option \<Rightarrow> u64 \<Rightarrow> (bytes \<times> versioned_value) list" where
  "visible_entries es start end' r =
     List.map_filter (\<lambda>key. map_option (Pair key) (newest_at r (entry_versions es key)))
       (filter (in_bounds start end') (remdups_adj (map fst es)))"

definition live_pairs :: "(bytes \<times> versioned_value) list \<Rightarrow> (bytes \<times> bytes) list" where
  "live_pairs = List.map_filter (\<lambda>(key, v). map_option (Pair key) (vv_value v))"

definition grouped_entries :: "entry list \<Rightarrow> (bytes \<times> versioned_value list) list" where
  "grouped_entries es = map (\<lambda>key. (key, entry_versions es key)) (remdups_adj (map fst es))"

lemma bt_insert_above: "\<forall>k' \<in> fst ` set m. k' < k \<Longrightarrow> bt_insert k v m = m @ [(k, v)]"
  by (induction m) auto

lemma bt_insert_top: "\<forall>k' \<in> fst ` set m. k' < k \<Longrightarrow> bt_insert k v (m @ [(k, w)]) = m @ [(k, v)]"
  by (induction m) auto

lemma sorted_remdups_adj_strict: "sorted xs \<Longrightarrow> sorted_wrt (<) (remdups_adj xs)"
  by (induction xs rule: remdups_adj.induct) (auto simp: less_le)

lemma keys_strict: "entries_sorted es \<Longrightarrow> sorted_wrt (<) (remdups_adj (map fst es))"
  by (intro sorted_remdups_adj_strict entries_sorted_keys)

lemma set_visible_entries:
  "(key, v) \<in> set (visible_entries es start end' r) \<longleftrightarrow> in_bounds start end' key \<and> newest_at r (entry_versions es key) = Some v"
proof -
  have "key \<in> fst ` set es" if "newest_at r (entry_versions es key) = Some v"
    using that entry_versions_other [of es key] by force
  then show ?thesis
    by (auto simp: visible_entries_def set_map_filter)
qed

lemma map_filter_strict:
  assumes "sorted_wrt (<) ks" and "\<And>k e. f k = Some e \<Longrightarrow> fst e = k"
  shows "sorted_wrt (<) (map fst (List.map_filter f ks))"
  using assms(1)
proof (induction ks)
  case (Cons k ks)
  have "fst ` set (List.map_filter f ks) \<subseteq> set ks"
    using assms(2) by (auto simp: set_map_filter)
  then show ?case
    using Cons assms(2) by (auto simp: List.map_filter_simps split: option.split)
qed (simp add: List.map_filter_simps)

lemma visible_entries_wf:
  assumes "entries_sorted es"
  shows "bt_wf (visible_entries es start end' r)"
  unfolding visible_entries_def bt_wf_def
  by (rule map_filter_strict [OF sorted_wrt_filter [OF keys_strict [OF assms]]]) auto

lemma bt_get_visible_entries:
  assumes "entries_sorted es"
  shows "bt_get (visible_entries es start end' r) key =
    (if in_bounds start end' key then newest_at r (entry_versions es key) else None)"
proof -
  have "bt_get (visible_entries es start end' r) key = Some v \<longleftrightarrow>
    (if in_bounds start end' key then newest_at r (entry_versions es key) else None) = Some v" for v
    unfolding bt.entries_mem [OF visible_entries_wf [OF assms], symmetric] set_visible_entries by simp
  then show ?thesis by (metis not_None_eq)
qed

lemma visible_fold:
  assumes "entries_sorted es"
  shows "bt_wf (fold (pure_visit (visible_collect start end' r)) es [])"
    and "bt_get (fold (pure_visit (visible_collect start end' r)) es []) key =
      (if in_bounds start end' key then select_entries es key r else None)"
proof -
  let ?v = "pure_visit (visible_collect start end' r)"
  have "bt_wf (fold ?v es []) \<and> (\<forall>key. bt_get (fold ?v es []) key =
      (if in_bounds start end' key then select_entries es key r else None))"
    using assms
  proof (induction es rule: rev_induct)
    case (snoc e es)
    then have IH: "bt_wf (fold ?v es [])"
        "\<And>key. bt_get (fold ?v es []) key = (if in_bounds start end' key then select_entries es key r else None)"
      by (auto simp: entries_sorted_append)
    have sel: "select_entries (es @ [e]) key r = newer_version (select_entries es key r) (select_entries [e] key r)" for key
      using newer_version_append [OF snoc.prems] by simp
    have one: "select_entries [e] key r = (if fst e = key \<and> vv_sequence (snd e) \<le> r then Some (as_version (snd e)) else None)" for key
      by (simp add: select_entries_def entry_versions_def newest_at_Cons)
    have seq: "sv_sequence (as_version v) = vv_sequence v" for v by (simp add: as_version_def)
    obtain g where g: "g = fold ?v es []" by blast
    have "fold ?v (es @ [e]) [] = ?v e g" by (simp add: g)
    note fold = this [unfolded visible_step [of _ _ _ e g]] and IH = IH [folded g]
    show ?case
      unfolding fold sel one newer_version_def
      using IH(1) by (auto simp: bt_wf_insert bt_get_insert IH(2) seq split: option.splits)
  qed (simp add: select_entries_def entry_versions_def)
  then show "bt_wf (fold ?v es [])"
    "bt_get (fold ?v es []) key = (if in_bounds start end' key then select_entries es key r else None)"
    by simp_all
qed

lemma as_versioned_as_version [simp]: "as_versioned (as_version v) = v"
  by (simp add: as_versioned_def as_version_def)

lemma visible_fold_entries:
  assumes "entries_sorted es"
  shows "map (\<lambda>(key, v). (key, as_versioned v)) (fold (pure_visit (visible_collect start end' r)) es [])
    = visible_entries es start end' r"
proof -
  let ?g = "fold (pure_visit (visible_collect start end' r)) es []"
  have wf: "bt_wf (map (\<lambda>(key, v). (key, as_versioned v)) ?g)"
    using visible_fold(1) [OF assms] by (simp add: bt_wf_map_values)
  have id: "map_option as_versioned (map_option as_version x) = x" for x by (cases x) simp_all
  have "bt_get (map (\<lambda>(key, v). (key, as_versioned v)) ?g) key = bt_get (visible_entries es start end' r) key" for key
    unfolding bt_get_map_values [where f = "\<lambda>_. as_versioned"] visible_fold(2) [OF assms] bt_get_visible_entries [OF assms]
    by (simp add: select_entries_def id)
  then show ?thesis
    using bt.entries_unique [OF wf visible_entries_wf [OF assms]] by blast
qed

text \<open>The scan's running state simulates the grouped map: its output is what lies below the current key.\<close>

definition scan_sim :: "scan_state \<Rightarrow> (bytes, segment_version) btree \<Rightarrow> bool" where
  "scan_sim st g \<longleftrightarrow> (\<exists>g0. g = g0 @ (case sc_selected st of None \<Rightarrow> [] | Some v \<Rightarrow> [(sc_current_key st, v)]) \<and>
     sc_output st = live_pairs (map (\<lambda>(key, v). (key, as_versioned v)) g0) \<and>
     (\<forall>k \<in> fst ` set g0. k < sc_current_key st))"

lemma live_pairs_append: "live_pairs (xs @ ys) = live_pairs xs @ live_pairs ys"
  by (simp add: live_pairs_def map_filter_def)

lemma live_pairs_one: "live_pairs [(key, v)] = (case vv_value v of None \<Rightarrow> [] | Some val \<Rightarrow> [(key, val)])"
  by (simp add: live_pairs_def map_filter_def split: option.split)

lemma scan_sim_finish:
  assumes "scan_sim st g"
  shows "scan_finish st = live_pairs (map (\<lambda>(key, v). (key, as_versioned v)) g)"
  using assms
  by (auto simp: scan_sim_def scan_finish_def live_pairs_append live_pairs_one as_versioned_def split: option.splits)

lemma scan_sim_step:
  assumes sim: "scan_sim st g" and le: "sc_current_key st \<le> fst e"
  shows "scan_sim (pure_visit (scan_collect start end' r) e st) (pure_visit (visible_collect start end' r) e g)"
    and "sc_current_key (pure_visit (scan_collect start end' r) e st) \<le> fst e"
proof -
  obtain g0 where g: "g = g0 @ (case sc_selected st of None \<Rightarrow> [] | Some v \<Rightarrow> [(sc_current_key st, v)])"
    and out: "sc_output st = live_pairs (map (\<lambda>(key, v). (key, as_versioned v)) g0)"
    and less: "\<forall>k \<in> fst ` set g0. k < sc_current_key st"
    using sim unfolding scan_sim_def by blast
  show "sc_current_key (pure_visit (scan_collect start end' r) e st) \<le> fst e"
    using le by (simp add: scan_step Let_def)
  show "scan_sim (pure_visit (scan_collect start end' r) e st) (pure_visit (visible_collect start end' r) e g)"
  proof (cases "in_bounds start end' (fst e)")
    case False
    then show ?thesis using sim by (simp add: scan_step visible_step)
  next
    case bounds: True
    show ?thesis
    proof (cases "sc_current_key st = fst e")
      case True
      have "bt_get g0 (fst e) = None"
        using less True by (fastforce simp: bt_get_def map_of_eq_None_iff)
      then have get: "bt_get g (fst e) = sc_selected st"
        using True by (simp add: g bt_get_append bt_get_def map_add_def split: option.split)
      have ins: "bt_insert (fst e) (as_version (snd e)) g = g0 @ [(fst e, as_version (snd e))]"
        using less True by (auto simp: g bt_insert_above bt_insert_top split: option.split)
      show ?thesis
        using sim bounds True out less
        by (auto simp: scan_step visible_step get ins Let_def scan_sim_def [of "st\<lparr>sc_selected := _\<rparr>"])
    next
      case False
      then have lt: "sc_current_key st < fst e" using le by simp
      have above: "\<forall>k \<in> fst ` set g. k < fst e"
        using less lt by (auto simp: g split: option.splits intro: less_trans)
      then have get: "bt_get g (fst e) = None"
        by (fastforce simp: bt_get_def map_of_eq_None_iff)
      show ?thesis
        using bounds False above
        by (auto simp: scan_step visible_step get Let_def scan_sim_def scan_sim_finish [OF sim] bt_insert_above)
    qed
  qed
qed

lemma scan_fold_entries:
  assumes "entries_sorted es"
  shows "scan_finish (fold (pure_visit (scan_collect start end' r)) es \<lparr>sc_output = [], sc_current_key = [], sc_selected = None\<rparr>)
    = live_pairs (visible_entries es start end' r)"
proof -
  have "scan_sim (fold (pure_visit (scan_collect start end' r)) es st) (fold (pure_visit (visible_collect start end' r)) es g)"
    if "scan_sim st g" "\<forall>e \<in> set es. sc_current_key st \<le> fst e" "sorted (map fst es)" for st g
    using that
  proof (induction es arbitrary: st g)
    case (Cons e es)
    note step = scan_sim_step [OF Cons.prems(1), of e start end' r]
    have "\<forall>e' \<in> set es. sc_current_key (pure_visit (scan_collect start end' r) e st) \<le> fst e'"
      using step(2) Cons.prems(2,3) by (auto intro: order_trans)
    then show ?case using Cons.IH [OF step(1)] Cons.prems by simp
  qed simp
  from scan_sim_finish [OF this, of "\<lparr>sc_output = [], sc_current_key = [], sc_selected = None\<rparr>" "[]"]
  show ?thesis
    using entries_sorted_keys [OF assms]
    by (simp add: scan_sim_def live_pairs_def List.map_filter_simps visible_fold_entries [OF assms, unfolded live_pairs_def])
qed

lemma grouped_entries_snoc:
  assumes "entries_sorted (es @ [e])"
  shows "grouped_entries (es @ [e]) = (if es = [] \<or> fst (last es) \<noteq> fst e then grouped_entries es @ [(fst e, [snd e])]
     else butlast (grouped_entries es) @ [(fst e, entry_versions es (fst e) @ [snd e])])"
proof -
  have keys: "remdups_adj (map fst es @ [fst e]) =
      (if es = [] \<or> fst (last es) \<noteq> fst e then remdups_adj (map fst es) @ [fst e] else remdups_adj (map fst es))"
    by (cases es rule: rev_cases) (simp_all add: remdups_adj_append_two)
  have le: "\<forall>k \<in> set (map fst es). k \<le> fst e"
    using entries_sorted_keys [OF assms] by (auto simp: sorted_append)
  have vs: "entry_versions (es @ [e]) k = (if k = fst e then entry_versions es k @ [snd e] else entry_versions es k)" for k
    by (simp add: entry_versions_def)
  show ?thesis
  proof (cases "es = [] \<or> fst (last es) \<noteq> fst e")
    case True
    have "fst e \<notin> set (map fst es)"
    proof
      assume "fst e \<in> set (map fst es)"
      then have "es \<noteq> []" and "fst e \<le> fst (last es)"
        using assms by (cases es rule: rev_cases; auto simp: entries_sorted_append)+
      with True le show False by (metis antisym last_in_set last_map list.map_disc_iff)
    qed
    then have "entry_versions es (fst e) = []" by (intro entry_versions_other) (metis image_eqI list.set_map)
    moreover have "k \<noteq> fst e" if "k \<in> set (remdups_adj (map fst es))" for k
      using that \<open>fst e \<notin> _\<close> by (metis remdups_adj_set)
    ultimately show ?thesis using True by (simp add: grouped_entries_def keys vs cong: map_cong)
  next
    case False
    have d: "sorted_wrt (<) (remdups_adj (map fst es))"
      using assms by (intro keys_strict) (simp add: entries_sorted_append)
    have "remdups_adj (map fst es) \<noteq> []" "last (remdups_adj (map fst es)) = fst e"
      using False by (simp_all add: last_map)
    then obtain ks where ks: "remdups_adj (map fst es) = ks @ [fst e]"
      by (metis append_butlast_last_id)
    then have "fst e \<notin> set ks" using d by (auto simp: sorted_wrt_append)
    with False ks show ?thesis by (auto simp: grouped_entries_def keys vs)
  qed
qed

lemma last_grouped:
  "es \<noteq> [] \<Longrightarrow> grouped_entries es \<noteq> [] \<and> last (grouped_entries es) = (fst (last es), entry_versions es (fst (last es)))"
  by (simp add: grouped_entries_def last_map)

lemma push_step:
  "pure_visit push_version e gs = (if gs = [] \<or> fst (last gs) \<noteq> fst e then gs @ [(fst e, [snd e])]
     else butlast gs @ [(fst e, snd (last gs) @ [snd e])])"
  by (auto simp: pure_visit_def push_version_def Let_def split_beta)

lemma push_fold_entries:
  assumes "entries_sorted es"
  shows "fold (pure_visit push_version) es [] = grouped_entries es"
  using assms
proof (induction es rule: rev_induct)
  case (snoc e es)
  then have IH: "fold (pure_visit push_version) es [] = grouped_entries es"
    by (simp add: entries_sorted_append)
  have "fold (pure_visit push_version) (es @ [e]) [] = pure_visit push_version e (grouped_entries es)"
    by (simp add: IH)
  then show ?case
    using grouped_entries_snoc [OF snoc.prems] last_grouped [of es]
    by (cases "es = []") (auto simp: push_step [of e "grouped_entries es"] push_step [of e "[]"] grouped_entries_def [of "[]"])
qed (simp add: grouped_entries_def)

section \<open>The segment as a block loader\<close>

text \<open>\<open>truth\<close> says what the blocks of every open segment decode to; it agrees with this one.\<close>

definition knows :: "block_truth \<Rightarrow> codec \<Rightarrow> segment \<Rightarrow> bool" where
  "knows truth c seg = (case seg_storage seg of
     Legacy _ _ \<Rightarrow> True
   | Blocked src blocks cache_id \<Rightarrow> \<forall>i < length blocks.
       truth cache_id i = rbind (read_and_decode_block c src (blocks ! i)) decoded_block_parse)"

definition segment_blocks :: "codec \<Rightarrow> segment \<Rightarrow> entry list list \<Rightarrow> bool" where
  "segment_blocks c seg bss = (case seg_storage seg of
     Legacy _ _ \<Rightarrow> False
   | Blocked src blocks _ \<Rightarrow> list_all2 (block_holds c src) blocks bss \<and> entries_sorted (concat bss))"

type_synonym open_segment = "codec \<times> segment \<times> block_truth"

definition segment_load :: "open_segment \<Rightarrow> nat \<Rightarrow> decoded_block cached" where
  "segment_load = (\<lambda>(c, seg, truth). load_block c seg)"

definition segment_holds :: "open_segment \<Rightarrow> entry list list \<Rightarrow> block_cache \<Rightarrow> bool" where
  "segment_holds = (\<lambda>(c, seg, truth) bss cache.
     segment_blocks c seg bss \<and> knows truth c seg \<and> cache_coherent truth cache)"

lemma load_block_coherent:
  assumes "seg_storage seg = Blocked src blocks cache_id" and "cache_coherent truth cache"
    and "truth cache_id i = rbind (read_and_decode_block c src (blocks ! i)) decoded_block_parse"
  shows "fst (load_block c seg i cache) = truth cache_id i" and "cache_coherent truth (snd (load_block c seg i cache))"
proof -
  obtain found cache1 where look: "cache_lookup (cache_id, i) cache = (found, cache1)" by fastforce
  note lookup = cache_lookup_coherent [OF assms(2) look]
  have "fst (load_block c seg i cache) = truth cache_id i \<and> cache_coherent truth (snd (load_block c seg i cache))"
  proof (cases found)
    case (Some b)
    have "truth (fst (cache_id, i)) (snd (cache_id, i)) = Ok b"
      using assms(2) lookup(2) Some unfolding cache_coherent_def by metis
    then show ?thesis using lookup(1) Some by (simp add: load_block_def assms(1) look)
  next
    case None
    show ?thesis
    proof (cases "truth cache_id i")
      case (Inl e)
      then show ?thesis using lookup(1) None assms(3) by (simp add: load_block_def assms(1) look)
    next
      case (Inr b)
      obtain val cache2 where ins: "cache_insert (cache_id, i) b cache1 = (val, cache2)" by fastforce
      have "cache_coherent truth cache2" "val = b"
        using cache_insert_coherent [OF lookup(1) _ ins] Inr by simp_all
      then show ?thesis using None Inr assms(3) ins by (simp add: load_block_def assms(1) look)
    qed
  qed
  then show "fst (load_block c seg i cache) = truth cache_id i" "cache_coherent truth (snd (load_block c seg i cache))"
    by simp_all
qed

interpretation sb: block_loader segment_load segment_holds
proof unfold_locales
  fix i and bss :: "entry list list" and g :: open_segment
  assume i: "i < length bss"
  obtain c seg truth where g: "g = (c, seg, truth)" by (cases g)
  show "yields (segment_holds g bss) (segment_load g i) (\<lambda>b. b = block_of (bss ! i))"
    unfolding yields_def
  proof (intro allI impI)
    fix s assume "segment_holds g bss s"
    then have blocks: "segment_blocks c seg bss" and know: "knows truth c seg" and coh: "cache_coherent truth s"
      by (simp_all add: segment_holds_def g)
    then obtain src blocks cache_id where st: "seg_storage seg = Blocked src blocks cache_id"
      and all: "list_all2 (block_holds c src) blocks bss"
      by (auto simp: segment_blocks_def split: segment_storage.splits)
    have ib: "i < length blocks" using i list_all2_lengthD [OF all] by simp
    have "block_holds c src (blocks ! i) (bss ! i)" using all ib by (rule list_all2_nthD)
    then have truth: "truth cache_id i = Ok (block_of (bss ! i))"
      "truth cache_id i = rbind (read_and_decode_block c src (blocks ! i)) decoded_block_parse"
      using know ib by (auto simp: knows_def st block_holds_def decoded_block_parse_of)
    note load = load_block_coherent [OF st coh truth(2)]
    show "\<exists>a s'. segment_load g i s = (Ok a, s') \<and> segment_holds g bss s' \<and> a = block_of (bss ! i)"
      using load blocks know truth(1) by (intro exI [of _ "block_of (bss ! i)"] exI [of _ "snd (load_block c seg i s)"])
        (simp add: segment_load_def segment_holds_def g prod_eq_iff)
  qed
next
  fix g :: open_segment and bss :: "entry list list" and s es
  assume h: "segment_holds g bss s" and es: "es \<in> set bss"
  then obtain c seg truth src blocks cache_id where "list_all2 (block_holds c src) blocks bss"
    by (cases g) (auto simp: segment_holds_def segment_blocks_def split: segment_storage.splits)
  then obtain b where "block_holds c src b es" using es by (metis in_set_conv_nth list_all2_conv_all_nth)
  then show "es \<noteq> [] \<and> block_entries_ok es" by (simp add: block_holds_def)
next
  fix g :: open_segment and bss :: "entry list list" and s
  assume "segment_holds g bss s"
  then show "entries_sorted (concat bss)"
    by (cases g) (auto simp: segment_holds_def segment_blocks_def split: segment_storage.splits)
qed

section \<open>Reads of a segment that represents a list of entries\<close>

lemma segment_blocksE:
  assumes "segment_rep c seg es" and "seg_storage seg = Blocked src blocks cache_id"
  obtains bss where "es = concat bss" and "segment_blocks c seg bss" and "table_of bss blocks"
proof -
  obtain bss where bss: "es = concat bss" "list_all2 (block_holds c src) blocks bss"
    using assms by (auto simp: segment_rep_def storage_rep_def)
  have "segment_blocks c seg bss"
    using assms bss by (simp add: segment_blocks_def segment_rep_def descriptor_rep_def)
  moreover have "table_of bss blocks"
    using bss(2) unfolding table_of_def by (induction rule: list_all2_induct) (simp_all add: block_holds_def)
  ultimately show thesis using bss(1) that by blast
qed

lemma yields_coherent:
  assumes "yields (segment_holds (c, seg, truth) bss) m P" and "segment_blocks c seg bss" and "knows truth c seg"
  shows "yields (cache_coherent truth) m P"
  using assms unfolding yields_def segment_holds_def prod.case by blast

lemma outside_none:
  assumes "segment_rep c seg es" and "outside_segment seg key r"
  shows "select_entries es key r = None"
proof -
  have d: "es \<noteq> []" "entries_sorted es" "sd_first_key (seg_descriptor seg) = fst (hd es)"
    "sd_last_key (seg_descriptor seg) = fst (last es)"
    "\<forall>e \<in> set es. sd_minimum_sequence (seg_descriptor seg) \<le> vv_sequence (snd e)"
    using assms(1) by (auto simp: segment_rep_def descriptor_rep_def entry_in_def)
  note keys = entries_sorted_keys [OF d(2)]
  have ends: "fst (hd es) \<le> fst e \<and> fst e \<le> fst (last es)" if "e \<in> set es" for e
  proof -
    obtain i where "i < length es" "e = es ! i" using \<open>e \<in> set es\<close> by (metis in_set_conv_nth)
    then show ?thesis
      using sorted_nth_mono [OF keys, of 0 i] sorted_nth_mono [OF keys, of i "length es - 1"] d(1)
      by (simp add: hd_conv_nth last_conv_nth)
  qed
  consider "key < fst (hd es)" | "fst (last es) < key" | "r < sd_minimum_sequence (seg_descriptor seg)"
    using assms(2) d by (auto simp: outside_segment_def)
  then show ?thesis
  proof cases
    case 3
    then have "newest_at r (entry_versions es key) = None"
      using d(5) by (fastforce simp: newest_at_def find_None_iff entry_versions_def)
    then show ?thesis by (simp add: select_entries_def)
  qed (intro select_entries_other; use ends in fastforce)+
qed

lemma legacy_seek_of:
  assumes "sparse_ok sparse es" and "es \<noteq> []" and "entries_sorted es" and "fst (hd es) \<le> key"
  obtains i where "i \<le> length es" and "legacy_seek (enc_all record_bytes es) sparse key = enc_offset record_bytes es i"
    and "\<forall>e \<in> set (take i es). fst e < key"
proof -
  let ?p = "partition_point (\<lambda>s. se_key s \<le> key) sparse"
  have ne: "sparse \<noteq> []" and hd: "se_key (hd sparse) = fst (hd es)"
    using assms(1,2) by (simp_all add: sparse_ok_def)
  have pos: "?p - 1 < length sparse" "0 < ?p"
    using partition_point_le [of "\<lambda>s. se_key s \<le> key" sparse] ne hd assms(4)
    by (cases sparse; simp add: partition_point_def)+
  let ?s = "sparse ! (?p - 1)"
  obtain i where i: "i < length es" "se_offset ?s = enc_offset record_bytes es i" "se_key ?s = fst (es ! i)"
    "\<forall>j < i. fst (es ! j) < fst (es ! i)"
    using assms(1) pos(1) unfolding sparse_ok_def by (meson nth_mem)
  have le: "se_key ?s \<le> key"
    using partition_point_before [of "?p - 1" "\<lambda>s. se_key s \<le> key" sparse] pos by simp
  have "\<forall>e \<in> set (take i es). fst e < key"
    using i le by (fastforce simp: in_set_conv_nth)
  moreover have "legacy_seek (enc_all record_bytes es) sparse key = enc_offset record_bytes es i"
    using pos(1) i(2) enc_offset_le [of record_bytes es i] by (simp add: legacy_seek_def Let_def)
  ultimately show thesis using i(1) by (intro that [of i]) simp_all
qed

lemma seg_get_version_yields:
  assumes rep: "segment_rep c seg es" and know: "knows truth c seg"
  shows "yields (cache_coherent truth) (seg_get_version c seg key r) (\<lambda>v. v = select_entries es key r)"
proof (cases "outside_segment seg key r")
  case True
  then show ?thesis
    using outside_none [OF rep True] by (auto simp: seg_get_version_def)
next
  case inside: False
  have d: "es \<noteq> []" "entries_sorted es" "fst (hd es) \<le> key"
    using rep inside by (auto simp: segment_rep_def descriptor_rep_def outside_segment_def)
  show ?thesis
  proof (cases "seg_storage seg")
    case (Legacy records sparse)
    then have l: "records = enc_all record_bytes es" "length records < 2 ^ 64" "\<forall>e \<in> set es. entry_in 1 u64_max e"
      "sparse_ok sparse es"
      using rep unfolding segment_rep_def storage_rep_def by auto
    obtain i where i: "i \<le> length es" "legacy_seek records sparse key = enc_offset record_bytes es i"
      "\<forall>e \<in> set (take i es). fst e < key"
      using legacy_seek_of [OF l(4) d] l(1) by blast
    have "select_version records (legacy_seek records sparse key) (length records) key r None = Ok (select_entries es key r)"
      using select_version_of [OF l(3) _ i(1), of key r None] l(1,2) i(2)
        select_list_skip [OF i(3), of r "drop i es" None] select_list_sorted [OF entries_sorted_keys [OF d(2)], of key r]
      by simp
    then show ?thesis
      using inside by (simp add: seg_get_version_def Legacy yields_clift)
  next
    case (Blocked src blocks cache_id)
    obtain bss where bss: "es = concat bss" "segment_blocks c seg bss" "table_of bss blocks"
      using segment_blocksE [OF rep Blocked] by blast
    let ?n = "partition_point (\<lambda>b. bd_last_key b < key) blocks"
    have ne: "\<forall>es \<in> set bss. es \<noteq> []"
      using bss(2) Blocked by (auto simp: segment_blocks_def block_holds_def list_all2_conv_all_nth in_set_conv_nth)
    note part = sb.table_partition(1) [OF bss(3) ne d(2) [unfolded bss(1)] refl, of key]
    have "select_entries (concat (take ?n bss)) key r = None"
      by (rule sb.select_from_partition [OF bss(3) ne d(2) [unfolded bss(1)] refl])
    then have "yields (segment_holds (c, seg, truth) bss)
      (get_version_loop (load_block c seg) key r ?n (drop ?n blocks) None) (\<lambda>v. v = select_entries es key r)"
      using sb.get_version_loop_yields [OF bss(3) part, of "(c, seg, truth)" key r]
      by (simp add: segment_load_def bss(1))
    then show ?thesis
      using inside yields_coherent [OF _ bss(2) know] by (simp add: seg_get_version_def Blocked Let_def)
  qed
qed

lemma seg_get_yields:
  assumes "segment_rep c seg es" and "knows truth c seg"
  shows "yields (cache_coherent truth) (seg_get c seg key r)
    (\<lambda>v. v = Option.bind (newest_at r (entry_versions es key)) vv_value)"
  unfolding seg_get_def
  by (rule yields_cbind [OF seg_get_version_yields [OF assms]], rule yields_cok)
    (cases "newest_at r (entry_versions es key)"; simp add: select_entries_def as_version_def)

lemma get_versions_legacy_yields:
  assumes rep: "segment_rep c seg es" and know: "knows truth c seg"
    and "set order \<subseteq> {..<length keys}" and "length out = length keys"
  shows "yields (cache_coherent truth) (get_versions_legacy c seg keys r order out)
    (\<lambda>result. length result = length keys \<and> (\<forall>i < length keys.
       result ! i = (if i \<in> set order then select_entries es (keys ! i) r else out ! i)))"
  using assms(3,4)
proof (induction order arbitrary: out)
  case (Cons index order)
  show ?case
    unfolding get_versions_legacy.simps
  proof (rule yields_cbind [OF seg_get_version_yields [OF rep know]])
    fix v assume v: "v = select_entries es (keys ! index) r"
    show "yields (cache_coherent truth) (get_versions_legacy c seg keys r order (out[index := v]))
      (\<lambda>result. length result = length keys \<and> (\<forall>i < length keys.
         result ! i = (if i \<in> set (index # order) then select_entries es (keys ! i) r else out ! i)))"
      by (rule yields_mono [OF Cons.IH]) (use Cons.prems v in \<open>auto simp: nth_list_update\<close>)
  qed
qed auto

lemma sorted_indices_perm:
  "set (sorted_indices keys) = {..<length keys}" "distinct (sorted_indices keys)"
proof -
  have "mset (sorted_indices keys) = mset (map snd (map (\<lambda>i. (keys ! i, i)) [0..<length keys]))"
    unfolding sorted_indices_def by (simp only: mset_map mset_sort)
  also have "map snd (map (\<lambda>i. (keys ! i, i)) [0..<length keys]) = [0..<length keys]"
    by (simp only: map_map comp_def snd_conv) simp
  finally show "set (sorted_indices keys) = {..<length keys}" "distinct (sorted_indices keys)"
    using mset_eq_setD mset_eq_imp_distinct_iff by fastforce+
qed

lemma seg_get_versions_yields:
  assumes rep: "segment_rep c seg es" and know: "knows truth c seg"
  shows "yields (cache_coherent truth) (seg_get_versions c seg keys r)
    (\<lambda>vs. vs = map (\<lambda>key. select_entries es key r) keys)"
proof -
  let ?out = "replicate (length keys) (None :: segment_version option)"
  let ?Q = "\<lambda>result. length result = length keys \<and> (\<forall>i < length keys. result ! i =
      (if i \<in> set (sorted_indices keys) then select_entries es (keys ! i) r else ?out ! i))"
  have "yields (cache_coherent truth) (seg_get_versions c seg keys r) ?Q"
  proof (cases "seg_storage seg")
    case (Legacy records sparse)
    show ?thesis
      using get_versions_legacy_yields [OF rep know, of "sorted_indices keys" keys ?out r] sorted_indices_perm(1)
      by (simp add: seg_get_versions_def Legacy Let_def)
  next
    case (Blocked src blocks cache_id)
    obtain bss where bss: "es = concat bss" "segment_blocks c seg bss" "table_of bss blocks"
      using segment_blocksE [OF rep Blocked] by blast
    have "yields (segment_holds (c, seg, truth) bss)
      (get_versions_blocked (load_block c seg) seg blocks keys r (sorted_indices keys) None ?out) ?Q"
      using sb.get_versions_blocked_yields [of bss blocks None "sorted_indices keys" keys ?out seg r "(c, seg, truth)"]
        bss outside_none [OF rep] sorted_indices_perm
      by (simp add: loaded_ok_def segment_load_def)
    from yields_coherent [OF this bss(2) know] show ?thesis
      by (simp only: seg_get_versions_def Blocked Let_def segment_storage.case)
  qed
  then show ?thesis
    by (rule yields_mono) (auto simp: sorted_indices_perm intro: nth_equalityI)
qed

text \<open>Every visiting read is the fold of its visitor over the entries.\<close>

lemma visit_storage_yields:
  assumes rep: "segment_rep c seg es" and know: "knows truth c seg" and pure: "pure_visitor visit"
    and ignore: "ignores_outside (pure_visit visit) start end'"
  shows "yields (cache_coherent truth)
    (case seg_storage seg of
       Legacy records _ \<Rightarrow> clift (visit_records records visit s)
     | Blocked _ blocks _ \<Rightarrow>
         (let first = partition_point (\<lambda>b. bd_last_key b < start) blocks in
          visit_blocks (load_block c seg) start end' first visit first (drop first blocks) s))
    (\<lambda>s'. s' = fold (pure_visit visit) es s)"
proof (cases "seg_storage seg")
  case (Legacy records sparse)
  then have l: "records = enc_all record_bytes es" "length records < 2 ^ 64" "\<forall>e \<in> set es. entry_in 1 u64_max e"
    using rep unfolding segment_rep_def storage_rep_def by auto
  have "visit_records records visit s = Ok (fold (pure_visit visit) es s)"
    using visit_records_of [of es visit "\<lambda>e s. Ok (pure_visit visit e s)" s] l pure
    by (simp add: pure_visitor_def try_fold_pure)
  then show ?thesis by (simp add: Legacy yields_clift)
next
  case (Blocked src blocks cache_id)
  obtain bss where bss: "es = concat bss" "segment_blocks c seg bss" "table_of bss blocks"
    using segment_blocksE [OF rep Blocked] by blast
  have visit: "visit rec s = Ok (pure_visit visit (record_entry rec) s)" for rec s
    using pure by (simp add: pure_visitor_def)
  from sb.visit_from_partition [where visit = visit and v = "pure_visit visit", OF bss(3) refl visit ignore,
      of "(c, seg, truth)" s]
  show ?thesis
    using yields_coherent [OF _ bss(2) know] by (simp add: Blocked Let_def segment_load_def bss(1))
qed

lemma visible_from_yields:
  assumes rep: "segment_rep c seg es" and know: "knows truth c seg"
  shows "yields (cache_coherent truth) (visible_from c seg start end' r) (\<lambda>vs. vs = visible_entries es start end' r)"
proof -
  have "entries_sorted es" using rep by (simp add: segment_rep_def descriptor_rep_def)
  then show ?thesis
    unfolding visible_from_def
    by (intro yields_cbind [OF visit_storage_yields [OF rep know visible_collect_pure visitors_ignore_outside(1)]])
      (auto simp: visible_fold_entries)
qed

lemma seg_scan_yields:
  assumes rep: "segment_rep c seg es" and know: "knows truth c seg"
  shows "yields (cache_coherent truth) (seg_scan c seg start end' r) (\<lambda>kvs. kvs = live_pairs (visible_entries es start end' r))"
proof (cases "seg_storage seg")
  case (Legacy records sparse)
  show ?thesis
    unfolding seg_scan_def Legacy segment_storage.case
    by (rule yields_cbind [OF visible_from_yields [OF rep know]]) (auto simp: live_pairs_def)
next
  case (Blocked src blocks cache_id)
  have "entries_sorted es" using rep by (simp add: segment_rep_def descriptor_rep_def)
  note fold = scan_fold_entries [OF this, of start end' r]
  have "yields (cache_coherent truth)
      (visit_blocks (load_block c seg) start end' (partition_point (\<lambda>b. bd_last_key b < start) blocks)
        (scan_collect start end' r) (partition_point (\<lambda>b. bd_last_key b < start) blocks)
        (drop (partition_point (\<lambda>b. bd_last_key b < start) blocks) blocks) s)
      (\<lambda>s'. s' = fold (pure_visit (scan_collect start end' r)) es s)" for s
    using visit_storage_yields [OF rep know scan_collect_pure visitors_ignore_outside(2), where s = s]
    by (simp add: Blocked Let_def)
  then show ?thesis
    unfolding seg_scan_def Blocked segment_storage.case Let_def
    by (rule yields_cbind) (simp add: fold yields_cok)
qed

lemma seg_all_versions_yields:
  assumes rep: "segment_rep c seg es" and know: "knows truth c seg"
  shows "yields (cache_coherent truth) (seg_all_versions c seg) (\<lambda>vs. vs = grouped_entries es)"
proof -
  have sorted: "entries_sorted es" using rep by (simp add: segment_rep_def descriptor_rep_def)
  show ?thesis
  proof (cases "seg_storage seg")
    case (Legacy records sparse)
    show ?thesis
      using visit_storage_yields [OF rep know push_version_pure, of "[]" None "[]"] push_fold_entries [OF sorted]
      by (simp add: seg_all_versions_def for_each_record_def Legacy ignores_outside_def in_bounds_def)
  next
    case (Blocked src blocks cache_id)
    obtain bss where bss: "es = concat bss" "segment_blocks c seg bss" "table_of bss blocks"
      using segment_blocksE [OF rep Blocked] by blast
    have visit: "push_version rec s = Ok (pure_visit push_version (record_entry rec) s)" for rec s
      using push_version_pure by (simp add: pure_visitor_def)
    have "map ((!) bss) [0..<length blocks] = bss"
      using sb.table_length [OF bss(3)] by (simp add: map_nth)
    then have "yields (segment_holds (c, seg, truth) bss) (visit_all_blocks (load_block c seg) push_version [0..<length blocks] [])
      (\<lambda>vs. vs = grouped_entries es)"
      using sb.visit_all_blocks_yields [where visit = push_version and v = "pure_visit push_version", OF _ visit,
          of "[0..<length blocks]" bss "(c, seg, truth)" "[]"] sb.table_length [OF bss(3)] push_fold_entries [OF sorted]
      by (simp add: segment_load_def bss(1) lessThan_atLeast0)
    then show ?thesis
      using yields_coherent [OF _ bss(2) know] by (simp add: seg_all_versions_def for_each_record_def Blocked)
  qed
qed

section \<open>A segment against the memtable it was written from\<close>

lemma entry_versions_group:
  "entry_versions (concat (map (\<lambda>(key, vs). map (Pair key) vs) m)) key = concat (map snd (filter (\<lambda>kv. fst kv = key) m))"
  by (induction m) (auto simp: entry_versions_def filter_map comp_def)

lemma entry_versions_mt:
  assumes "mt_wf t"
  shows "entry_versions (mt_entries t) key = (case bt_get (mt_versions t) key of None \<Rightarrow> [] | Some vs \<Rightarrow> vs)"
proof -
  have "concat (map snd (filter (\<lambda>kv. fst kv = key) m)) = (case bt_get m key of None \<Rightarrow> [] | Some vs \<Rightarrow> vs)"
    if "bt_wf m" for m :: "(bytes, versioned_value list) btree"
    using that
  proof (induction m)
    case (Cons kv m)
    then have "filter (\<lambda>kv. fst kv = fst kv0) m = []" if "kv0 = kv" for kv0
      using that by (auto simp: bt_wf_def filter_empty_conv)
    with Cons show ?case by (auto simp: bt_wf_def bt_get_def)
  qed simp
  then show ?thesis
    using assms by (simp add: mt_entries_def entry_versions_group mt_wf_def)
qed

lemma mt_get_entries:
  "mt_wf t \<Longrightarrow> mt_get_version t key r = newest_at r (entry_versions (mt_entries t) key)"
  by (simp add: mt_get_version_def entry_versions_mt split: option.split)

lemma live_pairs_mem: "(key, val) \<in> set (live_pairs xs) \<longleftrightarrow> (\<exists>v. (key, v) \<in> set xs \<and> vv_value v = Some val)"
  by (force simp: live_pairs_def set_map_filter)

lemma mt_scan_entries:
  assumes "mt_wf t"
  shows "live_pairs (visible_entries (mt_entries t) start end' r) = mt_scan t start end' r"
proof -
  have wf: "bt_wf (mt_versions t)" using assms by (simp add: mt_wf_def)
  let ?l = "live_pairs (visible_entries (mt_entries t) start end' r)"
  have l: "bt_wf ?l"
    unfolding live_pairs_def bt_wf_def
    by (rule map_filter_keys_sorted [OF visible_entries_wf [OF mt_entries_sorted [OF assms]]]) auto
  have s: "bt_wf (mt_scan t start end' r)"
    using mt_scan_sorted [OF wf] by (simp add: bt_wf_def)
  have "(key, val) \<in> set ?l \<longleftrightarrow> (key, val) \<in> set (mt_scan t start end' r)" for key val
    unfolding mt_scan_mem [OF wf] live_pairs_mem mt_get_def mt_get_entries [OF assms]
    by (auto simp: set_visible_entries bind_eq_Some_conv)
  then have "bt_get ?l = bt_get (mt_scan t start end' r)"
    using bt.entries_mem [OF l] bt.entries_mem [OF s] by (intro ext) (metis not_None_eq)
  with bt.entries_unique [OF l s] show ?thesis by simp
qed

lemma remdups_adj_replicate_append:
  "n > 0 \<Longrightarrow> ys \<noteq> [] \<longrightarrow> key \<noteq> hd ys \<Longrightarrow> remdups_adj (replicate n key @ ys) = key # remdups_adj ys"
proof (induction n)
  case (Suc n)
  then show ?case by (cases n; cases ys) simp_all
qed simp

lemma grouped_mt:
  assumes "mt_wf t"
  shows "grouped_entries (mt_entries t) = mt_versions t"
proof -
  have keys: "remdups_adj (map fst (concat (map (\<lambda>(key, vs). map (Pair key) vs) m))) = map fst m"
    if "sorted_wrt (<) (map fst m)" "\<forall>(key, vs) \<in> set m. vs \<noteq> []" for m :: "(bytes, versioned_value list) btree"
    using that
  proof (induction m)
    case (Cons kv m)
    obtain key vs where kv: "kv = (key, vs)" by (cases kv)
    let ?rest = "map fst (concat (map (\<lambda>(key, vs). map (Pair key) vs) m))"
    have IH: "remdups_adj ?rest = map fst m" using Cons by simp
    have "vs \<noteq> []" using Cons.prems(2) by (simp add: kv)
    moreover have "key \<noteq> hd ?rest" if "?rest \<noteq> []"
    proof -
      have "hd ?rest \<in> set (remdups_adj ?rest)" using that unfolding remdups_adj_set by (rule hd_in_set)
      then show ?thesis using Cons.prems(1) unfolding IH by (auto simp: kv)
    qed
    ultimately show ?case
      using IH remdups_adj_replicate_append [of "length vs" ?rest key] by (simp add: kv comp_def map_replicate_const)
  qed simp
  have "\<forall>(key, vs) \<in> set (mt_versions t). vs \<noteq> []"
    using assms by (auto simp: mt_wf_def versions_ok_def)
  then have "remdups_adj (map fst (mt_entries t)) = map fst (mt_versions t)"
    using assms keys unfolding mt_entries_def mt_wf_def bt_wf_def by blast
  moreover have "(key, entry_versions (mt_entries t) key) = (key, vs)" if "(key, vs) \<in> set (mt_versions t)" for key vs
    using bt.entries_mem [of "mt_versions t" key vs] that assms by (simp add: entry_versions_mt [OF assms] mt_wf_def)
  ultimately show ?thesis
    unfolding grouped_entries_def by (auto simp: comp_def intro!: map_idI)
qed

section \<open>Properties\<close>

lemmas segment_read_facts = seg_get_yields [THEN yields_fst] seg_get_versions_yields [THEN yields_fst]
  seg_scan_yields [THEN yields_fst] seg_all_versions_yields [THEN yields_fst] visible_from_yields [THEN yields_fst]

text \<open>C12. Reads of an opened segment. Whatever bytes a file consists of, if it opens as a segment (any
  of the three format versions) then there is one list of entries in strict key and sequence order,
  as many as the descriptor says, of which every read is a view: the full listing groups it by key, a
  point read at a sequence returns the newest version at or below it, and a batched read is the point
  read of each key in the order given, duplicates included. No read fails, whatever the shared block
  cache holds of this and other segments.\<close>

theorem opened_segment_reads:
  assumes "segment_open c cache_id bs = Ok seg" and "knows truth c seg" and "cache_coherent truth cache"
  shows "\<exists>es. entries_sorted es \<and> length es = unat (sd_entries (seg_descriptor seg)) \<and>
    fst (seg_all_versions c seg cache) = Ok (grouped_entries es) \<and>
    (\<forall>key r. fst (seg_get c seg key r cache) = Ok (Option.bind (newest_at r (entry_versions es key)) vv_value)) \<and>
    (\<forall>keys r. fst (seg_get_versions c seg keys r cache) = Ok (map (\<lambda>key. select_entries es key r) keys))"
proof -
  obtain es where rep: "segment_rep c seg es" using segment_open_rep [OF assms(1)] by blast
  then have "entries_sorted es" "length es = unat (sd_entries (seg_descriptor seg))"
    by (simp_all add: segment_rep_def descriptor_rep_def)
  with segment_read_facts [OF rep assms(2,3)] show ?thesis by blast
qed

lemma small_segment:
  obtains bs seg truth where "encode_v3 stored_codec small_table = Ok bs" and "segment_open stored_codec 1 bs = Ok seg"
    and "file_index_bytes bs \<le> MAX_INDEX_BYTES" and "knows truth stored_codec seg"
proof -
  obtain bs where bs: "encode_v3 stored_codec small_table = Ok bs" "file_index_bytes bs \<le> MAX_INDEX_BYTES"
    using small_table_encodes by blast
  have "mt_wf small_table"
    by (simp add: mt_wf_def small_table_def bt_wf_def versions_ok_def)
  then obtain seg where seg: "segment_open stored_codec 1 bs = Ok seg"
    using encoded_opens [OF stored_codec_laws _ bs] by blast
  define truth where "truth = (\<lambda>_ :: u64. \<lambda>i. case seg_storage seg of
    Legacy _ _ \<Rightarrow> Err (InvalidSegment ''legacy'')
  | Blocked src blocks _ \<Rightarrow> rbind (read_and_decode_block stored_codec src (blocks ! i)) decoded_block_parse)"
  have "knows truth stored_codec seg"
    by (simp add: knows_def truth_def split: segment_storage.split)
  with bs seg that show thesis by blast
qed

lemma coherent_new: "cache_coherent truth (new_block_cache 100)"
  using new_block_cache_wf [of 100] by (simp add: cache_coherent_def cache_content_def new_block_cache_def)

theorem opened_segment_reads_witness:
  "\<exists>bs seg es. segment_open stored_codec 1 bs = Ok seg \<and> entries_sorted es \<and>
    fst (seg_get stored_codec seg [1] 3 (new_block_cache 100)) = Ok (Option.bind (newest_at 3 (entry_versions es [1])) vv_value)"
proof -
  obtain bs seg truth where s: "segment_open stored_codec 1 bs = Ok seg" "knows truth stored_codec seg"
    using small_segment by metis
  from opened_segment_reads [OF s coherent_new] s(1) show ?thesis by blast
qed

text \<open>A flush changes no answer. The segment written from a memtable and opened again answers every
  point read, every range scan and the full listing exactly as the memtable does, at every sequence.\<close>

lemma flushed_segment_reads:
  assumes "codec_laws c" and "mt_wf t" and "encode_v3 c t = Ok bs" and "file_index_bytes bs \<le> MAX_INDEX_BYTES"
    and "segment_open c cache_id bs = Ok seg" and "knows truth c seg" and "cache_coherent truth cache"
  shows "fst (seg_get c seg key r cache) = Ok (mt_get t key r) \<and>
    fst (seg_scan c seg start end' r cache) = Ok (mt_scan t start end' r) \<and>
    fst (seg_all_versions c seg cache) = Ok (mt_all_versions t)"
proof -
  have rep: "segment_rep c seg (mt_entries t)"
    using encoded_opens [OF assms(1-4), of cache_id] assms(5) by fastforce
  show ?thesis
    using segment_read_facts [OF rep assms(6,7)] mt_scan_entries [OF assms(2)] grouped_mt [OF assms(2)] mt_get_entries [OF assms(2)]
    by (simp add: mt_get_def mt_all_versions_def)
qed

text \<open>Range reads of an opened segment. A scan lists, in strictly ascending key order, exactly the keys
  in the half-open range whose newest version at or below the read sequence is a value, with that value;
  it is the listing of visible versions less the tombstones.\<close>

lemma opened_segment_scans:
  assumes "segment_open c cache_id bs = Ok seg" and "knows truth c seg" and "cache_coherent truth cache"
  shows "\<exists>out visible. fst (seg_scan c seg start end' r cache) = Ok out \<and> fst (visible_from c seg start end' r cache) = Ok visible \<and>
    sorted_wrt (<) (map fst out) \<and> sorted_wrt (<) (map fst visible) \<and>
    (\<forall>key val. (key, val) \<in> set out \<longleftrightarrow> in_bounds start end' key \<and> fst (seg_get c seg key r cache) = Ok (Some val)) \<and>
    (\<forall>key val. (key, val) \<in> set out \<longleftrightarrow> (\<exists>v. (key, v) \<in> set visible \<and> vv_value v = Some val))"
proof -
  obtain es where rep: "segment_rep c seg es" using segment_open_rep [OF assms(1)] by blast
  then have sorted: "entries_sorted es" by (simp add: segment_rep_def descriptor_rep_def)
  note wf = visible_entries_wf [OF sorted, of start end' r] and reads = segment_read_facts [OF rep assms(2,3)]
  let ?visible = "visible_entries es start end' r"
  have "sorted_wrt (<) (map fst (live_pairs ?visible))"
    unfolding live_pairs_def by (rule map_filter_keys_sorted [OF wf]) auto
  moreover have "(key, val) \<in> set (live_pairs ?visible) \<longleftrightarrow>
      in_bounds start end' key \<and> fst (seg_get c seg key r cache) = Ok (Some val)" for key val
    using reads(1) by (auto simp: live_pairs_mem set_visible_entries bind_eq_Some_conv)
  moreover have "sorted_wrt (<) (map fst ?visible)" using wf by (simp add: bt_wf_def)
  ultimately show ?thesis
    using reads(3,5) live_pairs_mem by (intro exI [of _ "live_pairs ?visible"] exI [of _ ?visible]) blast
qed

end
