(* ===== verification/Versions.thy ===== *)
theory Versions
  imports Segment_Reads
begin

text \<open>
  Versions spread over several sorted sources. A database is a memtable and any number of
  segments, a snapshot bundle is a list of segments, and a read takes the newest version at or below
  the read sequence over all of them. \<open>newest_in\<close> is that choice, first source first on ties;
  the lemmas characterise it independently of the order in which the sources are visited.
\<close>

definition newer :: "versioned_value option \<Rightarrow> versioned_value option \<Rightarrow> versioned_value option" where
  "newer found best = (case found of
     None \<Rightarrow> best
   | Some v \<Rightarrow> (case best of None \<Rightarrow> Some v | Some b \<Rightarrow> if vv_sequence v > vv_sequence b then Some v else Some b))"

definition newest_in :: "entry list list \<Rightarrow> bytes \<Rightarrow> u64 \<Rightarrow> versioned_value option" where
  "newest_in ess key r = fold (\<lambda>es. newer (newest_at r (entry_versions es key))) ess None"

lemma newer_simps [simp]: "newer None best = best" "newer found None = found"
  by (simp_all add: newer_def split: option.split)

lemma newer_cases: "newer a b = a \<or> newer a b = b"
  by (auto simp: newer_def split: option.split)

lemma newest_at_cases:
  assumes "sorted_wrt (<) (map vv_sequence vs)"
  shows "newest_at r vs = Some v \<longleftrightarrow> v \<in> set vs \<and> vv_sequence v \<le> r \<and> (\<forall>w \<in> set vs. vv_sequence w \<le> r \<longrightarrow> vv_sequence w \<le> vv_sequence v)"
    and "newest_at r vs = None \<longleftrightarrow> (\<forall>w \<in> set vs. \<not> vv_sequence w \<le> r)"
proof -
  have "(newest_at r vs = Some v \<longleftrightarrow> v \<in> set vs \<and> vv_sequence v \<le> r \<and> (\<forall>w \<in> set vs. vv_sequence w \<le> r \<longrightarrow> vv_sequence w \<le> vv_sequence v)) \<and>
    (newest_at r vs = None \<longleftrightarrow> (\<forall>w \<in> set vs. \<not> vv_sequence w \<le> r))"
    using assms
  proof (induction vs rule: rev_induct)
    case (snoc x vs)
    have less: "\<forall>w \<in> set vs. vv_sequence w < vv_sequence x" using snoc.prems by (simp add: sorted_wrt_append)
    have "newest_at r (vs @ [x]) = (if vv_sequence x \<le> r then Some x else newest_at r vs)"
      by (simp add: newest_at_def)
    then show ?case
      using snoc.IH snoc.prems less by (auto simp: sorted_wrt_append dest: leD)
  qed (simp add: newest_at_def)
  then show "newest_at r vs = Some v \<longleftrightarrow> v \<in> set vs \<and> vv_sequence v \<le> r \<and> (\<forall>w \<in> set vs. vv_sequence w \<le> r \<longrightarrow> vv_sequence w \<le> vv_sequence v)"
    "newest_at r vs = None \<longleftrightarrow> (\<forall>w \<in> set vs. \<not> vv_sequence w \<le> r)" by blast+
qed

lemma entry_versions_sorted: "entries_sorted es \<Longrightarrow> sorted_wrt (<) (map vv_sequence (entry_versions es key))"
proof (induction es)
  case (Cons e es)
  then have "entries_sorted es" by (simp add: entries_sorted_def)
  moreover have "\<forall>w \<in> set (entry_versions es key). fst e = key \<longrightarrow> vv_sequence (snd e) < vv_sequence w"
    using Cons.prems by (auto simp: entries_sorted_def entry_versions_def)
  ultimately show ?case using Cons.IH by (auto simp: entry_versions_def)
qed (simp add: entry_versions_def)

lemma set_entry_versions: "v \<in> set (entry_versions es key) \<longleftrightarrow> (key, v) \<in> set es"
  by (force simp: entry_versions_def)

text \<open>The entries of all sources together; \<open>newest_in\<close> is a newest one of the key.\<close>

lemma newest_in_None:
  assumes "\<forall>es \<in> set ess. entries_sorted es"
  shows "newest_in ess key r = None \<longleftrightarrow> (\<forall>v. (key, v) \<in> set (concat ess) \<longrightarrow> \<not> vv_sequence v \<le> r)"
  using assms
proof (induction ess rule: rev_induct)
  case (snoc es ess)
  note n = newest_at_cases(2) [OF entry_versions_sorted, of es r key]
  have "newest_in (ess @ [es]) key r = None \<longleftrightarrow> newest_in ess key r = None \<and> newest_at r (entry_versions es key) = None"
    by (auto simp: newest_in_def newer_def split: option.split)
  then show ?case using snoc n by (auto simp: set_entry_versions)
qed (simp add: newest_in_def)

lemma newest_in_Some:
  assumes "\<forall>es \<in> set ess. entries_sorted es" and "newest_in ess key r = Some v"
  shows "(key, v) \<in> set (concat ess)" and "vv_sequence v \<le> r"
    and "\<And>w. (key, w) \<in> set (concat ess) \<Longrightarrow> vv_sequence w \<le> r \<Longrightarrow> vv_sequence w \<le> vv_sequence v"
proof -
  have "(key, v) \<in> set (concat ess) \<and> vv_sequence v \<le> r \<and>
    (\<forall>w. (key, w) \<in> set (concat ess) \<longrightarrow> vv_sequence w \<le> r \<longrightarrow> vv_sequence w \<le> vv_sequence v)"
    using assms
  proof (induction ess arbitrary: v rule: rev_induct)
    case (snoc es ess)
    have es: "entries_sorted es" "\<forall>es \<in> set ess. entries_sorted es" using snoc.prems(1) by auto
    note at = newest_at_cases [OF entry_versions_sorted [OF es(1)], of r key, unfolded set_entry_versions]
    have eq: "newest_in (ess @ [es]) key r = newer (newest_at r (entry_versions es key)) (newest_in ess key r)"
      by (simp add: newest_in_def)
    show ?case
    proof (cases "newest_at r (entry_versions es key)")
      case None
      then show ?thesis using snoc.IH [OF es(2), of v] snoc.prems(2) at(2) eq by (auto simp: Ball_def set_entry_versions)
    next
      case (Some a)
      note a = at(1) [of a, unfolded Some, simplified]
      show ?thesis
      proof (cases "newest_in ess key r")
        case None
        then show ?thesis using a Some snoc.prems(2) eq newest_in_None [OF es(2), of key r] by (auto simp: Ball_def set_entry_versions)
      next
        case b: (Some b)
        note IH = snoc.IH [OF es(2) b]
        show ?thesis
        proof (cases "vv_sequence a > vv_sequence b")
          case True
          then have "v = a" using snoc.prems(2) by (simp add: eq Some b newer_def)
          with a IH True show ?thesis by (auto simp: Ball_def set_entry_versions intro: less_imp_le order_trans)
        next
          case False
          then have "v = b" using snoc.prems(2) by (simp add: eq Some b newer_def)
          with a IH False show ?thesis by (auto simp: Ball_def set_entry_versions not_less intro: order_trans)
        qed
      qed
    qed
  qed (simp add: newest_in_def)
  then show "(key, v) \<in> set (concat ess)" "vv_sequence v \<le> r"
    "\<And>w. (key, w) \<in> set (concat ess) \<Longrightarrow> vv_sequence w \<le> r \<Longrightarrow> vv_sequence w \<le> vv_sequence v" by blast+
qed

text \<open>When no two entries share key and sequence, the newest version is unique.\<close>

definition entries_agree :: "entry set \<Rightarrow> bool" where
  "entries_agree E \<longleftrightarrow> (\<forall>key v w. (key, v) \<in> E \<longrightarrow> (key, w) \<in> E \<longrightarrow> vv_sequence v = vv_sequence w \<longrightarrow> v = w)"

lemma newest_in_eq_Some:
  assumes "\<forall>es \<in> set ess. entries_sorted es" and "entries_agree (set (concat ess))"
  shows "newest_in ess key r = Some v \<longleftrightarrow> (key, v) \<in> set (concat ess) \<and> vv_sequence v \<le> r \<and>
    (\<forall>w. (key, w) \<in> set (concat ess) \<longrightarrow> vv_sequence w \<le> r \<longrightarrow> vv_sequence w \<le> vv_sequence v)" (is "_ \<longleftrightarrow> ?P v")
proof
  assume "?P v"
  then obtain u where u: "newest_in ess key r = Some u"
    using newest_in_None [OF assms(1), of key r] by (cases "newest_in ess key r") auto
  note n = newest_in_Some [OF assms(1) u]
  have "vv_sequence u = vv_sequence v"
    using \<open>?P v\<close> n by (intro antisym) auto
  then show "newest_in ess key r = Some v"
    using u n(1) \<open>?P v\<close> assms(2) unfolding entries_agree_def by blast
qed (use newest_in_Some [OF assms(1)] in blast)

lemma newest_in_cong:
  assumes "\<forall>es \<in> set ess. entries_sorted es" and "\<forall>es \<in> set ess'. entries_sorted es"
    and "entries_agree (set (concat ess))" and "set (concat ess') = set (concat ess)"
  shows "newest_in ess' key r = newest_in ess key r"
proof -
  have "newest_in ess' key r = Some v \<longleftrightarrow> newest_in ess key r = Some v" for v
    using newest_in_eq_Some [OF assms(1,3)] newest_in_eq_Some [OF assms(2), unfolded assms(4), OF assms(3)] by simp
  then show ?thesis by (metis not_Some_eq)
qed

end
