(* ===== verification/Snapshot_Bundle.thy ===== *)
theory Snapshot_Bundle
  imports Manifest Versions
begin

text \<open>
  Snapshot bundles (\<^verbatim>\<open>crates/vyrm-kv/src/snapshot_bundle.rs\<close>): the transport form of a
  flushed database, one manifest and the bytes of its segments under an outer SHA-256. The bundle is
  held in memory (\<open>SnapshotBundle\<close>) or in one file (\<open>SnapshotBundleFile\<close>), which is read
  and written in pieces; a file is its bytes.
\<close>

section \<open>Model\<close>

definition SNAPSHOT_BUNDLE_FORMAT_VERSION :: u16 where
  "SNAPSHOT_BUNDLE_FORMAT_VERSION = 1"

definition SNAPSHOT_MAGIC :: bytes where
  "SNAPSHOT_MAGIC = ascii ''VYRSNP01''"

definition SNAPSHOT_HEADER_BYTES :: nat where
  "SNAPSHOT_HEADER_BYTES = 20"

definition SNAPSHOT_FOOTER_BYTES :: nat where
  "SNAPSHOT_FOOTER_BYTES = 64"

definition SNAPSHOT_BUNDLE_MAX_BYTES :: nat where
  "SNAPSHOT_BUNDLE_MAX_BYTES = 1024 * 1024 * 1024"

definition MAX_SEGMENTS :: nat where
  "MAX_SEGMENTS = 1000000"

definition MAX_MANIFEST_BYTES :: nat where
  "MAX_MANIFEST_BYTES = 16 * 1024 * 1024"

definition MAX_DESCRIPTOR_BYTES :: nat where
  "MAX_DESCRIPTOR_BYTES = 1024 * 1024"

definition STREAM_BUFFER_BYTES :: nat where
  "STREAM_BUFFER_BYTES = 64 * 1024"

datatype snapshot_export_boundary = HeaderWritten | SegmentWritten | FileSynced

record snapshot_segment =
  ss_descriptor :: segment_descriptor
  ss_bytes :: bytes

record snapshot_bundle =
  sb_format_version :: u16
  sb_source_manifest :: manifest
  sb_segments :: "snapshot_segment list"
  sb_digest :: bytes

definition bundle_too_large :: kv_error where
  "bundle_too_large = InvalidManifest ''snapshot bundle exceeds its maximum''"

definition append_segment :: "json \<Rightarrow> snapshot_segment \<Rightarrow> bytes \<Rightarrow> bytes kv_result" where
  "append_segment j segment output =
     (let descriptor = descriptor_json j (ss_descriptor segment) in
      rbind (ok_or (u32_try_from (length descriptor)) (InvalidManifest ''snapshot segment descriptor exceeds u32'')) (\<lambda>descriptor_len.
      rbind (ok_or (u64_try_from (length (ss_bytes segment))) (InvalidManifest ''snapshot segment length exceeds u64'')) (\<lambda>segment_len.
      let output = output @ u32_to_be_bytes descriptor_len @ u64_to_be_bytes segment_len @ descriptor @ ss_bytes segment in
      if usize_saturating_add (length output) SNAPSHOT_FOOTER_BYTES > SNAPSHOT_BUNDLE_MAX_BYTES
      then Err bundle_too_large else Ok output)))"

definition bundle_header :: "u16 \<Rightarrow> u32 \<Rightarrow> u32 \<Rightarrow> bytes" where
  "bundle_header version manifest_len segment_count =
     SNAPSHOT_MAGIC @ u16_to_be_bytes version @ u16_to_be_bytes 0 @ u32_to_be_bytes manifest_len @ u32_to_be_bytes segment_count"

definition content_bytes :: "json \<Rightarrow> snapshot_bundle \<Rightarrow> bytes kv_result" where
  "content_bytes j b =
     (let manifest = manifest_json j (sb_source_manifest b) in
      rbind (ok_or (u32_try_from (length manifest)) (InvalidManifest ''snapshot manifest exceeds u32'')) (\<lambda>manifest_len.
      rbind (ok_or (u32_try_from (length (sb_segments b))) (InvalidManifest ''snapshot segment count exceeds u32'')) (\<lambda>segment_count.
      try_fold (append_segment j) (sb_segments b) (bundle_header (sb_format_version b) manifest_len segment_count @ manifest))))"

definition flush_bounded :: "manifest \<Rightarrow> bool" where
  "flush_bounded m \<longleftrightarrow> mf_wal_start_sequence m = saturating_add (mf_durable_sequence m) 1"

text \<open>The loop of \<open>validated_segments\<close>; \<open>ids\<close> numbers the segments it opens.\<close>

definition validated_segment_of :: "codec \<Rightarrow> u64 \<times> snapshot_segment \<times> segment_descriptor \<Rightarrow> segment kv_result" where
  "validated_segment_of c = (\<lambda>(cache_id, bundled, expected).
     if ss_descriptor bundled \<noteq> expected
     then Err (InvalidManifest ''snapshot segment order or descriptor differs from its manifest'')
     else validate_snapshot_owned c cache_id expected (ss_bytes bundled))"

definition cache_ids :: "u64 \<Rightarrow> nat \<Rightarrow> u64 list" where
  "cache_ids first n = map (\<lambda>i. first + word_of_nat i) [0..<n]"

definition validated_segments :: "codec \<Rightarrow> json \<Rightarrow> u64 \<Rightarrow> snapshot_bundle \<Rightarrow> segment list kv_result" where
  "validated_segments c j first_id b =
     (if sb_format_version b \<noteq> SNAPSHOT_BUNDLE_FORMAT_VERSION
      then Err (UnsupportedVersion ''snapshot bundle'' (sb_format_version b))
      else
      rbind (manifest_validate j (sb_source_manifest b)) (\<lambda>_.
      if \<not> flush_bounded (sb_source_manifest b)
      then Err (InvalidManifest ''snapshot manifest is not flush-bounded to an empty successor WAL'')
      else if length (sb_segments b) > MAX_SEGMENTS \<or> length (sb_segments b) \<noteq> length (mf_segments (sb_source_manifest b))
      then Err (InvalidManifest ''snapshot bundle segment inventory does not match its manifest'')
      else
      rbind (try_map (validated_segment_of c)
               (zip (cache_ids first_id (length (sb_segments b))) (zip (sb_segments b) (mf_segments (sb_source_manifest b))))) (\<lambda>segments.
      rbind (content_bytes j b) (\<lambda>content.
      if usize_saturating_add (length content) SNAPSHOT_FOOTER_BYTES > SNAPSHOT_BUNDLE_MAX_BYTES then Err bundle_too_large
      else if sb_digest b \<noteq> sha256_hex content
      then Err (InvalidManifest ''snapshot bundle digest does not match its content'')
      else Ok segments))))"

definition bundle_validate :: "codec \<Rightarrow> json \<Rightarrow> snapshot_bundle \<Rightarrow> unit kv_result" where
  "bundle_validate c j b = rbind (validated_segments c j 0 b) (\<lambda>_. Ok ())"

definition bundle_new :: "codec \<Rightarrow> json \<Rightarrow> manifest \<Rightarrow> snapshot_segment list \<Rightarrow> snapshot_bundle kv_result" where
  "bundle_new c j m segments =
     (let b = \<lparr>sb_format_version = SNAPSHOT_BUNDLE_FORMAT_VERSION, sb_source_manifest = m, sb_segments = segments, sb_digest = []\<rparr> in
      rbind (content_bytes j b) (\<lambda>content.
      let b = b\<lparr>sb_digest := sha256_hex content\<rparr> in
      rbind (bundle_validate c j b) (\<lambda>_. Ok b)))"

text \<open>\<open>get_many\<close>: every segment is read through a cache of its own.\<close>

definition select_newer :: "segment_version option \<Rightarrow> (u64 \<times> bytes option) option \<Rightarrow> (u64 \<times> bytes option) option" where
  "select_newer version selected =
     (case version of
        None \<Rightarrow> selected
      | Some v \<Rightarrow>
          (if (case selected of None \<Rightarrow> True | Some (sequence, _) \<Rightarrow> sv_sequence v > sequence)
           then Some (sv_sequence v, sv_value v) else selected))"

definition select_in_segment :: "codec \<Rightarrow> bytes list \<Rightarrow> u64 \<Rightarrow> segment \<Rightarrow> (u64 \<times> bytes option) option list
    \<Rightarrow> (u64 \<times> bytes option) option list kv_result" where
  "select_in_segment c keys read_sequence seg selected =
     fst (cfor (zip [0..<length keys] keys) (\<lambda>(index, key) selected.
            cbind (seg_get_version c seg key read_sequence) (\<lambda>version.
            cok (selected[index := select_newer version (selected ! index)]))) selected
          (new_block_cache DEFAULT_BLOCK_CACHE_BYTES))"

definition bundle_get_many :: "codec \<Rightarrow> json \<Rightarrow> snapshot_bundle \<Rightarrow> bytes list \<Rightarrow> bytes option list kv_result" where
  "bundle_get_many c j b keys =
     rbind (validated_segments c j 0 b) (\<lambda>segments.
     rbind (try_fold (select_in_segment c keys (mf_durable_sequence (sb_source_manifest b))) segments
              (replicate (length keys) None)) (\<lambda>selected.
     Ok (map (\<lambda>version. Option.bind version snd) selected)))"

definition bundle_get :: "codec \<Rightarrow> json \<Rightarrow> snapshot_bundle \<Rightarrow> bytes \<Rightarrow> bytes option kv_result" where
  "bundle_get c j b key = rbind (bundle_get_many c j b [key]) (\<lambda>vs. Ok (last vs))"

definition bundle_encode :: "codec \<Rightarrow> json \<Rightarrow> snapshot_bundle \<Rightarrow> bytes kv_result" where
  "bundle_encode c j b =
     rbind (bundle_validate c j b) (\<lambda>_. rbind (content_bytes j b) (\<lambda>output. Ok (output @ sb_digest b)))"

definition checked_end :: "nat \<Rightarrow> nat \<Rightarrow> nat \<Rightarrow> nat kv_result" where
  "checked_end cursor len bound =
     rbind (ok_or (usize_checked_add cursor len) (InvalidManifest ''snapshot field length overflowed'')) (\<lambda>end'.
     if end' > bound then Err (InvalidManifest ''snapshot field exceeds the declared bundle'') else Ok end')"

definition snap_read_u32 :: "bytes \<Rightarrow> nat \<Rightarrow> nat \<Rightarrow> (u32 \<times> nat) kv_result" where
  "snap_read_u32 bs cursor end' =
     rbind (checked_end cursor 4 end') (\<lambda>next. Ok (u32_from_be_bytes (subslice cursor next bs), next))"

definition snap_read_u64 :: "bytes \<Rightarrow> nat \<Rightarrow> nat \<Rightarrow> (u64 \<times> nat) kv_result" where
  "snap_read_u64 bs cursor end' =
     rbind (checked_end cursor 8 end') (\<lambda>next. Ok (u64_from_be_bytes (subslice cursor next bs), next))"

definition decode_segment :: "json \<Rightarrow> bytes \<Rightarrow> nat \<Rightarrow> nat \<times> snapshot_segment list \<Rightarrow> (nat \<times> snapshot_segment list) kv_result" where
  "decode_segment j bs content_end = (\<lambda>(cursor, segments).
     rbind (snap_read_u32 bs cursor content_end) (\<lambda>(descriptor_len, cursor).
     rbind (snap_read_u64 bs cursor content_end) (\<lambda>(segment_len, cursor).
     rbind (checked_end cursor (unat descriptor_len) content_end) (\<lambda>descriptor_end.
     rbind (ok_or (descriptor_parse j (subslice cursor descriptor_end bs)) json_error) (\<lambda>descriptor.
     rbind (checked_end descriptor_end (unat segment_len) content_end) (\<lambda>segment_end.
     Ok (segment_end, segments @ [\<lparr>ss_descriptor = descriptor, ss_bytes = subslice descriptor_end segment_end bs\<rparr>])))))))"

definition bundle_decode :: "codec \<Rightarrow> json \<Rightarrow> bytes \<Rightarrow> snapshot_bundle kv_result" where
  "bundle_decode c j bs =
     (if length bs < SNAPSHOT_HEADER_BYTES + SNAPSHOT_FOOTER_BYTES \<or> length bs > SNAPSHOT_BUNDLE_MAX_BYTES
      then Err (InvalidManifest ''snapshot bundle length is outside its physical contract'')
      else if subslice 0 8 bs \<noteq> SNAPSHOT_MAGIC then Err (InvalidManifest ''snapshot bundle magic does not match'')
      else
      let version = u16_from_be_bytes (subslice 8 10 bs) in
      if version \<noteq> SNAPSHOT_BUNDLE_FORMAT_VERSION then Err (UnsupportedVersion ''snapshot bundle'' version)
      else if subslice 10 12 bs \<noteq> [0, 0] then Err (InvalidManifest ''snapshot bundle has unknown flags'')
      else
      let content_end = length bs - SNAPSHOT_FOOTER_BYTES;
          encoded_digest = drop content_end bs in
      if \<not> utf8_valid encoded_digest then Err (InvalidManifest ''snapshot digest is not ASCII'')
      else if encoded_digest \<noteq> sha256_hex (take content_end bs)
      then Err (InvalidManifest ''snapshot bundle digest does not authenticate its encoded bytes'')
      else
      let manifest_len = unat (u32_from_be_bytes (subslice 12 16 bs));
          segment_count = unat (u32_from_be_bytes (subslice 16 20 bs)) in
      if manifest_len = 0 \<or> segment_count > MAX_SEGMENTS
      then Err (InvalidManifest ''snapshot bundle manifest length or segment count is invalid'')
      else
      rbind (checked_end SNAPSHOT_HEADER_BYTES manifest_len content_end) (\<lambda>manifest_end.
      rbind (ok_or (manifest_parse j (subslice SNAPSHOT_HEADER_BYTES manifest_end bs)) json_error) (\<lambda>source_manifest.
      rbind (try_repeat (decode_segment j bs content_end) segment_count (manifest_end, [])) (\<lambda>(cursor, segments).
      if cursor \<noteq> content_end then Err (InvalidManifest ''snapshot bundle has undeclared content bytes'')
      else
      let b = \<lparr>sb_format_version = version, sb_source_manifest = source_manifest, sb_segments = segments,
                sb_digest = encoded_digest\<rparr> in
      rbind (bundle_validate c j b) (\<lambda>_. Ok b)))))"

text \<open>The file-backed bundle. \<open>contents\<close> is what the file at the bundle's path holds; reads of the
  bundle open that file again, so they take it as an argument.\<close>

record file_segment =
  fs_descriptor :: segment_descriptor
  fs_offset :: nat
  fs_length :: u64

record snapshot_bundle_file =
  bf_source_manifest :: manifest
  bf_segments :: "file_segment list"
  bf_digest :: bytes
  bf_length :: nat

definition validate_manifest_contract :: "json \<Rightarrow> manifest \<Rightarrow> unit kv_result" where
  "validate_manifest_contract j m =
     rbind (manifest_validate j m) (\<lambda>_.
     if mf_wal_start_sequence m \<noteq> saturating_add (mf_durable_sequence m) 1
     then Err (InvalidManifest ''snapshot manifest is not flush-bounded to an empty successor WAL'')
     else if length (mf_segments m) > MAX_SEGMENTS
     then Err (InvalidManifest ''snapshot bundle has too many segments'')
     else Ok ())"

definition ensure_file_range :: "nat \<Rightarrow> nat \<Rightarrow> nat \<Rightarrow> unit kv_result" where
  "ensure_file_range offset len bound =
     rbind (ok_or (usize_checked_add offset len) (InvalidManifest ''snapshot field length overflowed'')) (\<lambda>end'.
     if end' > bound then Err (InvalidManifest ''snapshot field exceeds the declared bundle'') else Ok ())"

text \<open>\<open>write_hashed\<close> on the bytes written so far, the running hash and the count. The device takes
  \<open>room\<close> bytes; a write beyond that fails.\<close>

type_synonym bundle_output = "bytes \<times> sha256_state \<times> u64"

definition write_hashed :: "nat \<Rightarrow> bytes \<Rightarrow> bundle_output \<Rightarrow> bundle_output kv_result" where
  "write_hashed room bs = (\<lambda>(output, digest, written).
     rbind (ok_or (if unat written + length bs < 2 ^ 64 then Some (written + word_of_nat (length bs)) else None)
              (InvalidManifest ''snapshot length overflowed u64'')) (\<lambda>written.
     if unat (saturating_add written (word_of_nat SNAPSHOT_FOOTER_BYTES)) > SNAPSHOT_BUNDLE_MAX_BYTES then Err bundle_too_large
     else if length output + length bs > room then Err (Io StorageFault)
     else rbind (ok_or (sha256_update digest bs) (Io StorageFault)) (\<lambda>digest. Ok (output @ bs, digest, written))))"

definition export_segment :: "json \<Rightarrow> nat \<Rightarrow> (snapshot_export_boundary \<Rightarrow> unit kv_result) \<Rightarrow> seg_files \<Rightarrow> segment_descriptor
    \<Rightarrow> bundle_output \<Rightarrow> bundle_output kv_result" where
  "export_segment j room hook files descriptor out =
     (let encoded = descriptor_json j descriptor in
      if encoded = [] \<or> length encoded > MAX_DESCRIPTOR_BYTES
      then Err (InvalidManifest ''snapshot segment descriptor length is outside its physical contract'')
      else
      rbind (ok_or (u32_try_from (length encoded)) (InvalidManifest ''snapshot segment descriptor exceeds u32'')) (\<lambda>descriptor_len.
      rbind (ok_or (bt_get files (sd_id descriptor)) (Io NotFound)) (\<lambda>source.
      let segment_len = word_of_nat (length source) in
      if segment_len \<noteq> sd_bytes descriptor
      then Err (InvalidManifest ''snapshot segment length differs from its manifest'')
      else
      rbind (try_fold (write_hashed room)
               ([u32_to_be_bytes descriptor_len, u64_to_be_bytes segment_len, encoded] @ read_pieces STREAM_BUFFER_BYTES source) out) (\<lambda>out.
      rbind (hook SegmentWritten) (\<lambda>_. Ok out)))))"

text \<open>The closure of \<open>create_with_hook\<close>: the bytes of the finished file.\<close>

definition export_contents :: "json \<Rightarrow> nat \<Rightarrow> (snapshot_export_boundary \<Rightarrow> unit kv_result) \<Rightarrow> seg_files \<Rightarrow> manifest
    \<Rightarrow> bytes \<Rightarrow> u32 \<Rightarrow> u32 \<Rightarrow> bytes kv_result" where
  "export_contents j room hook files m manifest manifest_len segment_count =
     rbind (try_fold (write_hashed room)
              [SNAPSHOT_MAGIC, u16_to_be_bytes SNAPSHOT_BUNDLE_FORMAT_VERSION, u16_to_be_bytes 0, u32_to_be_bytes manifest_len,
               u32_to_be_bytes segment_count, manifest] ([], sha256_new, 0)) (\<lambda>out.
     rbind (hook HeaderWritten) (\<lambda>_.
     rbind (try_fold (export_segment j room hook files) (mf_segments m) out) (\<lambda>(output, digest, written).
     let encoded_digest = sha256_finalize_hex digest in
     if length output + length encoded_digest > room then Err (Io StorageFault)
     else
     rbind (ok_or (checked_add written (word_of_nat SNAPSHOT_FOOTER_BYTES)) (InvalidManifest ''snapshot length overflowed u64'')) (\<lambda>written.
     if unat written > SNAPSHOT_BUNDLE_MAX_BYTES then Err bundle_too_large
     else rbind (hook FileSynced) (\<lambda>_. Ok (output @ encoded_digest))))))"

definition bundle_segment_bytes :: "bytes \<Rightarrow> snapshot_bundle_file \<Rightarrow> nat \<Rightarrow> bytes kv_result" where
  "bundle_segment_bytes contents f index =
     (if index < length (bf_segments f)
      then read_exact_at contents (fs_offset (bf_segments f ! index)) (unat (fs_length (bf_segments f ! index)))
      else Err (InvalidManifest ''snapshot segment index is invalid''))"

definition validated_segment :: "codec \<Rightarrow> u64 \<Rightarrow> bytes \<Rightarrow> snapshot_bundle_file \<Rightarrow> nat \<Rightarrow> segment kv_result" where
  "validated_segment c cache_id contents f index =
     (if index < length (bf_segments f)
      then rbind (bundle_segment_bytes contents f index) (\<lambda>bs.
           validate_snapshot_owned c cache_id (fs_descriptor (bf_segments f ! index)) bs)
      else Err (InvalidManifest ''snapshot segment index is invalid''))"

text \<open>The segment loop of \<open>open\<close>; the file position is the first component of its state.\<close>

definition open_segment_entry :: "json \<Rightarrow> bytes \<Rightarrow> nat \<Rightarrow> segment_descriptor \<Rightarrow> nat \<times> file_segment list
    \<Rightarrow> (nat \<times> file_segment list) kv_result" where
  "open_segment_entry j contents content_end expected = (\<lambda>(position, segments).
     rbind (read_exact_at contents position 12) (\<lambda>lengths.
     let descriptor_len = unat (u32_from_be_bytes (subslice 0 4 lengths));
         segment_len = u64_from_be_bytes (subslice 4 12 lengths);
         descriptor_at = position + 12 in
     if descriptor_len = 0 \<or> descriptor_len > MAX_DESCRIPTOR_BYTES
     then Err (InvalidManifest ''snapshot segment descriptor length is outside its physical contract'')
     else
     rbind (ensure_file_range descriptor_at descriptor_len content_end) (\<lambda>_.
     rbind (read_exact_at contents descriptor_at descriptor_len) (\<lambda>encoded.
     rbind (ok_or (descriptor_parse j encoded) json_error) (\<lambda>descriptor.
     if descriptor \<noteq> expected \<or> segment_len \<noteq> sd_bytes descriptor
     then Err (InvalidManifest ''snapshot segment order, descriptor, or length differs from its manifest'')
     else
     let offset = descriptor_at + descriptor_len in
     rbind (ensure_file_range offset (unat segment_len) content_end) (\<lambda>_.
     Ok (offset + unat segment_len,
         segments @ [\<lparr>fs_descriptor = descriptor, fs_offset = offset, fs_length = segment_len\<rparr>])))))))"

definition bundle_file_open :: "codec \<Rightarrow> json \<Rightarrow> bytes \<Rightarrow> snapshot_bundle_file kv_result" where
  "bundle_file_open c j contents =
     (if length contents < SNAPSHOT_HEADER_BYTES + SNAPSHOT_FOOTER_BYTES \<or> length contents > SNAPSHOT_BUNDLE_MAX_BYTES
      then Err (InvalidManifest ''snapshot bundle length is outside its physical contract'')
      else
      let content_end = length contents - SNAPSHOT_FOOTER_BYTES in
      rbind (ok_or (sha256_updates sha256_new (read_pieces STREAM_BUFFER_BYTES (take content_end contents))) (Io StorageFault)) (\<lambda>hash.
      let encoded_digest = drop content_end contents in
      if \<not> utf8_valid encoded_digest then Err (InvalidManifest ''snapshot digest is not ASCII'')
      else if encoded_digest \<noteq> sha256_finalize_hex hash
      then Err (InvalidManifest ''snapshot bundle digest does not authenticate its encoded bytes'')
      else
      rbind (read_exact_at contents 0 SNAPSHOT_HEADER_BYTES) (\<lambda>header.
      if subslice 0 8 header \<noteq> SNAPSHOT_MAGIC then Err (InvalidManifest ''snapshot bundle magic does not match'')
      else
      let version = u16_from_be_bytes (subslice 8 10 header) in
      if version \<noteq> SNAPSHOT_BUNDLE_FORMAT_VERSION then Err (UnsupportedVersion ''snapshot bundle'' version)
      else if subslice 10 12 header \<noteq> [0, 0] then Err (InvalidManifest ''snapshot bundle has unknown flags'')
      else
      let manifest_len = unat (u32_from_be_bytes (subslice 12 16 header));
          segment_count = unat (u32_from_be_bytes (subslice 16 20 header)) in
      if manifest_len = 0 \<or> manifest_len > MAX_MANIFEST_BYTES \<or> segment_count > MAX_SEGMENTS
      then Err (InvalidManifest ''snapshot bundle manifest length or segment count is invalid'')
      else
      rbind (ensure_file_range SNAPSHOT_HEADER_BYTES manifest_len content_end) (\<lambda>_.
      rbind (read_exact_at contents SNAPSHOT_HEADER_BYTES manifest_len) (\<lambda>manifest.
      rbind (ok_or (manifest_parse j manifest) json_error) (\<lambda>source_manifest.
      rbind (validate_manifest_contract j source_manifest) (\<lambda>_.
      if length (mf_segments source_manifest) \<noteq> segment_count
      then Err (InvalidManifest ''snapshot bundle segment inventory does not match its manifest'')
      else
      rbind (try_fold (open_segment_entry j contents content_end) (mf_segments source_manifest)
               (SNAPSHOT_HEADER_BYTES + manifest_len, [])) (\<lambda>(position, segments).
      if position \<noteq> content_end then Err (InvalidManifest ''snapshot bundle has undeclared content bytes'')
      else
      let f = \<lparr>bf_source_manifest = source_manifest, bf_segments = segments, bf_digest = encoded_digest,
                bf_length = length contents\<rparr> in
      rbind (try_map (validated_segment c 0 contents f) [0..<length segments]) (\<lambda>_. Ok f)))))))))"

definition file_get_many :: "codec \<Rightarrow> bytes \<Rightarrow> snapshot_bundle_file \<Rightarrow> bytes list \<Rightarrow> bytes option list kv_result" where
  "file_get_many c contents f keys =
     rbind (try_fold (\<lambda>index selected.
              rbind (validated_segment c 0 contents f index) (\<lambda>seg.
              select_in_segment c keys (mf_durable_sequence (bf_source_manifest f)) seg selected))
              [0..<length (bf_segments f)] (replicate (length keys) None)) (\<lambda>selected.
     Ok (map (\<lambda>version. Option.bind version snd) selected))"

text \<open>\<open>create_with_hook\<close>: \<open>destination\<close> is what the path holds before and after. A failure
  while writing removes the file again; one while opening the finished file leaves it.\<close>

definition bundle_file_create :: "codec \<Rightarrow> json \<Rightarrow> nat \<Rightarrow> (snapshot_export_boundary \<Rightarrow> unit kv_result) \<Rightarrow> seg_files \<Rightarrow> manifest
    \<Rightarrow> bytes option \<Rightarrow> snapshot_bundle_file kv_result \<times> bytes option" where
  "bundle_file_create c j room hook files m destination =
     (case validate_manifest_contract j m of
        Inl e \<Rightarrow> (Err e, destination)
      | Inr _ \<Rightarrow>
          (let manifest = manifest_json j m in
           if manifest = [] \<or> length manifest > MAX_MANIFEST_BYTES
           then (Err (InvalidManifest ''snapshot manifest length is outside its physical contract''), destination)
           else case u32_try_from (length manifest) of
             None \<Rightarrow> (Err (InvalidManifest ''snapshot manifest exceeds u32''), destination)
           | Some manifest_len \<Rightarrow>
               (case u32_try_from (length (mf_segments m)) of
                  None \<Rightarrow> (Err (InvalidManifest ''snapshot segment count exceeds u32''), destination)
                | Some segment_count \<Rightarrow>
                    (if destination \<noteq> None then (Err (Io AlreadyExists), destination)
                     else case export_contents j room hook files m manifest manifest_len segment_count of
                       Inl e \<Rightarrow> (Err e, None)
                     | Inr contents \<Rightarrow> (bundle_file_open c j contents, Some contents)))))"

section \<open>Encoding and decoding\<close>

definition segment_bytes :: "json \<Rightarrow> snapshot_segment \<Rightarrow> bytes" where
  "segment_bytes j s = u32_to_be_bytes (word_of_nat (length (descriptor_json j (ss_descriptor s))))
     @ u64_to_be_bytes (word_of_nat (length (ss_bytes s))) @ descriptor_json j (ss_descriptor s) @ ss_bytes s"

definition segment_fits :: "json \<Rightarrow> snapshot_segment \<Rightarrow> bool" where
  "segment_fits j s \<longleftrightarrow> length (descriptor_json j (ss_descriptor s)) < 2 ^ 32 \<and> length (ss_bytes s) < 2 ^ 64"

definition bundle_content :: "json \<Rightarrow> manifest \<Rightarrow> snapshot_segment list \<Rightarrow> bytes" where
  "bundle_content j m ss = bundle_header SNAPSHOT_BUNDLE_FORMAT_VERSION (word_of_nat (length (manifest_json j m)))
     (word_of_nat (length ss)) @ manifest_json j m @ enc_all (segment_bytes j) ss"

lemmas snapshot_constants = SNAPSHOT_BUNDLE_FORMAT_VERSION_def SNAPSHOT_HEADER_BYTES_def SNAPSHOT_FOOTER_BYTES_def
  SNAPSHOT_BUNDLE_MAX_BYTES_def MAX_SEGMENTS_def MAX_MANIFEST_BYTES_def MAX_DESCRIPTOR_BYTES_def STREAM_BUFFER_BYTES_def

lemma length_segment_bytes [simp]:
  "length (segment_bytes j s) = 12 + length (descriptor_json j (ss_descriptor s)) + length (ss_bytes s)"
  by (simp add: segment_bytes_def)

lemma length_bundle_header [simp]: "length (bundle_header v n k) = 20"
  by (simp add: bundle_header_def SNAPSHOT_MAGIC_def)

lemma append_segment_ok:
  "append_segment j s out = Ok out' \<longleftrightarrow> segment_fits j s \<and> out' = out @ segment_bytes j s \<and>
     length out' + SNAPSHOT_FOOTER_BYTES \<le> SNAPSHOT_BUNDLE_MAX_BYTES"
  by (auto simp: append_segment_def segment_fits_def segment_bytes_def res_simps u32_try_from_eq_Some u64_try_from_eq_Some
      usize_saturating_add_def snapshot_constants Let_def split: if_splits)

lemma append_segments_ok:
  "try_fold (append_segment j) ss out = Ok out' \<longleftrightarrow> (\<forall>s \<in> set ss. segment_fits j s) \<and> out' = out @ enc_all (segment_bytes j) ss \<and>
     (ss \<noteq> [] \<longrightarrow> length out' + SNAPSHOT_FOOTER_BYTES \<le> SNAPSHOT_BUNDLE_MAX_BYTES)"
proof (induction ss arbitrary: out)
  case (Cons s ss)
  show ?case
    unfolding try_fold.simps rbind_eq_Inr append_segment_ok Cons.IH by auto
qed auto

lemma content_bytes_ok:
  assumes "sb_format_version b = SNAPSHOT_BUNDLE_FORMAT_VERSION"
  shows "content_bytes j b = Ok content \<longleftrightarrow> length (manifest_json j (sb_source_manifest b)) < 2 ^ 32 \<and> length (sb_segments b) < 2 ^ 32 \<and>
    (\<forall>s \<in> set (sb_segments b). segment_fits j s) \<and> content = bundle_content j (sb_source_manifest b) (sb_segments b) \<and>
    (sb_segments b \<noteq> [] \<longrightarrow> length content + SNAPSHOT_FOOTER_BYTES \<le> SNAPSHOT_BUNDLE_MAX_BYTES)"
  using assms
  by (auto simp: content_bytes_def res_simps u32_try_from_eq_Some append_segments_ok bundle_content_def Let_def)

text \<open>A validated bundle: what \<open>validate\<close> checks.\<close>

lemma bundle_validate_ok:
  "bundle_validate c j b = Ok () \<longleftrightarrow> (\<exists>segments. validated_segments c j 0 b = Ok segments)"
  by (auto simp: bundle_validate_def res_simps)

lemma validated_segments_ok:
  assumes "validated_segments c j n b = Ok segments"
  shows "sb_format_version b = SNAPSHOT_BUNDLE_FORMAT_VERSION" and "manifest_validate j (sb_source_manifest b) = Ok ()"
    and "flush_bounded (sb_source_manifest b)" and "length (sb_segments b) \<le> MAX_SEGMENTS"
    and "length (sb_segments b) = length (mf_segments (sb_source_manifest b))"
    and "list_all2 (\<lambda>x seg. validated_segment_of c x = Ok seg)
      (zip (cache_ids n (length (sb_segments b))) (zip (sb_segments b) (mf_segments (sb_source_manifest b)))) segments"
    and "content_bytes j b = Ok (bundle_content j (sb_source_manifest b) (sb_segments b))"
    and "length (bundle_content j (sb_source_manifest b) (sb_segments b)) + SNAPSHOT_FOOTER_BYTES \<le> SNAPSHOT_BUNDLE_MAX_BYTES"
    and "sb_digest b = sha256_hex (bundle_content j (sb_source_manifest b) (sb_segments b))"
proof -
  show v: "sb_format_version b = SNAPSHOT_BUNDLE_FORMAT_VERSION" "manifest_validate j (sb_source_manifest b) = Ok ()"
    "flush_bounded (sb_source_manifest b)" "length (sb_segments b) \<le> MAX_SEGMENTS"
    "length (sb_segments b) = length (mf_segments (sb_source_manifest b))"
    "list_all2 (\<lambda>x seg. validated_segment_of c x = Ok seg)
      (zip (cache_ids n (length (sb_segments b))) (zip (sb_segments b) (mf_segments (sb_source_manifest b)))) segments"
    using assms by (auto simp: validated_segments_def res_simps try_map_eq_Inr split: if_splits)
  obtain content where "content_bytes j b = Ok content" "usize_saturating_add (length content) SNAPSHOT_FOOTER_BYTES \<le> SNAPSHOT_BUNDLE_MAX_BYTES"
    "sb_digest b = sha256_hex content"
    using assms by (auto simp: validated_segments_def res_simps split: if_splits)
  then show "content_bytes j b = Ok (bundle_content j (sb_source_manifest b) (sb_segments b))"
    "length (bundle_content j (sb_source_manifest b) (sb_segments b)) + SNAPSHOT_FOOTER_BYTES \<le> SNAPSHOT_BUNDLE_MAX_BYTES"
    "sb_digest b = sha256_hex (bundle_content j (sb_source_manifest b) (sb_segments b))"
    using content_bytes_ok [OF v(1)] by (auto simp: usize_saturating_add_def snapshot_constants)
qed

text \<open>One segment of the encoding, read back at its position.\<close>

lemma checked_end_ok: "a + n \<le> bound \<Longrightarrow> bound < 2 ^ 64 \<Longrightarrow> checked_end a n bound = Ok (a + n)"
  by (simp add: checked_end_def usize_checked_add_def)

lemma decode_segment_at:
  assumes "segment_fits j s" and "descriptor_parse j (descriptor_json j (ss_descriptor s)) = Some (ss_descriptor s)"
    and "length pre + length (segment_bytes j s) \<le> content_end" and "content_end < 2 ^ 64"
  shows "decode_segment j (pre @ segment_bytes j s @ post) content_end (length pre, acc)
    = Ok (length pre + length (segment_bytes j s), acc @ [s])"
proof -
  let ?d = "descriptor_json j (ss_descriptor s)" and ?bs = "pre @ segment_bytes j s @ post" and ?n = "length pre"
  have slices: "subslice ?n (?n + 4) ?bs = u32_to_be_bytes (word_of_nat (length ?d))"
    "subslice (?n + 4) (?n + 12) ?bs = u64_to_be_bytes (word_of_nat (length (ss_bytes s)))"
    "subslice (?n + 12) (?n + 12 + length ?d) ?bs = ?d"
    "subslice (?n + 12 + length ?d) (?n + 12 + length ?d + length (ss_bytes s)) ?bs = ss_bytes s"
    by (simp_all add: segment_bytes_def subslice_def)
  have ends: "checked_end ?n 4 content_end = Ok (?n + 4)" "checked_end (?n + 4) 8 content_end = Ok (?n + 12)"
    "checked_end (?n + 12) (length ?d) content_end = Ok (?n + 12 + length ?d)"
    "checked_end (?n + 12 + length ?d) (length (ss_bytes s)) content_end = Ok (?n + 12 + length ?d + length (ss_bytes s))"
    using assms(3,4) checked_end_ok [of "?n + 4" 8 content_end] by (simp_all add: checked_end_ok)
  show ?thesis
    using assms(1,2) by (simp add: decode_segment_def snap_read_u32_def snap_read_u64_def ends slices segment_fits_def)
qed

lemma decode_segments_at:
  assumes "\<forall>s \<in> set ss. segment_fits j s" and "json_laws j"
    and "length pre + length (enc_all (segment_bytes j) ss) \<le> content_end" and "content_end < 2 ^ 64"
  shows "try_repeat (decode_segment j (pre @ enc_all (segment_bytes j) ss @ post) content_end) (length ss) (length pre, acc)
    = Ok (length pre + length (enc_all (segment_bytes j) ss), acc @ ss)"
  using assms
proof (induction ss arbitrary: pre acc)
  case (Cons s ss)
  have "decode_segment j (pre @ segment_bytes j s @ (enc_all (segment_bytes j) ss @ post)) content_end (length pre, acc)
      = Ok (length pre + length (segment_bytes j s), acc @ [s])"
    using Cons.prems by (intro decode_segment_at) (auto simp: json_laws_def)
  moreover have "try_repeat (decode_segment j ((pre @ segment_bytes j s) @ enc_all (segment_bytes j) ss @ post) content_end) (length ss)
      (length (pre @ segment_bytes j s), acc @ [s])
    = Ok (length (pre @ segment_bytes j s) + length (enc_all (segment_bytes j) ss), (acc @ [s]) @ ss)"
    using Cons.prems by (intro Cons.IH) auto
  ultimately show ?case by simp
qed simp

lemma bundle_header_fields:
  "subslice 0 8 (bundle_header v n k @ rest) = SNAPSHOT_MAGIC"
  "subslice 8 10 (bundle_header v n k @ rest) = u16_to_be_bytes v"
  "subslice 10 12 (bundle_header v n k @ rest) = [0, 0]"
  "subslice 12 16 (bundle_header v n k @ rest) = u32_to_be_bytes n"
  "subslice 16 20 (bundle_header v n k @ rest) = u32_to_be_bytes k"
proof -
  have [simp]: "u16_to_be_bytes 0 = [0, 0]" by (simp add: eval_bytes)
  show "subslice 0 8 (bundle_header v n k @ rest) = SNAPSHOT_MAGIC"
    "subslice 8 10 (bundle_header v n k @ rest) = u16_to_be_bytes v"
    "subslice 10 12 (bundle_header v n k @ rest) = [0, 0]"
    "subslice 12 16 (bundle_header v n k @ rest) = u32_to_be_bytes n"
    "subslice 16 20 (bundle_header v n k @ rest) = u32_to_be_bytes k"
    by (simp_all add: bundle_header_def SNAPSHOT_MAGIC_def subslice_def)
qed

lemma bundle_decode_encode:
  assumes laws: "json_laws j" and ok: "validated_segments c j 0 b = Ok segments"
  defines "content \<equiv> bundle_content j (sb_source_manifest b) (sb_segments b)"
  shows "bundle_encode c j b = Ok (content @ sb_digest b)" and "bundle_decode c j (content @ sb_digest b) = Ok b"
proof -
  note v = validated_segments_ok [OF ok, folded content_def]
  have fits: "length (manifest_json j (sb_source_manifest b)) < 2 ^ 32" "length (sb_segments b) < 2 ^ 32"
    "\<forall>s \<in> set (sb_segments b). segment_fits j s"
    using v(7) unfolding content_bytes_ok [OF v(1)] by blast+
  show "bundle_encode c j b = Ok (content @ sb_digest b)"
    using ok v(7) by (simp add: bundle_encode_def bundle_validate_def)
  let ?m = "manifest_json j (sb_source_manifest b)" and ?ss = "enc_all (segment_bytes j) (sb_segments b)"
  let ?h = "bundle_header SNAPSHOT_BUNDLE_FORMAT_VERSION (word_of_nat (length ?m)) (word_of_nat (length (sb_segments b)))"
  have content: "content = ?h @ ?m @ ?ss" by (simp add: content_def bundle_content_def)
  have digest: "length (sb_digest b) = SNAPSHOT_FOOTER_BYTES" by (simp add: v(9) SNAPSHOT_FOOTER_BYTES_def)
  have len: "length (content @ sb_digest b) = length content + 64" "length (content @ sb_digest b) - SNAPSHOT_FOOTER_BYTES = length content"
    using digest by (simp_all add: SNAPSHOT_FOOTER_BYTES_def)
  have big: "20 \<le> length content" "length content < 2 ^ 64"
    using v(8) by (simp_all add: content snapshot_constants)
  have manifest: "?m \<noteq> []" "manifest_parse j ?m = Some (sb_source_manifest b)" using laws by (simp_all add: json_laws_def)
  have fields: "subslice 0 8 (content @ sb_digest b) = SNAPSHOT_MAGIC"
    "u16_from_be_bytes (subslice 8 10 (content @ sb_digest b)) = SNAPSHOT_BUNDLE_FORMAT_VERSION"
    "subslice 10 12 (content @ sb_digest b) = [0, 0]"
    "unat (u32_from_be_bytes (subslice 12 16 (content @ sb_digest b))) = length ?m"
    "unat (u32_from_be_bytes (subslice 16 20 (content @ sb_digest b))) = length (sb_segments b)"
    using fits by (simp_all add: content bundle_header_fields)
  have m: "checked_end 20 (length ?m) (length content) = Ok (20 + length ?m)"
    "subslice 20 (20 + length ?m) (content @ sb_digest b) = ?m"
    using big by (simp_all add: checked_end_ok content subslice_def)
  have "try_repeat (decode_segment j ((?h @ ?m) @ ?ss @ sb_digest b) (length content)) (length (sb_segments b)) (length (?h @ ?m), [])
      = Ok (length (?h @ ?m) + length ?ss, [] @ sb_segments b)"
    using fits big laws by (intro decode_segments_at) (simp_all add: content)
  then have loop: "try_repeat (decode_segment j (content @ sb_digest b) (length content)) (length (sb_segments b)) (20 + length ?m, [])
      = Ok (length content, sb_segments b)"
    by (simp add: content add.assoc)
  have b: "\<lparr>sb_format_version = SNAPSHOT_BUNDLE_FORMAT_VERSION, sb_source_manifest = sb_source_manifest b,
      sb_segments = sb_segments b, sb_digest = sb_digest b\<rparr> = b"
    by (simp add: v(1) [symmetric])
  have dig: "sha256_hex content = sb_digest b" "utf8_valid (sb_digest b)"
    using v(9) utf8_sha256_hex by simp_all
  have guard: "\<not> (length (content @ sb_digest b) < 20 + SNAPSHOT_FOOTER_BYTES \<or> length (content @ sb_digest b) > SNAPSHOT_BUNDLE_MAX_BYTES)"
    "\<not> (length ?m = 0 \<or> length (sb_segments b) > MAX_SEGMENTS)"
    using v(4,8) big digest manifest(1) by simp_all
  have take: "take (length content) (content @ sb_digest b) = content" "drop (length content) (content @ sb_digest b) = sb_digest b"
    by simp_all
  show "bundle_decode c j (content @ sb_digest b) = Ok b"
    unfolding bundle_decode_def Let_def len(2) fields SNAPSHOT_HEADER_BYTES_def m take dig if_not_P [OF guard(1)] if_not_P [OF guard(2)]
    using dig(2) manifest(2) ok by (simp add: m loop b bundle_validate_def)
qed

lemma bundle_new_validated:
  assumes "bundle_new c j m ss = Ok b"
  shows "sb_source_manifest b = m" and "sb_segments b = ss" and "\<exists>segments. validated_segments c j 0 b = Ok segments"
  using assms by (auto simp: bundle_new_def Let_def res_simps bundle_validate_def)

section \<open>Reads\<close>

text \<open>The blocks of one segment on its own, as its private cache sees them.\<close>

definition own_truth :: "codec \<Rightarrow> segment \<Rightarrow> block_truth" where
  "own_truth c seg = (\<lambda>_ i. case seg_storage seg of
     Legacy _ _ \<Rightarrow> Err (InvalidSegment ''legacy'')
   | Blocked src blocks _ \<Rightarrow> rbind (read_and_decode_block c src (blocks ! i)) decoded_block_parse)"

lemma knows_own: "knows (own_truth c seg) c seg"
  by (simp add: knows_def own_truth_def split: segment_storage.split)

lemma coherent_new_cache: "n < 2 ^ 64 - 1 \<Longrightarrow> cache_coherent truth (new_block_cache n)"
  using new_block_cache_wf [of n] by (simp add: cache_coherent_def cache_content_def new_block_cache_def)

lemma segment_rep_level [simp]:
  "segment_rep c (seg\<lparr>seg_descriptor := (seg_descriptor seg)\<lparr>sd_level := l\<rparr>\<rparr>) es \<longleftrightarrow> segment_rep c seg es"
  by (simp add: segment_rep_def descriptor_rep_def)

lemma read_v3_metadata_bytes:
  "read_v3_metadata c bs n actual = Ok (d, blocks) \<Longrightarrow> sd_bytes d = word_of_nat n \<and> sd_id d = actual"
  by (auto simp: read_v3_metadata_def Let_def res_simps split: if_splits dest!: validate_v3_blocks_sound(3))

lemma validate_snapshot_owned_ok:
  assumes "validate_snapshot_owned c n d bs = Ok seg"
  shows "seg_descriptor seg = d" and "\<exists>es. segment_rep c seg es" and "sd_bytes d = word_of_nat (length bs)"
    and "length bs \<le> MAX_SEGMENT_BYTES"
proof -
  obtain seg0 where seg0: "(if starts_with SEGMENT_V3_MAGIC bs then decode_v3_bytes c n bs else decode_legacy c bs) = Ok seg0"
    and seg: "seg = seg0\<lparr>seg_descriptor := (seg_descriptor seg0)\<lparr>sd_level := sd_level d\<rparr>\<rparr>" and d: "seg_descriptor seg = d"
    and len: "length bs \<le> MAX_SEGMENT_BYTES"
    using assms by (auto simp: validate_snapshot_owned_def Let_def res_simps split: if_splits)
  have small: "length bs < 2 ^ 64" using len by (simp add: MAX_SEGMENT_BYTES_def)
  have "(\<exists>es. segment_rep c seg0 es) \<and> sd_bytes (seg_descriptor seg0) = word_of_nat (length bs)"
  proof (cases "starts_with SEGMENT_V3_MAGIC bs")
    case True
    then obtain d' blocks actual where "read_v3_metadata c bs (length bs) actual = Ok (d', blocks)"
      "seg0 = build_blocked_segment d' (Bytes_Source bs) blocks n"
      using seg0 by (auto simp: decode_v3_bytes_def res_simps split: if_splits)
    then show ?thesis
      using blocked_rep(2) [OF _ small] read_v3_metadata_bytes by (fastforce simp: build_blocked_segment_def)
  next
    case False
    then have "decode_legacy c bs = Ok seg0" using seg0 by simp
    moreover from this have "sd_bytes (seg_descriptor seg0) = word_of_nat (length bs)"
      by (auto simp: decode_legacy_def Let_def res_simps split: if_splits)
    ultimately show ?thesis using decode_legacy_sound(1) by blast
  qed
  then show "seg_descriptor seg = d" "\<exists>es. segment_rep c seg es" "sd_bytes d = word_of_nat (length bs)"
    "length bs \<le> MAX_SEGMENT_BYTES"
    using d len seg segment_rep_level by (simp_all, metis, metis segment_descriptor.select_convs(8) segment_descriptor.surjective segment_descriptor.update_convs(2))
qed

definition as_selected :: "versioned_value \<Rightarrow> u64 \<times> bytes option" where
  "as_selected v = (vv_sequence v, vv_value v)"

lemma as_selected_value: "Option.bind (map_option as_selected v) snd = Option.bind v vv_value"
  by (cases v) (simp_all add: as_selected_def)

lemma select_newer_newer:
  "select_newer (map_option as_version v) (map_option as_selected b) = map_option as_selected (newer v b)"
  by (auto simp: select_newer_def newer_def as_selected_def as_version_def split: option.split)

lemma select_in_segment_ok:
  assumes rep: "segment_rep c seg es" and len: "length bests = length keys"
  shows "select_in_segment c keys r seg (map (map_option as_selected) bests)
    = Ok (map (map_option as_selected) (map (\<lambda>(key, best). newer (newest_at r (entry_versions es key)) best) (zip keys bests)))"
proof -
  let ?upd = "\<lambda>i. newer (newest_at r (entry_versions es (keys ! i))) (bests ! i)"
  let ?pairs = "zip [0..<length keys] keys"
  let ?I = "\<lambda>ys out. out = map (\<lambda>i. map_option as_selected (if i < length ys then ?upd i else bests ! i)) [0..<length keys]"
  have "yields (cache_coherent (own_truth c seg)) (cfor ?pairs (\<lambda>(index, key) selected.
      cbind (seg_get_version c seg key r) (\<lambda>version. cok (selected[index := select_newer version (selected ! index)])))
      (map (map_option as_selected) bests)) (?I ?pairs)"
  proof (rule yields_cfor)
    show "?I [] (map (map_option as_selected) bests)"
      using len by (intro nth_equalityI) simp_all
  next
    fix ys x out
    assume I: "?I ys out" and split: "\<exists>zs. ?pairs = ys @ x # zs"
    then obtain zs where zs: "?pairs = ys @ x # zs" by blast
    let ?i = "length ys"
    have i: "?i < length keys" using arg_cong [OF zs, of length] by simp
    have "x = ?pairs ! ?i" by (simp add: zs)
    also have "\<dots> = (?i, keys ! ?i)" using i by simp
    finally have x: "x = (?i, keys ! ?i)" .
    have "out[?i := select_newer (map_option as_version (newest_at r (entry_versions es (keys ! ?i)))) (out ! ?i)]
        = map (\<lambda>i. map_option as_selected (if i < Suc ?i then ?upd i else bests ! i)) [0..<length keys]"
      using i by (intro nth_equalityI) (auto simp: I nth_list_update select_newer_newer less_Suc_eq)
    then show "yields (cache_coherent (own_truth c seg)) ((case x of (index, key) \<Rightarrow> \<lambda>selected.
        cbind (seg_get_version c seg key r) (\<lambda>version. cok (selected[index := select_newer version (selected ! index)]))) out)
        (?I (ys @ [x]))"
      unfolding x prod.case
      by (intro yields_cbind [OF seg_get_version_yields [OF rep knows_own]] yields_cok) (simp add: select_entries_def)
  qed
  from this [THEN yields_mono, of "\<lambda>v. v = map (\<lambda>i. map_option as_selected (?upd i)) [0..<length keys]"]
  have "yields (cache_coherent (own_truth c seg)) (cfor ?pairs (\<lambda>(index, key) selected.
      cbind (seg_get_version c seg key r) (\<lambda>version. cok (selected[index := select_newer version (selected ! index)])))
      (map (map_option as_selected) bests)) (\<lambda>v. v = map (\<lambda>i. map_option as_selected (?upd i)) [0..<length keys])"
    by (simp cong: map_cong)
  from yields_fst [OF this coherent_new_cache [of DEFAULT_BLOCK_CACHE_BYTES]]
  have "select_in_segment c keys r seg (map (map_option as_selected) bests) = Ok (map (\<lambda>i. map_option as_selected (?upd i)) [0..<length keys])"
    by (simp add: select_in_segment_def DEFAULT_BLOCK_CACHE_BYTES_def)
  also have "map (\<lambda>i. map_option as_selected (?upd i)) [0..<length keys] = map (map_option as_selected)
      (map (\<lambda>(key, best). newer (newest_at r (entry_versions es key)) best) (zip keys bests))"
    using len by (intro nth_equalityI) simp_all
  finally show ?thesis .
qed

lemma select_all_segments:
  assumes "list_all2 (segment_rep c) segs ess" and "length bests = length keys"
  shows "try_fold (select_in_segment c keys r) segs (map (map_option as_selected) bests)
    = Ok (map (map_option as_selected)
        (map (\<lambda>(key, best). fold (\<lambda>es. newer (newest_at r (entry_versions es key))) ess best) (zip keys bests)))"
  using assms
proof (induction segs ess arbitrary: bests rule: list_all2_induct)
  case (Cons seg segs es ess)
  have "length (map (\<lambda>(key, best). newer (newest_at r (entry_versions es key)) best) (zip keys bests)) = length keys"
    using Cons.prems by simp
  from Cons.IH [OF this] show ?case
    using Cons.prems by (simp add: select_in_segment_ok [OF Cons.hyps(1)] del: map_map)
      (intro nth_equalityI, simp_all)
qed (simp, intro nth_equalityI, simp_all)

lemma bundle_segments_rep:
  assumes "validated_segments c j n b = Ok segs"
  obtains ess where "list_all2 (segment_rep c) segs ess"
    and "list_all2 (\<lambda>d es. descriptor_rep d es) (mf_segments (sb_source_manifest b)) ess"
proof -
  note v = validated_segments_ok(5,6) [OF assms]
  let ?z = "zip (cache_ids n (length (sb_segments b))) (zip (sb_segments b) (mf_segments (sb_source_manifest b)))"
  have len: "length segs = length (sb_segments b)"
    using list_all2_lengthD [OF v(2)] v(1) by (simp add: cache_ids_def)
  have "\<exists>es. segment_rep c (segs ! i) es \<and> seg_descriptor (segs ! i) = mf_segments (sb_source_manifest b) ! i"
    if "i < length segs" for i
  proof -
    have "validated_segment_of c (?z ! i) = Ok (segs ! i)"
      using that len v(1) by (intro list_all2_nthD [OF v(2)]) (simp add: cache_ids_def)
    then have "\<exists>k. validate_snapshot_owned c k (mf_segments (sb_source_manifest b) ! i) (ss_bytes (sb_segments b ! i)) = Ok (segs ! i)"
      using that len v(1) by (auto simp: validated_segment_of_def cache_ids_def split: if_splits)
    then show ?thesis using validate_snapshot_owned_ok(1,2) by blast
  qed
  then obtain f where f: "\<And>i. i < length segs \<Longrightarrow> segment_rep c (segs ! i) (f i) \<and> seg_descriptor (segs ! i) = mf_segments (sb_source_manifest b) ! i"
    by metis
  show thesis
  proof (rule that [of "map f [0..<length segs]"])
    show "list_all2 (segment_rep c) segs (map f [0..<length segs])"
      using f by (simp add: list_all2_conv_all_nth)
    show "list_all2 (\<lambda>d es. descriptor_rep d es) (mf_segments (sb_source_manifest b)) (map f [0..<length segs])"
      using f len v(1) unfolding list_all2_conv_all_nth segment_rep_def by (metis add.left_neutral diff_zero length_map length_upt nth_map_upt)
  qed
qed

lemma bundle_reads:
  assumes "validated_segments c j 0 b = Ok segs" and "list_all2 (segment_rep c) segs ess"
  shows "bundle_get_many c j b keys = Ok (map (\<lambda>key. Option.bind (newest_in ess key (mf_durable_sequence (sb_source_manifest b))) vv_value) keys)"
proof -
  have "try_fold (select_in_segment c keys r) segs (replicate (length keys) None)
    = Ok (map (\<lambda>key. map_option as_selected (newest_in ess key r)) keys)" for r
    using select_all_segments [OF assms(2), of "replicate (length keys) None" keys r]
    by (simp add: newest_in_def zip_replicate2 comp_def)
  then show ?thesis
    using assms(1) by (simp add: bundle_get_many_def as_selected_value)
qed

section \<open>The bundle as a file\<close>

lemma ensure_file_range_ok: "a + n \<le> bound \<Longrightarrow> bound < 2 ^ 64 \<Longrightarrow> ensure_file_range a n bound = Ok ()"
  by (simp add: ensure_file_range_def usize_checked_add_def)

fun file_segments :: "json \<Rightarrow> nat \<Rightarrow> snapshot_segment list \<Rightarrow> file_segment list" where
  "file_segments j offset [] = []"
| "file_segments j offset (s # ss) =
     \<lparr>fs_descriptor = ss_descriptor s, fs_offset = offset + 12 + length (descriptor_json j (ss_descriptor s)),
      fs_length = word_of_nat (length (ss_bytes s))\<rparr> # file_segments j (offset + length (segment_bytes j s)) ss"

definition streamable :: "json \<Rightarrow> snapshot_segment \<Rightarrow> bool" where
  "streamable j s \<longleftrightarrow> length (descriptor_json j (ss_descriptor s)) \<le> MAX_DESCRIPTOR_BYTES \<and> length (ss_bytes s) < 2 ^ 64 \<and>
     sd_bytes (ss_descriptor s) = word_of_nat (length (ss_bytes s))"

lemma read_exact_at_append:
  "read_exact_at (pre @ mid @ post) (length pre) (length mid) = Ok mid"
  by (simp add: read_exact_at_def)

lemma open_segment_entry_at:
  assumes "streamable j s" and laws: "json_laws j"
    and "length pre + length (segment_bytes j s) \<le> content_end" and "content_end < 2 ^ 64"
  shows "open_segment_entry j (pre @ segment_bytes j s @ post) content_end (ss_descriptor s) (length pre, acc)
    = Ok (length pre + length (segment_bytes j s), acc @ file_segments j (length pre) [s])"
proof -
  let ?d = "descriptor_json j (ss_descriptor s)" and ?bs = "pre @ segment_bytes j s @ post" and ?n = "length pre"
  let ?lens = "u32_to_be_bytes (word_of_nat (length ?d)) @ u64_to_be_bytes (word_of_nat (length (ss_bytes s)))"
  have d: "?d \<noteq> []" "descriptor_parse j ?d = Some (ss_descriptor s)" using laws by (simp_all add: json_laws_def)
  have l: "length ?d < 2 ^ 32" "length (ss_bytes s) < 2 ^ 64" "length ?d \<le> MAX_DESCRIPTOR_BYTES"
    using assms(1) by (simp_all add: streamable_def MAX_DESCRIPTOR_BYTES_def)
  have reads: "read_exact_at ?bs ?n 12 = Ok ?lens" "read_exact_at ?bs (?n + 12) (length ?d) = Ok ?d"
    using read_exact_at_append [of pre ?lens "?d @ ss_bytes s @ post"] read_exact_at_append [of "pre @ ?lens" ?d "ss_bytes s @ post"]
    by (simp_all add: segment_bytes_def)
  have fields: "subslice 0 4 ?lens = u32_to_be_bytes (word_of_nat (length ?d))"
    "subslice 4 12 ?lens = u64_to_be_bytes (word_of_nat (length (ss_bytes s)))"
    by (simp_all add: subslice_def)
  have ranges: "ensure_file_range (?n + 12) (length ?d) content_end = Ok ()"
    "ensure_file_range (?n + 12 + length ?d) (length (ss_bytes s)) content_end = Ok ()"
    using assms(3,4) by (simp_all add: ensure_file_range_ok)
  have unats: "unat (word_of_nat (length ?d) :: u32) = length ?d" "unat (word_of_nat (length (ss_bytes s)) :: u64) = length (ss_bytes s)"
    using l by simp_all
  show ?thesis
    using assms(1) d l(3)
    by (simp add: open_segment_entry_def reads fields ranges unats Let_def streamable_def)
qed

lemma open_segment_entries_at:
  assumes "\<forall>s \<in> set ss. streamable j s" and "json_laws j"
    and "length pre + length (enc_all (segment_bytes j) ss) \<le> content_end" and "content_end < 2 ^ 64"
  shows "try_fold (open_segment_entry j (pre @ enc_all (segment_bytes j) ss @ post) content_end) (map ss_descriptor ss) (length pre, acc)
    = Ok (length pre + length (enc_all (segment_bytes j) ss), acc @ file_segments j (length pre) ss)"
  using assms
proof (induction ss arbitrary: pre acc)
  case (Cons s ss)
  have "open_segment_entry j (pre @ segment_bytes j s @ (enc_all (segment_bytes j) ss @ post)) content_end (ss_descriptor s) (length pre, acc)
      = Ok (length pre + length (segment_bytes j s), acc @ file_segments j (length pre) [s])"
    using Cons.prems by (intro open_segment_entry_at) auto
  moreover have "try_fold (open_segment_entry j ((pre @ segment_bytes j s) @ enc_all (segment_bytes j) ss @ post) content_end) (map ss_descriptor ss)
      (length (pre @ segment_bytes j s), acc @ file_segments j (length pre) [s])
    = Ok (length (pre @ segment_bytes j s) + length (enc_all (segment_bytes j) ss),
        (acc @ file_segments j (length pre) [s]) @ file_segments j (length (pre @ segment_bytes j s)) ss)"
    using Cons.prems by (intro Cons.IH) auto
  ultimately show ?case by simp
qed simp

lemma length_file_segments [simp]: "length (file_segments j n ss) = length ss"
  by (induction ss arbitrary: n) simp_all

lemma file_segment_read:
  assumes "\<forall>s \<in> set ss. streamable j s" and "i < length ss"
  shows "fs_descriptor (file_segments j (length pre) ss ! i) = ss_descriptor (ss ! i)"
    and "read_exact_at (pre @ enc_all (segment_bytes j) ss @ post) (fs_offset (file_segments j (length pre) ss ! i))
      (unat (fs_length (file_segments j (length pre) ss ! i))) = Ok (ss_bytes (ss ! i))"
proof -
  have "fs_descriptor (file_segments j (length pre) ss ! i) = ss_descriptor (ss ! i) \<and>
    read_exact_at (pre @ enc_all (segment_bytes j) ss @ post) (fs_offset (file_segments j (length pre) ss ! i))
      (unat (fs_length (file_segments j (length pre) ss ! i))) = Ok (ss_bytes (ss ! i))"
    using assms
  proof (induction ss arbitrary: pre i)
    case (Cons s ss)
    let ?lens = "u32_to_be_bytes (word_of_nat (length (descriptor_json j (ss_descriptor s)))) @ u64_to_be_bytes (word_of_nat (length (ss_bytes s)))"
    have len: "unat (word_of_nat (length (ss_bytes s)) :: u64) = length (ss_bytes s)"
      using Cons.prems by (simp add: streamable_def)
    show ?case
    proof (cases i)
      case 0
      then show ?thesis
        using read_exact_at_append [of "pre @ ?lens @ descriptor_json j (ss_descriptor s)" "ss_bytes s" "enc_all (segment_bytes j) ss @ post"]
        by (simp add: len segment_bytes_def [of j s] add.assoc)
    next
      case (Suc k)
      then show ?thesis
        using Cons.IH [of k "pre @ segment_bytes j s"] Cons.prems by simp
    qed
  qed simp
  then show "fs_descriptor (file_segments j (length pre) ss ! i) = ss_descriptor (ss ! i)"
    "read_exact_at (pre @ enc_all (segment_bytes j) ss @ post) (fs_offset (file_segments j (length pre) ss ! i))
      (unat (fs_length (file_segments j (length pre) ss ! i))) = Ok (ss_bytes (ss ! i))" by blast+
qed

text \<open>The number a segment is opened under does not matter.\<close>

lemma validate_snapshot_any_id:
  assumes "validate_snapshot_owned c n d bs = Ok seg"
  shows "\<exists>seg'. validate_snapshot_owned c n' d bs = Ok seg' \<and> (\<forall>es. segment_rep c seg' es \<longleftrightarrow> segment_rep c seg es)"
proof (cases "starts_with SEGMENT_V3_MAGIC bs")
  case True
  then obtain d' blocks where "decode_v3_bytes c k bs = Ok (build_blocked_segment d' (Bytes_Source bs) blocks k)" for k
    using assms by (fastforce simp: validate_snapshot_owned_def decode_v3_bytes_def res_simps split: if_splits)
  with True assms show ?thesis
    by (auto simp: validate_snapshot_owned_def build_blocked_segment_def res_simps segment_rep_def storage_rep_def split: if_splits)
next
  case False
  with assms show ?thesis by (simp add: validate_snapshot_owned_def split: if_splits)
qed

lemma try_fold_bind_map:
  "(\<And>x. x \<in> set xs \<Longrightarrow> g x = Ok (f x)) \<Longrightarrow> try_fold (\<lambda>x s. rbind (g x) (\<lambda>y. h y s)) xs s = try_fold h (map f xs) s"
  by (induction xs arbitrary: s) (simp_all cong: rbind_cong)

lemma streamed_digest:
  assumes "length m < 2 ^ 64"
  shows "\<exists>s. sha256_updates sha256_new (read_pieces STREAM_BUFFER_BYTES m) = Some s \<and> sha256_finalize_hex s = sha256_hex m"
proof -
  have "concat (read_pieces STREAM_BUFFER_BYTES m) = m" by (simp add: concat_read_pieces STREAM_BUFFER_BYTES_def)
  then obtain s where s: "sha256_updates sha256_new (read_pieces STREAM_BUFFER_BYTES m) = Some s" "sha_rep s m"
    using sha256_updates_rep [OF sha_rep_new, of "read_pieces STREAM_BUFFER_BYTES m"] assms by auto
  then show ?thesis
    using assms by (simp add: sha256_finalize_hex_def sha256_hex_def sha256_finalize_rep sha256_eq_spec)
qed

definition bundle_file :: "json \<Rightarrow> snapshot_bundle \<Rightarrow> snapshot_bundle_file" where
  "bundle_file j b = \<lparr>bf_source_manifest = sb_source_manifest b,
     bf_segments = file_segments j (20 + length (manifest_json j (sb_source_manifest b))) (sb_segments b),
     bf_digest = sb_digest b, bf_length = length (bundle_content j (sb_source_manifest b) (sb_segments b)) + 64\<rparr>"

definition stream_bounded :: "json \<Rightarrow> snapshot_bundle \<Rightarrow> bool" where
  "stream_bounded j b \<longleftrightarrow> length (manifest_json j (sb_source_manifest b)) \<le> MAX_MANIFEST_BYTES \<and>
     (\<forall>s \<in> set (sb_segments b). length (descriptor_json j (ss_descriptor s)) \<le> MAX_DESCRIPTOR_BYTES)"

lemma validated_nth:
  assumes "validated_segments c j n b = Ok segs" and "i < length (sb_segments b)"
  shows "length segs = length (sb_segments b)" and "ss_descriptor (sb_segments b ! i) = mf_segments (sb_source_manifest b) ! i"
    and "\<exists>k. validate_snapshot_owned c k (ss_descriptor (sb_segments b ! i)) (ss_bytes (sb_segments b ! i)) = Ok (segs ! i)"
proof -
  note v = validated_segments_ok(5,6) [OF assms(1)]
  let ?z = "zip (cache_ids n (length (sb_segments b))) (zip (sb_segments b) (mf_segments (sb_source_manifest b)))"
  show len: "length segs = length (sb_segments b)"
    using list_all2_lengthD [OF v(2)] v(1) by (simp add: cache_ids_def)
  have "validated_segment_of c (?z ! i) = Ok (segs ! i)"
    using assms(2) v(1) by (intro list_all2_nthD [OF v(2)]) (simp add: cache_ids_def)
  then have "ss_descriptor (sb_segments b ! i) = mf_segments (sb_source_manifest b) ! i \<and>
      (\<exists>k. validate_snapshot_owned c k (ss_descriptor (sb_segments b ! i)) (ss_bytes (sb_segments b ! i)) = Ok (segs ! i))"
    using assms(2) v(1) by (auto simp: validated_segment_of_def cache_ids_def split: if_splits)
  then show "ss_descriptor (sb_segments b ! i) = mf_segments (sb_source_manifest b) ! i"
    "\<exists>k. validate_snapshot_owned c k (ss_descriptor (sb_segments b ! i)) (ss_bytes (sb_segments b ! i)) = Ok (segs ! i)" by blast+
qed

lemma validated_streamable:
  assumes "validated_segments c j n b = Ok segs" and "stream_bounded j b"
  shows "\<forall>s \<in> set (sb_segments b). streamable j s" and "map ss_descriptor (sb_segments b) = mf_segments (sb_source_manifest b)"
proof -
  show "\<forall>s \<in> set (sb_segments b). streamable j s"
  proof
    fix s assume s: "s \<in> set (sb_segments b)"
    then obtain i where i: "i < length (sb_segments b)" "s = sb_segments b ! i" by (auto simp: in_set_conv_nth)
    obtain k where "validate_snapshot_owned c k (ss_descriptor s) (ss_bytes s) = Ok (segs ! i)"
      using validated_nth(3) [OF assms(1) i(1)] i(2) by blast
    from validate_snapshot_owned_ok(3,4) [OF this] assms(2) s show "streamable j s"
      by (auto simp: streamable_def stream_bounded_def MAX_SEGMENT_BYTES_def)
  qed
  show "map ss_descriptor (sb_segments b) = mf_segments (sb_source_manifest b)"
    using validated_nth(2) [OF assms(1)] validated_segments_ok(5) [OF assms(1)] by (intro nth_equalityI) simp_all
qed

text \<open>What the file serves as its \<open>i\<close>-th segment.\<close>

lemma bundle_file_segment:
  assumes ok: "validated_segments c j n b = Ok segs" and bounded: "stream_bounded j b" and i: "i < length (sb_segments b)"
  defines "contents \<equiv> bundle_content j (sb_source_manifest b) (sb_segments b) @ sb_digest b"
  shows "bundle_segment_bytes contents (bundle_file j b) i = Ok (ss_bytes (sb_segments b ! i))"
    and "\<exists>seg. validated_segment c k contents (bundle_file j b) i = Ok seg \<and> (\<forall>es. segment_rep c seg es \<longleftrightarrow> segment_rep c (segs ! i) es)"
proof -
  let ?m = "manifest_json j (sb_source_manifest b)"
  let ?pre = "bundle_header SNAPSHOT_BUNDLE_FORMAT_VERSION (word_of_nat (length ?m)) (word_of_nat (length (sb_segments b))) @ ?m"
  have contents: "contents = ?pre @ enc_all (segment_bytes j) (sb_segments b) @ sb_digest b"
    by (simp add: contents_def bundle_content_def)
  note r = file_segment_read(1) [OF validated_streamable(1) [OF ok bounded] i, of ?pre]
    file_segment_read(2) [OF validated_streamable(1) [OF ok bounded] i, of ?pre "sb_digest b", folded contents]
  have pre: "length ?pre = 20 + length ?m" by simp
  note r = r [unfolded pre]
  show bytes: "bundle_segment_bytes contents (bundle_file j b) i = Ok (ss_bytes (sb_segments b ! i))"
    using r i by (simp add: bundle_segment_bytes_def bundle_file_def)
  obtain k0 where "validate_snapshot_owned c k0 (ss_descriptor (sb_segments b ! i)) (ss_bytes (sb_segments b ! i)) = Ok (segs ! i)"
    using validated_nth(3) [OF ok i] by blast
  from validate_snapshot_any_id [OF this, of k] obtain seg where
    "validate_snapshot_owned c k (ss_descriptor (sb_segments b ! i)) (ss_bytes (sb_segments b ! i)) = Ok seg"
    "\<forall>es. segment_rep c seg es \<longleftrightarrow> segment_rep c (segs ! i) es" by blast
  then show "\<exists>seg. validated_segment c k contents (bundle_file j b) i = Ok seg \<and> (\<forall>es. segment_rep c seg es \<longleftrightarrow> segment_rep c (segs ! i) es)"
    using bytes r(1) i by (simp add: validated_segment_def bundle_file_def)
qed

lemma bundle_file_reads:
  assumes ok: "validated_segments c j 0 b = Ok segs" and bounded: "stream_bounded j b"
  shows "file_get_many c (bundle_content j (sb_source_manifest b) (sb_segments b) @ sb_digest b) (bundle_file j b) keys
    = bundle_get_many c j b keys"
proof -
  let ?c = "bundle_content j (sb_source_manifest b) (sb_segments b) @ sb_digest b"
  obtain ess where ess: "list_all2 (segment_rep c) segs ess" using bundle_segments_rep [OF ok] by blast
  obtain f where f: "\<And>i. i < length (sb_segments b) \<Longrightarrow> validated_segment c 0 ?c (bundle_file j b) i = Ok (f i) \<and>
      (\<forall>es. segment_rep c (f i) es \<longleftrightarrow> segment_rep c (segs ! i) es)"
    using choice [of "\<lambda>i seg. i < length (sb_segments b) \<longrightarrow> validated_segment c 0 ?c (bundle_file j b) i = Ok seg \<and>
      (\<forall>es. segment_rep c seg es \<longleftrightarrow> segment_rep c (segs ! i) es)"] bundle_file_segment(2) [OF ok bounded] by blast
  have len: "length segs = length (sb_segments b)"
    using validated_segments_ok(5,6) [OF ok] by (auto simp: cache_ids_def dest: list_all2_lengthD)
  have "list_all2 (segment_rep c) (map f [0..<length (sb_segments b)]) ess"
    using ess f len by (auto simp: list_all2_conv_all_nth)
  note rep = select_all_segments [OF this, of "replicate (length keys) None" keys, simplified map_replicate]
    select_all_segments [OF ess, of "replicate (length keys) None" keys, simplified map_replicate]
  have "try_fold (\<lambda>i s. rbind (validated_segment c 0 ?c (bundle_file j b) i) (\<lambda>seg. select_in_segment c keys r seg s))
      [0..<length (sb_segments b)] s = try_fold (select_in_segment c keys r) (map f [0..<length (sb_segments b)]) s" for r s
    using f by (intro try_fold_bind_map) simp
  moreover have "length (bf_segments (bundle_file j b)) = length (sb_segments b)"
    "bf_source_manifest (bundle_file j b) = sb_source_manifest b" by (simp_all add: bundle_file_def)
  ultimately show ?thesis
    using ok rep by (simp add: file_get_many_def bundle_get_many_def)
qed

lemma bundle_file_opens:
  assumes laws: "json_laws j" and ok: "validated_segments c j 0 b = Ok segs" and bounded: "stream_bounded j b"
  shows "bundle_file_open c j (bundle_content j (sb_source_manifest b) (sb_segments b) @ sb_digest b) = Ok (bundle_file j b)"
proof -
  define content where "content = bundle_content j (sb_source_manifest b) (sb_segments b)"
  note v = validated_segments_ok [OF ok, folded content_def]
  have fits: "length (manifest_json j (sb_source_manifest b)) < 2 ^ 32" "length (sb_segments b) < 2 ^ 32"
    using v(7) unfolding content_bytes_ok [OF v(1)] by blast+
  let ?m = "manifest_json j (sb_source_manifest b)" and ?ss = "enc_all (segment_bytes j) (sb_segments b)"
  let ?h = "bundle_header SNAPSHOT_BUNDLE_FORMAT_VERSION (word_of_nat (length ?m)) (word_of_nat (length (sb_segments b)))"
  have content: "content = ?h @ ?m @ ?ss" by (simp add: content_def bundle_content_def)
  have digest: "length (sb_digest b) = SNAPSHOT_FOOTER_BYTES" by (simp add: v(9) SNAPSHOT_FOOTER_BYTES_def)
  have len: "length (content @ sb_digest b) - SNAPSHOT_FOOTER_BYTES = length content"
    using digest by simp
  have big: "20 \<le> length content" "length content < 2 ^ 64"
    using v(8) by (simp_all add: content snapshot_constants)
  have manifest: "?m \<noteq> []" "manifest_parse j ?m = Some (sb_source_manifest b)" using laws by (simp_all add: json_laws_def)
  have guard: "\<not> (length (content @ sb_digest b) < 20 + SNAPSHOT_FOOTER_BYTES \<or> length (content @ sb_digest b) > SNAPSHOT_BUNDLE_MAX_BYTES)"
    "\<not> (length ?m = 0 \<or> length ?m > MAX_MANIFEST_BYTES \<or> length (sb_segments b) > MAX_SEGMENTS)"
    using v(4,8) big digest manifest(1) bounded by (simp_all add: stream_bounded_def)
  obtain s where s: "sha256_updates sha256_new (read_pieces STREAM_BUFFER_BYTES content) = Some s" "sha256_finalize_hex s = sb_digest b"
    using streamed_digest [OF big(2)] v(9) by auto
  have dig: "utf8_valid (sb_digest b)" using v(9) utf8_sha256_hex by simp
  have hdr: "read_exact_at (content @ sb_digest b) 0 20 = Ok ?h" "read_exact_at (content @ sb_digest b) 20 (length ?m) = Ok ?m"
    using read_exact_at_append [of "[]" ?h "?m @ ?ss @ sb_digest b"] read_exact_at_append [of ?h ?m "?ss @ sb_digest b"] by (simp_all add: content)
  have fields: "subslice 0 8 ?h = SNAPSHOT_MAGIC" "u16_from_be_bytes (subslice 8 10 ?h) = SNAPSHOT_BUNDLE_FORMAT_VERSION"
    "subslice 10 12 ?h = [0, 0]" "unat (u32_from_be_bytes (subslice 12 16 ?h)) = length ?m"
    "unat (u32_from_be_bytes (subslice 16 20 ?h)) = length (sb_segments b)"
    using fits bundle_header_fields [of _ _ _ "[]"] by simp_all
  have range: "ensure_file_range 20 (length ?m) (length content) = Ok ()"
    using big(2) by (intro ensure_file_range_ok) (simp_all add: content)
  have contract: "validate_manifest_contract j (sb_source_manifest b) = Ok ()"
    using v(2-5) by (simp add: validate_manifest_contract_def flush_bounded_def)
  have "try_fold (open_segment_entry j ((?h @ ?m) @ ?ss @ sb_digest b) (length content)) (map ss_descriptor (sb_segments b)) (length (?h @ ?m), [])
      = Ok (length (?h @ ?m) + length ?ss, [] @ file_segments j (length (?h @ ?m)) (sb_segments b))"
    using validated_streamable(1) [OF ok bounded] big laws by (intro open_segment_entries_at) (simp_all add: content)
  then have loop: "try_fold (open_segment_entry j (content @ sb_digest b) (length content)) (mf_segments (sb_source_manifest b)) (20 + length ?m, [])
      = Ok (length content, bf_segments (bundle_file j b))"
    by (simp add: content add.assoc validated_streamable(2) [OF ok bounded] bundle_file_def)
  have "\<exists>ys. try_map (validated_segment c 0 (content @ sb_digest b) (bundle_file j b)) [0..<length (sb_segments b)] = Ok ys"
  proof -
    obtain f where "\<And>i. i < length (sb_segments b) \<Longrightarrow> validated_segment c 0 (content @ sb_digest b) (bundle_file j b) i = Ok (f i)"
      using choice [of "\<lambda>i seg. i < length (sb_segments b) \<longrightarrow> validated_segment c 0 (content @ sb_digest b) (bundle_file j b) i = Ok seg"]
        bundle_file_segment(2) [OF ok bounded] unfolding content_def by blast
    then show ?thesis by (intro exI [of _ "map f [0..<length (sb_segments b)]"] try_map_ok) simp
  qed
  then obtain ys where ys: "try_map (validated_segment c 0 (content @ sb_digest b) (bundle_file j b)) [0..<length (sb_segments b)] = Ok ys" ..
  have f: "\<lparr>bf_source_manifest = sb_source_manifest b, bf_segments = bf_segments (bundle_file j b), bf_digest = sb_digest b,
      bf_length = length content + length (sb_digest b)\<rparr> = bundle_file j b"
    using digest by (simp add: bundle_file_def content_def SNAPSHOT_FOOTER_BYTES_def)
  have n: "length (bf_segments (bundle_file j b)) = length (sb_segments b)" by (simp add: bundle_file_def)
  have take: "take (length content) (content @ sb_digest b) = content" "drop (length content) (content @ sb_digest b) = sb_digest b"
    by simp_all
  show ?thesis
    unfolding content_def [symmetric] bundle_file_open_def Let_def len SNAPSHOT_HEADER_BYTES_def if_not_P [OF guard(1)] take
    using dig s(1) s(2) hdr range manifest(2) contract
    by (simp add: fields if_not_P [OF guard(2)] loop v(5) [symmetric] f n ys del: length_0_conv)
qed

section \<open>Exporting\<close>

text \<open>What has been written, hashed and counted agree.\<close>

definition out_rep :: "bytes \<Rightarrow> bundle_output \<Rightarrow> bool" where
  "out_rep m out \<longleftrightarrow> (\<exists>digest. out = (m, digest, word_of_nat (length m)) \<and> sha_rep digest m)"

lemma write_hashed_ok:
  assumes "out_rep m out" and "length m + length bs + 64 \<le> SNAPSHOT_BUNDLE_MAX_BYTES" and "length m + length bs \<le> room"
  shows "\<exists>out'. write_hashed room bs out = Ok out' \<and> out_rep (m @ bs) out'"
proof -
  obtain d where d: "out = (m, d, word_of_nat (length m))" "sha_rep d m" using assms(1) by (auto simp: out_rep_def)
  have n: "length m + length bs < 2 ^ 64" using assms(2) by (simp add: SNAPSHOT_BUNDLE_MAX_BYTES_def)
  obtain d' where d': "sha256_update d bs = Some d'" "sha_rep d' (m @ bs)"
    using sha256_update_rep [OF d(2) n] by blast
  have "word_of_nat (length m) + word_of_nat (length bs) = (word_of_nat (length (m @ bs)) :: u64)" by simp
  moreover have "unat (saturating_add (word_of_nat (length (m @ bs)) :: u64) (word_of_nat SNAPSHOT_FOOTER_BYTES)) \<le> SNAPSHOT_BUNDLE_MAX_BYTES"
    using assms(2) unat_u64_of_nat [of "length (m @ bs)"] n by (simp add: unat_saturating_add snapshot_constants del: of_nat_add)
  ultimately show ?thesis
    using d d' n assms(3) by (simp add: write_hashed_def out_rep_def)
qed

lemma write_pieces_ok:
  assumes "out_rep m out" and "length m + length (concat bss) + 64 \<le> SNAPSHOT_BUNDLE_MAX_BYTES" and "length m + length (concat bss) \<le> room"
  shows "\<exists>out'. try_fold (write_hashed room) bss out = Ok out' \<and> out_rep (m @ concat bss) out'"
  using assms
proof (induction bss arbitrary: m out)
  case (Cons bs bss)
  obtain out1 where "write_hashed room bs out = Ok out1" "out_rep (m @ bs) out1"
    using write_hashed_ok [OF Cons.prems(1), of bs room] Cons.prems(2,3) by auto
  with Cons.IH [of "m @ bs" out1] Cons.prems(2,3) show ?case by simp
qed auto

lemma export_segment_ok:
  assumes "out_rep m out" and "streamable j s" and "json_laws j" and "hook SegmentWritten = Ok ()"
    and "bt_get files (sd_id (ss_descriptor s)) = Some (ss_bytes s)"
    and "length m + length (segment_bytes j s) + 64 \<le> SNAPSHOT_BUNDLE_MAX_BYTES" and "SNAPSHOT_BUNDLE_MAX_BYTES \<le> room"
  shows "\<exists>out'. export_segment j room hook files (ss_descriptor s) out = Ok out' \<and> out_rep (m @ segment_bytes j s) out'"
proof -
  let ?d = "descriptor_json j (ss_descriptor s)"
  let ?pieces = "[u32_to_be_bytes (word_of_nat (length ?d)), u64_to_be_bytes (word_of_nat (length (ss_bytes s))), ?d]
    @ read_pieces STREAM_BUFFER_BYTES (ss_bytes s)"
  have pieces: "concat ?pieces = segment_bytes j s"
    by (simp add: concat_read_pieces STREAM_BUFFER_BYTES_def segment_bytes_def)
  have "length m + length (concat ?pieces) + 64 \<le> SNAPSHOT_BUNDLE_MAX_BYTES" "length m + length (concat ?pieces) \<le> room"
    unfolding pieces using assms(6,7) by simp_all
  from write_pieces_ok [OF assms(1) this] obtain out' where
    "try_fold (write_hashed room) ?pieces out = Ok out'" "out_rep (m @ segment_bytes j s) out'"
    unfolding pieces by blast
  moreover have "?d \<noteq> []" "u32_try_from (length ?d) = Some (word_of_nat (length ?d))"
    using assms(2,3) by (simp_all add: json_laws_def streamable_def u32_try_from_def MAX_DESCRIPTOR_BYTES_def)
  ultimately show ?thesis
    using assms(2,4,5) by (simp add: export_segment_def streamable_def Let_def)
qed

lemma export_segments_ok:
  assumes "out_rep m out" and "\<forall>s \<in> set ss. streamable j s" and "json_laws j" and "hook SegmentWritten = Ok ()"
    and "\<forall>s \<in> set ss. bt_get files (sd_id (ss_descriptor s)) = Some (ss_bytes s)"
    and "length m + length (enc_all (segment_bytes j) ss) + 64 \<le> SNAPSHOT_BUNDLE_MAX_BYTES" and "SNAPSHOT_BUNDLE_MAX_BYTES \<le> room"
  shows "\<exists>out'. try_fold (export_segment j room hook files) (map ss_descriptor ss) out = Ok out' \<and>
    out_rep (m @ enc_all (segment_bytes j) ss) out'"
  using assms
proof (induction ss arbitrary: m out)
  case (Cons s ss)
  obtain out1 where "export_segment j room hook files (ss_descriptor s) out = Ok out1" "out_rep (m @ segment_bytes j s) out1"
    using export_segment_ok [OF Cons.prems(1), of j s hook files room] Cons.prems by auto
  with Cons.IH [of "m @ segment_bytes j s" out1] Cons.prems show ?case by simp
qed auto

lemma out_rep_new: "out_rep [] ([], sha256_new, 0)"
  by (simp add: out_rep_def sha_rep_new)

lemma export_contents_ok:
  assumes ok: "validated_segments c j 0 b = Ok segs" and bounded: "stream_bounded j b" and laws: "json_laws j"
    and hook: "\<And>p. hook p = Ok ()" and room: "SNAPSHOT_BUNDLE_MAX_BYTES \<le> room"
    and files: "\<forall>s \<in> set (sb_segments b). bt_get files (sd_id (ss_descriptor s)) = Some (ss_bytes s)"
  shows "export_contents j room hook files (sb_source_manifest b) (manifest_json j (sb_source_manifest b))
    (word_of_nat (length (manifest_json j (sb_source_manifest b)))) (word_of_nat (length (sb_segments b)))
    = Ok (bundle_content j (sb_source_manifest b) (sb_segments b) @ sb_digest b)"
proof -
  define content where "content = bundle_content j (sb_source_manifest b) (sb_segments b)"
  note v = validated_segments_ok [OF ok, folded content_def]
  let ?m = "manifest_json j (sb_source_manifest b)" and ?ss = "enc_all (segment_bytes j) (sb_segments b)"
  let ?h = "bundle_header SNAPSHOT_BUNDLE_FORMAT_VERSION (word_of_nat (length ?m)) (word_of_nat (length (sb_segments b)))"
  let ?pieces = "[SNAPSHOT_MAGIC, u16_to_be_bytes SNAPSHOT_BUNDLE_FORMAT_VERSION, u16_to_be_bytes 0,
    u32_to_be_bytes (word_of_nat (length ?m)), u32_to_be_bytes (word_of_nat (length (sb_segments b))), ?m]"
  have content: "content = (?h @ ?m) @ ?ss" by (simp add: content_def bundle_content_def)
  have pieces: "concat ?pieces = ?h @ ?m" by (simp add: bundle_header_def)
  have len: "length (?h @ ?m) + length ?ss + 64 \<le> SNAPSHOT_BUNDLE_MAX_BYTES"
    using v(8) by (simp add: content SNAPSHOT_FOOTER_BYTES_def)
  have "length ([] :: bytes) + length (concat ?pieces) + 64 \<le> SNAPSHOT_BUNDLE_MAX_BYTES" "length ([] :: bytes) + length (concat ?pieces) \<le> room"
    unfolding pieces using len room by simp_all
  from write_pieces_ok [OF out_rep_new this] obtain out1 where
    out1: "try_fold (write_hashed room) ?pieces ([], sha256_new, 0) = Ok out1" "out_rep (?h @ ?m) out1"
    unfolding pieces by auto
  from export_segments_ok [where hook = hook, OF out1(2) validated_streamable(1) [OF ok bounded] laws hook files len room]
  obtain out2 where out2: "try_fold (export_segment j room hook files) (map ss_descriptor (sb_segments b)) out1 = Ok out2"
    "out_rep content out2" unfolding content by blast
  from out2(2) obtain d where d: "out2 = (content, d, word_of_nat (length content))" "sha_rep d content" by (auto simp: out_rep_def)
  have small: "length content < 2 ^ 64" "length content + 64 \<le> SNAPSHOT_BUNDLE_MAX_BYTES" "length content + 64 < 2 ^ 64"
    using v(8) by (simp_all add: snapshot_constants)
  have fin: "sha256_finalize_hex d = sb_digest b"
    using d(2) small(1) v(9) by (simp add: sha256_finalize_hex_def sha256_hex_def sha256_finalize_rep sha256_eq_spec)
  have "unat (word_of_nat (length content + 64) :: u64) = length content + 64" using small(3) by (rule unat_u64_of_nat)
  then have "checked_add (word_of_nat (length content)) (word_of_nat SNAPSHOT_FOOTER_BYTES) = Some (word_of_nat (length content + 64) :: u64)"
    using small(3) unat_u64_of_nat [OF small(1)] by (simp add: checked_add_eq_Some SNAPSHOT_FOOTER_BYTES_def)
  with \<open>unat _ = _\<close> show ?thesis
    using out1(1) out2(1) small(2) room v(9) hook
    by (simp add: export_contents_def d fin validated_streamable(2) [OF ok bounded] content_def [symmetric] Let_def not_less)
qed

section \<open>Properties\<close>

text \<open>C29. Bundles survive transport. A bundle that validates encodes within the physical limit, and the
  encoding decodes to the same bundle.\<close>

theorem snapshot_bundle_roundtrip:
  assumes "json_laws j" and "bundle_validate c j b = Ok ()"
  shows "\<exists>bs. bundle_encode c j b = Ok bs \<and> length bs \<le> SNAPSHOT_BUNDLE_MAX_BYTES \<and> bundle_decode c j bs = Ok b"
proof -
  obtain segs where ok: "validated_segments c j 0 b = Ok segs" using assms(2) by (auto simp: bundle_validate_ok)
  note v = validated_segments_ok(8,9) [OF ok]
  have "length (sb_digest b) = SNAPSHOT_FOOTER_BYTES" by (simp add: v(2) SNAPSHOT_FOOTER_BYTES_def)
  with v(1) bundle_decode_encode [OF assms(1) ok] show ?thesis by simp
qed

text \<open>The bundle of a new, empty database.\<close>

definition empty_bundle :: snapshot_bundle where
  "empty_bundle = \<lparr>sb_format_version = SNAPSHOT_BUNDLE_FORMAT_VERSION, sb_source_manifest = first_manifest, sb_segments = [],
     sb_digest = sha256_hex (bundle_content example_json first_manifest [])\<rparr>"

lemma length_enc_strings: "length (enc_strings ss) = sum_list (map (\<lambda>s. 2 * length s + 1) ss)"
proof -
  have "length (concat (map (\<lambda>b. [1, b]) s)) = 2 * length s" for s :: bytes by (induction s) simp_all
  then show ?thesis by (induction ss) (simp_all add: enc_strings_def)
qed

lemma empty_bundle_new:
  shows "bundle_new c example_json first_manifest [] = Ok empty_bundle" and "stream_bounded example_json empty_bundle"
proof -
  have len: "length (manifest_json example_json first_manifest) \<le> 500"
    by (simp add: example_json_def first_manifest_def Let_def content_fields_def length_enc_strings)
  have fields: "mf_segments first_manifest = []" "flush_bounded first_manifest"
    by (simp_all add: first_manifest_def Let_def flush_bounded_def saturating_add_def)
  show "stream_bounded example_json empty_bundle"
    using len by (simp add: stream_bounded_def empty_bundle_def MAX_MANIFEST_BYTES_def)
  have "content_bytes example_json \<lparr>sb_format_version = SNAPSHOT_BUNDLE_FORMAT_VERSION, sb_source_manifest = first_manifest, sb_segments = [], sb_digest = d\<rparr>
      = Ok (bundle_content example_json first_manifest [])" for d
    using len by (simp add: content_bytes_ok)
  moreover have "usize_saturating_add (length (bundle_content example_json first_manifest [])) SNAPSHOT_FOOTER_BYTES \<le> SNAPSHOT_BUNDLE_MAX_BYTES"
    using len by (simp add: bundle_content_def usize_saturating_add_def snapshot_constants)
  ultimately show "bundle_new c example_json first_manifest [] = Ok empty_bundle"
    using first_manifest_valid fields
    by (simp add: bundle_new_def bundle_validate_def validated_segments_def cache_ids_def empty_bundle_def Let_def)
qed

theorem snapshot_bundle_roundtrip_witness:
  "\<exists>bs. bundle_encode stored_codec example_json empty_bundle = Ok bs \<and> bundle_decode stored_codec example_json bs = Ok empty_bundle"
  using snapshot_bundle_roundtrip [OF example_json_laws, of stored_codec empty_bundle] bundle_new_validated(3) [OF empty_bundle_new(1)]
  by (auto simp: bundle_validate_ok)

text \<open>Reads of a bundle. A validated bundle is one sorted list of entries per segment of its manifest,
  in the manifest's order and of the extent each descriptor declares, and a batched read returns for every
  key the value of its newest version at or below the manifest's durable sequence over all segments.\<close>

lemma snapshot_bundle_reads:
  assumes "bundle_validate c j b = Ok ()"
  shows "\<exists>ess. list_all2 descriptor_rep (mf_segments (sb_source_manifest b)) ess \<and>
    (\<forall>keys. bundle_get_many c j b keys
       = Ok (map (\<lambda>key. Option.bind (newest_in ess key (mf_durable_sequence (sb_source_manifest b))) vv_value) keys)) \<and>
    (\<forall>key. bundle_get c j b key = Ok (Option.bind (newest_in ess key (mf_durable_sequence (sb_source_manifest b))) vv_value))"
proof -
  obtain segs where ok: "validated_segments c j 0 b = Ok segs" using assms by (auto simp: bundle_validate_ok)
  obtain ess where ess: "list_all2 (segment_rep c) segs ess" "list_all2 descriptor_rep (mf_segments (sb_source_manifest b)) ess"
    using bundle_segments_rep [OF ok] by blast
  with bundle_reads [OF ok ess(1)] show ?thesis by (intro exI [of _ ess]) (simp add: bundle_get_def)
qed

text \<open>The streamed export is the bundle. When the segment files hold the bytes of a bundle's segments and
  nothing fails, exporting to a new file writes exactly the encoding of the in-memory bundle, opens it
  with the same manifest, digest and length, and the opened file answers every batched read as the
  in-memory bundle does.\<close>

lemma snapshot_file_equivalence:
  assumes "json_laws j" and "bundle_new c j m ss = Ok b" and "stream_bounded j b"
    and "\<forall>s \<in> set ss. bt_get files (sd_id (ss_descriptor s)) = Some (ss_bytes s)"
    and "\<And>p. hook p = Ok ()" and "SNAPSHOT_BUNDLE_MAX_BYTES \<le> room"
  shows "\<exists>f bs. bundle_file_create c j room hook files m None = (Ok f, Some bs) \<and> bundle_encode c j b = Ok bs \<and>
    bf_source_manifest f = m \<and> bf_digest f = sb_digest b \<and> bf_length f = length bs \<and>
    (\<forall>keys. file_get_many c bs f keys = bundle_get_many c j b keys)"
proof -
  note b = bundle_new_validated [OF assms(2)]
  obtain segs where ok: "validated_segments c j 0 b = Ok segs" using b(3) by blast
  note v = validated_segments_ok [OF ok]
  have fits: "length (manifest_json j m) < 2 ^ 32" "length (sb_segments b) < 2 ^ 32"
    using v(7) b(1) unfolding content_bytes_ok [OF v(1)] by blast+
  have m: "manifest_json j m \<noteq> []" "length (manifest_json j m) \<le> MAX_MANIFEST_BYTES" "validate_manifest_contract j m = Ok ()"
    using assms(1,3) b(1) v(2-5) by (simp_all add: json_laws_def stream_bounded_def validate_manifest_contract_def flush_bounded_def)
  let ?bs = "bundle_content j (sb_source_manifest b) (sb_segments b) @ sb_digest b"
  have "export_contents j room hook files m (manifest_json j m) (word_of_nat (length (manifest_json j m))) (word_of_nat (length (mf_segments m))) = Ok ?bs"
    using export_contents_ok [OF ok assms(3,1,5,6), of files] assms(4) b v(5) by simp
  then have "bundle_file_create c j room hook files m None = (Ok (bundle_file j b), Some ?bs)"
    using m fits v(5) b(1) bundle_file_opens [OF assms(1) ok assms(3)] by (simp add: bundle_file_create_def u32_try_from_def Let_def)
  moreover have "bf_length (bundle_file j b) = length ?bs" by (simp add: bundle_file_def v(9))
  ultimately show ?thesis
    using bundle_decode_encode(1) [OF assms(1) ok] bundle_file_reads [OF ok assms(3)] b(1) by (auto simp: bundle_file_def)
qed

text \<open>A failed export leaves nothing behind. If the export reports an error raised while it writes the
  file, at any of its boundaries or for lack of space, then no file is left at the destination; an existing
  destination is never touched.\<close>

lemma failed_export_leaves_nothing:
  assumes "bundle_file_create c j room hook files m destination = (Err e, after)"
  shows "(destination \<noteq> None \<longrightarrow> after = destination) \<and>
    (after \<noteq> destination \<longrightarrow> (\<exists>contents. after = Some contents \<and> bundle_file_open c j contents = Err e \<and>
       export_contents j room hook files m (manifest_json j m) (word_of_nat (length (manifest_json j m)))
         (word_of_nat (length (mf_segments m))) = Ok contents))"
  using assms
  by (auto simp: bundle_file_create_def Let_def u32_try_from_eq_Some split: sum.splits if_splits option.splits)

end
