(* ===== verification/Database.thy ===== *)
theory Database
  imports Snapshot_Bundle
begin

text \<open>
  The single-writer database (\<^verbatim>\<open>crates/vyrm-kv/src/database.rs\<close>): log, memtable,
  segments and manifests composed. Its methods are computations on the record \<open>database\<close>,
  which holds the directory tree (\<open>disk\<close>) beside the in-memory state, so that what a method
  leaves on disk when it fails is part of its result. Every step that touches storage takes its outcome as
  an argument. The third-party code and the file formats below are parameters, the record \<open>env\<close>.
\<close>

section \<open>State\<close>

record env =
  en_codec :: codec
  en_crc :: crc_append
  en_json :: json

text \<open>The files under the root. A log is found by its starting sequence, which is its file name in
  decimal, padded to twenty digits.\<close>

record disk =
  dk_store :: manifest_store
  dk_wals :: "(u64, bytes) btree"
  dk_segments :: seg_files

text \<open>\<open>db_wal_start\<close> is the path of the open log; \<open>db_next_id\<close> is the process-wide counter that
  numbers opened segments in the shared block cache.\<close>

record database =
  db_disk :: disk
  db_manifest :: manifest
  db_wal :: wal_writer
  db_wal_start :: u64
  db_memtable :: memtable
  db_segments :: "segment list"
  db_block_cache :: block_cache
  db_next_id :: u64

type_synonym 'a db_action = "(database, 'a) action"

datatype failure_mode = Crash | StorageFull

datatype flush_boundary = WalSynced | SegmentSynced | SuccessorWalSynced | ManifestPublished

datatype compaction_boundary = CompactionSegmentSynced | CompactionManifestPublished

datatype install_boundary = SegmentsSynced | InstallSuccessorWalSynced | InstallManifestPublished

record snapshot =
  sn_sequence :: u64

record compaction_outcome =
  co_previous_manifest :: bytes
  co_manifest :: bytes
  co_input_segments :: nat
  co_output_segments :: nat
  co_input_versions :: u64
  co_output_versions :: u64
  co_protected_sequences :: "u64 list"

record gc_report =
  gr_retained_manifests :: "bytes list"
  gr_retained_segments :: "bytes list"
  gr_retained_wals :: "u64 list"
  gr_removed_manifests :: "bytes list"
  gr_removed_segments :: "bytes list"
  gr_removed_wals :: "u64 list"

text \<open>Outcomes of the storage steps of a flush: whether the log syncs, how the segment file and the two
  files of the manifest are published, and whether creating the successor log fails after some bytes of its
  header.\<close>

record flush_io =
  fi_sync :: bool
  fi_segment :: publish_outcome
  fi_successor :: "nat option"
  fi_publish :: "publish_outcome \<times> publish_outcome"

record install_io =
  ii_segments :: "nat \<Rightarrow> publish_outcome"
  ii_successor :: "nat option"
  ii_publish :: "publish_outcome \<times> publish_outcome"

record compact_io =
  ci_flush :: flush_io
  ci_segment :: publish_outcome
  ci_publish :: "publish_outcome \<times> publish_outcome"

section \<open>Parts of the state\<close>

definition on_store :: "(manifest_store, 'a) action \<Rightarrow> 'a db_action" where
  "on_store = czoom (\<lambda>db. dk_store (db_disk db)) (\<lambda>st db. db\<lparr>db_disk := (db_disk db)\<lparr>dk_store := st\<rparr>\<rparr>)"

definition on_segments :: "(seg_files, 'a) action \<Rightarrow> 'a db_action" where
  "on_segments = czoom (\<lambda>db. dk_segments (db_disk db)) (\<lambda>fs db. db\<lparr>db_disk := (db_disk db)\<lparr>dk_segments := fs\<rparr>\<rparr>)"

definition on_cache :: "'a cached \<Rightarrow> 'a db_action" where
  "on_cache = czoom db_block_cache (\<lambda>cache db. db\<lparr>db_block_cache := cache\<rparr>)"

definition fresh_id :: "u64 db_action" where
  "fresh_id = (\<lambda>db. (Ok (db_next_id db), db\<lparr>db_next_id := db_next_id db + 1\<rparr>))"

definition put_wal :: "u64 \<Rightarrow> bytes \<Rightarrow> database \<Rightarrow> database" where
  "put_wal start contents db = db\<lparr>db_disk := (db_disk db)\<lparr>dk_wals := bt_insert start contents (dk_wals (db_disk db))\<rparr>\<rparr>"

text \<open>The file behind the open log handle.\<close>

definition db_wal_file :: "database \<Rightarrow> bytes" where
  "db_wal_file db = (case bt_get (dk_wals (db_disk db)) (db_wal_start db) of None \<Rightarrow> [] | Some f \<Rightarrow> f)"

section \<open>Fault injection\<close>

fun failure_mode_str :: "failure_mode \<Rightarrow> string" where
  "failure_mode_str Crash = ''crash''"
| "failure_mode_str StorageFull = ''storage-full''"

fun flush_boundary_str :: "flush_boundary \<Rightarrow> string" where
  "flush_boundary_str WalSynced = ''flush.wal_synced''"
| "flush_boundary_str SegmentSynced = ''flush.segment_synced''"
| "flush_boundary_str SuccessorWalSynced = ''flush.successor_wal_synced''"
| "flush_boundary_str ManifestPublished = ''flush.manifest_published''"

fun compaction_boundary_str :: "compaction_boundary \<Rightarrow> string" where
  "compaction_boundary_str CompactionSegmentSynced = ''compaction.segment_synced''"
| "compaction_boundary_str CompactionManifestPublished = ''compaction.manifest_published''"

fun install_boundary_str :: "install_boundary \<Rightarrow> string" where
  "install_boundary_str SegmentsSynced = ''snapshot.segments_synced''"
| "install_boundary_str InstallSuccessorWalSynced = ''snapshot.successor_wal_synced''"
| "install_boundary_str InstallManifestPublished = ''snapshot.manifest_published''"

fun export_boundary_str :: "snapshot_export_boundary \<Rightarrow> string" where
  "export_boundary_str HeaderWritten = ''snapshot_export.header_written''"
| "export_boundary_str SegmentWritten = ''snapshot_export.segment_written''"
| "export_boundary_str FileSynced = ''snapshot_export.file_synced''"

definition inject_at :: "('b \<Rightarrow> string) \<Rightarrow> ('b \<times> failure_mode) option \<Rightarrow> 'b \<Rightarrow> unit kv_result" where
  "inject_at str configured reached =
     (case configured of
        Some (boundary, mode) \<Rightarrow>
          (if boundary = reached then Err (InjectedFailure (failure_mode_str mode) (str boundary)) else Ok ())
      | None \<Rightarrow> Ok ())"

definition inject_failure :: "(flush_boundary \<times> failure_mode) option \<Rightarrow> flush_boundary \<Rightarrow> unit kv_result" where
  "inject_failure = inject_at flush_boundary_str"

definition inject_snapshot_install_failure :: "(install_boundary \<times> failure_mode) option \<Rightarrow> install_boundary \<Rightarrow> unit kv_result" where
  "inject_snapshot_install_failure = inject_at install_boundary_str"

definition inject_compaction_failure :: "(compaction_boundary \<times> failure_mode) option \<Rightarrow> compaction_boundary \<Rightarrow> unit kv_result" where
  "inject_compaction_failure = inject_at compaction_boundary_str"

section \<open>Creating and opening\<close>

text \<open>\<open>WalWriter::create_at\<close> on the log directory. The file is created before its header is
  written and synced; when that fails, what was written stays.\<close>

definition create_wal :: "env \<Rightarrow> nat option \<Rightarrow> u64 \<Rightarrow> disk \<Rightarrow> wal_writer kv_result \<times> disk" where
  "create_wal e io start d =
     (case wal_create_at (en_crc e) (bt_get (dk_wals d) start) start of
        Inl err \<Rightarrow> (Err err, d)
      | Inr (contents, w) \<Rightarrow>
          (case io of
             None \<Rightarrow> (Ok w, d\<lparr>dk_wals := bt_insert start contents (dk_wals d)\<rparr>)
           | Some n \<Rightarrow> (Err (Io StorageFault), d\<lparr>dk_wals := bt_insert start (take n contents) (dk_wals d)\<rparr>)))"

definition empty_disk :: disk where
  "empty_disk = \<lparr>dk_store = \<lparr>ms_current = None, ms_manifests = [], ms_checkpoints = []\<rparr>, dk_wals = [], dk_segments = []\<rparr>"

text \<open>\<open>create_with_block_cache\<close>: \<open>root\<close> is what the path holds, \<open>None\<close> when it
  does not exist or is an empty directory; \<open>next_id\<close> is the counter's value in this process.\<close>

definition db_create :: "env \<Rightarrow> disk option \<Rightarrow> nat option \<Rightarrow> publish_outcome \<times> publish_outcome \<Rightarrow> nat \<Rightarrow> u64
    \<Rightarrow> database kv_result \<times> disk" where
  "db_create e root wal_io io block_cache_bytes next_id =
     (case root of
        Some d \<Rightarrow> (Err (InvalidManifest ''new database path exists and is not an empty directory''), d)
      | None \<Rightarrow>
     (case manifest_new (en_json e) 1 None 0 0 1 [] of
        Inl err \<Rightarrow> (Err err, empty_disk)
      | Inr m \<Rightarrow>
          (case create_wal e wal_io 1 empty_disk of
             (Inl err, d) \<Rightarrow> (Err err, d)
           | (Inr w, d) \<Rightarrow>
               (case store_publish (en_json e) io m None (dk_store d) of
                  (Inl err, st) \<Rightarrow> (Err err, d\<lparr>dk_store := st\<rparr>)
                | (Inr _, st) \<Rightarrow>
                    (let d = d\<lparr>dk_store := st\<rparr> in
                     (Ok \<lparr>db_disk = d, db_manifest = m, db_wal = w, db_wal_start = 1, db_memtable = at_sequence 0,
                           db_segments = [], db_block_cache = new_block_cache block_cache_bytes, db_next_id = next_id\<rparr>, d))))))"

text \<open>The segment loop of \<open>open_with_block_cache\<close>.\<close>

definition open_manifest_segment :: "env \<Rightarrow> disk \<Rightarrow> segment_descriptor \<Rightarrow> u64 \<times> segment list \<Rightarrow> (u64 \<times> segment list) kv_result" where
  "open_manifest_segment e d expected = (\<lambda>(next_id, segments).
     rbind (ok_or (bt_get (dk_segments d) (sd_id expected)) (Io NotFound)) (\<lambda>bs.
     rbind (segment_open (en_codec e) next_id bs) (\<lambda>seg.
     let seg = seg\<lparr>seg_descriptor := (seg_descriptor seg)\<lparr>sd_level := sd_level expected\<rparr>\<rparr> in
     if seg_descriptor seg \<noteq> expected
     then Err (InvalidManifest ''segment does not match its manifest descriptor'')
     else Ok (next_id + 1, segments @ [seg]))))"

definition db_open :: "env \<Rightarrow> nat \<Rightarrow> u64 \<Rightarrow> disk \<Rightarrow> database kv_result" where
  "db_open e block_cache_bytes next_id d =
     rbind (store_current (en_json e) (dk_store d)) (\<lambda>current.
     rbind (ok_or current (InvalidManifest ''database has no CURRENT manifest'')) (\<lambda>(_, m).
     rbind (try_fold (open_manifest_segment e d) (mf_segments m) (next_id, [])) (\<lambda>(next_id, segments).
     rbind (ok_or (bt_get (dk_wals d) (mf_wal_start_sequence m)) (Io NotFound)) (\<lambda>log.
     rbind (recover_from (en_crc e) log (mf_wal_start_sequence m)) (\<lambda>recovery.
     case torn_tail recovery of
       Some offset \<Rightarrow> Err (TornTail offset)
     | None \<Rightarrow>
         rbind (mt_recover_from (batches recovery) (mf_durable_sequence m)) (\<lambda>table.
         rbind (wal_open_at (en_crc e) log (mf_wal_start_sequence m)) (\<lambda>w.
         Ok \<lparr>db_disk = d, db_manifest = m, db_wal = w, db_wal_start = mf_wal_start_sequence m, db_memtable = table,
              db_segments = segments, db_block_cache = new_block_cache block_cache_bytes, db_next_id = next_id\<rparr>)))))))"

section \<open>Writing\<close>

definition db_snapshot :: "database \<Rightarrow> snapshot" where
  "db_snapshot db = \<lparr>sn_sequence = mt_maximum_sequence (db_memtable db)\<rparr>"

text \<open>The append to the open log; \<open>io\<close> as in \<open>wal_append\<close>.\<close>

definition append_batch :: "env \<Rightarrow> nat option \<Rightarrow> write_batch \<Rightarrow> bytes \<Rightarrow> durability \<Rightarrow> append_receipt db_action" where
  "append_batch e io batch payload durability = (\<lambda>db.
     case wal_append_encoded_write_batch (en_crc e) io (db_wal_file db) (db_wal db) batch payload durability of
       (r, contents, w) \<Rightarrow> (r, (put_wal (db_wal_start db) contents db)\<lparr>db_wal := w\<rparr>))"

definition apply_to_memtable :: "(memtable \<Rightarrow> memtable kv_result) \<Rightarrow> unit db_action" where
  "apply_to_memtable f = (\<lambda>db.
     case f (db_memtable db) of
       Inl err \<Rightarrow> (Err err, db)
     | Inr table \<Rightarrow> (Ok (), db\<lparr>db_memtable := table\<rparr>))"

definition db_write :: "env \<Rightarrow> nat option \<Rightarrow> write_batch \<Rightarrow> durability \<Rightarrow> append_receipt db_action" where
  "db_write e io batch durability =
     cbind (clift (batch_encode batch)) (\<lambda>payload.
     cbind (append_batch e io batch payload durability) (\<lambda>receipt.
     cbind (apply_to_memtable (\<lambda>t. apply_write_batch t batch (ar_first_sequence receipt) (ar_last_sequence receipt))) (\<lambda>_.
     cok receipt)))"

definition db_write_owned :: "env \<Rightarrow> nat option \<Rightarrow> write_batch \<Rightarrow> durability \<Rightarrow> append_receipt db_action" where
  "db_write_owned e io batch durability =
     cbind (clift (batch_encode batch)) (\<lambda>payload.
     cbind (append_batch e io batch payload durability) (\<lambda>receipt.
     cbind (apply_to_memtable (\<lambda>t. apply_owned_write_batch t batch (ar_first_sequence receipt) (ar_last_sequence receipt))) (\<lambda>_.
     cok receipt)))"

definition db_sync :: "bool \<Rightarrow> u64 db_action" where
  "db_sync synced = (\<lambda>db. (wal_sync synced (db_wal db), db))"

section \<open>Flushing\<close>

definition write_segment :: "env \<Rightarrow> publish_outcome \<Rightarrow> memtable \<Rightarrow> segment db_action" where
  "write_segment e io table =
     cbind fresh_id (\<lambda>cache_id.
     cbind (on_segments (\<lambda>files. write_from_memtable (en_codec e) cache_id io files table)) (\<lambda>(seg, _).
     cok seg))"

text \<open>The successor log of a flush or an installation: an existing file is taken over only when it is
  an empty log.\<close>

definition successor_wal :: "env \<Rightarrow> nat option \<Rightarrow> kv_error \<Rightarrow> u64 \<Rightarrow> wal_writer db_action" where
  "successor_wal e io occupied start = (\<lambda>db.
     case bt_get (dk_wals (db_disk db)) start of
       Some log \<Rightarrow>
         (rbind (recover_from (en_crc e) log start) (\<lambda>recovery.
          if batches recovery \<noteq> [] \<or> torn_tail recovery \<noteq> None then Err occupied
          else wal_open_at (en_crc e) log start), db)
     | None \<Rightarrow> (case create_wal e io start (db_disk db) of (r, d) \<Rightarrow> (r, db\<lparr>db_disk := d\<rparr>)))"

definition next_generation :: "string \<Rightarrow> manifest \<Rightarrow> u64 kv_result" where
  "next_generation reason m = ok_or (checked_add (mf_generation m) 1) (InvalidManifest reason)"

definition flush_memtable_inner :: "env \<Rightarrow> flush_io \<Rightarrow> u64 \<Rightarrow> (flush_boundary \<times> failure_mode) option \<Rightarrow> manifest option db_action" where
  "flush_memtable_inner e io at failure =
     cbind (creads db_memtable) (\<lambda>table.
     if mt_version_count table = 0 then cbind (db_sync (fi_sync io)) (\<lambda>_. cok None)
     else
     cbind (db_sync (fi_sync io)) (\<lambda>seq.
     cbind (clift (inject_failure failure WalSynced)) (\<lambda>_.
     cbind (write_segment e (fi_segment io) table) (\<lambda>seg.
     cbind (clift (inject_failure failure SegmentSynced)) (\<lambda>_.
     cbind (clift (ok_or (checked_add seq 1) (InvalidBatch ''sequence overflow at flush''))) (\<lambda>next_seq.
     cbind (successor_wal e (fi_successor io) (Corruption 0 ''unpublished successor WAL contains data'') next_seq) (\<lambda>successor.
     cbind (clift (inject_failure failure SuccessorWalSynced)) (\<lambda>_.
     cbind (creads db_manifest) (\<lambda>m.
     cbind (clift (rbind (next_generation ''manifest generation overflow'' m) (\<lambda>generation.
              manifest_new (en_json e) generation (Some (mf_digest m)) at seq next_seq
                (mf_segments m @ [seg_descriptor seg])))) (\<lambda>next_m.
     cbind (on_store (store_publish (en_json e) (fi_publish io) next_m (Some (mf_digest m)))) (\<lambda>_.
     cbind (cmodify (\<lambda>db. db\<lparr>db_wal := successor, db_wal_start := next_seq, db_memtable := at_sequence seq,
              db_segments := db_segments db @ [seg], db_manifest := next_m\<rparr>)) (\<lambda>_.
     cbind (clift (inject_failure failure ManifestPublished)) (\<lambda>_.
     cok (Some next_m))))))))))))))"

definition flush_memtable :: "env \<Rightarrow> flush_io \<Rightarrow> u64 \<Rightarrow> manifest option db_action" where
  "flush_memtable e io at = flush_memtable_inner e io at None"

section \<open>Checkpoints\<close>

definition db_checkpoint :: "env \<Rightarrow> publish_outcome \<Rightarrow> bytes \<Rightarrow> u64 \<Rightarrow> checkpoint db_action" where
  "db_checkpoint e io name at = (\<lambda>db.
     on_store (store_checkpoint (en_json e) io name (mf_digest (db_manifest db)) at) db)"

definition db_checkpoints :: "env \<Rightarrow> database \<Rightarrow> checkpoint list kv_result" where
  "db_checkpoints e db = store_checkpoints (en_json e) (dk_store (db_disk db))"

definition db_release_checkpoint :: "bytes \<Rightarrow> bool db_action" where
  "db_release_checkpoint name = on_store (release_checkpoint name)"

section \<open>Snapshots\<close>

definition export_snapshot_bundle :: "env \<Rightarrow> flush_io \<Rightarrow> u64 \<Rightarrow> snapshot_bundle db_action" where
  "export_snapshot_bundle e io at =
     cbind (flush_memtable e io at) (\<lambda>_. \<lambda>db.
     (rbind (try_map (\<lambda>descriptor.
               rbind (ok_or (bt_get (dk_segments (db_disk db)) (sd_id descriptor)) (Io NotFound)) (\<lambda>bs.
               Ok \<lparr>ss_descriptor = descriptor, ss_bytes = bs\<rparr>)) (mf_segments (db_manifest db))) (\<lambda>segments.
      bundle_new (en_codec e) (en_json e) (db_manifest db) segments), db))"

text \<open>\<open>export_snapshot_file\<close> and \<open>export_snapshot_file_with_failure\<close>; the destination is a
  path outside the database.\<close>

definition export_snapshot_file_with :: "env \<Rightarrow> flush_io \<Rightarrow> u64 \<Rightarrow> nat \<Rightarrow> (snapshot_export_boundary \<times> failure_mode) option
    \<Rightarrow> bytes option \<Rightarrow> database \<Rightarrow> snapshot_bundle_file kv_result \<times> bytes option \<times> database" where
  "export_snapshot_file_with e io at room failure destination db =
     (case flush_memtable e io at db of
        (Inl err, db) \<Rightarrow> (Err err, destination, db)
      | (Inr _, db) \<Rightarrow>
          (case bundle_file_create (en_codec e) (en_json e) room (inject_at export_boundary_str failure)
                  (dk_segments (db_disk db)) (db_manifest db) destination of
             (r, destination) \<Rightarrow> (r, destination, db)))"

definition u64_max_of :: "u64 \<Rightarrow> u64 \<Rightarrow> u64" where
  "u64_max_of a b = (if a \<le> b then b else a)"

text \<open>Installing the segments of a bundle, given as descriptors with their bytes; a failure to read
  the bytes of one is part of the list.\<close>

definition install_segment :: "env \<Rightarrow> (nat \<Rightarrow> publish_outcome) \<Rightarrow> nat \<times> segment_descriptor \<times> bytes kv_result \<Rightarrow> segment list
    \<Rightarrow> segment list db_action" where
  "install_segment e io = (\<lambda>(index, descriptor, contents) imported.
     cbind (clift contents) (\<lambda>bs.
     cbind fresh_id (\<lambda>cache_id.
     cbind (on_segments (\<lambda>files. install_snapshot_bytes (en_codec e) cache_id (io index) files descriptor bs)) (\<lambda>seg.
     cok (imported @ [seg])))))"

definition install_image :: "env \<Rightarrow> install_io \<Rightarrow> manifest \<Rightarrow> (segment_descriptor \<times> bytes kv_result) list \<Rightarrow> u64
    \<Rightarrow> (install_boundary \<times> failure_mode) option \<Rightarrow> manifest db_action" where
  "install_image e io source contents at failure =
     cbind (creads (\<lambda>db. (db_snapshot db, db_manifest db))) (\<lambda>(current, local).
     let source_sequence = mf_durable_sequence source;
         current_sequence = sn_sequence current in
     if source_sequence = current_sequence \<and> mf_segments local = mf_segments source then cok local
     else if source_sequence \<le> current_sequence
     then clift (Err (InvalidManifest ''snapshot sequence does not advance local sequence''))
     else
     cbind (cfor (List.enumerate 0 contents) (install_segment e (ii_segments io)) []) (\<lambda>imported.
     cbind (clift (inject_snapshot_install_failure failure SegmentsSynced)) (\<lambda>_.
     cbind (clift (ok_or (checked_add source_sequence 1) (InvalidManifest ''snapshot sequence overflowed''))) (\<lambda>next_seq.
     cbind (successor_wal e (ii_successor io) (InvalidManifest ''snapshot continuation WAL already contains data'') next_seq) (\<lambda>successor.
     cbind (clift (inject_snapshot_install_failure failure InstallSuccessorWalSynced)) (\<lambda>_.
     cbind (creads db_manifest) (\<lambda>m.
     let previous = mf_digest m in
     cbind (clift (rbind (next_generation ''manifest generation overflowed'' m) (\<lambda>generation.
              manifest_new (en_json e) generation (Some previous)
                (u64_max_of (u64_max_of at (mf_created_at m)) (mf_created_at source)) source_sequence next_seq (mf_segments source)))) (\<lambda>next_m.
     cbind (on_store (store_publish (en_json e) (ii_publish io) next_m (Some previous))) (\<lambda>_.
     cbind (cmodify (\<lambda>db. db\<lparr>db_wal := successor, db_wal_start := next_seq, db_memtable := at_sequence source_sequence,
              db_segments := imported, db_manifest := next_m\<rparr>)) (\<lambda>_.
     cbind (clift (inject_snapshot_install_failure failure InstallManifestPublished)) (\<lambda>_.
     cok next_m)))))))))))"

definition install_snapshot_bundle_inner :: "env \<Rightarrow> install_io \<Rightarrow> snapshot_bundle \<Rightarrow> u64
    \<Rightarrow> (install_boundary \<times> failure_mode) option \<Rightarrow> manifest db_action" where
  "install_snapshot_bundle_inner e io bundle at failure =
     cbind (clift (bundle_validate (en_codec e) (en_json e) bundle)) (\<lambda>_.
     install_image e io (sb_source_manifest bundle)
       (map (\<lambda>s. (ss_descriptor s, Ok (ss_bytes s))) (sb_segments bundle)) at failure)"

definition install_snapshot_file_inner :: "env \<Rightarrow> install_io \<Rightarrow> bytes \<Rightarrow> snapshot_bundle_file \<Rightarrow> u64
    \<Rightarrow> (install_boundary \<times> failure_mode) option \<Rightarrow> manifest db_action" where
  "install_snapshot_file_inner e io contents bundle at failure =
     install_image e io (bf_source_manifest bundle)
       (map (\<lambda>i. (fs_descriptor (bf_segments bundle ! i), bundle_segment_bytes contents bundle i)) [0..<length (bf_segments bundle)])
       at failure"

section \<open>Compaction\<close>

definition merge_version :: "versioned_value \<Rightarrow> (u64, bytes option) btree \<Rightarrow> (u64, bytes option) btree kv_result" where
  "merge_version version target =
     (case bt_get target (vv_sequence version) of
        Some existing \<Rightarrow>
          (if existing \<noteq> vv_value version then Err (InvalidSegment ''segments disagree for a sequence'') else Ok target)
      | None \<Rightarrow> Ok (bt_insert (vv_sequence version) (vv_value version) target))"

definition merge_group :: "bytes \<times> versioned_value list \<Rightarrow> (bytes, (u64, bytes option) btree) btree
    \<Rightarrow> (bytes, (u64, bytes option) btree) btree kv_result" where
  "merge_group = (\<lambda>(key, versions) merged.
     rbind (try_fold merge_version versions (case bt_get merged key of None \<Rightarrow> [] | Some target \<Rightarrow> target)) (\<lambda>target.
     Ok (bt_insert key target merged)))"

definition merge_segment :: "env \<Rightarrow> segment \<Rightarrow> (bytes, (u64, bytes option) btree) btree
    \<Rightarrow> (bytes, (u64, bytes option) btree) btree db_action" where
  "merge_segment e seg merged =
     cbind (on_cache (seg_all_versions (en_codec e) seg)) (\<lambda>groups. clift (try_fold merge_group groups merged))"

definition select_protected :: "u64 list \<Rightarrow> (u64, bytes option) btree \<Rightarrow> (u64, bytes option) btree" where
  "select_protected protected versions =
     fold (\<lambda>(seq, val). bt_insert seq val) (List.map_filter (\<lambda>seq. bt_floor seq versions) protected) []"

definition retain_key :: "u64 list \<Rightarrow> bytes \<times> (u64, bytes option) btree \<Rightarrow> (bytes, versioned_value list) btree
    \<Rightarrow> (bytes, versioned_value list) btree" where
  "retain_key protected = (\<lambda>(key, versions) retained.
     let selected = select_protected protected versions in
     if list_all (\<lambda>(_, val). val = None) selected then retained
     else bt_insert key (map (\<lambda>(seq, val). \<lparr>vv_sequence = seq, vv_value = val\<rparr>) selected) retained)"

definition protected_set :: "u64 \<Rightarrow> snapshot list \<Rightarrow> u64 list" where
  "protected_set durable protected =
     bs_insert durable (bs_collect (filter (\<lambda>s. s \<le> durable) (map sn_sequence protected)))"

definition u8_saturating_succ :: "u8 \<Rightarrow> u8" where
  "u8_saturating_succ l = saturating_add l 1"

definition max_level :: "segment list \<Rightarrow> u8" where
  "max_level segments = fold (\<lambda>seg l. max (sd_level (seg_descriptor seg)) l) segments 0"

definition compacted_segments :: "env \<Rightarrow> publish_outcome \<Rightarrow> (bytes, versioned_value list) btree \<Rightarrow> u64 \<Rightarrow> segment list db_action" where
  "compacted_segments e io retained durable =
     (if retained = [] then cok []
      else
      cbind (clift (from_versions retained durable)) (\<lambda>table.
      cbind (write_segment e io table) (\<lambda>seg.
      cbind (creads db_segments) (\<lambda>segments.
      cok [seg\<lparr>seg_descriptor := (seg_descriptor seg)\<lparr>sd_level := u8_saturating_succ (max_level segments)\<rparr>\<rparr>]))))"

definition compact_inner :: "env \<Rightarrow> compact_io \<Rightarrow> snapshot list \<Rightarrow> u64 \<Rightarrow> (compaction_boundary \<times> failure_mode) option
    \<Rightarrow> compaction_outcome option db_action" where
  "compact_inner e io protected at failure =
     cbind (flush_memtable e (ci_flush io) at) (\<lambda>_.
     cbind (creads (\<lambda>db. (db_manifest db, db_segments db))) (\<lambda>(m, segments).
     if segments = [] then cok None
     else
     let durable = mf_durable_sequence m;
         protected_sequences = protected_set durable protected in
     cbind (cfor segments (merge_segment e) []) (\<lambda>merged.
     let input_versions = word_of_nat (sum_list (map (\<lambda>(_, versions). length versions) merged));
         retained = fold (retain_key protected_sequences) merged [];
         output_versions = word_of_nat (sum_list (map (\<lambda>(_, versions). length versions) retained)) in
     cbind (compacted_segments e (ci_segment io) retained durable) (\<lambda>compacted.
     cbind (clift (inject_compaction_failure failure CompactionSegmentSynced)) (\<lambda>_.
     cbind (clift (rbind (next_generation ''manifest generation overflow'' m) (\<lambda>generation.
              manifest_new (en_json e) generation (Some (mf_digest m)) at durable (mf_wal_start_sequence m)
                (map seg_descriptor compacted)))) (\<lambda>next_m.
     cbind (on_store (store_publish (en_json e) (ci_publish io) next_m (Some (mf_digest m)))) (\<lambda>_.
     cbind (cmodify (\<lambda>db. db\<lparr>db_segments := compacted, db_manifest := next_m\<rparr>)) (\<lambda>_.
     cbind (clift (inject_compaction_failure failure CompactionManifestPublished)) (\<lambda>_.
     cok (Some \<lparr>co_previous_manifest = mf_digest m, co_manifest = mf_digest next_m,
                 co_input_segments = length segments, co_output_segments = length compacted,
                 co_input_versions = input_versions, co_output_versions = output_versions,
                 co_protected_sequences = protected_sequences\<rparr>))))))))))"

section \<open>Garbage collection\<close>

definition retain_checkpoint :: "env \<Rightarrow> manifest_store \<Rightarrow> checkpoint \<Rightarrow> (bytes, manifest) btree \<Rightarrow> (bytes, manifest) btree kv_result" where
  "retain_checkpoint e st c manifests =
     rbind (store_load (en_json e) st (ck_manifest c)) (\<lambda>m.
     Ok (case bt_get manifests (ck_manifest c) of None \<Rightarrow> bt_insert (ck_manifest c) m manifests | Some _ \<Rightarrow> manifests))"

text \<open>\<open>unreachable_files\<close> on one directory: the names that are not retained, in name order.\<close>

definition unreachable_files :: "('k, bytes) btree \<Rightarrow> 'k list \<Rightarrow> 'k list" where
  "unreachable_files directory retained = filter (\<lambda>name. name \<notin> set retained) (map fst directory)"

text \<open>\<open>remove_candidates\<close>; removing a file fails once \<open>budget\<close> removals have succeeded.\<close>

fun remove_candidates :: "'k list \<Rightarrow> ('k, bytes) btree \<Rightarrow> nat \<Rightarrow> 'k list \<Rightarrow> 'k list kv_result \<times> ('k, bytes) btree \<times> nat" where
  "remove_candidates [] directory budget removed = (Ok removed, directory, budget)"
| "remove_candidates (name # names) directory budget removed =
     (case budget of
        0 \<Rightarrow> (Err (Io StorageFault), directory, 0)
      | Suc b \<Rightarrow> remove_candidates names (bt_remove name directory) b (removed @ [name]))"

definition garbage_collect :: "env \<Rightarrow> nat \<Rightarrow> gc_report db_action" where
  "garbage_collect e budget = (\<lambda>db.
     let d = db_disk db; st = dk_store d in
     case rbind (store_checkpoints (en_json e) st) (\<lambda>cs.
            try_fold (retain_checkpoint e st) cs [(mf_digest (db_manifest db), db_manifest db)]) of
       Inl err \<Rightarrow> (Err err, db)
     | Inr manifests \<Rightarrow>
         (let retained_manifests = map fst manifests;
              retained_segments = bs_collect (concat (map (\<lambda>(_, m). map sd_id (mf_segments m)) manifests));
              retained_wals = bs_collect (map (\<lambda>(_, m). mf_wal_start_sequence m) manifests) in
          case remove_candidates (unreachable_files (ms_manifests st) retained_manifests) (ms_manifests st) budget [] of
            (r1, manifest_files, budget) \<Rightarrow>
              (let d = d\<lparr>dk_store := st\<lparr>ms_manifests := manifest_files\<rparr>\<rparr> in
               case r1 of Inl err \<Rightarrow> (Err err, db\<lparr>db_disk := d\<rparr>) | Inr removed_manifests \<Rightarrow>
          (case remove_candidates (unreachable_files (dk_segments d) retained_segments) (dk_segments d) budget [] of
            (r2, segment_files, budget) \<Rightarrow>
              (let d = d\<lparr>dk_segments := segment_files\<rparr> in
               case r2 of Inl err \<Rightarrow> (Err err, db\<lparr>db_disk := d\<rparr>) | Inr removed_segments \<Rightarrow>
          (case remove_candidates (unreachable_files (dk_wals d) retained_wals) (dk_wals d) budget [] of
            (r3, wal_files, budget) \<Rightarrow>
              (let d = d\<lparr>dk_wals := wal_files\<rparr> in
               case r3 of Inl err \<Rightarrow> (Err err, db\<lparr>db_disk := d\<rparr>) | Inr removed_wals \<Rightarrow>
               (Ok \<lparr>gr_retained_manifests = retained_manifests, gr_retained_segments = retained_segments,
                     gr_retained_wals = retained_wals, gr_removed_manifests = removed_manifests,
                     gr_removed_segments = removed_segments, gr_removed_wals = removed_wals\<rparr>, db\<lparr>db_disk := d\<rparr>))))))))"

section \<open>Reading\<close>

definition better_version :: "segment_version option \<Rightarrow> u64 \<times> bytes option \<Rightarrow> u64 \<times> bytes option" where
  "better_version version = (\<lambda>(best_sequence, best_value).
     case version of
       None \<Rightarrow> (best_sequence, best_value)
     | Some v \<Rightarrow> (if sv_sequence v > best_sequence then (sv_sequence v, sv_value v) else (best_sequence, best_value)))"

definition db_get :: "env \<Rightarrow> bytes \<Rightarrow> snapshot \<Rightarrow> bytes option db_action" where
  "db_get e key at =
     cbind (creads (\<lambda>db. (mt_get_version (db_memtable db) key (sn_sequence at), db_segments db))) (\<lambda>(version, segments).
     case version of
       Some v \<Rightarrow> cok (vv_value v)
     | None \<Rightarrow>
         cbind (cfor segments (\<lambda>seg best.
                  cbind (on_cache (seg_get_version (en_codec e) seg key (sn_sequence at))) (\<lambda>version.
                  cok (better_version version best))) (0, None)) (\<lambda>(_, best_value).
         cok best_value))"

text \<open>One segment of \<open>get_many\<close>: the positions in order, each with the version found.\<close>

definition better_position :: "nat list \<Rightarrow> nat \<times> segment_version option \<Rightarrow> u64 list \<times> bytes option list \<Rightarrow> u64 list \<times> bytes option list" where
  "better_position unresolved = (\<lambda>(position, version) (best_sequences, values).
     case version of
       None \<Rightarrow> (best_sequences, values)
     | Some v \<Rightarrow>
         (if sv_sequence v > best_sequences ! position
          then (best_sequences[position := sv_sequence v], values[unresolved ! position := sv_value v])
          else (best_sequences, values)))"

definition get_many_merged :: "env \<Rightarrow> nat list \<Rightarrow> bytes list \<Rightarrow> u64 \<Rightarrow> segment list \<Rightarrow> bytes option list \<Rightarrow> bytes option list db_action" where
  "get_many_merged e unresolved unresolved_keys seq segments vals =
     cbind (cfor segments (\<lambda>seg best.
              cbind (on_cache (seg_get_versions (en_codec e) seg unresolved_keys seq)) (\<lambda>found.
              cok (fold (better_position unresolved) (List.enumerate 0 found) best)))
              (replicate (length unresolved) 0, vals)) (\<lambda>(_, vals).
     cok vals)"

definition db_get_many :: "env \<Rightarrow> bytes list \<Rightarrow> snapshot \<Rightarrow> bytes option list db_action" where
  "db_get_many e keys at =
     cbind (creads (\<lambda>db. (db_memtable db, db_segments db))) (\<lambda>(table, segments).
     let versions = map (\<lambda>key. mt_get_version table key (sn_sequence at)) keys;
         vals = map (\<lambda>version. case version of Some v \<Rightarrow> vv_value v | None \<Rightarrow> None) versions;
         unresolved = filter (\<lambda>i. versions ! i = None) [0..<length keys];
         unresolved_keys = map (\<lambda>i. keys ! i) unresolved in
     if unresolved = [] then cok vals
     else if length segments = 1 \<and> mt_version_count table = 0 then
       cbind (on_cache (seg_get_versions (en_codec e) (segments ! 0) unresolved_keys (sn_sequence at))) (\<lambda>found.
       cok (fold (\<lambda>(position, version) vals. vals[unresolved ! position := Option.bind version sv_value])
              (List.enumerate 0 found) vals))
     else get_many_merged e unresolved unresolved_keys (sn_sequence at) segments vals)"

definition keep_newer :: "bytes \<times> versioned_value \<Rightarrow> (bytes, versioned_value) btree \<Rightarrow> (bytes, versioned_value) btree" where
  "keep_newer = (\<lambda>(key, version) visible.
     if (case bt_get visible key of None \<Rightarrow> True | Some current \<Rightarrow> vv_sequence version > vv_sequence current)
     then bt_insert key version visible else visible)"

definition db_scan :: "env \<Rightarrow> bytes \<Rightarrow> bytes option \<Rightarrow> snapshot \<Rightarrow> (bytes \<times> bytes) list db_action" where
  "db_scan e start end' at =
     cbind (creads (\<lambda>db. (db_memtable db, db_segments db))) (\<lambda>(table, segments).
     if length segments = 1 \<and> mt_version_count table = 0
     then on_cache (seg_scan (en_codec e) (segments ! 0) start end' (sn_sequence at))
     else
     cbind (cfor segments (\<lambda>seg visible.
              cbind (on_cache (visible_from (en_codec e) seg start end' (sn_sequence at))) (\<lambda>found.
              cok (fold keep_newer found visible))) []) (\<lambda>visible.
     let visible = fold (\<lambda>(key, version) visible.
                          if key < start \<or> (case end' of None \<Rightarrow> False | Some end' \<Rightarrow> key \<ge> end') then visible
                          else keep_newer (key, version) visible)
                     (mt_visible_versions table (sn_sequence at)) visible in
     cok (List.map_filter (\<lambda>(key, version). map_option (\<lambda>val. (key, val)) (vv_value version)) visible)))"

end
