(* ===== verification/Database_State.thy ===== *)
theory Database_State
  imports Database
begin

text \<open>
  What a database state means. The abstract state is the history \<open>h\<close> of all operations ever
  acknowledged, numbered from 1; a read at sequence \<open>r\<close> is specified by \<open>replay\<close> of the first
  \<open>r\<close> of them. \<open>R\<close> is the set of sequences at which reads are exact: compaction gives up
  the others. \<open>disk_inv\<close> says that a directory tree can be opened as \<open>(h, R)\<close>,
  \<open>db_inv\<close> that an open database is in that state.
\<close>

section \<open>Histories\<close>

definition sound_entries :: "entry set \<Rightarrow> mutation list \<Rightarrow> bool" where
  "sound_entries E h \<longleftrightarrow> (\<forall>(key, v) \<in> E. vv_sequence v \<noteq> 0 \<and> unat (vv_sequence v) \<le> length h \<and>
     mutation_key (h ! (unat (vv_sequence v) - 1)) = key \<and> mutation_value (h ! (unat (vv_sequence v) - 1)) = vv_value v)"

definition seg_state :: "entry list list \<Rightarrow> mutation list \<Rightarrow> u64 \<Rightarrow> u64 set \<Rightarrow> bool" where
  "seg_state ess h D R \<longleftrightarrow> (\<forall>es \<in> set ess. entries_sorted es) \<and> unat D \<le> length h \<and> {D..} \<subseteq> R \<and>
     sound_entries (set (concat ess)) (take (unat D) h) \<and>
     (\<forall>r \<in> R. r \<le> D \<longrightarrow> (\<forall>key. Option.bind (newest_in ess key r) vv_value = replay (take (unat r) h) key))"

lemma sound_entriesD:
  assumes "sound_entries E h" and "(key, v) \<in> E"
  shows "vv_sequence v \<noteq> 0" and "unat (vv_sequence v) \<le> length h" and "mutation_key (h ! (unat (vv_sequence v) - 1)) = key"
    and "mutation_value (h ! (unat (vv_sequence v) - 1)) = vv_value v"
  using assms unfolding sound_entries_def by auto

lemma sound_entries_agree: "sound_entries E h \<Longrightarrow> entries_agree E"
  unfolding entries_agree_def using sound_entriesD(4) by (intro allI impI versioned_value.equality) (metis, metis, simp)

lemma seg_state_agree: "seg_state ess h D R \<Longrightarrow> entries_agree (set (concat ess))"
  unfolding seg_state_def by (blast intro: sound_entries_agree)

lemma seg_state_bound:
  assumes "seg_state ess h D R" and "(key, v) \<in> set (concat ess)"
  shows "vv_sequence v \<le> D" and "vv_sequence v \<noteq> 0"
proof -
  have "vv_sequence v \<noteq> 0 \<and> unat (vv_sequence v) \<le> length (take (unat D) h)"
    using assms unfolding seg_state_def sound_entries_def by fast
  then show "vv_sequence v \<le> D" "vv_sequence v \<noteq> 0" by (simp_all add: word_le_nat_alt)
qed

lemma newest_in_above:
  assumes "seg_state ess h D R" and "D \<le> r"
  shows "newest_in ess key r = newest_in ess key D"
proof -
  have sorted: "\<forall>es \<in> set ess. entries_sorted es" using assms(1) by (simp add: seg_state_def)
  note eq = newest_in_eq_Some [OF sorted seg_state_agree [OF assms(1)], of key]
  have "newest_in ess key r = Some v \<longleftrightarrow> newest_in ess key D = Some v" for v
    unfolding eq using seg_state_bound(1) [OF assms(1), of key] assms(2) by (meson order_trans)
  then show ?thesis by (metis not_Some_eq)
qed

text \<open>Permuting the segments does not matter.\<close>

lemma seg_state_perm:
  assumes "seg_state ess h D R" and "mset ess' = mset ess"
  shows "seg_state ess' h D R" and "newest_in ess' key r = newest_in ess key r"
proof -
  have sets: "set ess' = set ess" using assms(2) by (rule mset_eq_setD)
  then have "set (concat ess') = set (concat ess)" by simp
  note facts = sets this
  have eq: "newest_in ess' key r = newest_in ess key r" for key r
    using assms(1) facts by (intro newest_in_cong seg_state_agree [OF assms(1)]) (auto simp: seg_state_def)
  with assms(1) facts show "seg_state ess' h D R" unfolding seg_state_def by simp
  show "newest_in ess' key r = newest_in ess key r" by (rule eq)
qed

section \<open>The memtable over the segments\<close>

lemma replay_append:
  "replay (xs @ ys) key = (if key \<in> mutation_key ` set ys then replay ys key else replay xs key)"
proof (induction ys rule: rev_induct)
  case (snoc y ys)
  then show ?case
    by (simp add: replay_snoc replay_op_apply flip: append_assoc)
qed simp

lemma newest_at_versions_None:
  assumes "base + length ops < 2 ^ 64"
  shows "newest_at r (versions_of base ops key) = None \<longleftrightarrow> key \<notin> mutation_key ` set (take (unat r - base) ops)"
  using assms
proof (induction ops rule: rev_induct)
  case (snoc op ops)
  have le: "word_of_nat (Suc (base + length ops)) \<le> r \<longleftrightarrow> Suc (base + length ops) \<le> unat r"
    using snoc.prems by (simp only: word_le_nat_alt unat_u64_of_nat length_append_singleton add_Suc_right)
  show ?case
  proof (cases "Suc (base + length ops) \<le> unat r")
    case True
    then have "take (unat r - base) ops = ops" "take (unat r - base) (ops @ [op]) = ops @ [op]" by simp_all
    with snoc le True show ?thesis by (auto simp: versions_of_snoc newest_at_snoc)
  next
    case False
    with snoc le show ?thesis by (auto simp: versions_of_snoc newest_at_snoc)
  qed
qed simp

text \<open>What a read of memtable over segments specifies: the memtable first, then the newest of the segments.\<close>

definition layered_read :: "memtable \<Rightarrow> entry list list \<Rightarrow> bytes \<Rightarrow> u64 \<Rightarrow> bytes option" where
  "layered_read t ess key r = (case mt_get_version t key r of
     Some v \<Rightarrow> vv_value v
   | None \<Rightarrow> Option.bind (newest_in ess key r) vv_value)"

lemma layered_read_replay:
  assumes st: "seg_state ess h D R" and rep: "mt_rep (unat D) (drop (unat D) h) t" and r: "r \<in> R"
  shows "layered_read t ess key r = replay (take (unat r) h) key"
proof -
  let ?ops = "drop (unat D) h"
  note bound = mt_rep_bound [OF rep]
  have D: "unat D \<le> length h" using st by (simp add: seg_state_def)
  have split: "take (unat r) h = take (min (unat r) (unat D)) h @ take (unat r - unat D) ?ops"
    using append_take_drop_id [of "unat D" "take (unat r) h"]
    by (cases "unat r \<le> unat D") (simp_all add: min_def take_drop)
  have v: "mt_get_version t key r = newest_at r (versions_of (unat D) ?ops key)" by (rule mt_get_version_rep [OF rep])
  have seg: "Option.bind (newest_in ess key r) vv_value = replay (take (min (unat r) (unat D)) h) key"
  proof (cases "r \<le> D")
    case True
    then show ?thesis using st r by (simp add: seg_state_def word_le_nat_alt min_def)
  next
    case False
    then have "D \<le> r" by simp
    moreover have "D \<in> R" using st by (auto simp: seg_state_def)
    ultimately show ?thesis
      using st newest_in_above [OF st, of r key] by (auto simp: seg_state_def word_le_nat_alt min_def)
  qed
  show ?thesis
  proof (cases "newest_at r (versions_of (unat D) ?ops key)")
    case None
    then have "key \<notin> mutation_key ` set (take (unat r - unat D) ?ops)"
      using newest_at_versions_None [OF bound] by blast
    then show ?thesis using seg by (simp add: layered_read_def v None split replay_append)
  next
    case (Some w)
    then have "key \<in> mutation_key ` set (take (unat r - unat D) ?ops)"
      using newest_at_versions_None [OF bound, of r key] by auto
    moreover have "vv_value w = replay (take (unat r - unat D) ?ops) key"
      using newest_at_replay [OF bound, of r key] Some by simp
    ultimately show ?thesis by (simp add: layered_read_def v Some split replay_append)
  qed
qed

section \<open>Invariants\<close>

text \<open>A segment file that serves the entries \<open>es\<close> under the descriptor \<open>d\<close>.\<close>

definition disk_segment :: "codec \<Rightarrow> seg_files \<Rightarrow> segment_descriptor \<Rightarrow> entry list \<Rightarrow> bool" where
  "disk_segment c files d es \<longleftrightarrow> (\<exists>bs seg. bt_get files (sd_id d) = Some bs \<and> segment_open c 0 bs = Ok seg \<and>
     (seg_descriptor seg)\<lparr>sd_level := sd_level d\<rparr> = d \<and> segment_rep c seg es)"

text \<open>A logged batch whose sequence range is that of its operations.\<close>

definition batch_ok :: "wal_batch \<Rightarrow> bool" where
  "batch_ok b \<longleftrightarrow> (\<exists>batch. batch_decode (wb_payload b) = Ok batch \<and> operations batch \<noteq> [] \<and>
     unat (wb_last_sequence b) + 1 = unat (wb_first_sequence b) + length (operations batch))"

definition wal_operations :: "wal_batch list \<Rightarrow> mutation list" where
  "wal_operations bs = concat (map (\<lambda>b. case batch_decode (wb_payload b) of Inl _ \<Rightarrow> [] | Inr batch \<Rightarrow> operations batch) bs)"

text \<open>The manifest \<open>m\<close> is current and, with the segment files, stands for the first
  \<open>mf_durable_sequence m\<close> operations of \<open>h\<close>.\<close>

definition manifest_state :: "env \<Rightarrow> disk \<Rightarrow> manifest \<Rightarrow> mutation list \<Rightarrow> u64 set \<Rightarrow> (segment_descriptor \<times> entry list) list \<Rightarrow> bool" where
  "manifest_state e d m h R ps \<longleftrightarrow>
     (\<exists>p. store_current (en_json e) (dk_store d) = Ok (Some (p, m)) \<and> cp_manifest p = mf_digest m) \<and>
     mf_segments m = map fst ps \<and> (\<forall>(dsc, es) \<in> set ps. disk_segment (en_codec e) (dk_segments d) dsc es) \<and>
     mf_durable_sequence m \<noteq> u64_max \<and> mf_wal_start_sequence m = mf_durable_sequence m + 1 \<and>
     seg_state (map snd ps) h (mf_durable_sequence m) R \<and> (\<forall>op \<in> set h. mutation_key op \<noteq> [])"

text \<open>The log holds the rest of the history; behind a failed write it also holds some bytes of that write's
  frame.\<close>

definition log_state :: "crc_append \<Rightarrow> u64 \<Rightarrow> mutation list \<Rightarrow> bytes \<Rightarrow> wal_writer \<Rightarrow> wal_batch list \<Rightarrow> bool" where
  "log_state crc D h log w acked \<longleftrightarrow> wal_inv crc (D + 1) log w acked \<and> (\<forall>b \<in> set acked. batch_ok b) \<and>
     drop (unat D) h = wal_operations acked \<and>
     (poisoned w \<longrightarrow> (\<exists>b n. wal_chain (D + 1) (acked @ [b]) \<and> batch_ok b \<and> log = wal_file crc acked @ take n (frame_bytes crc b)))"

definition disk_inv :: "env \<Rightarrow> disk \<Rightarrow> mutation list \<Rightarrow> u64 set \<Rightarrow> bool" where
  "disk_inv e d h R \<longleftrightarrow> (\<exists>m ps log w acked. manifest_state e d m h R ps \<and>
     bt_get (dk_wals d) (mf_wal_start_sequence m) = Some log \<and> \<not> poisoned w \<and>
     log_state (en_crc e) (mf_durable_sequence m) h log w acked)"

text \<open>The shared cache agrees with what the open segments decode to, and no block is cached under a number
  that has not been given out.\<close>

definition cache_state :: "codec \<Rightarrow> segment list \<Rightarrow> block_cache \<Rightarrow> u64 \<Rightarrow> block_truth \<Rightarrow> bool" where
  "cache_state c segments cache next_id truth \<longleftrightarrow> cache_coherent truth cache \<and> (\<forall>seg \<in> set segments. knows truth c seg) \<and>
     (\<forall>n i. next_id \<le> n \<longrightarrow> \<not> is_ok (truth n i))"

definition open_segments :: "codec \<Rightarrow> segment list \<Rightarrow> (segment_descriptor \<times> entry list) list \<Rightarrow> bool" where
  "open_segments c segments ps \<longleftrightarrow>
     list_all2 (\<lambda>seg p. seg_descriptor seg = fst p \<and> segment_rep c seg (snd p)) segments ps"

definition db_inv :: "env \<Rightarrow> database \<Rightarrow> mutation list \<Rightarrow> u64 set \<Rightarrow> bool" where
  "db_inv e db h R \<longleftrightarrow> (\<exists>ps ps' acked truth. manifest_state e (db_disk db) (db_manifest db) h R ps \<and>
     db_wal_start db = mf_wal_start_sequence (db_manifest db) \<and>
     bt_get (dk_wals (db_disk db)) (db_wal_start db) = Some (db_wal_file db) \<and>
     log_state (en_crc e) (mf_durable_sequence (db_manifest db)) h (db_wal_file db) (db_wal db) acked \<and>
     mt_rep (unat (mf_durable_sequence (db_manifest db))) (drop (unat (mf_durable_sequence (db_manifest db))) h) (db_memtable db) \<and>
     mset ps' = mset ps \<and> open_segments (en_codec e) (db_segments db) ps' \<and>
     cache_state (en_codec e) (db_segments db) (db_block_cache db) (db_next_id db) truth)"

lemma db_invE:
  assumes "db_inv e db h R"
  obtains ps ps' acked truth where "manifest_state e (db_disk db) (db_manifest db) h R ps"
    "db_wal_start db = mf_wal_start_sequence (db_manifest db)"
    "bt_get (dk_wals (db_disk db)) (db_wal_start db) = Some (db_wal_file db)"
    "log_state (en_crc e) (mf_durable_sequence (db_manifest db)) h (db_wal_file db) (db_wal db) acked"
    "mt_rep (unat (mf_durable_sequence (db_manifest db))) (drop (unat (mf_durable_sequence (db_manifest db))) h) (db_memtable db)"
    "mset ps' = mset ps" "open_segments (en_codec e) (db_segments db) ps'"
    "cache_state (en_codec e) (db_segments db) (db_block_cache db) (db_next_id db) truth"
  using assms unfolding db_inv_def by blast

lemma db_invI:
  assumes "manifest_state e (db_disk db) (db_manifest db) h R ps"
    "db_wal_start db = mf_wal_start_sequence (db_manifest db)"
    "bt_get (dk_wals (db_disk db)) (db_wal_start db) = Some (db_wal_file db)"
    "log_state (en_crc e) (mf_durable_sequence (db_manifest db)) h (db_wal_file db) (db_wal db) acked"
    "mt_rep (unat (mf_durable_sequence (db_manifest db))) (drop (unat (mf_durable_sequence (db_manifest db))) h) (db_memtable db)"
    "mset ps' = mset ps" "open_segments (en_codec e) (db_segments db) ps'"
    "cache_state (en_codec e) (db_segments db) (db_block_cache db) (db_next_id db) truth"
  shows "db_inv e db h R"
  using assms unfolding db_inv_def by blast

text \<open>An open database whose log has not failed is recoverable from its files.\<close>

lemma db_inv_disk: "db_inv e db h R \<Longrightarrow> \<not> poisoned (db_wal db) \<Longrightarrow> disk_inv e (db_disk db) h R"
  unfolding db_inv_def disk_inv_def by metis

end
