(* ===== verification/Database_Reads.thy ===== *)
theory Database_Reads
  imports Database_State
begin

text \<open>
  Reads of an open database: point reads, batched reads and scans return the state after the operations
  up to the snapshot, through whatever the memtable, the segments and the shared block cache hold. A read
  changes nothing but the cache.
\<close>

section \<open>Reads only touch the cache\<close>

definition reading :: "database \<Rightarrow> block_truth \<Rightarrow> database \<Rightarrow> bool" where
  "reading db0 truth db \<longleftrightarrow> db = db0\<lparr>db_block_cache := db_block_cache db\<rparr> \<and> cache_coherent truth (db_block_cache db)"

lemma reading_fields:
  assumes "reading db0 truth db"
  shows "db_memtable db = db_memtable db0" and "db_segments db = db_segments db0" and "db_manifest db = db_manifest db0"
    and "db_disk db = db_disk db0"
  using assms unfolding reading_def by (metis database.select_convs database.surjective database.update_convs(7))+

lemma on_cache_yields:
  assumes "yields (cache_coherent truth) m P"
  shows "yields (reading db0 truth) (on_cache m) P"
  unfolding yields_def
proof (intro allI impI)
  fix db assume r: "reading db0 truth db"
  then obtain a cache' where "m (db_block_cache db) = (Ok a, cache')" "cache_coherent truth cache'" "P a"
    using assms unfolding yields_def reading_def by blast
  moreover have "db\<lparr>db_block_cache := cache'\<rparr> = db0\<lparr>db_block_cache := cache'\<rparr>"
    using r unfolding reading_def by (metis database.surjective database.update_convs(7))
  ultimately show "\<exists>a db'. on_cache m db = (Ok a, db') \<and> reading db0 truth db' \<and> P a"
    by (simp add: on_cache_def czoom_def reading_def)
qed

lemma creads_yields:
  "(\<And>db. reading db0 truth db \<Longrightarrow> f db = f db0) \<Longrightarrow> yields (reading db0 truth) (creads f) (\<lambda>v. v = f db0)"
  by (rule yields_creads) simp

lemma reading_db_inv:
  assumes "db_inv e db0 h R"
  shows "\<exists>truth. (\<forall>seg \<in> set (db_segments db0). knows truth (en_codec e) seg) \<and> reading db0 truth db0 \<and>
    (\<forall>db. reading db0 truth db \<longrightarrow> db_inv e db h R)"
proof -
  obtain ps ps' acked truth where I: "manifest_state e (db_disk db0) (db_manifest db0) h R ps"
    "db_wal_start db0 = mf_wal_start_sequence (db_manifest db0)"
    "bt_get (dk_wals (db_disk db0)) (db_wal_start db0) = Some (db_wal_file db0)"
    "log_state (en_crc e) (mf_durable_sequence (db_manifest db0)) h (db_wal_file db0) (db_wal db0) acked"
    "mt_rep (unat (mf_durable_sequence (db_manifest db0))) (drop (unat (mf_durable_sequence (db_manifest db0))) h) (db_memtable db0)"
    "mset ps' = mset ps" "open_segments (en_codec e) (db_segments db0) ps'"
    "cache_state (en_codec e) (db_segments db0) (db_block_cache db0) (db_next_id db0) truth"
    using assms by (rule db_invE)
  have "db_inv e (db0\<lparr>db_block_cache := cache\<rparr>) h R" if "cache_coherent truth cache" for cache
    by (rule db_invI [where ps = ps and ps' = ps' and acked = acked and truth = truth])
      (use I that in \<open>simp_all add: cache_state_def db_wal_file_def\<close>)
  moreover have "reading db0 truth db0" using I(8) by (simp add: reading_def cache_state_def)
  moreover have "\<forall>seg \<in> set (db_segments db0). knows truth (en_codec e) seg" using I(8) by (simp add: cache_state_def)
  ultimately show ?thesis unfolding reading_def by metis
qed

section \<open>Point reads\<close>

text \<open>\<open>best_sequence\<close> and \<open>best_value\<close> as one optional version.\<close>

definition best_of :: "versioned_value option \<Rightarrow> u64 \<times> bytes option" where
  "best_of best = (case best of None \<Rightarrow> (0, None) | Some v \<Rightarrow> (vv_sequence v, vv_value v))"

lemma best_of_value: "snd (best_of best) = Option.bind best vv_value"
  by (simp add: best_of_def split: option.split)

lemma better_version_newer:
  assumes "\<And>v. found = Some v \<Longrightarrow> vv_sequence v \<noteq> 0"
  shows "better_version (map_option as_version found) (best_of best) = best_of (newer found best)"
  using assms
  by (auto simp: better_version_def best_of_def newer_def as_version_def word_neq_0_conv split: option.split)

lemma fold_best_of:
  assumes "\<And>es v. es \<in> set ess \<Longrightarrow> newest_at r (entry_versions es key) = Some v \<Longrightarrow> vv_sequence v \<noteq> 0"
  shows "fold (\<lambda>es. better_version (select_entries es key r)) ess (best_of best)
    = best_of (fold (\<lambda>es. newer (newest_at r (entry_versions es key))) ess best)"
  using assms
proof (induction ess arbitrary: best)
  case (Cons es ess)
  have "better_version (select_entries es key r) (best_of best) = best_of (newer (newest_at r (entry_versions es key)) best)"
    unfolding select_entries_def using Cons.prems by (intro better_version_newer) auto
  moreover have "fold (\<lambda>es. better_version (select_entries es key r)) ess (best_of b)
      = best_of (fold (\<lambda>es. newer (newest_at r (entry_versions es key))) ess b)" for b
    by (rule Cons.IH) (use Cons.prems in auto)
  ultimately show ?case by simp
qed simp

text \<open>The open segments as a list of entry lists.\<close>

lemma open_segments_rep:
  "open_segments c segments ps \<Longrightarrow> list_all2 (segment_rep c) segments (map snd ps)"
  unfolding open_segments_def list_all2_map2 by (erule list_all2_mono) simp

lemma newest_at_nonzero:
  assumes "seg_state ess h D R" and "es \<in> set ess" and "newest_at r (entry_versions es key) = Some v"
  shows "vv_sequence v \<noteq> 0"
proof -
  have "entries_sorted es" using assms(1,2) by (simp add: seg_state_def)
  then have "(key, v) \<in> set es"
    using assms(3) newest_at_cases(1) [OF entry_versions_sorted] by (simp add: set_entry_versions)
  with assms(2) have "(key, v) \<in> set (concat ess)" by auto
  then show ?thesis using seg_state_bound(2) [OF assms(1)] by blast
qed

lemma list_all2_knows:
  "list_all2 (segment_rep c) segs ess \<Longrightarrow> \<forall>seg \<in> set segs. knows truth c seg \<Longrightarrow>
    list_all2 (\<lambda>seg es. segment_rep c seg es \<and> knows truth c seg \<and> es \<in> set ess) segs ess"
  by (auto simp: list_all2_conv_all_nth)

lemma db_get_yields:
  assumes rep: "list_all2 (segment_rep (en_codec e)) (db_segments db0) ess" and st: "seg_state ess h D R"
    and know: "\<forall>seg \<in> set (db_segments db0). knows truth (en_codec e) seg"
  shows "yields (reading db0 truth) (db_get e key at) (\<lambda>v. v = layered_read (db_memtable db0) ess key (sn_sequence at))"
proof -
  let ?r = "sn_sequence at"
  have loop: "yields (reading db0 truth) (cfor (db_segments db0) (\<lambda>seg best.
      cbind (on_cache (seg_get_version (en_codec e) seg key ?r)) (\<lambda>version. cok (better_version version best))) (0, None))
      (\<lambda>v. v = fold (\<lambda>es. better_version (select_entries es key ?r)) ess (0, None))"
  proof (rule yields_cfor_fold [where I = "\<lambda>_. True", OF list_all2_knows [OF rep know]])
    fix seg es and best :: "u64 \<times> bytes option"
    assume "segment_rep (en_codec e) seg es \<and> knows truth (en_codec e) seg \<and> es \<in> set ess"
    then show "yields (reading db0 truth)
        (cbind (on_cache (seg_get_version (en_codec e) seg key ?r)) (\<lambda>version. cok (better_version version best)))
        (\<lambda>v. v = better_version (select_entries es key ?r) best)"
      by (intro yields_cbind [OF on_cache_yields [OF seg_get_version_yields]] yields_cok) auto
  qed simp_all
  have "fold (\<lambda>es. better_version (select_entries es key ?r)) ess (0, None) = best_of (newest_in ess key ?r)"
    using fold_best_of [of ess ?r key None] newest_at_nonzero [OF st] by (simp add: newest_in_def best_of_def [of None])
  note loop = loop [unfolded this]
  show ?thesis
    unfolding db_get_def
  proof (rule yields_cbind [OF creads_yields])
    fix db assume "reading db0 truth db"
    then show "(mt_get_version (db_memtable db) key ?r, db_segments db) = (mt_get_version (db_memtable db0) key ?r, db_segments db0)"
      by (simp add: reading_fields)
  next
    fix a assume "a = (mt_get_version (db_memtable db0) key ?r, db_segments db0)"
    then show "yields (reading db0 truth) (case a of (version, segments) \<Rightarrow>
        case version of None \<Rightarrow> cbind (cfor segments (\<lambda>seg best.
            cbind (on_cache (seg_get_version (en_codec e) seg key ?r)) (\<lambda>version. cok (better_version version best))) (0, None))
          (\<lambda>(_, best_value). cok best_value)
        | Some v \<Rightarrow> cok (vv_value v)) (\<lambda>v. v = layered_read (db_memtable db0) ess key ?r)"
      by (cases "mt_get_version (db_memtable db0) key ?r")
        (auto simp: layered_read_def best_of_value [symmetric] dest: arg_cong [of _ _ snd] split: prod.split
          intro!: yields_cbind [OF loop] yields_cok)
  qed
qed

section \<open>Batched reads\<close>

text \<open>The loop state of \<open>get_many\<close> as one optional version per unresolved position.\<close>

definition positions_rep :: "nat list \<Rightarrow> bytes option list \<Rightarrow> versioned_value option list \<Rightarrow> u64 list \<times> bytes option list \<Rightarrow> bool" where
  "positions_rep unresolved vals0 bests st \<longleftrightarrow> length bests = length unresolved \<and> fst st = map (fst \<circ> best_of) bests \<and>
     length (snd st) = length vals0 \<and> (\<forall>p < length unresolved. snd st ! (unresolved ! p) = snd (best_of (bests ! p))) \<and>
     (\<forall>i < length vals0. i \<notin> set unresolved \<longrightarrow> snd st ! i = vals0 ! i)"

lemma better_position_rep:
  assumes rep: "positions_rep unresolved vals0 bests st" and p: "p < length unresolved"
    and u: "distinct unresolved" "\<forall>i \<in> set unresolved. i < length vals0"
    and nz: "\<And>v. found = Some v \<Longrightarrow> vv_sequence v \<noteq> 0"
  shows "positions_rep unresolved vals0 (bests[p := newer found (bests ! p)]) (better_position unresolved (p, map_option as_version found) st)"
proof (cases found)
  case None
  then show ?thesis using rep by (cases st) (simp add: better_position_def)
next
  case (Some v)
  obtain bs vs where st: "st = (bs, vs)" by (cases st)
  have len: "p < length bests" "p < length bs" "unresolved ! p < length vs"
    using rep p u(2) by (auto simp: positions_rep_def st)
  have best: "bs ! p = fst (best_of (bests ! p))" using rep len(1) by (simp add: positions_rep_def st)
  have new: "better_version (map_option as_version found) (best_of (bests ! p)) = best_of (newer found (bests ! p))"
    using nz by (rule better_version_newer)
  show ?thesis
  proof (cases "vv_sequence v > bs ! p")
    case True
    then have "best_of (newer found (bests ! p)) = (vv_sequence v, vv_value v)"
      using new best Some by (cases "best_of (bests ! p)") (simp add: better_version_def as_version_def)
    then show ?thesis
      using rep len True u p unfolding positions_rep_def st
      by (auto simp: better_position_def Some as_version_def map_update nth_list_update nth_eq_iff_index_eq)
  next
    case False
    then have "best_of (newer found (bests ! p)) = best_of (bests ! p)"
      using new best Some by (cases "best_of (bests ! p)") (simp add: better_version_def as_version_def)
    then show ?thesis
      using rep len False list_update_id [of bs p] unfolding positions_rep_def st
      by (auto simp: better_position_def Some as_version_def map_update nth_list_update)
  qed
qed

definition newer_all :: "versioned_value option list \<Rightarrow> versioned_value option list \<Rightarrow> versioned_value option list" where
  "newer_all found bests = map (\<lambda>(f, b). newer f b) (zip found bests)"

lemma better_positions_rep:
  assumes "positions_rep unresolved vals0 bests st" and "distinct unresolved" "\<forall>i \<in> set unresolved. i < length vals0"
    and "\<And>v. Some v \<in> set found \<Longrightarrow> vv_sequence v \<noteq> 0" and "length found = length unresolved"
  shows "positions_rep unresolved vals0 (newer_all found bests)
    (fold (better_position unresolved) (List.enumerate 0 (map (map_option as_version) found)) st)"
proof -
  have "positions_rep unresolved vals0 (take n (newer_all found bests) @ drop n bests)
    (fold (better_position unresolved) (take n (List.enumerate 0 (map (map_option as_version) found))) st)" if "n \<le> length found" for n
    using that
  proof (induction n)
    case 0
    then show ?case using assms(1) by simp
  next
    case (Suc n)
    let ?b = "take n (newer_all found bests) @ drop n bests"
    have len: "length bests = length unresolved" using assms(1) by (simp add: positions_rep_def)
    have n: "n < length found" "n < length unresolved" "length (newer_all found bests) = length bests"
      using Suc.prems assms(5) len by (simp_all add: newer_all_def)
    have nth: "List.enumerate 0 (map (map_option as_version) found) ! n = (n, map_option as_version (found ! n))"
      using n by (simp add: nth_enumerate_eq)
    have upd: "?b[n := newer (found ! n) (?b ! n)] = take (Suc n) (newer_all found bests) @ drop (Suc n) bests"
      using n len assms(5) by (intro nth_equalityI)
        (auto simp: nth_append nth_list_update newer_all_def min_def less_Suc_eq)
    have "positions_rep unresolved vals0 (?b[n := newer (found ! n) (?b ! n)])
      (better_position unresolved (n, map_option as_version (found ! n))
        (fold (better_position unresolved) (take n (List.enumerate 0 (map (map_option as_version) found))) st))"
      using Suc n assms(2-4) nth_mem [OF n(1)] by (intro better_position_rep) (auto simp: Suc_le_eq)
    then show ?case
      using n unfolding upd by (simp add: take_Suc_conv_app_nth nth)
  qed
  from this [of "length found"] assms(1,5) show ?thesis
    by (simp add: newer_all_def positions_rep_def)
qed

lemma fold_newer_all:
  "length bests = length keys \<Longrightarrow>
    fold (\<lambda>es. newer_all (map (\<lambda>key. newest_at r (entry_versions es key)) keys)) ess bests
    = map (\<lambda>(key, b). fold (\<lambda>es. newer (newest_at r (entry_versions es key))) ess b) (zip keys bests)"
proof (induction ess arbitrary: bests)
  case (Cons es ess)
  have "length (newer_all (map (\<lambda>key. newest_at r (entry_versions es key)) keys) bests) = length keys"
    using Cons.prems by (simp add: newer_all_def)
  from Cons.IH [OF this] Cons.prems show ?case
    by (simp, intro nth_equalityI) (simp_all add: newer_all_def)
qed (simp, intro nth_equalityI, simp_all)

lemma get_many_merged_yields:
  assumes rep: "list_all2 (segment_rep (en_codec e)) segs ess" and st: "seg_state ess h D R"
    and know: "\<forall>seg \<in> set segs. knows truth (en_codec e) seg"
    and u: "distinct unresolved" "\<forall>i \<in> set unresolved. i < length vals" "\<forall>i \<in> set unresolved. vals ! i = None"
    and keys: "length ukeys = length unresolved"
  shows "yields (reading db0 truth) (get_many_merged e unresolved ukeys r segs vals)
    (\<lambda>out. length out = length vals \<and> (\<forall>i < length vals. i \<notin> set unresolved \<longrightarrow> out ! i = vals ! i) \<and>
      (\<forall>p < length unresolved. out ! (unresolved ! p) = Option.bind (newest_in ess (ukeys ! p) r) vv_value))"
proof -
  let ?found = "\<lambda>es. map (\<lambda>key. newest_at r (entry_versions es key)) ukeys"
  let ?step = "\<lambda>es. fold (better_position unresolved) (List.enumerate 0 (map (map_option as_version) (?found es)))"
  have sel: "map (\<lambda>key. select_entries es key r) ukeys = map (map_option as_version) (?found es)" for es
    by (simp add: select_entries_def)
  have nz: "vv_sequence v \<noteq> 0" if "es \<in> set ess" "Some v \<in> set (?found es)" for es v
    using newest_at_nonzero [OF st that(1)] that(2) by auto
  have loop: "yields (reading db0 truth) (cfor segs (\<lambda>seg best.
      cbind (on_cache (seg_get_versions (en_codec e) seg ukeys r)) (\<lambda>found.
      cok (fold (better_position unresolved) (List.enumerate 0 found) best))) (replicate (length unresolved) 0, vals))
      (\<lambda>v. v = fold ?step ess (replicate (length unresolved) 0, vals))"
  proof (rule yields_cfor_fold [where I = "\<lambda>_. True", OF list_all2_knows [OF rep know]])
    fix seg es and best :: "u64 list \<times> bytes option list"
    assume "segment_rep (en_codec e) seg es \<and> knows truth (en_codec e) seg \<and> es \<in> set ess"
    then show "yields (reading db0 truth) (cbind (on_cache (seg_get_versions (en_codec e) seg ukeys r)) (\<lambda>found.
        cok (fold (better_position unresolved) (List.enumerate 0 found) best))) (\<lambda>v. v = ?step es best)"
      unfolding sel [symmetric] by (intro yields_cbind [OF on_cache_yields [OF seg_get_versions_yields]] yields_cok) auto
  qed simp_all
  have fold: "positions_rep unresolved vals (fold (\<lambda>es. newer_all (?found es)) ess' bests) (fold ?step ess' st)"
    if "positions_rep unresolved vals bests st" "set ess' \<subseteq> set ess" for bests st ess'
    using that
  proof (induction ess' arbitrary: bests st)
    case (Cons es ess')
    have "positions_rep unresolved vals (newer_all (?found es) bests) (?step es st)"
      using Cons.prems nz [of es] u keys by (intro better_positions_rep) (auto simp del: set_map)
    with Cons show ?case by simp
  qed simp
  have "positions_rep unresolved vals (replicate (length unresolved) None) (replicate (length unresolved) 0, vals)"
    using u by (simp add: positions_rep_def best_of_def comp_def)
  from fold [OF this order_refl] have final: "positions_rep unresolved vals (map (\<lambda>key. newest_in ess key r) ukeys) (fold ?step ess (replicate (length unresolved) 0, vals))"
    using fold_newer_all [of "replicate (length unresolved) None" ukeys r ess] keys
    by (simp add: newest_in_def zip_replicate2 comp_def)
  show ?thesis
    unfolding get_many_merged_def
    using final keys
    by (intro yields_cbind [OF loop]) (auto simp: positions_rep_def best_of_value split: prod.split intro!: yields_cok)
qed

lemma fold_update_positions:
  assumes "distinct unresolved" and "length found \<le> length unresolved" and "\<forall>i \<in> set unresolved. i < length vals"
  shows "length (fold (\<lambda>(p, x) vals. vals[unresolved ! p := x]) (List.enumerate 0 found) vals) = length vals"
    and "\<forall>i < length vals. i \<notin> set unresolved \<longrightarrow>
      fold (\<lambda>(p, x) vals. vals[unresolved ! p := x]) (List.enumerate 0 found) vals ! i = vals ! i"
    and "\<forall>p < length found. fold (\<lambda>(p, x) vals. vals[unresolved ! p := x]) (List.enumerate 0 found) vals ! (unresolved ! p) = found ! p"
proof -
  let ?f = "\<lambda>xs. fold (\<lambda>(p, x) vals. vals[unresolved ! p := x]) (List.enumerate 0 xs) vals"
  have "length (?f found) = length vals \<and> (\<forall>i < length vals. i \<notin> set unresolved \<longrightarrow> ?f found ! i = vals ! i) \<and>
    (\<forall>p < length found. ?f found ! (unresolved ! p) = found ! p)"
    using assms(2)
  proof (induction found rule: rev_induct)
    case (snoc x xs)
    then have x: "length xs < length unresolved" by simp
    then have "unresolved ! length xs \<in> set unresolved" "unresolved ! length xs < length vals"
      using assms(3) by simp_all
    moreover have "p < length xs \<Longrightarrow> unresolved ! length xs \<noteq> unresolved ! p" for p
      using x assms(1) by (simp add: nth_eq_iff_index_eq)
    ultimately show ?case
      using snoc by (auto simp: enumerate_append_eq nth_list_update nth_append less_Suc_eq)
  qed simp
  then show "length (?f found) = length vals" "\<forall>i < length vals. i \<notin> set unresolved \<longrightarrow> ?f found ! i = vals ! i"
    "\<forall>p < length found. ?f found ! (unresolved ! p) = found ! p" by blast+
qed

lemma db_get_many_yields:
  assumes rep: "list_all2 (segment_rep (en_codec e)) (db_segments db0) ess" and st: "seg_state ess h D R"
    and know: "\<forall>seg \<in> set (db_segments db0). knows truth (en_codec e) seg"
  shows "yields (reading db0 truth) (db_get_many e keys at)
    (\<lambda>out. out = map (\<lambda>key. layered_read (db_memtable db0) ess key (sn_sequence at)) keys)"
proof -
  let ?r = "sn_sequence at" and ?t = "db_memtable db0" and ?segs = "db_segments db0"
  define versions where "versions = map (\<lambda>key. mt_get_version ?t key ?r) keys"
  define vals where "vals = map (\<lambda>version. case version of Some v \<Rightarrow> vv_value v | None \<Rightarrow> None) versions"
  define unresolved where "unresolved = filter (\<lambda>i. versions ! i = None) [0..<length keys]"
  define ukeys where "ukeys = map (\<lambda>i. keys ! i) unresolved"
  have len: "length vals = length keys" "length ukeys = length unresolved" by (simp_all add: vals_def versions_def ukeys_def)
  have u: "distinct unresolved" "\<forall>i \<in> set unresolved. i < length vals" "\<forall>i \<in> set unresolved. vals ! i = None"
    by (auto simp: unresolved_def vals_def versions_def)
  have goal: "out = map (\<lambda>key. layered_read ?t ess key ?r) keys"
    if "length out = length vals" "\<forall>i < length vals. i \<notin> set unresolved \<longrightarrow> out ! i = vals ! i"
      "\<forall>p < length unresolved. out ! (unresolved ! p) = Option.bind (newest_in ess (ukeys ! p) ?r) vv_value" for out
  proof (rule nth_equalityI)
    show "length out = length (map (\<lambda>key. layered_read ?t ess key ?r) keys)" using that(1) len by simp
    fix i assume i: "i < length out"
    then have i': "i < length keys" using that(1) len by simp
    show "out ! i = map (\<lambda>key. layered_read ?t ess key ?r) keys ! i"
    proof (cases "mt_get_version ?t (keys ! i) ?r")
      case None
      then have "i \<in> set unresolved" using i' by (simp add: unresolved_def versions_def)
      then obtain p where p: "p < length unresolved" "unresolved ! p = i" by (auto simp: in_set_conv_nth)
      then show ?thesis using that(3) i' None by (auto simp: ukeys_def layered_read_def)
    next
      case (Some v)
      then have "i \<notin> set unresolved" "vals ! i = vv_value v" using i' by (auto simp: unresolved_def versions_def vals_def)
      then show ?thesis using that(2) i' len Some by (simp add: layered_read_def)
    qed
  qed
  have single: "yields (reading db0 truth)
      (cbind (on_cache (seg_get_versions (en_codec e) (?segs ! 0) ukeys ?r)) (\<lambda>found.
       cok (fold (\<lambda>(position, version) vals. vals[unresolved ! position := Option.bind version sv_value]) (List.enumerate 0 found) vals)))
      (\<lambda>out. out = map (\<lambda>key. layered_read ?t ess key ?r) keys)" if one: "length ?segs = 1"
  proof -
    obtain es where es: "ess = [es]" "segment_rep (en_codec e) (?segs ! 0) es" "knows truth (en_codec e) (?segs ! 0)"
    proof -
      obtain seg where "?segs = [seg]" using one by (cases ?segs) auto
      then show thesis using rep know that by (auto simp: list_all2_Cons1)
    qed
    have conv: "fold (\<lambda>(position, version) vals. vals[unresolved ! position := Option.bind version sv_value]) (List.enumerate 0 found) vals
      = fold (\<lambda>(p, x) vals. vals[unresolved ! p := x]) (List.enumerate 0 (map (\<lambda>v. Option.bind v sv_value) found)) vals" for found
      by (simp add: enumerate_map_upt [symmetric] fold_map comp_def case_prod_beta' enumerate_eq_zip zip_map2)
    have "Option.bind (select_entries es key ?r) sv_value = Option.bind (newest_in ess key ?r) vv_value" for key
      by (cases "newest_at ?r (entry_versions es key)") (simp_all add: es(1) newest_in_def select_entries_def as_version_def)
    then have "fold (\<lambda>(p, x) vals. vals[unresolved ! p := x])
        (List.enumerate 0 (map (\<lambda>v. Option.bind v sv_value) (map (\<lambda>key. select_entries es key ?r) ukeys))) vals
        = map (\<lambda>key. layered_read ?t ess key ?r) keys"
      using fold_update_positions [OF u(1) _ u(2), of "map (\<lambda>key. Option.bind (newest_in ess key ?r) vv_value) ukeys"] len(2)
      by (intro goal) (simp_all add: comp_def)
    then show ?thesis
      unfolding conv by (intro yields_cbind [OF on_cache_yields [OF seg_get_versions_yields [OF es(2,3)]]] yields_cok) simp
  qed
  have merged: "yields (reading db0 truth) (get_many_merged e unresolved ukeys ?r ?segs vals)
      (\<lambda>out. out = map (\<lambda>key. layered_read ?t ess key ?r) keys)"
    using goal by (intro yields_mono [OF get_many_merged_yields [OF rep st know u len(2)]]) blast
  have none: "vals = map (\<lambda>key. layered_read ?t ess key ?r) keys" if "unresolved = []"
    using that by (intro goal) simp_all
  show ?thesis
    unfolding db_get_many_def
  proof (rule yields_cbind [OF creads_yields])
    fix db assume "reading db0 truth db"
    then show "(db_memtable db, db_segments db) = (db_memtable db0, db_segments db0)" by (simp add: reading_fields)
  next
    fix a assume a: "a = (db_memtable db0, db_segments db0)"
    show "yields (reading db0 truth) (case a of (table, segments) \<Rightarrow>
        let versions = map (\<lambda>key. mt_get_version table key ?r) keys;
            vals = map (\<lambda>version. case version of Some v \<Rightarrow> vv_value v | None \<Rightarrow> None) versions;
            unresolved = filter (\<lambda>i. versions ! i = None) [0..<length keys];
            unresolved_keys = map (\<lambda>i. keys ! i) unresolved in
        if unresolved = [] then cok vals
        else if length segments = 1 \<and> mt_version_count table = 0 then
          cbind (on_cache (seg_get_versions (en_codec e) (segments ! 0) unresolved_keys ?r)) (\<lambda>found.
          cok (fold (\<lambda>(position, version) vals. vals[unresolved ! position := Option.bind version sv_value])
                 (List.enumerate 0 found) vals))
        else get_many_merged e unresolved unresolved_keys ?r segments vals)
        (\<lambda>out. out = map (\<lambda>key. layered_read ?t ess key ?r) keys)"
      unfolding a prod.case Let_def versions_def [symmetric] vals_def [symmetric] unresolved_def [symmetric] ukeys_def [symmetric]
      using single merged none by (auto intro: yields_cok)
  qed
qed

section \<open>Scans\<close>

lemma keep_newer_get:
  "bt_get (keep_newer (key, v) m) k = (if k = key then newer (Some v) (bt_get m k) else bt_get m k)"
  by (auto simp: keep_newer_def bt_get_insert newer_def split: option.split)

lemma keep_newer_wf: "bt_wf m \<Longrightarrow> bt_wf (keep_newer e m)"
  by (cases e) (simp add: keep_newer_def bt_wf_insert)

lemma fold_keep_newer:
  assumes "distinct (map fst found)" and "bt_wf m"
  shows "bt_wf (fold keep_newer found m)" and "bt_get (fold keep_newer found m) k = newer (map_of found k) (bt_get m k)"
proof -
  have "bt_wf (fold keep_newer found m) \<and> bt_get (fold keep_newer found m) k = newer (map_of found k) (bt_get m k)"
    using assms
  proof (induction found arbitrary: m)
    case (Cons e found)
    obtain key v where e: "e = (key, v)" by (cases e)
    have "map_of found key = None" using Cons.prems(1) by (auto simp: e map_of_eq_None_iff)
    then show ?case
      using Cons.IH [of "keep_newer e m"] Cons.prems keep_newer_wf [of m e] by (simp add: e keep_newer_get)
  qed simp
  then show "bt_wf (fold keep_newer found m)" "bt_get (fold keep_newer found m) k = newer (map_of found k) (bt_get m k)" by blast+
qed

lemma fold_filter: "fold (\<lambda>(k, v) m. if P k then m else keep_newer (k, v) m) xs m = fold keep_newer (filter (\<lambda>(k, v). \<not> P k) xs) m"
  by (induction xs arbitrary: m) auto

text \<open>The state of the segment loop: the newest version of every key in range over the segments so far.\<close>

lemma fold_visible:
  assumes "\<forall>es \<in> set ess. entries_sorted es" and "bt_wf m"
  shows "bt_wf (fold (\<lambda>es. fold keep_newer (visible_entries es start end' r)) ess m)"
    and "bt_get (fold (\<lambda>es. fold keep_newer (visible_entries es start end' r)) ess m) key =
      fold (\<lambda>es. newer (if in_bounds start end' key then newest_at r (entry_versions es key) else None)) ess (bt_get m key)"
proof -
  have "bt_wf (fold (\<lambda>es. fold keep_newer (visible_entries es start end' r)) ess m) \<and>
    bt_get (fold (\<lambda>es. fold keep_newer (visible_entries es start end' r)) ess m) key =
      fold (\<lambda>es. newer (if in_bounds start end' key then newest_at r (entry_versions es key) else None)) ess (bt_get m key)"
    using assms
  proof (induction ess arbitrary: m)
    case (Cons es ess)
    then have es: "entries_sorted es" by simp
    have "distinct (map fst (visible_entries es start end' r))"
      using bt.entries_distinct [OF visible_entries_wf [OF es]] .
    note step = fold_keep_newer(1) [OF this Cons.prems(2)] fold_keep_newer(2) [OF this Cons.prems(2), of key]
    have "map_of (visible_entries es start end' r) key = (if in_bounds start end' key then newest_at r (entry_versions es key) else None)"
      using bt_get_visible_entries [OF es] by (simp add: bt_get_def)
    with Cons.IH [OF _ step(1)] Cons.prems(1) step(2) show ?case by simp
  qed simp
  then show "bt_wf (fold (\<lambda>es. fold keep_newer (visible_entries es start end' r)) ess m)"
    "bt_get (fold (\<lambda>es. fold keep_newer (visible_entries es start end' r)) ess m) key =
      fold (\<lambda>es. newer (if in_bounds start end' key then newest_at r (entry_versions es key) else None)) ess (bt_get m key)" by blast+
qed

lemma fold_newer_None: "fold (\<lambda>es. newer None) ess b = b"
  by (induction ess) simp_all

text \<open>What a scan is specified to return.\<close>

definition scan_spec :: "(bytes \<Rightarrow> bytes option) \<Rightarrow> bytes \<Rightarrow> bytes option \<Rightarrow> (bytes \<times> bytes) list \<Rightarrow> bool" where
  "scan_spec f start end' out \<longleftrightarrow> sorted_wrt (<) (map fst out) \<and>
     (\<forall>key val. (key, val) \<in> set out \<longleftrightarrow> in_bounds start end' key \<and> f key = Some val)"

lemma live_pairs_spec:
  assumes "bt_wf m" and "\<And>key. Option.bind (bt_get m key) vv_value = (if in_bounds start end' key then f key else None)"
  shows "scan_spec f start end' (live_pairs m)"
proof -
  have "(key, val) \<in> set (live_pairs m) \<longleftrightarrow> in_bounds start end' key \<and> f key = Some val" for key val
  proof -
    have "(key, val) \<in> set (live_pairs m) \<longleftrightarrow> Option.bind (bt_get m key) vv_value = Some val"
      by (auto simp: live_pairs_mem bt.entries_mem [OF assms(1)] bind_eq_Some_conv)
    also have "\<dots> \<longleftrightarrow> in_bounds start end' key \<and> f key = Some val" by (simp add: assms(2))
    finally show ?thesis .
  qed
  moreover have "sorted_wrt (<) (map fst (live_pairs m))"
    unfolding live_pairs_def by (rule map_filter_keys_sorted [OF assms(1)]) auto
  ultimately show ?thesis by (simp add: scan_spec_def)
qed

lemma mt_version_count_zero:
  assumes "mt_version_count t = 0"
  shows "mt_get_version t key r = None"
proof -
  have "vs = []" if "bt_get (mt_versions t) key = Some vs" for vs
  proof -
    have "(key, vs) \<in> set (mt_versions t)" using that by (simp add: bt_get_def map_of_SomeD)
    then show ?thesis using assms by (fastforce simp: mt_version_count_def)
  qed
  then show ?thesis by (cases "bt_get (mt_versions t) key") (auto simp: mt_get_version_def)
qed

lemma mt_above_segments:
  assumes st: "seg_state ess h D R" and rep: "mt_rep (unat D) (drop (unat D) h) t"
  shows "Option.bind (newer (mt_get_version t key r) (newest_in ess key r)) vv_value = layered_read t ess key r"
proof (cases "mt_get_version t key r")
  case (Some v)
  have "v \<in> set (versions_of (unat D) (drop (unat D) h) key)"
    using Some newest_at_cases(1) [OF versions_of_sorted [OF mt_rep_bound [OF rep]]] mt_get_version_rep [OF rep] by simp
  then have "D < vv_sequence v"
    using versions_of_bounds [OF mt_rep_bound [OF rep]] by (simp add: word_less_nat_alt)
  moreover have "vv_sequence b \<le> D" if "newest_in ess key r = Some b" for b
    using newest_in_Some(1) [OF _ that] seg_state_bound(1) [OF st] st by (auto simp: seg_state_def)
  ultimately have "newer (Some v) (newest_in ess key r) = Some v"
    by (auto simp: newer_def split: option.split dest: order.strict_trans1)
  then show ?thesis by (simp add: layered_read_def Some)
qed (simp add: layered_read_def)

lemma db_scan_yields:
  assumes rep: "list_all2 (segment_rep (en_codec e)) (db_segments db0) ess" and st: "seg_state ess h D R"
    and know: "\<forall>seg \<in> set (db_segments db0). knows truth (en_codec e) seg"
    and mt: "mt_rep (unat D) (drop (unat D) h) (db_memtable db0)"
  shows "yields (reading db0 truth) (db_scan e start end' at)
    (scan_spec (\<lambda>key. layered_read (db_memtable db0) ess key (sn_sequence at)) start end')"
proof -
  let ?r = "sn_sequence at" and ?t = "db_memtable db0" and ?segs = "db_segments db0"
  let ?f = "\<lambda>key. layered_read ?t ess key ?r"
  have sorted: "\<forall>es \<in> set ess. entries_sorted es" using st by (simp add: seg_state_def)
  have single: "yields (reading db0 truth) (on_cache (seg_scan (en_codec e) (?segs ! 0) start end' ?r)) (scan_spec ?f start end')"
    if one: "length ?segs = 1" and empty: "mt_version_count ?t = 0"
  proof -
    obtain es where es: "ess = [es]" "segment_rep (en_codec e) (?segs ! 0) es" "knows truth (en_codec e) (?segs ! 0)"
    proof -
      obtain seg where "?segs = [seg]" using one by (cases ?segs) auto
      then show thesis using rep know that by (auto simp: list_all2_Cons1)
    qed
    have "entries_sorted es" using sorted es(1) by simp
    have "scan_spec ?f start end' (live_pairs (visible_entries es start end' ?r))"
    proof (rule live_pairs_spec [OF visible_entries_wf [OF \<open>entries_sorted es\<close>]])
      fix key
      show "Option.bind (bt_get (visible_entries es start end' ?r) key) vv_value = (if in_bounds start end' key then ?f key else None)"
        using mt_version_count_zero [OF empty]
        by (simp add: bt_get_visible_entries [OF \<open>entries_sorted es\<close>] layered_read_def es(1) newest_in_def)
    qed
    then show ?thesis
      by (intro yields_mono [OF on_cache_yields [OF seg_scan_yields [OF es(2,3)]]]) simp
  qed
  let ?step = "\<lambda>es. fold keep_newer (visible_entries es start end' ?r)"
  have loop: "yields (reading db0 truth) (cfor ?segs (\<lambda>seg visible.
      cbind (on_cache (visible_from (en_codec e) seg start end' ?r)) (\<lambda>found. cok (fold keep_newer found visible))) [])
      (\<lambda>v. v = fold ?step ess [])"
  proof (rule yields_cfor_fold [where I = "\<lambda>_. True", OF list_all2_knows [OF rep know]])
    fix seg es and visible :: "(bytes, versioned_value) btree"
    assume "segment_rep (en_codec e) seg es \<and> knows truth (en_codec e) seg \<and> es \<in> set ess"
    then show "yields (reading db0 truth) (cbind (on_cache (visible_from (en_codec e) seg start end' ?r)) (\<lambda>found.
        cok (fold keep_newer found visible))) (\<lambda>v. v = ?step es visible)"
      by (intro yields_cbind [OF on_cache_yields [OF visible_from_yields]] yields_cok) auto
  qed simp_all
  let ?mv = "filter (\<lambda>(key, v). \<not> (key < start \<or> (case end' of None \<Rightarrow> False | Some end' \<Rightarrow> key \<ge> end'))) (mt_visible_versions ?t ?r)"
  let ?out = "fold keep_newer ?mv (fold ?step ess [])"
  have wf: "bt_wf (mt_versions ?t)" using mt by (simp add: mt_rep_def versions_rep_def)
  have mvwf: "bt_wf (mt_visible_versions ?t ?r)" using mt_visible_versions_sorted [OF wf] by (simp add: bt_wf_def)
  then have dist: "distinct (map fst ?mv)" by (rule bt.entries_distinct [OF bt_wf_filter])
  have mv: "map_of ?mv key = (if in_bounds start end' key then mt_get_version ?t key ?r else None)" for key
  proof -
    have "bt_get (mt_visible_versions ?t ?r) key = mt_get_version ?t key ?r"
      using bt.entries_mem [OF mvwf, of key] mt_visible_versions_mem [OF wf, of key] by (metis not_Some_eq)
    moreover have "map_of ?mv key = Some v \<longleftrightarrow> in_bounds start end' key \<and> bt_get (mt_visible_versions ?t ?r) key = Some v" for v
    proof -
      have "map_of ?mv key = Some v \<longleftrightarrow> (key, v) \<in> set ?mv"
        unfolding bt.entries_mem [OF bt_wf_filter [OF mvwf]] bt_get_def by (rule refl)
      then show ?thesis
        using bt.entries_mem [OF mvwf, of key v] by (cases end') (simp_all add: in_bounds_def not_less not_le conj_commute)
    qed
    ultimately show ?thesis by (intro option_eqI) simp
  qed
  note out = fold_keep_newer [OF dist fold_visible(1) [OF sorted bt_wf_Nil]]
  have spec: "scan_spec ?f start end' (live_pairs ?out)"
  proof (rule live_pairs_spec [OF out(1)])
    fix key
    show "Option.bind (bt_get ?out key) vv_value = (if in_bounds start end' key then ?f key else None)"
      unfolding out(2) fold_visible(2) [OF sorted bt_wf_Nil] mv
      using mt_above_segments [OF st mt, of key ?r] by (simp add: newest_in_def fold_newer_None)
  qed
  show ?thesis
    unfolding db_scan_def
  proof (rule yields_cbind [OF creads_yields])
    fix db assume "reading db0 truth db"
    then show "(db_memtable db, db_segments db) = (db_memtable db0, db_segments db0)" by (simp add: reading_fields)
  next
    fix a assume a: "a = (db_memtable db0, db_segments db0)"
    show "yields (reading db0 truth) (case a of (table, segments) \<Rightarrow>
        if length segments = 1 \<and> mt_version_count table = 0 then on_cache (seg_scan (en_codec e) (segments ! 0) start end' ?r)
        else cbind (cfor segments (\<lambda>seg visible.
              cbind (on_cache (visible_from (en_codec e) seg start end' ?r)) (\<lambda>found. cok (fold keep_newer found visible))) []) (\<lambda>visible.
          let visible = fold (\<lambda>(key, version) visible.
                          if key < start \<or> (case end' of None \<Rightarrow> False | Some end' \<Rightarrow> key \<ge> end') then visible
                          else keep_newer (key, version) visible) (mt_visible_versions table ?r) visible in
          cok (List.map_filter (\<lambda>(key, version). map_option (\<lambda>val. (key, val)) (vv_value version)) visible)))
        (scan_spec ?f start end')"
      unfolding a prod.case Let_def
      using single spec unfolding live_pairs_def fold_filter [symmetric]
      by (auto intro!: yields_cbind [OF loop] yields_cok)
  qed
qed

end
