(* ===== verification/Database_Write.thy ===== *)
theory Database_Write
  imports Database_Reads
begin

text \<open>
  Creating, writing and reopening. A write appends its operations to the history exactly when it is
  acknowledged, whatever its I/O does; opening a directory tree gives back the history it stands for.
\<close>

section \<open>Sequence numbers of the log\<close>

lemma batch_ok_decode:
  assumes "batch_ok b"
  obtains batch where "batch_decode (wb_payload b) = Ok batch" "operations batch \<noteq> []"
    "unat (wb_last_sequence b) + 1 = unat (wb_first_sequence b) + length (operations batch)" "wal_operations [b] = operations batch"
  using assms unfolding batch_ok_def by (auto simp: wal_operations_def)

lemma wal_operations_simps [simp]:
  "wal_operations [] = []"
  "wal_operations (bs @ cs) = wal_operations bs @ wal_operations cs"
  by (simp_all add: wal_operations_def)

lemma wal_operations_Cons: "wal_operations (b # bs) = wal_operations [b] @ wal_operations bs"
  by (simp add: wal_operations_def)

lemma unat_succ: "w \<noteq> u64_max \<Longrightarrow> unat (w + 1) = unat w + 1"
  using checked_succ [of w] by (simp add: checked_add_eq_Some)

lemma wal_after_count:
  assumes "wal_chain s bs" and "\<forall>b \<in> set bs. batch_ok b"
  shows "unat (wal_after s bs) = unat s + length (wal_operations bs)"
  using assms
proof (induction bs arbitrary: s)
  case (Cons b bs)
  obtain batch where "batch_decode (wb_payload b) = Ok batch"
    "unat (wb_last_sequence b) + 1 = unat (wb_first_sequence b) + length (operations batch)" "wal_operations [b] = operations batch"
    using Cons.prems(2) by (auto elim: batch_ok_decode)
  moreover have "unat (wb_last_sequence b + 1) = unat (wb_last_sequence b) + 1"
    using Cons.prems(1) by (intro unat_succ) (simp add: valid_wal_batch_def)
  ultimately show ?case
    using Cons.IH [of "wb_last_sequence b + 1"] Cons.prems by (subst wal_operations_Cons) simp
qed simp

lemma log_state_next:
  assumes "log_state crc D h log w acked" and "D \<noteq> u64_max" and "unat D \<le> length h"
  shows "unat (next_sequence w) = length h + 1" and "length h < 2 ^ 64 - 1"
proof -
  have "unat (next_sequence w) = unat (D + 1) + length (wal_operations acked)"
    using assms(1) wal_after_count [of "D + 1" acked] by (simp add: log_state_def wal_inv_def)
  moreover have "length (wal_operations acked) = length h - unat D"
    using assms(1) by (metis log_state_def length_drop)
  ultimately show "unat (next_sequence w) = length h + 1"
    using assms(3) by (simp add: unat_succ [OF assms(2)])
  then show "length h < 2 ^ 64 - 1" using unat_u64_less [of "next_sequence w"] by simp
qed

section \<open>Writing\<close>

lemma seg_state_append:
  assumes "seg_state ess h D R"
  shows "seg_state ess (h @ ops) D R"
proof -
  have D: "unat D \<le> length h" using assms by (simp add: seg_state_def)
  have r: "unat r \<le> length h" if "r \<le> D" for r using that D by (simp add: word_le_nat_alt)
  show ?thesis
    unfolding seg_state_def using assms r by (auto simp: seg_state_def intro: trans_le_add1 [OF D])
qed

lemma manifest_state_append:
  "manifest_state e d m h R ps \<Longrightarrow> \<forall>op \<in> set ops. mutation_key op \<noteq> [] \<Longrightarrow> manifest_state e d m (h @ ops) R ps"
  unfolding manifest_state_def using seg_state_append by auto

text \<open>The invariant after a change of log and memtable only.\<close>

lemma db_inv_log:
  assumes inv: "db_inv e db h R"
    and log: "\<And>acked. log_state (en_crc e) (mf_durable_sequence (db_manifest db)) h (db_wal_file db) (db_wal db) acked \<Longrightarrow>
      \<exists>acked'. log_state (en_crc e) (mf_durable_sequence (db_manifest db)) (h @ ops) log' w' acked'"
    and mt: "mt_rep (unat (mf_durable_sequence (db_manifest db))) (drop (unat (mf_durable_sequence (db_manifest db))) h) (db_memtable db) \<Longrightarrow>
      mt_rep (unat (mf_durable_sequence (db_manifest db))) (drop (unat (mf_durable_sequence (db_manifest db))) (h @ ops)) t'"
    and keys: "\<forall>op \<in> set ops. mutation_key op \<noteq> []"
  shows "db_inv e ((put_wal (db_wal_start db) log' db)\<lparr>db_wal := w', db_memtable := t'\<rparr>) (h @ ops) R"
proof -
  obtain ps ps' acked truth where I: "manifest_state e (db_disk db) (db_manifest db) h R ps"
    "db_wal_start db = mf_wal_start_sequence (db_manifest db)"
    "log_state (en_crc e) (mf_durable_sequence (db_manifest db)) h (db_wal_file db) (db_wal db) acked"
    "mt_rep (unat (mf_durable_sequence (db_manifest db))) (drop (unat (mf_durable_sequence (db_manifest db))) h) (db_memtable db)"
    "mset ps' = mset ps" "open_segments (en_codec e) (db_segments db) ps'"
    "cache_state (en_codec e) (db_segments db) (db_block_cache db) (db_next_id db) truth"
    using inv by (rule db_invE)
  obtain acked' where "log_state (en_crc e) (mf_durable_sequence (db_manifest db)) (h @ ops) log' w' acked'" using log [OF I(3)] by blast
  moreover have "manifest_state e (db_disk (put_wal (db_wal_start db) log' db)) (db_manifest db) (h @ ops) R ps"
    using manifest_state_append [OF I(1) keys] by (simp add: manifest_state_def put_wal_def)
  ultimately show ?thesis
    using I(2,5-7) mt [OF I(4)]
    by (intro db_invI [where ps = ps and ps' = ps' and acked = acked' and truth = truth])
      (simp_all add: put_wal_def db_wal_file_def bt_get_insert)
qed

lemma apply_owned_eq: "apply_owned_write_batch = apply_write_batch"
  by (intro ext) (simp add: apply_owned_write_batch_def apply_write_batch_def)

lemma db_write_owned_eq: "db_write_owned = db_write"
  by (intro ext) (simp add: db_write_owned_def db_write_def apply_owned_eq)

lemma valid_mutation_key: "valid_mutation m \<Longrightarrow> mutation_key m \<noteq> []"
  by (cases m) auto

lemma encoded_batch_ok:
  assumes "batch_encode batch = Ok payload"
  shows "valid_batch batch" and "operations batch \<noteq> []" and "batch_decode payload = Ok batch"
    and "\<forall>op \<in> set (operations batch). mutation_key op \<noteq> []" and "length (operations batch) < 2 ^ 32"
    and "length payload \<le> WAL_MAX_PAYLOAD_BYTES" and "payload \<noteq> []"
proof -
  have v: "valid_batch batch" "payload = batch_bytes (operations batch)" "length payload \<le> WAL_MAX_PAYLOAD_BYTES"
    using assms by (auto simp: batch_encode_eq)
  then show "valid_batch batch" "operations batch \<noteq> []" "batch_decode payload = Ok batch"
    "\<forall>op \<in> set (operations batch). mutation_key op \<noteq> []" "length (operations batch) < 2 ^ 32" "length payload \<le> WAL_MAX_PAYLOAD_BYTES"
    using batch_decode_bytes [OF v(1)] v(2)
    by (auto simp: valid_batch_def valid_mutation_key WAL_MAX_PAYLOAD_BYTES_def MAX_OPERATIONS_def)
  show "payload \<noteq> []" using v(2) by (simp add: batch_bytes_def batch_header_def BATCH_MAGIC_def ascii_def)
qed

text \<open>The range of a batch behind the log: what the memtable expects.\<close>

lemma logged_range:
  assumes log: "log_state crc D h log w acked" and D: "D \<noteq> u64_max" "unat D \<le> length h"
    and batch: "batch_encode batch = Ok payload"
    and lst: "checked_add (next_sequence w) (word_of_nat (length (operations batch)) - 1) = Some lst"
  shows "unat lst = length h + length (operations batch)"
    and "mt_rep (unat D) (drop (unat D) h) t \<Longrightarrow> lst \<noteq> u64_max \<Longrightarrow> \<exists>t'. apply_write_batch t batch (next_sequence w) lst = Ok t' \<and>
      mt_rep (unat D) (drop (unat D) (h @ operations batch)) t' \<and> mt_maximum_sequence t' = lst"
proof -
  note b = encoded_batch_ok [OF batch] and n = log_state_next [OF log D]
  let ?n = "length (operations batch)"
  have pred: "unat (word_of_nat ?n - 1 :: u64) = ?n - 1"
    using b(2,5) by (intro unat_pred_u64) simp_all
  then show last: "unat lst = length h + ?n"
    using lst n(1) b(2) by (cases ?n) (simp_all add: checked_add_eq_Some)
  assume rep: "mt_rep (unat D) (drop (unat D) h) t" and max: "lst \<noteq> u64_max"
  have m: "unat (mt_maximum_sequence t) = length h" using rep D(2) by (simp add: mt_rep_def)
  have "unat (next_sequence w) = unat (saturating_add (mt_maximum_sequence t) 1)"
    using n m by (simp add: unat_saturating_add)
  then have "next_sequence w = saturating_add (mt_maximum_sequence t) 1" by (rule unsigned_word_eqI)
  then obtain t' where t': "apply_write_batch t batch (next_sequence w) lst = Ok t'"
    using lst b(5) by (simp add: apply_write_batch_def batch_len_def u64_try_from_def)
  have "mt_maximum_sequence t \<noteq> u64_max" using m n(2) by (auto simp: u64_max_def unsigned_minus_1_eq_mask mask_eq_exp_minus_1)
  from apply_write_batch_rep [OF rep t' b(2) this]
  show "\<exists>t'. apply_write_batch t batch (next_sequence w) lst = Ok t' \<and>
      mt_rep (unat D) (drop (unat D) (h @ operations batch)) t' \<and> mt_maximum_sequence t' = lst"
    using t' apply_write_batch_ok(3) [OF t' b(2)] D(2) by (intro exI [of _ t']) simp
qed

lemma log_state_ack:
  assumes log: "log_state crc D h log w acked" and D: "unat D \<le> length h" and w: "\<not> poisoned w"
    and b: "valid_wal_batch b" "wb_first_sequence b = next_sequence w" "batch_ok b" "wal_operations [b] = ops"
  shows "log_state crc D (h @ ops) (log @ frame_bytes crc b) (w\<lparr>next_sequence := wb_last_sequence b + 1\<rparr>) (acked @ [b])"
  using assms by (auto simp: log_state_def wal_inv_def wal_chain_append wal_file_append)

lemma log_state_fail:
  assumes log: "log_state crc D h log w acked" and w: "\<not> poisoned w"
    and b: "valid_wal_batch b" "wb_first_sequence b = next_sequence w" "batch_ok b"
  shows "log_state crc D h (log @ take n (frame_bytes crc b)) (w\<lparr>poisoned := True\<rparr>) acked"
  using assms by (auto simp: log_state_def wal_inv_def wal_chain_append)

text \<open>How a write can end.\<close>

lemma db_inv_D:
  assumes "db_inv e db h R"
  shows "mf_durable_sequence (db_manifest db) \<noteq> u64_max" and "unat (mf_durable_sequence (db_manifest db)) \<le> length h"
    and "\<exists>acked. log_state (en_crc e) (mf_durable_sequence (db_manifest db)) h (db_wal_file db) (db_wal db) acked"
    and "mt_rep (unat (mf_durable_sequence (db_manifest db))) (drop (unat (mf_durable_sequence (db_manifest db))) h) (db_memtable db)"
    and "unat (mt_maximum_sequence (db_memtable db)) = length h" and "length h < 2 ^ 64 - 1"
proof -
  obtain ps acked where I: "manifest_state e (db_disk db) (db_manifest db) h R ps"
    "log_state (en_crc e) (mf_durable_sequence (db_manifest db)) h (db_wal_file db) (db_wal db) acked"
    "mt_rep (unat (mf_durable_sequence (db_manifest db))) (drop (unat (mf_durable_sequence (db_manifest db))) h) (db_memtable db)"
    using assms by (rule db_invE)
  have D: "mf_durable_sequence (db_manifest db) \<noteq> u64_max" "unat (mf_durable_sequence (db_manifest db)) \<le> length h"
    using I(1) by (auto simp: manifest_state_def seg_state_def)
  then show "mf_durable_sequence (db_manifest db) \<noteq> u64_max" "unat (mf_durable_sequence (db_manifest db)) \<le> length h"
    "\<exists>acked. log_state (en_crc e) (mf_durable_sequence (db_manifest db)) h (db_wal_file db) (db_wal db) acked"
    "mt_rep (unat (mf_durable_sequence (db_manifest db))) (drop (unat (mf_durable_sequence (db_manifest db))) h) (db_memtable db)"
    "unat (mt_maximum_sequence (db_memtable db)) = length h" "length h < 2 ^ 64 - 1"
    using I log_state_next(2) [OF I(2) D] by (auto simp: mt_rep_def)
qed

lemma db_write_cases:
  assumes inv: "db_inv e db h R" and res: "db_write e io batch dur db = (res, db')"
  obtains (refused) err where "res = Err err" "db_inv e db' h R"
  | (acknowledged) receipt where "res = Ok receipt" "db_inv e db' (h @ operations batch) R"
      "unat (ar_first_sequence receipt) = length h + 1" "unat (ar_last_sequence receipt) = length h + length (operations batch)"
      "db_snapshot db' = \<lparr>sn_sequence = ar_last_sequence receipt\<rparr>" "ar_durable receipt = (dur = Authoritative)" "operations batch \<noteq> []"
      "db_wal db' = (db_wal db)\<lparr>next_sequence := ar_last_sequence receipt + 1\<rparr>" "db_manifest db' = db_manifest db" "\<not> poisoned (db_wal db)"
proof -
  let ?D = "mf_durable_sequence (db_manifest db)" and ?w = "db_wal db" and ?n = "length (operations batch)"
  note I = db_inv_D [OF inv]
  obtain acked where log: "log_state (en_crc e) ?D h (db_wal_file db) ?w acked" using I(3) by blast
  have keep: "db_inv e ((put_wal (db_wal_start db) log' db)\<lparr>db_wal := w'\<rparr>) h R"
    if "\<And>acked. log_state (en_crc e) ?D h (db_wal_file db) ?w acked \<Longrightarrow> log_state (en_crc e) ?D h log' w' acked" for log' w'
  proof -
    have "db_inv e ((put_wal (db_wal_start db) log' db)\<lparr>db_wal := w', db_memtable := db_memtable db\<rparr>) (h @ []) R"
      by (rule db_inv_log [OF inv]) (use that in auto)
    moreover have "(put_wal (db_wal_start db) log' db)\<lparr>db_wal := w', db_memtable := db_memtable db\<rparr> = (put_wal (db_wal_start db) log' db)\<lparr>db_wal := w'\<rparr>"
      by (simp add: put_wal_def)
    ultimately show ?thesis by simp
  qed
  show thesis
  proof (cases "batch_encode batch")
    case (Inl err)
    then have "res = Err err" "db' = db" using res by (simp_all add: db_write_def cbind_def clift_def)
    with inv refused show thesis by simp
  next
    case (Inr payload)
    note b = encoded_batch_ok [OF Inr]
    have count: "u64_try_from (batch_len batch) = Some (word_of_nat ?n)" using b(5) by (simp add: u64_try_from_def batch_len_def)
    show thesis
    proof (cases "checked_add (next_sequence ?w) (word_of_nat ?n - 1)")
      case None
      then have "res = Err (InvalidBatch ''sequence range overflow'')"
        "db' = (put_wal (db_wal_start db) (db_wal_file db) db)\<lparr>db_wal := ?w\<rparr>"
        using res Inr count by (auto simp: db_write_def cbind_def clift_def append_batch_def wal_append_encoded_write_batch_def)
      with keep refused show thesis by blast
    next
      case (Some lst)
      note range = logged_range [OF log I(1,2) Inr Some]
      let ?b = "\<lparr>wb_first_sequence = next_sequence ?w, wb_last_sequence = lst, wb_payload = payload\<rparr>"
      have bok: "batch_ok ?b" "wal_operations [?b] = operations batch"
        using b(2,3) range(1) log_state_next(1) [OF log I(1,2)] by (auto simp: batch_ok_def wal_operations_def)
      obtain r log' w' where ap: "wal_append (en_crc e) io (db_wal_file db) ?w ?b dur = (r, log', w')" by (metis prod_cases3)
      then have step: "append_batch e io batch payload dur db = (r, (put_wal (db_wal_start db) log' db)\<lparr>db_wal := w'\<rparr>)"
        using count Some by (simp add: append_batch_def wal_append_encoded_write_batch_def)
      from ap show thesis
      proof (cases rule: wal_append_cases)
        case (refused err)
        then have "res = Err err" "db' = (put_wal (db_wal_start db) log' db)\<lparr>db_wal := w'\<rparr>"
          using res Inr step by (auto simp: db_write_def cbind_def clift_def)
        with keep [of log' w'] refused that(1) show thesis by simp
      next
        case (failed n)
        then have "res = Err (Io StorageFault)" "db' = (put_wal (db_wal_start db) log' db)\<lparr>db_wal := w'\<rparr>"
          using res Inr step by (auto simp: db_write_def cbind_def clift_def)
        with keep [of log' w'] log_state_fail [OF _ failed(2-4) bok(1), of "en_crc e" ?D h "db_wal_file db" _ n] failed that(1) show thesis by simp
      next
        case acknowledged
        have max: "lst \<noteq> u64_max" using acknowledged(3) by (simp add: valid_wal_batch_def)
        obtain t' where t': "apply_write_batch (db_memtable db) batch (next_sequence ?w) lst = Ok t'"
          "mt_rep (unat ?D) (drop (unat ?D) (h @ operations batch)) t'" "mt_maximum_sequence t' = lst"
          using range(2) [OF I(4) max] by blast
        let ?db = "(put_wal (db_wal_start db) log' db)\<lparr>db_wal := w', db_memtable := t'\<rparr>"
        have "db_inv e ?db (h @ operations batch) R"
          using log_state_ack [OF _ I(2) acknowledged(2-4) bok] acknowledged(6,7) t'(2) b(4) by (intro db_inv_log [OF inv]) blast+
        moreover have "res = r" "db' = ?db"
          using res Inr step acknowledged t'(1)
          by (auto simp: db_write_def cbind_def clift_def cok_def apply_to_memtable_def put_wal_def)
        ultimately show thesis
          using acknowledged range(1) log_state_next(1) [OF log I(1,2)] t'(3) b(2)
          by (intro that(2)) (auto simp: db_snapshot_def put_wal_def)
      qed
    qed
  qed
qed

lemma db_write_succeeds:
  assumes inv: "db_inv e db h R" and "\<not> poisoned (db_wal db)" and batch: "batch_encode batch = Ok payload"
    and room: "length h + length (operations batch) < 2 ^ 64 - 1"
  shows "\<exists>receipt. fst (db_write e None batch dur db) = Ok receipt"
proof -
  let ?D = "mf_durable_sequence (db_manifest db)" and ?w = "db_wal db" and ?n = "length (operations batch)"
  note I = db_inv_D [OF inv] and b = encoded_batch_ok [OF batch]
  obtain acked where log: "log_state (en_crc e) ?D h (db_wal_file db) ?w acked" using I(3) by blast
  have pred: "unat (word_of_nat ?n - 1 :: u64) = ?n - 1" using b(2,5) by (intro unat_pred_u64) simp_all
  note next_seq = log_state_next(1) [OF log I(1,2)]
  obtain lst where lst: "checked_add (next_sequence ?w) (word_of_nat ?n - 1) = Some lst"
    using room next_seq pred b(2) by (cases ?n) (auto simp: checked_add_def)
  note range = logged_range [OF log I(1,2) batch lst]
  have max: "lst \<noteq> u64_max" using range(1) room by (auto simp: u64_max_def unsigned_minus_1_eq_mask mask_eq_exp_minus_1)
  let ?b = "\<lparr>wb_first_sequence = next_sequence ?w, wb_last_sequence = lst, wb_payload = payload\<rparr>"
  have "valid_wal_batch ?b"
    using next_seq range(1) max b(2,6,7) by (auto simp: valid_wal_batch_def word_le_nat_alt Suc_le_eq)
  then obtain receipt log' w' where ap: "wal_append (en_crc e) None (db_wal_file db) ?w ?b dur = (Ok receipt, log', w')"
    "ar_first_sequence receipt = next_sequence ?w" "ar_last_sequence receipt = lst"
    using assms(2) wal_batch_validate_ok [of ?b "()"] checked_succ [OF max] by (simp add: wal_append_def record_header_eq Let_def)
  obtain t' where "apply_write_batch (db_memtable db) batch (next_sequence ?w) lst = Ok t'"
    using range(2) [OF I(4) max] by blast
  then show ?thesis
    using batch b(5) lst ap
    by (simp add: db_write_def cbind_def clift_def cok_def append_batch_def wal_append_encoded_write_batch_def u64_try_from_def
        batch_len_def apply_to_memtable_def put_wal_def)
qed

section \<open>Creating\<close>

lemma cache_state_new: "n < 2 ^ 64 - 1 \<Longrightarrow> cache_state c [] (new_block_cache n) next_id (\<lambda>_ _. Err PoisonedWriter)"
  using coherent_new_cache [of n] by (simp add: cache_state_def)

lemma create_inv:
  assumes laws: "json_laws (en_json e)" and n: "n < 2 ^ 64 - 1"
  shows "\<exists>db. db_create e None None (Published, Published) n next_id = (Ok db, db_disk db) \<and> db_inv e db [] UNIV \<and> \<not> poisoned (db_wal db)"
proof -
  let ?j = "en_json e"
  obtain m where m: "manifest_new ?j 1 None 0 0 1 [] = Ok m"
    by (auto simp: manifest_new_def validate_components_def Let_def saturating_add_def)
  note mf = m [unfolded manifest_new_ok [OF laws]]
  let ?st = "dk_store empty_disk"
  obtain res st' where pub: "store_publish ?j (Published, Published) m None ?st = (res, st')" by fastforce
  have cur: "store_current ?j ?st = Ok None" by (simp add: empty_disk_def store_current_def)
  have ext: "extends_current m None" using mf by (simp add: extends_current_def)
  have "res = Ok (pointer_new m) \<and> store_current ?j st' = Ok (Some (pointer_new m, m))"
  proof -
    have "res = Ok (pointer_new m)"
      using pub mf cur ext
      by (auto simp: store_publish_def persist_manifest_def persist_rename_def publish_pointer_def empty_disk_def Let_def)
    then show ?thesis using store_publish_cases [OF laws pub] by auto
  qed
  note res = this
  let ?d = "empty_disk\<lparr>dk_wals := [(1, file_header (en_crc e))], dk_store := st'\<rparr>"
  let ?w = "\<lparr>next_sequence = 1, poisoned = False\<rparr>"
  let ?db = "\<lparr>db_disk = ?d, db_manifest = m, db_wal = ?w, db_wal_start = 1, db_memtable = at_sequence 0, db_segments = [],
    db_block_cache = new_block_cache n, db_next_id = next_id\<rparr>"
  have create: "db_create e None None (Published, Published) n next_id = (Ok ?db, ?d)"
    using m pub res by (simp add: db_create_def create_wal_def wal_create_at_def empty_disk_def Let_def)
  have "manifest_state e ?d m [] UNIV []"
    using res mf pointer_new_ok(2) [of ?j m]
    by (auto simp: manifest_state_def seg_state_def sound_entries_def newest_in_def replay_def u64_max_def)
  moreover have "log_state (en_crc e) 0 [] (file_header (en_crc e)) ?w []"
    by (simp add: log_state_def wal_inv_def wal_file_def)
  ultimately have "db_inv e ?db [] UNIV"
    using mf cache_state_new [OF n] mt_rep_at_sequence [of 0]
    by (intro db_invI [where ps = "[]" and ps' = "[]" and acked = "[]" and truth = "\<lambda>_ _. Err PoisonedWriter"])
      (simp_all add: db_wal_file_def bt_get_def open_segments_def)
  then show ?thesis using create by (intro exI [of _ ?db]) simp
qed

section \<open>Opening\<close>

definition numbered :: "u64 \<Rightarrow> segment \<Rightarrow> bool" where
  "numbered n seg = (case seg_storage seg of Legacy _ _ \<Rightarrow> True | Blocked _ _ k \<Rightarrow> k = n)"

lemma segment_open_any_id:
  assumes "segment_open c n bs = Ok seg"
  shows "\<exists>seg'. segment_open c n' bs = Ok seg' \<and> seg_descriptor seg' = seg_descriptor seg \<and> numbered n' seg' \<and>
    (\<forall>es. segment_rep c seg' es \<longleftrightarrow> segment_rep c seg es)"
proof (cases "u16_from_be_bytes (subslice 8 10 bs) = SEGMENT_FORMAT_VERSION \<and> subslice 0 8 bs = SEGMENT_V3_MAGIC")
  case True
  then obtain d blocks where "decode_v3_file c k bs = Ok (build_blocked_segment d (File_Source bs) blocks k)" for k
    using assms by (fastforce simp: segment_open_def decode_v3_file_def res_simps split: if_splits)
  with True assms show ?thesis
    by (auto simp: segment_open_def build_blocked_segment_def numbered_def segment_rep_def storage_rep_def split: if_splits)
next
  case False
  then have "segment_open c n' bs = Ok seg" and l: "decode_legacy c bs = Ok seg"
    using assms by (auto simp: segment_open_def split: if_splits)
  moreover have "numbered n' seg" using l by (auto simp: numbered_def decode_legacy_def Let_def res_simps split: if_splits)
  ultimately show ?thesis by blast
qed

lemma known_block_ok:
  assumes "segment_rep c seg es" and "knows truth c seg" and "seg_storage seg = Blocked src blocks k"
  shows "is_ok (truth k 0)"
proof -
  obtain bss where bss: "es = concat bss" "list_all2 (block_holds c src) blocks bss"
    using assms by (auto simp: segment_rep_def storage_rep_def)
  have "es \<noteq> []" using assms(1) by (simp add: segment_rep_def descriptor_rep_def)
  then have "0 < length blocks" using bss by (cases blocks) auto
  moreover from this have "block_holds c src (blocks ! 0) (bss ! 0)" using list_all2_nthD [OF bss(2)] by blast
  ultimately show ?thesis
    using assms(2,3) by (auto simp: knows_def block_holds_def decoded_block_parse_of)
qed

text \<open>Opening one more segment under the next number.\<close>

lemma cache_state_extend:
  assumes st: "cache_state c segs cache n truth" and rep: "\<forall>seg \<in> set segs. \<exists>es. segment_rep c seg es"
    and new: "numbered n seg" and n: "n \<noteq> u64_max"
  shows "\<exists>truth'. cache_state c (segs @ [seg]) cache (n + 1) truth' \<and> cache_state c [seg] cache (n + 1) truth'"
proof -
  let ?t = "truth(n := own_truth c seg n)"
  have fresh: "\<not> is_ok (truth k i)" if "n \<le> k" for k i using st that by (simp add: cache_state_def)
  have "cache_coherent ?t cache"
    unfolding cache_coherent_def
  proof (intro conjI allI impI)
    show "cache_wf cache" using st by (simp add: cache_state_def cache_coherent_def)
    fix key b assume "cache_content cache key = Some b"
    then have "truth (fst key) (snd key) = Ok b" using st by (simp add: cache_state_def cache_coherent_def)
    moreover from this have "fst key \<noteq> n" using fresh [of n "snd key"] by (metis is_ok_simps(1) order_refl)
    ultimately show "?t (fst key) (snd key) = Ok b" by simp
  qed
  moreover have "knows ?t c s" if "s \<in> set segs" for s
  proof (cases "seg_storage s")
    case (Blocked src blocks k)
    obtain es where "segment_rep c s es" using rep \<open>s \<in> set segs\<close> by blast
    moreover have "knows truth c s" using st \<open>s \<in> set segs\<close> by (simp add: cache_state_def)
    ultimately have "is_ok (truth k 0)" using Blocked by (rule known_block_ok)
    then have "k \<noteq> n" using fresh [of n 0] by blast
    then show ?thesis using \<open>knows truth c s\<close> by (simp add: knows_def Blocked)
  qed (simp add: knows_def)
  moreover have "knows ?t c seg"
    using new by (auto simp: knows_def own_truth_def numbered_def split: segment_storage.splits)
  moreover have "\<not> is_ok (?t k i)" if "n + 1 \<le> k" for k i
  proof -
    have "unat n < unat k" using that unat_succ [OF n] by (simp add: word_le_nat_alt)
    then have "n < k" by (simp add: word_less_nat_alt)
    then show ?thesis using fresh [of k] by auto
  qed
  ultimately show ?thesis by (intro exI [of _ ?t]) (auto simp: cache_state_def)
qed

lemma open_segments_mem: "open_segments c segs ps \<Longrightarrow> seg \<in> set segs \<Longrightarrow> \<exists>es. segment_rep c seg es"
  unfolding open_segments_def by (induction rule: list_all2_induct) auto

lemma open_segments_loop:
  assumes "\<forall>(dsc, es) \<in> set ps. disk_segment (en_codec e) (dk_segments d) dsc es"
    and "open_segments (en_codec e) segs ps0" and "cache_state (en_codec e) segs cache n truth"
    and "unat n + length ps < 2 ^ 64"
  shows "\<exists>n' segs' truth'. try_fold (open_manifest_segment e d) (map fst ps) (n, segs) = Ok (n', segs') \<and>
    open_segments (en_codec e) segs' (ps0 @ ps) \<and> cache_state (en_codec e) segs' cache n' truth'"
  using assms
proof (induction ps arbitrary: n segs ps0 truth)
  case (Cons p ps)
  obtain dsc es where p: "p = (dsc, es)" by (cases p)
  obtain bs seg0 where bs: "bt_get (dk_segments d) (sd_id dsc) = Some bs" "segment_open (en_codec e) 0 bs = Ok seg0"
    "(seg_descriptor seg0)\<lparr>sd_level := sd_level dsc\<rparr> = dsc" "segment_rep (en_codec e) seg0 es"
    using Cons.prems(1) by (auto simp: p disk_segment_def)
  obtain seg where seg: "segment_open (en_codec e) n bs = Ok seg" "seg_descriptor seg = seg_descriptor seg0" "numbered n seg"
    "segment_rep (en_codec e) seg es"
    using segment_open_any_id [OF bs(2), of n] bs(4) by blast
  let ?seg = "seg\<lparr>seg_descriptor := (seg_descriptor seg)\<lparr>sd_level := sd_level dsc\<rparr>\<rparr>"
  have step: "open_manifest_segment e d dsc (n, segs) = Ok (n + 1, segs @ [?seg])"
    using bs seg by (simp add: open_manifest_segment_def)
  have num: "numbered n ?seg" using seg(3) by (simp add: numbered_def)
  have "?seg = seg\<lparr>seg_descriptor := dsc\<rparr>" using bs(3) seg(2) by simp
  then have opened: "open_segments (en_codec e) (segs @ [?seg]) (ps0 @ [p])"
    using Cons.prems(2) bs(3) seg(2,4) segment_rep_level [where c = "en_codec e" and seg = seg and l = "sd_level dsc"]
    by (simp add: open_segments_def p list_all2_append list_all2_lengthD)
  have reps: "\<forall>seg \<in> set segs. \<exists>es. segment_rep (en_codec e) seg es"
    using open_segments_mem [OF Cons.prems(2)] by blast
  have "n \<noteq> u64_max" using Cons.prems(4) by (auto simp: u64_max_def unsigned_minus_1_eq_mask mask_eq_exp_minus_1)
  from cache_state_extend [OF Cons.prems(3) reps num this] obtain truth' where
    "cache_state (en_codec e) (segs @ [?seg]) cache (n + 1) truth'" by blast
  moreover have "unat (n + 1) + length ps < 2 ^ 64" using unat_succ [OF \<open>n \<noteq> u64_max\<close>] Cons.prems(4) by simp
  ultimately show ?case
    using Cons.IH [OF _ opened, of "n + 1" truth'] Cons.prems(1) step by (simp add: p)
qed auto

text \<open>Rebuilding the memtable from the recovered batches.\<close>

lemma mt_recover_chain:
  assumes "wal_chain s bs" and "\<forall>b \<in> set bs. batch_ok b" and "mt_rep base ops t" and "unat s = base + length ops + 1"
  shows "\<exists>t'. try_fold mt_apply (recovered_frames crc n bs) t = Ok t' \<and> mt_rep base (ops @ wal_operations bs) t'"
  using assms
proof (induction bs arbitrary: s ops t n)
  case (Cons b bs)
  have b: "valid_wal_batch b" "wb_first_sequence b = s" "wal_chain (wb_last_sequence b + 1) bs" "batch_ok b" using Cons.prems by auto
  obtain batch where batch: "batch_decode (wb_payload b) = Ok batch" "operations batch \<noteq> []"
    "unat (wb_last_sequence b) + 1 = unat (wb_first_sequence b) + length (operations batch)" "wal_operations [b] = operations batch"
    using b(4) by (rule batch_ok_decode)
  have len: "length (operations batch) < 2 ^ 32"
    using batch_decode_sound [OF batch(1)] by (auto simp: valid_batch_def MAX_OPERATIONS_def)
  have m: "unat (mt_maximum_sequence t) = base + length ops" using Cons.prems(3) by (simp add: mt_rep_def)
  have "unat s = unat (saturating_add (mt_maximum_sequence t) 1)"
    using m Cons.prems(4) unat_u64_less [of s] by (simp add: unat_saturating_add)
  then have first: "s = saturating_add (mt_maximum_sequence t) 1" by (rule unsigned_word_eqI)
  have "unat (word_of_nat (length (operations batch)) - 1 :: u64) = length (operations batch) - 1"
    using batch(2) len by (intro unat_pred_u64) simp_all
  then have "checked_add s (word_of_nat (length (operations batch)) - 1) = Some (wb_last_sequence b)"
    using batch(2,3) b(2) unat_u64_less [of "wb_last_sequence b"] by (cases "operations batch") (simp_all add: checked_add_eq_Some)
  then obtain t1 where t1: "apply_write_batch t batch s (wb_last_sequence b) = Ok t1"
    using first len by (simp add: apply_write_batch_def batch_len_def u64_try_from_def)
  have "mt_maximum_sequence t \<noteq> u64_max"
    using m Cons.prems(4) unat_u64_less [of s] by (auto simp: u64_max_def unsigned_minus_1_eq_mask mask_eq_exp_minus_1)
  from apply_write_batch_rep [OF Cons.prems(3) t1 batch(2) this] have rep: "mt_rep base (ops @ operations batch) t1" .
  have "unat (wb_last_sequence b + 1) = base + length (ops @ operations batch) + 1"
    using b(1,2) batch(3) Cons.prems(4) unat_succ [of "wb_last_sequence b"] by (simp add: valid_wal_batch_def)
  from Cons.IH [OF b(3) _ rep this] Cons.prems(2)
  obtain t' where "try_fold mt_apply (recovered_frames crc (n + length (frame_bytes crc b)) bs) t1 = Ok t'"
    "mt_rep base ((ops @ operations batch) @ wal_operations bs) t'" by auto
  moreover have "mt_apply (frame_recovered crc n b) t = Ok t1"
    using batch(1) t1 b(2) by (simp add: mt_apply_def frame_recovered_def)
  ultimately show ?case using batch(4) by (subst wal_operations_Cons) simp
qed auto

lemma db_open_inv:
  assumes inv: "disk_inv e d h R" and n: "n < 2 ^ 64 - 1"
    and ids: "\<And>p m. store_current (en_json e) (dk_store d) = Ok (Some (p, m)) \<Longrightarrow> unat next_id + length (mf_segments m) < 2 ^ 64"
    and logs: "\<And>k log. bt_get (dk_wals d) k = Some log \<Longrightarrow> length log < 2 ^ 63"
  shows "\<exists>db. db_open e n next_id d = Ok db \<and> db_inv e db h R \<and> db_disk db = d \<and> \<not> poisoned (db_wal db)"
proof -
  obtain m ps log w acked where I: "manifest_state e d m h R ps" "bt_get (dk_wals d) (mf_wal_start_sequence m) = Some log"
    "\<not> poisoned w" "log_state (en_crc e) (mf_durable_sequence m) h log w acked"
    using inv unfolding disk_inv_def by blast
  let ?D = "mf_durable_sequence m"
  obtain p where M: "store_current (en_json e) (dk_store d) = Ok (Some (p, m))" "mf_segments m = map fst ps"
    "\<forall>(dsc, es) \<in> set ps. disk_segment (en_codec e) (dk_segments d) dsc es" "?D \<noteq> u64_max" "mf_wal_start_sequence m = ?D + 1"
    "unat ?D \<le> length h"
    using I(1) by (auto simp: manifest_state_def seg_state_def)
  have L: "log = wal_file (en_crc e) acked" "wal_chain (?D + 1) acked" "\<forall>b \<in> set acked. batch_ok b" "drop (unat ?D) h = wal_operations acked"
    "?D + 1 \<noteq> 0" "next_sequence w = wal_after (?D + 1) acked"
    using I(3,4) by (auto simp: log_state_def wal_inv_def)
  have "open_segments (en_codec e) [] []" by (simp add: open_segments_def)
  from open_segments_loop [OF M(3) this cache_state_new [OF n], of next_id] ids [OF M(1)] M(2)
  obtain n' segs truth where segs: "try_fold (open_manifest_segment e d) (mf_segments m) (next_id, []) = Ok (n', segs)"
    "open_segments (en_codec e) segs ps" "cache_state (en_codec e) segs (new_block_cache n) n' truth" by auto
  have rec: "recover_from (en_crc e) log (?D + 1) = Ok (wal_recovery (en_crc e) (?D + 1) acked [])"
    using recover_from_wal_file [OF L(5) L(2), of "en_crc e" "[]"] logs [OF I(2)] L(1) by simp
  obtain t where t: "try_fold mt_apply (recovered_frames (en_crc e) 16 acked) (at_sequence ?D) = Ok t" "mt_rep (unat ?D) (wal_operations acked) t"
    using mt_recover_chain [OF L(2,3) mt_rep_at_sequence] unat_succ [OF M(4)] by fastforce
  note next_seq = log_state_next [OF I(4) M(4,6)]
  have "unat (saturating_sub (wal_after (?D + 1) acked) 1) = length h"
    using next_seq L(6) by (simp add: unat_saturating_sub)
  then have "saturating_sub (wal_after (?D + 1) acked) 1 \<noteq> u64_max"
    using next_seq(2) by (auto simp: u64_max_def unsigned_minus_1_eq_mask mask_eq_exp_minus_1)
  from checked_succ [OF this] have "wal_open_at (en_crc e) log (?D + 1) = Ok \<lparr>next_sequence = saturating_sub (wal_after (?D + 1) acked) 1 + 1, poisoned = False\<rparr>"
    by (simp add: wal_open_at_def rec wal_recovery_fields)
  moreover have "saturating_sub (wal_after (?D + 1) acked) 1 + 1 = next_sequence w"
    using next_seq(1) L(6) by (auto simp: saturating_sub_def u64_one_le)
  ultimately have w: "wal_open_at (en_crc e) log (?D + 1) = Ok \<lparr>next_sequence = next_sequence w, poisoned = False\<rparr>" by simp
  let ?db = "\<lparr>db_disk = d, db_manifest = m, db_wal = \<lparr>next_sequence = next_sequence w, poisoned = False\<rparr>, db_wal_start = ?D + 1,
    db_memtable = t, db_segments = segs, db_block_cache = new_block_cache n, db_next_id = n'\<rparr>"
  have "db_open e n next_id d = Ok ?db"
    using M(1,5) segs(1) I(2) rec t(1) w by (simp add: db_open_def mt_recover_from_def wal_recovery_fields)
  moreover have "db_inv e ?db h R"
    using I M(5) t(2) L segs(2,3)
    by (intro db_invI [where ps = ps and ps' = ps and acked = acked and truth = truth])
      (simp_all add: db_wal_file_def log_state_def wal_inv_def)
  ultimately show ?thesis by (intro exI [of _ ?db]) simp
qed

section \<open>Restarting after a failed write\<close>

text \<open>What the log behind a failed write recovers to once its torn tail is cut: the acknowledged history,
  or that with the failed batch when its whole frame reached the file.\<close>

lemma torn_log_repairs:
  assumes log: "log_state crc D h log w acked" and D: "unat D \<le> length h" and small: "length log + WAL_MAX_PAYLOAD_BYTES + 32 < 2 ^ 63"
  shows "\<exists>r log' ops w' acked'. repair_torn_tail_from crc log (D + 1) = (Ok r, log') \<and> length log' < 2 ^ 63 \<and>
    log_state crc D (h @ ops) log' w' acked' \<and> \<not> poisoned w' \<and> (ops = [] \<or> poisoned w) \<and> (\<forall>op \<in> set ops. mutation_key op \<noteq> [])"
proof -
  have L: "D + 1 \<noteq> 0" "wal_chain (D + 1) acked" "\<forall>b \<in> set acked. batch_ok b" "drop (unat D) h = wal_operations acked"
    using log by (auto simp: log_state_def wal_inv_def)
  have state: "log_state crc D (h @ wal_operations extra) (wal_file crc (acked @ extra)) \<lparr>next_sequence = wal_after (D + 1) (acked @ extra), poisoned = False\<rparr> (acked @ extra)"
    if "wal_chain (D + 1) (acked @ extra)" "\<forall>b \<in> set extra. batch_ok b" for extra
    using L D that by (auto simp: log_state_def wal_inv_def)
  have fin: "\<exists>r log' ops w' acked'. repair_torn_tail_from crc log (D + 1) = (Ok r, log') \<and> length log' < 2 ^ 63 \<and>
      log_state crc D (h @ ops) log' w' acked' \<and> \<not> poisoned w' \<and> (ops = [] \<or> poisoned w) \<and> (\<forall>op \<in> set ops. mutation_key op \<noteq> [])"
    if rec: "recover_from crc log (D + 1) = Ok (wal_recovery crc (D + 1) (acked @ extra) tail)" and log: "log = wal_file crc (acked @ extra) @ tail"
      and extra: "wal_chain (D + 1) (acked @ extra)" "\<forall>b \<in> set extra. batch_ok b" "extra = [] \<or> poisoned w" for extra tail
  proof -
    have "recover_from crc (wal_file crc (acked @ extra)) (D + 1) = Ok (wal_recovery crc (D + 1) (acked @ extra) [])"
      using recover_from_wal_file [OF L(1) extra(1), of crc "[]"] small log by simp
    then have "repair_torn_tail_from crc log (D + 1) = (Ok (wal_recovery crc (D + 1) (acked @ extra) []), wal_file crc (acked @ extra))"
      using rec log by (cases "tail = []") (simp_all add: repair_torn_tail_from_def wal_recovery_fields)
    moreover have "\<forall>op \<in> set (wal_operations extra). mutation_key op \<noteq> []"
    proof -
      have "mutation_key op \<noteq> []" if b: "b \<in> set extra" and op: "op \<in> set (wal_operations [b])" for b op
      proof -
        have "batch_ok b" using extra(2) b by blast
        then obtain batch where "batch_decode (wb_payload b) = Ok batch" "wal_operations [b] = operations batch"
          by (rule batch_ok_decode)
        then show ?thesis using op batch_decode_sound valid_mutation_key by (fastforce simp: valid_batch_def)
      qed
      then show ?thesis by (auto simp: wal_operations_def)
    qed
    ultimately show ?thesis
      using state [OF extra(1,2)] extra(3) log small
      by (intro exI [of _ "wal_recovery crc (D + 1) (acked @ extra) []"] exI [of _ "wal_file crc (acked @ extra)"] exI [of _ "wal_operations extra"]
          exI [of _ "\<lparr>next_sequence = wal_after (D + 1) (acked @ extra), poisoned = False\<rparr>"] exI [of _ "acked @ extra"]) auto
  qed
  show ?thesis
  proof (cases "poisoned w")
    case False
    then have "log = wal_file crc (acked @ []) @ []" using log by (simp add: log_state_def wal_inv_def)
    then show ?thesis
      using L(2) recover_from_wal_file [OF L(1,2), of crc "[]"] small by (intro fin [of "[]" "[]"]) simp_all
  next
    case True
    then obtain b n where b: "wal_chain (D + 1) (acked @ [b])" "batch_ok b" "log = wal_file crc acked @ take n (frame_bytes crc b)"
      using log by (auto simp: log_state_def)
    have "length (wb_payload b) \<le> WAL_MAX_PAYLOAD_BYTES" using b(1) by (auto simp: wal_chain_append valid_wal_batch_def)
    then have "length (wal_file crc (acked @ [b])) < 2 ^ 63" using small b(3) by (simp add: wal_file_append)
    note rec = recover_from_partial_frame [OF L(1) b(1) this, of n, folded b(3)]
    show ?thesis
    proof (cases "n < length (frame_bytes crc b)")
      case True
      then show ?thesis using rec L(2) b(3) by (intro fin [of "[]" "take n (frame_bytes crc b)"]) simp_all
    next
      case False
      then show ?thesis using rec b \<open>poisoned w\<close> by (intro fin [of "[b]" "[]"]) (simp_all add: wal_file_append)
    qed
  qed
qed

section \<open>Reading\<close>

lemma db_reads:
  assumes "db_inv e db h R" and "sn_sequence at \<in> R"
  shows "(\<exists>db'. db_get e key at db = (Ok (replay (take (unat (sn_sequence at)) h) key), db') \<and> db_inv e db' h R) \<and>
    (\<exists>db'. db_get_many e keys at db = (Ok (map (replay (take (unat (sn_sequence at)) h)) keys), db') \<and> db_inv e db' h R) \<and>
    (\<exists>out db'. db_scan e start end' at db = (Ok out, db') \<and> db_inv e db' h R \<and> sorted_wrt (<) (map fst out) \<and>
       set out = {(key, val). in_bounds start end' key \<and> replay (take (unat (sn_sequence at)) h) key = Some val})"
proof -
  let ?r = "sn_sequence at" and ?D = "mf_durable_sequence (db_manifest db)"
  obtain ps ps' acked where I: "manifest_state e (db_disk db) (db_manifest db) h R ps"
    "mt_rep (unat ?D) (drop (unat ?D) h) (db_memtable db)" "mset ps' = mset ps" "open_segments (en_codec e) (db_segments db) ps'"
    using assms(1) by (rule db_invE)
  obtain truth where know: "\<forall>seg \<in> set (db_segments db). knows truth (en_codec e) seg" and r0: "reading db truth db"
    and inv: "\<And>db'. reading db truth db' \<Longrightarrow> db_inv e db' h R"
    using reading_db_inv [OF assms(1)] by blast
  have "mset (map snd ps') = mset (map snd ps)" using I(3) by simp
  moreover have "seg_state (map snd ps) h ?D R" using I(1) by (simp add: manifest_state_def)
  ultimately have st: "seg_state (map snd ps') h ?D R" by (rule seg_state_perm(1) [rotated])
  note rep = open_segments_rep [OF I(4)]
  have read: "layered_read (db_memtable db) (map snd ps') key ?r = replay (take (unat ?r) h) key" for key
    by (rule layered_read_replay [OF st I(2) assms(2)])
  have "\<exists>db'. db_get e key at db = (Ok (replay (take (unat ?r) h) key), db') \<and> db_inv e db' h R"
    using db_get_yields [OF rep st know, of key at] r0 inv unfolding yields_def read by blast
  moreover have "\<exists>db'. db_get_many e keys at db = (Ok (map (replay (take (unat ?r) h)) keys), db') \<and> db_inv e db' h R"
    using db_get_many_yields [OF rep st know, of keys at] r0 inv unfolding yields_def read by blast
  moreover have "\<exists>out db'. db_scan e start end' at db = (Ok out, db') \<and> db_inv e db' h R \<and> sorted_wrt (<) (map fst out) \<and>
       set out = {(key, val). in_bounds start end' key \<and> replay (take (unat ?r) h) key = Some val}"
  proof -
    obtain out db' where "db_scan e start end' at db = (Ok out, db')" "reading db truth db'"
      "scan_spec (\<lambda>key. layered_read (db_memtable db) (map snd ps') key ?r) start end' out"
      using db_scan_yields [OF rep st know I(2), of start end' at] r0 unfolding yields_def by blast
    then show ?thesis using inv unfolding scan_spec_def read by auto
  qed
  ultimately show ?thesis by blast
qed

section \<open>Properties\<close>

text \<open>Writes are atomic appends to the history. Whatever the I/O does, a write that is acknowledged
  extends the history by exactly its operations, at the sequence numbers its receipt names, and makes them
  the newest snapshot; a write that fails leaves the history unchanged. A valid batch is acknowledged
  whenever the log has not failed before, its I/O succeeds and the sequence numbers suffice. The owned
  variant does the same.\<close>

lemma database_write_history:
  assumes "db_inv e db h R" and "db_write e io batch dur db = (res, db')"
  shows "(case res of
      Inl _ \<Rightarrow> db_inv e db' h R
    | Inr receipt \<Rightarrow> db_inv e db' (h @ operations batch) R \<and> unat (ar_first_sequence receipt) = length h + 1 \<and>
        unat (ar_last_sequence receipt) = length h + length (operations batch) \<and> sn_sequence (db_snapshot db') = ar_last_sequence receipt) \<and>
    (io = None \<and> \<not> poisoned (db_wal db) \<and> is_ok (batch_encode batch) \<and> length h + length (operations batch) < 2 ^ 64 - 1 \<longrightarrow> is_ok res) \<and>
    db_write_owned e io batch dur db = (res, db')"
proof -
  have "is_ok res" if "io = None" "\<not> poisoned (db_wal db)" "is_ok (batch_encode batch)" "length h + length (operations batch) < 2 ^ 64 - 1"
  proof -
    obtain payload where "batch_encode batch = Ok payload" using \<open>is_ok (batch_encode batch)\<close> by (auto simp: is_ok_iff)
    from db_write_succeeds [OF assms(1) that(2) this that(4), of dur] show ?thesis using assms(2) that(1) by auto
  qed
  moreover from assms have "case res of
      Inl _ \<Rightarrow> db_inv e db' h R
    | Inr receipt \<Rightarrow> db_inv e db' (h @ operations batch) R \<and> unat (ar_first_sequence receipt) = length h + 1 \<and>
        unat (ar_last_sequence receipt) = length h + length (operations batch) \<and> sn_sequence (db_snapshot db') = ar_last_sequence receipt"
    by (cases rule: db_write_cases) simp_all
  ultimately show ?thesis using assms(2) by (simp add: db_write_owned_eq)
qed

text \<open>The environment of the examples: a codec that stores blocks uncompressed, a byte-sum checksum and an
  injective encoding.\<close>

definition example_env :: env where
  "example_env = \<lparr>en_codec = stored_codec, en_crc = sum_crc, en_json = example_json\<rparr>"

lemma example_env_laws: "json_laws (en_json example_env)" "codec_laws (en_codec example_env)"
  by (simp_all add: example_env_def example_json_laws stored_codec_laws)

lemma example_db:
  obtains db where "db_create example_env None None (Published, Published) 4096 1 = (Ok db, db_disk db)"
    and "db_inv example_env db [] UNIV" and "\<not> poisoned (db_wal db)"
  using create_inv [OF example_env_laws(1), of 4096 1] by auto

definition example_batch :: write_batch where
  "example_batch = \<lparr>operations = [Put [1] [5], Delete [2]]\<rparr>"

lemma example_batch_encodes: "\<exists>payload. batch_encode example_batch = Ok payload"
proof -
  have "length (batch_bytes (operations example_batch)) \<le> WAL_MAX_PAYLOAD_BYTES"
    by (simp add: example_batch_def batch_bytes_def batch_header_def BATCH_MAGIC_def WAL_MAX_PAYLOAD_BYTES_def)
  moreover have "valid_batch example_batch" by (simp add: example_batch_def valid_batch_def batch_constants)
  ultimately show ?thesis by (simp add: batch_encode_eq)
qed



text \<open>C30. Snapshot isolation. In a database that stands for the history \<open>h\<close>, every read at a
  sequence of \<open>R\<close> sees exactly the operations up to that sequence: a point read and a batched read
  return the values of the replayed prefix, a scan lists its pairs in range in ascending key order. No read
  fails, whether the data is in the memtable or spread over any number of segments, and reading leaves the
  database in the same abstract state.\<close>

theorem database_reads:
  assumes "db_inv e db h R" and "sn_sequence at \<in> R"
  shows "(\<exists>db'. db_get e key at db = (Ok (replay (take (unat (sn_sequence at)) h) key), db') \<and> db_inv e db' h R) \<and>
    (\<exists>db'. db_get_many e keys at db = (Ok (map (replay (take (unat (sn_sequence at)) h)) keys), db') \<and> db_inv e db' h R) \<and>
    (\<exists>out db'. db_scan e start end' at db = (Ok out, db') \<and> db_inv e db' h R \<and> sorted_wrt (<) (map fst out) \<and>
       set out = {(key, val). in_bounds start end' key \<and> replay (take (unat (sn_sequence at)) h) key = Some val})"
  by (rule db_reads [OF assms])

theorem database_reads_witness:
  "\<exists>db receipt db' db''. db_write example_env None example_batch Authoritative db = (Ok receipt, db') \<and>
    db_get example_env [1] \<lparr>sn_sequence = 2\<rparr> db' = (Ok (Some [5]), db'')"
proof -
  obtain db where db: "db_inv example_env db [] UNIV" "\<not> poisoned (db_wal db)" by (rule example_db)
  obtain payload where p: "batch_encode example_batch = Ok payload" using example_batch_encodes by blast
  obtain receipt where "fst (db_write example_env None example_batch Authoritative db) = Ok receipt"
    using db_write_succeeds [OF db p, of Authoritative] by (auto simp: example_batch_def)
  then obtain db' where w: "db_write example_env None example_batch Authoritative db = (Ok receipt, db')"
    by (metis prod.collapse)
  from db(1) w have "db_inv example_env db' [Put [1] [5], Delete [2]] UNIV"
    by (cases rule: db_write_cases) (simp_all add: example_batch_def)
  from database_reads [OF this, of "\<lparr>sn_sequence = 2\<rparr>" "[1]"]
  have "\<exists>db''. db_get example_env [1] \<lparr>sn_sequence = 2\<rparr> db' = (Ok (Some [5]), db'')" by (simp add: replay_def) blast
  with w show ?thesis by blast
qed

end
