(* ===== verification/Database_Flush.thy ===== *)
theory Database_Flush
  imports Database_Write
begin

text \<open>
  Flushing. Every way a flush can stop, by an injected failure at one of its boundaries or by the
  outcome of any of its storage steps, leaves files that recover to the same history, and a flush
  changes no read. The open database agrees with its files except in one case: when the pointer's rename
  took effect but its directory could not be synced, the files have moved on to the new manifest and the
  open database has not; writes acknowledged after that are not found when the files are reopened.
\<close>

section \<open>Growing the directory tree\<close>

text \<open>Adding segment files and logs changes nothing that the current manifest needs.\<close>

definition disk_grows :: "disk \<Rightarrow> disk \<Rightarrow> bool" where
  "disk_grows d d' \<longleftrightarrow> dk_store d' = dk_store d \<and> bt_get (dk_segments d) \<subseteq>\<^sub>m bt_get (dk_segments d') \<and>
     bt_get (dk_wals d) \<subseteq>\<^sub>m bt_get (dk_wals d')"

lemma map_leD: "m \<subseteq>\<^sub>m m' \<Longrightarrow> m k = Some v \<Longrightarrow> m' k = Some v"
  by (metis domI map_le_def)

lemma disk_segment_mono:
  "disk_segment c files d es \<Longrightarrow> bt_get files \<subseteq>\<^sub>m bt_get files' \<Longrightarrow> disk_segment c files' d es"
  unfolding disk_segment_def by (blast dest: map_leD)

lemma manifest_state_mono:
  assumes "manifest_state e d m h R ps" and "bt_get (dk_segments d) \<subseteq>\<^sub>m bt_get (dk_segments d')"
    and "store_current (en_json e) (dk_store d') = store_current (en_json e) (dk_store d)"
  shows "manifest_state e d' m h R ps"
  using assms(1) disk_segment_mono [OF _ assms(2)] unfolding manifest_state_def assms(3) by fast

lemma db_inv_grows:
  assumes inv: "db_inv e db h R" and grows: "bt_get (dk_segments (db_disk db)) \<subseteq>\<^sub>m bt_get (dk_segments d')"
      "bt_get (dk_wals (db_disk db)) \<subseteq>\<^sub>m bt_get (dk_wals d')"
      "store_current (en_json e) (dk_store d') = store_current (en_json e) (dk_store (db_disk db))"
    and ids: "db_next_id db \<le> n"
  shows "db_inv e (db\<lparr>db_disk := d', db_next_id := n\<rparr>) h R"
proof -
  obtain ps ps' acked truth where I: "manifest_state e (db_disk db) (db_manifest db) h R ps"
    "db_wal_start db = mf_wal_start_sequence (db_manifest db)"
    "bt_get (dk_wals (db_disk db)) (db_wal_start db) = Some (db_wal_file db)"
    "log_state (en_crc e) (mf_durable_sequence (db_manifest db)) h (db_wal_file db) (db_wal db) acked"
    "mt_rep (unat (mf_durable_sequence (db_manifest db))) (drop (unat (mf_durable_sequence (db_manifest db))) h) (db_memtable db)"
    "mset ps' = mset ps" "open_segments (en_codec e) (db_segments db) ps'"
    "cache_state (en_codec e) (db_segments db) (db_block_cache db) (db_next_id db) truth"
    using inv by (rule db_invE)
  have wal: "bt_get (dk_wals d') (db_wal_start db) = Some (db_wal_file db)" using I(3) grows(2) by (rule map_leD [rotated])
  have "cache_state (en_codec e) (db_segments db) (db_block_cache db) n truth"
    using I(8) ids unfolding cache_state_def by (meson order_trans)
  then show ?thesis
    using I manifest_state_mono [OF I(1) grows(1,3)] wal
    by (intro db_invI [where ps = ps and ps' = ps' and acked = acked and truth = truth]) (simp_all add: db_wal_file_def)
qed

section \<open>Sorting pairs\<close>

lemma map_insort_key: "map f (insort_key (\<lambda>x. g (f x)) x xs) = insort_key g (f x) (map f xs)"
  by (induction xs) simp_all

lemma map_sort_key: "map f (sort_key (\<lambda>x. g (f x)) xs) = sort_key g (map f xs)"
  by (induction xs) (simp_all add: map_insort_key)

section \<open>The flushed segment\<close>

lemma mt_entries_versions:
  assumes "mt_rep base ops t" and "\<forall>op \<in> set ops. mutation_key op \<noteq> []"
  shows "entry_versions (mt_entries t) key = versions_of base ops key" and "mt_wf t"
proof -
  show wf: "mt_wf t" by (rule mt_rep_wf [OF assms])
  show "entry_versions (mt_entries t) key = versions_of base ops key"
    using assms(1) entry_versions_mt [OF wf, of key] by (auto simp: mt_rep_def versions_rep_def split: option.splits if_splits)
qed

lemma versions_of_sound:
  assumes "base + length ops < 2 ^ 64" and "v \<in> set (versions_of base ops key)"
  shows "\<exists>i < length ops. unat (vv_sequence v) = Suc (base + i) \<and> mutation_key (ops ! i) = key \<and> mutation_value (ops ! i) = vv_value v"
proof -
  obtain p where p: "p \<in> set (List.enumerate (Suc base) ops)" "mutation_key (snd p) = key"
    "v = \<lparr>vv_sequence = word_of_nat (fst p), vv_value = mutation_value (snd p)\<rparr>"
    using assms(2) by (auto simp: versions_of_def)
  define i where "i = fst p - Suc base"
  have i: "fst p = Suc base + i" "i < length ops" "snd p = ops ! i"
    using p(1) by (auto simp: in_set_enumerate_eq i_def)
  then have "mutation_key (ops ! i) = key" "v = \<lparr>vv_sequence = word_of_nat (Suc base + i), vv_value = mutation_value (ops ! i)\<rparr>"
    using p by simp_all
  moreover have "unat (word_of_nat (Suc base + i) :: u64) = Suc base + i"
    using assms(1) \<open>i < length ops\<close> by (intro unat_u64_of_nat) simp
  ultimately show ?thesis using i(2) by auto
qed

lemma seg_state_flush:
  assumes st: "seg_state ess h D R" and rep: "mt_rep (unat D) (drop (unat D) h) t" and keys: "\<forall>op \<in> set h. mutation_key op \<noteq> []"
    and sorted: "entries_sorted (mt_entries t)" and D': "unat D' = length h"
  shows "seg_state (ess @ [mt_entries t]) h D' R"
proof -
  let ?ops = "drop (unat D) h"
  have D: "unat D \<le> length h" "\<forall>es \<in> set ess. entries_sorted es" "{D..} \<subseteq> R" "sound_entries (set (concat ess)) (take (unat D) h)"
    using st by (simp_all add: seg_state_def)
  have le: "D \<le> D'" using D(1) D' by (simp add: word_le_nat_alt)
  have ops: "\<forall>op \<in> set ?ops. mutation_key op \<noteq> []" using keys by (meson in_set_dropD)
  note ev = mt_entries_versions(1) [OF rep ops]
  have "vv_sequence v \<noteq> 0 \<and> unat (vv_sequence v) \<le> length h \<and> mutation_key (h ! (unat (vv_sequence v) - 1)) = key \<and>
      mutation_value (h ! (unat (vv_sequence v) - 1)) = vv_value v" if "(key, v) \<in> set (mt_entries t)" for key v
  proof -
    have "v \<in> set (versions_of (unat D) ?ops key)" using that ev by (simp flip: set_entry_versions)
    then obtain i where "i < length ?ops" "unat (vv_sequence v) = Suc (unat D + i)" "mutation_key (?ops ! i) = key" "mutation_value (?ops ! i) = vv_value v"
      using versions_of_sound [OF mt_rep_bound [OF rep]] by blast
    then show ?thesis using D(1) by auto
  qed
  moreover have "vv_sequence v \<noteq> 0 \<and> unat (vv_sequence v) \<le> length h \<and> mutation_key (h ! (unat (vv_sequence v) - 1)) = key \<and>
      mutation_value (h ! (unat (vv_sequence v) - 1)) = vv_value v" if "(key, v) \<in> set (concat ess)" for key v
  proof -
    note s = sound_entriesD [OF D(4) that]
    have "unat (vv_sequence v) - 1 < unat D" using s(1,2) by (simp add: word_greater_zero_iff [symmetric] word_less_nat_alt) linarith
    then show ?thesis using s by simp
  qed
  ultimately have "sound_entries (set (concat (ess @ [mt_entries t]))) (take (unat D') h)"
    unfolding sound_entries_def D' set_concat set_append concat_append take_all [OF order_refl] by fastforce
  moreover have "Option.bind (newest_in (ess @ [mt_entries t]) key r) vv_value = replay (take (unat r) h) key" if "r \<in> R" for r key
  proof -
    have "newest_in (ess @ [mt_entries t]) key r = newer (mt_get_version t key r) (newest_in ess key r)"
      by (simp add: newest_in_def ev mt_get_version_rep [OF rep])
    then show ?thesis using mt_above_segments [OF st rep] layered_read_replay [OF st rep that] by simp
  qed
  ultimately show ?thesis
    using D sorted le unfolding seg_state_def by (auto simp: D')
qed


section \<open>Extending a database\<close>

text \<open>What the steps before the publication do: new files, and numbers given out.\<close>

definition db_extends :: "database \<Rightarrow> database \<Rightarrow> bool" where
  "db_extends db0 db \<longleftrightarrow> db_manifest db = db_manifest db0 \<and> db_wal db = db_wal db0 \<and> db_wal_start db = db_wal_start db0 \<and>
     db_memtable db = db_memtable db0 \<and> db_segments db = db_segments db0 \<and> db_block_cache db = db_block_cache db0 \<and>
     db_next_id db0 \<le> db_next_id db \<and> dk_store (db_disk db) = dk_store (db_disk db0) \<and>
     bt_get (dk_segments (db_disk db0)) \<subseteq>\<^sub>m bt_get (dk_segments (db_disk db)) \<and>
     bt_get (dk_wals (db_disk db0)) \<subseteq>\<^sub>m bt_get (dk_wals (db_disk db))"

lemma db_extends_refl: "db_extends db db"
  by (simp add: db_extends_def)

lemma db_extends_trans: "db_extends a b \<Longrightarrow> db_extends b c \<Longrightarrow> db_extends a c"
  unfolding db_extends_def by (auto intro: map_le_trans)

lemma db_extends_inv:
  assumes "db_inv e db0 h R" and "db_extends db0 db"
  shows "db_inv e db h R"
proof -
  have "db_inv e (db0\<lparr>db_disk := db_disk db, db_next_id := db_next_id db\<rparr>) h R"
    using assms(2) by (intro db_inv_grows [OF assms(1)]) (simp_all add: db_extends_def)
  moreover have "db0\<lparr>db_disk := db_disk db, db_next_id := db_next_id db\<rparr> = db"
    using assms(2) by (simp add: db_extends_def)
  ultimately show ?thesis by simp
qed

lemma map_le_insert: "bt_get m k = None \<Longrightarrow> bt_get m \<subseteq>\<^sub>m bt_get (bt_insert k v m)"
  by (auto simp: map_le_def bt_get_insert)

section \<open>Writing the segment\<close>

text \<open>The content of a segment file, without the footer that repeats its digest.\<close>

definition segment_content :: "bytes \<Rightarrow> bytes" where
  "segment_content bs = take (length bs - FOOTER_BYTES) bs"

text \<open>SHA-256 does not collide on the contents at hand.\<close>

definition no_collision :: "seg_files \<Rightarrow> bytes \<Rightarrow> bool" where
  "no_collision files bs \<longleftrightarrow> (\<forall>name f. bt_get files name = Some f \<longrightarrow>
     sha256_hex (segment_content f) = sha256_hex (segment_content bs) \<longrightarrow> segment_content f = segment_content bs)"

lemma check_footer_ok:
  "check_footer bs = Ok d \<Longrightarrow> d = sha256_hex (segment_content bs) \<and> bs = segment_content bs @ d"
  using append_take_drop_id [of "length bs - FOOTER_BYTES" bs]
  by (auto simp: check_footer_def Let_def segment_content_def split: if_splits)

lemma segment_open_footer:
  assumes "segment_open c n bs = Ok seg"
  shows "sd_id (seg_descriptor seg) = sha256_hex (segment_content bs)" and "bs = segment_content bs @ sd_id (seg_descriptor seg)"
proof -
  have len: "64 \<le> length bs" "length bs < 2 ^ 64" using assms by (auto simp: segment_open_def segment_constants split: if_splits)
  have "check_footer bs = Ok (sd_id (seg_descriptor seg))"
  proof (cases "u16_from_be_bytes (subslice 8 10 bs) = SEGMENT_FORMAT_VERSION \<and> subslice 0 8 bs = SEGMENT_V3_MAGIC")
    case True
    then have "decode_v3_file c n bs = Ok seg" using assms by (auto simp: segment_open_def split: if_splits)
    then show ?thesis
      by (auto simp: decode_v3_file_def res_simps verify_file_digest_eq [OF len] build_blocked_segment_def dest!: read_v3_metadata_bytes)
  next
    case False
    then have "decode_legacy c bs = Ok seg" using assms by (auto simp: segment_open_def split: if_splits)
    then show ?thesis by (rule decode_legacy_sound(3))
  qed
  from check_footer_ok [OF this] show "sd_id (seg_descriptor seg) = sha256_hex (segment_content bs)" "bs = segment_content bs @ sd_id (seg_descriptor seg)"
    by (rule conjunct1, rule conjunct2)
qed

lemma opened_encoding:
  assumes laws: "codec_laws c" and wf: "mt_wf t" and enc: "encode_v3 c t = Ok bs" and opened: "segment_open c n bs = Ok seg"
  shows "segment_rep c seg (mt_entries t)" and "numbered n seg" and "sd_id (seg_descriptor seg) = sha256_hex (segment_content bs)"
    and "sd_maximum_sequence (seg_descriptor seg) = mt_maximum_sequence t"
proof -
  obtain ess where ess: "mt_entries t = concat ess" "bs = v3_file c (minimum_of t) (mt_maximum_sequence t) ess"
    "written c (minimum_of t) (mt_maximum_sequence t) ess"
    using encode_v3_written [OF laws wf enc] .
  have "file_index_bytes bs \<le> MAX_INDEX_BYTES"
    using opened open_written [OF ess(3), of n] file_index_bytes_written [OF ess(3)] ess(2) by (simp split: if_splits)
  from encoded_opens [OF laws wf enc this, of n] opened
  show "segment_rep c seg (mt_entries t)" "sd_maximum_sequence (seg_descriptor seg) = mt_maximum_sequence t" by fastforce+
  show "sd_id (seg_descriptor seg) = sha256_hex (segment_content bs)" by (rule segment_open_footer(1) [OF opened])
  show "numbered n seg" using segment_open_any_id [OF opened, of n] opened by auto
qed

lemma opened_disk_segment:
  assumes "bt_get files (sd_id (seg_descriptor seg)) = Some bs" and "segment_open c n bs = Ok seg" and "segment_rep c seg es"
  shows "disk_segment c files (seg_descriptor seg) es"
proof -
  obtain seg' where "segment_open c 0 bs = Ok seg'" "seg_descriptor seg' = seg_descriptor seg" "segment_rep c seg' es"
    using segment_open_any_id [OF assms(2), of 0] assms(3) by blast
  with assms(1) show ?thesis unfolding disk_segment_def by (intro exI [of _ bs] exI [of _ seg']) simp
qed

definition new_segment :: "env \<Rightarrow> database \<Rightarrow> entry list \<Rightarrow> segment \<Rightarrow> database \<Rightarrow> bool" where
  "new_segment e db0 es seg db \<longleftrightarrow> db_extends db0 db \<and> db_next_id db0 \<noteq> u64_max \<and> db_next_id db = db_next_id db0 + 1 \<and>
     numbered (db_next_id db0) seg \<and> segment_rep (en_codec e) seg es \<and>
     disk_segment (en_codec e) (dk_segments (db_disk db)) (seg_descriptor seg) es"

lemma write_segment_triple:
  assumes laws: "codec_laws (en_codec e)" and wf: "mt_wf t" and ids: "db_next_id db0 \<noteq> u64_max"
    and addr: "\<And>bs. encode_v3 (en_codec e) t = Ok bs \<Longrightarrow> no_collision (dk_segments (db_disk db0)) bs"
  shows "triple (\<lambda>db. db = db0) (write_segment e io t) (new_segment e db0 (mt_entries t)) (db_extends db0)"
proof (rule tripleI)
  fix db assume "db = db0"
  let ?c = "en_codec e" and ?n = "db_next_id db0" and ?files = "dk_segments (db_disk db0)"
  obtain r files where w: "write_from_memtable ?c ?n io ?files t = (r, files)" by fastforce
  let ?db = "db0\<lparr>db_next_id := ?n + 1, db_disk := (db_disk db0)\<lparr>dk_segments := files\<rparr>\<rparr>"
  have le: "?n \<le> ?n + 1" using unat_succ [OF ids] by (simp add: word_le_nat_alt)
  have run: "write_segment e io t db = (rbind r (\<lambda>(seg, _). Ok seg), ?db)"
    using w \<open>db = db0\<close> by (auto simp: write_segment_def cbind_def fresh_id_def on_segments_def czoom_def cok_def split: sum.splits prod.splits)
  have grow: "bt_get ?files \<subseteq>\<^sub>m bt_get files"
    using w by (auto simp: write_from_memtable_def Let_def map_le_insert split: sum.splits option.splits publish_outcome.splits)
  then have ext: "db_extends db0 ?db" using le by (simp add: db_extends_def)
  have "new_segment e db0 (mt_entries t) seg ?db" if ok: "r = Ok (seg, d)" for seg d
  proof -
    obtain bs f where bs: "encode_v3 ?c t = Ok bs" "segment_open ?c ?n f = Ok seg" "bt_get files (sha256_hex (segment_content bs)) = Some f"
      "f = bs \<or> bt_get ?files (sha256_hex (segment_content bs)) = Some f \<and> sd_id (seg_descriptor seg) = sha256_hex (segment_content bs)"
      using w ok by (auto simp: write_from_memtable_def Let_def res_simps bt_get_insert segment_content_def
          split: sum.splits option.splits publish_outcome.splits if_splits)
    obtain ess where "bs = v3_file (en_codec e) (minimum_of t) (mt_maximum_sequence t) ess"
      using encode_v3_written [OF laws wf bs(1)] .
    then have total: "segment_content bs @ sha256_hex (segment_content bs) = bs"
      by (simp add: v3_file_def segment_content_def FOOTER_BYTES_def)
    have "f = bs"
    proof (cases "f = bs")
      case False
      then have old: "bt_get ?files (sha256_hex (segment_content bs)) = Some f" "sd_id (seg_descriptor seg) = sha256_hex (segment_content bs)"
        using bs(4) by auto
      then have "segment_content f = segment_content bs"
        using addr [OF bs(1)] segment_open_footer(1) [OF bs(2)] unfolding no_collision_def by metis
      then show ?thesis using segment_open_footer(2) [OF bs(2)] old(2) total by simp
    qed
    note seg = opened_encoding [OF laws wf bs(1) bs(2) [unfolded this]]
    have "bt_get files (sd_id (seg_descriptor seg)) = Some bs" using bs(3) seg(3) \<open>f = bs\<close> by simp
    from opened_disk_segment [OF this bs(2) [unfolded \<open>f = bs\<close>] seg(1)] show ?thesis
      using seg ext ids by (simp add: new_segment_def)
  qed
  with ext show "case write_segment e io t db of (Inl _, s') \<Rightarrow> db_extends db0 s' | (Inr a, s') \<Rightarrow> new_segment e db0 (mt_entries t) a s'"
    unfolding run by (auto simp: rbind_def split: sum.splits)
qed

section \<open>The successor log\<close>

definition empty_log :: "env \<Rightarrow> u64 \<Rightarrow> wal_writer \<Rightarrow> database \<Rightarrow> bool" where
  "empty_log e start w db \<longleftrightarrow> bt_get (dk_wals (db_disk db)) start = Some (wal_file (en_crc e) []) \<and>
     w = \<lparr>next_sequence = start, poisoned = False\<rparr>"

lemma recovers_empty:
  assumes "recover_from crc log start = Ok r" and "batches r = []" and "torn_tail r = None"
  shows "log = wal_file crc []" and "wal_open_at crc log start = Ok w \<Longrightarrow> w = \<lparr>next_sequence = start, poisoned = False\<rparr>"
proof -
  obtain bs tail where r: "start \<noteq> 0" "log = wal_file crc bs @ tail" "r = wal_recovery crc start bs tail"
    using recover_from_sound [OF assms(1)] by metis
  have "bs = []" "tail = []"
    using assms(2,3) r(3) by (cases bs; simp add: wal_recovery_fields split: if_splits)+
  with r show "log = wal_file crc []" by simp
  have "saturating_sub start 1 + 1 = start" using r(1) by (auto simp: saturating_sub_def u64_one_le)
  then show "w = \<lparr>next_sequence = start, poisoned = False\<rparr>" if "wal_open_at crc log start = Ok w"
    using that assms(1) r(3) \<open>bs = []\<close> \<open>tail = []\<close>
    by (auto simp: wal_open_at_def wal_recovery_fields res_simps checked_add_def split: if_splits)
qed

lemma successor_wal_triple:
  "triple (\<lambda>db. db = db0) (successor_wal e io err start) (\<lambda>w db. db_extends db0 db \<and> db_next_id db = db_next_id db0 \<and>
      dk_segments (db_disk db) = dk_segments (db_disk db0) \<and> empty_log e start w db) (db_extends db0)"
proof (rule tripleI)
  fix db assume db: "db = db0"
  show "case successor_wal e io err start db of (Inl _, s') \<Rightarrow> db_extends db0 s'
      | (Inr w, db) \<Rightarrow> db_extends db0 db \<and> db_next_id db = db_next_id db0 \<and> dk_segments (db_disk db) = dk_segments (db_disk db0) \<and> empty_log e start w db"
  proof (cases "bt_get (dk_wals (db_disk db0)) start")
    case None
    then show ?thesis
      by (auto simp: db successor_wal_def create_wal_def wal_create_at_def db_extends_def empty_log_def wal_file_def bt_get_insert map_le_def
          split: sum.splits option.splits)
  next
    case (Some log)
    obtain r where run: "successor_wal e io err start db = (r, db0)" and
      r: "r = rbind (recover_from (en_crc e) log start) (\<lambda>recovery.
          if batches recovery \<noteq> [] \<or> torn_tail recovery \<noteq> None then Err err else wal_open_at (en_crc e) log start)"
      using Some by (simp add: db successor_wal_def)
    have "empty_log e start w db0" if "r = Ok w" for w
      using that Some recovers_empty [of "en_crc e" log start] unfolding r empty_log_def by (auto simp: res_simps split: if_splits)
    then show ?thesis by (auto simp: run db_extends_refl split: sum.splits)
  qed
qed

lemma log_state_empty:
  "D \<noteq> u64_max \<Longrightarrow> length h \<le> unat D \<Longrightarrow> log_state crc D h (wal_file crc []) \<lparr>next_sequence = D + 1, poisoned = False\<rparr> []"
  by (auto simp: log_state_def wal_inv_def dest: unat_succ)

section \<open>Publishing\<close>

text \<open>Publishing a manifest over files that are all in place either changes nothing that matters or makes
  the new manifest current; it reports failure in the second case only when the directory sync after the
  rename fails.\<close>

lemma manifest_switch:
  assumes json: "json_laws (en_json e)"
    and new: "manifest_new (en_json e) g parent at D' (D' + 1) (map fst qs) = Ok m'"
    and pub: "store_publish (en_json e) io m' expected (dk_store d) = (res, st')"
    and files: "\<forall>(dsc, es) \<in> set qs. disk_segment (en_codec e) (dk_segments d) dsc es"
    and st: "seg_state (map snd qs) h D' R" and D': "D' \<noteq> u64_max" and keys: "\<forall>op \<in> set h. mutation_key op \<noteq> []"
  obtains (kept) err where "res = Err err" "store_current (en_json e) st' = store_current (en_json e) (dk_store d)"
  | (switched) ps where "mset ps = mset qs" "manifest_state e (d\<lparr>dk_store := st'\<rparr>) m' h R ps"
      "(\<exists>err. res = Err err) \<Longrightarrow> snd io = Failed_After_Rename" "(\<exists>p. res = Ok p) \<Longrightarrow> snd io = Published"
proof -
  note mf = new [unfolded manifest_new_ok [OF json]]
  let ?ps = "sort_key (\<lambda>p. descriptor_rank (fst p)) qs"
  have perm: "mset ?ps = mset qs" by simp
  then have "mset (map snd ?ps) = mset (map snd qs)" unfolding mset_map by simp
  from seg_state_perm(1) [OF st this] have state: "seg_state (map snd ?ps) h D' R" .
  have segs: "mf_segments m' = map fst ?ps" using mf by (simp add: map_sort_key)
  have switch: "manifest_state e (d\<lparr>dk_store := st'\<rparr>) m' h R ?ps" if "store_current (en_json e) st' = Ok (Some (pointer_new m', m'))"
    unfolding manifest_state_def using mf that segs state files D' keys pointer_new_ok(2) [of "en_json e" m'] by simp
  from json pub show thesis
  proof (cases rule: store_publish_cases)
    case (refused err)
    then show thesis by (intro kept)
  next
    case (uncertain err)
    then show thesis using switch perm by (intro switched [of ?ps]) auto
  next
    case (published cur)
    then show thesis using switch perm by (intro switched [of ?ps]) auto
  qed
qed

section \<open>The flush\<close>

text \<open>How a flush may leave the database: its files always stand for the history, and so does the open
  database, unless \<open>uncertain\<close> is set.\<close>

definition settled :: "env \<Rightarrow> mutation list \<Rightarrow> u64 set \<Rightarrow> bool \<Rightarrow> database \<Rightarrow> bool" where
  "settled e h R uncertain db \<longleftrightarrow> disk_inv e (db_disk db) h R \<and> (uncertain \<or> db_inv e db h R \<and> \<not> poisoned (db_wal db))"

text \<open>After a flush everything is in segments.\<close>

definition flushed :: "env \<Rightarrow> mutation list \<Rightarrow> u64 set \<Rightarrow> database \<Rightarrow> bool" where
  "flushed e h R db \<longleftrightarrow> db_inv e db h R \<and> \<not> poisoned (db_wal db) \<and> unat (mf_durable_sequence (db_manifest db)) = length h"

lemma settledI: "db_inv e db h R \<Longrightarrow> \<not> poisoned (db_wal db) \<Longrightarrow> settled e h R uncertain db"
  by (simp add: settled_def db_inv_disk)

lemma settled_extends: "db_inv e db0 h R \<Longrightarrow> \<not> poisoned (db_wal db0) \<Longrightarrow> db_extends db0 db \<Longrightarrow> settled e h R uncertain db"
  by (intro settledI) (simp_all add: db_extends_inv, simp add: db_extends_def)

lemma new_segment_extends:
  "new_segment e db0 es seg a \<Longrightarrow> db_extends a b \<Longrightarrow> db_next_id b = db_next_id a \<Longrightarrow> new_segment e db0 es seg b"
  unfolding new_segment_def using db_extends_trans [of db0 a b] by (auto intro: disk_segment_mono simp: db_extends_def [of a b])

text \<open>The files of a database whose publication did not take effect.\<close>

lemma db_inv_store:
  assumes "db_inv e db h R" and "store_current (en_json e) st = store_current (en_json e) (dk_store (db_disk db))"
  shows "db_inv e (db\<lparr>db_disk := (db_disk db)\<lparr>dk_store := st\<rparr>\<rparr>) h R"
  using db_inv_grows [OF assms(1), of "(db_disk db)\<lparr>dk_store := st\<rparr>" "db_next_id db"] assms(2) by simp

lemma flush_publish_triple:
  assumes json: "json_laws (en_json e)" and inv: "db_inv e db0 h R" "\<not> poisoned (db_wal db0)"
    and seg: "new_segment e db0 (mt_entries (db_memtable db0)) seg db1" and wal: "empty_log e (D' + 1) w db1"
    and D': "unat D' = length h" "D' \<noteq> u64_max"
    and new: "manifest_new (en_json e) g parent at D' (D' + 1) (mf_segments (db_manifest db0) @ [seg_descriptor seg]) = Ok m'"
  shows "triple (\<lambda>db. db = db1)
    (cbind (on_store (store_publish (en_json e) io m' expected)) (\<lambda>_.
     cmodify (\<lambda>db. db\<lparr>db_wal := w, db_wal_start := D' + 1, db_memtable := at_sequence D',
              db_segments := db_segments db @ [seg], db_manifest := m'\<rparr>)))
    (\<lambda>_. flushed e h R) (settled e h R (snd io = Failed_After_Rename))"
proof (rule tripleI)
  fix db assume "db = db1"
  let ?d = "db_disk db1" and ?es = "mt_entries (db_memtable db0)" and ?D = "mf_durable_sequence (db_manifest db0)"
  have ext: "db_extends db0 db1" using seg by (simp add: new_segment_def)
  obtain ps ps' acked truth where I: "manifest_state e (db_disk db0) (db_manifest db0) h R ps"
    "mt_rep (unat ?D) (drop (unat ?D) h) (db_memtable db0)" "mset ps' = mset ps" "open_segments (en_codec e) (db_segments db0) ps'"
    "cache_state (en_codec e) (db_segments db0) (db_block_cache db0) (db_next_id db0) truth"
    using inv(1) by (rule db_invE)
  have M: "mf_segments (db_manifest db0) = map fst ps" "seg_state (map snd ps) h ?D R" "\<forall>op \<in> set h. mutation_key op \<noteq> []"
    using I(1) by (simp_all add: manifest_state_def)
  let ?qs = "ps @ [(seg_descriptor seg, ?es)]"
  have "\<forall>op \<in> set (drop (unat ?D) h). mutation_key op \<noteq> []" using M(3) by (meson in_set_dropD)
  from mt_entries_versions(2) [OF I(2) this] have sorted: "entries_sorted ?es" by (rule mt_entries_sorted)
  have state: "seg_state (map snd ?qs) h D' R" using seg_state_flush [OF M(2) I(2) M(3) sorted D'(1)] by simp
  have files: "\<forall>(dsc, es) \<in> set ?qs. disk_segment (en_codec e) (dk_segments ?d) dsc es"
    using seg I(1) ext by (auto simp: new_segment_def manifest_state_def db_extends_def intro: disk_segment_mono)
  have new': "manifest_new (en_json e) g parent at D' (D' + 1) (map fst ?qs) = Ok m'" using new M(1) by simp
  obtain res st' where pub: "store_publish (en_json e) io m' expected (dk_store ?d) = (res, st')" by fastforce
  let ?db = "db1\<lparr>db_disk := ?d\<lparr>dk_store := st'\<rparr>\<rparr>"
  let ?db' = "?db\<lparr>db_wal := w, db_wal_start := D' + 1, db_memtable := at_sequence D', db_segments := db_segments db1 @ [seg], db_manifest := m'\<rparr>"
  have run: "cbind (on_store (store_publish (en_json e) io m' expected)) (\<lambda>_.
     cmodify (\<lambda>db. db\<lparr>db_wal := w, db_wal_start := D' + 1, db_memtable := at_sequence D',
              db_segments := db_segments db @ [seg], db_manifest := m'\<rparr>)) db = (case res of Inl err \<Rightarrow> (Err err, ?db) | Inr _ \<Rightarrow> (Ok (), ?db'))"
    using pub by (simp add: \<open>db = db1\<close> cbind_def on_store_def czoom_def cmodify_def split: sum.splits)
  have log: "bt_get (dk_wals ?d) (D' + 1) = Some (wal_file (en_crc e) [])" "\<not> poisoned w"
    "log_state (en_crc e) D' h (wal_file (en_crc e) []) w []"
    using wal log_state_empty [OF D'(2)] D'(1) by (simp_all add: empty_log_def)
  note mf = new [unfolded manifest_new_ok [OF json]]
  from json new' pub files state D'(2) M(3)
  show "case cbind (on_store (store_publish (en_json e) io m' expected)) (\<lambda>_.
     cmodify (\<lambda>db. db\<lparr>db_wal := w, db_wal_start := D' + 1, db_memtable := at_sequence D',
              db_segments := db_segments db @ [seg], db_manifest := m'\<rparr>)) db of
     (Inl _, s') \<Rightarrow> settled e h R (snd io = Failed_After_Rename) s' | (Inr a, s') \<Rightarrow> flushed e h R s'"
  proof (cases rule: manifest_switch)
    case (kept err)
    have "\<not> poisoned (db_wal ?db)" using inv(2) ext by (simp add: db_extends_def)
    with db_inv_store [OF db_extends_inv [OF inv(1) ext] kept(2)] show ?thesis unfolding run kept(1) by (simp add: settledI)
  next
    case (switched rs)
    have disk: "disk_inv e (db_disk ?db) h R"
      using switched(2) log mf unfolding disk_inv_def
      by (intro exI [of _ m'] exI [of _ rs] exI [of _ "wal_file (en_crc e) []"] exI [of _ w] exI [of _ "[]"]) simp
    have num: "numbered (db_next_id db0) seg" "db_next_id db0 \<noteq> u64_max" "db_next_id db1 = db_next_id db0 + 1" "segment_rep (en_codec e) seg ?es"
      using seg by (simp_all add: new_segment_def)
    have segs: "db_segments db1 = db_segments db0" "db_block_cache db1 = db_block_cache db0" using ext by (simp_all add: db_extends_def)
    have "\<forall>s \<in> set (db_segments db0). \<exists>es. segment_rep (en_codec e) s es" using open_segments_mem [OF I(4)] by blast
    from cache_state_extend [OF I(5) this num(1,2)] obtain truth' where
      cache: "cache_state (en_codec e) (db_segments db0 @ [seg]) (db_block_cache db0) (db_next_id db0 + 1) truth'" by blast
    have opened: "open_segments (en_codec e) (db_segments db0 @ [seg]) (ps' @ [(seg_descriptor seg, ?es)])"
      using I(4) num(4) by (simp add: open_segments_def list_all2_append list_all2_lengthD)
    have "db_inv e ?db' h R"
      using switched(1,2) I(3) log mf cache opened segs num(3) mt_rep_at_sequence [of D'] D'(1)
      by (intro db_invI [where ps = rs and ps' = "ps' @ [(seg_descriptor seg, ?es)]" and acked = "[]" and truth = truth'])
        (simp_all add: db_wal_file_def)
    with disk log(2) switched(3) show ?thesis
      using mf D'(1) unfolding run by (auto simp: settled_def flushed_def split: sum.splits)
  qed
qed

lemma empty_memtable_flushed:
  assumes "db_inv e db h R" and "mt_version_count (db_memtable db) = 0"
  shows "unat (mf_durable_sequence (db_manifest db)) = length h"
proof -
  let ?D = "mf_durable_sequence (db_manifest db)"
  note rep = db_inv_D(4) [OF assms(1)]
  have "mutation_key op \<notin> mutation_key ` set (take (unat u64_max - unat ?D) (drop (unat ?D) h))" for op
    using mt_version_count_zero [OF assms(2)] mt_get_version_rep [OF rep] newest_at_versions_None [OF mt_rep_bound [OF rep]] by metis
  moreover have "take (unat u64_max - unat ?D) (drop (unat ?D) h) = drop (unat ?D) h"
    using mt_rep_bound [OF rep] by (simp add: u64_max_def unsigned_minus_1_eq_mask mask_eq_exp_minus_1)
  ultimately have "drop (unat ?D) h = []" by (metis imageI last_in_set)
  then show ?thesis using db_inv_D(2) [OF assms(1)] by simp
qed

lemma synced_sequence:
  assumes "db_inv e db h R" and "wal_sync io (db_wal db) = Ok seq"
  shows "unat seq = length h" and "seq \<noteq> u64_max"
proof -
  obtain acked where "log_state (en_crc e) (mf_durable_sequence (db_manifest db)) h (db_wal_file db) (db_wal db) acked"
    using db_inv_D(3) [OF assms(1)] by blast
  from log_state_next [OF this db_inv_D(1,2) [OF assms(1)]] assms(2) show "unat seq = length h"
    by (auto simp: wal_sync_def unat_saturating_sub split: if_splits)
  then show "seq \<noteq> u64_max" using db_inv_D(6) [OF assms(1)] by (auto simp: u64_max_def unsigned_minus_1_eq_mask mask_eq_exp_minus_1)
qed

lemma flush_triple:
  assumes json: "json_laws (en_json e)" and codec: "codec_laws (en_codec e)" and inv: "db_inv e db0 h R" "\<not> poisoned (db_wal db0)"
    and ids: "db_next_id db0 \<noteq> u64_max"
    and addr: "\<And>bs. encode_v3 (en_codec e) (db_memtable db0) = Ok bs \<Longrightarrow> no_collision (dk_segments (db_disk db0)) bs"
  shows "triple (\<lambda>db. db = db0) (flush_memtable_inner e io at failure) (\<lambda>_. flushed e h R)
    (settled e h R (snd (fi_publish io) = Failed_After_Rename))"
    (is "triple _ _ ?Q ?E")
proof -
  let ?t = "db_memtable db0" and ?D = "mf_durable_sequence (db_manifest db0)"
  have safe: "?E db" if "db_extends db0 db" for db using settled_extends [OF inv that] .
  obtain ps where "manifest_state e (db_disk db0) (db_manifest db0) h R ps" using inv(1) by (rule db_invE)
  then have "\<forall>op \<in> set (drop (unat ?D) h). mutation_key op \<noteq> []" by (metis in_set_dropD manifest_state_def)
  from mt_entries_versions(2) [OF db_inv_D(4) [OF inv(1)] this] have wf: "mt_wf ?t" .
  have sync: "triple (\<lambda>db. db = db0) (db_sync (fi_sync io)) (\<lambda>seq db. db = db0 \<and> unat seq = length h \<and> seq \<noteq> u64_max) ?E"
    using synced_sequence [OF inv(1)] safe [OF db_extends_refl] by (intro tripleI) (auto simp: db_sync_def split: sum.splits)
  have writes: "triple (\<lambda>db. db = db0) (write_segment e (fi_segment io) ?t) (new_segment e db0 (mt_entries ?t)) ?E"
    using write_segment_triple [OF codec wf ids addr] by (rule triple_conseq) (use safe in auto)
  have wal: "triple (\<lambda>db. db = db1) (successor_wal e (fi_successor io) err start)
      (\<lambda>w db. new_segment e db0 (mt_entries ?t) seg db \<and> empty_log e start w db) ?E"
    if seg: "new_segment e db0 (mt_entries ?t) seg db1" for db1 seg err start
    using successor_wal_triple [of db1 e "fi_successor io" err start]
  proof (rule triple_conseq)
    have "db_extends db0 db1" using seg by (simp add: new_segment_def)
    then show "?E db" if "db_extends db1 db" for db using db_extends_trans that safe by blast
  qed (use new_segment_extends [OF seg] in auto)
  have publish: "triple (\<lambda>db. db = db2)
      (cbind (on_store (store_publish (en_json e) (fi_publish io) m' expected)) (\<lambda>_.
       cbind (cmodify (\<lambda>db. db\<lparr>db_wal := w, db_wal_start := next_seq, db_memtable := at_sequence seq,
                db_segments := db_segments db @ [seg], db_manifest := m'\<rparr>)) (\<lambda>_.
       cbind (clift (inject_failure failure ManifestPublished)) (\<lambda>_. cok (Some m'))))) ?Q ?E"
    if st: "new_segment e db0 (mt_entries ?t) seg db2" "empty_log e next_seq w db2" "unat seq = length h" "seq \<noteq> u64_max"
      "ok_or (checked_add seq 1) err = Ok next_seq"
      "rbind (next_generation reason (db_manifest db2)) (\<lambda>g. manifest_new (en_json e) g parent at seq next_seq
         (mf_segments (db_manifest db2) @ [seg_descriptor seg])) = Ok m'"
    for db2 seg next_seq w seq m' err reason parent expected
  proof -
    have next_seq: "next_seq = seq + 1" using st(4,5) by (simp add: checked_succ)
    have "db_manifest db2 = db_manifest db0" using st(1) by (simp add: new_segment_def db_extends_def)
    then obtain g where "manifest_new (en_json e) g parent at seq (seq + 1) (mf_segments (db_manifest db0) @ [seg_descriptor seg]) = Ok m'"
      using st(6) next_seq by (auto simp: res_simps)
    from flush_publish_triple [OF json inv st(1) st(2) [unfolded next_seq] st(3,4) this, of "fi_publish io" expected]
    show ?thesis
      unfolding cbind_assoc [where f = "\<lambda>_. cmodify _"] next_seq
      by (rule triple_step) (auto simp: flushed_def intro!: triple_lift triple_return settledI)
  qed
  have empty: "flushed e h R db0" if "mt_version_count ?t = 0"
    using inv empty_memtable_flushed [OF inv(1) that] by (simp add: flushed_def)
  show ?thesis
    unfolding flush_memtable_inner_def
    apply (rule triple_reads, rule triple_if; rule triple_step [OF sync]; elim conjE; simp only:)
     apply (rule triple_return, rule empty, assumption)
    apply (rule triple_lift, rule safe, rule db_extends_refl)
    apply (rule triple_step [OF writes])
    apply (rule triple_lift, rule safe, simp add: new_segment_def)
    apply (rule triple_lift, rule safe, simp add: new_segment_def)
    apply (rule triple_step [OF wal], assumption)
    apply (elim conjE)
    apply (rule triple_lift, rule safe, simp add: new_segment_def)
    apply (rule triple_reads)
    apply (rule triple_lift, rule safe, simp add: new_segment_def)
    apply (rule publish; assumption)
    done
qed

lemma db_write_frame:
  assumes "db_write e io batch dur db = (res, db')"
  shows "db_next_id db' = db_next_id db" and "dk_segments (db_disk db') = dk_segments (db_disk db)" and "dk_store (db_disk db') = dk_store (db_disk db)"
    and "db_wal_start db' = db_wal_start db" and "k \<noteq> db_wal_start db \<Longrightarrow> bt_get (dk_wals (db_disk db')) k = bt_get (dk_wals (db_disk db)) k"
  using assms
  by (auto simp: db_write_def cbind_def clift_def cok_def append_batch_def apply_to_memtable_def put_wal_def bt_get_insert
      split: sum.splits prod.splits)

text \<open>Why the exception matters: when the files have moved to another manifest than the open database's,
  a write of the open database goes to a log that the files no longer refer to. What they recover to
  stays the same, also when the write is acknowledged.\<close>

lemma stale_database_loses_writes:
  assumes "manifest_state e (db_disk db) m h R ps" and "mf_wal_start_sequence m \<noteq> db_wal_start db"
    and "bt_get (dk_wals (db_disk db)) (mf_wal_start_sequence m) = Some log" and "\<not> poisoned w"
    and "log_state (en_crc e) (mf_durable_sequence m) h log w acked" and "db_write e io batch dur db = (res, db')"
  shows "disk_inv e (db_disk db') h R"
proof -
  have "manifest_state e (db_disk db') m h R ps"
    using assms(1) db_write_frame(2,3) [OF assms(6)] by (simp add: manifest_state_def)
  then show ?thesis
    using assms(2-5) db_write_frame(5) [OF assms(6)] unfolding disk_inv_def by fastforce
qed

section \<open>Properties\<close>

text \<open>C16. Flushing is safe at every boundary. Whatever fails in a flush, one of its storage steps or an
  injected failure at one of its four boundaries, the files it leaves recover to exactly the same history
  and reads. The open database stays in that state too, with one exception: the directory sync after the
  rename of \<open>CURRENT\<close> failing. A flush that returns has everything in segments, so the whole history
  is durable in the manifest.\<close>

theorem flush_preserves_history:
  assumes "json_laws (en_json e)" and "codec_laws (en_codec e)" and "db_inv e db h R" and "\<not> poisoned (db_wal db)"
    and "db_next_id db \<noteq> u64_max"
    and "\<And>bs. encode_v3 (en_codec e) (db_memtable db) = Ok bs \<Longrightarrow> no_collision (dk_segments (db_disk db)) bs"
    and "flush_memtable_inner e io at failure db = (res, db')"
  shows "disk_inv e (db_disk db') h R \<and>
    (is_ok res \<or> snd (fi_publish io) \<noteq> Failed_After_Rename \<longrightarrow> db_inv e db' h R \<and> \<not> poisoned (db_wal db')) \<and>
    (is_ok res \<longrightarrow> unat (mf_durable_sequence (db_manifest db')) = length h)"
proof -
  from tripleD [OF flush_triple [OF assms(1-6)] refl assms(7)]
  have "case res of Inl _ \<Rightarrow> settled e h R (snd (fi_publish io) = Failed_After_Rename) db' | Inr _ \<Rightarrow> flushed e h R db'" .
  then show ?thesis by (cases res) (auto simp: settled_def flushed_def db_inv_disk)
qed

theorem flush_preserves_history_witness:
  "\<exists>db receipt db' io res db''. db_write example_env None example_batch Authoritative db = (Ok receipt, db') \<and>
    flush_memtable_inner example_env io 7 None db' = (res, db'') \<and> disk_inv example_env (db_disk db'') [Put [1] [5], Delete [2]] UNIV"
proof -
  let ?io = "\<lparr>fi_sync = True, fi_segment = Published, fi_successor = None, fi_publish = (Published, Failed_After_Rename)\<rparr>"
  obtain db where db: "db_create example_env None None (Published, Published) 4096 1 = (Ok db, db_disk db)"
    "db_inv example_env db [] UNIV" "\<not> poisoned (db_wal db)" by (rule example_db)
  obtain payload where p: "batch_encode example_batch = Ok payload" using example_batch_encodes by blast
  obtain receipt where "fst (db_write example_env None example_batch Authoritative db) = Ok receipt"
    using db_write_succeeds [OF db(2,3) p, of Authoritative] by (auto simp: example_batch_def)
  then obtain db' where w: "db_write example_env None example_batch Authoritative db = (Ok receipt, db')" by (metis prod.collapse)
  from db(2) w have db': "db_inv example_env db' [Put [1] [5], Delete [2]] UNIV" "\<not> poisoned (db_wal db')"
    by (cases rule: db_write_cases; simp add: example_batch_def)+
  have "db_next_id db = 1" "dk_segments (db_disk db) = []"
    using db(1) by (auto simp: db_create_def create_wal_def wal_create_at_def empty_disk_def Let_def split: sum.splits prod.splits)
  then have "db_next_id db' = 1" "dk_segments (db_disk db') = []" using db_write_frame [OF w] by simp_all
  then have "db_next_id db' \<noteq> u64_max" "no_collision (dk_segments (db_disk db')) bs" for bs
    by (simp_all add: u64_max_def no_collision_def bt_get_def)
  moreover obtain res db'' where "flush_memtable_inner example_env ?io 7 None db' = (res, db'')" by fastforce
  ultimately show ?thesis
    using w flush_preserves_history [OF example_env_laws db'] by blast
qed

end
