(* ===== verification/Compaction.thy ===== *)
theory Compaction
  imports Database_State
begin

text \<open>
  What compaction keeps, as a function of the entries of the merged segments: for every protected
  sequence the newest version at or below it, and no key whose kept versions are all deletions. Reads at
  protected sequences do not notice.
\<close>

section \<open>Merging\<close>

definition version_set :: "(u64, bytes option) btree \<Rightarrow> versioned_value set" where
  "version_set target = {v. bt_get target (vv_sequence v) = Some (vv_value v)}"

definition merged_wf :: "(bytes, (u64, bytes option) btree) btree \<Rightarrow> bool" where
  "merged_wf merged \<longleftrightarrow> bt_wf merged \<and> (\<forall>key target. bt_get merged key = Some target \<longrightarrow> bt_wf target)"

definition merged_entries :: "(bytes, (u64, bytes option) btree) btree \<Rightarrow> entry set" where
  "merged_entries merged = {(key, v). \<exists>target. bt_get merged key = Some target \<and> v \<in> version_set target}"

definition versions_agree :: "versioned_value set \<Rightarrow> bool" where
  "versions_agree V \<longleftrightarrow> (\<forall>v \<in> V. \<forall>w \<in> V. vv_sequence v = vv_sequence w \<longrightarrow> v = w)"

lemma merge_versions:
  assumes "bt_wf target" and "versions_agree (version_set target \<union> set vs)"
  shows "\<exists>target'. try_fold merge_version vs target = Ok target' \<and> bt_wf target' \<and> version_set target' = version_set target \<union> set vs"
  using assms
proof (induction vs arbitrary: target)
  case (Cons v vs)
  show ?case
  proof (cases "bt_get target (vv_sequence v)")
    case None
    let ?t = "bt_insert (vv_sequence v) (vv_value v) target"
    have "version_set ?t = insert v (version_set target)"
      using None by (auto simp: version_set_def bt_get_insert split: if_splits)
    then show ?thesis
      using Cons.IH [of ?t] Cons.prems None by (simp add: merge_version_def bt_wf_insert)
  next
    case (Some val)
    then have "\<lparr>vv_sequence = vv_sequence v, vv_value = val\<rparr> \<in> version_set target" by (simp add: version_set_def)
    then have "val = vv_value v"
      using Cons.prems(2) unfolding versions_agree_def by (metis UnCI list.set_intros(1) versioned_value.select_convs)
    then have "v \<in> version_set target" using Some by (simp add: version_set_def)
    then have "version_set target \<union> set (v # vs) = version_set target \<union> set vs" by auto
    then show ?thesis
      using Cons.IH [of target] Cons.prems Some \<open>val = vv_value v\<close> by (simp add: merge_version_def)
  qed
qed auto

lemma entries_agree_key: "entries_agree E \<Longrightarrow> versions_agree {v. (key, v) \<in> E}"
  unfolding entries_agree_def versions_agree_def by blast

lemma version_set_slot: "version_set (case bt_get merged key of None \<Rightarrow> [] | Some t \<Rightarrow> t) = {v. (key, v) \<in> merged_entries merged}"
  by (auto simp: merged_entries_def version_set_def split: option.split)

lemma merge_group_ok:
  assumes "merged_wf merged" and "entries_agree (merged_entries merged \<union> Pair key ` set vs)"
  shows "\<exists>merged'. merge_group (key, vs) merged = Ok merged' \<and> merged_wf merged' \<and>
    merged_entries merged' = merged_entries merged \<union> Pair key ` set vs"
proof -
  let ?slot = "case bt_get merged key of None \<Rightarrow> [] | Some t \<Rightarrow> t"
  have wf: "bt_wf ?slot" using assms(1) by (auto simp: merged_wf_def split: option.split)
  have "version_set ?slot \<union> set vs = {v. (key, v) \<in> merged_entries merged \<union> Pair key ` set vs}"
    unfolding version_set_slot by auto
  then have "versions_agree (version_set ?slot \<union> set vs)" using entries_agree_key [OF assms(2), of key] by simp
  from merge_versions [OF wf this] obtain t where
    t: "try_fold merge_version vs ?slot = Ok t" "bt_wf t" "version_set t = version_set ?slot \<union> set vs" by blast
  have "merged_entries (bt_insert key t merged) = merged_entries merged \<union> Pair key ` set vs"
    using t(3) version_set_slot [of merged key] by (auto simp: merged_entries_def bt_get_insert split: if_splits)
  moreover have "merged_wf (bt_insert key t merged)"
    using assms(1) t(2) by (auto simp: merged_wf_def bt_get_insert bt_wf_insert)
  ultimately show ?thesis using t(1) by (simp add: merge_group_def)
qed

lemma entries_agree_subset: "entries_agree E \<Longrightarrow> E' \<subseteq> E \<Longrightarrow> entries_agree E'"
  unfolding entries_agree_def by blast

lemma merge_groups_ok:
  assumes "merged_wf merged" and "entries_agree (merged_entries merged \<union> (\<Union>(key, vs) \<in> set groups. Pair key ` set vs))"
  shows "\<exists>merged'. try_fold merge_group groups merged = Ok merged' \<and> merged_wf merged' \<and>
    merged_entries merged' = merged_entries merged \<union> (\<Union>(key, vs) \<in> set groups. Pair key ` set vs)"
  using assms
proof (induction groups arbitrary: merged)
  case (Cons g groups)
  obtain key vs where g: "g = (key, vs)" by (cases g)
  have "entries_agree (merged_entries merged \<union> Pair key ` set vs)"
    by (rule entries_agree_subset [OF Cons.prems(2)]) (auto simp: g)
  from merge_group_ok [OF Cons.prems(1) this] obtain m where
    m: "merge_group g merged = Ok m" "merged_wf m" "merged_entries m = merged_entries merged \<union> Pair key ` set vs" by (auto simp: g)
  then show ?case
    using Cons.IH [of m] Cons.prems(2) by (simp add: g Un_assoc)
qed auto

lemma grouped_entries_set: "(\<Union>(key, vs) \<in> set (grouped_entries es). Pair key ` set vs) = set es"
proof -
  have "(\<Union>(key, vs) \<in> set (grouped_entries es). Pair key ` set vs) = (\<Union>key \<in> fst ` set es. Pair key ` set (entry_versions es key))"
    by (simp add: grouped_entries_def)
  also have "\<dots> = set es" by (force simp: set_entry_versions)
  finally show ?thesis .
qed

section \<open>Selecting\<close>

lemma select_protected_spec:
  assumes "bt_wf versions"
  shows "bt_wf (select_protected protected versions)"
    and "bt_get (select_protected protected versions) s = Some v \<longleftrightarrow> (\<exists>p \<in> set protected. bt_floor p versions = Some (s, v))"
proof -
  let ?kvs = "List.map_filter (\<lambda>p. bt_floor p versions) protected"
  show "bt_wf (select_protected protected versions)"
    unfolding select_protected_def by (rule bt.wf_insert_all) simp
  have mem: "(s, v) \<in> set ?kvs \<longleftrightarrow> (\<exists>p \<in> set protected. bt_floor p versions = Some (s, v))" for s v
    by (force simp: map_filter_def)
  have "bt_get (select_protected protected versions) = map_of (rev ?kvs)"
    unfolding select_protected_def by (subst bt.get_insert_all) simp_all
  moreover have "map_of (rev ?kvs) s = Some v \<longleftrightarrow> (s, v) \<in> set ?kvs"
  proof
    assume "(s, v) \<in> set ?kvs"
    then obtain v' where v': "map_of (rev ?kvs) s = Some v'" by (metis set_rev weak_map_of_SomeI)
    then have "(s, v') \<in> set ?kvs" using map_of_SomeD by fastforce
    with \<open>(s, v) \<in> set ?kvs\<close> have "v' = v" using bt_floor_Some(1) [OF assms] mem by (metis option.inject)
    with v' show "map_of (rev ?kvs) s = Some v" by simp
  qed (use map_of_SomeD in fastforce)
  ultimately show "bt_get (select_protected protected versions) s = Some v \<longleftrightarrow> (\<exists>p \<in> set protected. bt_floor p versions = Some (s, v))"
    using mem by simp
qed

text \<open>The versions of a key that are kept, \<open>None\<close> when the key is dropped.\<close>

definition retained_versions :: "u64 list \<Rightarrow> (u64, bytes option) btree \<Rightarrow> versioned_value list option" where
  "retained_versions protected versions =
     (let selected = select_protected protected versions in
      if list_all (\<lambda>(_, val). val = None) selected then None
      else Some (map (\<lambda>(seq, val). \<lparr>vv_sequence = seq, vv_value = val\<rparr>) selected))"

lemma retain_key_eq:
  "retain_key protected (key, versions) retained =
     (case retained_versions protected versions of None \<Rightarrow> retained | Some vs \<Rightarrow> bt_insert key vs retained)"
  by (simp add: retain_key_def retained_versions_def Let_def)

definition retained_map :: "u64 list \<Rightarrow> (bytes, (u64, bytes option) btree) btree \<Rightarrow> (bytes, versioned_value list) btree" where
  "retained_map protected merged =
     List.map_filter (\<lambda>(key, versions). map_option (Pair key) (retained_versions protected versions)) merged"

lemma retain_fold:
  assumes "bt_wf merged"
  shows "fold (retain_key protected) merged [] = retained_map protected merged"
  using assms
proof (induction merged rule: rev_induct)
  case (snoc e merged)
  obtain key versions where e: "e = (key, versions)" by (cases e)
  have "fst ` set (retained_map protected merged) \<subseteq> fst ` set merged"
    by (force simp: retained_map_def map_filter_def)
  moreover have "\<forall>k \<in> fst ` set merged. k < key" using snoc.prems by (simp add: bt_wf_append e)
  ultimately have "\<forall>k \<in> fst ` set (retained_map protected merged). k < key" by blast
  then show ?case
    using snoc by (cases "retained_versions protected versions")
      (simp_all add: e retain_key_eq bt_insert_above bt_wf_append retained_map_def map_filter_def)
qed (simp add: retained_map_def map_filter_def)

lemma bt_wf_retained: "bt_wf merged \<Longrightarrow> bt_wf (retained_map protected merged)"
proof (induction merged)
  case (Cons e merged)
  obtain key versions where e: "e = (key, versions)" by (cases e)
  have "fst ` set (retained_map protected merged) \<subseteq> fst ` set merged"
    by (force simp: retained_map_def map_filter_def)
  moreover have "\<forall>k \<in> fst ` set merged. key < k" using Cons.prems by (simp add: bt_wf_def e)
  ultimately have "\<forall>k \<in> fst ` set (retained_map protected merged). key < k" by blast
  with Cons show ?case
    by (cases "retained_versions protected versions")
      (simp_all add: e bt_wf_def retained_map_def map_filter_def)
qed (simp add: retained_map_def map_filter_def)

lemma bt_get_retained:
  assumes "bt_wf merged"
  shows "bt_get (retained_map protected merged) key = Option.bind (bt_get merged key) (retained_versions protected)"
proof (rule option_eqI)
  fix vs
  have "bt_get (retained_map protected merged) key = Some vs \<longleftrightarrow> (key, vs) \<in> set (retained_map protected merged)"
    using bt.entries_mem [OF bt_wf_retained [OF assms]] by simp
  also have "\<dots> \<longleftrightarrow> (\<exists>versions. (key, versions) \<in> set merged \<and> retained_versions protected versions = Some vs)"
    by (force simp: retained_map_def map_filter_def)
  also have "\<dots> \<longleftrightarrow> Option.bind (bt_get merged key) (retained_versions protected) = Some vs"
    using bt.entries_mem [OF assms] by (auto simp: bind_eq_Some_conv)
  finally show "bt_get (retained_map protected merged) key = Some vs \<longleftrightarrow> Option.bind (bt_get merged key) (retained_versions protected) = Some vs" .
qed

section \<open>Reading what is kept\<close>

definition kept_entries :: "u64 list \<Rightarrow> (bytes, (u64, bytes option) btree) btree \<Rightarrow> entry set" where
  "kept_entries protected merged = {(key, v). \<exists>vs. bt_get (retained_map protected merged) key = Some vs \<and> v \<in> set vs}"

lemma bt_floor_versions:
  assumes "bt_wf versions"
  shows "bt_floor p versions = Some (vv_sequence v, vv_value v) \<longleftrightarrow>
    v \<in> version_set versions \<and> vv_sequence v \<le> p \<and> (\<forall>w \<in> version_set versions. vv_sequence w \<le> p \<longrightarrow> vv_sequence w \<le> vv_sequence v)"
proof -
  have "(\<forall>j w. bt_get versions j = Some w \<longrightarrow> j \<le> p \<longrightarrow> j \<le> vv_sequence v) \<longleftrightarrow>
      (\<forall>w \<in> version_set versions. vv_sequence w \<le> p \<longrightarrow> vv_sequence w \<le> vv_sequence v)"
    unfolding version_set_def by (auto, metis versioned_value.select_convs)
  then show ?thesis unfolding bt_floor_eq_Some [OF assms] by (simp add: version_set_def)
qed

lemma retained_versions_Some:
  assumes "bt_wf versions"
  shows "retained_versions protected versions = Some vs \<Longrightarrow>
      v \<in> set vs \<longleftrightarrow> (\<exists>p \<in> set protected. bt_floor p versions = Some (vv_sequence v, vv_value v))"
    and "retained_versions protected versions = None \<Longrightarrow> p \<in> set protected \<Longrightarrow> bt_floor p versions = Some (s, val) \<Longrightarrow> val = None"
proof -
  note wf = select_protected_spec(1) [OF assms, of protected] and sel = select_protected_spec(2) [OF assms, of protected]
  show "v \<in> set vs \<longleftrightarrow> (\<exists>p \<in> set protected. bt_floor p versions = Some (vv_sequence v, vv_value v))"
    if "retained_versions protected versions = Some vs"
  proof -
    have vs: "vs = map (\<lambda>(seq, val). \<lparr>vv_sequence = seq, vv_value = val\<rparr>) (select_protected protected versions)"
      using that by (simp add: retained_versions_def Let_def split: if_splits)
    have "v \<in> set vs \<longleftrightarrow> (vv_sequence v, vv_value v) \<in> set (select_protected protected versions)"
      unfolding vs by force
    then show ?thesis using bt.entries_mem [OF wf] sel by simp
  qed
  show "val = None" if none: "retained_versions protected versions = None" "p \<in> set protected" "bt_floor p versions = Some (s, val)"
  proof -
    have "(s, val) \<in> set (select_protected protected versions)" using none(2,3) sel bt.entries_mem [OF wf] by blast
    then show ?thesis using none(1) by (auto simp: retained_versions_def Let_def list_all_iff split: if_splits)
  qed
qed

lemma retained_subset: "bt_wf versions \<Longrightarrow> retained_versions protected versions = Some vs \<Longrightarrow> v \<in> set vs \<Longrightarrow> v \<in> version_set versions"
  using retained_versions_Some(1) [of versions protected vs v] bt_floor_versions [of versions] by blast

lemma kept_subset: "merged_wf merged \<Longrightarrow> kept_entries protected merged \<subseteq> merged_entries merged"
  by (auto simp: kept_entries_def merged_entries_def merged_wf_def bt_get_retained bind_eq_Some_conv intro: retained_subset)

text \<open>The newest kept version at a protected sequence is the newest merged one, up to a deletion.\<close>

lemma kept_newest:
  assumes wf: "merged_wf merged" and ess: "\<forall>es \<in> set ess. entries_sorted es" "set (concat ess) = merged_entries merged" "entries_agree (merged_entries merged)"
    and kept: "\<forall>es \<in> set kss. entries_sorted es" "set (concat kss) = kept_entries protected merged" and p: "p \<in> set protected"
  shows "Option.bind (newest_in kss key p) vv_value = Option.bind (newest_in ess key p) vv_value"
proof -
  have agree: "entries_agree (set (concat kss))" using entries_agree_subset [OF ess(3) kept_subset [OF wf]] kept(2) by simp
  note merged_newest = newest_in_eq_Some [OF ess(1), unfolded ess(2), OF ess(3), of key p]
    and kept_newest = newest_in_eq_Some [OF kept(1) agree, unfolded kept(2), of key p]
  have subset: "(key, w) \<in> kept_entries protected merged \<Longrightarrow> (key, w) \<in> merged_entries merged" for w
    using kept_subset [OF wf] by blast
  show ?thesis
  proof (cases "newest_in ess key p")
    case None
    then have "newest_in kss key p = None"
      using newest_in_None [OF ess(1), of key p] newest_in_None [OF kept(1), of key p] subset unfolding ess(2) kept(2) by blast
    with None show ?thesis by simp
  next
    case (Some v)
    then have v: "(key, v) \<in> merged_entries merged" "vv_sequence v \<le> p"
      "\<forall>w. (key, w) \<in> merged_entries merged \<longrightarrow> vv_sequence w \<le> p \<longrightarrow> vv_sequence w \<le> vv_sequence v"
      using merged_newest [of v] by auto
    then obtain target where t: "bt_get merged key = Some target" by (auto simp: merged_entries_def)
    have twf: "bt_wf target" using wf t by (simp add: merged_wf_def)
    have "{v. (key, v) \<in> merged_entries merged} = version_set target" using t by (simp add: merged_entries_def)
    then have floor: "bt_floor p target = Some (vv_sequence v, vv_value v)"
      using v unfolding bt_floor_versions [OF twf] by blast
    show ?thesis
    proof (cases "retained_versions protected target")
      case None
      then have "newest_in kss key p = None"
        using newest_in_None [OF kept(1), of key p] t wf unfolding kept(2) by (simp add: kept_entries_def bt_get_retained merged_wf_def)
      then show ?thesis using retained_versions_Some(2) [OF twf None p floor] Some by simp
    next
      case (Some vs)
      have "v \<in> set vs" using retained_versions_Some(1) [OF twf Some] p floor by blast
      then have "(key, v) \<in> kept_entries protected merged"
        using t Some wf by (simp add: kept_entries_def bt_get_retained merged_wf_def)
      then have "newest_in kss key p = Some v" using v subset kept_newest [of v] by blast
      then show ?thesis using \<open>newest_in ess key p = Some v\<close> by simp
    qed
  qed
qed

lemma seg_state_compacted:
  assumes st: "seg_state ess h D R" and wf: "merged_wf merged" and ess: "set (concat ess) = merged_entries merged"
    and kept: "\<forall>es \<in> set kss. entries_sorted es" "set (concat kss) = kept_entries protected merged" and D: "D \<in> set protected"
  shows "seg_state kss h D (R \<inter> (set protected \<union> {D..}))"
proof -
  have S: "\<forall>es \<in> set ess. entries_sorted es" "unat D \<le> length h" "{D..} \<subseteq> R" "sound_entries (set (concat ess)) (take (unat D) h)"
    "\<And>r key. r \<in> R \<Longrightarrow> r \<le> D \<Longrightarrow> Option.bind (newest_in ess key r) vv_value = replay (take (unat r) h) key"
    using st by (simp_all add: seg_state_def)
  have "sound_entries (set (concat kss)) (take (unat D) h)"
    using S(4) kept_subset [OF wf, of protected] unfolding sound_entries_def ess kept(2) by blast
  moreover have "Option.bind (newest_in kss key r) vv_value = replay (take (unat r) h) key"
    if "r \<in> R \<inter> (set protected \<union> {D..})" "r \<le> D" for r key
  proof -
    have "r \<in> set protected" using that D by auto
    from kept_newest [OF wf S(1) ess seg_state_agree [OF st, unfolded ess] kept this] show ?thesis
      using S(5) [of r key] that by simp
  qed
  ultimately show ?thesis using S(2,3) kept(1) unfolding seg_state_def by auto
qed

end
