(* ===== verification/Database_Compaction.thy ===== *)
theory Database_Compaction
  imports Database_Flush Compaction
begin

text \<open>
  Compaction. After a flush all segments are merged into at most one, which keeps what the
  protected snapshots and the newest sequence need. Reads there are unchanged; whatever fails, the
  files stand for the same history.
\<close>

section \<open>Merging the open segments\<close>

lemma merge_segments_yields:
  assumes segs: "open_segments (en_codec e) (db_segments db0) ps" and know: "\<forall>seg \<in> set (db_segments db0). knows truth (en_codec e) seg"
    and agree: "entries_agree (set (concat (map snd ps)))"
  shows "yields (reading db0 truth) (cfor (db_segments db0) (merge_segment e) [])
    (\<lambda>m. merged_wf m \<and> merged_entries m = set (concat (map snd ps)))"
proof -
  let ?I = "\<lambda>ys m. merged_wf m \<and> merged_entries m = set (concat (map snd (take (length ys) ps)))"
  have "yields (reading db0 truth) (cfor (db_segments db0) (merge_segment e) []) (?I (db_segments db0))"
  proof (rule yields_cfor)
    show "?I [] []" by (simp add: merged_wf_def merged_entries_def)
    fix ys seg m
    assume I: "?I ys m" and "\<exists>zs. db_segments db0 = ys @ seg # zs"
    then obtain zs where zs: "db_segments db0 = ys @ seg # zs" by blast
    let ?es = "snd (ps ! length ys)"
    have len: "length ys < length ps" using segs zs by (auto simp: open_segments_def dest: list_all2_lengthD)
    have rep: "segment_rep (en_codec e) seg ?es"
      using list_all2_nthD [OF segs [unfolded open_segments_def], of "length ys"] zs by simp
    have take: "take (length (ys @ [seg])) ps = take (length ys) ps @ [ps ! length ys]"
      using len by (simp add: take_Suc_conv_app_nth)
    have groups: "merged_entries m \<union> (\<Union>(key, vs) \<in> set (grouped_entries ?es). Pair key ` set vs) = set (concat (map snd (take (length (ys @ [seg])) ps)))"
      using I unfolding take grouped_entries_set by simp
    moreover have "set (concat (map snd (take (length (ys @ [seg])) ps))) \<subseteq> set (concat (map snd ps))"
      by (auto dest: in_set_takeD)
    ultimately have "entries_agree (merged_entries m \<union> (\<Union>(key, vs) \<in> set (grouped_entries ?es). Pair key ` set vs))"
      using entries_agree_subset [OF agree] by simp
    from merge_groups_ok [OF _ this] I groups obtain m' where "try_fold merge_group (grouped_entries ?es) m = Ok m'" "?I (ys @ [seg]) m'"
      by auto
    moreover have "knows truth (en_codec e) seg" using know zs by simp
    note on_cache_yields [OF seg_all_versions_yields [OF rep this], of db0]
    ultimately show "yields (reading db0 truth) (merge_segment e seg m) (?I (ys @ [seg]))"
      unfolding merge_segment_def by (elim yields_cbind) (simp add: yields_clift)
  qed
  then show ?thesis using segs by (simp add: open_segments_def list_all2_lengthD)
qed

section \<open>Writing the compacted segment\<close>

definition compacted_to :: "env \<Rightarrow> database \<Rightarrow> entry set \<Rightarrow> segment list \<Rightarrow> database \<Rightarrow> bool" where
  "compacted_to e db1 E segs db \<longleftrightarrow> db_extends db1 db \<and> (\<exists>qs truth. open_segments (en_codec e) segs qs \<and>
     (\<forall>(dsc, es) \<in> set qs. disk_segment (en_codec e) (dk_segments (db_disk db)) dsc es \<and> entries_sorted es) \<and>
     set (concat (map snd qs)) = E \<and> cache_state (en_codec e) segs (db_block_cache db1) (db_next_id db) truth)"

lemma from_versions_entries:
  assumes "bt_wf versions" and "from_versions versions limit = Ok t"
  shows "mt_wf t" and "set (mt_entries t) = {(key, v). \<exists>vs. bt_get versions key = Some vs \<and> v \<in> set vs}"
proof -
  show "mt_wf t" using from_versions_eq_Ok [OF assms(1), of limit] assms(2) from_versions_fields [OF assms(2)] by (auto simp: mt_wf_def)
  show "set (mt_entries t) = {(key, v). \<exists>vs. bt_get versions key = Some vs \<and> v \<in> set vs}"
    using from_versions_fields [OF assms(2)] bt.entries_mem [OF assms(1)] by (auto simp: mt_entries_def)
qed

lemma disk_segment_level: "disk_segment c files d es \<Longrightarrow> disk_segment c files (d\<lparr>sd_level := l\<rparr>) es"
proof -
  assume "disk_segment c files d es"
  then obtain bs seg where seg: "bt_get files (sd_id d) = Some bs" "segment_open c 0 bs = Ok seg"
    "(seg_descriptor seg)\<lparr>sd_level := sd_level d\<rparr> = d" "segment_rep c seg es"
    unfolding disk_segment_def by blast
  have "(seg_descriptor seg)\<lparr>sd_level := l\<rparr> = (seg_descriptor seg)\<lparr>sd_level := sd_level d, sd_level := l\<rparr>" by simp
  also have "\<dots> = d\<lparr>sd_level := l\<rparr>" unfolding seg(3) ..
  finally show ?thesis unfolding disk_segment_def using seg by (intro exI [of _ bs] exI [of _ seg]) simp
qed

lemma compacted_segments_triple:
  assumes codec: "codec_laws (en_codec e)" and ids: "db_next_id db1 \<noteq> u64_max" and merged: "merged_wf merged"
    and inv: "db_inv e db1 h R"
    and addr: "\<And>t bs. from_versions (retained_map protected merged) D = Ok t \<Longrightarrow> encode_v3 (en_codec e) t = Ok bs \<Longrightarrow>
      no_collision (dk_segments (db_disk db1)) bs"
  shows "triple (\<lambda>db. db = db1) (compacted_segments e io (retained_map protected merged) D)
    (compacted_to e db1 (kept_entries protected merged)) (db_extends db1)"
proof -
  let ?c = "en_codec e" and ?m = "retained_map protected merged"
  obtain ps' truth where I: "open_segments ?c (db_segments db1) ps'" "cache_state ?c (db_segments db1) (db_block_cache db1) (db_next_id db1) truth"
    using inv by (rule db_invE)
  have wf: "bt_wf ?m" using merged by (simp add: merged_wf_def bt_wf_retained)
  show ?thesis
    unfolding compacted_segments_def
  proof (rule triple_if)
    assume "?m = []"
    then have "kept_entries protected merged = {}" by (simp add: kept_entries_def)
    moreover have "cache_state ?c [] (db_block_cache db1) (db_next_id db1) truth" using I(2) by (simp add: cache_state_def)
    ultimately show "triple (\<lambda>db. db = db1) (cok []) (compacted_to e db1 (kept_entries protected merged)) (db_extends db1)"
      by (intro triple_return) (auto simp: compacted_to_def db_extends_refl open_segments_def)
  next
    have out: "compacted_to e db1 (kept_entries protected merged) [seg\<lparr>seg_descriptor := (seg_descriptor seg)\<lparr>sd_level := l\<rparr>\<rparr>] db"
      if t: "from_versions ?m D = Ok t" and seg: "new_segment e db1 (mt_entries t) seg db" for t seg db l
    proof -
      let ?seg = "seg\<lparr>seg_descriptor := (seg_descriptor seg)\<lparr>sd_level := l\<rparr>\<rparr>"
      note es = from_versions_entries [OF wf t]
      have N: "db_extends db1 db" "db_next_id db = db_next_id db1 + 1" "numbered (db_next_id db1) seg" "segment_rep ?c seg (mt_entries t)"
        "disk_segment ?c (dk_segments (db_disk db)) (seg_descriptor seg) (mt_entries t)"
        using seg by (simp_all add: new_segment_def)
      have reps: "\<forall>s \<in> set (db_segments db1). \<exists>es. segment_rep ?c s es" using open_segments_mem [OF I(1)] by blast
      have "numbered (db_next_id db1) ?seg" using N(3) by (simp add: numbered_def)
      from cache_state_extend [OF I(2) reps this ids] obtain truth' where
        "cache_state ?c [?seg] (db_block_cache db1) (db_next_id db) truth'" using N(2) by auto
      moreover have "open_segments ?c [?seg] [(seg_descriptor ?seg, mt_entries t)]"
        using segment_rep_level [where c = ?c and seg = seg and l = l] N(4) by (simp add: open_segments_def)
      moreover have "set (concat (map snd [(seg_descriptor ?seg, mt_entries t)])) = kept_entries protected merged"
        using es(2) by (simp add: kept_entries_def)
      moreover have "entries_sorted (mt_entries t)" by (rule mt_entries_sorted [OF es(1)])
      ultimately show ?thesis
        using N(1) disk_segment_level [OF N(5)] unfolding compacted_to_def
        by (intro conjI exI [of _ "[(seg_descriptor ?seg, mt_entries t)]"] exI [of _ truth']) simp_all
    qed
    show "triple (\<lambda>db. db = db1) (cbind (clift (from_versions ?m D)) (\<lambda>table. cbind (write_segment e io table) (\<lambda>seg.
        cbind (creads db_segments) (\<lambda>segments. cok [seg\<lparr>seg_descriptor := (seg_descriptor seg)\<lparr>sd_level := u8_saturating_succ (max_level segments)\<rparr>\<rparr>]))))
      (compacted_to e db1 (kept_entries protected merged)) (db_extends db1)"
      apply (rule triple_lift, rule db_extends_refl)
      apply (rule triple_step [OF write_segment_triple [OF codec from_versions_entries(1) [OF wf] ids addr]], assumption+)
      apply (rule triple_reads, rule triple_return, rule out, assumption+)
      done
  qed
qed

section \<open>Publishing the compaction\<close>

text \<open>The sequences at which reads stay exact are those of \<open>S\<close> at least.\<close>

definition stands_for :: "env \<Rightarrow> mutation list \<Rightarrow> u64 set \<Rightarrow> database \<Rightarrow> bool" where
  "stands_for e h S db \<longleftrightarrow> (\<exists>R. S \<subseteq> R \<and> db_inv e db h R \<and> \<not> poisoned (db_wal db))"

definition recovers_to :: "env \<Rightarrow> mutation list \<Rightarrow> u64 set \<Rightarrow> disk \<Rightarrow> bool" where
  "recovers_to e h S d \<longleftrightarrow> (\<exists>R. S \<subseteq> R \<and> disk_inv e d h R)"

definition compaction_settled :: "env \<Rightarrow> mutation list \<Rightarrow> u64 set \<Rightarrow> bool \<Rightarrow> database \<Rightarrow> bool" where
  "compaction_settled e h S uncertain db \<longleftrightarrow> recovers_to e h S (db_disk db) \<and> (uncertain \<or> stands_for e h S db)"

lemma compaction_settledI: "stands_for e h S db \<Longrightarrow> compaction_settled e h S uncertain db"
  unfolding compaction_settled_def stands_for_def recovers_to_def using db_inv_disk by blast

lemma stands_forI: "db_inv e db h R \<Longrightarrow> \<not> poisoned (db_wal db) \<Longrightarrow> S \<subseteq> R \<Longrightarrow> stands_for e h S db"
  unfolding stands_for_def by blast

lemma stands_for_extends: "db_inv e db0 h R \<Longrightarrow> \<not> poisoned (db_wal db0) \<Longrightarrow> S \<subseteq> R \<Longrightarrow> db_extends db0 db \<Longrightarrow> stands_for e h S db"
  by (rule stands_forI [OF db_extends_inv]) (auto simp: db_extends_def)

lemma compaction_publish_triple:
  assumes json: "json_laws (en_json e)" and inv: "flushed e h R db1" and merged: "merged_wf merged"
    and ms: "manifest_state e (db_disk db1) (db_manifest db1) h R ps" and entries: "merged_entries merged = set (concat (map snd ps))"
    and out: "compacted_to e db1 (kept_entries protected merged) segs db2"
    and new: "manifest_new (en_json e) g parent at (mf_durable_sequence (db_manifest db1)) (mf_wal_start_sequence (db_manifest db1))
      (map seg_descriptor segs) = Ok m'"
    and D: "mf_durable_sequence (db_manifest db1) \<in> set protected"
    and S: "S \<subseteq> R \<inter> (set protected \<union> {mf_durable_sequence (db_manifest db1)..})"
  shows "triple (\<lambda>db. db = db2)
    (cbind (on_store (store_publish (en_json e) io m' expected)) (\<lambda>_. cmodify (\<lambda>db. db\<lparr>db_segments := segs, db_manifest := m'\<rparr>)))
    (\<lambda>_. stands_for e h S) (compaction_settled e h S (snd io = Failed_After_Rename))"
proof (rule tripleI)
  fix db assume "db = db2"
  let ?d = "db_disk db2" and ?m = "db_manifest db1" and ?D = "mf_durable_sequence (db_manifest db1)"
  let ?R = "R \<inter> (set protected \<union> {?D..})"
  have F: "db_inv e db1 h R" "\<not> poisoned (db_wal db1)" "unat ?D = length h" using inv by (simp_all add: flushed_def)
  have ext: "db_extends db1 db2" using out by (simp add: compacted_to_def)
  obtain acked where I: "db_wal_start db1 = mf_wal_start_sequence ?m"
    "bt_get (dk_wals (db_disk db1)) (db_wal_start db1) = Some (db_wal_file db1)"
    "log_state (en_crc e) ?D h (db_wal_file db1) (db_wal db1) acked"
    "mt_rep (unat ?D) (drop (unat ?D) h) (db_memtable db1)"
    using F(1) by (rule db_invE)
  obtain qs truth where Q: "open_segments (en_codec e) segs qs"
    "\<forall>(dsc, es) \<in> set qs. disk_segment (en_codec e) (dk_segments ?d) dsc es \<and> entries_sorted es"
    "set (concat (map snd qs)) = kept_entries protected merged"
    "cache_state (en_codec e) segs (db_block_cache db1) (db_next_id db2) truth"
    using out unfolding compacted_to_def by blast
  have M: "seg_state (map snd ps) h ?D R" "\<forall>op \<in> set h. mutation_key op \<noteq> []" "?D \<noteq> u64_max" "mf_wal_start_sequence ?m = ?D + 1"
    using ms by (simp_all add: manifest_state_def)
  have st: "seg_state (map snd qs) h ?D ?R"
    using seg_state_compacted [OF M(1) merged entries [symmetric] _ Q(3) D] Q(2) by (simp add: case_prod_beta)
  have descr: "map seg_descriptor segs = map fst qs"
    using Q(1) unfolding open_segments_def by (induction rule: list_all2_induct) simp_all
  have files: "\<forall>(dsc, es) \<in> set qs. disk_segment (en_codec e) (dk_segments ?d) dsc es" using Q(2) by auto
  have new': "manifest_new (en_json e) g parent at ?D (?D + 1) (map fst qs) = Ok m'" using new M(4) descr by simp
  obtain res st' where pub: "store_publish (en_json e) io m' expected (dk_store ?d) = (res, st')" by fastforce
  let ?db = "db2\<lparr>db_disk := ?d\<lparr>dk_store := st'\<rparr>\<rparr>"
  let ?db' = "?db\<lparr>db_segments := segs, db_manifest := m'\<rparr>"
  have run: "cbind (on_store (store_publish (en_json e) io m' expected)) (\<lambda>_. cmodify (\<lambda>db. db\<lparr>db_segments := segs, db_manifest := m'\<rparr>)) db
      = (case res of Inl err \<Rightarrow> (Err err, ?db) | Inr _ \<Rightarrow> (Ok (), ?db'))"
    using pub by (simp add: \<open>db = db2\<close> cbind_def on_store_def czoom_def cmodify_def split: sum.splits)
  have same: "db_wal db2 = db_wal db1" "db_wal_start db2 = db_wal_start db1" "db_memtable db2 = db_memtable db1" "db_block_cache db2 = db_block_cache db1"
    using ext by (simp_all add: db_extends_def)
  have wal: "bt_get (dk_wals ?d) (db_wal_start db1) = Some (db_wal_file db1)"
    using I(2) ext by (auto simp: db_extends_def intro: map_leD)
  then have logfile: "db_wal_file ?db = db_wal_file db1" by (simp add: db_wal_file_def same)
  note mf = new' [unfolded manifest_new_ok [OF json]]
  from json new' pub files st M(3,2)
  show "case cbind (on_store (store_publish (en_json e) io m' expected)) (\<lambda>_. cmodify (\<lambda>db. db\<lparr>db_segments := segs, db_manifest := m'\<rparr>)) db of
     (Inl _, s') \<Rightarrow> compaction_settled e h S (snd io = Failed_After_Rename) s' | (Inr a, s') \<Rightarrow> stands_for e h S s'"
  proof (cases rule: manifest_switch)
    case (kept err)
    have "stands_for e h S ?db"
      using db_inv_store [OF db_extends_inv [OF F(1) ext] kept(2)] F(2) S by (intro stands_forI) (auto simp: same)
    then show ?thesis unfolding run kept(1) by (simp add: compaction_settledI)
  next
    case (switched rs)
    have "disk_inv e (db_disk ?db) h ?R"
      using switched(2) wal F(2) I(1,3) M(4) mf unfolding disk_inv_def
      by (intro exI [of _ m'] exI [of _ rs] exI [of _ "db_wal_file db1"] exI [of _ "db_wal db1"] exI [of _ acked]) simp
    then have disk: "recovers_to e h S (db_disk ?db)" using S unfolding recovers_to_def by blast
    have "db_inv e ?db' h ?R"
      using switched(1,2) I(1,3,4) M(4) mf Q(1,4) wal logfile same
      by (intro db_invI [where ps = rs and ps' = qs and acked = acked and truth = truth]) (simp_all add: db_wal_file_def)
    then have "stands_for e h S ?db'" using F(2) S by (intro stands_forI) (auto simp: same)
    with disk switched(3) show ?thesis unfolding run by (auto simp: compaction_settled_def split: sum.splits)
  qed
qed

text \<open>The table that a compaction writes, and the segment files it finds.\<close>

definition compaction_input :: "env \<Rightarrow> compact_io \<Rightarrow> snapshot list \<Rightarrow> u64 \<Rightarrow> database \<Rightarrow> seg_files \<Rightarrow> memtable \<Rightarrow> bool" where
  "compaction_input e io protected at db files t \<longleftrightarrow> (\<exists>r db1 merged db2. flush_memtable e (ci_flush io) at db = (Ok r, db1) \<and>
     cfor (db_segments db1) (merge_segment e) [] db1 = (Ok merged, db2) \<and> files = dk_segments (db_disk db1) \<and>
     from_versions (fold (retain_key (protected_set (mf_durable_sequence (db_manifest db1)) protected)) merged [])
       (mf_durable_sequence (db_manifest db1)) = Ok t)"

lemma protected_set_mem: "set (protected_set D protected) = insert D {s \<in> sn_sequence ` set protected. s \<le> D}"
  by (auto simp: protected_set_def bs_collect_def set_bs_insert)

lemma compact_flushed_triple:
  assumes json: "json_laws (en_json e)" and codec: "codec_laws (en_codec e)" and inv: "flushed e h R db1" and ids: "db_next_id db1 \<noteq> u64_max"
    and addr: "\<And>merged db2 t bs. cfor (db_segments db1) (merge_segment e) [] db1 = (Ok merged, db2) \<Longrightarrow>
      from_versions (fold (retain_key (protected_set (mf_durable_sequence (db_manifest db1)) protected)) merged [])
        (mf_durable_sequence (db_manifest db1)) = Ok t \<Longrightarrow>
      encode_v3 (en_codec e) t = Ok bs \<Longrightarrow> no_collision (dk_segments (db_disk db1)) bs"
    and S: "S = R \<inter> (sn_sequence ` set protected \<union> {word_of_nat (length h)..})"
  shows "triple (\<lambda>db. db = db1)
    (cbind (cfor (db_segments db1) (merge_segment e) []) (\<lambda>merged.
     let input_versions = word_of_nat (sum_list (map (\<lambda>(_, versions). length versions) merged));
         retained = fold (retain_key (protected_set (mf_durable_sequence (db_manifest db1)) protected)) merged [];
         output_versions = word_of_nat (sum_list (map (\<lambda>(_, versions). length versions) retained)) in
     cbind (compacted_segments e seg_io retained (mf_durable_sequence (db_manifest db1))) (\<lambda>compacted.
     cbind (clift (inject_compaction_failure failure CompactionSegmentSynced)) (\<lambda>_.
     cbind (clift (rbind (next_generation reason (db_manifest db1)) (\<lambda>generation.
              manifest_new (en_json e) generation parent at (mf_durable_sequence (db_manifest db1)) (mf_wal_start_sequence (db_manifest db1))
                (map seg_descriptor compacted)))) (\<lambda>next_m.
     cbind (on_store (store_publish (en_json e) io next_m expected)) (\<lambda>_.
     cbind (cmodify (\<lambda>db. db\<lparr>db_segments := compacted, db_manifest := next_m\<rparr>)) (\<lambda>_.
     cbind (clift (inject_compaction_failure failure CompactionManifestPublished)) (\<lambda>_.
     cok (out input_versions output_versions compacted next_m)))))))))
    (\<lambda>_. stands_for e h S) (compaction_settled e h S (snd io = Failed_After_Rename))"
    (is "triple _ _ _ ?E")
proof -
  let ?D = "mf_durable_sequence (db_manifest db1)" and ?p = "protected_set (mf_durable_sequence (db_manifest db1)) protected"
  have F: "db_inv e db1 h R" "\<not> poisoned (db_wal db1)" "unat ?D = length h" using inv by (simp_all add: flushed_def)
  have "word_of_nat (length h) = ?D" by (simp flip: F(3))
  then have sub: "S \<subseteq> R \<inter> (set ?p \<union> {?D..})" and R: "S \<subseteq> R" unfolding S protected_set_mem by auto
  obtain ps ps' where I: "manifest_state e (db_disk db1) (db_manifest db1) h R ps" "mset ps' = mset ps"
    "open_segments (en_codec e) (db_segments db1) ps'"
    using F(1) by (rule db_invE)
  obtain truth where T: "\<forall>seg \<in> set (db_segments db1). knows truth (en_codec e) seg" "reading db1 truth db1"
    "\<And>db. reading db1 truth db \<Longrightarrow> db_inv e db h R"
    using reading_db_inv [OF F(1)] by blast
  have "set (map snd ps') = set (map snd ps)" using I(2) by (metis mset_eq_setD set_map)
  then have ps: "set (concat (map snd ps')) = set (concat (map snd ps))" by (metis set_concat)
  have "seg_state (map snd ps) h ?D R" using I(1) by (simp add: manifest_state_def)
  from seg_state_agree [OF this] have agree: "entries_agree (set (concat (map snd ps')))" using ps by simp
  note merge = merge_segments_yields [OF I(3) T(1) agree]
  obtain merged db2 where M: "cfor (db_segments db1) (merge_segment e) [] db1 = (Ok merged, db2)" "reading db1 truth db2"
    "merged_wf merged" "merged_entries merged = set (concat (map snd ps))"
    using merge T(2) ps unfolding yields_def by metis
  note db2 = reading_fields [OF M(2)]
  have wal2: "db_wal db2 = db_wal db1" "db_next_id db2 = db_next_id db1"
    using M(2) unfolding reading_def by (metis database.select_convs database.surjective database.update_convs(7))+
  have F2: "flushed e h R db2" using T(3) [OF M(2)] F(2,3) db2 wal2 by (simp add: flushed_def)
  have inv2: "db_inv e db2 h R" "\<not> poisoned (db_wal db2)" using F2 by (simp_all add: flushed_def)
  have ret: "fold (retain_key ?p) merged [] = retained_map ?p merged" using M(3) by (simp add: merged_wf_def retain_fold)
  have safe: "?E db" if "db_extends db2 db" for db using stands_for_extends [OF inv2 R that] by (rule compaction_settledI)
  have writes: "triple (\<lambda>db. db = db2) (compacted_segments e seg_io (retained_map ?p merged) ?D) (compacted_to e db2 (kept_entries ?p merged)) ?E"
    by (rule triple_conseq [OF compacted_segments_triple [OF codec _ M(3) inv2(1)]])
      (use ids addr [OF M(1), unfolded ret] safe in \<open>auto simp: db2 wal2\<close>)
  have publish: "triple (\<lambda>db. db = db3)
      (cbind (on_store (store_publish (en_json e) io next_m expected)) (\<lambda>_.
       cbind (cmodify (\<lambda>db. db\<lparr>db_segments := compacted, db_manifest := next_m\<rparr>)) (\<lambda>_.
       cbind (clift (inject_compaction_failure failure CompactionManifestPublished)) (\<lambda>_. cok x)))) (\<lambda>_. stands_for e h S) ?E"
    if st: "compacted_to e db2 (kept_entries ?p merged) compacted db3"
      "rbind (next_generation reason (db_manifest db1)) (\<lambda>generation. manifest_new (en_json e) generation parent at ?D
         (mf_wal_start_sequence (db_manifest db1)) (map seg_descriptor compacted)) = Ok next_m"
    for db3 next_m compacted x
  proof -
    obtain g where "manifest_new (en_json e) g parent at ?D (mf_wal_start_sequence (db_manifest db1)) (map seg_descriptor compacted) = Ok next_m"
      using st(2) by (auto simp: res_simps)
    then have "triple (\<lambda>db. db = db3) (cbind (on_store (store_publish (en_json e) io next_m expected)) (\<lambda>_.
        cmodify (\<lambda>db. db\<lparr>db_segments := compacted, db_manifest := next_m\<rparr>))) (\<lambda>_. stands_for e h S) ?E"
      using I(1) sub by (intro compaction_publish_triple [OF json F2 M(3) _ M(4) st(1)]) (simp_all add: db2 protected_set_mem)
    then show ?thesis
      unfolding cbind_assoc [where f = "\<lambda>_. cmodify _"]
      by (rule triple_step) (auto intro!: triple_lift triple_return compaction_settledI)
  qed
  have merging: "triple (\<lambda>db. db = db1) (cfor (db_segments db1) (merge_segment e) []) (\<lambda>m db. m = merged \<and> db = db2) ?E"
    by (rule tripleI) (simp add: M(1))
  show ?thesis
    apply (rule triple_step [OF merging], elim conjE, simp only: Let_def ret)
    apply (rule triple_step [OF writes])
    apply (rule triple_lift, rule safe, simp add: compacted_to_def)
    apply (rule triple_lift, rule safe, simp add: compacted_to_def)
    apply (rule publish; assumption)
    done
qed

text \<open>A flush numbers at most one segment.\<close>

lemma flush_next_id:
  assumes "flush_memtable_inner e io at failure db = (res, db')"
  shows "db_next_id db' \<in> {db_next_id db, db_next_id db + 1}"
proof -
  let ?n = "db_next_id db"
  let ?N = "\<lambda>db'. db_next_id db' \<in> {?n, ?n + 1}"
  have keep: "triple ?N m (\<lambda>_. ?N) ?N" if "\<And>s. db_next_id (snd (m s)) = db_next_id s" for m :: "'a db_action"
    unfolding triple_def using that by (auto split: prod.splits sum.splits) (metis snd_conv)+
  have writes: "triple (\<lambda>s. db_next_id s = ?n) (write_segment e seg_io t) (\<lambda>_. ?N) ?N" for seg_io t
    by (rule tripleI) (auto simp: write_segment_def cbind_def fresh_id_def on_segments_def czoom_def cok_def split: sum.splits prod.splits)
  have sync: "triple (\<lambda>s. db_next_id s = ?n) (db_sync b) (\<lambda>_ s. db_next_id s = ?n) ?N" for b
    by (rule tripleI) (auto simp: db_sync_def split: sum.splits)
  have lift: "triple (\<lambda>s. db_next_id s = ?n) (clift r) (\<lambda>_ s. db_next_id s = ?n) ?N" for r :: "unit kv_result"
    by (rule tripleI) (auto simp: clift_def split: sum.splits)
  have wal: "db_next_id (snd (successor_wal e w err start s)) = db_next_id s" for w err start s
    by (auto simp: successor_wal_def split: option.split prod.split)
  have "triple (\<lambda>s. s = db) (flush_memtable_inner e io at failure) (\<lambda>_. ?N) ?N"
    unfolding flush_memtable_inner_def
    apply (rule triple_reads, rule triple_conseq [where P' = "\<lambda>s. db_next_id s = ?n" and Q' = "\<lambda>_. ?N" and E' = ?N])
       apply (rule triple_if; rule triple_cbind [OF sync])
        apply (rule triple_cok, simp)
       apply (rule triple_cbind [OF lift], rule triple_cbind [OF writes])
       apply ((rule triple_cbind [OF keep], simp add: action_simps wal on_store_def czoom_def split: prod.split)+)
       apply (rule triple_cok, simp_all)
    done
  from tripleD [OF this refl assms] show ?thesis by (cases res) auto
qed

lemma compact_reads:
  assumes "json_laws (en_json e)" and "codec_laws (en_codec e)" and "db_inv e db h R" and "\<not> poisoned (db_wal db)"
    and "unat (db_next_id db) + 2 < 2 ^ 64"
    and "\<And>bs. encode_v3 (en_codec e) (db_memtable db) = Ok bs \<Longrightarrow> no_collision (dk_segments (db_disk db)) bs"
    and "\<And>files t bs. compaction_input e io protected at db files t \<Longrightarrow> encode_v3 (en_codec e) t = Ok bs \<Longrightarrow> no_collision files bs"
    and "S = R \<inter> (sn_sequence ` set protected \<union> {word_of_nat (length h)..})"
    and "compact_inner e io protected at failure db = (res, db')"
  shows "recovers_to e h S (db_disk db') \<and>
    (is_ok res \<or> snd (fi_publish (ci_flush io)) \<noteq> Failed_After_Rename \<and> snd (ci_publish io) \<noteq> Failed_After_Rename \<longrightarrow> stands_for e h S db')"
proof -
  let ?u = "snd (fi_publish (ci_flush io)) = Failed_After_Rename \<or> snd (ci_publish io) = Failed_After_Rename"
  let ?E = "compaction_settled e h S ?u"
  have limit: "n \<noteq> u64_max" if "unat n < 2 ^ 64 - 1" for n :: u64
    using that by (auto simp: u64_max_def unsigned_minus_1_eq_mask mask_eq_exp_minus_1)
  have ids: "db_next_id db \<noteq> u64_max" using assms(5) by (intro limit) simp
  have ids': "n \<noteq> u64_max" if "n \<in> {db_next_id db, db_next_id db + 1}" for n
    using that assms(5) unat_succ [OF ids] by (intro limit) auto
  have SR: "S \<subseteq> R" using assms(8) by blast
  have flush: "triple (\<lambda>s. s = db) (flush_memtable e (ci_flush io) at)
      (\<lambda>r db1. flushed e h R db1 \<and> flush_memtable e (ci_flush io) at db = (Ok r, db1)) ?E"
  proof (rule tripleI)
    fix s assume "s = db"
    obtain r db1 where f: "flush_memtable e (ci_flush io) at db = (r, db1)" by fastforce
    from tripleD [OF flush_triple [OF assms(1-4) ids assms(6)] refl f [unfolded flush_memtable_def]]
    show "case flush_memtable e (ci_flush io) at s of (Inl _, s') \<Rightarrow> ?E s'
        | (Inr r, db1) \<Rightarrow> flushed e h R db1 \<and> flush_memtable e (ci_flush io) at db = (Ok r, db1)"
      using SR f \<open>s = db\<close> by (cases r) (auto simp: settled_def compaction_settled_def recovers_to_def stands_for_def)
  qed
  have rest: "triple (\<lambda>s. s = db1) (cbind (cfor (db_segments db1) (merge_segment e) []) (\<lambda>merged.
       let input_versions = word_of_nat (sum_list (map (\<lambda>(_, versions). length versions) merged));
           retained = fold (retain_key (protected_set (mf_durable_sequence (db_manifest db1)) protected)) merged [];
           output_versions = word_of_nat (sum_list (map (\<lambda>(_, versions). length versions) retained)) in
       cbind (compacted_segments e (ci_segment io) retained (mf_durable_sequence (db_manifest db1))) (\<lambda>compacted.
       cbind (clift (inject_compaction_failure failure CompactionSegmentSynced)) (\<lambda>_.
       cbind (clift (rbind (next_generation reason (db_manifest db1)) (\<lambda>generation.
                manifest_new (en_json e) generation parent at (mf_durable_sequence (db_manifest db1)) (mf_wal_start_sequence (db_manifest db1))
                  (map seg_descriptor compacted)))) (\<lambda>next_m.
       cbind (on_store (store_publish (en_json e) (ci_publish io) next_m expected)) (\<lambda>_.
       cbind (cmodify (\<lambda>db. db\<lparr>db_segments := compacted, db_manifest := next_m\<rparr>)) (\<lambda>_.
       cbind (clift (inject_compaction_failure failure CompactionManifestPublished)) (\<lambda>_.
       cok (out input_versions output_versions compacted next_m))))))))) (\<lambda>_. stands_for e h S) ?E"
    if db1: "flushed e h R db1" "flush_memtable e (ci_flush io) at db = (Ok r, db1)"
    for db1 r reason parent expected and out :: "u64 \<Rightarrow> u64 \<Rightarrow> segment list \<Rightarrow> manifest \<Rightarrow> compaction_outcome option"
  proof (rule triple_conseq [OF compact_flushed_triple [OF assms(1,2) db1(1) _ _ assms(8)]])
    show "db_next_id db1 \<noteq> u64_max" using flush_next_id [OF db1(2) [unfolded flush_memtable_def]] by (rule ids')
  qed (use assms(7) db1(2) in \<open>auto simp: compaction_input_def compaction_settled_def\<close>)
  have here: "stands_for e h S db1" if "flushed e h R db1" for db1 using that SR by (auto simp: flushed_def stands_for_def)
  have "triple (\<lambda>s. s = db) (compact_inner e io protected at failure) (\<lambda>_. stands_for e h S) ?E"
    unfolding compact_inner_def
    apply (rule triple_step [OF flush], elim conjE)
    apply (rule triple_reads, simp only: prod.case, rule triple_if, rule triple_return, erule here)
    subgoal for r db1
      using rest [of db1 r "''manifest generation overflow''" "Some (mf_digest (db_manifest db1))" "Some (mf_digest (db_manifest db1))"
          "\<lambda>input_versions output_versions compacted next_m. Some \<lparr>co_previous_manifest = mf_digest (db_manifest db1), co_manifest = mf_digest next_m,
             co_input_segments = length (db_segments db1), co_output_segments = length compacted,
             co_input_versions = input_versions, co_output_versions = output_versions,
             co_protected_sequences = protected_set (mf_durable_sequence (db_manifest db1)) protected\<rparr>"]
      unfolding Let_def by blast
    done
  from tripleD [OF this refl assms(9)] show ?thesis
    by (cases res) (auto simp: compaction_settled_def stands_for_def recovers_to_def dest: db_inv_disk)
qed

section \<open>Property\<close>

text \<open>C9. Compaction loses nothing that is protected. Whatever fails in a compaction, its inner flush, the
  write of the merged segment, an injected failure or the publication, the files recover to the same
  history, and reads at the newest sequence and at every protected snapshot that was readable before see
  exactly what they saw; the open database agrees, except after a directory sync that failed behind the
  rename of \<open>CURRENT\<close>. The merged segments never contradict each other, so merging does not fail.\<close>

theorem compaction_preserves_reads:
  assumes "json_laws (en_json e)" and "codec_laws (en_codec e)" and "db_inv e db h R" and "\<not> poisoned (db_wal db)"
    and "unat (db_next_id db) + 2 < 2 ^ 64"
    and "\<And>bs. encode_v3 (en_codec e) (db_memtable db) = Ok bs \<Longrightarrow> no_collision (dk_segments (db_disk db)) bs"
    and "\<And>files t bs. compaction_input e io protected at db files t \<Longrightarrow> encode_v3 (en_codec e) t = Ok bs \<Longrightarrow> no_collision files bs"
    and "S = R \<inter> (sn_sequence ` set protected \<union> {word_of_nat (length h)..})"
    and "compact_inner e io protected at failure db = (res, db')"
  shows "recovers_to e h S (db_disk db') \<and>
    (is_ok res \<or> snd (fi_publish (ci_flush io)) \<noteq> Failed_After_Rename \<and> snd (ci_publish io) \<noteq> Failed_After_Rename \<longrightarrow> stands_for e h S db')"
  by (rule compact_reads [OF assms])

theorem compaction_preserves_reads_witness:
  "\<exists>db io res db'. db_create example_env None None (Published, Published) 4096 1 = (Ok db, db_disk db) \<and>
    compact_inner example_env io [\<lparr>sn_sequence = 0\<rparr>] 7 None db = (res, db') \<and> recovers_to example_env [] UNIV (db_disk db')"
proof -
  let ?io = "\<lparr>ci_flush = \<lparr>fi_sync = True, fi_segment = Published, fi_successor = None, fi_publish = (Published, Published)\<rparr>,
    ci_segment = Published, ci_publish = (Published, Published)\<rparr>"
  obtain db where db: "db_create example_env None None (Published, Published) 4096 1 = (Ok db, db_disk db)"
    "db_inv example_env db [] UNIV" "\<not> poisoned (db_wal db)" by (rule example_db)
  have F: "db_next_id db = 1" "dk_segments (db_disk db) = []" "db_memtable db = at_sequence 0"
    using db(1) by (auto simp: db_create_def create_wal_def wal_create_at_def empty_disk_def Let_def split: sum.splits prod.splits)
  have "flush_memtable example_env (ci_flush ?io) 7 db = (Ok None, db)"
    using db(3) by (simp add: flush_memtable_def flush_memtable_inner_def cbind_def creads_def F(3) at_sequence_def mt_version_count_def
        db_sync_def wal_sync_def cok_def)
  then have input: "no_collision files bs" if "compaction_input example_env ?io [\<lparr>sn_sequence = 0\<rparr>] 7 db files t" for files t bs
    using that by (auto simp: compaction_input_def no_collision_def F(2))
  have flush: "no_collision (dk_segments (db_disk db)) bs" for bs by (simp add: no_collision_def F(2))
  have S: "UNIV = UNIV \<inter> (sn_sequence ` set [\<lparr>sn_sequence = 0\<rparr>] \<union> {word_of_nat (length ([] :: mutation list)) ..})" by auto
  obtain res db' where run: "compact_inner example_env ?io [\<lparr>sn_sequence = 0\<rparr>] 7 None db = (res, db')" by fastforce
  have "recovers_to example_env [] UNIV (db_disk db')"
    using compaction_preserves_reads [OF example_env_laws db(2,3) _ flush input S run] F(1) by simp
  with db(1) run show ?thesis by blast
qed

end
