(* ===== verification/Database_Gc.thy ===== *)
theory Database_Gc
  imports Database_Compaction
begin

text \<open>
  Garbage collection: everything that the current manifest or a checkpoint refers to is kept, and a
  collection that returns has removed every other file.
\<close>

section \<open>Removing files\<close>

definition swept :: "'k list \<Rightarrow> ('k, bytes) btree \<Rightarrow> ('k, bytes) btree \<Rightarrow> bool" where
  "swept retained before after \<longleftrightarrow> bt_get after \<subseteq>\<^sub>m bt_get before \<and> (\<forall>k \<in> set retained. bt_get after k = bt_get before k)"

lemma bt_get_remove: "bt_get (bt_remove k m) k' = (if k' = k then None else bt_get m k')"
  by (induction m) (auto simp: bt_get_def bt_remove_def)

lemma remove_candidates_get:
  assumes "remove_candidates names dir budget removed = (res, dir', budget')"
  shows "k \<notin> set names \<Longrightarrow> bt_get dir' k = bt_get dir k" and "bt_get dir' k \<in> {None, bt_get dir k}"
    and "res = Ok out \<Longrightarrow> out = removed @ names \<and> (k \<in> set names \<longrightarrow> bt_get dir' k = None)"
  using assms
proof (induction names dir budget removed arbitrary: res dir' budget' rule: remove_candidates.induct)
  case (2 name names dir budget removed)
  {
    case 1
    then show ?case using "2.IH" by (auto simp: bt_get_remove split: nat.splits)
  next
    case 2
    then show ?case using "2.IH"(2) by (fastforce simp: bt_get_remove split: nat.splits if_splits)
  next
    case 3
    then show ?case using "2.IH"(1,3) by (cases "k \<in> set names") (auto simp: bt_get_remove split: nat.splits)
  }
qed auto

lemma remove_unreachable:
  assumes "remove_candidates (unreachable_files dir retained) dir budget [] = (res, dir', budget')"
  shows "swept retained dir dir'" and "res = Ok out \<Longrightarrow> bt_get dir' = bt_get dir |` set retained \<and> set out = fst ` set dir - set retained"
proof -
  note r = remove_candidates_get [OF assms]
  have mem: "k \<in> set (unreachable_files dir retained) \<longleftrightarrow> k \<in> fst ` set dir \<and> k \<notin> set retained" for k
    by (auto simp: unreachable_files_def)
  show "swept retained dir dir'"
    unfolding swept_def map_le_def using r(1,2) mem by (metis domIff insertE singletonD)
  assume ok: "res = Ok out"
  have "bt_get dir' k = (bt_get dir |` set retained) k" for k
  proof (cases "k \<in> set retained")
    case True
    then show ?thesis using r(1) mem by simp
  next
    case False
    moreover have "bt_get dir k = None" if "k \<notin> fst ` set dir" using that by (simp add: bt_get_def map_of_eq_None_iff)
    ultimately show ?thesis using r(1) [of k] r(3) [OF ok, of k] mem by (cases "k \<in> fst ` set dir") auto
  qed
  then show "bt_get dir' = bt_get dir |` set retained \<and> set out = fst ` set dir - set retained"
    using r(3) [OF ok] mem by auto
qed

section \<open>What is retained\<close>

lemma retain_checkpoints:
  assumes "try_fold (retain_checkpoint e st) cs ms = Ok ms'" and "\<And>k m. bt_get ms k = Some m \<Longrightarrow> store_load (en_json e) st k = Ok m"
  shows "\<And>k m. bt_get ms' k = Some m \<Longrightarrow> store_load (en_json e) st k = Ok m"
    and "dom (bt_get ms') = dom (bt_get ms) \<union> ck_manifest ` set cs" and "bt_wf ms \<Longrightarrow> bt_wf ms'"
proof -
  have "(\<forall>k m. bt_get ms' k = Some m \<longrightarrow> store_load (en_json e) st k = Ok m) \<and>
      dom (bt_get ms') = dom (bt_get ms) \<union> ck_manifest ` set cs \<and> (bt_wf ms \<longrightarrow> bt_wf ms')"
    using assms
  proof (induction cs arbitrary: ms)
    case (Cons c cs)
    obtain m where m: "store_load (en_json e) st (ck_manifest c) = Ok m"
      and rest: "try_fold (retain_checkpoint e st) cs (case bt_get ms (ck_manifest c) of None \<Rightarrow> bt_insert (ck_manifest c) m ms | Some _ \<Rightarrow> ms) = Ok ms'"
      using Cons.prems(1) by (auto simp: res_simps retain_checkpoint_def [of e st c])
    show ?case
    proof (cases "bt_get ms (ck_manifest c)")
      case None
      have "store_load (en_json e) st k = Ok v" if "bt_get (bt_insert (ck_manifest c) m ms) k = Some v" for k v
        using that m Cons.prems(2) [of k v] by (auto simp: bt_get_insert split: if_splits)
      from Cons.IH [OF rest [unfolded None option.case] this] show ?thesis by (auto simp: bt_get_insert bt_wf_insert)
    next
      case (Some x)
      from Cons.IH [OF rest [unfolded Some option.case] Cons.prems(2)] show ?thesis using Some by auto
    qed
  qed auto
  then show "\<And>k m. bt_get ms' k = Some m \<Longrightarrow> store_load (en_json e) st k = Ok m"
    "dom (bt_get ms') = dom (bt_get ms) \<union> ck_manifest ` set cs" "bt_wf ms \<Longrightarrow> bt_wf ms'" by blast+
qed

text \<open>The manifests a collection starts from: the current one and those of the checkpoints.\<close>

definition roots :: "env \<Rightarrow> database \<Rightarrow> manifest set" where
  "roots e db = insert (db_manifest db) {m. \<exists>cs c. db_checkpoints e db = Ok cs \<and> c \<in> set cs \<and> store_load (en_json e) (dk_store (db_disk db)) (ck_manifest c) = Ok m}"

definition kept_files :: "env \<Rightarrow> database \<Rightarrow> disk \<Rightarrow> bool" where
  "kept_files e db d \<longleftrightarrow> (let d0 = db_disk db in
     ms_current (dk_store d) = ms_current (dk_store d0) \<and> ms_checkpoints (dk_store d) = ms_checkpoints (dk_store d0) \<and>
     bt_get (ms_manifests (dk_store d)) \<subseteq>\<^sub>m bt_get (ms_manifests (dk_store d0)) \<and>
     bt_get (dk_segments d) \<subseteq>\<^sub>m bt_get (dk_segments d0) \<and> bt_get (dk_wals d) \<subseteq>\<^sub>m bt_get (dk_wals d0) \<and>
     (\<forall>m \<in> roots e db. bt_get (ms_manifests (dk_store d)) (mf_digest m) = bt_get (ms_manifests (dk_store d0)) (mf_digest m) \<and>
        (\<forall>s \<in> set (mf_segments m). bt_get (dk_segments d) (sd_id s) = bt_get (dk_segments d0) (sd_id s)) \<and>
        bt_get (dk_wals d) (mf_wal_start_sequence m) = bt_get (dk_wals d0) (mf_wal_start_sequence m)))"

definition collected :: "env \<Rightarrow> database \<Rightarrow> disk \<Rightarrow> bool" where
  "collected e db d \<longleftrightarrow> dom (bt_get (ms_manifests (dk_store d))) \<subseteq> mf_digest ` roots e db \<and>
     dom (bt_get (dk_segments d)) \<subseteq> (\<Union>m \<in> roots e db. sd_id ` set (mf_segments m)) \<and>
     dom (bt_get (dk_wals d)) \<subseteq> mf_wal_start_sequence ` roots e db"

lemma gc_cases:
  assumes cur: "store_load (en_json e) (dk_store (db_disk db)) (mf_digest (db_manifest db)) = Ok (db_manifest db)"
    and gc: "garbage_collect e budget db = (res, db')"
  obtains (unread) err where "res = Err err" "db' = db"
  | (swept) d where "db' = db\<lparr>db_disk := d\<rparr>" "kept_files e db d" "is_ok res \<longrightarrow> collected e db d"
proof -
  let ?d = "db_disk db" and ?st = "dk_store (db_disk db)" and ?m = "db_manifest db"
  let ?r = "rbind (store_checkpoints (en_json e) ?st) (\<lambda>cs. try_fold (retain_checkpoint e ?st) cs [(mf_digest ?m, ?m)])"
  show thesis
  proof (cases ?r)
    case (Inl err)
    then have "res = Err err" "db' = db" using gc by (simp_all add: garbage_collect_def Let_def)
    then show thesis by (rule unread)
  next
    case (Inr ms)
    then obtain cs where cs: "store_checkpoints (en_json e) ?st = Ok cs" "try_fold (retain_checkpoint e ?st) cs [(mf_digest ?m, ?m)] = Ok ms"
      by (auto simp: res_simps)
    have one: "bt_get [(mf_digest ?m, ?m)] k = Some m \<Longrightarrow> store_load (en_json e) ?st k = Ok m" for k m
      using cur by (auto simp: bt_get_def split: if_splits)
    note R = retain_checkpoints [OF cs(2) one]
    have wf: "bt_wf ms" using R(3) by (simp add: bt_wf_def)
    define P where "P k \<longleftrightarrow> k = mf_digest ?m \<or> k \<in> ck_manifest ` set cs" for k
    have P: "P k \<longleftrightarrow> k \<in> dom (bt_get ms)" for k using R(2) by (auto simp: P_def bt_get_def)
    have load: "store_load (en_json e) ?st k = Ok m \<longleftrightarrow> bt_get ms k = Some m" if "P k" for k m
      using that R(1) [of k] unfolding P by fastforce
    have roots: "roots e db = snd ` set ms"
    proof -
      have "m \<in> roots e db \<longleftrightarrow> (\<exists>k. P k \<and> store_load (en_json e) ?st k = Ok m)" for m
        using cs(1) cur by (auto simp: roots_def db_checkpoints_def P_def)
      then have "m \<in> roots e db \<longleftrightarrow> (\<exists>k. bt_get ms k = Some m)" for m
        using load P by (metis domI)
      moreover have "m \<in> snd ` set ms \<longleftrightarrow> (\<exists>k. bt_get ms k = Some m)" for m
        unfolding bt.entries_mem [OF wf, symmetric] by force
      ultimately show ?thesis by blast
    qed
    have digest: "k = mf_digest m" if "(k, m) \<in> set ms" for k m
      using that R(1) [of k m] bt.entries_mem [OF wf, of k m] by (simp add: store_load_ok)
    let ?rm = "map fst ms" and ?rs = "bs_collect (concat (map (\<lambda>(_, m). map sd_id (mf_segments m)) ms))"
      and ?rw = "bs_collect (map (\<lambda>(_, m). mf_wal_start_sequence m) ms)"
    have "fst ` set ms = (\<lambda>p. mf_digest (snd p)) ` set ms" using digest by (intro image_cong) auto
    then have sets: "set ?rm = mf_digest ` roots e db" "set ?rs = (\<Union>m \<in> roots e db. sd_id ` set (mf_segments m))"
      "set ?rw = mf_wal_start_sequence ` roots e db"
      unfolding roots bs_collect_def by (simp_all add: image_image case_prod_beta)
    obtain r1 mf b1 where 1: "remove_candidates (unreachable_files (ms_manifests ?st) ?rm) (ms_manifests ?st) budget [] = (r1, mf, b1)"
      by (metis prod_cases3)
    obtain r2 sf b2 where 2: "remove_candidates (unreachable_files (dk_segments ?d) ?rs) (dk_segments ?d) b1 [] = (r2, sf, b2)"
      by (metis prod_cases3)
    obtain r3 wl b3 where 3: "remove_candidates (unreachable_files (dk_wals ?d) ?rw) (dk_wals ?d) b2 [] = (r3, wl, b3)"
      by (metis prod_cases3)
    note sw = remove_unreachable(1) [OF 1, unfolded swept_def sets] remove_unreachable(1) [OF 2, unfolded swept_def sets]
      remove_unreachable(1) [OF 3, unfolded swept_def sets]
    note ok = remove_unreachable(2) [OF 1, unfolded sets] remove_unreachable(2) [OF 2, unfolded sets] remove_unreachable(2) [OF 3, unfolded sets]
    let ?d1 = "?d\<lparr>dk_store := ?st\<lparr>ms_manifests := mf\<rparr>\<rparr>"
    have kept: "kept_files e db ?d1" "kept_files e db (?d1\<lparr>dk_segments := sf\<rparr>)" "kept_files e db (?d1\<lparr>dk_segments := sf, dk_wals := wl\<rparr>)"
      unfolding kept_files_def Let_def using sw by auto
    have coll: "collected e db (?d1\<lparr>dk_segments := sf, dk_wals := wl\<rparr>)" if "is_ok r1" "is_ok r2" "is_ok r3"
    proof -
      have "bt_get mf = bt_get (ms_manifests ?st) |` (mf_digest ` roots e db)" "bt_get wl = bt_get (dk_wals ?d) |` (mf_wal_start_sequence ` roots e db)"
        "bt_get sf = bt_get (dk_segments ?d) |` (\<Union>m \<in> roots e db. sd_id ` set (mf_segments m))"
        using that ok by (auto simp: is_ok_iff)
      then show ?thesis unfolding collected_def by simp
    qed
    show thesis
      using gc Inr kept coll unfolding garbage_collect_def Let_def
      by (cases r1; cases r2; cases r3) (auto simp: 1 2 3 intro!: swept)
  qed
qed

section \<open>Property\<close>

lemma store_load_same:
  "bt_get (ms_manifests st') k = bt_get (ms_manifests st) k \<Longrightarrow> store_load j st' k = store_load j st k"
  by (simp add: store_load_def)

lemma kept_db_inv:
  assumes inv: "db_inv e db h R" and kept: "kept_files e db d"
  shows "db_inv e (db\<lparr>db_disk := d\<rparr>) h R"
proof -
  let ?m = "db_manifest db"
  obtain ps ps' acked truth where I: "manifest_state e (db_disk db) ?m h R ps" "db_wal_start db = mf_wal_start_sequence ?m"
    "bt_get (dk_wals (db_disk db)) (db_wal_start db) = Some (db_wal_file db)"
    "log_state (en_crc e) (mf_durable_sequence ?m) h (db_wal_file db) (db_wal db) acked"
    "mt_rep (unat (mf_durable_sequence ?m)) (drop (unat (mf_durable_sequence ?m)) h) (db_memtable db)"
    "mset ps' = mset ps" "open_segments (en_codec e) (db_segments db) ps'"
    "cache_state (en_codec e) (db_segments db) (db_block_cache db) (db_next_id db) truth"
    using inv by (rule db_invE)
  have root: "?m \<in> roots e db" by (simp add: roots_def)
  then have K: "ms_current (dk_store d) = ms_current (dk_store (db_disk db))"
    "bt_get (ms_manifests (dk_store d)) (mf_digest ?m) = bt_get (ms_manifests (dk_store (db_disk db))) (mf_digest ?m)"
    "\<And>s. s \<in> set (mf_segments ?m) \<Longrightarrow> bt_get (dk_segments d) (sd_id s) = bt_get (dk_segments (db_disk db)) (sd_id s)"
    "bt_get (dk_wals d) (mf_wal_start_sequence ?m) = bt_get (dk_wals (db_disk db)) (mf_wal_start_sequence ?m)"
    using kept by (simp_all add: kept_files_def Let_def)
  obtain p where p: "store_current (en_json e) (dk_store (db_disk db)) = Ok (Some (p, ?m))" "cp_manifest p = mf_digest ?m"
    using I(1) by (auto simp: manifest_state_def)
  then have "store_current (en_json e) (dk_store d) = Ok (Some (p, ?m))"
    using store_load_same [OF K(2), of "en_json e"] K(1) by (simp add: store_current_ok)
  moreover have "disk_segment (en_codec e) (dk_segments d) dsc es" if "(dsc, es) \<in> set ps" for dsc es
  proof -
    have "dsc \<in> set (mf_segments ?m)" using I(1) that by (force simp: manifest_state_def)
    then show ?thesis using K(3) I(1) that by (auto simp: manifest_state_def disk_segment_def)
  qed
  ultimately have "manifest_state e d ?m h R ps" using I(1) p(2) by (auto simp: manifest_state_def)
  then show ?thesis
    using I(2-8) K(4) by (intro db_invI [where ps = ps and ps' = ps' and acked = acked and truth = truth]) (simp_all add: db_wal_file_def)
qed

lemma kept_checkpoints:
  assumes "kept_files e db d" and "db_checkpoints e db = Ok cs"
  shows "db_checkpoints e (db\<lparr>db_disk := d\<rparr>) = Ok cs"
proof -
  let ?j = "en_json e" and ?st = "dk_store (db_disk db)"
  obtain xs where xs: "list_all2 (\<lambda>p c. read_checkpoint ?j ?st (snd p) = Ok c) (ms_checkpoints ?st) xs" "cs = sort_key ck_name xs"
    using assms(2) by (auto simp: db_checkpoints_def store_checkpoints_def res_simps try_map_eq_Inr case_prod_beta)
  have "read_checkpoint ?j (dk_store d) bs = Ok c" if r: "read_checkpoint ?j ?st bs = Ok c" and c: "c \<in> set xs" for bs c
  proof -
    obtain m where m: "store_load ?j ?st (ck_manifest c) = Ok m" using r by (auto simp: read_checkpoint_def res_simps split: if_splits)
    then have "m \<in> roots e db" "mf_digest m = ck_manifest c" using assms(2) c xs(2) by (auto simp: roots_def store_load_ok)
    then have "bt_get (ms_manifests (dk_store d)) (ck_manifest c) = bt_get (ms_manifests ?st) (ck_manifest c)"
      using assms(1) by (fastforce simp: kept_files_def Let_def)
    from store_load_same [OF this, of ?j] r show ?thesis by (auto simp: read_checkpoint_def res_simps split: if_splits)
  qed
  then have "list_all2 (\<lambda>p c. read_checkpoint ?j (dk_store d) (snd p) = Ok c) (ms_checkpoints ?st) xs"
    using list.rel_mono_strong [OF xs(1)] by fastforce
  moreover have "ms_checkpoints (dk_store d) = ms_checkpoints ?st" using assms(1) by (simp add: kept_files_def Let_def)
  ultimately have "try_map (\<lambda>(_, bs). read_checkpoint ?j (dk_store d) bs) (ms_checkpoints (dk_store d)) = Ok xs"
    by (simp add: try_map_eq_Inr case_prod_beta)
  then show ?thesis using xs(2) by (simp add: db_checkpoints_def store_checkpoints_def)
qed

lemma gc_inv:
  assumes "db_inv e db h R" and "garbage_collect e budget db = (res, db')"
  shows "db_inv e db' h R \<and> kept_files e db (db_disk db') \<and>
    (\<forall>cs. db_checkpoints e db = Ok cs \<longrightarrow> db_checkpoints e db' = Ok cs) \<and> (is_ok res \<longrightarrow> collected e db (db_disk db'))"
proof -
  obtain ps where "manifest_state e (db_disk db) (db_manifest db) h R ps" using assms(1) by (rule db_invE)
  then have "store_load (en_json e) (dk_store (db_disk db)) (mf_digest (db_manifest db)) = Ok (db_manifest db)"
    by (auto simp: manifest_state_def store_current_ok)
  from this assms(2) show ?thesis
  proof (cases rule: gc_cases)
    case unread
    then show ?thesis using assms(1) by (simp add: kept_files_def)
  next
    case (swept d)
    then show ?thesis using kept_db_inv [OF assms(1) swept(2)] kept_checkpoints [OF swept(2)] by simp
  qed
qed

text \<open>C17. Garbage collection is safe and complete. Wherever it stops, the database stands for the same
  history, the checkpoints are still listed, and every manifest, segment file and log that the current
  manifest or a checkpoint refers to is unchanged; a collection that returns has left no other file.\<close>

theorem garbage_collection:
  assumes "db_inv e db h R" and "garbage_collect e budget db = (res, db')"
  shows "db_inv e db' h R \<and> kept_files e db (db_disk db') \<and>
    (\<forall>cs. db_checkpoints e db = Ok cs \<longrightarrow> db_checkpoints e db' = Ok cs) \<and> (is_ok res \<longrightarrow> collected e db (db_disk db'))"
  by (rule gc_inv [OF assms])

theorem garbage_collection_witness:
  "\<exists>db res db'. db_create example_env None None (Published, Published) 4096 1 = (Ok db, db_disk db) \<and>
    garbage_collect example_env 5 db = (res, db') \<and> db_inv example_env db' [] UNIV"
proof -
  obtain db where db: "db_create example_env None None (Published, Published) 4096 1 = (Ok db, db_disk db)"
    "db_inv example_env db [] UNIV" by (rule example_db)
  obtain res db' where gc: "garbage_collect example_env 5 db = (res, db')" by fastforce
  from garbage_collection [OF db(2) gc] db(1) gc show ?thesis by blast
qed

end
