(* ===== verification/Database_Snapshot.thy ===== *)
theory Database_Snapshot
  imports Database_Gc
begin

text \<open>
  Moving a database: exporting a snapshot bundle and installing it elsewhere. The installation
  replaces the local history by the source's in one step, the publication of the manifest; until then the
  local database is unchanged.
\<close>

section \<open>Images\<close>

text \<open>The segment bytes of a snapshot and the entries they hold.\<close>

definition image_segment :: "codec \<Rightarrow> segment_descriptor \<times> bytes kv_result \<Rightarrow> segment_descriptor \<times> entry list \<Rightarrow> bool" where
  "image_segment c content p \<longleftrightarrow> fst p = fst content \<and> (\<exists>bs seg. snd content = Ok bs \<and> segment_open c 0 bs = Ok seg \<and>
     (seg_descriptor seg)\<lparr>sd_level := sd_level (fst p)\<rparr> = fst p \<and> segment_rep c seg (snd p))"

definition image_of :: "env \<Rightarrow> manifest \<Rightarrow> (segment_descriptor \<times> bytes kv_result) list \<Rightarrow> mutation list \<Rightarrow> u64 set
    \<Rightarrow> (segment_descriptor \<times> entry list) list \<Rightarrow> bool" where
  "image_of e source contents h R ps \<longleftrightarrow> mf_segments source = map fst ps \<and> list_all2 (image_segment (en_codec e)) contents ps \<and>
     unat (mf_durable_sequence source) = length h \<and> mf_durable_sequence source \<noteq> u64_max \<and>
     seg_state (map snd ps) h (mf_durable_sequence source) R \<and> (\<forall>op \<in> set h. mutation_key op \<noteq> [])"

definition importing :: "env \<Rightarrow> database \<Rightarrow> (segment_descriptor \<times> entry list) list \<Rightarrow> segment list \<Rightarrow> database \<Rightarrow> bool" where
  "importing e db0 ps imported db \<longleftrightarrow> db_extends db0 db \<and> unat (db_next_id db) = unat (db_next_id db0) + length ps \<and>
     open_segments (en_codec e) imported ps \<and> (\<forall>(dsc, es) \<in> set ps. disk_segment (en_codec e) (dk_segments (db_disk db)) dsc es) \<and>
     (\<exists>truth. cache_state (en_codec e) (db_segments db0 @ imported) (db_block_cache db0) (db_next_id db) truth)"

lemma install_bytes_cases:
  assumes "install_snapshot_bytes c n io files dsc bs = (r, files')" and open0: "segment_open c 0 bs = Ok seg0"
    "(seg_descriptor seg0)\<lparr>sd_level := sd_level dsc\<rparr> = dsc" "segment_rep c seg0 es"
  shows "bt_get files \<subseteq>\<^sub>m bt_get files'"
    and "r = Ok seg \<Longrightarrow> seg_descriptor seg = dsc \<and> segment_rep c seg es \<and> numbered n seg \<and> bt_get files' (sd_id dsc) = Some bs"
proof -
  show "bt_get files \<subseteq>\<^sub>m bt_get files'"
    using assms(1) by (auto simp: install_snapshot_bytes_def Let_def map_le_insert split: sum.splits option.splits publish_outcome.splits)
  obtain seg1 where s1: "segment_open c n bs = Ok seg1" "seg_descriptor seg1 = seg_descriptor seg0" "numbered n seg1" "segment_rep c seg1 es"
    using segment_open_any_id [OF open0(1), of n] open0(3) by blast
  assume "r = Ok seg"
  then have "seg = seg1\<lparr>seg_descriptor := (seg_descriptor seg1)\<lparr>sd_level := sd_level dsc\<rparr>\<rparr>" "bt_get files' (sd_id dsc) = Some bs"
    using assms(1) s1(1) by (auto simp: install_snapshot_bytes_def Let_def res_simps bt_get_insert
        split: sum.splits option.splits publish_outcome.splits if_splits)
  then show "seg_descriptor seg = dsc \<and> segment_rep c seg es \<and> numbered n seg \<and> bt_get files' (sd_id dsc) = Some bs"
    using s1(2-4) open0(2) segment_rep_level [where c = c and seg = seg1 and l = "sd_level dsc"] by (simp add: numbered_def)
qed

lemma install_segment_triple:
  assumes img: "image_segment (en_codec e) content p" and ids: "unat (db_next_id db0) + length ps + 1 < 2 ^ 64"
    and segs: "open_segments (en_codec e) (db_segments db0) qs"
  shows "triple (importing e db0 ps imported) (install_segment e io (i, content) imported) (importing e db0 (ps @ [p])) (db_extends db0)"
proof (rule tripleI)
  fix db assume I: "importing e db0 ps imported db"
  let ?c = "en_codec e" and ?n = "db_next_id db"
  obtain dsc es where p: "p = (dsc, es)" by (cases p)
  obtain bs seg0 where C: "content = (dsc, Ok bs)" "segment_open ?c 0 bs = Ok seg0" "(seg_descriptor seg0)\<lparr>sd_level := sd_level dsc\<rparr> = dsc"
    "segment_rep ?c seg0 es"
    using img by (cases content) (auto simp: image_segment_def p)
  obtain r files where ins: "install_snapshot_bytes ?c ?n (io i) (dk_segments (db_disk db)) dsc bs = (r, files)" by fastforce
  note b = install_bytes_cases [OF ins C(2-4)]
  let ?db = "db\<lparr>db_next_id := ?n + 1, db_disk := (db_disk db)\<lparr>dk_segments := files\<rparr>\<rparr>"
  have run: "install_segment e io (i, content) imported db = (rbind r (\<lambda>seg. Ok (imported @ [seg])), ?db)"
    using ins by (auto simp: install_segment_def C(1) cbind_def clift_def fresh_id_def on_segments_def czoom_def cok_def split: sum.splits prod.splits)
  have max: "?n \<noteq> u64_max" using I ids by (auto simp: importing_def u64_max_def unsigned_minus_1_eq_mask mask_eq_exp_minus_1)
  have ext0: "db_extends db0 db" using I by (simp add: importing_def)
  have "?n \<le> ?n + 1" using unat_succ [OF max] by (simp add: word_le_nat_alt)
  then have "db_extends db ?db" using b(1) by (simp add: db_extends_def)
  then have ext: "db_extends db0 ?db" using ext0 db_extends_trans by blast
  have "importing e db0 (ps @ [p]) (imported @ [seg]) ?db" if "r = Ok seg" for seg
  proof -
    note s = b(2) [OF that]
    obtain truth where cs: "cache_state ?c (db_segments db0 @ imported) (db_block_cache db0) ?n truth" using I by (auto simp: importing_def)
    have "open_segments ?c (db_segments db0 @ imported) (qs @ ps)"
      using segs I by (simp add: importing_def open_segments_def list_all2_appendI)
    then have "\<forall>s \<in> set (db_segments db0 @ imported). \<exists>es. segment_rep ?c s es" using open_segments_mem by blast
    from cache_state_extend [OF cs this _ max] s obtain truth' where
      "cache_state ?c ((db_segments db0 @ imported) @ [seg]) (db_block_cache db0) (?n + 1) truth'" by blast
    moreover have "disk_segment ?c files dsc es" using s C(2-4) unfolding disk_segment_def by blast
    moreover have "disk_segment ?c files d' es'" if "(d', es') \<in> set ps" for d' es'
      using I that b(1) by (auto simp: importing_def intro: disk_segment_mono)
    ultimately show ?thesis
      using ext I s unat_succ [OF max] by (auto simp: importing_def p open_segments_def intro!: list_all2_appendI exI [of _ truth'])
  qed
  with ext show "case install_segment e io (i, content) imported db of (Inl _, s') \<Rightarrow> db_extends db0 s' | (Inr a, s') \<Rightarrow> importing e db0 (ps @ [p]) a s'"
    unfolding run by (auto simp: rbind_def split: sum.splits)
qed

lemma install_segments_triple:
  assumes img: "list_all2 (image_segment (en_codec e)) contents ps" and ids: "unat (db_next_id db0) + length ps < 2 ^ 64"
    and inv: "db_inv e db0 h R"
  shows "triple (\<lambda>db. db = db0) (cfor (List.enumerate 0 contents) (install_segment e io) []) (importing e db0 ps) (db_extends db0)"
proof -
  obtain qs truth where I: "open_segments (en_codec e) (db_segments db0) qs"
    "cache_state (en_codec e) (db_segments db0) (db_block_cache db0) (db_next_id db0) truth"
    using inv by (rule db_invE)
  let ?I = "\<lambda>(ys :: (nat \<times> segment_descriptor \<times> bytes kv_result) list) imported. importing e db0 (take (length ys) ps) imported"
  have len: "length contents = length ps" using img by (rule list_all2_lengthD)
  have loop: "triple (?I [] []) (cfor (List.enumerate 0 contents) (install_segment e io) []) (?I (List.enumerate 0 contents)) (db_extends db0)"
  proof (rule triple_cfor [where I = ?I])
    fix ys :: "(nat \<times> segment_descriptor \<times> bytes kv_result) list" and x imported
    assume "\<exists>zs. List.enumerate 0 contents = ys @ x # zs"
    then obtain zs where zs: "List.enumerate 0 contents = ys @ x # zs" by blast
    have "length ys < length contents" using arg_cong [OF zs, of length] by simp
    then have x: "x = (length ys, contents ! length ys)" using nth_enumerate_eq [of "length ys" contents 0] zs by simp
    have "take (length (ys @ [x])) ps = take (length ys) ps @ [ps ! length ys]"
      using \<open>length ys < length contents\<close> len by (simp add: take_Suc_conv_app_nth)
    moreover have "image_segment (en_codec e) (contents ! length ys) (ps ! length ys)"
      using img \<open>length ys < length contents\<close> by (rule list_all2_nthD)
    moreover have "unat (db_next_id db0) + length (take (length ys) ps) + 1 < 2 ^ 64"
      using ids \<open>length ys < length contents\<close> len by simp
    ultimately show "triple (?I ys imported) (install_segment e io x imported) (?I (ys @ [x])) (db_extends db0)"
      using install_segment_triple [OF _ _ I(1)] unfolding x by metis
  qed
  have "importing e db0 [] [] db0" using I(2) by (auto simp: importing_def db_extends_refl open_segments_def)
  then show ?thesis by (intro triple_conseq [OF loop]) (simp_all add: len)
qed

section \<open>Installing\<close>

text \<open>Where an installation can leave things: the local history, or, once the manifest is published, that
  of the source.\<close>

definition install_settled :: "env \<Rightarrow> mutation list \<Rightarrow> u64 set \<Rightarrow> mutation list \<Rightarrow> u64 set \<Rightarrow> bool \<Rightarrow> database \<Rightarrow> bool" where
  "install_settled e h R h' R' uncertain db \<longleftrightarrow> (disk_inv e (db_disk db) h R \<or> disk_inv e (db_disk db) h' R') \<and>
     (uncertain \<or> (db_inv e db h R \<or> db_inv e db h' R') \<and> \<not> poisoned (db_wal db))"

lemma importing_extends:
  "importing e db0 ps imported a \<Longrightarrow> db_extends a b \<Longrightarrow> db_next_id b = db_next_id a \<Longrightarrow> importing e db0 ps imported b"
  unfolding importing_def using db_extends_trans [of db0 a b] by (auto intro: disk_segment_mono simp: db_extends_def [of a b])

lemma install_publish_triple:
  assumes json: "json_laws (en_json e)" and inv: "db_inv e db0 h R" "\<not> poisoned (db_wal db0)"
    and img: "image_of e source contents h' R' ps" and imp: "importing e db0 ps imported db2"
    and wal: "empty_log e (mf_durable_sequence source + 1) w db2"
    and new: "manifest_new (en_json e) g parent at (mf_durable_sequence source) (mf_durable_sequence source + 1) (mf_segments source) = Ok m'"
  shows "triple (\<lambda>db. db = db2)
    (cbind (on_store (store_publish (en_json e) io m' expected)) (\<lambda>_.
     cmodify (\<lambda>db. db\<lparr>db_wal := w, db_wal_start := mf_durable_sequence source + 1, db_memtable := at_sequence (mf_durable_sequence source),
              db_segments := imported, db_manifest := m'\<rparr>)))
    (\<lambda>_ db. db_inv e db h' R' \<and> \<not> poisoned (db_wal db)) (install_settled e h R h' R' (snd io = Failed_After_Rename))"
proof (rule tripleI)
  fix db assume "db = db2"
  let ?d = "db_disk db2" and ?D = "mf_durable_sequence source"
  have ext: "db_extends db0 db2" using imp by (simp add: importing_def)
  have G: "mf_segments source = map fst ps" "unat ?D = length h'" "?D \<noteq> u64_max" "seg_state (map snd ps) h' ?D R'" "\<forall>op \<in> set h'. mutation_key op \<noteq> []"
    using img by (simp_all add: image_of_def)
  have files: "\<forall>(dsc, es) \<in> set ps. disk_segment (en_codec e) (dk_segments ?d) dsc es" using imp by (simp add: importing_def)
  have new': "manifest_new (en_json e) g parent at ?D (?D + 1) (map fst ps) = Ok m'" using new G(1) by simp
  obtain res st' where pub: "store_publish (en_json e) io m' expected (dk_store ?d) = (res, st')" by fastforce
  let ?db = "db2\<lparr>db_disk := ?d\<lparr>dk_store := st'\<rparr>\<rparr>"
  let ?db' = "?db\<lparr>db_wal := w, db_wal_start := ?D + 1, db_memtable := at_sequence ?D, db_segments := imported, db_manifest := m'\<rparr>"
  let ?run = "cbind (on_store (store_publish (en_json e) io m' expected)) (\<lambda>_.
     cmodify (\<lambda>db. db\<lparr>db_wal := w, db_wal_start := ?D + 1, db_memtable := at_sequence ?D, db_segments := imported, db_manifest := m'\<rparr>)) db"
  have run: "?run = (case res of Inl err \<Rightarrow> (Err err, ?db) | Inr _ \<Rightarrow> (Ok (), ?db'))"
    using pub by (simp add: \<open>db = db2\<close> cbind_def on_store_def czoom_def cmodify_def split: sum.splits)
  have log: "bt_get (dk_wals ?d) (?D + 1) = Some (wal_file (en_crc e) [])" "\<not> poisoned w"
    "log_state (en_crc e) ?D h' (wal_file (en_crc e) []) w []"
    using wal log_state_empty [OF G(3)] G(2) by (simp_all add: empty_log_def)
  note mf = new' [unfolded manifest_new_ok [OF json]]
  from json new' pub files G(4,3,5)
  show "case ?run of (Inl _, s') \<Rightarrow> install_settled e h R h' R' (snd io = Failed_After_Rename) s' | (Inr a, s') \<Rightarrow> db_inv e s' h' R' \<and> \<not> poisoned (db_wal s')"
  proof (cases rule: manifest_switch)
    case (kept err)
    have "\<not> poisoned (db_wal ?db)" using inv(2) ext by (simp add: db_extends_def)
    moreover note db_inv_store [OF db_extends_inv [OF inv(1) ext] kept(2)]
    ultimately have "db_inv e ?db h R" "\<not> poisoned (db_wal ?db)" "disk_inv e (db_disk ?db) h R" using db_inv_disk by blast+
    then show ?thesis unfolding run kept(1) by (simp add: install_settled_def)
  next
    case (switched rs)
    have disk: "disk_inv e (db_disk ?db) h' R'"
      using switched(2) log mf unfolding disk_inv_def
      by (intro exI [of _ m'] exI [of _ rs] exI [of _ "wal_file (en_crc e) []"] exI [of _ w] exI [of _ "[]"]) simp
    obtain truth where cache: "cache_state (en_codec e) (db_segments db0 @ imported) (db_block_cache db0) (db_next_id db2) truth"
      "open_segments (en_codec e) imported ps" using imp by (auto simp: importing_def)
    have "db_block_cache db2 = db_block_cache db0" using ext by (simp add: db_extends_def)
    then have "db_inv e ?db' h' R'"
      using switched(1,2) log mf cache G(2) mt_rep_at_sequence [of ?D]
      by (intro db_invI [where ps = rs and ps' = ps and acked = "[]" and truth = truth])
        (simp_all add: db_wal_file_def cache_state_def)
    with disk log(2) switched(3) show ?thesis unfolding run by (auto simp: install_settled_def split: sum.splits)
  qed
qed

lemma install_image_triple:
  assumes json: "json_laws (en_json e)" and inv: "db_inv e db0 h R" "\<not> poisoned (db_wal db0)"
    and img: "image_of e source contents h' R' ps" and ids: "unat (db_next_id db0) + length ps < 2 ^ 64"
  shows "triple (\<lambda>db. db = db0) (install_image e io source contents at failure)
    (\<lambda>m db. if mf_durable_sequence source = sn_sequence (db_snapshot db0) \<and> mf_segments (db_manifest db0) = mf_segments source
       then db = db0 else sn_sequence (db_snapshot db0) < mf_durable_sequence source \<and> db_inv e db h' R' \<and> \<not> poisoned (db_wal db))
    (install_settled e h R h' R' (snd (ii_publish io) = Failed_After_Rename))"
    (is "triple _ _ ?Q ?E")
proof -
  let ?D = "mf_durable_sequence source"
  have safe: "?E db" if "db_extends db0 db" for db
    using settled_extends [OF inv that, of False] by (simp add: settled_def install_settled_def)
  have loads: "triple (\<lambda>db. db = db0) (cfor (List.enumerate 0 contents) (install_segment e (ii_segments io)) []) (importing e db0 ps) ?E"
    using img by (intro triple_conseq [OF install_segments_triple [OF _ ids inv(1)]]) (auto simp: image_of_def safe)
  have wal: "triple (\<lambda>db. db = db1) (successor_wal e (ii_successor io) err start)
      (\<lambda>w db. importing e db0 ps imported db \<and> empty_log e start w db) ?E"
    if imp: "importing e db0 ps imported db1" for db1 imported err start
  proof (rule triple_conseq [OF successor_wal_triple [of db1 e "ii_successor io" err start]])
    have "db_extends db0 db1" using imp by (simp add: importing_def)
    then show "?E db" if "db_extends db1 db" for db using db_extends_trans that safe by blast
  qed (use importing_extends [OF imp] in auto)
  have publish: "triple (\<lambda>db. db = db2)
      (cbind (on_store (store_publish (en_json e) (ii_publish io) m' expected)) (\<lambda>_.
       cbind (cmodify (\<lambda>db. db\<lparr>db_wal := w, db_wal_start := next_seq, db_memtable := at_sequence ?D,
                db_segments := imported, db_manifest := m'\<rparr>)) (\<lambda>_.
       cbind (clift (inject_snapshot_install_failure failure InstallManifestPublished)) (\<lambda>_. cok m'))))
      (\<lambda>_ db. db_inv e db h' R' \<and> \<not> poisoned (db_wal db)) ?E"
    if st: "importing e db0 ps imported db2" "empty_log e next_seq w db2" "ok_or (checked_add ?D 1) err = Ok next_seq"
      "rbind (next_generation reason m) (\<lambda>g. manifest_new (en_json e) g parent at' ?D next_seq (mf_segments source)) = Ok m'"
    for db2 imported next_seq w m' err reason m parent at' expected
  proof -
    have next_seq: "next_seq = ?D + 1" using st(3) img by (simp add: checked_succ image_of_def)
    obtain g where "manifest_new (en_json e) g parent at' ?D (?D + 1) (mf_segments source) = Ok m'"
      using st(4) next_seq by (auto simp: res_simps)
    from install_publish_triple [OF json inv img st(1) st(2) [unfolded next_seq] this, of "ii_publish io" expected]
    show ?thesis
      unfolding cbind_assoc [where f = "\<lambda>_. cmodify _"] next_seq
      by (rule triple_step) (auto simp: install_settled_def db_inv_disk intro!: triple_lift triple_return)
  qed
  show ?thesis
    unfolding install_image_def
    apply (rule triple_reads, simp only: prod.case Let_def)
    apply (rule triple_if, rule triple_return, simp)
    apply (rule triple_if, rule triple_clift, simp, simp add: safe [OF db_extends_refl])
    apply (simp only: if_False)
    apply (rule triple_step [OF loads])
    apply (rule triple_lift, rule safe, simp add: importing_def)
    apply (rule triple_lift, rule safe, simp add: importing_def)
    apply (rule triple_step [OF wal], assumption)
    apply (elim conjE)
    apply (rule triple_lift, rule safe, simp add: importing_def)
    apply (rule triple_reads)
    apply (rule triple_lift, rule safe, simp add: importing_def)
    apply (rule triple_conseq, rule publish; assumption?)
     apply simp
    done
qed

section \<open>Exporting\<close>

lemma export_image:
  assumes inv: "flushed e h R db" and segs: "try_map (\<lambda>descriptor.
      rbind (ok_or (bt_get (dk_segments (db_disk db)) (sd_id descriptor)) (Io NotFound)) (\<lambda>bs.
      Ok \<lparr>ss_descriptor = descriptor, ss_bytes = bs\<rparr>)) (mf_segments (db_manifest db)) = Ok segments"
  shows "\<exists>ps. image_of e (db_manifest db) (map (\<lambda>s. (ss_descriptor s, Ok (ss_bytes s))) segments) h R ps \<and> length ps = length segments"
proof -
  obtain ps where M: "manifest_state e (db_disk db) (db_manifest db) h R ps" using inv unfolding flushed_def by (auto elim: db_invE)
  have all2: "list_all2 (\<lambda>d s. ss_descriptor s = d \<and> bt_get (dk_segments (db_disk db)) (sd_id d) = Some (ss_bytes s)) (map fst ps) segments"
    using segs M unfolding try_map_eq_Inr by (auto simp: manifest_state_def res_simps elim!: list_all2_mono)
  have "list_all2 (image_segment (en_codec e)) (map (\<lambda>s. (ss_descriptor s, Ok (ss_bytes s))) segments) ps"
    unfolding list_all2_conv_all_nth
  proof (intro conjI allI impI)
    show len: "length (map (\<lambda>s. (ss_descriptor s, Ok (ss_bytes s))) segments) = length ps"
      using list_all2_lengthD [OF all2] by simp
    fix i assume "i < length (map (\<lambda>s. (ss_descriptor s, Ok (ss_bytes s))) segments)"
    then have i: "i < length segments" "i < length ps" using len by simp_all
    have "ss_descriptor (segments ! i) = fst (ps ! i)" "bt_get (dk_segments (db_disk db)) (sd_id (fst (ps ! i))) = Some (ss_bytes (segments ! i))"
      using list_all2_nthD [OF all2, of i] i by simp_all
    moreover have "disk_segment (en_codec e) (dk_segments (db_disk db)) (fst (ps ! i)) (snd (ps ! i))"
      using M nth_mem [OF i(2)] by (auto simp: manifest_state_def)
    ultimately show "image_segment (en_codec e) (map (\<lambda>s. (ss_descriptor s, Ok (ss_bytes s))) segments ! i) (ps ! i)"
      using i by (auto simp: image_segment_def disk_segment_def)
  qed
  then show ?thesis
    using M inv list_all2_lengthD [OF all2] by (intro exI [of _ ps]) (simp add: image_of_def manifest_state_def flushed_def)
qed

lemma export_bundle:
  assumes "json_laws (en_json e)" and "codec_laws (en_codec e)" and "db_inv e db h R" and "\<not> poisoned (db_wal db)" and "db_next_id db \<noteq> u64_max"
    and "\<And>bs. encode_v3 (en_codec e) (db_memtable db) = Ok bs \<Longrightarrow> no_collision (dk_segments (db_disk db)) bs"
    and ex: "export_snapshot_bundle e io at db = (Ok bundle, db')"
  shows "flushed e h R db'" and "\<exists>ps. image_of e (sb_source_manifest bundle) (map (\<lambda>s. (ss_descriptor s, Ok (ss_bytes s))) (sb_segments bundle)) h R ps \<and>
    length ps = length (sb_segments bundle)"
proof -
  obtain r where f: "flush_memtable e io at db = (Ok r, db')"
    and b: "rbind (try_map (\<lambda>descriptor. rbind (ok_or (bt_get (dk_segments (db_disk db')) (sd_id descriptor)) (Io NotFound)) (\<lambda>bs.
      Ok \<lparr>ss_descriptor = descriptor, ss_bytes = bs\<rparr>)) (mf_segments (db_manifest db'))) (bundle_new (en_codec e) (en_json e) (db_manifest db')) = Ok bundle"
    using ex by (auto simp: export_snapshot_bundle_def cbind_Ok)
  from tripleD [OF flush_triple [OF assms(1-6)] refl f [unfolded flush_memtable_def]] show fl: "flushed e h R db'" by simp
  from b obtain segments where s: "try_map (\<lambda>descriptor. rbind (ok_or (bt_get (dk_segments (db_disk db')) (sd_id descriptor)) (Io NotFound)) (\<lambda>bs.
      Ok \<lparr>ss_descriptor = descriptor, ss_bytes = bs\<rparr>)) (mf_segments (db_manifest db')) = Ok segments"
    "bundle_new (en_codec e) (en_json e) (db_manifest db') segments = Ok bundle"
    by (auto simp: res_simps)
  from s(2) have "sb_source_manifest bundle = db_manifest db'" "sb_segments bundle = segments"
    by (auto simp: bundle_new_def Let_def res_simps)
  with export_image [OF fl s(1)] show "\<exists>ps. image_of e (sb_source_manifest bundle) (map (\<lambda>s. (ss_descriptor s, Ok (ss_bytes s))) (sb_segments bundle)) h R ps \<and>
    length ps = length (sb_segments bundle)" by simp
qed

section \<open>Property\<close>

text \<open>C10. Snapshot replication. Installing an exported bundle in another database replaces that database's
  history by the exported one, reads at every readable sequence included, exactly when the exported
  history is longer; a bundle that the target already holds changes nothing. Whatever fails, the target's
  files stand for its own history or for the exported one, never for a mixture, and so does the open
  target unless the directory sync behind the rename of \<open>CURRENT\<close> failed.\<close>

theorem snapshot_replication:
  assumes "json_laws (en_json e)" and "codec_laws (en_codec e)"
    and "db_inv e db h R" and "\<not> poisoned (db_wal db)" and "db_next_id db \<noteq> u64_max"
    and "\<And>bs. encode_v3 (en_codec e) (db_memtable db) = Ok bs \<Longrightarrow> no_collision (dk_segments (db_disk db)) bs"
    and "export_snapshot_bundle e io at db = (Ok bundle, db1)"
    and "db_inv e target h' R'" and "\<not> poisoned (db_wal target)" and "unat (db_next_id target) + length (sb_segments bundle) < 2 ^ 64"
    and "install_snapshot_bundle_inner e iio bundle at' failure target = (res, target')"
  shows "db_inv e db1 h R \<and>
    (disk_inv e (db_disk target') h' R' \<or> disk_inv e (db_disk target') h R) \<and>
    (case res of
       Inr _ \<Rightarrow> (length h' = length h \<and> target' = target) \<or> (length h' < length h \<and> db_inv e target' h R)
     | Inl _ \<Rightarrow> snd (ii_publish iio) = Failed_After_Rename \<or> db_inv e target' h' R' \<or> db_inv e target' h R)"
proof -
  note ex = export_bundle [OF assms(1-7)]
  let ?src = "sb_source_manifest bundle" and ?u = "snd (ii_publish iio) = Failed_After_Rename"
  obtain ps where img: "image_of e ?src (map (\<lambda>s. (ss_descriptor s, Ok (ss_bytes s))) (sb_segments bundle)) h R ps" "length ps = length (sb_segments bundle)"
    using ex(2) by blast
  have ids: "unat (db_next_id target) + length ps < 2 ^ 64" using assms(10) img(2) by simp
  have len: "unat (mf_durable_sequence ?src) = length h" using img(1) by (simp add: image_of_def)
  have cur: "unat (sn_sequence (db_snapshot target)) = length h'" using db_inv_D(5) [OF assms(8)] by (simp add: db_snapshot_def)
  have here: "install_settled e h' R' h R ?u target" using assms(8,9) by (simp add: install_settled_def db_inv_disk)
  let ?Q = "\<lambda>db'. if mf_durable_sequence ?src = sn_sequence (db_snapshot target) \<and> mf_segments (db_manifest target) = mf_segments ?src
       then db' = target else sn_sequence (db_snapshot target) < mf_durable_sequence ?src \<and> db_inv e db' h R \<and> \<not> poisoned (db_wal db')"
  have "triple (\<lambda>db. db = target) (install_snapshot_bundle_inner e iio bundle at' failure) (\<lambda>_. ?Q) (install_settled e h' R' h R ?u)"
    unfolding install_snapshot_bundle_inner_def
    by (rule triple_lift) (rule here, rule install_image_triple [OF assms(1,8,9) img(1) ids])
  from tripleD [OF this refl assms(11)]
  have post: "case res of Inl _ \<Rightarrow> install_settled e h' R' h R ?u target' | Inr _ \<Rightarrow> ?Q target'" .
  show ?thesis
  proof (cases res)
    case (Inl err)
    with post ex(1) show ?thesis by (auto simp: install_settled_def flushed_def)
  next
    case (Inr m)
    with post have Q: "?Q target'" by simp
    show ?thesis
    proof (cases "mf_durable_sequence ?src = sn_sequence (db_snapshot target) \<and> mf_segments (db_manifest target) = mf_segments ?src")
      case True
      with Q len cur have "target' = target" "length h' = length h" by simp_all
      then show ?thesis using Inr ex(1) db_inv_disk [OF assms(8,9)] by (simp add: flushed_def)
    next
      case False
      with Q have "sn_sequence (db_snapshot target) < mf_durable_sequence ?src" "db_inv e target' h R" "\<not> poisoned (db_wal target')" by auto
      then show ?thesis using Inr ex(1) db_inv_disk len cur by (simp add: flushed_def word_less_nat_alt)
    qed
  qed
qed

theorem snapshot_replication_witness:
  "\<exists>db io iio bundle db1 res target'. db_create example_env None None (Published, Published) 4096 1 = (Ok db, db_disk db) \<and>
    export_snapshot_bundle example_env io 5 db = (Ok bundle, db1) \<and>
    install_snapshot_bundle_inner example_env iio bundle 6 None db = (res, target') \<and> disk_inv example_env (db_disk target') [] UNIV"
proof -
  let ?io = "\<lparr>fi_sync = True, fi_segment = Published, fi_successor = None, fi_publish = (Published, Published)\<rparr>"
  let ?iio = "\<lparr>ii_segments = (\<lambda>_. Published), ii_successor = None, ii_publish = (Published, Published)\<rparr>"
  obtain db where db: "db_create example_env None None (Published, Published) 4096 1 = (Ok db, db_disk db)"
    "db_inv example_env db [] UNIV" "\<not> poisoned (db_wal db)" by (rule example_db)
  have F: "db_next_id db = 1" "dk_segments (db_disk db) = []" "db_memtable db = at_sequence 0" "db_manifest db = first_manifest"
    using db(1) first_manifest_new by (auto simp: example_env_def db_create_def create_wal_def wal_create_at_def empty_disk_def Let_def split: sum.splits prod.splits)
  have flush: "flush_memtable example_env ?io 5 db = (Ok None, db)"
    using db(3) by (simp add: flush_memtable_def flush_memtable_inner_def cbind_def creads_def F(3) at_sequence_def mt_version_count_def
        db_sync_def wal_sync_def cok_def)
  have "mf_segments first_manifest = []" by (simp add: first_manifest_def Let_def)
  then have ex: "export_snapshot_bundle example_env ?io 5 db = (Ok empty_bundle, db)"
    using empty_bundle_new(1) by (simp add: export_snapshot_bundle_def cbind_def flush F(4), simp add: example_env_def)
  have addr: "no_collision (dk_segments (db_disk db)) bs" for bs by (simp add: no_collision_def F(2))
  obtain res target' where run: "install_snapshot_bundle_inner example_env ?iio empty_bundle 6 None db = (res, target')" by fastforce
  have "db_next_id db \<noteq> u64_max" "unat (db_next_id db) + length (sb_segments empty_bundle) < 2 ^ 64"
    by (simp_all add: F(1) u64_max_def empty_bundle_def)
  then have "disk_inv example_env (db_disk target') [] UNIV"
    using snapshot_replication [OF example_env_laws db(2,3) _ addr ex db(2,3) _ run] by blast
  with db(1) ex run show ?thesis by blast
qed

end
