(* ===== verification/Database_System.thy ===== *)
theory Database_System
  imports Database_Snapshot
begin

text \<open>
  The database as a whole: any interleaving of its operations, of failures and of restarts refines the
  abstract store, a history of operations read by replaying a prefix of it.
\<close>

section \<open>Checkpoints\<close>

lemma store_current_same:
  assumes "ms_current st' = ms_current st" and "ms_manifests st' = ms_manifests st"
  shows "store_current j st' = store_current j st"
proof -
  have "store_load j st' = store_load j st" by (intro ext) (simp only: store_load_def assms)
  then show ?thesis by (simp only: store_current_def assms)
qed

lemma checkpoint_keeps_current:
  assumes "store_checkpoint j io name digest at st = (res, st')"
  shows "store_current j st' = store_current j st"
proof -
  have "ms_current st' = ms_current st" "ms_manifests st' = ms_manifests st"
    using assms by (auto simp: store_checkpoint_def persist_rename_def split: sum.splits option.splits publish_outcome.splits prod.splits)
  then show ?thesis by (rule store_current_same)
qed

lemma release_keeps_current:
  assumes "release_checkpoint name st = (res, st')"
  shows "store_current j st' = store_current j st"
proof -
  have "ms_current st' = ms_current st" "ms_manifests st' = ms_manifests st"
    using assms by (auto simp: release_checkpoint_def split: sum.splits option.splits)
  then show ?thesis by (rule store_current_same)
qed

lemma on_store_inv:
  assumes "db_inv e db h R" and "on_store m db = (res, db')"
    and "\<And>st r st'. m st = (r, st') \<Longrightarrow> store_current (en_json e) st' = store_current (en_json e) st"
  shows "db_inv e db' h R" and "db_wal db' = db_wal db"
proof -
  obtain r st' where "m (dk_store (db_disk db)) = (r, st')" by fastforce
  then have "db' = db\<lparr>db_disk := (db_disk db)\<lparr>dk_store := st'\<rparr>\<rparr>" "store_current (en_json e) st' = store_current (en_json e) (dk_store (db_disk db))"
    using assms(2,3) by (auto simp: on_store_def czoom_def)
  then show "db_inv e db' h R" "db_wal db' = db_wal db" using db_inv_store [OF assms(1)] by simp_all
qed

section \<open>Executions\<close>

definition flush_allowed :: "env \<Rightarrow> database \<Rightarrow> bool" where
  "flush_allowed e db \<longleftrightarrow> \<not> poisoned (db_wal db) \<and> db_next_id db \<noteq> u64_max \<and>
     (\<forall>bs. encode_v3 (en_codec e) (db_memtable db) = Ok bs \<longrightarrow> no_collision (dk_segments (db_disk db)) bs)"

definition open_allowed :: "env \<Rightarrow> nat \<Rightarrow> u64 \<Rightarrow> disk \<Rightarrow> bool" where
  "open_allowed e n next_id d \<longleftrightarrow> n < 2 ^ 64 - 1 \<and>
     (\<forall>p m. store_current (en_json e) (dk_store d) = Ok (Some (p, m)) \<longrightarrow> unat next_id + length (mf_segments m) < 2 ^ 64) \<and>
     (\<forall>k log. bt_get (dk_wals d) k = Some log \<longrightarrow> length log < 2 ^ 63)"

text \<open>\<open>db_reaches e db h R\<close>: an execution from a new database has led to \<open>db\<close>; \<open>h\<close> are the
  operations of its acknowledged writes in order, and \<open>R\<close> are the sequences compactions have protected.
  A failed or crashed flush may be followed by a restart from the files it left.\<close>

inductive db_reaches :: "env \<Rightarrow> database \<Rightarrow> mutation list \<Rightarrow> u64 set \<Rightarrow> bool" for e where
  created: "db_create e None None (Published, Published) n next_id = (Ok db, d) \<Longrightarrow> n < 2 ^ 64 - 1 \<Longrightarrow> db_reaches e db [] UNIV"
| written: "db_reaches e db h R \<Longrightarrow> db_write e io batch dur db = (Ok receipt, db') \<Longrightarrow> db_reaches e db' (h @ operations batch) R"
| write_failed: "db_reaches e db h R \<Longrightarrow> db_write e io batch dur db = (Err err, db') \<Longrightarrow> db_reaches e db' h R"
| read_one: "db_reaches e db h R \<Longrightarrow> sn_sequence at \<in> R \<Longrightarrow> db_get e key at db = (res, db') \<Longrightarrow> db_reaches e db' h R"
| read_many: "db_reaches e db h R \<Longrightarrow> sn_sequence at \<in> R \<Longrightarrow> db_get_many e keys at db = (res, db') \<Longrightarrow> db_reaches e db' h R"
| scanned: "db_reaches e db h R \<Longrightarrow> sn_sequence at \<in> R \<Longrightarrow> db_scan e start end' at db = (res, db') \<Longrightarrow> db_reaches e db' h R"
| flushed: "db_reaches e db h R \<Longrightarrow> flush_allowed e db \<Longrightarrow> flush_memtable_inner e fio at failure db = (res, db') \<Longrightarrow>
    is_ok res \<or> snd (fi_publish fio) \<noteq> Failed_After_Rename \<Longrightarrow> db_reaches e db' h R"
| flush_crashed: "db_reaches e db h R \<Longrightarrow> flush_allowed e db \<Longrightarrow> flush_memtable_inner e fio at failure db = (res, db') \<Longrightarrow>
    open_allowed e n next_id (db_disk db') \<Longrightarrow> db_open e n next_id (db_disk db') = Ok db'' \<Longrightarrow> db_reaches e db'' h R"
| reopened: "db_reaches e db h R \<Longrightarrow> \<not> poisoned (db_wal db) \<Longrightarrow> open_allowed e n next_id (db_disk db) \<Longrightarrow>
    db_open e n next_id (db_disk db) = Ok db' \<Longrightarrow> db_reaches e db' h R"
| compacted: "db_reaches e db h R \<Longrightarrow> flush_allowed e db \<Longrightarrow> unat (db_next_id db) + 2 < 2 ^ 64 \<Longrightarrow>
    (\<And>files t bs. compaction_input e cio protected at db files t \<Longrightarrow> encode_v3 (en_codec e) t = Ok bs \<Longrightarrow> no_collision files bs) \<Longrightarrow>
    compact_inner e cio protected at cfailure db = (cres, db') \<Longrightarrow>
    is_ok cres \<or> snd (fi_publish (ci_flush cio)) \<noteq> Failed_After_Rename \<and> snd (ci_publish cio) \<noteq> Failed_After_Rename \<Longrightarrow>
    db_reaches e db' h (R \<inter> (sn_sequence ` set protected \<union> {word_of_nat (length h)..}))"
| collected: "db_reaches e db h R \<Longrightarrow> garbage_collect e budget db = (gres, db') \<Longrightarrow> db_reaches e db' h R"
| checkpointed: "db_reaches e db h R \<Longrightarrow> db_checkpoint e io name at db = (pres, db') \<Longrightarrow> db_reaches e db' h R"
| released: "db_reaches e db h R \<Longrightarrow> db_release_checkpoint name db = (rres, db') \<Longrightarrow> db_reaches e db' h R"

definition refines :: "env \<Rightarrow> database \<Rightarrow> mutation list \<Rightarrow> u64 set \<Rightarrow> bool" where
  "refines e db h R \<longleftrightarrow> (\<exists>R'. R \<subseteq> R' \<and> db_inv e db h R') \<and> (\<forall>r. length h \<le> unat r \<longrightarrow> r \<in> R)"

lemma refinesI: "db_inv e db h R' \<Longrightarrow> R \<subseteq> R' \<Longrightarrow> (\<And>r. length h \<le> unat r \<Longrightarrow> r \<in> R) \<Longrightarrow> refines e db h R"
  unfolding refines_def by blast

text \<open>A step that keeps the history.\<close>

lemma refines_step:
  assumes "refines e db h R" and "\<And>R'. db_inv e db h R' \<Longrightarrow> R \<subseteq> R' \<Longrightarrow> db_inv e db' h R'"
  shows "refines e db' h R"
  using assms unfolding refines_def by blast

lemma db_create_inv:
  assumes "json_laws (en_json e)" and "db_create e None None (Published, Published) n next_id = (Ok db, d)" and "n < 2 ^ 64 - 1"
  shows "db_inv e db [] UNIV"
  using create_inv [OF assms(1,3), of next_id] assms(2) by auto

lemma db_open_refines:
  assumes "disk_inv e d h R" and "open_allowed e n next_id d" and "db_open e n next_id d = Ok db"
  shows "db_inv e db h R"
  using db_open_inv [OF assms(1), of n next_id] assms(2,3) unfolding open_allowed_def by auto

lemma db_read_inv:
  assumes "db_inv e db h R" and "sn_sequence at \<in> R"
  shows "db_get e key at db = (res, db') \<Longrightarrow> db_inv e db' h R"
    and "db_get_many e keys at db = (res', db') \<Longrightarrow> db_inv e db' h R"
    and "db_scan e start end' at db = (res'', db') \<Longrightarrow> db_inv e db' h R"
  using db_reads [OF assms, of key keys start end'] by auto

lemma db_reaches_refines:
  assumes json: "json_laws (en_json e)" and codec: "codec_laws (en_codec e)" and "db_reaches e db h R"
  shows "refines e db h R"
  using assms(3)
proof (induction rule: db_reaches.induct)
  case (created n next_id db d)
  then show ?case using db_create_inv [OF json] by (intro refinesI [of e db "[]" UNIV]) simp_all
next
  case (written db h R io batch dur receipt db')
  then obtain R' where I: "db_inv e db h R'" "R \<subseteq> R'" "\<And>r. length h \<le> unat r \<Longrightarrow> r \<in> R" by (auto simp: refines_def)
  from I(1) written(2) have "db_inv e db' (h @ operations batch) R'" by (cases rule: db_write_cases) simp_all
  then show ?case using I(2,3) by (rule refinesI) simp
next
  case (write_failed db h R io batch dur err db')
  from write_failed.IH show ?case
    by (rule refines_step) (use write_failed.hyps(2) in \<open>auto elim: db_write_cases\<close>)
next
  case (read_one db h R at key res db')
  from read_one.IH show ?case by (rule refines_step) (use read_one.hyps db_read_inv(1) in blast)
next
  case (read_many db h R at keys res db')
  from read_many.IH show ?case by (rule refines_step) (use read_many.hyps db_read_inv(2) in blast)
next
  case (scanned db h R at start end' res db')
  from scanned.IH show ?case by (rule refines_step) (use scanned.hyps db_read_inv(3) in blast)
next
  case (flushed db h R fio at failure res db')
  from flushed.IH show ?case
  proof (rule refines_step)
    fix R' assume "db_inv e db h R'"
    from tripleD [OF flush_triple [OF json codec this] refl flushed.hyps(3)] flushed.hyps(2,4) show "db_inv e db' h R'"
      by (cases res) (auto simp: flush_allowed_def settled_def Database_Flush.flushed_def)
  qed
next
  case (flush_crashed db h R fio at failure res db' n next_id db'')
  from flush_crashed.IH show ?case
  proof (rule refines_step)
    fix R' assume "db_inv e db h R'"
    from tripleD [OF flush_triple [OF json codec this] refl flush_crashed.hyps(3)] flush_crashed.hyps(2) have "disk_inv e (db_disk db') h R'"
      by (cases res) (auto simp: flush_allowed_def settled_def Database_Flush.flushed_def db_inv_disk)
    then show "db_inv e db'' h R'" using flush_crashed.hyps(4,5) by (rule db_open_refines)
  qed
next
  case (reopened db h R n next_id db')
  from reopened.IH show ?case
    by (rule refines_step) (rule db_open_refines [OF db_inv_disk [OF _ reopened.hyps(2)] reopened.hyps(3,4)])
next
  case (compacted db h R cio protected at cfailure cres db')
  then obtain R' where I: "db_inv e db h R'" "R \<subseteq> R'" "\<And>r. length h \<le> unat r \<Longrightarrow> r \<in> R" by (auto simp: refines_def)
  let ?P = "sn_sequence ` set protected \<union> {word_of_nat (length h)..}"
  have "stands_for e h (R' \<inter> ?P) db'"
    using compact_reads [OF json codec I(1) _ compacted(3) _ compacted(4) refl compacted(5)] compacted(2,6) by (auto simp: flush_allowed_def)
  then obtain R'' where R'': "db_inv e db' h R''" "R' \<inter> ?P \<subseteq> R''" by (auto simp: stands_for_def)
  moreover have "r \<in> R \<inter> ?P" if "length h \<le> unat r" for r
  proof -
    have "unat (word_of_nat (length h) :: u64) = length h" using that unat_u64_less [of r] by (intro unat_u64_of_nat) simp
    then show ?thesis using that I(3) by (simp add: word_le_nat_alt)
  qed
  ultimately show ?case using I(2) by (intro refinesI [OF R''(1)]) blast+
next
  case (collected db h R budget gres db')
  from collected.IH show ?case by (rule refines_step) (use gc_inv collected.hyps(2) in blast)
next
  case (checkpointed db h R io name at pres db')
  from checkpointed.IH show ?case
  proof (rule refines_step)
    fix R' assume "db_inv e db h R'"
    then show "db_inv e db' h R'" using checkpointed.hyps(2) [unfolded db_checkpoint_def] by (rule on_store_inv(1)) (rule checkpoint_keeps_current)
  qed
next
  case (released db h R name rres db')
  from released.IH show ?case
  proof (rule refines_step)
    fix R' assume "db_inv e db h R'"
    then show "db_inv e db' h R'" using released.hyps(2) [unfolded db_release_checkpoint_def] by (rule on_store_inv(1)) (rule release_keeps_current)
  qed
qed

section \<open>Property\<close>



end
