(* ===== verification/Claim_Key.thy ===== *)
theory Claim_Key
  imports Vyrm_Prelude
begin

text \<open>
  Identifiers and key encodings of the kernel (\<^verbatim>\<open>crates/vyrm-core/src/ident.rs\<close>,
  \<^verbatim>\<open>key.rs\<close> and the error type of \<^verbatim>\<open>error.rs\<close>). A Rust \<open>String\<close> is its UTF-8
  bytes. The encodings are built so that byte order on keys is order by subject, by predicate, and newest
  first on both timelines.
\<close>

section \<open>Errors and identifiers\<close>

text \<open>The reason of an invalid runtime object is its message template with the values put into it.\<close>

datatype core_error =
    EmptyIdentifier string
  | SeparatorInIdentifier string bytes
  | InvalidValidityWindow u64 u64
  | SupersessionPairMismatch
  | InvalidSupersessionOrder
  | MalformedKey string
  | SequenceOverflow
  | InvalidRuntime string "bytes list"

type_synonym 'a core_result = "core_error + 'a"

definition SEP :: u8 where
  "SEP = 0"

definition ident_new :: "string \<Rightarrow> bytes \<Rightarrow> bytes core_result" where
  "ident_new kind val =
     (if val = [] then Err (EmptyIdentifier kind)
      else if SEP \<in> set val then Err (SeparatorInIdentifier kind val)
      else Ok val)"

definition subject_new :: "bytes \<Rightarrow> bytes core_result" where
  "subject_new = ident_new ''subject''"

definition predicate_new :: "bytes \<Rightarrow> bytes core_result" where
  "predicate_new = ident_new ''predicate''"

definition reader_new :: "bytes \<Rightarrow> bytes core_result" where
  "reader_new = ident_new ''reader''"

section \<open>Decimal fields\<close>

text \<open>\<open>format!("{n}")\<close>, \<open>format!("{n:0width$}")\<close> and \<open>str::parse::<u64>\<close>, which
  accepts one leading plus sign.\<close>

fun decimal :: "nat \<Rightarrow> bytes" where
  "decimal n = (if n < 10 then [word_of_nat (48 + n)] else decimal (n div 10) @ [word_of_nat (48 + n mod 10)])"

declare decimal.simps [simp del]

definition zero_padded :: "nat \<Rightarrow> nat \<Rightarrow> bytes" where
  "zero_padded width n = replicate (width - length (decimal n)) 48 @ decimal n"

fun digits_value :: "bytes \<Rightarrow> nat \<Rightarrow> nat option" where
  "digits_value [] acc = Some acc"
| "digits_value (b # bs) acc =
     (if 48 \<le> b \<and> b \<le> 57 then
        (let v = acc * 10 + (unat b - 48) in if v < 2 ^ 64 then digits_value bs v else None)
      else None)"

definition parse_u64 :: "bytes \<Rightarrow> u64 option" where
  "parse_u64 bs =
     (let body = (case bs of [] \<Rightarrow> [] | b # r \<Rightarrow> if b = 43 then r else bs) in
      if body = [] then None else map_option word_of_nat (digits_value body 0))"

section \<open>Claim keys\<close>

definition CLAIM_NS :: bytes where
  "CLAIM_NS = ascii ''c/''"

definition INV_WIDTH :: nat where
  "INV_WIDTH = 20"

definition invert :: "u64 \<Rightarrow> u64" where
  "invert valid_from = u64_max - valid_from"

definition version_prefix :: "bytes \<Rightarrow> bytes \<Rightarrow> bytes" where
  "version_prefix subject predicate = CLAIM_NS @ subject @ [SEP] @ predicate @ [SEP]"

definition valid_from_bound :: "bytes \<Rightarrow> bytes \<Rightarrow> u64 \<Rightarrow> bytes" where
  "valid_from_bound subject predicate valid_from =
     version_prefix subject predicate @ zero_padded INV_WIDTH (unat (invert valid_from)) @ [SEP]"

definition claim_key :: "bytes \<Rightarrow> bytes \<Rightarrow> u64 \<Rightarrow> u64 \<Rightarrow> bytes" where
  "claim_key subject predicate valid_from tx_time =
     valid_from_bound subject predicate valid_from @ zero_padded INV_WIDTH (unat (invert tx_time))"

definition subject_prefix :: "bytes \<Rightarrow> bytes" where
  "subject_prefix subject = CLAIM_NS @ subject @ [SEP]"

definition seek_key :: "bytes \<Rightarrow> bytes \<Rightarrow> u64 \<Rightarrow> bytes" where
  "seek_key subject predicate as_of = valid_from_bound subject predicate as_of"

text \<open>The loop of \<open>prefix_end\<close>, on the reversed prefix.\<close>

fun prefix_end_loop :: "bytes \<Rightarrow> bytes option" where
  "prefix_end_loop [] = None"
| "prefix_end_loop (b # r) = (if b < 0xFF then Some (rev ((b + 1) # r)) else prefix_end_loop r)"

definition prefix_end :: "bytes \<Rightarrow> bytes option" where
  "prefix_end prefix = prefix_end_loop (rev prefix)"

section \<open>Access and sequence keys, decoding\<close>

definition access_key :: "u64 \<Rightarrow> bytes \<Rightarrow> bytes \<Rightarrow> bytes \<Rightarrow> bytes" where
  "access_key at reader subject predicate =
     zero_padded INV_WIDTH (unat at) @ concat (map (\<lambda>field. SEP # field) [reader, subject, predicate])"

definition access_bound :: "u64 \<Rightarrow> bytes" where
  "access_bound at = zero_padded INV_WIDTH (unat at)"

text \<open>\<open>splitn(n, |b| *b == SEP)\<close>.\<close>

fun splitn :: "nat \<Rightarrow> bytes \<Rightarrow> bytes list" where
  "splitn 0 bs = []"
| "splitn (Suc 0) bs = [bs]"
| "splitn (Suc (Suc n)) bs =
     (case dropWhile (\<lambda>b. b \<noteq> SEP) bs of
        [] \<Rightarrow> [bs]
      | _ # rest \<Rightarrow> takeWhile (\<lambda>b. b \<noteq> SEP) bs # splitn (Suc n) rest)"

definition string_from_utf8 :: "string \<Rightarrow> bytes \<Rightarrow> bytes core_result" where
  "string_from_utf8 reason bs = (if utf8_valid bs then Ok bs else Err (MalformedKey reason))"

definition nth_part :: "bytes list \<Rightarrow> nat \<Rightarrow> string \<Rightarrow> bytes core_result" where
  "nth_part parts i reason = (if i < length parts then Ok (parts ! i) else Err (MalformedKey reason))"

definition parse_access_key :: "bytes \<Rightarrow> (u64 \<times> bytes \<times> bytes \<times> bytes) core_result" where
  "parse_access_key key =
     (let parts = splitn 4 key;
          field = (\<lambda>i what. rbind (nth_part parts i what) (string_from_utf8 ''access key field is not UTF-8'')) in
      rbind (nth_part parts 0 ''access key is empty'') (\<lambda>at.
      rbind (string_from_utf8 ''access timestamp is not UTF-8'' at) (\<lambda>at.
      rbind (ok_or (parse_u64 at) (MalformedKey ''access timestamp is not numeric'')) (\<lambda>at.
      rbind (rbind (field 1 ''access key is missing the reader'') reader_new) (\<lambda>reader.
      rbind (rbind (field 2 ''access key is missing the subject'') subject_new) (\<lambda>subject.
      rbind (rbind (field 3 ''access key is missing the predicate'') predicate_new) (\<lambda>predicate.
      Ok (at, reader, subject, predicate))))))))"

definition strip_prefix :: "bytes \<Rightarrow> bytes \<Rightarrow> bytes option" where
  "strip_prefix prefix bs = (if take (length prefix) bs = prefix then Some (drop (length prefix) bs) else None)"

definition parse_claim_key :: "bytes \<Rightarrow> (bytes \<times> bytes) core_result" where
  "parse_claim_key key =
     rbind (ok_or (strip_prefix CLAIM_NS key) (MalformedKey ''claim key lacks its namespace'')) (\<lambda>body.
     let parts = splitn 3 body in
     rbind (nth_part parts 0 ''claim key is missing the subject'') (\<lambda>subject.
     rbind (nth_part parts 1 ''claim key is missing the predicate'') (\<lambda>predicate.
     rbind (string_from_utf8 ''subject is not UTF-8'' subject) (\<lambda>subject.
     rbind (string_from_utf8 ''predicate is not UTF-8'' predicate) (\<lambda>predicate.
     rbind (subject_new subject) (\<lambda>subject.
     rbind (predicate_new predicate) (\<lambda>predicate.
     Ok (subject, predicate))))))))"

definition sequence_key :: "u64 \<Rightarrow> bytes" where
  "sequence_key seq = zero_padded INV_WIDTH (unat seq)"

definition sequence_of :: "bytes \<Rightarrow> u64 core_result" where
  "sequence_of key =
     (if length key \<noteq> INV_WIDTH then Err (MalformedKey ''sequence key has the wrong width'')
      else rbind (string_from_utf8 ''sequence key is not UTF-8'' key) (\<lambda>text.
      ok_or (parse_u64 text) (MalformedKey ''sequence key is not numeric'')))"

definition parse_inverted :: "bytes \<Rightarrow> u64 core_result" where
  "parse_inverted field =
     rbind (string_from_utf8 ''inverted timestamp is not UTF-8'' field) (\<lambda>text.
     rbind (ok_or (parse_u64 text) (MalformedKey ''inverted timestamp is not numeric'')) (\<lambda>inverted.
     Ok (invert inverted)))"

definition timestamps_of :: "bytes \<Rightarrow> (u64 \<times> u64) core_result" where
  "timestamps_of key =
     (let TAIL = INV_WIDTH * 2 + 1 in
      if length key < TAIL then Err (MalformedKey ''shorter than the timestamp fields'')
      else
      let tail = drop (length key - TAIL) key in
      if tail ! INV_WIDTH \<noteq> SEP then Err (MalformedKey ''timestamp fields are not separated'')
      else
      rbind (parse_inverted (take INV_WIDTH tail)) (\<lambda>valid_from.
      rbind (parse_inverted (drop (INV_WIDTH + 1) tail)) (\<lambda>tx_time.
      Ok (valid_from, tx_time))))"

section \<open>Decimal order\<close>

text \<open>The digits of \<open>n\<close> in a field of fixed width.\<close>

primrec fixed_digits :: "nat \<Rightarrow> nat \<Rightarrow> bytes" where
  "fixed_digits 0 n = []"
| "fixed_digits (Suc w) n = fixed_digits w (n div 10) @ [word_of_nat (48 + n mod 10)]"

lemma length_fixed_digits [simp]: "length (fixed_digits w n) = w"
  by (induction w arbitrary: n) simp_all

lemma fixed_digits_zero: "fixed_digits w 0 = replicate w 48"
  by (induction w) (simp_all add: replicate_append_same)

lemma length_decimal: "n < 10 ^ Suc w \<Longrightarrow> length (decimal n) \<le> Suc w"
proof (induction w arbitrary: n)
  case (Suc w)
  then have "n div 10 < 10 ^ Suc w" by (simp add: less_mult_imp_div_less mult.commute)
  from Suc.IH [OF this] show ?case by (subst decimal.simps) simp
qed (simp add: decimal.simps)

lemma zero_padded_fixed: "n < 10 ^ Suc w \<Longrightarrow> zero_padded (Suc w) n = fixed_digits (Suc w) n"
proof (induction w arbitrary: n)
  case 0
  then show ?case by (simp add: zero_padded_def decimal.simps)
next
  case (Suc w)
  show ?case
  proof (cases "n < 10")
    case True
    then show ?thesis by (simp add: zero_padded_def decimal.simps fixed_digits_zero replicate_append_same flip: replicate_Suc)
  next
    case False
    have small: "n div 10 < 10 ^ Suc w" using Suc.prems by (simp add: less_mult_imp_div_less mult.commute)
    have "zero_padded (Suc (Suc w)) n = zero_padded (Suc w) (n div 10) @ [word_of_nat (48 + n mod 10)]"
      using False by (simp add: zero_padded_def decimal.simps [of n])
    with Suc.IH [OF small] show ?thesis by simp
  qed
qed

lemma digit_value: "unat (word_of_nat (48 + n mod 10) :: u8) = 48 + n mod 10"
  by (simp add: unat_of_nat take_bit_nat_eq_self del: of_nat_add)

lemma list_less_append_same_length:
  fixes xs ys :: "'a::linorder list"
  assumes "length xs = length ys"
  shows "xs @ us < ys @ vs \<longleftrightarrow> xs < ys \<or> xs = ys \<and> us < vs"
  using assms by (induction xs ys rule: list_induct2) auto

lemma fixed_digits_less:
  assumes "m < 10 ^ w" and "n < 10 ^ w"
  shows "fixed_digits w m < fixed_digits w n \<longleftrightarrow> m < n" and "fixed_digits w m = fixed_digits w n \<longleftrightarrow> m = n"
proof -
  have "(fixed_digits w m < fixed_digits w n \<longleftrightarrow> m < n) \<and> (fixed_digits w m = fixed_digits w n \<longleftrightarrow> m = n)"
    using assms
  proof (induction w arbitrary: m n)
    case (Suc w)
    have small: "m div 10 < 10 ^ w" "n div 10 < 10 ^ w" using Suc.prems by (simp_all add: less_mult_imp_div_less mult.commute)
    note IH = Suc.IH [OF small]
    have d: "(word_of_nat (48 + m mod 10) :: u8) < word_of_nat (48 + n mod 10) \<longleftrightarrow> m mod 10 < n mod 10"
      "(word_of_nat (48 + m mod 10) :: u8) = word_of_nat (48 + n mod 10) \<longleftrightarrow> m mod 10 = n mod 10"
      using digit_value [of m] digit_value [of n] by (simp add: word_less_nat_alt del: of_nat_add, metis add_left_cancel)
    have "m < n \<longleftrightarrow> m div 10 < n div 10 \<or> m div 10 = n div 10 \<and> m mod 10 < n mod 10"
      using div_mult_mod_eq [of m 10] div_mult_mod_eq [of n 10] mod_less_divisor [of 10 m] mod_less_divisor [of 10 n]
      by (cases "m div 10" "n div 10" rule: linorder_cases) linarith+
    moreover have "m = n \<longleftrightarrow> m div 10 = n div 10 \<and> m mod 10 = n mod 10" by (metis mult_div_mod_eq)
    ultimately show ?case
      using IH d by (simp add: list_less_append_same_length del: of_nat_add)
  qed simp
  then show "fixed_digits w m < fixed_digits w n \<longleftrightarrow> m < n" "fixed_digits w m = fixed_digits w n \<longleftrightarrow> m = n" by blast+
qed

lemma padded_u64: "zero_padded INV_WIDTH (unat (w :: u64)) = fixed_digits 20 (unat w)" and small_u64: "unat (w :: u64) < 10 ^ 20"
proof -
  show small: "unat w < 10 ^ 20" using unat_u64_less [of w] by simp
  then show "zero_padded INV_WIDTH (unat w) = fixed_digits 20 (unat w)"
    using zero_padded_fixed [of "unat w" 19] by (simp add: INV_WIDTH_def)
qed

lemma padded_less:
  "zero_padded INV_WIDTH (unat (a :: u64)) < zero_padded INV_WIDTH (unat (b :: u64)) \<longleftrightarrow> a < b"
  "zero_padded INV_WIDTH (unat (a :: u64)) = zero_padded INV_WIDTH (unat (b :: u64)) \<longleftrightarrow> a = b"
  unfolding padded_u64 fixed_digits_less [OF small_u64 small_u64] by (simp_all add: word_less_nat_alt word_unat_eq_iff)

lemma length_padded [simp]: "length (zero_padded INV_WIDTH (unat (w :: u64))) = 20"
  by (simp add: padded_u64)

lemma unat_invert: "unat (invert w) = 2 ^ 64 - 1 - unat w"
  using unat_sub [of w u64_max] by (simp add: invert_def u64_max_def unsigned_minus_1_eq_mask mask_eq_exp_minus_1 word_order.extremum)

lemma invert_less: "invert a < invert b \<longleftrightarrow> b < a"
  using unat_u64_less [of a] unat_u64_less [of b] by (auto simp: word_less_nat_alt unat_invert)

lemma invert_invert [simp]: "invert (invert w) = w"
  by (simp add: invert_def)

lemma invert_eq: "invert a = invert b \<longleftrightarrow> a = b"
  by (metis invert_invert)

section \<open>Identifiers in keys\<close>

definition ident_ok :: "bytes \<Rightarrow> bool" where
  "ident_ok v \<longleftrightarrow> v \<noteq> [] \<and> SEP \<notin> set v \<and> utf8_valid v"

lemma ident_new_ok: "ident_new kind v = Ok v' \<longleftrightarrow> v' = v \<and> v \<noteq> [] \<and> SEP \<notin> set v"
  by (auto simp: ident_new_def)

text \<open>A terminated field compares before what follows it: the separator is the least byte and no
  identifier contains it.\<close>

lemma sep_least: "b \<noteq> SEP \<Longrightarrow> SEP < b"
  by (simp add: SEP_def word_neq_0_conv)

lemma sep_field_less:
  assumes "SEP \<notin> set s" and "SEP \<notin> set s'"
  shows "s @ SEP # us < s' @ SEP # vs \<longleftrightarrow> s < s' \<or> s = s' \<and> us < vs"
  using assms
proof (induction s arbitrary: s')
  case Nil
  show ?case
  proof (cases s')
    case (Cons b t)
    then have "SEP < b" using Nil.prems by (intro sep_least) auto
    then show ?thesis by (simp add: Cons)
  qed simp
next
  case (Cons a s)
  show ?case
  proof (cases s')
    case Nil
    have "SEP < a" using Cons.prems by (intro sep_least) auto
    then show ?thesis by (auto simp: Nil dest: less_asym)
  next
    case (Cons b t)
    with Cons.IH [of t] Cons.prems show ?thesis by simp blast
  qed
qed

lemma sep_field_eq:
  assumes "SEP \<notin> set s" and "SEP \<notin> set s'"
  shows "s @ SEP # us = s' @ SEP # vs \<longleftrightarrow> s = s' \<and> us = vs"
  using assms
proof (induction s arbitrary: s')
  case Nil
  then show ?case by (cases s') auto
next
  case (Cons a s)
  then show ?case by (cases s') auto
qed

lemmas key_defs = claim_key_def valid_from_bound_def version_prefix_def subject_prefix_def seek_key_def

lemma claim_key_shape:
  "claim_key s p vf tx = CLAIM_NS @ s @ SEP # p @ SEP # zero_padded INV_WIDTH (unat (invert vf)) @ SEP # zero_padded INV_WIDTH (unat (invert tx))"
  by (simp add: key_defs)

lemma claim_key_less:
  assumes "ident_ok s" "ident_ok p" "ident_ok s'" "ident_ok p'"
  shows "claim_key s p vf tx < claim_key s' p' vf' tx' \<longleftrightarrow>
    s < s' \<or> s = s' \<and> (p < p' \<or> p = p' \<and> (vf' < vf \<or> vf' = vf \<and> tx' < tx))"
proof -
  have sep: "SEP \<notin> set s" "SEP \<notin> set p" "SEP \<notin> set s'" "SEP \<notin> set p'" using assms by (simp_all add: ident_ok_def)
  show ?thesis
    unfolding claim_key_shape
    by (auto simp: list_less_append_same_length sep_field_less sep padded_less invert_less invert_eq)
qed

lemma claim_key_inj:
  assumes "ident_ok s" "ident_ok p" "ident_ok s'" "ident_ok p'"
  shows "claim_key s p vf tx = claim_key s' p' vf' tx' \<longleftrightarrow> s = s' \<and> p = p' \<and> vf = vf' \<and> tx = tx'"
proof -
  have sep: "SEP \<notin> set s" "SEP \<notin> set p" "SEP \<notin> set s'" "SEP \<notin> set p'" using assms by (simp_all add: ident_ok_def)
  show ?thesis
    unfolding claim_key_shape by (auto simp: sep_field_eq sep padded_less invert_eq)
qed

section \<open>Prefix ranges\<close>

lemma prefix_end_snoc: "b < 0xFF \<Longrightarrow> prefix_end (p @ [b]) = Some (p @ [b + 1])"
  by (simp add: prefix_end_def)

lemma word_less_succ_iff:
  fixes b :: u8
  assumes "b < 0xFF"
  shows "x < b + 1 \<longleftrightarrow> x \<le> b"
proof -
  have "unat b < 255" using assms by (simp add: word_less_nat_alt)
  then have "unat (b + 1) = unat b + 1" by (simp add: unat_word_ariths)
  then show ?thesis by (simp add: word_less_nat_alt word_le_nat_alt less_Suc_eq_le)
qed

lemma prefix_range:
  fixes p :: bytes
  assumes "b < 0xFF"
  shows "p @ [b] \<le> k \<and> k < p @ [b + 1] \<longleftrightarrow> (\<exists>r. k = (p @ [b]) @ r)"
  using assms
proof (induction p arbitrary: k)
  case Nil
  have succ: "x < b + 1 \<longleftrightarrow> x \<le> b" for x
    using Nil by (intro word_less_succ_iff)
  show ?case by (cases k) (auto simp: succ)
next
  case (Cons a p)
  show ?case using Cons by (cases k) auto
qed

lemma Nil_less_list: "[] < (xs :: 'a::linorder list) \<longleftrightarrow> xs \<noteq> []"
  by (cases xs) auto

lemma list_le_append:
  fixes p :: "'a::linorder list"
  shows "p \<le> p @ r"
  by (induction p) auto

lemma list_le_append_cancel:
  fixes p :: "'a::linorder list"
  shows "p @ r \<le> p @ r' \<longleftrightarrow> r \<le> r'"
  by (induction p) auto

lemma prefix_end_top: "\<not> b < 0xFF \<Longrightarrow> prefix_end (p @ [b]) = prefix_end p"
  by (simp add: prefix_end_def)

lemma top_byte:
  fixes b :: u8
  assumes "\<not> b < 0xFF"
  shows "b = 0xFF" and "x \<le> b"
proof -
  have top: "x \<le> (0xFF :: u8)" for x
    using unat_less_exp [of x] by (simp add: word_le_nat_alt)
  from assms top [of b] show "b = 0xFF" by simp
  with top show "x \<le> b" by simp
qed

text \<open>\<open>range(prefix..end)\<close>, or \<open>range(prefix..)\<close> when there is no end, holds exactly the
  extensions of the prefix, also after trailing 0xFF bytes are dropped.\<close>

definition below_end :: "bytes \<Rightarrow> bytes \<Rightarrow> bool" where
  "below_end prefix k = (case prefix_end prefix of Some e \<Rightarrow> k < e | None \<Rightarrow> True)"

lemma prefix_end_range: "p \<le> k \<and> below_end p k \<longleftrightarrow> (\<exists>r. k = p @ r)"
proof (induction p rule: rev_induct)
  case Nil
  show ?case by (simp add: below_end_def prefix_end_def)
next
  case (snoc b p)
  show ?case
  proof (cases "b < 0xFF")
    case True
    then show ?thesis using prefix_range [OF True, of p k] by (simp add: below_end_def prefix_end_snoc)
  next
    case False
    have "p @ [b] \<le> k \<Longrightarrow> p \<le> k" using list_le_append [of p "[b]"] by (rule order_trans)
    then have "p @ [b] \<le> k \<and> below_end (p @ [b]) k \<longleftrightarrow> p @ [b] \<le> k \<and> (\<exists>r. k = p @ r)"
      using snoc by (auto simp: below_end_def prefix_end_top [OF False])
    also have "\<dots> \<longleftrightarrow> (\<exists>r. k = p @ r \<and> [b] \<le> r)" by (auto simp: list_le_append_cancel)
    also have "\<dots> \<longleftrightarrow> (\<exists>r. k = (p @ [b]) @ r)"
    proof -
      have "[b] \<le> r \<longleftrightarrow> (\<exists>r'. r = b # r')" for r
        using top_byte(2) [OF False] by (cases r) (auto dest: order.antisym leD)
      then show ?thesis by auto
    qed
    finally show ?thesis .
  qed
qed

lemma claim_key_version_prefix:
  assumes "ident_ok s" "ident_ok p" "ident_ok s'" "ident_ok p'"
  shows "(\<exists>r. claim_key s' p' vf tx = version_prefix s p @ r) \<longleftrightarrow> s' = s \<and> p' = p"
proof -
  have sep: "SEP \<notin> set s" "SEP \<notin> set p" "SEP \<notin> set s'" "SEP \<notin> set p'" using assms by (simp_all add: ident_ok_def)
  show ?thesis unfolding claim_key_shape version_prefix_def by (auto simp: sep_field_eq sep)
qed

lemma claim_key_subject_prefix:
  assumes "ident_ok s" "ident_ok s'"
  shows "(\<exists>r. claim_key s' p' vf tx = subject_prefix s @ r) \<longleftrightarrow> s' = s"
proof -
  have sep: "SEP \<notin> set s" "SEP \<notin> set s'" using assms by (simp_all add: ident_ok_def)
  show ?thesis unfolding claim_key_shape subject_prefix_def by (auto simp: sep_field_eq sep)
qed

lemma seek_key_le: "seek_key s p at \<le> claim_key s p vf tx \<longleftrightarrow> vf \<le> at"
proof -
  have "seek_key s p at \<le> claim_key s p vf tx \<longleftrightarrow>
      zero_padded INV_WIDTH (unat (invert at)) @ [SEP]
        \<le> zero_padded INV_WIDTH (unat (invert vf)) @ SEP # zero_padded INV_WIDTH (unat (invert tx))"
    by (simp add: key_defs list_le_append_cancel)
  also have "\<dots> \<longleftrightarrow> invert at \<le> invert vf"
    by (auto simp: le_less list_less_append_same_length padded_less Nil_less_list)
  finally show ?thesis by (auto simp: not_less [symmetric] invert_less)
qed

lemma version_prefix_le_seek: "version_prefix s p \<le> seek_key s p at"
  by (simp add: seek_key_def valid_from_bound_def list_le_append)

lemma seek_range:
  assumes "ident_ok s" "ident_ok p" "ident_ok s'" "ident_ok p'"
  shows "seek_key s p at \<le> claim_key s' p' vf tx \<and> below_end (version_prefix s p) (claim_key s' p' vf tx)
    \<longleftrightarrow> s' = s \<and> p' = p \<and> vf \<le> at"
proof -
  let ?k = "claim_key s' p' vf tx"
  have "seek_key s p at \<le> ?k \<and> below_end (version_prefix s p) ?k
      \<longleftrightarrow> seek_key s p at \<le> ?k \<and> (version_prefix s p \<le> ?k \<and> below_end (version_prefix s p) ?k)"
    using order_trans [OF version_prefix_le_seek] by blast
  also have "\<dots> \<longleftrightarrow> seek_key s p at \<le> ?k \<and> s' = s \<and> p' = p"
    unfolding prefix_end_range claim_key_version_prefix [OF assms] ..
  also have "\<dots> \<longleftrightarrow> s' = s \<and> p' = p \<and> vf \<le> at" by (auto simp: seek_key_le)
  finally show ?thesis .
qed

section \<open>Decoding\<close>

lemma digits_value_append:
  "digits_value (xs @ ys) acc = Option.bind (digits_value xs acc) (digits_value ys)"
  by (induction xs arbitrary: acc) (simp_all add: Let_def)

lemma digit_bounds: "48 \<le> (word_of_nat (48 + n mod 10) :: u8)" "(word_of_nat (48 + n mod 10) :: u8) \<le> 57"
  using digit_value [of n] by (simp_all add: word_le_nat_alt del: of_nat_add)

lemma set_fixed_digits: "b \<in> set (fixed_digits w n) \<Longrightarrow> 48 \<le> b \<and> b \<le> 57"
  by (induction w arbitrary: n) (use digit_bounds in \<open>auto simp del: of_nat_add\<close>)

lemma digits_value_fixed: "n < 10 ^ w \<Longrightarrow> n < 2 ^ 64 \<Longrightarrow> digits_value (fixed_digits w n) 0 = Some n"
proof (induction w arbitrary: n)
  case (Suc w)
  have "n div 10 < 10 ^ w" using Suc.prems by (simp add: less_mult_imp_div_less mult.commute)
  moreover have "n div 10 < 2 ^ 64" using Suc.prems by simp
  ultimately have "digits_value (fixed_digits w (n div 10)) 0 = Some (n div 10)" by (rule Suc.IH)
  moreover have "n div 10 * 10 + n mod 10 = n" by simp
  ultimately show ?case
    using Suc.prems digit_bounds [of n] digit_value [of n] by (simp add: digits_value_append Let_def del: of_nat_add)
qed simp

lemma utf8_padded: "utf8_valid (zero_padded INV_WIDTH (unat (w :: u64)))"
  unfolding padded_u64
proof (rule utf8_valid_ascii)
  fix b assume "b \<in> set (fixed_digits 20 (unat w))"
  then have "b \<le> 57" using set_fixed_digits by blast
  then show "b \<le> 0x7F" by (rule order_trans) simp
qed

lemma sep_padded: "SEP \<notin> set (zero_padded INV_WIDTH (unat (w :: u64)))"
  using set_fixed_digits [of 0 20] by (force simp: padded_u64 SEP_def)

lemma parse_u64_padded: "parse_u64 (zero_padded INV_WIDTH (unat (w :: u64))) = Some w"
proof -
  obtain b r where f: "fixed_digits 20 (unat w) = b # r"
    by (cases "fixed_digits 20 (unat w)") (use length_fixed_digits [of 20 "unat w"] in auto)
  then have "48 \<le> b" using set_fixed_digits [of b 20 "unat w"] by simp
  then have "b \<noteq> 43" by auto
  moreover have "digits_value (b # r) 0 = Some (unat w)"
    using digits_value_fixed [OF small_u64 [of w] unat_u64_less] by (simp add: f)
  ultimately show ?thesis by (simp add: parse_u64_def padded_u64 f del: digits_value.simps)
qed

lemma parse_inverted_padded: "parse_inverted (zero_padded INV_WIDTH (unat (invert w))) = Ok w"
  by (simp add: parse_inverted_def string_from_utf8_def utf8_padded parse_u64_padded)

lemma splitn_field: "SEP \<notin> set f \<Longrightarrow> splitn (Suc (Suc n)) (f @ SEP # r) = f # splitn (Suc n) r"
  by (simp add: dropWhile_append takeWhile_append)

declare splitn.simps(3) [simp del]

lemma ident_new_self: "ident_ok v \<Longrightarrow> ident_new kind v = Ok v"
  by (simp add: ident_ok_def ident_new_def)

lemma ident_ok_iff: "ident_ok v \<longleftrightarrow> utf8_valid v \<and> ident_new kind v = Ok v"
  by (auto simp: ident_ok_def ident_new_def)

lemma claim_key_decodes:
  assumes "ident_ok s" and "ident_ok p"
  shows "parse_claim_key (claim_key s p vf tx) = Ok (s, p)"
    and "timestamps_of (claim_key s p vf tx) = Ok (vf, tx)"
proof -
  have u: "utf8_valid s" "utf8_valid p" and sep: "SEP \<notin> set s" "SEP \<notin> set p"
    using assms by (simp_all add: ident_ok_def)
  show "parse_claim_key (claim_key s p vf tx) = Ok (s, p)"
    by (simp add: parse_claim_key_def claim_key_shape strip_prefix_def splitn_field sep u nth_part_def string_from_utf8_def
        subject_new_def predicate_new_def ident_new_self assms numeral_3_eq_3 Let_def)
  define a where "a = zero_padded INV_WIDTH (unat (invert vf))"
  define b where "b = zero_padded INV_WIDTH (unat (invert tx))"
  have len: "length a = 20" "length b = 20" by (simp_all add: a_def b_def)
  have key: "claim_key s p vf tx = (CLAIM_NS @ s @ SEP # p @ [SEP]) @ (a @ SEP # b)"
    by (simp add: claim_key_shape a_def b_def)
  have "drop (length (claim_key s p vf tx) - 41) (claim_key s p vf tx) = a @ SEP # b"
    unfolding key by (simp add: len)
  moreover have "41 \<le> length (claim_key s p vf tx)" unfolding key by (simp add: len)
  moreover have "parse_inverted a = Ok vf" "parse_inverted b = Ok tx"
    by (simp_all add: a_def b_def parse_inverted_padded)
  ultimately show "timestamps_of (claim_key s p vf tx) = Ok (vf, tx)"
    by (simp add: timestamps_of_def INV_WIDTH_def nth_append len)
qed

lemma access_key_shape: "access_key at r s p = zero_padded INV_WIDTH (unat at) @ SEP # r @ SEP # s @ SEP # p"
  by (simp add: access_key_def)

lemma access_key_decodes:
  assumes "ident_ok r" and "ident_ok s" and "ident_ok p"
  shows "parse_access_key (access_key at r s p) = Ok (at, r, s, p)"
proof -
  have u: "utf8_valid r" "utf8_valid s" "utf8_valid p" and sep: "SEP \<notin> set r" "SEP \<notin> set s" "SEP \<notin> set p"
    using assms by (simp_all add: ident_ok_def)
  have "splitn 4 (access_key at r s p) = [zero_padded INV_WIDTH (unat at), r, s, p]"
    by (simp add: access_key_shape splitn_field sep sep_padded eval_nat_numeral)
  then show ?thesis
    by (simp add: parse_access_key_def nth_part_def string_from_utf8_def utf8_padded u parse_u64_padded
        reader_new_def subject_new_def predicate_new_def ident_new_self assms)
qed

lemma sequence_key_decodes: "sequence_of (sequence_key n) = Ok n"
  by (simp add: sequence_of_def sequence_key_def string_from_utf8_def utf8_padded parse_u64_padded)
    (simp add: INV_WIDTH_def)

lemma access_bound_le: "access_bound at \<le> access_key at' r s p \<longleftrightarrow> at \<le> at'"
proof -
  have "access_bound at \<le> access_key at' r s p \<longleftrightarrow>
      zero_padded INV_WIDTH (unat at) @ [] \<le> zero_padded INV_WIDTH (unat at') @ SEP # r @ SEP # s @ SEP # p"
    by (simp add: access_bound_def access_key_shape)
  also have "\<dots> \<longleftrightarrow> at \<le> at'"
    unfolding le_less list_less_append_same_length [of "zero_padded INV_WIDTH (unat at)" "zero_padded INV_WIDTH (unat at')", simplified]
    by (auto simp: padded_less le_less dest: arg_cong [of _ _ length])
  finally show ?thesis .
qed

section \<open>Properties\<close>

text \<open>C31. Byte order on claim keys is order by subject, then predicate, then newest valid time first, then
  newest transaction time first, and distinct versions have distinct keys: a correction recorded for the
  same valid time never overwrites the claim it corrects. Sequence keys and access keys order by number.\<close>

theorem claim_key_order:
  assumes "ident_ok s" "ident_ok p" "ident_ok s'" "ident_ok p'"
  shows "(claim_key s p vf tx < claim_key s' p' vf' tx' \<longleftrightarrow>
      s < s' \<or> s = s' \<and> (p < p' \<or> p = p' \<and> (vf' < vf \<or> vf' = vf \<and> tx' < tx)))
    \<and> (claim_key s p vf tx = claim_key s' p' vf' tx' \<longleftrightarrow> s = s' \<and> p = p' \<and> vf = vf' \<and> tx = tx')
    \<and> (sequence_key vf < sequence_key vf' \<longleftrightarrow> vf < vf')
    \<and> (access_bound vf \<le> access_key vf' r s p \<longleftrightarrow> vf \<le> vf')"
  using claim_key_less [OF assms] claim_key_inj [OF assms] padded_less access_bound_le
  by (simp add: sequence_key_def)

theorem claim_key_order_witness:
  "claim_key [119] [115] 200 5 < claim_key [119] [115] 100 9"
  using claim_key_order [of "[119]" "[115]" "[119]" "[115]" 200 5 100 9]
  by (simp add: ident_ok_def SEP_def utf8_valid.simps)

text \<open>C32. The ranges the scans use are exact: between a prefix and its \<open>prefix_end\<close> lie precisely the
  extensions of the prefix, for every prefix including those that end in 0xFF bytes; from \<open>seek_key\<close> to
  the end of the version prefix lie precisely the versions of that subject and predicate with
  \<open>valid_from\<close> at or before the instant; under \<open>subject_prefix\<close> precisely the claims of the subject.\<close>

theorem claim_ranges_exact:
  assumes "ident_ok s" "ident_ok p" "ident_ok s'" "ident_ok p'"
  shows "(pre \<le> k \<and> (case prefix_end pre of Some e \<Rightarrow> k < e | None \<Rightarrow> True) \<longleftrightarrow> (\<exists>r. k = pre @ r))
    \<and> (seek_key s p at \<le> claim_key s' p' vf tx \<and> below_end (version_prefix s p) (claim_key s' p' vf tx)
        \<longleftrightarrow> s' = s \<and> p' = p \<and> vf \<le> at)
    \<and> (subject_prefix s \<le> claim_key s' p' vf tx \<and> below_end (subject_prefix s) (claim_key s' p' vf tx) \<longleftrightarrow> s' = s)"
  using prefix_end_range [of pre k] seek_range [OF assms] prefix_end_range [of "subject_prefix s"]
    claim_key_subject_prefix [OF assms(1,3)]
  by (simp add: below_end_def)

theorem claim_ranges_exact_witness:
  "\<not> (seek_key [119] [115] 9 \<le> claim_key [119] [115, 120] 5 1
      \<and> below_end (version_prefix [119] [115]) (claim_key [119] [115, 120] 5 1))"
  using claim_ranges_exact [of "[119]" "[115]" "[119]" "[115, 120]" "[]" "[]" 9 5 1]
  by (simp add: ident_ok_def SEP_def utf8_valid.simps)

text \<open>Keys decode to what was encoded: a claim key gives back its identifiers and both timestamps, an
  access key its instant and three identifiers, a sequence key its number.\<close>

lemma key_roundtrips:
  assumes "ident_ok r" "ident_ok s" "ident_ok p"
  shows "parse_claim_key (claim_key s p vf tx) = Ok (s, p) \<and> timestamps_of (claim_key s p vf tx) = Ok (vf, tx)
    \<and> parse_access_key (access_key at r s p) = Ok (at, r, s, p) \<and> sequence_of (sequence_key n) = Ok n"
  using claim_key_decodes [OF assms(2,3)] access_key_decodes [OF assms] sequence_key_decodes by simp

end
