(* ===== verification/Delimited.thy ===== *)
theory Delimited
  imports Digest
begin

text \<open>
  The field encodings every canonical byte string of the kernel is built from: length-prefixed text, tagged options
  and counted lists. Each is self-delimiting: an encoding followed by anything determines the value and the rest, so
  concatenations of fields are injective.
\<close>

section \<open>Fields\<close>

definition text_field :: "bytes \<Rightarrow> bytes" where
  "text_field v = u64_to_be_bytes (word_of_nat (length v)) @ v"

definition optional_field :: "('a \<Rightarrow> bytes) \<Rightarrow> 'a option \<Rightarrow> bytes" where
  "optional_field f v = (case v of Some x \<Rightarrow> 1 # f x | None \<Rightarrow> [0])"

definition optional_text :: "bytes option \<Rightarrow> bytes" where
  "optional_text v = optional_field text_field v"

text \<open>A \<open>u64\<close> count followed by the elements.\<close>

definition counted :: "('a \<Rightarrow> bytes) \<Rightarrow> 'a list \<Rightarrow> bytes" where
  "counted f xs = u64_to_be_bytes (word_of_nat (length xs)) @ concat (map f xs)"

section \<open>Self-delimiting encodings\<close>

definition text_sized :: "bytes \<Rightarrow> bool" where
  "text_sized v \<longleftrightarrow> length v < 2 ^ 64"

definition sized_list :: "('a \<Rightarrow> bool) \<Rightarrow> 'a list \<Rightarrow> bool" where
  "sized_list ok xs \<longleftrightarrow> length xs < 2 ^ 64 \<and> list_all ok xs"

definition delimited :: "('a \<Rightarrow> bool) \<Rightarrow> ('a \<Rightarrow> bytes) \<Rightarrow> bool" where
  "delimited ok f \<longleftrightarrow> (\<forall>x y r r'. ok x \<longrightarrow> ok y \<longrightarrow> (f x @ r = f y @ r' \<longleftrightarrow> x = y \<and> r = r'))"

lemma delimitedD: "delimited ok f \<Longrightarrow> ok x \<Longrightarrow> ok y \<Longrightarrow> f x @ r = f y @ r' \<longleftrightarrow> x = y \<and> r = r'"
  by (simp add: delimited_def)

lemma delimited_inj: "delimited ok f \<Longrightarrow> ok x \<Longrightarrow> ok y \<Longrightarrow> f x = f y \<longleftrightarrow> x = y"
  using delimitedD [of ok f x y "[]" "[]"] by simp

lemma int_field_inj: "u64_to_be_bytes a = u64_to_be_bytes b \<longleftrightarrow> a = b" "u32_to_be_bytes c = u32_to_be_bytes d \<longleftrightarrow> c = d"
  by (metis from_to_be_bytes)+

lemma delimited_u64: "delimited (\<lambda>_. True) u64_to_be_bytes"
  by (simp add: delimited_def int_field_inj)

lemma delimited_u32: "delimited (\<lambda>_. True) u32_to_be_bytes"
  by (simp add: delimited_def int_field_inj)

lemma delimited_text: "delimited text_sized text_field"
proof -
  have "x = y \<and> r = r'" if "text_sized x" "text_sized y" "text_field x @ r = text_field y @ r'" for x y r r'
  proof -
    from that have "(word_of_nat (length x) :: u64) = word_of_nat (length y)" and eq: "x @ r = y @ r'"
      by (simp_all add: text_field_def int_field_inj)
    then have "length x = length y" using that unat_u64_of_nat unfolding text_sized_def by metis
    with eq show ?thesis by simp
  qed
  then show ?thesis unfolding delimited_def by blast
qed

lemma delimited_optional: "delimited ok f \<Longrightarrow> delimited (pred_option ok) (optional_field f)"
  by (auto simp: delimited_def optional_field_def split: option.split)

lemma delimited_optional_text: "delimited (pred_option text_sized) optional_text"
  using delimited_optional [OF delimited_text] by (simp add: optional_text_def [abs_def])

lemma delimited_optional_int: "delimited (\<lambda>_. True) (optional_field u64_to_be_bytes)" "delimited (\<lambda>_. True) (optional_field u32_to_be_bytes)"
  using delimited_optional [OF delimited_u64] delimited_optional [OF delimited_u32]
  by (simp_all add: delimited_def pred_option_def)

lemma delimited_counted:
  assumes f: "delimited ok f"
  shows "delimited (sized_list ok) (counted f)"
proof -
  have elems: "xs = ys \<and> r = r'"
    if "length xs = length ys" "list_all ok xs" "list_all ok ys" "concat (map f xs) @ r = concat (map f ys) @ r'" for xs ys r r'
    using that
  proof (induction xs ys rule: list_induct2)
    case (Cons x xs y ys)
    then show ?case using delimitedD [OF f, of x y] by simp
  qed simp
  have "xs = ys \<and> r = r'" if "sized_list ok xs" "sized_list ok ys" "counted f xs @ r = counted f ys @ r'" for xs ys r r'
  proof -
    from that(3) have "(word_of_nat (length xs) :: u64) = word_of_nat (length ys)"
      and c: "concat (map f xs) @ r = concat (map f ys) @ r'"
      by (simp_all add: counted_def int_field_inj)
    then have "length xs = length ys" using that(1,2) unat_u64_of_nat unfolding sized_list_def by metis
    from elems [OF this _ _ c] that(1,2) show ?thesis by (simp add: sized_list_def)
  qed
  then show ?thesis unfolding delimited_def by blast
qed

end
