(* ===== verification/Claim.thy ===== *)
theory Claim
  imports Claim_Key Delimited
begin

text \<open>
  The claim record (\<^verbatim>\<open>crates/vyrm-core/src/claim.rs\<close>): one assertion on two timelines with its
  producer, its canonical bytes and digest, retirement and supersession. An \<open>f32\<close> is its bit pattern
  (\<open>to_bits\<close>), the only thing this code reads of it.
\<close>

section \<open>Definitions\<close>

type_synonym millis = u64

datatype tier = Local | Primary | Tenant

datatype promotion_state = Unpromoted | Pending | Promoted | Denied

record producer =
  actor :: bytes
  on_behalf_of :: "bytes option"
  session :: "bytes option"

record claim =
  subject :: bytes
  predicate :: bytes
  object :: bytes
  valid_from :: millis
  valid_to :: "millis option"
  tx_time :: millis
  claim_producer :: producer
  confidence :: "u32 option"
  supersedes :: "bytes option"
  signature :: "bytes option"
  claim_tier :: tier
  claim_promotion_state :: promotion_state

definition claim_new :: "bytes \<Rightarrow> bytes \<Rightarrow> bytes \<Rightarrow> millis \<Rightarrow> millis \<Rightarrow> producer \<Rightarrow> claim" where
  "claim_new s p ob from_time tx by_whom =
     \<lparr>subject = s, predicate = p, object = ob, valid_from = from_time, valid_to = None, tx_time = tx,
      claim_producer = by_whom, confidence = None, supersedes = None, signature = None,
      claim_tier = Local, claim_promotion_state = Unpromoted\<rparr>"

definition retire :: "millis \<Rightarrow> claim \<Rightarrow> claim core_result" where
  "retire at c =
     (if at \<le> valid_from c then Err (InvalidValidityWindow (valid_from c) at)
      else Ok (c\<lparr>valid_to := Some at\<rparr>))"

definition valid_at :: "claim \<Rightarrow> millis \<Rightarrow> bool" where
  "valid_at c as_of =
     (if as_of < valid_from c then False
      else case valid_to c of Some to \<Rightarrow> as_of < to | None \<Rightarrow> True)"

definition claim_validate :: "claim \<Rightarrow> unit core_result" where
  "claim_validate c =
     (case valid_to c of
        Some to \<Rightarrow> if to \<le> valid_from c then Err (InvalidValidityWindow (valid_from c) to) else Ok ()
      | None \<Rightarrow> Ok ())"

fun tier_byte :: "tier \<Rightarrow> u8" where
  "tier_byte Local = 0"
| "tier_byte Primary = 1"
| "tier_byte Tenant = 2"

fun promotion_byte :: "promotion_state \<Rightarrow> u8" where
  "promotion_byte Unpromoted = 0"
| "promotion_byte Pending = 1"
| "promotion_byte Promoted = 2"
| "promotion_byte Denied = 3"

definition canonical_bytes :: "claim \<Rightarrow> bytes" where
  "canonical_bytes c =
     ascii ''vyrm-claim-v1'' @ [0]
     @ text_field (subject c)
     @ text_field (predicate c)
     @ text_field (object c)
     @ u64_to_be_bytes (valid_from c)
     @ optional_field u64_to_be_bytes (valid_to c)
     @ u64_to_be_bytes (tx_time c)
     @ text_field (actor (claim_producer c))
     @ optional_text (on_behalf_of (claim_producer c))
     @ optional_text (session (claim_producer c))
     @ optional_field u32_to_be_bytes (confidence c)
     @ optional_text (supersedes c)
     @ optional_text (signature c)
     @ [tier_byte (claim_tier c)]
     @ [promotion_byte (claim_promotion_state c)]"

definition claim_digest :: "claim \<Rightarrow> bytes" where
  "claim_digest c = sha256_hex (canonical_bytes c)"

definition supersede :: "claim \<Rightarrow> claim \<Rightarrow> (claim \<times> claim) core_result" where
  "supersede previous successor =
     (if subject previous \<noteq> subject successor \<or> predicate previous \<noteq> predicate successor
      then Err SupersessionPairMismatch
      else if valid_from successor \<le> valid_from previous \<or> tx_time successor \<le> tx_time previous
      then Err InvalidSupersessionOrder
      else
      let previous_id = claim_digest previous;
          retirement = previous\<lparr>valid_to := Some (valid_from successor), tx_time := tx_time successor,
                                supersedes := Some previous_id\<rparr>;
          successor = successor\<lparr>supersedes := Some previous_id\<rparr> in
      rbind (claim_validate retirement) (\<lambda>_.
      rbind (claim_validate successor) (\<lambda>_.
      Ok (retirement, successor))))"

section \<open>Canonical bytes\<close>

text \<open>Every field of the encoding is self-delimiting, so equal encodings have equal fields one after the
  other. \<open>String\<close> lengths stay below the width of their length field.\<close>

definition claim_sized :: "claim \<Rightarrow> bool" where
  "claim_sized c \<longleftrightarrow> text_sized (subject c) \<and> text_sized (predicate c) \<and> text_sized (object c)
     \<and> text_sized (actor (claim_producer c)) \<and> pred_option text_sized (on_behalf_of (claim_producer c))
     \<and> pred_option text_sized (session (claim_producer c)) \<and> pred_option text_sized (supersedes c)
     \<and> pred_option text_sized (signature c)"

lemma tier_byte_inj: "tier_byte a = tier_byte b \<longleftrightarrow> a = b"
  by (cases a; cases b) simp_all

lemma promotion_byte_inj: "promotion_byte a = promotion_byte b \<longleftrightarrow> a = b"
  by (cases a; cases b) simp_all

lemmas delimited_fields =
  delimitedD [OF delimited_u64] delimitedD [OF delimited_text] delimitedD [OF delimited_optional_text]
  delimitedD [OF delimited_optional_int(1)] delimitedD [OF delimited_optional_int(2)] tier_byte_inj promotion_byte_inj
  int_field_inj delimited_inj [OF delimited_optional_text]

lemma canonical_bytes_inj:
  assumes "claim_sized c" and "claim_sized d"
  shows "canonical_bytes c = canonical_bytes d \<longleftrightarrow> c = d"
proof
  assume "canonical_bytes c = canonical_bytes d"
  with assms show "c = d"
    unfolding canonical_bytes_def claim_sized_def
    by (intro claim.equality producer.equality) (simp_all add: delimited_fields)
qed simp

end
