(* ===== verification/Temporal.thy ===== *)
theory Temporal
  imports Claim
begin

text \<open>
  Bi-temporal resolution and the storage port (\<^verbatim>\<open>crates/vyrm-core/src/temporal.rs\<close>).
  \<open>ClaimSource\<close> is the locale \<open>claim_source\<close>: the three reads of a substrate with the order and the
  content they promise. \<open>ClaimReader\<close> is written once over the port; what it returns is proved
  in the locale, for every substrate.
\<close>

section \<open>Resolution\<close>

text \<open>The inner loop of resolution, and of recall: the end of the run of elements that satisfy a
  condition, from an index.\<close>

function run_end :: "('a \<Rightarrow> bool) \<Rightarrow> 'a list \<Rightarrow> nat \<Rightarrow> nat" where
  "run_end p xs index = (if index < length xs \<and> p (xs ! index) then run_end p xs (Suc index) else index)"
  by pat_completeness auto
termination by (relation "measure (\<lambda>(p, xs, index). length xs - index)") auto

declare run_end.simps [simp del]

lemma run_end_eq: "run_end p xs index = index + length (takeWhile p (drop index xs))"
proof (induction p xs index rule: run_end.induct)
  case (1 p xs index)
  show ?case
  proof (cases "index < length xs")
    case True
    then have "drop index xs = xs ! index # drop (Suc index) xs" by (simp add: Cons_nth_drop_Suc)
    with 1 show ?thesis by (subst run_end.simps) (simp add: True)
  qed (simp add: run_end.simps)
qed

lemma drop_run_end: "drop (run_end p xs index) xs = dropWhile p (drop index xs)"
  by (simp add: run_end_eq dropWhile_eq_drop add.commute)

lemma run_end_grows: "index < length xs \<Longrightarrow> p (xs ! index) \<Longrightarrow> index < run_end p xs index"
  by (simp add: run_end_eq flip: Cons_nth_drop_Suc)

function resolve_from :: "claim list \<Rightarrow> millis \<Rightarrow> nat \<Rightarrow> claim option" where
  "resolve_from candidates as_of index =
     (if index < length candidates then
        (let newest_correction = candidates ! index;
             index' = run_end (\<lambda>c. valid_from c = valid_from newest_correction) candidates index in
         if valid_at newest_correction as_of then Some newest_correction
         else resolve_from candidates as_of index')
      else None)"
  by pat_completeness auto
termination
proof (relation "measure (\<lambda>(candidates, as_of, index). length candidates - index)")
  fix candidates :: "claim list" and as_of index x xa
  assume "index < length candidates" "x = candidates ! index"
    "xa = run_end (\<lambda>c. valid_from c = valid_from x) candidates index"
  then have "index < xa" using run_end_grows by fastforce
  with \<open>index < length candidates\<close>
  show "((candidates, as_of, xa), candidates, as_of, index)
      \<in> measure (\<lambda>(candidates, as_of, index). length candidates - index)" by simp
qed simp

declare resolve_from.simps [simp del]

definition resolve_as_of :: "claim list \<Rightarrow> millis \<Rightarrow> claim option" where
  "resolve_as_of candidates as_of = resolve_from candidates as_of 0"

definition changed_since :: "claim list \<Rightarrow> millis \<Rightarrow> claim list" where
  "changed_since claims since = filter (\<lambda>c. since < tx_time c) claims"

section \<open>Reads over the port\<close>

type_synonym ('s, 'e) versions_read = "'s \<Rightarrow> bytes \<Rightarrow> bytes \<Rightarrow> 'e + claim list"

definition reader_as_of ::
    "('s \<Rightarrow> bytes \<Rightarrow> bytes \<Rightarrow> millis \<Rightarrow> 'e + claim list) \<Rightarrow> 's \<Rightarrow> bytes \<Rightarrow> bytes \<Rightarrow> millis \<Rightarrow> 'e + claim option" where
  "reader_as_of versions_at_or_before source s p at =
     rbind (versions_at_or_before source s p at) (\<lambda>candidates. Ok (resolve_as_of candidates at))"

definition reader_current ::
    "('s \<Rightarrow> bytes \<Rightarrow> bytes \<Rightarrow> millis \<Rightarrow> 'e + claim list) \<Rightarrow> 's \<Rightarrow> bytes \<Rightarrow> bytes \<Rightarrow> millis \<Rightarrow> 'e + claim option" where
  "reader_current versions_at_or_before source s p now = reader_as_of versions_at_or_before source s p now"

definition reader_history :: "('s, 'e) versions_read \<Rightarrow> 's \<Rightarrow> bytes \<Rightarrow> bytes \<Rightarrow> 'e + claim list" where
  "reader_history all_versions source s p = all_versions source s p"

section \<open>The claim in force\<close>

definition newer_claim :: "claim \<Rightarrow> claim \<Rightarrow> bool" where
  "newer_claim a b \<longleftrightarrow> valid_from b < valid_from a \<or> valid_from b = valid_from a \<and> tx_time b < tx_time a"

text \<open>Of the versions at one \<open>valid_from\<close> only the last recorded counts.\<close>

definition latest_correction :: "claim set \<Rightarrow> claim \<Rightarrow> bool" where
  "latest_correction S c \<longleftrightarrow> c \<in> S \<and> (\<forall>d\<in>S. valid_from d = valid_from c \<longrightarrow> tx_time d \<le> tx_time c)"

definition in_force :: "claim set \<Rightarrow> millis \<Rightarrow> claim \<Rightarrow> bool" where
  "in_force S t c \<longleftrightarrow> latest_correction S c \<and> valid_at c t
     \<and> (\<forall>d. latest_correction S d \<and> valid_at d t \<longrightarrow> valid_from d \<le> valid_from c)"

function resolve_list :: "claim list \<Rightarrow> millis \<Rightarrow> claim option" where
  "resolve_list [] t = None"
| "resolve_list (c # cs) t =
     (if valid_at c t then Some c else resolve_list (dropWhile (\<lambda>d. valid_from d = valid_from c) cs) t)"
  by pat_completeness auto
termination by (relation "measure (length \<circ> fst)") (auto simp: le_imp_less_Suc length_dropWhile_le)

lemma resolve_from_list: "resolve_from cs t i = resolve_list (drop i cs) t"
proof (induction cs t i rule: resolve_from.induct)
  case (1 cs t i)
  show ?case
  proof (cases "i < length cs")
    case True
    let ?p = "\<lambda>c. valid_from c = valid_from (cs ! i)"
    have d: "drop i cs = cs ! i # drop (Suc i) cs" using True by (simp add: Cons_nth_drop_Suc)
    have "drop (run_end ?p cs i) cs = dropWhile ?p (drop (Suc i) cs)"
      by (simp add: drop_run_end d)
    with 1 [OF True refl refl] show ?thesis
      by (subst resolve_from.simps) (simp add: True d)
  qed (simp add: resolve_from.simps)
qed

lemma sorted_newer_dropWhile:
  assumes "sorted_wrt newer_claim (c # cs)"
  shows "set (dropWhile (\<lambda>d. valid_from d = valid_from c) cs) = {d \<in> set cs. valid_from d < valid_from c}"
  using assms
proof (induction cs)
  case (Cons d cs)
  show ?case
  proof (cases "valid_from d = valid_from c")
    case True
    with Cons show ?thesis by auto
  next
    case False
    then have "valid_from e < valid_from c" if "e \<in> set (d # cs)" for e
      using Cons.prems that by (auto simp: newer_claim_def)
    with False show ?thesis by auto
  qed
qed simp

lemma in_force_head:
  assumes "sorted_wrt newer_claim (c # cs)"
  shows "valid_at c t \<Longrightarrow> in_force (set (c # cs)) t d \<longleftrightarrow> d = c"
    and "\<not> valid_at c t \<Longrightarrow> in_force (set (c # cs)) t d \<longleftrightarrow> in_force {d \<in> set cs. valid_from d < valid_from c} t d"
proof -
  have c: "newer_claim c e" if "e \<in> set cs" for e using assms that by simp
  have lc: "latest_correction (set (c # cs)) e \<longleftrightarrow>
      e = c \<or> latest_correction {d \<in> set cs. valid_from d < valid_from c} e" for e
    using c by (fastforce simp: latest_correction_def newer_claim_def)
  have below: "valid_from e < valid_from c" if "latest_correction {d \<in> set cs. valid_from d < valid_from c} e" for e
    using that by (simp add: latest_correction_def)
  show "valid_at c t \<Longrightarrow> in_force (set (c # cs)) t d \<longleftrightarrow> d = c"
    using below unfolding in_force_def lc by (auto dest: leD less_imp_le)
  show "\<not> valid_at c t \<Longrightarrow> in_force (set (c # cs)) t d \<longleftrightarrow> in_force {d \<in> set cs. valid_from d < valid_from c} t d"
    unfolding in_force_def lc by blast
qed

lemma resolve_list_in_force: "sorted_wrt newer_claim cs \<Longrightarrow> resolve_list cs t = Some c \<longleftrightarrow> in_force (set cs) t c"
proof (induction cs t rule: resolve_list.induct)
  case (1 t)
  show ?case by (simp add: in_force_def latest_correction_def)
next
  case (2 d cs t)
  show ?case
  proof (cases "valid_at d t")
    case True
    with in_force_head(1) [OF 2(2) True] show ?thesis by auto
  next
    case False
    have "sorted_wrt newer_claim (dropWhile (\<lambda>e. valid_from e = valid_from d) cs)"
      using 2(2) by (simp add: sorted_wrt_dropWhile)
    with 2(1) False in_force_head(2) [OF 2(2) False] sorted_newer_dropWhile [OF 2(2)]
    show ?thesis by simp
  qed
qed

lemma resolve_as_of_in_force:
  "sorted_wrt newer_claim cs \<Longrightarrow> resolve_as_of cs t = Some c \<longleftrightarrow> in_force (set cs) t c"
  by (simp add: resolve_as_of_def resolve_from_list resolve_list_in_force)

text \<open>Claims that start after the instant are never in force, nor do they hide one that is.\<close>

lemma in_force_started: "in_force {c \<in> S. valid_from c \<le> t} t c \<longleftrightarrow> in_force S t c"
proof -
  have "latest_correction {c \<in> S. valid_from c \<le> t} d \<and> valid_at d t \<longleftrightarrow> latest_correction S d \<and> valid_at d t" for d
    by (auto simp: latest_correction_def valid_at_def)
  then show ?thesis unfolding in_force_def by blast
qed

lemma in_force_unique:
  assumes "in_force S t c" and "in_force S t d"
  shows "valid_from c = valid_from d \<and> tx_time c = tx_time d"
proof -
  have l: "latest_correction S c" "latest_correction S d" and "valid_from c = valid_from d"
    using assms by (auto simp: in_force_def intro: order.antisym)
  moreover from this have "tx_time c = tx_time d"
    unfolding latest_correction_def by (metis order.antisym)
  ultimately show ?thesis by blast
qed

section \<open>The storage port\<close>

text \<open>\<open>subject_versions\<close> groups by predicate, newest first inside a group.\<close>

definition grouped_newer :: "claim \<Rightarrow> claim \<Rightarrow> bool" where
  "grouped_newer a b \<longleftrightarrow> predicate a < predicate b \<or> predicate a = predicate b \<and> newer_claim a b"

definition claim_versions :: "claim set \<Rightarrow> bytes \<Rightarrow> bytes \<Rightarrow> claim set" where
  "claim_versions S s p = {c \<in> S. subject c = s \<and> predicate c = p}"

locale claim_source =
  fixes versions_at_or_before :: "'s \<Rightarrow> bytes \<Rightarrow> bytes \<Rightarrow> millis \<Rightarrow> 'e + claim list"
    and all_versions :: "'s \<Rightarrow> bytes \<Rightarrow> bytes \<Rightarrow> 'e + claim list"
    and subject_versions :: "'s \<Rightarrow> bytes \<Rightarrow> 'e + claim list"
    and wf :: "'s \<Rightarrow> bool"
    and contents :: "'s \<Rightarrow> claim set"
  assumes before_set: "\<lbrakk>wf m; ident_ok s; ident_ok p; versions_at_or_before m s p t = Ok cs\<rbrakk> \<Longrightarrow>
      set cs = {c \<in> claim_versions (contents m) s p. valid_from c \<le> t}"
    and before_sorted: "\<lbrakk>wf m; ident_ok s; ident_ok p; versions_at_or_before m s p t = Ok cs\<rbrakk> \<Longrightarrow> sorted_wrt newer_claim cs"
    and all_set: "\<lbrakk>wf m; ident_ok s; ident_ok p; all_versions m s p = Ok cs\<rbrakk> \<Longrightarrow> set cs = claim_versions (contents m) s p"
    and all_sorted: "\<lbrakk>wf m; ident_ok s; ident_ok p; all_versions m s p = Ok cs\<rbrakk> \<Longrightarrow> sorted_wrt newer_claim cs"
    and subject_set: "\<lbrakk>wf m; ident_ok s; subject_versions m s = Ok cs\<rbrakk> \<Longrightarrow> set cs = {c \<in> contents m. subject c = s}"
    and subject_sorted: "\<lbrakk>wf m; ident_ok s; subject_versions m s = Ok cs\<rbrakk> \<Longrightarrow> sorted_wrt grouped_newer cs"
begin

lemma as_of_in_force:
  assumes "wf m" and "ident_ok s" and "ident_ok p" and "reader_as_of versions_at_or_before m s p t = Ok r"
  shows "r = Some c \<longleftrightarrow> in_force (claim_versions (contents m) s p) t c"
proof -
  from assms(4) obtain cs where cs: "versions_at_or_before m s p t = Ok cs" and r: "r = resolve_as_of cs t"
    by (auto simp: reader_as_of_def res_simps)
  note laws = before_set [OF assms(1-3) cs] before_sorted [OF assms(1-3) cs]
  have "in_force (set cs) t c \<longleftrightarrow> in_force (claim_versions (contents m) s p) t c"
    unfolding laws(1) by (rule in_force_started)
  then show ?thesis unfolding r resolve_as_of_in_force [OF laws(2)] .
qed

text \<open>The history resolves to the same claim as the seek: reading further than needed changes nothing.\<close>

lemma history_resolves:
  assumes "wf m" and "ident_ok s" and "ident_ok p"
    and "reader_as_of versions_at_or_before m s p t = Ok r" and "reader_history all_versions m s p = Ok cs"
  shows "resolve_as_of cs t = r"
proof (rule option_eqI)
  fix c
  have h: "all_versions m s p = Ok cs" using assms(5) by (simp add: reader_history_def)
  show "resolve_as_of cs t = Some c \<longleftrightarrow> r = Some c"
    unfolding resolve_as_of_in_force [OF all_sorted [OF assms(1-3) h]] all_set [OF assms(1-3) h]
      as_of_in_force [OF assms(1-4)] ..
qed

end

locale total_claim_source = claim_source +
  assumes before_total: "\<lbrakk>wf m; ident_ok s; ident_ok p\<rbrakk> \<Longrightarrow> is_ok (versions_at_or_before m s p t)"
    and all_total: "\<lbrakk>wf m; ident_ok s; ident_ok p\<rbrakk> \<Longrightarrow> is_ok (all_versions m s p)"
    and subject_total: "\<lbrakk>wf m; ident_ok s\<rbrakk> \<Longrightarrow> is_ok (subject_versions m s)"
begin

lemma as_of_total:
  assumes "wf m" and "ident_ok s" and "ident_ok p"
  obtains r where "reader_as_of versions_at_or_before m s p t = Ok r"
    and "\<And>c. r = Some c \<longleftrightarrow> in_force (claim_versions (contents m) s p) t c"
proof -
  obtain cs where "versions_at_or_before m s p t = Ok cs" using before_total [OF assms] by (auto simp: is_ok_iff)
  then have "reader_as_of versions_at_or_before m s p t = Ok (resolve_as_of cs t)" by (simp add: reader_as_of_def)
  with as_of_in_force [OF assms this] show thesis by (intro that)
qed

end

end
