(* ===== verification/Reference_Claims.thy ===== *)
theory Reference_Claims
  imports Temporal Ordered_Map
begin

text \<open>
  The in-memory reference implementation of the storage port
  (\<^verbatim>\<open>crates/vyrm-core/src/reference.rs\<close>), the arbiter every substrate is compared with. Its
  \<open>BTreeMap\<close> is an ordered map on claim keys; \<open>range\<close> panics when its start lies behind its end,
  which is an error value here and is shown never to happen.
\<close>

section \<open>Definitions\<close>

record memory_claims =
  rows :: "(bytes, claim) btree"

datatype range_panic = RangeStartAfterEnd

definition memory_new :: memory_claims where
  "memory_new = \<lparr>rows = []\<rparr>"

definition key_of :: "claim \<Rightarrow> bytes" where
  "key_of c = claim_key (subject c) (predicate c) (valid_from c) (tx_time c)"

definition memory_insert :: "claim \<Rightarrow> memory_claims \<Rightarrow> memory_claims core_result" where
  "memory_insert c m = rbind (claim_validate c) (\<lambda>_. Ok (m\<lparr>rows := bt_insert (key_of c) c (rows m)\<rparr>))"

definition memory_len :: "memory_claims \<Rightarrow> nat" where
  "memory_len m = length (rows m)"

definition memory_is_empty :: "memory_claims \<Rightarrow> bool" where
  "memory_is_empty m \<longleftrightarrow> rows m = []"

definition memory_iter :: "memory_claims \<Rightarrow> claim list" where
  "memory_iter m = map snd (rows m)"

definition range_values :: "bytes \<Rightarrow> bytes option \<Rightarrow> (bytes, claim) btree \<Rightarrow> range_panic + claim list" where
  "range_values start bound m =
     (case bound of
        Some e \<Rightarrow> if e < start then Err RangeStartAfterEnd
                  else Ok (map snd (filter (\<lambda>(k, _). start \<le> k \<and> k < e) m))
      | None \<Rightarrow> Ok (map snd (filter (\<lambda>(k, _). start \<le> k) m)))"

definition memory_scan :: "memory_claims \<Rightarrow> bytes \<Rightarrow> bytes \<Rightarrow> bytes \<Rightarrow> range_panic + claim list" where
  "memory_scan m s p start = range_values start (prefix_end (version_prefix s p)) (rows m)"

definition memory_versions_at_or_before :: "memory_claims \<Rightarrow> bytes \<Rightarrow> bytes \<Rightarrow> millis \<Rightarrow> range_panic + claim list" where
  "memory_versions_at_or_before m s p as_of = memory_scan m s p (seek_key s p as_of)"

definition memory_all_versions :: "memory_claims \<Rightarrow> bytes \<Rightarrow> bytes \<Rightarrow> range_panic + claim list" where
  "memory_all_versions m s p = memory_scan m s p (version_prefix s p)"

definition memory_subject_versions :: "memory_claims \<Rightarrow> bytes \<Rightarrow> range_panic + claim list" where
  "memory_subject_versions m s = range_values (subject_prefix s) (prefix_end (subject_prefix s)) (rows m)"

section \<open>Invariant\<close>

definition claim_idents :: "claim \<Rightarrow> bool" where
  "claim_idents c \<longleftrightarrow> ident_ok (subject c) \<and> ident_ok (predicate c)"

definition memory_wf :: "memory_claims \<Rightarrow> bool" where
  "memory_wf m \<longleftrightarrow> bt_wf (rows m)
     \<and> (\<forall>(k, c)\<in>set (rows m). k = key_of c \<and> claim_idents c \<and> claim_validate c = Ok ())"

definition memory_contents :: "memory_claims \<Rightarrow> claim set" where
  "memory_contents m = snd ` set (rows m)"

definition same_version :: "claim \<Rightarrow> claim \<Rightarrow> bool" where
  "same_version a b \<longleftrightarrow> subject a = subject b \<and> predicate a = predicate b
     \<and> valid_from a = valid_from b \<and> tx_time a = tx_time b"

lemma key_of_eq: "claim_idents a \<Longrightarrow> claim_idents b \<Longrightarrow> key_of a = key_of b \<longleftrightarrow> same_version a b"
  by (auto simp: key_of_def claim_idents_def same_version_def claim_key_inj)

lemma memory_row: "memory_wf m \<Longrightarrow> (k, c) \<in> set (rows m) \<longleftrightarrow> c \<in> memory_contents m \<and> k = key_of c"
  by (force simp: memory_wf_def memory_contents_def)

lemma memory_idents: "memory_wf m \<Longrightarrow> c \<in> memory_contents m \<Longrightarrow> claim_idents c"
  by (force simp: memory_wf_def memory_contents_def)

lemma memory_wf_new: "memory_wf memory_new"
  by (simp add: memory_wf_def memory_new_def)

lemma bt_get_mem: "bt_wf m \<Longrightarrow> bt_get m k = Some v \<longleftrightarrow> (k, v) \<in> set m"
  unfolding bt_get_def bt_wf_def by (simp add: strict_sorted_iff)

lemma memory_insert_ok:
  assumes "memory_insert c m = Ok m'" and "memory_wf m" and "claim_idents c"
  shows "memory_wf m'" and "memory_contents m' = insert c {d \<in> memory_contents m. \<not> same_version d c}"
proof -
  from assms(1) have v: "claim_validate c = Ok ()" and m': "m' = m\<lparr>rows := bt_insert (key_of c) c (rows m)\<rparr>"
    by (auto simp: memory_insert_def res_simps)
  have wf: "bt_wf (rows m)" "bt_wf (rows m')" using assms(2) by (simp_all add: memory_wf_def m' bt_wf_insert)
  have row: "(k, d) \<in> set (rows m') \<longleftrightarrow> (if k = key_of c then d = c else (k, d) \<in> set (rows m))" for k d
    using wf by (auto simp: bt_get_insert m' simp flip: bt_get_mem)
  show "memory_wf m'" using assms(2,3) v wf by (auto simp: memory_wf_def row split: if_splits)
  show "memory_contents m' = insert c {d \<in> memory_contents m. \<not> same_version d c}"
  proof (intro set_eqI)
    fix d
    have "d \<in> memory_contents m' \<longleftrightarrow> (\<exists>k. (k, d) \<in> set (rows m'))" by (force simp: memory_contents_def)
    also have "\<dots> \<longleftrightarrow> d = c \<or> d \<in> memory_contents m \<and> key_of d \<noteq> key_of c"
      unfolding row memory_row [OF assms(2)] by auto
    also have "\<dots> \<longleftrightarrow> d = c \<or> d \<in> memory_contents m \<and> \<not> same_version d c"
      using memory_idents [OF assms(2)] key_of_eq [OF _ assms(3)] by blast
    finally show "d \<in> memory_contents m' \<longleftrightarrow> d \<in> insert c {d \<in> memory_contents m. \<not> same_version d c}" by simp
  qed
qed

section \<open>The reference implements the port\<close>

text \<open>Rows in key order are rows in the order of the port.\<close>

lemma key_of_less:
  assumes "claim_idents a" and "claim_idents b"
  shows "key_of a < key_of b \<longleftrightarrow> subject a < subject b \<or> subject a = subject b \<and> grouped_newer a b"
  using assms by (auto simp: key_of_def claim_idents_def claim_key_less grouped_newer_def newer_claim_def)

lemma memory_rows_sorted:
  assumes "memory_wf m"
  shows "sorted_wrt (\<lambda>a b. key_of a < key_of b) (map snd (filter P (rows m)))"
proof -
  have "sorted_wrt (<) (map fst (filter P (rows m)))"
    using assms bt_wf_filter [of "rows m" P] by (simp add: memory_wf_def bt_wf_def)
  moreover have "map fst (filter P (rows m)) = map key_of (map snd (filter P (rows m)))"
    using assms by (auto simp: memory_wf_def)
  ultimately show ?thesis by (simp add: sorted_wrt_map)
qed

lemma memory_range:
  assumes wf: "memory_wf m" and le: "pre \<le> start" and ok: "range_values start (prefix_end pre) (rows m) = Ok cs"
  shows "set cs = {c \<in> memory_contents m. start \<le> key_of c \<and> below_end pre (key_of c)}"
    and "sorted_wrt (\<lambda>a b. key_of a < key_of b) cs"
proof -
  have cs: "cs = map snd (filter (\<lambda>(k, _). start \<le> k \<and> below_end pre k) (rows m))"
    using ok by (auto simp: range_values_def below_end_def split: option.splits if_splits)
  show "set cs = {c \<in> memory_contents m. start \<le> key_of c \<and> below_end pre (key_of c)}"
    unfolding cs by (force simp: memory_row [OF wf])
  show "sorted_wrt (\<lambda>a b. key_of a < key_of b) cs" unfolding cs by (rule memory_rows_sorted [OF wf])
qed

lemma memory_scan_range:
  assumes wf: "memory_wf m" and id: "ident_ok s" "ident_ok p"
  shows "memory_versions_at_or_before m s p t = Ok cs \<Longrightarrow>
      set cs = {c \<in> claim_versions (memory_contents m) s p. valid_from c \<le> t} \<and> sorted_wrt newer_claim cs"
    and "memory_all_versions m s p = Ok cs \<Longrightarrow> set cs = claim_versions (memory_contents m) s p \<and> sorted_wrt newer_claim cs"
proof -
  have idents: "claim_idents c" if "c \<in> memory_contents m" for c using memory_idents [OF wf that] .
  have sorted: "sorted_wrt newer_claim cs"
    if "set cs \<subseteq> claim_versions (memory_contents m) s p" "sorted_wrt (\<lambda>a b. key_of a < key_of b) cs" for cs
    using that(2)
  proof (rule sorted_wrt_mono_rel [rotated])
    fix a b assume "a \<in> set cs" "b \<in> set cs" "key_of a < key_of b"
    moreover from this that(1) have "a \<in> claim_versions (memory_contents m) s p" "b \<in> claim_versions (memory_contents m) s p"
      by blast+
    ultimately show "newer_claim a b" using idents by (auto simp: claim_versions_def key_of_less grouped_newer_def)
  qed
  show "set cs = {c \<in> claim_versions (memory_contents m) s p. valid_from c \<le> t} \<and> sorted_wrt newer_claim cs"
    if "memory_versions_at_or_before m s p t = Ok cs"
  proof -
    note r = memory_range [OF wf version_prefix_le_seek that [unfolded memory_versions_at_or_before_def memory_scan_def]]
    have "set cs = {c \<in> claim_versions (memory_contents m) s p. valid_from c \<le> t}"
      unfolding r(1) key_of_def claim_versions_def using idents id seek_range unfolding claim_idents_def by blast
    with sorted r(2) show ?thesis by simp
  qed
  show "set cs = claim_versions (memory_contents m) s p \<and> sorted_wrt newer_claim cs" if "memory_all_versions m s p = Ok cs"
  proof -
    note r = memory_range [OF wf order_refl that [unfolded memory_all_versions_def memory_scan_def]]
    have "set cs = claim_versions (memory_contents m) s p"
      unfolding r(1) prefix_end_range key_of_def claim_versions_def
      using idents id claim_key_version_prefix unfolding claim_idents_def by blast
    with sorted r(2) show ?thesis by simp
  qed
qed

lemma memory_subject_range:
  assumes wf: "memory_wf m" and id: "ident_ok s" and ok: "memory_subject_versions m s = Ok cs"
  shows "set cs = {c \<in> memory_contents m. subject c = s} \<and> sorted_wrt grouped_newer cs"
proof -
  note r = memory_range [OF wf order_refl ok [unfolded memory_subject_versions_def]]
  have idents: "claim_idents c" if "c \<in> memory_contents m" for c using memory_idents [OF wf that] .
  have set: "set cs = {c \<in> memory_contents m. subject c = s}"
    unfolding r(1) prefix_end_range key_of_def
    using idents id claim_key_subject_prefix unfolding claim_idents_def by blast
  moreover have "sorted_wrt grouped_newer cs"
    using r(2)
  proof (rule sorted_wrt_mono_rel [rotated])
    fix a b assume "a \<in> set cs" "b \<in> set cs" "key_of a < key_of b"
    moreover from this set idents have "claim_idents a" "claim_idents b" by auto
    ultimately show "grouped_newer a b" using set by (auto simp: key_of_less)
  qed
  ultimately show ?thesis ..
qed

text \<open>No range starts behind its end.\<close>

lemma range_values_total: "(\<exists>r. start = pre @ r) \<Longrightarrow> is_ok (range_values start (prefix_end pre) m)"
  using prefix_end_range [of pre start] by (auto simp: range_values_def below_end_def split: option.split)

interpretation memory: total_claim_source memory_versions_at_or_before memory_all_versions memory_subject_versions
  memory_wf memory_contents
proof (unfold_locales, goal_cases)
  case (7 m s p t)
  show ?case unfolding memory_versions_at_or_before_def memory_scan_def
    by (rule range_values_total) (auto simp: seek_key_def valid_from_bound_def)
next
  case (8 m s p)
  show ?case unfolding memory_all_versions_def memory_scan_def by (rule range_values_total) simp
next
  case (9 m s)
  show ?case unfolding memory_subject_versions_def by (rule range_values_total) simp
qed (use memory_scan_range memory_subject_range in blast)+

section \<open>Properties\<close>

text \<open>The abstract log: recording a claim replaces only a claim recorded for the same version.\<close>

fun record_all :: "claim list \<Rightarrow> claim set \<Rightarrow> claim set" where
  "record_all [] S = S"
| "record_all (c # cs) S = record_all cs (insert c {d \<in> S. \<not> same_version d c})"

lemma memory_insert_all:
  assumes "try_fold memory_insert cs m = Ok m'" and "memory_wf m" and "list_all claim_idents cs"
  shows "memory_wf m' \<and> memory_contents m' = record_all cs (memory_contents m)"
  using assms
proof (induction cs arbitrary: m)
  case (Cons c cs)
  then obtain m1 where m1: "memory_insert c m = Ok m1" "try_fold memory_insert cs m1 = Ok m'"
    by (auto simp: res_simps)
  note ins = memory_insert_ok [OF m1(1) Cons.prems(2)]
  show ?case using Cons.IH [OF m1(2)] ins Cons.prems(3) by simp
qed simp

lemma memory_contents_new [simp]: "memory_contents memory_new = {}"
  by (simp add: memory_contents_def memory_new_def)

text \<open>C18. Reading the reference store as of an instant, after any sequence of recorded claims, never fails and
  returns exactly the claim in force: of the versions at one start of validity only the last recorded counts, and
  of those valid at the instant the one that began last wins; none when every one was retired or is yet to begin.
  The full history resolves to the same claim.\<close>

theorem memory_as_of_refines:
  assumes "try_fold memory_insert cs memory_new = Ok m" and "list_all claim_idents cs"
    and "ident_ok s" and "ident_ok p"
  shows "\<exists>r h. reader_as_of memory_versions_at_or_before m s p t = Ok r
    \<and> (\<forall>c. r = Some c \<longleftrightarrow> in_force (claim_versions (record_all cs {}) s p) t c)
    \<and> reader_history memory_all_versions m s p = Ok h \<and> set h = claim_versions (record_all cs {}) s p
    \<and> sorted_wrt newer_claim h \<and> resolve_as_of h t = r"
proof -
  note m = memory_insert_all [OF assms(1) memory_wf_new assms(2), simplified]
  then have wf: "memory_wf m" ..
  obtain r where r: "reader_as_of memory_versions_at_or_before m s p t = Ok r"
    "\<And>c. r = Some c \<longleftrightarrow> in_force (claim_versions (memory_contents m) s p) t c"
    using memory.as_of_total [OF wf assms(3,4)] by blast
  obtain h where h: "memory_all_versions m s p = Ok h"
    using memory.all_total [OF wf assms(3,4)] by (auto simp: is_ok_iff)
  then have "reader_history memory_all_versions m s p = Ok h" by (simp add: reader_history_def)
  with r h m memory.all_set [OF wf assms(3,4) h] memory.all_sorted [OF wf assms(3,4) h]
    memory.history_resolves [OF wf assms(3,4) r(1)]
  show ?thesis by auto
qed

definition example_claim :: "u64 \<Rightarrow> u64 option \<Rightarrow> u64 \<Rightarrow> claim" where
  "example_claim vf to tx = (claim_new [119] [115] [120] vf tx \<lparr>actor = [97], on_behalf_of = None, session = None\<rparr>)\<lparr>valid_to := to\<rparr>"

lemma example_claim_idents: "claim_idents (example_claim vf to tx)" "ident_ok [119]" "ident_ok [115]"
  by (simp_all add: example_claim_def claim_new_def claim_idents_def ident_ok_def SEP_def utf8_valid.simps)

theorem memory_as_of_refines_witness:
  "\<exists>m r. try_fold memory_insert [example_claim 100 None 1, example_claim 100 (Some 200) 2] memory_new = Ok m
    \<and> reader_as_of memory_versions_at_or_before m [119] [115] 150 = Ok r
    \<and> (\<forall>c. r = Some c \<longleftrightarrow> in_force (claim_versions (record_all [example_claim 100 None 1, example_claim 100 (Some 200) 2] {}) [119] [115]) 150 c)"
proof -
  have "\<exists>m. try_fold memory_insert [example_claim 100 None 1, example_claim 100 (Some 200) 2] memory_new = Ok m"
    by (simp add: memory_insert_def example_claim_def claim_new_def claim_validate_def)
  then obtain m where m: "try_fold memory_insert [example_claim 100 None 1, example_claim 100 (Some 200) 2] memory_new = Ok m" ..
  then show ?thesis
    using memory_as_of_refines [OF m, of "[119]" "[115]" 150] example_claim_idents by auto
qed

section \<open>Supersession\<close>

lemma supersede_ok:
  assumes "supersede previous successor = Ok (retirement, successor')"
  shows "subject successor = subject previous" "predicate successor = predicate previous"
    and "valid_from previous < valid_from successor" "tx_time previous < tx_time successor"
    and "retirement = previous\<lparr>valid_to := Some (valid_from successor), tx_time := tx_time successor,
        supersedes := Some (claim_digest previous)\<rparr>"
    and "successor' = successor\<lparr>supersedes := Some (claim_digest previous)\<rparr>"
    and "claim_validate retirement = Ok ()" "claim_validate successor' = Ok ()"
  using assms by (auto simp: supersede_def Let_def res_simps split: if_splits)

lemma in_force_retirement:
  assumes "in_force S t previous" and "supersede previous successor = Ok (retirement, successor')"
    and "\<forall>d\<in>S. tx_time d < tx_time successor" and "t < valid_from successor"
  shows "in_force (insert successor' (insert retirement S)) t retirement"
proof -
  note sup = supersede_ok [OF assms(2)]
  let ?S = "insert successor' (insert retirement S)"
  have "latest_correction ?S retirement" using assms(3) sup(3,5,6) by (auto simp: latest_correction_def less_imp_le)
  moreover have "valid_at retirement t" using assms(1,4) sup(5) by (auto simp: in_force_def valid_at_def split: if_splits)
  moreover have "valid_from d \<le> valid_from retirement" if d: "latest_correction ?S d" "valid_at d t" for d
  proof -
    have "d \<noteq> successor'" using d(2) assms(4) sup(6) by (auto simp: valid_at_def)
    then consider "d = retirement" | "latest_correction S d" using d(1) by (auto simp: latest_correction_def)
    then show ?thesis using assms(1) d(2) sup(5) by cases (auto simp: in_force_def)
  qed
  ultimately show ?thesis by (simp add: in_force_def)
qed

lemma in_force_successor:
  assumes "supersede previous successor = Ok (retirement, successor')"
    and "\<forall>d\<in>S. tx_time d < tx_time successor" and "valid_at successor t"
    and "\<forall>d\<in>S. valid_from d \<le> t \<longrightarrow> valid_from d \<le> valid_from successor"
  shows "in_force (insert successor' (insert retirement S)) t successor'"
proof -
  note sup = supersede_ok [OF assms(1)]
  let ?S = "insert successor' (insert retirement S)"
  have "latest_correction ?S successor'" using assms(2) sup(3,5,6) by (auto simp: latest_correction_def less_imp_le)
  moreover have "valid_at successor' t" using assms(3) by (simp add: valid_at_def sup(6) split: if_splits)
  moreover have "valid_from d \<le> valid_from successor'" if "latest_correction ?S d" "valid_at d t" for d
    using that assms(4) sup(3,5,6) by (auto simp: latest_correction_def valid_at_def split: if_splits)
  ultimately show ?thesis by (simp add: in_force_def)
qed

text \<open>A read that returns what is in force, when the claims at that instant are known.\<close>

lemma memory_reads_in_force:
  assumes "memory_wf m" and "ident_ok s" and "ident_ok p" and "in_force (claim_versions (memory_contents m) s p) t c"
  shows "reader_as_of memory_versions_at_or_before m s p t = Ok (Some c)"
  using memory.as_of_total [OF assms(1-3), of t] assms(4) by metis

lemma supersession_recorded:
  assumes wf: "memory_wf m" and prev: "previous \<in> memory_contents m"
    and sup: "supersede previous successor = Ok (retirement, successor')"
    and tx: "\<forall>d\<in>claim_versions (memory_contents m) (subject previous) (predicate previous). tx_time d < tx_time successor"
  obtains m' where "try_fold memory_insert [retirement, successor'] m = Ok m'" "memory_wf m'" "previous \<in> memory_contents m'"
    "claim_versions (memory_contents m') (subject previous) (predicate previous) =
      insert successor' (insert retirement (claim_versions (memory_contents m) (subject previous) (predicate previous)))"
proof -
  note s = supersede_ok [OF sup]
  have id: "list_all claim_idents [retirement, successor']"
    using memory_idents [OF wf prev] s(1,2,5,6) by (simp add: claim_idents_def)
  have "\<exists>m'. try_fold memory_insert [retirement, successor'] m = Ok m'"
    using s(7,8) by (simp add: memory_insert_def)
  then obtain m' where m': "try_fold memory_insert [retirement, successor'] m = Ok m'" ..
  note ins = memory_insert_all [OF m' wf id]
  have pv: "previous \<in> claim_versions (memory_contents m) (subject previous) (predicate previous)"
    using prev by (simp add: claim_versions_def)
  have fresh: "\<not> same_version d retirement" "\<not> same_version d successor'" if "d \<in> memory_contents m" for d
    using tx that s(1,2,5,6) by (auto simp: same_version_def claim_versions_def)
  have "\<not> same_version retirement successor'" using s(3,5,6) by (auto simp: same_version_def)
  then have contents: "memory_contents m' = insert successor' (insert retirement (memory_contents m))"
    using ins fresh by (auto simp: same_version_def)
  show thesis
  proof (rule that [OF m'])
    show "memory_wf m'" using ins ..
    show "previous \<in> memory_contents m'" using prev by (simp add: contents)
    have "subject retirement = subject previous" "predicate retirement = predicate previous"
      "subject successor' = subject previous" "predicate successor' = predicate previous"
      using s(1,2) by (simp_all add: s(5,6))
    then show "claim_versions (memory_contents m') (subject previous) (predicate previous) =
        insert successor' (insert retirement (claim_versions (memory_contents m) (subject previous) (predicate previous)))"
      unfolding contents claim_versions_def by blast
  qed
qed

text \<open>C33. Supersession hands over without losing anything: once the retirement and the successor that
  \<open>supersede\<close> returns are recorded, a claim that was in force before the successor begins is answered by its
  retirement, the successor answers from the instant it begins as long as it is valid and nothing later has begun,
  and the superseded version itself stays in the history.\<close>

theorem supersession_hands_over:
  assumes "memory_wf m" and "ident_ok s" and "ident_ok p"
    and "reader_as_of memory_versions_at_or_before m s p t = Ok (Some previous)"
    and "supersede previous successor = Ok (retirement, successor')"
    and "\<forall>d\<in>claim_versions (memory_contents m) s p. tx_time d < tx_time successor"
  shows "\<exists>m'. try_fold memory_insert [retirement, successor'] m = Ok m' \<and> memory_wf m'
    \<and> (t < valid_from successor \<longrightarrow> reader_as_of memory_versions_at_or_before m' s p t = Ok (Some retirement))
    \<and> (\<forall>u. valid_at successor u
          \<and> (\<forall>d\<in>claim_versions (memory_contents m) s p. valid_from d \<le> u \<longrightarrow> valid_from d \<le> valid_from successor)
        \<longrightarrow> reader_as_of memory_versions_at_or_before m' s p u = Ok (Some successor'))
    \<and> previous \<in> claim_versions (memory_contents m') s p"
proof -
  let ?S = "claim_versions (memory_contents m) s p"
  have force: "in_force ?S t previous" using memory.as_of_in_force [OF assms(1-4), of previous] by simp
  then have prev: "previous \<in> memory_contents m" and sp: "subject previous = s" "predicate previous = p"
    by (auto simp: in_force_def latest_correction_def claim_versions_def)
  obtain m' where m': "try_fold memory_insert [retirement, successor'] m = Ok m'" "memory_wf m'" "previous \<in> memory_contents m'"
    "claim_versions (memory_contents m') s p = insert successor' (insert retirement ?S)"
    using supersession_recorded [OF assms(1) prev assms(5)] assms(6) sp by metis
  note reads = memory_reads_in_force [OF m'(2) assms(2,3), unfolded m'(4)]
  show ?thesis
    using m'(1-3) reads in_force_retirement [OF force assms(5,6)] in_force_successor [OF assms(5,6)] sp
    by (intro exI [of _ m']) (auto simp: claim_versions_def)
qed

lemma example_store:
  obtains m where "memory_wf m" "memory_contents m = {example_claim 100 None 2}"
proof -
  let ?c = "example_claim 100 None 2"
  have "\<exists>m. try_fold memory_insert [?c] memory_new = Ok m"
    by (simp add: memory_insert_def example_claim_def claim_new_def claim_validate_def)
  then obtain m where m: "try_fold memory_insert [?c] memory_new = Ok m" ..
  show thesis
    using that [of m] memory_insert_all [OF m memory_wf_new] example_claim_idents by simp
qed

theorem supersession_hands_over_witness:
  "\<exists>m' r s. supersede (example_claim 100 None 2) (example_claim 200 None 5) = Ok (r, s)
    \<and> memory_wf m' \<and> reader_as_of memory_versions_at_or_before m' [119] [115] 250 = Ok (Some s)"
proof -
  obtain m where m: "memory_wf m" "memory_contents m = {example_claim 100 None 2}" by (rule example_store)
  have versions: "claim_versions (memory_contents m) [119] [115] = {example_claim 100 None 2}"
    unfolding m(2) by (auto simp: claim_versions_def example_claim_def claim_new_def)
  have "in_force {example_claim 100 None 2} 150 (example_claim 100 None 2)"
    by (auto simp: in_force_def latest_correction_def valid_at_def example_claim_def claim_new_def)
  then have read: "reader_as_of memory_versions_at_or_before m [119] [115] 150 = Ok (Some (example_claim 100 None 2))"
    using memory_reads_in_force [OF m(1) example_claim_idents(2,3)] versions by simp
  obtain r s where sup: "supersede (example_claim 100 None 2) (example_claim 200 None 5) = Ok (r, s)"
    by (simp add: supersede_def example_claim_def claim_new_def claim_validate_def Let_def)
  have valid: "valid_at (example_claim 200 None 5) 250" by (simp add: valid_at_def example_claim_def claim_new_def)
  have tx: "\<forall>d\<in>claim_versions (memory_contents m) [119] [115]. tx_time d < tx_time (example_claim 200 None 5)"
    and from_time: "\<forall>d\<in>claim_versions (memory_contents m) [119] [115]. valid_from d \<le> valid_from (example_claim 200 None 5)"
    unfolding versions by (simp_all add: example_claim_def claim_new_def)
  show ?thesis
    using supersession_hands_over [OF m(1) example_claim_idents(2,3) read sup tx] sup valid from_time by blast
qed

end
