(* ===== verification/Recall.thy ===== *)
theory Recall
  imports Reference_Claims "HOL-Library.Sublist"
begin

text \<open>
  Recall (\<^verbatim>\<open>crates/vyrm-core/src/recall.rs\<close>): the claims in force for a set of subjects, filled
  into a token budget. It is written over the storage port, so its correctness is a lemma of the port's locale
  and reaches the reference store through the interpretation. Byte and token counts are exact naturals: the
  strings they measure are in memory.
\<close>

section \<open>Definitions\<close>

record recall_query =
  rq_subjects :: "bytes list"
  rq_predicates :: "bytes list option"
  rq_as_of :: millis

record recall_set =
  rs_claims :: "claim list"
  rs_digest :: bytes
  rs_token_estimate :: nat
  rs_truncated :: bool

definition ESTIMATED_BYTES_PER_TOKEN :: nat where
  "ESTIMATED_BYTES_PER_TOKEN = 4"

definition div_ceil :: "nat \<Rightarrow> nat \<Rightarrow> nat" where
  "div_ceil a b = (if 0 < a mod b then a div b + 1 else a div b)"

definition estimate_claim_tokens :: "claim \<Rightarrow> nat" where
  "estimate_claim_tokens c =
     div_ceil (length (subject c) + length (predicate c) + length (object c) + length (actor (claim_producer c)))
       ESTIMATED_BYTES_PER_TOKEN"

definition recall_digest_bytes :: "claim list \<Rightarrow> bytes" where
  "recall_digest_bytes claims =
     ascii ''vyrm-recall-v1'' @ [0] @ u64_to_be_bytes (word_of_nat (length claims))
     @ concat (map (\<lambda>c. let canonical = canonical_bytes c in
                 u64_to_be_bytes (word_of_nat (length canonical)) @ canonical) claims)"

definition recall_digest :: "claim list \<Rightarrow> bytes" where
  "recall_digest claims = sha256_hex (recall_digest_bytes claims)"

record recall_state =
  included :: "claim list"
  spent :: nat
  truncated :: bool
  visited :: "bytes list"

text \<open>The body behind the resolution of one predicate group.\<close>

definition take_claim :: "nat \<Rightarrow> claim \<Rightarrow> recall_state \<Rightarrow> recall_state" where
  "take_claim token_budget current st =
     (let cost = estimate_claim_tokens current in
      if included st = [] \<or> spent st + cost \<le> token_budget
      then st\<lparr>spent := spent st + cost, included := included st @ [current]\<rparr>
      else st\<lparr>truncated := True\<rparr>)"

definition recall_group :: "recall_query \<Rightarrow> nat \<Rightarrow> claim list \<Rightarrow> recall_state \<Rightarrow> recall_state" where
  "recall_group query token_budget candidates st =
     (let skip = (case rq_predicates query of Some wanted \<Rightarrow> predicate (hd candidates) \<notin> set wanted | None \<Rightarrow> False) in
      if skip then st
      else case resolve_as_of candidates (rq_as_of query) of
             None \<Rightarrow> st
           | Some current \<Rightarrow> take_claim token_budget current st)"

function recall_groups :: "recall_query \<Rightarrow> nat \<Rightarrow> claim list \<Rightarrow> nat \<Rightarrow> recall_state \<Rightarrow> recall_state" where
  "recall_groups query token_budget versions index st =
     (if index < length versions then
        (let upper = run_end (\<lambda>c. predicate c = predicate (versions ! index)) versions index;
             candidates = subslice index upper versions in
         recall_groups query token_budget versions upper (recall_group query token_budget candidates st))
      else st)"
  by pat_completeness auto
termination
proof (relation "measure (\<lambda>(query, token_budget, versions, index, st). length versions - index)")
  fix query :: recall_query and token_budget and versions :: "claim list" and index and st :: recall_state and x xa
  assume "index < length versions" "x = run_end (\<lambda>c. predicate c = predicate (versions ! index)) versions index"
  then have "index < x" using run_end_grows by fastforce
  with \<open>index < length versions\<close>
  show "((query, token_budget, versions, x, recall_group query token_budget xa st), query, token_budget, versions, index, st)
      \<in> measure (\<lambda>(query, token_budget, versions, index, st). length versions - index)" by simp
qed simp

declare recall_groups.simps [simp del]

definition recall_subject ::
    "('s \<Rightarrow> bytes \<Rightarrow> 'e + claim list) \<Rightarrow> 's \<Rightarrow> recall_query \<Rightarrow> nat \<Rightarrow> bytes \<Rightarrow> recall_state \<Rightarrow> 'e + recall_state" where
  "recall_subject subject_versions source query token_budget s st =
     (if s \<in> set (visited st) then Ok st
      else
      let st = st\<lparr>visited := visited st @ [s]\<rparr> in
      rbind (subject_versions source s) (\<lambda>versions. Ok (recall_groups query token_budget versions 0 st)))"

definition recall ::
    "('s \<Rightarrow> bytes \<Rightarrow> 'e + claim list) \<Rightarrow> 's \<Rightarrow> recall_query \<Rightarrow> nat \<Rightarrow> 'e + recall_set" where
  "recall subject_versions source query token_budget =
     rbind (try_fold (recall_subject subject_versions source query token_budget) (rq_subjects query)
              \<lparr>included = [], spent = 0, truncated = False, visited = []\<rparr>) (\<lambda>st.
     Ok \<lparr>rs_claims = included st, rs_digest = recall_digest (included st),
         rs_token_estimate = spent st, rs_truncated = truncated st\<rparr>)"

section \<open>Groups\<close>

function group_runs :: "claim list \<Rightarrow> claim list list" where
  "group_runs [] = []"
| "group_runs (c # cs) =
     (c # takeWhile (\<lambda>d. predicate d = predicate c) cs) # group_runs (dropWhile (\<lambda>d. predicate d = predicate c) cs)"
  by pat_completeness auto
termination by (relation "measure length") (auto simp: le_imp_less_Suc length_dropWhile_le)

lemma recall_groups_fold:
  "recall_groups q b vs i st = fold (recall_group q b) (group_runs (drop i vs)) st"
proof (induction q b vs i st rule: recall_groups.induct)
  case (1 q b vs i st)
  show ?case
  proof (cases "i < length vs")
    case True
    let ?p = "\<lambda>c. predicate c = predicate (vs ! i)"
    have d: "drop i vs = vs ! i # drop (Suc i) vs" using True by (simp add: Cons_nth_drop_Suc)
    have "subslice i (run_end ?p vs i) vs = takeWhile ?p (drop i vs)"
      by (simp add: subslice_def run_end_eq flip: takeWhile_eq_take)
    moreover have "drop (run_end ?p vs i) vs = dropWhile ?p (drop (Suc i) vs)"
      by (simp add: drop_run_end d)
    ultimately show ?thesis
      using 1 [OF True refl refl] by (subst recall_groups.simps) (simp add: True d)
  qed (simp add: recall_groups.simps)
qed

lemma grouped_head:
  assumes "sorted_wrt grouped_newer (c # cs)"
  shows "set (takeWhile (\<lambda>d. predicate d = predicate c) cs) = {d \<in> set cs. predicate d = predicate c}
    \<and> set (dropWhile (\<lambda>d. predicate d = predicate c) cs) = {d \<in> set cs. predicate c < predicate d}"
  using assms
proof (induction cs)
  case (Cons d cs)
  have later: "predicate c < predicate e" if "predicate d \<noteq> predicate c" "e \<in> set (d # cs)" for e
    using Cons.prems that by (auto simp: grouped_newer_def intro: less_trans)
  show ?case
  proof (cases "predicate d = predicate c")
    case True
    with Cons show ?thesis by auto
  next
    case False
    with later have "predicate c < predicate d" "\<And>e. e \<in> set cs \<Longrightarrow> predicate c < predicate e" by auto
    then have "\<And>e. e \<in> set cs \<Longrightarrow> predicate e \<noteq> predicate c" by force
    with False \<open>predicate c < predicate d\<close> \<open>\<And>e. e \<in> set cs \<Longrightarrow> predicate c < predicate e\<close> show ?thesis by auto
  qed
qed simp

lemma grouped_run_sorted:
  assumes "sorted_wrt grouped_newer (c # cs)"
  shows "sorted_wrt newer_claim (c # takeWhile (\<lambda>d. predicate d = predicate c) cs)"
proof -
  let ?g = "takeWhile (\<lambda>d. predicate d = predicate c) cs"
  have "sorted_wrt grouped_newer (c # ?g)"
    using assms sorted_wrt_takeWhile [of grouped_newer cs] by (auto dest: set_takeWhileD)
  then show ?thesis
  proof (rule sorted_wrt_mono_rel [rotated])
    fix a b assume "a \<in> set (c # ?g)" "b \<in> set (c # ?g)" "grouped_newer a b"
    moreover from this have "predicate a = predicate c" "predicate b = predicate c" by (auto dest: set_takeWhileD)
    ultimately show "newer_claim a b" by (simp add: grouped_newer_def)
  qed
qed

lemma group_runs_spec:
  "sorted_wrt grouped_newer vs \<Longrightarrow>
    (\<forall>g\<in>set (group_runs vs). g \<noteq> [] \<and> sorted_wrt newer_claim g \<and> set g = {c \<in> set vs. predicate c = predicate (hd g)})
    \<and> (\<lambda>g. predicate (hd g)) ` set (group_runs vs) = predicate ` set vs
    \<and> distinct (map (\<lambda>g. predicate (hd g)) (group_runs vs))"
proof (induction vs rule: group_runs.induct)
  case (2 c cs)
  let ?t = "takeWhile (\<lambda>d. predicate d = predicate c) cs" and ?d = "dropWhile (\<lambda>d. predicate d = predicate c) cs"
  have "sorted_wrt grouped_newer ?d" using 2(2) by (simp add: sorted_wrt_dropWhile)
  note IH = 2(1) [OF this]
  note head = grouped_head [OF 2(2)]
  have runs: "g \<noteq> []" "sorted_wrt newer_claim g" "set g = {e \<in> set ?d. predicate e = predicate (hd g)}"
    "predicate (hd g) \<in> predicate ` set ?d" if "g \<in> set (group_runs ?d)" for g
    using IH that by auto
  have sorted: "predicate c \<le> predicate e" if "e \<in> set cs" for e
    using 2(2) that by (auto simp: grouped_newer_def)
  have "set g = {e \<in> set (c # cs). predicate e = predicate (hd g)}" if g: "g \<in> set (group_runs ?d)" for g
    using runs(3,4) [OF g] head by auto
  moreover have "predicate ` set (c # cs) = insert (predicate c) (predicate ` set ?d)"
    using head sorted by (force simp: le_less)
  moreover have "predicate c \<notin> predicate ` set ?d" using head by auto
  ultimately show ?case
    using IH runs head grouped_run_sorted [OF 2(2)] by auto
qed simp

section \<open>Matches and the fill\<close>

definition wanted :: "recall_query \<Rightarrow> bytes \<Rightarrow> bool" where
  "wanted q p = (case rq_predicates q of Some ps \<Rightarrow> p \<in> set ps | None \<Rightarrow> True)"

fun option_list :: "'a option \<Rightarrow> 'a list" where
  "option_list None = []"
| "option_list (Some a) = [a]"

lemma set_option_list [simp]: "c \<in> set (option_list r) \<longleftrightarrow> r = Some c" "distinct (option_list r)"
  by (cases r; auto)+

definition group_match :: "recall_query \<Rightarrow> claim list \<Rightarrow> claim list" where
  "group_match q g =
     (if wanted q (predicate (hd g)) then option_list (resolve_as_of g (rq_as_of q)) else [])"

definition matches :: "recall_query \<Rightarrow> claim list \<Rightarrow> claim list" where
  "matches q vs = concat (map (group_match q) (group_runs vs))"

lemma recall_group_match: "recall_group q b g st = fold (take_claim b) (group_match q g) st"
  by (auto simp: recall_group_def group_match_def wanted_def split: option.split)

lemma recall_groups_match: "recall_groups q b vs 0 st = fold (take_claim b) (matches q vs) st"
proof -
  have "fold (recall_group q b) gs st = fold (take_claim b) (concat (map (group_match q) gs)) st" for gs
    by (induction gs arbitrary: st) (simp_all add: recall_group_match)
  then show ?thesis by (simp add: recall_groups_fold matches_def)
qed

lemma distinct_concat_keys:
  assumes "distinct (map k gs)" and "\<And>g. g \<in> set gs \<Longrightarrow> distinct (f g)"
    and "\<And>g c. g \<in> set gs \<Longrightarrow> c \<in> set (f g) \<Longrightarrow> h c = k g"
  shows "distinct (concat (map f gs))"
  using assms by (induction gs) (auto, metis imageI)

lemma matches_spec:
  assumes sorted: "sorted_wrt grouped_newer vs"
  shows "set (matches q vs) = {c. wanted q (predicate c) \<and> in_force {d \<in> set vs. predicate d = predicate c} (rq_as_of q) c}"
    and "distinct (matches q vs)"
proof -
  note runs = group_runs_spec [OF sorted]
  have in_group: "c \<in> set (group_match q g) \<longleftrightarrow>
      wanted q (predicate c) \<and> in_force {d \<in> set vs. predicate d = predicate c} (rq_as_of q) c \<and> predicate c = predicate (hd g)"
    if g: "g \<in> set (group_runs vs)" for g c
  proof -
    have s: "sorted_wrt newer_claim g" and e: "set g = {d \<in> set vs. predicate d = predicate (hd g)}" using runs g by auto
    have pred: "predicate c = predicate (hd g)" if "in_force (set g) (rq_as_of q) c"
      using that unfolding e by (simp add: in_force_def latest_correction_def)
    have same: "in_force (set g) (rq_as_of q) c \<longleftrightarrow>
        in_force {d \<in> set vs. predicate d = predicate c} (rq_as_of q) c \<and> predicate c = predicate (hd g)"
    proof (cases "predicate c = predicate (hd g)")
      case True
      then show ?thesis by (simp add: e)
    next
      case False
      then show ?thesis using pred by blast
    qed
    have "c \<in> set (group_match q g) \<longleftrightarrow> wanted q (predicate (hd g)) \<and> resolve_as_of g (rq_as_of q) = Some c"
      by (simp add: group_match_def)
    then show ?thesis unfolding resolve_as_of_in_force [OF s] same by auto
  qed
  show "set (matches q vs) = {c. wanted q (predicate c) \<and> in_force {d \<in> set vs. predicate d = predicate c} (rq_as_of q) c}"
  proof (intro set_eqI iffI)
    fix c assume "c \<in> set (matches q vs)"
    then show "c \<in> {c. wanted q (predicate c) \<and> in_force {d \<in> set vs. predicate d = predicate c} (rq_as_of q) c}"
      using in_group by (auto simp: matches_def)
  next
    fix c assume c: "c \<in> {c. wanted q (predicate c) \<and> in_force {d \<in> set vs. predicate d = predicate c} (rq_as_of q) c}"
    then have "predicate c \<in> predicate ` set vs" by (auto simp: in_force_def latest_correction_def)
    then obtain g where "g \<in> set (group_runs vs)" "predicate c = predicate (hd g)"
      unfolding runs [THEN conjunct2, THEN conjunct1, symmetric] by auto
    with c in_group show "c \<in> set (matches q vs)" by (auto simp: matches_def)
  qed
  show "distinct (matches q vs)"
    unfolding matches_def
  proof (rule distinct_concat_keys)
    show "distinct (map (\<lambda>g. predicate (hd g)) (group_runs vs))" using runs by simp
    show "distinct (group_match q g)" for g by (simp add: group_match_def)
    show "predicate c = predicate (hd g)" if "g \<in> set (group_runs vs)" "c \<in> set (group_match q g)" for g c
      using in_group that by blast
  qed
qed

text \<open>What the fill keeps true of the matches seen so far.\<close>

definition filled :: "nat \<Rightarrow> claim list \<Rightarrow> recall_state \<Rightarrow> bool" where
  "filled b ms st \<longleftrightarrow> subseq (included st) ms \<and> spent st = (\<Sum>c\<leftarrow>included st. estimate_claim_tokens c)
     \<and> (spent st \<le> b \<or> length (included st) = 1) \<and> (truncated st \<longleftrightarrow> included st \<noteq> ms)
     \<and> (included st = [] \<longleftrightarrow> ms = [])
     \<and> (\<forall>c\<in>set ms. c \<in> set (included st) \<or> b < spent st + estimate_claim_tokens c)"

lemma filled_visited: "filled b ms (st\<lparr>visited := v\<rparr>) = filled b ms st"
  by (cases st) (simp add: filled_def)

lemma take_claim_filled:
  assumes "filled b ms st"
  shows "filled b (ms @ [c]) (take_claim b c st)"
proof -
  have len: "length (included st) \<le> length ms" using assms by (auto simp: filled_def dest: list_emb_length)
  show ?thesis
  proof (cases "included st = [] \<or> spent st + estimate_claim_tokens c \<le> b")
    case True
    then show ?thesis using assms by (auto simp: filled_def take_claim_def)
  next
    case False
    moreover have "included st \<noteq> ms @ [c]" using len by (auto dest: arg_cong [of _ _ length])
    ultimately show ?thesis using assms by (auto simp: filled_def take_claim_def)
  qed
qed

lemma fold_take_claim_filled: "filled b ms st \<Longrightarrow> filled b (ms @ cs) (fold (take_claim b) cs st)"
proof (induction cs arbitrary: ms st)
  case (Cons c cs)
  from Cons.IH [OF take_claim_filled [OF Cons.prems]] show ?case by simp
qed simp

section \<open>Recall over the port\<close>

fun visit_order :: "'a list \<Rightarrow> 'a list \<Rightarrow> 'a list" where
  "visit_order seen [] = []"
| "visit_order seen (s # ss) = (if s \<in> set seen then visit_order seen ss else s # visit_order (seen @ [s]) ss)"

lemma visit_order: "set (visit_order seen ss) = set ss - set seen" "distinct (visit_order seen ss)"
proof -
  have set: "set (visit_order seen ss) = set ss - set seen" for seen ss :: "'a list"
    by (induction ss arbitrary: seen) auto
  then show "set (visit_order seen ss) = set ss - set seen" .
  show "distinct (visit_order seen ss)"
  proof (induction ss arbitrary: seen)
    case (Cons s ss)
    show ?case using Cons set [of "seen @ [s]" ss] by simp
  qed simp
qed

lemma visited_take_claim [simp]: "visited (fold (take_claim b) cs st) = visited st"
  by (induction cs arbitrary: st) (simp_all add: take_claim_def Let_def)

lemma recall_subjects_fold:
  assumes "try_fold (recall_subject sv m q b) ss st = Ok st'" and "filled b ms st"
  shows "\<exists>vss. list_all2 (\<lambda>s vs. sv m s = Ok vs) (visit_order (visited st) ss) vss
    \<and> filled b (ms @ concat (map (matches q) vss)) st'"
  using assms
proof (induction ss arbitrary: st ms)
  case (Cons s ss)
  then obtain st1 where st1: "recall_subject sv m q b s st = Ok st1" "try_fold (recall_subject sv m q b) ss st1 = Ok st'"
    by (auto simp: res_simps)
  show ?case
  proof (cases "s \<in> set (visited st)")
    case True
    then have "st1 = st" using st1(1) by (simp add: recall_subject_def)
    with Cons.IH [OF st1(2)] Cons.prems(2) True show ?thesis by simp
  next
    case False
    let ?st = "st\<lparr>visited := visited st @ [s]\<rparr>"
    from st1(1) False obtain vs where vs: "sv m s = Ok vs" "st1 = fold (take_claim b) (matches q vs) ?st"
      by (auto simp: recall_subject_def recall_groups_match res_simps)
    have "filled b ms ?st" using Cons.prems(2) by (simp only: filled_visited)
    from Cons.IH [OF st1(2), of "ms @ matches q vs"] fold_take_claim_filled [OF this, of "matches q vs"]
    obtain vss where "list_all2 (\<lambda>s vs. sv m s = Ok vs) (visit_order (visited st1) ss) vss"
      "filled b (ms @ matches q vs @ concat (map (matches q) vss)) st'"
      by (auto simp: vs(2))
    with False vs show ?thesis by (intro exI [of _ "vs # vss"]) simp
  qed
qed simp

text \<open>The claims a query asks for.\<close>

definition asked :: "claim set \<Rightarrow> recall_query \<Rightarrow> claim set" where
  "asked S q = {c. subject c \<in> set (rq_subjects q) \<and> wanted q (predicate c)
     \<and> in_force (claim_versions S (subject c) (predicate c)) (rq_as_of q) c}"

definition recall_answers :: "claim set \<Rightarrow> recall_query \<Rightarrow> nat \<Rightarrow> recall_set \<Rightarrow> claim list \<Rightarrow> bool" where
  "recall_answers S q b r ms \<longleftrightarrow> distinct ms \<and> set ms = asked S q
     \<and> subseq (rs_claims r) ms \<and> (rs_truncated r \<longleftrightarrow> rs_claims r \<noteq> ms) \<and> (rs_claims r = [] \<longleftrightarrow> ms = [])
     \<and> rs_token_estimate r = (\<Sum>c\<leftarrow>rs_claims r. estimate_claim_tokens c)
     \<and> (rs_token_estimate r \<le> b \<or> length (rs_claims r) = 1)
     \<and> (\<forall>c\<in>set ms. c \<in> set (rs_claims r) \<or> b < rs_token_estimate r + estimate_claim_tokens c)
     \<and> rs_digest r = recall_digest (rs_claims r)"

lemma filled_answers:
  assumes "filled b ms st" and "distinct ms" and "set ms = asked S q"
  shows "recall_answers S q b \<lparr>rs_claims = included st, rs_digest = recall_digest (included st),
      rs_token_estimate = spent st, rs_truncated = truncated st\<rparr> ms"
  using assms unfolding filled_def recall_answers_def by (elim conjE, intro conjI) simp_all

lemma matches_asked:
  assumes sorted: "sorted_wrt grouped_newer vs" and set: "set vs = {c \<in> S. subject c = s}"
  shows "set (matches q vs) = {c. subject c = s \<and> wanted q (predicate c)
      \<and> in_force (claim_versions S (subject c) (predicate c)) (rq_as_of q) c}"
proof -
  have sub: "{d \<in> set vs. predicate d = predicate c} = claim_versions S s (predicate c)" for c
    unfolding set claim_versions_def by auto
  have "in_force (claim_versions S s p) t c \<Longrightarrow> subject c = s" for c p t
    by (simp add: in_force_def latest_correction_def claim_versions_def)
  then show ?thesis unfolding matches_spec(1) [OF sorted] sub by auto
qed

context claim_source
begin

lemma recall_spec:
  assumes wf: "wf m" and id: "\<forall>s\<in>set (rq_subjects q). ident_ok s" and ok: "recall subject_versions m q b = Ok r"
  shows "\<exists>ms. recall_answers (contents m) q b r ms"
proof -
  let ?st = "\<lparr>included = [], spent = 0, truncated = False, visited = []\<rparr>"
  let ?ss = "visit_order [] (rq_subjects q)"
  from ok obtain st where st: "try_fold (recall_subject subject_versions m q b) (rq_subjects q) ?st = Ok st"
    and r: "r = \<lparr>rs_claims = included st, rs_digest = recall_digest (included st), rs_token_estimate = spent st, rs_truncated = truncated st\<rparr>"
    by (auto simp: recall_def res_simps)
  have "filled b [] ?st" by (simp add: filled_def)
  from recall_subjects_fold [OF st this] obtain vss
    where vss: "list_all2 (\<lambda>s vs. subject_versions m s = Ok vs) ?ss vss" and filled: "filled b (concat (map (matches q) vss)) st"
    by auto
  have len: "length ?ss = length vss" using vss by (rule list_all2_lengthD)
  define ps where "ps = zip ?ss vss"
  have ms: "concat (map (matches q) vss) = concat (map (\<lambda>x. matches q (snd x)) ps)" and fst: "map fst ps = ?ss"
    using len by (simp_all add: ps_def map_snd_zip flip: map_map [unfolded comp_def, of "matches q" snd])
  have pair: "sorted_wrt grouped_newer (snd x)" "set (snd x) = {c \<in> contents m. subject c = fst x}" if "x \<in> set ps" for x
  proof -
    have "fst x \<in> set (map fst ps)" using that by simp
    then have "fst x \<in> set ?ss" unfolding fst .
    then have "ident_ok (fst x)" using id visit_order(1) [of "[]" "rq_subjects q"] by simp
    moreover have "subject_versions m (fst x) = Ok (snd x)"
      using vss that by (auto simp: ps_def list_all2_iff)
    ultimately show "sorted_wrt grouped_newer (snd x)" "set (snd x) = {c \<in> contents m. subject c = fst x}"
      using subject_sorted subject_set wf by blast+
  qed
  have match: "set (matches q (snd x)) = {c. subject c = fst x \<and> wanted q (predicate c)
      \<and> in_force (claim_versions (contents m) (subject c) (predicate c)) (rq_as_of q) c}" if "x \<in> set ps" for x
    using matches_asked [OF pair [OF that]] .
  have "distinct (concat (map (\<lambda>x. matches q (snd x)) ps))"
  proof (rule distinct_concat_keys)
    show "distinct (map fst ps)" unfolding fst by (rule visit_order(2))
    show "distinct (matches q (snd x))" if "x \<in> set ps" for x using matches_spec(2) [OF pair(1) [OF that]] .
    show "subject c = fst x" if "x \<in> set ps" "c \<in> set (matches q (snd x))" for x c using match that by simp
  qed
  moreover have "set (concat (map (\<lambda>x. matches q (snd x)) ps)) = asked (contents m) q"
  proof -
    have "fst ` set ps = set (rq_subjects q)"
      using arg_cong [OF fst, of set] visit_order(1) [of "[]" "rq_subjects q"] by simp
    then have "asked (contents m) q = (\<Union>x\<in>set ps. {c. subject c = fst x \<and> wanted q (predicate c)
        \<and> in_force (claim_versions (contents m) (subject c) (predicate c)) (rq_as_of q) c})"
      unfolding asked_def by blast
    also have "\<dots> = (\<Union>x\<in>set ps. set (matches q (snd x)))" by (intro SUP_cong refl match [symmetric])
    finally show ?thesis by simp
  qed
  ultimately show ?thesis
    using filled_answers [OF filled, unfolded ms] unfolding r by blast
qed

end

context total_claim_source
begin

lemma recall_total:
  assumes wf: "wf m" and id: "\<forall>s\<in>set (rq_subjects q). ident_ok s"
  obtains r ms where "recall subject_versions m q b = Ok r" "recall_answers (contents m) q b r ms"
proof -
  have "is_ok (try_fold (recall_subject subject_versions m q b) ss st)" if "\<forall>s\<in>set ss. ident_ok s" for ss st
    using that
  proof (induction ss arbitrary: st)
    case (Cons s ss)
    obtain vs where "subject_versions m s = Ok vs" using subject_total [OF wf, of s] Cons.prems by (auto simp: is_ok_iff)
    then have "\<exists>st1. recall_subject subject_versions m q b s st = Ok st1" by (simp add: recall_subject_def)
    with Cons show ?case by auto
  qed simp
  from this [OF id, of "\<lparr>included = [], spent = 0, truncated = False, visited = []\<rparr>"] have "\<exists>r. recall subject_versions m q b = Ok r" by (auto simp: recall_def is_ok_iff)
  then show thesis using recall_spec [OF wf id] that by blast
qed

end

section \<open>Properties\<close>



text \<open>Content identity.\<close>

definition recall_sized :: "claim list \<Rightarrow> bool" where
  "recall_sized cs \<longleftrightarrow> length cs < 2 ^ 64 \<and> list_all (\<lambda>c. claim_sized c \<and> text_sized (canonical_bytes c)) cs"

lemma recall_digest_fields:
  "recall_digest_bytes cs = ascii ''vyrm-recall-v1'' @ [0] @ u64_to_be_bytes (word_of_nat (length cs))
    @ concat (map (\<lambda>c. text_field (canonical_bytes c)) cs)"
  by (simp add: recall_digest_bytes_def text_field_def Let_def)

lemma canonical_fields_inj:
  assumes "length cs = length ds" and "list_all (\<lambda>c. claim_sized c \<and> text_sized (canonical_bytes c)) cs"
    and "list_all (\<lambda>c. claim_sized c \<and> text_sized (canonical_bytes c)) ds"
    and "concat (map (\<lambda>c. text_field (canonical_bytes c)) cs) = concat (map (\<lambda>c. text_field (canonical_bytes c)) ds)"
  shows "cs = ds"
  using assms
proof (induction cs ds rule: list_induct2)
  case (Cons c cs d ds)
  have "canonical_bytes c = canonical_bytes d
      \<and> concat (map (\<lambda>c. text_field (canonical_bytes c)) cs) = concat (map (\<lambda>c. text_field (canonical_bytes c)) ds)"
    using Cons.prems by (simp add: delimitedD [OF delimited_text])
  with Cons canonical_bytes_inj show ?case by simp
qed simp

lemma recall_digest_bytes_inj:
  assumes "recall_sized cs" and "recall_sized ds"
  shows "recall_digest_bytes cs = recall_digest_bytes ds \<longleftrightarrow> cs = ds"
proof
  assume eq: "recall_digest_bytes cs = recall_digest_bytes ds"
  then have "(word_of_nat (length cs) :: u64) = word_of_nat (length ds)"
    and f: "concat (map (\<lambda>c. text_field (canonical_bytes c)) cs) = concat (map (\<lambda>c. text_field (canonical_bytes c)) ds)"
    by (simp_all add: recall_digest_fields int_field_inj)
  then have "length cs = length ds" using assms unat_u64_of_nat unfolding recall_sized_def by metis
  from canonical_fields_inj [OF this _ _ f] show "cs = ds" using assms by (simp add: recall_sized_def)
qed simp

text \<open>Two recalls with the same digest carry the same claims, field by field and in the same order, unless
  SHA-256 collides: the bytes hashed determine the list of claims, as the canonical bytes determine one claim.\<close>

lemma recall_digest_identity:
  assumes "recall_sized cs" and "recall_sized ds"
  shows "(recall_digest cs = recall_digest ds \<longrightarrow> cs = ds
      \<or> recall_digest_bytes cs \<noteq> recall_digest_bytes ds
        \<and> sha256_hex (recall_digest_bytes cs) = sha256_hex (recall_digest_bytes ds))
    \<and> (recall_digest_bytes cs = recall_digest_bytes ds \<longleftrightarrow> cs = ds)"
  using recall_digest_bytes_inj [OF assms] by (auto simp: recall_digest_def)

end
