(* ===== verification/Hash_Chain.thy ===== *)
theory Hash_Chain
  imports Digest
begin

text \<open>
  Hash-chained ledgers: every entry carries the digest of the entry before it and its own digest over bytes that
  include it. The locale states what a ledger's encoding promises; its lemma is that the last digest commits to
  the whole ledger. Reasoning runs and the runtime change log are the instances.
\<close>

definition sha256_collision :: "bytes \<Rightarrow> bytes \<Rightarrow> bool" where
  "sha256_collision a b \<longleftrightarrow> a \<noteq> b \<and> sha256_hex a = sha256_hex b"

fun chained :: "('e \<Rightarrow> bytes) \<Rightarrow> ('e \<Rightarrow> bytes option) \<Rightarrow> ('e \<Rightarrow> bytes) \<Rightarrow> bytes option \<Rightarrow> 'e list \<Rightarrow> bool" where
  "chained preimage prev dig p [] \<longleftrightarrow> True"
| "chained preimage prev dig p (e # es) \<longleftrightarrow>
     prev e = p \<and> dig e = sha256_hex (preimage e) \<and> chained preimage prev dig (Some (dig e)) es"

definition last_digest :: "('e \<Rightarrow> bytes) \<Rightarrow> bytes option \<Rightarrow> 'e list \<Rightarrow> bytes option" where
  "last_digest dig p es = (if es = [] then p else Some (dig (last es)))"

lemma last_digest_simps [simp]:
  "last_digest dig p [] = p"
  "last_digest dig p (es @ [e]) = Some (dig e)"
  by (simp_all add: last_digest_def)

lemma chained_snoc:
  "chained preimage prev dig p (es @ [e]) \<longleftrightarrow>
    chained preimage prev dig p es \<and> prev e = last_digest dig p es \<and> dig e = sha256_hex (preimage e)"
  by (induction es arbitrary: p) (auto simp: last_digest_def)

locale hash_chain =
  fixes preimage :: "'e \<Rightarrow> bytes"
    and prev :: "'e \<Rightarrow> bytes option"
    and dig :: "'e \<Rightarrow> bytes"
    and ok :: "'e \<Rightarrow> bool"
  assumes preimage_inj: "\<lbrakk>ok a; ok b; preimage a = preimage b; dig a = dig b\<rbrakk> \<Longrightarrow> a = b"
begin

lemma last_digest_commits:
  assumes "chained preimage prev dig None es" and "chained preimage prev dig None ds"
    and "list_all ok es" and "list_all ok ds" and "last_digest dig None es = last_digest dig None ds"
  shows "es = ds \<or> (\<exists>a\<in>set es. \<exists>b\<in>set ds. sha256_collision (preimage a) (preimage b))"
  using assms
proof (induction es arbitrary: ds rule: rev_induct)
  case Nil
  then show ?case by (cases ds rule: rev_cases) simp_all
next
  case (snoc e es)
  then obtain ds' d where ds: "ds = ds' @ [d]" by (cases ds rule: rev_cases) simp_all
  have dig: "dig e = dig d" "dig e = sha256_hex (preimage e)" "dig d = sha256_hex (preimage d)"
    using snoc.prems unfolding ds by (simp_all add: chained_snoc)
  show ?case
  proof (cases "preimage e = preimage d")
    case True
    then have same: "e = d" using preimage_inj snoc.prems dig unfolding ds by simp
    have "es = ds' \<or> (\<exists>a\<in>set es. \<exists>b\<in>set ds'. sha256_collision (preimage a) (preimage b))"
      using snoc.prems unfolding ds by (intro snoc.IH) (simp_all add: chained_snoc same)
    then show ?thesis unfolding ds by (auto simp: same)
  next
    case False
    then have "sha256_collision (preimage e) (preimage d)" using dig by (simp add: sha256_collision_def)
    then show ?thesis unfolding ds by auto
  qed
qed

end

end
