(* ===== verification/Reasoning.thy ===== *)
theory Reasoning
  imports Claim Hash_Chain
begin

text \<open>
  Reasoning runs (\<^verbatim>\<open>crates/vyrm-core/src/reasoning.rs\<close>): an append-only, hash-chained ledger of goal, plan,
  attempts, observations, decisions, verification and outcome, driven by a state machine and rebuilt by replay.
\<close>

section \<open>Data\<close>

record evidence =
  ev_source :: bytes
  ev_digest :: bytes
  ev_summary :: bytes

datatype check_status = Passed | Failed

record check =
  ck_name :: bytes
  ck_status :: check_status
  ck_evidence :: "evidence list"

datatype decision_kind = Continue | Verify | Stop

datatype run_outcome = OutcomeSucceeded | OutcomeFailed | OutcomeBlocked

datatype reasoning_payload =
    Goal (statement: bytes) (acceptance: "bytes list")
  | Plan (hypothesis: bytes) (steps: "bytes list")
  | Attempt (attempt_summary: bytes) (actions: "bytes list")
  | Observation (observation_summary: bytes) (observed: "evidence list")
  | Decision (decision: decision_kind) (rationale: bytes)
  | Verification (checks: "check list")
  | Outcome (outcome: run_outcome) (outcome_summary: bytes)

fun payload_name :: "reasoning_payload \<Rightarrow> string" where
  "payload_name (Goal _ _) = ''goal''"
| "payload_name (Plan _ _) = ''plan''"
| "payload_name (Attempt _ _) = ''attempt''"
| "payload_name (Observation _ _) = ''observation''"
| "payload_name (Decision _ _) = ''decision''"
| "payload_name (Verification _) = ''verification''"
| "payload_name (Outcome _ _) = ''outcome''"

record reasoning_event =
  re_run_id :: bytes
  re_ordinal :: u64
  re_at :: millis
  re_actor :: bytes
  re_payload :: reasoning_payload
  re_previous_digest :: "bytes option"
  re_digest :: bytes

datatype reasoning_state =
    Empty
  | NeedsPlan
  | NeedsAttempt
  | NeedsObservation
  | NeedsDecision
  | NeedsVerification
  | NeedsPostVerificationDecision
  | NeedsOutcome
  | Complete

fun state_debug :: "reasoning_state \<Rightarrow> string" where
  "state_debug Empty = ''Empty''"
| "state_debug NeedsPlan = ''NeedsPlan''"
| "state_debug NeedsAttempt = ''NeedsAttempt''"
| "state_debug NeedsObservation = ''NeedsObservation''"
| "state_debug NeedsDecision = ''NeedsDecision''"
| "state_debug NeedsVerification = ''NeedsVerification''"
| "state_debug NeedsPostVerificationDecision = ''NeedsPostVerificationDecision''"
| "state_debug NeedsOutcome = ''NeedsOutcome''"
| "state_debug Complete = ''Complete''"

datatype contract_error = ContractError bytes

type_synonym 'a contract_result = "contract_error + 'a"

record reasoning_run =
  rr_id :: bytes
  rr_events :: "reasoning_event list"
  rr_state :: reasoning_state
  rr_last_verification_passed :: "bool option"

section \<open>Validation\<close>

definition validate_text :: "string \<Rightarrow> bytes \<Rightarrow> unit contract_result" where
  "validate_text field val =
     (if all_whitespace val then Err (ContractError (ascii (field @ '' must not be empty''))) else Ok ())"

definition validate_evidence :: "evidence \<Rightarrow> unit contract_result" where
  "validate_evidence e =
     rbind (validate_text ''evidence.source'' (ev_source e)) (\<lambda>_.
     rbind (validate_text ''evidence.summary'' (ev_summary e)) (\<lambda>_.
     if length (ev_digest e) \<noteq> 64 \<or> \<not> list_all is_ascii_hexdigit (ev_digest e)
     then Err (ContractError (ascii ''evidence.digest must be a SHA-256 hex digest''))
     else Ok ()))"

definition validate_each :: "('a \<Rightarrow> unit contract_result) \<Rightarrow> 'a list \<Rightarrow> unit contract_result" where
  "validate_each f xs = try_fold (\<lambda>x _. f x) xs ()"

definition validate_check :: "check \<Rightarrow> unit contract_result" where
  "validate_check c =
     rbind (validate_text ''verification.check.name'' (ck_name c)) (\<lambda>_.
     if ck_evidence c = []
     then Err (ContractError (ascii ''every verification check must cite content-addressed evidence''))
     else validate_each validate_evidence (ck_evidence c))"

fun validate_payload :: "reasoning_payload \<Rightarrow> unit contract_result" where
  "validate_payload (Goal st acc) =
     rbind (validate_text ''goal.statement'' st) (\<lambda>_.
     if acc = [] then Err (ContractError (ascii ''goal.acceptance must not be empty''))
     else validate_each (validate_text ''goal.acceptance'') acc)"
| "validate_payload (Plan hyp sts) =
     rbind (validate_text ''plan.hypothesis'' hyp) (\<lambda>_.
     if sts = [] then Err (ContractError (ascii ''plan.steps must not be empty''))
     else validate_each (validate_text ''plan.steps'') sts)"
| "validate_payload (Attempt summary acts) =
     rbind (validate_text ''attempt.summary'' summary) (\<lambda>_.
     validate_each (validate_text ''attempt.actions'') acts)"
| "validate_payload (Observation summary evs) =
     rbind (validate_text ''observation.summary'' summary) (\<lambda>_.
     if evs = [] then Err (ContractError (ascii ''observation.evidence must not be empty''))
     else validate_each validate_evidence evs)"
| "validate_payload (Decision _ why) = validate_text ''decision.rationale'' why"
| "validate_payload (Verification cs) =
     (if cs = [] then Err (ContractError (ascii ''verification.checks must not be empty''))
      else validate_each validate_check cs)"
| "validate_payload (Outcome _ summary) = validate_text ''outcome.summary'' summary"

section \<open>The state machine\<close>

definition all_passed :: "check list \<Rightarrow> bool" where
  "all_passed cs \<longleftrightarrow> list_all (\<lambda>c. ck_status c = Passed) cs"

fun outcome_agrees :: "bool option \<Rightarrow> run_outcome \<Rightarrow> bool" where
  "outcome_agrees (Some True) OutcomeSucceeded = True"
| "outcome_agrees (Some False) OutcomeFailed = True"
| "outcome_agrees (Some False) OutcomeBlocked = True"
| "outcome_agrees (Some True) OutcomeFailed = True"
| "outcome_agrees (Some True) OutcomeBlocked = True"
| "outcome_agrees _ _ = False"

definition invalid_event :: "reasoning_payload \<Rightarrow> reasoning_state \<Rightarrow> contract_error" where
  "invalid_event payload st =
     ContractError (ascii (payload_name payload @ '' is invalid while reasoning run is '' @ state_debug st))"

definition transition :: "reasoning_state \<Rightarrow> bool option \<Rightarrow> reasoning_payload \<Rightarrow> reasoning_state contract_result" where
  "transition st last_verification_passed payload =
     (case (st, payload) of
        (Empty, Goal _ _) \<Rightarrow> Ok NeedsPlan
      | (NeedsPlan, Plan _ _) \<Rightarrow> Ok NeedsAttempt
      | (NeedsAttempt, Attempt _ _) \<Rightarrow> Ok NeedsObservation
      | (NeedsObservation, Observation _ _) \<Rightarrow> Ok NeedsDecision
      | (NeedsDecision, Decision Continue _) \<Rightarrow> Ok NeedsAttempt
      | (NeedsDecision, Decision Verify _) \<Rightarrow> Ok NeedsVerification
      | (NeedsDecision, Decision Stop _) \<Rightarrow> Ok NeedsVerification
      | (NeedsVerification, Verification cs) \<Rightarrow>
          Ok (if all_passed cs then NeedsOutcome else NeedsPostVerificationDecision)
      | (NeedsPostVerificationDecision, Decision Continue _) \<Rightarrow> Ok NeedsAttempt
      | (NeedsPostVerificationDecision, Decision Stop _) \<Rightarrow> Ok NeedsOutcome
      | (NeedsOutcome, Outcome out _) \<Rightarrow>
          (if outcome_agrees last_verification_passed out then Ok Complete
           else Err (ContractError (ascii ''outcome contradicts verification evidence'')))
      | _ \<Rightarrow> Err (invalid_event payload st))"

section \<open>Event digests\<close>

fun check_status_byte :: "check_status \<Rightarrow> u8" where
  "check_status_byte Passed = 0"
| "check_status_byte Failed = 1"

fun decision_byte :: "decision_kind \<Rightarrow> u8" where
  "decision_byte Continue = 0"
| "decision_byte Verify = 1"
| "decision_byte Stop = 2"

fun outcome_byte :: "run_outcome \<Rightarrow> u8" where
  "outcome_byte OutcomeSucceeded = 0"
| "outcome_byte OutcomeFailed = 1"
| "outcome_byte OutcomeBlocked = 2"

definition strings_field :: "bytes list \<Rightarrow> bytes" where
  "strings_field = counted text_field"

definition evidence_bytes :: "evidence \<Rightarrow> bytes" where
  "evidence_bytes e = text_field (ev_source e) @ text_field (ev_digest e) @ text_field (ev_summary e)"

definition evidence_field :: "evidence list \<Rightarrow> bytes" where
  "evidence_field = counted evidence_bytes"

definition check_bytes :: "check \<Rightarrow> bytes" where
  "check_bytes c = text_field (ck_name c) @ [check_status_byte (ck_status c)] @ evidence_field (ck_evidence c)"

fun payload_bytes :: "reasoning_payload \<Rightarrow> bytes" where
  "payload_bytes (Goal st acc) = [0] @ text_field st @ strings_field acc"
| "payload_bytes (Plan hyp sts) = [1] @ text_field hyp @ strings_field sts"
| "payload_bytes (Attempt summary acts) = [2] @ text_field summary @ strings_field acts"
| "payload_bytes (Observation summary evs) = [3] @ text_field summary @ evidence_field evs"
| "payload_bytes (Decision d why) = [4] @ [decision_byte d] @ text_field why"
| "payload_bytes (Verification cs) = [5] @ counted check_bytes cs"
| "payload_bytes (Outcome out summary) = [6] @ [outcome_byte out] @ text_field summary"

definition event_bytes :: "bytes \<Rightarrow> u64 \<Rightarrow> millis \<Rightarrow> bytes \<Rightarrow> reasoning_payload \<Rightarrow> bytes option \<Rightarrow> bytes" where
  "event_bytes run_id ordinal at who payload previous =
     ascii ''vyrm-reasoning-event-v1'' @ [0] @ text_field run_id @ u64_to_be_bytes ordinal @ u64_to_be_bytes at
     @ text_field who @ payload_bytes payload @ optional_text previous"

definition event_digest :: "bytes \<Rightarrow> u64 \<Rightarrow> millis \<Rightarrow> bytes \<Rightarrow> reasoning_payload \<Rightarrow> bytes option \<Rightarrow> bytes" where
  "event_digest run_id ordinal at who payload previous = sha256_hex (event_bytes run_id ordinal at who payload previous)"

section \<open>Runs\<close>

definition run_empty :: "bytes \<Rightarrow> reasoning_run contract_result" where
  "run_empty run_id =
     rbind (validate_text ''run_id'' run_id) (\<lambda>_.
     if 0 \<in> set run_id then Err (ContractError (ascii ''run_id must not contain NUL''))
     else Ok \<lparr>rr_id = run_id, rr_events = [], rr_state = Empty, rr_last_verification_passed = None\<rparr>)"

definition verification_result :: "reasoning_payload \<Rightarrow> bool option \<Rightarrow> bool option" where
  "verification_result payload prev = (case payload of Verification cs \<Rightarrow> Some (all_passed cs) | _ \<Rightarrow> prev)"

definition run_append ::
    "millis \<Rightarrow> bytes \<Rightarrow> reasoning_payload \<Rightarrow> reasoning_run \<Rightarrow> (reasoning_event \<times> reasoning_run) contract_result" where
  "run_append at who payload run =
     rbind (validate_text ''actor'' who) (\<lambda>_.
     if rr_events run \<noteq> [] \<and> at < re_at (last (rr_events run))
     then Err (ContractError (ascii ''reasoning event time must be monotonic''))
     else
     rbind (validate_payload payload) (\<lambda>_.
     rbind (transition (rr_state run) (rr_last_verification_passed run) payload) (\<lambda>next_state.
     let ordinal = word_of_nat (length (rr_events run)) + 1;
         previous_digest = (if rr_events run = [] then None else Some (re_digest (last (rr_events run))));
         event = \<lparr>re_run_id = rr_id run, re_ordinal = ordinal, re_at = at, re_actor = who, re_payload = payload,
                  re_previous_digest = previous_digest,
                  re_digest = event_digest (rr_id run) ordinal at who payload previous_digest\<rparr> in
     Ok (event, run\<lparr>rr_last_verification_passed := verification_result payload (rr_last_verification_passed run),
                    rr_state := next_state, rr_events := rr_events run @ [event]\<rparr>))))"

definition replay_step :: "reasoning_event \<Rightarrow> reasoning_run \<Rightarrow> reasoning_run contract_result" where
  "replay_step stored run =
     rbind (run_append (re_at stored) (re_actor stored) (re_payload stored) run) (\<lambda>(expected, run').
     if expected \<noteq> stored
     then Err (ContractError (ascii ''reasoning event '' @ decimal (unat (re_ordinal stored))
            @ ascii '' failed hash-chain or ordinal verification''))
     else Ok run')"

definition run_replay :: "reasoning_event list \<Rightarrow> reasoning_run contract_result" where
  "run_replay events =
     (case events of
        [] \<Rightarrow> Err (ContractError (ascii ''cannot replay an empty reasoning run''))
      | first # _ \<Rightarrow>
          rbind (run_empty (re_run_id first)) (\<lambda>run. try_fold replay_step events run))"

definition is_complete :: "reasoning_run \<Rightarrow> bool" where
  "is_complete run \<longleftrightarrow> rr_state run = Complete"

section \<open>Reachable runs\<close>

inductive run_reaches :: "reasoning_run \<Rightarrow> bool" where
  started: "run_empty i = Ok r \<Longrightarrow> run_reaches r"
| appended: "run_reaches r \<Longrightarrow> run_append at who p r = Ok (e, r') \<Longrightarrow> run_reaches r'"

definition event_preimage :: "reasoning_event \<Rightarrow> bytes" where
  "event_preimage e = event_bytes (re_run_id e) (re_ordinal e) (re_at e) (re_actor e) (re_payload e) (re_previous_digest e)"

abbreviation run_chained :: "reasoning_event list \<Rightarrow> bool" where
  "run_chained \<equiv> chained event_preimage re_previous_digest re_digest None"

lemma run_empty_ok:
  "run_empty i = Ok r \<longleftrightarrow> validate_text ''run_id'' i = Ok () \<and> 0 \<notin> set i
    \<and> r = \<lparr>rr_id = i, rr_events = [], rr_state = Empty, rr_last_verification_passed = None\<rparr>"
  by (auto simp: run_empty_def res_simps)

lemma run_append_ok:
  "run_append at who p r = Ok (e, r') \<longleftrightarrow>
    validate_text ''actor'' who = Ok () \<and> (rr_events r \<noteq> [] \<longrightarrow> re_at (last (rr_events r)) \<le> at)
    \<and> validate_payload p = Ok () \<and> transition (rr_state r) (rr_last_verification_passed r) p = Ok (rr_state r')
    \<and> re_run_id e = rr_id r \<and> re_ordinal e = word_of_nat (length (rr_events r)) + 1 \<and> re_at e = at \<and> re_actor e = who
    \<and> re_payload e = p \<and> re_previous_digest e = last_digest re_digest None (rr_events r)
    \<and> re_digest e = sha256_hex (event_preimage e)
    \<and> rr_id r' = rr_id r \<and> rr_events r' = rr_events r @ [e]
    \<and> rr_last_verification_passed r' = verification_result p (rr_last_verification_passed r)"
  (is "?L \<longleftrightarrow> ?R")
proof
  assume ?L
  then show ?R
    by (auto simp: run_append_def res_simps Let_def event_digest_def event_preimage_def last_digest_def not_less
        split: if_splits)
next
  assume ?R
  then show ?L
    by (cases e, cases r')
      (auto simp: run_append_def res_simps Let_def event_digest_def event_preimage_def last_digest_def not_less
        intro!: reasoning_run.equality)
qed

lemma run_append_deterministic:
  assumes "run_append at who p r = Ok (e, r')"
  shows "replay_step e r = Ok r'"
proof -
  have "re_at e = at" "re_actor e = who" "re_payload e = p" using assms by (simp_all add: run_append_ok)
  with assms show ?thesis by (simp add: replay_step_def)
qed

lemma replay_step_ok: "replay_step e r = Ok r' \<longleftrightarrow> run_append (re_at e) (re_actor e) (re_payload e) r = Ok (e, r')"
  by (auto simp: replay_step_def res_simps split: if_splits)

lemma replay_sound:
  "try_fold replay_step es r = Ok r' \<Longrightarrow> run_reaches r \<Longrightarrow> run_reaches r' \<and> rr_events r' = rr_events r @ es"
proof (induction es arbitrary: r)
  case (Cons e es)
  then obtain r1 where r1: "replay_step e r = Ok r1" "try_fold replay_step es r1 = Ok r'" by (auto simp: res_simps)
  then have ap: "run_append (re_at e) (re_actor e) (re_payload e) r = Ok (e, r1)" by (simp add: replay_step_ok)
  then have "rr_events r1 = rr_events r @ [e]" by (simp add: run_append_ok)
  with Cons.IH [OF r1(2) appended [OF Cons.prems(2) ap]] show ?case by simp
qed simp

text \<open>What holds of every reachable run.\<close>

definition last_verification :: "reasoning_event list \<Rightarrow> bool option" where
  "last_verification es =
     (let ps = filter is_Verification (map re_payload es) in
      if ps = [] then None else Some (all_passed (checks (last ps))))"

definition ledger_wf :: "reasoning_run \<Rightarrow> bool" where
  "ledger_wf r \<longleftrightarrow> run_chained (rr_events r)
     \<and> (\<forall>i<length (rr_events r). re_ordinal (rr_events r ! i) = word_of_nat (i + 1))
     \<and> sorted (map re_at (rr_events r))
     \<and> list_all (\<lambda>e. re_run_id e = rr_id r \<and> validate_payload (re_payload e) = Ok ()) (rr_events r)
     \<and> run_empty (rr_id r) = Ok \<lparr>rr_id = rr_id r, rr_events = [], rr_state = Empty, rr_last_verification_passed = None\<rparr>
     \<and> rr_last_verification_passed r = last_verification (rr_events r)"

lemma last_verification_snoc: "last_verification (es @ [e]) = verification_result (re_payload e) (last_verification es)"
  by (cases "re_payload e") (simp_all add: last_verification_def verification_result_def Let_def)

lemma run_reaches_wf: "run_reaches r \<Longrightarrow> ledger_wf r"
proof (induction rule: run_reaches.induct)
  case (started i r)
  then show ?case by (auto simp: ledger_wf_def run_empty_ok last_verification_def)
next
  case (appended r at who p e r')
  then have w: "ledger_wf r" and ok: "run_append at who p r = Ok (e, r')" by simp_all
  note a = ok [unfolded run_append_ok]
  have times: "sorted (map re_at (rr_events r'))"
  proof -
    have "x \<le> at" if x: "x \<in> set (map re_at (rr_events r))" for x
    proof -
      have "sorted (map re_at (rr_events r))" using w by (simp add: ledger_wf_def)
      from sorted_le_last [OF this x] have "x \<le> re_at (last (rr_events r))" using x by (cases "rr_events r") (auto simp: last_map)
      also have "\<dots> \<le> at" using a x by auto
      finally show ?thesis .
    qed
    then show ?thesis using a w by (simp add: sorted_append ledger_wf_def)
  qed
  show ?case
    using a w times unfolding ledger_wf_def
    by (auto simp: chained_snoc last_verification_snoc nth_append less_Suc_eq)
qed

lemma replay_complete:
  "run_reaches r \<Longrightarrow> \<exists>r0. run_empty (rr_id r) = Ok r0 \<and> try_fold replay_step (rr_events r) r0 = Ok r"
proof (induction rule: run_reaches.induct)
  case (started i r)
  then show ?case by (auto simp: run_empty_ok)
next
  case (appended r at who p e r')
  have "rr_events r' = rr_events r @ [e]" "rr_id r' = rr_id r" using appended(2) by (simp_all add: run_append_ok)
  with appended(3) run_append_deterministic [OF appended(2)] show ?case by auto
qed

lemma replay_iff: "run_replay es = Ok r \<longleftrightarrow> es \<noteq> [] \<and> run_reaches r \<and> rr_events r = es"
proof
  assume "run_replay es = Ok r"
  then obtain e es' r0 where es: "es = e # es'" and r0: "run_empty (re_run_id e) = Ok r0" "try_fold replay_step es r0 = Ok r"
    by (cases es) (auto simp: run_replay_def res_simps)
  have "rr_events r0 = []" using r0(1) by (simp add: run_empty_ok)
  with replay_sound [OF r0(2) started [OF r0(1)]] show "es \<noteq> [] \<and> run_reaches r \<and> rr_events r = es" by (simp add: es)
next
  assume r: "es \<noteq> [] \<and> run_reaches r \<and> rr_events r = es"
  then obtain e es' where es: "es = e # es'" by (cases es) auto
  have "re_run_id e = rr_id r" using run_reaches_wf [of r] r by (auto simp: ledger_wf_def es)
  with replay_complete [of r] r show "run_replay es = Ok r" by (auto simp: run_replay_def es)
qed

section \<open>Outcomes\<close>

definition outcome_supported :: "reasoning_run \<Rightarrow> bool" where
  "outcome_supported r \<longleftrightarrow>
     (rr_state r = NeedsOutcome \<longrightarrow> rr_last_verification_passed r \<noteq> None)
     \<and> (rr_state r = Empty \<longleftrightarrow> rr_events r = [])
     \<and> (is_complete r \<longrightarrow> (\<exists>es e out summary. rr_events r = es @ [e] \<and> re_payload e = Outcome out summary
          \<and> last_verification es \<noteq> None \<and> (out = OutcomeSucceeded \<longrightarrow> last_verification es = Some True)))"

lemma transition_ok:
  "transition st lv p = Ok st' \<longleftrightarrow>
    (st = Empty \<and> is_Goal p \<and> st' = NeedsPlan) \<or> (st = NeedsPlan \<and> is_Plan p \<and> st' = NeedsAttempt)
    \<or> (st = NeedsAttempt \<and> is_Attempt p \<and> st' = NeedsObservation)
    \<or> (st = NeedsObservation \<and> is_Observation p \<and> st' = NeedsDecision)
    \<or> (st = NeedsDecision \<and> is_Decision p \<and> st' = (if decision p = Continue then NeedsAttempt else NeedsVerification))
    \<or> (st = NeedsVerification \<and> is_Verification p
        \<and> st' = (if all_passed (checks p) then NeedsOutcome else NeedsPostVerificationDecision))
    \<or> (st = NeedsPostVerificationDecision \<and> is_Decision p \<and> decision p \<noteq> Verify
        \<and> st' = (if decision p = Continue then NeedsAttempt else NeedsOutcome))
    \<or> (st = NeedsOutcome \<and> is_Outcome p \<and> outcome_agrees lv (outcome p) \<and> st' = Complete)"
  by (cases st; cases p) (auto simp: transition_def split: decision_kind.split if_splits)

lemma outcome_agrees_iff: "outcome_agrees lv out \<longleftrightarrow> lv \<noteq> None \<and> (out = OutcomeSucceeded \<longrightarrow> lv = Some True)"
  by (cases "(lv, out)" rule: outcome_agrees.cases) auto

text \<open>A failed verification leads to an outcome only through a decision.\<close>

lemma verification_pending:
  "run_reaches r \<Longrightarrow> rr_state r \<in> {NeedsOutcome, NeedsPostVerificationDecision, Complete} \<longrightarrow> rr_last_verification_passed r \<noteq> None"
proof (induction rule: run_reaches.induct)
  case (started i r)
  then show ?case by (auto simp: run_empty_ok)
next
  case (appended r at who p e r')
  from appended(2) have t: "transition (rr_state r) (rr_last_verification_passed r) p = Ok (rr_state r')"
    and v: "rr_last_verification_passed r' = verification_result p (rr_last_verification_passed r)"
    by (simp_all add: run_append_ok)
  show ?case using t v appended(3) unfolding transition_ok by (cases p) (auto simp: verification_result_def split: if_splits)
qed

lemma run_reaches_outcome: "run_reaches r \<Longrightarrow> outcome_supported r"
proof (induction rule: run_reaches.induct)
  case (started i r)
  then show ?case by (auto simp: run_empty_ok outcome_supported_def is_complete_def)
next
  case (appended r at who p e r')
  note a = appended(2) [unfolded run_append_ok]
  have t: "transition (rr_state r) (rr_last_verification_passed r) p = Ok (rr_state r')" using a by simp
  have ev: "rr_events r' = rr_events r @ [e]" "re_payload e = p" using a by simp_all
  have lv: "last_verification (rr_events r) = rr_last_verification_passed r"
    using run_reaches_wf [OF appended(1)] by (simp add: ledger_wf_def)
  have "rr_state r' \<noteq> Empty" using t unfolding transition_ok by (auto split: if_splits)
  moreover have "rr_state r' = NeedsOutcome \<longrightarrow> rr_last_verification_passed r' \<noteq> None"
    using verification_pending [OF run_reaches.appended [OF appended(1,2)]] by simp
  moreover have "\<exists>es e out summary. rr_events r' = es @ [e] \<and> re_payload e = Outcome out summary
      \<and> last_verification es \<noteq> None \<and> (out = OutcomeSucceeded \<longrightarrow> last_verification es = Some True)"
    if "is_complete r'"
  proof -
    have "is_Outcome p" "outcome_agrees (rr_last_verification_passed r) (outcome p)"
      using t that unfolding transition_ok is_complete_def by (auto split: if_splits)
    then show ?thesis using ev lv unfolding outcome_agrees_iff by (cases p) auto
  qed
  ultimately show ?case using ev unfolding outcome_supported_def by simp
qed

section \<open>The ledger is a hash chain\<close>

definition evidence_sized :: "evidence \<Rightarrow> bool" where
  "evidence_sized e \<longleftrightarrow> text_sized (ev_source e) \<and> text_sized (ev_digest e) \<and> text_sized (ev_summary e)"

definition check_sized :: "check \<Rightarrow> bool" where
  "check_sized c \<longleftrightarrow> text_sized (ck_name c) \<and> sized_list evidence_sized (ck_evidence c)"

fun payload_sized :: "reasoning_payload \<Rightarrow> bool" where
  "payload_sized (Goal st acc) = (text_sized st \<and> sized_list text_sized acc)"
| "payload_sized (Plan hyp sts) = (text_sized hyp \<and> sized_list text_sized sts)"
| "payload_sized (Attempt summary acts) = (text_sized summary \<and> sized_list text_sized acts)"
| "payload_sized (Observation summary evs) = (text_sized summary \<and> sized_list evidence_sized evs)"
| "payload_sized (Decision d why) = text_sized why"
| "payload_sized (Verification cs) = sized_list check_sized cs"
| "payload_sized (Outcome out summary) = text_sized summary"

definition event_sized :: "reasoning_event \<Rightarrow> bool" where
  "event_sized e \<longleftrightarrow> text_sized (re_run_id e) \<and> text_sized (re_actor e) \<and> payload_sized (re_payload e)
     \<and> pred_option text_sized (re_previous_digest e)"

lemma delimited_strings: "delimited (sized_list text_sized) strings_field"
  unfolding strings_field_def by (rule delimited_counted [OF delimited_text])

lemma delimited_evidence: "delimited evidence_sized evidence_bytes"
  unfolding delimited_def evidence_bytes_def evidence_sized_def
  by (auto simp: delimitedD [OF delimited_text])

lemma delimited_evidence_field: "delimited (sized_list evidence_sized) evidence_field"
  unfolding evidence_field_def by (rule delimited_counted [OF delimited_evidence])

lemma check_status_byte_inj: "check_status_byte a = check_status_byte b \<longleftrightarrow> a = b"
  by (cases a; cases b) simp_all

lemma decision_byte_inj: "decision_byte a = decision_byte b \<longleftrightarrow> a = b"
  by (cases a; cases b) simp_all

lemma outcome_byte_inj: "outcome_byte a = outcome_byte b \<longleftrightarrow> a = b"
  by (cases a; cases b) simp_all

lemma delimited_check: "delimited check_sized check_bytes"
  unfolding delimited_def check_bytes_def check_sized_def
  by (auto simp: delimitedD [OF delimited_text] delimitedD [OF delimited_evidence_field] check_status_byte_inj)

lemmas payload_fields = delimitedD [OF delimited_text] delimitedD [OF delimited_strings]
  delimitedD [OF delimited_evidence_field] delimitedD [OF delimited_counted [OF delimited_check]] decision_byte_inj outcome_byte_inj

lemma delimited_payload: "delimited payload_sized payload_bytes"
  unfolding delimited_def
proof (intro allI impI)
  fix x y r r' assume "payload_sized x" "payload_sized y"
  then show "payload_bytes x @ r = payload_bytes y @ r' \<longleftrightarrow> x = y \<and> r = r'"
    by (cases x; cases y) (auto simp: payload_fields)
qed

lemma event_preimage_inj:
  assumes "event_sized a" and "event_sized b" and "event_preimage a = event_preimage b" and "re_digest a = re_digest b"
  shows "a = b"
  using assms unfolding event_sized_def event_preimage_def event_bytes_def
  by (intro reasoning_event.equality)
    (simp_all add: delimited_fields delimitedD [OF delimited_payload])

interpretation ledger: hash_chain event_preimage re_previous_digest re_digest event_sized
  by unfold_locales (rule event_preimage_inj)

section \<open>Every run can finish\<close>

type_synonym run_entry = "millis \<times> bytes \<times> reasoning_payload"

definition append_entry :: "run_entry \<Rightarrow> reasoning_run \<Rightarrow> reasoning_run contract_result" where
  "append_entry x r = (case x of (at, who, p) \<Rightarrow> rbind (run_append at who p r) (\<lambda>(e, r'). Ok r'))"

definition finishable :: "nat \<Rightarrow> reasoning_run \<Rightarrow> bool" where
  "finishable n r \<longleftrightarrow> (\<exists>script r'. length script = n \<and> try_fold append_entry script r = Ok r' \<and> is_complete r')"

definition some_text :: bytes where
  "some_text = ascii ''x''"

definition some_evidence :: evidence where
  "some_evidence = \<lparr>ev_source = some_text, ev_digest = replicate 64 48, ev_summary = some_text\<rparr>"

lemma some_text_valid [simp]: "validate_text f some_text = Ok ()"
  by (simp add: validate_text_def some_text_def ascii_def all_whitespace.simps)

lemma some_evidence_valid [simp]: "validate_evidence some_evidence = Ok ()"
  by (simp add: validate_evidence_def some_evidence_def is_ascii_hexdigit_def list_all_iff)

lemma finishable_step:
  assumes "validate_payload p = Ok ()" and "transition (rr_state r) (rr_last_verification_passed r) p = Ok st"
    and step: "\<And>r'. rr_state r' = st \<Longrightarrow> rr_last_verification_passed r' = verification_result p (rr_last_verification_passed r)
      \<Longrightarrow> finishable n r'"
  shows "finishable (Suc n) r"
proof -
  define t where "t = (if rr_events r = [] then 0 else re_at (last (rr_events r)))"
  have "\<exists>e r'. run_append t some_text p r = Ok (e, r')"
    using assms(1,2) by (simp add: run_append_def t_def Let_def)
  then obtain e r' where ok: "run_append t some_text p r = Ok (e, r')" by blast
  then have "rr_state r' = st" "rr_last_verification_passed r' = verification_result p (rr_last_verification_passed r)"
    using assms(2) by (simp_all add: run_append_ok)
  from step [OF this] obtain script r'' where "length script = n" "try_fold append_entry script r' = Ok r''" "is_complete r''"
    unfolding finishable_def by blast
  with ok show ?thesis
    unfolding finishable_def by (intro exI [of _ "(t, some_text, p) # script"]) (simp add: append_entry_def)
qed

lemma finishable_complete: "rr_state r = Complete \<Longrightarrow> finishable 0 r"
  by (simp add: finishable_def is_complete_def)

lemma finishable_outcome:
  assumes "rr_state r = NeedsOutcome" and "rr_last_verification_passed r \<noteq> None"
  shows "finishable 1 r"
  unfolding One_nat_def
  by (rule finishable_step [of "Outcome OutcomeFailed some_text", OF _ _ finishable_complete])
    (use assms in \<open>auto simp: transition_def outcome_agrees_iff\<close>)

lemma finishable_verification: "rr_state r = NeedsVerification \<Longrightarrow> finishable 2 r"
  unfolding numeral_2_eq_2
  by (rule finishable_step [of "Verification [\<lparr>ck_name = some_text, ck_status = Passed, ck_evidence = [some_evidence]\<rparr>]",
        OF _ _ finishable_outcome [unfolded One_nat_def]])
    (auto simp: transition_def all_passed_def verification_result_def validate_each_def validate_check_def)

lemma finishable_decision: "rr_state r = NeedsDecision \<Longrightarrow> finishable 3 r"
  unfolding numeral_3_eq_3
  by (rule finishable_step [of "Decision Verify some_text", OF _ _ finishable_verification [unfolded numeral_2_eq_2]])
    (auto simp: transition_def)

lemma finishable_observation: "rr_state r = NeedsObservation \<Longrightarrow> finishable 4 r"
  using finishable_step [of "Observation some_text [some_evidence]" r NeedsDecision 3, OF _ _ finishable_decision]
  by (simp add: transition_def validate_each_def)

lemma finishable_attempt: "rr_state r = NeedsAttempt \<Longrightarrow> finishable 5 r"
  using finishable_step [of "Attempt some_text []" r NeedsObservation 4, OF _ _ finishable_observation]
  by (simp add: transition_def validate_each_def)

lemma finishable_plan: "rr_state r = NeedsPlan \<Longrightarrow> finishable 6 r"
  using finishable_step [of "Plan some_text [some_text]" r NeedsAttempt 5, OF _ _ finishable_attempt]
  by (simp add: transition_def validate_each_def)

lemma finishable_goal: "rr_state r = Empty \<Longrightarrow> finishable 7 r"
  using finishable_step [of "Goal some_text [some_text]" r NeedsPlan 6, OF _ _ finishable_plan]
  by (simp add: transition_def validate_each_def)

lemma finishable_post:
  assumes "rr_state r = NeedsPostVerificationDecision" and "rr_last_verification_passed r \<noteq> None"
  shows "finishable 2 r"
  unfolding numeral_2_eq_2
  by (rule finishable_step [of "Decision Stop some_text", OF _ _ finishable_outcome [unfolded One_nat_def]])
    (use assms in \<open>auto simp: transition_def verification_result_def\<close>)

lemma run_finishable:
  assumes "run_reaches r"
  shows "\<exists>n\<le>7. finishable n r"
proof -
  note pending = verification_pending [OF assms]
  show ?thesis
  proof (cases "rr_state r")
    case Empty
    with finishable_goal show ?thesis by blast
  next
    case NeedsPlan
    with finishable_plan [of r] show ?thesis by (intro exI [of _ 6]) simp
  next
    case NeedsAttempt
    with finishable_attempt [of r] show ?thesis by (intro exI [of _ 5]) simp
  next
    case NeedsObservation
    with finishable_observation [of r] show ?thesis by (intro exI [of _ 4]) simp
  next
    case NeedsDecision
    with finishable_decision [of r] show ?thesis by (intro exI [of _ 3]) simp
  next
    case NeedsVerification
    with finishable_verification [of r] show ?thesis by (intro exI [of _ 2]) simp
  next
    case NeedsPostVerificationDecision
    with finishable_post [of r] pending show ?thesis by (intro exI [of _ 2]) simp
  next
    case NeedsOutcome
    with finishable_outcome [of r] pending show ?thesis by (intro exI [of _ 1]) simp
  next
    case Complete
    with finishable_complete [of r] show ?thesis by (intro exI [of _ 0]) simp
  qed
qed

section \<open>Properties\<close>

text \<open>C20. Replay is sound and complete: a stored ledger replays exactly when it is the ledger of a run built by
  appends, and the result is that run.\<close>

theorem reasoning_replay: "run_replay es = Ok r \<longleftrightarrow> es \<noteq> [] \<and> run_reaches r \<and> rr_events r = es"
  by (rule replay_iff)

text \<open>C34. The last digest commits to the whole ledger: two ledgers that replay and end in the same digest are
  equal event by event, unless two of their events are a SHA-256 collision.\<close>

theorem reasoning_tamper_evident:
  assumes "run_replay es = Ok r" and "run_replay ds = Ok s" and "list_all event_sized es" and "list_all event_sized ds"
    and "re_digest (last es) = re_digest (last ds)"
  shows "es = ds \<or> (\<exists>a\<in>set es. \<exists>b\<in>set ds. sha256_collision (event_preimage a) (event_preimage b))"
proof -
  have "run_chained es" "run_chained ds" "es \<noteq> []" "ds \<noteq> []"
    using assms(1,2) run_reaches_wf by (auto simp: replay_iff ledger_wf_def)
  with ledger.last_digest_commits [of es ds] assms(3-5) show ?thesis by (simp add: last_digest_def)
qed

text \<open>C35. Every run the appends reach has a well-formed ledger (chained digests, consecutive ordinals, times that
  never go back, one run id, valid payloads), a complete run ends in an outcome that rests on a verification and
  claims success only when the last verification passed every check, and nothing can follow it.\<close>

theorem reasoning_run_invariant:
  assumes "run_reaches r"
  shows "ledger_wf r \<and> outcome_supported r \<and> (is_complete r \<longrightarrow> (\<forall>at who p. \<not> is_ok (run_append at who p r)))"
proof -
  have "\<not> is_ok (run_append at who p r)" if "is_complete r" for at who p
  proof
    assume "is_ok (run_append at who p r)"
    then obtain e r' where "run_append at who p r = Ok (e, r')" by (auto simp: is_ok_iff)
    then show False using that by (simp add: run_append_ok transition_ok is_complete_def)
  qed
  with run_reaches_wf [OF assms] run_reaches_outcome [OF assms] show ?thesis by blast
qed

text \<open>C36. No run is stuck: from every reachable run at most seven further appends, all accepted, complete it.\<close>

theorem reasoning_run_finishes:
  assumes "run_reaches r"
  shows "\<exists>script r'. length script \<le> 7 \<and> try_fold append_entry script r = Ok r' \<and> is_complete r'"
  using run_finishable [OF assms] unfolding finishable_def by blast

lemma example_run: "\<exists>r. run_empty some_text = Ok r"
  by (simp add: run_empty_def) (simp add: some_text_def ascii_def)

theorem reasoning_run_invariant_witness: "\<exists>r. run_reaches r \<and> ledger_wf r \<and> outcome_supported r"
  using example_run reasoning_run_invariant run_reaches.started by blast

theorem reasoning_run_finishes_witness:
  "\<exists>r script r'. run_empty some_text = Ok r \<and> length script \<le> 7 \<and> try_fold append_entry script r = Ok r' \<and> is_complete r'"
  using example_run reasoning_run_finishes run_reaches.started by blast

theorem reasoning_tamper_evident_witness:
  "\<exists>es ds r. es \<noteq> [] \<and> run_replay es = Ok r \<and> run_replay ds = Ok r \<and> re_digest (last es) = re_digest (last ds) \<and>
    (es = ds \<or> (\<exists>a\<in>set es. \<exists>b\<in>set ds. sha256_collision (event_preimage a) (event_preimage b)))"
proof -
  obtain r where r: "run_empty some_text = Ok r" using example_run ..
  have "\<exists>e r'. run_append 0 some_text (Goal some_text [some_text]) r = Ok (e, r')"
    using r by (simp add: run_append_def run_empty_ok transition_def validate_each_def Let_def)
  then obtain e r' where ok: "run_append 0 some_text (Goal some_text [some_text]) r = Ok (e, r')" by blast
  have "run_reaches r'" using appended [OF started [OF r] ok] .
  moreover have "rr_events r' = [e]" using ok r by (simp add: run_append_ok run_empty_ok)
  ultimately have rep: "run_replay [e] = Ok r'" by (simp add: replay_iff)
  have sized: "list_all event_sized [e]"
    using ok r by (simp add: run_append_ok run_empty_ok event_sized_def sized_list_def text_sized_def some_text_def)
  show ?thesis
    using reasoning_tamper_evident [OF rep rep sized sized refl] rep by (intro exI [of _ "[e]"] exI [of _ r']) auto
qed

end
