(* ===== verification/Cluster_Contract.thy ===== *)
theory Cluster_Contract
  imports Claim_Key Digest Ordered_Map
begin

text \<open>
  The cluster contract (\<^verbatim>\<open>crates/vyrm-cluster/src/contract.rs\<close>): identifiers, placement of a shard on
  replicas, read stamps and snapshot vectors, transaction scopes, route evidence, transfer and reshard plans, each
  with its validation. The JSON encoding behind a placement digest is a parameter.
\<close>

section \<open>Identifiers and errors\<close>

datatype cluster_error =
    ClusterInvalid bytes
  | ClusterDenied bytes
  | ClusterUnavailable bytes
  | ClusterNotFound bytes
  | ClusterPanic \<comment> \<open>the index operator or \<open>expect\<close> on a missing entry\<close>

type_synonym 'a cluster_result = "cluster_error + 'a"

definition CLUSTER_CONTRACT_VERSION :: u16 where
  "CLUSTER_CONTRACT_VERSION = 1"

definition METADATA_SHARD_ID :: u64 where
  "METADATA_SHARD_ID = 0"

definition string_id_new :: "string \<Rightarrow> bytes \<Rightarrow> bytes cluster_result" where
  "string_id_new label val =
     (if val = [] \<or> length val > 128 \<or> 0 \<in> set val
      then Err (ClusterInvalid (ascii (label @ '' must contain 1..=128 non-NUL bytes'')))
      else Ok val)"

definition cluster_id_new :: "bytes \<Rightarrow> bytes cluster_result" where
  "cluster_id_new = string_id_new ''cluster id''"

definition node_id_new :: "bytes \<Rightarrow> bytes cluster_result" where
  "node_id_new = string_id_new ''node id''"

definition zone_id_new :: "bytes \<Rightarrow> bytes cluster_result" where
  "zone_id_new = string_id_new ''zone id''"

type_synonym node_id = bytes
type_synonym zone_id = bytes
type_synonym shard_id = u64

section \<open>Placement\<close>

datatype replica_role = Voter | Learner

datatype replica_health = Active | Suspect | Recovering | Lost

record replica_placement =
  rp_node :: node_id
  rp_zone :: zone_id
  rp_role :: replica_role

record placement_policy =
  pp_voter_count :: u8
  pp_minimum_voter_zones :: u8
  pp_maximum_voters_per_zone :: u8

definition policy_validate :: "placement_policy \<Rightarrow> unit cluster_result" where
  "policy_validate p =
     (if pp_voter_count p < 3 \<or> pp_voter_count p mod 2 = 0
      then Err (ClusterInvalid (ascii ''voter_count must be an odd number of at least three''))
      else if pp_minimum_voter_zones p < 2 \<or> pp_minimum_voter_zones p > pp_voter_count p
      then Err (ClusterInvalid (ascii ''minimum_voter_zones must be in 2..=voter_count''))
      else if pp_maximum_voters_per_zone p = 0
      then Err (ClusterInvalid (ascii ''maximum_voters_per_zone must be non-zero''))
      else Ok ())"

definition policy_quorum :: "placement_policy \<Rightarrow> nat" where
  "policy_quorum p = unat (pp_voter_count p div 2 + 1)"

definition tolerated_failures :: "placement_policy \<Rightarrow> nat" where
  "tolerated_failures p = unat ((pp_voter_count p - 1) div 2)"

record shard_placement =
  sp_contract_version :: u16
  sp_cluster :: bytes
  sp_shard :: shard_id
  sp_epoch :: u64
  sp_policy :: placement_policy
  sp_replicas :: "replica_placement list"

text \<open>\<open>windows(2).any(|pair| pair[0] >= pair[1])\<close>.\<close>

definition unordered :: "'a::linorder list \<Rightarrow> bool" where
  "unordered xs = list_ex (\<lambda>(a, b). a \<ge> b) (zip xs (tl xs))"

definition placement_voters :: "shard_placement \<Rightarrow> replica_placement list" where
  "placement_voters p = filter (\<lambda>r. rp_role r = Voter) (sp_replicas p)"

definition count_zone :: "replica_placement \<Rightarrow> (zone_id, nat) btree \<Rightarrow> (zone_id, nat) btree" where
  "count_zone voter per_zone = bt_update (rp_zone voter) 0 (\<lambda>n. n + 1) per_zone"

definition placement_validate :: "shard_placement \<Rightarrow> unit cluster_result" where
  "placement_validate p =
     (if sp_contract_version p \<noteq> CLUSTER_CONTRACT_VERSION \<or> sp_epoch p = 0
      then Err (ClusterInvalid (ascii ''unsupported contract version or zero placement epoch''))
      else
      rbind (policy_validate (sp_policy p)) (\<lambda>_.
      if unordered (map rp_node (sp_replicas p))
      then Err (ClusterInvalid (ascii ''replicas must be strictly ordered by unique node id''))
      else
      let voters = placement_voters p in
      if length voters \<noteq> unat (pp_voter_count (sp_policy p))
      then Err (ClusterInvalid (ascii ''placement has '' @ decimal (length voters) @ ascii '' voters but policy requires ''
             @ decimal (unat (pp_voter_count (sp_policy p)))))
      else
      let zones = bs_collect (map rp_zone voters) in
      if length zones < unat (pp_minimum_voter_zones (sp_policy p))
      then Err (ClusterInvalid (ascii ''placement does not satisfy voter zone diversity''))
      else
      let per_zone = fold count_zone voters [] in
      if list_ex (\<lambda>(_, count). count > unat (pp_maximum_voters_per_zone (sp_policy p))) per_zone
      then Err (ClusterInvalid (ascii ''placement exceeds maximum voters per zone''))
      else Ok ()))"

definition placement_digest :: "(shard_placement \<Rightarrow> bytes + bytes) \<Rightarrow> shard_placement \<Rightarrow> bytes cluster_result" where
  "placement_digest to_vec p =
     rbind (placement_validate p) (\<lambda>_.
     rbind (map_err (\<lambda>e. ClusterInvalid (ascii ''placement encoding failed: '' @ e)) (to_vec p)) (\<lambda>encoded.
     Ok (sha256_hex encoded)))"

section \<open>Stamps and snapshot vectors\<close>

datatype read_consistency = Linearizable | BoundedStale (maximum_index_lag: u64) | ExactSnapshot

datatype write_consistency = QuorumDurable

record shard_read_stamp =
  rs_term :: u64
  rs_commit_index :: u64
  rs_placement_epoch :: u64
  rs_state_digest :: bytes

definition cluster_is_sha256 :: "bytes \<Rightarrow> bool" where
  "cluster_is_sha256 v \<longleftrightarrow> length v = 64 \<and> list_all (\<lambda>b. (48 \<le> b \<and> b \<le> 57) \<or> (97 \<le> b \<and> b \<le> 102)) v"

definition stamp_validate :: "shard_read_stamp \<Rightarrow> unit cluster_result" where
  "stamp_validate s =
     (if rs_term s = 0 \<or> rs_placement_epoch s = 0 \<or> \<not> cluster_is_sha256 (rs_state_digest s)
      then Err (ClusterInvalid (ascii ''shard stamp requires non-zero term/epoch and lowercase SHA-256 state digest''))
      else Ok ())"

datatype vector_relation = VEqual | Dominates | Dominated | Concurrent

record snapshot_vector =
  sv_contract_version :: u16
  sv_scope :: bytes
  sv_shards :: "(shard_id, shard_read_stamp) btree"

definition vector_validate :: "snapshot_vector \<Rightarrow> unit cluster_result" where
  "vector_validate v =
     (if sv_contract_version v \<noteq> CLUSTER_CONTRACT_VERSION \<or> sv_scope v = [] \<or> length (sv_scope v) > 256
         \<or> sv_shards v = []
      then Err (ClusterInvalid (ascii ''snapshot vector requires v1, a bounded scope, and at least one shard''))
      else try_fold (\<lambda>(_, stamp) _. stamp_validate stamp) (sv_shards v) ())"

definition relation_step ::
    "(shard_id, shard_read_stamp) btree \<Rightarrow> shard_id \<times> shard_read_stamp \<Rightarrow> bool \<times> bool \<Rightarrow> (bool \<times> bool) cluster_result" where
  "relation_step others x st =
     (case (x, st) of ((shard, left), (saw_less, saw_greater)) \<Rightarrow>
        (case bt_get others shard of
           None \<Rightarrow> Err ClusterPanic
         | Some right \<Rightarrow>
             if rs_placement_epoch left \<noteq> rs_placement_epoch right
             then Err (ClusterInvalid (ascii ''snapshot vectors cross a placement epoch''))
             else if rs_commit_index left < rs_commit_index right then Ok (True, saw_greater)
             else if rs_commit_index left > rs_commit_index right then Ok (saw_less, True)
             else if rs_state_digest left \<noteq> rs_state_digest right \<or> rs_term left \<noteq> rs_term right
             then Err (ClusterDenied (ascii ''equal shard cursors disagree on term or state digest''))
             else Ok (saw_less, saw_greater)))"

fun seen_relation :: "bool \<times> bool \<Rightarrow> vector_relation" where
  "seen_relation (False, False) = VEqual"
| "seen_relation (False, True) = Dominates"
| "seen_relation (True, False) = Dominated"
| "seen_relation (True, True) = Concurrent"

definition vector_relation :: "snapshot_vector \<Rightarrow> snapshot_vector \<Rightarrow> vector_relation cluster_result" where
  "vector_relation v other =
     rbind (vector_validate v) (\<lambda>_.
     rbind (vector_validate other) (\<lambda>_.
     if sv_scope v \<noteq> sv_scope other \<or> map fst (sv_shards v) \<noteq> map fst (sv_shards other)
     then Err (ClusterInvalid (ascii ''snapshot vectors must cover the same scope and shard set''))
     else rbind (try_fold (relation_step (sv_shards other)) (sv_shards v) (False, False)) (\<lambda>seen.
          Ok (seen_relation seen))))"

section \<open>Scopes, routes and plans\<close>

datatype transaction_scope = SingleShard shard_id | CrossShard "shard_id list"

fun enforce_m7 :: "transaction_scope \<Rightarrow> shard_id cluster_result" where
  "enforce_m7 (SingleShard shard) = Ok shard"
| "enforce_m7 (CrossShard _) =
     Err (ClusterDenied (ascii ''cross-shard writes require durable intents and a verified commit protocol''))"

record route_evidence =
  ro_contract_version :: u16
  ro_shard :: shard_id
  ro_placement_epoch :: u64
  ro_requested_consistency :: read_consistency
  ro_selected :: "node_id list"
  ro_replica_health :: "(node_id, replica_health) btree"
  ro_observed :: "shard_read_stamp option"
  ro_allowed :: bool
  ro_reason :: bytes

definition route_validate :: "route_evidence \<Rightarrow> unit cluster_result" where
  "route_validate r =
     (if ro_contract_version r \<noteq> CLUSTER_CONTRACT_VERSION \<or> ro_placement_epoch r = 0 \<or> ro_reason r = []
         \<or> unordered (ro_selected r)
      then Err (ClusterInvalid (ascii ''malformed route evidence''))
      else if ro_allowed r \<and> (ro_selected r = [] \<or> ro_observed r = None)
      then Err (ClusterInvalid (ascii ''an allowed route requires selected replicas and an observed stamp''))
      else if \<not> ro_allowed r \<and> ro_observed r \<noteq> None
      then Err (ClusterInvalid (ascii ''a denied route cannot claim an observed snapshot''))
      else if ro_allowed r \<and> list_ex (\<lambda>node. bt_get (ro_replica_health r) node \<noteq> Some Active) (ro_selected r)
      then Err (ClusterInvalid (ascii ''an allowed route may select only explicitly active replicas''))
      else case ro_observed r of Some stamp \<Rightarrow> stamp_validate stamp | None \<Rightarrow> Ok ())"

record replica_transfer_plan =
  tp_contract_version :: u16
  tp_shard :: shard_id
  tp_placement_epoch :: u64
  tp_source :: node_id
  tp_target :: node_id
  tp_grounded_snapshot :: shard_read_stamp
  tp_wal_from_exclusive :: u64
  tp_wal_through_inclusive :: u64
  tp_artifact_digests :: "bytes list"

definition transfer_validate :: "replica_transfer_plan \<Rightarrow> unit cluster_result" where
  "transfer_validate p =
     rbind (stamp_validate (tp_grounded_snapshot p)) (\<lambda>_.
     if tp_contract_version p \<noteq> CLUSTER_CONTRACT_VERSION
        \<or> tp_placement_epoch p \<noteq> rs_placement_epoch (tp_grounded_snapshot p)
        \<or> tp_source p = tp_target p
        \<or> tp_wal_from_exclusive p \<noteq> rs_commit_index (tp_grounded_snapshot p)
        \<or> tp_wal_through_inclusive p < tp_wal_from_exclusive p
        \<or> list_ex (\<lambda>d. \<not> cluster_is_sha256 d) (tp_artifact_digests p)
     then Err (ClusterInvalid (ascii ''invalid snapshot-plus-WAL replica transfer plan''))
     else Ok ())"

datatype reshard_state = Planned | Copying | CaughtUp | Cutover | Retired

record reshard_plan =
  rh_contract_version :: u16
  rh_operation_id :: bytes
  rh_metadata_index :: u64
  rh_source_shards :: "shard_id list"
  rh_targets :: "shard_placement list"
  rh_cutover :: snapshot_vector
  rh_state :: reshard_state

definition reshard_target :: "u64 \<Rightarrow> shard_id list \<Rightarrow> shard_placement \<Rightarrow> shard_id list \<Rightarrow> shard_id list cluster_result" where
  "reshard_target source_epoch source_shards target targets =
     rbind (placement_validate target) (\<lambda>_.
     if sp_epoch target \<le> source_epoch \<or> sp_shard target \<in> set targets \<or> sp_shard target \<in> set source_shards
     then Err (ClusterInvalid (ascii ''reshard targets require a newer epoch and identities unique from sources''))
     else Ok (bs_insert (sp_shard target) targets))"

definition reshard_validate :: "reshard_plan \<Rightarrow> unit cluster_result" where
  "reshard_validate p =
     (if rh_contract_version p \<noteq> CLUSTER_CONTRACT_VERSION \<or> rh_operation_id p = [] \<or> length (rh_operation_id p) > 128
         \<or> rh_metadata_index p = 0 \<or> rh_source_shards p = [] \<or> rh_targets p = []
      then Err (ClusterInvalid (ascii ''malformed reshard plan''))
      else
      rbind (vector_validate (rh_cutover p)) (\<lambda>_.
      if map fst (sv_shards (rh_cutover p)) \<noteq> rh_source_shards p
      then Err (ClusterInvalid (ascii ''reshard cutover vector must cover exactly the source shards''))
      else
      case map (\<lambda>(_, stamp). rs_placement_epoch stamp) (sv_shards (rh_cutover p)) of
        [] \<Rightarrow> Err ClusterPanic
      | e # es \<Rightarrow>
          rbind (try_fold (reshard_target (fold max es e) (rh_source_shards p)) (rh_targets p) []) (\<lambda>_. Ok ())))"

section \<open>Quorums\<close>

lemma unordered_iff: "\<not> unordered xs \<longleftrightarrow> sorted_wrt (<) xs"
proof (induction xs)
  case (Cons a xs)
  then show ?case
  proof (cases xs)
    case (Cons b ys)
    have "\<not> unordered (a # xs) \<longleftrightarrow> a < b \<and> \<not> unordered xs" by (auto simp: unordered_def Cons not_le)
    with \<open>(\<not> unordered xs) = sorted_wrt (<) xs\<close> show ?thesis by (auto simp: Cons intro: order.strict_trans)
  qed (simp add: unordered_def)
qed (simp add: unordered_def)

lemma policy_arith:
  assumes "policy_validate p = Ok ()"
  shows "3 \<le> unat (pp_voter_count p)" "odd (unat (pp_voter_count p))"
    and "policy_quorum p = unat (pp_voter_count p) div 2 + 1"
    and "tolerated_failures p = (unat (pp_voter_count p) - 1) div 2"
proof -
  let ?v = "pp_voter_count p"
  have v: "\<not> ?v < 3" "?v mod 2 \<noteq> 0" using assms by (auto simp: policy_validate_def split: if_splits)
  show ge: "3 \<le> unat ?v" using v(1) by (simp add: word_less_nat_alt)
  have "unat (?v mod 2) = unat ?v mod 2" by (simp add: unat_mod_distrib)
  with v(2) have "unat ?v mod 2 \<noteq> 0" by (metis unat_eq_zero)
  then show "odd (unat ?v)" by (simp add: odd_iff_mod_2_eq_one)
  have lt: "unat ?v < 256" using unat_less_exp [of ?v] by simp
  have half: "unat (?v div 2) = unat ?v div 2" by (simp add: unat_div_distrib)
  then show "policy_quorum p = unat ?v div 2 + 1"
    using lt by (simp add: policy_quorum_def unat_word_ariths)
  have "unat (?v - 1) = unat ?v - 1" using ge by (subst unat_sub) (simp_all add: word_le_nat_alt)
  then show "tolerated_failures p = (unat ?v - 1) div 2" by (simp add: tolerated_failures_def unat_div_distrib)
qed

lemma placement_ok:
  assumes "placement_validate p = Ok ()"
  shows "policy_validate (sp_policy p) = Ok ()" and "sorted_wrt (<) (map rp_node (sp_replicas p))"
    and "length (placement_voters p) = unat (pp_voter_count (sp_policy p))"
    and "unat (pp_minimum_voter_zones (sp_policy p)) \<le> card (rp_zone ` set (placement_voters p))"
    and "list_all (\<lambda>(_, count). count \<le> unat (pp_maximum_voters_per_zone (sp_policy p))) (fold count_zone (placement_voters p) [])"
  using assms
  by (auto simp: placement_validate_def res_simps Let_def unordered_iff bs_collect_def list_ex_iff list_all_iff not_less
      split: if_splits)

definition voter_nodes :: "shard_placement \<Rightarrow> node_id set" where
  "voter_nodes p = rp_node ` set (placement_voters p)"

lemma sorted_nodes_distinct:
  assumes "sorted_wrt (<) (map rp_node rs)"
  shows "distinct rs" "inj_on rp_node (set rs)"
  using assms by (simp_all add: strict_sorted_iff distinct_map)

lemma card_voter_nodes:
  assumes "placement_validate p = Ok ()"
  shows "card (voter_nodes p) = unat (pp_voter_count (sp_policy p))"
proof -
  note d = sorted_nodes_distinct [OF placement_ok(2) [OF assms]]
  have "inj_on rp_node (set (placement_voters p))" by (rule inj_on_subset [OF d(2)]) (auto simp: placement_voters_def)
  moreover have "distinct (placement_voters p)" using d(1) by (simp add: placement_voters_def)
  ultimately show ?thesis using placement_ok(3) [OF assms] by (simp add: voter_nodes_def card_image distinct_card)
qed

lemma count_zone_get:
  "bt_wf m \<Longrightarrow> bt_get (fold count_zone vs m) z =
    (let n = length (filter (\<lambda>v. rp_zone v = z) vs) in
     if n = 0 then bt_get m z else Some (n + (case bt_get m z of None \<Rightarrow> 0 | Some k \<Rightarrow> k)))"
proof (induction vs arbitrary: m)
  case (Cons v vs)
  have wf: "bt_wf (count_zone v m)" using Cons.prems by (simp add: count_zone_def bt_wf_update)
  have "bt_get (count_zone v m) z =
      (if rp_zone v = z then Some (1 + (case bt_get m z of None \<Rightarrow> 0 | Some k \<Rightarrow> k)) else bt_get m z)"
    by (simp add: count_zone_def bt_get_update fun_upd_apply)
  with Cons.IH [OF wf] show ?case by (auto simp: Let_def split: option.splits)
qed simp

lemma zone_limit:
  assumes "placement_validate p = Ok ()"
  shows "length (filter (\<lambda>v. rp_zone v = z) (placement_voters p)) \<le> unat (pp_maximum_voters_per_zone (sp_policy p))"
proof (cases "length (filter (\<lambda>v. rp_zone v = z) (placement_voters p)) = 0")
  case False
  let ?m = "fold count_zone (placement_voters p) []"
  have "bt_get ?m z = Some (length (filter (\<lambda>v. rp_zone v = z) (placement_voters p)))"
    using count_zone_get [of "[]" "placement_voters p" z] False by (simp add: Let_def)
  then have "(z, length (filter (\<lambda>v. rp_zone v = z) (placement_voters p))) \<in> set ?m"
    by (simp add: bt_get_def map_of_SomeD)
  then show ?thesis using placement_ok(5) [OF assms] by (auto simp: list_all_iff)
qed simp

lemma quorums_meet:
  assumes "placement_validate p = Ok ()" and "A \<subseteq> voter_nodes p" and "B \<subseteq> voter_nodes p"
    and "policy_quorum (sp_policy p) \<le> card A" and "policy_quorum (sp_policy p) \<le> card B"
  shows "A \<inter> B \<noteq> {}"
proof
  assume "A \<inter> B = {}"
  have fin: "finite (voter_nodes p)" by (simp add: voter_nodes_def)
  then have "card (A \<union> B) = card A + card B"
    using assms(2,3) \<open>A \<inter> B = {}\<close> by (intro card_Un_disjoint) (auto intro: finite_subset)
  moreover have "card (A \<union> B) \<le> card (voter_nodes p)" using fin assms(2,3) by (intro card_mono) auto
  ultimately show False
    using assms(4,5) card_voter_nodes [OF assms(1)] policy_arith(3) [OF placement_ok(1) [OF assms(1)]] by simp
qed

lemma tolerated_less_quorum: "policy_validate p = Ok () \<Longrightarrow> tolerated_failures p < policy_quorum p"
  using policy_arith [of p] by simp

lemma quorum_survives:
  assumes "placement_validate p = Ok ()" and "A \<subseteq> voter_nodes p" and "policy_quorum (sp_policy p) \<le> card A"
    and "finite F" and "card F \<le> tolerated_failures (sp_policy p)"
  shows "A - F \<noteq> {}"
proof
  assume "A - F = {}"
  then have "card A \<le> card F" using assms(4) by (intro card_mono) auto
  then show False using assms(3,5) tolerated_less_quorum [OF placement_ok(1) [OF assms(1)]] by simp
qed

section \<open>The order of snapshot vectors\<close>

definition stamps_agree :: "shard_read_stamp \<Rightarrow> shard_read_stamp \<Rightarrow> bool" where
  "stamps_agree a b \<longleftrightarrow> rs_placement_epoch a = rs_placement_epoch b
     \<and> (rs_commit_index a = rs_commit_index b \<longrightarrow> rs_state_digest a = rs_state_digest b \<and> rs_term a = rs_term b)"

definition vector_wf :: "snapshot_vector \<Rightarrow> bool" where
  "vector_wf v \<longleftrightarrow> bt_wf (sv_shards v)"

definition stamps :: "snapshot_vector \<Rightarrow> shard_read_stamp list" where
  "stamps v = map snd (sv_shards v)"

definition comparable :: "snapshot_vector \<Rightarrow> snapshot_vector \<Rightarrow> bool" where
  "comparable v w \<longleftrightarrow> vector_validate v = Ok () \<and> vector_validate w = Ok () \<and> sv_scope v = sv_scope w
     \<and> map fst (sv_shards v) = map fst (sv_shards w) \<and> list_all2 stamps_agree (stamps v) (stamps w)"

definition some_less :: "shard_read_stamp list \<Rightarrow> shard_read_stamp list \<Rightarrow> bool" where
  "some_less xs ys \<longleftrightarrow> (\<exists>i<length xs. rs_commit_index (xs ! i) < rs_commit_index (ys ! i))"

lemma some_less_Cons: "some_less (x # xs) (y # ys) \<longleftrightarrow> rs_commit_index x < rs_commit_index y \<or> some_less xs ys"
  by (simp add: some_less_def Ex_less_Suc2)

lemma relation_fold:
  assumes "length xs = length ys" and "\<forall>i<length xs. bt_get others (fst (xs ! i)) = Some (ys ! i)"
  shows "try_fold (relation_step others) xs (l, g) = Ok r \<longleftrightarrow>
    list_all2 stamps_agree (map snd xs) ys \<and> r = (l \<or> some_less (map snd xs) ys, g \<or> some_less ys (map snd xs))"
  using assms
proof (induction xs ys arbitrary: l g rule: list_induct2)
  case Nil
  show ?case by (auto simp: some_less_def)
next
  case (Cons x xs y ys)
  have "bt_get others (fst x) = Some y" using Cons.prems by auto
  then have step: "relation_step others x (l, g) =
      (if stamps_agree (snd x) y then Ok (l \<or> rs_commit_index (snd x) < rs_commit_index y, g \<or> rs_commit_index y < rs_commit_index (snd x))
       else Err (if rs_placement_epoch (snd x) \<noteq> rs_placement_epoch y
         then ClusterInvalid (ascii ''snapshot vectors cross a placement epoch'')
         else ClusterDenied (ascii ''equal shard cursors disagree on term or state digest'')))"
    by (cases x) (auto simp: relation_step_def stamps_agree_def not_less_iff_gr_or_eq)
  have rest: "\<forall>i<length xs. bt_get others (fst (xs ! i)) = Some (ys ! i)" using Cons.prems by (metis Suc_less_eq length_Cons nth_Cons_Suc)
  show ?case
    using Cons.IH [OF rest] by (auto simp: step some_less_Cons)
qed

lemma vector_relation_iff:
  assumes "vector_wf w"
  shows "vector_relation v w = Ok r \<longleftrightarrow>
    comparable v w \<and> r = seen_relation (some_less (stamps v) (stamps w), some_less (stamps w) (stamps v))"
proof (cases "vector_validate v = Ok () \<and> vector_validate w = Ok () \<and> sv_scope v = sv_scope w \<and> map fst (sv_shards v) = map fst (sv_shards w)")
  case True
  then have keys: "map fst (sv_shards v) = map fst (sv_shards w)" by simp
  then have len: "length (sv_shards v) = length (stamps w)" unfolding stamps_def by (metis length_map)
  have get: "\<forall>i<length (sv_shards v). bt_get (sv_shards w) (fst (sv_shards v ! i)) = Some (stamps w ! i)"
  proof (intro allI impI)
    fix i assume i: "i < length (sv_shards v)"
    then have "fst (sv_shards v ! i) = fst (sv_shards w ! i)" using keys len unfolding stamps_def by (metis nth_map length_map)
    moreover have "distinct (map fst (sv_shards w))" using assms by (simp add: vector_wf_def bt_wf_def strict_sorted_iff)
    ultimately show "bt_get (sv_shards w) (fst (sv_shards v ! i)) = Some (stamps w ! i)"
      using i len by (simp add: bt_get_def stamps_def)
  qed
  show ?thesis
    using True relation_fold [OF len get, of False False]
    by (auto simp: vector_relation_def comparable_def res_simps simp flip: stamps_def)
next
  case False
  then show ?thesis by (auto simp: vector_relation_def comparable_def res_simps split: if_splits)
qed

lemma stamps_agree_sym: "stamps_agree a b \<longleftrightarrow> stamps_agree b a"
  by (auto simp: stamps_agree_def)

lemma comparable_sym: "comparable v w = comparable w v"
proof -
  have "list_all2 stamps_agree (stamps v) (stamps w) \<longleftrightarrow> list_all2 stamps_agree (stamps w) (stamps v)"
    using stamps_agree_sym by (auto simp: list_all2_conv_all_nth)
  then show ?thesis unfolding comparable_def by auto
qed

lemma comparable_trans_below:
  assumes "comparable u v" and "comparable v w" and "\<not> some_less (stamps v) (stamps u)" and "\<not> some_less (stamps w) (stamps v)"
  shows "comparable u w \<and> \<not> some_less (stamps w) (stamps u)
    \<and> (some_less (stamps u) (stamps v) \<or> some_less (stamps v) (stamps w) \<longrightarrow> some_less (stamps u) (stamps w))"
proof -
  let ?c = "\<lambda>v i. rs_commit_index (stamps v ! i)"
  have len: "length (stamps u) = length (stamps v)" "length (stamps v) = length (stamps w)"
    and agree: "\<And>i. i < length (stamps u) \<Longrightarrow> stamps_agree (stamps u ! i) (stamps v ! i) \<and> stamps_agree (stamps v ! i) (stamps w ! i)"
    using assms(1,2) by (auto simp: comparable_def list_all2_conv_all_nth)
  have le: "?c u i \<le> ?c v i \<and> ?c v i \<le> ?c w i" if "i < length (stamps u)" for i
    using assms(3,4) that len unfolding some_less_def by (metis not_less)
  have "stamps_agree (stamps u ! i) (stamps w ! i)" if "i < length (stamps u)" for i
    using agree [OF that] le [OF that] by (auto simp: stamps_agree_def)
  then have "comparable u w" using assms(1,2) len by (auto simp: comparable_def list_all2_conv_all_nth)
  moreover have "\<not> some_less (stamps w) (stamps u)"
  proof
    assume "some_less (stamps w) (stamps u)"
    then obtain i where i: "i < length (stamps w)" "?c w i < ?c u i" by (auto simp: some_less_def)
    have "?c u i \<le> ?c w i" using le [of i] i(1) len by auto
    with i(2) show False by simp
  qed
  moreover have "some_less (stamps u) (stamps w)" if "some_less (stamps u) (stamps v) \<or> some_less (stamps v) (stamps w)"
  proof -
    from that len obtain i where i: "i < length (stamps u)" "?c u i < ?c v i \<or> ?c v i < ?c w i"
      by (auto simp: some_less_def)
    with le [OF i(1)] have "?c u i < ?c w i" by (auto intro: less_le_trans le_less_trans)
    with i(1) show ?thesis by (auto simp: some_less_def)
  qed
  ultimately show ?thesis by blast
qed

section \<open>Properties\<close>

text \<open>C37. In a validated placement the voters are exactly as many as the policy says, on enough zones and never
  more than the limit in one zone; any two quorums of voters have a voter in common, and a quorum always keeps a
  voter when no more nodes fail than the policy tolerates.\<close>

theorem placement_quorums:
  assumes "placement_validate p = Ok ()"
  shows "card (voter_nodes p) = unat (pp_voter_count (sp_policy p))
    \<and> unat (pp_minimum_voter_zones (sp_policy p)) \<le> card (rp_zone ` set (placement_voters p))
    \<and> (\<forall>z. length (filter (\<lambda>v. rp_zone v = z) (placement_voters p)) \<le> unat (pp_maximum_voters_per_zone (sp_policy p)))
    \<and> (\<forall>A B. A \<subseteq> voter_nodes p \<and> B \<subseteq> voter_nodes p \<and> policy_quorum (sp_policy p) \<le> card A
        \<and> policy_quorum (sp_policy p) \<le> card B \<longrightarrow> A \<inter> B \<noteq> {})
    \<and> (\<forall>A F. A \<subseteq> voter_nodes p \<and> policy_quorum (sp_policy p) \<le> card A \<and> finite F
        \<and> card F \<le> tolerated_failures (sp_policy p) \<longrightarrow> A - F \<noteq> {})"
  using card_voter_nodes [OF assms] placement_ok(4) [OF assms] zone_limit [OF assms]
    quorums_meet [OF assms] quorum_survives [OF assms] by blast

definition example_placement :: shard_placement where
  "example_placement = \<lparr>sp_contract_version = 1, sp_cluster = [99], sp_shard = 0, sp_epoch = 1,
     sp_policy = \<lparr>pp_voter_count = 3, pp_minimum_voter_zones = 3, pp_maximum_voters_per_zone = 1\<rparr>,
     sp_replicas = map (\<lambda>n. \<lparr>rp_node = [n], rp_zone = [n], rp_role = Voter\<rparr>) [97, 98, 99]\<rparr>"

lemma example_placement_valid: "placement_validate example_placement = Ok ()"
  by (simp add: placement_validate_def policy_validate_def example_placement_def CLUSTER_CONTRACT_VERSION_def
      unordered_def placement_voters_def bs_collect_def count_zone_def bt_update_def bt_get_def)

theorem placement_quorums_witness: "card (voter_nodes example_placement) = 3"
  using placement_quorums [OF example_placement_valid] by (simp add: example_placement_def)

text \<open>The relation of snapshot vectors is a partial order on vectors of one scope, shard set and epoch: swapping
  the arguments swaps dominating and dominated, a vector is related to itself as equal, being dominated or equal is
  transitive and strictness carries over.\<close>

lemma vector_relation_order:
  assumes "vector_wf u" and "vector_wf v" and "vector_wf w"
  shows "(vector_relation u v = Ok Dominated \<longleftrightarrow> vector_relation v u = Ok Dominates)
    \<and> (vector_relation u v = Ok VEqual \<longleftrightarrow> vector_relation v u = Ok VEqual)
    \<and> (vector_relation u v = Ok Concurrent \<longleftrightarrow> vector_relation v u = Ok Concurrent)
    \<and> (vector_validate u = Ok () \<longrightarrow> vector_relation u u = Ok VEqual)
    \<and> (vector_relation u v = Ok Dominated \<and> vector_relation v w \<in> {Ok Dominated, Ok VEqual} \<longrightarrow> vector_relation u w = Ok Dominated)
    \<and> (vector_relation u v = Ok VEqual \<and> vector_relation v w = Ok VEqual \<longrightarrow> vector_relation u w = Ok VEqual)"
proof -
  have rel: "Dominated = seen_relation (a, b) \<longleftrightarrow> a \<and> \<not> b" "Dominates = seen_relation (a, b) \<longleftrightarrow> \<not> a \<and> b"
    "VEqual = seen_relation (a, b) \<longleftrightarrow> \<not> a \<and> \<not> b" "Concurrent = seen_relation (a, b) \<longleftrightarrow> a \<and> b" for a b
    by (cases a; cases b; simp)+
  have refl: "comparable u u \<and> \<not> some_less (stamps u) (stamps u)" if "vector_validate u = Ok ()"
    using that by (auto simp: comparable_def some_less_def stamps_agree_def list_all2_conv_all_nth)
  note iff = vector_relation_iff [OF assms(1)] vector_relation_iff [OF assms(2)] vector_relation_iff [OF assms(3)]
  have trans: "comparable u v \<and> comparable v w \<and> \<not> some_less (stamps v) (stamps u) \<and> \<not> some_less (stamps w) (stamps v) \<longrightarrow>
      comparable u w \<and> \<not> some_less (stamps w) (stamps u)
      \<and> (some_less (stamps u) (stamps v) \<or> some_less (stamps v) (stamps w) \<longrightarrow> some_less (stamps u) (stamps w))"
    using comparable_trans_below by metis
  have equal: "comparable u v \<and> comparable v w \<and> \<not> some_less (stamps u) (stamps v) \<and> \<not> some_less (stamps v) (stamps w) \<longrightarrow>
      \<not> some_less (stamps u) (stamps w)"
    using comparable_trans_below [of w v u] comparable_sym by metis
  have sym: "comparable v u = comparable u v" by (rule comparable_sym)
  show ?thesis
    unfolding insert_iff empty_iff iff rel sum.inject sym using refl trans equal by argo
qed

definition example_vector :: "u64 \<Rightarrow> snapshot_vector" where
  "example_vector n = \<lparr>sv_contract_version = 1, sv_scope = [115],
     sv_shards = [(1, \<lparr>rs_term = 1, rs_commit_index = n, rs_placement_epoch = 1, rs_state_digest = replicate 64 97\<rparr>)]\<rparr>"

lemma example_vector_valid: "vector_wf (example_vector n)" "vector_validate (example_vector n) = Ok ()"
  by (simp_all add: example_vector_def vector_wf_def bt_wf_def vector_validate_def CLUSTER_CONTRACT_VERSION_def
      stamp_validate_def cluster_is_sha256_def list_all_iff)

end
