(* ===== verification/Cluster_Sim.thy ===== *)
theory Cluster_Sim
  imports Cluster_Contract Kv_State
begin

text \<open>
  The quorum simulator of one shard (\<^verbatim>\<open>crates/vyrm-cluster/src/sim.rs\<close>): durable append, acknowledgement
  and commit propagation in one term, under partitions, delays, duplication, reordering, crashes, clock skew and disk
  loss. An operation that fails keeps the changes it made before, as the source does. The sets of the source are
  sets here; maps and the message queue keep their order.
\<close>

section \<open>State\<close>

record log_entry =
  le_term :: u64
  le_index :: u64
  le_command_digest :: bytes

datatype message_kind =
    MAppend log_entry
  | MAck u64 u64
  | MCommit u64 u64

record message =
  ms_id :: u64
  ms_from :: node_id
  ms_to :: node_id
  ms_deliver_at :: u64
  ms_kind :: message_kind

record replica_state =
  online :: bool
  disk_present :: bool
  clock_offset_ms :: "64 word"
  rlog :: "(u64, log_entry) btree"
  commit_index :: u64

datatype sim_fault =
    Partition node_id node_id
  | Heal node_id node_id
  | Delay u64 u64
  | Duplicate u64
  | Deliver u64
  | Reorder "u64 list"
  | Crash node_id
  | Restart node_id
  | ClockSkew node_id "64 word"
  | DiskLoss node_id

record sim_evidence =
  se_seed :: u64
  se_now :: u64
  se_leader :: node_id
  se_placement_digest :: bytes
  se_acknowledged :: "(u64, bytes) btree"
  se_replica_logs :: "(node_id, log_entry list) btree"
  se_replica_commit_indexes :: "(node_id, u64) btree"
  se_pending_message_ids :: "u64 list"
  se_disk_losses :: "node_id set"
  se_trace :: "bytes list"

record sim_cluster =
  sc_seed :: u64
  sc_placement :: shard_placement
  sc_leader :: node_id
  sc_now :: u64
  sc_next_message_id :: u64
  sc_replicas :: "(node_id, replica_state) btree"
  sc_blocked :: "(node_id \<times> node_id) set"
  sc_pending :: "message list"
  sc_acknowledgements :: "(u64, node_id set) btree"
  sc_acknowledged :: "(u64, bytes) btree"
  sc_disk_losses :: "node_id set"
  sc_trace :: "bytes list"

type_synonym 'a sim_action = "(cluster_error, sim_cluster, 'a) fallible"

section \<open>Access\<close>

definition replica_of :: "sim_cluster \<Rightarrow> node_id \<Rightarrow> replica_state cluster_result" where
  "replica_of st node = ok_or (bt_get (sc_replicas st) node) (ClusterNotFound (ascii ''node '' @ node))"

definition replica_mut :: "node_id \<Rightarrow> (replica_state \<Rightarrow> replica_state) \<Rightarrow> unit sim_action" where
  "replica_mut node f st =
     (case replica_of st node of
        Inl e \<Rightarrow> (Err e, st)
      | Inr _ \<Rightarrow> (Ok (), st\<lparr>sc_replicas := bt_adjust node f (sc_replicas st)\<rparr>))"

definition require_node :: "node_id \<Rightarrow> unit sim_action" where
  "require_node node st = (rbind (replica_of st node) (\<lambda>_. Ok ()), st)"

definition no_message :: "u64 \<Rightarrow> cluster_error" where
  "no_message i = ClusterNotFound (ascii ''message '' @ decimal (unat i))"

definition find_message :: "u64 \<Rightarrow> sim_cluster \<Rightarrow> message cluster_result" where
  "find_message i st = ok_or (List.find (\<lambda>m. ms_id m = i) (sc_pending st)) (no_message i)"

text \<open>In-place change and removal of the first match.\<close>

fun update_first :: "('a \<Rightarrow> bool) \<Rightarrow> ('a \<Rightarrow> 'a) \<Rightarrow> 'a list \<Rightarrow> 'a list" where
  "update_first p f [] = []"
| "update_first p f (x # xs) = (if p x then f x # xs else x # update_first p f xs)"

fun remove_first :: "('a \<Rightarrow> bool) \<Rightarrow> 'a list \<Rightarrow> 'a list" where
  "remove_first p [] = []"
| "remove_first p (x # xs) = (if p x then xs else x # remove_first p xs)"

definition push_trace :: "bytes \<Rightarrow> unit sim_action" where
  "push_trace t = cmodify (\<lambda>st. st\<lparr>sc_trace := sc_trace st @ [t]\<rparr>)"

definition take_message_id :: "u64 sim_action" where
  "take_message_id st = (Ok (sc_next_message_id st), st\<lparr>sc_next_message_id := saturating_add (sc_next_message_id st) 1\<rparr>)"

definition enqueue :: "node_id \<Rightarrow> node_id \<Rightarrow> message_kind \<Rightarrow> unit sim_action" where
  "enqueue src dst kind =
     cbind take_message_id (\<lambda>i.
     cmodify (\<lambda>st. st\<lparr>sc_pending := sc_pending st @ [\<lparr>ms_id = i, ms_from = src, ms_to = dst,
                        ms_deliver_at = sc_now st, ms_kind = kind\<rparr>]\<rparr>))"

definition can_deliver :: "sim_cluster \<Rightarrow> message \<Rightarrow> bool" where
  "can_deliver st m \<longleftrightarrow> ms_deliver_at m \<le> sc_now st
     \<and> (case bt_get (sc_replicas st) (ms_from m) of Some r \<Rightarrow> online r \<and> disk_present r | None \<Rightarrow> False)
     \<and> (case bt_get (sc_replicas st) (ms_to m) of Some r \<Rightarrow> online r \<and> disk_present r | None \<Rightarrow> False)
     \<and> (ms_from m, ms_to m) \<notin> sc_blocked st"

definition sim_quorum :: "sim_cluster \<Rightarrow> nat" where
  "sim_quorum st = policy_quorum (sp_policy (sc_placement st))"

definition reachable_voters :: "sim_cluster \<Rightarrow> nat" where
  "reachable_voters st =
     length (filter (\<lambda>r. (case bt_get (sc_replicas st) (rp_node r) of Some s \<Rightarrow> online s \<and> disk_present s | None \<Rightarrow> False)
         \<and> (rp_node r = sc_leader st \<or> (sc_leader st, rp_node r) \<notin> sc_blocked st))
       (placement_voters (sc_placement st)))"

definition followers :: "sim_cluster \<Rightarrow> node_id list" where
  "followers st = map rp_node (filter (\<lambda>r. rp_node r \<noteq> sc_leader st) (placement_voters (sc_placement st)))"

definition is_acknowledged :: "sim_cluster \<Rightarrow> u64 \<Rightarrow> bool" where
  "is_acknowledged st index \<longleftrightarrow> bt_get (sc_acknowledged st) index \<noteq> None"

section \<open>Safety check and evidence\<close>

definition diverged :: "sim_cluster \<Rightarrow> u64 \<Rightarrow> bool" where
  "diverged st index \<longleftrightarrow>
     card (set (List.map_filter (\<lambda>(_, r). map_option (\<lambda>e. (le_term e, le_command_digest e)) (bt_get (rlog r) index))
       (sc_replicas st))) > 1"

definition durable_copies :: "sim_cluster \<Rightarrow> u64 \<Rightarrow> bytes \<Rightarrow> nat" where
  "durable_copies st index digest =
     length (filter (\<lambda>e. le_command_digest e = digest)
       (List.map_filter (\<lambda>(_, r). bt_get (rlog r) index) (sc_replicas st)))"

definition verify_safety :: "sim_cluster \<Rightarrow> unit cluster_result" where
  "verify_safety st =
     rbind (try_fold (\<lambda>(_, r) _. ensure (\<not> (commit_index r > 0 \<and> bt_get (rlog r) (commit_index r) = None))
         (ClusterDenied (ascii ''replica commit index advances beyond its durable log''))) (sc_replicas st) ()) (\<lambda>_.
     rbind (try_fold (\<lambda>index _. ensure (\<not> diverged st index)
         (ClusterDenied (ascii ''replicas diverged at log index '' @ decimal (unat index))))
       (bs_collect (concat (map (\<lambda>(_, r). map fst (rlog r)) (sc_replicas st)))) ()) (\<lambda>_.
     let tolerance = tolerated_failures (sp_policy (sc_placement st)) in
     try_fold (\<lambda>(index, digest) _.
         ensure (\<not> (card (sc_disk_losses st) \<le> tolerance \<and> durable_copies st index digest = 0))
           (ClusterDenied (ascii ''acknowledged entry '' @ decimal (unat index)
              @ ascii '' was lost within configured fault tolerance'')))
       (sc_acknowledged st) ()))"

definition pending_message_ids :: "sim_cluster \<Rightarrow> u64 list" where
  "pending_message_ids st = sort (map ms_id (sc_pending st))"

definition sim_evidence_of :: "(shard_placement \<Rightarrow> bytes + bytes) \<Rightarrow> sim_cluster \<Rightarrow> sim_evidence cluster_result" where
  "sim_evidence_of to_vec st =
     rbind (verify_safety st) (\<lambda>_.
     rbind (placement_digest to_vec (sc_placement st)) (\<lambda>digest.
     Ok \<lparr>se_seed = sc_seed st, se_now = sc_now st, se_leader = sc_leader st, se_placement_digest = digest,
         se_acknowledged = sc_acknowledged st,
         se_replica_logs = map (\<lambda>(n, r). (n, map snd (rlog r))) (sc_replicas st),
         se_replica_commit_indexes = map (\<lambda>(n, r). (n, commit_index r)) (sc_replicas st),
         se_pending_message_ids = pending_message_ids st, se_disk_losses = sc_disk_losses st,
         se_trace = sc_trace st\<rparr>))"

definition state_digest :: "(u64, log_entry) btree \<Rightarrow> u64 \<Rightarrow> bytes" where
  "state_digest lg through =
     sha256_hex (ascii ''vyrm.cluster.state.v1''
       @ concat (map (\<lambda>e. u64_to_be_bytes (le_term e) @ u64_to_be_bytes (le_index e) @ le_command_digest e)
           (filter (\<lambda>e. le_index e \<le> through) (map snd lg))))"

definition leader_stamp :: "sim_cluster \<Rightarrow> shard_read_stamp cluster_result" where
  "leader_stamp st =
     rbind (replica_of st (sc_leader st)) (\<lambda>r.
     if \<not> online r \<or> \<not> disk_present r \<or> reachable_voters st < sim_quorum st
     then Err (ClusterUnavailable (ascii ''linearizable read requires an online leader connected to quorum''))
     else Ok \<lparr>rs_term = 1, rs_commit_index = commit_index r, rs_placement_epoch = sp_epoch (sc_placement st),
              rs_state_digest = state_digest (rlog r) (commit_index r)\<rparr>)"

definition standard_three_zone_policy :: placement_policy where
  "standard_three_zone_policy = \<lparr>pp_voter_count = 3, pp_minimum_voter_zones = 3, pp_maximum_voters_per_zone = 1\<rparr>"

section \<open>Proposals and delivery\<close>

definition sim_new :: "u64 \<Rightarrow> shard_placement \<Rightarrow> node_id \<Rightarrow> sim_cluster cluster_result" where
  "sim_new seed placement leader =
     rbind (placement_validate placement) (\<lambda>_.
     rbind (ok_or (List.find (\<lambda>r. rp_node r = leader) (sp_replicas placement))
              (ClusterInvalid (ascii ''leader is absent from placement''))) (\<lambda>leader_replica.
     if rp_role leader_replica \<noteq> Voter then Err (ClusterInvalid (ascii ''leader must be a voter''))
     else Ok \<lparr>sc_seed = seed, sc_placement = placement, sc_leader = leader, sc_now = 0, sc_next_message_id = 1,
              sc_replicas = fold (\<lambda>r. bt_insert (rp_node r) \<lparr>online = True, disk_present = True, clock_offset_ms = 0,
                                        rlog = [], commit_index = 0\<rparr>) (sp_replicas placement) [],
              sc_blocked = {}, sc_pending = [], sc_acknowledgements = [], sc_acknowledged = [],
              sc_disk_losses = {}, sc_trace = []\<rparr>))"

definition broadcast :: "message_kind \<Rightarrow> unit sim_action" where
  "broadcast kind st =
     cfor (followers st) (\<lambda>follower _. enqueue (sc_leader st) follower kind) () st"

definition acknowledge :: "u64 \<Rightarrow> node_id \<Rightarrow> sim_cluster \<Rightarrow> sim_cluster" where
  "acknowledge index node st =
     st\<lparr>sc_acknowledgements := bt_update index {} (insert node) (sc_acknowledgements st)\<rparr>"

definition maybe_commit :: "u64 \<Rightarrow> unit sim_action" where
  "maybe_commit index st =
     (if is_acknowledged st index
         \<or> (case bt_get (sc_acknowledgements st) index of None \<Rightarrow> 0 | Some s \<Rightarrow> card s) < sim_quorum st
      then (Ok (), st)
      else
      cbind (clift (replica_of st (sc_leader st))) (\<lambda>r.
      cbind (clift (ok_or (bt_get (rlog r) index) (ClusterDenied (ascii ''leader lost proposed entry'')))) (\<lambda>entry.
      cbind (cmodify (\<lambda>st. st\<lparr>sc_acknowledged := bt_insert index (le_command_digest entry) (sc_acknowledged st)\<rparr>)) (\<lambda>_.
      cbind (replica_mut (sc_leader st) (\<lambda>r. r\<lparr>commit_index := index\<rparr>)) (\<lambda>_.
      cbind (broadcast (MCommit (le_term entry) index)) (\<lambda>_.
      push_trace (ascii ''acknowledged:'' @ decimal (unat index))))))) st)"

definition last_index :: "(u64, log_entry) btree \<Rightarrow> u64" where
  "last_index lg = (if lg = [] then 0 else fst (last lg))"

definition propose :: "bytes \<Rightarrow> u64 sim_action" where
  "propose command st =
     cbind (clift (replica_of st (sc_leader st))) (\<lambda>leader.
     if \<not> online leader \<or> \<not> disk_present leader
     then clift (Err (ClusterUnavailable (ascii ''leader cannot durably accept a proposal'')))
     else
     let index = last_index (rlog leader) + 1;
         entry = \<lparr>le_term = 1, le_index = index, le_command_digest = sha256_hex command\<rparr> in
     cbind (replica_mut (sc_leader st) (\<lambda>r. r\<lparr>rlog := bt_insert index entry (rlog r)\<rparr>)) (\<lambda>_.
     cbind (cmodify (acknowledge index (sc_leader st))) (\<lambda>_.
     cbind (broadcast (MAppend entry)) (\<lambda>_.
     cbind (push_trace (ascii ''propose:'' @ decimal (unat index))) (\<lambda>_.
     cbind (maybe_commit index) (\<lambda>_.
     cok index)))))) st"

text \<open>What a delivered message does to the state.\<close>

definition receive_append :: "message \<Rightarrow> log_entry \<Rightarrow> unit sim_action" where
  "receive_append m entry st =
     cbind (clift (replica_of st (ms_to m))) (\<lambda>target.
     if le_index entry > 1 \<and> bt_get (rlog target) (le_index entry - 1) = None
     then clift (Err (ClusterUnavailable (ascii ''replica '' @ ms_to m @ ascii '' rejected out-of-order index ''
            @ decimal (unat (le_index entry)))))
     else
     cbind (case bt_get (rlog target) (le_index entry) of
              Some existing \<Rightarrow>
                clift (ensure (existing = entry) (ClusterDenied (ascii ''conflicting duplicate at index ''
                  @ decimal (unat (le_index entry)))))
            | None \<Rightarrow> replica_mut (ms_to m) (\<lambda>r. r\<lparr>rlog := bt_insert (le_index entry) entry (rlog r)\<rparr>)) (\<lambda>_.
     enqueue (ms_to m) (ms_from m) (MAck (le_term entry) (le_index entry)))) st"

definition receive_ack :: "message \<Rightarrow> u64 \<Rightarrow> u64 \<Rightarrow> unit sim_action" where
  "receive_ack m term index st =
     (if term \<noteq> 1 \<or> ms_to m \<noteq> sc_leader st
      then (Err (ClusterDenied (ascii ''invalid acknowledgement route'')), st)
      else cbind (cmodify (acknowledge index (ms_from m))) (\<lambda>_. maybe_commit index) st)"

definition receive_commit :: "message \<Rightarrow> u64 \<Rightarrow> u64 \<Rightarrow> unit sim_action" where
  "receive_commit m term index st =
     (if term \<noteq> 1 \<or> ms_from m \<noteq> sc_leader st
      then (Err (ClusterDenied (ascii ''invalid commit route'')), st)
      else
      cbind (clift (replica_of st (ms_to m))) (\<lambda>target.
      if bt_get (rlog target) index = None
      then clift (Err (ClusterUnavailable (ascii ''replica '' @ ms_to m @ ascii '' cannot commit absent index ''
             @ decimal (unat index))))
      else replica_mut (ms_to m) (\<lambda>r. r\<lparr>commit_index := max (commit_index r) index\<rparr>)) st)"

definition receive :: "message \<Rightarrow> unit sim_action" where
  "receive m =
     (case ms_kind m of
        MAppend entry \<Rightarrow> receive_append m entry
      | MAck term index \<Rightarrow> receive_ack m term index
      | MCommit term index \<Rightarrow> receive_commit m term index)"

definition deliver :: "u64 \<Rightarrow> unit sim_action" where
  "deliver message_id st =
     (case find_message message_id st of
        Inl e \<Rightarrow> (Err e, st)
      | Inr m \<Rightarrow>
          if \<not> can_deliver st m
          then (Err (ClusterUnavailable (ascii ''message '' @ decimal (unat message_id)
                  @ ascii '' is delayed, partitioned, or targets an offline node'')), st)
          else
          cbind (cmodify (\<lambda>st. st\<lparr>sc_pending := remove_first (\<lambda>m. ms_id m = message_id) (sc_pending st)\<rparr>)) (\<lambda>_.
          cbind (receive m) (\<lambda>_.
          cbind (push_trace (ascii ''deliver:'' @ decimal (unat message_id))) (\<lambda>_.
          (\<lambda>st. (verify_safety st, st))))) st)"

section \<open>Faults and time\<close>

definition decimal_i64 :: "64 word \<Rightarrow> bytes" where
  "decimal_i64 w = (if sint w < 0 then ascii ''-'' @ decimal (nat (- sint w)) else decimal (nat (sint w)))"

definition pair_trace :: "string \<Rightarrow> bytes \<Rightarrow> bytes \<Rightarrow> bytes" where
  "pair_trace tag a b = ascii tag @ a @ ascii '':'' @ b"

fun apply_fault :: "sim_fault \<Rightarrow> unit sim_action" where
  "apply_fault (Partition left right) =
     cbind (require_node left) (\<lambda>_.
     cbind (require_node right) (\<lambda>_.
     cbind (cmodify (\<lambda>st. st\<lparr>sc_blocked := insert (right, left) (insert (left, right) (sc_blocked st))\<rparr>)) (\<lambda>_.
     push_trace (pair_trace ''partition:'' left right))))"
| "apply_fault (Heal left right) =
     cbind (cmodify (\<lambda>st. st\<lparr>sc_blocked := sc_blocked st - {(left, right), (right, left)}\<rparr>)) (\<lambda>_.
     push_trace (pair_trace ''heal:'' left right))"
| "apply_fault (Delay message_id ticks) =
     cbind (\<lambda>st. (find_message message_id st, st)) (\<lambda>_.
     cbind (cmodify (\<lambda>st. st\<lparr>sc_pending := update_first (\<lambda>m. ms_id m = message_id)
              (\<lambda>m. m\<lparr>ms_deliver_at := saturating_add (ms_deliver_at m) ticks\<rparr>) (sc_pending st)\<rparr>)) (\<lambda>_.
     push_trace (pair_trace ''delay:'' (decimal (unat message_id)) (decimal (unat ticks)))))"
| "apply_fault (Duplicate message_id) =
     cbind (\<lambda>st. (find_message message_id st, st)) (\<lambda>m.
     cbind take_message_id (\<lambda>duplicate_id.
     cbind (cmodify (\<lambda>st. st\<lparr>sc_pending := sc_pending st @ [m\<lparr>ms_id := duplicate_id\<rparr>]\<rparr>)) (\<lambda>_.
     push_trace (pair_trace ''duplicate:'' (decimal (unat message_id)) (decimal (unat duplicate_id))))))"
| "apply_fault (Deliver message_id) = deliver message_id"
| "apply_fault (Reorder message_ids) = cfor message_ids (\<lambda>message_id _. deliver message_id) ()"
| "apply_fault (Crash node) =
     cbind (replica_mut node (\<lambda>r. r\<lparr>online := False\<rparr>)) (\<lambda>_. push_trace (ascii ''crash:'' @ node))"
| "apply_fault (Restart node) =
     cbind (\<lambda>st. (replica_of st node, st)) (\<lambda>r.
     if \<not> disk_present r
     then clift (Err (ClusterUnavailable (ascii ''node '' @ node
            @ ascii '' cannot restart without a replacement disk and transfer'')))
     else cbind (replica_mut node (\<lambda>r. r\<lparr>online := True\<rparr>)) (\<lambda>_. push_trace (ascii ''restart:'' @ node)))"
| "apply_fault (ClockSkew node offset_ms) =
     cbind (replica_mut node (\<lambda>r. r\<lparr>clock_offset_ms := offset_ms\<rparr>)) (\<lambda>_.
     push_trace (pair_trace ''clock_skew:'' node (decimal_i64 offset_ms)))"
| "apply_fault (DiskLoss node) =
     cbind (replica_mut node (\<lambda>r. r\<lparr>online := False, disk_present := False, rlog := [], commit_index := 0\<rparr>)) (\<lambda>_.
     cbind (cmodify (\<lambda>st. st\<lparr>sc_disk_losses := insert node (sc_disk_losses st)\<rparr>)) (\<lambda>_.
     push_trace (ascii ''disk_loss:'' @ node)))"

definition sim_apply :: "sim_fault \<Rightarrow> unit sim_action" where
  "sim_apply fault = cbind (apply_fault fault) (\<lambda>_. (\<lambda>st. (verify_safety st, st)))"

definition advance :: "u64 \<Rightarrow> sim_cluster \<Rightarrow> sim_cluster" where
  "advance ticks st =
     st\<lparr>sc_now := saturating_add (sc_now st) ticks, sc_trace := sc_trace st @ [ascii ''advance:'' @ decimal (unat ticks)]\<rparr>"

section \<open>What the steps do\<close>

lemma policy_quorum_pos: "0 < policy_quorum p"
proof -
  have "unat (pp_voter_count p) < 256" using unat_less_exp [of "pp_voter_count p"] by simp
  then have "policy_quorum p = unat (pp_voter_count p) div 2 + 1"
    by (simp add: policy_quorum_def unat_word_ariths unat_div_distrib)
  then show ?thesis by simp
qed

definition sent :: "node_id \<Rightarrow> node_id list \<Rightarrow> message_kind \<Rightarrow> message list \<Rightarrow> bool" where
  "sent src dsts kind ms \<longleftrightarrow> map ms_to ms = dsts \<and> (\<forall>m\<in>set ms. ms_from m = src \<and> ms_kind m = kind)"

lemma enqueue_all:
  "\<exists>j ms. cfor ds (\<lambda>d _. enqueue src d kind) () st =
      (Ok (), st\<lparr>sc_next_message_id := j, sc_pending := sc_pending st @ ms\<rparr>) \<and> sent src ds kind ms"
proof (induction ds arbitrary: st)
  case Nil
  show ?case by (intro exI [of _ "sc_next_message_id st"] exI [of _ "[]"]) (simp add: cok_def sent_def)
next
  case (Cons d ds)
  define m where "m = \<lparr>ms_id = sc_next_message_id st, ms_from = src, ms_to = d, ms_deliver_at = sc_now st, ms_kind = kind\<rparr>"
  define st1 where "st1 = st\<lparr>sc_next_message_id := saturating_add (sc_next_message_id st) 1, sc_pending := sc_pending st @ [m]\<rparr>"
  have e: "enqueue src d kind st = (Ok (), st1)"
    by (simp add: enqueue_def cbind_def take_message_id_def cmodify_def st1_def m_def)
  obtain j ms where ih: "cfor ds (\<lambda>d _. enqueue src d kind) () st1 =
      (Ok (), st1\<lparr>sc_next_message_id := j, sc_pending := sc_pending st1 @ ms\<rparr>)" "sent src ds kind ms"
    using Cons.IH by blast
  have "cfor (d # ds) (\<lambda>d _. enqueue src d kind) () st =
      (Ok (), st\<lparr>sc_next_message_id := j, sc_pending := sc_pending st @ (m # ms)\<rparr>)"
    using ih(1) by (simp add: cbind_def e) (simp add: st1_def)
  moreover have "sent src (d # ds) kind (m # ms)" using ih(2) by (simp add: sent_def m_def)
  ultimately show ?case by blast
qed

lemma broadcast_ok:
  "\<exists>j ms. broadcast kind st = (Ok (), st\<lparr>sc_next_message_id := j, sc_pending := sc_pending st @ ms\<rparr>)
    \<and> sent (sc_leader st) (followers st) kind ms"
  unfolding broadcast_def by (rule enqueue_all)

lemma replica_mut_simps:
  "bt_get (sc_replicas st) n = Some r \<Longrightarrow>
    replica_mut n f st = (Ok (), st\<lparr>sc_replicas := bt_adjust n f (sc_replicas st)\<rparr>)"
  "bt_get (sc_replicas st) n = None \<Longrightarrow> replica_mut n f st = (Err (ClusterNotFound (ascii ''node '' @ n)), st)"
  by (simp_all add: replica_mut_def replica_of_def)

lemma followers_simps [simp]:
  "followers (st\<lparr>sc_pending := x1\<rparr>) = followers st" "followers (st\<lparr>sc_next_message_id := x2\<rparr>) = followers st"
  "followers (st\<lparr>sc_replicas := x3\<rparr>) = followers st" "followers (st\<lparr>sc_acknowledged := x4\<rparr>) = followers st"
  "followers (st\<lparr>sc_acknowledgements := x5\<rparr>) = followers st" "followers (st\<lparr>sc_trace := x6\<rparr>) = followers st"
  "followers (st\<lparr>sc_blocked := x7\<rparr>) = followers st" "followers (st\<lparr>sc_disk_losses := x8\<rparr>) = followers st"
  by (simp_all add: followers_def)

definition committed :: "u64 \<Rightarrow> log_entry \<Rightarrow> u64 \<Rightarrow> message list \<Rightarrow> sim_cluster \<Rightarrow> sim_cluster" where
  "committed index entry j ms st =
     st\<lparr>sc_acknowledged := bt_insert index (le_command_digest entry) (sc_acknowledged st),
        sc_replicas := bt_adjust (sc_leader st) (\<lambda>r. r\<lparr>commit_index := index\<rparr>) (sc_replicas st),
        sc_next_message_id := j, sc_pending := sc_pending st @ ms,
        sc_trace := sc_trace st @ [ascii ''acknowledged:'' @ decimal (unat index)]\<rparr>"

lemma maybe_commit_cases:
  obtains (skip) "maybe_commit i st = (Ok (), st)"
  | (fail) e where "maybe_commit i st = (Err e, st)"
      "\<And>r. bt_get (sc_replicas st) (sc_leader st) = Some r \<Longrightarrow> bt_get (rlog r) i = None"
  | (commit) r entry s j ms where "bt_get (sc_replicas st) (sc_leader st) = Some r" "bt_get (rlog r) i = Some entry"
      "bt_get (sc_acknowledgements st) i = Some s" "sim_quorum st \<le> card s"
      "maybe_commit i st = (Ok (), committed i entry j ms st)" "sent (sc_leader st) (followers st) (MCommit (le_term entry) i) ms"
proof (cases "is_acknowledged st i \<or> (case bt_get (sc_acknowledgements st) i of None \<Rightarrow> 0 | Some s \<Rightarrow> card s) < sim_quorum st")
  case True
  then show thesis by (intro skip) (simp add: maybe_commit_def)
next
  case False
  then obtain s where s: "bt_get (sc_acknowledgements st) i = Some s" "sim_quorum st \<le> card s"
    using policy_quorum_pos by (cases "bt_get (sc_acknowledgements st) i") (auto simp: sim_quorum_def)
  show thesis
  proof (cases "\<exists>r entry. bt_get (sc_replicas st) (sc_leader st) = Some r \<and> bt_get (rlog r) i = Some entry")
    case True
    then obtain r entry where r: "bt_get (sc_replicas st) (sc_leader st) = Some r" "bt_get (rlog r) i = Some entry" by blast
    define st1 where "st1 = st\<lparr>sc_acknowledged := bt_insert i (le_command_digest entry) (sc_acknowledged st)\<rparr>"
    define st2 where "st2 = st1\<lparr>sc_replicas := bt_adjust (sc_leader st) (\<lambda>r. r\<lparr>commit_index := i\<rparr>) (sc_replicas st1)\<rparr>"
    obtain j ms where b: "broadcast (MCommit (le_term entry) i) st2 = (Ok (), st2\<lparr>sc_next_message_id := j, sc_pending := sc_pending st2 @ ms\<rparr>)"
      "sent (sc_leader st2) (followers st2) (MCommit (le_term entry) i) ms"
      using broadcast_ok by blast
    have "replica_mut (sc_leader st) (\<lambda>r. r\<lparr>commit_index := i\<rparr>) st1 = (Ok (), st2)"
      unfolding st2_def by (rule replica_mut_simps(1) [of _ _ r]) (simp add: st1_def r)
    then have "maybe_commit i st = (Ok (), committed i entry j ms st)"
      using False r by (simp add: maybe_commit_def cbind_def clift_def cmodify_def replica_of_def b push_trace_def flip: st1_def)
        (simp add: committed_def st1_def st2_def)
    moreover have "sent (sc_leader st) (followers st) (MCommit (le_term entry) i) ms"
      using b(2) by (simp add: st2_def st1_def)
    ultimately show thesis using commit r s by blast
  next
    case none: False
    show thesis
    proof (cases "bt_get (sc_replicas st) (sc_leader st)")
      case None
      with False none show thesis
        by (intro fail [of "ClusterNotFound (ascii ''node '' @ sc_leader st)"])
          (simp_all add: maybe_commit_def cbind_def clift_def replica_of_def)
    next
      case (Some r)
      with False none show thesis
        by (intro fail [of "ClusterDenied (ascii ''leader lost proposed entry'')"])
          (auto simp: maybe_commit_def cbind_def clift_def replica_of_def)
    qed
  qed
qed

section \<open>Delivery of everything that is ready\<close>

text \<open>An append makes one acknowledgement, an acknowledgement at most one commit for every follower, a commit
  nothing: the weight of the queue falls with every delivery.\<close>

fun kind_weight :: "nat \<Rightarrow> message_kind \<Rightarrow> nat" where
  "kind_weight n (MAppend _) = n + 2"
| "kind_weight n (MAck _ _) = n + 1"
| "kind_weight n (MCommit _ _) = 1"

definition queue_weight :: "nat \<Rightarrow> message list \<Rightarrow> nat" where
  "queue_weight n ms = (\<Sum>m\<leftarrow>ms. kind_weight n (ms_kind m))"

lemma queue_weight_simps [simp]:
  "queue_weight n [] = 0"
  "queue_weight n (m # ms) = kind_weight n (ms_kind m) + queue_weight n ms"
  "queue_weight n (ms @ ms') = queue_weight n ms + queue_weight n ms'"
  by (simp_all add: queue_weight_def)

lemma queue_weight_remove:
  "List.find p ms = Some m \<Longrightarrow> queue_weight n ms = kind_weight n (ms_kind m) + queue_weight n (remove_first p ms)"
  by (induction ms) (auto split: if_splits)

lemma queue_weight_sent: "sent src ds (MCommit t i) ms \<Longrightarrow> queue_weight n ms = length ds"
proof -
  assume s: "sent src ds (MCommit t i) ms"
  then have "queue_weight n ms = length ms" unfolding sent_def by (induction ms arbitrary: ds) auto
  moreover have "length ms = length ds" using s unfolding sent_def by (metis length_map)
  ultimately show ?thesis by simp
qed

lemma enqueue_ok:
  "enqueue src dst kind st = (Ok (), st\<lparr>sc_next_message_id := saturating_add (sc_next_message_id st) 1,
     sc_pending := sc_pending st @ [\<lparr>ms_id = sc_next_message_id st, ms_from = src, ms_to = dst, ms_deliver_at = sc_now st, ms_kind = kind\<rparr>]\<rparr>)"
  by (simp add: enqueue_def cbind_def take_message_id_def cmodify_def)

definition with_row :: "node_id \<Rightarrow> log_entry \<Rightarrow> sim_cluster \<Rightarrow> sim_cluster" where
  "with_row n entry st =
     st\<lparr>sc_replicas := bt_adjust n (\<lambda>r. r\<lparr>rlog := bt_insert (le_index entry) entry (rlog r)\<rparr>) (sc_replicas st)\<rparr>"

lemma receive_append_cases:
  obtains (rejected) e where "receive_append m entry st = (Err e, st)"
    "\<And>x. e = ClusterDenied x \<Longrightarrow> \<exists>r old. bt_get (sc_replicas st) (ms_to m) = Some r \<and> bt_get (rlog r) (le_index entry) = Some old \<and> old \<noteq> entry"
  | (known) r where "bt_get (sc_replicas st) (ms_to m) = Some r" "bt_get (rlog r) (le_index entry) = Some entry"
      "receive_append m entry st = enqueue (ms_to m) (ms_from m) (MAck (le_term entry) (le_index entry)) st"
  | (fresh) r where "bt_get (sc_replicas st) (ms_to m) = Some r" "bt_get (rlog r) (le_index entry) = None"
      "receive_append m entry st =
         enqueue (ms_to m) (ms_from m) (MAck (le_term entry) (le_index entry)) (with_row (ms_to m) entry st)"
proof (cases "bt_get (sc_replicas st) (ms_to m)")
  case None
  then show thesis by (intro rejected) (auto simp: receive_append_def cbind_def clift_def replica_of_def)
next
  case (Some r)
  show thesis
  proof (cases "le_index entry > 1 \<and> bt_get (rlog r) (le_index entry - 1) = None")
    case True
    with Some show thesis by (intro rejected) (auto simp: receive_append_def cbind_def clift_def replica_of_def)
  next
    case ordered: False
    show thesis
    proof (cases "bt_get (rlog r) (le_index entry)")
      case None
      with Some ordered show thesis
        by (intro fresh) (auto simp: receive_append_def cbind_def clift_def replica_of_def replica_mut_simps with_row_def)
    next
      case old: (Some old)
      show thesis
      proof (cases "old = entry")
        case True
        with Some ordered old show thesis
          by (intro known) (auto simp: receive_append_def cbind_def clift_def replica_of_def)
      next
        case False
        with Some ordered old show thesis
          by (intro rejected [of "ClusterDenied (ascii ''conflicting duplicate at index '' @ decimal (unat (le_index entry)))"])
            (auto simp: receive_append_def cbind_def clift_def replica_of_def ensure_def)
      qed
    qed
  qed
qed

lemma receive_weight:
  assumes "receive m st = (Ok (), st')"
  shows "followers st' = followers st \<and>
    (\<exists>ms. sc_pending st' = sc_pending st @ ms \<and> queue_weight (length (followers st)) ms < kind_weight (length (followers st)) (ms_kind m))"
proof (cases "ms_kind m")
  case (MAppend entry)
  show ?thesis
    by (rule receive_append_cases [of m entry st])
      (use assms in \<open>auto simp: receive_def MAppend enqueue_ok with_row_def\<close>)
next
  case (MAck t i)
  let ?st = "acknowledge i (ms_from m) st"
  have ok: "maybe_commit i ?st = (Ok (), st')"
    using assms by (auto simp: receive_def MAck receive_ack_def cbind_def cmodify_def split: if_splits)
  show ?thesis
    by (rule maybe_commit_cases [of i ?st])
      (use ok in \<open>auto simp: MAck committed_def acknowledge_def queue_weight_sent\<close>)
next
  case (MCommit t i)
  show ?thesis
    using assms
    by (auto simp: receive_def MCommit receive_commit_def cbind_def clift_def replica_of_def replica_mut_def
        split: if_splits option.splits sum.splits)
qed

lemma deliver_ok:
  assumes "deliver i st = (Ok (), st')"
  obtains m st2 where "List.find (\<lambda>m. ms_id m = i) (sc_pending st) = Some m" "can_deliver st m"
    "receive m (st\<lparr>sc_pending := remove_first (\<lambda>m. ms_id m = i) (sc_pending st)\<rparr>) = (Ok (), st2)"
    "st' = st2\<lparr>sc_trace := sc_trace st2 @ [ascii ''deliver:'' @ decimal (unat i)]\<rparr>" "verify_safety st' = Ok ()"
  using assms
  by (auto simp: deliver_def find_message_def cbind_Ok push_trace_def cmodify_def split: sum.splits if_splits option.splits
      simp: ok_or_def)

lemma deliver_weight:
  assumes "deliver i st = (Ok (), st')"
  shows "queue_weight (length (followers st')) (sc_pending st') < queue_weight (length (followers st)) (sc_pending st)"
proof -
  obtain m st2 where m: "List.find (\<lambda>m. ms_id m = i) (sc_pending st) = Some m"
    and r: "receive m (st\<lparr>sc_pending := remove_first (\<lambda>m. ms_id m = i) (sc_pending st)\<rparr>) = (Ok (), st2)"
    and st': "st' = st2\<lparr>sc_trace := sc_trace st2 @ [ascii ''deliver:'' @ decimal (unat i)]\<rparr>"
    using deliver_ok [OF assms] by blast
  from receive_weight [OF r] queue_weight_remove [OF m, of "length (followers st)"] show ?thesis by (auto simp: st')
qed

definition next_ready :: "sim_cluster \<Rightarrow> u64 option" where
  "next_ready st =
     (let ids = map ms_id (filter (\<lambda>m. ms_deliver_at m \<le> sc_now st \<and> can_deliver st m) (sc_pending st)) in
      if ids = [] then None else Some (Min (set ids)))"

function deliver_ready :: "nat \<Rightarrow> nat sim_action" where
  "deliver_ready delivered st =
     (case next_ready st of
        None \<Rightarrow> (Ok delivered, st)
      | Some message_id \<Rightarrow>
          (case deliver message_id st of
             (Inl e, st') \<Rightarrow> (Err e, st')
           | (Inr _, st') \<Rightarrow> deliver_ready (delivered + 1) st'))"
  by pat_completeness auto
termination
  by (relation "measure (\<lambda>(delivered, st). queue_weight (length (followers st)) (sc_pending st))")
    (auto dest: sym [THEN deliver_weight])

declare deliver_ready.simps [simp del]

end
