(* ===== verification/Cluster_Safety.thy ===== *)
theory Cluster_Safety
  imports Cluster_Sim
begin

text \<open>
  Safety of the simulated shard. Every entry ever proposed is recorded once in a map \<open>E\<close> from index to entry;
  the invariant says that logs and messages carry only such entries, that whoever is counted as having acknowledged
  an entry still has it unless its disk was lost, and that an acknowledged entry was counted by a quorum. The checks
  the simulator runs on itself then never fail.
\<close>

section \<open>Invariant\<close>

definition log_at :: "sim_cluster \<Rightarrow> node_id \<Rightarrow> u64 \<Rightarrow> log_entry option" where
  "log_at st n i = Option.bind (bt_get (sc_replicas st) n) (\<lambda>r. bt_get (rlog r) i)"

definition holds :: "sim_cluster \<Rightarrow> node_id \<Rightarrow> u64 \<Rightarrow> bool" where
  "holds st n i \<longleftrightarrow> n \<in> sc_disk_losses st \<or> log_at st n i \<noteq> None"

abbreviation voters :: "sim_cluster \<Rightarrow> node_id set" where
  "voters st \<equiv> voter_nodes (sc_placement st)"

definition base_ok :: "sim_cluster \<Rightarrow> bool" where
  "base_ok st \<longleftrightarrow> placement_validate (sc_placement st) = Ok () \<and> sc_leader st \<in> voters st
     \<and> bt_wf (sc_replicas st) \<and> (\<forall>n\<in>voters st. bt_get (sc_replicas st) n \<noteq> None)
     \<and> bt_wf (sc_acknowledged st) \<and> finite (sc_disk_losses st)"

definition entries_ok :: "(u64 \<Rightarrow> log_entry option) \<Rightarrow> bool" where
  "entries_ok E \<longleftrightarrow> (\<forall>i e. E i = Some e \<longrightarrow> le_term e = 1 \<and> le_index e = i)"

definition replica_ok :: "(u64 \<Rightarrow> log_entry option) \<Rightarrow> bool \<Rightarrow> bool \<Rightarrow> replica_state \<Rightarrow> bool" where
  "replica_ok E lost is_leader r \<longleftrightarrow> bt_wf (rlog r) \<and> bt_get (rlog r) \<subseteq>\<^sub>m E
     \<and> (disk_present r \<longleftrightarrow> \<not> lost) \<and> (lost \<longrightarrow> \<not> online r \<and> rlog r = [])
     \<and> (commit_index r \<noteq> 0 \<longrightarrow> bt_get (rlog r) (commit_index r) \<noteq> None)
     \<and> (is_leader \<and> disk_present r \<longrightarrow> bt_get (rlog r) = E)"

definition replicas_ok :: "(u64 \<Rightarrow> log_entry option) \<Rightarrow> sim_cluster \<Rightarrow> bool" where
  "replicas_ok E st \<longleftrightarrow> (\<forall>n r. bt_get (sc_replicas st) n = Some r \<longrightarrow>
     replica_ok E (n \<in> sc_disk_losses st) (n = sc_leader st) r)"

definition message_ok :: "(u64 \<Rightarrow> log_entry option) \<Rightarrow> sim_cluster \<Rightarrow> message \<Rightarrow> bool" where
  "message_ok E st m \<longleftrightarrow>
     (case ms_kind m of
        MAppend e \<Rightarrow> E (le_index e) = Some e \<and> ms_from m = sc_leader st \<and> ms_to m \<in> voters st
      | MAck t i \<Rightarrow> t = 1 \<and> ms_to m = sc_leader st \<and> ms_from m \<in> voters st \<and> holds st (ms_from m) i \<and> E i \<noteq> None
      | MCommit t i \<Rightarrow> t = 1 \<and> ms_from m = sc_leader st)"

definition queue_ok :: "(u64 \<Rightarrow> log_entry option) \<Rightarrow> sim_cluster \<Rightarrow> bool" where
  "queue_ok E st \<longleftrightarrow> list_all (message_ok E st) (sc_pending st)"

definition acks_ok :: "(u64 \<Rightarrow> log_entry option) \<Rightarrow> sim_cluster \<Rightarrow> bool" where
  "acks_ok E st \<longleftrightarrow>
     (\<forall>i s. bt_get (sc_acknowledgements st) i = Some s \<longrightarrow> s \<subseteq> voters st \<and> (\<forall>n\<in>s. holds st n i) \<and> E i \<noteq> None)
     \<and> (\<forall>i d. bt_get (sc_acknowledged st) i = Some d \<longrightarrow>
          (\<exists>e s. E i = Some e \<and> le_command_digest e = d \<and> bt_get (sc_acknowledgements st) i = Some s \<and> sim_quorum st \<le> card s))"

definition sim_inv :: "(u64 \<Rightarrow> log_entry option) \<Rightarrow> sim_cluster \<Rightarrow> bool" where
  "sim_inv E st \<longleftrightarrow> base_ok st \<and> entries_ok E \<and> replicas_ok E st \<and> queue_ok E st \<and> acks_ok E st"

lemmas sim_inv_defs = sim_inv_def base_ok_def replicas_ok_def queue_ok_def acks_ok_def

lemma sim_invD:
  assumes "sim_inv E st"
  shows "base_ok st" "entries_ok E" "replicas_ok E st" "queue_ok E st" "acks_ok E st"
  using assms by (simp_all add: sim_inv_def)

section \<open>The invariant implies the checks\<close>

lemma bt_set: "bt_wf m \<Longrightarrow> (k, v) \<in> set m \<longleftrightarrow> bt_get m k = Some v"
  unfolding bt_get_def bt_wf_def by (simp add: strict_sorted_iff)

lemma try_fold_all_ok: "(\<And>x. x \<in> set xs \<Longrightarrow> f x () = Ok ()) \<Longrightarrow> try_fold f xs () = Ok ()"
  by (induction xs) auto

lemma rbind_okI: "r = Ok a \<Longrightarrow> f a = Ok b \<Longrightarrow> rbind r f = Ok b"
  by simp

lemma replica_entry:
  assumes "sim_inv E st" and "(n, r) \<in> set (sc_replicas st)"
  shows "replica_ok E (n \<in> sc_disk_losses st) (n = sc_leader st) r" and "bt_get (rlog r) i = Some e \<Longrightarrow> E i = Some e"
proof -
  show ok: "replica_ok E (n \<in> sc_disk_losses st) (n = sc_leader st) r"
    using assms by (auto simp: sim_inv_defs bt_set)
  show "bt_get (rlog r) i = Some e \<Longrightarrow> E i = Some e" using ok by (auto simp: replica_ok_def map_le_def dom_def)
qed

lemma not_diverged:
  assumes inv: "sim_inv E st"
  shows "\<not> diverged st i"
proof -
  let ?f = "\<lambda>(_ :: node_id, r). map_option (\<lambda>e. (le_term e, le_command_digest e)) (bt_get (rlog r) i)"
  have "set (List.map_filter ?f (sc_replicas st)) \<subseteq> (case E i of None \<Rightarrow> {} | Some e \<Rightarrow> {(le_term e, le_command_digest e)})"
    using replica_entry(2) [OF inv] by (force simp: set_map_filter)
  then have "card (set (List.map_filter ?f (sc_replicas st))) \<le> 1"
    by (cases "E i") (auto dest: card_mono [rotated])
  then show ?thesis by (simp add: diverged_def not_less)
qed

lemma acknowledged_durable:
  assumes inv: "sim_inv E st" and ack: "bt_get (sc_acknowledged st) i = Some d"
    and few: "card (sc_disk_losses st) \<le> tolerated_failures (sp_policy (sc_placement st))"
  shows "0 < durable_copies st i d"
proof -
  obtain e s where E: "E i = Some e" "le_command_digest e = d"
    and s: "bt_get (sc_acknowledgements st) i = Some s" "sim_quorum st \<le> card s"
    using sim_invD(5) [OF inv] ack unfolding acks_ok_def by blast
  have sub: "s \<subseteq> voters st" and held: "\<forall>n\<in>s. holds st n i" using sim_invD(5) [OF inv] s(1) unfolding acks_ok_def by blast+
  have "s - sc_disk_losses st \<noteq> {}"
    using sim_invD(1) [OF inv] sub s(2) few by (intro quorum_survives) (auto simp: base_ok_def sim_quorum_def)
  then obtain n where "n \<in> s" "n \<notin> sc_disk_losses st" by blast
  with held obtain r e' where r: "bt_get (sc_replicas st) n = Some r" "bt_get (rlog r) i = Some e'"
    by (fastforce simp: holds_def log_at_def split: bind_splits)
  have mem: "(n, r) \<in> set (sc_replicas st)" using r(1) sim_invD(1) [OF inv] by (simp add: base_ok_def bt_set)
  have "e' = e" using replica_entry(2) [OF inv mem r(2)] E(1) by simp
  then have "e \<in> set (filter (\<lambda>e. le_command_digest e = d) (List.map_filter (\<lambda>(_, r). bt_get (rlog r) i) (sc_replicas st)))"
    using mem r(2) E(2) by (force simp: set_map_filter)
  then show ?thesis unfolding durable_copies_def by (metis length_pos_if_in_set)
qed

lemma verify_safety_inv:
  assumes inv: "sim_inv E st"
  shows "verify_safety st = Ok ()"
proof -
  have "\<not> (commit_index r > 0 \<and> bt_get (rlog r) (commit_index r) = None)" if "(n, r) \<in> set (sc_replicas st)" for n r
    using replica_entry(1) [OF inv that] by (auto simp: replica_ok_def word_neq_0_conv)
  moreover have "\<not> (card (sc_disk_losses st) \<le> tolerated_failures (sp_policy (sc_placement st)) \<and> durable_copies st i d = 0)"
    if "(i, d) \<in> set (sc_acknowledged st)" for i d
    using acknowledged_durable [OF inv, of i d] that sim_invD(1) [OF inv] by (auto simp: base_ok_def bt_set)
  ultimately have commits: "try_fold (\<lambda>(_, r) _. ensure (\<not> (commit_index r > 0 \<and> bt_get (rlog r) (commit_index r) = None)) e) (sc_replicas st) () = Ok ()"
    and kept: "try_fold (\<lambda>(i, d) _. ensure (\<not> (card (sc_disk_losses st) \<le> tolerated_failures (sp_policy (sc_placement st))
        \<and> durable_copies st i d = 0)) (g i)) (sc_acknowledged st) () = Ok ()" for e g
    by (auto intro!: try_fold_all_ok simp: ensure_eq)
  have agree: "try_fold (\<lambda>i _. ensure (\<not> diverged st i) (g i)) is () = Ok ()" for "is" g
    using not_diverged [OF inv] by (intro try_fold_all_ok) simp
  show ?thesis unfolding verify_safety_def Let_def by (rule rbind_okI, rule commits, rule rbind_okI, rule agree, rule kept)
qed

section \<open>Changes that keep the invariant\<close>

text \<open>The parts of the state the invariant does not read.\<close>

lemma message_ok_frame [simp]:
  "message_ok E (st\<lparr>sc_trace := t\<rparr>) = message_ok E st"
  "message_ok E (st\<lparr>sc_now := n\<rparr>) = message_ok E st"
  "message_ok E (st\<lparr>sc_blocked := b\<rparr>) = message_ok E st"
  "message_ok E (st\<lparr>sc_next_message_id := j\<rparr>) = message_ok E st"
  "message_ok E (st\<lparr>sc_pending := ms\<rparr>) = message_ok E st"
  "message_ok E (st\<lparr>sc_acknowledgements := a\<rparr>) = message_ok E st"
  "message_ok E (st\<lparr>sc_acknowledged := d\<rparr>) = message_ok E st"
  by (simp_all add: message_ok_def fun_eq_iff holds_def log_at_def cong: message_kind.case_cong)

lemma holds_frame [simp]:
  "holds (st\<lparr>sc_trace := t\<rparr>) = holds st"
  "holds (st\<lparr>sc_now := n\<rparr>) = holds st"
  "holds (st\<lparr>sc_blocked := b\<rparr>) = holds st"
  "holds (st\<lparr>sc_next_message_id := j\<rparr>) = holds st"
  "holds (st\<lparr>sc_pending := ms\<rparr>) = holds st"
  "holds (st\<lparr>sc_acknowledgements := a\<rparr>) = holds st"
  "holds (st\<lparr>sc_acknowledged := d\<rparr>) = holds st"
  by (simp_all add: holds_def log_at_def fun_eq_iff)

lemma sim_inv_frame [simp]:
  "sim_inv E (st\<lparr>sc_trace := t\<rparr>) = sim_inv E st"
  "sim_inv E (st\<lparr>sc_now := n\<rparr>) = sim_inv E st"
  "sim_inv E (st\<lparr>sc_blocked := b\<rparr>) = sim_inv E st"
  "sim_inv E (st\<lparr>sc_next_message_id := j\<rparr>) = sim_inv E st"
  by (simp_all add: sim_inv_defs sim_quorum_def)

lemma sim_inv_pending:
  "sim_inv E (st\<lparr>sc_pending := ms\<rparr>) \<longleftrightarrow>
    base_ok st \<and> entries_ok E \<and> replicas_ok E st \<and> acks_ok E st \<and> list_all (message_ok E st) ms"
  by (auto simp: sim_inv_defs sim_quorum_def)

lemma sim_inv_push: "sim_inv E st \<Longrightarrow> list_all (message_ok E st) ms \<Longrightarrow> sim_inv E (st\<lparr>sc_pending := sc_pending st @ ms\<rparr>)"
  unfolding sim_inv_pending by (simp add: sim_inv_def queue_ok_def)

lemma sim_inv_send:
  "sim_inv E st \<Longrightarrow> list_all (message_ok E st) ms \<Longrightarrow> sim_inv E (st\<lparr>sc_next_message_id := j, sc_pending := sc_pending st @ ms\<rparr>)"
  using sim_inv_push [of E "st\<lparr>sc_next_message_id := j\<rparr>" ms] by simp

lemma sim_inv_remove: "sim_inv E st \<Longrightarrow> sim_inv E (st\<lparr>sc_pending := remove_first p (sc_pending st)\<rparr>)"
proof -
  have "set (remove_first p ms) \<subseteq> set ms" for ms :: "message list" by (induction ms) auto
  then show "sim_inv E st \<Longrightarrow> ?thesis" unfolding sim_inv_pending by (auto simp: sim_inv_def queue_ok_def list_all_iff)
qed

text \<open>Logs only grow.\<close>

lemma log_at_adjust:
  assumes "\<And>r. bt_get (sc_replicas st) n = Some r \<Longrightarrow> bt_get (rlog r) \<subseteq>\<^sub>m bt_get (rlog (f r))"
  shows "log_at st k i = Some e \<Longrightarrow> log_at (st\<lparr>sc_replicas := bt_adjust n f (sc_replicas st)\<rparr>) k i = Some e"
  using assms by (auto simp: log_at_def bt_get_adjust map_le_def dom_def split: bind_splits)

lemma sim_inv_adjust:
  assumes inv: "sim_inv E st"
    and f: "\<And>r. bt_get (sc_replicas st) n = Some r \<Longrightarrow>
      replica_ok E (n \<in> sc_disk_losses st) (n = sc_leader st) (f r) \<and> bt_get (rlog r) \<subseteq>\<^sub>m bt_get (rlog (f r))"
  shows "sim_inv E (st\<lparr>sc_replicas := bt_adjust n f (sc_replicas st)\<rparr>)" (is "sim_inv E ?st")
proof -
  have grow: "holds st k i \<Longrightarrow> holds ?st k i" for k i
    using log_at_adjust [of st n f k i] f by (auto simp: holds_def)
  have msg: "message_ok E st m \<Longrightarrow> message_ok E ?st m" for m
    using grow by (auto simp: message_ok_def split: message_kind.splits)
  have "replicas_ok E ?st"
    using inv f by (auto simp: sim_inv_defs bt_get_adjust split: if_splits)
  moreover have "queue_ok E ?st" using sim_invD(4) [OF inv] msg by (auto simp: queue_ok_def list_all_iff)
  moreover have "acks_ok E ?st"
    using sim_invD(5) [OF inv] grow unfolding acks_ok_def by (simp add: sim_quorum_def)
  moreover have "base_ok ?st" using sim_invD(1) [OF inv] by (auto simp: base_ok_def bt_wf_adjust bt_get_adjust)
  ultimately show ?thesis using sim_invD(2) [OF inv] by (simp add: sim_inv_def)
qed

lemma sim_inv_replica:
  assumes "sim_inv E st" and "bt_get (sc_replicas st) n = Some r"
  shows "replica_ok E (n \<in> sc_disk_losses st) (n = sc_leader st) r"
  using assms by (simp add: sim_inv_defs)

lemma sim_inv_acknowledge:
  assumes inv: "sim_inv E st" and n: "n \<in> voters st" "holds st n i" "E i \<noteq> None"
  shows "sim_inv E (acknowledge i n st)"
proof -
  let ?st = "acknowledge i n st"
  have frame: "holds ?st = holds st" "sc_placement ?st = sc_placement st" "sim_quorum ?st = sim_quorum st"
    "sc_acknowledged ?st = sc_acknowledged st" "sc_leader ?st = sc_leader st" "sc_replicas ?st = sc_replicas st"
    "sc_disk_losses ?st = sc_disk_losses st" "sc_pending ?st = sc_pending st"
    by (auto simp: acknowledge_def holds_def log_at_def sim_quorum_def fun_eq_iff)
  have get: "bt_get (sc_acknowledgements ?st) k =
      (if k = i then Some (insert n (case bt_get (sc_acknowledgements st) i of None \<Rightarrow> {} | Some s \<Rightarrow> s))
       else bt_get (sc_acknowledgements st) k)" for k
    by (simp add: acknowledge_def bt_get_update)
  have old: "bt_get (sc_acknowledgements st) k = Some s \<Longrightarrow> s \<subseteq> voters st \<and> (\<forall>n\<in>s. holds st n k) \<and> E k \<noteq> None" for k s
    using sim_invD(5) [OF inv] unfolding acks_ok_def by blast
  have fin: "finite (voters st)" by (simp add: voter_nodes_def)
  have "acks_ok E ?st"
    unfolding acks_ok_def frame
  proof (intro conjI allI impI)
    fix k s assume "bt_get (sc_acknowledgements ?st) k = Some s"
    then show "s \<subseteq> voters st" "\<forall>n\<in>s. holds st n k" "E k \<noteq> None"
      using n old [of k] by (auto simp: get split: if_splits option.splits)
  next
    fix k d assume "bt_get (sc_acknowledged st) k = Some d"
    then obtain e s where e: "E k = Some e" "le_command_digest e = d" "bt_get (sc_acknowledgements st) k = Some s" "sim_quorum st \<le> card s"
      using sim_invD(5) [OF inv] unfolding acks_ok_def by blast
    have "card s \<le> card (insert n s)" using old [OF e(3)] fin by (intro card_mono) (auto dest: finite_subset)
    then show "\<exists>e s. E k = Some e \<and> le_command_digest e = d \<and> bt_get (sc_acknowledgements ?st) k = Some s \<and> sim_quorum st \<le> card s"
      using e by (auto simp: get)
  qed
  moreover have "base_ok ?st" "replicas_ok E ?st"
    using sim_invD(1,3) [OF inv] by (auto simp: base_ok_def replicas_ok_def frame)
  moreover have "queue_ok E ?st"
    using sim_invD(4) [OF inv] by (simp add: queue_ok_def acknowledge_def)
  ultimately show ?thesis using sim_invD(2) [OF inv] by (simp add: sim_inv_def)
qed

section \<open>Operations keep the invariant\<close>

text \<open>A result that is not a refusal for a broken contract.\<close>

definition undenied :: "'a cluster_result \<Rightarrow> bool" where
  "undenied r \<longleftrightarrow> (\<forall>x. r \<noteq> Err (ClusterDenied x))"

lemma undenied_simps [simp]:
  "undenied (Ok a)" "undenied (Err (ClusterUnavailable x))" "undenied (Err (ClusterNotFound x))" "undenied (Err (ClusterInvalid x))"
  by (simp_all add: undenied_def)

lemma leader_log:
  assumes "sim_inv E st" and "bt_get (sc_replicas st) (sc_leader st) = Some r" and "disk_present r"
  shows "bt_get (rlog r) = E"
  using sim_inv_replica [OF assms(1,2)] assms(3) by (simp add: replica_ok_def)

lemma followers_voters: "set (followers st) \<subseteq> voters st"
  by (auto simp: followers_def voter_nodes_def)

lemma sent_ok:
  assumes "sent (sc_leader st) (followers st) kind ms"
    and "\<And>m. ms_kind m = kind \<Longrightarrow> ms_from m = sc_leader st \<Longrightarrow> ms_to m \<in> voters st \<Longrightarrow> message_ok E st m"
  shows "list_all (message_ok E st) ms"
proof -
  have "ms_to m \<in> voters st" if "m \<in> set ms" for m
    using assms(1) that followers_voters [of st] unfolding sent_def by (metis image_eqI list.set_map subsetD)
  with assms show ?thesis by (auto simp: sent_def list_all_iff)
qed

lemma sim_inv_committed:
  assumes inv: "sim_inv E st" and r: "bt_get (sc_replicas st) (sc_leader st) = Some r" "bt_get (rlog r) i = Some entry"
    and s: "bt_get (sc_acknowledgements st) i = Some s" "sim_quorum st \<le> card s"
    and ms: "sent (sc_leader st) (followers st) (MCommit (le_term entry) i) ms"
  shows "sim_inv E (committed i entry j ms st)"
proof -
  have ok: "replica_ok E (sc_leader st \<in> sc_disk_losses st) True r" using sim_inv_replica [OF inv r(1)] by simp
  have E: "E i = Some entry" using ok r(2) by (auto simp: replica_ok_def map_le_def dom_def)
  have term1: "le_term entry = 1" using sim_invD(2) [OF inv] E by (auto simp: entries_ok_def)
  have pending: "list_all (message_ok E st) ms"
    using ms by (rule sent_ok) (auto simp: message_ok_def term1)
  define st1 where "st1 = st\<lparr>sc_pending := sc_pending st @ ms\<rparr>"
  have inv1: "sim_inv E st1" unfolding st1_def by (rule sim_inv_push [OF inv pending])
  define st2 where "st2 = st1\<lparr>sc_replicas := bt_adjust (sc_leader st) (\<lambda>r. r\<lparr>commit_index := i\<rparr>) (sc_replicas st1)\<rparr>"
  have inv2: "sim_inv E st2"
    unfolding st2_def by (rule sim_inv_adjust [OF inv1]) (use ok r in \<open>auto simp: st1_def replica_ok_def\<close>)
  have "acks_ok E (st2\<lparr>sc_acknowledged := bt_insert i (le_command_digest entry) (sc_acknowledged st2)\<rparr>)"
    using sim_invD(5) [OF inv2] E s
    by (auto simp: acks_ok_def bt_get_insert st2_def st1_def sim_quorum_def split: if_splits)
  then have "sim_inv E (st2\<lparr>sc_acknowledged := bt_insert i (le_command_digest entry) (sc_acknowledged st2)\<rparr>)"
    using inv2 by (simp add: sim_inv_def base_ok_def replicas_ok_def queue_ok_def bt_wf_insert)
  moreover have "committed i entry j ms st = st2\<lparr>sc_acknowledged := bt_insert i (le_command_digest entry) (sc_acknowledged st2),
      sc_next_message_id := j, sc_trace := sc_trace st @ [ascii ''acknowledged:'' @ decimal (unat i)]\<rparr>"
    by (simp add: committed_def st2_def st1_def)
  ultimately show ?thesis by (simp only: sim_inv_frame)
qed

lemma maybe_commit_inv:
  assumes inv: "sim_inv E st" and ok: "maybe_commit i st = (x, st')"
    and leader: "\<And>r. bt_get (sc_replicas st) (sc_leader st) = Some r \<Longrightarrow> disk_present r" "E i \<noteq> None"
  shows "sim_inv E st' \<and> x = Ok ()"
proof (rule maybe_commit_cases [of i st])
  fix e assume fail: "\<And>r. bt_get (sc_replicas st) (sc_leader st) = Some r \<Longrightarrow> bt_get (rlog r) i = None"
  obtain r where r: "bt_get (sc_replicas st) (sc_leader st) = Some r" using sim_invD(1) [OF inv] by (auto simp: base_ok_def)
  from leader_log [OF inv r leader(1) [OF r]] fail [OF r] leader(2) show ?thesis by simp
qed (use ok inv sim_inv_committed [OF inv] in auto)

lemma receive_inv:
  assumes inv: "sim_inv E st" and m: "message_ok E st m" "can_deliver st m" and ok: "receive m st = (x, st')"
  shows "sim_inv E st' \<and> undenied x"
proof (cases "ms_kind m")
  case (MAppend entry)
  have E: "E (le_index entry) = Some entry" "ms_from m = sc_leader st" "ms_to m \<in> voters st"
    using m(1) by (simp_all add: message_ok_def MAppend)
  have term1: "le_term entry = 1" using sim_invD(2) [OF inv] E(1) by (auto simp: entries_ok_def)
  obtain r where r: "bt_get (sc_replicas st) (ms_to m) = Some r" "disk_present r"
    using m(2) by (auto simp: can_deliver_def split: option.splits)
  have rok: "replica_ok E (ms_to m \<in> sc_disk_losses st) (ms_to m = sc_leader st) r" by (rule sim_inv_replica [OF inv r(1)])
  have ack: "sim_inv E st'' \<and> undenied x" if enq: "enqueue (ms_to m) (ms_from m) (MAck (le_term entry) (le_index entry)) st1 = (x, st'')"
    and inv1: "sim_inv E st1" and same: "sc_leader st1 = sc_leader st" "sc_placement st1 = sc_placement st"
      "log_at st1 (ms_to m) (le_index entry) \<noteq> None" for st1 st''
  proof -
    let ?m = "\<lparr>ms_id = sc_next_message_id st1, ms_from = ms_to m, ms_to = ms_from m, ms_deliver_at = sc_now st1,
        ms_kind = MAck (le_term entry) (le_index entry)\<rparr>"
    have "list_all (message_ok E st1) [?m]" using E same by (simp add: message_ok_def term1 holds_def)
    from sim_inv_send [OF inv1 this] enq show ?thesis by (auto simp: enqueue_ok)
  qed
  show ?thesis
  proof (rule receive_append_cases [of m entry st])
    fix e assume e: "receive_append m entry st = (Err e, st)"
      "\<And>x. e = ClusterDenied x \<Longrightarrow> \<exists>r old. bt_get (sc_replicas st) (ms_to m) = Some r \<and> bt_get (rlog r) (le_index entry) = Some old \<and> old \<noteq> entry"
    have "old = entry" if "bt_get (rlog r) (le_index entry) = Some old" for old
      using rok that E(1) by (auto simp: replica_ok_def map_le_def dom_def)
    then show ?thesis using e ok inv r(1) by (auto simp: receive_def MAppend undenied_def)
  next
    fix r assume r: "bt_get (sc_replicas st) (ms_to m) = Some r" "bt_get (rlog r) (le_index entry) = Some entry"
      "receive_append m entry st = enqueue (ms_to m) (ms_from m) (MAck (le_term entry) (le_index entry)) st"
    show ?thesis by (rule ack [of st]) (use ok r inv in \<open>auto simp: receive_def MAppend log_at_def\<close>)
  next
    fix r' assume r': "bt_get (sc_replicas st) (ms_to m) = Some r'" "bt_get (rlog r') (le_index entry) = None"
      "receive_append m entry st = enqueue (ms_to m) (ms_from m) (MAck (le_term entry) (le_index entry)) (with_row (ms_to m) entry st)"
    have same: "r' = r" using r r'(1) by simp
    have "ms_to m \<noteq> sc_leader st" using leader_log [OF inv] r r'(2) E(1) unfolding same by auto
    then have "sim_inv E (with_row (ms_to m) entry st)"
      unfolding with_row_def using rok r r' E(1) unfolding same
      by (intro sim_inv_adjust [OF inv]) (auto simp: replica_ok_def bt_wf_insert bt_get_insert map_le_def dom_def)
    then show ?thesis
      by (rule ack [rotated]) (use ok r' in \<open>auto simp: receive_def MAppend log_at_def with_row_def bt_get_adjust bt_get_insert\<close>)
  qed
next
  case (MAck t i)
  have A: "t = 1" "ms_to m = sc_leader st" "ms_from m \<in> voters st" "holds st (ms_from m) i" "E i \<noteq> None"
    using m(1) by (simp_all add: message_ok_def MAck)
  have "sim_inv E (acknowledge i (ms_from m) st)" by (rule sim_inv_acknowledge [OF inv A(3-5)])
  moreover have "maybe_commit i (acknowledge i (ms_from m) st) = (x, st')"
    using ok A(1,2) by (simp add: receive_def MAck receive_ack_def cbind_def cmodify_def)
  ultimately have "sim_inv E st' \<and> x = Ok ()"
    by (rule maybe_commit_inv) (use m(2) A in \<open>auto simp: acknowledge_def can_deliver_def split: option.splits\<close>)
  then show ?thesis by auto
next
  case (MCommit t i)
  have A: "t = 1" "ms_from m = sc_leader st" using m(1) by (simp_all add: message_ok_def MCommit)
  obtain r where r: "bt_get (sc_replicas st) (ms_to m) = Some r" "disk_present r"
    using m(2) by (auto simp: can_deliver_def split: option.splits)
  show ?thesis
  proof (cases "bt_get (rlog r) i")
    case None
    then show ?thesis using ok A r inv by (auto simp: receive_def MCommit receive_commit_def cbind_def clift_def replica_of_def)
  next
    case (Some e)
    then have "x = Ok ()" "st' = st\<lparr>sc_replicas := bt_adjust (ms_to m) (\<lambda>r. r\<lparr>commit_index := max (commit_index r) i\<rparr>) (sc_replicas st)\<rparr>"
      using ok A r by (auto simp: receive_def MCommit receive_commit_def cbind_def clift_def replica_of_def replica_mut_simps)
    then show ?thesis
      using sim_inv_replica [OF inv r(1)] r Some
      by (auto intro!: sim_inv_adjust [OF inv] simp: replica_ok_def max_def)
  qed
qed

lemma find_message_mem: "find_message i st = Ok m \<Longrightarrow> m \<in> set (sc_pending st)"
  by (auto simp: find_message_def ok_or_def find_Some_iff split: option.splits)

lemma checked: "sim_inv E st \<Longrightarrow> (verify_safety st, st) = (x, st') \<Longrightarrow> sim_inv E st' \<and> undenied x"
  by (auto simp: verify_safety_inv)

lemma deliver_inv:
  assumes inv: "sim_inv E st" and ok: "deliver i st = (x, st')"
  shows "sim_inv E st' \<and> undenied x"
proof (cases "find_message i st")
  case (Inl e)
  then show ?thesis using ok inv by (auto simp: deliver_def find_message_def ok_or_def no_message_def split: option.splits)
next
  case (Inr m)
  show ?thesis
  proof (cases "can_deliver st m")
    case False
    then show ?thesis using ok inv Inr by (auto simp: deliver_def)
  next
    case True
    let ?st = "st\<lparr>sc_pending := remove_first (\<lambda>m. ms_id m = i) (sc_pending st)\<rparr>"
    obtain y st2 where y: "receive m ?st = (y, st2)" by fastforce
    have "message_ok E st m" using find_message_mem [OF Inr] sim_invD(4) [OF inv] by (auto simp: queue_ok_def list_all_iff)
    then have inv2: "sim_inv E st2 \<and> undenied y"
      using True by (intro receive_inv [OF sim_inv_remove [OF inv] _ _ y]) (auto simp: can_deliver_def)
    show ?thesis
    proof (cases y)
      case (Inl e)
      then show ?thesis using ok Inr True y inv2 by (auto simp: deliver_def cbind_def cmodify_def undenied_def)
    next
      case (Inr u)
      let ?st3 = "st2\<lparr>sc_trace := sc_trace st2 @ [ascii ''deliver:'' @ decimal (unat i)]\<rparr>"
      have "(verify_safety ?st3, ?st3) = (x, st')"
        using ok \<open>find_message i st = Inr m\<close> True y Inr by (auto simp: deliver_def cbind_def cmodify_def push_trace_def)
      then show ?thesis by (rule checked [rotated]) (use inv2 in simp)
    qed
  qed
qed

lemma deliver_ready_inv: "sim_inv E st \<Longrightarrow> deliver_ready n st = (x, st') \<Longrightarrow> sim_inv E st' \<and> undenied x"
proof (induction n st rule: deliver_ready.induct)
  case (1 n st)
  show ?case
  proof (cases "next_ready st")
    case None
    then show ?thesis using 1 by (auto simp: deliver_ready.simps [of n])
  next
    case (Some i)
    obtain y st1 where y: "deliver i st = (y, st1)" by fastforce
    note inv1 = deliver_inv [OF 1(2) y]
    show ?thesis
    proof (cases y)
      case (Inl e)
      then show ?thesis using 1(3) Some y inv1 by (auto simp: deliver_ready.simps [of n] undenied_def)
    next
      case (Inr u)
      with 1(3) Some y have "deliver_ready (n + 1) st1 = (x, st')" by (simp add: deliver_ready.simps [of n])
      then show ?thesis using 1(1) [OF Some] y Inr inv1 by auto
    qed
  qed
qed

lemma reorder_inv: "sim_inv E st \<Longrightarrow> cfor is (\<lambda>i _. deliver i) () st = (x, st') \<Longrightarrow> sim_inv E st' \<and> undenied x"
proof (induction "is" arbitrary: st)
  case (Cons i "is")
  obtain y st1 where y: "deliver i st = (y, st1)" by fastforce
  note inv1 = deliver_inv [OF Cons.prems(1) y]
  show ?case
  proof (cases y)
    case (Inl e)
    then show ?thesis using Cons.prems y inv1 by (auto simp: cbind_def undenied_def)
  next
    case (Inr u)
    then show ?thesis using Cons.prems y inv1 Cons.IH [of st1] by (auto simp: cbind_def)
  qed
qed (auto simp: cok_def)

text \<open>Losing a disk removes a log and records the loss in one step.\<close>

lemma disk_loss_inv:
  assumes inv: "sim_inv E st" and r: "bt_get (sc_replicas st) n = Some r"
  shows "sim_inv E (st\<lparr>sc_replicas := bt_adjust n (\<lambda>r. r\<lparr>online := False, disk_present := False, rlog := [], commit_index := 0\<rparr>) (sc_replicas st),
      sc_disk_losses := insert n (sc_disk_losses st)\<rparr>)" (is "sim_inv E ?st")
proof -
  have grow: "holds st k i \<Longrightarrow> holds ?st k i" for k i
    by (auto simp: holds_def log_at_def bt_get_adjust split: bind_splits)
  have msg: "message_ok E st m \<Longrightarrow> message_ok E ?st m" for m
    using grow by (auto simp: message_ok_def split: message_kind.splits)
  have lost: "replica_ok E True b (r\<lparr>online := False, disk_present := False, rlog := [], commit_index := 0\<rparr>)" for b r
    by (simp add: replica_ok_def bt_wf_def bt_get_def)
  have "replicas_ok E ?st"
    unfolding replicas_ok_def
  proof (intro allI impI)
    fix k q assume q: "bt_get (sc_replicas ?st) k = Some q"
    show "replica_ok E (k \<in> sc_disk_losses ?st) (k = sc_leader ?st) q"
    proof (cases "k = n")
      case True
      then show ?thesis using q r lost by (auto simp: bt_get_adjust)
    next
      case False
      then show ?thesis using q sim_inv_replica [OF inv, of k q] by (simp add: bt_get_adjust)
    qed
  qed
  moreover have "queue_ok E ?st" using sim_invD(4) [OF inv] msg by (auto simp: queue_ok_def list_all_iff)
  moreover have "acks_ok E ?st" using sim_invD(5) [OF inv] grow unfolding acks_ok_def by (simp add: sim_quorum_def)
  moreover have "base_ok ?st" using sim_invD(1) [OF inv] by (auto simp: base_ok_def bt_wf_adjust bt_get_adjust)
  ultimately show ?thesis using sim_invD(2) [OF inv] by (simp add: sim_inv_def)
qed

lemma sim_inv_touch:
  assumes "sim_inv E st" and "\<And>r. bt_get (sc_replicas st) n = Some r \<Longrightarrow> rlog (f r) = rlog r \<and> commit_index (f r) = commit_index r
      \<and> disk_present (f r) = disk_present r \<and> (online (f r) \<longrightarrow> online r \<or> disk_present r)"
  shows "sim_inv E (st\<lparr>sc_replicas := bt_adjust n f (sc_replicas st)\<rparr>)"
proof (rule sim_inv_adjust [OF assms(1)])
  fix r assume r: "bt_get (sc_replicas st) n = Some r"
  from sim_inv_replica [OF assms(1) r] assms(2) [OF r]
  show "replica_ok E (n \<in> sc_disk_losses st) (n = sc_leader st) (f r) \<and> bt_get (rlog r) \<subseteq>\<^sub>m bt_get (rlog (f r))"
    by (auto simp: replica_ok_def)
qed

lemma apply_fault_inv:
  assumes inv: "sim_inv E st" and ok: "apply_fault fault st = (x, st')"
  shows "sim_inv E st' \<and> undenied x"
proof (cases fault)
  case (Partition l r)
  then show ?thesis
    using inv ok by (auto simp: cbind_def require_node_def replica_of_def ok_or_def cmodify_def push_trace_def split: option.splits)
next
  case (Heal l r)
  then show ?thesis using inv ok by (auto simp: cbind_def cmodify_def push_trace_def)
next
  case (Delay i ticks)
  have "list_all (message_ok E st) (update_first (\<lambda>m. ms_id m = i) (\<lambda>m. m\<lparr>ms_deliver_at := saturating_add (ms_deliver_at m) ticks\<rparr>) ms)"
    if "list_all (message_ok E st) ms" for ms
    using that by (induction ms) (auto simp: message_ok_def cong: message_kind.case_cong)
  then show ?thesis
    using inv ok Delay
    by (auto simp: cbind_def cmodify_def push_trace_def find_message_def ok_or_def no_message_def sim_inv_pending
        split: option.splits) (auto simp: sim_inv_def queue_ok_def)
next
  case (Duplicate i)
  show ?thesis
  proof (cases "find_message i st")
    case (Inl e)
    then show ?thesis
      using inv ok Duplicate by (auto simp: cbind_def find_message_def ok_or_def no_message_def split: option.splits)
  next
    case (Inr m)
    have "list_all (message_ok E st) [m\<lparr>ms_id := sc_next_message_id st\<rparr>]"
      using find_message_mem [OF Inr] sim_invD(4) [OF inv]
      by (auto simp: queue_ok_def list_all_iff message_ok_def cong: message_kind.case_cong)
    from sim_inv_send [OF inv this] show ?thesis
      using ok Inr Duplicate by (auto simp: cbind_def take_message_id_def cmodify_def push_trace_def)
  qed
next
  case (Deliver i)
  then show ?thesis using deliver_inv [OF inv] ok by simp
next
  case (Reorder "is")
  then show ?thesis using reorder_inv [OF inv] ok by simp
next
  case (Crash n)
  have "sim_inv E (st\<lparr>sc_replicas := bt_adjust n (\<lambda>r. r\<lparr>online := False\<rparr>) (sc_replicas st)\<rparr>)"
    by (rule sim_inv_touch [OF inv]) simp
  then show ?thesis
    using ok inv Crash by (cases "bt_get (sc_replicas st) n") (auto simp: cbind_def push_trace_def cmodify_def replica_mut_simps)
next
  case (Restart n)
  show ?thesis
  proof (cases "bt_get (sc_replicas st) n")
    case None
    then show ?thesis using ok inv Restart by (auto simp: cbind_def replica_of_def)
  next
    case (Some r)
    have "sim_inv E (st\<lparr>sc_replicas := bt_adjust n (\<lambda>r. r\<lparr>online := True\<rparr>) (sc_replicas st)\<rparr>)" if "disk_present r"
      by (rule sim_inv_touch [OF inv]) (use that Some in auto)
    then show ?thesis
      using ok inv Restart Some
      by (auto simp: cbind_def replica_of_def clift_def replica_mut_simps push_trace_def cmodify_def split: if_splits)
  qed
next
  case (ClockSkew n off)
  have "sim_inv E (st\<lparr>sc_replicas := bt_adjust n (\<lambda>r. r\<lparr>clock_offset_ms := off\<rparr>) (sc_replicas st)\<rparr>)"
    by (rule sim_inv_touch [OF inv]) simp
  then show ?thesis
    using ok inv ClockSkew by (cases "bt_get (sc_replicas st) n") (auto simp: cbind_def push_trace_def cmodify_def replica_mut_simps)
next
  case (DiskLoss n)
  show ?thesis
  proof (cases "bt_get (sc_replicas st) n")
    case None
    then show ?thesis using ok inv DiskLoss by (auto simp: cbind_def replica_mut_simps)
  next
    case (Some r)
    then show ?thesis
      using ok disk_loss_inv [OF inv Some] DiskLoss by (auto simp: cbind_def replica_mut_simps push_trace_def cmodify_def)
  qed
qed

lemma sim_apply_inv:
  assumes inv: "sim_inv E st" and ok: "sim_apply fault st = (x, st')"
  shows "sim_inv E st' \<and> undenied x"
proof -
  obtain y st1 where y: "apply_fault fault st = (y, st1)" by fastforce
  note inv1 = apply_fault_inv [OF inv y]
  show ?thesis
    using ok y inv1 verify_safety_inv [of E st1] by (cases y) (auto simp: sim_apply_def cbind_def undenied_def)
qed

section \<open>Proposals\<close>

lemma last_index_max:
  assumes "bt_wf lg" and "bt_get lg i = Some e"
  shows "i \<le> last_index lg"
proof -
  have "(i, e) \<in> set lg" using assms by (simp add: bt_set)
  then have i: "i \<in> set (map fst lg)" by (simp add: image_iff) (metis fst_conv)
  then have ne: "lg \<noteq> []" by auto
  have "sorted (map fst lg)" using assms(1) by (simp add: bt_wf_def strict_sorted_iff)
  from sorted_le_last [OF this i] have "i \<le> last (map fst lg)" .
  then show ?thesis using ne by (simp add: last_index_def last_map)
qed

lemma fresh_index:
  assumes "bt_wf lg" and "last_index lg \<noteq> u64_max"
  shows "bt_get lg (last_index lg + 1) = None"
proof (rule ccontr)
  assume "bt_get lg (last_index lg + 1) \<noteq> None"
  then have "last_index lg + 1 \<le> last_index lg" using last_index_max [OF assms(1)] by auto
  moreover have "unat (last_index lg + 1) = unat (last_index lg) + 1"
    using checked_succ [OF assms(2)] by (simp add: checked_add_eq_Some)
  ultimately show False by (simp add: word_le_nat_alt)
qed

lemma sim_inv_extend:
  assumes inv: "sim_inv E st" and r: "bt_get (sc_replicas st) (sc_leader st) = Some r" "disk_present r"
    and fresh: "E (le_index e) = None" and e: "le_term e = 1"
  shows "sim_inv (E(le_index e \<mapsto> e)) (with_row (sc_leader st) e st)" (is "sim_inv ?E ?st")
proof -
  have le: "E \<subseteq>\<^sub>m ?E" using fresh by (auto simp: map_le_def)
  have grow: "holds st k i \<Longrightarrow> holds ?st k i" for k i
    by (auto simp: holds_def log_at_def with_row_def bt_get_adjust bt_get_insert split: bind_splits if_splits)
  have dom: "E i \<noteq> None \<Longrightarrow> ?E i = E i" for i using fresh by auto
  have msg: "message_ok E st m \<Longrightarrow> message_ok ?E ?st m" for m
    using grow fresh by (auto simp: message_ok_def with_row_def split: message_kind.splits)
  have log: "bt_get (rlog r) = E" by (rule leader_log [OF inv r])
  have "replicas_ok ?E ?st"
    unfolding replicas_ok_def
  proof (intro allI impI)
    fix k q assume q: "bt_get (sc_replicas ?st) k = Some q"
    show "replica_ok ?E (k \<in> sc_disk_losses ?st) (k = sc_leader ?st) q"
    proof (cases "k = sc_leader st")
      case True
      have q': "q = r\<lparr>rlog := bt_insert (le_index e) e (rlog r)\<rparr>" using q r True by (simp add: with_row_def bt_get_adjust)
      have ok: "replica_ok E (sc_leader st \<in> sc_disk_losses st) True r" using sim_inv_replica [OF inv r(1)] by simp
      have "bt_wf (rlog q)" using ok by (simp add: q' replica_ok_def bt_wf_insert)
      moreover have get: "bt_get (rlog q) = ?E" by (simp add: q' bt_get_insert log)
      moreover have "?E (commit_index r) \<noteq> None" if "commit_index r \<noteq> 0"
        using ok that log by (simp add: replica_ok_def)
      ultimately show ?thesis using ok r(2) True by (simp add: replica_ok_def with_row_def q')
    next
      case False
      then have "replica_ok E (k \<in> sc_disk_losses st) False q"
        using q sim_inv_replica [OF inv, of k q] by (simp add: with_row_def bt_get_adjust)
      then show ?thesis using False le map_le_trans [OF _ le] by (auto simp: with_row_def replica_ok_def)
    qed
  qed
  moreover have "queue_ok ?E ?st"
    using sim_invD(4) [OF inv] msg by (auto simp: queue_ok_def list_all_iff with_row_def)
  moreover have "acks_ok ?E ?st"
  proof -
    have same: "sc_acknowledgements ?st = sc_acknowledgements st" "sc_acknowledged ?st = sc_acknowledged st"
      "sc_placement ?st = sc_placement st" "sim_quorum ?st = sim_quorum st" by (simp_all add: with_row_def sim_quorum_def)
    show ?thesis
      using sim_invD(5) [OF inv] grow dom unfolding acks_ok_def same by (metis option.distinct(1))
  qed
  moreover have "base_ok ?st" using sim_invD(1) [OF inv] by (auto simp: base_ok_def with_row_def bt_wf_adjust bt_get_adjust)
  moreover have "entries_ok ?E" using sim_invD(2) [OF inv] e by (auto simp: entries_ok_def)
  ultimately show ?thesis by (simp add: sim_inv_def)
qed

lemma propose_inv:
  assumes inv: "sim_inv E st" and ok: "propose command st = (x, st')"
    and room: "\<And>r. bt_get (sc_replicas st) (sc_leader st) = Some r \<Longrightarrow> last_index (rlog r) \<noteq> u64_max"
  shows "\<exists>E'. E \<subseteq>\<^sub>m E' \<and> sim_inv E' st' \<and> undenied x"
proof -
  obtain r where r: "bt_get (sc_replicas st) (sc_leader st) = Some r" using sim_invD(1) [OF inv] by (auto simp: base_ok_def)
  show ?thesis
  proof (cases "online r \<and> disk_present r")
    case False
    then have "st' = st" "undenied x" using ok r by (auto simp: propose_def cbind_def clift_def replica_of_def)
    with inv show ?thesis by (intro exI [of _ E]) simp
  next
    case True
    define i where "i = last_index (rlog r) + 1"
    define e where "e = \<lparr>le_term = 1, le_index = i, le_command_digest = sha256_hex command\<rparr>"
    define E' where "E' = E(i \<mapsto> e)"
    have fresh: "E i = None"
      using fresh_index [of "rlog r"] room [OF r] sim_inv_replica [OF inv r] leader_log [OF inv r] True
      by (simp add: i_def replica_ok_def)
    define st1 where "st1 = with_row (sc_leader st) e st"
    have inv1: "sim_inv E' st1"
      using sim_inv_extend [OF inv r, of e] True fresh by (simp add: e_def E'_def st1_def)
    have frame1: "sc_leader st1 = sc_leader st" "sc_placement st1 = sc_placement st" by (simp_all add: st1_def with_row_def)
    have row: "bt_get (sc_replicas st1) (sc_leader st) = Some (r\<lparr>rlog := bt_insert i e (rlog r)\<rparr>)"
      using r by (simp add: st1_def with_row_def bt_get_adjust e_def)
    define st2 where "st2 = acknowledge i (sc_leader st) st1"
    have inv2: "sim_inv E' st2"
      unfolding st2_def using sim_invD(1) [OF inv] row
      by (intro sim_inv_acknowledge [OF inv1]) (auto simp: base_ok_def frame1 holds_def log_at_def bt_get_insert E'_def)
    have frame2: "sc_leader st2 = sc_leader st" "sc_placement st2 = sc_placement st" "sc_replicas st2 = sc_replicas st1"
      by (simp_all add: st2_def acknowledge_def frame1)
    obtain j ms where b: "broadcast (MAppend e) st2 = (Ok (), st2\<lparr>sc_next_message_id := j, sc_pending := sc_pending st2 @ ms\<rparr>)"
      "sent (sc_leader st2) (followers st2) (MAppend e) ms" using broadcast_ok by blast
    define st3 where "st3 = st2\<lparr>sc_next_message_id := j, sc_pending := sc_pending st2 @ ms\<rparr>"
    have inv3: "sim_inv E' st3"
      unfolding st3_def by (rule sim_inv_send [OF inv2 sent_ok [OF b(2)]]) (simp add: message_ok_def e_def E'_def)
    define st4 where "st4 = st3\<lparr>sc_trace := sc_trace st3 @ [ascii ''propose:'' @ decimal (unat i)]\<rparr>"
    have inv4: "sim_inv E' st4" using inv3 by (simp add: st4_def)
    obtain y st5 where y: "maybe_commit i st4 = (y, st5)" by fastforce
    have "sim_inv E' st5 \<and> y = Ok ()"
      using row True by (intro maybe_commit_inv [OF inv4 y]) (auto simp: st4_def st3_def frame2 E'_def)
    moreover have "propose command st = (case maybe_commit i st4 of (Inl e, s) \<Rightarrow> (Err e, s) | (Inr _, s) \<Rightarrow> (Ok i, s))"
    proof -
      have "replica_mut (sc_leader st) (\<lambda>r. r\<lparr>rlog := bt_insert i e (rlog r)\<rparr>) st = (Ok (), st1)"
        using r by (simp add: replica_mut_simps st1_def with_row_def e_def)
      then show ?thesis
        using r True b(1)
        by (simp add: propose_def cbind_def clift_def replica_of_def cmodify_def push_trace_def cok_def Let_def
            flip: i_def e_def st2_def st3_def st4_def)
    qed
    ultimately have "sim_inv E' st' \<and> undenied x" using ok y by auto
    moreover have "E \<subseteq>\<^sub>m E'" using fresh by (auto simp: E'_def map_le_def)
    ultimately show ?thesis by blast
  qed
qed

section \<open>Reachable clusters\<close>

text \<open>Any interleaving of proposals, faults, deliveries and time. A proposal is only made while an index is left.\<close>

inductive sim_reaches :: "sim_cluster \<Rightarrow> bool" where
  created: "sim_new seed placement leader = Ok st \<Longrightarrow> sim_reaches st"
| proposed: "sim_reaches st \<Longrightarrow> propose command st = (x, st') \<Longrightarrow>
    (\<And>r. bt_get (sc_replicas st) (sc_leader st) = Some r \<Longrightarrow> last_index (rlog r) \<noteq> u64_max) \<Longrightarrow> sim_reaches st'"
| faulted: "sim_reaches st \<Longrightarrow> sim_apply fault st = (x, st') \<Longrightarrow> sim_reaches st'"
| delivered: "sim_reaches st \<Longrightarrow> deliver_ready 0 st = (n, st') \<Longrightarrow> sim_reaches st'"
| advanced: "sim_reaches st \<Longrightarrow> sim_reaches (advance ticks st)"

lemma new_replicas:
  "bt_get (fold (\<lambda>r. bt_insert (rp_node r) v) rs m) n = (if n \<in> rp_node ` set rs then Some v else bt_get m n)"
  "bt_wf m \<Longrightarrow> bt_wf (fold (\<lambda>r. bt_insert (rp_node r) v) rs m)"
  by (induction rs arbitrary: m) (auto simp: bt_get_insert bt_wf_insert)

lemma sim_new_inv:
  assumes "sim_new seed placement leader = Ok st"
  shows "sim_inv Map.empty st"
proof -
  let ?v = "\<lparr>online = True, disk_present = True, clock_offset_ms = 0, rlog = [], commit_index = 0\<rparr>"
  from assms obtain q where v: "placement_validate placement = Ok ()"
    and q: "List.find (\<lambda>r. rp_node r = leader) (sp_replicas placement) = Some q" "rp_role q = Voter"
    and st: "st = \<lparr>sc_seed = seed, sc_placement = placement, sc_leader = leader, sc_now = 0, sc_next_message_id = 1,
      sc_replicas = fold (\<lambda>r. bt_insert (rp_node r) ?v) (sp_replicas placement) [], sc_blocked = {}, sc_pending = [],
      sc_acknowledgements = [], sc_acknowledged = [], sc_disk_losses = {}, sc_trace = []\<rparr>"
    by (auto simp: sim_new_def res_simps split: if_splits)
  have "leader \<in> voter_nodes placement"
    using q by (auto simp: voter_nodes_def placement_voters_def find_Some_iff)
  moreover have "voter_nodes placement \<subseteq> rp_node ` set (sp_replicas placement)" by (auto simp: voter_nodes_def placement_voters_def)
  ultimately show ?thesis
    using v unfolding st
    by (auto simp: sim_inv_defs entries_ok_def new_replicas replica_ok_def split: if_splits)
qed

lemma sim_reaches_inv: "sim_reaches st \<Longrightarrow> \<exists>E. sim_inv E st"
proof (induction rule: sim_reaches.induct)
  case (created seed placement leader st)
  then show ?case using sim_new_inv by blast
next
  case (proposed st command x st')
  then show ?case using propose_inv by blast
next
  case (faulted st fault x st')
  then show ?case using sim_apply_inv by blast
next
  case (delivered st n st')
  then show ?case using deliver_ready_inv by blast
next
  case (advanced st ticks)
  then show ?case by (auto simp: advance_def)
qed

end
