(* ===== verification/Cluster_Run.thy ===== *)
theory Cluster_Run
  imports Cluster_Safety
begin

text \<open>
  Runs of the simulated shard. Every reachable cluster passes the checks of \<^verbatim>\<open>SimCluster::verify_safety\<close>,
  draining the queue ends within a bound, and one concrete run (two proposals whose acknowledgements arrive in the
  other order) shows that the leader's commit index is not monotone.
\<close>

section \<open>Draining the queue\<close>

lemma deliver_ready_bound:
  "deliver_ready k st = (Ok n, st') \<Longrightarrow>
     next_ready st' = None
     \<and> n + queue_weight (length (followers st')) (sc_pending st') \<le> k + queue_weight (length (followers st)) (sc_pending st)"
proof (induction k st rule: deliver_ready.induct)
  case (1 k st)
  show ?case
  proof (cases "next_ready st")
    case None
    then show ?thesis using 1(2) by (auto simp: deliver_ready.simps [of k])
  next
    case (Some i)
    then obtain st1 where d: "deliver i st = (Ok (), st1)" and r: "deliver_ready (k + 1) st1 = (Ok n, st')"
      using 1(2) by (auto simp: deliver_ready.simps [of k] split: prod.splits sum.splits)
    have "next_ready st' = None \<and>
        n + queue_weight (length (followers st')) (sc_pending st') \<le> (k + 1) + queue_weight (length (followers st1)) (sc_pending st1)"
      by (rule 1(1) [OF Some d [symmetric] refl r])
    with deliver_weight [OF d] show ?thesis by linarith
  qed
qed


text \<open>C4. Whatever faults are injected and in whatever order messages arrive (partitions, delays, duplicates, crashes, clock
  skew, lost disks), every replica has the same entry at every index it holds, an acknowledged entry has a durable copy
  while no more disks are lost than the placement tolerates, the simulator's own checks pass, and no operation is ever
  denied for breaking an invariant.\<close>

theorem cluster_safe:
  assumes "sim_reaches st"
  shows "verify_safety st = Ok ()
    \<and> (\<forall>n m i e e'. log_at st n i = Some e \<longrightarrow> log_at st m i = Some e' \<longrightarrow> e = e')
    \<and> (\<forall>i d. bt_get (sc_acknowledged st) i = Some d \<longrightarrow>
          card (sc_disk_losses st) \<le> tolerated_failures (sp_policy (sc_placement st)) \<longrightarrow> 0 < durable_copies st i d)
    \<and> (\<forall>fault. undenied (fst (sim_apply fault st)))"
proof -
  obtain E where inv: "sim_inv E st" using sim_reaches_inv [OF assms] ..
  have "E i = Some e" if "log_at st n i = Some e" for n i e
    using that sim_inv_replica [OF inv] by (auto simp: log_at_def replica_ok_def map_le_def dom_def split: bind_splits)
  then have "log_at st n i = Some e \<Longrightarrow> log_at st m i = Some e' \<Longrightarrow> e = e'" for n m i e e' by (metis option.inject)
  moreover have "undenied (fst (sim_apply fault st))" for fault
    using sim_apply_inv [OF inv, of fault] by (cases "sim_apply fault st") auto
  ultimately show ?thesis using verify_safety_inv [OF inv] acknowledged_durable [OF inv] by blast
qed

section \<open>A run of three replicas\<close>

definition example_replica :: "(u64, log_entry) btree \<Rightarrow> u64 \<Rightarrow> replica_state" where
  "example_replica lg c = \<lparr>online = True, disk_present = True, clock_offset_ms = 0, rlog = lg, commit_index = c\<rparr>"

definition example_message :: "u64 \<Rightarrow> u8 \<Rightarrow> u8 \<Rightarrow> message_kind \<Rightarrow> message" where
  "example_message i a b k = \<lparr>ms_id = i, ms_from = [a], ms_to = [b], ms_deliver_at = 0, ms_kind = k\<rparr>"

definition example_cluster where
  "example_cluster j reps pend acks acked tr = \<lparr>sc_seed = 0, sc_placement = example_placement, sc_leader = [97], sc_now = 0, sc_next_message_id = j,
      sc_replicas = reps, sc_blocked = {}, sc_pending = pend,
      sc_acknowledgements = acks, sc_acknowledged = acked, sc_disk_losses = {}, sc_trace = tr\<rparr>"

definition example_entry :: "u64 \<Rightarrow> bytes \<Rightarrow> log_entry" where "example_entry i c = \<lparr>le_term = 1, le_index = i, le_command_digest = sha256_hex c\<rparr>"


lemmas sim_run = propose_def example_cluster_def cbind_def clift_def replica_of_def bt_get_def replica_mut_def cmodify_def acknowledge_def
  bt_update_def broadcast_def example_replica_def last_index_def Let_def bt_adjust_def followers_def example_placement_def placement_voters_def
  enqueue_ok push_trace_def maybe_commit_def is_acknowledged_def sim_quorum_def policy_quorum_def cok_def example_entry_def example_message_def
  saturating_add_def can_deliver_def receive_def receive_append_def receive_ack_def

lemma deliver_by:
  assumes "sim_reaches st" and "List.find (\<lambda>m. ms_id m = i) (sc_pending st) = Some m" and "can_deliver st m"
    and "receive m (st\<lparr>sc_pending := remove_first (\<lambda>m. ms_id m = i) (sc_pending st)\<rparr>) = (Ok (), st2)"
  shows "sim_apply (Deliver i) st = (Ok (), st2\<lparr>sc_trace := sc_trace st2 @ [ascii ''deliver:'' @ decimal (unat i)]\<rparr>)"
proof -
  let ?st = "st2\<lparr>sc_trace := sc_trace st2 @ [ascii ''deliver:'' @ decimal (unat i)]\<rparr>"
  obtain E where inv: "sim_inv E st" using sim_reaches_inv [OF assms(1)] ..
  have d: "deliver i st = (verify_safety ?st, ?st)"
    using assms by (simp add: deliver_def find_message_def cbind_def cmodify_def push_trace_def)
  from deliver_inv [OF inv d] have "verify_safety ?st = Ok ()" using verify_safety_inv by blast
  then show ?thesis by (simp add: sim_apply_def cbind_def d)
qed

text \<open>The run: two proposals, both appends delivered to the second replica, then its acknowledgements. The states are
  given up to the queue and the trace, the messages by their identifiers.\<close>

abbreviation e1 :: log_entry where
  "e1 \<equiv> example_entry 1 [1]"

abbreviation e2 :: log_entry where
  "e2 \<equiv> example_entry 2 [2]"

abbreviation m1 :: message where
  "m1 \<equiv> example_message 1 97 98 (MAppend e1)"

abbreviation m2 :: message where
  "m2 \<equiv> example_message 2 97 99 (MAppend e1)"

abbreviation m3 :: message where
  "m3 \<equiv> example_message 3 97 98 (MAppend e2)"

abbreviation m4 :: message where
  "m4 \<equiv> example_message 4 97 99 (MAppend e2)"

abbreviation m5 :: message where
  "m5 \<equiv> example_message 5 98 97 (MAck 1 1)"

abbreviation m6 :: message where
  "m6 \<equiv> example_message 6 98 97 (MAck 1 2)"

abbreviation m7 :: message where
  "m7 \<equiv> example_message 7 97 98 (MCommit 1 2)"

abbreviation m8 :: message where
  "m8 \<equiv> example_message 8 97 99 (MCommit 1 2)"

abbreviation state0 :: "message list \<Rightarrow> bytes list \<Rightarrow> sim_cluster" where
  "state0 q t \<equiv> example_cluster 1 [([97], example_replica [] 0), ([98], example_replica [] 0), ([99], example_replica [] 0)]
     q [] [] t"

abbreviation state1 :: "message list \<Rightarrow> bytes list \<Rightarrow> sim_cluster" where
  "state1 q t \<equiv> example_cluster 3 [([97], example_replica [(1, e1)] 0), ([98], example_replica [] 0), ([99], example_replica [] 0)]
     q [(1, {[97]})] [] t"

abbreviation state2 :: "message list \<Rightarrow> bytes list \<Rightarrow> sim_cluster" where
  "state2 q t \<equiv> example_cluster 5 [([97], example_replica [(1, e1), (2, e2)] 0), ([98], example_replica [] 0), ([99], example_replica [] 0)]
     q [(1, {[97]}), (2, {[97]})] [] t"

abbreviation state3 :: "message list \<Rightarrow> bytes list \<Rightarrow> sim_cluster" where
  "state3 q t \<equiv> example_cluster 6 [([97], example_replica [(1, e1), (2, e2)] 0), ([98], example_replica [(1, e1)] 0), ([99], example_replica [] 0)]
     q [(1, {[97]}), (2, {[97]})] [] t"

abbreviation state4 :: "message list \<Rightarrow> bytes list \<Rightarrow> sim_cluster" where
  "state4 q t \<equiv> example_cluster 7 [([97], example_replica [(1, e1), (2, e2)] 0), ([98], example_replica [(1, e1), (2, e2)] 0), ([99], example_replica [] 0)]
     q [(1, {[97]}), (2, {[97]})] [] t"

abbreviation state5 :: "message list \<Rightarrow> bytes list \<Rightarrow> sim_cluster" where
  "state5 q t \<equiv> example_cluster 9 [([97], example_replica [(1, e1), (2, e2)] 2), ([98], example_replica [(1, e1), (2, e2)] 0), ([99], example_replica [] 0)]
     q [(1, {[97]}), (2, {[98], [97]})] [(2, sha256_hex [2])] t"

lemma example_start: "sim_new 0 example_placement [97] = Ok (state0 [] [])"
  by (simp add: sim_new_def example_placement_valid example_cluster_def) (simp add: example_placement_def example_replica_def)

lemma example_steps:
  "\<exists>t'. propose [1] (state0 [] t) = (Ok 1, state1 [m1, m2] t')"
  "\<exists>t'. propose [2] (state1 [m1, m2] t) = (Ok 2, state2 [m1, m2, m3, m4] t')"
  "\<exists>t'. receive m1 (state2 [m2, m3, m4] t) = (Ok (), state3 [m2, m3, m4, m5] t')"
  "\<exists>t'. receive m3 (state3 [m2, m4, m5] t) = (Ok (), state4 [m2, m4, m5, m6] t')"
  "\<exists>t'. receive m6 (state4 [m2, m4, m5] t) = (Ok (), state5 [m2, m4, m5, m7, m8] t')"
  by (simp_all add: sim_run)

text \<open>The late acknowledgement of the first entry sets the leader's commit index back.\<close>

lemma example_late_ack:
  "\<exists>j r p a k t'. receive m5 (state5 [m2, m4, m7, m8] t) = (Ok (), example_cluster j r p a k t')
     \<and> bt_get r [97] = Some (example_replica [(1, e1), (2, e2)] 1)
     \<and> bt_get r [98] = Some (example_replica [(1, e1), (2, e2)] 0) \<and> bt_get r [99] = Some (example_replica [] 0)"
  by (simp add: sim_run)

lemma example_trace: "example_cluster j r p a k t\<lparr>sc_trace := t'\<rparr> = example_cluster j r p a k t'"
  by (simp add: example_cluster_def)

lemma example_deliver:
  assumes reach: "sim_reaches (example_cluster j r p a k t)"
    and find: "List.find (\<lambda>m. ms_id m = i) p = Some m" "remove_first (\<lambda>m. ms_id m = i) p = q"
    and can: "can_deliver (example_cluster j r p a k t) m"
    and got: "receive m (example_cluster j r q a k t) = (Ok (), example_cluster j' r' p' a' k' t')"
  obtains u where "sim_apply (Deliver i) (example_cluster j r p a k t) = (Ok (), example_cluster j' r' p' a' k' u)"
    and "sim_reaches (example_cluster j' r' p' a' k' u)"
proof -
  have q: "example_cluster j r p a k t\<lparr>sc_pending := q\<rparr> = example_cluster j r q a k t" by (simp add: example_cluster_def)
  have d: "sim_apply (Deliver i) (example_cluster j r p a k t) =
      (Ok (), example_cluster j' r' p' a' k' t'\<lparr>sc_trace := sc_trace (example_cluster j' r' p' a' k' t') @ [ascii ''deliver:'' @ decimal (unat i)]\<rparr>)"
    by (rule deliver_by [OF reach, of i m]) (use assms q in \<open>simp_all add: example_cluster_def\<close>)
  show thesis by (rule that) (use d sim_reaches.faulted [OF reach d] in \<open>simp_all add: example_trace\<close>)
qed

lemma example_propose:
  assumes "sim_reaches (example_cluster j r p a k t)" and "propose c (example_cluster j r p a k t) = (x, st)"
    and "bt_get r [97] = Some q" and "last_index (rlog q) \<noteq> u64_max"
  shows "sim_reaches st"
  using assms by (intro sim_reaches.proposed [OF assms(1,2)]) (auto simp: example_cluster_def)

lemma cluster_example_run:
  obtains t where "sim_reaches (state5 [m2, m4, m5, m7, m8] t)"
proof -
  obtain t1 where p1: "propose [1] (state0 [] []) = (Ok 1, state1 [m1, m2] t1)" using example_steps(1) by blast
  have r1: "sim_reaches (state1 [m1, m2] t1)"
    by (rule example_propose [OF sim_reaches.created [OF example_start] p1, of "example_replica [] 0"])
      (simp_all add: sim_run u64_max_def)
  obtain t2 where p2: "propose [2] (state1 [m1, m2] t1) = (Ok 2, state2 [m1, m2, m3, m4] t2)" using example_steps(2) by blast
  have r2: "sim_reaches (state2 [m1, m2, m3, m4] t2)"
    by (rule example_propose [OF r1 p2, of "example_replica [(1, e1)] 0"]) (simp_all add: sim_run u64_max_def)
  obtain t3 where g3: "receive m1 (state2 [m2, m3, m4] t2) = (Ok (), state3 [m2, m3, m4, m5] t3)"
    using example_steps(3) by blast
  obtain u3 where r3: "sim_reaches (state3 [m2, m3, m4, m5] u3)"
    by (rule example_deliver [OF r2 _ _ _ g3, of 1]) (simp_all add: sim_run)
  obtain t4 where g4: "receive m3 (state3 [m2, m4, m5] u3) = (Ok (), state4 [m2, m4, m5, m6] t4)"
    using example_steps(4) by blast
  obtain u4 where r4: "sim_reaches (state4 [m2, m4, m5, m6] u4)"
    by (rule example_deliver [OF r3 _ _ _ g4, of 3]) (simp_all add: sim_run)
  obtain t5 where g5: "receive m6 (state4 [m2, m4, m5] u4) = (Ok (), state5 [m2, m4, m5, m7, m8] t5)"
    using example_steps(5) by blast
  show thesis by (rule example_deliver [OF r4 _ _ _ g5, of 6]) (simp_all add: sim_run that)
qed

lemma example_rows: "bt_get [([97], a), ([98], b), ([99], c)] [97 :: u8] = Some a"
  "bt_get [([97], a), ([98], b), ([99], c)] [98 :: u8] = Some b" "bt_get [([97], a), ([98], b), ([99], c)] [99 :: u8] = Some c"
  by (simp_all add: bt_get_def)

lemma example_stamp:
  assumes "bt_get r [97] = Some (example_replica l c)" and "bt_get r [98] = Some (example_replica l' c')"
    and "bt_get r [99] = Some (example_replica l'' c'')"
  obtains s where "leader_stamp (example_cluster j r p a k t) = Ok s" "rs_commit_index s = c"
  using assms
  by (simp add: leader_stamp_def replica_of_def reachable_voters_def example_cluster_def example_placement_def placement_voters_def
      example_replica_def sim_quorum_def policy_quorum_def)

text \<open>C39. The commit index a leader reports can go backwards: there is a reachable cluster whose linearizable read stamp has
  commit index 2 and, after the late acknowledgement of the first entry is delivered, commit index 1, because
  \<^verbatim>\<open>maybe_commit\<close> overwrites the index instead of taking the maximum.\<close>

theorem leader_stamp_regresses:
  "\<exists>st st' before after. sim_reaches st \<and> sim_apply (Deliver 5) st = (Ok (), st')
     \<and> leader_stamp st = Ok before \<and> leader_stamp st' = Ok after
     \<and> rs_commit_index before = 2 \<and> rs_commit_index after = 1"
proof -
  obtain t where r: "sim_reaches (state5 [m2, m4, m5, m7, m8] t)" by (rule cluster_example_run)
  obtain s where s: "leader_stamp (state5 [m2, m4, m5, m7, m8] t) = Ok s" "rs_commit_index s = 2"
    by (rule example_stamp [OF example_rows])
  obtain j r' p a k t' where g: "receive m5 (state5 [m2, m4, m7, m8] t) = (Ok (), example_cluster j r' p a k t')"
    and rows: "bt_get r' [97] = Some (example_replica [(1, e1), (2, e2)] 1)"
      "bt_get r' [98] = Some (example_replica [(1, e1), (2, e2)] 0)" "bt_get r' [99] = Some (example_replica [] 0)"
    using example_late_ack by blast
  obtain u where d: "sim_apply (Deliver 5) (state5 [m2, m4, m5, m7, m8] t) = (Ok (), example_cluster j r' p a k u)"
    by (rule example_deliver [OF r _ _ _ g, of 5]) (simp_all add: sim_run)
  obtain s' where "leader_stamp (example_cluster j r' p a k u) = Ok s'" "rs_commit_index s' = 1"
    by (rule example_stamp [OF rows])
  with r d s show ?thesis by blast
qed

section \<open>Witnesses\<close>


theorem cluster_safe_witness: "\<exists>t. verify_safety (state5 [m2, m4, m5, m7, m8] t) = Ok ()"
proof -
  obtain t where r: "sim_reaches (state5 [m2, m4, m5, m7, m8] t)" by (rule cluster_example_run)
  from cluster_safe [OF this] show ?thesis by blast
qed

end
