(* ===== verification/Runtime_Value.thy ===== *)
theory Runtime_Value
  imports Claim Ordered_Map
begin

text \<open>
  Identifiers, references and property values of the typed runtime graph (\<^verbatim>\<open>crates/vyrm-core/src/runtime.rs\<close>),
  with the validation and the canonical encodings every runtime object shares. A \<open>BTreeMap\<close> is its ascending entry
  list; an \<open>i64\<close> is its 64 bits.
\<close>

section \<open>Identifiers and references\<close>

definition DATA_RUNTIME_CONTRACT_VERSION :: u16 where
  "DATA_RUNTIME_CONTRACT_VERSION = 1"

definition validate_identifier :: "string \<Rightarrow> bytes \<Rightarrow> unit core_result" where
  "validate_identifier kind val =
     (if val = [] then Err (EmptyIdentifier kind)
      else if 0 \<in> set val then Err (SeparatorInIdentifier kind val)
      else Ok ())"

definition runtime_ident_new :: "string \<Rightarrow> bytes \<Rightarrow> bytes core_result" where
  "runtime_ident_new label val = rbind (validate_identifier label val) (\<lambda>_. Ok val)"

type_synonym scope_id = bytes
type_synonym runtime_type = bytes
type_synonym runtime_id = bytes
type_synonym snapshot_id = bytes
type_synonym retention_pin_id = bytes
type_synonym projection_id = bytes
type_synonym outbox_id = bytes

definition scope_id_new :: "bytes \<Rightarrow> scope_id core_result" where
  "scope_id_new = runtime_ident_new ''runtime scope''"

definition runtime_type_new :: "bytes \<Rightarrow> runtime_type core_result" where
  "runtime_type_new = runtime_ident_new ''runtime type''"

definition runtime_id_new :: "bytes \<Rightarrow> runtime_id core_result" where
  "runtime_id_new = runtime_ident_new ''runtime id''"

definition snapshot_id_new :: "bytes \<Rightarrow> snapshot_id core_result" where
  "snapshot_id_new = runtime_ident_new ''snapshot id''"

definition retention_pin_id_new :: "bytes \<Rightarrow> retention_pin_id core_result" where
  "retention_pin_id_new = runtime_ident_new ''retention pin id''"

definition projection_id_new :: "bytes \<Rightarrow> projection_id core_result" where
  "projection_id_new = runtime_ident_new ''projection id''"

definition outbox_id_new :: "bytes \<Rightarrow> outbox_id core_result" where
  "outbox_id_new = runtime_ident_new ''outbox id''"

datatype runtime_ref = Ref (ref_kind: runtime_type) (ref_id: runtime_id)

text \<open>The derived order: by kind, then by id.\<close>

instantiation runtime_ref :: linorder
begin

definition less_eq_runtime_ref :: "runtime_ref \<Rightarrow> runtime_ref \<Rightarrow> bool" where
  "a \<le> b \<longleftrightarrow> ref_kind a < ref_kind b \<or> ref_kind a = ref_kind b \<and> ref_id a \<le> ref_id b"

definition less_runtime_ref :: "runtime_ref \<Rightarrow> runtime_ref \<Rightarrow> bool" where
  "a < b \<longleftrightarrow> ref_kind a < ref_kind b \<or> ref_kind a = ref_kind b \<and> ref_id a < ref_id b"

instance
  by standard (auto simp: less_eq_runtime_ref_def less_runtime_ref_def runtime_ref.expand)

end

definition runtime_ref_new :: "bytes \<Rightarrow> bytes \<Rightarrow> runtime_ref core_result" where
  "runtime_ref_new kind i =
     rbind (runtime_type_new kind) (\<lambda>kind.
     rbind (runtime_id_new i) (\<lambda>i.
     Ok (Ref kind i)))"

section \<open>Property values\<close>

datatype runtime_value =
    VNull
  | VBool bool
  | VInteger "64 word"
  | VUnsigned u64
  | VDecimal bytes
  | VString bytes
  | VDigest bytes
  | VList "runtime_value list"
  | VMap "(bytes \<times> runtime_value) list"

type_synonym runtime_properties = "(bytes, runtime_value) btree"

section \<open>Validation\<close>

definition runtime_validate_text :: "string \<Rightarrow> bytes \<Rightarrow> unit core_result" where
  "runtime_validate_text kind val = validate_identifier kind val"

definition validate_digest :: "string \<Rightarrow> bytes \<Rightarrow> unit core_result" where
  "validate_digest kind val =
     (if length val \<noteq> 64 \<or> \<not> list_all is_ascii_hexdigit val
      then Err (InvalidRuntime ''{kind} must be a 64-character hexadecimal SHA-256 digest'' [ascii kind])
      else Ok ())"

definition validate_window :: "millis \<Rightarrow> millis option \<Rightarrow> unit core_result" where
  "validate_window start stop =
     (case stop of
        Some stop \<Rightarrow> if stop \<le> start then Err (InvalidValidityWindow start stop) else Ok ()
      | None \<Rightarrow> Ok ())"

definition valid_at_window :: "millis \<Rightarrow> millis option \<Rightarrow> millis \<Rightarrow> bool" where
  "valid_at_window start stop at \<longleftrightarrow> start \<le> at \<and> (case stop of None \<Rightarrow> True | Some stop \<Rightarrow> at < stop)"

definition validate_properties :: "runtime_properties \<Rightarrow> unit core_result" where
  "validate_properties props = try_fold (\<lambda>(key, _) _. validate_identifier ''runtime property'' key) props ()"

section \<open>Canonical encodings\<close>

definition encode_ref :: "runtime_ref \<Rightarrow> bytes" where
  "encode_ref r = text_field (ref_kind r) @ text_field (ref_id r)"

definition encode_optional_u64 :: "u64 option \<Rightarrow> bytes" where
  "encode_optional_u64 = optional_field u64_to_be_bytes"

definition encode_window :: "millis \<Rightarrow> millis option \<Rightarrow> bytes" where
  "encode_window start stop = u64_to_be_bytes start @ encode_optional_u64 stop"

lemma counted_cong [fundef_cong]:
  "xs = ys \<Longrightarrow> (\<And>x. x \<in> set ys \<Longrightarrow> f x = g x) \<Longrightarrow> counted f xs = counted g ys"
  unfolding counted_def by (simp cong: map_cong)

definition bool_byte :: "bool \<Rightarrow> u8" where
  "bool_byte b = (if b then 1 else 0)"

fun encode_value :: "runtime_value \<Rightarrow> bytes" where
  "encode_value VNull = [0]"
| "encode_value (VBool b) = [1] @ [bool_byte b]"
| "encode_value (VInteger i) = [2] @ u64_to_be_bytes i"
| "encode_value (VUnsigned u) = [3] @ u64_to_be_bytes u"
| "encode_value (VDecimal v) = [4] @ text_field v"
| "encode_value (VString v) = [5] @ text_field v"
| "encode_value (VDigest v) = [6] @ text_field v"
| "encode_value (VList vs) = [7] @ counted encode_value vs"
| "encode_value (VMap m) = [8] @ counted (\<lambda>(key, v). text_field key @ encode_value v) m"

definition encode_properties :: "runtime_properties \<Rightarrow> bytes" where
  "encode_properties = counted (\<lambda>(key, v). text_field key @ encode_value v)"

section \<open>The encodings are self-delimiting\<close>

definition ref_sized :: "runtime_ref \<Rightarrow> bool" where
  "ref_sized r \<longleftrightarrow> text_sized (ref_kind r) \<and> text_sized (ref_id r)"

fun value_sized :: "runtime_value \<Rightarrow> bool" where
  "value_sized (VDecimal v) = text_sized v"
| "value_sized (VString v) = text_sized v"
| "value_sized (VDigest v) = text_sized v"
| "value_sized (VList vs) = (length vs < 2 ^ 64 \<and> (\<forall>v\<in>set vs. value_sized v))"
| "value_sized (VMap m) = (length m < 2 ^ 64 \<and> (\<forall>(k, v)\<in>set m. text_sized k \<and> value_sized v))"
| "value_sized _ = True"

definition properties_sized :: "runtime_properties \<Rightarrow> bool" where
  "properties_sized = sized_list (\<lambda>(k, v). text_sized k \<and> value_sized v)"

lemma delimited_ref: "delimited ref_sized encode_ref"
  unfolding delimited_def encode_ref_def ref_sized_def
  by (auto simp: delimitedD [OF delimited_text] runtime_ref.expand)

lemma delimited_optional_u64: "delimited (\<lambda>_. True) encode_optional_u64"
  unfolding encode_optional_u64_def by (rule delimited_optional_int)

lemma bool_byte_inj: "bool_byte a = bool_byte b \<longleftrightarrow> a = b"
  by (simp add: bool_byte_def)

text \<open>A counted list is determined when its elements are, even when only the elements that occur are known to be
  self-delimiting.\<close>

lemma counted_inj:
  assumes "\<And>x y r r'. x \<in> set xs \<Longrightarrow> y \<in> set ys \<Longrightarrow> f x @ r = f y @ r' \<longleftrightarrow> x = y \<and> r = r'"
    and "length xs < 2 ^ 64" and "length ys < 2 ^ 64"
  shows "counted f xs @ r = counted f ys @ r' \<longleftrightarrow> xs = ys \<and> r = r'"
proof -
  have elems: "concat (map f xs) @ r = concat (map f ys) @ r' \<longleftrightarrow> xs = ys \<and> r = r'" if "length xs = length ys"
    using that assms(1)
  proof (induction xs ys rule: list_induct2)
    case (Cons x xs y ys)
    then show ?case using Cons.prems [of x y] by simp
  qed simp
  show ?thesis
  proof (cases "length xs = length ys")
    case True
    then show ?thesis using elems by (simp add: counted_def)
  next
    case False
    then have "(word_of_nat (length xs) :: u64) \<noteq> word_of_nat (length ys)"
      using unat_u64_of_nat [OF assms(2)] unat_u64_of_nat [OF assms(3)] by metis
    with False show ?thesis by (auto simp: counted_def int_field_inj)
  qed
qed

lemma encode_value_inj:
  "value_sized v \<Longrightarrow> value_sized w \<Longrightarrow> encode_value v @ r = encode_value w @ r' \<longleftrightarrow> v = w \<and> r = r'"
proof (induction v arbitrary: w r r')
  case (VList vs)
  show ?case
  proof (cases w)
    case w: (VList ws)
    have "counted encode_value vs @ r = counted encode_value ws @ r' \<longleftrightarrow> vs = ws \<and> r = r'"
      using VList unfolding w by (intro counted_inj) simp_all
    then show ?thesis by (simp add: w)
  qed simp_all
next
  case (VMap m)
  show ?case
  proof (cases w)
    case w: (VMap n)
    let ?f = "\<lambda>(key, v). text_field key @ encode_value v"
    have "counted ?f m @ r = counted ?f n @ r' \<longleftrightarrow> m = n \<and> r = r'"
    proof (rule counted_inj)
      fix x y q q' assume x: "x \<in> set m" and y: "y \<in> set n"
      obtain k v k' v' where eq: "x = (k, v)" "y = (k', v')" by fastforce
      have "text_sized k" "value_sized v" using VMap.prems(1) x by (auto simp: eq)
      moreover have "text_sized k'" "value_sized v'" using VMap.prems(2) y by (auto simp: eq w)
      moreover have "encode_value v @ q = encode_value v' @ q' \<longleftrightarrow> v = v' \<and> q = q'"
        using VMap.IH [OF x, of v v' q q'] calculation by (simp add: eq)
      ultimately show "?f x @ q = ?f y @ q' \<longleftrightarrow> x = y \<and> q = q'" by (auto simp: eq delimitedD [OF delimited_text])
    qed (use VMap.prems in \<open>simp_all add: w\<close>)
    then show ?thesis by (simp add: w)
  qed simp_all
qed (case_tac w; simp add: delimited_fields bool_byte_inj)+

lemma delimited_value: "delimited value_sized encode_value"
  unfolding delimited_def using encode_value_inj by blast

lemma delimited_properties: "delimited properties_sized encode_properties"
  unfolding properties_sized_def encode_properties_def
  by (rule delimited_counted) (auto simp: delimited_def delimitedD [OF delimited_text] encode_value_inj)

end
