(* ===== verification/Runtime_Data.thy ===== *)
theory Runtime_Data
  imports Runtime_Value
begin

text \<open>
  The non-relational values a runtime commit carries (\<^verbatim>\<open>crates/vyrm-core/src/data.rs\<close>): vectors with their
  provenance, series samples, geometry and object references. A float is its bit pattern; what the code computes with
  floats (finiteness, comparison, the squared norm in double precision, parsing of decimals) is defined on the
  patterns.
\<close>

section \<open>Floating point\<close>

type_synonym f32 = u32
type_synonym f64 = u64

unbundle bit_operations_syntax

definition f32_is_finite :: "f32 \<Rightarrow> bool" where
  "f32_is_finite x \<longleftrightarrow> drop_bit 23 x AND 0xFF \<noteq> 0xFF"

definition f64_is_finite :: "f64 \<Rightarrow> bool" where
  "f64_is_finite x \<longleftrightarrow> drop_bit 52 x AND 0x7FF \<noteq> 0x7FF"

text \<open>Comparison of finite doubles: sign and magnitude, the two zeros being equal.\<close>

definition f64_key :: "f64 \<Rightarrow> int" where
  "f64_key x = (let magnitude = uint (x AND 0x7FFFFFFFFFFFFFFF) in if drop_bit 63 x = 1 then - magnitude else magnitude)"

definition f64_le :: "f64 \<Rightarrow> f64 \<Rightarrow> bool" where
  "f64_le x y \<longleftrightarrow> f64_key x \<le> f64_key y"

text \<open>The magnitude of a finite single in units of \<open>2\<^sup>-\<^sup>1\<^sup>4\<^sup>9\<close>. Its square is exact in double precision, in units of
  \<open>2\<^sup>-\<^sup>2\<^sup>9\<^sup>8\<close>, and a sum of squares of finite singles neither underflows nor overflows, so that a rounded addition is
  rounding to 53 significant bits, ties to even.\<close>

definition f32_units :: "f32 \<Rightarrow> nat" where
  "f32_units x =
     (let e = unat (drop_bit 23 x AND 0xFF); m = unat (x AND 0x7FFFFF) in
      if e = 0 then m else (m + 2 ^ 23) * 2 ^ (e - 1))"

fun bit_length :: "nat \<Rightarrow> nat" where
  "bit_length n = (if n = 0 then 0 else Suc (bit_length (n div 2)))"

declare bit_length.simps [simp del]

definition round53 :: "nat \<Rightarrow> nat" where
  "round53 n =
     (let shift = bit_length n - 53; q = n div 2 ^ shift; r = n mod 2 ^ shift in
      if shift = 0 then n
      else if r > 2 ^ (shift - 1) \<or> r = 2 ^ (shift - 1) \<and> odd q then (q + 1) * 2 ^ shift
      else q * 2 ^ shift)"

definition squared_norm :: "f32 list \<Rightarrow> nat" where
  "squared_norm xs = fold (\<lambda>x s. round53 (s + f32_units x ^ 2)) xs 0"

text \<open>\<open>(squared_norm - 1.0).abs() <= 1e-4\<close>; the literal is the double \<open>0x1A36E2EB1C432D\<close> times \<open>2\<^sup>-\<^sup>6\<^sup>6\<close>.\<close>

definition normalized :: "f32 list \<Rightarrow> bool" where
  "normalized xs \<longleftrightarrow> list_all f32_is_finite xs \<and>
     (let s = squared_norm xs; one = 2 ^ 298; d = (if s \<le> one then one - s else s - one) in
      round53 d \<le> 0x1A36E2EB1C432D * 2 ^ 232)"

text \<open>\<open>str::parse::<f64>\<close>: an optional sign, digits with an optional point and an optional exponent whose value stops
  growing at \<open>0x10000\<close>. A number rounds to a finite double when its magnitude is below \<open>2\<^sup>1\<^sup>0\<^sup>2\<^sup>4 - 2\<^sup>9\<^sup>7\<^sup>0\<close>; infinities and
  not-a-number are accepted texts but not finite.\<close>

definition is_digit :: "u8 \<Rightarrow> bool" where
  "is_digit b \<longleftrightarrow> 48 \<le> b \<and> b \<le> 57"

definition digits_nat :: "bytes \<Rightarrow> nat" where
  "digits_nat ds = foldl (\<lambda>n d. 10 * n + (unat d - 48)) 0 ds"

definition strip_sign :: "bytes \<Rightarrow> bool \<times> bytes" where
  "strip_sign s = (case s of c # r \<Rightarrow> if c = 45 then (True, r) else if c = 43 then (False, r) else (False, s) | [] \<Rightarrow> (False, []))"

definition exponent_value :: "bytes \<Rightarrow> nat" where
  "exponent_value ds = foldl (\<lambda>n d. if n < 0x10000 then 10 * n + (unat d - 48) else n) 0 ds"

fun parse_exponent :: "bytes \<Rightarrow> int option" where
  "parse_exponent [] = Some 0"
| "parse_exponent (c # r) =
     (if c = 101 \<or> c = 69 then
        (case strip_sign r of (negative, ds) \<Rightarrow>
           if ds = [] \<or> \<not> list_all is_digit ds then None
           else Some (if negative then - int (exponent_value ds) else int (exponent_value ds)))
      else None)"

definition parse_number :: "bytes \<Rightarrow> (nat \<times> int) option" where
  "parse_number s =
     (let whole = takeWhile is_digit s; r = dropWhile is_digit s;
          fraction = (case r of c # r' \<Rightarrow> if c = 46 then takeWhile is_digit r' else [] | [] \<Rightarrow> []);
          rest = (case r of c # r' \<Rightarrow> if c = 46 then dropWhile is_digit r' else r | [] \<Rightarrow> []) in
      if whole @ fraction = [] then None
      else map_option (\<lambda>e. (digits_nat (whole @ fraction), e - int (length fraction))) (parse_exponent rest))"

definition finite_number :: "nat \<times> int \<Rightarrow> bool" where
  "finite_number x = (case x of (m, e) \<Rightarrow>
     if 0 \<le> e then m * 10 ^ nat e < 2 ^ 1024 - 2 ^ 970 else m < (2 ^ 1024 - 2 ^ 970) * 10 ^ nat (- e))"

definition parses_finite_f64 :: "bytes \<Rightarrow> bool" where
  "parses_finite_f64 s \<longleftrightarrow> (case parse_number (snd (strip_sign s)) of None \<Rightarrow> False | Some x \<Rightarrow> finite_number x)"

section \<open>Validation\<close>

definition validate_finite :: "f32 list \<Rightarrow> unit core_result" where
  "validate_finite xs =
     (if list_ex (\<lambda>x. \<not> f32_is_finite x) xs then Err (InvalidRuntime ''vector values must be finite'' []) else Ok ())"

definition data_validate_text :: "string \<Rightarrow> bytes \<Rightarrow> unit core_result" where
  "data_validate_text kind val =
     (if all_whitespace val \<or> 0 \<in> set val
      then Err (InvalidRuntime ''{kind} must be non-empty and contain no NUL bytes'' [ascii kind])
      else Ok ())"

definition data_validate_digest :: "string \<Rightarrow> bytes \<Rightarrow> unit core_result" where
  "data_validate_digest kind val =
     (if length val \<noteq> 64 \<or> \<not> list_all (\<lambda>b. is_digit b \<or> 97 \<le> b \<and> b \<le> 102) val
      then Err (InvalidRuntime ''{kind} digest must be 64 lowercase hexadecimal characters'' [ascii kind])
      else Ok ())"

definition data_validate_window :: "millis \<Rightarrow> millis option \<Rightarrow> unit core_result" where
  "data_validate_window start stop =
     (if (case stop of Some e \<Rightarrow> e \<le> start | None \<Rightarrow> False)
      then Err (InvalidValidityWindow start (case stop of Some e \<Rightarrow> e | None \<Rightarrow> start))
      else Ok ())"

definition validate_decimal :: "bytes \<Rightarrow> unit core_result" where
  "validate_decimal val =
     rbind (data_validate_text ''series decimal'' val) (\<lambda>_.
     if \<not> parses_finite_f64 val then Err (InvalidRuntime ''series decimal must be a finite numeric string'' [])
     else Ok ())"

section \<open>Vectors\<close>

definition MAX_VECTOR_DIMENSIONS :: nat where
  "MAX_VECTOR_DIMENSIONS = 1048576"

datatype vector_value =
    Dense "f32 list"
  | Sparse u32 "u32 list" "f32 list"
  | MultiDense u32 "f32 list list"

fun vector_dimensions :: "vector_value \<Rightarrow> nat" where
  "vector_dimensions (Dense vs) = length vs"
| "vector_dimensions (Sparse d _ _) = unat d"
| "vector_dimensions (MultiDense d _) = unat d"

fun validate_vector_shape :: "vector_value \<Rightarrow> unit core_result" where
  "validate_vector_shape (Dense vs) = validate_finite vs"
| "validate_vector_shape (Sparse dimensions indices vs) =
     (if indices = [] \<or> length indices \<noteq> length vs
      then Err (InvalidRuntime ''sparse vector indices and values must have the same non-zero length'' [])
      else if list_ex (\<lambda>i. i \<ge> dimensions) indices
      then Err (InvalidRuntime ''sparse vector index exceeds declared dimensions'' [])
      else if list_ex (\<lambda>(a, b). a \<ge> b) (zip indices (tl indices))
      then Err (InvalidRuntime ''sparse vector indices must be strictly increasing'' [])
      else validate_finite vs)"
| "validate_vector_shape (MultiDense dimensions vectors) =
     (if vectors = [] then Err (InvalidRuntime ''multi-vector must contain at least one vector'' [])
      else try_fold (\<lambda>vector _.
             if length vector \<noteq> unat dimensions
             then Err (InvalidRuntime ''every multi-vector row must match declared dimensions'' [])
             else validate_finite vector) vectors ())"

definition vector_value_validate :: "vector_value \<Rightarrow> unit core_result" where
  "vector_value_validate v =
     (let dimensions = vector_dimensions v in
      if dimensions = 0 \<or> dimensions > MAX_VECTOR_DIMENSIONS
      then Err (InvalidRuntime ''vector dimensions must be in 1..={MAX_VECTOR_DIMENSIONS}, got {dimensions}''
             [decimal MAX_VECTOR_DIMENSIONS, decimal dimensions])
      else validate_vector_shape v)"

fun is_unit_l2 :: "vector_value \<Rightarrow> bool" where
  "is_unit_l2 (Dense vs) = normalized vs"
| "is_unit_l2 (Sparse _ _ vs) = normalized vs"
| "is_unit_l2 (MultiDense _ vectors) = list_all normalized vectors"

datatype vector_normalization = NoNormalization | UnitL2

record embedding_provenance =
  ep_source_digest :: bytes
  ep_model :: bytes
  ep_model_digest :: bytes
  ep_dimensions :: u32
  ep_normalization :: vector_normalization
  ep_generation_parameters :: runtime_properties

definition provenance_validate :: "nat \<Rightarrow> embedding_provenance \<Rightarrow> unit core_result" where
  "provenance_validate dimensions p =
     rbind (data_validate_digest ''embedding source'' (ep_source_digest p)) (\<lambda>_.
     rbind (data_validate_digest ''embedding model'' (ep_model_digest p)) (\<lambda>_.
     rbind (data_validate_text ''embedding model'' (ep_model p)) (\<lambda>_.
     if unat (ep_dimensions p) \<noteq> dimensions
     then Err (InvalidRuntime ''embedding provenance dimensions {} do not match vector dimensions {dimensions}''
            [decimal (unat (ep_dimensions p)), decimal dimensions])
     else Ok ())))"

record runtime_vector =
  rv_reference :: runtime_ref
  rv_subject :: runtime_ref
  rv_field :: bytes
  rv_valid_from :: millis
  rv_valid_to :: "millis option"
  rv_value :: vector_value
  rv_provenance :: "embedding_provenance option"
  rv_properties :: runtime_properties

definition runtime_vector_validate :: "runtime_vector \<Rightarrow> unit core_result" where
  "runtime_vector_validate v =
     rbind (data_validate_text ''vector field'' (rv_field v)) (\<lambda>_.
     rbind (data_validate_window (rv_valid_from v) (rv_valid_to v)) (\<lambda>_.
     rbind (vector_value_validate (rv_value v)) (\<lambda>_.
     case rv_provenance v of
       None \<Rightarrow> Ok ()
     | Some p \<Rightarrow>
         rbind (provenance_validate (vector_dimensions (rv_value v)) p) (\<lambda>_.
         if ep_normalization p = UnitL2 \<and> \<not> is_unit_l2 (rv_value v)
         then Err (InvalidRuntime ''vector marked unit_l2 is not unit normalized'' [])
         else Ok ()))))"

section \<open>Series samples\<close>

datatype series_value =
    SInteger "64 word"
  | SUnsigned u64
  | SDecimal bytes
  | SBool bool
  | SString bytes

record runtime_series_sample =
  ss_reference :: runtime_ref
  ss_series :: runtime_ref
  ss_observed_at :: millis
  ss_value :: series_value
  ss_properties :: runtime_properties

definition series_sample_validate :: "runtime_series_sample \<Rightarrow> unit core_result" where
  "series_sample_validate s = (case ss_value s of SDecimal v \<Rightarrow> validate_decimal v | _ \<Rightarrow> Ok ())"

section \<open>Geometry\<close>

record geo_point =
  longitude :: f64
  latitude :: f64

text \<open>\<open>180.0\<close> and \<open>90.0\<close> and their negatives.\<close>

definition in_range :: "f64 \<Rightarrow> f64 \<Rightarrow> f64 \<Rightarrow> bool" where
  "in_range low high x \<longleftrightarrow> f64_le low x \<and> f64_le x high"

definition geo_point_validate :: "geo_point \<Rightarrow> unit core_result" where
  "geo_point_validate p =
     (if \<not> f64_is_finite (longitude p) \<or> \<not> in_range 0xC066800000000000 0x4066800000000000 (longitude p)
      then Err (InvalidRuntime ''longitude must be finite and in [-180, 180]'' [])
      else if \<not> f64_is_finite (latitude p) \<or> \<not> in_range 0xC056800000000000 0x4056800000000000 (latitude p)
      then Err (InvalidRuntime ''latitude must be finite and in [-90, 90]'' [])
      else Ok ())"

datatype geo_value = Point geo_point | BoundingBox geo_point geo_point

fun geo_value_validate :: "geo_value \<Rightarrow> unit core_result" where
  "geo_value_validate (Point p) = geo_point_validate p"
| "geo_value_validate (BoundingBox southwest northeast) =
     rbind (geo_point_validate southwest) (\<lambda>_.
     rbind (geo_point_validate northeast) (\<lambda>_.
     if \<not> f64_le (longitude southwest) (longitude northeast) \<or> \<not> f64_le (latitude southwest) (latitude northeast)
     then Err (InvalidRuntime ''geo bounding box corners are inverted'' [])
     else Ok ()))"

record runtime_geo =
  rg_reference :: runtime_ref
  rg_subject :: runtime_ref
  rg_field :: bytes
  rg_valid_from :: millis
  rg_valid_to :: "millis option"
  rg_value :: geo_value
  rg_properties :: runtime_properties

definition runtime_geo_validate :: "runtime_geo \<Rightarrow> unit core_result" where
  "runtime_geo_validate g =
     rbind (data_validate_text ''geo field'' (rg_field g)) (\<lambda>_.
     rbind (data_validate_window (rg_valid_from g) (rg_valid_to g)) (\<lambda>_.
     geo_value_validate (rg_value g)))"

section \<open>Objects\<close>

record object_receipt =
  or_backend :: bytes
  or_key :: bytes
  or_version :: "bytes option"
  or_etag :: "bytes option"

record object_reference =
  ob_reference :: runtime_ref
  ob_subject :: "runtime_ref option"
  ob_sha256 :: bytes
  ob_length :: u64
  ob_media_type :: bytes
  ob_receipt :: object_receipt
  ob_properties :: runtime_properties

definition canonical_object_key :: "bytes \<Rightarrow> bytes core_result" where
  "canonical_object_key sha =
     rbind (data_validate_digest ''object'' sha) (\<lambda>_.
     Ok (ascii ''objects/sha256/'' @ take 2 sha @ ascii ''/'' @ sha))"

definition validate_optional_text :: "string \<Rightarrow> bytes option \<Rightarrow> unit core_result" where
  "validate_optional_text kind v = (case v of Some val \<Rightarrow> data_validate_text kind val | None \<Rightarrow> Ok ())"

definition object_validate :: "object_reference \<Rightarrow> unit core_result" where
  "object_validate ob =
     rbind (data_validate_digest ''object'' (ob_sha256 ob)) (\<lambda>_.
     rbind (data_validate_text ''object media type'' (ob_media_type ob)) (\<lambda>_.
     rbind (data_validate_text ''object backend'' (or_backend (ob_receipt ob))) (\<lambda>_.
     rbind (data_validate_text ''object key'' (or_key (ob_receipt ob))) (\<lambda>_.
     rbind (validate_optional_text ''object version'' (or_version (ob_receipt ob))) (\<lambda>_.
     rbind (validate_optional_text ''object ETag'' (or_etag (ob_receipt ob))) (\<lambda>_.
     rbind (canonical_object_key (ob_sha256 ob)) (\<lambda>expected.
     if or_key (ob_receipt ob) \<noteq> expected
     then Err (InvalidRuntime ''object key {:?} is not canonical for digest {}'' [or_key (ob_receipt ob), ob_sha256 ob])
     else Ok ())))))))"

definition object_for_verified ::
    "bytes \<Rightarrow> runtime_ref option \<Rightarrow> bytes \<Rightarrow> bytes \<Rightarrow> u64 \<Rightarrow> object_receipt \<Rightarrow> object_reference core_result" where
  "object_for_verified i subj media_type sha len receipt =
     rbind (runtime_type_new (ascii ''object'')) (\<lambda>kind.
     rbind (runtime_id_new i) (\<lambda>i.
     let v = \<lparr>ob_reference = Ref kind i, ob_subject = subj, ob_sha256 = sha, ob_length = len,
              ob_media_type = media_type, ob_receipt = receipt, ob_properties = []\<rparr> in
     rbind (object_validate v) (\<lambda>_. Ok v)))"

definition object_for_bytes ::
    "bytes \<Rightarrow> runtime_ref option \<Rightarrow> bytes \<Rightarrow> bytes \<Rightarrow> object_receipt \<Rightarrow> object_reference core_result" where
  "object_for_bytes i subj media_type content receipt =
     rbind (runtime_type_new (ascii ''object'')) (\<lambda>kind.
     rbind (runtime_id_new i) (\<lambda>i.
     let v = \<lparr>ob_reference = Ref kind i, ob_subject = subj, ob_sha256 = sha256_hex content,
              ob_length = word_of_nat (length content), ob_media_type = media_type, ob_receipt = receipt,
              ob_properties = []\<rparr> in
     rbind (object_validate v) (\<lambda>_. Ok v)))"

end
