(* ===== verification/Runtime_Schema.thy ===== *)
theory Runtime_Schema
  imports Runtime_Data "HOL-Library.Product_Lexorder"
begin

text \<open>
  The persisted schema of runtime records, relations and events (\<^verbatim>\<open>crates/vyrm-core/src/schema.rs\<close>): registries, the
  validation of objects against them, and the temporal constraints (unique properties, unique pairs and cardinalities
  over overlapping validity windows).
\<close>

section \<open>Registries\<close>

datatype runtime_value_type = TNull | TBool | TInteger | TUnsigned | TDecimal | TString | TDigest | TList | TMap

definition type_matches :: "runtime_value_type \<Rightarrow> runtime_value \<Rightarrow> bool" where
  "type_matches t v =
     (case (t, v) of
        (TNull, VNull) \<Rightarrow> True
      | (TBool, VBool _) \<Rightarrow> True
      | (TInteger, VInteger _) \<Rightarrow> True
      | (TUnsigned, VUnsigned _) \<Rightarrow> True
      | (TDecimal, VDecimal _) \<Rightarrow> True
      | (TString, VString _) \<Rightarrow> True
      | (TDigest, VDigest _) \<Rightarrow> True
      | (TList, VList _) \<Rightarrow> True
      | (TMap, VMap _) \<Rightarrow> True
      | _ \<Rightarrow> False)"

record property_schema =
  ps_value_type :: runtime_value_type
  ps_required :: bool

definition required_property :: "runtime_value_type \<Rightarrow> property_schema" where
  "required_property t = \<lparr>ps_value_type = t, ps_required = True\<rparr>"

definition optional_property :: "runtime_value_type \<Rightarrow> property_schema" where
  "optional_property t = \<lparr>ps_value_type = t, ps_required = False\<rparr>"

type_synonym property_schemas = "(bytes, property_schema) btree"

record record_schema =
  cs_properties :: property_schemas
  cs_allow_additional :: bool
  cs_unique :: "bytes list"

record relation_schema =
  ls_from :: "runtime_type list"
  ls_to :: "runtime_type list"
  ls_properties :: property_schemas
  ls_allow_additional :: bool
  ls_unique_pair :: bool
  ls_max_outgoing :: "u64 option"
  ls_max_incoming :: "u64 option"

record event_schema =
  es_subject_required :: bool
  es_subject_types :: "runtime_type list"
  es_properties :: property_schemas
  es_allow_additional :: bool

record schema_registry =
  sg_revision :: u64
  sg_migration :: bytes
  sg_records :: "(runtime_type, record_schema) btree"
  sg_relations :: "(runtime_type, relation_schema) btree"
  sg_events :: "(runtime_type, event_schema) btree"

definition registry_empty :: "u64 \<Rightarrow> bytes \<Rightarrow> schema_registry" where
  "registry_empty revision migration =
     \<lparr>sg_revision = revision, sg_migration = migration, sg_records = [], sg_relations = [], sg_events = []\<rparr>"

definition validate_property_schema :: "runtime_type \<Rightarrow> property_schemas \<Rightarrow> bool \<Rightarrow> unit core_result" where
  "validate_property_schema kind properties allow_additional =
     try_fold (\<lambda>(name, _) _.
       ensure (\<not> (name = [] \<or> 0 \<in> set name))
         (InvalidRuntime ''type {kind} contains invalid property name {name:?}'' [kind, name])) properties ()"

definition validate_record_schema :: "runtime_type \<times> record_schema \<Rightarrow> unit core_result" where
  "validate_record_schema = (\<lambda>(kind, schema).
     rbind (validate_property_schema kind (cs_properties schema) (cs_allow_additional schema)) (\<lambda>_.
     try_fold (\<lambda>property _.
       ensure (bt_get (cs_properties schema) property \<noteq> None)
         (InvalidRuntime ''record type {kind} declares unknown unique property {property:?}'' [kind, property]))
       (cs_unique schema) ()))"

definition validate_relation_schema :: "runtime_type \<times> relation_schema \<Rightarrow> unit core_result" where
  "validate_relation_schema = (\<lambda>(kind, schema).
     if ls_from schema = [] \<or> ls_to schema = []
     then Err (InvalidRuntime ''relation type {kind} must declare at least one from and to endpoint type'' [kind])
     else if ls_max_outgoing schema = Some 0 \<or> ls_max_incoming schema = Some 0
     then Err (InvalidRuntime ''relation type {kind} cardinality limits must be greater than zero'' [kind])
     else validate_property_schema kind (ls_properties schema) (ls_allow_additional schema))"

definition validate_event_schema :: "runtime_type \<times> event_schema \<Rightarrow> unit core_result" where
  "validate_event_schema = (\<lambda>(kind, schema).
     validate_property_schema kind (es_properties schema) (es_allow_additional schema))"

definition registry_validate :: "schema_registry \<Rightarrow> unit core_result" where
  "registry_validate g =
     (if sg_revision g = 0 then Err (InvalidRuntime ''runtime schema revision must be greater than zero'' [])
      else if all_whitespace (sg_migration g)
      then Err (InvalidRuntime ''runtime schema migration description must not be empty'' [])
      else if sg_records g = [] \<and> sg_relations g = [] \<and> sg_events g = []
      then Err (InvalidRuntime ''runtime schema must declare at least one governed type'' [])
      else
      rbind (try_fold (\<lambda>x _. validate_record_schema x) (sg_records g) ()) (\<lambda>_.
      rbind (try_fold (\<lambda>x _. validate_relation_schema x) (sg_relations g) ()) (\<lambda>_.
      try_fold (\<lambda>x _. validate_event_schema x) (sg_events g) ())))"

section \<open>Graph objects and mutations\<close>

record runtime_record =
  rc_reference :: runtime_ref
  rc_valid_from :: millis
  rc_valid_to :: "millis option"
  rc_properties :: runtime_properties

record runtime_relation =
  rl_reference :: runtime_ref
  rl_from :: runtime_ref
  rl_to :: runtime_ref
  rl_valid_from :: millis
  rl_valid_to :: "millis option"
  rl_properties :: runtime_properties

record runtime_event =
  rn_kind :: runtime_type
  rn_subject :: "runtime_ref option"
  rn_properties :: runtime_properties

datatype runtime_mutation =
    MClaim claim
  | MSchema schema_registry
  | MRecord runtime_record
  | MRelation runtime_relation
  | MEvent runtime_event
  | MVector runtime_vector
  | MSeriesSample runtime_series_sample
  | MGeo runtime_geo
  | MObject object_reference

section \<open>Objects against a schema\<close>

definition validate_declared :: "string \<Rightarrow> runtime_type \<Rightarrow> runtime_properties \<Rightarrow> bytes \<times> property_schema \<Rightarrow> unit core_result" where
  "validate_declared ob kind actual = (\<lambda>(name, property).
     case bt_get actual name of
       Some v \<Rightarrow>
         if type_matches (ps_value_type property) v then Ok ()
         else Err (InvalidRuntime ''{object} type {kind} property {name:?} has the wrong value type'' [ascii ob, kind, name])
     | None \<Rightarrow>
         if ps_required property
         then Err (InvalidRuntime ''{object} type {kind} is missing required property {name:?}'' [ascii ob, kind, name])
         else Ok ())"

definition schema_validate_properties ::
    "string \<Rightarrow> runtime_type \<Rightarrow> runtime_properties \<Rightarrow> property_schemas \<Rightarrow> bool \<Rightarrow> unit core_result" where
  "schema_validate_properties ob kind actual declared allow_additional =
     rbind (try_fold (\<lambda>x _. validate_declared ob kind actual x) declared ()) (\<lambda>_.
     if allow_additional then Ok ()
     else case List.find (\<lambda>name. bt_get declared name = None) (map fst actual) of
            Some name \<Rightarrow> Err (InvalidRuntime ''{object} type {kind} contains undeclared property {name:?}'' [ascii ob, kind, name])
          | None \<Rightarrow> Ok ())"

definition validate_record :: "schema_registry \<Rightarrow> runtime_record \<Rightarrow> unit core_result" where
  "validate_record g r =
     rbind (ok_or (bt_get (sg_records g) (ref_kind (rc_reference r)))
              (InvalidRuntime ''record type {} is not registered'' [ref_kind (rc_reference r)])) (\<lambda>schema.
     schema_validate_properties ''record'' (ref_kind (rc_reference r)) (rc_properties r) (cs_properties schema)
       (cs_allow_additional schema))"

definition validate_relation :: "schema_registry \<Rightarrow> runtime_relation \<Rightarrow> unit core_result" where
  "validate_relation g r =
     rbind (ok_or (bt_get (sg_relations g) (ref_kind (rl_reference r)))
              (InvalidRuntime ''relation type {} is not registered'' [ref_kind (rl_reference r)])) (\<lambda>schema.
     if ref_kind (rl_from r) \<notin> set (ls_from schema) \<or> ref_kind (rl_to r) \<notin> set (ls_to schema)
     then Err (InvalidRuntime ''relation type {} rejects endpoint {} -> {}''
            [ref_kind (rl_reference r), ref_kind (rl_from r), ref_kind (rl_to r)])
     else schema_validate_properties ''relation'' (ref_kind (rl_reference r)) (rl_properties r) (ls_properties schema)
            (ls_allow_additional schema))"

definition validate_event :: "schema_registry \<Rightarrow> runtime_event \<Rightarrow> unit core_result" where
  "validate_event g e =
     rbind (ok_or (bt_get (sg_events g) (rn_kind e)) (InvalidRuntime ''event type {} is not registered'' [rn_kind e])) (\<lambda>schema.
     if es_subject_required schema \<and> rn_subject e = None
     then Err (InvalidRuntime ''event type {} requires a subject'' [rn_kind e])
     else
     rbind (case rn_subject e of
              Some subj \<Rightarrow>
                if es_subject_types schema \<noteq> [] \<and> ref_kind subj \<notin> set (es_subject_types schema)
                then Err (InvalidRuntime ''event type {} rejects subject type {}'' [rn_kind e, ref_kind subj])
                else Ok ()
            | None \<Rightarrow> Ok ()) (\<lambda>_.
     schema_validate_properties ''event'' (rn_kind e) (rn_properties e) (es_properties schema) (es_allow_additional schema)))"

fun validate_mutation_object :: "schema_registry \<Rightarrow> runtime_mutation \<Rightarrow> unit core_result" where
  "validate_mutation_object g (MRecord r) = validate_record g r"
| "validate_mutation_object g (MRelation r) = validate_relation g r"
| "validate_mutation_object g (MEvent e) = validate_event g e"
| "validate_mutation_object g _ = Ok ()"

section \<open>Overlapping windows\<close>

definition windows_overlap :: "u64 \<Rightarrow> u64 option \<Rightarrow> u64 \<Rightarrow> u64 option \<Rightarrow> bool" where
  "windows_overlap left_from left_to right_from right_to \<longleftrightarrow>
     left_from < (case right_to of None \<Rightarrow> u64_max | Some t \<Rightarrow> t)
     \<and> right_from < (case left_to of None \<Rightarrow> u64_max | Some t \<Rightarrow> t)"

text \<open>The sweep over the starts (\<open>1\<close>) and ends (\<open>- 1\<close>) of validity windows, ends first at the same instant.\<close>

definition window_points :: "runtime_relation list \<Rightarrow> (u64 \<times> int) list" where
  "window_points rs = concat (map (\<lambda>r. (rl_valid_from r, 1) # (case rl_valid_to r of Some t \<Rightarrow> [(t, - 1)] | None \<Rightarrow> [])) rs)"

definition sweep_step :: "u64 \<times> int \<Rightarrow> int \<times> int \<Rightarrow> int \<times> int" where
  "sweep_step p st = (case (p, st) of ((_, delta), (current, maximum)) \<Rightarrow> (current + delta, max maximum (current + delta)))"

definition max_overlap :: "runtime_relation list \<Rightarrow> u64" where
  "max_overlap rs = word_of_int (snd (fold sweep_step (sort (window_points rs)) (0, 0)))"

section \<open>Uniqueness and cardinality\<close>

fun conflicting_pair :: "(runtime_record \<times> runtime_value) list \<Rightarrow> bool" where
  "conflicting_pair [] = False"
| "conflicting_pair ((left, v) # rest) =
     (list_ex (\<lambda>(right, w). v = w
        \<and> windows_overlap (rc_valid_from left) (rc_valid_to left) (rc_valid_from right) (rc_valid_to right)) rest
      \<or> conflicting_pair rest)"

definition property_candidates :: "runtime_type \<Rightarrow> bytes \<Rightarrow> runtime_record list \<Rightarrow> (runtime_record \<times> runtime_value) list" where
  "property_candidates kind property rs =
     List.map_filter (\<lambda>r. map_option (\<lambda>v. (r, v)) (bt_get (rc_properties r) property))
       (filter (\<lambda>r. ref_kind (rc_reference r) = kind) rs)"

definition validate_record_uniqueness :: "schema_registry \<Rightarrow> runtime_record list \<Rightarrow> unit core_result" where
  "validate_record_uniqueness g rs =
     try_fold (\<lambda>(kind, schema) _.
       try_fold (\<lambda>property _.
         ensure (\<not> conflicting_pair (property_candidates kind property rs))
           (InvalidRuntime ''record type {kind} property {property:?} is not unique for overlapping validity windows''
              [kind, property])) (cs_unique schema) ()) (sg_records g) ()"

text \<open>\<open>groups.entry(key).or_insert_with(Vec::new).push(relation)\<close>.\<close>

definition group_relations :: "(runtime_relation \<Rightarrow> 'k::linorder) \<Rightarrow> runtime_relation list \<Rightarrow> ('k, runtime_relation list) btree" where
  "group_relations key rs = fold (\<lambda>r. bt_update (key r) [] (\<lambda>g. g @ [r])) rs []"

definition validate_groups ::
    "u64 \<Rightarrow> ('k \<Rightarrow> core_error) \<Rightarrow> ('k, runtime_relation list) btree \<Rightarrow> unit core_result" where
  "validate_groups limit e groups = try_fold (\<lambda>(key, group) _. ensure (\<not> max_overlap group > limit) (e key)) groups ()"

definition validate_relation_limits :: "runtime_relation list \<Rightarrow> runtime_type \<times> relation_schema \<Rightarrow> unit core_result" where
  "validate_relation_limits rs = (\<lambda>(kind, schema).
     let typed = filter (\<lambda>r. ref_kind (rl_reference r) = kind) rs in
     rbind (if ls_unique_pair schema then
              validate_groups 1 (\<lambda>(a, b). InvalidRuntime ''relation type {kind} requires a unique pair for {}/{} -> {}/{}''
                  [kind, ref_kind a, ref_id a, ref_kind b, ref_id b])
                (group_relations (\<lambda>r. (rl_from r, rl_to r)) typed)
            else Ok ()) (\<lambda>_.
     rbind (case ls_max_outgoing schema of
              Some limit \<Rightarrow>
                validate_groups limit (\<lambda>a. InvalidRuntime ''relation type {kind} exceeds max_outgoing={limit} at {}/{}''
                    [kind, decimal (unat limit), ref_kind a, ref_id a])
                  (group_relations rl_from typed)
            | None \<Rightarrow> Ok ()) (\<lambda>_.
     case ls_max_incoming schema of
       Some limit \<Rightarrow>
         validate_groups limit (\<lambda>a. InvalidRuntime ''relation type {kind} exceeds max_incoming={limit} at {}/{}''
             [kind, decimal (unat limit), ref_kind a, ref_id a])
           (group_relations rl_to typed)
     | None \<Rightarrow> Ok ())))"

definition validate_relation_cardinality :: "schema_registry \<Rightarrow> runtime_relation list \<Rightarrow> unit core_result" where
  "validate_relation_cardinality g rs = try_fold (\<lambda>x _. validate_relation_limits rs x) (sg_relations g) ()"

definition overlay_record :: "runtime_mutation \<Rightarrow> (runtime_ref, runtime_record) btree \<Rightarrow> (runtime_ref, runtime_record) btree" where
  "overlay_record m rs = (case m of MRecord r \<Rightarrow> bt_insert (rc_reference r) r rs | _ \<Rightarrow> rs)"

definition overlay_relation ::
    "runtime_mutation \<Rightarrow> (runtime_ref, runtime_relation) btree \<Rightarrow> (runtime_ref, runtime_relation) btree" where
  "overlay_relation m rs = (case m of MRelation r \<Rightarrow> bt_insert (rl_reference r) r rs | _ \<Rightarrow> rs)"

text \<open>Collecting a list into a map: a later element replaces an earlier one with the same key.\<close>

definition collect_map :: "('v \<Rightarrow> 'k::linorder) \<Rightarrow> 'v list \<Rightarrow> ('k, 'v) btree" where
  "collect_map key vs = fold (\<lambda>v. bt_insert (key v) v) vs []"

definition validate_objects ::
    "schema_registry \<Rightarrow> runtime_mutation list \<Rightarrow> runtime_record list \<Rightarrow> runtime_relation list \<Rightarrow> unit core_result" where
  "validate_objects g mutations existing_records existing_relations =
     rbind (registry_validate g) (\<lambda>_.
     rbind (try_fold (\<lambda>m _. validate_mutation_object g m) mutations ()) (\<lambda>_.
     let records = fold overlay_record mutations (collect_map rc_reference existing_records);
         relations = fold overlay_relation mutations (collect_map rl_reference existing_relations) in
     rbind (validate_record_uniqueness g (map snd records)) (\<lambda>_.
     validate_relation_cardinality g (map snd relations))))"

end
