(* ===== verification/Runtime_Constraints.thy ===== *)
theory Runtime_Constraints
  imports Runtime_Schema "HOL-Library.Multiset"
begin

text \<open>
  What the temporal constraints of a schema mean. The sweep of \<open>max_overlap\<close> computes the largest number of windows
  that hold at one instant; a graph that passes validation has, at every instant, no two valid records of one type
  with the same value of a unique property, and no more valid relations at an endpoint than the schema allows.
\<close>

section \<open>The sweep\<close>

definition live_at :: "runtime_relation list \<Rightarrow> u64 \<Rightarrow> nat" where
  "live_at rs t = length (filter (\<lambda>r. valid_at_window (rl_valid_from r) (rl_valid_to r) t) rs)"

definition windows_ok :: "runtime_relation list \<Rightarrow> bool" where
  "windows_ok rs \<longleftrightarrow> (\<forall>r\<in>set rs. validate_window (rl_valid_from r) (rl_valid_to r) = Ok ())"

definition delta_sum :: "(u64 \<times> int) list \<Rightarrow> int" where
  "delta_sum ps = sum_list (map snd ps)"

lemma delta_sum_simps [simp]:
  "delta_sum [] = 0" "delta_sum (p # ps) = snd p + delta_sum ps" "delta_sum (ps @ qs) = delta_sum ps + delta_sum qs"
  by (simp_all add: delta_sum_def)

lemma delta_sum_sort: "delta_sum (sort ps) = delta_sum ps"
  unfolding delta_sum_def by (metis mset_map mset_sort sum_mset_sum_list)

lemma live_at_sum:
  assumes "windows_ok rs"
  shows "int (live_at rs t) = delta_sum (filter (\<lambda>p. fst p \<le> t) (window_points rs))"
  using assms
proof (induction rs)
  case (Cons r rs)
  then have "rl_valid_to r = Some e \<Longrightarrow> rl_valid_from r < e" for e
    by (auto simp: windows_ok_def validate_window_def not_le split: option.splits if_splits)
  with Cons show ?case
    by (auto simp: live_at_def windows_ok_def window_points_def valid_at_window_def split: option.splits)
qed (simp add: live_at_def window_points_def)

lemma sweep_Cons: "fold sweep_step (p # ps) (c, m) = fold sweep_step ps (c + snd p, max m (c + snd p))"
  by (cases p) (simp add: sweep_step_def)

lemma sweep_mono: "m \<le> snd (fold sweep_step ps (c, m))"
proof (induction ps arbitrary: c m)
  case (Cons p ps)
  from Cons [of "max m (c + snd p)" "c + snd p"] show ?case unfolding sweep_Cons by linarith
qed simp

lemma sweep_upper: "0 < k \<Longrightarrow> k \<le> length ps \<Longrightarrow> c + delta_sum (take k ps) \<le> snd (fold sweep_step ps (c, m))"
proof (induction ps arbitrary: c m k)
  case (Cons p ps)
  obtain j where k: "k = Suc j" using Cons.prems(1) by (cases k) auto
  show ?case
  proof (cases j)
    case 0
    with sweep_mono [of "max m (c + snd p)" ps "c + snd p"] show ?thesis unfolding sweep_Cons k by simp
  next
    case (Suc i)
    with Cons.IH [of j "c + snd p" "max m (c + snd p)"] Cons.prems show ?thesis
      unfolding sweep_Cons k by (simp add: algebra_simps)
  qed
qed simp

lemma sweep_attained:
  "snd (fold sweep_step ps (c, m)) = m \<or>
    (\<exists>k\<le>length ps. 0 < k \<and> snd (fold sweep_step ps (c, m)) = c + delta_sum (take k ps))"
proof (induction ps arbitrary: c m)
  case (Cons p ps)
  let ?M = "snd (fold sweep_step ps (c + snd p, max m (c + snd p)))"
  from Cons [of "c + snd p" "max m (c + snd p)"]
  consider "?M = max m (c + snd p)" | k where "k \<le> length ps" "0 < k" "?M = c + snd p + delta_sum (take k ps)" by blast
  then show ?case
  proof cases
    case 1
    then show ?thesis unfolding sweep_Cons by (cases "m \<le> c + snd p") (auto intro!: exI [of _ 1] simp: max_def)
  next
    case (2 k)
    then show ?thesis unfolding sweep_Cons by (intro disjI2 exI [of _ "Suc k"]) (simp add: algebra_simps)
  qed
qed simp

text \<open>Within one instant the ends come first, so a partial sum never exceeds the sum at the end of an instant.\<close>

lemma prefix_below_instant:
  assumes "sorted ps" and "\<forall>p\<in>set ps. snd p = 1 \<or> snd p = - 1" and "k \<le> length ps"
  shows "delta_sum (take k ps) \<le> 0 \<or> (\<exists>t. delta_sum (take k ps) \<le> delta_sum (filter (\<lambda>p. fst p \<le> t) ps))"
  using assms(3)
proof (induction k)
  case (Suc k)
  let ?p = "ps ! k"
  have take: "take (Suc k) ps = take k ps @ [?p]" using Suc.prems by (simp add: take_Suc_conv_app_nth)
  show ?case
  proof (cases "snd ?p = 1")
    case True
    have before: "fst q \<le> fst ?p" if "q \<in> set (take (Suc k) ps)" for q
    proof -
      obtain i where "i < Suc k" "q = ps ! i" using \<open>q \<in> _\<close> Suc.prems by (auto simp: in_set_conv_nth)
      then have "q \<le> ?p" using assms(1) Suc.prems by (simp add: sorted_nth_mono)
      then show ?thesis by (auto simp: less_eq_prod_def)
    qed
    have after: "snd q = 1" if "q \<in> set (drop (Suc k) ps)" "fst q \<le> fst ?p" for q
    proof -
      obtain i where "i < length (drop (Suc k) ps)" "drop (Suc k) ps ! i = q"
        using \<open>q \<in> set (drop (Suc k) ps)\<close> unfolding in_set_conv_nth by blast
      then have "?p \<le> q" "q \<in> set ps" using assms(1) by (auto simp: sorted_nth_mono)
      then show ?thesis using that(2) True assms(2) by (cases q; cases ?p) fastforce
    qed
    have "filter (\<lambda>p. fst p \<le> fst ?p) ps = take (Suc k) ps @ filter (\<lambda>p. fst p \<le> fst ?p) (drop (Suc k) ps)"
    proof -
      have "filter (\<lambda>p. fst p \<le> fst ?p) (take (Suc k) ps) = take (Suc k) ps" using before by (intro filter_True) blast
      then show ?thesis using filter_append [of "\<lambda>p. fst p \<le> fst ?p" "take (Suc k) ps" "drop (Suc k) ps"]
        unfolding append_take_drop_id by (rule subst)
    qed
    moreover have "0 \<le> delta_sum (filter (\<lambda>p. fst p \<le> fst ?p) (drop (Suc k) ps))"
      unfolding delta_sum_def using after by (intro sum_list_nonneg) auto
    ultimately show ?thesis by (intro disjI2 exI [of _ "fst ?p"]) simp
  next
    case False
    then have "snd ?p = - 1" using assms(2) Suc.prems by (metis Suc_le_eq nth_mem)
    then have "delta_sum (take (Suc k) ps) \<le> delta_sum (take k ps)" by (simp add: take)
    moreover have "k \<le> length ps" using Suc.prems by simp
    ultimately show ?thesis using Suc.IH by (meson order_trans)
  qed
qed simp

lemma instant_is_prefix:
  assumes "sorted (ps :: (u64 \<times> int) list)"
  shows "\<exists>k\<le>length ps. filter (\<lambda>p. fst p \<le> t) ps = take k ps"
proof -
  have "filter (\<lambda>p. fst p \<le> t) ps = takeWhile (\<lambda>p. fst p \<le> t) ps"
    using assms
  proof (induction ps)
    case (Cons p ps)
    then have "\<not> fst p \<le> t \<Longrightarrow> q \<in> set ps \<Longrightarrow> \<not> fst q \<le> t" for q by (auto simp: less_eq_prod_def)
    with Cons show ?case by (cases "fst p \<le> t") (simp_all add: filter_empty_conv)
  qed simp
  then show ?thesis by (metis length_takeWhile_le takeWhile_eq_take)
qed

lemma max_overlap_le:
  assumes ok: "windows_ok rs" and len: "length rs < 2 ^ 63"
  shows "unat (max_overlap rs) \<le> n \<longleftrightarrow> (\<forall>t. live_at rs t \<le> n)"
proof -
  define ps where "ps = sort (window_points rs)"
  define M where "M = snd (fold sweep_step ps (0, 0))"
  have units: "\<forall>p\<in>set ps. snd p = 1 \<or> snd p = - 1"
    by (auto simp: ps_def window_points_def split: option.splits)
  have live: "int (live_at rs t) = delta_sum (filter (\<lambda>p. fst p \<le> t) ps)" for t
    using live_at_sum [OF ok] by (simp add: ps_def filter_sort delta_sum_sort)
  have lower: "int (live_at rs t) \<le> M" for t
  proof -
    obtain k where k: "k \<le> length ps" "filter (\<lambda>p. fst p \<le> t) ps = take k ps"
      using instant_is_prefix [of ps] by (auto simp: ps_def)
    then show ?thesis
      using sweep_upper [of k ps 0 0] sweep_mono [of 0 ps 0] by (cases "k = 0") (simp_all add: live M_def)
  qed
  have upper: "M \<le> 0 \<or> (\<exists>t. M \<le> int (live_at rs t))"
    using sweep_attained [of ps 0 0]
  proof
    assume "\<exists>k\<le>length ps. 0 < k \<and> snd (fold sweep_step ps (0, 0)) = 0 + delta_sum (take k ps)"
    then obtain k where "k \<le> length ps" "M = delta_sum (take k ps)" by (auto simp: M_def)
    with prefix_below_instant [of ps k] units show ?thesis by (auto simp: live ps_def)
  qed (simp add: M_def)
  have "0 \<le> M" using sweep_mono [of 0 ps 0] by (simp add: M_def)
  moreover have "M \<le> int (length rs)"
  proof -
    have "int (live_at rs t) \<le> int (length rs)" for t by (simp add: live_at_def)
    with upper show ?thesis by (meson of_nat_0_le_iff order_trans)
  qed
  moreover have "int (length rs) < 2 ^ 63" using len by (metis of_nat_less_numeral_power_cancel_iff)
  ultimately have "int (unat (max_overlap rs)) = M"
    by (simp add: max_overlap_def flip: ps_def M_def) (simp add: uint_word_of_int)
  then have "unat (max_overlap rs) \<le> n \<longleftrightarrow> M \<le> int n" by linarith
  also have "\<dots> \<longleftrightarrow> (\<forall>t. int (live_at rs t) \<le> int n)" using lower upper by (meson of_nat_0_le_iff order_trans)
  finally show ?thesis by simp
qed

section \<open>Uniqueness\<close>

text \<open>Two windows overlap exactly when both hold at an instant before the last one.\<close>

lemma windows_overlap_iff:
  assumes "validate_window a b = Ok ()" and "validate_window c d = Ok ()"
  shows "windows_overlap a b c d \<longleftrightarrow> (\<exists>t. t \<noteq> u64_max \<and> valid_at_window a b t \<and> valid_at_window c d t)"
proof -
  have lt: "t < u64_max \<longleftrightarrow> t \<noteq> u64_max" for t :: u64 using u64_le_max [of t] by (auto simp: le_less)
  have win: "a < e" if "b = Some e" for e using assms(1) that by (auto simp: validate_window_def split: if_splits)
  have win': "c < e" if "d = Some e" for e using assms(2) that by (auto simp: validate_window_def split: if_splits)
  have "valid_at_window a b (max a c) \<and> valid_at_window c d (max a c) \<and> max a c \<noteq> u64_max"
    if "windows_overlap a b c d"
    using that win win' u64_le_max unfolding windows_overlap_def valid_at_window_def
    by (cases b; cases d) (auto simp: max_def not_le lt dest: less_le_trans simp: leD [OF u64_le_max])
  moreover have "windows_overlap a b c d" if "valid_at_window a b t" "valid_at_window c d t" "t \<noteq> u64_max" for t
    using that unfolding windows_overlap_def valid_at_window_def
    by (cases b; cases d) (auto simp: lt [symmetric])
  ultimately show ?thesis by blast
qed

definition clash :: "runtime_record \<times> runtime_value \<Rightarrow> runtime_record \<times> runtime_value \<Rightarrow> bool" where
  "clash c d \<longleftrightarrow> snd c = snd d \<and>
     windows_overlap (rc_valid_from (fst c)) (rc_valid_to (fst c)) (rc_valid_from (fst d)) (rc_valid_to (fst d))"

lemma clash_sym: "clash c d \<Longrightarrow> clash d c"
  by (auto simp: clash_def windows_overlap_def)

lemma conflicting_pair_sorted: "\<not> conflicting_pair cs \<longleftrightarrow> sorted_wrt (\<lambda>c d. \<not> clash c d) cs"
  by (induction cs rule: conflicting_pair.induct) (auto simp: list_ex_iff clash_def)

lemma no_clash:
  "\<not> conflicting_pair cs \<Longrightarrow> c \<in> set cs \<Longrightarrow> d \<in> set cs \<Longrightarrow> c \<noteq> d \<Longrightarrow> \<not> clash c d"
  unfolding conflicting_pair_sorted by (induction cs) (auto dest: clash_sym)

definition unique_at :: "schema_registry \<Rightarrow> runtime_record list \<Rightarrow> u64 \<Rightarrow> bool" where
  "unique_at g rs t \<longleftrightarrow>
     (\<forall>kind schema property r q v. bt_get (sg_records g) kind = Some schema \<longrightarrow> property \<in> set (cs_unique schema) \<longrightarrow>
        r \<in> set rs \<longrightarrow> q \<in> set rs \<longrightarrow> rc_reference r \<noteq> rc_reference q \<longrightarrow>
        ref_kind (rc_reference r) = kind \<longrightarrow> ref_kind (rc_reference q) = kind \<longrightarrow>
        bt_get (rc_properties r) property = Some v \<longrightarrow> bt_get (rc_properties q) property = Some v \<longrightarrow>
        \<not> (valid_at_window (rc_valid_from r) (rc_valid_to r) t \<and> valid_at_window (rc_valid_from q) (rc_valid_to q) t))"

definition limits_at :: "schema_registry \<Rightarrow> runtime_relation list \<Rightarrow> u64 \<Rightarrow> bool" where
  "limits_at g rs t \<longleftrightarrow>
     (\<forall>kind schema. bt_get (sg_relations g) kind = Some schema \<longrightarrow>
        (let typed = filter (\<lambda>r. ref_kind (rl_reference r) = kind) rs in
         (\<forall>a b. ls_unique_pair schema \<longrightarrow> live_at (filter (\<lambda>r. rl_from r = a \<and> rl_to r = b) typed) t \<le> 1)
         \<and> (\<forall>a n. ls_max_outgoing schema = Some n \<longrightarrow> live_at (filter (\<lambda>r. rl_from r = a) typed) t \<le> unat n)
         \<and> (\<forall>b n. ls_max_incoming schema = Some n \<longrightarrow> live_at (filter (\<lambda>r. rl_to r = b) typed) t \<le> unat n)))"

lemma bt_entry: "bt_get m k = Some v \<Longrightarrow> (k, v) \<in> set m"
  unfolding bt_get_def by (rule map_of_SomeD)

lemma try_fold_unit_all: "try_fold f xs () = Ok () \<longleftrightarrow> (\<forall>x\<in>set xs. f x () = Ok ())"
  by (induction xs) (auto simp: res_simps)

definition record_windows_ok :: "runtime_record list \<Rightarrow> bool" where
  "record_windows_ok rs \<longleftrightarrow> (\<forall>r\<in>set rs. validate_window (rc_valid_from r) (rc_valid_to r) = Ok ())"

lemma uniqueness_holds:
  assumes "validate_record_uniqueness g rs = Ok ()" and "record_windows_ok rs" and "t \<noteq> u64_max"
  shows "unique_at g rs t"
  unfolding unique_at_def
proof (intro allI impI notI)
  fix kind schema property r q v
  assume schema: "bt_get (sg_records g) kind = Some schema" "property \<in> set (cs_unique schema)"
    and mem: "r \<in> set rs" "q \<in> set rs" and neq: "rc_reference r \<noteq> rc_reference q"
    and kinds: "ref_kind (rc_reference r) = kind" "ref_kind (rc_reference q) = kind"
    and vals: "bt_get (rc_properties r) property = Some v" "bt_get (rc_properties q) property = Some v"
    and live: "valid_at_window (rc_valid_from r) (rc_valid_to r) t \<and> valid_at_window (rc_valid_from q) (rc_valid_to q) t"
  let ?cs = "property_candidates kind property rs"
  have "\<not> conflicting_pair ?cs"
    using assms(1) bt_entry [OF schema(1)] schema(2)
    unfolding validate_record_uniqueness_def try_fold_unit_all by (fastforce simp: ensure_eq try_fold_unit_all)
  moreover have "(r, v) \<in> set ?cs" "(q, v) \<in> set ?cs"
    using mem kinds vals by (auto simp: property_candidates_def set_map_filter)
  ultimately have "\<not> clash (r, v) (q, v)" using no_clash neq by blast
  then show False
    using live windows_overlap_iff [of "rc_valid_from r" "rc_valid_to r" "rc_valid_from q" "rc_valid_to q"] assms(2,3) mem
    by (auto simp: clash_def record_windows_ok_def)
qed

section \<open>Cardinality\<close>

lemma bt_get_group:
  "bt_get (group_relations key rs) k = (let g = filter (\<lambda>r. key r = k) rs in if g = [] then None else Some g)"
proof -
  have "bt_get (fold (\<lambda>r. bt_update (key r) [] (\<lambda>g. g @ [r])) rs m) k =
      (let g = (case bt_get m k of None \<Rightarrow> [] | Some g \<Rightarrow> g) @ filter (\<lambda>r. key r = k) rs in
       if bt_get m k = None \<and> filter (\<lambda>r. key r = k) rs = [] then None else Some g)" for m
    by (induction rs arbitrary: m) (auto simp: bt_get_update Let_def split: option.splits)
  from this [of "[]"] show ?thesis by (simp add: group_relations_def Let_def)
qed

lemma group_limit:
  assumes "validate_groups limit e (group_relations key rs) = Ok ()" and "windows_ok rs" and "length rs < 2 ^ 63"
  shows "live_at (filter (\<lambda>r. key r = k) rs) t \<le> unat limit"
proof (cases "filter (\<lambda>r. key r = k) rs = []")
  case True
  then show ?thesis by (simp add: live_at_def)
next
  case False
  let ?g = "filter (\<lambda>r. key r = k) rs"
  have "(k, ?g) \<in> set (group_relations key rs)" using False by (intro bt_entry) (simp add: bt_get_group)
  with assms(1) have "max_overlap ?g \<le> limit"
    unfolding validate_groups_def try_fold_unit_all by (fastforce simp: ensure_eq)
  then have "unat (max_overlap ?g) \<le> unat limit" by (simp add: word_le_nat_alt)
  moreover have "windows_ok ?g" using assms(2) by (simp add: windows_ok_def)
  moreover have "length ?g < 2 ^ 63" using assms(3) le_less_trans [OF length_filter_le] by blast
  ultimately show ?thesis using max_overlap_le by blast
qed

lemma cardinality_holds:
  assumes ok: "validate_relation_cardinality g rs = Ok ()" and win: "windows_ok rs" and len: "length rs < 2 ^ 63"
  shows "limits_at g rs t"
  unfolding limits_at_def Let_def
proof (intro allI impI conjI)
  fix kind schema assume get: "bt_get (sg_relations g) kind = Some schema"
  let ?typed = "filter (\<lambda>r. ref_kind (rl_reference r) = kind) rs"
  have lim: "validate_relation_limits rs (kind, schema) = Ok ()"
    using ok bt_entry [OF get] unfolding validate_relation_cardinality_def try_fold_unit_all by blast
  have wt: "windows_ok ?typed" and lt: "length ?typed < 2 ^ 63"
    using win len le_less_trans [OF length_filter_le] by (auto simp: windows_ok_def)
  note limit = group_limit [OF _ wt lt]
  show "live_at (filter (\<lambda>r. rl_from r = a \<and> rl_to r = b) ?typed) t \<le> 1" if "ls_unique_pair schema" for a b
    using limit [of 1 _ "\<lambda>r. (rl_from r, rl_to r)" "(a, b)" t] lim that
    by (auto simp: validate_relation_limits_def Let_def res_simps)
  show "live_at (filter (\<lambda>r. rl_from r = a) ?typed) t \<le> unat n" if "ls_max_outgoing schema = Some n" for a n
    using limit [of n _ rl_from a t] lim that by (auto simp: validate_relation_limits_def Let_def res_simps)
  show "live_at (filter (\<lambda>r. rl_to r = b) ?typed) t \<le> unat n" if "ls_max_incoming schema = Some n" for b n
    using limit [of n _ rl_to b t] lim that by (auto simp: validate_relation_limits_def Let_def res_simps)
qed

section \<open>The graph a commit leaves behind\<close>

definition after_records :: "runtime_mutation list \<Rightarrow> runtime_record list \<Rightarrow> runtime_record list" where
  "after_records ms rs = map snd (fold overlay_record ms (collect_map rc_reference rs))"

definition after_relations :: "runtime_mutation list \<Rightarrow> runtime_relation list \<Rightarrow> runtime_relation list" where
  "after_relations ms rs = map snd (fold overlay_relation ms (collect_map rl_reference rs))"

lemma bt_insert_value: "(a, x) \<in> set (bt_insert k v m) \<Longrightarrow> x = v \<or> (a, x) \<in> set m"
  by (induction m) (auto split: if_splits)

lemma bt_insert_length: "length (bt_insert k v m) \<le> Suc (length m)"
  by (induction m) auto

lemma collect_map_value: "(a, x) \<in> set (collect_map key vs) \<Longrightarrow> x \<in> set vs"
proof -
  have "(a, x) \<in> set (fold (\<lambda>v. bt_insert (key v) v) vs m) \<Longrightarrow> x \<in> set vs \<or> (a, x) \<in> set m" for m
    by (induction vs arbitrary: m) (fastforce dest: bt_insert_value)+
  from this [of "[]"] show "(a, x) \<in> set (collect_map key vs) \<Longrightarrow> ?thesis" by (simp add: collect_map_def)
qed

lemma collect_map_length: "length (collect_map key vs) \<le> length vs"
proof -
  have "length (fold (\<lambda>v. bt_insert (key v) v) vs m) \<le> length vs + length m" for m
  proof (induction vs arbitrary: m)
    case (Cons v vs)
    from Cons [of "bt_insert (key v) v m"] bt_insert_length [of "key v" v m] show ?case by simp
  qed simp
  from this [of "[]"] show ?thesis by (simp add: collect_map_def)
qed

lemma after_records_value: "r \<in> set (after_records ms rs) \<Longrightarrow> MRecord r \<in> set ms \<or> r \<in> set rs"
proof -
  have "(a, r) \<in> set (fold overlay_record ms m) \<Longrightarrow> MRecord r \<in> set ms \<or> (a, r) \<in> set m" for a m
  proof (induction ms arbitrary: m)
    case (Cons x ms)
    then have "(a, r) \<in> set (fold overlay_record ms (overlay_record x m))" by simp
    from Cons.IH [OF this] show ?case by (cases x) (auto simp: overlay_record_def dest: bt_insert_value)
  qed simp
  then show "r \<in> set (after_records ms rs) \<Longrightarrow> ?thesis" unfolding after_records_def by (fastforce dest: collect_map_value)
qed

lemma after_relations_value: "r \<in> set (after_relations ms rs) \<Longrightarrow> MRelation r \<in> set ms \<or> r \<in> set rs"
proof -
  have "(a, r) \<in> set (fold overlay_relation ms m) \<Longrightarrow> MRelation r \<in> set ms \<or> (a, r) \<in> set m" for a m
  proof (induction ms arbitrary: m)
    case (Cons x ms)
    then have "(a, r) \<in> set (fold overlay_relation ms (overlay_relation x m))" by simp
    from Cons.IH [OF this] show ?case by (cases x) (auto simp: overlay_relation_def dest: bt_insert_value)
  qed simp
  then show "r \<in> set (after_relations ms rs) \<Longrightarrow> ?thesis" unfolding after_relations_def by (fastforce dest: collect_map_value)
qed

lemma after_relations_length: "length (after_relations ms rs) \<le> length ms + length rs"
proof -
  have "length (fold overlay_relation ms m) \<le> length ms + length m" for m
  proof (induction ms arbitrary: m)
    case (Cons x ms)
    have "length (overlay_relation x m) \<le> Suc (length m)"
      using bt_insert_length by (cases x) (auto simp: overlay_relation_def)
    with Cons [of "overlay_relation x m"] show ?case by simp
  qed simp
  from this [of "collect_map rl_reference rs"] collect_map_length [of rl_reference rs] show ?thesis
    unfolding after_relations_def by simp
qed

fun mutation_window_ok :: "runtime_mutation \<Rightarrow> bool" where
  "mutation_window_ok (MRecord r) = (validate_window (rc_valid_from r) (rc_valid_to r) = Ok ())"
| "mutation_window_ok (MRelation r) = (validate_window (rl_valid_from r) (rl_valid_to r) = Ok ())"
| "mutation_window_ok _ = True"

lemma validate_objects_holds:
  assumes ok: "validate_objects g ms rs ls = Ok ()" and ms: "list_all mutation_window_ok ms"
    and rs: "record_windows_ok rs" and ls: "windows_ok ls" and len: "length ms + length ls < 2 ^ 63"
  shows "t \<noteq> u64_max \<Longrightarrow> unique_at g (after_records ms rs) t" and "limits_at g (after_relations ms ls) t"
proof -
  have parts: "validate_record_uniqueness g (after_records ms rs) = Ok ()" "validate_relation_cardinality g (after_relations ms ls) = Ok ()"
    using ok by (simp_all add: validate_objects_def Let_def res_simps after_records_def after_relations_def)
  have "record_windows_ok (after_records ms rs)"
    using after_records_value [of _ ms rs] ms rs unfolding record_windows_ok_def by (fastforce simp: list_all_iff)
  then show "t \<noteq> u64_max \<Longrightarrow> unique_at g (after_records ms rs) t" using uniqueness_holds [OF parts(1)] by blast
  have "windows_ok (after_relations ms ls)"
    using after_relations_value [of _ ms ls] ms ls unfolding windows_ok_def by (fastforce simp: list_all_iff)
  moreover have "length (after_relations ms ls) < 2 ^ 63" using after_relations_length [of ms ls] len by linarith
  ultimately show "limits_at g (after_relations ms ls) t" using cardinality_holds [OF parts(2)] by blast
qed

end
