(* ===== verification/Runtime_Commit.thy ===== *)
theory Runtime_Commit
  imports Runtime_Schema Hash_Chain
begin

text \<open>
  Runtime commits and the changes they become (\<^verbatim>\<open>crates/vyrm-core/src/runtime.rs\<close>): validation, canonical bytes,
  content digests and the hash chain of the change log. The canonical bytes of a commit and of a change determine it,
  so that an equal digest means equal content unless SHA-256 collides.
\<close>

section \<open>Encodings\<close>

fun encode_vector_value :: "vector_value \<Rightarrow> bytes" where
  "encode_vector_value (Dense vs) = [0] @ counted u32_to_be_bytes vs"
| "encode_vector_value (Sparse dimensions indices vs) =
     [1] @ u32_to_be_bytes dimensions @ counted u32_to_be_bytes indices @ counted u32_to_be_bytes vs"
| "encode_vector_value (MultiDense dimensions vectors) =
     [2] @ u32_to_be_bytes dimensions @ counted (counted u32_to_be_bytes) vectors"

fun value_type_byte :: "runtime_value_type \<Rightarrow> u8" where
  "value_type_byte TNull = 0"
| "value_type_byte TBool = 1"
| "value_type_byte TInteger = 2"
| "value_type_byte TUnsigned = 3"
| "value_type_byte TDecimal = 4"
| "value_type_byte TString = 5"
| "value_type_byte TDigest = 6"
| "value_type_byte TList = 7"
| "value_type_byte TMap = 8"

definition encode_property_schemas :: "property_schemas \<Rightarrow> bytes" where
  "encode_property_schemas =
     counted (\<lambda>(name, schema). text_field name @ [value_type_byte (ps_value_type schema)] @ [bool_byte (ps_required schema)])"

definition encode_type_set :: "runtime_type list \<Rightarrow> bytes" where
  "encode_type_set = counted text_field"

definition encode_record_schema :: "runtime_type \<times> record_schema \<Rightarrow> bytes" where
  "encode_record_schema = (\<lambda>(kind, schema).
     text_field kind @ encode_property_schemas (cs_properties schema) @ [bool_byte (cs_allow_additional schema)]
     @ counted text_field (cs_unique schema))"

definition encode_relation_schema :: "runtime_type \<times> relation_schema \<Rightarrow> bytes" where
  "encode_relation_schema = (\<lambda>(kind, schema).
     text_field kind @ encode_type_set (ls_from schema) @ encode_type_set (ls_to schema)
     @ encode_property_schemas (ls_properties schema) @ [bool_byte (ls_allow_additional schema)]
     @ [bool_byte (ls_unique_pair schema)] @ encode_optional_u64 (ls_max_outgoing schema)
     @ encode_optional_u64 (ls_max_incoming schema))"

definition encode_event_schema :: "runtime_type \<times> event_schema \<Rightarrow> bytes" where
  "encode_event_schema = (\<lambda>(kind, schema).
     text_field kind @ [bool_byte (es_subject_required schema)] @ encode_type_set (es_subject_types schema)
     @ encode_property_schemas (es_properties schema) @ [bool_byte (es_allow_additional schema)])"

definition encode_schema :: "schema_registry \<Rightarrow> bytes" where
  "encode_schema g =
     u64_to_be_bytes (sg_revision g) @ text_field (sg_migration g) @ counted encode_record_schema (sg_records g)
     @ counted encode_relation_schema (sg_relations g) @ counted encode_event_schema (sg_events g)"

fun normalization_byte :: "vector_normalization \<Rightarrow> u8" where
  "normalization_byte NoNormalization = 0"
| "normalization_byte UnitL2 = 1"

definition encode_provenance :: "embedding_provenance \<Rightarrow> bytes" where
  "encode_provenance p =
     text_field (ep_source_digest p) @ text_field (ep_model p) @ text_field (ep_model_digest p)
     @ u32_to_be_bytes (ep_dimensions p) @ [normalization_byte (ep_normalization p)]
     @ encode_properties (ep_generation_parameters p)"

fun encode_series_value :: "series_value \<Rightarrow> bytes" where
  "encode_series_value (SInteger v) = [0] @ u64_to_be_bytes v"
| "encode_series_value (SUnsigned v) = [1] @ u64_to_be_bytes v"
| "encode_series_value (SDecimal v) = [2] @ text_field v"
| "encode_series_value (SBool b) = [3] @ [bool_byte b]"
| "encode_series_value (SString v) = [4] @ text_field v"

definition encode_point :: "geo_point \<Rightarrow> bytes" where
  "encode_point p = u64_to_be_bytes (longitude p) @ u64_to_be_bytes (latitude p)"

fun encode_geo_value :: "geo_value \<Rightarrow> bytes" where
  "encode_geo_value (Point p) = [0] @ encode_point p"
| "encode_geo_value (BoundingBox southwest northeast) = [1] @ encode_point southwest @ encode_point northeast"

fun encode_mutation :: "runtime_mutation \<Rightarrow> bytes" where
  "encode_mutation (MClaim c) = [0] @ text_field (canonical_bytes c)"
| "encode_mutation (MSchema g) = [4] @ encode_schema g"
| "encode_mutation (MRecord r) =
     [1] @ encode_ref (rc_reference r) @ encode_window (rc_valid_from r) (rc_valid_to r) @ encode_properties (rc_properties r)"
| "encode_mutation (MRelation r) =
     [2] @ encode_ref (rl_reference r) @ encode_ref (rl_from r) @ encode_ref (rl_to r)
     @ encode_window (rl_valid_from r) (rl_valid_to r) @ encode_properties (rl_properties r)"
| "encode_mutation (MEvent e) =
     [3] @ text_field (rn_kind e) @ optional_field encode_ref (rn_subject e) @ encode_properties (rn_properties e)"
| "encode_mutation (MVector v) =
     [5] @ encode_ref (rv_reference v) @ encode_ref (rv_subject v) @ text_field (rv_field v)
     @ encode_window (rv_valid_from v) (rv_valid_to v) @ encode_vector_value (rv_value v)
     @ optional_field encode_provenance (rv_provenance v) @ encode_properties (rv_properties v)"
| "encode_mutation (MSeriesSample s) =
     [6] @ encode_ref (ss_reference s) @ encode_ref (ss_series s) @ u64_to_be_bytes (ss_observed_at s)
     @ encode_series_value (ss_value s) @ encode_properties (ss_properties s)"
| "encode_mutation (MGeo g) =
     [7] @ encode_ref (rg_reference g) @ encode_ref (rg_subject g) @ text_field (rg_field g)
     @ encode_window (rg_valid_from g) (rg_valid_to g) @ encode_geo_value (rg_value g) @ encode_properties (rg_properties g)"
| "encode_mutation (MObject ob) =
     [8] @ encode_ref (ob_reference ob) @ optional_field encode_ref (ob_subject ob) @ text_field (ob_sha256 ob)
     @ u64_to_be_bytes (ob_length ob) @ text_field (ob_media_type ob) @ text_field (or_backend (ob_receipt ob))
     @ text_field (or_key (ob_receipt ob)) @ optional_text (or_version (ob_receipt ob))
     @ optional_text (or_etag (ob_receipt ob)) @ encode_properties (ob_properties ob)"

section \<open>Commits\<close>

record runtime_commit =
  cm_scope :: scope_id
  cm_at :: millis
  cm_actor :: bytes
  cm_expected_cursor :: u64
  cm_mutations :: "runtime_mutation list"

definition duplicate_identity :: "string \<Rightarrow> runtime_ref \<Rightarrow> core_error" where
  "duplicate_identity kind r =
     InvalidRuntime ''runtime commit contains duplicate {kind} identity {}/{}'' [ascii kind, ref_kind r, ref_id r]"

text \<open>\<open>identities.insert((tag, reference))\<close>, failing when the identity was there.\<close>

definition claim_identity :: "string \<Rightarrow> string \<Rightarrow> runtime_ref \<Rightarrow> (string \<times> runtime_ref) set \<times> nat \<Rightarrow>
    ((string \<times> runtime_ref) set \<times> nat) core_result" where
  "claim_identity tag label r st =
     (case st of (identities, schemas) \<Rightarrow>
        if (tag, r) \<in> identities then Err (duplicate_identity label r)
        else Ok (insert (tag, r) identities, schemas))"

fun validate_mutation :: "runtime_mutation \<Rightarrow> (string \<times> runtime_ref) set \<times> nat \<Rightarrow>
    ((string \<times> runtime_ref) set \<times> nat) core_result" where
  "validate_mutation (MClaim c) st = rbind (claim_validate c) (\<lambda>_. Ok st)"
| "validate_mutation (MSchema g) st =
     (case st of (identities, schemas) \<Rightarrow>
        rbind (registry_validate g) (\<lambda>_.
        if schemas + 1 > 1 then Err (InvalidRuntime ''runtime commit may contain at most one schema mutation'' [])
        else Ok (identities, schemas + 1)))"
| "validate_mutation (MRecord r) st =
     rbind (validate_window (rc_valid_from r) (rc_valid_to r)) (\<lambda>_.
     rbind (validate_properties (rc_properties r)) (\<lambda>_.
     claim_identity ''record'' ''record'' (rc_reference r) st))"
| "validate_mutation (MRelation r) st =
     rbind (validate_window (rl_valid_from r) (rl_valid_to r)) (\<lambda>_.
     rbind (validate_properties (rl_properties r)) (\<lambda>_.
     claim_identity ''relation'' ''relation'' (rl_reference r) st))"
| "validate_mutation (MEvent e) st = rbind (validate_properties (rn_properties e)) (\<lambda>_. Ok st)"
| "validate_mutation (MVector v) st =
     rbind (runtime_vector_validate v) (\<lambda>_.
     rbind (validate_properties (rv_properties v)) (\<lambda>_.
     claim_identity ''vector'' ''vector'' (rv_reference v) st))"
| "validate_mutation (MSeriesSample s) st =
     rbind (series_sample_validate s) (\<lambda>_.
     rbind (validate_properties (ss_properties s)) (\<lambda>_.
     claim_identity ''series_sample'' ''series sample'' (ss_reference s) st))"
| "validate_mutation (MGeo g) st =
     rbind (runtime_geo_validate g) (\<lambda>_.
     rbind (validate_properties (rg_properties g)) (\<lambda>_.
     claim_identity ''geo'' ''geo'' (rg_reference g) st))"
| "validate_mutation (MObject ob) st =
     rbind (object_validate ob) (\<lambda>_.
     rbind (validate_properties (ob_properties ob)) (\<lambda>_.
     claim_identity ''object'' ''object'' (ob_reference ob) st))"

definition commit_validate :: "runtime_commit \<Rightarrow> unit core_result" where
  "commit_validate c =
     rbind (runtime_validate_text ''runtime actor'' (cm_actor c)) (\<lambda>_.
     if cm_mutations c = []
     then Err (InvalidRuntime ''runtime commit must contain at least one mutation'' [])
     else rbind (try_fold validate_mutation (cm_mutations c) ({}, 0)) (\<lambda>_. Ok ()))"

definition commit_bytes :: "runtime_commit \<Rightarrow> bytes" where
  "commit_bytes c =
     ascii ''vyrm-runtime-commit-v1'' @ [0] @ text_field (cm_scope c) @ u64_to_be_bytes (cm_at c) @ text_field (cm_actor c)
     @ u64_to_be_bytes (cm_expected_cursor c) @ counted encode_mutation (cm_mutations c)"

definition commit_digest :: "runtime_commit \<Rightarrow> bytes" where
  "commit_digest c = sha256_hex (commit_bytes c)"

section \<open>Changes\<close>

record runtime_change =
  ch_cursor :: u64
  ch_commit_id :: bytes
  ch_commit_ordinal :: u64
  ch_scope :: scope_id
  ch_at :: millis
  ch_actor :: bytes
  ch_mutation :: runtime_mutation
  ch_previous_digest :: "bytes option"
  ch_digest :: bytes

definition change_bytes :: "runtime_change \<Rightarrow> bytes" where
  "change_bytes c =
     ascii ''vyrm-runtime-change-v1'' @ [0] @ u64_to_be_bytes (ch_cursor c) @ text_field (ch_commit_id c)
     @ u64_to_be_bytes (ch_commit_ordinal c) @ text_field (ch_scope c) @ u64_to_be_bytes (ch_at c) @ text_field (ch_actor c)
     @ encode_mutation (ch_mutation c) @ optional_text (ch_previous_digest c)"

definition change_committed ::
    "u64 \<Rightarrow> runtime_commit \<Rightarrow> bytes \<Rightarrow> u64 \<Rightarrow> runtime_mutation \<Rightarrow> bytes option \<Rightarrow> runtime_change" where
  "change_committed cursor commit commit_id ordinal mutation previous =
     (let change = \<lparr>ch_cursor = cursor, ch_commit_id = commit_id, ch_commit_ordinal = ordinal, ch_scope = cm_scope commit,
           ch_at = cm_at commit, ch_actor = cm_actor commit, ch_mutation = mutation, ch_previous_digest = previous,
           ch_digest = []\<rparr> in
      change\<lparr>ch_digest := sha256_hex (change_bytes change)\<rparr>)"

definition verify_digest :: "runtime_change \<Rightarrow> bool" where
  "verify_digest c \<longleftrightarrow> sha256_hex (change_bytes c) = ch_digest c"

section \<open>The encodings are self-delimiting\<close>

lemma u16_inj: "u16_to_be_bytes a = u16_to_be_bytes b \<longleftrightarrow> a = b"
  by (metis from_to_be_bytes)

definition sized_u32s :: "u32 list \<Rightarrow> bool" where
  "sized_u32s = sized_list (\<lambda>_. True)"

fun vector_sized :: "vector_value \<Rightarrow> bool" where
  "vector_sized (Dense vs) = sized_u32s vs"
| "vector_sized (Sparse _ indices vs) = (sized_u32s indices \<and> sized_u32s vs)"
| "vector_sized (MultiDense _ vectors) = sized_list sized_u32s vectors"

lemma delimited_u32s: "delimited sized_u32s (counted u32_to_be_bytes)"
  unfolding sized_u32s_def by (rule delimited_counted [OF delimited_u32])

lemma delimited_vector: "delimited vector_sized encode_vector_value"
  unfolding delimited_def
proof (intro allI impI)
  fix x y r r' assume "vector_sized x" "vector_sized y"
  then show "encode_vector_value x @ r = encode_vector_value y @ r' \<longleftrightarrow> x = y \<and> r = r'"
    by (cases x; cases y) (auto simp: delimitedD [OF delimited_u32s] int_field_inj
        delimitedD [OF delimited_counted [OF delimited_u32s]])
qed

lemma value_type_byte_inj: "value_type_byte a = value_type_byte b \<longleftrightarrow> a = b"
  by (cases a; cases b) simp_all

lemma normalization_byte_inj: "normalization_byte a = normalization_byte b \<longleftrightarrow> a = b"
  by (cases a; cases b) simp_all

definition property_schemas_sized :: "property_schemas \<Rightarrow> bool" where
  "property_schemas_sized = sized_list (\<lambda>(name, _). text_sized name)"

lemma delimited_property_schemas: "delimited property_schemas_sized encode_property_schemas"
  unfolding property_schemas_sized_def encode_property_schemas_def
  by (rule delimited_counted) (auto simp: delimited_def delimitedD [OF delimited_text] value_type_byte_inj bool_byte_inj
      intro: property_schema.equality)

abbreviation texts_sized :: "bytes list \<Rightarrow> bool" where
  "texts_sized \<equiv> sized_list text_sized"

lemma delimited_texts: "delimited texts_sized (counted text_field)"
  by (rule delimited_counted [OF delimited_text])

lemma delimited_type_set: "delimited texts_sized encode_type_set"
  unfolding encode_type_set_def by (rule delimited_texts)

definition record_schema_sized :: "runtime_type \<times> record_schema \<Rightarrow> bool" where
  "record_schema_sized = (\<lambda>(kind, s). text_sized kind \<and> property_schemas_sized (cs_properties s) \<and> texts_sized (cs_unique s))"

definition relation_schema_sized :: "runtime_type \<times> relation_schema \<Rightarrow> bool" where
  "relation_schema_sized = (\<lambda>(kind, s). text_sized kind \<and> texts_sized (ls_from s) \<and> texts_sized (ls_to s)
     \<and> property_schemas_sized (ls_properties s))"

definition event_schema_sized :: "runtime_type \<times> event_schema \<Rightarrow> bool" where
  "event_schema_sized = (\<lambda>(kind, s). text_sized kind \<and> texts_sized (es_subject_types s) \<and> property_schemas_sized (es_properties s))"

lemmas schema_fields = delimitedD [OF delimited_text] delimitedD [OF delimited_property_schemas] delimitedD [OF delimited_texts]
  delimitedD [OF delimited_type_set] delimitedD [OF delimited_optional_u64] bool_byte_inj

lemma delimited_schemas:
  "delimited record_schema_sized encode_record_schema"
  "delimited relation_schema_sized encode_relation_schema"
  "delimited event_schema_sized encode_event_schema"
  unfolding delimited_def encode_record_schema_def encode_relation_schema_def encode_event_schema_def
    record_schema_sized_def relation_schema_sized_def event_schema_sized_def
  by (auto simp: schema_fields intro: record_schema.equality relation_schema.equality event_schema.equality)

definition schema_sized :: "schema_registry \<Rightarrow> bool" where
  "schema_sized g \<longleftrightarrow> text_sized (sg_migration g) \<and> sized_list record_schema_sized (sg_records g)
     \<and> sized_list relation_schema_sized (sg_relations g) \<and> sized_list event_schema_sized (sg_events g)"

lemma delimited_schema: "delimited schema_sized encode_schema"
  unfolding delimited_def encode_schema_def schema_sized_def
  by (auto simp: int_field_inj delimitedD [OF delimited_text] delimitedD [OF delimited_counted [OF delimited_schemas(1)]]
      delimitedD [OF delimited_counted [OF delimited_schemas(2)]] delimitedD [OF delimited_counted [OF delimited_schemas(3)]]
      intro: schema_registry.equality)

definition provenance_sized :: "embedding_provenance \<Rightarrow> bool" where
  "provenance_sized p \<longleftrightarrow> text_sized (ep_source_digest p) \<and> text_sized (ep_model p) \<and> text_sized (ep_model_digest p)
     \<and> properties_sized (ep_generation_parameters p)"

lemma delimited_provenance: "delimited provenance_sized encode_provenance"
  unfolding delimited_def encode_provenance_def provenance_sized_def
  by (auto simp: delimitedD [OF delimited_text] int_field_inj normalization_byte_inj delimitedD [OF delimited_properties]
      intro: embedding_provenance.equality)

fun series_sized :: "series_value \<Rightarrow> bool" where
  "series_sized (SDecimal v) = text_sized v"
| "series_sized (SString v) = text_sized v"
| "series_sized _ = True"

lemma delimited_series: "delimited series_sized encode_series_value"
  unfolding delimited_def
proof (intro allI impI)
  fix x y r r' assume "series_sized x" "series_sized y"
  then show "encode_series_value x @ r = encode_series_value y @ r' \<longleftrightarrow> x = y \<and> r = r'"
    by (cases x; cases y) (auto simp: delimitedD [OF delimited_text] int_field_inj bool_byte_inj)
qed

lemma encode_point_inj: "encode_point p @ r = encode_point q @ r' \<longleftrightarrow> p = q \<and> r = r'"
  by (auto simp: encode_point_def int_field_inj intro: geo_point.equality)

lemma delimited_geo: "delimited (\<lambda>_. True) encode_geo_value"
  unfolding delimited_def
proof (intro allI impI)
  fix x y r r'
  show "encode_geo_value x @ r = encode_geo_value y @ r' \<longleftrightarrow> x = y \<and> r = r'"
    by (cases x; cases y) (auto simp: encode_point_inj)
qed

lemma encode_window_inj: "encode_window a b @ r = encode_window c d @ r' \<longleftrightarrow> a = c \<and> b = d \<and> r = r'"
  by (auto simp: encode_window_def int_field_inj delimitedD [OF delimited_optional_u64])

fun mutation_sized :: "runtime_mutation \<Rightarrow> bool" where
  "mutation_sized (MClaim c) = (claim_sized c \<and> text_sized (canonical_bytes c))"
| "mutation_sized (MSchema g) = schema_sized g"
| "mutation_sized (MRecord r) = (ref_sized (rc_reference r) \<and> properties_sized (rc_properties r))"
| "mutation_sized (MRelation r) = (ref_sized (rl_reference r) \<and> ref_sized (rl_from r) \<and> ref_sized (rl_to r)
     \<and> properties_sized (rl_properties r))"
| "mutation_sized (MEvent e) = (text_sized (rn_kind e) \<and> pred_option ref_sized (rn_subject e) \<and> properties_sized (rn_properties e))"
| "mutation_sized (MVector v) = (ref_sized (rv_reference v) \<and> ref_sized (rv_subject v) \<and> text_sized (rv_field v)
     \<and> vector_sized (rv_value v) \<and> pred_option provenance_sized (rv_provenance v) \<and> properties_sized (rv_properties v))"
| "mutation_sized (MSeriesSample s) = (ref_sized (ss_reference s) \<and> ref_sized (ss_series s) \<and> series_sized (ss_value s)
     \<and> properties_sized (ss_properties s))"
| "mutation_sized (MGeo g) = (ref_sized (rg_reference g) \<and> ref_sized (rg_subject g) \<and> text_sized (rg_field g)
     \<and> properties_sized (rg_properties g))"
| "mutation_sized (MObject ob) = (ref_sized (ob_reference ob) \<and> pred_option ref_sized (ob_subject ob) \<and> text_sized (ob_sha256 ob)
     \<and> text_sized (ob_media_type ob) \<and> text_sized (or_backend (ob_receipt ob)) \<and> text_sized (or_key (ob_receipt ob))
     \<and> pred_option text_sized (or_version (ob_receipt ob)) \<and> pred_option text_sized (or_etag (ob_receipt ob))
     \<and> properties_sized (ob_properties ob))"

lemmas mutation_fields = delimitedD [OF delimited_text] delimitedD [OF delimited_ref] delimitedD [OF delimited_properties]
  delimitedD [OF delimited_vector] delimitedD [OF delimited_optional [OF delimited_ref]] delimitedD [OF delimited_optional_text]
  delimitedD [OF delimited_optional [OF delimited_provenance]] delimitedD [OF delimited_series] delimitedD [OF delimited_geo]
  delimitedD [OF delimited_schema] encode_window_inj int_field_inj canonical_bytes_inj

lemma delimited_mutation: "delimited mutation_sized encode_mutation"
  unfolding delimited_def
proof (intro allI impI)
  fix x y r r' assume "mutation_sized x" "mutation_sized y"
  then show "encode_mutation x @ r = encode_mutation y @ r' \<longleftrightarrow> x = y \<and> r = r'"
    by (cases x; cases y)
      (auto simp: mutation_fields intro: runtime_record.equality runtime_relation.equality runtime_event.equality
        runtime_vector.equality runtime_series_sample.equality runtime_geo.equality object_reference.equality object_receipt.equality)
qed

definition commit_sized :: "runtime_commit \<Rightarrow> bool" where
  "commit_sized c \<longleftrightarrow> text_sized (cm_scope c) \<and> text_sized (cm_actor c) \<and> sized_list mutation_sized (cm_mutations c)"

lemma commit_bytes_inj:
  assumes "commit_sized a" and "commit_sized b"
  shows "commit_bytes a = commit_bytes b \<longleftrightarrow> a = b"
  using assms delimited_inj [OF delimited_counted [OF delimited_mutation], of "cm_mutations a" "cm_mutations b"]
  by (auto simp: commit_bytes_def commit_sized_def delimitedD [OF delimited_text] int_field_inj intro: runtime_commit.equality)

definition change_sized :: "runtime_change \<Rightarrow> bool" where
  "change_sized c \<longleftrightarrow> text_sized (ch_commit_id c) \<and> text_sized (ch_scope c) \<and> text_sized (ch_actor c)
     \<and> mutation_sized (ch_mutation c) \<and> pred_option text_sized (ch_previous_digest c)"

lemma change_bytes_inj:
  assumes "change_sized a" and "change_sized b" and "change_bytes a = change_bytes b" and "ch_digest a = ch_digest b"
  shows "a = b"
  using assms
  by (auto simp: change_bytes_def change_sized_def delimitedD [OF delimited_text] delimitedD [OF delimited_mutation] int_field_inj
      delimited_inj [OF delimited_optional_text] intro!: runtime_change.equality)

interpretation change_log: hash_chain change_bytes ch_previous_digest ch_digest change_sized
  by unfold_locales (rule change_bytes_inj)

end
