(* ===== verification/Runtime_Stamp.thy ===== *)
theory Runtime_Stamp
  imports Runtime_Commit
begin

text \<open>
  Content-addressed envelopes of the data runtime (\<^verbatim>\<open>crates/vyrm-core/src/runtime.rs\<close>): read stamps, snapshot leases,
  retention pins, data transactions, projection work and audit envelopes. Each carries a digest over its other fields;
  a validated envelope is the one its constructor builds from those fields.
\<close>

section \<open>Read stamps\<close>

record read_stamp =
  st_contract_version :: u16
  st_scope :: scope_id
  st_schema_revision :: "u64 option"
  st_catalog_revision :: u64
  st_commit_cursor :: u64
  st_head_digest :: "bytes option"
  st_manifest_id :: bytes

definition bad_version :: "string \<Rightarrow> u16 \<Rightarrow> core_error" where
  "bad_version template v = InvalidRuntime template [decimal (unat v)]"

definition stamp_components :: "read_stamp \<Rightarrow> unit core_result" where
  "stamp_components s =
     (if st_contract_version s \<noteq> DATA_RUNTIME_CONTRACT_VERSION
      then Err (bad_version ''unsupported data-runtime contract version {}'' (st_contract_version s))
      else if st_schema_revision s = Some 0
      then Err (InvalidRuntime ''schema revision zero is not a valid installed revision'' [])
      else case st_head_digest s of
        None \<Rightarrow>
          if st_commit_cursor s = 0 then Ok ()
          else Err (InvalidRuntime ''a non-empty runtime must carry its hash-chain head'' [])
      | Some v \<Rightarrow>
          if st_commit_cursor s = 0 then Err (InvalidRuntime ''an empty runtime cannot have a hash-chain head'' [])
          else validate_digest ''read stamp hash-chain head'' v)"

definition manifest_bytes_of :: "read_stamp \<Rightarrow> bytes" where
  "manifest_bytes_of s =
     ascii ''vyrm-read-stamp-v1'' @ [0] @ u16_to_be_bytes (st_contract_version s) @ text_field (st_scope s)
     @ encode_optional_u64 (st_schema_revision s) @ u64_to_be_bytes (st_catalog_revision s)
     @ u64_to_be_bytes (st_commit_cursor s) @ optional_text (st_head_digest s)"

definition read_stamp_new :: "scope_id \<Rightarrow> u64 option \<Rightarrow> u64 \<Rightarrow> u64 \<Rightarrow> bytes option \<Rightarrow> read_stamp core_result" where
  "read_stamp_new scope schema_revision catalog_revision commit_cursor head_digest =
     (let stamp = \<lparr>st_contract_version = DATA_RUNTIME_CONTRACT_VERSION, st_scope = scope,
           st_schema_revision = schema_revision, st_catalog_revision = catalog_revision,
           st_commit_cursor = commit_cursor, st_head_digest = head_digest, st_manifest_id = []\<rparr> in
      rbind (stamp_components stamp) (\<lambda>_.
      Ok (stamp\<lparr>st_manifest_id := sha256_hex (manifest_bytes_of stamp)\<rparr>)))"

definition read_stamp_validate :: "read_stamp \<Rightarrow> unit core_result" where
  "read_stamp_validate s =
     rbind (stamp_components s) (\<lambda>_.
     rbind (validate_digest ''read stamp manifest'' (st_manifest_id s)) (\<lambda>_.
     if st_manifest_id s \<noteq> sha256_hex (manifest_bytes_of s)
     then Err (InvalidRuntime ''read stamp manifest digest does not match its fields'' [])
     else Ok ()))"

definition stamp_bytes :: "read_stamp \<Rightarrow> bytes" where
  "stamp_bytes s = manifest_bytes_of s @ text_field (st_manifest_id s)"

section \<open>Snapshot leases\<close>

record snapshot_handle =
  sh_contract_version :: u16
  sh_id :: snapshot_id
  sh_read :: read_stamp
  sh_owner :: bytes
  sh_created_at :: millis
  sh_expires_at :: millis

definition snapshot_identity :: "read_stamp \<Rightarrow> bytes \<Rightarrow> millis \<Rightarrow> millis \<Rightarrow> bytes" where
  "snapshot_identity read owner created_at expires_at =
     sha256_hex (ascii ''vyrm-snapshot-handle-v1'' @ [0] @ stamp_bytes read @ text_field owner
       @ u64_to_be_bytes created_at @ u64_to_be_bytes expires_at)"

definition snapshot_new :: "read_stamp \<Rightarrow> bytes \<Rightarrow> millis \<Rightarrow> millis \<Rightarrow> snapshot_handle core_result" where
  "snapshot_new read owner created_at ttl =
     rbind (read_stamp_validate read) (\<lambda>_.
     rbind (runtime_validate_text ''snapshot owner'' owner) (\<lambda>_.
     if ttl = 0 then Err (InvalidRuntime ''snapshot lease duration must be greater than zero'' [])
     else
     rbind (ok_or (checked_add created_at ttl) (InvalidRuntime ''snapshot lease expiration overflowed'' [])) (\<lambda>expires_at.
     rbind (snapshot_id_new (snapshot_identity read owner created_at expires_at)) (\<lambda>i.
     Ok \<lparr>sh_contract_version = DATA_RUNTIME_CONTRACT_VERSION, sh_id = i, sh_read = read, sh_owner = owner,
         sh_created_at = created_at, sh_expires_at = expires_at\<rparr>))))"

definition snapshot_validate :: "snapshot_handle \<Rightarrow> unit core_result" where
  "snapshot_validate s =
     (if sh_contract_version s \<noteq> DATA_RUNTIME_CONTRACT_VERSION
      then Err (bad_version ''unsupported snapshot contract version {}'' (sh_contract_version s))
      else
      rbind (read_stamp_validate (sh_read s)) (\<lambda>_.
      rbind (runtime_validate_text ''snapshot owner'' (sh_owner s)) (\<lambda>_.
      if sh_expires_at s \<le> sh_created_at s
      then Err (InvalidRuntime ''snapshot lease must expire after creation'' [])
      else if sh_id s \<noteq> snapshot_identity (sh_read s) (sh_owner s) (sh_created_at s) (sh_expires_at s)
      then Err (InvalidRuntime ''snapshot identity does not match its lease and read stamp'' [])
      else Ok ())))"

definition snapshot_is_expired :: "snapshot_handle \<Rightarrow> millis \<Rightarrow> bool" where
  "snapshot_is_expired s now \<longleftrightarrow> now \<ge> sh_expires_at s"

section \<open>Retention pins\<close>

record retention_pin =
  pn_contract_version :: u16
  pn_id :: retention_pin_id
  pn_snapshot_id :: snapshot_id
  pn_scope :: scope_id
  pn_manifest_id :: bytes
  pn_minimum_cursor :: u64
  pn_expires_at :: millis

definition pin_identity :: "snapshot_id \<Rightarrow> scope_id \<Rightarrow> bytes \<Rightarrow> u64 \<Rightarrow> millis \<Rightarrow> bytes" where
  "pin_identity snapshot scope manifest_id minimum_cursor expires_at =
     sha256_hex (ascii ''vyrm-retention-pin-v1'' @ [0] @ text_field snapshot @ text_field scope @ text_field manifest_id
       @ u64_to_be_bytes minimum_cursor @ u64_to_be_bytes expires_at)"

definition pin_validate :: "retention_pin \<Rightarrow> unit core_result" where
  "pin_validate p =
     (if pn_contract_version p \<noteq> DATA_RUNTIME_CONTRACT_VERSION
      then Err (bad_version ''unsupported retention-pin contract version {}'' (pn_contract_version p))
      else
      rbind (validate_digest ''retention-pin manifest'' (pn_manifest_id p)) (\<lambda>_.
      rbind (validate_digest ''retention pin identity'' (pn_id p)) (\<lambda>_.
      if pn_id p \<noteq> pin_identity (pn_snapshot_id p) (pn_scope p) (pn_manifest_id p) (pn_minimum_cursor p) (pn_expires_at p)
      then Err (InvalidRuntime ''retention pin identity does not match its snapshot'' [])
      else Ok ())))"

definition pin_from_snapshot :: "snapshot_handle \<Rightarrow> retention_pin core_result" where
  "pin_from_snapshot s =
     rbind (snapshot_validate s) (\<lambda>_.
     rbind (retention_pin_id_new (pin_identity (sh_id s) (st_scope (sh_read s)) (st_manifest_id (sh_read s))
              (st_commit_cursor (sh_read s)) (sh_expires_at s))) (\<lambda>i.
     let pin = \<lparr>pn_contract_version = DATA_RUNTIME_CONTRACT_VERSION, pn_id = i, pn_snapshot_id = sh_id s,
          pn_scope = st_scope (sh_read s), pn_manifest_id = st_manifest_id (sh_read s),
          pn_minimum_cursor = st_commit_cursor (sh_read s), pn_expires_at = sh_expires_at s\<rparr> in
     rbind (pin_validate pin) (\<lambda>_. Ok pin)))"

definition pin_is_expired :: "retention_pin \<Rightarrow> millis \<Rightarrow> bool" where
  "pin_is_expired p now \<longleftrightarrow> now \<ge> pn_expires_at p"

section \<open>Data transactions\<close>

record data_transaction =
  tn_contract_version :: u16
  tn_read :: read_stamp
  tn_commit :: runtime_commit

definition transaction_validate :: "data_transaction \<Rightarrow> unit core_result" where
  "transaction_validate t =
     (if tn_contract_version t \<noteq> DATA_RUNTIME_CONTRACT_VERSION
      then Err (bad_version ''unsupported transaction contract version {}'' (tn_contract_version t))
      else
      rbind (read_stamp_validate (tn_read t)) (\<lambda>_.
      rbind (commit_validate (tn_commit t)) (\<lambda>_.
      if st_scope (tn_read t) \<noteq> cm_scope (tn_commit t)
      then Err (InvalidRuntime ''transaction read scope differs from commit scope'' [])
      else if st_commit_cursor (tn_read t) \<noteq> cm_expected_cursor (tn_commit t)
      then Err (InvalidRuntime ''transaction expected cursor differs from its read stamp'' [])
      else Ok ())))"

definition transaction_new :: "read_stamp \<Rightarrow> runtime_commit \<Rightarrow> data_transaction core_result" where
  "transaction_new read commit =
     (let t = \<lparr>tn_contract_version = DATA_RUNTIME_CONTRACT_VERSION, tn_read = read, tn_commit = commit\<rparr> in
      rbind (transaction_validate t) (\<lambda>_. Ok t))"

definition transaction_digest :: "data_transaction \<Rightarrow> bytes" where
  "transaction_digest t =
     sha256_hex (ascii ''vyrm-data-transaction-v1'' @ [0] @ u16_to_be_bytes (tn_contract_version t) @ stamp_bytes (tn_read t)
       @ text_field (commit_bytes (tn_commit t)))"

section \<open>Projection work\<close>

datatype projection_state = Building | Ready | Quarantined | Retiring

datatype projection_family = Scalar | Graph | Text | VectorFamily | TimeSeries | GeoFamily | ObjectFamily

fun projection_family_tag :: "projection_family \<Rightarrow> u8" where
  "projection_family_tag Scalar = 0"
| "projection_family_tag Graph = 1"
| "projection_family_tag Text = 2"
| "projection_family_tag VectorFamily = 3"
| "projection_family_tag TimeSeries = 4"
| "projection_family_tag GeoFamily = 5"
| "projection_family_tag ObjectFamily = 6"

fun projection_family_of :: "runtime_mutation \<Rightarrow> projection_family option" where
  "projection_family_of (MRecord _) = Some Scalar"
| "projection_family_of (MRelation _) = Some Graph"
| "projection_family_of (MEvent _) = Some Graph"
| "projection_family_of (MVector _) = Some VectorFamily"
| "projection_family_of (MSeriesSample _) = Some TimeSeries"
| "projection_family_of (MGeo _) = Some GeoFamily"
| "projection_family_of (MObject _) = Some ObjectFamily"
| "projection_family_of (MClaim _) = None"
| "projection_family_of (MSchema _) = None"

record projection_work =
  pw_contract_version :: u16
  pw_id :: outbox_id
  pw_scope :: scope_id
  pw_source_cursor :: u64
  pw_commit_id :: bytes
  pw_commit_ordinal :: u64
  pw_family :: projection_family

definition work_for_change :: "scope_id \<Rightarrow> u64 \<Rightarrow> bytes \<Rightarrow> u64 \<Rightarrow> projection_family \<Rightarrow> projection_work core_result" where
  "work_for_change scope source_cursor commit_id ordinal family =
     rbind (validate_digest ''outbox commit'' commit_id) (\<lambda>_.
     if source_cursor = 0 then Err (InvalidRuntime ''outbox source cursor must be greater than zero'' [])
     else
     rbind (outbox_id_new (sha256_hex (ascii ''vyrm-projection-work-v1'' @ [0] @ text_field scope
              @ u64_to_be_bytes source_cursor @ text_field commit_id @ u64_to_be_bytes ordinal
              @ [projection_family_tag family]))) (\<lambda>i.
     Ok \<lparr>pw_contract_version = DATA_RUNTIME_CONTRACT_VERSION, pw_id = i, pw_scope = scope, pw_source_cursor = source_cursor,
         pw_commit_id = commit_id, pw_commit_ordinal = ordinal, pw_family = family\<rparr>))"

definition work_validate :: "projection_work \<Rightarrow> unit core_result" where
  "work_validate w =
     rbind (work_for_change (pw_scope w) (pw_source_cursor w) (pw_commit_id w) (pw_commit_ordinal w) (pw_family w)) (\<lambda>rebuilt.
     if pw_contract_version w \<noteq> DATA_RUNTIME_CONTRACT_VERSION \<or> pw_id rebuilt \<noteq> pw_id w
     then Err (InvalidRuntime ''outbox identity or contract version is invalid'' [])
     else Ok ())"

record projection_stamp =
  pp_contract_version :: u16
  pp_id :: projection_id
  pp_generation :: u64
  pp_source_cursor :: u64
  pp_config_digest :: bytes
  pp_artifact_digest :: bytes
  pp_state :: projection_state

definition projection_stamp_validate :: "projection_stamp \<Rightarrow> unit core_result" where
  "projection_stamp_validate p =
     (if pp_contract_version p \<noteq> DATA_RUNTIME_CONTRACT_VERSION \<or> pp_generation p = 0
      then Err (InvalidRuntime ''projection contract version and generation must be valid'' [])
      else
      rbind (validate_digest ''projection configuration'' (pp_config_digest p)) (\<lambda>_.
      validate_digest ''projection artifact'' (pp_artifact_digest p)))"

section \<open>Audit envelopes\<close>

datatype audit_decision = Allow | Deny

record audit_envelope =
  au_contract_version :: u16
  au_request_id :: bytes
  au_parent_request_id :: "bytes option"
  au_at :: millis
  au_actor :: bytes
  au_scope :: scope_id
  au_operation :: bytes
  au_resource :: bytes
  au_read :: "read_stamp option"
  au_decision :: audit_decision
  au_outcome_cursor :: "u64 option"
  au_duration_ms :: u64
  au_previous_digest :: "bytes option"
  au_digest :: bytes

definition audit_components :: "audit_envelope \<Rightarrow> unit core_result" where
  "audit_components a =
     (if au_contract_version a \<noteq> DATA_RUNTIME_CONTRACT_VERSION
      then Err (bad_version ''unsupported audit contract version {}'' (au_contract_version a))
      else
      rbind (try_fold (\<lambda>(kind, val) _. runtime_validate_text kind val)
               [(''audit request id'', au_request_id a), (''audit actor'', au_actor a),
                (''audit operation'', au_operation a), (''audit resource'', au_resource a)] ()) (\<lambda>_.
      rbind (case au_parent_request_id a of
               Some parent \<Rightarrow> runtime_validate_text ''audit parent request id'' parent
             | None \<Rightarrow> Ok ()) (\<lambda>_.
      rbind (case au_read a of
               Some read \<Rightarrow>
                 rbind (read_stamp_validate read) (\<lambda>_.
                 if st_scope read \<noteq> au_scope a
                 then Err (InvalidRuntime ''audit read stamp scope differs from audit scope'' [])
                 else Ok ())
             | None \<Rightarrow> Ok ()) (\<lambda>_.
      case au_previous_digest a of
        Some previous \<Rightarrow> validate_digest ''previous audit envelope'' previous
      | None \<Rightarrow> Ok ()))))"

fun decision_tag :: "audit_decision \<Rightarrow> u8" where
  "decision_tag Allow = 1"
| "decision_tag Deny = 2"

definition audit_bytes :: "audit_envelope \<Rightarrow> bytes" where
  "audit_bytes a =
     ascii ''vyrm-audit-envelope-v1'' @ [0] @ u16_to_be_bytes (au_contract_version a) @ text_field (au_request_id a)
     @ optional_text (au_parent_request_id a) @ u64_to_be_bytes (au_at a) @ text_field (au_actor a) @ text_field (au_scope a)
     @ text_field (au_operation a) @ text_field (au_resource a)
     @ optional_field (\<lambda>read. text_field (stamp_bytes read)) (au_read a)
     @ [decision_tag (au_decision a)] @ encode_optional_u64 (au_outcome_cursor a) @ u64_to_be_bytes (au_duration_ms a)
     @ optional_text (au_previous_digest a)"

definition audit_seal :: "audit_envelope \<Rightarrow> audit_envelope core_result" where
  "audit_seal a = rbind (audit_components a) (\<lambda>_. Ok (a\<lparr>au_digest := sha256_hex (audit_bytes a)\<rparr>))"

definition audit_validate :: "audit_envelope \<Rightarrow> unit core_result" where
  "audit_validate a =
     rbind (audit_components a) (\<lambda>_.
     rbind (validate_digest ''audit envelope'' (au_digest a)) (\<lambda>_.
     if au_digest a \<noteq> sha256_hex (audit_bytes a)
     then Err (InvalidRuntime ''audit envelope digest does not match its fields'' [])
     else Ok ()))"

definition accepted_commit :: "runtime_commit \<Rightarrow> bytes \<Rightarrow> u64 \<Rightarrow> bytes option \<Rightarrow> audit_envelope core_result" where
  "accepted_commit commit commit_id outcome_cursor previous =
     audit_seal \<lparr>au_contract_version = DATA_RUNTIME_CONTRACT_VERSION, au_request_id = commit_id, au_parent_request_id = None,
       au_at = cm_at commit, au_actor = cm_actor commit, au_scope = cm_scope commit,
       au_operation = ascii ''runtime.commit'', au_resource = ascii ''transaction:'' @ commit_id, au_read = None,
       au_decision = Allow, au_outcome_cursor = Some outcome_cursor, au_duration_ms = 0,
       au_previous_digest = previous, au_digest = []\<rparr>"

section \<open>Validated envelopes\<close>

lemma sha256_hex_byte: "b \<in> set (sha256_hex m) \<Longrightarrow> is_ascii_hexdigit b \<and> b \<noteq> 0"
  using sha256_hex_lower [of b m] by (auto simp: is_ascii_hexdigit_def is_lower_hex_def)

lemma sha256_hex_valid [simp]:
  "validate_digest kind (sha256_hex m) = Ok ()"
  "validate_identifier kind (sha256_hex m) = Ok ()"
  "runtime_ident_new kind (sha256_hex m) = Ok (sha256_hex m)"
proof -
  have ne: "sha256_hex m \<noteq> []" using length_sha256_hex [of m] by (metis list.size(3) zero_neq_numeral)
  show id: "validate_identifier kind (sha256_hex m) = Ok ()"
    using ne sha256_hex_byte [of _ m] by (auto simp: validate_identifier_def)
  show "validate_digest kind (sha256_hex m) = Ok ()"
    using sha256_hex_byte [of _ m] by (auto simp: validate_digest_def list_all_iff length_sha256_hex)
  show "runtime_ident_new kind (sha256_hex m) = Ok (sha256_hex m)" by (simp add: runtime_ident_new_def id)
qed

lemma manifest_bytes_frame: "manifest_bytes_of (s\<lparr>st_manifest_id := i\<rparr>) = manifest_bytes_of s"
  "stamp_components (s\<lparr>st_manifest_id := i\<rparr>) = stamp_components s"
  by (simp_all add: manifest_bytes_of_def stamp_components_def cong: option.case_cong)

lemma read_stamp_canonical:
  "read_stamp_validate s = Ok () \<longleftrightarrow>
    read_stamp_new (st_scope s) (st_schema_revision s) (st_catalog_revision s) (st_commit_cursor s) (st_head_digest s) = Ok s"
  (is "?L \<longleftrightarrow> ?R")
proof
  assume ?L
  then have "st_contract_version s = DATA_RUNTIME_CONTRACT_VERSION" "stamp_components s = Ok ()"
    "st_manifest_id s = sha256_hex (manifest_bytes_of s)"
    by (auto simp: read_stamp_validate_def stamp_components_def res_simps split: if_splits)
  moreover from this have "\<lparr>st_contract_version = DATA_RUNTIME_CONTRACT_VERSION, st_scope = st_scope s,
      st_schema_revision = st_schema_revision s, st_catalog_revision = st_catalog_revision s,
      st_commit_cursor = st_commit_cursor s, st_head_digest = st_head_digest s, st_manifest_id = []\<rparr> = s\<lparr>st_manifest_id := []\<rparr>"
    by (cases s) simp
  moreover have "s\<lparr>st_manifest_id := st_manifest_id s\<rparr> = s" by simp
  ultimately show ?R by (simp only: read_stamp_new_def Let_def manifest_bytes_frame rbind_simps) simp
next
  assume R: ?R
  define b where "b = \<lparr>st_contract_version = DATA_RUNTIME_CONTRACT_VERSION, st_scope = st_scope s,
      st_schema_revision = st_schema_revision s, st_catalog_revision = st_catalog_revision s,
      st_commit_cursor = st_commit_cursor s, st_head_digest = st_head_digest s, st_manifest_id = []\<rparr>"
  have "stamp_components b = Ok ()" "s = b\<lparr>st_manifest_id := sha256_hex (manifest_bytes_of b)\<rparr>"
    using R by (auto simp: read_stamp_new_def Let_def res_simps simp flip: b_def)
  then show ?L by (simp add: read_stamp_validate_def manifest_bytes_frame)
qed

lemma snapshot_canonical:
  "snapshot_validate s = Ok () \<longleftrightarrow> (\<exists>ttl. snapshot_new (sh_read s) (sh_owner s) (sh_created_at s) ttl = Ok s)"
  (is "?L \<longleftrightarrow> ?R")
proof
  assume ?L
  then have s: "sh_contract_version s = DATA_RUNTIME_CONTRACT_VERSION" "read_stamp_validate (sh_read s) = Ok ()"
    "runtime_validate_text ''snapshot owner'' (sh_owner s) = Ok ()" "sh_created_at s < sh_expires_at s"
    "sh_id s = snapshot_identity (sh_read s) (sh_owner s) (sh_created_at s) (sh_expires_at s)"
    by (auto simp: snapshot_validate_def res_simps not_le split: if_splits)
  let ?ttl = "sh_expires_at s - sh_created_at s"
  have "unat (sh_created_at s) + unat ?ttl = unat (sh_expires_at s)"
    using s(4) by (simp add: unat_sub word_less_nat_alt word_le_nat_alt)
  then have "checked_add (sh_created_at s) ?ttl = Some (sh_expires_at s)"
    using unat_u64_less [of "sh_expires_at s"] by (simp add: checked_add_eq_Some word_unat_eq_iff)
  moreover have "?ttl \<noteq> 0" using s(4) by auto
  moreover have "snapshot_id_new (sh_id s) = Ok (sh_id s)" by (simp add: s(5) snapshot_id_new_def snapshot_identity_def)
  ultimately have "snapshot_new (sh_read s) (sh_owner s) (sh_created_at s) ?ttl = Ok s"
    using s by (simp add: snapshot_new_def)
  then show ?R ..
next
  assume ?R
  then obtain ttl where new: "snapshot_new (sh_read s) (sh_owner s) (sh_created_at s) ttl = Ok s" ..
  then obtain e where e: "checked_add (sh_created_at s) ttl = Some e" "ttl \<noteq> 0" "read_stamp_validate (sh_read s) = Ok ()"
    "runtime_validate_text ''snapshot owner'' (sh_owner s) = Ok ()"
    and s: "s = \<lparr>sh_contract_version = DATA_RUNTIME_CONTRACT_VERSION, sh_id = snapshot_identity (sh_read s) (sh_owner s) (sh_created_at s) e,
      sh_read = sh_read s, sh_owner = sh_owner s, sh_created_at = sh_created_at s, sh_expires_at = e\<rparr>"
    by (auto simp: snapshot_new_def res_simps snapshot_id_new_def snapshot_identity_def split: if_splits)
  have "sh_created_at s < e"
    using e(1,2) by (simp add: checked_add_eq_Some word_less_nat_alt unat_eq_0 [symmetric])
  then show ?L using e by (subst s) (simp add: snapshot_validate_def)
qed

lemma pin_of_valid_snapshot:
  assumes "snapshot_validate s = Ok ()"
  shows "\<exists>p. pin_from_snapshot s = Ok p \<and> pin_validate p = Ok () \<and> pn_snapshot_id p = sh_id s
    \<and> pn_minimum_cursor p = st_commit_cursor (sh_read s) \<and> pn_manifest_id p = st_manifest_id (sh_read s)
    \<and> (\<forall>now. pin_is_expired p now \<longleftrightarrow> snapshot_is_expired s now)"
proof -
  have "validate_digest k (st_manifest_id (sh_read s)) = Ok ()" for k
    using assms by (auto simp: snapshot_validate_def read_stamp_validate_def res_simps validate_digest_def split: if_splits)
  then show ?thesis
    using assms
    by (simp add: pin_from_snapshot_def Let_def pin_validate_def retention_pin_id_new_def pin_identity_def pin_is_expired_def
        snapshot_is_expired_def)
qed

lemma work_canonical:
  "work_validate w = Ok () \<longleftrightarrow>
    work_for_change (pw_scope w) (pw_source_cursor w) (pw_commit_id w) (pw_commit_ordinal w) (pw_family w) = Ok w"
  by (cases w) (auto simp: work_validate_def work_for_change_def res_simps outbox_id_new_def split: if_splits)

lemma audit_seal_valid: "audit_seal a = Ok b \<Longrightarrow> audit_validate b = Ok ()"
proof -
  have "audit_components (a\<lparr>au_digest := d\<rparr>) = audit_components a" "audit_bytes (a\<lparr>au_digest := d\<rparr>) = audit_bytes a" for d
    by (simp_all add: audit_components_def audit_bytes_def cong: option.case_cong)
  then show "audit_seal a = Ok b \<Longrightarrow> ?thesis" by (auto simp: audit_seal_def audit_validate_def res_simps)
qed

lemma audit_canonical: "audit_validate a = Ok () \<longleftrightarrow> audit_seal a = Ok a"
proof
  assume "audit_validate a = Ok ()"
  then have "audit_components a = Ok ()" "au_digest a = sha256_hex (audit_bytes a)"
    by (auto simp: audit_validate_def res_simps split: if_splits)
  moreover have "a\<lparr>au_digest := au_digest a\<rparr> = a" by simp
  ultimately show "audit_seal a = Ok a" by (simp add: audit_seal_def)
qed (rule audit_seal_valid)

end
