(* ===== verification/Runtime_Graph.thy ===== *)
theory Runtime_Graph
  imports Runtime_Stamp Runtime_Constraints
begin

text \<open>
  The structural graph of a scope (\<^verbatim>\<open>crates/vyrm-core/src/runtime.rs\<close>): reconstruction from the change log at a cursor
  and an instant, the preview of an uncommitted transaction, breadth-first traversal and the differential between two
  snapshots.
\<close>

section \<open>Snapshots\<close>

record graph_snapshot =
  gs_scope :: scope_id
  gs_valid_at :: millis
  gs_known_at_cursor :: u64
  gs_records :: "runtime_record list"
  gs_relations :: "runtime_relation list"

type_synonym graph_maps = "(runtime_ref, runtime_record) btree \<times> (runtime_ref, runtime_relation) btree"

text \<open>\<open>RuntimeId::new(format!("cursor:{cursor}"))\<close> is never empty and has no NUL byte.\<close>

definition cursor_ref :: "runtime_type \<Rightarrow> u64 \<Rightarrow> runtime_ref" where
  "cursor_ref kind cursor = Ref kind (ascii ''cursor:'' @ decimal (unat cursor))"

definition insert_event :: "u64 \<Rightarrow> millis \<Rightarrow> runtime_event \<Rightarrow> graph_maps \<Rightarrow> graph_maps" where
  "insert_event cursor at e gm =
     (case gm of (records, relations) \<Rightarrow>
        let event_ref = cursor_ref (rn_kind e) cursor;
            records = bt_insert event_ref \<lparr>rc_reference = event_ref, rc_valid_from = at, rc_valid_to = None,
                        rc_properties = rn_properties e\<rparr> records in
        case rn_subject e of
          None \<Rightarrow> (records, relations)
        | Some subj \<Rightarrow>
            let relation_ref = cursor_ref (ascii ''emitted'') cursor in
            (records, bt_insert relation_ref \<lparr>rl_reference = relation_ref, rl_from = subj, rl_to = event_ref,
               rl_valid_from = at, rl_valid_to = None, rl_properties = []\<rparr> relations))"

definition graph_step :: "millis \<Rightarrow> u64 \<Rightarrow> millis \<Rightarrow> runtime_mutation \<Rightarrow> graph_maps \<Rightarrow> graph_maps" where
  "graph_step vt cursor at m gm =
     (case gm of (records, relations) \<Rightarrow>
        case m of
          MRecord r \<Rightarrow>
            if rc_valid_from r \<le> vt then (bt_insert (rc_reference r) r records, relations) else (records, relations)
        | MRelation r \<Rightarrow>
            if rl_valid_from r \<le> vt then (records, bt_insert (rl_reference r) r relations) else (records, relations)
        | MEvent e \<Rightarrow> insert_event cursor at e (records, relations)
        | _ \<Rightarrow> (records, relations))"

definition visible_records :: "millis \<Rightarrow> (runtime_ref, runtime_record) btree \<Rightarrow> runtime_record list" where
  "visible_records at rs = filter (\<lambda>r. valid_at_window (rc_valid_from r) (rc_valid_to r) at) (map snd rs)"

definition visible_relations :: "millis \<Rightarrow> (runtime_ref, runtime_relation) btree \<Rightarrow> runtime_relation list" where
  "visible_relations at rs = filter (\<lambda>r. valid_at_window (rl_valid_from r) (rl_valid_to r) at) (map snd rs)"

definition from_changes :: "runtime_change list \<Rightarrow> scope_id \<Rightarrow> millis \<Rightarrow> u64 \<Rightarrow> graph_snapshot" where
  "from_changes changes scope at known_at_cursor =
     (case fold (\<lambda>c. graph_step at (ch_cursor c) (ch_at c) (ch_mutation c))
             (filter (\<lambda>c. ch_cursor c \<le> known_at_cursor \<and> ch_scope c = scope) changes) ([], [])
      of (records, relations) \<Rightarrow>
        \<lparr>gs_scope = scope, gs_valid_at = at, gs_known_at_cursor = known_at_cursor,
         gs_records = visible_records at records, gs_relations = visible_relations at relations\<rparr>)"

definition outgoing :: "graph_snapshot \<Rightarrow> runtime_ref \<Rightarrow> runtime_relation list" where
  "outgoing g src = filter (\<lambda>r. rl_from r = src) (gs_relations g)"

definition incoming :: "graph_snapshot \<Rightarrow> runtime_ref \<Rightarrow> runtime_relation list" where
  "incoming g dst = filter (\<lambda>r. rl_to r = dst) (gs_relations g)"

section \<open>Traversal\<close>

type_synonym bfs_state = "(runtime_ref \<times> nat) list \<times> runtime_ref set"

definition visit_relation :: "runtime_type set \<Rightarrow> nat \<Rightarrow> runtime_relation \<Rightarrow> bfs_state \<Rightarrow> bfs_state" where
  "visit_relation kinds depth r st =
     (case st of (queue, visited) \<Rightarrow>
        if kinds \<noteq> {} \<and> ref_kind (rl_reference r) \<notin> kinds then (queue, visited)
        else if rl_to r \<in> visited then (queue, visited)
        else (queue @ [(rl_to r, depth + 1)], insert (rl_to r) visited))"

definition bfs_measure :: "graph_snapshot \<Rightarrow> bfs_state \<Rightarrow> nat" where
  "bfs_measure g st = 2 * card (rl_to ` set (gs_relations g) - snd st) + length (fst st)"

lemma visit_relation_measure:
  assumes "rs \<subseteq> set (gs_relations g)" and "r \<in> rs"
  shows "bfs_measure g (visit_relation kinds depth r st) \<le> bfs_measure g st"
proof -
  obtain queue visited where st: "st = (queue, visited)" by fastforce
  have fin: "finite (rl_to ` set (gs_relations g) - visited)" by simp
  have "card (rl_to ` set (gs_relations g) - insert (rl_to r) visited) < card (rl_to ` set (gs_relations g) - visited)"
    if "rl_to r \<notin> visited"
    using assms that by (intro psubset_card_mono [OF fin]) auto
  then show ?thesis by (auto simp: st visit_relation_def bfs_measure_def)
qed

lemma visit_all_measure:
  "set rs \<subseteq> set (gs_relations g) \<Longrightarrow> bfs_measure g (fold (visit_relation kinds depth) rs st) \<le> bfs_measure g st"
proof (induction rs arbitrary: st)
  case (Cons r rs)
  have "bfs_measure g (fold (visit_relation kinds depth) rs (visit_relation kinds depth r st)) \<le> bfs_measure g (visit_relation kinds depth r st)"
    using Cons by simp
  also have "\<dots> \<le> bfs_measure g st"
    using Cons.prems visit_relation_measure [of "set (gs_relations g)" g r kinds depth st] by auto
  finally show ?case by simp
qed simp

function traverse_loop :: "graph_snapshot \<Rightarrow> nat \<Rightarrow> runtime_type set \<Rightarrow> bfs_state \<Rightarrow> runtime_ref set" where
  "traverse_loop g max_depth kinds ([], visited) = visited"
| "traverse_loop g max_depth kinds ((current, depth) # queue, visited) =
     (if depth \<ge> max_depth then traverse_loop g max_depth kinds (queue, visited)
      else traverse_loop g max_depth kinds (fold (visit_relation kinds depth) (outgoing g current) (queue, visited)))"
  by pat_completeness auto
termination
proof (relation "measure (\<lambda>(g, _, _, st). bfs_measure g st)")
  fix g :: graph_snapshot and max_depth depth :: nat and kinds current queue visited
  have "bfs_measure g (fold (visit_relation kinds depth) (outgoing g current) (queue, visited)) \<le> bfs_measure g (queue, visited)"
    by (rule visit_all_measure) (auto simp: outgoing_def)
  then show "((g, max_depth, kinds, fold (visit_relation kinds depth) (outgoing g current) (queue, visited)),
      g, max_depth, kinds, (current, depth) # queue, visited) \<in> measure (\<lambda>(g, _, _, st). bfs_measure g st)"
    by (simp add: bfs_measure_def)
qed (auto simp: bfs_measure_def)

definition traverse :: "graph_snapshot \<Rightarrow> runtime_ref \<Rightarrow> nat \<Rightarrow> runtime_type set \<Rightarrow> runtime_ref list" where
  "traverse g start max_depth kinds = sorted_list_of_set (traverse_loop g max_depth kinds ([(start, 0)], {start}))"

section \<open>Differentials\<close>

record record_change =
  dc_before :: runtime_record
  dc_after :: runtime_record

record relation_change =
  dl_before :: runtime_relation
  dl_after :: runtime_relation

record graph_diff =
  gd_from_cursor :: u64
  gd_to_cursor :: u64
  gd_added_records :: "runtime_record list"
  gd_removed_records :: "runtime_record list"
  gd_changed_records :: "record_change list"
  gd_added_relations :: "runtime_relation list"
  gd_removed_relations :: "runtime_relation list"
  gd_changed_relations :: "relation_change list"

definition only_in :: "('k, 'v) btree \<Rightarrow> ('k, 'v) btree \<Rightarrow> 'v list" where
  "only_in a b = map snd (filter (\<lambda>(i, _). bt_get b i = None) a)"

definition changed_between :: "('v \<Rightarrow> 'v \<Rightarrow> 'c) \<Rightarrow> ('k, 'v) btree \<Rightarrow> ('k, 'v) btree \<Rightarrow> 'c list" where
  "changed_between mk before after =
     List.map_filter (\<lambda>(i, a). case bt_get before i of None \<Rightarrow> None | Some b \<Rightarrow> if b \<noteq> a then Some (mk b a) else None) after"

definition graph_diff_of :: "graph_snapshot \<Rightarrow> graph_snapshot \<Rightarrow> graph_diff" where
  "graph_diff_of older newer =
     (let before_records = collect_map rc_reference (gs_records older);
          after_records = collect_map rc_reference (gs_records newer);
          before_relations = collect_map rl_reference (gs_relations older);
          after_relations = collect_map rl_reference (gs_relations newer) in
      \<lparr>gd_from_cursor = gs_known_at_cursor older, gd_to_cursor = gs_known_at_cursor newer,
       gd_added_records = only_in after_records before_records,
       gd_removed_records = only_in before_records after_records,
       gd_changed_records = changed_between (\<lambda>b a. \<lparr>dc_before = b, dc_after = a\<rparr>) before_records after_records,
       gd_added_relations = only_in after_relations before_relations,
       gd_removed_relations = only_in before_relations after_relations,
       gd_changed_relations = changed_between (\<lambda>b a. \<lparr>dl_before = b, dl_after = a\<rparr>) before_relations after_relations\<rparr>)"

section \<open>Pages\<close>

record change_page =
  pg_requested_after :: u64
  pg_through_cursor :: u64
  pg_head_cursor :: u64
  pg_changes :: "runtime_change list"

definition page_has_more :: "change_page \<Rightarrow> bool" where
  "page_has_more p \<longleftrightarrow> pg_through_cursor p < pg_head_cursor p"

section \<open>Previews\<close>

record transaction_view =
  tv_contract_version :: u16
  tv_transaction_digest :: bytes
  tv_read :: read_stamp
  tv_valid_at :: millis
  tv_prospective_cursor :: u64
  tv_pending_mutations :: nat
  tv_pending :: "runtime_mutation list"
  tv_records :: "runtime_record list"
  tv_relations :: "runtime_relation list"

definition view_validate :: "transaction_view \<Rightarrow> unit core_result" where
  "view_validate v =
     (if tv_contract_version v \<noteq> DATA_RUNTIME_CONTRACT_VERSION
      then Err (bad_version ''unsupported transaction-view contract version {}'' (tv_contract_version v))
      else
      rbind (read_stamp_validate (tv_read v)) (\<lambda>_.
      rbind (validate_digest ''transaction view'' (tv_transaction_digest v)) (\<lambda>_.
      rbind (ok_or (checked_add (st_commit_cursor (tv_read v)) (word_of_nat (tv_pending_mutations v)))
               (InvalidRuntime ''transaction view cursor overflowed'' [])) (\<lambda>expected.
      if tv_prospective_cursor v \<noteq> expected
      then Err (InvalidRuntime ''transaction view cursor does not cover its pending mutations'' [])
      else if length (tv_pending v) \<noteq> tv_pending_mutations v
      then Err (InvalidRuntime ''transaction view pending count does not match its mutations'' [])
      else Ok ()))))"

definition preview :: "data_transaction \<Rightarrow> graph_snapshot \<Rightarrow> transaction_view core_result" where
  "preview t base =
     rbind (transaction_validate t) (\<lambda>_.
     if gs_scope base \<noteq> st_scope (tn_read t)
     then Err (InvalidRuntime ''transaction preview scope differs from its read stamp'' [])
     else if gs_known_at_cursor base \<noteq> st_commit_cursor (tn_read t)
     then Err (InvalidRuntime ''transaction preview cursor differs from its read stamp'' [])
     else
     rbind (ok_or (checked_add (st_commit_cursor (tn_read t)) (word_of_nat (length (cm_mutations (tn_commit t)))))
              (InvalidRuntime ''transaction preview cursor overflowed'' [])) (\<lambda>prospective_cursor.
     case fold (\<lambda>(ordinal, m). graph_step (gs_valid_at base) (st_commit_cursor (tn_read t) + word_of_nat ordinal + 1)
                  (cm_at (tn_commit t)) m)
            (List.enumerate 0 (cm_mutations (tn_commit t)))
            (collect_map rc_reference (gs_records base), collect_map rl_reference (gs_relations base))
     of (records, relations) \<Rightarrow>
       let view = \<lparr>tv_contract_version = DATA_RUNTIME_CONTRACT_VERSION, tv_transaction_digest = transaction_digest t,
            tv_read = tn_read t, tv_valid_at = gs_valid_at base, tv_prospective_cursor = prospective_cursor,
            tv_pending_mutations = length (cm_mutations (tn_commit t)), tv_pending = cm_mutations (tn_commit t),
            tv_records = visible_records (gs_valid_at base) records,
            tv_relations = visible_relations (gs_valid_at base) relations\<rparr> in
       rbind (view_validate view) (\<lambda>_. Ok view)))"

definition view_record :: "transaction_view \<Rightarrow> runtime_ref \<Rightarrow> runtime_record option" where
  "view_record v r = List.find (\<lambda>x. rc_reference x = r) (tv_records v)"

definition view_relation :: "transaction_view \<Rightarrow> runtime_ref \<Rightarrow> runtime_relation option" where
  "view_relation v r = List.find (\<lambda>x. rl_reference x = r) (tv_relations v)"

definition claim_of :: "runtime_mutation \<Rightarrow> claim option" where
  "claim_of m = (case m of MClaim c \<Rightarrow> Some c | _ \<Rightarrow> None)"

definition schema_of :: "runtime_mutation \<Rightarrow> schema_registry option" where
  "schema_of m = (case m of MSchema g \<Rightarrow> Some g | _ \<Rightarrow> None)"

definition claim_writes :: "transaction_view \<Rightarrow> claim list" where
  "claim_writes v = List.map_filter claim_of (tv_pending v)"

text \<open>\<open>find_map\<close>: the first hit.\<close>

definition find_map :: "('a \<Rightarrow> 'b option) \<Rightarrow> 'a list \<Rightarrow> 'b option" where
  "find_map f xs = (case List.map_filter f xs of [] \<Rightarrow> None | x # _ \<Rightarrow> Some x)"

definition schema_write :: "transaction_view \<Rightarrow> schema_registry option" where
  "schema_write v = find_map schema_of (tv_pending v)"

definition view_events :: "transaction_view \<Rightarrow> runtime_event list" where
  "view_events v = List.map_filter (\<lambda>m. case m of MEvent e \<Rightarrow> Some e | _ \<Rightarrow> None) (tv_pending v)"

definition view_vectors :: "transaction_view \<Rightarrow> runtime_vector list" where
  "view_vectors v = List.map_filter (\<lambda>m. case m of MVector x \<Rightarrow> Some x | _ \<Rightarrow> None) (tv_pending v)"

definition view_series_samples :: "transaction_view \<Rightarrow> runtime_series_sample list" where
  "view_series_samples v = List.map_filter (\<lambda>m. case m of MSeriesSample x \<Rightarrow> Some x | _ \<Rightarrow> None) (tv_pending v)"

definition view_geo_values :: "transaction_view \<Rightarrow> runtime_geo list" where
  "view_geo_values v = List.map_filter (\<lambda>m. case m of MGeo x \<Rightarrow> Some x | _ \<Rightarrow> None) (tv_pending v)"

definition view_objects :: "transaction_view \<Rightarrow> object_reference list" where
  "view_objects v = List.map_filter (\<lambda>m. case m of MObject x \<Rightarrow> Some x | _ \<Rightarrow> None) (tv_pending v)"

end
