(* ===== verification/Runtime_Graph_Facts.thy ===== *)
theory Runtime_Graph_Facts
  imports Runtime_Graph
begin

text \<open>
  What the graph operations compute: traversal visits exactly the nodes within the depth limit, a preview shows the
  graph its commit will produce, and a differential turns the older snapshot into the newer one.
\<close>

section \<open>Traversal\<close>

definition edge :: "graph_snapshot \<Rightarrow> runtime_type set \<Rightarrow> runtime_ref \<Rightarrow> runtime_ref \<Rightarrow> bool" where
  "edge g kinds x y \<longleftrightarrow> (\<exists>r\<in>set (gs_relations g). rl_from r = x \<and> rl_to r = y
     \<and> (kinds = {} \<or> ref_kind (rl_reference r) \<in> kinds))"

primrec within :: "graph_snapshot \<Rightarrow> runtime_type set \<Rightarrow> runtime_ref \<Rightarrow> nat \<Rightarrow> runtime_ref set" where
  "within g kinds s 0 = {s}"
| "within g kinds s (Suc k) = within g kinds s k \<union> {y. \<exists>x\<in>within g kinds s k. edge g kinds x y}"

lemma within_fix: "within g kinds s (Suc k) \<subseteq> within g kinds s k \<Longrightarrow> k \<le> d \<Longrightarrow> within g kinds s d = within g kinds s k"
proof (induction d)
  case (Suc d)
  then show ?case by (cases "k = Suc d") auto
qed simp

lemma finite_within: "finite (within g kinds s k)"
proof (induction k)
  case (Suc k)
  have "{y. \<exists>x\<in>within g kinds s k. edge g kinds x y} \<subseteq> rl_to ` set (gs_relations g)" by (auto simp: edge_def)
  then have "finite {y. \<exists>x\<in>within g kinds s k. edge g kinds x y}" by (rule finite_subset) simp
  with Suc show ?case by simp
qed simp

lemma visit_all:
  "\<exists>ns. fold (visit_relation kinds depth) rs (q, V) = (q @ map (\<lambda>n. (n, Suc depth)) ns, V \<union> set ns)
    \<and> set ns = {rl_to r | r. r \<in> set rs \<and> (kinds = {} \<or> ref_kind (rl_reference r) \<in> kinds)} - V"
proof (induction rs arbitrary: q V)
  case (Cons r rs)
  show ?case
  proof (cases "(kinds = {} \<or> ref_kind (rl_reference r) \<in> kinds) \<and> rl_to r \<notin> V")
    case True
    then have "visit_relation kinds depth r (q, V) = (q @ [(rl_to r, Suc depth)], insert (rl_to r) V)"
      by (auto simp: visit_relation_def)
    moreover obtain ns where "fold (visit_relation kinds depth) rs (q @ [(rl_to r, Suc depth)], insert (rl_to r) V) =
        ((q @ [(rl_to r, Suc depth)]) @ map (\<lambda>n. (n, Suc depth)) ns, insert (rl_to r) V \<union> set ns)"
      "set ns = {rl_to r | r. r \<in> set rs \<and> (kinds = {} \<or> ref_kind (rl_reference r) \<in> kinds)} - insert (rl_to r) V"
      using Cons by blast
    ultimately show ?thesis using True by (intro exI [of _ "rl_to r # ns"]) auto
  next
    case False
    then have "visit_relation kinds depth r (q, V) = (q, V)" by (auto simp: visit_relation_def)
    moreover obtain ns where ns: "fold (visit_relation kinds depth) rs (q, V) = (q @ map (\<lambda>n. (n, Suc depth)) ns, V \<union> set ns)"
      "set ns = {rl_to r | r. r \<in> set rs \<and> (kinds = {} \<or> ref_kind (rl_reference r) \<in> kinds)} - V"
      using Cons by blast
    ultimately show ?thesis using False by (intro exI [of _ ns]) (simp, blast)
  qed
qed simp

text \<open>The queue holds the rest of one level and the part of the next level found so far.\<close>

definition bfs_inv :: "graph_snapshot \<Rightarrow> runtime_type set \<Rightarrow> runtime_ref \<Rightarrow> nat \<Rightarrow> nat \<Rightarrow> runtime_ref list \<Rightarrow> runtime_ref list \<Rightarrow> runtime_ref set \<Rightarrow> bool" where
  "bfs_inv g kinds s d k as bs V \<longleftrightarrow>
     V = within g kinds s k \<union> set bs \<and> set as \<subseteq> within g kinds s k \<and> set bs \<subseteq> within g kinds s (Suc k)
     \<and> (k < d \<longrightarrow> within g kinds s (Suc k) \<subseteq> V \<union> {y. \<exists>x\<in>set as. edge g kinds x y}) \<and> k \<le> d \<and> (k = d \<longrightarrow> bs = [])"

lemma bfs_next_level:
  assumes "bfs_inv g kinds s d k [] bs V" and "bs \<noteq> []"
  shows "bfs_inv g kinds s d (Suc k) bs [] V"
proof -
  let ?W = "within g kinds s"
  have V: "V = ?W k \<union> set bs" and bs: "set bs \<subseteq> ?W (Suc k)" and k: "k < d" and cover: "?W (Suc k) \<subseteq> V"
    using assms unfolding bfs_inv_def by auto
  have W: "V = ?W (Suc k)" using V bs cover by auto
  have "y \<in> V \<or> (\<exists>x\<in>set bs. edge g kinds x y)" if "y \<in> ?W (Suc (Suc k))" for y
  proof -
    from that consider "y \<in> ?W (Suc k)" | x where "x \<in> V" "edge g kinds x y" unfolding W by auto
    then show ?thesis
    proof cases
      case (2 x)
      then show ?thesis unfolding V by auto (use W V in auto)
    qed (simp add: W)
  qed
  then have "?W (Suc (Suc k)) \<subseteq> V \<union> {y. \<exists>x\<in>set bs. edge g kinds x y}" by blast
  then show ?thesis using W bs k unfolding bfs_inv_def by (simp del: within.simps)
qed

lemma bfs_skip: "bfs_inv g kinds s d d (a # as) bs V \<Longrightarrow> bfs_inv g kinds s d d as bs V"
  unfolding bfs_inv_def by auto

lemma bfs_visit:
  assumes inv: "bfs_inv g kinds s d k (a # as) bs V" and k: "k < d"
  obtains cs where "fold (visit_relation kinds k) (outgoing g a) (map (\<lambda>n. (n, k)) as @ map (\<lambda>n. (n, Suc k)) bs, V) =
      (map (\<lambda>n. (n, k)) as @ map (\<lambda>n. (n, Suc k)) (bs @ cs), V \<union> set cs)"
    and "bfs_inv g kinds s d k as (bs @ cs) (V \<union> set cs)"
proof -
  obtain cs where f: "fold (visit_relation kinds k) (outgoing g a) (map (\<lambda>n. (n, k)) as @ map (\<lambda>n. (n, Suc k)) bs, V) =
      ((map (\<lambda>n. (n, k)) as @ map (\<lambda>n. (n, Suc k)) bs) @ map (\<lambda>n. (n, Suc k)) cs, V \<union> set cs)"
    and cs: "set cs = {rl_to r | r. r \<in> set (outgoing g a) \<and> (kinds = {} \<or> ref_kind (rl_reference r) \<in> kinds)} - V"
    using visit_all [of kinds k "outgoing g a" "map (\<lambda>n. (n, k)) as @ map (\<lambda>n. (n, Suc k)) bs" V] by (elim exE conjE) (rule that)
  have succ: "set cs = {y. edge g kinds a y} - V" unfolding cs by (auto simp: outgoing_def edge_def)
  have a: "a \<in> within g kinds s k" using inv by (simp add: bfs_inv_def)
  show thesis
  proof (rule that)
    have V: "V = within g kinds s k \<union> set bs" and as: "set as \<subseteq> within g kinds s k" and bs: "set bs \<subseteq> within g kinds s (Suc k)"
      and cover: "within g kinds s (Suc k) \<subseteq> V \<union> {y. \<exists>x\<in>set (a # as). edge g kinds x y}"
      using inv k unfolding bfs_inv_def set_simps by blast+
    have "set cs \<subseteq> within g kinds s (Suc k)" using succ a by auto
    moreover have "within g kinds s (Suc k) \<subseteq> (V \<union> set cs) \<union> {y. \<exists>x\<in>set as. edge g kinds x y}"
      using cover succ by (auto simp del: within.simps)
    moreover have "V \<union> set cs = within g kinds s k \<union> set (bs @ cs)" using V by auto
    ultimately show "bfs_inv g kinds s d k as (bs @ cs) (V \<union> set cs)"
      using as bs k unfolding bfs_inv_def by (simp del: within.simps)
  qed (use f in simp)
qed

lemma traverse_loop_within:
  "fst st = map (\<lambda>n. (n, k)) as @ map (\<lambda>n. (n, Suc k)) bs \<Longrightarrow> bfs_inv g kinds s d k as bs (snd st) \<Longrightarrow>
    traverse_loop g d kinds st = within g kinds s d"
proof (induction g d kinds st arbitrary: k as bs rule: traverse_loop.induct)
  case (1 g d kinds visited)
  then have inv: "bfs_inv g kinds s d k [] [] visited" by simp
  then have "within g kinds s d = within g kinds s k" by (cases "k = d") (auto simp: bfs_inv_def intro!: within_fix)
  with inv show ?case by (simp add: bfs_inv_def)
next
  case (2 g d kinds current depth queue visited)
  have step: "traverse_loop g d kinds ((current, depth) # queue, visited) = within g kinds s d"
    if q: "(current, depth) # queue = map (\<lambda>n. (n, k)) as @ map (\<lambda>n. (n, Suc k)) bs"
      and inv: "bfs_inv g kinds s d k as bs visited" and ne: "as \<noteq> []" for k as bs
  proof -
    from ne q obtain as' where as: "as = current # as'" "depth = k" "queue = map (\<lambda>n. (n, k)) as' @ map (\<lambda>n. (n, Suc k)) bs"
      by (cases as) auto
    show ?thesis
    proof (cases "d \<le> depth")
      case True
      then have kd: "k = d" using inv as by (simp add: bfs_inv_def)
      with 2(1) [OF True, of k as' bs] inv as True show ?thesis by (auto dest: bfs_skip)
    next
      case False
      then obtain cs where f: "fold (visit_relation kinds depth) (outgoing g current) (queue, visited) =
          (map (\<lambda>n. (n, k)) as' @ map (\<lambda>n. (n, Suc k)) (bs @ cs), visited \<union> set cs)"
        and inv': "bfs_inv g kinds s d k as' (bs @ cs) (visited \<union> set cs)"
        using bfs_visit [OF inv [unfolded as(1)]] as by (metis not_le)
      show ?thesis using 2(2) [OF False, of k as' "bs @ cs"] False inv' by (simp add: f)
    qed
  qed
  show ?case
  proof (cases "as = []")
    case True
    then have q: "(current, depth) # queue = map (\<lambda>n. (n, Suc k)) bs @ map (\<lambda>n. (n, Suc (Suc k))) []" and ne: "bs \<noteq> []"
      using 2(3) by auto
    have "bfs_inv g kinds s d (Suc k) bs [] visited" using 2(4) True ne by (intro bfs_next_level) simp_all
    then show ?thesis using step [OF q _ ne] by simp
  next
    case False
    then show ?thesis using step [of k as bs] 2(3,4) by simp
  qed
qed

lemma traverse_within: "set (traverse g s d kinds) = within g kinds s d" "sorted (traverse g s d kinds)" "distinct (traverse g s d kinds)"
proof -
  have "traverse_loop g d kinds ([(s, 0)], {s}) = within g kinds s d"
    by (rule traverse_loop_within [of _ 0 "[s]" "[]"]) (auto simp: bfs_inv_def)
  then show "set (traverse g s d kinds) = within g kinds s d" "sorted (traverse g s d kinds)" "distinct (traverse g s d kinds)"
    by (simp_all add: traverse_def finite_within)
qed

section \<open>Previews\<close>

definition keyed :: "('v \<Rightarrow> 'k) \<Rightarrow> ('k, 'v) btree \<Rightarrow> bool" where
  "keyed key m \<longleftrightarrow> (\<forall>(k, v)\<in>set m. key v = k)"

lemma keyed_insert: "keyed key m \<Longrightarrow> key v = k \<Longrightarrow> keyed key (bt_insert k v m)"
  unfolding keyed_def by (induction m) (auto split: if_splits)

lemma bt_get_collect: "bt_get (collect_map key vs) = map_of (rev (map (\<lambda>v. (key v, v)) vs))" "bt_wf (collect_map key vs)"
proof -
  have eq: "collect_map key vs = fold (\<lambda>(k, v). bt_insert k v) (map (\<lambda>v. (key v, v)) vs) []"
    by (simp add: collect_map_def fold_map comp_def)
  show "bt_get (collect_map key vs) = map_of (rev (map (\<lambda>v. (key v, v)) vs))"
    using bt.get_insert_all [of "[]" "map (\<lambda>v. (key v, v)) vs"] by (simp add: eq)
  show "bt_wf (collect_map key vs)" unfolding eq by (rule bt.wf_insert_all) simp
qed

lemma collect_map_entries:
  assumes "bt_wf m" and "keyed key m"
  shows "collect_map key (map snd m) = m"
proof -
  have m: "map (\<lambda>v. (key v, v)) (map snd m) = m" using assms(2) by (auto simp: keyed_def intro!: map_idI)
  have "distinct (map fst m)" using assms(1) by (rule bt.entries_distinct)
  then have "map_of (rev m) k = map_of m k" for k by (intro option_eqI) (simp add: map_of_eq_Some_iff rev_map [symmetric])
  then have "bt_get (collect_map key (map snd m)) = bt_get m" unfolding bt_get_collect m by (auto simp: bt_get_def)
  then show ?thesis using bt.entries_unique [OF bt_get_collect(2) assms(1)] by blast
qed

lemma filter_insert_agree:
  assumes "bt_wf m" and "bt_wf m'" and "filter P m = filter P m'"
  shows "filter P (bt_insert k v m) = filter P (bt_insert k v m')"
proof -
  have "bt_get (filter P m) j = bt_get (filter P m') j" for j using assms(3) by simp
  then have "bt_get (filter P (bt_insert k v m)) = bt_get (filter P (bt_insert k v m'))"
    unfolding bt_get_filter [OF assms(1)] bt_get_filter [OF assms(2)]
    by (intro ext) (simp add: bt_get_filter bt_wf_insert assms(1,2) bt_get_insert)
  then show ?thesis by (intro bt.entries_unique bt_wf_filter bt_wf_insert assms(1,2))
qed

abbreviation record_live :: "millis \<Rightarrow> runtime_ref \<times> runtime_record \<Rightarrow> bool" where
  "record_live at e \<equiv> valid_at_window (rc_valid_from (snd e)) (rc_valid_to (snd e)) at"

abbreviation relation_live :: "millis \<Rightarrow> runtime_ref \<times> runtime_relation \<Rightarrow> bool" where
  "relation_live at e \<equiv> valid_at_window (rl_valid_from (snd e)) (rl_valid_to (snd e)) at"

lemma visible_filter:
  "visible_records at rs = map snd (filter (record_live at) rs)" "visible_relations at ls = map snd (filter (relation_live at) ls)"
  by (simp_all add: visible_records_def visible_relations_def filter_map comp_def)

definition graph_wf :: "graph_maps \<Rightarrow> bool" where
  "graph_wf gm \<longleftrightarrow> bt_wf (fst gm) \<and> bt_wf (snd gm) \<and> keyed rc_reference (fst gm) \<and> keyed rl_reference (snd gm)"

definition graph_agree :: "millis \<Rightarrow> graph_maps \<Rightarrow> graph_maps \<Rightarrow> bool" where
  "graph_agree at a b \<longleftrightarrow> graph_wf a \<and> graph_wf b \<and> filter (record_live at) (fst a) = filter (record_live at) (fst b)
     \<and> filter (relation_live at) (snd a) = filter (relation_live at) (snd b)"

lemma graph_step_wf: "graph_wf gm \<Longrightarrow> graph_wf (graph_step vt cursor at m gm)"
  by (cases gm; cases m) (auto simp: graph_step_def graph_wf_def insert_event_def Let_def bt_wf_insert keyed_insert split: option.split)

lemma graph_step_agree: "graph_agree vt a b \<Longrightarrow> graph_agree vt (graph_step vt cursor at m a) (graph_step vt cursor at m b)"
  unfolding graph_agree_def
  by (cases a; cases b; cases m)
    (auto simp: graph_step_wf graph_step_def insert_event_def Let_def graph_wf_def split: option.split
      intro!: filter_insert_agree bt_wf_insert keyed_insert)

lemma fold_graph_agree:
  "graph_agree vt a b \<Longrightarrow> graph_agree vt (fold (\<lambda>(c, at, m). graph_step vt c at m) xs a) (fold (\<lambda>(c, at, m). graph_step vt c at m) xs b)"
proof (induction xs arbitrary: a b)
  case (Cons x xs)
  then show ?case by (cases x) (simp add: graph_step_agree)
qed simp

lemma fold_graph_wf: "graph_wf a \<Longrightarrow> graph_wf (fold (\<lambda>(c, at, m). graph_step vt c at m) xs a)"
proof (induction xs arbitrary: a)
  case (Cons x xs)
  then show ?case by (cases x) (simp add: graph_step_wf)
qed simp

lemma keyed_filter: "keyed key m \<Longrightarrow> keyed key (filter P m)"
  by (auto simp: keyed_def)

text \<open>Restarting from the visible part of a graph makes no difference to what is visible later.\<close>

lemma collected_agrees:
  assumes "graph_wf gm"
  shows "graph_agree vt gm (collect_map rc_reference (visible_records vt (fst gm)), collect_map rl_reference (visible_relations vt (snd gm)))"
  using assms
  by (simp add: graph_agree_def graph_wf_def visible_filter collect_map_entries bt_wf_filter keyed_filter)

definition step_of :: "runtime_change \<Rightarrow> u64 \<times> millis \<times> runtime_mutation" where
  "step_of c = (ch_cursor c, ch_at c, ch_mutation c)"

definition graph_of :: "millis \<Rightarrow> (u64 \<times> millis \<times> runtime_mutation) list \<Rightarrow> graph_maps" where
  "graph_of vt xs = fold (\<lambda>(c, at, m). graph_step vt c at m) xs ([], [])"

lemma graph_of_wf: "graph_wf (graph_of vt xs)"
  unfolding graph_of_def by (rule fold_graph_wf) (simp add: graph_wf_def keyed_def)

lemma from_changes_graph:
  "from_changes changes scope vt k =
     (let gm = graph_of vt (map step_of (filter (\<lambda>c. ch_cursor c \<le> k \<and> ch_scope c = scope) changes)) in
      \<lparr>gs_scope = scope, gs_valid_at = vt, gs_known_at_cursor = k,
       gs_records = visible_records vt (fst gm), gs_relations = visible_relations vt (snd gm)\<rparr>)"
  by (simp add: from_changes_def graph_of_def fold_map comp_def step_of_def Let_def split: prod.split)

text \<open>The changes a commit becomes: one per mutation, at consecutive cursors behind the expected one.\<close>

definition commit_changes :: "runtime_commit \<Rightarrow> runtime_change list \<Rightarrow> bool" where
  "commit_changes c cs \<longleftrightarrow> length cs = length (cm_mutations c) \<and>
     (\<forall>i<length cs. ch_cursor (cs ! i) = cm_expected_cursor c + word_of_nat i + 1 \<and> ch_scope (cs ! i) = cm_scope c
        \<and> ch_at (cs ! i) = cm_at c \<and> ch_mutation (cs ! i) = cm_mutations c ! i)"

lemma commit_changes_steps:
  assumes "commit_changes c cs"
  shows "map step_of cs = map (\<lambda>(i, m). (cm_expected_cursor c + word_of_nat i + 1, cm_at c, m)) (List.enumerate 0 (cm_mutations c))"
  using assms by (intro nth_equalityI) (auto simp: commit_changes_def step_of_def nth_enumerate_eq)

lemma commit_cursor_bound:
  fixes k p :: u64
  assumes "checked_add k (word_of_nat n) = Some p" and "i < n" and "n < 2 ^ 64"
  shows "k + word_of_nat i + 1 \<le> p" and "k \<le> p"
proof -
  have p: "unat p = unat k + n" using assms(1,3) by (auto simp: checked_add_eq_Some)
  have room: "unat k + n < 2 ^ 64" using unat_u64_less [of p] p by simp
  have "k + word_of_nat i + 1 = word_of_nat (unat k + Suc i)" by simp
  moreover have "unat (word_of_nat (unat k + Suc i) :: u64) = unat k + Suc i"
    by (rule unat_u64_of_nat) (use room assms(2) in linarith)
  ultimately have "unat (k + word_of_nat i + 1) = unat k + Suc i" by metis
  then show "k + word_of_nat i + 1 \<le> p" using p assms(2) by (simp add: word_le_nat_alt)
  show "k \<le> p" using p by (simp add: word_le_nat_alt)
qed

lemma preview_fold:
  "fold (\<lambda>(i, m). graph_step vt (k + word_of_nat i + 1) at m) xs gm =
    fold (\<lambda>(c, at, m). graph_step vt c at m) (map (\<lambda>(i, m). (k + word_of_nat i + 1, at, m)) xs) gm"
  by (induction xs arbitrary: gm) auto

lemma preview_shows_commit:
  assumes view: "preview t (from_changes log scope vt cursor) = Ok view"
    and cs: "commit_changes (tn_commit t) cs" and log: "\<forall>c\<in>set log. ch_cursor c \<le> cursor"
    and len: "length (cm_mutations (tn_commit t)) < 2 ^ 64"
  shows "from_changes (log @ cs) scope vt (tv_prospective_cursor view) =
    \<lparr>gs_scope = scope, gs_valid_at = vt, gs_known_at_cursor = tv_prospective_cursor view,
     gs_records = tv_records view, gs_relations = tv_relations view\<rparr>"
proof -
  let ?c = "tn_commit t" and ?p = "tv_prospective_cursor view"
  let ?old = "map step_of (filter (\<lambda>c. ch_scope c = scope) log)" and ?gm = "graph_of vt (map step_of (filter (\<lambda>c. ch_scope c = scope) log))"
  have base: "from_changes log scope vt cursor = \<lparr>gs_scope = scope, gs_valid_at = vt, gs_known_at_cursor = cursor,
       gs_records = visible_records vt (fst ?gm), gs_relations = visible_relations vt (snd ?gm)\<rparr>"
    using log by (simp add: from_changes_graph Let_def cong: filter_cong)
  let ?gm' = "(collect_map rc_reference (visible_records vt (fst ?gm)), collect_map rl_reference (visible_relations vt (snd ?gm)))"
  let ?steps = "map (\<lambda>(i, m). (cm_expected_cursor ?c + word_of_nat i + 1, cm_at ?c, m)) (List.enumerate 0 (cm_mutations ?c))"
  let ?fin = "fold (\<lambda>(c, at, m). graph_step vt c at m) ?steps ?gm'"
  have v: "st_scope (tn_read t) = scope" "cm_scope ?c = scope" "cursor = cm_expected_cursor ?c"
    "checked_add cursor (word_of_nat (length (cm_mutations ?c))) = Some ?p"
    "tv_records view = visible_records vt (fst ?fin)" "tv_relations view = visible_relations vt (snd ?fin)"
    using view unfolding base
    by (auto simp: preview_def transaction_validate_def res_simps preview_fold case_prod_beta Let_def split: if_splits)
  have "graph_agree vt (fold (\<lambda>(c, at, m). graph_step vt c at m) ?steps ?gm) ?fin"
    by (intro fold_graph_agree collected_agrees graph_of_wf)
  moreover have "fold (\<lambda>(c, at, m). graph_step vt c at m) ?steps ?gm = graph_of vt (?old @ map step_of cs)"
    by (simp add: commit_changes_steps [OF cs] graph_of_def)
  moreover have "filter (\<lambda>c. ch_cursor c \<le> ?p \<and> ch_scope c = scope) (log @ cs) = filter (\<lambda>c. ch_scope c = scope) log @ cs"
  proof -
    have "cursor \<le> ?p" using v(4) by (auto simp: checked_add_eq_Some word_le_nat_alt)
    then have "filter (\<lambda>c. ch_cursor c \<le> ?p \<and> ch_scope c = scope) log = filter (\<lambda>c. ch_scope c = scope) log"
      using log by (intro filter_cong) auto
    moreover have "ch_cursor c \<le> ?p \<and> ch_scope c = scope" if "c \<in> set cs" for c
      using that cs v commit_cursor_bound(1) [OF v(4) _ len] by (fastforce simp: commit_changes_def in_set_conv_nth)
    ultimately show ?thesis by simp
  qed
  ultimately show ?thesis
    by (simp add: from_changes_graph Let_def v(5,6) visible_filter graph_agree_def)
qed

section \<open>Differentials\<close>

text \<open>What a differential says of one object family: applied to the older map it gives the newer one, and it names
  nothing that did not change.\<close>

definition family_diff :: "('k \<rightharpoonup> 'v) \<Rightarrow> ('k \<rightharpoonup> 'v) \<Rightarrow> ('v \<Rightarrow> 'k) \<Rightarrow> 'v list \<Rightarrow> 'v list \<Rightarrow> ('v \<times> 'v) list \<Rightarrow> bool" where
  "family_diff before after key added removed changed \<longleftrightarrow>
     set added = {v. \<exists>k. after k = Some v \<and> before k = None} \<and>
     set removed = {v. \<exists>k. before k = Some v \<and> after k = None} \<and>
     set changed = {(b, a). \<exists>k. before k = Some b \<and> after k = Some a \<and> b \<noteq> a} \<and>
     after = (before |` (- key ` set removed)) ++ map_of (map (\<lambda>v. (key v, v)) added) ++ map_of (map (\<lambda>(_, a). (key a, a)) changed)"

lemma only_in_set:
  assumes "bt_wf a"
  shows "set (only_in a b) = {v. \<exists>k. bt_get a k = Some v \<and> bt_get b k = None}"
  using bt.entries_mem [OF assms] by (force simp: only_in_def)

lemma changed_between_set:
  assumes "bt_wf after"
  shows "set (changed_between mk before after) = {mk b a | b a k. bt_get before k = Some b \<and> bt_get after k = Some a \<and> b \<noteq> a}"
  using bt.entries_mem [OF assms]
  by (auto simp: changed_between_def set_map_filter split: option.splits if_splits intro!: bexI [of _ "(k, a)" for k a]) blast

definition keyed_map :: "('v \<Rightarrow> 'k) \<Rightarrow> ('k \<rightharpoonup> 'v) \<Rightarrow> bool" where
  "keyed_map key m \<longleftrightarrow> (\<forall>k v. m k = Some v \<longrightarrow> key v = k)"

lemma map_of_keyed:
  assumes "\<And>v w. v \<in> set vs \<Longrightarrow> w \<in> set vs \<Longrightarrow> key v = key w \<Longrightarrow> v = w"
  shows "map_of (map (\<lambda>v. (key v, v)) vs) k = Some v \<longleftrightarrow> v \<in> set vs \<and> key v = k"
  using assms by (induction vs) auto

lemma family_diffI:
  assumes b: "keyed_map key before" and a: "keyed_map key after"
    and add: "set added = {v. \<exists>k. after k = Some v \<and> before k = None}"
    and rem: "set removed = {v. \<exists>k. before k = Some v \<and> after k = None}"
    and chg: "set changed = {(b, a). \<exists>k. before k = Some b \<and> after k = Some a \<and> b \<noteq> a}"
  shows "family_diff before after key added removed changed"
proof -
  have A: "map_of (map (\<lambda>v. (key v, v)) added) k = Some v \<longleftrightarrow> after k = Some v \<and> before k = None" for k v
    using a add by (subst map_of_keyed) (auto simp: keyed_map_def)
  have C: "map_of (map (\<lambda>v. (key v, v)) (map snd changed)) k = Some v \<longleftrightarrow> after k = Some v \<and> (\<exists>b. before k = Some b \<and> b \<noteq> v)" for k v
    using a b chg by (subst map_of_keyed) (auto simp: keyed_map_def, force+)
  have R: "k \<in> key ` set removed \<longleftrightarrow> before k \<noteq> None \<and> after k = None" for k
    using b unfolding rem keyed_map_def by (auto simp: image_iff)
  have A': "map_of (map (\<lambda>v. (key v, v)) added) k = (if before k = None then after k else None)" for k
    by (rule option_eqI) (simp add: A)
  have C': "map_of (map (\<lambda>v. (key v, v)) (map snd changed)) k = (if before k \<noteq> None \<and> before k \<noteq> after k then after k else None)" for k
    by (rule option_eqI, unfold C) auto
  have "after k = ((before |` (- key ` set removed)) ++ map_of (map (\<lambda>v. (key v, v)) added)
      ++ map_of (map (\<lambda>v. (key v, v)) (map snd changed))) k" for k
    unfolding map_add_def A' C' restrict_map_def Compl_iff R by (cases "after k"; cases "before k") simp_all
  moreover have "map (\<lambda>v. (key v, v)) (map snd changed) = map (\<lambda>(_, a). (key a, a)) changed" by auto
  ultimately have "after = (before |` (- key ` set removed)) ++ map_of (map (\<lambda>v. (key v, v)) added)
      ++ map_of (map (\<lambda>(_, a). (key a, a)) changed)" by (intro ext) metis
  with add rem chg show ?thesis unfolding family_diff_def by (intro conjI)
qed

lemma collect_keyed: "keyed_map key (bt_get (collect_map key vs))"
  unfolding keyed_map_def bt_get_collect by (auto dest!: map_of_SomeD)

section \<open>Properties\<close>

lemma within_relpow: "within g kinds s d = {y. \<exists>k\<le>d. (edge g kinds ^^ k) s y}"
proof (induction d)
  case (Suc d)
  have "y \<in> within g kinds s (Suc d) \<longleftrightarrow> (\<exists>k\<le>Suc d. (edge g kinds ^^ k) s y)" for y
  proof
    assume "y \<in> within g kinds s (Suc d)"
    then consider k where "k \<le> d" "(edge g kinds ^^ k) s y" | k x where "k \<le> d" "(edge g kinds ^^ k) s x" "edge g kinds x y"
      unfolding within.simps Suc by blast
    then show "\<exists>k\<le>Suc d. (edge g kinds ^^ k) s y"
    proof cases
      case (2 k x)
      then have "(edge g kinds ^^ Suc k) s y" by auto
      with 2(1) show ?thesis by (intro exI [of _ "Suc k"]) simp
    qed (auto intro: le_SucI)
  next
    assume "\<exists>k\<le>Suc d. (edge g kinds ^^ k) s y"
    then obtain k where k: "k \<le> Suc d" "(edge g kinds ^^ k) s y" by blast
    show "y \<in> within g kinds s (Suc d)"
    proof (cases k)
      case 0
      then show ?thesis using k Suc by auto
    next
      case (Suc j)
      then obtain x where "(edge g kinds ^^ j) s x" "edge g kinds x y" using k(2) by auto
      then show ?thesis using k(1) Suc \<open>within g kinds s d = _\<close> by auto
    qed
  qed
  then show ?case by blast
qed simp

text \<open>C21. Breadth-first traversal terminates and returns, in order and without repetition, exactly the nodes that a path
  of at most \<open>max_depth\<close> relations of the wanted kinds reaches from the start; an empty set of kinds permits all.\<close>

theorem traverse_exact:
  "sorted (traverse g start max_depth kinds) \<and> distinct (traverse g start max_depth kinds)
    \<and> set (traverse g start max_depth kinds) = {y. \<exists>k\<le>max_depth. (edge g kinds ^^ k) start y}"
  by (simp add: traverse_within within_relpow)

text \<open>C40. A differential is exact for records and for relations: what it lists as added, removed and changed is exactly what
  differs between the two snapshots, and applying it to the older snapshot gives the newer one.\<close>

theorem graph_diff_exact:
  fixes older newer :: graph_snapshot
  defines "d \<equiv> graph_diff_of older newer"
  shows "family_diff (bt_get (collect_map rc_reference (gs_records older))) (bt_get (collect_map rc_reference (gs_records newer)))
      rc_reference (gd_added_records d) (gd_removed_records d) (map (\<lambda>c. (dc_before c, dc_after c)) (gd_changed_records d)) \<and>
    family_diff (bt_get (collect_map rl_reference (gs_relations older))) (bt_get (collect_map rl_reference (gs_relations newer)))
      rl_reference (gd_added_relations d) (gd_removed_relations d) (map (\<lambda>c. (dl_before c, dl_after c)) (gd_changed_relations d))"
  unfolding d_def graph_diff_of_def Let_def
  by (intro conjI family_diffI collect_keyed) (force simp: only_in_set changed_between_set bt_get_collect(2))+

end
