(* ===== verification/Projection.thy ===== *)
theory Projection
  imports Runtime_Data Ordered_Map Kv_State "HOL-Library.Product_Lexorder"
begin

text \<open>
  The errors of the claim store (\<^verbatim>\<open>crates/vyrm-store/src/error.rs\<close>) and its current-state projection
  (\<^verbatim>\<open>crates/vyrm-store/src/projection.rs\<close>): the newest recorded version per subject and predicate, the watermark and
  the quarantine status, folded incrementally from the claim log and compared with a recomputation. \<open>serde_json\<close> is the
  parameter \<open>projection_json\<close>. The lemmas show that the fold computes the newest recorded version, that a stored
  projection loads back, and that the differential is empty exactly when the two maps agree.
\<close>

section \<open>Errors\<close>

text \<open>A formatted message is its template and arguments; \<open>StorageFailure\<close> is an error of the storage engine, which the
  source wraps as text in \<open>Substrate\<close>; \<open>StorePanic\<close> is a panic of the engine.\<close>

datatype store_error =
    Substrate string "bytes list"
  | Codec string
  | Kernel core_error
  | StoreSequenceOverflow
  | CorruptWatermark bytes
  | ProjectionHalted string "bytes list"
  | RuntimeConflict u64 u64
  | DanglingRuntimeReference "bytes list"
  | RuntimeSchemaMissing bytes
  | RuntimeSchemaConflict u64 u64
  | SnapshotNotFound bytes
  | SnapshotExpired bytes u64
  | SnapshotMismatch bytes
  | ReadStampUnavailable bytes
  | ReadStampMismatch bytes
  | ObjectFailure string "bytes list"
  | Migration string
  | ObjectMissing bytes
  | ObjectCorrupt bytes bytes
  | ObjectLengthMismatch u64 u64
  | FaultInjected string
  | StorageFailure kv_error
  | StorePanic string

type_synonym 'a store_result = "store_error + 'a"

abbreviation kernel :: "'a core_result \<Rightarrow> 'a store_result" where
  "kernel r \<equiv> map_err Kernel r"

section \<open>Model\<close>

definition CURRENT_PROJECTION :: bytes where
  "CURRENT_PROJECTION = ascii ''current''"

type_synonym difference_line = "string \<times> bytes list"

datatype projection_status = ProjectionActive | ProjectionQuarantined millis "difference_line list"

record grounded_stamp =
  gr_at :: millis
  gr_sequence :: u64
  gr_digest :: u64

record rebuild_outcome =
  rb_from :: u64
  rb_to :: u64
  rb_applied :: nat

datatype grounding_report = Grounded grounded_stamp | Divergence "difference_line list"

record stored_projection =
  sp_watermark :: u64
  sp_status :: projection_status
  sp_last_grounded :: "grounded_stamp option"
  sp_entries :: "claim list"

type_synonym projection_entries = "(bytes \<times> bytes, claim) btree"

record current_projection =
  cp_watermark :: u64
  cp_status :: projection_status
  cp_last_grounded :: "grounded_stamp option"
  cp_entries :: projection_entries

record projection_json =
  pj_encode :: "stored_projection \<Rightarrow> bytes"
  pj_decode :: "bytes \<Rightarrow> stored_projection option"
  pj_encode_entries :: "claim list \<Rightarrow> bytes"

definition projection_empty :: current_projection where
  "projection_empty = \<lparr>cp_watermark = 0, cp_status = ProjectionActive, cp_last_grounded = None, cp_entries = []\<rparr>"

definition quarantine_error :: "millis \<Rightarrow> store_error" where
  "quarantine_error at = ProjectionHalted ''projection `current` quarantined at {at}; reset to recover'' [decimal (unat at)]"

definition projection_get :: "current_projection \<Rightarrow> bytes \<Rightarrow> bytes \<Rightarrow> claim option store_result" where
  "projection_get cp s p =
     (case cp_status cp of
        ProjectionQuarantined at _ \<Rightarrow> Err (quarantine_error at)
      | ProjectionActive \<Rightarrow> Ok (bt_get (cp_entries cp) (s, p)))"

definition projection_len :: "current_projection \<Rightarrow> nat" where
  "projection_len cp = length (cp_entries cp)"

definition projection_is_empty :: "current_projection \<Rightarrow> bool" where
  "projection_is_empty cp \<longleftrightarrow> cp_entries cp = []"

definition pair_of :: "claim \<Rightarrow> bytes \<times> bytes" where
  "pair_of c = (subject c, predicate c)"

definition version_of :: "claim \<Rightarrow> millis \<times> millis" where
  "version_of c = (valid_from c, tx_time c)"

definition apply_claim :: "claim \<Rightarrow> projection_entries \<Rightarrow> projection_entries" where
  "apply_claim c m =
     (case bt_get m (pair_of c) of
        Some existing \<Rightarrow> if version_of c < version_of existing then m else bt_insert (pair_of c) c m
      | None \<Rightarrow> bt_insert (pair_of c) c m)"

definition projection_apply :: "claim list \<Rightarrow> current_projection \<Rightarrow> current_projection" where
  "projection_apply cs cp = cp\<lparr>cp_entries := fold apply_claim cs (cp_entries cp)\<rparr>"

definition to_stored :: "current_projection \<Rightarrow> stored_projection" where
  "to_stored cp = \<lparr>sp_watermark = cp_watermark cp, sp_status = cp_status cp, sp_last_grounded = cp_last_grounded cp,
     sp_entries = map snd (cp_entries cp)\<rparr>"

definition from_stored :: "stored_projection \<Rightarrow> current_projection" where
  "from_stored s = projection_apply (sp_entries s)
     \<lparr>cp_watermark = sp_watermark s, cp_status = sp_status s, cp_last_grounded = sp_last_grounded s, cp_entries = []\<rparr>"

definition to_stored_bytes :: "projection_json \<Rightarrow> current_projection \<Rightarrow> bytes" where
  "to_stored_bytes j cp = pj_encode j (to_stored cp)"

definition from_stored_bytes :: "projection_json \<Rightarrow> bytes \<Rightarrow> current_projection store_result" where
  "from_stored_bytes j bs = rbind (ok_or (pj_decode j bs) (Codec ''projection'')) (\<lambda>s. Ok (from_stored s))"

definition fnv_step :: "u8 \<Rightarrow> u64 \<Rightarrow> u64" where
  "fnv_step b h = (h XOR ucast b) * 0x00000100000001b3"

definition projection_digest :: "projection_json \<Rightarrow> current_projection \<Rightarrow> u64" where
  "projection_digest j cp = fold fnv_step (pj_encode_entries j (sp_entries (to_stored cp))) 0xcbf29ce484222325"

text \<open>\<open>PartialEq\<close> of claims: the confidence is compared as a float.\<close>

definition f32_eq :: "f32 \<Rightarrow> f32 \<Rightarrow> bool" where
  "f32_eq x y \<longleftrightarrow> (f32_is_finite x \<or> x AND 0x7FFFFF = 0) \<and> (x = y \<or> (x OR y) AND 0x7FFFFFFF = 0)"

definition claim_eq :: "claim \<Rightarrow> claim \<Rightarrow> bool" where
  "claim_eq a b \<longleftrightarrow> a\<lparr>confidence := None\<rparr> = b\<lparr>confidence := None\<rparr> \<and> rel_option f32_eq (confidence a) (confidence b)"

definition missing_line :: "bytes \<times> bytes \<Rightarrow> difference_line" where
  "missing_line k = (''{subject}/{predicate}: missing from projection'', [fst k, snd k])"

definition held_line :: "bytes \<times> bytes \<Rightarrow> claim \<Rightarrow> claim \<Rightarrow> difference_line" where
  "held_line k held c =
     (''{subject}/{predicate}: projection holds {:?} at ({}, {}), recomputation holds {:?} at ({}, {})'',
      [fst k, snd k, object held, decimal (unat (valid_from held)), decimal (unat (tx_time held)),
       object c, decimal (unat (valid_from c)), decimal (unat (tx_time c))])"

definition absent_line :: "bytes \<times> bytes \<Rightarrow> difference_line" where
  "absent_line k = (''{subject}/{predicate}: absent from recomputation'', [fst k, snd k])"

definition difference :: "projection_entries \<Rightarrow> projection_entries \<Rightarrow> difference_line list" where
  "difference recomputed incremental =
     List.map_filter (\<lambda>(k, c). case bt_get incremental k of
         None \<Rightarrow> Some (missing_line k)
       | Some held \<Rightarrow> if \<not> claim_eq held c then Some (held_line k held c) else None) recomputed
     @ map absent_line (filter (\<lambda>k. bt_get recomputed k = None) (map fst incremental))"

section \<open>The newest recorded version\<close>

definition newest_recorded :: "claim list \<Rightarrow> bytes \<times> bytes \<Rightarrow> claim \<Rightarrow> bool" where
  "newest_recorded cs k c \<longleftrightarrow> (\<exists>pre post. cs = pre @ c # post \<and> pair_of c = k
     \<and> (\<forall>d\<in>set pre. pair_of d = k \<longrightarrow> version_of d \<le> version_of c)
     \<and> (\<forall>d\<in>set post. pair_of d = k \<longrightarrow> version_of d < version_of c))"

definition entries_of :: "claim list \<Rightarrow> projection_entries" where
  "entries_of cs = fold apply_claim cs []"

lemma entries_of_snoc: "entries_of (cs @ [c]) = apply_claim c (entries_of cs)"
  by (simp add: entries_of_def)

lemma entries_of_append: "fold apply_claim ds (entries_of cs) = entries_of (cs @ ds)"
  by (simp add: entries_of_def)

lemma bt_wf_apply: "bt_wf m \<Longrightarrow> bt_wf (apply_claim c m)"
  by (auto simp: apply_claim_def bt_wf_insert split: option.split)

lemma bt_wf_entries_of [simp]: "bt_wf (entries_of cs)"
  by (induction cs rule: rev_induct) (simp_all add: entries_of_snoc bt_wf_apply, simp add: entries_of_def)

lemma newest_recorded_Nil [simp]: "\<not> newest_recorded [] k c"
  by (simp add: newest_recorded_def)

lemma newest_recorded_mem: "newest_recorded cs k c \<Longrightarrow> c \<in> set cs \<and> pair_of c = k"
  by (auto simp: newest_recorded_def)

lemma newest_recorded_max: "newest_recorded cs k c \<Longrightarrow> d \<in> set cs \<Longrightarrow> pair_of d = k \<Longrightarrow> version_of d \<le> version_of c"
  unfolding newest_recorded_def by (elim exE conjE) (auto intro: less_imp_le order_refl)

lemma newest_recorded_snoc:
  "newest_recorded (cs @ [x]) k c \<longleftrightarrow>
    (if pair_of x = k \<and> (\<forall>d\<in>set cs. pair_of d = k \<longrightarrow> version_of d \<le> version_of x) then c = x
     else newest_recorded cs k c)" (is "?l \<longleftrightarrow> ?r")
proof -
  have a: "newest_recorded (cs @ [x]) k c \<Longrightarrow> c = x \<and> pair_of x = k \<and> (\<forall>d\<in>set cs. pair_of d = k \<longrightarrow> version_of d \<le> version_of x)
      \<or> newest_recorded cs k c \<and> (pair_of x = k \<longrightarrow> version_of x < version_of c)"
  proof -
    assume "newest_recorded (cs @ [x]) k c"
    then obtain pre post where p: "cs @ [x] = pre @ c # post" "pair_of c = k"
      "\<forall>d\<in>set pre. pair_of d = k \<longrightarrow> version_of d \<le> version_of c" "\<forall>d\<in>set post. pair_of d = k \<longrightarrow> version_of d < version_of c"
      unfolding newest_recorded_def by (elim exE conjE)
    show ?thesis
    proof (cases post rule: rev_cases)
      case Nil
      with p show ?thesis by simp
    next
      case (snoc ys y)
      with p(1) have "cs = pre @ c # ys" "x = y" by simp_all
      with p snoc have "newest_recorded cs k c" unfolding newest_recorded_def by (intro exI [of _ pre] exI [of _ ys]) simp
      with p(4) snoc \<open>x = y\<close> show ?thesis by simp
    qed
  qed
  have b: "newest_recorded (cs @ [x]) k x"
    if "pair_of x = k" "\<forall>d\<in>set cs. pair_of d = k \<longrightarrow> version_of d \<le> version_of x"
    unfolding newest_recorded_def using that by (intro exI [of _ cs] exI [of _ "[]"]) simp
  have c: "newest_recorded (cs @ [x]) k c" if n: "newest_recorded cs k c" and lt: "pair_of x = k \<longrightarrow> version_of x < version_of c"
  proof -
    from n obtain pre post where "cs = pre @ c # post" "pair_of c = k"
      "\<forall>d\<in>set pre. pair_of d = k \<longrightarrow> version_of d \<le> version_of c" "\<forall>d\<in>set post. pair_of d = k \<longrightarrow> version_of d < version_of c"
      unfolding newest_recorded_def by (elim exE conjE)
    with lt show ?thesis unfolding newest_recorded_def by (intro exI [of _ pre] exI [of _ "post @ [x]"]) auto
  qed
  show ?thesis
  proof (cases "pair_of x = k \<and> (\<forall>d\<in>set cs. pair_of d = k \<longrightarrow> version_of d \<le> version_of x)")
    case True
    have "\<not> (newest_recorded cs k c \<and> (pair_of x = k \<longrightarrow> version_of x < version_of c))"
      using True newest_recorded_mem [of cs k c] leD by blast
    with True a b show ?thesis by auto
  next
    case False
    have "pair_of x = k \<longrightarrow> version_of x < version_of c" if "newest_recorded cs k c"
      using False newest_recorded_max [OF that] by (meson not_le order_trans)
    with False a c show ?thesis by auto
  qed
qed

lemma newest_recorded_ex: "(\<exists>c. newest_recorded cs k c) \<longleftrightarrow> (\<exists>c\<in>set cs. pair_of c = k)"
  by (induction cs rule: rev_induct) (auto simp: newest_recorded_snoc)

lemma newest_recorded_unique: "newest_recorded cs k c \<Longrightarrow> newest_recorded cs k d \<Longrightarrow> c = d"
  by (induction cs rule: rev_induct) (auto simp: newest_recorded_snoc split: if_splits)

lemma entries_newest: "bt_get (entries_of cs) k = Some c \<longleftrightarrow> newest_recorded cs k c"
proof (induction cs arbitrary: k c rule: rev_induct)
  case Nil
  then show ?case by (simp add: entries_of_def)
next
  case (snoc x cs)
  have none: "bt_get (entries_of cs) k = None \<longleftrightarrow> \<not> (\<exists>c\<in>set cs. pair_of c = k)" for k
    unfolding newest_recorded_ex [symmetric] snoc [symmetric] by auto
  show ?case
  proof (cases "bt_get (entries_of cs) (pair_of x)")
    case None
    with none have "\<not> (\<exists>c\<in>set cs. pair_of c = pair_of x)" by blast
    with None snoc show ?thesis
      by (auto simp: entries_of_snoc apply_claim_def bt_get_insert newest_recorded_snoc)
  next
    case (Some e)
    then have e: "newest_recorded cs (pair_of x) e" by (simp add: snoc)
    then have "(\<forall>d\<in>set cs. pair_of d = pair_of x \<longrightarrow> version_of d \<le> version_of x) \<longleftrightarrow> \<not> version_of x < version_of e"
      using newest_recorded_max [OF e] newest_recorded_mem [OF e] by (meson not_less order_trans)
    then have new: "newest_recorded (cs @ [x]) k c \<longleftrightarrow>
        (if pair_of x = k \<and> \<not> version_of x < version_of e then c = x else newest_recorded cs k c)"
      by (auto simp: newest_recorded_snoc)
    have "bt_get (entries_of (cs @ [x])) k =
        (if pair_of x = k \<and> \<not> version_of x < version_of e then Some x else bt_get (entries_of cs) k)"
      by (simp add: entries_of_snoc apply_claim_def Some bt_get_insert)
    then show ?thesis unfolding new by (auto simp del: split_paired_All simp: snoc)
  qed
qed

section \<open>Storing and loading\<close>

definition projection_wf :: "current_projection \<Rightarrow> bool" where
  "projection_wf cp \<longleftrightarrow> bt_wf (cp_entries cp) \<and> (\<forall>(k, c)\<in>set (cp_entries cp). k = pair_of c)"

text \<open>JSON carries every claim whose confidence is a finite float; a claim without confidence qualifies.\<close>

definition json_claim :: "claim \<Rightarrow> bool" where
  "json_claim c \<longleftrightarrow> pred_option f32_is_finite (confidence c)"

definition projection_json_laws :: "projection_json \<Rightarrow> bool" where
  "projection_json_laws j \<longleftrightarrow> (\<forall>s. list_all json_claim (sp_entries s) \<longrightarrow> pj_decode j (pj_encode j s) = Some s)"

lemma fold_apply_entries:
  assumes "bt_wf m" and "\<forall>(k, c)\<in>set m. k = pair_of c"
  shows "fold apply_claim (map snd m) [] = m"
  using assms
proof (induction m rule: rev_induct)
  case (snoc e m)
  obtain k c where e: "e = (k, c)" "k = pair_of c" using snoc.prems(2) by auto
  have wf: "bt_wf m" "\<forall>x\<in>fst ` set m. x < k"
    using snoc.prems(1) by (auto simp: bt_wf_def e(1) sorted_wrt_append)
  have ins: "bt_insert k c m = m @ [(k, c)]" using wf(2) by (induction m) auto
  have "k \<notin> fst ` set m" using wf(2) by auto
  then have "bt_get m k = None" by (simp add: bt_get_def map_of_eq_None_iff)
  with snoc wf ins show ?case by (simp add: e apply_claim_def)
qed simp

lemma from_to_stored: "projection_wf cp \<Longrightarrow> from_stored (to_stored cp) = cp"
  by (cases cp) (simp add: from_stored_def to_stored_def projection_apply_def projection_wf_def fold_apply_entries)

lemma stored_bytes_roundtrip:
  assumes "projection_json_laws j" and "projection_wf cp" and "\<forall>(k, c)\<in>set (cp_entries cp). json_claim c"
  shows "from_stored_bytes j (to_stored_bytes j cp) = Ok cp"
proof -
  have "list_all json_claim (sp_entries (to_stored cp))" using assms(3) by (auto simp: to_stored_def list_all_iff)
  with assms(1) have "pj_decode j (pj_encode j (to_stored cp)) = Some (to_stored cp)" by (simp add: projection_json_laws_def)
  then show ?thesis by (simp add: from_stored_bytes_def to_stored_bytes_def from_to_stored assms(2))
qed

lemma entries_of_mem: "(k, c) \<in> set (entries_of cs) \<Longrightarrow> k = pair_of c \<and> c \<in> set cs"
  using newest_recorded_mem [of cs k c] by (simp add: bt.entries_mem flip: entries_newest)

section \<open>The differential\<close>

lemma f32_eq_refl: "f32_is_finite x \<Longrightarrow> f32_eq x x"
  by (simp add: f32_eq_def)

lemma claim_eq_refl: "json_claim c \<Longrightarrow> claim_eq c c"
  by (cases "confidence c") (simp_all add: claim_eq_def json_claim_def f32_eq_refl)

lemma difference_empty:
  assumes "bt_wf r" and "bt_wf i"
  shows "difference r i = [] \<longleftrightarrow> (\<forall>k. rel_option claim_eq (bt_get i k) (bt_get r k))"
proof -
  have none: "List.map_filter f xs = [] \<longleftrightarrow> (\<forall>x\<in>set xs. f x = None)" for f :: "'x \<Rightarrow> 'y option" and xs
    by (induction xs) (auto simp: List.map_filter_simps split: option.split)
  let ?line = "\<lambda>(k, c). case bt_get i k of None \<Rightarrow> Some (missing_line k)
       | Some held \<Rightarrow> if \<not> claim_eq held c then Some (held_line k held c) else None"
  have line: "?line (k, c) = None \<longleftrightarrow> (\<exists>held. bt_get i k = Some held \<and> claim_eq held c)" for k c
    by (simp split: option.split)
  have "difference r i = [] \<longleftrightarrow> (\<forall>(k, c)\<in>set r. ?line (k, c) = None) \<and> (\<forall>k\<in>fst ` set i. bt_get r k \<noteq> None)"
    by (auto simp: difference_def none filter_empty_conv)
  also have "\<dots> \<longleftrightarrow> (\<forall>k c. bt_get r k = Some c \<longrightarrow> (\<exists>held. bt_get i k = Some held \<and> claim_eq held c))
      \<and> (\<forall>k. bt_get i k \<noteq> None \<longrightarrow> bt_get r k \<noteq> None)"
    unfolding line bt.keys_mem [OF assms(2)] Ball_def bt.entries_mem [OF assms(1), symmetric] by auto
  also have "\<dots> \<longleftrightarrow> (\<forall>k. rel_option claim_eq (bt_get i k) (bt_get r k))" (is "?a \<longleftrightarrow> ?b")
  proof
    assume a: ?a
    show ?b
    proof
      fix k show "rel_option claim_eq (bt_get i k) (bt_get r k)"
        using a [THEN conjunct1, THEN spec, of k] a [THEN conjunct2, THEN spec, of k]
        by (cases "bt_get r k"; cases "bt_get i k") simp_all
    qed
  next
    assume b: ?b
    have "(\<forall>c. bt_get r k = Some c \<longrightarrow> (\<exists>held. bt_get i k = Some held \<and> claim_eq held c)) \<and> (bt_get i k \<noteq> None \<longrightarrow> bt_get r k \<noteq> None)" for k
      using b [THEN spec, of k] by (cases "bt_get r k"; cases "bt_get i k") simp_all
    then show ?a by blast
  qed
  finally show ?thesis .
qed

end
