(* ===== verification/Engine_Port.thy ===== *)
theory Engine_Port
  imports Projection Runtime_Graph_Facts Temporal
begin

text \<open>
  The storage port of the claim store: the trait \<open>Engine\<close> of \<^verbatim>\<open>crates/vyrm-store/src/engine.rs\<close>. The primitives a
  backend supplies are the fields of \<open>engine_port\<close>; the methods the trait provides (assertion, transactions and their
  preview, the maintenance of the current-state projection) are definitions over any port. The locales \<open>claim_engine\<close>
  and \<open>runtime_log\<close> are the contracts the provided methods rely on, and their lemmas hold for every engine.
\<close>

section \<open>The port\<close>

datatype durability_class = ClassAuthoritative | ClassBuffered

record append_outcome =
  ao_first_sequence :: u64
  ao_last_sequence :: u64
  ao_count :: nat

record runtime_commit_outcome =
  co_commit_id :: bytes
  co_first_cursor :: u64
  co_last_cursor :: u64
  co_count :: nat
  co_first_claim_sequence :: "u64 option"
  co_last_claim_sequence :: "u64 option"
  co_outbox_count :: nat

type_synonym ('s, 'a) store_action = "(store_error, 's, 'a) fallible"

record 's engine_port =
  ep_versions_at_or_before :: "'s \<Rightarrow> bytes \<Rightarrow> bytes \<Rightarrow> millis \<Rightarrow> claim list store_result"
  ep_append_batch :: "claim list \<Rightarrow> ('s, append_outcome) store_action"
  ep_sequence :: "'s \<Rightarrow> u64 store_result"
  ep_claims_in_range :: "'s \<Rightarrow> u64 \<Rightarrow> u64 \<Rightarrow> claim list store_result"
  ep_get_projection :: "'s \<Rightarrow> bytes \<Rightarrow> bytes option store_result"
  ep_put_projection_with :: "bytes \<Rightarrow> bytes \<Rightarrow> durability_class \<Rightarrow> ('s, unit) store_action"
  ep_runtime_read_changes :: "'s \<Rightarrow> read_stamp \<Rightarrow> u64 \<Rightarrow> nat \<Rightarrow> change_page store_result"
  ep_commit_runtime :: "runtime_commit \<Rightarrow> ('s, runtime_commit_outcome) store_action"

text \<open>A fallible read leaves the state alone.\<close>

definition cquery :: "('s \<Rightarrow> 'e + 'a) \<Rightarrow> ('e, 's, 'a) fallible" where
  "cquery f = (\<lambda>s. (f s, s))"

lemma run_simps:
  "cquery f s = (f s, s)"
  "clift r s = (r, s)"
  "cok a s = (Ok a, s)"
  "creads g s = (Ok (g s), s)"
  "cmodify h s = (Ok (), h s)"
  "cbind m k s = (case m s of (Inl e, s) \<Rightarrow> (Inl e, s) | (Inr a, s) \<Rightarrow> k a s)"
  by (simp_all add: cquery_def clift_def cok_def creads_def cmodify_def cbind_def)

section \<open>Provided methods\<close>

definition commit_data_transaction :: "'s engine_port \<Rightarrow> data_transaction \<Rightarrow> ('s, runtime_commit_outcome) store_action" where
  "commit_data_transaction port t =
     cbind (clift (kernel (transaction_validate t))) (\<lambda>_. ep_commit_runtime port (tn_commit t))"

definition USIZE_MAX :: nat where
  "USIZE_MAX = 2 ^ 64 - 1"

definition preview_data_transaction :: "'s engine_port \<Rightarrow> data_transaction \<Rightarrow> millis \<Rightarrow> 's \<Rightarrow> transaction_view store_result" where
  "preview_data_transaction port t at s =
     rbind (kernel (transaction_validate t)) (\<lambda>_.
     rbind (ep_runtime_read_changes port s (tn_read t) 0 USIZE_MAX) (\<lambda>page.
     if pg_through_cursor page \<noteq> st_commit_cursor (tn_read t)
     then Err (Substrate ''stamped runtime replay ended at {}, expected {}''
                [decimal (unat (pg_through_cursor page)), decimal (unat (st_commit_cursor (tn_read t)))])
     else
       let base = from_changes (pg_changes page) (st_scope (tn_read t)) at (st_commit_cursor (tn_read t)) in
       kernel (preview t base)))"

definition engine_assert :: "'s engine_port \<Rightarrow> claim \<Rightarrow> ('s, append_outcome) store_action" where
  "engine_assert port c =
     cbind (cquery (\<lambda>s. ep_versions_at_or_before port s (subject c) (predicate c) (valid_from c))) (\<lambda>candidates.
     case resolve_as_of candidates (valid_from c) of
       Some previous \<Rightarrow>
         if valid_from previous < valid_from c
         then cbind (clift (kernel (supersede previous c))) (\<lambda>(retirement, successor). ep_append_batch port [retirement, successor])
         else ep_append_batch port [c]
     | None \<Rightarrow> ep_append_batch port [c])"

definition put_projection :: "'s engine_port \<Rightarrow> bytes \<Rightarrow> bytes \<Rightarrow> ('s, unit) store_action" where
  "put_projection port name bs = ep_put_projection_with port name bs ClassBuffered"

definition load_projection :: "'s engine_port \<Rightarrow> projection_json \<Rightarrow> 's \<Rightarrow> current_projection store_result" where
  "load_projection port j s =
     rbind (ep_get_projection port s CURRENT_PROJECTION) (\<lambda>found.
     case found of Some bs \<Rightarrow> from_stored_bytes j bs | None \<Rightarrow> Ok projection_empty)"

definition require_active :: "current_projection \<Rightarrow> unit store_result" where
  "require_active cp =
     (case cp_status cp of ProjectionQuarantined at _ \<Rightarrow> Err (quarantine_error at) | ProjectionActive \<Rightarrow> Ok ())"

definition rebuild_current :: "'s engine_port \<Rightarrow> projection_json \<Rightarrow> ('s, rebuild_outcome) store_action" where
  "rebuild_current port j =
     cbind (cquery (load_projection port j)) (\<lambda>cp.
     cbind (clift (require_active cp)) (\<lambda>_.
     cbind (cquery (ep_sequence port)) (\<lambda>to.
     cbind (cquery (\<lambda>s. ep_claims_in_range port s (cp_watermark cp) to)) (\<lambda>interval.
     let cp' = (projection_apply interval cp)\<lparr>cp_watermark := to\<rparr> in
     cbind (ep_put_projection_with port CURRENT_PROJECTION (to_stored_bytes j cp') ClassBuffered) (\<lambda>_.
     cok \<lparr>rb_from = cp_watermark cp, rb_to = to, rb_applied = length interval\<rparr>)))))"

definition ground_current :: "'s engine_port \<Rightarrow> projection_json \<Rightarrow> millis \<Rightarrow> ('s, grounding_report) store_action" where
  "ground_current port j at =
     cbind (cquery (load_projection port j)) (\<lambda>cp.
     cbind (clift (require_active cp)) (\<lambda>_.
     cbind (cquery (\<lambda>s. ep_claims_in_range port s 0 (cp_watermark cp))) (\<lambda>replayed.
     let recomputed = projection_apply replayed projection_empty;
         differences = difference (cp_entries recomputed) (cp_entries cp) in
     if differences = [] then
       let stamp = \<lparr>gr_at = at, gr_sequence = cp_watermark cp, gr_digest = projection_digest j cp\<rparr> in
       cbind (ep_put_projection_with port CURRENT_PROJECTION (to_stored_bytes j (cp\<lparr>cp_last_grounded := Some stamp\<rparr>)) ClassBuffered) (\<lambda>_.
       cok (Grounded stamp))
     else
       cbind (ep_put_projection_with port CURRENT_PROJECTION
                (to_stored_bytes j (cp\<lparr>cp_status := ProjectionQuarantined at differences\<rparr>)) ClassAuthoritative) (\<lambda>_.
       cok (Divergence differences)))))"

definition reset_current :: "'s engine_port \<Rightarrow> projection_json \<Rightarrow> ('s, rebuild_outcome) store_action" where
  "reset_current port j =
     cbind (cquery (ep_sequence port)) (\<lambda>to.
     cbind (cquery (\<lambda>s. ep_claims_in_range port s 0 to)) (\<lambda>interval.
     let cp = (projection_apply interval projection_empty)\<lparr>cp_watermark := to\<rparr> in
     cbind (ep_put_projection_with port CURRENT_PROJECTION (to_stored_bytes j cp) ClassBuffered) (\<lambda>_.
     cok \<lparr>rb_from = 0, rb_to = to, rb_applied = length interval\<rparr>)))"

section \<open>The claim log behind a projection\<close>

text \<open>A stored projection is faithful when it is the fold of the log up to its watermark.\<close>

definition faithful :: "claim list \<Rightarrow> current_projection \<Rightarrow> bool" where
  "faithful log cp \<longleftrightarrow> unat (cp_watermark cp) \<le> length log \<and> cp_entries cp = entries_of (take (unat (cp_watermark cp)) log)"

lemma faithful_empty [simp]: "faithful log projection_empty"
  by (simp add: faithful_def projection_empty_def entries_of_def)

lemma faithful_wf: "faithful log cp \<Longrightarrow> projection_wf cp"
  by (auto simp: faithful_def projection_wf_def dest: entries_of_mem)

lemma faithful_append: "faithful log cp \<Longrightarrow> faithful (log @ cs) cp"
  by (simp add: faithful_def)

lemma faithful_json: "faithful log cp \<Longrightarrow> list_all json_claim log \<Longrightarrow> \<forall>(k, c)\<in>set (cp_entries cp). json_claim c"
  by (auto simp: faithful_def list_all_iff dest!: entries_of_mem in_set_takeD)

lemma faithful_difference:
  assumes "faithful log cp" and "list_all json_claim log"
  shows "difference (entries_of (take (unat (cp_watermark cp)) log)) (cp_entries cp) = []"
proof -
  have "rel_option claim_eq (bt_get (cp_entries cp) k) (bt_get (cp_entries cp) k)" for k
  proof (cases "bt_get (cp_entries cp) k")
    case (Some c)
    with faithful_json [OF assms] show ?thesis by (auto simp: bt_get_def intro: claim_eq_refl dest: map_of_SomeD)
  qed simp
  moreover have "cp_entries cp = entries_of (take (unat (cp_watermark cp)) log)" using assms(1) by (simp add: faithful_def)
  ultimately show ?thesis by (subst difference_empty) simp_all
qed

locale claim_engine =
  fixes port :: "'s engine_port"
    and wf :: "'s \<Rightarrow> bool"
    and log :: "'s \<Rightarrow> claim list"
    and blobs :: "'s \<Rightarrow> bytes \<Rightarrow> bytes option"
  assumes room: "wf s \<Longrightarrow> length (log s) < 2 ^ 64"
    and sequence: "wf s \<Longrightarrow> ep_sequence port s = Ok (word_of_nat (length (log s)))"
    and in_range: "wf s \<Longrightarrow> ep_claims_in_range port s a b = Ok (subslice (unat a) (unat b) (log s))"
    and get_blob: "wf s \<Longrightarrow> ep_get_projection port s n = Ok (blobs s n)"
    and put_blob: "wf s \<Longrightarrow> \<exists>s'. ep_put_projection_with port n bs d s = (Ok (), s') \<and> wf s' \<and> log s' = log s
      \<and> blobs s' = (blobs s)(n \<mapsto> bs)"
begin

definition tracks :: "projection_json \<Rightarrow> 's \<Rightarrow> current_projection \<Rightarrow> bool" where
  "tracks j s cp \<longleftrightarrow> load_projection port j s = Ok cp \<and> cp_status cp = ProjectionActive \<and> faithful (log s) cp"

lemma load_after_put:
  assumes "projection_json_laws j" and "wf s" and "blobs s CURRENT_PROJECTION = Some (to_stored_bytes j cp)"
    and "projection_wf cp" and "\<forall>(k, c)\<in>set (cp_entries cp). json_claim c"
  shows "load_projection port j s = Ok cp"
  using assms by (simp add: load_projection_def get_blob stored_bytes_roundtrip)

lemma store_tracks:
  assumes "projection_json_laws j" and "wf s" and "list_all json_claim (log s)"
    and "cp_status cp = ProjectionActive" and "faithful (log s) cp"
  obtains s' where "ep_put_projection_with port CURRENT_PROJECTION (to_stored_bytes j cp) d s = (Ok (), s')"
    and "wf s'" and "log s' = log s" and "tracks j s' cp"
proof -
  obtain s' where s': "ep_put_projection_with port CURRENT_PROJECTION (to_stored_bytes j cp) d s = (Ok (), s')"
    "wf s'" "log s' = log s" "blobs s' = (blobs s)(CURRENT_PROJECTION \<mapsto> to_stored_bytes j cp)"
    using put_blob [OF assms(2)] by blast
  have "load_projection port j s' = Ok cp"
    by (rule load_after_put [OF assms(1) s'(2)]) (use assms s' faithful_wf faithful_json in auto)
  with s' assms that show ?thesis by (simp add: tracks_def)
qed

lemma untracked_tracks: "wf s \<Longrightarrow> blobs s CURRENT_PROJECTION = None \<Longrightarrow> tracks j s projection_empty"
  by (simp add: tracks_def load_projection_def get_blob) (simp add: projection_empty_def)

lemma tracks_log:
  assumes "tracks j s cp" and "wf s" and "wf s'" and "log s' = log s @ cs" and "blobs s' CURRENT_PROJECTION = blobs s CURRENT_PROJECTION"
  shows "tracks j s' cp"
  using assms by (simp add: tracks_def load_projection_def get_blob faithful_append)

lemma rebuild_tracks:
  assumes "projection_json_laws j" and "wf s" and "list_all json_claim (log s)" and "tracks j s cp"
  shows "\<exists>s' cp'. rebuild_current port j s =
      (Ok \<lparr>rb_from = cp_watermark cp, rb_to = word_of_nat (length (log s)), rb_applied = length (log s) - unat (cp_watermark cp)\<rparr>, s')
    \<and> wf s' \<and> log s' = log s \<and> tracks j s' cp' \<and> cp_entries cp' = entries_of (log s)
    \<and> cp_watermark cp' = word_of_nat (length (log s)) \<and> cp_last_grounded cp' = cp_last_grounded cp"
proof -
  let ?n = "word_of_nat (length (log s)) :: u64"
  let ?cp = "(projection_apply (subslice (unat (cp_watermark cp)) (length (log s)) (log s)) cp)\<lparr>cp_watermark := ?n\<rparr>"
  have n: "unat ?n = length (log s)" using room [OF assms(2)] by simp
  have t: "load_projection port j s = Ok cp" "cp_status cp = ProjectionActive" "faithful (log s) cp"
    using assms(4) by (simp_all add: tracks_def)
  have es: "cp_entries ?cp = entries_of (log s)"
    using t(3) by (simp add: projection_apply_def faithful_def entries_of_append subslice_drop_all)
  then have "faithful (log s) ?cp" by (simp add: faithful_def n)
  moreover have "cp_status ?cp = ProjectionActive" using t by (simp add: projection_apply_def)
  ultimately obtain s' where "ep_put_projection_with port CURRENT_PROJECTION (to_stored_bytes j ?cp) ClassBuffered s = (Ok (), s')"
    and s': "wf s'" "log s' = log s" "tracks j s' ?cp"
    using store_tracks [OF assms(1-3)] by metis
  then have "rebuild_current port j s =
      (Ok \<lparr>rb_from = cp_watermark cp, rb_to = ?n, rb_applied = length (log s) - unat (cp_watermark cp)\<rparr>, s')"
    by (simp add: rebuild_current_def run_simps t require_active_def sequence [OF assms(2)] in_range [OF assms(2)] n Let_def)
  with s' es show ?thesis by (auto simp: projection_apply_def)
qed

lemma ground_tracks:
  assumes "projection_json_laws j" and "wf s" and "list_all json_claim (log s)" and "tracks j s cp"
  shows "\<exists>s' stamp. ground_current port j at s = (Ok (Grounded stamp), s') \<and> gr_sequence stamp = cp_watermark cp
    \<and> wf s' \<and> log s' = log s \<and> tracks j s' (cp\<lparr>cp_last_grounded := Some stamp\<rparr>)"
proof -
  let ?stamp = "\<lparr>gr_at = at, gr_sequence = cp_watermark cp, gr_digest = projection_digest j cp\<rparr>"
  let ?cp = "cp\<lparr>cp_last_grounded := Some ?stamp\<rparr>"
  have t: "load_projection port j s = Ok cp" "cp_status cp = ProjectionActive" "faithful (log s) cp"
    using assms(4) by (simp_all add: tracks_def)
  have "faithful (log s) ?cp" "cp_status ?cp = ProjectionActive" using t by (simp_all add: faithful_def)
  then obtain s' where "ep_put_projection_with port CURRENT_PROJECTION (to_stored_bytes j ?cp) ClassBuffered s = (Ok (), s')"
    and s': "wf s'" "log s' = log s" "tracks j s' ?cp"
    using store_tracks [OF assms(1-3)] by metis
  moreover have "difference (cp_entries (projection_apply (subslice 0 (unat (cp_watermark cp)) (log s)) projection_empty)) (cp_entries cp) = []"
    using faithful_difference [OF t(3) assms(3)]
    by (simp add: projection_apply_def projection_empty_def subslice_def flip: entries_of_def)
  ultimately have "ground_current port j at s = (Ok (Grounded ?stamp), s')"
    by (simp add: ground_current_def run_simps t require_active_def in_range [OF assms(2)] Let_def)
  with s' show ?thesis by fastforce
qed

lemma reset_tracks:
  assumes "projection_json_laws j" and "wf s" and "list_all json_claim (log s)"
  shows "\<exists>s' cp. reset_current port j s = (Ok \<lparr>rb_from = 0, rb_to = word_of_nat (length (log s)), rb_applied = length (log s)\<rparr>, s')
    \<and> wf s' \<and> log s' = log s \<and> tracks j s' cp \<and> cp_entries cp = entries_of (log s) \<and> cp_watermark cp = word_of_nat (length (log s))"
proof -
  let ?n = "word_of_nat (length (log s)) :: u64"
  let ?cp = "(projection_apply (log s) projection_empty)\<lparr>cp_watermark := ?n\<rparr>"
  have n: "unat ?n = length (log s)" using room [OF assms(2)] by simp
  have es: "cp_entries ?cp = entries_of (log s)" by (simp add: projection_apply_def projection_empty_def entries_of_def)
  then have "faithful (log s) ?cp" by (simp add: faithful_def n)
  moreover have "cp_status ?cp = ProjectionActive" by (simp add: projection_apply_def projection_empty_def)
  ultimately obtain s' where "ep_put_projection_with port CURRENT_PROJECTION (to_stored_bytes j ?cp) ClassBuffered s = (Ok (), s')"
    and s': "wf s'" "log s' = log s" "tracks j s' ?cp"
    using store_tracks [OF assms(1-3)] by metis
  then have "reset_current port j s = (Ok \<lparr>rb_from = 0, rb_to = ?n, rb_applied = length (log s)\<rparr>, s')"
    by (simp add: reset_current_def run_simps sequence [OF assms(2)] in_range [OF assms(2)] n subslice_full Let_def)
  with s' es show ?thesis by (intro exI [of _ s'] exI [of _ ?cp]) simp
qed

text \<open>A diverged projection is quarantined with its content kept; until it is reset every read, rebuild and grounding
  fails and changes nothing.\<close>

lemma ground_diverges:
  assumes laws: "projection_json_laws j" and wf: "wf s" and load: "load_projection port j s = Ok cp"
    and active: "cp_status cp = ProjectionActive" and cp: "projection_wf cp" "\<forall>(k, c)\<in>set (cp_entries cp). json_claim c"
    and diff: "difference (entries_of (take (unat (cp_watermark cp)) (log s))) (cp_entries cp) = ds" "ds \<noteq> []"
  shows "\<exists>s'. ground_current port j at s = (Ok (Divergence ds), s') \<and> wf s' \<and> log s' = log s
    \<and> load_projection port j s' = Ok (cp\<lparr>cp_status := ProjectionQuarantined at ds\<rparr>)"
proof -
  let ?cp = "cp\<lparr>cp_status := ProjectionQuarantined at ds\<rparr>"
  obtain s' where s': "ep_put_projection_with port CURRENT_PROJECTION (to_stored_bytes j ?cp) ClassAuthoritative s = (Ok (), s')"
    "wf s'" "log s' = log s" "blobs s' = (blobs s)(CURRENT_PROJECTION \<mapsto> to_stored_bytes j ?cp)"
    using put_blob [OF wf] by blast
  have "load_projection port j s' = Ok ?cp"
    by (rule load_after_put [OF laws s'(2)]) (use cp s' in \<open>simp_all add: projection_wf_def\<close>)
  moreover have "difference (cp_entries (projection_apply (subslice 0 (unat (cp_watermark cp)) (log s)) projection_empty)) (cp_entries cp) = ds"
    using diff(1) by (simp add: projection_apply_def projection_empty_def subslice_def flip: entries_of_def)
  then have "ground_current port j at s = (Ok (Divergence ds), s')"
    using diff(2) s'(1)
    by (simp add: ground_current_def run_simps load active require_active_def in_range [OF wf] Let_def)
  ultimately show ?thesis using s' by blast
qed

lemma quarantine_holds:
  assumes "load_projection port j s = Ok cp" and "cp_status cp = ProjectionQuarantined at ds"
  shows "rebuild_current port j s = (Err (quarantine_error at), s)" and "ground_current port j now s = (Err (quarantine_error at), s)"
    and "projection_get cp sb pr = Err (quarantine_error at)"
  using assms by (simp_all add: rebuild_current_def ground_current_def run_simps require_active_def projection_get_def)

end

section \<open>The runtime log behind a transaction\<close>

lemma from_changes_scope: "from_changes (filter (\<lambda>c. ch_scope c = scope) L @ cs) scope vt k = from_changes (L @ cs) scope vt k"
proof -
  have "filter P (filter (\<lambda>c. ch_scope c = scope) L) = filter P L" if "P = (\<lambda>c. ch_cursor c \<le> k \<and> ch_scope c = scope)" for P
    unfolding that by (simp add: conj_commute cong: filter_cong)
  then show ?thesis by (simp add: from_changes_def)
qed

lemma preview_prospective:
  "preview t base = Ok view \<Longrightarrow>
    checked_add (st_commit_cursor (tn_read t)) (word_of_nat (length (cm_mutations (tn_commit t)))) = Some (tv_prospective_cursor view)"
  by (auto simp: preview_def res_simps Let_def case_prod_beta split: if_splits)

locale runtime_log =
  fixes port :: "'s engine_port"
    and wf :: "'s \<Rightarrow> bool"
    and rlog :: "'s \<Rightarrow> runtime_change list"
  assumes rroom: "wf s \<Longrightarrow> length (rlog s) < 2 ^ 64"
    and cursor: "wf s \<Longrightarrow> i < length (rlog s) \<Longrightarrow> ch_cursor (rlog s ! i) = word_of_nat (Suc i)"
    and read_page: "wf s \<Longrightarrow> ep_runtime_read_changes port s r 0 USIZE_MAX = Ok page \<Longrightarrow>
      unat (pg_through_cursor page) \<le> length (rlog s)
      \<and> pg_changes page = filter (\<lambda>c. ch_scope c = st_scope r) (take (unat (pg_through_cursor page)) (rlog s))"
    and commit_extends: "wf s \<Longrightarrow> ep_commit_runtime port c s = (Ok out, s') \<Longrightarrow> length (rlog s') < 2 ^ 64 \<Longrightarrow>
      \<exists>cs. rlog s' = rlog s @ cs \<and> commit_changes c cs \<and> unat (cm_expected_cursor c) = length (rlog s)
        \<and> co_last_cursor out = word_of_nat (length (rlog s'))"
begin

lemma cursor_bound:
  assumes "wf s" and "c \<in> set (rlog s)"
  shows "unat (ch_cursor c) \<le> length (rlog s)"
proof -
  obtain i where i: "i < length (rlog s)" "c = rlog s ! i" using assms(2) by (auto simp: in_set_conv_nth)
  have "unat (word_of_nat (Suc i) :: u64) = Suc i" using i(1) rroom [OF assms(1)] by (intro unat_u64_of_nat) linarith
  then have "unat (ch_cursor c) = Suc i" using cursor [OF assms(1) i(1)] by (simp only: i(2))
  with i(1) show ?thesis by simp
qed

lemma preview_commit:
  assumes wf: "wf s" and view: "preview_data_transaction port t vt s = Ok view"
    and commit: "commit_data_transaction port t s = (Ok out, s')" and room: "length (rlog s') < 2 ^ 64"
  shows "tv_prospective_cursor view = co_last_cursor out"
    and "from_changes (rlog s') (st_scope (tn_read t)) vt (co_last_cursor out) =
      \<lparr>gs_scope = st_scope (tn_read t), gs_valid_at = vt, gs_known_at_cursor = co_last_cursor out,
       gs_records = tv_records view, gs_relations = tv_relations view\<rparr>"
proof -
  let ?scope = "st_scope (tn_read t)" and ?k = "st_commit_cursor (tn_read t)" and ?n = "length (cm_mutations (tn_commit t))"
  have valid: "transaction_validate t = Ok ()" and run: "ep_commit_runtime port (tn_commit t) s = (Ok out, s')"
    using commit by (auto simp: commit_data_transaction_def run_simps map_err_def split: sum.splits)
  have k: "?k = cm_expected_cursor (tn_commit t)" using valid by (auto simp: transaction_validate_def res_simps split: if_splits)
  obtain cs where cs: "rlog s' = rlog s @ cs" "commit_changes (tn_commit t) cs" "unat ?k = length (rlog s)"
    "co_last_cursor out = word_of_nat (length (rlog s'))"
    using commit_extends [OF wf run room] k by metis
  obtain page where page: "ep_runtime_read_changes port s (tn_read t) 0 USIZE_MAX = Ok page" "pg_through_cursor page = ?k"
    "preview t (from_changes (pg_changes page) ?scope vt ?k) = Ok view"
    using view by (auto simp: preview_data_transaction_def res_simps Let_def split: if_splits)
  have changes: "pg_changes page = filter (\<lambda>c. ch_scope c = ?scope) (rlog s)"
    using read_page [OF wf page(1)] by (simp add: page(2) cs(3))
  have n: "length cs = ?n" using cs(2) by (simp add: commit_changes_def)
  then have small: "?n < 2 ^ 64" using room by (simp add: cs(1))
  have "\<forall>c\<in>set (pg_changes page). ch_cursor c \<le> ?k"
    using cursor_bound [OF wf] by (simp add: changes word_le_nat_alt cs(3))
  from preview_shows_commit [OF page(3) cs(2) this small]
  have graph: "from_changes (rlog s') ?scope vt (tv_prospective_cursor view) = \<lparr>gs_scope = ?scope, gs_valid_at = vt,
      gs_known_at_cursor = tv_prospective_cursor view, gs_records = tv_records view, gs_relations = tv_relations view\<rparr>"
    by (simp only: changes from_changes_scope cs(1))
  have "unat (tv_prospective_cursor view) = length (rlog s')"
    using preview_prospective [OF page(3)] small by (simp add: checked_add_eq_Some cs(1,3) n)
  then show p: "tv_prospective_cursor view = co_last_cursor out"
    using room by (simp add: cs(4) word_unat_eq_iff)
  show "from_changes (rlog s') ?scope vt (co_last_cursor out) = \<lparr>gs_scope = ?scope, gs_valid_at = vt,
      gs_known_at_cursor = co_last_cursor out, gs_records = tv_records view, gs_relations = tv_relations view\<rparr>"
    using graph by (simp only: p)
qed

end

end
