(* ===== verification/Memory_Engine.thy ===== *)
theory Memory_Engine
  imports Engine_Port Reference_Claims
begin

text \<open>
  The reference engine \<open>MemoryEngine\<close> (\<^verbatim>\<open>crates/vyrm-store/src/engine.rs\<close>): the claim log, the hash-linked runtime
  change log and the indexes kept beside it (latest records, relations, vectors, samples, places and objects per scope,
  schemas, projection work, audit envelopes, commit outcomes, snapshot leases). The mutex serialises the operations, so
  an operation is a fallible computation on the state; a failure keeps the changes made before it, as the source does.
  A panic (index out of range, counter overflow) is the error \<open>StorePanic\<close>.
\<close>

section \<open>State\<close>

type_synonym 'v scoped = "(scope_id \<times> runtime_ref, 'v) btree"

record memory_engine =
  me_claims :: memory_claims
  me_order :: "claim list"
  me_projections :: "(bytes, bytes) btree"
  me_observes :: u64
  me_changes :: "runtime_change list"
  me_records :: "runtime_record scoped"
  me_relations :: "runtime_relation scoped"
  me_vectors :: "runtime_vector scoped"
  me_series :: "runtime_series_sample scoped"
  me_geo :: "runtime_geo scoped"
  me_objects :: "object_reference scoped"
  me_outbox :: "(u64, projection_work) btree"
  me_audit :: "(bytes, audit_envelope) btree"
  me_last_audit_digest :: "bytes option"
  me_commits :: "(bytes, runtime_commit_outcome) btree"
  me_schemas :: "(scope_id, schema_registry) btree"
  me_snapshots :: "(snapshot_id, snapshot_handle) btree"

definition engine_new :: memory_engine where
  "engine_new = \<lparr>me_claims = memory_new, me_order = [], me_projections = [], me_observes = 0, me_changes = [],
     me_records = [], me_relations = [], me_vectors = [], me_series = [], me_geo = [], me_objects = [], me_outbox = [],
     me_audit = [], me_last_audit_digest = None, me_commits = [], me_schemas = [], me_snapshots = []\<rparr>"

definition observe_count :: "memory_engine \<Rightarrow> u64" where
  "observe_count e = me_observes e"

section \<open>Claims\<close>

definition infallible :: "range_panic + 'a \<Rightarrow> 'a store_result" where
  "infallible r = map_err (\<lambda>_. StorePanic ''range start is greater than range end'') r"

definition engine_versions_at_or_before :: "memory_engine \<Rightarrow> bytes \<Rightarrow> bytes \<Rightarrow> millis \<Rightarrow> claim list store_result" where
  "engine_versions_at_or_before e s p at = infallible (memory_versions_at_or_before (me_claims e) s p at)"

definition engine_all_versions :: "memory_engine \<Rightarrow> bytes \<Rightarrow> bytes \<Rightarrow> claim list store_result" where
  "engine_all_versions e s p = infallible (memory_all_versions (me_claims e) s p)"

definition engine_subject_versions :: "memory_engine \<Rightarrow> bytes \<Rightarrow> claim list store_result" where
  "engine_subject_versions e s = infallible (memory_subject_versions (me_claims e) s)"

definition insert_claim :: "claim \<Rightarrow> (memory_engine, unit) store_action" where
  "insert_claim c e =
     (case kernel (memory_insert c (me_claims e)) of
        Inl x \<Rightarrow> (Err x, e)
      | Inr m \<Rightarrow> (Ok (), e\<lparr>me_claims := m, me_order := me_order e @ [c]\<rparr>))"

definition validate_claims :: "claim list \<Rightarrow> unit store_result" where
  "validate_claims cs = kernel (try_fold (\<lambda>c _. claim_validate c) cs ())"

definition engine_append_batch :: "claim list \<Rightarrow> (memory_engine, append_outcome) store_action" where
  "engine_append_batch claims =
     cbind (clift (validate_claims claims)) (\<lambda>_.
     cbind (creads (\<lambda>e. word_of_nat (length (me_order e)))) (\<lambda>start.
     cbind (cfor claims (\<lambda>c _. insert_claim c) ()) (\<lambda>_.
     cok \<lparr>ao_first_sequence = start + 1, ao_last_sequence = start + word_of_nat (length claims), ao_count = length claims\<rparr>)))"

definition engine_sequence :: "memory_engine \<Rightarrow> u64 store_result" where
  "engine_sequence e = Ok (word_of_nat (length (me_order e)))"

definition engine_claims_in_range :: "memory_engine \<Rightarrow> u64 \<Rightarrow> u64 \<Rightarrow> claim list store_result" where
  "engine_claims_in_range e start to =
     (let stop = min (unat to) (length (me_order e)) in
      if unat start \<ge> stop then Ok [] else Ok (subslice (unat start) stop (me_order e)))"

definition push_subject :: "claim \<Rightarrow> bytes list \<Rightarrow> bytes list" where
  "push_subject c out = (if out = [] \<or> last out \<noteq> subject c then out @ [subject c] else out)"

definition engine_subjects :: "memory_engine \<Rightarrow> bytes list store_result" where
  "engine_subjects e = Ok (remdups_adj (fold push_subject (memory_iter (me_claims e)) []))"

definition engine_observe :: "bytes \<Rightarrow> bytes \<Rightarrow> bytes \<Rightarrow> millis \<Rightarrow> (memory_engine, unit) store_action" where
  "engine_observe reader s p at =
     cbind (cquery (\<lambda>e. ok_or (checked_add (me_observes e) 1) (StorePanic ''attempt to add with overflow''))) (\<lambda>n.
     cmodify (\<lambda>e. e\<lparr>me_observes := n\<rparr>))"

section \<open>Projections\<close>

definition engine_get_projection :: "memory_engine \<Rightarrow> bytes \<Rightarrow> bytes option store_result" where
  "engine_get_projection e name = Ok (bt_get (me_projections e) name)"

definition engine_put_projection_with :: "bytes \<Rightarrow> bytes \<Rightarrow> durability_class \<Rightarrow> (memory_engine, unit) store_action" where
  "engine_put_projection_with name bs d = cmodify (\<lambda>e. e\<lparr>me_projections := bt_insert name bs (me_projections e)\<rparr>)"

section \<open>Stamped reads\<close>

definition engine_runtime_cursor :: "memory_engine \<Rightarrow> u64 store_result" where
  "engine_runtime_cursor e = Ok (word_of_nat (length (me_changes e)))"

definition engine_runtime_schema :: "memory_engine \<Rightarrow> scope_id \<Rightarrow> schema_registry option store_result" where
  "engine_runtime_schema e scope = Ok (bt_get (me_schemas e) scope)"

definition head_digest_of :: "runtime_change list \<Rightarrow> bytes option" where
  "head_digest_of cs = last_digest ch_digest None cs"

definition memory_read_stamp :: "memory_engine \<Rightarrow> scope_id \<Rightarrow> read_stamp store_result" where
  "memory_read_stamp e scope =
     kernel (read_stamp_new scope (map_option sg_revision (bt_get (me_schemas e) scope)) 0
       (word_of_nat (length (me_changes e))) (head_digest_of (me_changes e)))"

text \<open>The last schema revision the log records for a scope.\<close>

definition logged_revision :: "scope_id \<Rightarrow> runtime_change list \<Rightarrow> u64 option" where
  "logged_revision scope cs =
     (case rev (List.map_filter (\<lambda>c. map_option sg_revision (schema_of (ch_mutation c))) (filter (\<lambda>c. ch_scope c = scope) cs)) of
        [] \<Rightarrow> None
      | v # _ \<Rightarrow> Some v)"

definition memory_validate_read_stamp :: "memory_engine \<Rightarrow> read_stamp \<Rightarrow> unit store_result" where
  "memory_validate_read_stamp e read =
     rbind (kernel (read_stamp_validate read)) (\<lambda>_.
     if unat (st_commit_cursor read) > length (me_changes e) then Err (ReadStampUnavailable (st_manifest_id read))
     else
       let head = (if st_commit_cursor read = 0 then None
                   else Some (ch_digest (me_changes e ! (unat (st_commit_cursor read) - 1))));
           revision = logged_revision (st_scope read) (take (unat (st_commit_cursor read)) (me_changes e)) in
       if st_catalog_revision read \<noteq> 0 \<or> st_head_digest read \<noteq> head \<or> st_schema_revision read \<noteq> revision
       then Err (ReadStampMismatch (st_manifest_id read))
       else Ok ())"

definition memory_change_page :: "runtime_change list \<Rightarrow> u64 \<Rightarrow> u64 \<Rightarrow> nat \<Rightarrow> scope_id option \<Rightarrow> change_page store_result" where
  "memory_change_page changes head after limit scope =
     (if after = u64_max \<or> after \<ge> head
      then Ok \<lparr>pg_requested_after = after, pg_through_cursor = after, pg_head_cursor = head, pg_changes = []\<rparr>
      else
        let stop = min (min (usize_saturating_add (unat after) limit) (unat head)) (length changes) in
        if unat after > stop then Err (StorePanic ''slice index starts after its end'')
        else Ok \<lparr>pg_requested_after = after, pg_through_cursor = word_of_nat stop, pg_head_cursor = head,
               pg_changes = filter (\<lambda>c. case scope of None \<Rightarrow> True | Some sc \<Rightarrow> sc = ch_scope c)
                 (subslice (unat after) stop changes)\<rparr>)"

definition page_limit :: "string \<Rightarrow> nat \<Rightarrow> unit store_result" where
  "page_limit message limit = (if limit = 0 then Err (Substrate message []) else Ok ())"

definition engine_read_changes :: "memory_engine \<Rightarrow> read_stamp \<Rightarrow> u64 \<Rightarrow> nat \<Rightarrow> change_page store_result" where
  "engine_read_changes e read after limit =
     rbind (page_limit ''runtime change page limit must be greater than zero'' limit) (\<lambda>_.
     rbind (memory_validate_read_stamp e read) (\<lambda>_.
     memory_change_page (me_changes e) (st_commit_cursor read) after limit (Some (st_scope read))))"

definition engine_changes_since :: "memory_engine \<Rightarrow> u64 \<Rightarrow> nat \<Rightarrow> scope_id option \<Rightarrow> change_page store_result" where
  "engine_changes_since e after limit scope =
     rbind (page_limit ''runtime change page limit must be greater than zero'' limit) (\<lambda>_.
     memory_change_page (me_changes e) (word_of_nat (length (me_changes e))) after limit scope)"

section \<open>Snapshot leases\<close>

definition open_runtime_snapshot :: "scope_id \<Rightarrow> bytes \<Rightarrow> millis \<Rightarrow> millis \<Rightarrow> (memory_engine, snapshot_handle) store_action" where
  "open_runtime_snapshot scope owner now ttl =
     cbind (cquery (\<lambda>e. rbind (memory_read_stamp e scope) (\<lambda>stamp. kernel (snapshot_new stamp owner now ttl)))) (\<lambda>handle.
     cbind (cmodify (\<lambda>e. e\<lparr>me_snapshots := bt_insert (sh_id handle) handle (me_snapshots e)\<rparr>)) (\<lambda>_.
     cok handle))"

definition runtime_snapshot_changes :: "memory_engine \<Rightarrow> snapshot_handle \<Rightarrow> u64 \<Rightarrow> nat \<Rightarrow> millis \<Rightarrow> change_page store_result" where
  "runtime_snapshot_changes e snapshot after limit now =
     rbind (kernel (snapshot_validate snapshot)) (\<lambda>_.
     rbind (page_limit ''runtime change page limit must be greater than zero'' limit) (\<lambda>_.
     case bt_get (me_snapshots e) (sh_id snapshot) of
       None \<Rightarrow> Err (SnapshotNotFound (sh_id snapshot))
     | Some persisted \<Rightarrow>
         if persisted \<noteq> snapshot then Err (SnapshotMismatch (sh_id snapshot))
         else if snapshot_is_expired snapshot now then Err (SnapshotExpired (sh_id snapshot) (sh_expires_at snapshot))
         else memory_change_page (me_changes e) (st_commit_cursor (sh_read snapshot)) after limit
                (Some (st_scope (sh_read snapshot)))))"

definition release_runtime_snapshot :: "snapshot_id \<Rightarrow> (memory_engine, bool) store_action" where
  "release_runtime_snapshot i =
     cbind (creads (\<lambda>e. bt_get (me_snapshots e) i \<noteq> None)) (\<lambda>present.
     cbind (cmodify (\<lambda>e. e\<lparr>me_snapshots := bt_remove i (me_snapshots e)\<rparr>)) (\<lambda>_.
     cok present))"

definition runtime_snapshots :: "memory_engine \<Rightarrow> millis \<Rightarrow> snapshot_handle list store_result" where
  "runtime_snapshots e now = Ok (filter (\<lambda>s. \<not> snapshot_is_expired s now) (map snd (me_snapshots e)))"

definition runtime_retention_pins :: "memory_engine \<Rightarrow> millis \<Rightarrow> retention_pin list store_result" where
  "runtime_retention_pins e now =
     rbind (runtime_snapshots e now) (\<lambda>ss. kernel (try_map pin_from_snapshot ss))"

section \<open>Commits\<close>

definition effective_schema :: "scope_id \<Rightarrow> schema_registry option \<Rightarrow> schema_registry option \<Rightarrow> schema_registry store_result" where
  "effective_schema scope previous proposed =
     (case (previous, proposed) of
        (None, Some g) \<Rightarrow> if sg_revision g = 1 then Ok g else Err (RuntimeSchemaConflict 1 (sg_revision g))
      | (Some p, Some g) \<Rightarrow>
          if sg_revision g = saturating_add (sg_revision p) 1 then Ok g
          else Err (RuntimeSchemaConflict (saturating_add (sg_revision p) 1) (sg_revision g))
      | (Some p, None) \<Rightarrow> Ok p
      | (None, None) \<Rightarrow> Err (RuntimeSchemaMissing scope))"

definition in_scope :: "scope_id \<Rightarrow> 'v scoped \<Rightarrow> 'v list" where
  "in_scope scope m = map snd (filter (\<lambda>((sc, _), _). sc = scope) m)"

fun mutation_references :: "runtime_mutation \<Rightarrow> runtime_ref list" where
  "mutation_references (MRelation r) = [rl_from r, rl_to r]"
| "mutation_references (MEvent e) = (case rn_subject e of Some s \<Rightarrow> [s] | None \<Rightarrow> [])"
| "mutation_references (MVector v) = [rv_subject v]"
| "mutation_references (MSeriesSample s) = [ss_series s]"
| "mutation_references (MGeo g) = [rg_subject g]"
| "mutation_references (MObject ob) = (case ob_subject ob of Some s \<Rightarrow> [s] | None \<Rightarrow> [])"
| "mutation_references (MClaim _) = []"
| "mutation_references (MSchema _) = []"
| "mutation_references (MRecord _) = []"

definition record_of :: "runtime_mutation \<Rightarrow> runtime_record option" where
  "record_of m = (case m of MRecord r \<Rightarrow> Some r | _ \<Rightarrow> None)"

definition new_records :: "runtime_mutation list \<Rightarrow> runtime_ref set" where
  "new_records ms = set (List.map_filter (\<lambda>m. map_option rc_reference (record_of m)) ms)"

definition check_reference :: "runtime_commit \<Rightarrow> memory_engine \<Rightarrow> runtime_ref \<Rightarrow> unit store_result" where
  "check_reference c e r =
     (if r \<notin> new_records (cm_mutations c) \<and> bt_get (me_records e) (cm_scope c, r) = None
      then Err (DanglingRuntimeReference [ref_kind r, ref_id r, cm_scope c])
      else Ok ())"

definition check_references :: "runtime_commit \<Rightarrow> memory_engine \<Rightarrow> unit store_result" where
  "check_references c e =
     try_fold (\<lambda>m _. try_fold (\<lambda>r _. check_reference c e r) (mutation_references m) ()) (cm_mutations c) ()"

text \<open>The loop that numbers, links and queues the mutations: the previous digest, the changes and the projection work
  so far.\<close>

type_synonym commit_loop = "bytes option \<times> runtime_change list \<times> projection_work list"

definition commit_one :: "runtime_commit \<Rightarrow> bytes \<Rightarrow> u64 \<Rightarrow> nat \<times> runtime_mutation \<Rightarrow> commit_loop \<Rightarrow> commit_loop core_result" where
  "commit_one c commit_id start om st =
     (case om of (ordinal, m) \<Rightarrow> case st of (previous, committed, pending) \<Rightarrow>
        let cursor = start + word_of_nat ordinal + 1 in
        rbind (case projection_family_of m of
                 Some family \<Rightarrow>
                   rbind (work_for_change (cm_scope c) cursor commit_id (word_of_nat ordinal) family) (\<lambda>w. Ok (pending @ [w]))
               | None \<Rightarrow> Ok pending) (\<lambda>pending.
        let change = change_committed cursor c commit_id (word_of_nat ordinal) m previous in
        Ok (Some (ch_digest change), committed @ [change], pending)))"

definition apply_mutation :: "scope_id \<Rightarrow> runtime_mutation \<Rightarrow> memory_engine \<Rightarrow> memory_engine" where
  "apply_mutation scope m e =
     (case m of
        MSchema g \<Rightarrow> e\<lparr>me_schemas := bt_insert scope g (me_schemas e)\<rparr>
      | MRecord r \<Rightarrow> e\<lparr>me_records := bt_insert (scope, rc_reference r) r (me_records e)\<rparr>
      | MRelation r \<Rightarrow> e\<lparr>me_relations := bt_insert (scope, rl_reference r) r (me_relations e)\<rparr>
      | MVector v \<Rightarrow> e\<lparr>me_vectors := bt_insert (scope, rv_reference v) v (me_vectors e)\<rparr>
      | MSeriesSample s \<Rightarrow> e\<lparr>me_series := bt_insert (scope, ss_reference s) s (me_series e)\<rparr>
      | MGeo g \<Rightarrow> e\<lparr>me_geo := bt_insert (scope, rg_reference g) g (me_geo e)\<rparr>
      | MObject ob \<Rightarrow> e\<lparr>me_objects := bt_insert (scope, ob_reference ob) ob (me_objects e)\<rparr>
      | MClaim _ \<Rightarrow> e
      | MEvent _ \<Rightarrow> e)"

definition check_commit :: "runtime_commit \<Rightarrow> memory_engine \<Rightarrow> unit store_result" where
  "check_commit c e =
     rbind (kernel (commit_validate c)) (\<lambda>_.
     rbind (let start = word_of_nat (length (me_changes e)) in
            if start \<noteq> cm_expected_cursor c then Err (RuntimeConflict (cm_expected_cursor c) start) else Ok ()) (\<lambda>_.
     rbind (effective_schema (cm_scope c) (bt_get (me_schemas e) (cm_scope c)) (find_map schema_of (cm_mutations c))) (\<lambda>g.
     rbind (kernel (validate_objects g (cm_mutations c) (in_scope (cm_scope c) (me_records e))
              (in_scope (cm_scope c) (me_relations e)))) (\<lambda>_.
     rbind (check_references c e) (\<lambda>_.
     validate_claims (List.map_filter claim_of (cm_mutations c)))))))"

definition engine_commit_runtime :: "runtime_commit \<Rightarrow> (memory_engine, runtime_commit_outcome) store_action" where
  "engine_commit_runtime c =
     cbind (cquery (check_commit c)) (\<lambda>_.
     let commit_id = commit_digest c; claims = List.map_filter claim_of (cm_mutations c) in
     cbind (creads (\<lambda>e. word_of_nat (length (me_changes e)))) (\<lambda>start.
     cbind (creads (\<lambda>e. word_of_nat (length (me_order e)))) (\<lambda>claim_start.
     cbind (cfor claims (\<lambda>c _. insert_claim c) ()) (\<lambda>_.
     cbind (cquery (\<lambda>e. kernel (try_fold (commit_one c commit_id start) (List.enumerate 0 (cm_mutations c))
              (head_digest_of (me_changes e), [], [])))) (\<lambda>(_, committed, pending).
     cbind (cquery (\<lambda>e. kernel (accepted_commit c commit_id (start + word_of_nat (length (cm_mutations c)))
              (me_last_audit_digest e)))) (\<lambda>audit.
     cbind (cmodify (fold (apply_mutation (cm_scope c)) (cm_mutations c))) (\<lambda>_.
     cbind (cmodify (\<lambda>e. e\<lparr>me_changes := me_changes e @ committed,
              me_outbox := fold (\<lambda>w. bt_insert (pw_source_cursor w) w) pending (me_outbox e),
              me_last_audit_digest := Some (au_digest audit),
              me_audit := bt_insert commit_id audit (me_audit e)\<rparr>)) (\<lambda>_.
     cbind (creads (\<lambda>e. \<lparr>co_commit_id = commit_id, co_first_cursor = start + 1,
              co_last_cursor = word_of_nat (length (me_changes e)), co_count = length (cm_mutations c),
              co_first_claim_sequence = (if length claims > 0 then Some (claim_start + 1) else None),
              co_last_claim_sequence = (if length claims > 0 then Some (claim_start + word_of_nat (length claims)) else None),
              co_outbox_count = length pending\<rparr>)) (\<lambda>outcome.
     cbind (cmodify (\<lambda>e. e\<lparr>me_commits := bt_insert (co_commit_id outcome) outcome (me_commits e)\<rparr>)) (\<lambda>_.
     cok outcome))))))))))"

section \<open>Outbox, audit and outcomes\<close>

definition runtime_outbox_since :: "memory_engine \<Rightarrow> u64 \<Rightarrow> nat \<Rightarrow> projection_work list store_result" where
  "runtime_outbox_since e after limit =
     rbind (page_limit ''runtime outbox page limit must be greater than zero'' limit) (\<lambda>_.
     Ok (map snd (take limit (filter (\<lambda>(k, _). saturating_add after 1 \<le> k) (me_outbox e)))))"

definition runtime_audit :: "memory_engine \<Rightarrow> bytes \<Rightarrow> audit_envelope option store_result" where
  "runtime_audit e commit_id = Ok (bt_get (me_audit e) commit_id)"

definition runtime_commit_outcome_of :: "memory_engine \<Rightarrow> bytes \<Rightarrow> runtime_commit_outcome option store_result" where
  "runtime_commit_outcome_of e commit_id = Ok (bt_get (me_commits e) commit_id)"

definition memory_port :: "memory_engine engine_port" where
  "memory_port = \<lparr>ep_versions_at_or_before = engine_versions_at_or_before, ep_append_batch = engine_append_batch,
     ep_sequence = engine_sequence, ep_claims_in_range = engine_claims_in_range, ep_get_projection = engine_get_projection,
     ep_put_projection_with = engine_put_projection_with, ep_runtime_read_changes = engine_read_changes,
     ep_commit_runtime = engine_commit_runtime\<rparr>"

end
