(* ===== verification/Memory_Commit.thy ===== *)
theory Memory_Commit
  imports Memory_Engine
begin

text \<open>
  What each operation of the reference engine does to its state. Insertion of validated claims never fails; the loop of
  a commit numbers the mutations from the expected cursor, links their digests and queues their projection work without
  failing; so a commit either fails its checks and changes nothing or performs every one of its effects.
\<close>

section \<open>Inserting claims\<close>

lemma validate_claims_ok: "validate_claims cs = Ok () \<longleftrightarrow> (\<forall>c\<in>set cs. claim_validate c = Ok ())"
  by (auto simp: validate_claims_def res_simps try_fold_unit_iff)

lemma memory_insert_valid: "claim_validate c = Ok () \<Longrightarrow> memory_insert c m = Ok (m\<lparr>rows := bt_insert (key_of c) c (rows m)\<rparr>)"
  by (simp add: memory_insert_def)

lemma insert_claims:
  assumes "\<forall>c\<in>set cs. claim_validate c = Ok ()"
  shows "\<exists>m. try_fold memory_insert cs (me_claims e) = Ok m
    \<and> cfor cs (\<lambda>c _. insert_claim c) () e = (Ok (), e\<lparr>me_claims := m, me_order := me_order e @ cs\<rparr>)"
  using assms
proof (induction cs arbitrary: e)
  case (Cons c cs)
  let ?m = "(me_claims e)\<lparr>rows := bt_insert (key_of c) c (rows (me_claims e))\<rparr>"
  let ?e = "e\<lparr>me_claims := ?m, me_order := me_order e @ [c]\<rparr>"
  have ins: "memory_insert c (me_claims e) = Ok ?m" using Cons.prems by (simp add: memory_insert_valid)
  then have "insert_claim c e = (Ok (), ?e)" by (simp add: insert_claim_def)
  moreover obtain m where "try_fold memory_insert cs ?m = Ok m"
    "cfor cs (\<lambda>c _. insert_claim c) () ?e = (Ok (), ?e\<lparr>me_claims := m, me_order := me_order ?e @ cs\<rparr>)"
    using Cons.IH [of ?e] Cons.prems by auto
  ultimately show ?case by (auto simp: run_simps ins)
qed (simp add: run_simps)

lemma append_batch_result:
  "case validate_claims cs of
     Inl x \<Rightarrow> engine_append_batch cs e = (Err x, e)
   | Inr _ \<Rightarrow> \<exists>m. try_fold memory_insert cs (me_claims e) = Ok m \<and> engine_append_batch cs e =
       (Ok \<lparr>ao_first_sequence = word_of_nat (length (me_order e)) + 1,
            ao_last_sequence = word_of_nat (length (me_order e)) + word_of_nat (length cs), ao_count = length cs\<rparr>,
        e\<lparr>me_claims := m, me_order := me_order e @ cs\<rparr>)"
proof (cases "validate_claims cs")
  case (Inr u)
  then have "validate_claims cs = Ok ()" by simp
  with insert_claims [of cs e] obtain m where m: "try_fold memory_insert cs (me_claims e) = Ok m"
    "cfor cs (\<lambda>c _. insert_claim c) () e = (Ok (), e\<lparr>me_claims := m, me_order := me_order e @ cs\<rparr>)"
    unfolding validate_claims_ok by blast
  with Inr show ?thesis by (simp add: engine_append_batch_def run_simps)
qed (simp add: engine_append_batch_def run_simps)

section \<open>The commit loop\<close>

definition work_of_change :: "runtime_change \<Rightarrow> projection_work option" where
  "work_of_change ch =
     (case projection_family_of (ch_mutation ch) of
        None \<Rightarrow> None
      | Some family \<Rightarrow>
          (case work_for_change (ch_scope ch) (ch_cursor ch) (ch_commit_id ch) (ch_commit_ordinal ch) family of
             Inl _ \<Rightarrow> None | Inr w \<Rightarrow> Some w))"

fun link_changes :: "runtime_commit \<Rightarrow> u64 \<Rightarrow> nat \<Rightarrow> bytes option \<Rightarrow> runtime_mutation list \<Rightarrow> runtime_change list" where
  "link_changes c start n p [] = []"
| "link_changes c start n p (m # ms) =
     (let ch = change_committed (start + word_of_nat n + 1) c (commit_digest c) (word_of_nat n) m p in
      ch # link_changes c start (Suc n) (Some (ch_digest ch)) ms)"

lemma change_committed_fields [simp]:
  "ch_cursor (change_committed k c i n m p) = k" "ch_commit_id (change_committed k c i n m p) = i"
  "ch_commit_ordinal (change_committed k c i n m p) = n" "ch_scope (change_committed k c i n m p) = cm_scope c"
  "ch_at (change_committed k c i n m p) = cm_at c" "ch_actor (change_committed k c i n m p) = cm_actor c"
  "ch_mutation (change_committed k c i n m p) = m" "ch_previous_digest (change_committed k c i n m p) = p"
  by (simp_all add: change_committed_def Let_def)

lemma change_committed_digest:
  "ch_digest (change_committed k c i n m p) = sha256_hex (change_bytes (change_committed k c i n m p))"
  by (simp add: change_committed_def Let_def change_bytes_def)

lemma length_link_changes [simp]: "length (link_changes c start n p ms) = length ms"
  by (induction ms arbitrary: n p) (simp_all add: Let_def)

lemma nth_link_changes:
  "i < length ms \<Longrightarrow> ch_cursor (link_changes c start n p ms ! i) = start + word_of_nat (n + i) + 1
    \<and> ch_scope (link_changes c start n p ms ! i) = cm_scope c \<and> ch_at (link_changes c start n p ms ! i) = cm_at c
    \<and> ch_actor (link_changes c start n p ms ! i) = cm_actor c
    \<and> ch_commit_id (link_changes c start n p ms ! i) = commit_digest c
    \<and> ch_mutation (link_changes c start n p ms ! i) = ms ! i"
proof (induction ms arbitrary: n p i)
  case (Cons m ms)
  then show ?case by (cases i) (simp_all add: Let_def)
qed simp

lemma map_link_changes: "map ch_mutation (link_changes c start n p ms) = ms"
  by (induction ms arbitrary: n p) (simp_all add: Let_def)

lemma link_changes_scope: "ch \<in> set (link_changes c start n p ms) \<Longrightarrow> ch_scope ch = cm_scope c \<and> ch_commit_id ch = commit_digest c"
  by (induction ms arbitrary: n p) (auto simp: Let_def)

lemma chained_link_changes: "chained change_bytes ch_previous_digest ch_digest p (link_changes c start n p ms)"
  by (induction ms arbitrary: n p) (simp_all add: Let_def change_committed_digest)

lemma link_changes_commit: "cm_mutations c = ms \<Longrightarrow> start = cm_expected_cursor c \<Longrightarrow> commit_changes c (link_changes c start 0 p ms)"
  unfolding commit_changes_def using nth_link_changes [of _ ms c start 0 p] by simp

lemma last_digest_Cons: "last_digest dig p (e # es) = last_digest dig (Some (dig e)) es"
  by (simp add: last_digest_def)

lemma cursor_nonzero:
  assumes "unat start + Suc n < 2 ^ 64"
  shows "start + word_of_nat n + 1 \<noteq> (0 :: u64)"
proof -
  have "start + word_of_nat n + 1 = (word_of_nat (unat start + Suc n) :: u64)" by simp
  then have "unat (start + word_of_nat n + 1) = unat start + Suc n" using unat_u64_of_nat [OF assms] by metis
  then show ?thesis by (metis add_Suc_right nat.distinct(1) unat_0)
qed

lemma work_for_change_ok:
  "source \<noteq> 0 \<Longrightarrow> \<exists>w. work_for_change scope source (sha256_hex b) n family = Ok w \<and> pw_source_cursor w = source"
  by (simp add: work_for_change_def outbox_id_new_def)

lemma commit_loop:
  assumes "unat start + n + length ms < 2 ^ 64"
  shows "try_fold (commit_one c (commit_digest c) start) (List.enumerate n ms) (p, acc, pend) =
    Ok (last_digest ch_digest p (link_changes c start n p ms), acc @ link_changes c start n p ms,
        pend @ List.map_filter work_of_change (link_changes c start n p ms))"
  using assms
proof (induction ms arbitrary: n p acc pend)
  case (Cons m ms)
  let ?ch = "change_committed (start + word_of_nat n + 1) c (commit_digest c) (word_of_nat n) m p"
  have nz: "start + word_of_nat n + 1 \<noteq> 0" using Cons.prems by (intro cursor_nonzero) simp
  have "commit_one c (commit_digest c) start (n, m) (p, acc, pend) =
      Ok (Some (ch_digest ?ch), acc @ [?ch], pend @ (case work_of_change ?ch of None \<Rightarrow> [] | Some w \<Rightarrow> [w]))"
  proof (cases "projection_family_of m")
    case (Some family)
    obtain w where "work_for_change (cm_scope c) (start + word_of_nat n + 1) (commit_digest c) (word_of_nat n) family = Ok w"
      using work_for_change_ok [OF nz] unfolding commit_digest_def by blast
    with Some show ?thesis by (simp add: commit_one_def Let_def work_of_change_def)
  qed (simp add: commit_one_def Let_def work_of_change_def)
  with Cons.IH [of "Suc n"] Cons.prems show ?case
    by (simp add: Let_def last_digest_Cons List.map_filter_simps split: option.split)
qed simp

section \<open>Commits\<close>

definition digest_valid :: "bytes option \<Rightarrow> bool" where
  "digest_valid d \<longleftrightarrow> pred_option (\<lambda>d. \<exists>b. d = sha256_hex b) d"

lemma accepted_commit_ok:
  assumes "commit_validate c = Ok ()" and "digest_valid previous"
  shows "\<exists>a. accepted_commit c (commit_digest c) k previous = Ok a \<and> audit_validate a = Ok () \<and> digest_valid (Some (au_digest a))
    \<and> au_previous_digest a = previous \<and> au_outcome_cursor a = Some k \<and> au_scope a = cm_scope c \<and> au_actor a = cm_actor c"
proof -
  have actor: "runtime_validate_text k (cm_actor c) = Ok ()" for k
    using assms(1) by (auto simp: commit_validate_def res_simps runtime_validate_text_def validate_identifier_def split: if_splits)
  have id: "runtime_validate_text k (commit_digest c) = Ok ()" for k
    by (simp add: runtime_validate_text_def commit_digest_def)
  have "0 \<notin> set (commit_digest c)" using sha256_hex_byte by (force simp: commit_digest_def)
  then have res: "runtime_validate_text k (ascii ''transaction:'' @ commit_digest c) = Ok ()"
    and op: "runtime_validate_text k (ascii ''runtime.commit'') = Ok ()" for k
    by (auto simp: runtime_validate_text_def validate_identifier_def ascii_def)
  let ?a = "\<lparr>au_contract_version = DATA_RUNTIME_CONTRACT_VERSION, au_request_id = commit_digest c, au_parent_request_id = None,
       au_at = cm_at c, au_actor = cm_actor c, au_scope = cm_scope c,
       au_operation = ascii ''runtime.commit'', au_resource = ascii ''transaction:'' @ commit_digest c, au_read = None,
       au_decision = Allow, au_outcome_cursor = Some k, au_duration_ms = 0,
       au_previous_digest = previous, au_digest = []\<rparr>"
  have "audit_components ?a = Ok ()"
    using assms(2) by (cases previous) (auto simp: audit_components_def actor id res op digest_valid_def)
  then have "accepted_commit c (commit_digest c) k previous = Ok (?a\<lparr>au_digest := sha256_hex (audit_bytes ?a)\<rparr>)"
    by (simp add: accepted_commit_def audit_seal_def)
  moreover from this have "audit_validate (?a\<lparr>au_digest := sha256_hex (audit_bytes ?a)\<rparr>) = Ok ()"
    unfolding accepted_commit_def by (rule audit_seal_valid)
  ultimately show ?thesis by (auto simp: digest_valid_def)
qed

definition committed_engine :: "runtime_commit \<Rightarrow> memory_claims \<Rightarrow> audit_envelope \<Rightarrow> memory_engine \<Rightarrow> memory_engine" where
  "committed_engine c m a e =
     (let cs = link_changes c (word_of_nat (length (me_changes e))) 0 (head_digest_of (me_changes e)) (cm_mutations c);
          e = fold (apply_mutation (cm_scope c)) (cm_mutations c)
                (e\<lparr>me_claims := m, me_order := me_order e @ List.map_filter claim_of (cm_mutations c)\<rparr>) in
      e\<lparr>me_changes := me_changes e @ cs,
        me_outbox := fold (\<lambda>w. bt_insert (pw_source_cursor w) w) (List.map_filter work_of_change cs) (me_outbox e),
        me_last_audit_digest := Some (au_digest a), me_audit := bt_insert (commit_digest c) a (me_audit e)\<rparr>)"

definition commit_outcome :: "runtime_commit \<Rightarrow> memory_engine \<Rightarrow> runtime_commit_outcome" where
  "commit_outcome c e =
     (let cs = link_changes c (word_of_nat (length (me_changes e))) 0 (head_digest_of (me_changes e)) (cm_mutations c);
          k = length (List.map_filter claim_of (cm_mutations c)) in
      \<lparr>co_commit_id = commit_digest c, co_first_cursor = word_of_nat (length (me_changes e)) + 1,
       co_last_cursor = word_of_nat (length (me_changes e) + length (cm_mutations c)), co_count = length (cm_mutations c),
       co_first_claim_sequence = (if k > 0 then Some (word_of_nat (length (me_order e)) + 1) else None),
       co_last_claim_sequence = (if k > 0 then Some (word_of_nat (length (me_order e)) + word_of_nat k) else None),
       co_outbox_count = length (List.map_filter work_of_change cs)\<rparr>)"

text \<open>Applying the mutations touches only the indexes.\<close>

lemma apply_mutation_frame [simp]:
  "me_claims (apply_mutation sc m e) = me_claims e" "me_order (apply_mutation sc m e) = me_order e"
  "me_projections (apply_mutation sc m e) = me_projections e" "me_observes (apply_mutation sc m e) = me_observes e"
  "me_changes (apply_mutation sc m e) = me_changes e" "me_outbox (apply_mutation sc m e) = me_outbox e"
  "me_audit (apply_mutation sc m e) = me_audit e" "me_last_audit_digest (apply_mutation sc m e) = me_last_audit_digest e"
  "me_commits (apply_mutation sc m e) = me_commits e" "me_snapshots (apply_mutation sc m e) = me_snapshots e"
  by (simp_all add: apply_mutation_def split: runtime_mutation.split)

lemma apply_mutations_frame [simp]:
  "me_claims (fold (apply_mutation sc) ms e) = me_claims e" "me_order (fold (apply_mutation sc) ms e) = me_order e"
  "me_projections (fold (apply_mutation sc) ms e) = me_projections e" "me_observes (fold (apply_mutation sc) ms e) = me_observes e"
  "me_changes (fold (apply_mutation sc) ms e) = me_changes e" "me_outbox (fold (apply_mutation sc) ms e) = me_outbox e"
  "me_audit (fold (apply_mutation sc) ms e) = me_audit e"
  "me_last_audit_digest (fold (apply_mutation sc) ms e) = me_last_audit_digest e"
  "me_commits (fold (apply_mutation sc) ms e) = me_commits e" "me_snapshots (fold (apply_mutation sc) ms e) = me_snapshots e"
  by (induction ms arbitrary: e) simp_all

lemma commit_result:
  assumes audit: "digest_valid (me_last_audit_digest e)" and room: "length (me_changes e) + length (cm_mutations c) < 2 ^ 64"
    and ok: "check_commit c e = Ok ()"
  shows "\<exists>m a. try_fold memory_insert (List.map_filter claim_of (cm_mutations c)) (me_claims e) = Ok m
    \<and> accepted_commit c (commit_digest c) (co_last_cursor (commit_outcome c e)) (me_last_audit_digest e) = Ok a
    \<and> audit_validate a = Ok () \<and> digest_valid (Some (au_digest a)) \<and> au_previous_digest a = me_last_audit_digest e
    \<and> au_outcome_cursor a = Some (co_last_cursor (commit_outcome c e))
    \<and> engine_commit_runtime c e = (Ok (commit_outcome c e),
        (committed_engine c m a e)\<lparr>me_commits := bt_insert (commit_digest c) (commit_outcome c e) (me_commits e)\<rparr>)"
proof -
  let ?claims = "List.map_filter claim_of (cm_mutations c)" and ?start = "word_of_nat (length (me_changes e)) :: u64"
  let ?cs = "link_changes c ?start 0 (head_digest_of (me_changes e)) (cm_mutations c)"
  have valid: "commit_validate c = Ok ()" and "validate_claims ?claims = Ok ()"
    using ok by (auto simp: check_commit_def res_simps Let_def)
  then obtain m where m: "try_fold memory_insert ?claims (me_claims e) = Ok m"
    "cfor ?claims (\<lambda>c _. insert_claim c) () e = (Ok (), e\<lparr>me_claims := m, me_order := me_order e @ ?claims\<rparr>)"
    using insert_claims [of ?claims e] unfolding validate_claims_ok by blast
  obtain a where a: "accepted_commit c (commit_digest c) (?start + word_of_nat (length (cm_mutations c))) (me_last_audit_digest e) = Ok a"
    "audit_validate a = Ok ()" "digest_valid (Some (au_digest a))" "au_previous_digest a = me_last_audit_digest e"
    "au_outcome_cursor a = Some (?start + word_of_nat (length (cm_mutations c)))"
    using accepted_commit_ok [OF valid audit] by metis
  have "unat ?start + 0 + length (cm_mutations c) < 2 ^ 64" using room by simp
  note loop = commit_loop [OF this, of c "head_digest_of (me_changes e)" "[]" "[]", unfolded append_Nil]
  have "engine_commit_runtime c e = (Ok (commit_outcome c e),
      (committed_engine c m a e)\<lparr>me_commits := bt_insert (commit_digest c) (commit_outcome c e) (me_commits e)\<rparr>)"
    by (simp add: engine_commit_runtime_def run_simps ok m(2) loop a(1) Let_def committed_engine_def commit_outcome_def)
  with m(1) a show ?thesis by (auto simp: commit_outcome_def Let_def)
qed

lemma commit_rejected: "check_commit c e = Err x \<Longrightarrow> engine_commit_runtime c e = (Err x, e)"
  by (simp add: engine_commit_runtime_def run_simps)

lemma committed_engine_fields [simp]:
  "me_claims (committed_engine c m a e) = m"
  "me_order (committed_engine c m a e) = me_order e @ List.map_filter claim_of (cm_mutations c)"
  "me_projections (committed_engine c m a e) = me_projections e"
  "me_snapshots (committed_engine c m a e) = me_snapshots e"
  "me_changes (committed_engine c m a e) = me_changes e
     @ link_changes c (word_of_nat (length (me_changes e))) 0 (head_digest_of (me_changes e)) (cm_mutations c)"
  "me_outbox (committed_engine c m a e) = fold (\<lambda>w. bt_insert (pw_source_cursor w) w)
     (List.map_filter work_of_change (link_changes c (word_of_nat (length (me_changes e))) 0 (head_digest_of (me_changes e)) (cm_mutations c)))
     (me_outbox e)"
  "me_audit (committed_engine c m a e) = bt_insert (commit_digest c) a (me_audit e)"
  "me_last_audit_digest (committed_engine c m a e) = Some (au_digest a)"
  by (simp_all add: committed_engine_def Let_def)

end
