(* ===== verification/Memory_Invariant.thy ===== *)
theory Memory_Invariant
  imports Memory_Commit
begin

text \<open>
  The invariant of the reference engine. The change log is a hash chain numbered from one; every index beside it is the
  replay of the log; every reference of a logged mutation resolves; the latest records and relations of every scope obey
  its schema; audit envelopes and snapshot leases are valid. Every operation keeps it.
\<close>

section \<open>Scoped maps\<close>

definition scope_map :: "scope_id \<Rightarrow> 'v scoped \<Rightarrow> (runtime_ref, 'v) btree" where
  "scope_map scope m = map (\<lambda>((_, r), v). (r, v)) (filter (\<lambda>((sc, _), _). sc = scope) m)"

lemma in_scope_map: "in_scope scope m = map snd (scope_map scope m)"
  by (simp add: in_scope_def scope_map_def case_prod_beta comp_def)

lemma scope_map_mem: "(r, v) \<in> set (scope_map scope m) \<longleftrightarrow> ((scope, r), v) \<in> set m"
  by (force simp: scope_map_def)

lemma bt_wf_scope_map:
  assumes "bt_wf m"
  shows "bt_wf (scope_map scope m)"
proof -
  have "sorted_wrt (\<lambda>a b. fst a < fst b) (filter (\<lambda>((sc, _), _). sc = scope) m)"
    using assms by (simp add: bt_wf_def sorted_wrt_map sorted_wrt_filter)
  then have "sorted_wrt (\<lambda>a b. snd (fst a) < snd (fst b)) (filter (\<lambda>((sc, _), _). sc = scope) m)"
    by (rule sorted_wrt_mono_rel [rotated]) (auto simp: less_prod_def)
  then show ?thesis by (simp add: bt_wf_def scope_map_def sorted_wrt_map case_prod_beta comp_def)
qed

lemma bt_get_scope_map: "bt_wf m \<Longrightarrow> bt_get (scope_map scope m) r = bt_get m (scope, r)"
  by (intro option_eqI) (simp add: bt.entries_mem [symmetric] bt_wf_scope_map scope_map_mem)

lemma scope_map_insert:
  assumes "bt_wf m"
  shows "scope_map scope (bt_insert (sc, r) v m) = (if sc = scope then bt_insert r v (scope_map scope m) else scope_map scope m)"
  by (rule bt.entries_unique)
    (simp_all add: assms bt_wf_scope_map bt_wf_insert fun_eq_iff bt_get_scope_map bt_get_insert)

lemma length_scope_map: "length (scope_map scope m) \<le> length m"
  by (simp add: scope_map_def)

section \<open>Indexes as the replay of the log\<close>

definition same_indexes :: "memory_engine \<Rightarrow> memory_engine \<Rightarrow> bool" where
  "same_indexes a b \<longleftrightarrow> me_records a = me_records b \<and> me_relations a = me_relations b \<and> me_vectors a = me_vectors b
     \<and> me_series a = me_series b \<and> me_geo a = me_geo b \<and> me_objects a = me_objects b \<and> me_schemas a = me_schemas b"

definition replay_step :: "runtime_change \<Rightarrow> memory_engine \<Rightarrow> memory_engine" where
  "replay_step ch = apply_mutation (ch_scope ch) (ch_mutation ch)"

definition replay_log :: "runtime_change list \<Rightarrow> memory_engine" where
  "replay_log cs = fold replay_step cs engine_new"

definition queue_log :: "runtime_change list \<Rightarrow> (u64, projection_work) btree" where
  "queue_log cs = fold (\<lambda>w. bt_insert (pw_source_cursor w) w) (List.map_filter work_of_change cs) []"

lemma same_indexes_apply: "same_indexes a b \<Longrightarrow> same_indexes (apply_mutation sc m a) (apply_mutation sc m b)"
  by (cases m) (simp_all add: same_indexes_def apply_mutation_def)

lemma same_indexes_fold: "same_indexes a b \<Longrightarrow> same_indexes (fold (apply_mutation sc) ms a) (fold (apply_mutation sc) ms b)"
  by (induction ms arbitrary: a b) (simp_all add: same_indexes_apply)

lemma replay_scope:
  "(\<forall>ch\<in>set cs. ch_scope ch = sc) \<Longrightarrow> fold replay_step cs e = fold (apply_mutation sc) (map ch_mutation cs) e"
  by (induction cs arbitrary: e) (simp_all add: replay_step_def)

lemma replay_log_append: "(\<forall>ch\<in>set cs. ch_scope ch = sc) \<Longrightarrow> replay_log (log @ cs) = fold (apply_mutation sc) (map ch_mutation cs) (replay_log log)"
  by (simp add: replay_log_def replay_scope)

lemma queue_log_append: "queue_log (log @ cs) = fold (\<lambda>w. bt_insert (pw_source_cursor w) w) (List.map_filter work_of_change cs) (queue_log log)"
  by (simp add: queue_log_def map_filter_def)

text \<open>What the replay of a log keeps for records and relations.\<close>

definition index_wf :: "memory_engine \<Rightarrow> bool" where
  "index_wf e \<longleftrightarrow> bt_wf (me_records e) \<and> bt_wf (me_relations e) \<and> bt_wf (me_schemas e)
     \<and> (\<forall>((sc, r), v)\<in>set (me_records e). rc_reference v = r \<and> validate_window (rc_valid_from v) (rc_valid_to v) = Ok ())
     \<and> (\<forall>((sc, r), v)\<in>set (me_relations e). rl_reference v = r \<and> validate_window (rl_valid_from v) (rl_valid_to v) = Ok ())"

lemma bt_insert_mem: "(a, x) \<in> set (bt_insert k v m) \<Longrightarrow> a = k \<and> x = v \<or> (a, x) \<in> set m"
  by (induction m) (auto split: if_splits)

lemma index_wf_apply: "index_wf e \<Longrightarrow> mutation_window_ok m \<Longrightarrow> index_wf (apply_mutation sc m e)"
  unfolding index_wf_def
  by (cases m) (auto simp: apply_mutation_def bt_wf_insert dest!: bt_insert_mem)

lemma index_wf_fold: "index_wf e \<Longrightarrow> list_all mutation_window_ok ms \<Longrightarrow> index_wf (fold (apply_mutation sc) ms e)"
  by (induction ms arbitrary: e) (simp_all add: index_wf_apply)

lemma relations_length: "length (me_relations (fold (apply_mutation sc) ms e)) \<le> length (me_relations e) + length ms"
proof (induction ms arbitrary: e)
  case (Cons m ms)
  have "length (me_relations (apply_mutation sc m e)) \<le> Suc (length (me_relations e))"
    by (cases m) (simp_all add: apply_mutation_def bt_insert_length)
  with Cons [of "apply_mutation sc m e"] show ?case by simp
qed simp

lemma records_scope:
  assumes "bt_wf (me_records e)"
  shows "scope_map scope (me_records (fold (apply_mutation sc) ms e)) =
    (if sc = scope then fold overlay_record ms (scope_map scope (me_records e)) else scope_map scope (me_records e))"
  using assms
proof (induction ms arbitrary: e)
  case (Cons m ms)
  have "bt_wf (me_records (apply_mutation sc m e))"
    using Cons.prems by (cases m) (simp_all add: apply_mutation_def bt_wf_insert)
  moreover have "scope_map scope (me_records (apply_mutation sc m e)) =
      (if sc = scope then overlay_record m (scope_map scope (me_records e)) else scope_map scope (me_records e))"
    using Cons.prems by (cases m) (simp_all add: apply_mutation_def overlay_record_def scope_map_insert)
  ultimately show ?case using Cons.IH [of "apply_mutation sc m e"] by (cases "sc = scope") simp_all
qed simp

lemma relations_scope:
  assumes "bt_wf (me_relations e)"
  shows "scope_map scope (me_relations (fold (apply_mutation sc) ms e)) =
    (if sc = scope then fold overlay_relation ms (scope_map scope (me_relations e)) else scope_map scope (me_relations e))"
  using assms
proof (induction ms arbitrary: e)
  case (Cons m ms)
  have "bt_wf (me_relations (apply_mutation sc m e))"
    using Cons.prems by (cases m) (simp_all add: apply_mutation_def bt_wf_insert)
  moreover have "scope_map scope (me_relations (apply_mutation sc m e)) =
      (if sc = scope then overlay_relation m (scope_map scope (me_relations e)) else scope_map scope (me_relations e))"
    using Cons.prems by (cases m) (simp_all add: apply_mutation_def overlay_relation_def scope_map_insert)
  ultimately show ?case using Cons.IH [of "apply_mutation sc m e"] by (cases "sc = scope") simp_all
qed simp

lemma index_wf_scope:
  assumes "index_wf e"
  shows "collect_map rc_reference (in_scope scope (me_records e)) = scope_map scope (me_records e)"
    and "collect_map rl_reference (in_scope scope (me_relations e)) = scope_map scope (me_relations e)"
    and "record_windows_ok (in_scope scope (me_records e))" and "windows_ok (in_scope scope (me_relations e))"
proof -
  have k: "keyed rc_reference (scope_map scope (me_records e))" "keyed rl_reference (scope_map scope (me_relations e))"
    using assms by (auto simp: keyed_def index_wf_def scope_map_mem)
  show "collect_map rc_reference (in_scope scope (me_records e)) = scope_map scope (me_records e)"
    "collect_map rl_reference (in_scope scope (me_relations e)) = scope_map scope (me_relations e)"
    unfolding in_scope_map using assms k by (simp_all add: collect_map_entries bt_wf_scope_map index_wf_def)
  show "record_windows_ok (in_scope scope (me_records e))" "windows_ok (in_scope scope (me_relations e))"
    using assms by (auto simp: record_windows_ok_def windows_ok_def in_scope_map index_wf_def scope_map_mem)
qed

lemma schema_after:
  "bt_get (me_schemas (fold (apply_mutation sc) ms e)) scope =
    (if sc = scope then (case rev (List.map_filter schema_of ms) of [] \<Rightarrow> bt_get (me_schemas e) scope | g # _ \<Rightarrow> Some g)
     else bt_get (me_schemas e) scope)"
proof (induction ms arbitrary: e)
  case (Cons m ms)
  have "bt_get (me_schemas (apply_mutation sc m e)) scope =
      (case schema_of m of Some g \<Rightarrow> if sc = scope then Some g else bt_get (me_schemas e) scope | None \<Rightarrow> bt_get (me_schemas e) scope)"
    by (cases m) (simp_all add: apply_mutation_def schema_of_def bt_get_insert)
  with Cons [of "apply_mutation sc m e"] show ?case
    by (cases "sc = scope"; cases "schema_of m"; cases "rev (List.map_filter schema_of ms)") (simp_all add: List.map_filter_simps)
qed (simp add: List.map_filter_simps)

lemma record_kept:
  "bt_get (me_records e) k \<noteq> None \<Longrightarrow> bt_get (me_records (fold (apply_mutation sc) ms e)) k \<noteq> None"
proof (induction ms arbitrary: e)
  case (Cons m ms)
  have "bt_get (me_records (apply_mutation sc m e)) k \<noteq> None"
    using Cons.prems by (cases m) (auto simp: apply_mutation_def bt_get_insert)
  with Cons.IH show ?case by simp
qed simp

lemma new_records_mem: "r \<in> new_records ms \<longleftrightarrow> (\<exists>q. MRecord q \<in> set ms \<and> rc_reference q = r)"
proof -
  have "record_of m = Some q \<longleftrightarrow> m = MRecord q" for m q by (cases m) (auto simp: record_of_def)
  then show ?thesis by (auto simp: new_records_def set_map_filter)
qed

lemma record_added:
  "r \<in> new_records ms \<Longrightarrow> bt_get (me_records (fold (apply_mutation sc) ms e)) (sc, r) \<noteq> None"
proof (induction ms arbitrary: e)
  case (Cons m ms)
  show ?case
  proof (cases "r \<in> new_records ms")
    case False
    then obtain q where "m = MRecord q" "rc_reference q = r"
      using Cons.prems by (auto simp: new_records_mem)
    then have "bt_get (me_records (apply_mutation sc m e)) (sc, r) \<noteq> None" by (simp add: apply_mutation_def bt_get_insert)
    then show ?thesis by (simp add: record_kept)
  qed (use Cons.IH in simp)
qed (simp add: new_records_mem)

section \<open>The log\<close>

definition log_wf :: "runtime_change list \<Rightarrow> bool" where
  "log_wf cs \<longleftrightarrow> chained change_bytes ch_previous_digest ch_digest None cs
     \<and> (\<forall>i<length cs. ch_cursor (cs ! i) = word_of_nat (Suc i))"

lemma chained_append:
  "chained preimage prev dig p (es @ ds) \<longleftrightarrow>
    chained preimage prev dig p es \<and> chained preimage prev dig (last_digest dig p es) ds"
  by (induction es arbitrary: p) (auto simp: last_digest_Cons)

lemma log_wf_append:
  assumes "log_wf log"
  shows "log_wf (log @ link_changes c (word_of_nat (length log)) 0 (head_digest_of log) ms)"
proof -
  let ?cs = "link_changes c (word_of_nat (length log)) 0 (head_digest_of log) ms"
  have "ch_cursor ((log @ ?cs) ! i) = word_of_nat (Suc i)" if "i < length (log @ ?cs)" for i
  proof (cases "i < length log")
    case True
    with assms show ?thesis by (simp add: log_wf_def nth_append)
  next
    case False
    with that have "ch_cursor (?cs ! (i - length log)) = word_of_nat (length log) + word_of_nat (i - length log) + 1"
      using nth_link_changes [of "i - length log" ms c "word_of_nat (length log)" 0 "head_digest_of log"] by simp
    also have "\<dots> = word_of_nat (Suc i)" using False by (simp flip: of_nat_add)
    finally show ?thesis using False by (simp add: nth_append)
  qed
  then show ?thesis
    using assms chained_link_changes unfolding log_wf_def chained_append head_digest_of_def by blast
qed

lemma log_digest_valid:
  assumes "log_wf log"
  shows "digest_valid (head_digest_of log)"
proof (cases log rule: rev_cases)
  case (snoc cs c)
  with assms show ?thesis by (auto simp: log_wf_def head_digest_of_def chained_snoc digest_valid_def)
qed (simp add: head_digest_of_def digest_valid_def)

lemma logged_revision_append:
  assumes "\<forall>ch\<in>set cs. ch_scope ch = sc"
  shows "logged_revision scope (log @ cs) =
    (if sc = scope then (case rev (List.map_filter schema_of (map ch_mutation cs)) of [] \<Rightarrow> logged_revision scope log | g # _ \<Rightarrow> Some (sg_revision g))
     else logged_revision scope log)"
proof -
  have "filter (\<lambda>c. ch_scope c = scope) cs = (if sc = scope then cs else [])" using assms by (auto simp: filter_empty_conv)
  moreover have "List.map_filter (\<lambda>c. map_option sg_revision (schema_of (ch_mutation c))) cs
      = map sg_revision (List.map_filter schema_of (map ch_mutation cs))"
    by (induction cs) (simp_all add: List.map_filter_simps split: option.split)
  moreover have "List.map_filter f (xs @ ys) = List.map_filter f xs @ List.map_filter f ys" for f :: "runtime_change \<Rightarrow> u64 option" and xs ys
    by (simp add: map_filter_def)
  ultimately show ?thesis
    by (cases "rev (List.map_filter schema_of (map ch_mutation cs))") (simp_all add: logged_revision_def List.map_filter_simps rev_map)
qed

section \<open>The invariant\<close>

definition references_resolve :: "memory_engine \<Rightarrow> bool" where
  "references_resolve e \<longleftrightarrow> (\<forall>ch\<in>set (me_changes e). \<forall>r\<in>set (mutation_references (ch_mutation ch)).
     bt_get (me_records e) (ch_scope ch, r) \<noteq> None)"

definition schemas_hold :: "memory_engine \<Rightarrow> bool" where
  "schemas_hold e \<longleftrightarrow> (\<forall>scope g. bt_get (me_schemas e) scope = Some g \<longrightarrow> registry_validate g = Ok ()
     \<and> (\<forall>t. t \<noteq> u64_max \<longrightarrow> unique_at g (in_scope scope (me_records e)) t)
     \<and> (\<forall>t. limits_at g (in_scope scope (me_relations e)) t))"

definition stamp_retained :: "runtime_change list \<Rightarrow> read_stamp \<Rightarrow> bool" where
  "stamp_retained log read \<longleftrightarrow> read_stamp_validate read = Ok () \<and> unat (st_commit_cursor read) \<le> length log
     \<and> st_catalog_revision read = 0 \<and> st_head_digest read = head_digest_of (take (unat (st_commit_cursor read)) log)
     \<and> st_schema_revision read = logged_revision (st_scope read) (take (unat (st_commit_cursor read)) log)"

definition claims_wf :: "memory_engine \<Rightarrow> bool" where
  "claims_wf e \<longleftrightarrow> memory_wf (me_claims e) \<and> memory_contents (me_claims e) = record_all (me_order e) {}
     \<and> length (me_order e) < 2 ^ 63"

definition runtime_wf :: "memory_engine \<Rightarrow> bool" where
  "runtime_wf e \<longleftrightarrow> length (me_changes e) < 2 ^ 63
     \<and> log_wf (me_changes e) \<and> same_indexes e (replay_log (me_changes e)) \<and> me_outbox e = queue_log (me_changes e)
     \<and> index_wf e \<and> length (me_relations e) \<le> length (me_changes e)
     \<and> (\<forall>scope. map_option sg_revision (bt_get (me_schemas e) scope) = logged_revision scope (me_changes e))
     \<and> references_resolve e \<and> schemas_hold e
     \<and> digest_valid (me_last_audit_digest e) \<and> (\<forall>i a. bt_get (me_audit e) i = Some a \<longrightarrow> audit_validate a = Ok ())"

definition leases_wf :: "runtime_change list \<Rightarrow> (snapshot_id, snapshot_handle) btree \<Rightarrow> bool" where
  "leases_wf log ss \<longleftrightarrow> (\<forall>(i, s)\<in>set ss. sh_id s = i \<and> snapshot_validate s = Ok () \<and> stamp_retained log (sh_read s))"

definition engine_wf :: "memory_engine \<Rightarrow> bool" where
  "engine_wf e \<longleftrightarrow> claims_wf e \<and> runtime_wf e \<and> leases_wf (me_changes e) (me_snapshots e)"

lemmas engine_wf_defs = engine_wf_def claims_wf_def runtime_wf_def leases_wf_def

lemma head_digest_take:
  "unat k \<le> length log \<Longrightarrow> head_digest_of (take (unat k) log) = (if k = 0 then None else Some (ch_digest (log ! (unat k - 1))))"
  for k :: u64
proof (cases "k = 0")
  case False
  assume le: "unat k \<le> length log"
  have "0 < unat k" using False by (simp add: unat_gt_0)
  with le False show ?thesis by (auto simp: head_digest_of_def last_digest_def last_conv_nth min_absorb2)
qed (simp add: head_digest_of_def)

lemma stamp_retained_iff: "memory_validate_read_stamp e read = Ok () \<longleftrightarrow> stamp_retained (me_changes e) read"
  unfolding memory_validate_read_stamp_def stamp_retained_def
  by (auto simp: res_simps Let_def head_digest_take not_less)

lemma stamp_retained_append: "stamp_retained log read \<Longrightarrow> stamp_retained (log @ cs) read"
  by (simp add: stamp_retained_def)

lemma wf_simps:
  assumes "engine_wf e"
  shows "memory_wf (me_claims e)" and "memory_contents (me_claims e) = record_all (me_order e) {}"
    and "length (me_order e) < 2 ^ 63" and "length (me_changes e) < 2 ^ 63" and "log_wf (me_changes e)"
    and "same_indexes e (replay_log (me_changes e))" and "me_outbox e = queue_log (me_changes e)" and "index_wf e"
    and "length (me_relations e) \<le> length (me_changes e)"
    and "map_option sg_revision (bt_get (me_schemas e) scope) = logged_revision scope (me_changes e)"
    and "references_resolve e" and "schemas_hold e" and "digest_valid (me_last_audit_digest e)"
    and "bt_get (me_audit e) i = Some a \<Longrightarrow> audit_validate a = Ok ()"
    and "(k, s) \<in> set (me_snapshots e) \<Longrightarrow> sh_id s = k \<and> snapshot_validate s = Ok () \<and> stamp_retained (me_changes e) (sh_read s)"
  using assms unfolding engine_wf_defs by blast+

text \<open>Each half of the invariant reads its own fields.\<close>

lemma claims_wf_frame:
  "claims_wf (e\<lparr>me_projections := p\<rparr>) = claims_wf e" "claims_wf (e\<lparr>me_observes := n\<rparr>) = claims_wf e"
  "claims_wf (e\<lparr>me_commits := cs\<rparr>) = claims_wf e" "claims_wf (e\<lparr>me_snapshots := ss\<rparr>) = claims_wf e"
  by (simp_all add: claims_wf_def)

lemma runtime_wf_frame:
  "runtime_wf (e\<lparr>me_projections := p\<rparr>) = runtime_wf e" "runtime_wf (e\<lparr>me_observes := n\<rparr>) = runtime_wf e"
  "runtime_wf (e\<lparr>me_commits := cs\<rparr>) = runtime_wf e" "runtime_wf (e\<lparr>me_claims := m, me_order := os\<rparr>) = runtime_wf e"
  "runtime_wf (e\<lparr>me_snapshots := ss\<rparr>) = runtime_wf e"
  by (simp_all add: runtime_wf_def same_indexes_def index_wf_def references_resolve_def schemas_hold_def)

lemmas engine_wf_frame = engine_wf_def claims_wf_frame runtime_wf_frame

lemma engine_wf_new: "engine_wf engine_new"
  by (simp add: engine_wf_defs engine_new_def memory_wf_new log_wf_def same_indexes_def replay_log_def queue_log_def index_wf_def
      logged_revision_def references_resolve_def schemas_hold_def digest_valid_def List.map_filter_simps)

end
