(* ===== verification/Memory_System.thy ===== *)
theory Memory_System
  imports Memory_Invariant
begin

text \<open>
  The reachable states of the reference engine, and what holds in all of them. A step is one call of the port, with any
  arguments and either outcome; the identifiers in its claims are valid, as their types guarantee, and the claim and
  change logs stay shorter than the largest \<open>Vec\<close>.
\<close>

section \<open>A commit keeps the invariant\<close>

lemma validate_mutations:
  assumes "try_fold validate_mutation ms st = Ok st'"
  shows "list_all mutation_window_ok ms" and "\<forall>g. MSchema g \<in> set ms \<longrightarrow> registry_validate g = Ok ()"
    and "snd st' = snd st + length (List.map_filter schema_of ms)" and "snd st \<le> 1 \<Longrightarrow> snd st' \<le> 1"
proof -
  have one: "mutation_window_ok m \<and> (\<forall>g. m = MSchema g \<longrightarrow> registry_validate g = Ok ())
      \<and> snd t' = snd t + (if schema_of m = None then 0 else 1) \<and> (snd t \<le> 1 \<longrightarrow> snd t' \<le> 1)"
    if "validate_mutation m t = Ok t'" for m t t'
    using that
    by (cases m; cases t) (auto simp: res_simps claim_identity_def schema_of_def split: if_splits)
  have "list_all mutation_window_ok ms \<and> (\<forall>g. MSchema g \<in> set ms \<longrightarrow> registry_validate g = Ok ())
      \<and> snd st' = snd st + length (List.map_filter schema_of ms) \<and> (snd st \<le> 1 \<longrightarrow> snd st' \<le> 1)"
    using assms
  proof (induction ms arbitrary: st)
    case (Cons m ms)
    then obtain t where t: "validate_mutation m st = Ok t" "try_fold validate_mutation ms t = Ok st'" by (auto simp: res_simps)
    from Cons.IH [OF t(2)] one [OF t(1)] show ?case by (auto simp: List.map_filter_simps split: option.splits if_splits)
  qed (simp add: List.map_filter_simps)
  then show "list_all mutation_window_ok ms" "\<forall>g. MSchema g \<in> set ms \<longrightarrow> registry_validate g = Ok ()"
    "snd st' = snd st + length (List.map_filter schema_of ms)" "snd st \<le> 1 \<Longrightarrow> snd st' \<le> 1"
    by blast+
qed

lemma commit_validate_mutations:
  assumes "commit_validate c = Ok ()"
  shows "list_all mutation_window_ok (cm_mutations c)" and "length (List.map_filter schema_of (cm_mutations c)) \<le> 1"
    and "cm_mutations c \<noteq> []"
proof -
  obtain st where st: "try_fold validate_mutation (cm_mutations c) ({}, 0) = Ok st" "cm_mutations c \<noteq> []"
    using assms by (auto simp: commit_validate_def res_simps split: if_splits)
  from validate_mutations [OF st(1)] st(2) show "list_all mutation_window_ok (cm_mutations c)"
    "length (List.map_filter schema_of (cm_mutations c)) \<le> 1" "cm_mutations c \<noteq> []" by simp_all
qed

lemma effective_schema_after:
  assumes "length (List.map_filter schema_of ms) \<le> 1"
    and "effective_schema sc (bt_get (me_schemas e) sc) (find_map schema_of ms) = Ok g"
  shows "bt_get (me_schemas (fold (apply_mutation sc) ms e)) sc = Some g"
  using assms
  by (cases "List.map_filter schema_of ms")
    (auto simp: schema_after find_map_def effective_schema_def split: option.splits if_splits)

lemma check_references_ok:
  "check_references c e = Ok () \<longleftrightarrow> (\<forall>m\<in>set (cm_mutations c). \<forall>r\<in>set (mutation_references m).
     r \<in> new_records (cm_mutations c) \<or> bt_get (me_records e) (cm_scope c, r) \<noteq> None)"
  by (simp add: check_references_def try_fold_unit_all check_reference_def)

lemma committed_indexes: "same_indexes (committed_engine c m a e) (fold (apply_mutation (cm_scope c)) (cm_mutations c) e)"
proof -
  have "same_indexes (e\<lparr>me_claims := m, me_order := os\<rparr>) e" for os by (simp add: same_indexes_def)
  from same_indexes_fold [OF this] show ?thesis by (simp add: committed_engine_def Let_def same_indexes_def)
qed

lemma record_all_append: "record_all (as @ bs) S = record_all bs (record_all as S)"
  by (induction as arbitrary: S) simp_all

definition commit_idents :: "runtime_commit \<Rightarrow> bool" where
  "commit_idents c \<longleftrightarrow> list_all claim_idents (List.map_filter claim_of (cm_mutations c))"

lemma schemas_hold_commit:
  assumes wf: "engine_wf e" and ok: "check_commit c e = Ok ()"
    and room: "length (me_changes e) + length (cm_mutations c) < 2 ^ 63"
    and same: "same_indexes e' (fold (apply_mutation (cm_scope c)) (cm_mutations c) e)"
  shows "schemas_hold e'"
  unfolding schemas_hold_def
proof (intro allI impI)
  let ?sc = "cm_scope c" and ?ms = "cm_mutations c"
  let ?e = "fold (apply_mutation ?sc) ?ms e"
  fix scope g assume get: "bt_get (me_schemas e') scope = Some g"
  have idx: "me_records e' = me_records ?e" "me_relations e' = me_relations ?e" "me_schemas e' = me_schemas ?e"
    using same by (simp_all add: same_indexes_def)
  have iw: "index_wf e" "bt_wf (me_records e)" "bt_wf (me_relations e)" using wf_simps(8) [OF wf] by (simp_all add: index_wf_def)
  show "registry_validate g = Ok () \<and> (\<forall>t. t \<noteq> u64_max \<longrightarrow> unique_at g (in_scope scope (me_records e')) t)
      \<and> (\<forall>t. limits_at g (in_scope scope (me_relations e')) t)"
  proof (cases "scope = ?sc")
    case True
    obtain h where h: "commit_validate c = Ok ()" "effective_schema ?sc (bt_get (me_schemas e) ?sc) (find_map schema_of ?ms) = Ok h"
      "validate_objects h ?ms (in_scope ?sc (me_records e)) (in_scope ?sc (me_relations e)) = Ok ()"
      using ok by (auto simp: check_commit_def res_simps Let_def)
    note cv = commit_validate_mutations [OF h(1)]
    have "g = h" using effective_schema_after [OF cv(2) h(2)] get True idx by simp
    have recs: "in_scope ?sc (me_records e') = after_records ?ms (in_scope ?sc (me_records e))"
      and rels: "in_scope ?sc (me_relations e') = after_relations ?ms (in_scope ?sc (me_relations e))"
      using iw by (simp_all add: after_records_def after_relations_def idx index_wf_scope in_scope_map [of _ "me_records ?e"]
          in_scope_map [of _ "me_relations ?e"] records_scope relations_scope)
    have "length (in_scope ?sc (me_relations e)) \<le> length (me_changes e)"
      using length_scope_map [of ?sc "me_relations e"] wf_simps(9) [OF wf] by (simp add: in_scope_map)
    then have "length ?ms + length (in_scope ?sc (me_relations e)) < 2 ^ 63" using room by linarith
    note holds = validate_objects_holds [OF h(3) cv(1) index_wf_scope(3,4) [OF iw(1)] this]
    have "registry_validate h = Ok ()" using h(3) by (simp add: validate_objects_def res_simps)
    with holds show ?thesis unfolding \<open>g = h\<close> True recs rels by blast
  next
    case False
    then have "bt_get (me_schemas e) scope = Some g" using get by (simp add: idx schema_after)
    moreover have "in_scope scope (me_records e') = in_scope scope (me_records e)"
      "in_scope scope (me_relations e') = in_scope scope (me_relations e)"
      using False iw by (simp_all add: idx in_scope_map records_scope relations_scope)
    ultimately show ?thesis using wf_simps(12) [OF wf] by (simp add: schemas_hold_def)
  qed
qed

lemma commit_keeps_wf:
  assumes wf: "engine_wf e" and ok: "check_commit c e = Ok ()" and idents: "commit_idents c"
    and room: "length (me_changes e) + length (cm_mutations c) < 2 ^ 63"
      "length (me_order e) + length (List.map_filter claim_of (cm_mutations c)) < 2 ^ 63"
    and m: "try_fold memory_insert (List.map_filter claim_of (cm_mutations c)) (me_claims e) = Ok m"
    and a: "audit_validate a = Ok ()" "digest_valid (Some (au_digest a))"
  shows "engine_wf (committed_engine c m a e)"
proof -
  let ?sc = "cm_scope c" and ?ms = "cm_mutations c" and ?e = "committed_engine c m a e"
  let ?f = "fold (apply_mutation ?sc) ?ms e"
  let ?cs = "link_changes c (word_of_nat (length (me_changes e))) 0 (head_digest_of (me_changes e)) ?ms"
  note same = committed_indexes [of c m a e]
  have idx: "me_records ?e = me_records ?f" "me_relations ?e = me_relations ?f" "me_schemas ?e = me_schemas ?f"
    using same by (simp_all add: same_indexes_def)
  have scopes: "\<forall>ch\<in>set ?cs. ch_scope ch = ?sc" using link_changes_scope by blast
  have cv: "commit_validate c = Ok ()" and refs: "check_references c e = Ok ()"
    using ok by (auto simp: check_commit_def res_simps Let_def)
  have claims: "memory_wf m" "memory_contents m = record_all (me_order e @ List.map_filter claim_of ?ms) {}"
    using memory_insert_all [OF m wf_simps(1) [OF wf]] idents wf_simps(2) [OF wf] by (simp_all add: commit_idents_def record_all_append)
  have replay: "same_indexes ?e (replay_log (me_changes ?e))"
    using same_indexes_fold [OF wf_simps(6) [OF wf], of ?sc ?ms] same
    by (simp add: replay_log_append [OF scopes] map_link_changes) (simp add: same_indexes_def)
  have index: "index_wf ?e"
    using index_wf_fold [OF wf_simps(8) [OF wf] commit_validate_mutations(1) [OF cv], of ?sc] by (simp add: index_wf_def idx)
  have rels: "length (me_relations ?e) \<le> length (me_changes ?e)"
    using relations_length [of ?sc ?ms e] wf_simps(9) [OF wf] by (simp add: idx)
  have revs: "map_option sg_revision (bt_get (me_schemas ?e) scope) = logged_revision scope (me_changes ?e)" for scope
    using wf_simps(10) [OF wf, of scope]
    by (cases "rev (List.map_filter schema_of ?ms)") (simp_all add: idx schema_after logged_revision_append [OF scopes] map_link_changes)
  have res: "references_resolve ?e"
  proof -
    have new: "bt_get (me_records ?f) (?sc, r) \<noteq> None" if "x \<in> set ?ms" "r \<in> set (mutation_references x)" for x r
      using refs that record_added record_kept unfolding check_references_ok by metis
    have cs: "ch_mutation ch \<in> set ?ms" if "ch \<in> set ?cs" for ch
      using that map_link_changes [of c _ 0 _ ?ms] by (metis image_eqI list.set_map)
    show ?thesis unfolding references_resolve_def
    proof (intro ballI)
      fix ch r assume ch: "ch \<in> set (me_changes ?e)" and r: "r \<in> set (mutation_references (ch_mutation ch))"
      from ch consider "ch \<in> set (me_changes e)" | "ch \<in> set ?cs" by auto
      then show "bt_get (me_records ?e) (ch_scope ch, r) \<noteq> None"
      proof cases
        case 1
        then have "bt_get (me_records e) (ch_scope ch, r) \<noteq> None" using wf_simps(11) [OF wf] r unfolding references_resolve_def by blast
        from record_kept [OF this] show ?thesis unfolding idx .
      next
        case 2
        with new [OF cs [OF 2] r] scopes show ?thesis by (simp add: idx)
      qed
    qed
  qed
  have audit: "bt_get (me_audit ?e) i = Some b \<Longrightarrow> audit_validate b = Ok ()" for i b
    using wf_simps(14) [OF wf] a(1) by (auto simp: bt_get_insert split: if_splits)
  have snaps: "\<forall>(i, s)\<in>set (me_snapshots ?e). sh_id s = i \<and> snapshot_validate s = Ok () \<and> stamp_retained (me_changes ?e) (sh_read s)"
    using wf_simps(15) [OF wf] by (auto intro: stamp_retained_append)
  show ?thesis
    unfolding engine_wf_defs
    using claims room replay index rels revs res audit snaps a(2) schemas_hold_commit [OF wf ok room(1) same]
      log_wf_append [OF wf_simps(5) [OF wf]] wf_simps(7) [OF wf]
    by (simp add: queue_log_append)
qed

section \<open>Stamps and leases\<close>

lemma read_stamp_new_fields:
  assumes "read_stamp_new sc revision catalog cur head = Ok s"
  shows "st_scope s = sc" and "st_schema_revision s = revision" and "st_catalog_revision s = catalog" and "st_commit_cursor s = cur"
    and "st_head_digest s = head" and "read_stamp_validate s = Ok ()"
proof -
  show f: "st_scope s = sc" "st_schema_revision s = revision" "st_catalog_revision s = catalog" "st_commit_cursor s = cur" "st_head_digest s = head"
    using assms by (auto simp: read_stamp_new_def Let_def res_simps)
  show "read_stamp_validate s = Ok ()" unfolding read_stamp_canonical f by (rule assms)
qed

lemma read_stamp_retained:
  assumes wf: "engine_wf e" and stamp: "memory_read_stamp e scope = Ok s"
  shows "stamp_retained (me_changes e) s" and "st_scope s = scope" and "unat (st_commit_cursor s) = length (me_changes e)"
proof -
  have new: "read_stamp_new scope (map_option sg_revision (bt_get (me_schemas e) scope)) 0 (word_of_nat (length (me_changes e)))
      (head_digest_of (me_changes e)) = Ok s"
    using stamp by (auto simp: memory_read_stamp_def res_simps)
  note f = read_stamp_new_fields [OF new]
  show n: "unat (st_commit_cursor s) = length (me_changes e)" using wf_simps(4) [OF wf] by (simp add: f)
  show "st_scope s = scope" by (rule f)
  show "stamp_retained (me_changes e) s" unfolding stamp_retained_def n using f wf_simps(10) [OF wf, of scope] by simp
qed

lemma read_stamp_total:
  assumes wf: "engine_wf e"
  shows "\<exists>s. memory_read_stamp e scope = Ok s"
proof -
  have rev: "map_option sg_revision (bt_get (me_schemas e) scope) \<noteq> Some 0"
  proof
    assume "map_option sg_revision (bt_get (me_schemas e) scope) = Some 0"
    then obtain g where g: "bt_get (me_schemas e) scope = Some g" "sg_revision g = 0" by auto
    then have "registry_validate g = Ok ()" using wf_simps(12) [OF wf] by (simp add: schemas_hold_def)
    with g(2) show False by (simp add: registry_validate_def)
  qed
  have n: "unat (word_of_nat (length (me_changes e)) :: u64) = length (me_changes e)" using wf_simps(4) [OF wf] by simp
  have zero: "(word_of_nat (length (me_changes e)) :: u64) = 0 \<longleftrightarrow> me_changes e = []"
    unfolding unat_eq_0 [symmetric] n by simp
  show ?thesis
  proof (cases "me_changes e = []")
    case True
    then show ?thesis using rev
      by (simp add: memory_read_stamp_def read_stamp_new_def Let_def stamp_components_def head_digest_of_def)
  next
    case False
    then have head: "head_digest_of (me_changes e) = Some (ch_digest (last (me_changes e)))"
      by (simp add: head_digest_of_def last_digest_def)
    then obtain b where "ch_digest (last (me_changes e)) = sha256_hex b"
      using log_digest_valid [OF wf_simps(5) [OF wf]] by (auto simp: digest_valid_def)
    with False rev head zero show ?thesis
      by (simp add: memory_read_stamp_def read_stamp_new_def Let_def stamp_components_def)
  qed
qed

lemma opened_snapshot:
  assumes wf: "engine_wf e" and run: "open_runtime_snapshot scope owner now ttl e = (Ok h, e')"
  shows "e' = e\<lparr>me_snapshots := bt_insert (sh_id h) h (me_snapshots e)\<rparr>" and "snapshot_validate h = Ok ()"
    and "stamp_retained (me_changes e) (sh_read h)" and "st_scope (sh_read h) = scope"
    and "unat (st_commit_cursor (sh_read h)) = length (me_changes e)"
proof -
  obtain s where s: "memory_read_stamp e scope = Ok s" "snapshot_new s owner now ttl = Ok h"
    and e': "e' = e\<lparr>me_snapshots := bt_insert (sh_id h) h (me_snapshots e)\<rparr>"
    using run by (auto simp: open_runtime_snapshot_def run_simps rbind_def map_err_def split: sum.splits)
  have h: "sh_read h = s" "sh_owner h = owner" "sh_created_at h = now"
    using s(2) by (auto simp: snapshot_new_def res_simps split: if_splits)
  show "e' = e\<lparr>me_snapshots := bt_insert (sh_id h) h (me_snapshots e)\<rparr>" by (rule e')
  show "snapshot_validate h = Ok ()" unfolding snapshot_canonical h using s(2) by blast
  show "stamp_retained (me_changes e) (sh_read h)" "st_scope (sh_read h) = scope"
    "unat (st_commit_cursor (sh_read h)) = length (me_changes e)"
    unfolding h(1) using read_stamp_retained [OF wf s(1)] by blast+
qed

section \<open>Reachable engines\<close>

inductive engine_step :: "memory_engine \<Rightarrow> memory_engine \<Rightarrow> bool" where
  append: "engine_append_batch cs e = (r, e') \<Longrightarrow> list_all claim_idents cs \<Longrightarrow> length (me_order e) + length cs < 2 ^ 63 \<Longrightarrow>
    engine_step e e'"
| observe: "engine_observe reader s p at e = (u, e') \<Longrightarrow> engine_step e e'"
| put: "engine_put_projection_with name bs d e = (u, e') \<Longrightarrow> engine_step e e'"
| open_lease: "open_runtime_snapshot scope owner now ttl e = (h, e') \<Longrightarrow> engine_step e e'"
| release: "release_runtime_snapshot i e = (b, e') \<Longrightarrow> engine_step e e'"
| commit: "engine_commit_runtime c e = (out, e') \<Longrightarrow> commit_idents c \<Longrightarrow>
    length (me_changes e) + length (cm_mutations c) < 2 ^ 63 \<Longrightarrow>
    length (me_order e) + length (List.map_filter claim_of (cm_mutations c)) < 2 ^ 63 \<Longrightarrow> engine_step e e'"

inductive engine_steps :: "memory_engine \<Rightarrow> memory_engine \<Rightarrow> bool" where
  start: "engine_steps e e"
| more: "engine_steps e e1 \<Longrightarrow> engine_step e1 e2 \<Longrightarrow> engine_steps e e2"

definition engine_reachable :: "memory_engine \<Rightarrow> bool" where
  "engine_reachable e \<longleftrightarrow> engine_steps engine_new e"

inductive_cases engine_stepE: "engine_step e e'"

lemma append_keeps:
  assumes wf: "engine_wf e" and run: "engine_append_batch cs e = (r, e')"
    and cs: "list_all claim_idents cs" "length (me_order e) + length cs < 2 ^ 63"
  shows "engine_wf e' \<and> (\<exists>ds. me_order e' = me_order e @ ds) \<and> me_changes e' = me_changes e"
proof (cases "validate_claims cs")
  case (Inl x)
  with append_batch_result [of cs e] run wf show ?thesis by simp
next
  case (Inr u)
  with append_batch_result [of cs e] run obtain m where m: "try_fold memory_insert cs (me_claims e) = Ok m"
    and e': "e' = e\<lparr>me_claims := m, me_order := me_order e @ cs\<rparr>" by auto
  from memory_insert_all [OF m wf_simps(1) [OF wf] cs(1)] wf cs(2) show ?thesis unfolding e'
    by (simp add: engine_wf_frame) (simp add: claims_wf_def record_all_append)
qed

lemma commit_keeps:
  assumes wf: "engine_wf e" and run: "engine_commit_runtime c e = (out, e')" and idents: "commit_idents c"
    and room: "length (me_changes e) + length (cm_mutations c) < 2 ^ 63"
      "length (me_order e) + length (List.map_filter claim_of (cm_mutations c)) < 2 ^ 63"
  shows "engine_wf e' \<and> (\<exists>ds. me_order e' = me_order e @ ds) \<and> (\<exists>cs. me_changes e' = me_changes e @ cs)"
proof (cases "check_commit c e")
  case (Inl x)
  with commit_rejected run wf show ?thesis by (metis append_Nil2 prod.inject)
next
  case (Inr u)
  then have ok: "check_commit c e = Ok ()" by simp
  have "length (me_changes e) + length (cm_mutations c) < 2 ^ 64" using room(1) by simp
  from commit_result [OF wf_simps(13) [OF wf] this ok] run obtain m a
    where m: "try_fold memory_insert (List.map_filter claim_of (cm_mutations c)) (me_claims e) = Ok m"
      and a: "audit_validate a = Ok ()" "digest_valid (Some (au_digest a))"
      and e': "e' = (committed_engine c m a e)\<lparr>me_commits := bt_insert (commit_digest c) (commit_outcome c e) (me_commits e)\<rparr>"
    by auto
  from commit_keeps_wf [OF wf ok idents room m a] show ?thesis unfolding e' by (simp add: engine_wf_frame)
qed

lemma snapshots_keep: "engine_wf e \<Longrightarrow> leases_wf (me_changes e) ss \<Longrightarrow> engine_wf (e\<lparr>me_snapshots := ss\<rparr>)"
  by (simp add: engine_wf_frame)

lemma step_keeps:
  assumes wf: "engine_wf e" and step: "engine_step e e'"
  shows "engine_wf e' \<and> (\<exists>ds. me_order e' = me_order e @ ds) \<and> (\<exists>cs. me_changes e' = me_changes e @ cs)"
  using step
proof cases
  case (append cs r)
  from append_keeps [OF wf append(1-3)] show ?thesis by auto
next
  case (observe reader s p at u)
  then show ?thesis using wf by (auto simp: engine_observe_def run_simps engine_wf_frame split: sum.splits)
next
  case (put name bs d u)
  then show ?thesis using wf by (auto simp: engine_put_projection_with_def run_simps engine_wf_frame)
next
  case (open_lease scope owner now ttl h)
  show ?thesis
  proof (cases h)
    case (Inl x)
    with open_lease wf show ?thesis by (auto simp: open_runtime_snapshot_def run_simps split: sum.splits)
  next
    case (Inr s)
    note o = opened_snapshot [OF wf open_lease [unfolded Inr]]
    have "engine_wf e'" unfolding o(1)
      by (rule snapshots_keep [OF wf]) (use o(2,3) wf_simps(15) [OF wf] in \<open>auto simp: leases_wf_def dest!: bt_insert_mem\<close>)
    then show ?thesis by (simp add: o(1))
  qed
next
  case (release i b)
  then have e': "e' = e\<lparr>me_snapshots := bt_remove i (me_snapshots e)\<rparr>" by (auto simp: release_runtime_snapshot_def run_simps)
  have "engine_wf e'" unfolding e'
    by (rule snapshots_keep [OF wf]) (use wf_simps(15) [OF wf] in \<open>auto simp: bt_remove_def leases_wf_def\<close>)
  then show ?thesis by (simp add: e')
next
  case (commit c out)
  from commit_keeps [OF wf commit(1-4)] show ?thesis .
qed

lemma steps_keep:
  assumes "engine_steps e e'" and "engine_wf e"
  shows "engine_wf e' \<and> (\<exists>ds. me_order e' = me_order e @ ds) \<and> (\<exists>cs. me_changes e' = me_changes e @ cs)"
  using assms
proof (induction rule: engine_steps.induct)
  case (more e e1 e2)
  from more.IH [OF more.prems] step_keeps [OF _ more.hyps(2)] show ?case by (metis append.assoc)
qed auto

lemma reachable_wf: "engine_reachable e \<Longrightarrow> engine_wf e"
  unfolding engine_reachable_def using steps_keep engine_wf_new by blast

end
