(* ===== verification/Memory_Examples.thy ===== *)
theory Memory_Examples
  imports Memory_System Manifest
begin

text \<open>
  Concrete data the witnesses of the engine's properties run on: an encoder of stored projections that obeys the laws
  assumed of \<open>serde_json\<close>, a schema, and a commit that installs it together with two records, a limited relation and an
  embedded claim.
\<close>

section \<open>An encoder of projections\<close>

definition option_field :: "('a \<Rightarrow> bytes) \<Rightarrow> 'a option \<Rightarrow> bytes" where
  "option_field f v = (case v of None \<Rightarrow> [] | Some x \<Rightarrow> 1 # f x)"

definition field_option :: "(bytes \<Rightarrow> 'a) \<Rightarrow> bytes \<Rightarrow> 'a option" where
  "field_option f bs = (case bs of [] \<Rightarrow> None | _ # r \<Rightarrow> Some (f r))"

lemma field_option_of [simp]: "(\<And>x. g (f x) = x) \<Longrightarrow> field_option g (option_field f v) = v"
  by (cases v) (simp_all add: field_option_def option_field_def)

definition tier_of :: "u8 \<Rightarrow> tier" where
  "tier_of b = (if b = 0 then Local else if b = 1 then Primary else Tenant)"

definition promotion_of :: "u8 \<Rightarrow> promotion_state" where
  "promotion_of b = (if b = 0 then Unpromoted else if b = 1 then Pending else if b = 2 then Promoted else Denied)"

lemma state_bytes [simp]: "tier_of (tier_byte t) = t" "promotion_of (promotion_byte p) = p"
  by (cases t; simp add: tier_of_def) (cases p; simp add: promotion_of_def)

definition claim_fields :: "claim \<Rightarrow> bytes list" where
  "claim_fields c = [subject c, predicate c, object c, u64_to_be_bytes (valid_from c), option_field u64_to_be_bytes (valid_to c),
     u64_to_be_bytes (tx_time c), actor (claim_producer c), option_field id (on_behalf_of (claim_producer c)),
     option_field id (session (claim_producer c)), option_field u32_to_be_bytes (confidence c), option_field id (supersedes c),
     option_field id (signature c), [tier_byte (claim_tier c)], [promotion_byte (claim_promotion_state c)]]"

fun claims_of_fields :: "bytes list \<Rightarrow> claim list" where
  "claims_of_fields (s # p # ob # vf # vt # tx # ac # ob' # ss # cf # su # sg # ti # pr # fs) =
     \<lparr>subject = s, predicate = p, object = ob, valid_from = u64_from_be_bytes vf, valid_to = field_option u64_from_be_bytes vt,
      tx_time = u64_from_be_bytes tx,
      claim_producer = \<lparr>actor = ac, on_behalf_of = field_option id ob', session = field_option id ss\<rparr>,
      confidence = field_option u32_from_be_bytes cf, supersedes = field_option id su, signature = field_option id sg,
      claim_tier = tier_of (hd ti), claim_promotion_state = promotion_of (hd pr)\<rparr> # claims_of_fields fs"
| "claims_of_fields _ = []"

lemma claims_of_fields_of: "claims_of_fields (concat (map claim_fields cs)) = cs"
  by (induction cs) (simp_all add: claim_fields_def from_to_be_bytes)

lemma char_byte [simp]: "char_of (unat (word_of_nat (of_char c) :: u8)) = c"
proof -
  have "(of_char c :: nat) mod 256 = of_char c" by (simp add: nat_of_char_less_256)
  then show ?thesis by (simp add: unat_of_nat)
qed

definition line_field :: "difference_line \<Rightarrow> bytes" where
  "line_field l = enc_strings (map (\<lambda>c. word_of_nat (of_char c)) (fst l) # snd l)"

definition field_line :: "bytes \<Rightarrow> difference_line" where
  "field_line bs = (case dec_strings [] bs of Some (t # args) \<Rightarrow> (map (\<lambda>b. char_of (unat b)) t, args) | _ \<Rightarrow> ([], []))"

lemma field_line_of [simp]: "field_line (line_field l) = l"
  by (cases l) (simp add: field_line_def line_field_def dec_enc_strings comp_def)

definition status_field :: "projection_status \<Rightarrow> bytes" where
  "status_field s = (case s of ProjectionActive \<Rightarrow> [] | ProjectionQuarantined at ls \<Rightarrow> enc_strings (u64_to_be_bytes at # map line_field ls))"

definition field_status :: "bytes \<Rightarrow> projection_status" where
  "field_status bs = (case dec_strings [] bs of
     Some (t # ls) \<Rightarrow> ProjectionQuarantined (u64_from_be_bytes t) (map field_line ls) | _ \<Rightarrow> ProjectionActive)"

lemma field_status_of [simp]: "field_status (status_field s) = s"
  by (cases s) (simp_all add: field_status_def status_field_def dec_enc_strings comp_def)

definition grounded_field :: "grounded_stamp \<Rightarrow> bytes" where
  "grounded_field g = enc_strings [u64_to_be_bytes (gr_at g), u64_to_be_bytes (gr_sequence g), u64_to_be_bytes (gr_digest g)]"

definition field_grounded :: "bytes \<Rightarrow> grounded_stamp" where
  "field_grounded bs = (case dec_strings [] bs of
     Some [a, s, d] \<Rightarrow> \<lparr>gr_at = u64_from_be_bytes a, gr_sequence = u64_from_be_bytes s, gr_digest = u64_from_be_bytes d\<rparr>
   | _ \<Rightarrow> \<lparr>gr_at = 0, gr_sequence = 0, gr_digest = 0\<rparr>)"

lemma field_grounded_of [simp]: "field_grounded (grounded_field g) = g"
  by (simp add: field_grounded_def grounded_field_def dec_enc_strings)

definition example_projection_json :: projection_json where
  "example_projection_json = \<lparr>
     pj_encode = (\<lambda>s. enc_strings (u64_to_be_bytes (sp_watermark s) # status_field (sp_status s)
        # option_field grounded_field (sp_last_grounded s) # concat (map claim_fields (sp_entries s)))),
     pj_decode = (\<lambda>bs. case dec_strings [] bs of
        Some (w # st # g # fs) \<Rightarrow> Some \<lparr>sp_watermark = u64_from_be_bytes w, sp_status = field_status st,
          sp_last_grounded = field_option field_grounded g, sp_entries = claims_of_fields fs\<rparr>
      | _ \<Rightarrow> None),
     pj_encode_entries = (\<lambda>cs. enc_strings (concat (map claim_fields cs)))\<rparr>"

lemma example_projection_json_laws: "projection_json_laws example_projection_json"
  by (simp add: projection_json_laws_def example_projection_json_def dec_enc_strings claims_of_fields_of)

section \<open>A commit\<close>

definition example_registry :: schema_registry where
  "example_registry = \<lparr>sg_revision = 1, sg_migration = [105],
     sg_records = [([100], \<lparr>cs_properties = [([110], required_property TString)], cs_allow_additional = False, cs_unique = [[110]]\<rparr>)],
     sg_relations = [([108], \<lparr>ls_from = [[100]], ls_to = [[100]], ls_properties = [], ls_allow_additional = False,
       ls_unique_pair = True, ls_max_outgoing = Some 1, ls_max_incoming = None\<rparr>)],
     sg_events = []\<rparr>"

definition example_document :: "u8 \<Rightarrow> runtime_record" where
  "example_document i = \<lparr>rc_reference = Ref [100] [i], rc_valid_from = 10, rc_valid_to = None, rc_properties = [([110], VString [i])]\<rparr>"

definition example_link :: runtime_relation where
  "example_link = \<lparr>rl_reference = Ref [108] [49], rl_from = Ref [100] [65], rl_to = Ref [100] [66], rl_valid_from = 10,
     rl_valid_to = Some 20, rl_properties = []\<rparr>"

definition example_commit :: runtime_commit where
  "example_commit = \<lparr>cm_scope = [115], cm_at = 5, cm_actor = [97], cm_expected_cursor = 0,
     cm_mutations = [MSchema example_registry, MRecord (example_document 65), MRecord (example_document 66), MRelation example_link,
       MClaim (example_claim 100 None 1)]\<rparr>"

lemma example_commit_checked: "check_commit example_commit engine_new = Ok ()"
  by code_simp

lemma example_commit_facts:
  "length (cm_mutations example_commit) = 5" "List.map_filter claim_of (cm_mutations example_commit) = [example_claim 100 None 1]"
  "commit_idents example_commit"
  by (simp_all add: example_commit_def commit_idents_def claim_of_def List.map_filter_simps example_claim_idents)

definition example_engine :: memory_engine where
  "example_engine = snd (engine_commit_runtime example_commit engine_new)"

lemma example_engine_run: "engine_commit_runtime example_commit engine_new = (Ok (commit_outcome example_commit engine_new), example_engine)"
  and example_engine_facts: "me_order example_engine = [example_claim 100 None 1]" "length (me_changes example_engine) = 5"
    "me_projections example_engine = []" "me_snapshots example_engine = []"
    "me_changes example_engine = link_changes example_commit 0 0 None (cm_mutations example_commit)"
proof -
  have "digest_valid (me_last_audit_digest engine_new)" "length (me_changes engine_new) + length (cm_mutations example_commit) < 2 ^ 64"
    by (simp_all add: engine_new_def digest_valid_def example_commit_facts)
  from commit_result [OF this example_commit_checked] obtain m a where
    run: "engine_commit_runtime example_commit engine_new = (Ok (commit_outcome example_commit engine_new),
      (committed_engine example_commit m a engine_new)\<lparr>me_commits := bt_insert (commit_digest example_commit)
        (commit_outcome example_commit engine_new) (me_commits engine_new)\<rparr>)" by blast
  then have e: "example_engine = (committed_engine example_commit m a engine_new)\<lparr>me_commits := bt_insert (commit_digest example_commit)
        (commit_outcome example_commit engine_new) (me_commits engine_new)\<rparr>" by (simp add: example_engine_def)
  show "engine_commit_runtime example_commit engine_new = (Ok (commit_outcome example_commit engine_new), example_engine)"
    by (simp only: run e)
  show "me_order example_engine = [example_claim 100 None 1]" "length (me_changes example_engine) = 5" "me_projections example_engine = []"
    "me_snapshots example_engine = []" "me_changes example_engine = link_changes example_commit 0 0 None (cm_mutations example_commit)"
    unfolding e by (simp_all add: example_commit_facts engine_new_def head_digest_of_def)
qed

lemma example_engine_reachable: "engine_reachable example_engine"
  unfolding engine_reachable_def
proof (rule engine_steps.more [OF engine_steps.start])
  show "engine_step engine_new example_engine"
    by (rule engine_step.commit [OF example_engine_run]) (simp_all add: example_commit_facts engine_new_def)
qed

lemma example_changes_sized: "list_all change_sized (me_changes example_engine)"
proof -
  have sized: "\<forall>m\<in>set (cm_mutations example_commit). mutation_sized m"
    by (simp add: example_commit_def example_registry_def example_document_def example_link_def example_claim_def claim_new_def
        claim_sized_def text_sized_def canonical_bytes_def text_field_def optional_text_def optional_field_def schema_sized_def
        record_schema_sized_def relation_schema_sized_def property_schemas_sized_def sized_list_def ref_sized_def
        properties_sized_def required_property_def)
  have "list_all change_sized (link_changes c start n p ms)"
    if "\<forall>m\<in>set ms. mutation_sized m" "pred_option text_sized p" "text_sized (cm_scope c)" "text_sized (cm_actor c)" for c start n p ms
    using that
  proof (induction ms arbitrary: n p)
    case (Cons m ms)
    have "text_sized (sha256_hex bs)" for bs by (simp add: text_sized_def length_sha256_hex)
    with Cons show ?case
      by (simp add: Let_def change_sized_def change_committed_digest commit_digest_def)
  qed simp
  moreover have "text_sized (cm_scope example_commit)" "text_sized (cm_actor example_commit)"
    by (simp_all add: example_commit_def text_sized_def)
  ultimately show ?thesis unfolding example_engine_facts(5) using sized by simp
qed

lemma example_lease: "\<exists>h e1. open_runtime_snapshot [115] [97] 1 10 example_engine = (Ok h, e1) \<and> sh_expires_at h = 11"
proof -
  obtain s where s: "memory_read_stamp example_engine [115] = Ok s"
    using read_stamp_total [OF reachable_wf [OF example_engine_reachable]] by blast
  then have "read_stamp_validate s = Ok ()"
    using read_stamp_retained(1) [OF reachable_wf [OF example_engine_reachable] s] by (simp add: stamp_retained_def)
  moreover have "runtime_validate_text ''snapshot owner'' [97] = Ok ()" by code_simp
  moreover have "checked_add (1 :: u64) 10 = Some 11" by (simp add: checked_add_eq_Some)
  ultimately show ?thesis
    by (simp add: open_runtime_snapshot_def run_simps s snapshot_new_def snapshot_id_new_def snapshot_identity_def)
qed

definition stale_engine :: memory_engine where
  "stale_engine = snd (engine_put_projection_with CURRENT_PROJECTION
     (to_stored_bytes example_projection_json (projection_empty\<lparr>cp_watermark := 1\<rparr>)) ClassBuffered example_engine)"

lemma stale_engine_facts:
  "engine_reachable stale_engine" "me_order stale_engine = [example_claim 100 None 1]"
  "bt_get (me_projections stale_engine) CURRENT_PROJECTION =
     Some (to_stored_bytes example_projection_json (projection_empty\<lparr>cp_watermark := 1\<rparr>))"
proof -
  have run: "engine_put_projection_with CURRENT_PROJECTION (to_stored_bytes example_projection_json (projection_empty\<lparr>cp_watermark := 1\<rparr>))
      ClassBuffered example_engine = (Ok (), stale_engine)"
    by (simp add: stale_engine_def engine_put_projection_with_def run_simps)
  show "engine_reachable stale_engine"
    using example_engine_reachable engine_steps.more engine_step.put [OF run] unfolding engine_reachable_def by blast
  show "me_order stale_engine = [example_claim 100 None 1]"
    "bt_get (me_projections stale_engine) CURRENT_PROJECTION =
     Some (to_stored_bytes example_projection_json (projection_empty\<lparr>cp_watermark := 1\<rparr>))"
    by (simp_all add: stale_engine_def engine_put_projection_with_def run_simps example_engine_facts bt_get_def)
qed

lemma example_json_claim: "json_claim (example_claim 100 None 1)"
  by (simp add: json_claim_def example_claim_def claim_new_def)

end
