(* ===== verification/Memory_Properties.thy ===== *)
theory Memory_Properties
  imports Memory_Examples
begin

text \<open>
  The reference engine implements both contracts of the port, and the properties of its reachable states: atomic
  commits, the invariant of the runtime log and its indexes, snapshot isolation, read stamps that bind the log, previews
  that show what a commit produces, and a current-state projection that agrees with the authoritative claims.
\<close>

section \<open>The engine implements the port\<close>

lemma claims_in_range_subslice: "engine_claims_in_range e a b = Ok (subslice (unat a) (unat b) (me_order e))"
  by (auto simp: engine_claims_in_range_def Let_def subslice_def min_def)

interpretation memory_log: claim_engine memory_port engine_wf me_order "\<lambda>e. bt_get (me_projections e)"
proof (unfold_locales, goal_cases)
  case (1 e)
  then show ?case using wf_simps(3) [OF 1] by simp
next
  case (3 e a b)
  show ?case by (simp add: memory_port_def claims_in_range_subslice)
qed (simp_all add: memory_port_def engine_sequence_def engine_get_projection_def engine_put_projection_with_def run_simps
    engine_wf_frame bt_get_insert)

lemma read_all_page:
  assumes "engine_read_changes e r 0 USIZE_MAX = Ok page" and "length (me_changes e) < 2 ^ 63"
  shows "unat (pg_through_cursor page) \<le> length (me_changes e)
    \<and> pg_changes page = filter (\<lambda>c. ch_scope c = st_scope r) (take (unat (pg_through_cursor page)) (me_changes e))"
proof (cases "st_commit_cursor r = 0")
  case True
  with assms(1) show ?thesis by (auto simp: engine_read_changes_def memory_change_page_def res_simps)
next
  case False
  let ?k = "unat (st_commit_cursor r)"
  have "memory_validate_read_stamp e r = Ok ()"
    and page: "memory_change_page (me_changes e) (st_commit_cursor r) 0 USIZE_MAX (Some (st_scope r)) = Ok page"
    using assms(1) by (auto simp: engine_read_changes_def res_simps)
  then have k: "?k \<le> length (me_changes e)" unfolding stamp_retained_iff by (simp add: stamp_retained_def)
  have "usize_saturating_add 0 USIZE_MAX = USIZE_MAX" by (simp add: usize_saturating_add_def USIZE_MAX_def)
  moreover have "?k \<le> USIZE_MAX" using unat_u64_less [of "st_commit_cursor r"] by (simp add: USIZE_MAX_def)
  ultimately have "page = \<lparr>pg_requested_after = 0, pg_through_cursor = word_of_nat ?k, pg_head_cursor = st_commit_cursor r,
      pg_changes = filter (\<lambda>c. st_scope r = ch_scope c) (subslice 0 ?k (me_changes e))\<rparr>"
    using page False k by (simp add: memory_change_page_def Let_def u64_max_def min_absorb1 min_absorb2
        split: if_splits)
  moreover have "filter (\<lambda>c. st_scope r = ch_scope c) xs = filter (\<lambda>c. ch_scope c = st_scope r) xs" for xs
    by (rule filter_cong) auto
  ultimately show ?thesis using k by (simp add: subslice_def)
qed

lemma commit_loop_length:
  "try_fold (commit_one c i start) xs (p, acc, pend) = Ok (p', acc', pend') \<Longrightarrow> length acc' = length acc + length xs"
proof (induction xs arbitrary: p acc pend)
  case (Cons x xs)
  then obtain q b d where "commit_one c i start x (p, acc, pend) = Ok (q, b, d)" "try_fold (commit_one c i start) xs (q, b, d) = Ok (p', acc', pend')"
    by (auto simp: res_simps)
  moreover from this have "length b = Suc (length acc)" by (auto simp: commit_one_def Let_def res_simps split: prod.splits)
  ultimately show ?case using Cons.IH by fastforce
qed simp

lemma insert_claims_frame:
  "cfor cs (\<lambda>c _. insert_claim c) () e = (r, e') \<Longrightarrow> me_changes e' = me_changes e \<and> me_last_audit_digest e' = me_last_audit_digest e"
proof (induction cs arbitrary: e)
  case (Cons c cs)
  then show ?case by (auto simp: run_simps insert_claim_def split: sum.splits prod.splits)
qed (simp add: run_simps)

lemma commit_length:
  assumes "engine_commit_runtime c e = (Ok out, e')"
  shows "check_commit c e = Ok ()" and "length (me_changes e') = length (me_changes e) + length (cm_mutations c)"
proof -
  show "check_commit c e = Ok ()" using assms by (auto simp: engine_commit_runtime_def run_simps split: sum.splits)
  show "length (me_changes e') = length (me_changes e) + length (cm_mutations c)"
    using assms
    by (auto simp: engine_commit_runtime_def Let_def run_simps map_err_def split: sum.splits prod.splits
        dest!: insert_claims_frame commit_loop_length)
qed

lemma commit_success:
  assumes wf: "engine_wf e" and run: "engine_commit_runtime c e = (Ok out, e')" and room: "length (me_changes e') < 2 ^ 64"
  shows "me_changes e' = me_changes e @ link_changes c (word_of_nat (length (me_changes e))) 0 (head_digest_of (me_changes e)) (cm_mutations c)"
    and "out = commit_outcome c e" and "cm_expected_cursor c = word_of_nat (length (me_changes e))"
proof -
  note ok = commit_length [OF run]
  have "length (me_changes e) + length (cm_mutations c) < 2 ^ 64" using room ok(2) by simp
  from commit_result [OF wf_simps(13) [OF wf] this ok(1)] run
  show "me_changes e' = me_changes e @ link_changes c (word_of_nat (length (me_changes e))) 0 (head_digest_of (me_changes e)) (cm_mutations c)"
    "out = commit_outcome c e" by auto
  show "cm_expected_cursor c = word_of_nat (length (me_changes e))"
    using ok(1) by (auto simp: check_commit_def res_simps Let_def split: if_splits)
qed

interpretation memory_runtime: runtime_log memory_port engine_wf me_changes
proof (unfold_locales, goal_cases)
  case (1 e)
  then show ?case using wf_simps(4) [OF 1] by simp
next
  case (2 e i)
  then show ?case using wf_simps(5) [OF 2(1)] by (simp add: log_wf_def)
next
  case (3 e r page)
  then show ?case using read_all_page wf_simps(4) [OF 3(1)] by (simp add: memory_port_def)
next
  case (4 e c out e')
  then have run: "engine_commit_runtime c e = (Ok out, e')" by (simp add: memory_port_def)
  let ?cs = "link_changes c (word_of_nat (length (me_changes e))) 0 (head_digest_of (me_changes e)) (cm_mutations c)"
  note s = commit_success [OF 4(1) run 4(3)]
  have "commit_changes c ?cs" by (rule link_changes_commit) (simp_all add: s(3))
  with s wf_simps(4) [OF 4(1)] show ?case by (intro exI [of _ ?cs]) (simp add: commit_outcome_def Let_def)
qed

section \<open>Commits\<close>

text \<open>C2. A runtime commit is atomic. On every reachable engine it fails exactly when one of its checks fails (its own
  validity, the expected cursor, the schema revision, the schema's constraints, a dangling reference, an invalid claim),
  and then the engine is unchanged. Otherwise it succeeds: the change log grows by exactly the mutations in their order,
  numbered from the expected cursor, which is the position of the log's end; the claim log grows by the embedded claims;
  and the outcome and a valid audit envelope are recorded under the content identity of the commit.\<close>

theorem engine_commit_atomic:
  assumes "engine_reachable e" and "length (me_changes e) + length (cm_mutations c) < 2 ^ 63"
  shows "case check_commit c e of
      Inl x \<Rightarrow> engine_commit_runtime c e = (Err x, e)
    | Inr _ \<Rightarrow> \<exists>out e' cs. engine_commit_runtime c e = (Ok out, e')
        \<and> me_changes e' = me_changes e @ cs \<and> commit_changes c cs \<and> unat (cm_expected_cursor c) = length (me_changes e)
        \<and> me_order e' = me_order e @ List.map_filter claim_of (cm_mutations c)
        \<and> unat (co_first_cursor out) = length (me_changes e) + 1 \<and> unat (co_last_cursor out) = length (me_changes e')
        \<and> runtime_commit_outcome_of e' (commit_digest c) = Ok (Some out)
        \<and> (\<exists>a. runtime_audit e' (commit_digest c) = Ok (Some a) \<and> audit_validate a = Ok ()
            \<and> au_previous_digest a = me_last_audit_digest e \<and> au_outcome_cursor a = Some (co_last_cursor out))"
proof (cases "check_commit c e")
  case (Inl x)
  then show ?thesis by (simp add: commit_rejected)
next
  case (Inr u)
  then have ok: "check_commit c e = Ok ()" by simp
  note wf = reachable_wf [OF assms(1)]
  let ?cs = "link_changes c (word_of_nat (length (me_changes e))) 0 (head_digest_of (me_changes e)) (cm_mutations c)"
  have "length (me_changes e) + length (cm_mutations c) < 2 ^ 64" using assms(2) by simp
  from commit_result [OF wf_simps(13) [OF wf] this ok] obtain m a where
    a: "audit_validate a = Ok ()" "au_previous_digest a = me_last_audit_digest e"
      "au_outcome_cursor a = Some (co_last_cursor (commit_outcome c e))"
    and run: "engine_commit_runtime c e = (Ok (commit_outcome c e),
        (committed_engine c m a e)\<lparr>me_commits := bt_insert (commit_digest c) (commit_outcome c e) (me_commits e)\<rparr>)" by blast
  have cursor: "cm_expected_cursor c = word_of_nat (length (me_changes e))"
    using ok by (auto simp: check_commit_def res_simps Let_def split: if_splits)
  have n: "unat (word_of_nat (length (me_changes e)) :: u64) = length (me_changes e)" using assms(2) by simp
  have first: "unat (word_of_nat (length (me_changes e)) + 1 :: u64) = length (me_changes e) + 1"
  proof -
    have "(word_of_nat (length (me_changes e)) + 1 :: u64) = word_of_nat (Suc (length (me_changes e)))" by simp
    also have "unat \<dots> = Suc (length (me_changes e))" by (rule unat_u64_of_nat) (use assms(2) in simp)
    finally show ?thesis by simp
  qed
  have "unat (word_of_nat (length (me_changes e) + length (cm_mutations c)) :: u64) = length (me_changes e) + length (cm_mutations c)"
    by (rule unat_u64_of_nat) (use assms(2) in simp)
  moreover have "commit_changes c ?cs" by (rule link_changes_commit) (simp_all add: cursor)
  ultimately show ?thesis
    using run cursor n first a
    by (simp add: Inr runtime_commit_outcome_of_def runtime_audit_def bt_get_insert commit_outcome_def Let_def)
qed

theorem engine_commit_atomic_witness:
  "\<exists>out e'. engine_commit_runtime example_commit engine_new = (Ok out, e') \<and> unat (co_last_cursor out) = 5
    \<and> me_order e' = [example_claim 100 None 1] \<and> runtime_commit_outcome_of e' (commit_digest example_commit) = Ok (Some out)"
proof -
  have e: "engine_reachable engine_new" by (simp add: engine_reachable_def engine_steps.start)
  have "length (me_changes engine_new) + length (cm_mutations example_commit) < 2 ^ 63"
    by (simp add: engine_new_def example_commit_facts)
  from engine_commit_atomic [OF e this] obtain out e' where
    "engine_commit_runtime example_commit engine_new = (Ok out, e')" "unat (co_last_cursor out) = length (me_changes e')"
    "me_order e' = me_order engine_new @ List.map_filter claim_of (cm_mutations example_commit)"
    "runtime_commit_outcome_of e' (commit_digest example_commit) = Ok (Some out)"
    by (auto simp: example_commit_checked)
  with example_engine_run example_engine_facts show ?thesis by auto
qed

section \<open>The invariant\<close>

text \<open>C3. In every reachable engine the runtime log is authoritative and sound: its changes are numbered from one and
  linked by their digests; every index beside it (records, relations, vectors, samples, places, objects, schemas) is
  exactly the replay of the log, and the outbox is exactly the work its changes require; every reference of every logged
  mutation names a stored record of the same scope; in every scope with a schema the latest records and relations obey its
  uniqueness and cardinality constraints at every instant but the last; the recorded audit envelopes are valid; and the
  claim log holds exactly the stored claims.\<close>

theorem engine_invariant:
  assumes "engine_reachable e"
  shows "chained change_bytes ch_previous_digest ch_digest None (me_changes e)
    \<and> (\<forall>i<length (me_changes e). ch_cursor (me_changes e ! i) = word_of_nat (Suc i))
    \<and> same_indexes e (replay_log (me_changes e)) \<and> me_outbox e = queue_log (me_changes e)
    \<and> (\<forall>ch\<in>set (me_changes e). \<forall>r\<in>set (mutation_references (ch_mutation ch)). bt_get (me_records e) (ch_scope ch, r) \<noteq> None)
    \<and> (\<forall>scope g t. bt_get (me_schemas e) scope = Some g \<longrightarrow>
      (t \<noteq> u64_max \<longrightarrow> unique_at g (in_scope scope (me_records e)) t) \<and> limits_at g (in_scope scope (me_relations e)) t)
    \<and> (\<forall>i a. runtime_audit e i = Ok (Some a) \<longrightarrow> audit_validate a = Ok ())
    \<and> memory_contents (me_claims e) = record_all (me_order e) {}"
proof (intro conjI)
  note wf = reachable_wf [OF assms]
  from wf_simps(5) [OF wf] show "chained change_bytes ch_previous_digest ch_digest None (me_changes e)"
    "\<forall>i<length (me_changes e). ch_cursor (me_changes e ! i) = word_of_nat (Suc i)" unfolding log_wf_def by blast+
  show "same_indexes e (replay_log (me_changes e))" "me_outbox e = queue_log (me_changes e)"
    using wf_simps(6,7) [OF wf] by blast+
  show "\<forall>ch\<in>set (me_changes e). \<forall>r\<in>set (mutation_references (ch_mutation ch)). bt_get (me_records e) (ch_scope ch, r) \<noteq> None"
    using wf_simps(11) [OF wf] unfolding references_resolve_def .
  show "\<forall>scope g t. bt_get (me_schemas e) scope = Some g \<longrightarrow>
      (t \<noteq> u64_max \<longrightarrow> unique_at g (in_scope scope (me_records e)) t) \<and> limits_at g (in_scope scope (me_relations e)) t"
    using wf_simps(12) [OF wf] unfolding schemas_hold_def by blast
  show "\<forall>i a. runtime_audit e i = Ok (Some a) \<longrightarrow> audit_validate a = Ok ()"
    using wf_simps(14) [OF wf] by (simp add: runtime_audit_def)
  show "memory_contents (me_claims e) = record_all (me_order e) {}" by (rule wf_simps(2) [OF wf])
qed

theorem engine_invariant_witness:
  "chained change_bytes ch_previous_digest ch_digest None (me_changes example_engine) \<and> length (me_changes example_engine) = 5
    \<and> same_indexes example_engine (replay_log (me_changes example_engine))
    \<and> bt_get (me_records example_engine) ([115], Ref [100] [65]) \<noteq> None"
proof -
  let ?ch = "me_changes example_engine ! 3"
  have ch: "?ch \<in> set (me_changes example_engine)" "ch_scope ?ch = [115]" "ch_mutation ?ch = MRelation example_link"
    using nth_link_changes [of 3 "cm_mutations example_commit" example_commit 0 0 None]
    by (simp_all add: example_engine_facts(5) example_commit_facts(1)) (simp_all add: example_commit_def)
  then have "Ref [100] [65] \<in> set (mutation_references (ch_mutation ?ch))" by (simp add: example_link_def)
  with engine_invariant [OF example_engine_reachable] ch(1,2) have "bt_get (me_records example_engine) ([115], Ref [100] [65]) \<noteq> None"
    by metis
  with engine_invariant [OF example_engine_reachable] example_engine_facts(2) show ?thesis by blast
qed

section \<open>Stamped reads\<close>

lemma change_page_append:
  assumes "unat head \<le> length log"
  shows "memory_change_page (log @ cs) head after limit scope = memory_change_page log head after limit scope"
  using assms
  by (auto simp: memory_change_page_def Let_def min_def subslice_append_left)

lemma change_page_total: "unat head \<le> length log \<Longrightarrow> is_ok (memory_change_page log head after limit scope)"
  using unat_u64_less [of head]
  by (auto simp: memory_change_page_def Let_def usize_saturating_add_def word_le_nat_alt not_le is_ok_iff min_def)

text \<open>C6. Snapshot isolation. A page read through a leased snapshot is, whatever was committed, appended, leased or
  released since, exactly the page the live log of the snapshot's scope gave at the moment the snapshot was opened, as
  long as the lease is neither released nor expired; such a read never fails.\<close>

theorem snapshot_isolation:
  assumes "engine_reachable e" and "open_runtime_snapshot scope owner now ttl e = (Ok h, e1)" and "engine_steps e1 e2"
    and "bt_get (me_snapshots e2) (sh_id h) = Some h" and "\<not> snapshot_is_expired h t" and "limit \<noteq> 0"
  shows "(runtime_snapshot_changes e2 h after limit t = engine_changes_since e after limit (Some scope))
    \<and> (is_ok (runtime_snapshot_changes e2 h after limit t))"
proof (intro conjI)
  note wf = reachable_wf [OF assms(1)]
  note o = opened_snapshot [OF wf assms(2)]
  have "engine_step e e1" using assms(2) by (rule engine_step.open_lease)
  from step_keeps [OF wf this] have "engine_wf e1" by blast
  then obtain cs where cs: "me_changes e2 = me_changes e @ cs" using steps_keep [OF assms(3)] by (auto simp: o(1))
  have n: "st_commit_cursor (sh_read h) = word_of_nat (length (me_changes e))"
    using o(5) wf_simps(4) [OF wf] by (simp add: word_unat_eq_iff)
  have le: "unat (st_commit_cursor (sh_read h)) \<le> length (me_changes e)" using o(5) by simp
  have page: "runtime_snapshot_changes e2 h after limit t =
      memory_change_page (me_changes e) (st_commit_cursor (sh_read h)) after limit (Some scope)"
    using assms(4-6) o(2,4)
    by (simp add: runtime_snapshot_changes_def page_limit_def cs change_page_append [OF le])
  then show "runtime_snapshot_changes e2 h after limit t = engine_changes_since e after limit (Some scope)"
    using assms(6) by (simp add: engine_changes_since_def page_limit_def n)
  show "is_ok (runtime_snapshot_changes e2 h after limit t)" unfolding page by (rule change_page_total [OF le])
qed

theorem snapshot_isolation_witness:
  "\<exists>h e1. open_runtime_snapshot [115] [97] 1 10 example_engine = (Ok h, e1)
    \<and> runtime_snapshot_changes (snd (engine_put_projection_with [1] [2] ClassBuffered e1)) h 0 2 5
      = engine_changes_since example_engine 0 2 (Some [115])"
proof -
  obtain h e1 where o: "open_runtime_snapshot [115] [97] 1 10 example_engine = (Ok h, e1)" "sh_expires_at h = 11"
    using example_lease by blast
  let ?e2 = "snd (engine_put_projection_with [1] [2] ClassBuffered e1)"
  have "engine_step e1 ?e2" by (rule engine_step.put [of "[1]" "[2]" ClassBuffered e1 "Ok ()"]) (simp add: engine_put_projection_with_def run_simps)
  then have steps: "engine_steps e1 ?e2" using engine_steps.intros by blast
  have "bt_get (me_snapshots ?e2) (sh_id h) = Some h"
    using opened_snapshot(1) [OF reachable_wf [OF example_engine_reachable] o(1)]
    by (simp add: engine_put_projection_with_def run_simps bt_get_insert)
  moreover have "\<not> snapshot_is_expired h 5" by (simp add: snapshot_is_expired_def o(2))
  ultimately have "runtime_snapshot_changes ?e2 h 0 2 5 = engine_changes_since example_engine 0 2 (Some [115])"
    using snapshot_isolation [OF example_engine_reachable o(1) steps] by simp
  with o(1) show ?thesis by blast
qed

text \<open>C14. Read stamps bind the log. Two engines that both accept a read stamp hold the same changes up to its cursor,
  unless two of those changes are a SHA-256 collision; and every stamp an engine issues it accepts from then on.\<close>

theorem read_stamp_binds_log:
  assumes "engine_reachable e" and "engine_reachable d"
    and "memory_validate_read_stamp e s = Ok ()" and "memory_validate_read_stamp d s = Ok ()"
    and "list_all change_sized (me_changes e)" and "list_all change_sized (me_changes d)"
  shows "(take (unat (st_commit_cursor s)) (me_changes e) = take (unat (st_commit_cursor s)) (me_changes d)
      \<or> (\<exists>a\<in>set (me_changes e). \<exists>b\<in>set (me_changes d). sha256_collision (change_bytes a) (change_bytes b)))
    \<and> (\<exists>r. memory_read_stamp e scope = Ok r \<and> (\<forall>e'. engine_steps e e' \<longrightarrow> memory_validate_read_stamp e' r = Ok ()))"
proof (intro conjI)
  let ?k = "unat (st_commit_cursor s)"
  note wf = reachable_wf [OF assms(1)] reachable_wf [OF assms(2)]
  have pre: "chained change_bytes ch_previous_digest ch_digest None (take k (me_changes x))" if "engine_wf x" for k x
    using wf_simps(5) [OF that] append_take_drop_id [of k "me_changes x"] chained_append unfolding log_wf_def by metis
  have "last_digest ch_digest None (take ?k (me_changes e)) = last_digest ch_digest None (take ?k (me_changes d))"
    using assms(3,4) unfolding stamp_retained_iff stamp_retained_def head_digest_of_def by simp
  from change_log.last_digest_commits [OF pre [OF wf(1)] pre [OF wf(2)] _ _ this]
  show "take ?k (me_changes e) = take ?k (me_changes d)
      \<or> (\<exists>a\<in>set (me_changes e). \<exists>b\<in>set (me_changes d). sha256_collision (change_bytes a) (change_bytes b))"
    using assms(5,6) by (fastforce simp: list_all_iff dest: in_set_takeD)
  obtain r where r: "memory_read_stamp e scope = Ok r" using read_stamp_total [OF wf(1)] by blast
  have "memory_validate_read_stamp e' r = Ok ()" if "engine_steps e e'" for e'
    using steps_keep [OF that wf(1)] read_stamp_retained(1) [OF wf(1) r] stamp_retained_append unfolding stamp_retained_iff by metis
  with r show "\<exists>r. memory_read_stamp e scope = Ok r \<and> (\<forall>e'. engine_steps e e' \<longrightarrow> memory_validate_read_stamp e' r = Ok ())"
    by blast
qed

theorem read_stamp_binds_log_witness:
  "\<exists>r. memory_read_stamp example_engine [115] = Ok r
    \<and> memory_validate_read_stamp (snd (engine_put_projection_with [1] [2] ClassBuffered example_engine)) r = Ok ()"
proof -
  let ?e = "snd (engine_put_projection_with [1] [2] ClassBuffered example_engine)"
  obtain s where s: "memory_read_stamp example_engine [115] = Ok s"
    using read_stamp_total [OF reachable_wf [OF example_engine_reachable]] by blast
  have "memory_validate_read_stamp example_engine s = Ok ()"
    unfolding stamp_retained_iff by (rule read_stamp_retained(1) [OF reachable_wf [OF example_engine_reachable] s])
  note binds = read_stamp_binds_log [OF example_engine_reachable example_engine_reachable this this example_changes_sized example_changes_sized]
  have "engine_step example_engine ?e"
    by (rule engine_step.put [of "[1]" "[2]" ClassBuffered example_engine "Ok ()"]) (simp add: engine_put_projection_with_def run_simps)
  then have "engine_steps example_engine ?e" using engine_steps.intros by blast
  with binds show ?thesis by blast
qed

text \<open>C13. A preview shows the future. When a transaction can be previewed and then commits, the graph reconstructed
  from the committed log at the new cursor has, at the previewed instant, exactly the records and relations of the
  preview, and the previewed cursor is the last cursor of the commit.\<close>

theorem preview_shows_committed_graph:
  assumes "engine_reachable e" and "preview_data_transaction memory_port t vt e = Ok view"
    and "commit_data_transaction memory_port t e = (Ok out, e')" and "length (me_changes e') < 2 ^ 64"
  shows "tv_prospective_cursor view = co_last_cursor out
    \<and> gs_records (from_changes (me_changes e') (st_scope (tn_read t)) vt (co_last_cursor out)) = tv_records view
    \<and> gs_relations (from_changes (me_changes e') (st_scope (tn_read t)) vt (co_last_cursor out)) = tv_relations view"
  using memory_runtime.preview_commit [OF reachable_wf [OF assms(1)] assms(2-4)] by simp

definition example_transaction :: "read_stamp \<Rightarrow> data_transaction" where
  "example_transaction s = \<lparr>tn_contract_version = DATA_RUNTIME_CONTRACT_VERSION, tn_read = s, tn_commit = example_commit\<rparr>"

lemma example_preview:
  assumes "memory_read_stamp engine_new [115] = Ok s"
  shows "transaction_validate (example_transaction s) = Ok ()"
    and "\<exists>view. preview_data_transaction memory_port (example_transaction s) 15 engine_new = Ok view"
    and "st_scope s = [115]"
proof -
  note r = read_stamp_retained [OF engine_wf_new assms]
  have s: "read_stamp_validate s = Ok ()" "st_scope s = [115]" "st_commit_cursor s = 0"
    using r by (simp_all add: stamp_retained_def engine_new_def unat_eq_0)
  have c: "commit_validate example_commit = Ok ()" using example_commit_checked by (auto simp: check_commit_def res_simps)
  show t: "transaction_validate (example_transaction s) = Ok ()"
    using s c by (simp add: transaction_validate_def example_transaction_def example_commit_def)
  have page: "engine_read_changes engine_new s 0 USIZE_MAX =
      Ok \<lparr>pg_requested_after = 0, pg_through_cursor = 0, pg_head_cursor = 0, pg_changes = []\<rparr>"
    using r(1) [folded stamp_retained_iff] by (simp add: engine_read_changes_def page_limit_def USIZE_MAX_def memory_change_page_def s)
  have "checked_add (0 :: u64) 5 = Some 5" by (simp add: checked_add_eq_Some)
  then show "\<exists>view. preview_data_transaction memory_port (example_transaction s) 15 engine_new = Ok view"
    using t s page
    by (simp add: preview_data_transaction_def memory_port_def preview_def example_transaction_def from_changes_def Let_def
        example_commit_facts view_validate_def transaction_digest_def case_prod_beta)
  show "st_scope s = [115]" by (rule s)
qed

theorem preview_shows_committed_graph_witness:
  "\<exists>s view out e'. preview_data_transaction memory_port (example_transaction s) 15 engine_new = Ok view
    \<and> commit_data_transaction memory_port (example_transaction s) engine_new = (Ok out, e')
    \<and> gs_records (from_changes (me_changes e') [115] 15 (co_last_cursor out)) = tv_records view"
proof -
  have e: "engine_reachable engine_new" by (simp add: engine_reachable_def engine_steps.start)
  obtain s where s: "memory_read_stamp engine_new [115] = Ok s" using read_stamp_total [OF engine_wf_new] by blast
  obtain view where v: "preview_data_transaction memory_port (example_transaction s) 15 engine_new = Ok view"
    using example_preview(2) [OF s] by blast
  have run: "commit_data_transaction memory_port (example_transaction s) engine_new
      = (Ok (commit_outcome example_commit engine_new), example_engine)"
    using example_engine_run example_preview(1) [OF s]
    by (simp add: commit_data_transaction_def run_simps memory_port_def) (simp add: example_transaction_def)
  have "length (me_changes example_engine) < 2 ^ 64" by (simp add: example_engine_facts(2))
  from preview_shows_committed_graph [OF e v run this] v run example_preview(3) [OF s] show ?thesis
    by (auto simp: example_transaction_def)
qed

section \<open>The current-state projection\<close>

lemma record_all_subset: "record_all cs S \<subseteq> set cs \<union> S"
  by (induction cs arbitrary: S) fastforce+

lemma recorded_newest:
  "newest_recorded cs k c \<longleftrightarrow>
    c \<in> record_all cs {} \<and> pair_of c = k \<and> (\<forall>d\<in>record_all cs {}. pair_of d = k \<longrightarrow> version_of d \<le> version_of c)"
proof (induction cs arbitrary: c rule: rev_induct)
  case (snoc x cs)
  let ?R = "record_all cs {}"
  have R: "record_all (cs @ [x]) {} = insert x {d \<in> ?R. \<not> same_version d x}" by (simp add: record_all_append)
  have same: "same_version d x \<longleftrightarrow> pair_of d = pair_of x \<and> version_of d = version_of x" for d
    by (auto simp: same_version_def pair_of_def version_of_def)
  have bound: "(\<forall>d\<in>set cs. pair_of d = k \<longrightarrow> version_of d \<le> v) \<longleftrightarrow> (\<forall>d\<in>?R. pair_of d = k \<longrightarrow> version_of d \<le> v)" for v
  proof (cases "\<exists>d\<in>set cs. pair_of d = k")
    case True
    then obtain n where n: "newest_recorded cs k n" using newest_recorded_ex by blast
    then have m: "n \<in> set cs" "n \<in> ?R" "pair_of n = k" using snoc newest_recorded_mem by blast+
    have top: "\<forall>d\<in>?R. pair_of d = k \<longrightarrow> version_of d \<le> version_of n" using n snoc by blast
    have "(\<forall>d\<in>set cs. pair_of d = k \<longrightarrow> version_of d \<le> v) \<longleftrightarrow> version_of n \<le> v"
      using newest_recorded_max [OF n] m by (blast intro: order_trans)
    also have "\<dots> \<longleftrightarrow> (\<forall>d\<in>?R. pair_of d = k \<longrightarrow> version_of d \<le> v)" using top m by (blast intro: order_trans)
    finally show ?thesis .
  next
    case False
    have "?R \<subseteq> set cs" using record_all_subset [of cs "{}"] by simp
    with False show ?thesis by blast
  qed
  show ?case
  proof (cases "pair_of x = k \<and> (\<forall>d\<in>?R. pair_of d = k \<longrightarrow> version_of d \<le> version_of x)")
    case True
    then show ?thesis unfolding newest_recorded_snoc bound R
      by (auto simp: same dest: antisym)
  next
    case False
    have "newest_recorded (cs @ [x]) k c \<longleftrightarrow> newest_recorded cs k c" using False unfolding newest_recorded_snoc bound by argo
    also have "\<dots> \<longleftrightarrow> c \<in> ?R \<and> pair_of c = k \<and> (\<forall>d\<in>?R. pair_of d = k \<longrightarrow> version_of d \<le> version_of c)" by (rule snoc)
    also have "\<dots> \<longleftrightarrow> c \<in> record_all (cs @ [x]) {} \<and> pair_of c = k
        \<and> (\<forall>d\<in>record_all (cs @ [x]) {}. pair_of d = k \<longrightarrow> version_of d \<le> version_of c)" (is "?a \<longleftrightarrow> ?b")
    proof
      assume a: ?a
      then have "pair_of x = k \<Longrightarrow> version_of x < version_of c" using False by (meson not_le order_trans)
      with a show ?b unfolding R by (auto simp: same)
    next
      assume b: ?b
      have "c \<noteq> x"
      proof
        assume "c = x"
        with b False obtain d where "d \<in> ?R" and "pair_of d = k" and "\<not> version_of d \<le> version_of x" by blast
        moreover from this have "\<not> same_version d x" by (auto simp: same)
        ultimately have "d \<in> record_all (cs @ [x]) {}" by (simp add: R)
        with b \<open>pair_of d = k\<close> \<open>\<not> version_of d \<le> version_of x\<close> show False unfolding \<open>c = x\<close> by blast
      qed
      have "version_of d \<le> version_of c" if "d \<in> ?R" "pair_of d = k" for d
      proof (cases "same_version d x")
        case True
        then have "pair_of x = k" "version_of d = version_of x" using that by (simp_all add: same)
        with b show ?thesis unfolding R by simp
      qed (use b that in \<open>simp add: R\<close>)
      with b \<open>c \<noteq> x\<close> show ?a by (simp add: R)
    qed
    finally show ?thesis .
  qed
qed simp

lemma projection_head:
  assumes wf: "engine_wf e" and id: "ident_ok s" "ident_ok p"
  shows "\<exists>vs. engine_all_versions e s p = Ok vs
    \<and> bt_get (entries_of (me_order e)) (s, p) = (case vs of [] \<Rightarrow> None | v # _ \<Rightarrow> Some v)"
proof -
  note m = wf_simps(1,2) [OF wf]
  obtain vs where vs: "memory_all_versions (me_claims e) s p = Ok vs"
    using memory.all_total [OF m(1) id] by (auto simp: is_ok_iff)
  note sv = memory.all_set [OF m(1) id vs] memory.all_sorted [OF m(1) id vs]
  have set: "set vs = {c \<in> record_all (me_order e) {}. pair_of c = (s, p)}"
    using sv(1) by (auto simp: m(2) claim_versions_def pair_of_def)
  have "bt_get (entries_of (me_order e)) (s, p) = (case vs of [] \<Rightarrow> None | v # _ \<Rightarrow> Some v)"
  proof (cases vs)
    case Nil
    then have "\<not> newest_recorded (me_order e) (s, p) c" for c using set unfolding recorded_newest by auto
    then show ?thesis using Nil entries_newest by (metis list.simps(4) option.exhaust)
  next
    case (Cons v ws)
    have "version_of d \<le> version_of v" if "d \<in> set vs" for d
      using that sv(2) by (auto simp: Cons newer_claim_def version_of_def less_eq_prod_def)
    moreover have "v \<in> set vs" by (simp add: Cons)
    ultimately have "newest_recorded (me_order e) (s, p) v" unfolding recorded_newest using set by blast
    then show ?thesis by (simp add: Cons entries_newest)
  qed
  with vs show ?thesis by (simp add: engine_all_versions_def infallible_def)
qed





end
