(* ===== verification/Spec2Isabelle.thy ===== *)
theory Spec2Isabelle
  imports Database_System Recall Reasoning Cluster_Run Runtime_Constraints Runtime_Stamp Runtime_Graph_Facts Memory_Properties
begin

text \<open>
  \<^bold>\<open>Verification development of vyrm.\<close> The program is a claim store: bitemporal claims and typed runtime records are
  appended to hash-linked logs, read at exact snapshots, and kept on a log-structured storage engine of its own. The
  crates depend on one another from the bottom up: \<^verbatim>\<open>vyrm-kv\<close> is the storage engine (write-ahead log, memtable,
  segments, manifests, database); \<^verbatim>\<open>vyrm-core\<close> is the pure kernel (identifiers, claims, temporal resolution, recall,
  reasoning runs, runtime records, schemas, commits, stamps); \<^verbatim>\<open>vyrm-cluster\<close> is the replication contract with its
  simulator; \<^verbatim>\<open>vyrm-store\<close> puts the kernel behind a storage port. Paths below are relative to \<^verbatim>\<open>src/crates\<close>.

  \<^bold>\<open>Foundations.\<close> \<^verbatim>\<open>Vyrm_Prelude\<close> holds byte strings and machine integers (64-bit and 32-bit words; \<open>usize\<close> is a
  natural number of at most 64 bits), big-endian encodings, the result type with \<open>rbind\<close>, \<open>ensure\<close> and
  \<open>try_fold\<close>, and the lemmas the components share. \<^verbatim>\<open>Kv_State\<close> is a computation with state and errors (\<open>fallible\<close>:
  an error keeps the changes made before it) with its Hoare triples. \<^verbatim>\<open>Ordered_Map\<close> is \<open>BTreeMap\<close> as a sorted
  association list. \<^verbatim>\<open>Versions\<close> is the history of operations that a snapshot read replays. \<^verbatim>\<open>Framing\<close>, \<^verbatim>\<open>Delimited\<close> and
  \<^verbatim>\<open>Hash_Chain\<close> hold the contracts of record framing, self-delimiting fields and hash chains.

  \<^bold>\<open>Storage engine\<close> (\<^verbatim>\<open>vyrm-kv/src\<close>).
  \<^item> \<^verbatim>\<open>Kv_Error\<close>, \<^verbatim>\<open>Batch\<close> (\<^verbatim>\<open>batch.rs\<close>), \<^verbatim>\<open>Wal\<close> (\<^verbatim>\<open>wal.rs\<close>): the batch codec is canonical; whatever a crash or a failing
    append leaves in the log, recovery returns the acknowledged batches and at most one more.
  \<^item> \<^verbatim>\<open>Memtable\<close> (\<^verbatim>\<open>memtable.rs\<close>); \<^verbatim>\<open>Segment_Record\<close>, \<^verbatim>\<open>Segment_Format\<close>, \<^verbatim>\<open>Segment_Wf\<close>, \<^verbatim>\<open>Segment_Roundtrip\<close>,
    \<^verbatim>\<open>Block_Cache\<close>, \<^verbatim>\<open>Segment_Reads\<close> (\<^verbatim>\<open>segment.rs\<close>): a written segment opens to the versions it was written from,
    every read of whatever opens is a view of one sorted entry list, and the shared cache serves what decoding gives.
  \<^item> \<^verbatim>\<open>Manifest\<close> (\<^verbatim>\<open>manifest.rs\<close>), \<^verbatim>\<open>Snapshot_Bundle\<close> (\<^verbatim>\<open>snapshot_bundle.rs\<close>): publication is a compare-and-swap under every I/O
    outcome; bundles round-trip.
  \<^item> \<^verbatim>\<open>Database\<close> (\<^verbatim>\<open>database.rs\<close>) with \<^verbatim>\<open>Database_State\<close>, \<^verbatim>\<open>Database_Reads\<close>, \<^verbatim>\<open>Database_Write\<close>, \<^verbatim>\<open>Database_Flush\<close>, \<^verbatim>\<open>Compaction\<close>,
    \<^verbatim>\<open>Database_Compaction\<close>, \<^verbatim>\<open>Database_Gc\<close>, \<^verbatim>\<open>Database_Snapshot\<close> and \<^verbatim>\<open>Database_System\<close>: the abstract state is the history
    of acknowledged operations; every interleaving of operations, failures and restarts refines it.

  \<^bold>\<open>Kernel\<close> (\<^verbatim>\<open>vyrm-core/src\<close>).
  \<^item> \<^verbatim>\<open>Digest\<close> (\<^verbatim>\<open>digest.rs\<close>): incremental SHA-256 equals the one-shot function.
  \<^item> \<^verbatim>\<open>Claim_Key\<close> (\<^verbatim>\<open>ident.rs\<close>, \<^verbatim>\<open>key.rs\<close>), \<^verbatim>\<open>Claim\<close> (\<^verbatim>\<open>claim.rs\<close>), \<^verbatim>\<open>Temporal\<close> (\<^verbatim>\<open>temporal.rs\<close>), \<^verbatim>\<open>Reference_Claims\<close>
    (\<^verbatim>\<open>reference.rs\<close>), \<^verbatim>\<open>Recall\<close> (\<^verbatim>\<open>recall.rs\<close>): byte order on keys is the order of versions, as-of reads return the claim
    in force, recall returns exactly what is in force within its budget.
  \<^item> \<^verbatim>\<open>Reasoning\<close> (\<^verbatim>\<open>reasoning.rs\<close>): append-only runs as a state machine, replay, tamper evidence, completion.
  \<^item> \<^verbatim>\<open>Runtime_Value\<close>, \<^verbatim>\<open>Runtime_Data\<close>, \<^verbatim>\<open>Runtime_Schema\<close>, \<^verbatim>\<open>Runtime_Constraints\<close>, \<^verbatim>\<open>Runtime_Commit\<close>, \<^verbatim>\<open>Runtime_Stamp\<close>,
    \<^verbatim>\<open>Runtime_Graph\<close>, \<^verbatim>\<open>Runtime_Graph_Facts\<close> (\<^verbatim>\<open>runtime.rs\<close>, \<^verbatim>\<open>data.rs\<close>, \<^verbatim>\<open>schema.rs\<close>): canonical encodings are injective,
    what schema validation guarantees at every instant, stamps and leases, graph snapshots, traversal and differences.

  \<^bold>\<open>Cluster\<close> (\<^verbatim>\<open>vyrm-cluster/src\<close>). \<^verbatim>\<open>Cluster_Contract\<close> (\<^verbatim>\<open>contract.rs\<close>), \<^verbatim>\<open>Cluster_Sim\<close> (\<^verbatim>\<open>sim.rs\<close>), \<^verbatim>\<open>Cluster_Safety\<close>,
  \<^verbatim>\<open>Cluster_Run\<close>: placements and quorums; under any interleaving of proposals, faults and deliveries the replicas agree
  and acknowledged entries stay durable; draining the queue ends.

  \<^bold>\<open>Claim store\<close> (\<^verbatim>\<open>vyrm-store/src\<close>).
  \<^item> \<^verbatim>\<open>Projection\<close> (\<^verbatim>\<open>error.rs\<close>, \<^verbatim>\<open>projection.rs\<close>): the current-state projection, a fold of the claim log.
  \<^item> \<^verbatim>\<open>Engine_Port\<close> (\<^verbatim>\<open>engine.rs\<close>, trait \<open>Engine\<close>): the primitives of a backend are the fields of \<open>engine_port\<close>, the
    provided methods are definitions over any port.
  \<^item> \<^verbatim>\<open>Memory_Engine\<close> (\<^verbatim>\<open>engine.rs\<close>, \<open>MemoryEngine\<close>) with \<^verbatim>\<open>Memory_Commit\<close>, \<^verbatim>\<open>Memory_Invariant\<close>, \<^verbatim>\<open>Memory_System\<close>,
    \<^verbatim>\<open>Memory_Examples\<close>, \<^verbatim>\<open>Memory_Properties\<close>: commits are atomic, the log is authoritative and every index is its replay,
    snapshots are isolated, previews show what a commit produces, the projection agrees with the claims and a divergence
    halts it.

  \<^bold>\<open>Interfaces.\<close> The locale \<open>ordered_map\<close> is the contract of a sorted map (interpreted as \<open>bt\<close> on the map of the model);
  \<open>block_loader\<close> is the contract of loading a block through the cache (\<open>sb\<close>, on segments);
  \<open>cursor_codec\<close> is the contract of record framing (\<open>op\<close> on batch operations, \<open>rec\<close> on segment records); \<open>claim_source\<close> and
  \<open>total_claim_source\<close> are the contracts temporal resolution and recall rely on (\<open>memory\<close>, on the reference claim
  source); \<open>hash_chain\<close> is the contract of a linked ledger (\<open>ledger\<close> on reasoning runs, \<open>change_log\<close> on the runtime
  log); \<open>claim_engine\<close> and \<open>runtime_log\<close> are what the provided methods of the port rely on (\<open>memory_log\<close> and
  \<open>memory_runtime\<close> on the reference engine).

  \<^bold>\<open>Parameters and hypotheses.\<close> The checksum of the log, the compression codec of segments and \<open>serde_json\<close> are
  arguments; \<open>codec_laws\<close>, \<open>json_laws\<close> and \<open>projection_json_laws\<close> say that decoding inverts encoding, and each is
  witnessed by a concrete instance. Where the code relies on SHA-256 the theorems say "unless two named byte strings
  collide" or assume that two files at hand do not; nothing assumes that the hash is injective. I/O steps take their
  outcome as an argument, and the theorems quantify over it. \<open>text_sized\<close> and the bounds below \<open>2 ^ 63\<close> state that a
  byte string or vector fits the address space, which the Rust types guarantee.

  \<^bold>\<open>Bounds and fuel.\<close> Loops are structural recursions over their input where the source iterates; the loops that are not
  (compression blocks of the hash, cache eviction, graph traversal, draining the simulator's queue) are terminating
  functions with a measure, and where a bound on the number of rounds is of interest it is a theorem. No definition
  carries fuel that a caller chooses.

  \<^bold>\<open>Not modelled.\<close> The \<open>fjall\<close> and S3 adapters, migrations, the file-system walk of the routing projection,
  memory-mapped and approximate vector search, embedding jobs, the Raft node over \<open>openraft\<close>, the command line, daemon
  and user interface: they are glue over third-party code or I/O. The query language and its executor, and the
  conversion of trace records, are pure and could be added on top of the runtime theories. Serialisation formats of
  \<open>serde\<close>, \<open>Display\<close> and tracing are left out everywhere; a formatted message is its template with its arguments.
\<close>

end
